(* ===== verification/Gulley_Prelude.thy ===== *)
theory Gulley_Prelude
  imports Complex_Main "HOL-Library.AList" "HOL-Library.Sublist"
begin

text \<open>
  What the component theories share: the JavaScript values the sources use (the insertion
  ordered \<^verbatim>\<open>Map\<close>, numbers with their infinities, JSON values, the string operations)
  and the proof infrastructure (the named collections \<open>js_map\<close> and \<open>js_string\<close>, the locale
  of step functions that keep an invariant).

  Numbers. JavaScript numbers are IEEE doubles. Timestamps, token counts and micro-dollar
  amounts are integers below \<open>2 ^ 53\<close> in the sources and are modelled as \<open>int\<close>; quantities
  that are divided or smoothed are modelled as exact \<open>real\<close>s, so rounding of the last bit is
  not modelled. Division by zero, infinities and NaN are, by the type \<open>jsnum\<close>.

  Strings. A string is a \<open>char list\<close>; a JavaScript string over code units below 256 is one
  \<open>char\<close> per code unit.
\<close>

named_theorems js_map \<open>rules for the insertion ordered map\<close>
named_theorems js_string \<open>rules for the string operations\<close>

section \<open>The insertion ordered map\<close>

text \<open>
  \<^verbatim>\<open>Map.set\<close> on a present key keeps its position and on an absent key appends, \<^verbatim>\<open>Map.delete\<close>
  removes, iteration follows the list: the association lists of \<open>HOL-Library.AList\<close>.
\<close>

type_synonym ('k, 'v) jsmap = "('k \<times> 'v) list"

abbreviation jm_get :: "('k, 'v) jsmap \<Rightarrow> 'k \<Rightarrow> 'v option" where
  "jm_get m k \<equiv> map_of m k"

abbreviation jm_set :: "'k \<Rightarrow> 'v \<Rightarrow> ('k, 'v) jsmap \<Rightarrow> ('k, 'v) jsmap" where
  "jm_set k v m \<equiv> AList.update k v m"

abbreviation jm_delete :: "'k \<Rightarrow> ('k, 'v) jsmap \<Rightarrow> ('k, 'v) jsmap" where
  "jm_delete k m \<equiv> AList.delete k m"

abbreviation jm_ok :: "('k, 'v) jsmap \<Rightarrow> bool" where
  "jm_ok m \<equiv> distinct (map fst m)"

lemma jm_get_set [js_map]: "jm_get (jm_set k v m) k' = (if k' = k then Some v else jm_get m k')"
  by (simp add: update_conv')

lemma jm_get_delete [js_map]: "jm_get (jm_delete k m) k' = (if k' = k then None else jm_get m k')"
  by (simp add: delete_conv')

lemma jm_ok_set [js_map, intro]: "jm_ok m \<Longrightarrow> jm_ok (jm_set k v m)"
  by (rule distinct_update)

lemma jm_ok_delete [js_map, intro]: "jm_ok m \<Longrightarrow> jm_ok (jm_delete k m)"
  by (rule distinct_delete)

lemma jm_in_iff [js_map]: "jm_ok m \<Longrightarrow> (k, v) \<in> set m \<longleftrightarrow> jm_get m k = Some v"
  by (rule map_of_eq_Some_iff [symmetric])

lemma jm_delete_absent [js_map]: "jm_get m k = None \<Longrightarrow> jm_delete k m = m"
  by (induction m) (auto split: if_splits)

lemma jm_delete_Cons [js_map]:
  "jm_delete k ((k', v) # m) = (if k = k' then jm_delete k m else (k', v) # jm_delete k m)"
  by simp

lemma jm_set_mem: "jm_ok m \<Longrightarrow> p \<in> set (jm_set k v m) \<Longrightarrow> p = (k, v) \<or> p \<in> set m"
  by (induction m) (auto split: if_splits)

lemma jm_delete_mem: "p \<in> set (jm_delete k m) \<Longrightarrow> p \<in> set m \<and> fst p \<noteq> k"
  by (induction m) (auto split: if_splits)

lemma jm_get_none_iff: "jm_get m k = None \<longleftrightarrow> k \<notin> fst ` set m"
  by (rule map_of_eq_None_iff)

lemma jm_set_sub: "p \<in> set (jm_set k v m) \<Longrightarrow> p = (k, v) \<or> p \<in> set m"
  by (induction m) (auto split: if_splits)

lemma jm_delete_sub: "set (jm_delete k m) \<subseteq> set m"
  by (auto simp: AList.delete_eq)

lemma jm_set_absent: "k \<notin> fst ` set m \<Longrightarrow> jm_set k v m = m @ [(k, v)]"
  by (induction m) auto

text \<open>The sum of a measure over the values of a map, through updates and deletions.\<close>

definition jm_sum :: "('v \<Rightarrow> int) \<Rightarrow> ('k, 'v) jsmap \<Rightarrow> int" where
  "jm_sum f m = sum_list (map (f \<circ> snd) m)"

lemma jm_sum_Nil [simp]: "jm_sum f [] = 0"
  by (simp add: jm_sum_def)

lemma jm_sum_Cons [simp]: "jm_sum f ((k, v) # m) = f v + jm_sum f m"
  by (simp add: jm_sum_def)

lemma jm_sum_nonneg: "(\<And>k v. (k, v) \<in> set m \<Longrightarrow> 0 \<le> f v) \<Longrightarrow> 0 \<le> jm_sum f m"
  by (auto simp: jm_sum_def intro!: sum_list_nonneg)

lemma jm_sum_set:
  "jm_ok m \<Longrightarrow>
     jm_sum f (jm_set k v m) = jm_sum f m - (case jm_get m k of None \<Rightarrow> 0 | Some u \<Rightarrow> f u) + f v"
proof (induction m)
  case (Cons p m)
  then show ?case by (cases p; cases "jm_get m k") auto
qed simp

lemma jm_sum_delete:
  "jm_ok m \<Longrightarrow>
     jm_sum f (jm_delete k m) = jm_sum f m - (case jm_get m k of None \<Rightarrow> 0 | Some u \<Rightarrow> f u)"
proof (induction m)
  case (Cons p m)
  obtain k' v where p: "p = (k', v)" by (cases p)
  show ?case
  proof (cases "k = k'")
    case True
    with Cons.prems p have "jm_get m k = None" by (simp add: map_of_eq_None_iff)
    with True p show ?thesis by (simp add: jm_delete_absent)
  next
    case False
    with Cons p show ?thesis by simp
  qed
qed simp

section \<open>Numbers\<close>

text \<open>A number of JavaScript, doubles idealised to reals.\<close>

datatype jsnum = Num real | PosInf | NegInf | NaN

definition js_div :: "real \<Rightarrow> real \<Rightarrow> jsnum" where
  "js_div a b =
     (if b = 0 then (if a = 0 then NaN else if 0 < a then PosInf else NegInf) else Num (a / b))"

fun js_less :: "jsnum \<Rightarrow> jsnum \<Rightarrow> bool" where
  "js_less (Num a) (Num b) = (a < b)"
| "js_less (Num a) PosInf = True"
| "js_less NegInf (Num b) = True"
| "js_less NegInf PosInf = True"
| "js_less _ _ = False"

text \<open>\<^verbatim>\<open>Math.ceil(a / b)\<close> and \<^verbatim>\<open>Math.floor(a / b)\<close> on integers with \<open>b > 0\<close>.\<close>

definition ceil_div :: "int \<Rightarrow> int \<Rightarrow> int" where
  "ceil_div a b = - ((- a) div b)"

lemma ceil_div_bounds:
  assumes "0 < b"
  shows "a \<le> ceil_div a b * b" and "ceil_div a b * b < a + b"
proof -
  have "(- a) div b * b + (- a) mod b = - a" by (rule div_mult_mod_eq)
  moreover have "0 \<le> (- a) mod b" and "(- a) mod b < b" using assms by simp_all
  ultimately show "a \<le> ceil_div a b * b" and "ceil_div a b * b < a + b"
    unfolding ceil_div_def minus_mult_left [symmetric] by linarith+
qed

lemma ceil_div_iff:
  assumes "0 < b"
  shows "ceil_div a b = q \<longleftrightarrow> a \<le> q * b \<and> q * b < a + b"
proof
  assume "ceil_div a b = q"
  then show "a \<le> q * b \<and> q * b < a + b" using ceil_div_bounds [OF assms, of a] by simp
next
  assume q: "a \<le> q * b \<and> q * b < a + b"
  have c: "a \<le> ceil_div a b * b" "ceil_div a b * b < a + b" using ceil_div_bounds [OF assms] by auto
  have "ceil_div a b * b < (q + 1) * b" and "q * b < (ceil_div a b + 1) * b"
    using q c by (simp_all add: algebra_simps)
  then have "ceil_div a b < q + 1" and "q < ceil_div a b + 1"
    using assms by (meson mult_less_cancel_right_disj not_less_iff_gr_or_eq)+
  then show "ceil_div a b = q" by simp
qed

section \<open>JSON values\<close>

datatype json =
    JNull
  | JBool bool
  | JNum jsnum
  | JStr string
  | JArr "json list"
  | JObj "(string, json) jsmap"

text \<open>Reading a property of an unknown value; \<open>None\<close> is \<^verbatim>\<open>undefined\<close>.\<close>

fun j_field :: "json \<Rightarrow> string \<Rightarrow> json option" where
  "j_field (JObj o') k = jm_get o' k"
| "j_field _ k = None"

text \<open>Truthiness of a value.\<close>

fun js_truthy :: "json \<Rightarrow> bool" where
  "js_truthy JNull = False"
| "js_truthy (JBool x) = x"
| "js_truthy (JNum n) = (n \<noteq> Num 0 \<and> n \<noteq> NaN)"
| "js_truthy (JStr s) = (s \<noteq> [])"
| "js_truthy (JArr js) = True"
| "js_truthy (JObj kvs) = True"

section \<open>Strings\<close>

text \<open>\<^verbatim>\<open>indexOf\<close> of one character, and the two slices around it.\<close>

fun index_of :: "char \<Rightarrow> string \<Rightarrow> nat option" where
  "index_of c [] = None"
| "index_of c (x # xs) = (if x = c then Some 0 else map_option Suc (index_of c xs))"

text \<open>\<^verbatim>\<open>s.split(c)\<close> on one character.\<close>

fun split_on :: "char \<Rightarrow> string \<Rightarrow> string list" where
  "split_on c [] = [[]]"
| "split_on c (x # xs) =
     (if x = c then [] # split_on c xs
      else (case split_on c xs of [] \<Rightarrow> [[x]] | y # ys \<Rightarrow> (x # y) # ys))"

text \<open>\<^verbatim>\<open>xs.join(sep)\<close>.\<close>

fun join_with :: "string \<Rightarrow> string list \<Rightarrow> string" where
  "join_with sep [] = []"
| "join_with sep [x] = x"
| "join_with sep (x # y # zs) = x @ sep @ join_with sep (y # zs)"

abbreviation starts_with :: "string \<Rightarrow> string \<Rightarrow> bool" where
  "starts_with s p \<equiv> prefix p s"

lemma index_of_append [js_string]:
  "c \<notin> set xs \<Longrightarrow> index_of c (xs @ c # ys) = Some (length xs)"
  by (induction xs) auto

lemma zip_map_self: "zip xs (map h xs) = map (\<lambda>x. (x, h x)) xs"
  by (induction xs) simp_all

lemma sep_append_inj [js_string]:
  "c \<notin> set xs \<Longrightarrow> c \<notin> set xs' \<Longrightarrow> xs @ c # ys = xs' @ c # ys' \<longleftrightarrow> xs = xs' \<and> ys = ys'"
proof (induction xs arbitrary: xs')
  case Nil
  then show ?case by (cases xs') auto
next
  case (Cons x xs)
  then show ?case by (cases xs') auto
qed

lemma index_of_None [js_string]: "index_of c xs = None \<longleftrightarrow> c \<notin> set xs"
  by (induction xs) auto

lemma index_of_Some:
  "index_of c xs = Some i \<Longrightarrow>
     i < length xs \<and> xs = take i xs @ c # drop (Suc i) xs \<and> c \<notin> set (take i xs)"
  by (induction xs arbitrary: i) (auto split: if_splits)

lemma split_on_append [js_string]:
  "c \<notin> set xs \<Longrightarrow> split_on c (xs @ c # ys) = xs # split_on c ys"
  by (induction xs) auto

lemma split_on_none [js_string]: "c \<notin> set xs \<Longrightarrow> split_on c xs = [xs]"
  by (induction xs) auto

lemma split_on_not_Nil [simp]: "split_on c xs \<noteq> []"
  by (induction xs) (auto split: list.splits)

lemma join_split_on: "join_with [c] (split_on c xs) = xs"
proof (induction xs)
  case (Cons x xs)
  show ?case
  proof (cases "split_on c xs")
    case (Cons y ys)
    then show ?thesis using Cons.IH by (cases ys) auto
  qed simp
qed simp

lemma split_on_parts: "p \<in> set (split_on c xs) \<Longrightarrow> c \<notin> set p"
  by (induction xs arbitrary: p) (auto split: if_splits list.splits)

text \<open>\<^verbatim>\<open>s.trim()\<close> and \<^verbatim>\<open>s.toLowerCase()\<close> on code units below 256.\<close>

definition js_space :: "char \<Rightarrow> bool" where
  "js_space c \<longleftrightarrow> (of_char c :: nat) \<in> {9, 10, 11, 12, 13, 32, 160}"

definition js_trim :: "string \<Rightarrow> string" where
  "js_trim s = rev (dropWhile js_space (rev (dropWhile js_space s)))"

definition lower_char :: "char \<Rightarrow> char" where
  "lower_char c =
     (let n = (of_char c :: nat) in
      if 65 \<le> n \<and> n \<le> 90 \<or> 192 \<le> n \<and> n \<le> 222 \<and> n \<noteq> 215 then char_of (n + 32) else c)"

definition to_lower :: "string \<Rightarrow> string" where
  "to_lower s = map lower_char s"

text \<open>Decimal digits of a number: \<^verbatim>\<open>String(n)\<close>.\<close>

definition digit_char :: "nat \<Rightarrow> char" where
  "digit_char d = char_of (48 + d)"

fun show_nat :: "nat \<Rightarrow> string" where
  "show_nat n = (if n < 10 then [digit_char n] else show_nat (n div 10) @ [digit_char (n mod 10)])"

declare show_nat.simps [simp del]

definition show_int :: "int \<Rightarrow> string" where
  "show_int i = (if i < 0 then CHR ''-'' # show_nat (nat (- i)) else show_nat (nat i))"

definition is_digit :: "char \<Rightarrow> bool" where
  "is_digit c \<longleftrightarrow> 48 \<le> (of_char c :: nat) \<and> (of_char c :: nat) \<le> 57"

definition digit_val :: "char \<Rightarrow> nat" where
  "digit_val c = of_char c - 48"

definition read_nat :: "string \<Rightarrow> nat" where
  "read_nat s = foldl (\<lambda>acc c. 10 * acc + digit_val c) 0 s"

lemma of_char_digit_char [simp]: "d < 10 \<Longrightarrow> (of_char (digit_char d) :: nat) = 48 + d"
  by (simp add: digit_char_def)

lemma digit_val_digit_char [simp]: "d < 10 \<Longrightarrow> digit_val (digit_char d) = d"
  by (simp add: digit_val_def)

lemma is_digit_digit_char [simp]: "d < 10 \<Longrightarrow> is_digit (digit_char d)"
  by (simp add: is_digit_def)

lemma show_nat_not_Nil [simp]: "show_nat n \<noteq> []"
  by (subst show_nat.simps) simp

lemma show_nat_digits: "list_all is_digit (show_nat n)"
proof (induction n rule: show_nat.induct)
  case (1 n)
  show ?case
    by (cases "n < 10") (use 1 in \<open>simp_all add: show_nat.simps [of n]\<close>)
qed

lemma read_show_nat [js_string, simp]: "read_nat (show_nat n) = n"
proof (induction n rule: show_nat.induct)
  case (1 n)
  show ?case
    by (cases "n < 10") (use 1 in \<open>simp_all add: show_nat.simps [of n] read_nat_def\<close>)
qed

lemma show_nat_inj: "show_nat m = show_nat n \<Longrightarrow> m = n"
  by (metis read_show_nat)

lemma not_digit_in_show_nat: "\<not> is_digit c \<Longrightarrow> c \<notin> set (show_nat n)"
  using show_nat_digits [of n] by (auto simp: list_all_iff)

lemma show_int_eq_iff: "show_int i = show_int j \<longleftrightarrow> i = j"
proof
  have "\<not> is_digit (CHR ''-'')" by (simp add: is_digit_def)
  then have "show_nat a \<noteq> CHR ''-'' # b \<and> CHR ''-'' # b \<noteq> show_nat a" for a b
    using not_digit_in_show_nat [of "CHR ''-''" a] by (metis list.set_intros(1))
  then show "i = j" if "show_int i = show_int j"
    using that show_nat_inj [of "nat i" "nat j"] show_nat_inj [of "nat (- i)" "nat (- j)"]
    by (auto simp: show_int_def split: if_splits)
qed simp

section \<open>Step functions with an invariant\<close>

text \<open>
  The contract every stateful component of the gateway promises: one operation, whatever it
  is, keeps the component's invariant. A client that runs any sequence of operations may then
  rely on it at every point of the run.
\<close>

locale step_system =
  fixes step :: "'s \<Rightarrow> 'e \<Rightarrow> 's"
    and inv :: "'s \<Rightarrow> bool"
  assumes step_inv: "inv s \<Longrightarrow> inv (step s e)"
begin

lemma run_inv: "inv s \<Longrightarrow> inv (foldl step s es)"
  by (induction es arbitrary: s) (simp_all add: step_inv)

lemma run_prefix_inv: "inv s \<Longrightarrow> prefix ds es \<Longrightarrow> inv (foldl step s ds)"
  by (simp add: run_inv)

end

end
