(* ===== verification/Calendar.thy ===== *)
theory Calendar
  imports Gulley_Prelude
begin

text \<open>
  The UTC calendar of the JavaScript \<^verbatim>\<open>Date\<close> object, after ECMA-262: the day of an instant,
  the civil year, month and day of a day number, and \<^verbatim>\<open>Date.UTC\<close>, whose two digit years mean
  the twentieth century. The lemmas show that reading a date off a day and making the day again
  is the identity, which the budget windows rest on. Instants are integer milliseconds; the
  bound of \<open>8.64 * 10 ^ 15\<close> of the standard on an instant is not modelled.
\<close>

section \<open>Years\<close>

definition day_from_year :: "int \<Rightarrow> int" where
  "day_from_year y = 365 * (y - 1970) + (y - 1969) div 4 - (y - 1901) div 100 + (y - 1601) div 400"

definition is_leap :: "int \<Rightarrow> bool" where
  "is_leap y \<longleftrightarrow> y mod 4 = 0 \<and> y mod 100 \<noteq> 0 \<or> y mod 400 = 0"

definition year_of_day :: "int \<Rightarrow> int" where
  "year_of_day d =
     (let y = 1970 + (400 * d) div 146097 in
      if d < day_from_year y then y - 1
      else if day_from_year (y + 1) \<le> d then y + 1
      else y)"

lemma div_floor:
  assumes "0 < (k :: int)"
  shows "k * (x div k) \<le> x" and "x < k * (x div k) + k"
proof -
  have "k * (x div k) + x mod k = x" by simp
  moreover have "0 \<le> x mod k" and "x mod k < k" using assms by simp_all
  ultimately show "k * (x div k) \<le> x" and "x < k * (x div k) + k" by linarith+
qed

lemma mod_succ:
  assumes "1 < (k :: int)"
  shows "(x + 1) mod k = (if x mod k + 1 = k then 0 else x mod k + 1)"
proof -
  have r: "0 \<le> x mod k" "x mod k < k" using assms by simp_all
  have "(x + 1) mod k = (x mod k + 1) mod k" by (simp add: mod_add_left_eq)
  moreover have "(x mod k + 1) mod k = x mod k + 1" if "x mod k + 1 \<noteq> k"
    by (rule mod_pos_pos_trivial) (use r that in linarith)+
  ultimately show ?thesis by auto
qed

lemma div_succ:
  assumes "1 < (k :: int)"
  shows "(x + 1) div k = x div k + (if (x + 1) mod k = 0 then 1 else 0)"
proof -
  have x: "k * (x div k) + x mod k = x" by simp
  have r: "0 \<le> x mod k" "x mod k < k" using assms by simp_all
  show ?thesis
  proof (cases "x mod k + 1 = k")
    case True
    have "k * (x div k + 1) = k * (x div k) + k" by (simp only: distrib_left mult_1_right)
    with True x have e: "x + 1 = k * (x div k + 1)" by linarith
    show ?thesis unfolding e using assms by simp
  next
    case False
    with r have lt: "x mod k + 1 < k" by simp
    have "(x + 1) div k = x div k"
      by (rule int_div_pos_eq [of _ _ _ "x mod k + 1"]) (use x lt r in \<open>simp_all add: ac_simps\<close>)
    then show ?thesis using mod_succ [OF assms, of x] r False by simp
  qed
qed

lemma le_div_mult:
  assumes "0 < (k :: int)"
  shows "d * k \<le> x \<longleftrightarrow> d \<le> x div k"
proof
  assume "d * k \<le> x"
  then have "d * k div k \<le> x div k" using assms by (rule zdiv_mono1)
  then show "d \<le> x div k" using assms by simp
next
  assume "d \<le> x div k"
  then have "d * k \<le> x div k * k" using assms by (simp add: mult_right_mono)
  also have "\<dots> \<le> x" using div_floor(1) [OF assms] by (simp add: mult.commute)
  finally show "d * k \<le> x" .
qed

lemma day_from_year_bounds:
  "146097 * (y - 1970) - 1000 \<le> 400 * day_from_year y" (is ?lo)
  "400 * day_from_year y \<le> 146097 * (y - 1970) + 1000" (is ?hi)
proof -
  define a b c where "a = (y - 1969) div 4" and "b = (y - 1901) div 100" and "c = (y - 1601) div 400"
  have "4 * a \<le> y - 1969" "y - 1969 < 4 * a + 4" "100 * b \<le> y - 1901" "y - 1901 < 100 * b + 100"
    "400 * c \<le> y - 1601" "y - 1601 < 400 * c + 400"
    unfolding a_def b_def c_def by (rule div_floor, simp)+
  then show ?lo and ?hi
    unfolding day_from_year_def a_def [symmetric] b_def [symmetric] c_def [symmetric] by simp_all
qed

lemma exclusion_count:
  "(r \<Longrightarrow> q) \<Longrightarrow> (q \<Longrightarrow> p) \<Longrightarrow>
     (if p then 1 else 0) - (if q then 1 else 0) + (if r then 1 else 0) =
     (if p \<and> \<not> q \<or> r then 1 else (0 :: int))"
  by (cases p; cases q; cases r) simp_all

lemma is_leap_days:
  "(if y mod 4 = 0 then 1 else 0) - (if y mod 100 = 0 then 1 else 0) + (if y mod 400 = 0 then 1 else 0) =
     (if is_leap y then 1 else (0 :: int))"
  unfolding is_leap_def
proof (rule exclusion_count)
  show "y mod 400 = 0 \<Longrightarrow> y mod 100 = 0"
    using dvd_trans [of 100 400 y] by (simp add: mod_eq_0_iff_dvd)
  show "y mod 100 = 0 \<Longrightarrow> y mod 4 = 0"
    using dvd_trans [of 4 100 y] by (simp add: mod_eq_0_iff_dvd)
qed

lemma day_from_year_Suc: "day_from_year (y + 1) = day_from_year y + (if is_leap y then 366 else 365)"
proof -
  have 4: "(y - 1968) div 4 = (y - 1969) div 4 + (if y mod 4 = 0 then 1 else 0)"
    using div_succ [of 4 "y - 1969"] mod_mult_self2 [of "y - 1968" 4 492] by simp
  have 100: "(y - 1900) div 100 = (y - 1901) div 100 + (if y mod 100 = 0 then 1 else 0)"
    using div_succ [of 100 "y - 1901"] mod_mult_self2 [of "y - 1900" 100 19] by simp
  have 400: "(y - 1600) div 400 = (y - 1601) div 400 + (if y mod 400 = 0 then 1 else 0)"
    using div_succ [of 400 "y - 1601"] mod_mult_self2 [of "y - 1600" 400 4] by simp
  have "day_from_year (y + 1) =
      365 * (y - 1970) + 365 + (y - 1968) div 4 - (y - 1900) div 100 + (y - 1600) div 400"
    by (simp add: day_from_year_def)
  then have "day_from_year (y + 1) = day_from_year y + 365 +
      ((if y mod 4 = 0 then 1 else 0) - (if y mod 100 = 0 then 1 else 0) + (if y mod 400 = 0 then 1 else 0))"
    unfolding 4 100 400 by (simp only: day_from_year_def)
  then show ?thesis unfolding is_leap_days by simp
qed

lemma day_from_year_mono_step: "day_from_year y + 365 \<le> day_from_year (y + 1)"
  by (simp add: day_from_year_Suc)

lemma day_from_year_mono_nat: "day_from_year y \<le> day_from_year (y + int n)"
proof (induction n)
  case (Suc n)
  have "day_from_year (y + int n) \<le> day_from_year (y + int n + 1)"
    using day_from_year_mono_step [of "y + int n"] by simp
  with Suc show ?case by (simp add: ac_simps)
qed simp

lemma day_from_year_mono: "y \<le> y' \<Longrightarrow> day_from_year y \<le> day_from_year y'"
  using day_from_year_mono_nat [of y "nat (y' - y)"] by simp

text \<open>The year of a day is the one whose first day precedes it and whose successor's does not.\<close>

lemma year_of_day_bounds:
  "day_from_year (year_of_day d) \<le> d" "d < day_from_year (year_of_day d + 1)"
proof -
  define y where "y = 1970 + (400 * d) div 146097"
  have y: "146097 * (y - 1970) \<le> 400 * d" "400 * d < 146097 * (y - 1970) + 146097"
    using div_floor [of 146097 "400 * d"] unfolding y_def by simp_all
  have lo: "day_from_year (y - 1) \<le> d" using day_from_year_bounds(2) [of "y - 1"] y by simp
  have hi: "d < day_from_year (y + 1 + 1)" using day_from_year_bounds(1) [of "y + 1 + 1"] y by simp
  show "day_from_year (year_of_day d) \<le> d" "d < day_from_year (year_of_day d + 1)"
    using lo hi by (auto simp: year_of_day_def Let_def y_def [symmetric])
qed

lemma year_of_day_unique:
  assumes "day_from_year y \<le> d" and "d < day_from_year (y + 1)"
  shows "year_of_day d = y"
proof (rule antisym)
  show "year_of_day d \<le> y"
    using assms year_of_day_bounds(1) [of d] day_from_year_mono [of "y + 1" "year_of_day d"]
    by linarith
  show "y \<le> year_of_day d"
    using assms year_of_day_bounds(2) [of d] day_from_year_mono [of "year_of_day d + 1" y]
    by linarith
qed

section \<open>Months\<close>

text \<open>The day of the year on which a month starts, and the month a day of the year lies in.\<close>

definition month_start :: "bool \<Rightarrow> int \<Rightarrow> int" where
  "month_start leap m =
     (let l = (if leap then 1 else 0) in
      if m \<le> 0 then 0 else if m = 1 then 31 else if m = 2 then 59 + l else if m = 3 then 90 + l
      else if m = 4 then 120 + l else if m = 5 then 151 + l else if m = 6 then 181 + l
      else if m = 7 then 212 + l else if m = 8 then 243 + l else if m = 9 then 273 + l
      else if m = 10 then 304 + l else if m = 11 then 334 + l else 365 + l)"

definition month_of_yearday :: "bool \<Rightarrow> int \<Rightarrow> int" where
  "month_of_yearday leap d =
     (let l = (if leap then 1 else 0) in
      if d < 31 then 0 else if d < 59 + l then 1 else if d < 90 + l then 2 else if d < 120 + l then 3
      else if d < 151 + l then 4 else if d < 181 + l then 5 else if d < 212 + l then 6
      else if d < 243 + l then 7 else if d < 273 + l then 8 else if d < 304 + l then 9
      else if d < 334 + l then 10 else 11)"

lemma month_of_yearday_range: "0 \<le> month_of_yearday leap d" "month_of_yearday leap d \<le> 11"
  by (simp_all add: month_of_yearday_def Let_def)

lemma month_start_le: "0 \<le> d \<Longrightarrow> month_start leap (month_of_yearday leap d) \<le> d"
  by (cases leap) (simp_all add: month_start_def month_of_yearday_def Let_def)

lemma month_start_less:
  assumes "d < (if leap then 366 else 365)"
  shows "d < month_start leap (month_of_yearday leap d + 1)"
  using assms by (cases leap) (simp_all add: month_start_def month_of_yearday_def Let_def)

lemma month_start_step:
  "month_start leap m \<le> month_start leap (m + 1)" "month_start leap (m + 1) \<le> month_start leap m + 31"
  unfolding month_start_def Let_def by (simp_all add: algebra_simps)

lemma month_start_mono:
  assumes "m \<le> m'"
  shows "month_start leap m \<le> month_start leap m'"
proof -
  have "month_start leap m \<le> month_start leap (m + int n)" for n
  proof (induction n)
    case (Suc n)
    then show ?case using month_start_step(1) [of leap "m + int n"] by (simp add: ac_simps)
  qed simp
  from this [of "nat (m' - m)"] assms show ?thesis by simp
qed

lemma month_start_12: "month_start leap 12 = (if leap then 366 else 365)"
  by (simp add: month_start_def)

lemma month_of_yearday_unique:
  assumes "month_start leap m \<le> d" and "d < month_start leap (m + 1)" and "0 \<le> m" and "m \<le> 11"
    and "0 \<le> d" and "d < (if leap then 366 else 365)"
  shows "month_of_yearday leap d = m"
proof (rule antisym)
  show "month_of_yearday leap d \<le> m"
    using assms month_start_le [of d leap] month_start_mono [of "m + 1" "month_of_yearday leap d" leap]
    by linarith
  show "m \<le> month_of_yearday leap d"
    using assms month_start_less [of d leap] month_start_mono [of "month_of_yearday leap d + 1" m leap]
    by linarith
qed

section \<open>Civil dates\<close>

definition yearday :: "int \<Rightarrow> int" where
  "yearday d = d - day_from_year (year_of_day d)"

definition month_of_day :: "int \<Rightarrow> int" where
  "month_of_day d = month_of_yearday (is_leap (year_of_day d)) (yearday d)"

definition date_of_day :: "int \<Rightarrow> int" where
  "date_of_day d = yearday d - month_start (is_leap (year_of_day d)) (month_of_day d) + 1"

definition make_day :: "int \<Rightarrow> int \<Rightarrow> int \<Rightarrow> int" where
  "make_day y m dt =
     (let ym = y + m div 12; mn = m mod 12 in
      day_from_year ym + month_start (is_leap ym) mn + dt - 1)"

lemma yearday_range: "0 \<le> yearday d" "yearday d < (if is_leap (year_of_day d) then 366 else 365)"
  using year_of_day_bounds [of d] by (simp_all add: yearday_def day_from_year_Suc)

lemma month_of_day_range: "0 \<le> month_of_day d" "month_of_day d \<le> 11"
  by (simp_all add: month_of_day_def month_of_yearday_range)

lemma date_of_day_range: "1 \<le> date_of_day d" "date_of_day d \<le> 31"
proof -
  let ?l = "is_leap (year_of_day d)" and ?m = "month_of_yearday (is_leap (year_of_day d)) (yearday d)"
  have "month_start ?l ?m \<le> yearday d" and "yearday d < month_start ?l (?m + 1)"
    using month_start_le month_start_less yearday_range by auto
  then show "1 \<le> date_of_day d" and "date_of_day d \<le> 31"
    using month_start_step(2) [of ?l ?m]
    by (simp_all add: date_of_day_def month_of_day_def)
qed

text \<open>Reading a day's civil date and making the day again.\<close>

lemma make_day_of_day: "make_day (year_of_day d) (month_of_day d) (date_of_day d) = d"
proof -
  have "month_of_day d div 12 = 0" and "month_of_day d mod 12 = month_of_day d"
    using month_of_day_range [of d] by simp_all
  then show ?thesis by (simp only: make_day_def Let_def date_of_day_def yearday_def) simp
qed

lemma civil_date_inj:
  assumes "year_of_day d = year_of_day d'" and "month_of_day d = month_of_day d'"
    and "date_of_day d = date_of_day d'"
  shows "d = d'"
  by (metis assms make_day_of_day)

section \<open>Instants\<close>

text \<open>The accessors of a \<^verbatim>\<open>Date\<close> at an instant in milliseconds.\<close>

abbreviation DAY_MS :: int where
  "DAY_MS \<equiv> 86400000"

definition day_of :: "int \<Rightarrow> int" where
  "day_of t = t div DAY_MS"

definition getUTCFullYear :: "int \<Rightarrow> int" where
  "getUTCFullYear t = year_of_day (day_of t)"

definition getUTCMonth :: "int \<Rightarrow> int" where
  "getUTCMonth t = month_of_day (day_of t)"

definition getUTCDate :: "int \<Rightarrow> int" where
  "getUTCDate t = date_of_day (day_of t)"

definition getUTCDay :: "int \<Rightarrow> int" where
  "getUTCDay t = (day_of t + 4) mod 7"

definition date_UTC :: "int \<Rightarrow> int \<Rightarrow> int \<Rightarrow> int" where
  "date_UTC y m dt = make_day (if 0 \<le> y \<and> y \<le> 99 then 1900 + y else y) m dt * DAY_MS"

definition setUTCDate :: "int \<Rightarrow> int \<Rightarrow> int" where
  "setUTCDate t dt = make_day (getUTCFullYear t) (getUTCMonth t) dt * DAY_MS + t mod DAY_MS"

text \<open>From the year 100 on \<^verbatim>\<open>Date.UTC\<close> is plain; the epoch lies far above it.\<close>

definition modern :: "int \<Rightarrow> bool" where
  "modern t \<longleftrightarrow> day_from_year 100 * DAY_MS \<le> t"

lemma modern_day: "modern t \<longleftrightarrow> day_from_year 100 \<le> day_of t"
  unfolding modern_def day_of_def by (rule le_div_mult) simp

lemma modern_nonneg: "- DAY_MS * 1000 \<le> t \<Longrightarrow> modern t"
  by (simp add: modern_def day_from_year_def)

lemma modern_year: "modern t \<Longrightarrow> 100 \<le> getUTCFullYear t"
proof (rule ccontr)
  assume "modern t" and "\<not> 100 \<le> getUTCFullYear t"
  then have "getUTCFullYear t + 1 \<le> 100" by simp
  from day_from_year_mono [OF this] year_of_day_bounds(2) [of "day_of t"] \<open>modern t\<close>
  show False by (simp add: getUTCFullYear_def modern_day)
qed

lemma date_UTC_of_day:
  "modern t \<Longrightarrow> date_UTC (getUTCFullYear t) (getUTCMonth t) (getUTCDate t) = day_of t * DAY_MS"
  using modern_year [of t]
  by (simp add: date_UTC_def getUTCFullYear_def getUTCMonth_def getUTCDate_def make_day_of_day)

lemma day_of_bounds: "day_of t * DAY_MS \<le> t" "t < day_of t * DAY_MS + DAY_MS"
  using div_floor [of DAY_MS t] by (simp_all add: day_of_def)

lemma day_of_mult [simp]: "day_of (d * DAY_MS) = d"
  by (simp add: day_of_def)

lemma day_of_unique: "d * DAY_MS \<le> t \<Longrightarrow> t < d * DAY_MS + DAY_MS \<Longrightarrow> day_of t = d"
  unfolding day_of_def by (rule int_div_pos_eq [of t DAY_MS d "t - d * DAY_MS"]) simp_all

end
