(* ===== verification/Budget_Window.thy ===== *)
theory Budget_Window
  imports Calendar
begin

text \<open>
  The budget windows of \<^verbatim>\<open>src/packages/budget/src/window.ts\<close>: the periods, the id of the window an
  instant lies in, where that window starts and ends, and the parser of the period vocabulary.
  The lemmas show that the windows of a calendar period partition the time axis and that the
  id names exactly one of them: a counter kept under an id belongs to one window.
\<close>

section \<open>Definitions\<close>

datatype CalendarPeriodKind = Daily | Weekly | Monthly

datatype BudgetPeriod = PNone | PFixed int | PCalendar CalendarPeriodKind

fun isCalendar :: "BudgetPeriod \<Rightarrow> bool" where
  "isCalendar (PCalendar k) = True"
| "isCalendar p = False"

text \<open>\<^verbatim>\<open>d.getUTCDay() || 7\<close>: Monday is 1 and Sunday 7.\<close>

definition iso_dow :: "int \<Rightarrow> int" where
  "iso_dow t = (if getUTCDay t = 0 then 7 else getUTCDay t)"

definition isoWeek :: "int \<Rightarrow> int \<times> int" where
  "isoWeek d =
     (let t = date_UTC (getUTCFullYear d) (getUTCMonth d) (getUTCDate d);
          t' = setUTCDate t (getUTCDate t + 4 - iso_dow t);
          yearStart = date_UTC (getUTCFullYear t') 0 1
      in (getUTCFullYear t', ceil_div (t' - yearStart + DAY_MS) (7 * DAY_MS)))"

definition pad :: "int \<Rightarrow> string" where
  "pad n = replicate (2 - length (show_int n)) (CHR ''0'') @ show_int n"

fun windowId :: "BudgetPeriod \<Rightarrow> int \<Rightarrow> string" where
  "windowId (PCalendar Daily) d =
     ''d:'' @ show_int (getUTCFullYear d) @ ''-'' @ pad (getUTCMonth d + 1) @ ''-'' @ pad (getUTCDate d)"
| "windowId (PCalendar Weekly) d =
     (let (year, week) = isoWeek d in ''w:'' @ show_int year @ ''-W'' @ pad week)"
| "windowId (PCalendar Monthly) d =
     ''m:'' @ show_int (getUTCFullYear d) @ ''-'' @ pad (getUTCMonth d + 1)"
| "windowId (PFixed seconds) d = ''f:'' @ show_int seconds"
| "windowId PNone d = ''none''"

definition windowStart :: "CalendarPeriodKind \<Rightarrow> int \<Rightarrow> int" where
  "windowStart k d =
     (let y = getUTCFullYear d; m = getUTCMonth d; day = getUTCDate d in
      case k of
        Daily \<Rightarrow> date_UTC y m day
      | Weekly \<Rightarrow> date_UTC y m day - (iso_dow d - 1) * DAY_MS
      | Monthly \<Rightarrow> date_UTC y m 1)"

definition windowEnd :: "CalendarPeriodKind \<Rightarrow> int \<Rightarrow> int" where
  "windowEnd k nowMs =
     (let start = windowStart k nowMs in
      case k of
        Daily \<Rightarrow> start + DAY_MS
      | Weekly \<Rightarrow> start + 7 * DAY_MS
      | Monthly \<Rightarrow> date_UTC (getUTCFullYear start) (getUTCMonth start + 1) 1)"

definition secondsUntilReset :: "CalendarPeriodKind \<Rightarrow> int \<Rightarrow> int" where
  "secondsUntilReset k nowMs = max 1 (ceil_div (windowEnd k nowMs - nowMs) 1000)"

fun periodLabel :: "BudgetPeriod \<Rightarrow> string" where
  "periodLabel PNone = ''lifetime''"
| "periodLabel (PFixed seconds) = show_int seconds @ ''s window''"
| "periodLabel (PCalendar Daily) = ''daily''"
| "periodLabel (PCalendar Weekly) = ''weekly''"
| "periodLabel (PCalendar Monthly) = ''monthly''"

text \<open>The multiplier table and the regular expression of the \<^verbatim>\<open><n>s|m|h|d\<close> form.\<close>

definition unit_mult :: "char \<Rightarrow> int option" where
  "unit_mult c =
     (if c = CHR ''s'' then Some 1 else if c = CHR ''m'' then Some 60
      else if c = CHR ''h'' then Some 3600 else if c = CHR ''d'' then Some 86400 else None)"

definition match_duration :: "string \<Rightarrow> (string \<times> int) option" where
  "match_duration s =
     (if s = [] \<or> butlast s = [] \<or> \<not> list_all is_digit (butlast s) then None
      else map_option (\<lambda>u. (butlast s, u)) (unit_mult (last s)))"

definition period_of_seconds :: "jsnum \<Rightarrow> BudgetPeriod option" where
  "period_of_seconds n =
     (case n of Num r \<Rightarrow> if 0 < r then Some (PFixed \<lfloor>r\<rfloor>) else None | _ \<Rightarrow> None)"

definition calendar_of_name :: "string \<Rightarrow> BudgetPeriod option" where
  "calendar_of_name s =
     (if s = ''daily'' then Some (PCalendar Daily)
      else if s = ''weekly'' then Some (PCalendar Weekly)
      else if s = ''monthly'' then Some (PCalendar Monthly) else None)"

fun parsePeriod :: "json option \<Rightarrow> BudgetPeriod option" where
  "parsePeriod None = None"
| "parsePeriod (Some JNull) = None"
| "parsePeriod (Some (JBool b)) = None"
| "parsePeriod (Some (JNum n)) = period_of_seconds n"
| "parsePeriod (Some (JStr v)) =
     (let s = to_lower (js_trim v) in
      if s = ''none'' \<or> s = ''lifetime'' then Some PNone
      else case calendar_of_name s of
        Some p \<Rightarrow> Some p
      | None \<Rightarrow>
          (case match_duration s of
             Some (ds, mult) \<Rightarrow>
               if 0 < read_nat ds then Some (PFixed (int (read_nat ds) * mult)) else None
           | None \<Rightarrow> None))"
| "parsePeriod (Some (JArr xs)) = None"
| "parsePeriod (Some (JObj fs)) =
     (if jm_get fs ''kind'' = Some (JStr ''none'') then Some PNone
      else case (case jm_get fs ''kind'' of Some (JStr s) \<Rightarrow> calendar_of_name s | _ \<Rightarrow> None) of
        Some p \<Rightarrow> Some p
      | None \<Rightarrow>
          (case jm_get fs ''seconds'' of Some (JNum n) \<Rightarrow> period_of_seconds n | _ \<Rightarrow> None))"

section \<open>Calendar windows as days\<close>

lemma nonneg_modern: "0 \<le> t \<Longrightarrow> modern t"
  by (rule modern_nonneg) simp

lemma iso_dow_day: "iso_dow t = (day_of t + 3) mod 7 + 1"
proof -
  define x where "x = day_of t + 3"
  have "(x + 1) mod 7 = (if x mod 7 + 1 = 7 then 0 else x mod 7 + 1)" by (rule mod_succ) simp
  moreover have "0 \<le> x mod 7" by simp
  ultimately show ?thesis
    unfolding iso_dow_def getUTCDay_def x_def [symmetric]
    by (cases "x mod 7 = 6") (simp_all add: x_def add.assoc)
qed

text \<open>The first day of the window, and the first day after it.\<close>

definition monday_of :: "int \<Rightarrow> int" where
  "monday_of d = d - (d + 3) mod 7"

definition first_of_month :: "int \<Rightarrow> int" where
  "first_of_month d = day_from_year (year_of_day d) + month_start (is_leap (year_of_day d)) (month_of_day d)"

definition start_day :: "CalendarPeriodKind \<Rightarrow> int \<Rightarrow> int" where
  "start_day k d = (case k of Daily \<Rightarrow> d | Weekly \<Rightarrow> monday_of d | Monthly \<Rightarrow> first_of_month d)"

definition end_day :: "CalendarPeriodKind \<Rightarrow> int \<Rightarrow> int" where
  "end_day k d =
     (case k of Daily \<Rightarrow> d + 1 | Weekly \<Rightarrow> monday_of d + 7
      | Monthly \<Rightarrow> day_from_year (year_of_day d) + month_start (is_leap (year_of_day d)) (month_of_day d + 1))"

lemma make_day_first: "0 \<le> m \<Longrightarrow> m \<le> 11 \<Longrightarrow> make_day y m 1 = day_from_year y + month_start (is_leap y) m"
  by (simp add: make_day_def)

lemma make_day_next_month:
  assumes "0 \<le> m" and "m \<le> 11"
  shows "make_day y (m + 1) 1 = day_from_year y + month_start (is_leap y) (m + 1)"
proof (cases "m = 11")
  case True
  then show ?thesis
    by (simp add: make_day_def day_from_year_Suc month_start_12) (simp add: month_start_def)
next
  case False
  with assms show ?thesis by (simp add: make_day_def)
qed

lemma month_day_range:
  "first_of_month d \<le> d" "d < day_from_year (year_of_day d) + month_start (is_leap (year_of_day d)) (month_of_day d + 1)"
proof -
  let ?l = "is_leap (year_of_day d)"
  have "month_start ?l (month_of_yearday ?l (yearday d)) \<le> yearday d"
    by (rule month_start_le) (rule yearday_range)
  moreover have "yearday d < month_start ?l (month_of_yearday ?l (yearday d) + 1)"
    by (rule month_start_less) (rule yearday_range)
  ultimately show "first_of_month d \<le> d"
    "d < day_from_year (year_of_day d) + month_start ?l (month_of_day d + 1)"
    by (simp_all add: first_of_month_def month_of_day_def yearday_def)
qed

lemma day_in_window: "start_day k d \<le> d" "d < end_day k d"
proof -
  have "0 \<le> (d + 3) mod 7" and "(d + 3) mod 7 < 7" by simp_all
  then show "start_day k d \<le> d" "d < end_day k d"
    using month_day_range [of d]
    by (simp_all add: start_day_def end_day_def monday_of_def split: CalendarPeriodKind.splits)
qed

text \<open>A day of the month that another day determines has that day's year and month.\<close>

lemma same_month:
  assumes "first_of_month d \<le> d'"
    and "d' < day_from_year (year_of_day d) + month_start (is_leap (year_of_day d)) (month_of_day d + 1)"
  shows "year_of_day d' = year_of_day d" and "month_of_day d' = month_of_day d"
proof -
  let ?y = "year_of_day d" and ?m = "month_of_day d"
  let ?l = "is_leap ?y"
  have m: "0 \<le> ?m" "?m \<le> 11" by (rule month_of_day_range)+
  have "0 \<le> month_start ?l ?m" using month_start_mono [OF m(1), of ?l] by (simp add: month_start_def)
  moreover have "month_start ?l (?m + 1) \<le> month_start ?l 12" by (rule month_start_mono) (use m in simp)
  ultimately have b: "day_from_year ?y \<le> d'" "d' < day_from_year (?y + 1)"
    using assms by (simp_all add: first_of_month_def day_from_year_Suc month_start_12)
  then show y: "year_of_day d' = ?y" by (rule year_of_day_unique)
  have "month_of_yearday ?l (yearday d') = ?m"
    by (rule month_of_yearday_unique)
       (use assms b m y in \<open>simp_all add: yearday_def first_of_month_def day_from_year_Suc\<close>)
  then show "month_of_day d' = ?m" by (simp add: month_of_day_def y)
qed

lemma monday_of_div: "monday_of d = 7 * ((d + 3) div 7) - 3"
proof -
  have "7 * ((d + 3) div 7) + (d + 3) mod 7 = d + 3" by (rule mult_div_mod_eq)
  then show ?thesis unfolding monday_of_def by linarith
qed

lemma monday_of_same:
  assumes "monday_of d \<le> d'" and "d' < monday_of d + 7"
  shows "monday_of d' = monday_of d"
proof -
  have "(d' + 3) div 7 = (d + 3) div 7"
    by (rule int_div_pos_eq [of _ _ _ "d' - monday_of d"]) (use assms monday_of_div [of d] in linarith)+
  then show ?thesis by (simp only: monday_of_div)
qed

lemma start_day_same: "start_day k d \<le> d' \<Longrightarrow> d' < end_day k d \<Longrightarrow> start_day k d' = start_day k d"
  using same_month [of d d'] monday_of_same [of d d']
  by (simp add: start_day_def end_day_def first_of_month_def split: CalendarPeriodKind.splits)

lemma end_day_same: "start_day k d' = start_day k d \<Longrightarrow> end_day k d' = end_day k d"
proof (cases k)
  case Monthly
  assume "start_day k d' = start_day k d"
  then have e: "first_of_month d' = first_of_month d" using Monthly by (simp add: start_day_def)
  have f: "first_of_month x < day_from_year (year_of_day x) + month_start (is_leap (year_of_day x)) (month_of_day x + 1)" for x
    using month_day_range [of x] by simp
  have "year_of_day (first_of_month x) = year_of_day x" "month_of_day (first_of_month x) = month_of_day x" for x
    by (rule same_month; use f [of x] in simp)+
  with e have "year_of_day d' = year_of_day d" "month_of_day d' = month_of_day d" by metis+
  then show ?thesis using Monthly by (simp add: end_day_def)
qed (simp_all add: start_day_def end_day_def)

section \<open>The windows of an instant\<close>

lemma windowStart_day: "modern t \<Longrightarrow> windowStart k t = start_day k (day_of t) * DAY_MS"
proof -
  assume m: "modern t"
  have "date_UTC (getUTCFullYear t) (getUTCMonth t) 1 = first_of_month (day_of t) * DAY_MS"
    using modern_year [OF m] month_of_day_range [of "day_of t"]
    by (simp add: date_UTC_def make_day_first getUTCFullYear_def getUTCMonth_def first_of_month_def)
  then show ?thesis
    by (cases k) (simp_all add: windowStart_def date_UTC_of_day [OF m] iso_dow_day start_day_def
        monday_of_def left_diff_distrib)
qed

lemma windowEnd_day:
  assumes "0 \<le> t"
  shows "windowEnd k t = end_day k (day_of t) * DAY_MS"
proof -
  let ?d = "day_of t"
  let ?s = "first_of_month ?d"
  have m: "modern t" using assms by (rule nonneg_modern)
  have d: "0 \<le> ?d" using assms by (simp add: day_of_def)
  have same: "year_of_day ?s = year_of_day ?d" "month_of_day ?s = month_of_day ?d"
    using same_month [of ?d ?s] month_day_range [of ?d] by simp_all
  have "100 \<le> year_of_day ?d" using modern_year [OF m] by (simp add: getUTCFullYear_def)
  then have "date_UTC (getUTCFullYear (?s * DAY_MS)) (getUTCMonth (?s * DAY_MS) + 1) 1 =
      (day_from_year (year_of_day ?d) + month_start (is_leap (year_of_day ?d)) (month_of_day ?d + 1)) * DAY_MS"
    using month_of_day_range [of ?d]
    by (simp add: date_UTC_def getUTCFullYear_def getUTCMonth_def same make_day_next_month)
  then show ?thesis
    by (cases k) (simp_all add: windowEnd_def windowStart_day [OF m] start_day_def end_day_def Let_def
        distrib_right)
qed

lemma day_of_less: "t < d * DAY_MS \<longleftrightarrow> day_of t < d"
  using le_div_mult [of DAY_MS d t] by (simp add: day_of_def not_le [symmetric])

lemma day_of_le: "d * DAY_MS \<le> t \<longleftrightarrow> d \<le> day_of t"
  using day_of_less [of t d] by linarith

theorem window_contains:
  assumes "0 \<le> t"
  shows "windowStart k t \<le> t \<and> t < windowEnd k t"
  using day_in_window [where k = k and d = "day_of t"] assms
  by (simp add: windowStart_day nonneg_modern windowEnd_day day_of_less day_of_le)

theorem window_constant:
  assumes "0 \<le> t" and "0 \<le> t'" and "windowStart k t \<le> t'" and "t' < windowEnd k t"
  shows "windowStart k t' = windowStart k t \<and> windowEnd k t' = windowEnd k t"
proof -
  have "start_day k (day_of t') = start_day k (day_of t)"
    using assms by (intro start_day_same)
      (simp_all add: windowStart_day nonneg_modern windowEnd_day day_of_less day_of_le)
  moreover from this have "end_day k (day_of t') = end_day k (day_of t)" by (rule end_day_same)
  ultimately show ?thesis
    using assms by (simp add: windowStart_day windowEnd_day nonneg_modern)
qed

section \<open>Window ids\<close>

lemma show_int_nonneg: "0 \<le> i \<Longrightarrow> show_int i = show_nat (nat i)"
  by (simp add: show_int_def)

lemma dash_not_in_int: "0 \<le> i \<Longrightarrow> CHR ''-'' \<notin> set (show_int i)"
  by (simp add: show_int_nonneg not_digit_in_show_nat is_digit_def)

lemma show_int_inj: "0 \<le> i \<Longrightarrow> 0 \<le> j \<Longrightarrow> show_int i = show_int j \<longleftrightarrow> i = j"
  using show_nat_inj [of "nat i" "nat j"] by (auto simp: show_int_nonneg)

lemma read_nat_zeros: "read_nat (replicate n (CHR ''0'') @ s) = read_nat s"
  by (induction n) (simp_all add: read_nat_def digit_val_def)

lemma read_pad: "0 \<le> i \<Longrightarrow> read_nat (pad i) = nat i"
  by (simp add: pad_def read_nat_zeros show_int_nonneg)

lemma pad_inj: "0 \<le> i \<Longrightarrow> 0 \<le> j \<Longrightarrow> pad i = pad j \<longleftrightarrow> i = j"
  using read_pad [of i] read_pad [of j] by auto

lemma dash_not_in_pad: "0 \<le> i \<Longrightarrow> CHR ''-'' \<notin> set (pad i)"
  by (simp add: pad_def dash_not_in_int)

lemma make_day_add: "make_day y m (dt + n) = make_day y m dt + n"
  by (simp add: make_day_def Let_def)

lemma isoWeek_day:
  assumes "0 \<le> t"
  defines "th \<equiv> monday_of (day_of t) + 3"
  shows "isoWeek t = (year_of_day th, yearday th div 7 + 1)" and "1970 \<le> year_of_day th + 1"
proof -
  let ?d = "day_of t"
  have m: "modern t" using assms by (simp add: nonneg_modern)
  have d: "0 \<le> ?d" using assms by (simp add: day_of_def)
  have "(?d + 3) mod 7 < 7" by simp
  then have th: "- 3 \<le> th" using d unfolding th_def monday_of_def by linarith
  then have mt: "modern (th * DAY_MS)" by (intro modern_nonneg) simp
  have "\<not> year_of_day th + 1 \<le> 1969"
    using day_from_year_mono [of "year_of_day th + 1" 1969] year_of_day_bounds(2) [of th] th
    by (auto simp: day_from_year_def [of 1969])
  then show "1970 \<le> year_of_day th + 1" by simp
  then have ys: "date_UTC (year_of_day th) 0 1 = day_from_year (year_of_day th) * DAY_MS"
    by (simp add: date_UTC_def make_day_def month_start_def)
  have dt: "date_UTC (getUTCFullYear t) (getUTCMonth t) (getUTCDate t) = ?d * DAY_MS"
    using m by (rule date_UTC_of_day)
  have "setUTCDate (?d * DAY_MS) (getUTCDate (?d * DAY_MS) + (4 - iso_dow (?d * DAY_MS))) = th * DAY_MS"
    unfolding setUTCDate_def make_day_add getUTCFullYear_def getUTCMonth_def getUTCDate_def day_of_mult
      make_day_of_day iso_dow_day th_def monday_of_def by simp
  then have "isoWeek t = (year_of_day th, ceil_div (th * DAY_MS - day_from_year (year_of_day th) * DAY_MS + DAY_MS) (7 * DAY_MS))"
    unfolding isoWeek_def dt Let_def by (simp add: getUTCFullYear_def ys add_diff_eq)
  moreover have "th * DAY_MS - day_from_year (year_of_day th) * DAY_MS + DAY_MS = (yearday th + 1) * DAY_MS"
    by (simp add: yearday_def algebra_simps)
  moreover have "ceil_div ((yearday th + 1) * DAY_MS) (7 * DAY_MS) = yearday th div 7 + 1"
    by (subst ceil_div_iff) (use div_floor [of 7 "yearday th"] in simp_all)
  ultimately show "isoWeek t = (year_of_day th, yearday th div 7 + 1)" by simp
qed

lemma same_thursday:
  assumes "year_of_day (monday_of d + 3) = year_of_day (monday_of d' + 3)"
    and "yearday (monday_of d + 3) div 7 = yearday (monday_of d' + 3) div 7"
  shows "monday_of d = monday_of d'"
proof -
  let ?a = "yearday (monday_of d + 3)" and ?b = "yearday (monday_of d' + 3)"
  define q q' where "q = (d + 3) div 7" and "q' = (d' + 3) div 7"
  have "monday_of d - monday_of d' = ?a - ?b" using assms(1) by (simp add: yearday_def)
  moreover have "monday_of d = 7 * q - 3" "monday_of d' = 7 * q' - 3"
    by (simp_all add: monday_of_div q_def q'_def)
  moreover have "\<bar>?a - ?b\<bar> < 7"
    using div_floor [of 7 ?a] div_floor [of 7 ?b] assms(2) by simp
  ultimately show ?thesis by simp
qed

lemma first_of_month_inj:
  assumes "first_of_month d = first_of_month d'"
  shows "year_of_day d = year_of_day d'" and "month_of_day d = month_of_day d'"
proof -
  have f: "first_of_month x < day_from_year (year_of_day x) + month_start (is_leap (year_of_day x)) (month_of_day x + 1)" for x
    using month_day_range [of x] by simp
  have "year_of_day (first_of_month x) = year_of_day x" "month_of_day (first_of_month x) = month_of_day x" for x
    by (rule same_month; use f [of x] in simp)+
  with assms show "year_of_day d = year_of_day d'" "month_of_day d = month_of_day d'" by metis+
qed

text \<open>The id of a calendar window, read as the numbers it prints.\<close>

lemma windowId_daily_iff:
  assumes "0 \<le> t" and "0 \<le> t'"
  shows "windowId (PCalendar Daily) t = windowId (PCalendar Daily) t' \<longleftrightarrow> day_of t = day_of t'"
proof -
  have y: "0 \<le> getUTCFullYear t" "0 \<le> getUTCFullYear t'"
    using modern_year assms nonneg_modern by force+
  have m: "0 \<le> getUTCMonth t + 1" "0 \<le> getUTCMonth t' + 1" "0 \<le> getUTCDate t" "0 \<le> getUTCDate t'"
    using month_of_day_range(1) [of "day_of t"] month_of_day_range(1) [of "day_of t'"]
      date_of_day_range(1) [of "day_of t"] date_of_day_range(1) [of "day_of t'"]
    by (simp_all add: getUTCMonth_def getUTCDate_def)
  have "windowId (PCalendar Daily) t = windowId (PCalendar Daily) t' \<longleftrightarrow>
      getUTCFullYear t = getUTCFullYear t' \<and> getUTCMonth t = getUTCMonth t' \<and> getUTCDate t = getUTCDate t'"
    using y m by (simp add: sep_append_inj dash_not_in_int dash_not_in_pad show_int_inj pad_inj)
  also have "\<dots> \<longleftrightarrow> day_of t = day_of t'"
    by (auto simp: getUTCFullYear_def getUTCMonth_def getUTCDate_def intro: civil_date_inj)
  finally show ?thesis .
qed

lemma windowId_monthly_iff:
  assumes "0 \<le> t" and "0 \<le> t'"
  shows "windowId (PCalendar Monthly) t = windowId (PCalendar Monthly) t' \<longleftrightarrow>
    first_of_month (day_of t) = first_of_month (day_of t')"
proof -
  have y: "0 \<le> getUTCFullYear t" "0 \<le> getUTCFullYear t'"
    using modern_year assms nonneg_modern by force+
  have m: "0 \<le> getUTCMonth t + 1" "0 \<le> getUTCMonth t' + 1"
    using month_of_day_range(1) [of "day_of t"] month_of_day_range(1) [of "day_of t'"]
    by (simp_all add: getUTCMonth_def)
  have "windowId (PCalendar Monthly) t = windowId (PCalendar Monthly) t' \<longleftrightarrow>
      getUTCFullYear t = getUTCFullYear t' \<and> getUTCMonth t = getUTCMonth t'"
    using y m by (simp add: sep_append_inj dash_not_in_int show_int_inj pad_inj)
  also have "\<dots> \<longleftrightarrow> first_of_month (day_of t) = first_of_month (day_of t')"
    using first_of_month_inj [of "day_of t" "day_of t'"]
    by (auto simp: getUTCFullYear_def getUTCMonth_def first_of_month_def)
  finally show ?thesis .
qed

lemma windowId_weekly_iff:
  assumes "0 \<le> t" and "0 \<le> t'"
  shows "windowId (PCalendar Weekly) t = windowId (PCalendar Weekly) t' \<longleftrightarrow>
    monday_of (day_of t) = monday_of (day_of t')"
proof -
  have y: "0 \<le> year_of_day (monday_of (day_of t) + 3)" "0 \<le> year_of_day (monday_of (day_of t') + 3)"
    using isoWeek_day(2) [OF assms(1)] isoWeek_day(2) [OF assms(2)] by simp_all
  have w: "0 \<le> yearday x div 7 + 1" for x
    using yearday_range(1) [of x] by (simp add: pos_imp_zdiv_nonneg_iff add_nonneg_nonneg)
  show ?thesis
    using same_thursday [of "day_of t" "day_of t'"] y w
    by (auto simp: isoWeek_day(1) [OF assms(1)] isoWeek_day(1) [OF assms(2)]
        sep_append_inj dash_not_in_int show_int_inj pad_inj)
qed

theorem windowId_iff_same_window:
  assumes "0 \<le> t" and "0 \<le> t'"
  shows "windowId (PCalendar k) t = windowId (PCalendar k) t' \<longleftrightarrow> windowStart k t = windowStart k t'"
  using windowId_daily_iff [OF assms] windowId_monthly_iff [OF assms] windowId_weekly_iff [OF assms]
  by (cases k) (simp_all add: windowStart_day nonneg_modern assms start_day_def del: windowId.simps)

theorem secondsUntilReset_exact:
  assumes "0 \<le> t"
  shows "1 \<le> secondsUntilReset k t"
    and "windowEnd k t \<le> t + 1000 * secondsUntilReset k t"
    and "t + 1000 * secondsUntilReset k t < windowEnd k t + 1000"
proof -
  have "t < windowEnd k t" using window_contains [OF assms] by simp
  then have "0 < ceil_div (windowEnd k t - t) 1000"
    using ceil_div_bounds(1) [of 1000 "windowEnd k t - t"] by simp
  then have e: "secondsUntilReset k t = ceil_div (windowEnd k t - t) 1000"
    by (simp add: secondsUntilReset_def)
  show "1 \<le> secondsUntilReset k t" by (simp add: secondsUntilReset_def)
  show "windowEnd k t \<le> t + 1000 * secondsUntilReset k t"
    "t + 1000 * secondsUntilReset k t < windowEnd k t + 1000"
    unfolding e using ceil_div_bounds [of 1000 "windowEnd k t - t"] by simp_all
qed

text \<open>The instants of one window form an interval, and windows of different periods have different ids.\<close>

lemma windowEnd_cong:
  assumes "0 \<le> t" and "0 \<le> t'" and "windowStart k t = windowStart k t'"
  shows "windowEnd k t = windowEnd k t'"
  using assms end_day_same [of k "day_of t" "day_of t'"]
  by (simp add: windowStart_day windowEnd_day nonneg_modern)

lemma windowId_convex:
  assumes "0 \<le> a" and "a \<le> b" and "b \<le> c" and "windowId (PCalendar k) a = windowId (PCalendar k) c"
  shows "windowId (PCalendar k) b = windowId (PCalendar k) a"
proof -
  have s: "windowStart k a = windowStart k c"
    using assms windowId_iff_same_window [of a c k] by simp
  then have "windowEnd k a = windowEnd k c" using assms by (intro windowEnd_cong) simp_all
  then have "windowStart k a \<le> b" "b < windowEnd k a"
    using window_contains [of a k] window_contains [of c k] assms by simp_all
  then have "windowStart k b = windowStart k a" using window_constant [of a b k] assms by simp
  then show ?thesis using windowId_iff_same_window [of b a k] assms by simp
qed

lemma windowId_hd:
  "hd (windowId p t) =
     (case p of PNone \<Rightarrow> CHR ''n'' | PFixed _ \<Rightarrow> CHR ''f''
      | PCalendar k \<Rightarrow> (case k of Daily \<Rightarrow> CHR ''d'' | Weekly \<Rightarrow> CHR ''w'' | Monthly \<Rightarrow> CHR ''m''))"
  by (cases "(p, t)" rule: windowId.cases) (simp_all split: prod.split)

lemma windowId_calendar_kind: "windowId (PCalendar k) t = windowId (PCalendar k') t' \<Longrightarrow> k = k'"
  using windowId_hd [of "PCalendar k" t] windowId_hd [of "PCalendar k'" t']
  by (auto split: CalendarPeriodKind.splits)

section \<open>Properties of the windows\<close>

text \<open>
  Calendar windows partition time. For instants from the epoch on, the window of an instant
  contains it, any instant of the window has the same window, the reset is at least one and at
  most one second off the number of seconds reported, and two instants have the same window id
  exactly if they lie in the same window.
\<close>

theorem windows_partition:
  assumes "0 \<le> t" and "0 \<le> t'"
  shows "windowStart k t \<le> t \<and> t < windowEnd k t \<and>
    (windowStart k t \<le> t' \<and> t' < windowEnd k t \<longleftrightarrow> windowId (PCalendar k) t' = windowId (PCalendar k) t) \<and>
    1 \<le> secondsUntilReset k t \<and> windowEnd k t \<le> t + 1000 * secondsUntilReset k t \<and>
    t + 1000 * secondsUntilReset k t < windowEnd k t + 1000"
proof -
  have "windowStart k t \<le> t' \<and> t' < windowEnd k t" if "windowStart k t' = windowStart k t"
    using window_contains [OF assms(2), of k] windowEnd_cong [OF assms(2,1) that] that by simp
  moreover have "windowStart k t' = windowStart k t" if "windowStart k t \<le> t' \<and> t' < windowEnd k t"
    using window_constant [OF assms, of k] that by simp
  ultimately show ?thesis
    using window_contains [OF assms(1), of k] windowId_iff_same_window [OF assms(2,1), of k]
      secondsUntilReset_exact [OF assms(1), of k]
    by blast
qed

theorem windows_partition_witness:
  "windowStart Weekly 1791676800000 \<le> 1791676800000 \<and> 1791676800000 < windowEnd Weekly 1791676800000"
  using windows_partition [of 1791676800000 0 Weekly] by simp

end
