(* ===== verification/Budget.thy ===== *)
theory Budget
  imports Budget_Window
begin

text \<open>
  Budget specifications and the in-memory budget store of \<^verbatim>\<open>src/packages/budget/src/types.ts\<close> and
  \<^verbatim>\<open>memory.ts\<close>: reserve the worst case at admission, replace it by the actual spend at completion.
  The store is a record of its two fields; the clock reading and the cap resolver of a call are
  arguments. Every operation returns the store it leaves behind, also where it rejects or raises.
\<close>

section \<open>Specifications\<close>

record Budget =
  b_capMicroUsd :: int
  b_periodSeconds :: "int option"

record BudgetWindow =
  bw_capMicroUsd :: int
  bw_period :: BudgetPeriod

record BudgetSpec =
  bs_windows :: "BudgetWindow list"

datatype BudgetLike = Legacy Budget | Spec BudgetSpec

fun isBudgetSpec :: "BudgetLike \<Rightarrow> bool" where
  "isBudgetSpec (Spec s) = True"
| "isBudgetSpec (Legacy b) = False"

fun normalizeBudget :: "BudgetLike \<Rightarrow> BudgetSpec" where
  "normalizeBudget (Spec s) = s"
| "normalizeBudget (Legacy b) =
     \<lparr>bs_windows =
       [\<lparr>bw_capMicroUsd = b_capMicroUsd b,
         bw_period = (case b_periodSeconds b of
             Some s \<Rightarrow> if 0 < s then PFixed s else PNone
           | None \<Rightarrow> PNone)\<rparr>]\<rparr>"

text \<open>\<^verbatim>\<open>positive(x)\<close>, with the integer it narrows to.\<close>

definition positive :: "json option \<Rightarrow> int option" where
  "positive x =
     (case x of
        Some (JNum (Num r)) \<Rightarrow> if 0 < r \<and> real_of_int \<lfloor>r\<rfloor> = r then Some \<lfloor>r\<rfloor> else None
      | _ \<Rightarrow> None)"

text \<open>\<^verbatim>\<open>a ?? b\<close>.\<close>

definition nullish :: "json option \<Rightarrow> json option \<Rightarrow> json option" where
  "nullish a b = (case a of None \<Rightarrow> b | Some JNull \<Rightarrow> b | Some v \<Rightarrow> Some v)"

fun is_object :: "json \<Rightarrow> bool" where
  "is_object (JObj fs) = True"
| "is_object (JArr xs) = True"
| "is_object v = False"

definition indexed :: "nat \<Rightarrow> string \<Rightarrow> string" where
  "indexed i msg = ''windows['' @ show_nat i @ '']'' @ msg"

fun counts_lifetime :: "BudgetPeriod \<Rightarrow> bool" where
  "counts_lifetime (PCalendar k) = False"
| "counts_lifetime p = True"

fun parse_windows :: "nat \<Rightarrow> json list \<Rightarrow> string + BudgetWindow list" where
  "parse_windows i [] = Inr []"
| "parse_windows i (w # ws) =
     (if \<not> is_object w then Inl (indexed i '' must be an object'')
      else case positive (j_field w ''capMicroUsd'') of
        None \<Rightarrow> Inl (indexed i ''.capMicroUsd must be a positive integer (micro-USD)'')
      | Some cap \<Rightarrow>
          (case parsePeriod (nullish (j_field w ''period'')
                  (nullish (j_field w ''periodSeconds'') (Some (JStr ''none'')))) of
             None \<Rightarrow> Inl (indexed i ''.period must be none | daily | weekly | monthly | { seconds } | \"<n>d\"'')
           | Some period \<Rightarrow>
               (case parse_windows (Suc i) ws of
                  Inl e \<Rightarrow> Inl e
                | Inr rest \<Rightarrow> Inr (\<lparr>bw_capMicroUsd = cap, bw_period = period\<rparr> # rest))))"

definition parse_windows_config :: "json list \<Rightarrow> string + BudgetSpec" where
  "parse_windows_config ws =
     (if ws = [] then Inl ''windows must list at least one cap''
      else case parse_windows 0 ws of
        Inl e \<Rightarrow> Inl e
      | Inr windows \<Rightarrow>
          if 1 < length (filter (counts_lifetime \<circ> bw_period) windows)
          then Inl ''at most one lifetime or fixed-seconds window per budget''
          else Inr \<lparr>bs_windows = windows\<rparr>)"

definition parse_single_config :: "(string, json) jsmap \<Rightarrow> string + BudgetSpec" where
  "parse_single_config ob =
     (case positive (jm_get ob ''capMicroUsd'') of
        None \<Rightarrow> Inl ''capMicroUsd must be a positive integer (micro-USD)''
      | Some cap \<Rightarrow>
          let ps = jm_get ob ''periodSeconds'' in
          if ps \<noteq> None \<and> ps \<noteq> Some JNull \<and> positive ps = None
          then Inl ''periodSeconds must be a positive integer''
          else Inr (normalizeBudget (Legacy \<lparr>b_capMicroUsd = cap, b_periodSeconds = positive ps\<rparr>)))"

definition parseBudgetConfig :: "json option \<Rightarrow> string + BudgetSpec" where
  "parseBudgetConfig v =
     (case v of
        Some (JObj ob) \<Rightarrow>
          (case jm_get ob ''windows'' of
             Some (JArr ws) \<Rightarrow> parse_windows_config ws
           | _ \<Rightarrow> parse_single_config ob)
      | _ \<Rightarrow> Inl ''budget must be an object'')"

section \<open>Scopes\<close>

datatype BudgetScopeKind =
  SWorkspace | SOrg | SKey | SUser | STeam | SProject | SModel | SAttr

record BudgetScope =
  sc_kind :: BudgetScopeKind
  sc_entity :: string
  sc_workspaceId :: "string option"

fun scope_kind_name :: "BudgetScopeKind \<Rightarrow> string" where
  "scope_kind_name SWorkspace = ''workspace''"
| "scope_kind_name SOrg = ''org''"
| "scope_kind_name SKey = ''key''"
| "scope_kind_name SUser = ''user''"
| "scope_kind_name STeam = ''team''"
| "scope_kind_name SProject = ''project''"
| "scope_kind_name SModel = ''model''"
| "scope_kind_name SAttr = ''attr''"

definition budgetScope :: "BudgetScope \<Rightarrow> string" where
  "budgetScope s =
     (case sc_kind s of
        SWorkspace \<Rightarrow> sc_entity s
      | SOrg \<Rightarrow> ''org:'' @ sc_entity s
      | SModel \<Rightarrow> ''model:'' @ sc_entity s
      | SAttr \<Rightarrow> ''attr:'' @ sc_entity s
      | k \<Rightarrow> scope_kind_name k @ '':'' @
             (case sc_workspaceId s of Some w \<Rightarrow> w | None \<Rightarrow> []) @ '':'' @ sc_entity s)"

definition partitioned_scope :: "BudgetScopeKind \<Rightarrow> string \<Rightarrow> BudgetScope" where
  "partitioned_scope k rest =
     (case index_of (CHR '':'') rest of
        None \<Rightarrow> \<lparr>sc_kind = k, sc_entity = rest, sc_workspaceId = None\<rparr>
      | Some i \<Rightarrow> \<lparr>sc_kind = k, sc_entity = drop (i + 1) rest, sc_workspaceId = Some (take i rest)\<rparr>)"

definition parseBudgetScope :: "string \<Rightarrow> BudgetScope" where
  "parseBudgetScope scope =
     (case index_of (CHR '':'') scope of
        None \<Rightarrow> \<lparr>sc_kind = SWorkspace, sc_entity = scope, sc_workspaceId = None\<rparr>
      | Some sep \<Rightarrow>
          let kind = take sep scope; rest = drop (sep + 1) scope in
          if kind = ''org'' then \<lparr>sc_kind = SOrg, sc_entity = rest, sc_workspaceId = None\<rparr>
          else if kind = ''model'' then \<lparr>sc_kind = SModel, sc_entity = rest, sc_workspaceId = None\<rparr>
          else if kind = ''attr'' then \<lparr>sc_kind = SAttr, sc_entity = rest, sc_workspaceId = None\<rparr>
          else if kind = ''key'' then partitioned_scope SKey rest
          else if kind = ''user'' then partitioned_scope SUser rest
          else if kind = ''team'' then partitioned_scope STeam rest
          else if kind = ''project'' then partitioned_scope SProject rest
          else \<lparr>sc_kind = SWorkspace, sc_entity = scope, sc_workspaceId = None\<rparr>)"

definition HIERARCHY_SCOPE_KINDS :: "BudgetScopeKind list" where
  "HIERARCHY_SCOPE_KINDS = [SWorkspace, SOrg, SKey, SUser, STeam, SProject]"

section \<open>The in-memory store\<close>

record WindowCounter =
  wc_committed :: int
  wc_windowStartMs :: int

record Reservation =
  rv_amount :: int
  rv_expiresAtMs :: int

record Counters =
  c_reserved :: "(string, Reservation) jsmap"
  c_reservedTotal :: int
  c_windows :: "(string, WindowCounter) jsmap"
  c_lastTouchedMs :: int

record BudgetStore =
  st_counters :: "(string, Counters) jsmap"
  st_reserves :: nat

record BudgetDecision =
  bd_allowed :: bool
  bd_capMicroUsd :: int
  bd_usedMicroUsd :: int
  bd_window :: "BudgetPeriod \<times> int option"

datatype budget_error = TypeError

type_synonym cap_for = "string \<Rightarrow> BudgetLike option"

abbreviation IDLE_PRUNE_MS :: int where
  "IDLE_PRUNE_MS \<equiv> 86400000"

abbreviation PRUNE_EVERY_N_RESERVES :: nat where
  "PRUNE_EVERY_N_RESERVES \<equiv> 1000"

definition empty_counters :: Counters where
  "empty_counters = \<lparr>c_reserved = [], c_reservedTotal = 0, c_windows = [], c_lastTouchedMs = 0\<rparr>"

definition empty_store :: BudgetStore where
  "empty_store = \<lparr>st_counters = [], st_reserves = 0\<rparr>"

definition counter :: "string \<Rightarrow> BudgetStore \<Rightarrow> Counters \<times> BudgetStore" where
  "counter scope s =
     (case jm_get (st_counters s) scope of
        Some c \<Rightarrow> (c, s)
      | None \<Rightarrow>
          (empty_counters, s\<lparr>st_counters := jm_set scope empty_counters (st_counters s)\<rparr>))"

definition put_counter :: "string \<Rightarrow> Counters \<Rightarrow> BudgetStore \<Rightarrow> BudgetStore" where
  "put_counter scope c s = s\<lparr>st_counters := jm_set scope c (st_counters s)\<rparr>"

definition windowCounter :: "Counters \<Rightarrow> BudgetWindow \<Rightarrow> int \<Rightarrow> WindowCounter \<times> Counters" where
  "windowCounter c w nowMs =
     (let id = windowId (bw_period w) nowMs;
          wc = (case jm_get (c_windows c) id of
                  Some wc \<Rightarrow> wc
                | None \<Rightarrow> \<lparr>wc_committed = 0, wc_windowStartMs = 0\<rparr>);
          wc' = (case bw_period w of
                   PFixed seconds \<Rightarrow>
                     if wc_windowStartMs wc \<noteq> 0 \<and> seconds * 1000 \<le> nowMs - wc_windowStartMs wc
                     then \<lparr>wc_committed = 0, wc_windowStartMs = 0\<rparr>
                     else wc
                 | _ \<Rightarrow> wc)
      in (wc', c\<lparr>c_windows := jm_set id wc' (c_windows c)\<rparr>))"

definition dropStaleWindows :: "Counters \<Rightarrow> BudgetSpec \<Rightarrow> int \<Rightarrow> Counters" where
  "dropStaleWindows c spec nowMs =
     (let live = map (\<lambda>w. windowId (bw_period w) nowMs) (bs_windows spec) in
      c\<lparr>c_windows := filter (\<lambda>(id, wc). id \<in> set live \<or> id = ''none'' \<or> starts_with id ''f:'') (c_windows c)\<rparr>)"

fun live_sum :: "Counters \<Rightarrow> BudgetWindow list \<Rightarrow> int \<Rightarrow> int \<times> Counters" where
  "live_sum c [] nowMs = (0, c)"
| "live_sum c (w # ws) nowMs =
     (let (wc, c') = windowCounter c w nowMs; (rest, c'') = live_sum c' ws nowMs
      in (wc_committed wc + rest, c''))"

definition prune_scope :: "cap_for \<Rightarrow> int \<Rightarrow> string \<times> Counters \<Rightarrow> (string \<times> Counters) option" where
  "prune_scope capFor nowMs kc =
     (let (k, c) = kc in
      if c_reserved c \<noteq> [] \<or> nowMs - c_lastTouchedMs c \<le> IDLE_PRUNE_MS then Some (k, c)
      else case capFor k of
        None \<Rightarrow> None
      | Some budget \<Rightarrow>
          (let spec = normalizeBudget budget;
               (live, c') = live_sum (dropStaleWindows c spec nowMs) (bs_windows spec) nowMs
           in if live = 0 then None else Some (k, c')))"

definition prune :: "cap_for \<Rightarrow> int \<Rightarrow> BudgetStore \<Rightarrow> BudgetStore" where
  "prune capFor nowMs s =
     (let s' = s\<lparr>st_reserves := st_reserves s + 1\<rparr> in
      if st_reserves s' mod PRUNE_EVERY_N_RESERVES \<noteq> 0 then s'
      else s'\<lparr>st_counters := List.map_filter (prune_scope capFor nowMs) (st_counters s')\<rparr>)"

definition windowInfo :: "BudgetPeriod \<Rightarrow> int \<Rightarrow> BudgetPeriod \<times> int option" where
  "windowInfo period nowMs =
     (period, case period of PCalendar k \<Rightarrow> Some (windowEnd k nowMs) | _ \<Rightarrow> None)"

text \<open>The sweep of the orphaned reservations of one scope.\<close>

fun sweep :: "int \<Rightarrow> (string, Reservation) jsmap \<Rightarrow> int \<Rightarrow> (string, Reservation) jsmap \<times> int" where
  "sweep nowMs [] tot = ([], tot)"
| "sweep nowMs ((rid, r) # rs) tot =
     (if rv_expiresAtMs r \<le> nowMs then sweep nowMs rs (max 0 (tot - rv_amount r))
      else (let (rs', tot') = sweep nowMs rs tot in ((rid, r) # rs', tot')))"

definition sweep_expired :: "int \<Rightarrow> Counters \<Rightarrow> Counters" where
  "sweep_expired nowMs c =
     (let (rs, tot) = sweep nowMs (c_reserved c) (c_reservedTotal c)
      in c\<lparr>c_reserved := rs, c_reservedTotal := tot\<rparr>)"

text \<open>
  The admission loop over the windows: \<open>Inl\<close> is the early rejection, \<open>Inr\<close> the binding window
  (the highest utilization, \<^verbatim>\<open>after / cap\<close> compared as JavaScript numbers) if there is any.
\<close>

type_synonym binding = "(BudgetWindow \<times> int) option"

definition binds_more :: "binding \<Rightarrow> BudgetWindow \<Rightarrow> int \<Rightarrow> bool" where
  "binds_more b w after =
     (case b of
        None \<Rightarrow> True
      | Some (bw, used) \<Rightarrow>
          js_less (js_div (of_int used) (of_int (bw_capMicroUsd bw)))
                  (js_div (of_int after) (of_int (bw_capMicroUsd w))))"

definition rebind :: "binding \<Rightarrow> BudgetWindow \<Rightarrow> int \<Rightarrow> binding" where
  "rebind b w after = (if binds_more b w after then Some (w, after) else b)"

fun admit_windows ::
  "int \<Rightarrow> int \<Rightarrow> BudgetWindow list \<Rightarrow> binding \<Rightarrow> Counters \<Rightarrow> (BudgetDecision + binding) \<times> Counters" where
  "admit_windows nowMs worst [] b c = (Inr b, c)"
| "admit_windows nowMs worst (w # ws) b c =
     (let (wc, c') = windowCounter c w nowMs;
          used = c_reservedTotal c' + wc_committed wc
      in if bw_capMicroUsd w < used + worst
         then (Inl \<lparr>bd_allowed = False, bd_capMicroUsd = bw_capMicroUsd w, bd_usedMicroUsd = used,
                    bd_window = windowInfo (bw_period w) nowMs\<rparr>, c')
         else admit_windows nowMs worst ws (rebind b w (used + worst)) c')"

text \<open>
  \<^verbatim>\<open>reserve\<close>: \<open>Inr None\<close> is \<^verbatim>\<open>null\<close>. A budget without any window reserves and then reads a property
  of \<^verbatim>\<open>undefined\<close>, which raises.
\<close>

definition reserve ::
  "cap_for \<Rightarrow> int \<Rightarrow> int \<Rightarrow> string \<Rightarrow> string \<Rightarrow> int \<Rightarrow> BudgetStore
     \<Rightarrow> (budget_error + BudgetDecision option) \<times> BudgetStore" where
  "reserve capFor maxReservationLifetimeMs nowMs scope requestId worst s =
     (case capFor scope of
        None \<Rightarrow> (Inr None, s)
      | Some budget \<Rightarrow>
          (let spec = normalizeBudget budget;
               (c0, s1) = counter scope (prune capFor nowMs s);
               c1 = sweep_expired nowMs
                      (dropStaleWindows (c0\<lparr>c_lastTouchedMs := nowMs\<rparr>) spec nowMs);
               (res, c2) = admit_windows nowMs worst (bs_windows spec) None c1
           in case res of
                Inl d \<Rightarrow> (Inr (Some d), put_counter scope c2 s1)
              | Inr b \<Rightarrow>
                  (let c3 = c2\<lparr>c_reserved :=
                                jm_set requestId
                                  \<lparr>rv_amount = worst, rv_expiresAtMs = nowMs + maxReservationLifetimeMs\<rparr>
                                  (c_reserved c2),
                              c_reservedTotal := c_reservedTotal c2 + worst\<rparr>;
                       s2 = put_counter scope c3 s1
                   in case b of
                        None \<Rightarrow> (Inl TypeError, s2)
                      | Some (w, used) \<Rightarrow>
                          (Inr (Some \<lparr>bd_allowed = True, bd_capMicroUsd = bw_capMicroUsd w,
                                      bd_usedMicroUsd = used,
                                      bd_window = windowInfo (bw_period w) nowMs\<rparr>), s2))))"

text \<open>The loop of \<^verbatim>\<open>commit\<close> that books the actual spend in every window.\<close>

definition book :: "int \<Rightarrow> int \<Rightarrow> BudgetPeriod \<Rightarrow> WindowCounter \<Rightarrow> WindowCounter" where
  "book nowMs actual p wc =
     (let wc1 = (case p of
                   PFixed _ \<Rightarrow> if wc_windowStartMs wc = 0 then wc\<lparr>wc_windowStartMs := nowMs\<rparr> else wc
                 | _ \<Rightarrow> wc)
      in wc1\<lparr>wc_committed := wc_committed wc1 + actual\<rparr>)"

fun book_windows :: "int \<Rightarrow> int \<Rightarrow> BudgetWindow list \<Rightarrow> Counters \<Rightarrow> Counters" where
  "book_windows nowMs actual [] c = c"
| "book_windows nowMs actual (w # ws) c =
     (let (wc, c') = windowCounter c w nowMs
      in book_windows nowMs actual ws
           (c'\<lparr>c_windows := jm_set (windowId (bw_period w) nowMs) (book nowMs actual (bw_period w) wc)
                  (c_windows c')\<rparr>))"

text \<open>The reservation a \<^verbatim>\<open>commit\<close> gives back before it books anything.\<close>

definition release :: "int \<Rightarrow> string \<Rightarrow> Counters \<Rightarrow> Counters" where
  "release nowMs requestId c =
     c\<lparr>c_lastTouchedMs := nowMs, c_reserved := jm_delete requestId (c_reserved c),
       c_reservedTotal := (case jm_get (c_reserved c) requestId of
           Some r \<Rightarrow> max 0 (c_reservedTotal c - rv_amount r)
         | None \<Rightarrow> c_reservedTotal c)\<rparr>"

definition commit :: "cap_for \<Rightarrow> int \<Rightarrow> string \<Rightarrow> string \<Rightarrow> int \<Rightarrow> BudgetStore \<Rightarrow> BudgetStore" where
  "commit capFor nowMs scope requestId actual s =
     (let (c, s1) = counter scope s;
          c1 = release nowMs requestId c;
          c2 = (if 0 < actual
                then (case capFor scope of
                        None \<Rightarrow> c1
                      | Some budget \<Rightarrow> book_windows nowMs actual (bs_windows (normalizeBudget budget)) c1)
                else c1)
      in put_counter scope c2 s1)"

definition refresh :: "int \<Rightarrow> int \<Rightarrow> string \<Rightarrow> string \<Rightarrow> BudgetStore \<Rightarrow> BudgetStore" where
  "refresh maxReservationLifetimeMs nowMs scope requestId s =
     (case jm_get (st_counters s) scope of
        None \<Rightarrow> s
      | Some c \<Rightarrow>
          (case jm_get (c_reserved c) requestId of
             None \<Rightarrow> s
           | Some r \<Rightarrow>
               put_counter scope
                 (c\<lparr>c_reserved := jm_set requestId
                      (r\<lparr>rv_expiresAtMs := nowMs + maxReservationLifetimeMs\<rparr>) (c_reserved c)\<rparr>) s))"

definition committed :: "cap_for \<Rightarrow> int \<Rightarrow> string \<Rightarrow> BudgetPeriod option \<Rightarrow> BudgetStore \<Rightarrow> int" where
  "committed capFor nowMs scope period s =
     (case jm_get (st_counters s) scope of
        None \<Rightarrow> 0
      | Some c \<Rightarrow>
          (case (case period of
                   Some p \<Rightarrow> Some p
                 | None \<Rightarrow>
                     (case capFor scope of
                        None \<Rightarrow> None
                      | Some b \<Rightarrow>
                          (case bs_windows (normalizeBudget b) of [] \<Rightarrow> None | w # _ \<Rightarrow> Some (bw_period w)))) of
             None \<Rightarrow> jm_sum wc_committed (c_windows c)
           | Some p \<Rightarrow>
               (case jm_get (c_windows c) (windowId p nowMs) of
                  Some wc \<Rightarrow> wc_committed wc
                | None \<Rightarrow> 0)))"

definition store_size :: "BudgetStore \<Rightarrow> nat" where
  "store_size s = length (st_counters s)"

section \<open>The invariant of the counters\<close>

text \<open>
  The total the store keeps never lies below the sum of the reservations it holds, and no
  reservation and no booked spend is negative.
\<close>

definition counters_ok :: "Counters \<Rightarrow> bool" where
  "counters_ok c \<longleftrightarrow>
     jm_ok (c_reserved c) \<and> jm_ok (c_windows c) \<and>
     list_all (\<lambda>(k, r). 0 \<le> rv_amount r) (c_reserved c) \<and>
     list_all (\<lambda>(k, wc). 0 \<le> wc_committed wc) (c_windows c) \<and>
     jm_sum rv_amount (c_reserved c) \<le> c_reservedTotal c"

definition store_ok :: "BudgetStore \<Rightarrow> bool" where
  "store_ok s \<longleftrightarrow> jm_ok (st_counters s) \<and> list_all (\<lambda>(k, c). counters_ok c) (st_counters s)"

lemma list_all_jm_set:
  "jm_ok m \<Longrightarrow> list_all (\<lambda>(k, v). P v) m \<Longrightarrow> P v \<Longrightarrow> list_all (\<lambda>(k, v). P v) (jm_set k v m)"
  by (auto simp: list_all_iff dest: jm_set_mem)

lemma list_all_jm_delete:
  "list_all (\<lambda>(k, v). P v) m \<Longrightarrow> list_all (\<lambda>(k, v). P v) (jm_delete k m)"
  by (auto simp: list_all_iff dest: jm_delete_mem)

lemma list_all_jm_get: "list_all (\<lambda>(k, v). P v) m \<Longrightarrow> jm_get m k = Some v \<Longrightarrow> P v"
  by (auto simp: list_all_iff dest: map_of_SomeD)

lemma counters_ok_empty [simp]: "counters_ok empty_counters"
  by (simp add: counters_ok_def empty_counters_def)

lemma windowCounter_keeps [simp]:
  "c_reserved (snd (windowCounter c w t)) = c_reserved c"
  "c_reservedTotal (snd (windowCounter c w t)) = c_reservedTotal c"
  by (simp_all add: windowCounter_def Let_def)

lemma windowCounter_committed_nonneg:
  "counters_ok c \<Longrightarrow> 0 \<le> wc_committed (fst (windowCounter c w t))"
  by (auto simp: windowCounter_def Let_def counters_ok_def dest: list_all_jm_get
      split: option.split BudgetPeriod.split)

lemma counters_ok_set_window:
  "counters_ok c \<Longrightarrow> 0 \<le> wc_committed wc \<Longrightarrow> counters_ok (c\<lparr>c_windows := jm_set k wc (c_windows c)\<rparr>)"
  by (auto simp: counters_ok_def intro!: list_all_jm_set [where P = "\<lambda>wc. 0 \<le> wc_committed wc"])

lemma windowCounter_snd:
  "snd (windowCounter c w t) =
     c\<lparr>c_windows := jm_set (windowId (bw_period w) t) (fst (windowCounter c w t)) (c_windows c)\<rparr>"
  by (simp add: windowCounter_def Let_def)

lemma counters_ok_windowCounter: "counters_ok c \<Longrightarrow> counters_ok (snd (windowCounter c w t))"
  unfolding windowCounter_snd by (rule counters_ok_set_window) (simp_all add: windowCounter_committed_nonneg)

lemma counters_ok_touch [simp]: "counters_ok (c\<lparr>c_lastTouchedMs := t\<rparr>) \<longleftrightarrow> counters_ok c"
  by (simp add: counters_ok_def)

lemma counters_ok_dropStaleWindows: "counters_ok c \<Longrightarrow> counters_ok (dropStaleWindows c spec t)"
  by (auto simp: counters_ok_def dropStaleWindows_def Let_def list_all_iff distinct_map_filter)

lemma live_sum_ok: "counters_ok c \<Longrightarrow> counters_ok (snd (live_sum c ws t)) \<and> 0 \<le> fst (live_sum c ws t)"
proof (induction ws arbitrary: c)
  case (Cons w ws)
  have "counters_ok (snd (windowCounter c w t))" "0 \<le> wc_committed (fst (windowCounter c w t))"
    using Cons.prems by (simp_all add: counters_ok_windowCounter windowCounter_committed_nonneg)
  with Cons.IH show ?case by (simp add: split_beta)
qed simp

lemma sweep_ok:
  assumes "jm_ok rs" and "list_all (\<lambda>(k, r). 0 \<le> rv_amount r) rs" and "x + jm_sum rv_amount rs \<le> tot"
    and "0 \<le> x"
  shows "jm_ok (fst (sweep t rs tot)) \<and> set (fst (sweep t rs tot)) \<subseteq> set rs \<and>
    x + jm_sum rv_amount (fst (sweep t rs tot)) \<le> snd (sweep t rs tot)"
  using assms
proof (induction t rs tot arbitrary: x rule: sweep.induct)
  case (2 t i r rs tot)
  show ?case
  proof (cases "rv_expiresAtMs r \<le> t")
    case True
    have "x + jm_sum rv_amount rs \<le> max 0 (tot - rv_amount r)" using "2.prems" by simp
    with True "2.prems" "2.IH"(1) [OF True, of x] show ?thesis by auto
  next
    case False
    have "jm_ok (fst (sweep t rs tot)) \<and> set (fst (sweep t rs tot)) \<subseteq> set rs \<and>
        (x + rv_amount r) + jm_sum rv_amount (fst (sweep t rs tot)) \<le> snd (sweep t rs tot)"
      using "2.prems" by (intro "2.IH"(2) [OF False]) auto
    with False "2.prems"(1) show ?thesis by (auto simp: split_beta)
  qed
qed simp

lemma sweep_total_le:
  "list_all (\<lambda>(k, r). 0 \<le> rv_amount r) rs \<Longrightarrow> 0 \<le> tot \<Longrightarrow> snd (sweep t rs tot) \<le> tot"
proof (induction t rs tot rule: sweep.induct)
  case (2 t i r rs tot)
  then show ?case by (cases "rv_expiresAtMs r \<le> t") (auto simp: split_beta)
qed simp

lemma counters_ok_sweep: "counters_ok c \<Longrightarrow> counters_ok (sweep_expired t c)"
  using sweep_ok [of "c_reserved c" 0 "c_reservedTotal c" t]
  by (auto simp: counters_ok_def sweep_expired_def split_beta list_all_iff)

lemma admit_windows_ok: "counters_ok c \<Longrightarrow> counters_ok (snd (admit_windows t worst ws b c))"
  by (induction ws arbitrary: b c) (simp_all add: split_beta Let_def counters_ok_windowCounter)

lemma admit_windows_keeps [simp]:
  "c_reserved (snd (admit_windows t worst ws b c)) = c_reserved c"
  "c_reservedTotal (snd (admit_windows t worst ws b c)) = c_reservedTotal c"
  by (induction ws arbitrary: b c) (simp_all add: split_beta Let_def)

lemma counters_ok_reserve:
  assumes "counters_ok c" and "0 \<le> worst"
  shows "counters_ok (c\<lparr>c_reserved := jm_set rid \<lparr>rv_amount = worst, rv_expiresAtMs = e\<rparr> (c_reserved c),
    c_reservedTotal := c_reservedTotal c + worst\<rparr>)"
proof -
  have "0 \<le> (case jm_get (c_reserved c) rid of None \<Rightarrow> 0 | Some r \<Rightarrow> rv_amount r)"
    using assms(1) by (auto simp: counters_ok_def split: option.split
        dest: list_all_jm_get [where P = "\<lambda>r. 0 \<le> rv_amount r"])
  with assms show ?thesis
    by (auto simp: counters_ok_def jm_sum_set intro!: list_all_jm_set [where P = "\<lambda>r. 0 \<le> rv_amount r"])
qed

lemma counters_ok_release: "counters_ok c \<Longrightarrow> counters_ok (release t rid c)"
  by (auto simp: counters_ok_def release_def jm_sum_delete jm_delete_absent max_def split: option.split
      intro!: list_all_jm_delete [where P = "\<lambda>r. 0 \<le> rv_amount r"])

lemma book_committed [simp]: "wc_committed (book t actual p wc) = wc_committed wc + actual"
  by (simp add: book_def Let_def split: BudgetPeriod.split)

lemma book_windows_ok: "counters_ok c \<Longrightarrow> 0 \<le> actual \<Longrightarrow> counters_ok (book_windows t actual ws c)"
proof (induction ws arbitrary: c)
  case (Cons w ws)
  have "counters_ok (snd (windowCounter c w t))" "0 \<le> wc_committed (fst (windowCounter c w t))"
    using Cons.prems by (simp_all add: counters_ok_windowCounter windowCounter_committed_nonneg)
  then have "counters_ok (snd (windowCounter c w t)\<lparr>c_windows := jm_set (windowId (bw_period w) t)
      (book t actual (bw_period w) (fst (windowCounter c w t))) (c_windows (snd (windowCounter c w t)))\<rparr>)"
    using Cons.prems by (intro counters_ok_set_window) simp_all
  then show ?case using Cons by (simp add: split_beta)
qed simp

section \<open>Properties of the parsers\<close>

lemma positive_pos: "positive x = Some n \<Longrightarrow> 0 < n"
  by (auto simp: positive_def split: option.splits json.splits jsnum.splits if_splits)

lemma parse_windows_sound:
  "parse_windows i ws = Inr out \<Longrightarrow> length out = length ws \<and> list_all (\<lambda>w. 0 < bw_capMicroUsd w) out"
  by (induction i ws arbitrary: out rule: parse_windows.induct)
     (auto dest: positive_pos split: if_splits option.splits sum.splits)

lemma parse_windows_config_sound:
  "parse_windows_config ws = Inr spec \<Longrightarrow>
     bs_windows spec \<noteq> [] \<and> list_all (\<lambda>w. 0 < bw_capMicroUsd w) (bs_windows spec) \<and>
     length (filter (counts_lifetime \<circ> bw_period) (bs_windows spec)) \<le> 1"
  using parse_windows_sound [of 0 ws]
  by (auto simp: parse_windows_config_def not_less split: sum.splits if_splits)

lemma parse_single_config_sound:
  "parse_single_config ob = Inr spec \<Longrightarrow>
     bs_windows spec \<noteq> [] \<and> list_all (\<lambda>w. 0 < bw_capMicroUsd w) (bs_windows spec) \<and>
     length (filter (counts_lifetime \<circ> bw_period) (bs_windows spec)) \<le> 1"
  by (auto simp: parse_single_config_def Let_def dest: positive_pos split: option.splits if_splits)

text \<open>
  C40. A budget configuration that parses has at least one window, positive caps, and at most one
  window that is not calendar aligned, so \<^verbatim>\<open>reserve\<close> on it always finds a binding window.\<close>

theorem parseBudgetConfig_sound:
  assumes "parseBudgetConfig v = Inr spec"
  shows "bs_windows spec \<noteq> [] \<and> list_all (\<lambda>w. 0 < bw_capMicroUsd w) (bs_windows spec) \<and>
    length (filter (counts_lifetime \<circ> bw_period) (bs_windows spec)) \<le> 1"
  using assms unfolding parseBudgetConfig_def
  by (auto dest: parse_windows_config_sound parse_single_config_sound split: option.splits json.splits)

theorem parseBudgetConfig_sound_witness:
  "list_all (\<lambda>w. 0 < bw_capMicroUsd w) [\<lparr>bw_capMicroUsd = 5, bw_period = PCalendar Daily\<rparr>]"
proof -
  have "parseBudgetConfig (Some (JObj [(''windows'', JArr [JObj [(''capMicroUsd'', JNum (Num 5)), (''period'', JStr ''daily'')]])]))
      = Inr \<lparr>bs_windows = [\<lparr>bw_capMicroUsd = 5, bw_period = PCalendar Daily\<rparr>]\<rparr>"
    by (simp add: parseBudgetConfig_def parse_windows_config_def positive_def nullish_def calendar_of_name_def to_lower_def js_trim_def
        js_space_def lower_char_def)
  from parseBudgetConfig_sound [OF this] show ?thesis by simp
qed

definition wf_scope :: "BudgetScope \<Rightarrow> bool" where
  "wf_scope s =
     (case sc_kind s of
        SWorkspace \<Rightarrow> CHR '':'' \<notin> set (sc_entity s) \<and> sc_workspaceId s = None
      | SOrg \<Rightarrow> sc_workspaceId s = None
      | SModel \<Rightarrow> sc_workspaceId s = None
      | SAttr \<Rightarrow> sc_workspaceId s = None
      | _ \<Rightarrow> (case sc_workspaceId s of Some w \<Rightarrow> CHR '':'' \<notin> set w | None \<Rightarrow> False))"

lemma partitioned_scope_app [simp]:
  "CHR '':'' \<notin> set w \<Longrightarrow>
     partitioned_scope k (w @ CHR '':'' # e) = \<lparr>sc_kind = k, sc_entity = e, sc_workspaceId = Some w\<rparr>"
  by (simp add: partitioned_scope_def index_of_append)

text \<open>
  Scope strings round trip: a scope whose parts fit the string grammar (no separator in the
  workspace id or in a bare workspace entity, a workspace exactly for the partitioned kinds) is
  read back as written, so two different such scopes never share a counter.
\<close>

theorem budgetScope_roundtrip:
  assumes "wf_scope s"
  shows "parseBudgetScope (budgetScope s) = s"
proof -
  obtain k e w where s: "s = \<lparr>sc_kind = k, sc_entity = e, sc_workspaceId = w\<rparr>"
    by (cases s) auto
  have none: "CHR '':'' \<notin> set e \<Longrightarrow> index_of (CHR '':'') e = None" by (simp add: index_of_None)
  show ?thesis
    using assms none
    by (cases k; cases w) (simp_all add: s wf_scope_def budgetScope_def parseBudgetScope_def)
qed

theorem budgetScope_roundtrip_witness:
  "parseBudgetScope (budgetScope \<lparr>sc_kind = SKey, sc_entity = ''k:1'', sc_workspaceId = Some ''ws1''\<rparr>) =
     \<lparr>sc_kind = SKey, sc_entity = ''k:1'', sc_workspaceId = Some ''ws1''\<rparr>"
  by (rule budgetScope_roundtrip) (simp add: wf_scope_def)

end
