(* ===== verification/Budget_Safety.thy ===== *)
theory Budget_Safety
  imports Budget
begin

text \<open>
  What the in-memory budget store guarantees over every sequence of calls: the counters stay
  consistent whatever the calls are, and as long as every request spends at most what it
  reserved, the reserved and the committed amounts of a scope together never exceed the cap of
  any window of its budget, across window changes, resets, sweeps and prunes.
\<close>

declare windowId.simps(1-3) [simp del]

section \<open>The store as a map of counters\<close>

definition scope_counters :: "BudgetStore \<Rightarrow> string \<Rightarrow> Counters" where
  "scope_counters s scope =
     (case jm_get (st_counters s) scope of Some c \<Rightarrow> c | None \<Rightarrow> empty_counters)"

lemma scope_counters_ok: "store_ok s \<Longrightarrow> counters_ok (scope_counters s scope)"
  by (auto simp: store_ok_def scope_counters_def split: option.split
      dest: list_all_jm_get [where P = counters_ok])

lemma fst_counter: "fst (counter scope s) = scope_counters s scope"
  by (simp add: counter_def scope_counters_def split: option.split)

lemma scope_counters_counter: "scope_counters (snd (counter scope s)) x = scope_counters s x"
  by (simp add: counter_def scope_counters_def jm_get_set split: option.split)

lemma scope_counters_put:
  "scope_counters (put_counter scope c s) x = (if x = scope then c else scope_counters s x)"
  by (simp add: put_counter_def scope_counters_def jm_get_set)

lemma store_ok_put: "store_ok s \<Longrightarrow> counters_ok c \<Longrightarrow> store_ok (put_counter scope c s)"
  by (auto simp: store_ok_def put_counter_def intro!: list_all_jm_set [where P = counters_ok])

lemma store_ok_counter: "store_ok s \<Longrightarrow> store_ok (snd (counter scope s))"
  using store_ok_put [of s empty_counters scope]
  by (auto simp: counter_def put_counter_def split: option.split)

lemma prune_scope_key: "prune_scope capFor t (k, c) = Some kc \<Longrightarrow> fst kc = k"
  by (auto simp: prune_scope_def split_beta Let_def split: if_splits option.splits)

lemma prune_scope_counters_ok:
  "counters_ok c \<Longrightarrow> prune_scope capFor t (k, c) = Some kc \<Longrightarrow> counters_ok (snd kc)"
  using live_sum_ok [OF counters_ok_dropStaleWindows]
  by (auto simp: prune_scope_def split_beta Let_def split: if_splits option.splits)

lemma get_map_filter:
  assumes "\<And>k v kv. f (k, v) = Some kv \<Longrightarrow> fst kv = k"
  shows "jm_ok m \<Longrightarrow> jm_get (List.map_filter f m) k =
      (case jm_get m k of None \<Rightarrow> None | Some v \<Rightarrow> map_option snd (f (k, v)))"
    and "jm_ok m \<Longrightarrow> jm_ok (List.map_filter f m) \<and> fst ` set (List.map_filter f m) \<subseteq> fst ` set m"
proof (induction m)
  case (Cons p m)
  obtain k' v where p: "p = (k', v)" by (cases p)
  {
    case 1
    then have IH: "jm_get (List.map_filter f m) k =
        (case jm_get m k of None \<Rightarrow> None | Some v \<Rightarrow> map_option snd (f (k, v)))" using Cons.IH by simp
    have "jm_get m k' = None" using 1 p by (simp add: map_of_eq_None_iff)
    with IH assms [of k' v] p show ?case
      by (cases "f (k', v)") (auto simp: map_filter_simps split: option.splits)
  next
    case 2
    then show ?case using Cons.IH(2) assms [of k' v] p
      by (cases "f (k', v)") (auto simp: map_filter_simps)
  }
qed (simp_all add: map_filter_simps)

lemma get_prune:
  assumes "jm_ok m"
  shows "jm_get (List.map_filter (prune_scope capFor t) m) k =
      (case jm_get m k of None \<Rightarrow> None | Some c \<Rightarrow> map_option snd (prune_scope capFor t (k, c)))"
    and "jm_ok (List.map_filter (prune_scope capFor t) m)"
  using get_map_filter [where f = "prune_scope capFor t" and m = m] prune_scope_key assms
  by blast+

lemma prune_store_ok: "store_ok s \<Longrightarrow> store_ok (prune capFor t s)"
proof -
  assume s: "store_ok s"
  have "list_all (\<lambda>(k, c). counters_ok c) (List.map_filter (prune_scope capFor t) (st_counters s))"
    using s prune_scope_counters_ok unfolding store_ok_def list_all_iff map_filter_def by fastforce
  with s get_prune(2) [of "st_counters s" capFor t] show ?thesis
    by (simp add: prune_def Let_def store_ok_def)
qed

lemma scope_counters_prune:
  assumes "jm_ok (st_counters s)"
  shows "scope_counters (prune capFor t s) x = scope_counters s x \<or>
    scope_counters (prune capFor t s) x = empty_counters \<or>
    (\<exists>b. capFor x = Some b \<and> scope_counters (prune capFor t s) x =
       snd (live_sum (dropStaleWindows (scope_counters s x) (normalizeBudget b) t)
              (bs_windows (normalizeBudget b)) t))"
proof -
  note get = get_prune(1) [OF assms, of capFor t x]
  show ?thesis
    by (auto simp: prune_def Let_def scope_counters_def get prune_scope_def split_beta
        split: option.splits if_splits)
qed

section \<open>The invariant over every sequence of calls\<close>

datatype budget_event =
    EReserve string string nat
  | ECommit string string int
  | ERefresh string string

definition budget_step :: "cap_for \<Rightarrow> int \<Rightarrow> BudgetStore \<Rightarrow> int \<times> budget_event \<Rightarrow> BudgetStore" where
  "budget_step capFor life s te =
     (case te of
        (t, EReserve scope rid worst) \<Rightarrow> snd (reserve capFor life t scope rid (int worst) s)
      | (t, ECommit scope rid actual) \<Rightarrow> commit capFor t scope rid actual s
      | (t, ERefresh scope rid) \<Rightarrow> refresh life t scope rid s)"

text \<open>The counters a \<^verbatim>\<open>reserve\<close> works on before its admission loop, and the ones it leaves.\<close>

definition swept :: "cap_for \<Rightarrow> int \<Rightarrow> string \<Rightarrow> BudgetSpec \<Rightarrow> BudgetStore \<Rightarrow> Counters" where
  "swept capFor t scope spec s =
     sweep_expired t (dropStaleWindows
       (scope_counters (prune capFor t s) scope\<lparr>c_lastTouchedMs := t\<rparr>) spec t)"

lemma reserve_unfold:
  fixes t worst :: int and s :: BudgetStore
  assumes "capFor scope = Some b"
  defines "spec \<equiv> normalizeBudget b"
  defines "r \<equiv> admit_windows t worst (bs_windows spec) None (swept capFor t scope spec s)"
  shows "reserve capFor life t scope rid worst s =
    (case fst r of
       Inl d \<Rightarrow> (Inr (Some d), put_counter scope (snd r) (snd (counter scope (prune capFor t s))))
     | Inr bd \<Rightarrow>
         ((case bd of
             None \<Rightarrow> Inl TypeError
           | Some (w, used) \<Rightarrow>
               Inr (Some \<lparr>bd_allowed = True, bd_capMicroUsd = bw_capMicroUsd w, bd_usedMicroUsd = used,
                          bd_window = windowInfo (bw_period w) t\<rparr>)),
          put_counter scope
            ((snd r)\<lparr>c_reserved := jm_set rid \<lparr>rv_amount = worst, rv_expiresAtMs = t + life\<rparr> (c_reserved (snd r)),
                     c_reservedTotal := c_reservedTotal (snd r) + worst\<rparr>)
            (snd (counter scope (prune capFor t s)))))"
  by (simp add: reserve_def assms r_def spec_def swept_def fst_counter [symmetric] split_beta Let_def
      split: sum.split option.split)

lemma swept_ok: "store_ok s \<Longrightarrow> counters_ok (swept capFor t scope spec s)"
  by (simp add: swept_def counters_ok_sweep counters_ok_dropStaleWindows scope_counters_ok prune_store_ok)

lemma reserve_store_ok:
  assumes "store_ok s" and "0 \<le> worst"
  shows "store_ok (snd (reserve capFor life t scope rid worst s))"
proof (cases "capFor scope")
  case (Some b)
  let ?spec = "normalizeBudget b"
  let ?c = "snd (admit_windows t worst (bs_windows ?spec) None (swept capFor t scope ?spec s))"
  have c: "counters_ok ?c" using assms(1) by (simp add: admit_windows_ok swept_ok)
  have "store_ok (snd (counter scope (prune capFor t s)))"
    using assms(1) by (simp add: store_ok_counter prune_store_ok)
  note store_ok_put [OF this c] store_ok_put [OF this counters_ok_reserve [OF c assms(2)]]
  then show ?thesis unfolding reserve_unfold [of capFor, OF Some] by (simp split: sum.split)
qed (simp add: reserve_def assms)

lemma commit_unfold:
  "commit capFor t scope rid actual s =
     put_counter scope
       (if 0 < actual
        then (case capFor scope of None \<Rightarrow> release t rid (scope_counters s scope)
              | Some b \<Rightarrow> book_windows t actual (bs_windows (normalizeBudget b))
                            (release t rid (scope_counters s scope)))
        else release t rid (scope_counters s scope)) (snd (counter scope s))"
  by (simp add: commit_def fst_counter split_beta Let_def split: option.split)

lemma commit_store_ok: "store_ok s \<Longrightarrow> store_ok (commit capFor t scope rid actual s)"
  unfolding commit_unfold
  by (intro store_ok_put store_ok_counter)
     (auto intro!: book_windows_ok counters_ok_release scope_counters_ok split: option.split)

lemma counters_ok_restamp:
  assumes "counters_ok c" and "jm_get (c_reserved c) rid = Some r"
  shows "counters_ok (c\<lparr>c_reserved := jm_set rid (r\<lparr>rv_expiresAtMs := e\<rparr>) (c_reserved c)\<rparr>)"
proof -
  have "0 \<le> rv_amount r"
    using assms by (auto simp: counters_ok_def dest: list_all_jm_get [where P = "\<lambda>r. 0 \<le> rv_amount r"])
  with assms show ?thesis
    by (auto simp: counters_ok_def jm_sum_set intro!: list_all_jm_set [where P = "\<lambda>r. 0 \<le> rv_amount r"])
qed

lemma refresh_store_ok: "store_ok s \<Longrightarrow> store_ok (refresh life t scope rid s)"
  by (auto simp: refresh_def store_ok_def split: option.split
      intro!: store_ok_put [unfolded store_ok_def] counters_ok_restamp
      dest: list_all_jm_get [where P = counters_ok])

interpretation budget_store_steps: step_system "budget_step capFor life" store_ok for capFor life
proof
  fix s e assume "store_ok s"
  then show "store_ok (budget_step capFor life s e)"
    by (auto simp: budget_step_def reserve_store_ok commit_store_ok refresh_store_ok
        split: prod.split budget_event.split)
qed

section \<open>Current spend of a window\<close>

definition elapsed :: "BudgetPeriod \<Rightarrow> WindowCounter \<Rightarrow> int \<Rightarrow> bool" where
  "elapsed p wc t =
     (case p of PFixed s \<Rightarrow> wc_windowStartMs wc \<noteq> 0 \<and> s * 1000 \<le> t - wc_windowStartMs wc | _ \<Rightarrow> False)"

definition spent :: "Counters \<Rightarrow> BudgetPeriod \<Rightarrow> int \<Rightarrow> int" where
  "spent c p t =
     (case jm_get (c_windows c) (windowId p t) of
        None \<Rightarrow> 0
      | Some wc \<Rightarrow> if elapsed p wc t then 0 else wc_committed wc)"

lemma windowCounter_spent: "wc_committed (fst (windowCounter c w t)) = spent c (bw_period w) t"
  by (simp add: windowCounter_def spent_def elapsed_def Let_def split: option.split BudgetPeriod.split)

lemma spent_nonneg: "counters_ok c \<Longrightarrow> 0 \<le> spent c p t"
  by (auto simp: spent_def counters_ok_def split: option.split
      dest: list_all_jm_get [where P = "\<lambda>wc. 0 \<le> wc_committed wc"])

text \<open>Windows with one id have one period, or the same calendar kind.\<close>

lemma windowId_same_period: "windowId p t = windowId p' t' \<Longrightarrow> p = p'"
  using windowId_hd [of p t] windowId_hd [of p' t'] show_int_eq_iff
  by (cases p; cases p') (auto split: CalendarPeriodKind.splits)

lemma spent_windowCounter:
  assumes "t \<le> t'"
  shows "spent (snd (windowCounter c w t)) p t' = spent c p t'"
proof (cases "windowId p t' = windowId (bw_period w) t")
  case True
  then have p: "p = bw_period w" by (rule windowId_same_period)
  show ?thesis
    using assms True unfolding p
    by (auto simp: spent_def windowCounter_snd jm_get_set windowCounter_def Let_def elapsed_def
        split: option.split BudgetPeriod.split)
next
  case False
  then show ?thesis by (simp add: spent_def windowCounter_snd jm_get_set)
qed

lemma get_filter_key:
  "jm_get (filter (\<lambda>(k, v). P k) m) k = (if P k then jm_get m k else None)"
  by (induction m) auto

lemma spent_dropStale: "counters_ok c \<Longrightarrow> spent (dropStaleWindows c spec t) p t' \<le> spent c p t'"
  using spent_nonneg [of c p t']
  by (auto simp: spent_def dropStaleWindows_def Let_def get_filter_key split: option.split)

lemma spent_touch [simp]: "spent (c\<lparr>c_lastTouchedMs := u\<rparr>) p t = spent c p t"
  "spent (c\<lparr>c_reserved := r, c_reservedTotal := n\<rparr>) p t = spent c p t"
  by (simp_all add: spent_def)

lemma spent_sweep [simp]: "spent (sweep_expired u c) p t = spent c p t"
  by (simp add: sweep_expired_def split_beta)

lemma spent_release [simp]: "spent (release u rid c) p t = spent c p t"
  by (simp add: release_def spent_def)

lemma spent_live_sum: "t \<le> t' \<Longrightarrow> spent (snd (live_sum c ws t)) p t' = spent c p t'"
  by (induction ws arbitrary: c) (simp_all add: split_beta spent_windowCounter)

lemma live_sum_keeps [simp]:
  "c_reserved (snd (live_sum c ws t)) = c_reserved c"
  "c_reservedTotal (snd (live_sum c ws t)) = c_reservedTotal c"
  by (induction ws arbitrary: c) (simp_all add: split_beta)

lemma spent_admit: "t \<le> t' \<Longrightarrow> spent (snd (admit_windows t worst ws b c)) p t' = spent c p t'"
  by (induction ws arbitrary: b c) (simp_all add: split_beta Let_def spent_windowCounter)

text \<open>An admission has checked every window.\<close>

lemma admit_all:
  "fst (admit_windows t worst ws b c) = Inr b' \<Longrightarrow> w \<in> set ws \<Longrightarrow>
     c_reservedTotal c + worst + spent c (bw_period w) t \<le> bw_capMicroUsd w"
proof (induction ws arbitrary: b c)
  case (Cons v ws)
  note step = Cons.prems(1)
  have "\<not> bw_capMicroUsd v < c_reservedTotal c + spent c (bw_period v) t + worst"
    using step by (auto simp: split_beta Let_def windowCounter_spent split: if_splits)
  moreover from this obtain b1 where
    "fst (admit_windows t worst ws b1 (snd (windowCounter c v t))) = Inr b'"
    using step by (auto simp: split_beta Let_def windowCounter_spent)
  from Cons.IH [OF this] have "w \<in> set ws \<Longrightarrow>
      c_reservedTotal c + worst + spent c (bw_period w) t \<le> bw_capMicroUsd w"
    by (simp add: spent_windowCounter)
  ultimately show ?case using Cons.prems(2) by auto
qed simp

text \<open>Booking adds the actual spend to each window of the budget, once if the periods differ.\<close>

lemma spent_set_other:
  "windowId p t \<noteq> k \<Longrightarrow> spent (c\<lparr>c_windows := jm_set k wc (c_windows c)\<rparr>) p t = spent c p t"
  by (simp add: spent_def jm_get_set)

lemma spent_set_same:
  "spent (c\<lparr>c_windows := jm_set (windowId p t) wc m\<rparr>) p t = (if elapsed p wc t then 0 else wc_committed wc)"
  by (simp add: spent_def jm_get_set)

lemma spent_book:
  fixes t :: int and w :: BudgetWindow
  assumes "counters_ok c" and "0 \<le> actual"
  defines "c' \<equiv> snd (windowCounter c w t)"
  shows "spent (c'\<lparr>c_windows := jm_set (windowId (bw_period w) t)
      (book t actual (bw_period w) (fst (windowCounter c w t))) (c_windows c')\<rparr>) p t
    \<le> spent c p t + (if p = bw_period w then actual else 0)"
proof (cases "p = bw_period w")
  case True
  then show ?thesis
    using assms(2) windowCounter_committed_nonneg [OF assms(1), of w t]
    by (simp add: spent_set_same windowCounter_spent)
next
  case False
  then have "windowId p t \<noteq> windowId (bw_period w) t" using windowId_same_period by blast
  then show ?thesis using False by (simp add: spent_set_other spent_windowCounter c'_def)
qed

lemma book_windows_keeps [simp]:
  "c_reserved (book_windows t actual ws c) = c_reserved c"
  "c_reservedTotal (book_windows t actual ws c) = c_reservedTotal c"
  by (induction ws arbitrary: c) (simp_all add: split_beta)

lemma spent_book_windows:
  assumes "counters_ok c" and "0 \<le> actual" and "distinct (map bw_period ws)"
  shows "spent (book_windows t actual ws c) p t
    \<le> spent c p t + (if p \<in> bw_period ` set ws then actual else 0)"
  using assms
proof (induction ws arbitrary: c)
  case (Cons w ws)
  let ?c = "snd (windowCounter c w t)\<lparr>c_windows := jm_set (windowId (bw_period w) t)
      (book t actual (bw_period w) (fst (windowCounter c w t))) (c_windows (snd (windowCounter c w t)))\<rparr>"
  have "counters_ok ?c"
    using Cons.prems by (intro counters_ok_set_window)
      (simp_all add: counters_ok_windowCounter windowCounter_committed_nonneg)
  then have "spent (book_windows t actual ws ?c) p t
      \<le> spent ?c p t + (if p \<in> bw_period ` set ws then actual else 0)"
    using Cons by simp
  also have "spent ?c p t \<le> spent c p t + (if p = bw_period w then actual else 0)"
    using Cons.prems by (intro spent_book) simp_all
  finally show ?case using Cons.prems(3) by (auto simp: split_beta split: if_splits)
qed simp

section \<open>The passage of time\<close>

text \<open>
  A counter kept under the id of a calendar window belongs to a window that has begun: an id met
  again later is the id of the present window.
\<close>

definition begun :: "int \<Rightarrow> string \<Rightarrow> bool" where
  "begun t key \<longleftrightarrow> (\<forall>k t'. t \<le> t' \<and> windowId (PCalendar k) t' = key \<longrightarrow> windowId (PCalendar k) t = key)"

definition windows_begun :: "Counters \<Rightarrow> int \<Rightarrow> bool" where
  "windows_begun c t \<longleftrightarrow> (\<forall>key \<in> fst ` set (c_windows c). begun t key)"

lemma begunD: "begun t key \<Longrightarrow> t \<le> t' \<Longrightarrow> windowId (PCalendar k) t' = key \<Longrightarrow> windowId (PCalendar k) t = key"
  unfolding begun_def by blast

lemma begun_windowId: "begun t (windowId p t)"
  unfolding begun_def using windowId_same_period by blast

lemma begun_later: "begun t key \<Longrightarrow> 0 \<le> t \<Longrightarrow> t \<le> u \<Longrightarrow> begun u key"
  unfolding begun_def [of u]
proof (intro allI impI)
  fix k t'
  assume b: "begun t key" and t: "0 \<le> t" "t \<le> u" and h: "u \<le> t' \<and> windowId (PCalendar k) t' = key"
  then have "windowId (PCalendar k) t = key" using begunD [OF b, of t' k] by simp
  with windowId_convex [of t u t' k] t h show "windowId (PCalendar k) u = key" by simp
qed

lemma windows_begun_later: "windows_begun c t \<Longrightarrow> 0 \<le> t \<Longrightarrow> t \<le> u \<Longrightarrow> windows_begun c u"
  unfolding windows_begun_def using begun_later by blast

lemma windows_begun_keys:
  assumes "windows_begun c t"
    and "\<And>key. key \<in> fst ` set (c_windows c') \<Longrightarrow> key \<in> fst ` set (c_windows c) \<or> (\<exists>p. key = windowId p t)"
  shows "windows_begun c' t"
  unfolding windows_begun_def
proof
  fix key assume "key \<in> fst ` set (c_windows c')"
  from assms(2) [OF this] assms(1) show "begun t key"
    unfolding windows_begun_def by (auto simp: begun_windowId)
qed

lemma keys_set: "fst ` set (jm_set k v m) = insert k (fst ` set m)"
  using dom_update [of k v m] by (simp add: dom_map_of_conv_image_fst)

lemma windowCounter_begun: "windows_begun c t \<Longrightarrow> windows_begun (snd (windowCounter c w t)) t"
  by (erule windows_begun_keys) (auto simp: windowCounter_snd keys_set)

lemma dropStale_begun: "windows_begun c t \<Longrightarrow> windows_begun (dropStaleWindows c spec u) t"
  by (erule windows_begun_keys) (auto simp: dropStaleWindows_def Let_def)

lemma live_sum_begun: "windows_begun c t \<Longrightarrow> windows_begun (snd (live_sum c ws t)) t"
  by (induction ws arbitrary: c) (simp_all add: split_beta windowCounter_begun)

lemma admit_begun: "windows_begun c t \<Longrightarrow> windows_begun (snd (admit_windows t worst ws b c)) t"
  by (induction ws arbitrary: b c) (simp_all add: split_beta Let_def windowCounter_begun)

lemma book_begun: "windows_begun c t \<Longrightarrow> windows_begun (book_windows t actual ws c) t"
proof (induction ws arbitrary: c)
  case (Cons w ws)
  have "windows_begun (snd (windowCounter c w t)\<lparr>c_windows := jm_set (windowId (bw_period w) t)
      (book t actual (bw_period w) (fst (windowCounter c w t))) (c_windows (snd (windowCounter c w t)))\<rparr>) t"
    by (rule windows_begun_keys [OF windowCounter_begun [OF Cons.prems, of w]]) (auto simp: keys_set)
  then show ?case using Cons.IH by (simp add: split_beta)
qed simp

lemma windows_begun_cong: "c_windows c' = c_windows c \<Longrightarrow> windows_begun c' t = windows_begun c t"
  by (simp add: windows_begun_def)

lemma spent_later:
  assumes "counters_ok c" and "windows_begun c t" and "t \<le> t'"
  shows "spent c p t' \<le> spent c p t"
proof (cases "windowId p t' = windowId p t")
  case True
  have "elapsed p wc t' \<or> \<not> elapsed p wc t" for wc
    using assms(3) by (auto simp: elapsed_def split: BudgetPeriod.split)
  then show ?thesis
    using True assms(1) spent_nonneg [OF assms(1), of p t]
    by (auto simp: spent_def split: option.split)
next
  case False
  then obtain k where k: "p = PCalendar k" by (cases p) auto
  have "jm_get (c_windows c) (windowId p t') = None"
    unfolding map_of_eq_None_iff
  proof
    assume "windowId p t' \<in> fst ` set (c_windows c)"
    then have "begun t (windowId p t')" using assms(2) unfolding windows_begun_def by blast
    from begunD [OF this assms(3), of k] False k show False by simp
  qed
  then show ?thesis using spent_nonneg [OF assms(1), of p t] by (simp add: spent_def)
qed

section \<open>Caps hold over every run\<close>

text \<open>
  A budget whose caps are not negative and whose windows have different periods. Two windows of
  one period share a counter, which a commit then books twice.
\<close>

definition wf_spec :: "BudgetSpec \<Rightarrow> bool" where
  "wf_spec spec \<longleftrightarrow>
     distinct (map bw_period (bs_windows spec)) \<and> list_all (\<lambda>w. 0 \<le> bw_capMicroUsd w) (bs_windows spec)"

definition within_caps :: "BudgetSpec \<Rightarrow> Counters \<Rightarrow> int \<Rightarrow> bool" where
  "within_caps spec c t \<longleftrightarrow>
     list_all (\<lambda>w. c_reservedTotal c + spent c (bw_period w) t \<le> bw_capMicroUsd w) (bs_windows spec)"

definition scope_safe :: "BudgetLike option \<Rightarrow> Counters \<Rightarrow> int \<Rightarrow> bool" where
  "scope_safe ob c t \<longleftrightarrow> counters_ok c \<and> windows_begun c t \<and>
     (case ob of None \<Rightarrow> True | Some b \<Rightarrow> wf_spec (normalizeBudget b) \<longrightarrow> within_caps (normalizeBudget b) c t)"

definition store_safe :: "cap_for \<Rightarrow> BudgetStore \<Rightarrow> int \<Rightarrow> bool" where
  "store_safe capFor s t \<longleftrightarrow> store_ok s \<and> (\<forall>x. scope_safe (capFor x) (scope_counters s x) t)"

lemma within_caps_mono:
  assumes "within_caps spec c t" and "c_reservedTotal c' \<le> c_reservedTotal c"
    and "\<And>p. spent c' p t' \<le> spent c p t"
  shows "within_caps spec c' t'"
  using assms unfolding within_caps_def list_all_iff by (meson add_mono order_trans)

lemma scope_safe_mono:
  assumes "scope_safe ob c t" and "counters_ok c'" and "windows_begun c' t'"
    and "c_reservedTotal c' \<le> c_reservedTotal c" and "\<And>p. spent c' p t' \<le> spent c p t"
  shows "scope_safe ob c' t'"
  using assms within_caps_mono [OF _ assms(4) assms(5)] by (auto simp: scope_safe_def split: option.splits)

lemma scope_safe_empty: "scope_safe ob empty_counters t"
  by (auto simp: scope_safe_def windows_begun_def within_caps_def spent_def empty_counters_def wf_spec_def
      list_all_iff counters_ok_def split: option.split)

lemma scope_safe_later: "scope_safe ob c t \<Longrightarrow> 0 \<le> t \<Longrightarrow> t \<le> t' \<Longrightarrow> scope_safe ob c t'"
  by (rule scope_safe_mono [of ob c t])
     (auto simp: scope_safe_def intro: windows_begun_later spent_later)

lemma store_safe_later: "store_safe capFor s t \<Longrightarrow> 0 \<le> t \<Longrightarrow> t \<le> t' \<Longrightarrow> store_safe capFor s t'"
  unfolding store_safe_def using scope_safe_later by blast

lemma scope_safe_drop: "scope_safe ob c t \<Longrightarrow> scope_safe ob (dropStaleWindows c spec t) t"
  by (rule scope_safe_mono [of ob c t])
     (auto simp: scope_safe_def counters_ok_dropStaleWindows dropStale_begun spent_dropStale,
      simp add: dropStaleWindows_def Let_def)

lemma scope_safe_live_sum: "scope_safe ob c t \<Longrightarrow> scope_safe ob (snd (live_sum c ws t)) t"
  by (rule scope_safe_mono [of ob c t]) (auto simp: scope_safe_def live_sum_ok live_sum_begun spent_live_sum)

lemma prune_safe: "store_safe capFor s t \<Longrightarrow> store_safe capFor (prune capFor t s) t"
  using scope_counters_prune [of s capFor t]
  unfolding store_safe_def
  by (metis prune_store_ok scope_safe_drop scope_safe_empty scope_safe_live_sum store_ok_def)

lemma scope_safe_sweep:
  assumes c: "scope_safe ob c t"
  shows "scope_safe ob (sweep_expired t c) t"
proof (rule scope_safe_mono [OF c])
  have ok: "counters_ok c" using c by (simp add: scope_safe_def)
  then have "0 \<le> jm_sum rv_amount (c_reserved c)"
    by (intro jm_sum_nonneg) (auto simp: counters_ok_def list_all_iff)
  with ok have "snd (sweep t (c_reserved c) (c_reservedTotal c)) \<le> c_reservedTotal c"
    by (intro sweep_total_le) (auto simp: counters_ok_def)
  then show "c_reservedTotal (sweep_expired t c) \<le> c_reservedTotal c"
    by (simp add: sweep_expired_def split_beta)
  show "counters_ok (sweep_expired t c)" using ok by (rule counters_ok_sweep)
  show "windows_begun (sweep_expired t c) t"
    using c by (simp add: scope_safe_def windows_begun_def sweep_expired_def split_beta)
qed simp

lemma swept_safe:
  assumes "store_safe capFor s t" and "capFor scope = Some b"
  shows "scope_safe (Some b) (swept capFor t scope (normalizeBudget b) s) t"
proof -
  have "scope_safe (Some b) (scope_counters (prune capFor t s) scope) t"
    using prune_safe [OF assms(1)] assms(2) by (metis store_safe_def)
  then have "scope_safe (Some b) (scope_counters (prune capFor t s) scope\<lparr>c_lastTouchedMs := t\<rparr>) t"
    by (simp add: scope_safe_def within_caps_def windows_begun_def)
  then show ?thesis unfolding swept_def by (intro scope_safe_sweep scope_safe_drop)
qed

lemma store_safe_put:
  assumes "store_safe capFor s t" and "scope_safe (capFor scope) c t"
  shows "store_safe capFor (put_counter scope c (snd (counter scope s))) t"
proof -
  have "counters_ok c" using assms(2) by (simp add: scope_safe_def)
  then show ?thesis
    using assms by (simp add: store_safe_def scope_counters_put scope_counters_counter store_ok_put store_ok_counter)
qed

lemma reserve_safe:
  assumes "store_safe capFor s t" and "0 \<le> worst"
  shows "store_safe capFor (snd (reserve capFor life t scope rid worst s)) t"
proof (cases "capFor scope")
  case (Some b)
  let ?spec = "normalizeBudget b"
  let ?c0 = "swept capFor t scope ?spec s"
  let ?r = "admit_windows t worst (bs_windows ?spec) None ?c0"
  have c0: "scope_safe (Some b) ?c0 t" by (rule swept_safe [OF assms(1) Some])
  then have r: "scope_safe (Some b) (snd ?r) t"
    by (intro scope_safe_mono [OF c0]) (auto simp: scope_safe_def admit_windows_ok admit_begun spent_admit)
  have ok: "counters_ok (snd ?r)" using r by (simp add: scope_safe_def)
  have "scope_safe (Some b) ((snd ?r)\<lparr>c_reserved := jm_set rid \<lparr>rv_amount = worst, rv_expiresAtMs = t + life\<rparr>
      (c_reserved (snd ?r)), c_reservedTotal := c_reservedTotal (snd ?r) + worst\<rparr>) t"
    if "fst ?r = Inr bd" for bd
    using counters_ok_reserve [OF ok assms(2), of rid "t + life"] r admit_all [OF that]
    by (auto simp: scope_safe_def windows_begun_def within_caps_def list_all_iff spent_admit)
  with r prune_safe [OF assms(1)] Some show ?thesis
    unfolding reserve_unfold [of capFor, OF Some] by (auto split: sum.split intro!: store_safe_put)
qed (simp add: reserve_def assms)

lemma c_windows_release [simp]: "c_windows (release t rid c) = c_windows c"
  by (simp add: release_def)

lemma release_total:
  assumes "counters_ok c" and "jm_get (c_reserved c) rid = Some r"
  shows "c_reservedTotal (release t rid c) = c_reservedTotal c - rv_amount r" and "0 \<le> rv_amount r"
proof -
  have "0 \<le> jm_sum rv_amount (jm_delete rid (c_reserved c))"
    using assms(1) by (intro jm_sum_nonneg) (fastforce simp: counters_ok_def list_all_iff dest: jm_delete_mem)
  then show "c_reservedTotal (release t rid c) = c_reservedTotal c - rv_amount r"
    using assms by (simp add: release_def counters_ok_def jm_sum_delete)
  show "0 \<le> rv_amount r"
    using assms by (auto simp: counters_ok_def dest: list_all_jm_get [where P = "\<lambda>r. 0 \<le> rv_amount r"])
qed

lemma release_total_le:
  assumes "counters_ok c"
  shows "c_reservedTotal (release t rid c) \<le> c_reservedTotal c"
proof (cases "jm_get (c_reserved c) rid")
  case (Some r)
  with release_total(1) [OF assms Some, of t] release_total(2) [OF assms Some] show ?thesis by simp
qed (simp add: release_def)

lemma scope_safe_release:
  assumes c: "scope_safe ob c t"
  shows "scope_safe ob (release t rid c) t"
proof (rule scope_safe_mono [OF c])
  have ok: "counters_ok c" using c by (simp add: scope_safe_def)
  show "counters_ok (release t rid c)" using ok by (rule counters_ok_release)
  show "c_reservedTotal (release t rid c) \<le> c_reservedTotal c" using ok by (rule release_total_le)
  show "windows_begun (release t rid c) t" using c by (simp add: scope_safe_def windows_begun_def)
qed simp

lemma scope_safe_book:
  assumes c: "scope_safe (Some b) c t" and a: "0 < actual"
    and r: "jm_get (c_reserved c) rid = Some r" "actual \<le> rv_amount r"
  shows "scope_safe (Some b) (book_windows t actual (bs_windows (normalizeBudget b)) (release t rid c)) t"
proof -
  let ?ws = "bs_windows (normalizeBudget b)" and ?c = "release t rid c"
  have ok: "counters_ok c" using c by (simp add: scope_safe_def)
  have "within_caps (normalizeBudget b) (book_windows t actual ?ws ?c) t" if wf: "wf_spec (normalizeBudget b)"
    unfolding within_caps_def list_all_iff
  proof
    fix w assume w: "w \<in> set ?ws"
    have "spent (book_windows t actual ?ws ?c) (bw_period w) t \<le> spent c (bw_period w) t + actual"
      using spent_book_windows [of ?c actual ?ws t "bw_period w"] ok a wf w
      by (simp add: counters_ok_release wf_spec_def)
    moreover have "c_reservedTotal c + spent c (bw_period w) t \<le> bw_capMicroUsd w"
      using c wf w by (simp add: scope_safe_def within_caps_def list_all_iff)
    ultimately show "c_reservedTotal (book_windows t actual ?ws ?c) +
        spent (book_windows t actual ?ws ?c) (bw_period w) t \<le> bw_capMicroUsd w"
      using release_total(1) [OF ok r(1), of t] r(2) by simp
  qed
  then show ?thesis
    using scope_safe_release [OF c, of rid] a by (auto simp: scope_safe_def book_windows_ok book_begun)
qed

lemma commit_safe:
  assumes s: "store_safe capFor s t"
    and r: "0 < actual \<Longrightarrow> \<exists>r. jm_get (c_reserved (scope_counters s scope)) rid = Some r \<and> actual \<le> rv_amount r"
  shows "store_safe capFor (commit capFor t scope rid actual s) t"
proof -
  have c: "scope_safe (capFor scope) (scope_counters s scope) t" using s by (simp add: store_safe_def)
  have "scope_safe (Some b) (book_windows t actual (bs_windows (normalizeBudget b))
      (release t rid (scope_counters s scope))) t" if "capFor scope = Some b" and "0 < actual" for b
    using c that r [OF that(2)] by (auto intro: scope_safe_book)
  with scope_safe_release [OF c, of rid] show ?thesis
    unfolding commit_unfold by (intro store_safe_put [OF s]) (auto split: option.split)
qed

lemma refresh_keeps:
  "c_windows (scope_counters (refresh life t scope rid s) x) = c_windows (scope_counters s x)"
  "c_reservedTotal (scope_counters (refresh life t scope rid s) x) = c_reservedTotal (scope_counters s x)"
  by (simp_all add: refresh_def scope_counters_put split: option.split) (simp_all add: scope_counters_def)

lemma refresh_safe:
  assumes s: "store_safe capFor s t"
  shows "store_safe capFor (refresh life t scope rid s) t"
proof -
  have c: "scope_safe (capFor x) (scope_counters s x) t" for x using s by (simp add: store_safe_def)
  have ok: "store_ok (refresh life t scope rid s)" using s by (simp add: store_safe_def refresh_store_ok)
  have "scope_safe (capFor x) (scope_counters (refresh life t scope rid s) x) t" for x
    by (rule scope_safe_mono [OF c [of x]])
       (use c [of x] in \<open>simp_all add: scope_counters_ok ok scope_safe_def windows_begun_def spent_def refresh_keeps\<close>)
  with ok show ?thesis by (simp add: store_safe_def)
qed

text \<open>
  The runs of a store: calls at times that do not run backwards, where a call that books a spend
  holds a reservation of at least that amount.
\<close>

inductive budget_run :: "cap_for \<Rightarrow> int \<Rightarrow> BudgetStore \<Rightarrow> int \<Rightarrow> bool" for capFor life where
  start: "budget_run capFor life empty_store 0"
| reserve: "budget_run capFor life (snd (reserve capFor life t' scope rid worst s)) t'"
    if "budget_run capFor life s t" "t \<le> t'" "0 \<le> worst"
| commit: "budget_run capFor life (commit capFor t' scope rid actual s) t'"
    if "budget_run capFor life s t" "t \<le> t'"
       "0 < actual \<longrightarrow> (\<exists>r. jm_get (c_reserved (scope_counters s scope)) rid = Some r \<and> actual \<le> rv_amount r)"
| refresh: "budget_run capFor life (refresh life t' scope rid s) t'"
    if "budget_run capFor life s t" "t \<le> t'"

lemma budget_run_safe: "budget_run capFor life s t \<Longrightarrow> store_safe capFor s t \<and> 0 \<le> t"
proof (induction rule: budget_run.induct)
  case start
  then show ?case
    by (simp add: store_safe_def store_ok_def empty_store_def scope_counters_def scope_safe_empty)
next
  case (reserve s t t' worst scope rid)
  then show ?case by (meson order_trans reserve_safe store_safe_later)
next
  case (commit s t t' actual scope rid)
  then show ?case by (meson order_trans commit_safe store_safe_later)
next
  case (refresh s t t' scope rid)
  then show ?case by (meson order_trans refresh_safe store_safe_later)
qed

section \<open>One reservation and its commit\<close>

lemma admit_iff:
  "(\<exists>b'. fst (admit_windows t worst ws b c) = Inr b') \<longleftrightarrow>
     list_all (\<lambda>w. c_reservedTotal c + worst + spent c (bw_period w) t \<le> bw_capMicroUsd w) ws"
proof (induction ws arbitrary: b c)
  case (Cons w ws)
  show ?case
    using Cons.IH by (auto simp: split_beta Let_def windowCounter_spent spent_windowCounter algebra_simps)
qed simp

lemma admit_rejects:
  "fst (admit_windows t worst ws b c) = Inl d \<Longrightarrow>
     \<not> bd_allowed d \<and> (\<exists>w\<in>set ws. bd_capMicroUsd d = bw_capMicroUsd w \<and>
       bd_usedMicroUsd d = c_reservedTotal c + spent c (bw_period w) t \<and>
       bw_capMicroUsd w < bd_usedMicroUsd d + worst)"
proof (induction ws arbitrary: b c)
  case (Cons w ws)
  show ?case
  proof (cases "bw_capMicroUsd w < c_reservedTotal c + spent c (bw_period w) t + worst")
    case True
    with Cons.prems show ?thesis by (auto simp: split_beta Let_def windowCounter_spent)
  next
    case False
    with Cons.prems Cons.IH [of _ "snd (windowCounter c w t)"] show ?thesis
      by (fastforce simp: split_beta Let_def windowCounter_spent spent_windowCounter)
  qed
qed simp

lemma rebind_Some: "rebind b w x \<noteq> None"
  by (auto simp: rebind_def binds_more_def split: option.splits)

lemma admit_binding: "ws \<noteq> [] \<or> b \<noteq> None \<Longrightarrow> fst (admit_windows t worst ws b c) \<noteq> Inr None"
proof (induction ws arbitrary: b c)
  case (Cons w ws)
  then show ?case using rebind_Some by (simp add: split_beta Let_def del: not_None_eq)
qed auto

lemma spent_book_exact:
  assumes "p = bw_period w" and "\<not> (\<exists>n \<le> 0. p = PFixed n)"
  shows "spent (snd (windowCounter c w t)\<lparr>c_windows := jm_set (windowId p t)
      (book t actual p (fst (windowCounter c w t))) m\<rparr>) p t = spent c p t + actual"
proof -
  have "\<not> elapsed p (book t actual p (fst (windowCounter c w t))) t"
    using assms by (auto simp: elapsed_def book_def windowCounter_def Let_def split: BudgetPeriod.split option.split)
  then show ?thesis using assms(1) by (simp add: spent_set_same windowCounter_spent)
qed

lemma spent_book_windows_other:
  "p \<notin> bw_period ` set ws \<Longrightarrow> spent (book_windows t actual ws c) p t = spent c p t"
proof (induction ws arbitrary: c)
  case (Cons w ws)
  then have "windowId p t \<noteq> windowId (bw_period w) t" using windowId_same_period by fastforce
  then show ?case using Cons by (simp add: split_beta spent_set_other spent_windowCounter)
qed simp

lemma spent_book_windows_exact:
  assumes "distinct (map bw_period ws)" and "w \<in> set ws" and "\<not> (\<exists>n \<le> 0. bw_period w = PFixed n)"
  shows "spent (book_windows t actual ws c) (bw_period w) t = spent c (bw_period w) t + actual"
  using assms
proof (induction ws arbitrary: c)
  case (Cons v ws)
  show ?case
  proof (cases "bw_period v = bw_period w")
    case True
    then have "bw_period w \<notin> bw_period ` set ws" using Cons.prems(1) by auto
    then show ?thesis
      using True Cons.prems(3) spent_book_exact [OF True [symmetric], where c = c and t = t and actual = actual]
      by (simp add: split_beta spent_book_windows_other)
  next
    case False
    then have "w \<in> set ws" using Cons.prems(2) by auto
    moreover have "windowId (bw_period w) t \<noteq> windowId (bw_period v) t"
      using False windowId_same_period by metis
    ultimately show ?thesis
      using Cons by (simp add: split_beta spent_set_other spent_windowCounter)
  qed
qed simp

section \<open>Properties of the store\<close>

text \<open>
  C1. Caps hold. In every run of the store whose calls do not go back in time and in which no
  request books more than it holds reserved, and at every later instant, the amount reserved in
  a scope plus the amount committed in the current window is within the cap of each window of
  the scope's budget: concurrent requests, window changes, fixed window resets, orphan sweeps
  and the idle prune included.
\<close>

theorem budget_caps_hold:
  assumes "budget_run capFor life s t" and "t \<le> t'" and "capFor scope = Some b"
    and "wf_spec (normalizeBudget b)" and "w \<in> set (bs_windows (normalizeBudget b))"
  shows "c_reservedTotal (scope_counters s scope) + spent (scope_counters s scope) (bw_period w) t'
    \<le> bw_capMicroUsd w"
proof -
  have "store_safe capFor s t'" using budget_run_safe [OF assms(1)] assms(2) by (blast intro: store_safe_later)
  then have "scope_safe (Some b) (scope_counters s scope) t'" using assms(3) by (metis store_safe_def)
  then show ?thesis using assms(4,5) by (simp add: scope_safe_def within_caps_def list_all_iff)
qed

definition sample_spec :: BudgetSpec where
  "sample_spec = \<lparr>bs_windows = [\<lparr>bw_capMicroUsd = 100, bw_period = PFixed 3600\<rparr>,
                                \<lparr>bw_capMicroUsd = 500, bw_period = PNone\<rparr>]\<rparr>"

definition sample_caps :: cap_for where
  "sample_caps scope = (if scope = ''ws1'' then Some (Spec sample_spec) else None)"

lemma sample_caps_ws1: "sample_caps ''ws1'' = Some (Spec sample_spec)"
  by (simp add: sample_caps_def)

theorem budget_caps_hold_witness:
  "c_reservedTotal (scope_counters (snd (reserve sample_caps 600000 5 ''ws1'' ''r1'' 60 empty_store)) ''ws1'') +
   spent (scope_counters (snd (reserve sample_caps 600000 5 ''ws1'' ''r1'' 60 empty_store)) ''ws1'') (PFixed 3600) 9
   \<le> 100"
proof -
  have "budget_run sample_caps 600000 (snd (reserve sample_caps 600000 5 ''ws1'' ''r1'' 60 empty_store)) 5"
    by (rule budget_run.reserve [OF budget_run.start]) simp_all
  from budget_caps_hold [OF this, of 9 "''ws1''" _ "\<lparr>bw_capMicroUsd = 100, bw_period = PFixed 3600\<rparr>"]
  show ?thesis by (simp add: sample_caps_ws1 sample_spec_def wf_spec_def)
qed

text \<open>
  C3. The decision of \<^verbatim>\<open>reserve\<close>. With a budget that has a window, the call returns a decision; it
  admits exactly if the worst case fits under the cap of every window on top of what is reserved
  and committed after the sweep; an admission records the reservation and adds it to the total,
  a rejection leaves the reservations and the total as the sweep left them.
\<close>

theorem reserve_decides:
  fixes s :: BudgetStore and scope rid :: string and worst t life :: int
  assumes "capFor scope = Some b" and "bs_windows (normalizeBudget b) \<noteq> []"
  defines "c \<equiv> swept capFor t scope (normalizeBudget b) s"
    and "c' \<equiv> scope_counters (snd (reserve capFor life t scope rid worst s)) scope"
  shows "\<exists>d. fst (reserve capFor life t scope rid worst s) = Inr (Some d) \<and>
    (bd_allowed d \<longleftrightarrow>
       list_all (\<lambda>w. c_reservedTotal c + worst + spent c (bw_period w) t \<le> bw_capMicroUsd w)
         (bs_windows (normalizeBudget b))) \<and>
    c_reserved c' = (if bd_allowed d
       then jm_set rid \<lparr>rv_amount = worst, rv_expiresAtMs = t + life\<rparr> (c_reserved c) else c_reserved c) \<and>
    c_reservedTotal c' = (if bd_allowed d then c_reservedTotal c + worst else c_reservedTotal c)"
proof -
  let ?ws = "bs_windows (normalizeBudget b)"
  let ?r = "admit_windows t worst ?ws None c"
  note r = reserve_unfold [of capFor, OF assms(1), of life t rid worst s, folded c_def]
  show ?thesis
  proof (cases "fst ?r")
    case (Inl d)
    then have "\<not> list_all (\<lambda>w. c_reservedTotal c + worst + spent c (bw_period w) t \<le> bw_capMicroUsd w) ?ws"
      using admit_iff [of t worst ?ws None c] by auto
    moreover have "\<not> bd_allowed d" using admit_rejects [OF Inl] by simp
    ultimately show ?thesis using Inl by (simp add: c'_def r scope_counters_put)
  next
    case (Inr bd)
    then have "list_all (\<lambda>w. c_reservedTotal c + worst + spent c (bw_period w) t \<le> bw_capMicroUsd w) ?ws"
      using admit_iff [of t worst ?ws None c] by blast
    moreover obtain w used where "bd = Some (w, used)"
      using admit_binding [of ?ws None t worst c] assms(2) Inr by (cases bd) auto
    ultimately show ?thesis using Inr by (simp add: c'_def r scope_counters_put)
  qed
qed

theorem reserve_decides_witness:
  "\<exists>d. fst (reserve sample_caps 600000 5 ''ws1'' ''r1'' 101 empty_store) = Inr (Some d) \<and> \<not> bd_allowed d"
proof -
  have "swept sample_caps 5 ''ws1'' sample_spec empty_store = empty_counters\<lparr>c_lastTouchedMs := 5\<rparr>"
    by (simp add: swept_def prune_def scope_counters_def empty_store_def empty_counters_def
        dropStaleWindows_def sweep_expired_def Let_def)
  then have "\<not> list_all (\<lambda>w. c_reservedTotal (swept sample_caps 5 ''ws1'' sample_spec empty_store) + 101 +
      spent (swept sample_caps 5 ''ws1'' sample_spec empty_store) (bw_period w) 5 \<le> bw_capMicroUsd w)
      (bs_windows sample_spec)"
    by (simp add: sample_spec_def spent_def empty_counters_def)
  moreover have "bs_windows (normalizeBudget (Spec sample_spec)) \<noteq> []" by (simp add: sample_spec_def)
  note reserve_decides [where capFor = sample_caps, OF sample_caps_ws1 this, of 600000 5 "''r1''" 101 empty_store]
  ultimately show ?thesis unfolding normalizeBudget.simps by blast
qed

text \<open>
  C16. Settlement. A \<^verbatim>\<open>commit\<close> on a held reservation takes exactly its amount off the total, forgets
  it, and books exactly the actual spend in the current window of every cap of the budget, for a
  budget with pairwise different periods.
\<close>

theorem commit_settles:
  fixes capFor :: cap_for and t actual :: int
  assumes "store_ok s" and "capFor scope = Some b" and "distinct (map bw_period (bs_windows (normalizeBudget b)))"
    and "jm_get (c_reserved (scope_counters s scope)) rid = Some r" and "0 < actual"
    and "w \<in> set (bs_windows (normalizeBudget b))" and "\<not> (\<exists>n \<le> 0. bw_period w = PFixed n)"
  defines "c \<equiv> scope_counters s scope"
    and "c' \<equiv> scope_counters (commit capFor t scope rid actual s) scope"
  shows "c_reservedTotal c' = c_reservedTotal c - rv_amount r \<and>
    c_reserved c' = jm_delete rid (c_reserved c) \<and>
    spent c' (bw_period w) t = spent c (bw_period w) t + actual"
proof -
  have ok: "counters_ok c" using assms(1) by (simp add: c_def scope_counters_ok)
  have c': "c' = book_windows t actual (bs_windows (normalizeBudget b)) (release t rid c)"
    using assms(2,5) by (simp add: c'_def c_def commit_unfold scope_counters_put)
  have r: "jm_get (c_reserved c) rid = Some r" using assms(4) by (simp add: c_def)
  show ?thesis
    using release_total(1) [OF ok r, of t]
      spent_book_windows_exact [OF assms(3,6,7), of t actual "release t rid c"]
    by (simp add: c') (simp add: release_def)
qed

theorem commit_settles_witness:
  "spent (scope_counters (commit sample_caps 7 ''ws1'' ''r1'' 40
     (put_counter ''ws1'' (empty_counters\<lparr>c_reserved := [(''r1'', \<lparr>rv_amount = 60, rv_expiresAtMs = 100\<rparr>)],
        c_reservedTotal := 60\<rparr>) empty_store)) ''ws1'') (PFixed 3600) 7 = 40"
proof -
  let ?c = "empty_counters\<lparr>c_reserved := [(''r1'', \<lparr>rv_amount = 60, rv_expiresAtMs = 100\<rparr>)], c_reservedTotal := 60\<rparr>"
  let ?s = "put_counter ''ws1'' ?c empty_store"
  have 1: "store_ok ?s" by (simp add: store_ok_def put_counter_def empty_store_def counters_ok_def empty_counters_def)
  have 2: "distinct (map bw_period (bs_windows (normalizeBudget (Spec sample_spec))))"
    by (simp add: sample_spec_def)
  have 3: "jm_get (c_reserved (scope_counters ?s ''ws1'')) ''r1'' = Some \<lparr>rv_amount = 60, rv_expiresAtMs = 100\<rparr>"
    by (simp add: scope_counters_put)
  have 4: "\<lparr>bw_capMicroUsd = 100, bw_period = PFixed 3600\<rparr> \<in> set (bs_windows (normalizeBudget (Spec sample_spec)))"
    by (simp add: sample_spec_def)
  have "spent (scope_counters ?s ''ws1'') (PFixed 3600) 7 = 0"
    by (simp add: scope_counters_put spent_def empty_counters_def)
  then show ?thesis
    using commit_settles [where capFor = sample_caps and t = 7 and actual = 40, OF 1 sample_caps_ws1 2 3 _ 4] by simp
qed

text \<open>
  Consistency. After any sequence of reserves, commits and refreshes at any times, the total
  of every scope is at least the sum of the reservations it holds and no booked amount is
  negative: the store never admits on reserved amounts it has forgotten.
\<close>

theorem budget_counters_consistent: "store_ok (foldl (budget_step capFor life) empty_store es)"
  by (rule budget_store_steps.run_inv) (simp add: store_ok_def empty_store_def)

text \<open>
  Reserving twice with one request id leaves a part of the total that no reservation
  accounts for: after the commit of that id nothing is reserved, and the total is still there.
\<close>

theorem double_reserve_strands:
  "let caps = (\<lambda>scope. Some (Spec \<lparr>bs_windows = [\<lparr>bw_capMicroUsd = 500, bw_period = PNone\<rparr>]\<rparr>));
       s1 = snd (reserve caps 600000 1 ''ws1'' ''r1'' 100 empty_store);
       s2 = snd (reserve caps 600000 2 ''ws1'' ''r1'' 100 s1);
       c = scope_counters (commit caps 3 ''ws1'' ''r1'' 0 s2) ''ws1''
   in c_reserved c = [] \<and> c_reservedTotal c = 100"
  by (simp add: reserve_def commit_def counter_def prune_def put_counter_def scope_counters_def empty_store_def
      empty_counters_def dropStaleWindows_def sweep_expired_def windowCounter_def rebind_def binds_more_def
      release_def Let_def)

end
