(* ===== verification/Cost.thy ===== *)
theory Cost
  imports Gulley_Prelude
begin

text \<open>
  Pricing of \<^verbatim>\<open>src/packages/cost/src\<close> (\<^verbatim>\<open>pricing.ts\<close>, \<^verbatim>\<open>compute.ts\<close>, \<^verbatim>\<open>normalized.ts\<close>, \<^verbatim>\<open>anthropic.ts\<close>)
  and the admission estimate of \<^verbatim>\<open>src/packages/budget/src/estimate.ts\<close>. Dollars are exact reals;
  a rate of a catalog row may be an infinity or NaN, which prices as unknown. The cache
  multipliers of a catalog row are taken to be finite.
\<close>

section \<open>Rates\<close>

record CacheMultipliers =
  cm_read :: real
  cm_write5m :: real
  cm_write1h :: real

record PartialCache =
  pc_read :: "real option"
  pc_write5m :: "real option"
  pc_write1h :: "real option"

record RateTier =
  rt_aboveInputTokens :: jsnum
  rt_input :: jsnum
  rt_output :: jsnum

record ModelRate =
  mr_input :: real
  mr_output :: real
  mr_cache :: PartialCache
  mr_tier :: "(real \<times> real \<times> real) option"

definition no_cache :: PartialCache where
  "no_cache = \<lparr>pc_read = None, pc_write5m = None, pc_write1h = None\<rparr>"

definition flat_rate :: "real \<Rightarrow> real \<Rightarrow> real option \<Rightarrow> ModelRate" where
  "flat_rate i out r = \<lparr>mr_input = i, mr_output = out, mr_cache = no_cache\<lparr>pc_read := r\<rparr>, mr_tier = None\<rparr>"

definition tiered_rate :: "real \<Rightarrow> real \<Rightarrow> real option \<Rightarrow> real \<Rightarrow> real \<Rightarrow> real \<Rightarrow> ModelRate" where
  "tiered_rate i out r abv ti tout =
     \<lparr>mr_input = i, mr_output = out, mr_cache = no_cache\<lparr>pc_read := r\<rparr>, mr_tier = Some (abv, ti, tout)\<rparr>"

definition ANTHROPIC_PRICING :: "(string, ModelRate) jsmap" where
  "ANTHROPIC_PRICING =
    [(''claude-fable-5-1'', flat_rate 10 50 (Some 0.025)),
     (''claude-mythos-5-1'', flat_rate 10 50 (Some 0.025)),
     (''claude-fable-5'', flat_rate 10 50 None),
     (''claude-mythos-5'', flat_rate 10 50 None),
     (''claude-opus-5-5'', flat_rate 4 20 (Some 0.05)),
     (''claude-opus-5'', flat_rate 5 25 None),
     (''claude-opus-4-8'', flat_rate 5 25 None),
     (''claude-opus-4-7'', flat_rate 5 25 None),
     (''claude-opus-4-6'', flat_rate 5 25 None),
     (''claude-sonnet-5-5'', flat_rate 2 10 (Some 0.05)),
     (''claude-sonnet-5'', flat_rate 2 10 None),
     (''claude-sonnet-4-6'', flat_rate 3 15 None),
     (''claude-haiku-5-5'', tiered_rate 0.1 0.5 None 100000 0.5 2.5),
     (''claude-haiku-4-5'', flat_rate 1 5 None),
     (''claude-3-5-sonnet'', flat_rate 3 15 None),
     (''claude-3-5-haiku'', flat_rate 0.8 4 None),
     (''claude-3-haiku'', flat_rate 0.25 1.25 None)]"

definition OPENAI_PRICING :: "(string, ModelRate) jsmap" where
  "OPENAI_PRICING =
    [(''gpt-5.6-sol'', tiered_rate 4 20 None 272000 8 30),
     (''gpt-5.6-terra'', tiered_rate 2 12 None 272000 4 18),
     (''gpt-5.6-luna'', tiered_rate 0.2 1.2 None 272000 0.4 1.8),
     (''gpt-5.5'', tiered_rate 5 30 None 272000 10 45),
     (''gpt-5.5-pro'', tiered_rate 30 180 (Some 1) 272000 60 270),
     (''gpt-5.4'', tiered_rate 2.5 15 None 272000 5 22.5),
     (''gpt-5.4-mini'', flat_rate 0.75 4.5 None),
     (''gpt-5.4-nano'', flat_rate 0.2 1.25 None),
     (''gpt-5.4-pro'', tiered_rate 30 180 (Some 1) 272000 60 270),
     (''gpt-5.2'', flat_rate 1.75 14 None),
     (''gpt-5.2-pro'', flat_rate 21 168 (Some 1)),
     (''gpt-5.1'', flat_rate 1.25 10 None),
     (''gpt-5'', flat_rate 1.25 10 None),
     (''gpt-5-mini'', flat_rate 0.25 2 None),
     (''gpt-5-nano'', flat_rate 0.05 0.4 None),
     (''gpt-5-pro'', flat_rate 15 120 (Some 1)),
     (''gpt-4.1'', flat_rate 2 8 (Some 0.25)),
     (''gpt-4.1-mini'', flat_rate 0.4 1.6 (Some 0.25)),
     (''gpt-4.1-nano'', flat_rate 0.1 0.4 (Some 0.25)),
     (''gpt-4o'', flat_rate 2.5 10 (Some 0.5)),
     (''gpt-4o-mini'', flat_rate 0.15 0.6 (Some 0.5)),
     (''o1'', flat_rate 15 60 (Some 0.5)),
     (''o1-pro'', flat_rate 150 600 (Some 1)),
     (''o3'', flat_rate 2 8 (Some 0.25)),
     (''o3-pro'', flat_rate 20 80 (Some 1)),
     (''o3-mini'', flat_rate 1.1 4.4 (Some 0.5)),
     (''o4-mini'', flat_rate 1.1 4.4 (Some 0.25)),
     (''text-embedding-3-small'', flat_rate 0.02 0 None),
     (''text-embedding-3-large'', flat_rate 0.13 0 None),
     (''text-embedding-ada-002'', flat_rate 0.1 0 None)]"

definition GEMINI_PRICING :: "(string, ModelRate) jsmap" where
  "GEMINI_PRICING =
    [(''gemini-2.5-pro'', flat_rate 1.25 10 None),
     (''gemini-2.5-flash'', flat_rate 0.3 2.5 None),
     (''gemini-2.5-flash-lite'', flat_rate 0.1 0.4 None),
     (''gemini-2.0-flash'', flat_rate 0.1 0.4 None),
     (''gemini-1.5-pro'', flat_rate 1.25 5 None),
     (''gemini-1.5-flash'', flat_rate 0.075 0.3 None)]"

definition CACHE_MULTIPLIERS :: CacheMultipliers where
  "CACHE_MULTIPLIERS = \<lparr>cm_read = 0.1, cm_write5m = 1.25, cm_write1h = 2\<rparr>"

section \<open>Model names\<close>

text \<open>\<^verbatim>\<open>s.replace(/^p/, '')\<close> for a literal prefix, and \<^verbatim>\<open>s.replace(/r$/, '')\<close> for a suffix pattern.\<close>

definition drop_prefix :: "string \<Rightarrow> string \<Rightarrow> string" where
  "drop_prefix p s = (if starts_with s p then drop (length p) s else s)"

definition drop_suffix :: "(string \<Rightarrow> bool) \<Rightarrow> string \<Rightarrow> string" where
  "drop_suffix r s =
     (case find (\<lambda>i. r (drop i s)) [0..<length s] of Some i \<Rightarrow> take i s | None \<Rightarrow> s)"

text \<open>The suffix patterns: a dash and some digits, a dated snapshot, a Bedrock version.\<close>

definition dash_digits :: "(nat \<Rightarrow> bool) \<Rightarrow> string \<Rightarrow> bool" where
  "dash_digits n s = (case s of [] \<Rightarrow> False | c # ds \<Rightarrow> c = CHR ''-'' \<and> list_all is_digit ds \<and> n (length ds))"

definition dated :: "string \<Rightarrow> bool" where
  "dated s =
     (length s = 11 \<and> dash_digits (\<lambda>n. n = 4) (take 5 s) \<and>
      dash_digits (\<lambda>n. n = 2) (take 3 (drop 5 s)) \<and> dash_digits (\<lambda>n. n = 2) (drop 8 s))"

definition bedrock_version :: "string \<Rightarrow> bool" where
  "bedrock_version s =
     (starts_with s ''-v'' \<and>
      (case index_of (CHR '':'') (drop 2 s) of
         None \<Rightarrow> False
       | Some i \<Rightarrow>
           let major = take i (drop 2 s); minor = drop (i + 1) (drop 2 s) in
           major \<noteq> [] \<and> list_all is_digit major \<and> minor \<noteq> [] \<and> list_all is_digit minor))"

definition drop_region :: "string \<Rightarrow> string" where
  "drop_region s =
     (case find (\<lambda>p. starts_with s p) [''us.'', ''eu.'', ''apac.'', ''global.''] of
        Some p \<Rightarrow> drop (length p) s
      | None \<Rightarrow> s)"

definition normalizeModelId :: "string \<Rightarrow> string" where
  "normalizeModelId m = drop_suffix (dash_digits (\<lambda>n. n = 8)) (drop_prefix ''anthropic.'' (drop_region m))"

definition normalizeOpenAIModel :: "string \<Rightarrow> string" where
  "normalizeOpenAIModel m = drop_suffix dated m"

definition normalizeBedrockModel :: "string \<Rightarrow> string" where
  "normalizeBedrockModel m =
     drop_suffix (dash_digits (\<lambda>n. n = 8))
       (drop_suffix bedrock_version (drop_prefix ''anthropic.'' (drop_region m)))"

definition normalizeGeminiModel :: "string \<Rightarrow> string" where
  "normalizeGeminiModel m =
     drop_suffix (dash_digits (\<lambda>n. 3 \<le> n))
       (drop_suffix (\<lambda>s. s = ''-latest'')
         (drop_prefix ''models/'' (drop_prefix ''publishers/google/models/'' m)))"

record ProviderPricing =
  pp_rates :: "(string, ModelRate) jsmap"
  pp_cache :: CacheMultipliers
  pp_normalize :: "string \<Rightarrow> string"

definition PROVIDER_PRICING :: "(string, ProviderPricing) jsmap" where
  "PROVIDER_PRICING =
     [(''anthropic'', \<lparr>pp_rates = ANTHROPIC_PRICING, pp_cache = CACHE_MULTIPLIERS, pp_normalize = normalizeModelId\<rparr>),
      (''openai'', \<lparr>pp_rates = OPENAI_PRICING, pp_cache = \<lparr>cm_read = 0.1, cm_write5m = 1, cm_write1h = 1\<rparr>,
                    pp_normalize = normalizeOpenAIModel\<rparr>),
      (''bedrock'', \<lparr>pp_rates = ANTHROPIC_PRICING, pp_cache = CACHE_MULTIPLIERS, pp_normalize = normalizeBedrockModel\<rparr>),
      (''azure'', \<lparr>pp_rates = OPENAI_PRICING, pp_cache = \<lparr>cm_read = 0.1, cm_write5m = 1, cm_write1h = 1\<rparr>,
                   pp_normalize = normalizeOpenAIModel\<rparr>),
      (''gemini'', \<lparr>pp_rates = GEMINI_PRICING, pp_cache = \<lparr>cm_read = 0.25, cm_write5m = 1, cm_write1h = 1\<rparr>,
                    pp_normalize = normalizeGeminiModel\<rparr>),
      (''vertex'', \<lparr>pp_rates = GEMINI_PRICING, pp_cache = \<lparr>cm_read = 0.25, cm_write5m = 1, cm_write1h = 1\<rparr>,
                    pp_normalize = normalizeGeminiModel\<rparr>)]"

definition lookupRate :: "string \<Rightarrow> ModelRate option" where
  "lookupRate m = jm_get ANTHROPIC_PRICING (normalizeModelId m)"

section \<open>Cost of a usage\<close>

record NormalizedUsage =
  nu_inputTokens :: int
  nu_cacheReadTokens :: int
  nu_cacheWrite5mTokens :: int
  nu_cacheWrite1hTokens :: int
  nu_outputTokens :: int
  nu_seen :: bool

definition emptyUsage :: NormalizedUsage where
  "emptyUsage = \<lparr>nu_inputTokens = 0, nu_cacheReadTokens = 0, nu_cacheWrite5mTokens = 0,
                 nu_cacheWrite1hTokens = 0, nu_outputTokens = 0, nu_seen = False\<rparr>"

record RateOverride =
  ro_input :: jsnum
  ro_output :: jsnum
  ro_cache :: "CacheMultipliers option"
  ro_tier :: "RateTier option"

type_synonym RateResolver = "string \<Rightarrow> string \<Rightarrow> RateOverride option"

definition NEUTRAL_CACHE :: CacheMultipliers where
  "NEUTRAL_CACHE = \<lparr>cm_read = 1, cm_write5m = 1, cm_write1h = 1\<rparr>"

fun finite_num :: "jsnum \<Rightarrow> real option" where
  "finite_num (Num r) = Some r"
| "finite_num _ = None"

definition finiteTier :: "RateTier option \<Rightarrow> (real \<times> real \<times> real) option" where
  "finiteTier t =
     (case t of
        None \<Rightarrow> None
      | Some t' \<Rightarrow>
          (case (finite_num (rt_aboveInputTokens t'), finite_num (rt_input t'), finite_num (rt_output t')) of
             (Some a, Some i, Some out) \<Rightarrow> Some (a, i, out)
           | _ \<Rightarrow> None))"

text \<open>The seed model's tier scaled to another base rate.\<close>

definition seed_tier :: "real \<Rightarrow> real \<Rightarrow> ModelRate option \<Rightarrow> (real \<times> real \<times> real) option" where
  "seed_tier input output seed =
     (case seed of
        None \<Rightarrow> None
      | Some s \<Rightarrow>
          (case mr_tier s of
             None \<Rightarrow> None
           | Some (abv, ti, tout) \<Rightarrow>
               Some (abv,
                     ti * (if 0 < mr_input s then input / mr_input s else 1),
                     tout * (if 0 < mr_output s then output / mr_output s else 1))))"

definition seed_rate :: "string \<Rightarrow> string \<Rightarrow> ModelRate option" where
  "seed_rate provider model =
     (case jm_get PROVIDER_PRICING provider of
        None \<Rightarrow> None
      | Some p \<Rightarrow> jm_get (pp_rates p) (pp_normalize p model))"

text \<open>
  The base rates that apply and the tier \<^verbatim>\<open>tierFor\<close> chooses: the catalog row when there is one,
  else the seed, and no rate at all when the candidate is not finite.
\<close>

definition billed_rate ::
  "string \<Rightarrow> string \<Rightarrow> RateResolver option \<Rightarrow> (real \<times> real \<times> (real \<times> real \<times> real) option) option" where
  "billed_rate provider model resolve =
     (let seed = seed_rate provider model in
      case (case resolve of None \<Rightarrow> None | Some f \<Rightarrow> f provider model) of
        Some ov \<Rightarrow>
          (case (finite_num (ro_input ov), finite_num (ro_output ov)) of
             (Some i, Some out) \<Rightarrow>
               Some (i, out, (case finiteTier (ro_tier ov) of Some t \<Rightarrow> Some t | None \<Rightarrow> seed_tier i out seed))
           | _ \<Rightarrow> None)
      | None \<Rightarrow>
          (case seed of
             Some s \<Rightarrow>
               Some (mr_input s, mr_output s,
                     (case mr_tier s of Some t \<Rightarrow> Some t | None \<Rightarrow> seed_tier (mr_input s) (mr_output s) seed))
           | None \<Rightarrow> None))"

definition overlay :: "'a option \<Rightarrow> 'a \<Rightarrow> 'a" where
  "overlay a b = (case a of Some x \<Rightarrow> x | None \<Rightarrow> b)"

definition cache_for :: "string \<Rightarrow> string \<Rightarrow> RateResolver option \<Rightarrow> CacheMultipliers" where
  "cache_for provider model resolve =
     (case (case resolve of None \<Rightarrow> None | Some f \<Rightarrow> (case f provider model of None \<Rightarrow> None | Some ov \<Rightarrow> ro_cache ov)) of
        Some c \<Rightarrow> c
      | None \<Rightarrow>
          (let base = (case jm_get PROVIDER_PRICING provider of Some p \<Rightarrow> pp_cache p | None \<Rightarrow> NEUTRAL_CACHE) in
           case seed_rate provider model of
             None \<Rightarrow> base
           | Some s \<Rightarrow>
               \<lparr>cm_read = overlay (pc_read (mr_cache s)) (cm_read base),
                cm_write5m = overlay (pc_write5m (mr_cache s)) (cm_write5m base),
                cm_write1h = overlay (pc_write1h (mr_cache s)) (cm_write1h base)\<rparr>))"

definition effectiveRate :: "real \<Rightarrow> real \<Rightarrow> (real \<times> real \<times> real) option \<Rightarrow> int \<Rightarrow> real \<times> real" where
  "effectiveRate input output tier totalInputTokens =
     (case tier of
        Some (abv, ti, tout) \<Rightarrow> if abv < of_int totalInputTokens then (ti, tout) else (input, output)
      | None \<Rightarrow> (input, output))"

definition perMillion :: "int \<Rightarrow> real \<Rightarrow> real" where
  "perMillion tokens rate = (of_int tokens / 1000000) * rate"

record CostBreakdown =
  cb_provider :: string
  cb_model :: string
  cb_priced :: bool
  cb_inputTokens :: int
  cb_cacheReadTokens :: int
  cb_cacheWriteTokens :: int
  cb_totalInputTokens :: int
  cb_outputTokens :: int
  cb_inputUsd :: real
  cb_cacheReadUsd :: real
  cb_cacheWriteUsd :: real
  cb_outputUsd :: real
  cb_totalUsd :: real
  cb_cacheSavedUsd :: real

definition total_input :: "NormalizedUsage \<Rightarrow> int" where
  "total_input u =
     nu_inputTokens u + nu_cacheReadTokens u + (nu_cacheWrite5mTokens u + nu_cacheWrite1hTokens u)"

definition computeCost :: "string \<Rightarrow> string \<Rightarrow> NormalizedUsage \<Rightarrow> RateResolver option \<Rightarrow> CostBreakdown" where
  "computeCost provider model u resolve =
     (let tot = total_input u; cache = cache_for provider model resolve in
      case billed_rate provider model resolve of
        None \<Rightarrow>
          \<lparr>cb_provider = provider, cb_model = model, cb_priced = False, cb_inputTokens = nu_inputTokens u,
           cb_cacheReadTokens = nu_cacheReadTokens u,
           cb_cacheWriteTokens = nu_cacheWrite5mTokens u + nu_cacheWrite1hTokens u, cb_totalInputTokens = tot,
           cb_outputTokens = nu_outputTokens u, cb_inputUsd = 0, cb_cacheReadUsd = 0, cb_cacheWriteUsd = 0,
           cb_outputUsd = 0, cb_totalUsd = 0, cb_cacheSavedUsd = 0\<rparr>
      | Some (i, out, tier) \<Rightarrow>
          (let (ei, eo) = effectiveRate i out tier tot;
               inputUsd = perMillion (nu_inputTokens u) ei;
               cacheReadUsd = perMillion (nu_cacheReadTokens u) (ei * cm_read cache);
               cacheWriteUsd = perMillion (nu_cacheWrite5mTokens u) (ei * cm_write5m cache) +
                               perMillion (nu_cacheWrite1hTokens u) (ei * cm_write1h cache);
               outputUsd = perMillion (nu_outputTokens u) eo
           in \<lparr>cb_provider = provider, cb_model = model, cb_priced = True, cb_inputTokens = nu_inputTokens u,
               cb_cacheReadTokens = nu_cacheReadTokens u,
               cb_cacheWriteTokens = nu_cacheWrite5mTokens u + nu_cacheWrite1hTokens u, cb_totalInputTokens = tot,
               cb_outputTokens = nu_outputTokens u, cb_inputUsd = inputUsd, cb_cacheReadUsd = cacheReadUsd,
               cb_cacheWriteUsd = cacheWriteUsd, cb_outputUsd = outputUsd,
               cb_totalUsd = inputUsd + cacheReadUsd + cacheWriteUsd + outputUsd,
               cb_cacheSavedUsd = perMillion (nu_cacheReadTokens u) (ei * (1 - cm_read cache))\<rparr>))"

definition resolveRate :: "string \<Rightarrow> string \<Rightarrow> RateResolver option \<Rightarrow> (real \<times> real) option" where
  "resolveRate provider model resolve =
     map_option (\<lambda>(i, out, tier). (i, out)) (billed_rate provider model resolve)"

definition rankPrice :: "string \<Rightarrow> string \<Rightarrow> RateResolver option \<Rightarrow> real option" where
  "rankPrice provider model resolve =
     map_option (\<lambda>(i, out). i + out) (resolveRate provider model resolve)"

text \<open>\<^verbatim>\<open>Math.round(usd * 1_000_000)\<close>, which rounds halves up.\<close>

definition toMicroUsd :: "real \<Rightarrow> int" where
  "toMicroUsd usd = \<lfloor>usd * 1000000 + 1 / 2\<rfloor>"

record AnthropicUsage =
  au_input_tokens :: "int option"
  au_output_tokens :: "int option"
  au_cache_creation_input_tokens :: "int option"
  au_cache_read_input_tokens :: "int option"
  au_cache_creation :: "(int option \<times> int option) option"

definition anthropicToNormalized :: "AnthropicUsage \<Rightarrow> NormalizedUsage" where
  "anthropicToNormalized usage =
     (let cacheWrite = overlay (au_cache_creation_input_tokens usage) 0;
          (write5m, write1h) = (case au_cache_creation usage of
              Some (five, one) \<Rightarrow> (overlay five 0, overlay one 0)
            | None \<Rightarrow> (cacheWrite, 0))
      in \<lparr>nu_inputTokens = overlay (au_input_tokens usage) 0,
          nu_cacheReadTokens = overlay (au_cache_read_input_tokens usage) 0,
          nu_cacheWrite5mTokens = write5m, nu_cacheWrite1hTokens = write1h,
          nu_outputTokens = overlay (au_output_tokens usage) 0, nu_seen = True\<rparr>)"

definition computeAnthropicCost :: "string \<Rightarrow> AnthropicUsage \<Rightarrow> CostBreakdown" where
  "computeAnthropicCost model usage = computeCost ''anthropic'' model (anthropicToNormalized usage) None"

section \<open>The admission estimate\<close>

definition estimateInputTokens :: "int \<Rightarrow> int" where
  "estimateInputTokens bodyBytes = ceil_div bodyBytes 3"

definition FALLBACK_INPUT_USD_PER_TOKEN :: real where
  "FALLBACK_INPUT_USD_PER_TOKEN = 15 / 1000000"

definition FALLBACK_OUTPUT_USD_PER_TOKEN :: real where
  "FALLBACK_OUTPUT_USD_PER_TOKEN = 75 / 1000000"

definition estimateWorstCaseMicroUsd ::
  "string \<Rightarrow> string \<Rightarrow> int \<Rightarrow> int \<Rightarrow> RateResolver option \<Rightarrow> int" where
  "estimateWorstCaseMicroUsd provider model bodyBytes maxOutputTokens resolve =
     (let inputTokens = estimateInputTokens bodyBytes;
          cost = computeCost provider model
                   \<lparr>nu_inputTokens = inputTokens, nu_cacheReadTokens = 0, nu_cacheWrite5mTokens = 0,
                    nu_cacheWrite1hTokens = 0, nu_outputTokens = maxOutputTokens, nu_seen = True\<rparr> resolve
      in if cb_priced cost then toMicroUsd (cb_totalUsd cost)
         else toMicroUsd (of_int inputTokens * FALLBACK_INPUT_USD_PER_TOKEN +
                          of_int maxOutputTokens * FALLBACK_OUTPUT_USD_PER_TOKEN))"

section \<open>Properties\<close>

lemma toMicroUsd_mono: "a \<le> b \<Longrightarrow> toMicroUsd a \<le> toMicroUsd b"
  unfolding toMicroUsd_def by (intro floor_mono) simp

lemma toMicroUsd_int: "toMicroUsd (of_int n / 1000000) = n"
  by (simp add: toMicroUsd_def floor_unique)

text \<open>The dollars of a priced usage, with the cache tokens weighted by their multipliers.\<close>

definition weighted_input :: "CacheMultipliers \<Rightarrow> NormalizedUsage \<Rightarrow> real" where
  "weighted_input c u =
     of_int (nu_inputTokens u) + of_int (nu_cacheReadTokens u) * cm_read c +
     of_int (nu_cacheWrite5mTokens u) * cm_write5m c + of_int (nu_cacheWrite1hTokens u) * cm_write1h c"

lemma computeCost_total:
  assumes "billed_rate p m res = Some (i, out, tier)" and "effectiveRate i out tier (total_input u) = (ei, eo)"
  shows "cb_priced (computeCost p m u res)"
    and "cb_totalUsd (computeCost p m u res) =
      (weighted_input (cache_for p m res) u * ei + of_int (nu_outputTokens u) * eo) / 1000000"
  using assms by (simp_all add: computeCost_def Let_def perMillion_def weighted_input_def field_simps)

definition tier_raises :: "real \<Rightarrow> real \<Rightarrow> (real \<times> real \<times> real) option \<Rightarrow> bool" where
  "tier_raises i out tier = (case tier of None \<Rightarrow> True | Some (abv, ti, tout) \<Rightarrow> i \<le> ti \<and> out \<le> tout)"

lemma effectiveRate_mono:
  assumes "tier_raises i out tier" and "n \<le> n'" and "0 \<le> i" and "0 \<le> out"
  shows "fst (effectiveRate i out tier n) \<le> fst (effectiveRate i out tier n') \<and>
    snd (effectiveRate i out tier n) \<le> snd (effectiveRate i out tier n') \<and>
    0 \<le> fst (effectiveRate i out tier n) \<and> 0 \<le> snd (effectiveRate i out tier n)"
  using assms of_int_le_iff [of n n', where 'a = real]
  by (auto simp: effectiveRate_def tier_raises_def split: option.splits simp del: of_int_le_iff)

lemma estimate_priced:
  assumes "billed_rate p m res = Some (i, out, tier)"
    and "effectiveRate i out tier (estimateInputTokens n) = (ei, eo)"
  shows "estimateWorstCaseMicroUsd p m n k res =
    toMicroUsd ((of_int (estimateInputTokens n) * ei + of_int k * eo) / 1000000)"
proof -
  let ?u = "\<lparr>nu_inputTokens = estimateInputTokens n, nu_cacheReadTokens = 0, nu_cacheWrite5mTokens = 0,
    nu_cacheWrite1hTokens = 0, nu_outputTokens = k, nu_seen = True\<rparr>"
  have e: "effectiveRate i out tier (total_input ?u) = (ei, eo)" using assms(2) by (simp add: total_input_def)
  show ?thesis
    unfolding estimateWorstCaseMicroUsd_def Let_def computeCost_total(2) [OF assms(1) e]
    by (simp add: computeCost_total(1) [OF assms(1) e] weighted_input_def)
qed

lemma seed_tiers_raise:
  "list_all (\<lambda>(k, r). 0 \<le> mr_input r \<and> 0 \<le> mr_output r \<and> tier_raises (mr_input r) (mr_output r) (mr_tier r))
     (ANTHROPIC_PRICING @ OPENAI_PRICING @ GEMINI_PRICING)"
  by (simp add: ANTHROPIC_PRICING_def OPENAI_PRICING_def GEMINI_PRICING_def flat_rate_def tiered_rate_def tier_raises_def)

lemma seed_rate_raises:
  assumes "seed_rate p m = Some r"
  shows "0 \<le> mr_input r \<and> 0 \<le> mr_output r \<and> tier_raises (mr_input r) (mr_output r) (mr_tier r)"
proof -
  have "(pp_rates q = ANTHROPIC_PRICING \<or> pp_rates q = OPENAI_PRICING \<or> pp_rates q = GEMINI_PRICING)"
    if "jm_get PROVIDER_PRICING p = Some q" for q
    using that by (auto simp: PROVIDER_PRICING_def split: if_splits)
  then obtain k where "(k, r) \<in> set (ANTHROPIC_PRICING @ OPENAI_PRICING @ GEMINI_PRICING)"
    using assms by (fastforce simp: seed_rate_def split: option.splits dest: map_of_SomeD)
  then show ?thesis using seed_tiers_raise by (fastforce simp: list_all_iff)
qed


definition sample_usage :: NormalizedUsage where
  "sample_usage = emptyUsage\<lparr>nu_inputTokens := 300, nu_cacheReadTokens := 200, nu_outputTokens := 50\<rparr>"

lemma cache_for_opus5: "cache_for ''anthropic'' ''claude-opus-5'' None = CACHE_MULTIPLIERS"
  and seed_rate_opus5: "seed_rate ''anthropic'' ''claude-opus-5'' = Some (flat_rate 5 25 None)"
proof -
  have n: "normalizeModelId ''claude-opus-5'' = ''claude-opus-5''" by code_simp
  show s: "seed_rate ''anthropic'' ''claude-opus-5'' = Some (flat_rate 5 25 None)"
    by (simp add: seed_rate_def PROVIDER_PRICING_def n) (simp add: ANTHROPIC_PRICING_def)
  show "cache_for ''anthropic'' ''claude-opus-5'' None = CACHE_MULTIPLIERS"
    by (simp add: cache_for_def s flat_rate_def no_cache_def overlay_def) (simp add: PROVIDER_PRICING_def)
qed


text \<open>
  The estimate does not weigh cache writes: a request whose input is written to the one hour
  cache is billed at twice the input rate, so a request within the estimated tokens can be booked
  above what was reserved for it.
\<close>

theorem cache_write_exceeds_estimate:
  "let u = emptyUsage\<lparr>nu_cacheWrite1hTokens := 900, nu_outputTokens := 100\<rparr> in
   total_input u \<le> estimateInputTokens 3000 \<and>
   estimateWorstCaseMicroUsd ''anthropic'' ''claude-opus-5'' 3000 100 None <
     toMicroUsd (cb_totalUsd (computeCost ''anthropic'' ''claude-opus-5'' u None))"
proof -
  have b: "billed_rate ''anthropic'' ''claude-opus-5'' None = Some (5, 25, None)"
    by (simp add: billed_rate_def seed_rate_opus5 flat_rate_def seed_tier_def)
  have e: "effectiveRate 5 25 None n = (5, 25)" for n by (simp add: effectiveRate_def)
  have i: "estimateInputTokens 3000 = 1000" by (simp add: estimateInputTokens_def ceil_div_def)
  show ?thesis
    unfolding Let_def computeCost_total(2) [OF b e] estimate_priced [OF b e] i
    by (simp add: cache_for_opus5 weighted_input_def emptyUsage_def CACHE_MULTIPLIERS_def total_input_def toMicroUsd_def)
qed

text \<open>
  An unknown model cannot slip a cap by pricing to nothing: the reservation of an unpriced
  model is the fallback rate, 15 micro-dollars per estimated input token and 75 per output token.
\<close>

theorem unpriced_estimate_floor:
  assumes "billed_rate p m res = None"
  shows "estimateWorstCaseMicroUsd p m n k res = 15 * estimateInputTokens n + 75 * k"
proof -
  have "of_int (estimateInputTokens n) * FALLBACK_INPUT_USD_PER_TOKEN + of_int k * FALLBACK_OUTPUT_USD_PER_TOKEN =
      real_of_int (15 * estimateInputTokens n + 75 * k) / 1000000"
    by (simp add: FALLBACK_INPUT_USD_PER_TOKEN_def FALLBACK_OUTPUT_USD_PER_TOKEN_def field_simps)
  moreover have "\<not> cb_priced (computeCost p m u res)" for u using assms by (simp add: computeCost_def Let_def)
  ultimately show ?thesis
    unfolding estimateWorstCaseMicroUsd_def Let_def by (simp only: if_False toMicroUsd_int)
qed

theorem unpriced_estimate_floor_witness:
  "estimateWorstCaseMicroUsd ''local'' ''m'' 30 10 None = 900"
proof -
  have "billed_rate ''local'' ''m'' None = None"
    by (simp add: billed_rate_def seed_rate_def PROVIDER_PRICING_def)
  from unpriced_estimate_floor [OF this] show ?thesis by (simp add: estimateInputTokens_def ceil_div_def)
qed

end
