(* ===== verification/Auth.thy ===== *)
theory Auth
  imports Gulley_Prelude
begin

text \<open>
  Principals and virtual keys, after \<^verbatim>\<open>src/packages/auth/src\<close>: \<^verbatim>\<open>principal.ts\<close>, \<^verbatim>\<open>virtual-key.ts\<close>,
  \<^verbatim>\<open>key-store.ts\<close>, \<^verbatim>\<open>resolver.ts\<close> and \<^verbatim>\<open>errors.ts\<close>. HMAC-SHA256 and the random bytes of a new key are
  arguments; instants are milliseconds. The interface of a key store is the locale \<open>key_store\<close>,
  interpreted on the in-memory store.
\<close>

section \<open>Principals\<close>

datatype allow_list = AllowAll | AllowOnly "string list"

record Scope =
  s_orgId :: string
  s_workspaceId :: string
  s_allowedProviders :: allow_list
  s_allowedModels :: allow_list
  s_groups :: "string list option"

datatype AuthMode = VirtualKey | OAuthBroker | Passthrough | BasicAuth

record Principal =
  p_kind :: AuthMode
  p_id :: string
  p_displayName :: string
  p_authMode :: AuthMode
  p_scope :: Scope
  p_userId :: "string option"
  p_serviceAccount :: "string option"
  p_onBehalfOf :: bool

fun allows :: "allow_list \<Rightarrow> string \<Rightarrow> bool" where
  "allows AllowAll x = True"
| "allows (AllowOnly xs) x = (x \<in> set xs)"

definition scopeAllowsProvider :: "Scope \<Rightarrow> string \<Rightarrow> bool" where
  "scopeAllowsProvider scope provider = allows (s_allowedProviders scope) provider"

definition scopeAllowsModel :: "Scope \<Rightarrow> string \<Rightarrow> bool" where
  "scopeAllowsModel scope model = allows (s_allowedModels scope) model"

definition scopeGroups :: "Scope \<Rightarrow> string list" where
  "scopeGroups scope = (case s_groups scope of Some gs \<Rightarrow> gs | None \<Rightarrow> [])"

section \<open>Virtual keys\<close>

type_synonym hmac = "string \<Rightarrow> string \<Rightarrow> string"

record GeneratedKey =
  gk_token :: string
  gk_keyPrefix :: string
  gk_keyHash :: string

record ParsedKey =
  pk_keyPrefix :: string
  pk_secret :: string

abbreviation ID_LEN :: nat where
  "ID_LEN \<equiv> 12"

text \<open>\<^verbatim>\<open>generateVirtualKey\<close> on the hex of its random id and the base64url of its random secret.\<close>

definition generateVirtualKey :: "hmac \<Rightarrow> string \<Rightarrow> string \<Rightarrow> string \<Rightarrow> GeneratedKey" where
  "generateVirtualKey hashSecret pepper idHex secret =
     \<lparr>gk_token = ''gk_'' @ idHex @ ''_'' @ secret, gk_keyPrefix = idHex, gk_keyHash = hashSecret pepper secret\<rparr>"

definition hex_val :: "char \<Rightarrow> nat option" where
  "hex_val c =
     (let n = (of_char c :: nat) in
      if 48 \<le> n \<and> n \<le> 57 then Some (n - 48)
      else if 97 \<le> n \<and> n \<le> 102 then Some (n - 87)
      else if 65 \<le> n \<and> n \<le> 70 then Some (n - 55) else None)"

text \<open>The class \<^verbatim>\<open>[0-9a-f]\<close>.\<close>

definition is_hex :: "char \<Rightarrow> bool" where
  "is_hex c \<longleftrightarrow> is_digit c \<or> (97 \<le> (of_char c :: nat) \<and> (of_char c :: nat) \<le> 102)"

definition parseVirtualKey :: "string \<Rightarrow> ParsedKey option" where
  "parseVirtualKey token =
     (if \<not> starts_with token ''gk_'' then None
      else
        let body = drop 3 token in
        if length body < ID_LEN + 2 \<or> body ! ID_LEN \<noteq> CHR ''_'' then None
        else
          let keyPrefix = take ID_LEN body; secret = drop (ID_LEN + 1) body in
          if \<not> (keyPrefix \<noteq> [] \<and> list_all is_hex keyPrefix) \<or> length keyPrefix \<noteq> ID_LEN \<or> secret = []
          then None
          else Some \<lparr>pk_keyPrefix = keyPrefix, pk_secret = secret\<rparr>)"

text \<open>\<^verbatim>\<open>Buffer.from(s, 'hex')\<close>: bytes of the leading well-formed pairs.\<close>

fun hex_bytes :: "string \<Rightarrow> nat list" where
  "hex_bytes (a # b # rest) =
     (case (hex_val a, hex_val b) of
        (Some x, Some y) \<Rightarrow> (16 * x + y) # hex_bytes rest
      | _ \<Rightarrow> [])"
| "hex_bytes _ = []"

definition verifySecret :: "hmac \<Rightarrow> string \<Rightarrow> string \<Rightarrow> string \<Rightarrow> bool" where
  "verifySecret hashSecret pepper secret expectedHash =
     (let actual = hex_bytes (hashSecret pepper secret); expected = hex_bytes expectedHash in
      length actual = length expected \<and> actual = expected)"

definition isVirtualKey :: "string \<Rightarrow> bool" where
  "isVirtualKey token = starts_with token ''gk_''"

section \<open>The key store\<close>

record StoredKey =
  k_id :: string
  k_keyPrefix :: string
  k_keyHash :: string
  k_orgId :: string
  k_workspaceId :: string
  k_displayName :: string
  k_epoch :: nat
  k_disabled :: bool
  k_expiresAt :: "int option"
  k_allowedProviders :: allow_list
  k_allowedModels :: allow_list
  k_groups :: "string list option"

record InMemoryKeyStore =
  ks_byPrefix :: "(string, StoredKey) jsmap"
  ks_lastUsed :: "string list"

definition ks_empty :: InMemoryKeyStore where
  "ks_empty = \<lparr>ks_byPrefix = [], ks_lastUsed = []\<rparr>"

definition ks_add :: "StoredKey \<Rightarrow> InMemoryKeyStore \<Rightarrow> InMemoryKeyStore" where
  "ks_add key s = s\<lparr>ks_byPrefix := jm_set (k_keyPrefix key) key (ks_byPrefix s)\<rparr>"

definition findByPrefix :: "string \<Rightarrow> InMemoryKeyStore \<Rightarrow> StoredKey option" where
  "findByPrefix keyPrefix s = jm_get (ks_byPrefix s) keyPrefix"

definition touchLastUsed :: "string \<Rightarrow> InMemoryKeyStore \<Rightarrow> InMemoryKeyStore" where
  "touchLastUsed i s = s\<lparr>ks_lastUsed := (if i \<in> set (ks_lastUsed s) then ks_lastUsed s else ks_lastUsed s @ [i])\<rparr>"

definition disableByPrefix :: "string \<Rightarrow> InMemoryKeyStore \<Rightarrow> InMemoryKeyStore" where
  "disableByPrefix pre s =
     (case jm_get (ks_byPrefix s) pre of
        None \<Rightarrow> s
      | Some k \<Rightarrow>
          s\<lparr>ks_byPrefix := jm_set pre (k\<lparr>k_disabled := True, k_epoch := k_epoch k + 1\<rparr>) (ks_byPrefix s)\<rparr>)"

definition rekey :: "string \<Rightarrow> string \<Rightarrow> string \<Rightarrow> InMemoryKeyStore \<Rightarrow> InMemoryKeyStore" where
  "rekey oldPrefix newPrefix newHash s =
     (case jm_get (ks_byPrefix s) oldPrefix of
        None \<Rightarrow> s
      | Some k \<Rightarrow>
          s\<lparr>ks_byPrefix := jm_set newPrefix
                (k\<lparr>k_keyPrefix := newPrefix, k_keyHash := newHash, k_epoch := k_epoch k + 1\<rparr>)
                (jm_delete oldPrefix (ks_byPrefix s))\<rparr>)"

section \<open>Resolving a request\<close>

datatype AuthFailureReason =
    MissingCredential | MalformedCredential | UnknownKey | BadSecret | Disabled | Expired
  | ModeNotAllowed | NoScope | StoreUnavailable

record AuthContext =
  ax_apiKey :: "string option"
  ax_bearer :: "string option"

definition gk_candidate :: "string option \<Rightarrow> string option" where
  "gk_candidate c = (case c of Some t \<Rightarrow> if t \<noteq> [] \<and> starts_with t ''gk_'' then Some t else None | None \<Rightarrow> None)"

definition pickVirtualKeyCandidate :: "AuthContext \<Rightarrow> string option" where
  "pickVirtualKeyCandidate ctx =
     (case gk_candidate (ax_apiKey ctx) of Some t \<Rightarrow> Some t | None \<Rightarrow> gk_candidate (ax_bearer ctx))"

definition key_principal :: "StoredKey \<Rightarrow> Principal" where
  "key_principal k =
     \<lparr>p_kind = VirtualKey, p_id = k_id k, p_displayName = k_displayName k, p_authMode = VirtualKey,
      p_scope = \<lparr>s_orgId = k_orgId k, s_workspaceId = k_workspaceId k,
                 s_allowedProviders = k_allowedProviders k, s_allowedModels = k_allowedModels k,
                 s_groups = k_groups k\<rparr>,
      p_userId = None, p_serviceAccount = None, p_onBehalfOf = False\<rparr>"

text \<open>
  \<^verbatim>\<open>resolveVirtualKey\<close> on a lookup that may be unavailable (\<open>None\<close>). On success the id of the key
  whose use is recorded is returned with the principal.
\<close>

definition resolveVirtualKey ::
  "hmac \<Rightarrow> string \<Rightarrow> int \<Rightarrow> (string \<Rightarrow> StoredKey option option) \<Rightarrow> AuthContext
     \<Rightarrow> AuthFailureReason + (Principal \<times> string)" where
  "resolveVirtualKey hashSecret pepper now lookup ctx =
     (case pickVirtualKeyCandidate ctx of
        None \<Rightarrow> Inl MissingCredential
      | Some candidate \<Rightarrow>
          (case parseVirtualKey candidate of
             None \<Rightarrow> Inl MalformedCredential
           | Some parsed \<Rightarrow>
               (case lookup (pk_keyPrefix parsed) of
                  None \<Rightarrow> Inl StoreUnavailable
                | Some None \<Rightarrow> Inl UnknownKey
                | Some (Some stored) \<Rightarrow>
                    if \<not> verifySecret hashSecret pepper (pk_secret parsed) (k_keyHash stored) then Inl BadSecret
                    else if k_disabled stored then Inl Disabled
                    else if (case k_expiresAt stored of Some e \<Rightarrow> e \<le> now | None \<Rightarrow> False) then Inl Expired
                    else Inr (key_principal stored, k_id stored))))"

section \<open>The interface of a key store\<close>

text \<open>
  What the resolver and the administration of keys rely on: a lookup sees exactly the keys that
  were added, a disabled key stays found and disabled, a rotated key is found under its new
  prefix only, and recording a use changes no lookup.
\<close>

locale key_store =
  fixes find_key :: "string \<Rightarrow> 's \<Rightarrow> StoredKey option"
    and add_key :: "StoredKey \<Rightarrow> 's \<Rightarrow> 's"
    and touch_key :: "string \<Rightarrow> 's \<Rightarrow> 's"
    and disable_key :: "string \<Rightarrow> 's \<Rightarrow> 's"
    and rotate_key :: "string \<Rightarrow> string \<Rightarrow> string \<Rightarrow> 's \<Rightarrow> 's"
  assumes find_add: "find_key p (add_key k s) = (if p = k_keyPrefix k then Some k else find_key p s)"
    and find_touch: "find_key p (touch_key i s) = find_key p s"
    and find_disable: "find_key p (disable_key q s) =
      (if p = q then map_option (\<lambda>k. k\<lparr>k_disabled := True, k_epoch := k_epoch k + 1\<rparr>) (find_key q s)
       else find_key p s)"
    and find_rotate: "find_key p (rotate_key q q' h s) =
      (case find_key q s of
         None \<Rightarrow> find_key p s
       | Some k \<Rightarrow>
           if p = q' then Some (k\<lparr>k_keyPrefix := q', k_keyHash := h, k_epoch := k_epoch k + 1\<rparr>)
           else if p = q then None else find_key p s)"
begin

definition resolves :: "hmac \<Rightarrow> string \<Rightarrow> int \<Rightarrow> AuthContext \<Rightarrow> 's \<Rightarrow> AuthFailureReason + (Principal \<times> string)" where
  "resolves h pepper now ctx s = resolveVirtualKey h pepper now (\<lambda>p. Some (find_key p s)) ctx"

lemma resolves_touch: "resolves h pepper now ctx (touch_key i s) = resolves h pepper now ctx s"
  by (simp add: resolves_def find_touch)

lemma disabled_never_resolves:
  assumes "pickVirtualKeyCandidate ctx = Some t" and "parseVirtualKey t = Some pk"
  shows "\<nexists>r. resolves h pepper now ctx (disable_key (pk_keyPrefix pk) s) = Inr r"
  using assms by (cases "find_key (pk_keyPrefix pk) s") (auto simp: resolves_def resolveVirtualKey_def find_disable)

lemma rotated_old_key_unknown:
  assumes "pickVirtualKeyCandidate ctx = Some t" and "parseVirtualKey t = Some pk"
    and "q' \<noteq> pk_keyPrefix pk" and "find_key (pk_keyPrefix pk) s \<noteq> None"
  shows "resolves h pepper now ctx (rotate_key (pk_keyPrefix pk) q' hash s) = Inl UnknownKey"
  using assms by (auto simp: resolves_def resolveVirtualKey_def find_rotate)

end

interpretation mem_keys: key_store findByPrefix ks_add touchLastUsed disableByPrefix rekey
proof
  show "findByPrefix p (ks_add k s) = (if p = k_keyPrefix k then Some k else findByPrefix p s)" for p k s
    by (simp add: findByPrefix_def ks_add_def jm_get_set)
  show "findByPrefix p (touchLastUsed i s) = findByPrefix p s" for p i s
    by (simp add: findByPrefix_def touchLastUsed_def)
  show "findByPrefix p (disableByPrefix q s) =
      (if p = q then map_option (\<lambda>k. k\<lparr>k_disabled := True, k_epoch := k_epoch k + 1\<rparr>) (findByPrefix q s)
       else findByPrefix p s)" for p q s
    by (simp add: findByPrefix_def disableByPrefix_def jm_get_set split: option.split)
  show "findByPrefix p (rekey q q' h s) =
      (case findByPrefix q s of
         None \<Rightarrow> findByPrefix p s
       | Some k \<Rightarrow>
           if p = q' then Some (k\<lparr>k_keyPrefix := q', k_keyHash := h, k_epoch := k_epoch k + 1\<rparr>)
           else if p = q then None else findByPrefix p s)" for p q q' h s
    by (simp add: findByPrefix_def rekey_def jm_get_set jm_get_delete split: option.split)
qed

section \<open>Properties\<close>

lemma parse_generated:
  assumes "length idHex = ID_LEN" and "list_all is_hex idHex" and "secret \<noteq> []"
  shows "parseVirtualKey (''gk_'' @ idHex @ ''_'' @ secret) = Some \<lparr>pk_keyPrefix = idHex, pk_secret = secret\<rparr>"
proof -
  have "12 \<le> length (idHex @ ''_'' @ secret)" using assms(1) by simp
  moreover have "(idHex @ ''_'' @ secret) ! 12 = CHR ''_''"
    using assms(1) by (simp add: nth_append)
  ultimately show ?thesis
    using assms by (auto simp: parseVirtualKey_def Let_def Suc_le_eq)
qed

text \<open>
  A minted virtual key resolves, on either header, to the principal of its stored key: the
  token parses back to its id and secret, the stored hash verifies, and the scope is the key's,
  when the key is enabled and not expired.
\<close>

theorem minted_key_resolves:
  assumes "length idHex = ID_LEN" and "list_all is_hex idHex" and "secret \<noteq> []"
    and "k_keyPrefix k = gk_keyPrefix (generateVirtualKey h pepper idHex secret)"
    and "k_keyHash k = gk_keyHash (generateVirtualKey h pepper idHex secret)"
    and "\<not> k_disabled k" and "\<forall>e. k_expiresAt k = Some e \<longrightarrow> now < e"
    and "pickVirtualKeyCandidate ctx = Some (gk_token (generateVirtualKey h pepper idHex secret))"
  shows "resolveVirtualKey h pepper now (\<lambda>p. Some (findByPrefix p (ks_add k s))) ctx = Inr (key_principal k, k_id k)"
  using assms parse_generated [OF assms(1-3)] mem_keys.find_add [of idHex k s]
  by (auto simp: resolveVirtualKey_def generateVirtualKey_def verifySecret_def split: option.splits)

definition sample_key :: StoredKey where
  "sample_key = \<lparr>k_id = ''vk1'', k_keyPrefix = ''0123456789ab'', k_keyHash = ''6b'', k_orgId = ''o'', k_workspaceId = ''w'',
     k_displayName = ''n'', k_epoch = 0, k_disabled = False, k_expiresAt = Some 100, k_allowedProviders = AllowAll,
     k_allowedModels = AllowAll, k_groups = None\<rparr>"

theorem minted_key_resolves_witness:
  "resolveVirtualKey (\<lambda>p s. ''6b'') ''pepper'' 99 (\<lambda>p. Some (findByPrefix p (ks_add sample_key ks_empty)))
     \<lparr>ax_apiKey = None, ax_bearer = Some ''gk_0123456789ab_s3cret''\<rparr> = Inr (key_principal sample_key, ''vk1'')"
  using minted_key_resolves [of "''0123456789ab''" "''s3cret''" sample_key "\<lambda>p s. ''6b''" "''pepper''" 99
      "\<lparr>ax_apiKey = None, ax_bearer = Some ''gk_0123456789ab_s3cret''\<rparr>" ks_empty]
  by (simp add: sample_key_def generateVirtualKey_def pickVirtualKeyCandidate_def gk_candidate_def is_hex_def is_digit_def)

section \<open>Runs of the key administration\<close>

text \<open>
  What the administration does to the keys, as \<^verbatim>\<open>apps/control-api/src/stores.ts\<close> does it: it mints a key, replaces the secret of
  a key by a new one under a new prefix, revokes a key, and records a use. The random parts of a new key are arguments.
\<close>

datatype key_event =
    KeyMint string string StoredKey
  | KeyRotate string string string
  | KeyRevoke string
  | KeyUse string

fun key_step :: "hmac \<Rightarrow> string \<Rightarrow> InMemoryKeyStore \<Rightarrow> key_event \<Rightarrow> InMemoryKeyStore" where
  "key_step h pepper s (KeyMint idHex secret k) =
     (let g = generateVirtualKey h pepper idHex secret in ks_add (k\<lparr>k_keyPrefix := gk_keyPrefix g, k_keyHash := gk_keyHash g\<rparr>) s)"
| "key_step h pepper s (KeyRotate old idHex secret) =
     (let g = generateVirtualKey h pepper idHex secret in rekey old (gk_keyPrefix g) (gk_keyHash g) s)"
| "key_step h pepper s (KeyRevoke pre) = disableByPrefix pre s"
| "key_step h pepper s (KeyUse i) = touchLastUsed i s"

text \<open>
  The specification keeps the secrets themselves and no digest: under each id, the secret handed out last and the record it stands for.
\<close>

fun issue_step :: "(string \<rightharpoonup> string \<times> StoredKey) \<Rightarrow> key_event \<Rightarrow> (string \<rightharpoonup> string \<times> StoredKey)" where
  "issue_step m (KeyMint idHex secret k) = m(idHex \<mapsto> (secret, k))"
| "issue_step m (KeyRotate old idHex secret) =
     (case m old of None \<Rightarrow> m | Some (old_secret, k) \<Rightarrow> (m(old := None))(idHex \<mapsto> (secret, k)))"
| "issue_step m (KeyRevoke pre) = m(pre := map_option (\<lambda>(secret, k). (secret, k\<lparr>k_disabled := True\<rparr>)) (m pre))"
| "issue_step m (KeyUse i) = m"

definition issued_keys :: "key_event list \<Rightarrow> (string \<rightharpoonup> string \<times> StoredKey)" where
  "issued_keys evs = foldl issue_step Map.empty evs"

fun event_issues :: "key_event \<Rightarrow> (string \<times> string) option" where
  "event_issues (KeyMint idHex secret k) = Some (idHex, secret)"
| "event_issues (KeyRotate old idHex secret) = Some (idHex, secret)"
| "event_issues _ = None"

text \<open>Random ids are twelve hexadecimal digits and random secrets are not empty; a digest is written as 64 hexadecimal digits.\<close>

definition random_parts :: "key_event \<Rightarrow> bool" where
  "random_parts e = (case event_issues e of Some (idHex, secret) \<Rightarrow> length idHex = ID_LEN \<and> list_all is_hex idHex \<and> secret \<noteq> [] | None \<Rightarrow> True)"

definition hex_digest :: "string \<Rightarrow> bool" where
  "hex_digest d \<longleftrightarrow> length d = 64 \<and> list_all is_hex d"

definition presents :: "AuthContext \<Rightarrow> string \<Rightarrow> bool" where
  "presents ctx token \<longleftrightarrow> ax_apiKey ctx = Some token \<or>
     (\<forall>t. ax_apiKey ctx = Some t \<longrightarrow> take 3 t \<noteq> ''gk_'') \<and> ax_bearer ctx = Some token"

fun stands_for :: "hmac \<Rightarrow> string \<Rightarrow> string \<times> StoredKey \<Rightarrow> StoredKey \<Rightarrow> bool" where
  "stands_for h pepper (secret, k) k' \<longleftrightarrow>
     k_keyHash k' = h pepper secret \<and> k_disabled k' = k_disabled k \<and> k_expiresAt k' = k_expiresAt k \<and> key_principal k' = key_principal k"

definition keeps_issued :: "hmac \<Rightarrow> string \<Rightarrow> InMemoryKeyStore \<Rightarrow> (string \<rightharpoonup> string \<times> StoredKey) \<Rightarrow> bool" where
  "keeps_issued h pepper s m \<longleftrightarrow> (\<forall>i. rel_option (stands_for h pepper) (m i) (findByPrefix i s))"

lemma keeps_step:
  assumes k: "keeps_issued h pepper s m"
  shows "keeps_issued h pepper (key_step h pepper s e) (issue_step m e)"
proof (cases e)
  case (KeyMint idHex secret k)
  with k show ?thesis by (auto simp: keeps_issued_def Let_def generateVirtualKey_def mem_keys.find_add key_principal_def)
next
  case (KeyRotate old idHex secret)
  have old: "rel_option (stands_for h pepper) (m old) (findByPrefix old s)" using k by (simp add: keeps_issued_def)
  show ?thesis
  proof (cases "m old")
    case None
    with old have "findByPrefix old s = None" by simp
    with None k show ?thesis by (simp add: KeyRotate keeps_issued_def mem_keys.find_rotate Let_def)
  next
    case (Some sk)
    obtain sec k0 where sk: "sk = (sec, k0)" by fastforce
    with Some old obtain k1 where "findByPrefix old s = Some k1" "stands_for h pepper (sec, k0) k1" by (auto simp: option_rel_Some1)
    with Some sk k show ?thesis
      by (auto simp: KeyRotate keeps_issued_def mem_keys.find_rotate Let_def generateVirtualKey_def key_principal_def)
  qed
next
  case (KeyRevoke pre)
  have "rel_option (stands_for h pepper) (m pre) (findByPrefix pre s)" using k by (simp add: keeps_issued_def)
  then have "rel_option (stands_for h pepper) (map_option (\<lambda>(secret, k). (secret, k\<lparr>k_disabled := True\<rparr>)) (m pre))
      (map_option (\<lambda>k. k\<lparr>k_disabled := True, k_epoch := k_epoch k + 1\<rparr>) (findByPrefix pre s))"
    by (cases "m pre"; cases "findByPrefix pre s") (auto simp: key_principal_def)
  with k show ?thesis by (simp add: KeyRevoke keeps_issued_def mem_keys.find_disable)
next
  case (KeyUse i)
  with k show ?thesis by (simp add: keeps_issued_def mem_keys.find_touch)
qed

lemma keeps_run: "keeps_issued h pepper (foldl (key_step h pepper) ks_empty evs) (issued_keys evs)"
proof (induction evs rule: rev_induct)
  case Nil
  show ?case by (simp add: keeps_issued_def issued_keys_def findByPrefix_def ks_empty_def)
next
  case (snoc e evs)
  from keeps_step [OF snoc.IH, of e] show ?case by (simp add: issued_keys_def)
qed

lemma issued_found: "rel_option (stands_for h pepper) (issued_keys evs i) (findByPrefix i (foldl (key_step h pepper) ks_empty evs))"
  using keeps_run [of h pepper evs] by (simp add: keeps_issued_def)

lemma issued_from_event:
  assumes "issued_keys evs i = Some (secret, k)"
  shows "\<exists>e\<in>set evs. event_issues e = Some (i, secret)"
  using assms
proof (induction evs arbitrary: i secret k rule: rev_induct)
  case Nil
  then show ?case by (simp add: issued_keys_def)
next
  case (snoc e evs)
  then show ?case
    by (cases e) (fastforce simp: issued_keys_def split: option.splits if_splits)+
qed

lemma hex_val_inj: "is_hex a \<Longrightarrow> is_hex b \<Longrightarrow> hex_val a = hex_val b \<Longrightarrow> a = b"
proof -
  assume "is_hex a" "is_hex b" "hex_val a = hex_val b"
  then have "(of_char a :: nat) = of_char b" by (auto simp: is_hex_def is_digit_def hex_val_def Let_def simp del: of_char_eq_iff split: if_splits)
  then show "a = b" by simp
qed

lemma hex_val_lt: "is_hex a \<Longrightarrow> \<exists>x. hex_val a = Some x \<and> x < 16"
  by (auto simp: is_hex_def is_digit_def hex_val_def Let_def)

lemma hex_bytes_inj:
  "list_all is_hex xs \<Longrightarrow> list_all is_hex ys \<Longrightarrow> length xs = length ys \<Longrightarrow> even (length xs) \<Longrightarrow> hex_bytes xs = hex_bytes ys \<Longrightarrow> xs = ys"
proof (induction xs arbitrary: ys rule: hex_bytes.induct)
  case (1 a b rest)
  obtain c d rest' where ys: "ys = c # d # rest'" using "1.prems"(3) by (cases ys; cases "tl ys") auto
  have hex: "is_hex a" "is_hex b" "is_hex c" "is_hex d" "list_all is_hex rest" "list_all is_hex rest'" using "1.prems"(1,2) ys by simp_all
  obtain x where x: "hex_val a = Some x" "x < 16" using hex_val_lt [OF hex(1)] by blast
  obtain y where y: "hex_val b = Some y" "y < 16" using hex_val_lt [OF hex(2)] by blast
  obtain z where z: "hex_val c = Some z" "z < 16" using hex_val_lt [OF hex(3)] by blast
  obtain w where w: "hex_val d = Some w" "w < 16" using hex_val_lt [OF hex(4)] by blast
  have e: "16 * x + y = 16 * z + w" "hex_bytes rest = hex_bytes rest'" using "1.prems"(5) ys x y z w by simp_all
  have "x = (16 * x + y) div 16" "z = (16 * z + w) div 16" using y(2) w(2) by simp_all
  then have "x = z" using e(1) by metis
  moreover from this have "y = w" using e(1) by simp
  ultimately have "a = c" "b = d" using x(1) y(1) z(1) w(1) hex_val_inj hex by metis+
  moreover have "rest = rest'"
    using "1.IH" [OF refl x(1) y(1) hex(5,6) _ _ e(2)] "1.prems"(3,4) ys by simp
  ultimately show ?case using ys by simp
qed auto

lemma verifySecret_iff:
  assumes "\<And>t. hex_digest (h pepper t)" and "inj_on (h pepper) S" and "a \<in> S" and "b \<in> S"
  shows "verifySecret h pepper a (h pepper b) \<longleftrightarrow> a = b"
proof
  assume "verifySecret h pepper a (h pepper b)"
  then have "h pepper a = h pepper b"
    using assms(1) [of a] assms(1) [of b] by (auto simp: verifySecret_def Let_def hex_digest_def intro!: hex_bytes_inj)
  then show "a = b" using assms(2-4) by (auto dest: inj_onD)
qed (simp add: verifySecret_def)

lemma parse_token:
  assumes "parseVirtualKey t = Some pk"
  shows "t = ''gk_'' @ pk_keyPrefix pk @ ''_'' @ pk_secret pk"
proof -
  let ?b = "drop 3 t"
  have p: "starts_with t ''gk_''" "ID_LEN + 2 \<le> length ?b" "?b ! ID_LEN = CHR ''_''"
      "pk = \<lparr>pk_keyPrefix = take ID_LEN ?b, pk_secret = drop (ID_LEN + 1) ?b\<rparr>"
    using assms by (auto simp: parseVirtualKey_def Let_def split: if_splits)
  have "?b = take ID_LEN ?b @ ?b ! ID_LEN # drop (Suc ID_LEN) ?b" by (rule id_take_nth_drop) (use p(2) in simp)
  moreover have "t = ''gk_'' @ ?b" using p(1) by (auto simp: prefix_def)
  ultimately show ?thesis using p(3,4) by simp
qed

lemma gk_prefix: "starts_with t ''gk_'' \<longleftrightarrow> take 3 t = ''gk_''"
  using take_is_prefix [of 3 t] by (auto simp: prefix_def)

lemma picked_presents: "pickVirtualKeyCandidate ctx = Some t \<longleftrightarrow> presents ctx t \<and> take 3 t = ''gk_''"
  by (auto simp: pickVirtualKeyCandidate_def gk_candidate_def presents_def gk_prefix split: option.splits if_splits)

lemma key_stays_gone:
  assumes "\<forall>e\<in>set evs. \<forall>secret. event_issues e \<noteq> Some (i, secret)" and "findByPrefix i s = None"
  shows "findByPrefix i (foldl (key_step h pepper) s evs) = None"
  using assms
proof (induction evs arbitrary: s)
  case (Cons e evs)
  have "findByPrefix i (key_step h pepper s e) = None"
    using Cons.prems
    by (cases e) (auto simp: Let_def generateVirtualKey_def mem_keys.find_add mem_keys.find_rotate mem_keys.find_disable mem_keys.find_touch split: option.split)
  then show ?case using Cons by simp
qed simp

lemma key_stays_dead:
  assumes "\<forall>e\<in>set evs. \<forall>secret. event_issues e \<noteq> Some (i, secret)" and "\<forall>k. findByPrefix i s = Some k \<longrightarrow> k_disabled k"
  shows "\<forall>k. findByPrefix i (foldl (key_step h pepper) s evs) = Some k \<longrightarrow> k_disabled k"
  using assms
proof (induction evs arbitrary: s)
  case (Cons e evs)
  have "\<forall>k. findByPrefix i (key_step h pepper s e) = Some k \<longrightarrow> k_disabled k"
    using Cons.prems
    by (cases e) (auto simp: Let_def generateVirtualKey_def mem_keys.find_add mem_keys.find_rotate mem_keys.find_disable mem_keys.find_touch
        split: option.splits if_splits)
  then show ?case using Cons by simp
qed simp

text \<open>
  C17. Over every run of minting, rotating, revoking and using keys, a request resolves exactly when the token it presents is, letter for letter,
  the one handed out last under its id, and the key it stands for was not revoked and has not expired; the principal is then that key's, with its organisation,
  workspace, allow lists and groups. So keeping digests alone decides as keeping the tokens would: no other secret, no rotated token and no revoked
  key is accepted, and every token in force is. The digest must not collide on the secrets handed out and the one presented.
\<close>

theorem resolve_fail_closed:
  assumes "\<And>t. hex_digest (h pepper t)"
    and "inj_on (h pepper) ({secret. \<exists>i. presents ctx (''gk_'' @ i @ ''_'' @ secret)} \<union> {secret. \<exists>e\<in>set evs. \<exists>i. event_issues e = Some (i, secret)})"
    and "list_all random_parts evs"
  shows "resolveVirtualKey h pepper now (\<lambda>q. Some (findByPrefix q (foldl (key_step h pepper) ks_empty evs))) ctx = Inr (p, i) \<longleftrightarrow>
    (\<exists>idHex secret k. presents ctx (''gk_'' @ idHex @ ''_'' @ secret) \<and> issued_keys evs idHex = Some (secret, k) \<and>
       \<not> k_disabled k \<and> (\<forall>e. k_expiresAt k = Some e \<longrightarrow> now < e) \<and> i = k_id k \<and>
       p = \<lparr>p_kind = VirtualKey, p_id = k_id k, p_displayName = k_displayName k, p_authMode = VirtualKey,
          p_scope = \<lparr>s_orgId = k_orgId k, s_workspaceId = k_workspaceId k, s_allowedProviders = k_allowedProviders k,
            s_allowedModels = k_allowedModels k, s_groups = k_groups k\<rparr>,
          p_userId = None, p_serviceAccount = None, p_onBehalfOf = False\<rparr>)" (is "?resolves \<longleftrightarrow> ?in_force")
proof
  let ?s = "foldl (key_step h pepper) ks_empty evs"
  assume ?resolves
  then obtain t pk k' where t: "pickVirtualKeyCandidate ctx = Some t" "parseVirtualKey t = Some pk" "findByPrefix (pk_keyPrefix pk) ?s = Some k'"
      "verifySecret h pepper (pk_secret pk) (k_keyHash k')" "\<not> k_disabled k'" "\<forall>e. k_expiresAt k' = Some e \<longrightarrow> now < e"
      "p = key_principal k'" "i = k_id k'"
    by (auto simp: resolveVirtualKey_def split: option.splits if_splits)
  have pres: "presents ctx (''gk_'' @ pk_keyPrefix pk @ ''_'' @ pk_secret pk)" using t(1) parse_token [OF t(2)] by (simp add: picked_presents)
  obtain secret k where k: "issued_keys evs (pk_keyPrefix pk) = Some (secret, k)" "k_keyHash k' = h pepper secret" "k_disabled k' = k_disabled k"
      "k_expiresAt k' = k_expiresAt k" "key_principal k' = key_principal k"
    using issued_found [of h pepper evs "pk_keyPrefix pk"] t(3) by (auto simp: option_rel_Some2)
  have "pk_secret pk = secret"
    by (rule verifySecret_iff [where h = h and pepper = pepper, OF assms(1,2), THEN iffD1])
      (use pres issued_from_event [OF k(1)] t(4) k(2) in auto)
  moreover have "k_id k' = k_id k" using k(5) by (simp add: key_principal_def)
  ultimately show ?in_force using pres k t by (auto simp: key_principal_def)
next
  let ?s = "foldl (key_step h pepper) ks_empty evs"
  assume ?in_force
  then obtain idHex secret k where k: "presents ctx (''gk_'' @ idHex @ ''_'' @ secret)" "issued_keys evs idHex = Some (secret, k)" "\<not> k_disabled k"
      "\<forall>e. k_expiresAt k = Some e \<longrightarrow> now < e" "i = k_id k" "p = key_principal k"
    by (auto simp: key_principal_def)
  obtain k' where k': "findByPrefix idHex ?s = Some k'" "k_keyHash k' = h pepper secret" "k_disabled k' = k_disabled k"
      "k_expiresAt k' = k_expiresAt k" "key_principal k' = key_principal k"
    using issued_found [of h pepper evs idHex] k(2) by (auto simp: option_rel_Some1)
  obtain e where e: "e \<in> set evs" "event_issues e = Some (idHex, secret)" using issued_from_event [OF k(2)] by blast
  then have "length idHex = ID_LEN" "list_all is_hex idHex" "secret \<noteq> []" using assms(3) by (auto simp: list_all_iff random_parts_def)
  from parse_generated [OF this] have "parseVirtualKey (''gk_'' @ idHex @ ''_'' @ secret) = Some \<lparr>pk_keyPrefix = idHex, pk_secret = secret\<rparr>" .
  moreover have "pickVirtualKeyCandidate ctx = Some (''gk_'' @ idHex @ ''_'' @ secret)" using k(1) by (simp add: picked_presents)
  moreover have "k_id k' = k_id k" using k'(5) by (simp add: key_principal_def)
  moreover have "verifySecret h pepper secret (k_keyHash k')" using k'(2) by (simp add: verifySecret_def)
  ultimately show ?resolves using k k' by (auto simp: resolveVirtualKey_def split: option.splits)
qed

definition sample_hmac :: hmac where
  "sample_hmac pepper secret = (if secret = ''s3cret'' then ''1'' else ''0'') @ replicate 63 (CHR ''0'')"

definition sample_events :: "key_event list" where
  "sample_events = [KeyMint ''0123456789ab'' ''s3cret'' sample_key, KeyUse ''vk1'']"

definition sample_auth_context :: "string \<Rightarrow> AuthContext" where
  "sample_auth_context secret = \<lparr>ax_apiKey = None, ax_bearer = Some (''gk_0123456789ab_'' @ secret)\<rparr>"

lemma sample_presented: "presents (sample_auth_context ''s3cret'') (CHR ''g'' # CHR ''k'' # CHR ''_'' # i @ CHR ''_'' # t) \<longleftrightarrow> i = ''0123456789ab'' \<and> t = ''s3cret''"
  using append_Cons_eq_iff [of "CHR ''_''" "''0123456789ab''" "''s3cret''" i t] by (auto simp: presents_def sample_auth_context_def)

theorem resolve_fail_closed_witness:
  "resolveVirtualKey sample_hmac ''pepper'' 99 (\<lambda>q. Some (findByPrefix q (foldl (key_step sample_hmac ''pepper'') ks_empty sample_events)))
     (sample_auth_context ''s3cret'') = Inr (key_principal sample_key, ''vk1'')"
proof -
  have "list_all random_parts sample_events" by (simp add: sample_events_def random_parts_def is_hex_def is_digit_def)
  moreover have "hex_digest (sample_hmac ''pepper'' t)" for t by (auto simp: hex_digest_def sample_hmac_def is_hex_def is_digit_def list_all_iff)
  moreover have "inj_on (sample_hmac ''pepper'') ({secret. \<exists>i. presents (sample_auth_context ''s3cret'') (''gk_'' @ i @ ''_'' @ secret)} \<union>
      {secret. \<exists>e\<in>set sample_events. \<exists>i. event_issues e = Some (i, secret)})"
    by (auto simp: inj_on_def sample_presented sample_events_def)
  moreover have "issued_keys sample_events ''0123456789ab'' = Some (''s3cret'', sample_key)" by (simp add: issued_keys_def sample_events_def)
  ultimately show ?thesis
    using resolve_fail_closed [of sample_hmac "''pepper''" "sample_auth_context ''s3cret''" sample_events 99 "key_principal sample_key" "''vk1''"]
    by (simp add: sample_presented key_principal_def) (simp add: sample_key_def)
qed

text \<open>
  C23. A revoked or rotated token never resolves again: whatever keys are minted, rotated, revoked or used after a revocation or a rotation, as long as the id is not
  drawn a second time, no request that presents a token with that id resolves; after a rotation it is an unknown key.
\<close>

theorem revoked_key_never_resolves:
  assumes "pickVirtualKeyCandidate ctx = Some t" and "parseVirtualKey t = Some pk"
    and "\<forall>e\<in>set evs. \<forall>secret. event_issues e \<noteq> Some (pk_keyPrefix pk, secret)"
  shows "(\<nexists>r. resolveVirtualKey h pepper now
      (\<lambda>p. Some (findByPrefix p (foldl (key_step h pepper) (disableByPrefix (pk_keyPrefix pk) s) evs))) ctx = Inr r) \<and>
    (findByPrefix (pk_keyPrefix pk) s \<noteq> None \<longrightarrow> q' \<noteq> pk_keyPrefix pk \<longrightarrow>
     resolveVirtualKey h pepper now
      (\<lambda>p. Some (findByPrefix p (foldl (key_step h pepper) (rekey (pk_keyPrefix pk) q' hash s) evs))) ctx = Inl UnknownKey)"
proof -
  have "findByPrefix (pk_keyPrefix pk) (disableByPrefix (pk_keyPrefix pk) s) = Some k \<Longrightarrow> k_disabled k" for k
    by (auto simp: mem_keys.find_disable)
  then have dead: "findByPrefix (pk_keyPrefix pk) (foldl (key_step h pepper) (disableByPrefix (pk_keyPrefix pk) s) evs) = Some k \<Longrightarrow> k_disabled k" for k
    using key_stays_dead [OF assms(3)] by blast
  moreover have "findByPrefix (pk_keyPrefix pk) (foldl (key_step h pepper) (rekey (pk_keyPrefix pk) q' hash s) evs) = None"
    if "findByPrefix (pk_keyPrefix pk) s \<noteq> None" "q' \<noteq> pk_keyPrefix pk"
    by (rule key_stays_gone [OF assms(3)]) (use that in \<open>auto simp: mem_keys.find_rotate\<close>)
  ultimately show ?thesis using assms(1,2) by (auto simp: resolveVirtualKey_def split: option.splits if_splits)
qed

theorem revoked_key_never_resolves_witness:
  "resolveVirtualKey sample_hmac ''pepper'' 99
     (\<lambda>p. Some (findByPrefix p (foldl (key_step sample_hmac ''pepper'') (rekey ''0123456789ab'' ''ffffffffffff'' ''00'' (ks_add sample_key ks_empty))
        [KeyMint ''00112233aabb'' ''other'' sample_key, KeyRevoke ''ffffffffffff'', KeyUse ''vk1''])))
     (sample_auth_context ''s3cret'') = Inl UnknownKey"
  using revoked_key_never_resolves [of "sample_auth_context ''s3cret''" "''gk_0123456789ab_s3cret''" "\<lparr>pk_keyPrefix = ''0123456789ab'', pk_secret = ''s3cret''\<rparr>"
      "[KeyMint ''00112233aabb'' ''other'' sample_key, KeyRevoke ''ffffffffffff'', KeyUse ''vk1'']" sample_hmac "''pepper''" 99 "ks_add sample_key ks_empty"
      "''ffffffffffff''" "''00''"]
  by (simp add: sample_auth_context_def pickVirtualKeyCandidate_def gk_candidate_def parseVirtualKey_def is_hex_def is_digit_def
      mem_keys.find_add sample_key_def)

end
