(* ===== verification/Budget_Admission.thy ===== *)
theory Budget_Admission
  imports Budget_Safety Cost Auth
begin

text \<open>
  The budget stage of the gateway's request handler: the scopes a request is admitted by
  (\<^verbatim>\<open>src/apps/gateway/src/budget-scopes.ts\<close>) and the admission and settlement code of
  \<^verbatim>\<open>src/apps/gateway/src/routes/messages.ts\<close> (the hierarchy loop, the downshift, the per-model,
  cascade and attribution caps, the two rollbacks and the commits of the teardown).

  The handler awaits every store call, so other requests run in between: \<open>ad_others\<close> lists what
  they do to the store before each of this request's calls. Log lines, metrics, audit rows and
  alerts are effects recorded in \<open>ad_log\<close>.
\<close>

section \<open>Scopes of a request\<close>

abbreviation MAX_TEAM_BUDGET_SCOPES :: nat where
  "MAX_TEAM_BUDGET_SCOPES \<equiv> 16"

definition DEFAULT_BUDGET_SCOPE_KINDS :: "BudgetScopeKind list" where
  "DEFAULT_BUDGET_SCOPE_KINDS = [SOrg, SKey, SUser, STeam, SProject]"

definition selectable_kind :: "string \<Rightarrow> BudgetScopeKind option" where
  "selectable_kind tok = find (\<lambda>k. scope_kind_name k = tok) DEFAULT_BUDGET_SCOPE_KINDS"

fun collect_kinds :: "string list \<Rightarrow> BudgetScopeKind list \<Rightarrow> string list \<Rightarrow> BudgetScopeKind list \<times> string list" where
  "collect_kinds [] kinds unknown = (kinds, unknown)"
| "collect_kinds (tok # toks) kinds unknown =
     (if tok = ''workspace'' then collect_kinds toks kinds unknown
      else case selectable_kind tok of
        Some k \<Rightarrow> collect_kinds toks (List.insert k kinds) unknown
      | None \<Rightarrow> collect_kinds toks kinds (unknown @ [tok]))"

definition parseBudgetScopeKinds :: "string option \<Rightarrow> BudgetScopeKind list \<times> string list" where
  "parseBudgetScopeKinds raw =
     (case raw of
        None \<Rightarrow> (DEFAULT_BUDGET_SCOPE_KINDS, [])
      | Some r \<Rightarrow>
          collect_kinds (filter (\<lambda>s. s \<noteq> []) (map (to_lower \<circ> js_trim) (split_on (CHR '','') r))) [] [])"

datatype header_value = HOne string | HMany "string list"

abbreviation USER_ID_MAX_LEN :: nat where
  "USER_ID_MAX_LEN \<equiv> 128"

text \<open>The class \<^verbatim>\<open>[{}\p{Cc}\s]\<close>.\<close>

definition user_id_unsafe :: "char \<Rightarrow> bool" where
  "user_id_unsafe c \<longleftrightarrow>
     (let n = (of_char c :: nat) in
      c = CHR ''{'' \<or> c = CHR ''}'' \<or> n < 32 \<or> (127 \<le> n \<and> n < 160) \<or> js_space c)"

definition first_header :: "header_value option \<Rightarrow> string option" where
  "first_header raw =
     (case raw of
        None \<Rightarrow> None
      | Some (HOne v) \<Rightarrow> Some v
      | Some (HMany vs) \<Rightarrow> (case vs of [] \<Rightarrow> None | v # _ \<Rightarrow> Some v))"

definition endUserIdFor :: "Principal \<Rightarrow> header_value option \<Rightarrow> string option" where
  "endUserIdFor pr xUserId =
     (case (if p_onBehalfOf pr then first_header xUserId else None) of
        Some v \<Rightarrow>
          if v \<noteq> [] \<and> length v \<le> USER_ID_MAX_LEN \<and> \<not> list_ex user_id_unsafe v then Some v
          else p_userId pr
      | None \<Rightarrow> p_userId pr)"

text \<open>The team loop: empty and repeated groups are skipped, the seventeenth group ends it.\<close>

fun team_scopes :: "string \<Rightarrow> string list \<Rightarrow> string list \<Rightarrow> string list" where
  "team_scopes ws seen [] = []"
| "team_scopes ws seen (g # gs) =
     (if g = [] \<or> g \<in> set seen then team_scopes ws seen gs
      else if MAX_TEAM_BUDGET_SCOPES < length (g # seen) then []
      else budgetScope \<lparr>sc_kind = STeam, sc_entity = g, sc_workspaceId = Some ws\<rparr> # team_scopes ws (g # seen) gs)"

definition nonempty :: "string option \<Rightarrow> string option" where
  "nonempty v = (case v of Some x \<Rightarrow> if x = [] then None else Some x | None \<Rightarrow> None)"

definition hierarchyBudgetScopes ::
  "Principal \<Rightarrow> string option \<Rightarrow> (string, string) jsmap option \<Rightarrow> BudgetScopeKind list \<Rightarrow> string list" where
  "hierarchyBudgetScopes pr endUserId attribution kinds =
     (let ws = s_workspaceId (p_scope pr); org = s_orgId (p_scope pr);
          scoped = (\<lambda>k e. budgetScope \<lparr>sc_kind = k, sc_entity = e, sc_workspaceId = Some ws\<rparr>)
      in [ws]
         @ (if SOrg \<in> set kinds \<and> org \<noteq> []
            then [budgetScope \<lparr>sc_kind = SOrg, sc_entity = org, sc_workspaceId = None\<rparr>] else [])
         @ (if SKey \<in> set kinds then [scoped SKey (p_id pr)] else [])
         @ (case nonempty endUserId of Some u \<Rightarrow> if SUser \<in> set kinds then [scoped SUser u] else [] | None \<Rightarrow> [])
         @ (if STeam \<in> set kinds then team_scopes ws [] (scopeGroups (p_scope pr)) else [])
         @ (case (case attribution of None \<Rightarrow> None | Some a \<Rightarrow> nonempty (jm_get a ''project'')) of
              Some p \<Rightarrow> if SProject \<in> set kinds then [scoped SProject p] else []
            | None \<Rightarrow> []))"

section \<open>The rejection\<close>

record BudgetScopeDescription =
  ds_kind :: BudgetScopeKind
  ds_id :: string
  ds_workspaceId :: "string option"
  ds_label :: string

definition describeBudgetScope :: "string \<Rightarrow> BudgetScopeDescription" where
  "describeBudgetScope scope =
     (let s = parseBudgetScope scope;
          label = (case sc_kind s of
              SWorkspace \<Rightarrow> ''Workspace'' | SOrg \<Rightarrow> ''Organization''
            | SKey \<Rightarrow> ''Key '' @ sc_entity s | SUser \<Rightarrow> ''User '' @ sc_entity s
            | STeam \<Rightarrow> ''Team '' @ sc_entity s | SProject \<Rightarrow> ''Project '' @ sc_entity s
            | SModel \<Rightarrow> ''Model '' @ sc_entity s | SAttr \<Rightarrow> ''Attribution '' @ sc_entity s);
          workspaceId = (if sc_kind s = SWorkspace then Some (sc_entity s) else sc_workspaceId s)
      in \<lparr>ds_kind = sc_kind s, ds_id = sc_entity s, ds_workspaceId = nonempty workspaceId, ds_label = label\<rparr>)"

definition pad_to :: "nat \<Rightarrow> int \<Rightarrow> string" where
  "pad_to w n = replicate (w - length (show_int n)) (CHR ''0'') @ show_int n"

text \<open>\<^verbatim>\<open>(micro / 1_000_000).toFixed(d)\<close> for a nonnegative amount, halves rounded up.\<close>

definition to_fixed :: "nat \<Rightarrow> int \<Rightarrow> string" where
  "to_fixed d micro =
     (let n = (2 * micro * 10 ^ d + 1000000) div 2000000 in
      show_int (n div 10 ^ d) @ ''.'' @ pad_to d (n mod 10 ^ d))"

definition usd :: "int \<Rightarrow> string" where
  "usd micro = ''$'' @ to_fixed (if 0 < micro \<and> micro < 10000 then 4 else 2) micro"

text \<open>\<^verbatim>\<open>toISOString()\<close> for the years 0 to 9999.\<close>

definition toISOString :: "int \<Rightarrow> string" where
  "toISOString t =
     (let ms = t mod DAY_MS in
      pad_to 4 (getUTCFullYear t) @ ''-'' @ pad (getUTCMonth t + 1) @ ''-'' @ pad (getUTCDate t) @ ''T'' @
      pad (ms div 3600000) @ '':'' @ pad (ms div 60000 mod 60) @ '':'' @ pad (ms div 1000 mod 60) @ ''.'' @
      pad_to 3 (ms mod 1000) @ ''Z'')"

record BudgetExceededResponse =
  be_status :: nat
  be_retryAfter :: "int option"
  be_message :: string
  be_scope :: BudgetScopeDescription
  be_period :: string
  be_resetsAt :: "string option"
  be_cap :: int
  be_used :: int
  be_worstCase :: int

definition budgetExceededResponse :: "string \<Rightarrow> BudgetDecision \<Rightarrow> int \<Rightarrow> int \<Rightarrow> BudgetExceededResponse" where
  "budgetExceededResponse scope decision worst nowMs =
     (let d = describeBudgetScope scope;
          period = periodLabel (fst (bd_window decision));
          resetsAtMs = snd (bd_window decision);
          retryAfter = map_option (\<lambda>r. max 1 (ceil_div (r - nowMs) 1000)) resetsAtMs;
          resetsAt = map_option toISOString resetsAtMs
      in \<lparr>be_status = 402, be_retryAfter = retryAfter,
          be_message = ds_label d @ '' budget exceeded. Current spend: '' @ usd (bd_usedMicroUsd decision) @
            '', limit: '' @ usd (bd_capMicroUsd decision) @ '' ('' @ period @ ''); this request needs up to '' @
            usd worst @ ''.'' @ (case resetsAt of Some r \<Rightarrow> '' Resets at '' @ r @ ''.'' | None \<Rightarrow> []),
          be_scope = d, be_period = period, be_resetsAt = resetsAt,
          be_cap = bd_capMicroUsd decision, be_used = bd_usedMicroUsd decision, be_worstCase = worst\<rparr>)"

section \<open>Admission\<close>

datatype admission_effect =
    StoreUnavailable_fx string bool
  | RollbackFailed string
  | BudgetRejected string BudgetDecision
  | ShedBudgetStore
  | BudgetUtilization real
  | AlerterCheck string BudgetDecision
  | SubstitutionPinned string
  | Downshifted string string
  | CommitFailed string

datatype admission_outcome = Admitted | Replied402 BudgetExceededResponse | Replied503

record 's admission =
  ad_store :: 's
  ad_others :: "('s \<Rightarrow> 's) list"
  ad_reserved :: "string list"
  ad_storeDown :: bool
  ad_log :: "admission_effect list"

type_synonym ('s, 'e) reserve_op = "string \<Rightarrow> string \<Rightarrow> int \<Rightarrow> 's \<Rightarrow> ('e + BudgetDecision option) \<times> 's"
type_synonym ('s, 'e) commit_op = "string \<Rightarrow> string \<Rightarrow> int \<Rightarrow> 's \<Rightarrow> ('e + unit) \<times> 's"

text \<open>What runs while the handler awaits a store call.\<close>

definition interleave :: "'s admission \<Rightarrow> 's admission" where
  "interleave a =
     (case ad_others a of [] \<Rightarrow> a | f # fs \<Rightarrow> a\<lparr>ad_store := f (ad_store a), ad_others := fs\<rparr>)"

definition emit :: "admission_effect \<Rightarrow> 's admission \<Rightarrow> 's admission" where
  "emit fx a = a\<lparr>ad_log := ad_log a @ [fx]\<rparr>"

definition reserveSafe ::
  "('s, 'e) reserve_op \<Rightarrow> bool \<Rightarrow> string \<Rightarrow> int \<Rightarrow> string \<Rightarrow> 's admission
     \<Rightarrow> (BudgetDecision option \<times> bool) \<times> 's admission" where
  "reserveSafe resv failOpen rid worst scope a0 =
     (let a = interleave a0 in
      case resv scope rid worst (ad_store a) of
        (Inr decision, s) \<Rightarrow> ((decision, False), a\<lparr>ad_store := s\<rparr>)
      | (Inl e, s) \<Rightarrow>
          ((None, True),
           if ad_storeDown a then a\<lparr>ad_store := s\<rparr>
           else emit (StoreUnavailable_fx scope failOpen) (a\<lparr>ad_store := s, ad_storeDown := True\<rparr>)))"

text \<open>The rollback both rejections start with: spend nothing on every reserved scope.\<close>

definition release_scope :: "('s, 'e) commit_op \<Rightarrow> string \<Rightarrow> string \<Rightarrow> 's admission \<Rightarrow> 's admission" where
  "release_scope cmt rid scope a0 =
     (let a = interleave a0 in
      case cmt scope rid 0 (ad_store a) of
        (Inr _, s) \<Rightarrow> a\<lparr>ad_store := s\<rparr>
      | (Inl e, s) \<Rightarrow> emit (RollbackFailed scope) (a\<lparr>ad_store := s\<rparr>))"

definition rollback :: "('s, 'e) commit_op \<Rightarrow> string \<Rightarrow> 's admission \<Rightarrow> 's admission" where
  "rollback cmt rid a = (fold (release_scope cmt rid) (ad_reserved a) a)\<lparr>ad_reserved := []\<rparr>"

definition rejectBudget ::
  "('s, 'e) commit_op \<Rightarrow> string \<Rightarrow> int \<Rightarrow> int \<Rightarrow> string \<Rightarrow> BudgetDecision \<Rightarrow> 's admission
     \<Rightarrow> admission_outcome \<times> 's admission" where
  "rejectBudget cmt rid worst nowMs scope decision a =
     (Replied402 (budgetExceededResponse scope decision worst nowMs),
      emit (BudgetRejected scope decision) (rollback cmt rid a))"

definition failBudgetStore :: "('s, 'e) commit_op \<Rightarrow> string \<Rightarrow> 's admission \<Rightarrow> admission_outcome \<times> 's admission" where
  "failBudgetStore cmt rid a = (Replied503, emit ShedBudgetStore (rollback cmt rid a))"

definition push_scope :: "string \<Rightarrow> 's admission \<Rightarrow> 's admission" where
  "push_scope scope a = a\<lparr>ad_reserved := ad_reserved a @ [scope]\<rparr>"

fun admit_hierarchy ::
  "('s, 'e) reserve_op \<Rightarrow> ('s, 'e) commit_op \<Rightarrow> bool \<Rightarrow> string \<Rightarrow> int \<Rightarrow> int \<Rightarrow> string list \<Rightarrow> bool \<times> real
     \<Rightarrow> 's admission \<Rightarrow> (admission_outcome \<times> (bool \<times> real)) \<times> 's admission" where
  "admit_hierarchy resv cmt failOpen rid worst nowMs [] util a = ((Admitted, util), a)"
| "admit_hierarchy resv cmt failOpen rid worst nowMs (scope # scopes) util a =
     (let ((decision, storeError), a1) = reserveSafe resv failOpen rid worst scope a in
      if storeError then
        if \<not> failOpen then (let (r, a2) = failBudgetStore cmt rid a1 in ((r, util), a2))
        else ((Admitted, util), a1)
      else case decision of
        None \<Rightarrow> admit_hierarchy resv cmt failOpen rid worst nowMs scopes util a1
      | Some d \<Rightarrow>
          if \<not> bd_allowed d then (let (r, a2) = rejectBudget cmt rid worst nowMs scope d a1 in ((r, util), a2))
          else if 0 < bd_capMicroUsd d then
            admit_hierarchy resv cmt failOpen rid worst nowMs scopes
              (True, max (snd util) (of_int (bd_usedMicroUsd d) / of_int (bd_capMicroUsd d)))
              (emit (AlerterCheck scope d) (push_scope scope a1))
          else admit_hierarchy resv cmt failOpen rid worst nowMs scopes util (push_scope scope a1))"

text \<open>One cap outside the hierarchy: an outage in the fail-open mode skips it.\<close>

definition admit_cap ::
  "('s, 'e) reserve_op \<Rightarrow> ('s, 'e) commit_op \<Rightarrow> bool \<Rightarrow> string \<Rightarrow> int \<Rightarrow> int \<Rightarrow> string
     \<Rightarrow> 's admission \<Rightarrow> admission_outcome \<times> 's admission" where
  "admit_cap resv cmt failOpen rid worst nowMs scope a =
     (let ((decision, storeError), a1) = reserveSafe resv failOpen rid worst scope a in
      if storeError \<and> \<not> failOpen then failBudgetStore cmt rid a1
      else case decision of
        None \<Rightarrow> (Admitted, a1)
      | Some d \<Rightarrow>
          if \<not> bd_allowed d then rejectBudget cmt rid worst nowMs scope d a1
          else (Admitted, push_scope scope a1))"

fun admit_caps ::
  "('s, 'e) reserve_op \<Rightarrow> ('s, 'e) commit_op \<Rightarrow> bool \<Rightarrow> string \<Rightarrow> int \<Rightarrow> int \<Rightarrow> string list
     \<Rightarrow> 's admission \<Rightarrow> admission_outcome \<times> 's admission" where
  "admit_caps resv cmt failOpen rid worst nowMs [] a = (Admitted, a)"
| "admit_caps resv cmt failOpen rid worst nowMs (scope # scopes) a =
     (case admit_cap resv cmt failOpen rid worst nowMs scope a of
        (Admitted, a1) \<Rightarrow> admit_caps resv cmt failOpen rid worst nowMs scopes a1
      | (r, a1) \<Rightarrow> (r, a1))"

record BudgetRequest =
  br_requestId :: string
  br_hierarchy :: "string list"
  br_worstCase :: int
  br_requestedModel :: string
  br_pinnedByThinking :: bool
  br_cascadeModel :: "string option"
  br_attribution :: "(string, string) jsmap option"

record BudgetContext =
  bc_failOpen :: bool
  bc_downshift :: "(real \<times> string) option"
  bc_policyAllows :: "string \<Rightarrow> bool"
  bc_scopeAllows :: "string \<Rightarrow> bool"
  bc_modelCaps :: "string list"
  bc_attrCaps :: "string list"

text \<open>
  The downshift: near the cap a cheaper model replaces the requested one, if the policy and the
  key's scope allow it; \<open>reprice\<close> is the worst case of the new model on the new body, the
  cascade's share included. Signed reasoning in the history pins the requested model.
\<close>

definition downshift_model ::
  "BudgetContext \<Rightarrow> (string \<Rightarrow> int) \<Rightarrow> real \<Rightarrow> BudgetRequest \<Rightarrow> 's admission \<Rightarrow> (string \<times> int) \<times> 's admission" where
  "downshift_model ctx reprice util rq a =
     (case bc_downshift ctx of
        Some (threshold, model) \<Rightarrow>
          if threshold \<le> util \<and> br_requestedModel rq \<noteq> model then
            if br_pinnedByThinking rq
            then ((br_requestedModel rq, br_worstCase rq), emit (SubstitutionPinned model) a)
            else if bc_policyAllows ctx model \<and> bc_scopeAllows ctx model
            then ((model, reprice model), emit (Downshifted (br_requestedModel rq) model) a)
            else ((br_requestedModel rq, br_worstCase rq), a)
          else ((br_requestedModel rq, br_worstCase rq), a)
      | None \<Rightarrow> ((br_requestedModel rq, br_worstCase rq), a))"

text \<open>The scopes reserved after the hierarchy, in order.\<close>

definition cap_scopes :: "BudgetContext \<Rightarrow> BudgetRequest \<Rightarrow> string \<Rightarrow> string list" where
  "cap_scopes ctx rq requestedModel =
     (if requestedModel \<in> set (bc_modelCaps ctx) then [''model:'' @ requestedModel] else [])
     @ (case br_cascadeModel rq of
          Some m \<Rightarrow> if m \<noteq> requestedModel \<and> m \<in> set (bc_modelCaps ctx) then [''model:'' @ m] else []
        | None \<Rightarrow> [])
     @ (case br_attribution rq of
          None \<Rightarrow> []
        | Some attr \<Rightarrow>
            List.map_filter (\<lambda>key. map_option (\<lambda>v. ''attr:'' @ key @ '':'' @ v) (nonempty (jm_get attr key)))
              (bc_attrCaps ctx))"

definition admit_budget ::
  "('s, 'e) reserve_op \<Rightarrow> ('s, 'e) commit_op \<Rightarrow> BudgetContext \<Rightarrow> (string \<Rightarrow> int) \<Rightarrow> int \<Rightarrow> BudgetRequest
     \<Rightarrow> 's admission \<Rightarrow> (admission_outcome \<times> string \<times> int) \<times> 's admission" where
  "admit_budget resv cmt ctx reprice nowMs rq a =
     (let rid = br_requestId rq;
          ((r1, capped, util), a1) =
            (if 0 < br_worstCase rq
             then admit_hierarchy resv cmt (bc_failOpen ctx) rid (br_worstCase rq) nowMs (br_hierarchy rq) (False, 0) a
             else ((Admitted, False, 0), a))
      in case r1 of
           Admitted \<Rightarrow>
             (let a2 = (if capped then emit (BudgetUtilization util) a1 else a1);
                  ((model, worst), a3) = downshift_model ctx reprice util rq a2;
                  (r2, a4) =
                    (if 0 < worst
                     then admit_caps resv cmt (bc_failOpen ctx) rid worst nowMs (cap_scopes ctx rq model) a3
                     else (Admitted, a3))
              in ((r2, model, worst), a4))
         | _ \<Rightarrow> ((r1, br_requestedModel rq, br_worstCase rq), a1))"

section \<open>Settlement\<close>

text \<open>
  The commits of the teardown: a model cap is charged its own model's spend, every other scope
  the whole spend. The legs are the served one and the discarded ones of a cascade.
\<close>

definition add_spend :: "string \<Rightarrow> int \<Rightarrow> (string, int) jsmap \<Rightarrow> (string, int) jsmap" where
  "add_spend m micro spend = jm_set m ((case jm_get spend m of Some x \<Rightarrow> x | None \<Rightarrow> 0) + micro) spend"

definition per_model_spend :: "string \<Rightarrow> int \<Rightarrow> (string \<times> int) list \<Rightarrow> (string, int) jsmap" where
  "per_model_spend requestedModel cost rows =
     fold (\<lambda>(m, micro). add_spend m micro) rows (add_spend requestedModel cost [])"

definition settle_amount :: "(string, int) jsmap \<Rightarrow> int \<Rightarrow> string \<Rightarrow> int" where
  "settle_amount spend tot scope =
     (if starts_with scope ''model:''
      then (case jm_get spend (drop 6 scope) of Some x \<Rightarrow> x | None \<Rightarrow> 0)
      else tot)"

definition settle_scope ::
  "('s, 'e) commit_op \<Rightarrow> string \<Rightarrow> (string \<Rightarrow> int) \<Rightarrow> string \<Rightarrow> 's admission \<Rightarrow> 's admission" where
  "settle_scope cmt rid amount scope a0 =
     (let a = interleave a0 in
      case cmt scope rid (amount scope) (ad_store a) of
        (Inr _, s) \<Rightarrow> a\<lparr>ad_store := s\<rparr>
      | (Inl e, s) \<Rightarrow> emit (CommitFailed scope) (a\<lparr>ad_store := s\<rparr>))"

definition settle_budget ::
  "('s, 'e) commit_op \<Rightarrow> string \<Rightarrow> string \<Rightarrow> int \<Rightarrow> (string \<times> int) list \<Rightarrow> 's admission \<Rightarrow> 's admission" where
  "settle_budget cmt rid requestedModel cost rows a =
     (let tot = cost + sum_list (map snd rows); spend = per_model_spend requestedModel cost rows in
      fold (settle_scope cmt rid (settle_amount spend tot)) (ad_reserved a) a)"

section \<open>The interface of a budget store\<close>

text \<open>
  What the handler relies on: a reserve call can only add the reservation it reports as admitted,
  a commit that succeeds gives the request's reservation in that scope back, and no call invents a
  reservation. \<open>sane\<close> are the scopes whose budget has a window.
\<close>

locale budget_backend =
  fixes resv :: "('s, 'e) reserve_op"
    and cmt :: "('s, 'e) commit_op"
    and holds :: "'s \<Rightarrow> string \<Rightarrow> string \<Rightarrow> bool"
    and inv :: "'s \<Rightarrow> bool"
    and sane :: "string \<Rightarrow> bool"
  assumes resv_inv: "inv s \<Longrightarrow> 0 \<le> n \<Longrightarrow> inv (snd (resv sc rid n s))"
    and cmt_inv: "inv s \<Longrightarrow> inv (snd (cmt sc rid n s))"
    and resv_holds: "inv s \<Longrightarrow> sane sc \<Longrightarrow> 0 \<le> n \<Longrightarrow> holds (snd (resv sc rid n s)) sc' rid' \<Longrightarrow>
      holds s sc' rid' \<or>
      (sc' = sc \<and> rid' = rid \<and> (\<exists>d. fst (resv sc rid n s) = Inr (Some d) \<and> bd_allowed d))"
    and cmt_holds: "inv s \<Longrightarrow> holds (snd (cmt sc rid n s)) sc' rid' \<Longrightarrow>
      holds s sc' rid' \<and> ((sc', rid') \<noteq> (sc, rid) \<or> (\<exists>e. fst (cmt sc rid n s) = Inl e))"
begin

text \<open>Other requests keep the invariant and reserve nothing under this request's id.\<close>

definition tame :: "string \<Rightarrow> ('s \<Rightarrow> 's) \<Rightarrow> bool" where
  "tame rid f \<longleftrightarrow> (\<forall>s. inv s \<longrightarrow> inv (f s) \<and> (\<forall>sc. holds (f s) sc rid \<longrightarrow> holds s sc rid))"

definition fair :: "string \<Rightarrow> 's admission \<Rightarrow> bool" where
  "fair rid a \<longleftrightarrow> inv (ad_store a) \<and> list_all (tame rid) (ad_others a)"

text \<open>Every reservation of the request is in the handler's list, or its rollback is on record.\<close>

definition accounted :: "string \<Rightarrow> 's admission \<Rightarrow> bool" where
  "accounted rid a \<longleftrightarrow> fair rid a \<and>
     (\<forall>sc. holds (ad_store a) sc rid \<longrightarrow> sc \<in> set (ad_reserved a) \<or> RollbackFailed sc \<in> set (ad_log a))"

lemma accounted_interleave:
  assumes a: "accounted rid a"
  shows "accounted rid (interleave a)"
proof (cases "ad_others a")
  case (Cons f fs)
  have i: "inv (ad_store a)" using a by (simp add: accounted_def fair_def)
  have f: "inv (f (ad_store a))" "\<And>sc. holds (f (ad_store a)) sc rid \<Longrightarrow> holds (ad_store a) sc rid"
    using a i unfolding accounted_def fair_def Cons list.pred_inject tame_def by blast+
  have e: "interleave a = a\<lparr>ad_store := f (ad_store a), ad_others := fs\<rparr>" by (simp add: interleave_def Cons)
  have "fair rid a" using a by (simp add: accounted_def)
  then have "fair rid (interleave a)" using f(1) by (simp add: fair_def e Cons)
  moreover have "sc \<in> set (ad_reserved (interleave a)) \<or> RollbackFailed sc \<in> set (ad_log (interleave a))"
    if "holds (ad_store (interleave a)) sc rid" for sc
    using that f(2) [of sc] a by (simp add: e accounted_def)
  ultimately show ?thesis by (simp add: accounted_def)
qed (use a in \<open>simp add: interleave_def\<close>)

lemma interleave_holds:
  assumes "accounted rid a" and "holds (ad_store (interleave a)) sc rid"
  shows "holds (ad_store a) sc rid"
proof (cases "ad_others a")
  case (Cons f fs)
  then have "tame rid f" "inv (ad_store a)" using assms(1) by (simp_all add: accounted_def fair_def)
  moreover have "holds (f (ad_store a)) sc rid" using assms(2) Cons by (simp add: interleave_def)
  ultimately show ?thesis unfolding tame_def by blast
qed (use assms in \<open>simp add: interleave_def\<close>)

lemma interleave_keeps [simp]:
  "ad_reserved (interleave a) = ad_reserved a" "ad_log (interleave a) = ad_log a"
  "ad_storeDown (interleave a) = ad_storeDown a"
  by (simp_all add: interleave_def split: list.split)

lemma accounted_emit: "accounted rid a \<Longrightarrow> accounted rid (emit fx a)"
  by (auto simp: accounted_def fair_def emit_def)

lemma fair_store: "fair rid a \<Longrightarrow> inv s \<Longrightarrow> fair rid (a\<lparr>ad_store := s\<rparr>)"
  by (simp add: fair_def)

lemma fair_keeps [simp]:
  "fair rid (a\<lparr>ad_reserved := x\<rparr>) = fair rid a" "fair rid (a\<lparr>ad_log := l\<rparr>) = fair rid a"
  "fair rid (a\<lparr>ad_storeDown := b\<rparr>) = fair rid a"
  by (simp_all add: fair_def)

text \<open>A reserve leaves the reservations accounted for, once an admission is put on the list.\<close>

lemma reserveSafe_accounted:
  assumes a: "accounted rid a" and sane: "sane scope" and n: "0 \<le> worst"
    and r: "reserveSafe resv failOpen rid worst scope a = ((decision, storeError), a')"
  shows "accounted rid (push_scope scope a')"
    and "decision = None \<or> (\<exists>d. decision = Some d \<and> \<not> bd_allowed d) \<Longrightarrow> accounted rid a'"
proof -
  let ?a = "interleave a"
  let ?s = "snd (resv scope rid worst (ad_store ?a))"
  have b: "accounted rid ?a" using a by (rule accounted_interleave)
  then have i: "inv (ad_store ?a)" by (simp add: accounted_def fair_def)
  obtain q s where q: "resv scope rid worst (ad_store ?a) = (q, s)" by force
  have h: "holds s sc rid \<Longrightarrow> holds (ad_store ?a) sc rid \<or> sc = scope \<and> (\<exists>d. q = Inr (Some d) \<and> bd_allowed d)" for sc
    using resv_holds [OF i sane n, of rid sc rid] q by auto
  have f: "fair rid (?a\<lparr>ad_store := s\<rparr>)"
    using b resv_inv [OF i n, of scope rid] q by (auto simp: accounted_def intro: fair_store)
  have a': "ad_store a' = s" "ad_reserved a' = ad_reserved ?a" "set (ad_log ?a) \<subseteq> set (ad_log a')" "fair rid a'"
    using r q f by (auto simp: reserveSafe_def Let_def emit_def fair_def split: sum.splits if_splits)
  have q': "q = Inr decision \<or> (\<exists>e. q = Inl e \<and> decision = None)"
    using r q by (auto simp: reserveSafe_def Let_def split: sum.splits)
  have known: "sc \<in> set (ad_reserved a') \<or> RollbackFailed sc \<in> set (ad_log a')"
    if "holds (ad_store ?a) sc rid" for sc
    using b a'(2,3) that unfolding accounted_def by auto
  show "accounted rid (push_scope scope a')"
    using a'(4) known h unfolding accounted_def push_scope_def by (auto simp: a'(1))
  show "accounted rid a'" if "decision = None \<or> (\<exists>d. decision = Some d \<and> \<not> bd_allowed d)"
    using a'(4) known h q' that unfolding accounted_def by (auto simp: a'(1))
qed

lemma release_scope_accounted:
  assumes a: "accounted rid a"
  shows "accounted rid (release_scope cmt rid scope a)"
    and "holds (ad_store (release_scope cmt rid scope a)) sc rid \<Longrightarrow>
      sc \<noteq> scope \<or> RollbackFailed sc \<in> set (ad_log (release_scope cmt rid scope a))"
    and "ad_reserved (release_scope cmt rid scope a) = ad_reserved a"
    and "set (ad_log a) \<subseteq> set (ad_log (release_scope cmt rid scope a))"
    and "holds (ad_store (release_scope cmt rid scope a)) sc rid \<Longrightarrow> holds (ad_store (interleave a)) sc rid"
proof -
  let ?a = "interleave a"
  have b: "accounted rid ?a" using a by (rule accounted_interleave)
  then have i: "inv (ad_store ?a)" by (simp add: accounted_def fair_def)
  obtain q s where q: "cmt scope rid 0 (ad_store ?a) = (q, s)" by force
  have inv': "inv s" using cmt_inv [OF i, of scope rid 0] q by simp
  have h: "holds s sc rid \<Longrightarrow> holds (ad_store ?a) sc rid \<and> (sc \<noteq> scope \<or> (\<exists>e. q = Inl e))" for sc
    using cmt_holds [OF i, of scope rid 0 sc rid] q by auto
  have f: "fair rid (?a\<lparr>ad_store := s\<rparr>)" using b inv' by (auto simp: accounted_def intro: fair_store)
  show "accounted rid (release_scope cmt rid scope a)"
    using b h f q by (cases q) (auto simp: release_scope_def accounted_def emit_def Let_def)
  show "holds (ad_store (release_scope cmt rid scope a)) sc rid \<Longrightarrow>
      sc \<noteq> scope \<or> RollbackFailed sc \<in> set (ad_log (release_scope cmt rid scope a))"
    using h [of sc] q by (cases q) (auto simp: release_scope_def emit_def)
  show "ad_reserved (release_scope cmt rid scope a) = ad_reserved a"
    "set (ad_log a) \<subseteq> set (ad_log (release_scope cmt rid scope a))"
    using q by (auto simp: release_scope_def emit_def Let_def split: sum.split)
  show "holds (ad_store (release_scope cmt rid scope a)) sc rid \<Longrightarrow> holds (ad_store (interleave a)) sc rid"
    using h [of sc] q by (cases q) (auto simp: release_scope_def emit_def)
qed

lemma fold_release:
  assumes "accounted rid a"
  shows "accounted rid (fold (release_scope cmt rid) scs a) \<and>
    ad_reserved (fold (release_scope cmt rid) scs a) = ad_reserved a \<and>
    set (ad_log a) \<subseteq> set (ad_log (fold (release_scope cmt rid) scs a)) \<and>
    (\<forall>sc. holds (ad_store (fold (release_scope cmt rid) scs a)) sc rid \<longrightarrow>
       (sc \<in> set (ad_reserved a) \<and> sc \<notin> set scs) \<or> RollbackFailed sc \<in> set (ad_log (fold (release_scope cmt rid) scs a)))"
  using assms
proof (induction scs rule: rev_induct)
  case (snoc x scs)
  let ?b = "fold (release_scope cmt rid) scs a"
  have b: "accounted rid ?b" using snoc by blast
  note rel = release_scope_accounted [OF b, of x]
  have "(sc \<in> set (ad_reserved a) \<and> sc \<notin> set (scs @ [x])) \<or>
      RollbackFailed sc \<in> set (ad_log (release_scope cmt rid x ?b))"
    if h: "holds (ad_store (release_scope cmt rid x ?b)) sc rid" for sc
  proof -
    have "holds (ad_store (interleave ?b)) sc rid" using rel(5) [OF h] .
    then have "holds (ad_store ?b) sc rid"
      by (rule interleave_holds [OF b])
    then show ?thesis using snoc rel(2) [OF h] rel(4) by auto
  qed
  then show ?case using snoc rel(1,3,4) by auto
qed (auto simp: accounted_def)

text \<open>After a rollback only reservations whose release failed, and was reported, are left.\<close>

lemma rollback_clears:
  assumes "accounted rid a"
  shows "accounted rid (rollback cmt rid a)" and "ad_reserved (rollback cmt rid a) = []"
  using fold_release [OF assms, of "ad_reserved a"] by (auto simp: rollback_def accounted_def)

lemma reject_clears:
  assumes "accounted rid a"
  shows "accounted rid (snd (rejectBudget cmt rid worst nowMs scope d a))"
    and "ad_reserved (snd (rejectBudget cmt rid worst nowMs scope d a)) = []"
    and "accounted rid (snd (failBudgetStore cmt rid a))"
    and "ad_reserved (snd (failBudgetStore cmt rid a)) = []"
  using rollback_clears [OF assms]
  by (simp_all add: rejectBudget_def failBudgetStore_def accounted_emit) (simp_all add: emit_def)

definition settled :: "string \<Rightarrow> admission_outcome \<Rightarrow> 's admission \<Rightarrow> bool" where
  "settled rid r a \<longleftrightarrow> accounted rid a \<and> (r \<noteq> Admitted \<longrightarrow> ad_reserved a = [])"

lemma settled_admitted [simp]: "settled rid Admitted a \<longleftrightarrow> accounted rid a"
  by (simp add: settled_def)

lemma settled_reject:
  "accounted rid a \<Longrightarrow> settled rid (fst (rejectBudget cmt rid worst nowMs scope d a)) (snd (rejectBudget cmt rid worst nowMs scope d a))"
  "accounted rid a \<Longrightarrow> settled rid (fst (failBudgetStore cmt rid a)) (snd (failBudgetStore cmt rid a))"
  by (simp_all add: settled_def reject_clears)

lemma admit_cap_settled:
  assumes a: "accounted rid a" and "sane scope" and "0 \<le> worst"
  shows "settled rid (fst (admit_cap resv cmt failOpen rid worst nowMs scope a))
    (snd (admit_cap resv cmt failOpen rid worst nowMs scope a))"
proof -
  obtain decision storeError a1 where r: "reserveSafe resv failOpen rid worst scope a = ((decision, storeError), a1)"
    by (metis prod.collapse)
  have e: "storeError \<Longrightarrow> decision = None"
    using r by (auto simp: reserveSafe_def Let_def split: prod.splits sum.splits)
  note acc = reserveSafe_accounted [OF assms r]
  show ?thesis
  proof (cases decision)
    case None
    with acc(2) r show ?thesis by (simp add: admit_cap_def settled_reject)
  next
    case (Some d)
    with acc r e show ?thesis
      by (cases "bd_allowed d") (auto simp: admit_cap_def settled_reject)
  qed
qed

lemma admit_caps_settled:
  assumes "accounted rid a" and "list_all sane scopes" and "0 \<le> worst"
  shows "settled rid (fst (admit_caps resv cmt failOpen rid worst nowMs scopes a))
    (snd (admit_caps resv cmt failOpen rid worst nowMs scopes a))"
  using assms
proof (induction scopes arbitrary: a)
  case (Cons scope scopes)
  obtain r a1 where q: "admit_cap resv cmt failOpen rid worst nowMs scope a = (r, a1)" by force
  then have "settled rid r a1" using admit_cap_settled [of rid a scope worst failOpen nowMs] Cons.prems by simp
  with Cons q show ?case by (cases r) (simp_all add: settled_def)
qed (simp add: settled_def)

lemma admit_hierarchy_settled:
  assumes "accounted rid a" and "list_all sane scopes" and "0 \<le> worst"
  shows "settled rid (fst (fst (admit_hierarchy resv cmt failOpen rid worst nowMs scopes util a)))
    (snd (admit_hierarchy resv cmt failOpen rid worst nowMs scopes util a))"
  using assms
proof (induction scopes arbitrary: a util)
  case (Cons scope scopes)
  obtain decision storeError a1 where r: "reserveSafe resv failOpen rid worst scope a = ((decision, storeError), a1)"
    by (metis prod.collapse)
  have e: "storeError \<Longrightarrow> decision = None"
    using r by (auto simp: reserveSafe_def Let_def split: prod.splits sum.splits)
  have "sane scope" using Cons.prems by simp
  note acc = reserveSafe_accounted [OF Cons.prems(1) this Cons.prems(3) r]
  show ?case
  proof (cases decision)
    case None
    with acc(2) r Cons show ?thesis
      by (cases storeError; cases failOpen) (simp_all add: split_beta settled_reject)
  next
    case (Some d)
    with acc r e Cons show ?thesis
      by (cases "bd_allowed d") (auto simp: split_beta settled_reject accounted_emit)
  qed
qed (simp add: settled_def)

lemma downshift_keeps [simp]:
  "accounted rid a \<Longrightarrow> accounted rid (snd (downshift_model ctx reprice util rq a))"
  by (auto simp: downshift_model_def accounted_emit split: option.split)

lemma admit_budget_settled:
  assumes a: "accounted (br_requestId rq) a" and h: "list_all sane (br_hierarchy rq)"
    and c: "\<And>m. list_all sane (cap_scopes ctx rq m)"
  shows "settled (br_requestId rq) (fst (fst (admit_budget resv cmt ctx reprice nowMs rq a)))
    (snd (admit_budget resv cmt ctx reprice nowMs rq a))"
proof -
  let ?rid = "br_requestId rq"
  define h1 where "h1 = (if 0 < br_worstCase rq
      then admit_hierarchy resv cmt (bc_failOpen ctx) ?rid (br_worstCase rq) nowMs (br_hierarchy rq) (False, 0) a
      else ((Admitted, False, 0), a))"
  obtain r1 capped util a1 where h1': "h1 = ((r1, capped, util), a1)" by (metis prod.collapse)
  have s1: "settled ?rid r1 a1"
    using admit_hierarchy_settled [OF a h, of "br_worstCase rq" "bc_failOpen ctx" nowMs "(False, 0)"] a h1'
    by (cases "0 < br_worstCase rq") (auto simp: h1_def)
  show ?thesis
  proof (cases r1)
    case Admitted
    define a2 where "a2 = (if capped then emit (BudgetUtilization util) a1 else a1)"
    obtain model worst a3 where d: "downshift_model ctx reprice util rq a2 = ((model, worst), a3)"
      by (metis prod.collapse)
    have "accounted ?rid a2" using s1 Admitted by (simp add: a2_def accounted_emit)
    then have a3: "accounted ?rid a3" using downshift_keeps [of ?rid a2 ctx reprice util rq] d by simp
    have e: "admit_budget resv cmt ctx reprice nowMs rq a =
        (let (r2, a4) = (if 0 < worst then admit_caps resv cmt (bc_failOpen ctx) ?rid worst nowMs (cap_scopes ctx rq model) a3
                         else (Admitted, a3)) in ((r2, model, worst), a4))"
      unfolding admit_budget_def Let_def h1_def [symmetric] h1' by (simp add: Admitted d a2_def [symmetric])
    show ?thesis
      unfolding e using admit_caps_settled [OF a3 c, of worst "bc_failOpen ctx" nowMs model] a3
      by (simp add: split_beta)
  qed (use s1 in \<open>simp_all add: admit_budget_def Let_def h1_def [symmetric] h1'\<close>)
qed

text \<open>The commits of the teardown release what the request still holds.\<close>

lemma settle_scope_facts:
  assumes a: "accounted rid a"
  shows "fair rid (settle_scope cmt rid am scope a)"
    and "ad_reserved (settle_scope cmt rid am scope a) = ad_reserved a"
    and "set (ad_log a) \<subseteq> set (ad_log (settle_scope cmt rid am scope a))"
    and "holds (ad_store (settle_scope cmt rid am scope a)) sc rid \<Longrightarrow>
      holds (ad_store a) sc rid \<and> (sc \<noteq> scope \<or> CommitFailed sc \<in> set (ad_log (settle_scope cmt rid am scope a)))"
proof -
  let ?a = "interleave a"
  have b: "accounted rid ?a" using a by (rule accounted_interleave)
  then have i: "inv (ad_store ?a)" by (simp add: accounted_def fair_def)
  obtain q s where q: "cmt scope rid (am scope) (ad_store ?a) = (q, s)" by force
  have inv': "inv s" using cmt_inv [OF i, of scope rid "am scope"] q by simp
  have "fair rid (?a\<lparr>ad_store := s\<rparr>)" using b inv' by (auto simp: accounted_def intro: fair_store)
  then show "fair rid (settle_scope cmt rid am scope a)"
    using q by (cases q) (simp_all add: settle_scope_def emit_def)
  show "ad_reserved (settle_scope cmt rid am scope a) = ad_reserved a"
    "set (ad_log a) \<subseteq> set (ad_log (settle_scope cmt rid am scope a))"
    using q by (auto simp: settle_scope_def emit_def Let_def split: sum.split)
  assume h: "holds (ad_store (settle_scope cmt rid am scope a)) sc rid"
  then have "holds s sc rid" using q by (cases q) (simp_all add: settle_scope_def emit_def)
  then have "holds (ad_store ?a) sc rid \<and> (sc \<noteq> scope \<or> (\<exists>e. q = Inl e))"
    using cmt_holds [OF i, of scope rid "am scope" sc rid] q by auto
  then show "holds (ad_store a) sc rid \<and> (sc \<noteq> scope \<or> CommitFailed sc \<in> set (ad_log (settle_scope cmt rid am scope a)))"
    using interleave_holds [OF a] q by (cases q) (auto simp: settle_scope_def emit_def)
qed

lemma accounted_settle:
  assumes a: "accounted rid a"
  shows "accounted rid (settle_scope cmt rid am scope a)"
proof -
  let ?b = "settle_scope cmt rid am scope a"
  note f = settle_scope_facts [OF a, of am scope]
  have "sc \<in> set (ad_reserved ?b) \<or> RollbackFailed sc \<in> set (ad_log ?b)" if "holds (ad_store ?b) sc rid" for sc
  proof -
    have "holds (ad_store a) sc rid" using f(4) [OF that] by simp
    then have "sc \<in> set (ad_reserved a) \<or> RollbackFailed sc \<in> set (ad_log a)" using a by (simp add: accounted_def)
    then show ?thesis using f(2,3) by auto
  qed
  then show ?thesis using f(1) by (simp add: accounted_def)
qed

lemma fold_settle:
  assumes "accounted rid a"
  shows "accounted rid (fold (settle_scope cmt rid am) scs a) \<and>
    ad_reserved (fold (settle_scope cmt rid am) scs a) = ad_reserved a \<and>
    set (ad_log a) \<subseteq> set (ad_log (fold (settle_scope cmt rid am) scs a)) \<and>
    (\<forall>sc. holds (ad_store (fold (settle_scope cmt rid am) scs a)) sc rid \<longrightarrow>
       holds (ad_store a) sc rid \<and>
       (sc \<notin> set scs \<or> CommitFailed sc \<in> set (ad_log (fold (settle_scope cmt rid am) scs a))))"
  using assms
proof (induction scs rule: rev_induct)
  case (snoc x scs)
  let ?b = "fold (settle_scope cmt rid am) scs a"
  have b: "accounted rid ?b" using snoc by blast
  note f = settle_scope_facts [OF b, of am x]
  show ?case using snoc accounted_settle [OF b, of am x] f by auto
qed simp

lemma settle_budget_clears:
  assumes "accounted rid a" and "holds (ad_store (settle_budget cmt rid m cost rows a)) sc rid"
  shows "RollbackFailed sc \<in> set (ad_log (settle_budget cmt rid m cost rows a)) \<or>
    CommitFailed sc \<in> set (ad_log (settle_budget cmt rid m cost rows a))"
  using fold_settle [OF assms(1), of "settle_amount (per_model_spend m cost rows) (cost + sum_list (map snd rows))"
      "ad_reserved a"] assms
  unfolding settle_budget_def Let_def accounted_def by blast

end

text \<open>
  A backend in a \<open>calm\<close> state lets every commit through and keeps calm, reserves in a \<open>windowed\<close> scope included; then no failed release is reported.
\<close>

locale calm_backend = budget_backend +
  fixes calm :: "'a \<Rightarrow> bool"
    and windowed :: "string \<Rightarrow> bool"
  assumes cmt_ok: "calm s \<Longrightarrow> fst (cmt sc rid n s) = Inr ()"
    and cmt_calm: "calm s \<Longrightarrow> calm (snd (cmt sc rid n s))"
    and resv_calm: "calm s \<Longrightarrow> windowed sc \<Longrightarrow> calm (snd (resv sc rid n s))"
begin

definition clean :: "'a admission \<Rightarrow> bool" where
  "clean a \<longleftrightarrow> calm (ad_store a) \<and> (\<forall>f \<in> set (ad_others a). \<forall>s. calm s \<longrightarrow> calm (f s)) \<and>
     (\<forall>sc. RollbackFailed sc \<notin> set (ad_log a) \<and> CommitFailed sc \<notin> set (ad_log a))"

lemma cmt_cases: 
  assumes "calm s"
  obtains s' where "cmt sc rid n s = (Inr (), s')" and "calm s'"
  using cmt_ok [OF assms, of sc rid n] cmt_calm [OF assms, of sc rid n] by (metis prod.collapse)

lemma clean_interleave: "clean a \<Longrightarrow> clean (interleave a)"
  by (simp add: clean_def interleave_def split: list.split)

lemma clean_calm: "clean a \<Longrightarrow> calm (ad_store a)"
  by (simp add: clean_def)

lemma clean_push [simp]: "clean (push_scope sc a) \<longleftrightarrow> clean a"
  by (simp add: clean_def push_scope_def)

lemma clean_store: "clean a \<Longrightarrow> calm s \<Longrightarrow> clean (a\<lparr>ad_store := s\<rparr>)"
  by (simp add: clean_def)

lemma clean_emit [simp]:
  "clean (emit fx a) \<longleftrightarrow> clean a \<and> (\<forall>sc. fx \<noteq> RollbackFailed sc \<and> fx \<noteq> CommitFailed sc)"
  by (auto simp: clean_def emit_def)

lemma clean_reserveSafe:
  assumes "clean a" and "windowed scope"
  shows "clean (snd (reserveSafe resv failOpen rid worst scope a))"
proof -
  let ?a = "interleave a"
  obtain q s where q: "resv scope rid worst (ad_store ?a) = (q, s)" by force
  have a: "clean ?a" by (rule clean_interleave [OF assms(1)])
  have "calm s" using resv_calm [OF clean_calm [OF a] assms(2), of rid worst] q by simp
  then have "clean (?a\<lparr>ad_store := s\<rparr>)" by (rule clean_store [OF a])
  moreover have "clean (?a\<lparr>ad_store := s, ad_storeDown := True\<rparr>)" using calculation by (simp add: clean_def)
  ultimately show ?thesis using q by (cases q) (simp_all add: reserveSafe_def Let_def)
qed

lemma clean_release: "clean a \<Longrightarrow> clean (release_scope cmt rid scope a)"
  by (rule cmt_cases [OF clean_calm [OF clean_interleave], of a scope rid 0]) (simp_all add: release_scope_def clean_store clean_interleave)

lemma clean_settle_scope: "clean a \<Longrightarrow> clean (settle_scope cmt rid am scope a)"
  by (rule cmt_cases [OF clean_calm [OF clean_interleave], of a scope rid "am scope"]) (simp_all add: settle_scope_def clean_store clean_interleave)

lemma clean_fold: "(\<And>x b. clean b \<Longrightarrow> clean (f x b)) \<Longrightarrow> clean a \<Longrightarrow> clean (fold f xs a)"
  by (induction xs arbitrary: a) simp_all

lemma clean_rollback: "clean a \<Longrightarrow> clean (rollback cmt rid a)"
proof -
  assume "clean a"
  then have "clean (fold (release_scope cmt rid) (ad_reserved a) a)" by (intro clean_fold clean_release)
  then show ?thesis unfolding rollback_def clean_def by simp
qed

lemma clean_reject:
  "clean a \<Longrightarrow> clean (snd (rejectBudget cmt rid worst nowMs scope d a))"
  "clean a \<Longrightarrow> clean (snd (failBudgetStore cmt rid a))"
  by (simp_all add: rejectBudget_def failBudgetStore_def clean_rollback)

lemma clean_admit_cap:
  assumes "clean a" and "windowed scope"
  shows "clean (snd (admit_cap resv cmt failOpen rid worst nowMs scope a))"
  using clean_reserveSafe [OF assms, of failOpen rid worst]
  by (auto simp: admit_cap_def Let_def clean_reject split: prod.splits option.split)

lemma clean_admit_caps:
  "clean a \<Longrightarrow> list_all windowed scopes \<Longrightarrow> clean (snd (admit_caps resv cmt failOpen rid worst nowMs scopes a))"
proof (induction scopes arbitrary: a)
  case (Cons scope scopes)
  obtain r a1 where q: "admit_cap resv cmt failOpen rid worst nowMs scope a = (r, a1)" by force
  then have "clean a1" using clean_admit_cap [OF Cons.prems(1), of scope failOpen rid worst nowMs] Cons.prems(2) by simp
  with Cons q show ?case by (cases r) simp_all
qed simp

lemma clean_admit_hierarchy:
  "clean a \<Longrightarrow> list_all windowed scopes \<Longrightarrow> clean (snd (admit_hierarchy resv cmt failOpen rid worst nowMs scopes util a))"
proof (induction scopes arbitrary: a util)
  case (Cons scope scopes)
  obtain decision storeError a1 where r: "reserveSafe resv failOpen rid worst scope a = ((decision, storeError), a1)"
    by (metis prod.collapse)
  have a1: "clean a1" using clean_reserveSafe [OF Cons.prems(1), of scope failOpen rid worst] Cons.prems(2) r by simp
  show ?case
  proof (cases decision)
    case None
    with a1 r Cons show ?thesis by (cases storeError) (simp_all add: split_beta clean_reject)
  next
    case (Some d)
    with a1 r Cons show ?thesis
      by (cases storeError; cases "bd_allowed d") (simp_all add: split_beta clean_reject)
  qed
qed simp

lemma clean_admit_budget:
  assumes a: "clean a" and h: "list_all windowed (br_hierarchy rq)" and c: "\<And>m. list_all windowed (cap_scopes ctx rq m)"
  shows "clean (snd (admit_budget resv cmt ctx reprice nowMs rq a))"
proof -
  have d: "clean b \<Longrightarrow> clean (snd (downshift_model ctx reprice util rq b))" for b :: "'a admission" and util
    by (auto simp: downshift_model_def split: option.split)
  let ?h = "if 0 < br_worstCase rq
      then admit_hierarchy resv cmt (bc_failOpen ctx) (br_requestId rq) (br_worstCase rq) nowMs (br_hierarchy rq) (False, 0) a
      else ((Admitted, False, 0), a)"
  obtain r1 capped util a1 where h1: "?h = ((r1, capped, util), a1)" by (metis prod.collapse)
  have "clean (snd ?h)" using clean_admit_hierarchy [OF a h] a by simp
  then have a1: "clean a1" by (simp only: h1 snd_conv)
  show ?thesis
  proof (cases r1)
    case Admitted
    define a2 where "a2 = (if capped then emit (BudgetUtilization util) a1 else a1)"
    obtain model worst a3 where d3: "downshift_model ctx reprice util rq a2 = ((model, worst), a3)"
      by (metis prod.collapse)
    have "clean a2" using a1 by (simp add: a2_def)
    then have a3: "clean a3" using d [of a2 util] d3 by simp
    have e: "admit_budget resv cmt ctx reprice nowMs rq a =
        (let (r2, a4) = (if 0 < worst then admit_caps resv cmt (bc_failOpen ctx) (br_requestId rq) worst nowMs (cap_scopes ctx rq model) a3
                         else (Admitted, a3)) in ((r2, model, worst), a4))"
      unfolding admit_budget_def Let_def h1 by (simp add: Admitted d3 a2_def [symmetric])
    show ?thesis unfolding e using clean_admit_caps [OF a3 c, of "bc_failOpen ctx" "br_requestId rq" worst nowMs model] a3
      by (simp add: split_beta)
  qed (use a1 in \<open>simp_all add: admit_budget_def Let_def h1\<close>)
qed

lemma clean_settle_budget: "clean a \<Longrightarrow> clean (settle_budget cmt rid m cost rows a)"
  unfolding settle_budget_def Let_def by (intro clean_fold clean_settle_scope)

text \<open>The life of a request: nothing is held after a rejection, and nothing after the teardown.\<close>

lemma request_leaves_nothing:
  assumes "accounted (br_requestId rq) a" and "clean a" and "list_all sane (br_hierarchy rq)"
    and "\<And>m. list_all sane (cap_scopes ctx rq m)" and "list_all windowed (br_hierarchy rq)" and "\<And>m. list_all windowed (cap_scopes ctx rq m)"
    and "admit_budget resv cmt ctx reprice nowMs rq a = ((r, model, worst), a')"
  shows "r \<noteq> Admitted \<Longrightarrow> \<not> holds (ad_store a') sc (br_requestId rq)"
    and "\<not> holds (ad_store (settle_budget cmt (br_requestId rq) m cost rows a')) sc (br_requestId rq)"
    and "calm (ad_store a')" and "calm (ad_store (settle_budget cmt (br_requestId rq) m cost rows a'))"
proof -
  have s: "settled (br_requestId rq) r a'" and c: "clean a'"
    using admit_budget_settled [OF assms(1,3,4), of reprice nowMs] clean_admit_budget [OF assms(2,5,6), of reprice nowMs]
      assms(7) by simp_all
  show "\<not> holds (ad_store a') sc (br_requestId rq)" if "r \<noteq> Admitted"
    using s c that by (auto simp: settled_def accounted_def clean_def)
  show "\<not> holds (ad_store (settle_budget cmt (br_requestId rq) m cost rows a')) sc (br_requestId rq)"
    using settle_budget_clears [of "br_requestId rq" a' m cost rows sc] s
      clean_settle_budget [OF c, of "br_requestId rq" m cost rows]
    by (auto simp: settled_def clean_def)
  show "calm (ad_store a')" "calm (ad_store (settle_budget cmt (br_requestId rq) m cost rows a'))"
    using clean_calm c clean_settle_budget by blast+
qed

end

section \<open>The in-memory store as a backend\<close>

text \<open>
  The store and the clock its calls read; the clock may be moved by what runs between the calls.
\<close>

type_synonym clocked = "BudgetStore \<times> int"

definition mem_reserve :: "cap_for \<Rightarrow> int \<Rightarrow> (clocked, budget_error) reserve_op" where
  "mem_reserve capFor life scope rid worst st =
     (let (r, s) = reserve capFor life (snd st) scope rid worst (fst st) in (r, (s, snd st)))"

definition mem_commit :: "cap_for \<Rightarrow> (clocked, budget_error) commit_op" where
  "mem_commit capFor scope rid actual st = (Inr (), (commit capFor (snd st) scope rid actual (fst st), snd st))"

definition mem_holds :: "clocked \<Rightarrow> string \<Rightarrow> string \<Rightarrow> bool" where
  "mem_holds st scope rid \<longleftrightarrow> jm_get (c_reserved (scope_counters (fst st) scope)) rid \<noteq> None"

definition has_window :: "cap_for \<Rightarrow> string \<Rightarrow> bool" where
  "has_window capFor scope = (case capFor scope of None \<Rightarrow> True | Some b \<Rightarrow> bs_windows (normalizeBudget b) \<noteq> [])"

lemma sweep_get: "jm_get (fst (sweep t rs tot)) rid \<noteq> None \<Longrightarrow> jm_get rs rid \<noteq> None"
  by (induction t rs tot rule: sweep.induct) (auto simp: split_beta split: if_splits)

lemma swept_get:
  assumes "store_ok s" and "jm_get (c_reserved (swept capFor t scope spec s)) rid \<noteq> None"
  shows "jm_get (c_reserved (scope_counters s scope)) rid \<noteq> None"
proof -
  have "jm_get (c_reserved (scope_counters (prune capFor t s) scope)) rid \<noteq> None"
    using assms(2) sweep_get by (fastforce simp: swept_def sweep_expired_def dropStaleWindows_def split_beta Let_def)
  then show ?thesis
    using scope_counters_prune [of s capFor t scope] assms(1)
    by (auto simp: store_ok_def empty_counters_def dropStaleWindows_def Let_def)
qed

lemma prune_get:
  assumes "store_ok s" and "jm_get (c_reserved (scope_counters (prune capFor t s) scope)) rid \<noteq> None"
  shows "jm_get (c_reserved (scope_counters s scope)) rid \<noteq> None"
  using scope_counters_prune [of s capFor t scope] assms
  by (auto simp: store_ok_def empty_counters_def dropStaleWindows_def Let_def)

lemma mem_reserve_holds:
  assumes ok: "store_ok (fst s)" and held: "mem_holds (snd (mem_reserve capFor life sc rid n s)) sc' rid'"
  shows "mem_holds s sc' rid' \<or> sc' = sc \<and> rid' = rid \<and>
      ((\<exists>d. fst (mem_reserve capFor life sc rid n s) = Inr (Some d) \<and> bd_allowed d) \<or>
       \<not> has_window capFor sc \<and> (\<exists>e. fst (mem_reserve capFor life sc rid n s) = Inl e))"
proof (cases "capFor sc")
  case None
  then show ?thesis using held by (simp add: mem_reserve_def mem_holds_def reserve_def)
next
  case (Some b)
  let ?spec = "normalizeBudget b"
  let ?r = "admit_windows (snd s) n (bs_windows ?spec) None (swept capFor (snd s) sc ?spec (fst s))"
  note u = reserve_unfold [of capFor, OF Some, of life "snd s" rid n "fst s"]
  have ne: "fst ?r \<noteq> Inr None" if "has_window capFor sc" using that Some by (intro admit_binding) (simp add: has_window_def)
  note g = swept_get [OF ok, of capFor "snd s" sc ?spec rid'] prune_get [OF ok, of capFor "snd s" sc' rid']
  show ?thesis
  proof (cases "fst ?r")
    case (Inl d)
    then show ?thesis
      using held g by (auto simp: mem_reserve_def mem_holds_def u scope_counters_put scope_counters_counter split: if_splits)
  next
    case (Inr bd)
    show ?thesis
    proof (cases bd)
      case None
      with Inr ne have "\<not> has_window capFor sc" by blast
      with Inr None held g show ?thesis
        by (auto simp: mem_reserve_def mem_holds_def u scope_counters_put scope_counters_counter jm_get_set split: if_splits)
    next
      case (Some wu)
      then obtain w used where "bd = Some (w, used)" by (cases wu) auto
      with Inr held g show ?thesis
        by (auto simp: mem_reserve_def mem_holds_def u scope_counters_put scope_counters_counter jm_get_set split: if_splits)
    qed
  qed
qed

lemma mem_reserve_answers:
  assumes "has_window capFor sc"
  shows "\<exists>d. fst (mem_reserve capFor life sc rid n s) = Inr d"
proof (cases "capFor sc")
  case (Some b)
  let ?r = "admit_windows (snd s) n (bs_windows (normalizeBudget b)) None (swept capFor (snd s) sc (normalizeBudget b) (fst s))"
  have "fst ?r \<noteq> Inr None" using assms Some by (intro admit_binding) (simp add: has_window_def)
  then show ?thesis
    by (auto simp: mem_reserve_def reserve_unfold [of capFor, OF Some] split: sum.split option.split)
qed (simp add: mem_reserve_def reserve_def)

lemma mem_reserve_ok: "store_ok (fst s) \<Longrightarrow> 0 \<le> n \<Longrightarrow> store_ok (fst (snd (mem_reserve capFor life sc rid n s)))"
  by (simp add: mem_reserve_def split_beta reserve_store_ok)

lemma mem_commit_ok: "store_ok (fst s) \<Longrightarrow> store_ok (fst (snd (mem_commit capFor sc rid n s)))"
  by (simp add: mem_commit_def commit_store_ok)

lemma mem_commit_holds:
  "mem_holds (snd (mem_commit capFor sc rid n s)) sc' rid' \<Longrightarrow> mem_holds s sc' rid' \<and> (sc', rid') \<noteq> (sc, rid)"
  by (auto simp: mem_commit_def mem_holds_def commit_unfold scope_counters_put scope_counters_counter
      release_def jm_get_delete split: if_splits option.splits)

section \<open>A store that fails\<close>

text \<open>
  The calls of the store as a network loses them: a call is answered, or it fails before it reaches the store, or it takes effect and its answer is lost. The
  schedules say which of the coming calls does which, and \<open>fl_lost\<close> records the reservations that were booked by a call that failed; a budget without a
  window fails in this way too, since \<^verbatim>\<open>reserve\<close> throws after it has booked.
\<close>

datatype fault = Answered | Unreached | AnswerLost

record flaky =
  fl_store :: clocked
  fl_reserves :: "fault list"
  fl_commits :: "fault list"
  fl_lost :: "(string \<times> string) list"

definition next_fault :: "fault list \<Rightarrow> fault" where
  "next_fault fs = (case fs of [] \<Rightarrow> Answered | f # _ \<Rightarrow> f)"

definition flaky_reserve :: "cap_for \<Rightarrow> int \<Rightarrow> (flaky, budget_error option) reserve_op" where
  "flaky_reserve capFor life scope rid worst st0 =
     (let st = st0\<lparr>fl_reserves := tl (fl_reserves st0)\<rparr>; (r, s) = mem_reserve capFor life scope rid worst (fl_store st);
          booked = st\<lparr>fl_store := s, fl_lost := (scope, rid) # fl_lost st\<rparr> in
      case next_fault (fl_reserves st0) of
        Answered \<Rightarrow> (case r of Inr d \<Rightarrow> (Inr d, st\<lparr>fl_store := s\<rparr>) | Inl e \<Rightarrow> (Inl (Some e), booked))
      | Unreached \<Rightarrow> (Inl None, st)
      | AnswerLost \<Rightarrow> (Inl None, booked))"

definition flaky_commit :: "cap_for \<Rightarrow> (flaky, budget_error option) commit_op" where
  "flaky_commit capFor scope rid actual st0 =
     (let st = st0\<lparr>fl_commits := tl (fl_commits st0)\<rparr>; s = snd (mem_commit capFor scope rid actual (fl_store st)) in
      case next_fault (fl_commits st0) of
        Answered \<Rightarrow> (Inr (), st\<lparr>fl_store := s\<rparr>)
      | Unreached \<Rightarrow> (Inl None, st)
      | AnswerLost \<Rightarrow> (Inl None, st\<lparr>fl_store := s\<rparr>))"

text \<open>A reservation the handler can know of.\<close>

definition flaky_holds :: "flaky \<Rightarrow> string \<Rightarrow> string \<Rightarrow> bool" where
  "flaky_holds st scope rid \<longleftrightarrow> mem_holds (fl_store st) scope rid \<and> (scope, rid) \<notin> set (fl_lost st)"

definition flaky_calm :: "flaky \<Rightarrow> bool" where
  "flaky_calm st \<longleftrightarrow> list_all (\<lambda>f. f = Answered) (fl_commits st) \<and> list_all (\<lambda>f. f \<noteq> AnswerLost) (fl_reserves st) \<and> fl_lost st = []"

lemma next_fault_tl: "list_all P fs \<Longrightarrow> P Answered \<Longrightarrow> P (next_fault fs) \<and> list_all P (tl fs)"
  by (cases fs) (simp_all add: next_fault_def)

interpretation flaky_budget: budget_backend "flaky_reserve capFor life" "flaky_commit capFor" flaky_holds
  "\<lambda>st. store_ok (fst (fl_store st))" "\<lambda>scope. True" for capFor life
proof
  fix s :: flaky and sc rid sc' rid' :: string and n :: int
  show "store_ok (fst (fl_store s)) \<Longrightarrow> 0 \<le> n \<Longrightarrow> store_ok (fst (fl_store (snd (flaky_reserve capFor life sc rid n s))))"
    using mem_reserve_ok [of "fl_store s" n capFor life sc rid]
    by (auto simp: flaky_reserve_def Let_def split_beta split: fault.split sum.split)
  show "store_ok (fst (fl_store s)) \<Longrightarrow> store_ok (fst (fl_store (snd (flaky_commit capFor sc rid n s))))"
    by (auto simp: flaky_commit_def Let_def mem_commit_ok split: fault.split)
  assume ok: "store_ok (fst (fl_store s))"
  show "flaky_holds s sc' rid' \<or> sc' = sc \<and> rid' = rid \<and>
      (\<exists>d. fst (flaky_reserve capFor life sc rid n s) = Inr (Some d) \<and> bd_allowed d)"
    if "flaky_holds (snd (flaky_reserve capFor life sc rid n s)) sc' rid'"
    using that mem_reserve_holds [OF ok, of capFor life sc rid n sc' rid']
    by (auto simp: flaky_reserve_def flaky_holds_def Let_def split_beta split: fault.splits sum.splits)
  show "flaky_holds s sc' rid' \<and> ((sc', rid') \<noteq> (sc, rid) \<or> (\<exists>e. fst (flaky_commit capFor sc rid n s) = Inl e))"
    if "flaky_holds (snd (flaky_commit capFor sc rid n s)) sc' rid'"
    using that mem_commit_holds [of capFor sc rid n "fl_store s" sc' rid']
    by (auto simp: flaky_commit_def flaky_holds_def Let_def split: fault.splits)
qed

interpretation flaky_budget_calm: calm_backend "flaky_reserve capFor life" "flaky_commit capFor" flaky_holds
  "\<lambda>st. store_ok (fst (fl_store st))" "\<lambda>scope. True" flaky_calm "has_window capFor" for capFor life
proof
  fix s :: flaky and sc rid :: string and n :: int
  assume calm: "flaky_calm s"
  have c: "next_fault (fl_commits s) = Answered" "list_all (\<lambda>f. f = Answered) (tl (fl_commits s))"
    and r: "next_fault (fl_reserves s) \<noteq> AnswerLost" "list_all (\<lambda>f. f \<noteq> AnswerLost) (tl (fl_reserves s))"
    using calm next_fault_tl [of "\<lambda>f. f = Answered" "fl_commits s"] next_fault_tl [of "\<lambda>f. f \<noteq> AnswerLost" "fl_reserves s"]
    by (simp_all add: flaky_calm_def)
  show "fst (flaky_commit capFor sc rid n s) = Inr ()" using c by (simp add: flaky_commit_def Let_def)
  show "flaky_calm (snd (flaky_commit capFor sc rid n s))" using c calm by (simp add: flaky_commit_def Let_def flaky_calm_def)
  show "flaky_calm (snd (flaky_reserve capFor life sc rid n s))" if "has_window capFor sc"
    using calm r mem_reserve_answers [OF that, of life rid n "fl_store s"]
    by (auto simp: flaky_reserve_def flaky_calm_def Let_def split_beta split: fault.splits sum.splits)
qed

section \<open>Properties\<close>

text \<open>Other requests work on the store between the calls and see none of the schedules.\<close>

definition start_admission :: "BudgetStore \<Rightarrow> int \<Rightarrow> fault list \<Rightarrow> fault list \<Rightarrow> (clocked \<Rightarrow> clocked) list \<Rightarrow> flaky admission" where
  "start_admission s t reserves commits others =
     \<lparr>ad_store = \<lparr>fl_store = (s, t), fl_reserves = reserves, fl_commits = commits, fl_lost = []\<rparr>,
      ad_others = map (\<lambda>f st. st\<lparr>fl_store := f (fl_store st)\<rparr>) others, ad_reserved = [], ad_storeDown = False, ad_log = []\<rparr>"


definition sample_request :: BudgetRequest where
  "sample_request = \<lparr>br_requestId = ''r1'', br_hierarchy = [''ws1''], br_worstCase = 60, br_requestedModel = ''m'',
     br_pinnedByThinking = False, br_cascadeModel = None, br_attribution = None\<rparr>"

definition sample_context :: BudgetContext where
  "sample_context = \<lparr>bc_failOpen = False, bc_downshift = None, bc_policyAllows = (\<lambda>m. True), bc_scopeAllows = (\<lambda>m. True),
     bc_modelCaps = [], bc_attrCaps = []\<rparr>"

lemma sample_admission_fails:
  "\<exists>model worst a. admit_budget (flaky_reserve sample_caps 600000) (flaky_commit sample_caps) sample_context (\<lambda>m. 0) 9 sample_request
     (start_admission empty_store 5 [Unreached] [] []) = ((Replied503, model, worst), a)"
  by (simp add: admit_budget_def sample_request_def sample_context_def reserveSafe_def interleave_def start_admission_def flaky_reserve_def next_fault_def
      failBudgetStore_def emit_def Let_def split_beta)


lemma team_scopes_distinct:
  "distinct (team_scopes ws seen gs) \<and>
   (\<forall>s \<in> set (team_scopes ws seen gs). \<exists>g. g \<notin> set seen \<and> s = ''team:'' @ ws @ '':'' @ g) \<and>
   length (team_scopes ws seen gs) + length seen \<le> max MAX_TEAM_BUDGET_SCOPES (length seen)"
  by (induction ws seen gs rule: team_scopes.induct) (auto simp: budgetScope_def max_def split: if_splits)

text \<open>
  The scopes of a request are pairwise different when its workspace id carries no colon, so
  one request never reserves twice in one scope, and at most sixteen of them are teams.
\<close>

theorem hierarchy_scopes_distinct:
  assumes "CHR '':'' \<notin> set (s_workspaceId (p_scope pr))"
  shows "distinct (hierarchyBudgetScopes pr endUser attribution kinds) \<and>
    length (hierarchyBudgetScopes pr endUser attribution kinds) \<le> 5 + MAX_TEAM_BUDGET_SCOPES"
proof -
  let ?ws = "s_workspaceId (p_scope pr)"
  have ws: "?ws \<noteq> x @ '':'' @ y" for x y using assms by auto
  note t = team_scopes_distinct [of ?ws "[]" "scopeGroups (p_scope pr)"]
  show ?thesis
    using t ws [of "''org''"] ws [of "''key''"] ws [of "''user''"] ws [of "''team''"] ws [of "''project''"]
    unfolding hierarchyBudgetScopes_def Let_def
    by (fastforce simp: budgetScope_def split: option.split)
qed

theorem hierarchy_scopes_distinct_witness:
  "distinct (hierarchyBudgetScopes (key_principal sample_key) None None DEFAULT_BUDGET_SCOPE_KINDS)"
  using hierarchy_scopes_distinct [of "key_principal sample_key" None None DEFAULT_BUDGET_SCOPE_KINDS]
  by (simp add: key_principal_def sample_key_def)

end
