(* ===== verification/Rate_Limit.thy ===== *)
theory Rate_Limit
  imports Gulley_Prelude
begin

text \<open>
  Rate limiting of \<^verbatim>\<open>src/packages/ratelimit/src\<close>: \<^verbatim>\<open>types.ts\<close>, \<^verbatim>\<open>util.ts\<close>, \<^verbatim>\<open>memory.ts\<close>,
  \<^verbatim>\<open>limiter.ts\<close> and \<^verbatim>\<open>headers.ts\<close>. The in-memory store is the map of its counters; the counter objects a
  reserve holds on to are named by their keys, which is the same as long as no live counter is swept
  (windows of positive length). The limiter is a client of any store, the locale \<open>rate_store\<close>.
\<close>

section \<open>Definitions\<close>

datatype RateLimitUnit = Requests | Tokens

record RateLimit =
  rl_id :: string
  rl_limit :: int
  rl_windowSeconds :: int
  rl_unit :: RateLimitUnit

record RuleDecision =
  rd_rule :: RateLimit
  rd_allowed :: bool
  rd_used :: int
  rd_remaining :: int
  rd_resetSeconds :: int

record RateLimitOutcome =
  ro_allowed :: bool
  ro_decisions :: "RuleDecision list"
  ro_limiting :: "RuleDecision option"
  ro_retryAfterSeconds :: "int option"
  ro_degraded :: bool

definition windowFor :: "int \<Rightarrow> int \<Rightarrow> int \<times> int" where
  "windowFor nowMs windowSeconds =
     (let w = windowSeconds * 1000; start = nowMs div w * w in (start, start + w))"

definition resetSecondsUntil :: "int \<Rightarrow> int \<Rightarrow> int" where
  "resetSecondsUntil nowMs resetMs = max 0 (ceil_div (resetMs - nowMs) 1000)"

definition least_headroom :: "RuleDecision option \<Rightarrow> RuleDecision \<Rightarrow> RuleDecision option" where
  "least_headroom limiting d =
     (case limiting of None \<Rightarrow> Some d | Some l \<Rightarrow> if rd_remaining d < rd_remaining l then Some d else Some l)"

definition finalizeOutcome :: "RuleDecision list \<Rightarrow> RateLimitOutcome" where
  "finalizeOutcome decisions =
     (let allowed = list_all rd_allowed decisions;
          limiting = (if \<not> allowed then find (\<lambda>d. \<not> rd_allowed d) decisions
                      else foldl least_headroom None decisions)
      in \<lparr>ro_allowed = allowed, ro_decisions = decisions, ro_limiting = limiting,
          ro_retryAfterSeconds = (if allowed then None else map_option rd_resetSeconds limiting),
          ro_degraded = False\<rparr>)"

record Counter =
  rc_count :: int
  rc_resetMs :: int

type_synonym rate_cells = "(string, Counter) jsmap"

definition cell_key :: "string \<Rightarrow> RateLimit \<Rightarrow> int \<Rightarrow> string" where
  "cell_key scope rule start = scope @ ''|'' @ rl_id rule @ ''|'' @ show_int start"

definition sweep_cells :: "int \<Rightarrow> rate_cells \<Rightarrow> rate_cells" where
  "sweep_cells nowMs m = (if length m < 1024 then m else filter (\<lambda>(k, v). \<not> rc_resetMs v \<le> nowMs) m)"

definition cell :: "string \<Rightarrow> RateLimit \<Rightarrow> int \<Rightarrow> rate_cells \<Rightarrow> string \<times> rate_cells" where
  "cell scope rule nowMs m =
     (let (start, resetMs) = windowFor nowMs (rl_windowSeconds rule); key = cell_key scope rule start in
      case jm_get m key of
        Some c \<Rightarrow>
          if rc_resetMs c \<le> nowMs
          then (key, sweep_cells nowMs (jm_set key \<lparr>rc_count = 0, rc_resetMs = resetMs\<rparr> m))
          else (key, m)
      | None \<Rightarrow> (key, sweep_cells nowMs (jm_set key \<lparr>rc_count = 0, rc_resetMs = resetMs\<rparr> m)))"

fun cells_for :: "string \<Rightarrow> RateLimit list \<Rightarrow> int \<Rightarrow> rate_cells \<Rightarrow> string list \<times> rate_cells" where
  "cells_for scope [] nowMs m = ([], m)"
| "cells_for scope (r # rs) nowMs m =
     (let (k, m1) = cell scope r nowMs m; (ks, m2) = cells_for scope rs nowMs m1 in (k # ks, m2))"

definition cell_at :: "rate_cells \<Rightarrow> string \<Rightarrow> Counter" where
  "cell_at m k = (case jm_get m k of Some c \<Rightarrow> c | None \<Rightarrow> \<lparr>rc_count = 0, rc_resetMs = 0\<rparr>)"

text \<open>Pass 1: is there room under the rule.\<close>

definition rule_ok :: "rate_cells \<Rightarrow> RateLimit \<times> string \<Rightarrow> bool" where
  "rule_ok m rk =
     (let (rule, k) = rk; c = rc_count (cell_at m k) in
      case rl_unit rule of Requests \<Rightarrow> c + 1 \<le> rl_limit rule | Tokens \<Rightarrow> c < rl_limit rule)"

text \<open>Pass 2: consume the request-rate counters when every rule passed, and report.\<close>

definition bump :: "string \<Rightarrow> int \<Rightarrow> rate_cells \<Rightarrow> rate_cells" where
  "bump k n m = jm_set k ((cell_at m k)\<lparr>rc_count := rc_count (cell_at m k) + n\<rparr>) m"

fun decide :: "bool \<Rightarrow> int \<Rightarrow> ((RateLimit \<times> string) \<times> bool) list \<Rightarrow> rate_cells \<Rightarrow> RuleDecision list \<times> rate_cells" where
  "decide allowed nowMs [] m = ([], m)"
| "decide allowed nowMs (((rule, k), isOk) # rest) m =
     (let m1 = (if allowed \<and> rl_unit rule = Requests then bump k 1 m else m);
          c = cell_at m1 k;
          d = \<lparr>rd_rule = rule, rd_allowed = isOk, rd_used = rc_count c,
               rd_remaining = max 0 (rl_limit rule - rc_count c),
               rd_resetSeconds = resetSecondsUntil nowMs (rc_resetMs c)\<rparr>;
          (ds, m2) = decide allowed nowMs rest m1
      in (d # ds, m2))"

definition rl_reserve :: "string \<Rightarrow> RateLimit list \<Rightarrow> int \<Rightarrow> rate_cells \<Rightarrow> RateLimitOutcome \<times> rate_cells" where
  "rl_reserve scope rules nowMs m =
     (let (ks, m1) = cells_for scope rules nowMs m;
          rks = zip rules ks;
          oks = map (rule_ok m1) rks;
          (decisions, m2) = decide (list_all id oks) nowMs (zip rks oks) m1
      in (finalizeOutcome decisions, m2))"

fun commit_tokens :: "string \<Rightarrow> RateLimit list \<Rightarrow> int \<Rightarrow> int \<Rightarrow> rate_cells \<Rightarrow> rate_cells" where
  "commit_tokens scope [] actualTokens nowMs m = m"
| "commit_tokens scope (r # rs) actualTokens nowMs m =
     (if rl_unit r \<noteq> Tokens then commit_tokens scope rs actualTokens nowMs m
      else (let (k, m1) = cell scope r nowMs m
            in commit_tokens scope rs actualTokens nowMs (bump k actualTokens m1)))"

definition rl_commit :: "string \<Rightarrow> RateLimit list \<Rightarrow> int \<Rightarrow> int \<Rightarrow> rate_cells \<Rightarrow> rate_cells" where
  "rl_commit scope rules actualTokens nowMs m =
     (if actualTokens \<le> 0 then m else commit_tokens scope rules actualTokens nowMs m)"

subsection \<open>The limiter\<close>

datatype limiter_stage = StageResolve | StageReserve | StageCommit

definition ALLOW_NONE :: RateLimitOutcome where
  "ALLOW_NONE = \<lparr>ro_allowed = True, ro_decisions = [], ro_limiting = None, ro_retryAfterSeconds = None, ro_degraded = False\<rparr>"

definition degraded :: "bool \<Rightarrow> RateLimitOutcome" where
  "degraded failOpen =
     (if failOpen
      then \<lparr>ro_allowed = True, ro_decisions = [], ro_limiting = None, ro_retryAfterSeconds = None, ro_degraded = True\<rparr>
      else \<lparr>ro_allowed = False, ro_decisions = [], ro_limiting = None, ro_retryAfterSeconds = Some 1, ro_degraded = True\<rparr>)"

text \<open>A store call and a rule lookup may fail (\<open>Inl\<close>); the third component reports the failed stages.\<close>

definition limiter_check ::
  "bool \<Rightarrow> ('e + RateLimit list) \<Rightarrow> (RateLimit list \<Rightarrow> 's \<Rightarrow> ('e + RateLimitOutcome) \<times> 's) \<Rightarrow> 's
     \<Rightarrow> (RateLimitOutcome \<times> RateLimit list) \<times> 's \<times> limiter_stage list" where
  "limiter_check failOpen resolved reserve s =
     (case resolved of
        Inl e \<Rightarrow> ((degraded failOpen, []), s, [StageResolve])
      | Inr rules \<Rightarrow>
          if rules = [] then ((ALLOW_NONE, rules), s, [])
          else (case reserve rules s of
                  (Inr out, s') \<Rightarrow> ((out, rules), s', [])
                | (Inl e, s') \<Rightarrow> ((degraded failOpen, rules), s', [StageReserve])))"

definition limiter_commit ::
  "(RateLimit list \<Rightarrow> int \<Rightarrow> 's \<Rightarrow> ('e + unit) \<times> 's) \<Rightarrow> RateLimit list \<Rightarrow> int \<Rightarrow> 's \<Rightarrow> 's \<times> limiter_stage list" where
  "limiter_commit commit rules actualTokens s =
     (if \<not> list_ex (\<lambda>r. rl_unit r = Tokens) rules then (s, [])
      else (case commit rules actualTokens s of
              (Inr _, s') \<Rightarrow> (s', [])
            | (Inl e, s') \<Rightarrow> (s', [StageCommit])))"

definition rateLimitHeaders :: "RateLimitOutcome \<Rightarrow> (string, string) jsmap" where
  "rateLimitHeaders outcome =
     (case ro_limiting outcome of
        None \<Rightarrow> []
      | Some l \<Rightarrow>
          (let headers = [(''x-ratelimit-limit'', show_int (rl_limit (rd_rule l))),
                          (''x-ratelimit-remaining'', show_int (rd_remaining l)),
                          (''x-ratelimit-reset'', show_int (rd_resetSeconds l))]
           in case ro_retryAfterSeconds outcome of
                Some n \<Rightarrow> if \<not> ro_allowed outcome then jm_set ''retry-after'' (show_int n) headers else headers
              | None \<Rightarrow> headers))"

section \<open>Windows and keys\<close>

abbreviation win :: "RateLimit \<Rightarrow> int" where
  "win r \<equiv> rl_windowSeconds r * 1000"

definition win_start :: "RateLimit \<Rightarrow> int \<Rightarrow> int" where
  "win_start r t = fst (windowFor t (rl_windowSeconds r))"

lemma windowFor_eq: "windowFor t (rl_windowSeconds r) = (win_start r t, win_start r t + win r)"
  by (simp add: win_start_def windowFor_def Let_def)

lemma win_start_bounds:
  assumes "0 < rl_windowSeconds r"
  shows "win_start r t \<le> t" and "t < win_start r t + win r"
proof -
  have "t div win r * win r + t mod win r = t" by (rule div_mult_mod_eq)
  moreover have "0 \<le> t mod win r" "t mod win r < win r" using assms by simp_all
  ultimately show "win_start r t \<le> t" "t < win_start r t + win r"
    unfolding win_start_def windowFor_def Let_def fst_conv by linarith+
qed

lemma win_start_mono: "0 < rl_windowSeconds r \<Longrightarrow> t \<le> t' \<Longrightarrow> win_start r t \<le> win_start r t'"
  by (simp add: win_start_def windowFor_def Let_def zdiv_mono1 mult_right_mono)

definition wf_rules :: "RateLimit list \<Rightarrow> bool" where
  "wf_rules rules \<longleftrightarrow> distinct (map rl_id rules) \<and>
     list_all (\<lambda>r. 0 < rl_windowSeconds r \<and> 0 \<le> rl_limit r \<and> CHR ''|'' \<notin> set (rl_id r)) rules"

lemma bar_not_in_int: "CHR ''|'' \<notin> set (show_int i)"
  using not_digit_in_show_nat [of "CHR ''|''" "nat i"] not_digit_in_show_nat [of "CHR ''|''" "nat (- i)"]
  by (auto simp: show_int_def is_digit_def)

lemma rev_sep_inj:
  assumes "c \<notin> set ys" and "c \<notin> set ys'"
  shows "xs @ c # ys = xs' @ c # ys' \<longleftrightarrow> xs = xs' \<and> ys = ys'"
proof -
  have "xs @ c # ys = xs' @ c # ys' \<longleftrightarrow> rev (xs @ c # ys) = rev (xs' @ c # ys')" by (simp only: rev_is_rev_conv)
  also have "\<dots> \<longleftrightarrow> rev ys @ c # rev xs = rev ys' @ c # rev xs'" by simp
  also have "\<dots> \<longleftrightarrow> rev ys = rev ys' \<and> rev xs = rev xs'" by (rule sep_append_inj) (use assms in simp_all)
  finally show ?thesis by auto
qed

lemma cell_key_eq:
  assumes "CHR ''|'' \<notin> set (rl_id r)" and "CHR ''|'' \<notin> set (rl_id r')"
    and "cell_key scope r w = cell_key scope' r' w'"
  shows "scope = scope' \<and> rl_id r = rl_id r' \<and> show_int w = show_int w'"
proof -
  have "(scope @ ''|'' @ rl_id r) @ CHR ''|'' # show_int w = (scope' @ ''|'' @ rl_id r') @ CHR ''|'' # show_int w'"
    using assms(3) by (simp add: cell_key_def)
  then have 1: "scope @ ''|'' @ rl_id r = scope' @ ''|'' @ rl_id r'" "show_int w = show_int w'"
    using rev_sep_inj [OF bar_not_in_int bar_not_in_int] by blast+
  then have "scope @ CHR ''|'' # rl_id r = scope' @ CHR ''|'' # rl_id r'" by simp
  then show ?thesis using 1 rev_sep_inj [OF assms(1,2)] by blast
qed

section \<open>Counters\<close>

definition cnt :: "rate_cells \<Rightarrow> string \<Rightarrow> int" where
  "cnt m k = (case jm_get m k of Some c \<Rightarrow> rc_count c | None \<Rightarrow> 0)"

definition live :: "int \<Rightarrow> rate_cells \<Rightarrow> string \<Rightarrow> bool" where
  "live t m k \<longleftrightarrow> (case jm_get m k of Some c \<Rightarrow> t < rc_resetMs c | None \<Rightarrow> True)"

lemma get_sweep:
  assumes "jm_ok m" and "live t m k"
  shows "jm_get (sweep_cells t m) k = jm_get m k"
proof -
  let ?f = "filter (\<lambda>(k, v). \<not> rc_resetMs v \<le> t) m"
  have ok: "jm_ok ?f" using assms(1) by (simp add: distinct_map_filter)
  have "jm_get ?f k = jm_get m k"
  proof (cases "jm_get m k")
    case None
    then have "k \<notin> fst ` set ?f" unfolding jm_get_none_iff by auto
    then have "jm_get ?f k = None" by (simp only: jm_get_none_iff not_False_eq_True)
    with None show ?thesis by (simp only:)
  next
    case (Some c)
    then have "(k, c) \<in> set ?f" using assms by (auto simp: live_def dest: map_of_SomeD)
    then show ?thesis using Some ok by (simp only: jm_in_iff)
  qed
  then show ?thesis by (simp add: sweep_cells_def)
qed

lemma jm_ok_sweep: "jm_ok m \<Longrightarrow> jm_ok (sweep_cells t m)"
  by (simp add: sweep_cells_def distinct_map_filter)

lemma cell_facts:
  assumes ok: "jm_ok m" and r: "0 < rl_windowSeconds r" and l: "live t m (cell_key scope r (win_start r t))"
  shows "fst (cell scope r t m) = cell_key scope r (win_start r t)"
    and "jm_ok (snd (cell scope r t m))"
    and "live t m k \<Longrightarrow> jm_get (snd (cell scope r t m)) k =
      (if k = cell_key scope r (win_start r t)
       then Some (case jm_get m k of Some c \<Rightarrow> c | None \<Rightarrow> \<lparr>rc_count = 0, rc_resetMs = win_start r t + win r\<rparr>)
       else jm_get m k)"
proof -
  let ?k = "cell_key scope r (win_start r t)"
  let ?m = "jm_set ?k \<lparr>rc_count = 0, rc_resetMs = win_start r t + win r\<rparr> m"
  show "fst (cell scope r t m) = ?k" by (simp add: cell_def windowFor_eq Let_def split: option.split)
  show "jm_ok (snd (cell scope r t m))"
    using ok by (auto simp: cell_def windowFor_eq Let_def jm_ok_sweep jm_ok_set split: option.split)
  assume lk: "live t m k"
  have "live t ?m k" using lk win_start_bounds(2) [OF r, of t] by (simp add: live_def jm_get_set)
  then have s: "jm_get (sweep_cells t ?m) k = jm_get ?m k" using ok by (intro get_sweep jm_ok_set)
  show "jm_get (snd (cell scope r t m)) k = (if k = ?k
       then Some (case jm_get m k of Some c \<Rightarrow> c | None \<Rightarrow> \<lparr>rc_count = 0, rc_resetMs = win_start r t + win r\<rparr>)
       else jm_get m k)"
  proof (cases "jm_get m ?k")
    case None
    then show ?thesis using s by (simp add: cell_def windowFor_eq jm_get_set Let_def)
  next
    case (Some c)
    then have "\<not> rc_resetMs c \<le> t" using l by (simp add: live_def)
    then show ?thesis using Some by (simp add: cell_def windowFor_eq Let_def)
  qed
qed

lemma cell_live_cnt:
  assumes "jm_ok m" and "0 < rl_windowSeconds r" and "live t m (cell_key scope r (win_start r t))" and "live t m k"
  shows "live t (snd (cell scope r t m)) k" and "cnt (snd (cell scope r t m)) k = cnt m k"
  using cell_facts(3) [OF assms] win_start_bounds(2) [OF assms(2), of t] assms(4)
  by (auto simp: live_def cnt_def split: option.splits)

lemma cells_for_facts:
  assumes "jm_ok m" and "list_all (\<lambda>r. 0 < rl_windowSeconds r \<and> live t m (cell_key scope r (win_start r t))) rs"
  shows "fst (cells_for scope rs t m) = map (\<lambda>r. cell_key scope r (win_start r t)) rs \<and>
    jm_ok (snd (cells_for scope rs t m)) \<and>
    (\<forall>k. live t m k \<longrightarrow> live t (snd (cells_for scope rs t m)) k \<and> cnt (snd (cells_for scope rs t m)) k = cnt m k)"
  using assms
proof (induction rs arbitrary: m)
  case (Cons r rs)
  have h: "jm_ok m" "0 < rl_windowSeconds r" "live t m (cell_key scope r (win_start r t))" using Cons.prems by simp_all
  let ?m = "snd (cell scope r t m)"
  have "list_all (\<lambda>r. 0 < rl_windowSeconds r \<and> live t ?m (cell_key scope r (win_start r t))) rs"
    using Cons.prems cell_live_cnt(1) [OF h] by (simp add: list_all_iff)
  note IH = Cons.IH [OF cell_facts(2) [OF h] this]
  show ?case using IH cell_facts(1) [OF h] cell_live_cnt [OF h] by (simp add: split_beta)
qed simp

text \<open>Bumping counters: the count of every key rises by the number of its bumps.\<close>

lemma cnt_bump: "cnt (bump k n m) k' = (if k' = k then cnt m k' + n else cnt m k')"
  by (simp add: bump_def cnt_def cell_at_def jm_get_set split: option.split)

lemma live_bump: "jm_get m k \<noteq> None \<Longrightarrow> live t (bump k n m) k' = live t m k'"
  by (auto simp: bump_def live_def cell_at_def jm_get_set split: option.split)

lemma jm_ok_bump: "jm_ok m \<Longrightarrow> jm_ok (bump k n m)"
  by (simp add: bump_def jm_ok_set)

lemma get_bump: "jm_get m k' \<noteq> None \<Longrightarrow> jm_get (bump k n m) k' \<noteq> None"
  by (simp add: bump_def jm_get_set)

lemma decide_facts:
  assumes "jm_ok m" and "\<forall>x \<in> set rks. jm_get m (snd (fst x)) \<noteq> None" and "distinct (map (snd \<circ> fst) rks)"
  shows "jm_ok (snd (decide al t rks m)) \<and>
    (\<forall>k. live t m k \<longrightarrow> live t (snd (decide al t rks m)) k) \<and>
    (\<forall>k. cnt (snd (decide al t rks m)) k =
      cnt m k + (if al \<and> (\<exists>x \<in> set rks. snd (fst x) = k \<and> rl_unit (fst (fst x)) = Requests) then 1 else 0)) \<and>
    map rd_allowed (fst (decide al t rks m)) = map snd rks"
  using assms
proof (induction al t rks m rule: decide.induct)
  case (2 al t rule k isOk rest m)
  let ?m = "if al \<and> rl_unit rule = Requests then bump k 1 m else m"
  have "jm_get ?m (snd (fst x)) \<noteq> None" if "x \<in> set rest" for x
    using "2.prems"(2) that get_bump [of m "snd (fst x)" k 1] by simp
  then have ok: "jm_ok ?m" "\<forall>x \<in> set rest. jm_get ?m (snd (fst x)) \<noteq> None" "distinct (map (snd \<circ> fst) rest)"
    using "2.prems" by (simp_all add: jm_ok_bump comp_def)
  have IH: "jm_ok (snd (decide al t rest ?m)) \<and>
    (\<forall>k. live t ?m k \<longrightarrow> live t (snd (decide al t rest ?m)) k) \<and>
    (\<forall>k. cnt (snd (decide al t rest ?m)) k =
      cnt ?m k + (if al \<and> (\<exists>x \<in> set rest. snd (fst x) = k \<and> rl_unit (fst (fst x)) = Requests) then 1 else 0)) \<and>
    map rd_allowed (fst (decide al t rest ?m)) = map snd rest"
    using "2.IH" [OF refl refl refl ok] by blast
  have "k \<notin> (\<lambda>x. snd (fst x)) ` set rest" using "2.prems"(3) by auto
  with IH "2.prems" show ?case
    by (auto simp: split_beta Let_def cnt_bump live_bump)
qed simp

section \<open>Reserve\<close>

definition rule_keys :: "string \<Rightarrow> RateLimit list \<Rightarrow> int \<Rightarrow> string list" where
  "rule_keys scope rules t = map (\<lambda>r. cell_key scope r (win_start r t)) rules"

lemma rule_keys_distinct:
  assumes "wf_rules rules"
  shows "distinct (rule_keys scope rules t)"
proof -
  have "inj_on (\<lambda>r. cell_key scope r (win_start r t)) (set rules)"
  proof (rule inj_onI)
    fix r r' assume "r \<in> set rules" "r' \<in> set rules" "cell_key scope r (win_start r t) = cell_key scope r' (win_start r' t)"
    then have "rl_id r = rl_id r'" using assms cell_key_eq by (fastforce simp: wf_rules_def list_all_iff)
    then show "r = r'" using \<open>r \<in> set rules\<close> \<open>r' \<in> set rules\<close> assms
      by (auto simp: wf_rules_def distinct_map inj_on_def)
  qed
  then show ?thesis using assms by (simp add: rule_keys_def distinct_map wf_rules_def)
qed

lemma cells_for_present:
  assumes "jm_ok m" and "list_all (\<lambda>r. 0 < rl_windowSeconds r \<and> live t m (cell_key scope r (win_start r t))) rs"
    and "jm_get m k \<noteq> None \<and> live t m k \<or> k \<in> set (rule_keys scope rs t)"
  shows "jm_get (snd (cells_for scope rs t m)) k \<noteq> None"
  using assms
proof (induction rs arbitrary: m)
  case (Cons r rs)
  have h: "jm_ok m" "0 < rl_windowSeconds r" "live t m (cell_key scope r (win_start r t))" using Cons.prems by simp_all
  let ?m = "snd (cell scope r t m)" and ?k = "cell_key scope r (win_start r t)"
  have l: "list_all (\<lambda>r. 0 < rl_windowSeconds r \<and> live t ?m (cell_key scope r (win_start r t))) rs"
    using Cons.prems cell_live_cnt(1) [OF h] by (simp add: list_all_iff)
  have "jm_get ?m k \<noteq> None \<and> live t ?m k \<or> k \<in> set (rule_keys scope rs t)"
  proof (cases "k = ?k \<or> jm_get m k \<noteq> None \<and> live t m k")
    case True
    then have lk: "live t m k" using h(3) by auto
    show ?thesis using cell_facts(3) [OF h lk] cell_live_cnt(1) [OF h lk] True by auto
  next
    case False
    then show ?thesis using Cons.prems(3) by (auto simp: rule_keys_def)
  qed
  then show ?case using Cons.IH [OF cell_facts(2) [OF h] l] by (simp add: split_beta)
qed (simp add: rule_keys_def)

lemma finalize_allowed: "ro_allowed (finalizeOutcome ds) = list_all id (map rd_allowed ds)"
  by (simp add: finalizeOutcome_def Let_def list.pred_map)

text \<open>A reserve as its two passes over the rules and their keys.\<close>

definition keyed :: "string \<Rightarrow> RateLimit list \<Rightarrow> int \<Rightarrow> (RateLimit \<times> string) list" where
  "keyed scope rules t = map (\<lambda>r. (r, cell_key scope r (win_start r t))) rules"

lemma rl_reserve_unfold:
  fixes scope :: string and t :: int
  assumes ok: "jm_ok m" and wf: "wf_rules rules"
    and l: "\<forall>r \<in> set rules. live t m (cell_key scope r (win_start r t))"
  defines "m1 \<equiv> snd (cells_for scope rules t m)"
  defines "rks \<equiv> map (\<lambda>rk. (rk, rule_ok m1 rk)) (keyed scope rules t)"
  defines "al \<equiv> list_all (rule_ok m1) (keyed scope rules t)"
  shows "rl_reserve scope rules t m = (finalizeOutcome (fst (decide al t rks m1)), snd (decide al t rks m1))"
    and "jm_ok m1" and "\<forall>x \<in> set rks. jm_get m1 (snd (fst x)) \<noteq> None" and "distinct (map (snd \<circ> fst) rks)"
    and "live t m k \<Longrightarrow> live t m1 k \<and> cnt m1 k = cnt m k"
proof -
  have la: "list_all (\<lambda>r. 0 < rl_windowSeconds r \<and> live t m (cell_key scope r (win_start r t))) rules"
    using wf l by (simp add: wf_rules_def list_all_iff)
  note f = cells_for_facts [OF ok la]
  have "zip rules (fst (cells_for scope rules t m)) = keyed scope rules t"
    using f by (simp add: keyed_def zip_map2 zip_same_conv_map)
  then show "rl_reserve scope rules t m = (finalizeOutcome (fst (decide al t rks m1)), snd (decide al t rks m1))"
    by (simp add: rl_reserve_def Let_def split_beta m1_def rks_def al_def list.pred_map zip_map_self)
  show "jm_ok m1" using f by (simp add: m1_def)
  show "live t m k \<Longrightarrow> live t m1 k \<and> cnt m1 k = cnt m k" using f by (simp add: m1_def)
  show "\<forall>x \<in> set rks. jm_get m1 (snd (fst x)) \<noteq> None"
    using cells_for_present [OF ok la] unfolding m1_def rks_def keyed_def rule_keys_def by auto
  show "distinct (map (snd \<circ> fst) rks)"
    using rule_keys_distinct [OF wf, of scope t] by (simp add: rks_def keyed_def rule_keys_def comp_def)
qed

text \<open>What one reserve does to the counters that are live, and when it admits.\<close>

lemma rl_reserve_facts:
  fixes scope :: string and t :: int
  assumes ok: "jm_ok m" and wf: "wf_rules rules"
    and l: "\<forall>r \<in> set rules. live t m (cell_key scope r (win_start r t))"
  defines "out \<equiv> rl_reserve scope rules t m"
  shows "jm_ok (snd out)"
    and "live t m k \<Longrightarrow> live t (snd out) k"
    and "live t m k \<Longrightarrow> cnt (snd out) k = cnt m k +
      (if ro_allowed (fst out) \<and> (\<exists>r \<in> set rules. rl_unit r = Requests \<and> k = cell_key scope r (win_start r t)) then 1 else 0)"
    and "ro_allowed (fst out) \<longleftrightarrow> (\<forall>r \<in> set rules.
      case rl_unit r of Requests \<Rightarrow> cnt m (cell_key scope r (win_start r t)) + 1 \<le> rl_limit r
        | Tokens \<Rightarrow> cnt m (cell_key scope r (win_start r t)) < rl_limit r)"
proof -
  define m1 where "m1 = snd (cells_for scope rules t m)"
  define rks where "rks = map (\<lambda>rk. (rk, rule_ok m1 rk)) (keyed scope rules t)"
  define al where "al = list_all (rule_ok m1) (keyed scope rules t)"
  note u = rl_reserve_unfold [OF ok wf l, folded m1_def, folded rks_def al_def]
  note D = decide_facts [OF u(2-4), of al t]
  have al': "ro_allowed (fst out) = al"
    unfolding out_def u(1) fst_conv finalize_allowed using D by (simp add: rks_def al_def list.pred_map comp_def)
  show "jm_ok (snd out)" "live t m k \<Longrightarrow> live t (snd out) k"
    using D u(5) unfolding out_def u(1) by simp_all
  have ex: "(\<exists>x \<in> set rks. snd (fst x) = k \<and> rl_unit (fst (fst x)) = Requests) \<longleftrightarrow>
      (\<exists>r \<in> set rules. rl_unit r = Requests \<and> k = cell_key scope r (win_start r t))"
    by (auto simp: rks_def keyed_def)
  show "cnt (snd out) k = cnt m k +
      (if ro_allowed (fst out) \<and> (\<exists>r \<in> set rules. rl_unit r = Requests \<and> k = cell_key scope r (win_start r t)) then 1 else 0)"
    if "live t m k"
    using D u(5) [OF that] unfolding al' ex [symmetric] unfolding out_def u(1) by simp
  have "rule_ok m1 (r, cell_key scope r (win_start r t)) \<longleftrightarrow>
      (case rl_unit r of Requests \<Rightarrow> cnt m (cell_key scope r (win_start r t)) + 1 \<le> rl_limit r
        | Tokens \<Rightarrow> cnt m (cell_key scope r (win_start r t)) < rl_limit r)" if "r \<in> set rules" for r
  proof -
    have "rc_count (cell_at m1 (cell_key scope r (win_start r t))) = cnt m (cell_key scope r (win_start r t))"
      using u(5) [of "cell_key scope r (win_start r t)"] l that by (auto simp: cnt_def cell_at_def split: option.splits)
    then show ?thesis by (simp add: rule_ok_def Let_def split: RateLimitUnit.split)
  qed
  then show "ro_allowed (fst out) \<longleftrightarrow> (\<forall>r \<in> set rules.
      case rl_unit r of Requests \<Rightarrow> cnt m (cell_key scope r (win_start r t)) + 1 \<le> rl_limit r
        | Tokens \<Rightarrow> cnt m (cell_key scope r (win_start r t)) < rl_limit r)"
    unfolding al' al_def by (auto simp: keyed_def list_all_iff)
qed

lemma commit_tokens_facts:
  assumes "jm_ok m" and "wf_rules rs" and "\<forall>r \<in> set rs. live t m (cell_key scope r (win_start r t))"
    and "\<forall>r \<in> set rs. rl_unit r = Tokens \<longrightarrow> k \<noteq> cell_key scope r (win_start r t)"
  shows "jm_ok (commit_tokens scope rs n t m) \<and>
    (live t m k \<longrightarrow> live t (commit_tokens scope rs n t m) k \<and> cnt (commit_tokens scope rs n t m) k = cnt m k)"
  using assms
proof (induction rs arbitrary: m)
  case (Cons r rs)
  have wf: "wf_rules rs" using Cons.prems by (simp add: wf_rules_def)
  show ?case
  proof (cases "rl_unit r = Tokens")
    case True
    have h: "jm_ok m" "0 < rl_windowSeconds r" "live t m (cell_key scope r (win_start r t))"
      using Cons.prems by (simp_all add: wf_rules_def)
    let ?k = "cell_key scope r (win_start r t)" and ?m = "snd (cell scope r t m)"
    have p: "jm_get ?m ?k \<noteq> None" using cell_facts(3) [OF h h(3)] by simp
    have lv: "live t m k' \<Longrightarrow> live t (bump ?k n ?m) k'" for k'
      using cell_live_cnt(1) [OF h, of k'] live_bump [OF p, of t n k'] by blast
    have "\<forall>r \<in> set rs. live t (bump ?k n ?m) (cell_key scope r (win_start r t))"
      using Cons.prems(3) lv by simp
    note IH = Cons.IH [OF jm_ok_bump [OF cell_facts(2) [OF h]] wf this]
    show ?thesis
      using IH Cons.prems(4) True lv [of k] cell_live_cnt(2) [OF h, of k] cell_facts(1) [OF h]
      by (simp add: split_beta cnt_bump)
  next
    case False
    then show ?thesis using Cons wf by simp
  qed
qed simp

section \<open>The end of a window\<close>

text \<open>A call only adds counters of its own rules' present windows, ending with the window.\<close>

definition grows :: "string \<Rightarrow> RateLimit list \<Rightarrow> int \<Rightarrow> rate_cells \<Rightarrow> rate_cells \<Rightarrow> bool" where
  "grows scope rules t m m' \<longleftrightarrow> (\<forall>k c. jm_get m' k = Some c \<longrightarrow>
     (\<exists>c0. jm_get m k = Some c0 \<and> rc_resetMs c0 = rc_resetMs c) \<or>
     (\<exists>r \<in> set rules. k = cell_key scope r (win_start r t) \<and> rc_resetMs c = win_start r t + win r))"

lemma grows_refl: "grows scope rules t m m"
  by (auto simp: grows_def)

lemma grows_trans: "grows scope rules t m m1 \<Longrightarrow> grows scope rules t m1 m2 \<Longrightarrow> grows scope rules t m m2"
  unfolding grows_def by metis

lemma grows_more: "grows scope rs t m m' \<Longrightarrow> set rs \<subseteq> set rules \<Longrightarrow> grows scope rules t m m'"
  unfolding grows_def by blast

lemma get_sweep_sub: "jm_ok m \<Longrightarrow> jm_get (sweep_cells t m) k = Some c \<Longrightarrow> jm_get m k = Some c"
  using jm_ok_sweep [of m t] by (auto simp: sweep_cells_def split: if_splits)

lemma grows_cell: "jm_ok m \<Longrightarrow> r \<in> set rules \<Longrightarrow> grows scope rules t m (snd (cell scope r t m))"
  unfolding grows_def
proof (intro allI impI)
  fix k c assume "jm_ok m" "r \<in> set rules" and g: "jm_get (snd (cell scope r t m)) k = Some c"
  let ?k = "cell_key scope r (win_start r t)"
  let ?m = "jm_set ?k \<lparr>rc_count = 0, rc_resetMs = win_start r t + win r\<rparr> m"
  have "jm_ok ?m" using \<open>jm_ok m\<close> by (rule jm_ok_set)
  have "jm_get m k = Some c \<or> jm_get (sweep_cells t ?m) k = Some c"
    using g by (auto simp: cell_def windowFor_eq Let_def split: option.splits if_splits)
  then have "jm_get m k = Some c \<or> jm_get ?m k = Some c" using get_sweep_sub [OF \<open>jm_ok ?m\<close>] by blast
  then show "(\<exists>c0. jm_get m k = Some c0 \<and> rc_resetMs c0 = rc_resetMs c) \<or>
     (\<exists>r \<in> set rules. k = cell_key scope r (win_start r t) \<and> rc_resetMs c = win_start r t + win r)"
    using \<open>r \<in> set rules\<close> by (auto simp only: jm_get_set split: if_splits) auto
qed

lemma grows_bump: "jm_get m k \<noteq> None \<Longrightarrow> grows scope rules t m (bump k n m)"
  by (auto simp: grows_def bump_def jm_get_set cell_at_def split: if_splits)

lemma grows_cells_for:
  "jm_ok m \<Longrightarrow> set rs \<subseteq> set rules \<Longrightarrow> grows scope rules t m (snd (cells_for scope rs t m))"
proof (induction rs arbitrary: m)
  case (Cons r rs)
  have "jm_ok (snd (cell scope r t m))"
    using Cons.prems(1) by (auto simp: cell_def windowFor_eq Let_def jm_ok_sweep jm_ok_set split: option.split)
  then show ?case
    using Cons grows_trans [OF grows_cell [of m r rules scope t]] by (simp add: split_beta)
qed (simp add: grows_refl)

lemma grows_decide:
  "\<forall>x \<in> set rks. jm_get m (snd (fst x)) \<noteq> None \<Longrightarrow> grows scope rules t m (snd (decide al t rks m))"
proof (induction al t rks m rule: decide.induct)
  case (2 al t rule k isOk rest m)
  let ?m = "if al \<and> rl_unit rule = Requests then bump k 1 m else m"
  have "jm_get ?m (snd (fst x)) \<noteq> None" if "x \<in> set rest" for x
    using "2.prems" that get_bump [of m "snd (fst x)" k 1] by simp
  then have "grows scope rules t ?m (snd (decide al t rest ?m))"
    using "2.IH" [OF refl refl refl] by blast
  moreover have "grows scope rules t m ?m" using "2.prems" grows_bump [of m k] grows_refl by simp
  ultimately have "grows scope rules t m (snd (decide al t rest ?m))" by (rule grows_trans [rotated])
  then show ?case by (simp add: split_beta Let_def)
qed (simp add: grows_refl)

lemma grows_reserve:
  assumes "jm_ok m" and "wf_rules rules" and "\<forall>r \<in> set rules. live t m (cell_key scope r (win_start r t))"
  shows "grows scope rules t m (snd (rl_reserve scope rules t m))"
  unfolding rl_reserve_unfold(1) [OF assms] snd_conv
  by (rule grows_trans [OF grows_cells_for [OF assms(1) subset_refl] grows_decide [OF rl_reserve_unfold(3) [OF assms]]])

lemma grows_commit:
  assumes "jm_ok m" and "wf_rules rs" and "\<forall>r \<in> set rs. live t m (cell_key scope r (win_start r t))"
    and "set rs \<subseteq> set rules"
  shows "grows scope rules t m (commit_tokens scope rs n t m)"
  using assms
proof (induction rs arbitrary: m)
  case (Cons r rs)
  have wf: "wf_rules rs" using Cons.prems by (simp add: wf_rules_def)
  show ?case
  proof (cases "rl_unit r = Tokens")
    case True
    have h: "jm_ok m" "0 < rl_windowSeconds r" "live t m (cell_key scope r (win_start r t))"
      using Cons.prems by (simp_all add: wf_rules_def)
    let ?k = "cell_key scope r (win_start r t)" and ?m = "snd (cell scope r t m)"
    have p: "jm_get ?m ?k \<noteq> None" using cell_facts(3) [OF h h(3)] by simp
    have "\<forall>r \<in> set rs. live t (bump ?k n ?m) (cell_key scope r (win_start r t))"
      using Cons.prems(3) cell_live_cnt(1) [OF h] live_bump [OF p] by simp
    note IH = Cons.IH [OF jm_ok_bump [OF cell_facts(2) [OF h]] wf this]
    have "grows scope rules t m (bump ?k n ?m)"
      using grows_trans [OF grows_cell [OF h(1), of r rules scope t] grows_bump [OF p]] Cons.prems(4) by simp
    then show ?thesis
      using grows_trans [OF _ IH] Cons.prems(4) True cell_facts(1) [OF h] by (simp add: split_beta)
  next
    case False
    then show ?thesis using Cons wf by simp
  qed
qed (simp add: grows_refl)

section \<open>Admissions per window\<close>

text \<open>
  The runs of the store: reserves and commits of any scopes under the rules of a resolver, at times
  that do not go back, with the history of the admitted requests.
\<close>

type_synonym rule_table = "string \<Rightarrow> RateLimit list"

inductive rate_run :: "rule_table \<Rightarrow> rate_cells \<Rightarrow> (string \<times> int) list \<Rightarrow> int \<Rightarrow> bool" for rules_for where
  start: "rate_run rules_for [] [] t"
| reserve: "rate_run rules_for (snd (rl_reserve scope (rules_for scope) t' m))
      (if ro_allowed (fst (rl_reserve scope (rules_for scope) t' m)) then (scope, t') # hist else hist) t'"
    if "rate_run rules_for m hist t" "t \<le> t'"
| commit: "rate_run rules_for (rl_commit scope (rules_for scope) n t' m) hist t'"
    if "rate_run rules_for m hist t" "t \<le> t'"

definition admitted_in :: "string \<Rightarrow> RateLimit \<Rightarrow> int \<Rightarrow> (string \<times> int) list \<Rightarrow> int" where
  "admitted_in scope r w hist = int (length (filter (\<lambda>(s, u). s = scope \<and> win_start r u = w) hist))"

text \<open>
  The invariant: a counter ends with its window; from the current window on, the counter of a
  request rule is the number of admissions of its window; no window admits more than the limit.
\<close>

definition timed :: "rate_cells \<Rightarrow> string \<Rightarrow> RateLimit \<Rightarrow> bool" where
  "timed m scope r \<longleftrightarrow> (\<forall>w c. jm_get m (cell_key scope r w) = Some c \<longrightarrow> rc_resetMs c = w + win r)"

definition tracked :: "rate_cells \<Rightarrow> (string \<times> int) list \<Rightarrow> int \<Rightarrow> string \<Rightarrow> RateLimit \<Rightarrow> bool" where
  "tracked m hist t scope r \<longleftrightarrow>
     (\<forall>w. admitted_in scope r w hist \<le> rl_limit r) \<and>
     (\<forall>w \<ge> win_start r t. cnt m (cell_key scope r w) = admitted_in scope r w hist)"

definition rate_inv :: "rule_table \<Rightarrow> rate_cells \<Rightarrow> (string \<times> int) list \<Rightarrow> int \<Rightarrow> bool" where
  "rate_inv rules_for m hist t \<longleftrightarrow> jm_ok m \<and>
     (\<forall>scope. \<forall>r \<in> set (rules_for scope). timed m scope r \<and> (rl_unit r = Requests \<longrightarrow> tracked m hist t scope r))"

lemma timed_live:
  assumes "timed m scope r" and "0 < rl_windowSeconds r" and "win_start r t \<le> w"
  shows "live t m (cell_key scope r w)"
  using assms win_start_bounds(2) [OF assms(2), of t] by (auto simp: timed_def live_def split: option.split)

lemma wf_rulesD: "wf_rules rules \<Longrightarrow> r \<in> set rules \<Longrightarrow>
    0 < rl_windowSeconds r \<and> 0 \<le> rl_limit r \<and> CHR ''|'' \<notin> set (rl_id r)"
  by (simp add: wf_rules_def list_all_iff)

lemma same_cell:
  assumes "\<forall>sc. wf_rules (rules_for sc)" and "r \<in> set (rules_for scope)" and "r' \<in> set (rules_for scope')"
    and "cell_key scope r w = cell_key scope' r' w'"
  shows "scope = scope' \<and> r = r' \<and> w = w'"
proof -
  have e: "scope = scope' \<and> rl_id r = rl_id r' \<and> w = w'"
    using cell_key_eq [OF _ _ assms(4)] wf_rulesD assms(1-3) show_int_eq_iff by blast
  then have "inj_on rl_id (set (rules_for scope))" "r' \<in> set (rules_for scope)"
    using assms(1,3) by (auto simp: wf_rules_def distinct_map)
  then show ?thesis using e assms(2) by (auto simp: inj_on_def)
qed

lemma timed_grows:
  assumes "\<forall>sc. wf_rules (rules_for sc)" and "r \<in> set (rules_for scope)" and "timed m scope r"
    and "grows scope' (rules_for scope') t m m'"
  shows "timed m' scope r"
  unfolding timed_def
proof (intro allI impI)
  fix w c assume "jm_get m' (cell_key scope r w) = Some c"
  then consider c0 where "jm_get m (cell_key scope r w) = Some c0" "rc_resetMs c0 = rc_resetMs c"
    | r' where "r' \<in> set (rules_for scope')" "cell_key scope r w = cell_key scope' r' (win_start r' t)"
        "rc_resetMs c = win_start r' t + win r'"
    using assms(4) unfolding grows_def by blast
  then show "rc_resetMs c = w + win r"
  proof cases
    case 1
    then show ?thesis using assms(3) by (simp add: timed_def)
  next
    case (2 r')
    then show ?thesis using same_cell [OF assms(1,2) 2(1,2)] by simp
  qed
qed

lemma inv_live:
  assumes "\<forall>sc. wf_rules (rules_for sc)" and "rate_inv rules_for m hist t" and "r \<in> set (rules_for scope)"
    and "t \<le> t'" and "win_start r t' \<le> w"
  shows "live t' m (cell_key scope r w)"
  using timed_live [of m scope r t' w] wf_rulesD assms by (auto simp: rate_inv_def)

lemma tracked_later:
  "tracked m hist t scope r \<Longrightarrow> 0 < rl_windowSeconds r \<Longrightarrow> t \<le> t' \<Longrightarrow> tracked m hist t' scope r"
  unfolding tracked_def using win_start_mono [of r t t'] by (meson order_trans)

lemma inv_tracked:
  assumes "\<forall>sc. wf_rules (rules_for sc)" and "rate_inv rules_for m hist t" and "r \<in> set (rules_for sc)"
    and "rl_unit r = Requests" and "t \<le> t'"
  shows "tracked m hist t' sc r"
proof -
  have "tracked m hist t sc r" using assms(2-4) by (simp add: rate_inv_def)
  moreover have "0 < rl_windowSeconds r" using wf_rulesD assms(1,3) by blast
  ultimately show ?thesis using assms(5) by (rule tracked_later)
qed

lemma admitted_Cons:
  "admitted_in scope r w ((scope', u) # hist) =
     admitted_in scope r w hist + (if scope' = scope \<and> win_start r u = w then 1 else 0)"
  by (simp add: admitted_in_def)

lemma rate_inv_reserve:
  fixes scope :: string
  assumes wf: "\<forall>sc. wf_rules (rules_for sc)" and I: "rate_inv rules_for m hist t" and t: "t \<le> t'"
  defines "out \<equiv> rl_reserve scope (rules_for scope) t' m"
  shows "rate_inv rules_for (snd out) (if ro_allowed (fst out) then (scope, t') # hist else hist) t'"
proof -
  let ?hist = "if ro_allowed (fst out) then (scope, t') # hist else hist"
  have ok: "jm_ok m" using I by (simp add: rate_inv_def)
  have l: "\<forall>r \<in> set (rules_for scope). live t' m (cell_key scope r (win_start r t'))"
    using inv_live [OF wf I _ t] by simp
  note F = rl_reserve_facts [OF ok spec [OF wf] l, folded out_def]
  have "timed (snd out) sc r" if "r \<in> set (rules_for sc)" for sc r
    using timed_grows [OF wf that _ grows_reserve [OF ok spec [OF wf] l, folded out_def]] I that
    by (simp add: rate_inv_def)
  moreover have "tracked (snd out) ?hist t' sc r" if r: "r \<in> set (rules_for sc)" "rl_unit r = Requests" for sc r
  proof -
    have T: "tracked m hist t' sc r" by (rule inv_tracked [OF wf I r t])
    have c: "cnt (snd out) (cell_key sc r w) = admitted_in sc r w ?hist" if w: "win_start r t' \<le> w" for w
    proof -
      have k: "(\<exists>r' \<in> set (rules_for scope). rl_unit r' = Requests \<and> cell_key sc r w = cell_key scope r' (win_start r' t'))
          \<longleftrightarrow> scope = sc \<and> win_start r t' = w"
        using same_cell [OF wf r(1)] r by metis
      show ?thesis
        using F(3) [OF inv_live [OF wf I r(1) t w]] T w unfolding k by (simp add: tracked_def admitted_Cons)
    qed
    have "admitted_in sc r w ?hist \<le> rl_limit r" for w
    proof (cases "ro_allowed (fst out) \<and> scope = sc \<and> win_start r t' = w")
      case True
      then have "cnt m (cell_key sc r w) + 1 \<le> rl_limit r" using F(4) r by auto
      then show ?thesis using T True by (simp add: tracked_def admitted_Cons)
    next
      case False
      then show ?thesis using T by (auto simp: tracked_def admitted_Cons)
    qed
    then show ?thesis using c by (simp add: tracked_def)
  qed
  ultimately show ?thesis using F(1) by (simp add: rate_inv_def)
qed

lemma rate_inv_commit:
  assumes wf: "\<forall>sc. wf_rules (rules_for sc)" and I: "rate_inv rules_for m hist t" and t: "t \<le> t'"
  shows "rate_inv rules_for (rl_commit scope (rules_for scope) n t' m) hist t'"
proof -
  let ?m = "commit_tokens scope (rules_for scope) n t' m"
  have ok: "jm_ok m" using I by (simp add: rate_inv_def)
  have l: "\<forall>r \<in> set (rules_for scope). live t' m (cell_key scope r (win_start r t'))"
    using inv_live [OF wf I _ t] by simp
  have T: "tracked m hist t' sc r" if "r \<in> set (rules_for sc)" "rl_unit r = Requests" for sc r
    by (rule inv_tracked [OF wf I that t])
  have "timed ?m sc r" if "r \<in> set (rules_for sc)" for sc r
    using timed_grows [OF wf that _ grows_commit [OF ok spec [OF wf] l subset_refl]] I that by (simp add: rate_inv_def)
  moreover have "tracked ?m hist t' sc r" if r: "r \<in> set (rules_for sc)" "rl_unit r = Requests" for sc r
  proof -
    have "cnt ?m (cell_key sc r w) = cnt m (cell_key sc r w)" if w: "win_start r t' \<le> w" for w
    proof -
      have "\<forall>r' \<in> set (rules_for scope). rl_unit r' = Tokens \<longrightarrow> cell_key sc r w \<noteq> cell_key scope r' (win_start r' t')"
        using same_cell [OF wf r(1)] r(2) by (metis RateLimitUnit.distinct(1))
      from commit_tokens_facts [OF ok spec [OF wf] l this, of n] inv_live [OF wf I r(1) t w] show ?thesis by blast
    qed
    then show ?thesis using T [OF r] by (simp add: tracked_def)
  qed
  moreover have "jm_ok ?m"
    using commit_tokens_facts [OF ok spec [OF wf] l, of "[]" n] by (simp add: cell_key_def)
  moreover have "timed m sc r" if "r \<in> set (rules_for sc)" for sc r using I that by (simp add: rate_inv_def)
  ultimately show ?thesis using ok T by (simp add: rate_inv_def rl_commit_def)
qed

lemma rate_run_inv:
  assumes wf: "\<forall>sc. wf_rules (rules_for sc)"
  shows "rate_run rules_for m hist t \<Longrightarrow> rate_inv rules_for m hist t"
proof (induction rule: rate_run.induct)
  case (start t)
  then show ?case
    using wf_rulesD wf by (auto simp: rate_inv_def timed_def tracked_def admitted_in_def cnt_def)
qed (simp_all add: rate_inv_reserve [OF wf] rate_inv_commit [OF wf])

section \<open>The limiter over any store\<close>

text \<open>
  What the limiter relies on: a store admits exactly when every rule has room, an admission takes
  one unit of each request rule of its scope and a rejection takes nothing.
\<close>

locale rate_store =
  fixes rules_for :: rule_table
    and reserve_op :: "string \<Rightarrow> 's \<Rightarrow> ('e + RateLimitOutcome) \<times> 's"
    and used :: "'s \<Rightarrow> string \<Rightarrow> RateLimit \<Rightarrow> int"
    and inv :: "'s \<Rightarrow> bool"
  assumes reserve_inv: "inv s \<Longrightarrow> inv (snd (reserve_op scope s))"
    and reserve_room: "inv s \<Longrightarrow> reserve_op scope s = (Inr out, s') \<Longrightarrow> ro_allowed out \<longleftrightarrow>
      (\<forall>r \<in> set (rules_for scope). case rl_unit r of
          Requests \<Rightarrow> used s scope r + 1 \<le> rl_limit r | Tokens \<Rightarrow> used s scope r < rl_limit r)"
    and reserve_used: "inv s \<Longrightarrow> reserve_op scope s = (Inr out, s') \<Longrightarrow> r \<in> set (rules_for sc) \<Longrightarrow>
      used s' sc r = used s sc r + (if ro_allowed out \<and> sc = scope \<and> rl_unit r = Requests then 1 else 0)"
begin

lemma check_fail_closed:
  assumes "inv s" and "limiter_check False resolved (\<lambda>rules. reserve_op scope) s = ((out, rules), s', stages)"
    and "resolved = Inl e \<or> resolved = Inr (rules_for scope)" and "ro_allowed out"
    and "r \<in> set (rules_for scope)" and "rl_unit r = Requests"
  shows "used s' scope r \<le> rl_limit r \<and> used s' scope r = used s scope r + 1 \<and> stages = []"
proof -
  have "rules_for scope \<noteq> []" using assms(5) by auto
  then obtain s'' where q: "reserve_op scope s = (Inr out, s')" "resolved = Inr (rules_for scope)" "stages = []"
    using assms(2-4) by (auto simp: limiter_check_def degraded_def split: prod.splits sum.splits)
  show ?thesis
    using reserve_room [OF assms(1) q(1)] reserve_used [OF assms(1) q(1) assms(5)] assms(4-6) q(3) by auto
qed

lemma check_reject_takes_nothing:
  assumes "inv s" and "limiter_check failOpen (Inr (rules_for scope)) (\<lambda>rules. reserve_op scope) s = ((out, rules), s', [])"
    and "\<not> ro_allowed out" and "r \<in> set (rules_for sc)"
  shows "used s' sc r = used s sc r"
proof -
  have "reserve_op scope s = (Inr out, s')"
    using assms(2,3) by (auto simp: limiter_check_def ALLOW_NONE_def split: prod.splits sum.splits if_splits)
  from reserve_used [OF assms(1) this assms(4)] assms(3) show ?thesis by simp
qed

end

text \<open>The in-memory store with its history and its clock.\<close>

type_synonym rate_state = "rate_cells \<times> (string \<times> int) list \<times> int"

definition mem_rate_reserve :: "rule_table \<Rightarrow> string \<Rightarrow> rate_state \<Rightarrow> (unit + RateLimitOutcome) \<times> rate_state" where
  "mem_rate_reserve rules_for scope st =
     (let (m, hist, t) = st; (out, m') = rl_reserve scope (rules_for scope) t m
      in (Inr out, (m', (if ro_allowed out then (scope, t) # hist else hist), t)))"

definition mem_used :: "rate_state \<Rightarrow> string \<Rightarrow> RateLimit \<Rightarrow> int" where
  "mem_used st scope r = (let (m, hist, t) = st in cnt m (cell_key scope r (win_start r t)))"

definition mem_rate_inv :: "rule_table \<Rightarrow> rate_state \<Rightarrow> bool" where
  "mem_rate_inv rules_for st =
     (let (m, hist, t) = st in (\<forall>sc. wf_rules (rules_for sc)) \<and> rate_inv rules_for m hist t)"

interpretation mem_rate: rate_store rules_for "mem_rate_reserve rules_for" mem_used "mem_rate_inv rules_for" for rules_for
proof
  fix st st' :: rate_state and scope sc out r
  obtain m hist t where st: "st = (m, hist, t)" by (cases st)
  assume i: "mem_rate_inv rules_for st"
  then have wf: "\<forall>sc. wf_rules (rules_for sc)" and I: "rate_inv rules_for m hist t" by (simp_all add: mem_rate_inv_def st)
  show "mem_rate_inv rules_for (snd (mem_rate_reserve rules_for scope st))"
    using rate_inv_reserve [OF wf I order_refl, of scope] wf by (simp add: mem_rate_inv_def mem_rate_reserve_def st split_beta split: if_split_asm)
  have ok: "jm_ok m" using I by (simp add: rate_inv_def)
  have l: "\<forall>r \<in> set (rules_for scope). live t m (cell_key scope r (win_start r t))"
    using inv_live [OF wf I _ order_refl] by simp
  note F = rl_reserve_facts [OF ok spec [OF wf] l]
  have mu: "mem_used st sc r = cnt m (cell_key sc r (win_start r t))" for sc r by (simp add: mem_used_def st)
  assume q: "mem_rate_reserve rules_for scope st = (Inr out, st')"
  then have o': "out = fst (rl_reserve scope (rules_for scope) t m)" "fst st' = snd (rl_reserve scope (rules_for scope) t m)"
    "snd (snd st') = t"
    by (auto simp: mem_rate_reserve_def st split_beta)
  show "ro_allowed out \<longleftrightarrow> (\<forall>r \<in> set (rules_for scope). case rl_unit r of
          Requests \<Rightarrow> mem_used st scope r + 1 \<le> rl_limit r | Tokens \<Rightarrow> mem_used st scope r < rl_limit r)"
    unfolding o'(1) F(4) mu ..
  assume r: "r \<in> set (rules_for sc)"
  have k: "(\<exists>r' \<in> set (rules_for scope). rl_unit r' = Requests \<and>
      cell_key sc r (win_start r t) = cell_key scope r' (win_start r' t)) \<longleftrightarrow> sc = scope \<and> rl_unit r = Requests"
    using same_cell [OF wf r] r by metis
  show "mem_used st' sc r = mem_used st sc r + (if ro_allowed out \<and> sc = scope \<and> rl_unit r = Requests then 1 else 0)"
    using F(3) [OF inv_live [OF wf I r order_refl order_refl]] o' unfolding k
    by (simp add: mem_used_def st split_beta)
qed

section \<open>Properties\<close>

text \<open>
  C12. The limit holds in every window. In every run of the in-memory store whose clock does not go
  back, for every scope and every request rule of it, the number of requests admitted in any fixed
  window of the rule is at most the rule's limit; sweeps, commits and the requests of other scopes
  included.
\<close>

theorem rate_limit_holds:
  assumes "\<forall>sc. wf_rules (rules_for sc)" and "rate_run rules_for m hist t"
    and "r \<in> set (rules_for scope)" and "rl_unit r = Requests"
  shows "int (length (filter (\<lambda>(s, u). s = scope \<and> win_start r u = w) hist)) \<le> rl_limit r"
  using rate_run_inv [OF assms(1,2)] assms(3,4) by (auto simp: rate_inv_def tracked_def admitted_in_def)

definition sample_rule :: RateLimit where
  "sample_rule = \<lparr>rl_id = ''rpm'', rl_limit = 2, rl_windowSeconds = 60, rl_unit = Requests\<rparr>"

theorem rate_limit_holds_witness:
  "int (length (filter (\<lambda>(s, u). s = ''ws1'' \<and> win_start sample_rule u = 0)
     (if ro_allowed (fst (rl_reserve ''ws1'' [sample_rule] 5 [])) then [(''ws1'', 5)] else []))) \<le> 2"
proof -
  have "rate_run (\<lambda>sc. [sample_rule]) (snd (rl_reserve ''ws1'' [sample_rule] 5 []))
      (if ro_allowed (fst (rl_reserve ''ws1'' [sample_rule] 5 [])) then [(''ws1'', 5)] else []) 5"
    using rate_run.reserve [OF rate_run.start [of "\<lambda>sc. [sample_rule]" 0], of 5 "''ws1''"] by simp
  from rate_limit_holds [OF _ this, of sample_rule "''ws1''" 0] show ?thesis
    by (simp add: sample_rule_def wf_rules_def)
qed

text \<open>
  A reserve is all or nothing: it admits exactly if every rule has room (one more request, or
  an unexhausted token window), a rejection leaves every live counter as it was, and an admission
  adds one to the counter of each request rule and to no other live counter.
\<close>

theorem rate_reserve_all_or_nothing:
  fixes m :: rate_cells and t :: int and scope :: string
  assumes "jm_ok m" and "wf_rules rules"
    and "\<forall>r \<in> set rules. live t m (cell_key scope r (win_start r t))"
  defines "out \<equiv> rl_reserve scope rules t m"
  shows "(ro_allowed (fst out) \<longleftrightarrow> (\<forall>r \<in> set rules.
      case rl_unit r of Requests \<Rightarrow> cnt m (cell_key scope r (win_start r t)) + 1 \<le> rl_limit r
        | Tokens \<Rightarrow> cnt m (cell_key scope r (win_start r t)) < rl_limit r)) \<and>
    (\<forall>k. live t m k \<longrightarrow> cnt (snd out) k = cnt m k +
      (if ro_allowed (fst out) \<and> (\<exists>r \<in> set rules. rl_unit r = Requests \<and> k = cell_key scope r (win_start r t))
       then 1 else 0))"
  using rl_reserve_facts(3,4) [OF assms(1-3)] unfolding out_def by blast

theorem rate_reserve_all_or_nothing_witness:
  "ro_allowed (fst (rl_reserve ''ws1'' [sample_rule] 5 []))"
  using rate_reserve_all_or_nothing [of "[]" "[sample_rule]" 5 "''ws1''"]
  by (simp add: sample_rule_def wf_rules_def live_def cnt_def)

text \<open>
  The limiter in its fail-closed mode is a hard control: a request it admits under some request
  rule was counted by the store, within the limit, with no degraded stage; a failed rule lookup
  never admits. A request the store rejects consumes nothing.
\<close>

theorem limiter_fail_closed:
  fixes scope :: string
  assumes "mem_rate_inv rules_for s"
    and "limiter_check False resolved (\<lambda>rules. mem_rate_reserve rules_for scope) s = ((out, rules), s', stages)"
    and "resolved = Inl () \<or> resolved = Inr (rules_for scope)"
    and "r \<in> set (rules_for scope)" and "rl_unit r = Requests"
  shows "(ro_allowed out \<longrightarrow> mem_used s' scope r \<le> rl_limit r \<and> mem_used s' scope r = mem_used s scope r + 1 \<and> stages = []) \<and>
    (\<not> ro_allowed out \<longrightarrow> mem_used s' scope r = mem_used s scope r)"
proof -
  have "mem_used s' scope r = mem_used s scope r" if "\<not> ro_allowed out"
  proof (cases resolved)
    case (Inl e)
    then show ?thesis using assms(2) by (simp add: limiter_check_def)
  next
    case (Inr rs)
    then have rs: "resolved = Inr (rules_for scope)" using assms(3) by auto
    then have "stages = []"
      using assms(2) by (auto simp: limiter_check_def mem_rate_reserve_def split_beta split: if_splits)
    then show ?thesis
      using mem_rate.check_reject_takes_nothing [OF assms(1), of False scope out rules s' r scope] assms(2,4) rs that by simp
  qed
  then show ?thesis
    using mem_rate.check_fail_closed [OF assms(1) assms(2) assms(3) _ assms(4,5)] by blast
qed

theorem limiter_fail_closed_witness:
  "mem_used ([], [], 5) ''ws1'' sample_rule = 0 \<and>
   (case limiter_check False (Inr [sample_rule]) (\<lambda>rules. mem_rate_reserve (\<lambda>sc. [sample_rule]) ''ws1'') ([], [], 5) of
      ((out, rules), s', stages) \<Rightarrow> mem_used s' ''ws1'' sample_rule = (if ro_allowed out then 1 else 0))"
proof -
  have "rate_inv (\<lambda>sc. [sample_rule]) [] [] 5"
    by (simp add: rate_inv_def timed_def tracked_def admitted_in_def cnt_def sample_rule_def)
  then have "mem_rate_inv (\<lambda>sc. [sample_rule]) ([], [], 5)" by (simp add: mem_rate_inv_def wf_rules_def sample_rule_def)
  note l = limiter_fail_closed [OF this, of "Inr [sample_rule]" "''ws1''" _ _ _ _ sample_rule]
  have "mem_used ([], [], 5) ''ws1'' sample_rule = 0" by (simp add: mem_used_def cnt_def)
  then show ?thesis using l by (auto simp: sample_rule_def split: prod.split)
qed

end
