(* ===== verification/Breaker.thy ===== *)
theory Breaker
  imports Gulley_Prelude
begin

text \<open>
  The circuit breaker of \<^verbatim>\<open>src/packages/routing/src/circuit-breaker.ts\<close> and its cross-replica sharing
  (\<^verbatim>\<open>breaker-sync.ts\<close>). The breaker is a record of its target states, the state of its sync and the
  hook calls it made. A sync is any implementation of the locale \<open>breaker_sync\<close>: the no-op one and
  the Redis one are interpreted; Redis itself is the arguments of \<open>redis_refresh\<close>.
\<close>

section \<open>Sharing\<close>

text \<open>\<^verbatim>\<open>publishOpen(key, openUntil)\<close> at a time, and \<^verbatim>\<open>sharedOpenUntil(key)\<close>, which may note the key.\<close>

record 'y sync_ops =
  sy_publish :: "string \<Rightarrow> int \<Rightarrow> int \<Rightarrow> 'y \<Rightarrow> 'y"
  sy_shared :: "string \<Rightarrow> 'y \<Rightarrow> int \<times> 'y"

definition noop_sync :: "unit sync_ops" where
  "noop_sync = \<lparr>sy_publish = (\<lambda>key openUntil now y. y), sy_shared = (\<lambda>key y. (0, y))\<rparr>"

record RedisBreakerSync =
  rb_prefix :: string
  rb_known :: "string list"
  rb_snapshot :: "(string, int) jsmap"
  rb_writes :: "(string \<times> string \<times> int) list"

definition redisKey :: "RedisBreakerSync \<Rightarrow> string \<Rightarrow> string" where
  "redisKey y key = rb_prefix y @ '':breaker:'' @ key"

definition note_key :: "string \<Rightarrow> RedisBreakerSync \<Rightarrow> RedisBreakerSync" where
  "note_key key y = y\<lparr>rb_known := (if key \<in> set (rb_known y) then rb_known y else rb_known y @ [key])\<rparr>"

definition redis_publishOpen :: "string \<Rightarrow> int \<Rightarrow> int \<Rightarrow> RedisBreakerSync \<Rightarrow> RedisBreakerSync" where
  "redis_publishOpen key openUntil now y =
     (let y1 = note_key key y; y2 = y1\<lparr>rb_snapshot := jm_set key openUntil (rb_snapshot y1)\<rparr>; ttl = openUntil - now in
      if ttl \<le> 0 then y2
      else y2\<lparr>rb_writes := rb_writes y2 @ [(redisKey y2 key, show_int openUntil, ttl)]\<rparr>)"

definition redis_sharedOpenUntil :: "string \<Rightarrow> RedisBreakerSync \<Rightarrow> int \<times> RedisBreakerSync" where
  "redis_sharedOpenUntil key y =
     (let y1 = note_key key y in (case jm_get (rb_snapshot y1) key of Some u \<Rightarrow> u | None \<Rightarrow> 0, y1))"

text \<open>
  A refresh with the answer of the MGET (\<open>None\<close> when it failed): per known key the number its
  value reads as, if there is a value.
\<close>

fun fresh_snapshot :: "int \<Rightarrow> string list \<Rightarrow> jsnum option list \<Rightarrow> (string, int) jsmap" where
  "fresh_snapshot now (k # ks) (v # vs) =
     (case v of
        Some (Num u) \<Rightarrow>
          if of_int now < u then jm_set k \<lfloor>u\<rfloor> (fresh_snapshot now ks vs) else fresh_snapshot now ks vs
      | _ \<Rightarrow> fresh_snapshot now ks vs)"
| "fresh_snapshot now _ _ = []"

definition redis_refresh :: "int \<Rightarrow> jsnum option list option \<Rightarrow> RedisBreakerSync \<Rightarrow> RedisBreakerSync" where
  "redis_refresh now answer y =
     (if rb_known y = [] then y
      else case answer of
        None \<Rightarrow> y
      | Some values \<Rightarrow> y\<lparr>rb_snapshot := fresh_snapshot now (rb_known y) values\<rparr>)"

definition redis_sync :: "RedisBreakerSync sync_ops" where
  "redis_sync = \<lparr>sy_publish = redis_publishOpen, sy_shared = redis_sharedOpenUntil\<rparr>"

section \<open>The breaker\<close>

record BreakerOptions =
  bo_threshold :: int
  bo_cooldownMs :: int
  bo_maxCooldownMs :: int
  bo_errorRateThreshold :: real
  bo_minSamples :: int
  bo_alpha :: real
  bo_probeTimeoutMs :: int

definition default_breaker_options :: BreakerOptions where
  "default_breaker_options =
     \<lparr>bo_threshold = 5, bo_cooldownMs = 30000, bo_maxCooldownMs = 300000, bo_errorRateThreshold = 0.5,
      bo_minSamples = 20, bo_alpha = 0.2, bo_probeTimeoutMs = 10000\<rparr>"

record CircuitState =
  cs_consecutiveFailures :: int
  cs_ewmaError :: real
  cs_samples :: int
  cs_ejections :: nat
  cs_openUntil :: int
  cs_probeUntil :: int
  cs_tripped :: bool

datatype breaker_hook = OnOpen string | OnClose string | OnHalfOpen string

record 'y breaker =
  brk_state :: "(string, CircuitState) jsmap"
  brk_sync :: 'y
  brk_hooks :: "breaker_hook list"

definition fresh_circuit :: CircuitState where
  "fresh_circuit =
     \<lparr>cs_consecutiveFailures = 0, cs_ewmaError = 0, cs_samples = 0, cs_ejections = 0, cs_openUntil = 0,
      cs_probeUntil = 0, cs_tripped = False\<rparr>"

definition circuit_get :: "string \<Rightarrow> 'y breaker \<Rightarrow> CircuitState" where
  "circuit_get key b = (case jm_get (brk_state b) key of Some s \<Rightarrow> s | None \<Rightarrow> fresh_circuit)"

definition circuit_put :: "string \<Rightarrow> CircuitState \<Rightarrow> 'y breaker \<Rightarrow> 'y breaker" where
  "circuit_put key s b = b\<lparr>brk_state := jm_set key s (brk_state b)\<rparr>"

definition notify :: "breaker_hook \<Rightarrow> 'y breaker \<Rightarrow> 'y breaker" where
  "notify h b = b\<lparr>brk_hooks := brk_hooks b @ [h]\<rparr>"

definition releaseProbe :: "string \<Rightarrow> 'y breaker \<Rightarrow> 'y breaker" where
  "releaseProbe key b =
     (case jm_get (brk_state b) key of
        Some s \<Rightarrow> circuit_put key (s\<lparr>cs_probeUntil := 0\<rparr>) b
      | None \<Rightarrow> b)"

definition read_shared :: "'y sync_ops \<Rightarrow> string \<Rightarrow> 'y breaker \<Rightarrow> int \<times> 'y breaker" where
  "read_shared sy key b = (let (u, y) = sy_shared sy key (brk_sync b) in (u, b\<lparr>brk_sync := y\<rparr>))"

definition isOpen :: "'y sync_ops \<Rightarrow> int \<Rightarrow> string \<Rightarrow> 'y breaker \<Rightarrow> bool \<times> 'y breaker" where
  "isOpen sy now key b =
     (if (case jm_get (brk_state b) key of Some s \<Rightarrow> now < cs_openUntil s | None \<Rightarrow> False) then (True, b)
      else (let (u, b') = read_shared sy key b in (now < u, b')))"

definition tryProbe :: "'y sync_ops \<Rightarrow> BreakerOptions \<Rightarrow> int \<Rightarrow> string \<Rightarrow> 'y breaker \<Rightarrow> bool \<times> 'y breaker" where
  "tryProbe sy opts now key b =
     (case jm_get (brk_state b) key of
        None \<Rightarrow> (True, b)
      | Some s \<Rightarrow>
          if now < cs_openUntil s then (True, b)
          else
            let (u, b1) = read_shared sy key b in
            if now < u then (True, b1)
            else if cs_ejections s = 0 then (True, b1)
            else if now < cs_probeUntil s then (False, b1)
            else (True, notify (OnHalfOpen key) (circuit_put key (s\<lparr>cs_probeUntil := now + bo_probeTimeoutMs opts\<rparr>) b1)))"

definition errorRate :: "string \<Rightarrow> 'y breaker \<Rightarrow> real" where
  "errorRate key b = (case jm_get (brk_state b) key of Some s \<Rightarrow> cs_ewmaError s | None \<Rightarrow> 0)"

definition close_circuit :: "CircuitState \<Rightarrow> CircuitState" where
  "close_circuit s = s\<lparr>cs_ejections := 0, cs_openUntil := 0, cs_probeUntil := 0, cs_tripped := False\<rparr>"

definition recordSuccess :: "BreakerOptions \<Rightarrow> int \<Rightarrow> string \<Rightarrow> 'y breaker \<Rightarrow> 'y breaker" where
  "recordSuccess opts now key b =
     (let s0 = circuit_get key b;
          s = s0\<lparr>cs_consecutiveFailures := 0, cs_ewmaError := cs_ewmaError s0 * (1 - bo_alpha opts),
                 cs_samples := cs_samples s0 + 1\<rparr>
      in if cs_tripped s \<and> cs_openUntil s \<le> now \<and> 0 < cs_ejections s then circuit_put key s b
         else
           let s1 = s\<lparr>cs_probeUntil := 0\<rparr> in
           if cs_openUntil s1 \<le> now \<and> 0 < cs_ejections s1
           then notify (OnClose key) (circuit_put key (close_circuit s1) b)
           else circuit_put key s1 b)"

definition recordRecovered :: "int \<Rightarrow> string \<Rightarrow> 'y breaker \<Rightarrow> 'y breaker" where
  "recordRecovered now key b =
     (case jm_get (brk_state b) key of
        None \<Rightarrow> b
      | Some s \<Rightarrow>
          if cs_ejections s = 0 \<or> now < cs_openUntil s then b
          else notify (OnClose key) (circuit_put key (close_circuit s) b))"

text \<open>\<^verbatim>\<open>open(key, s, retryAfterMs)\<close>: extend the ejection, publish it, and report a fresh one.\<close>

definition open_until :: "BreakerOptions \<Rightarrow> int \<Rightarrow> nat \<Rightarrow> int option \<Rightarrow> int" where
  "open_until opts now ejections retryAfterMs =
     (let backoff = min (bo_cooldownMs opts * 2 ^ (ejections - 1)) (bo_maxCooldownMs opts) in
      now + min (max backoff (case retryAfterMs of Some r \<Rightarrow> r | None \<Rightarrow> 0)) (bo_maxCooldownMs opts))"

definition open_circuit ::
  "'y sync_ops \<Rightarrow> BreakerOptions \<Rightarrow> int \<Rightarrow> string \<Rightarrow> int option \<Rightarrow> CircuitState \<Rightarrow> 'y breaker \<Rightarrow> 'y breaker" where
  "open_circuit sy opts now key retryAfterMs s b =
     (let wasOpen = now < cs_openUntil s;
          until = open_until opts now (cs_ejections s + 1) retryAfterMs;
          b1 = circuit_put key (s\<lparr>cs_ejections := cs_ejections s + 1, cs_openUntil := until\<rparr>) b;
          b2 = b1\<lparr>brk_sync := sy_publish sy key until now (brk_sync b1)\<rparr>
      in if wasOpen then b2 else notify (OnOpen key) b2)"

definition count_failure :: "BreakerOptions \<Rightarrow> CircuitState \<Rightarrow> CircuitState" where
  "count_failure opts s =
     s\<lparr>cs_consecutiveFailures := cs_consecutiveFailures s + 1,
       cs_ewmaError := cs_ewmaError s * (1 - bo_alpha opts) + bo_alpha opts,
       cs_samples := cs_samples s + 1, cs_probeUntil := 0\<rparr>"

definition recordFailure ::
  "'y sync_ops \<Rightarrow> BreakerOptions \<Rightarrow> int \<Rightarrow> string \<Rightarrow> int option \<Rightarrow> 'y breaker \<Rightarrow> 'y breaker" where
  "recordFailure sy opts now key retryAfterMs b =
     (let s0 = count_failure opts (circuit_get key b);
          s = (if cs_tripped s0 \<and> cs_openUntil s0 \<le> now then s0\<lparr>cs_tripped := False\<rparr> else s0);
          tripConsecutive = bo_threshold opts \<le> cs_consecutiveFailures s;
          tripRate = bo_minSamples opts \<le> cs_samples s \<and> bo_errorRateThreshold opts \<le> cs_ewmaError s
      in if tripConsecutive \<or> tripRate then open_circuit sy opts now key retryAfterMs s b
         else circuit_put key s b)"

definition trip ::
  "'y sync_ops \<Rightarrow> BreakerOptions \<Rightarrow> int \<Rightarrow> string \<Rightarrow> int option \<Rightarrow> 'y breaker \<Rightarrow> 'y breaker" where
  "trip sy opts now key retryAfterMs b =
     open_circuit sy opts now key retryAfterMs ((count_failure opts (circuit_get key b))\<lparr>cs_tripped := True\<rparr>) b"

section \<open>The contract of a sync\<close>

text \<open>
  What the breaker relies on: reading changes no answer, publishing a target can only set that
  target's answer to the published instant, and an empty sync says nothing is open.
\<close>

locale breaker_sync =
  fixes sy :: "'y sync_ops"
    and quiet :: 'y
  assumes quiet_shared: "fst (sy_shared sy k quiet) = 0"
    and read_keeps: "fst (sy_shared sy k (snd (sy_shared sy k' y))) = fst (sy_shared sy k y)"
    and publish_other: "k \<noteq> k' \<Longrightarrow> fst (sy_shared sy k (sy_publish sy k' u now y)) = fst (sy_shared sy k y)"
    and publish_self: "fst (sy_shared sy k (sy_publish sy k u now y)) \<in> {u, fst (sy_shared sy k y)}"
begin

definition shared :: "string \<Rightarrow> 'y breaker \<Rightarrow> int" where
  "shared k b = fst (sy_shared sy k (brk_sync b))"

lemma tryProbe_None: "jm_get (brk_state b) k = None \<Longrightarrow> tryProbe sy opts now k b = (True, b)"
  by (simp add: tryProbe_def)

lemma read_shared_facts:
  "fst (read_shared sy k b) = shared k b" "brk_state (snd (read_shared sy k b)) = brk_state b"
  "brk_hooks (snd (read_shared sy k b)) = brk_hooks b" "shared k' (snd (read_shared sy k b)) = shared k' b"
  by (simp_all add: read_shared_def shared_def split_beta Let_def read_keeps)

lemma isOpen_iff:
  "fst (isOpen sy now k b) \<longleftrightarrow> now < cs_openUntil (circuit_get k b) \<or> now < shared k b" if "0 \<le> now"
  using that read_shared_facts(1) [of k b]
  by (auto simp: isOpen_def circuit_get_def fresh_circuit_def split_beta Let_def split: option.splits)

lemma isOpen_state: "brk_state (snd (isOpen sy now k b)) = brk_state b" "shared k' (snd (isOpen sy now k b)) = shared k' b"
  by (simp_all add: isOpen_def split_beta Let_def read_shared_facts)

text \<open>Half open: ejected once, the local and the shared cooldown over.\<close>

definition half_open :: "int \<Rightarrow> string \<Rightarrow> 'y breaker \<Rightarrow> bool" where
  "half_open now k b \<longleftrightarrow> 0 < cs_ejections (circuit_get k b) \<and> cs_openUntil (circuit_get k b) \<le> now \<and> shared k b \<le> now"

lemma tryProbe_half_open:
  assumes "half_open now k b"
  shows "fst (tryProbe sy opts now k b) \<longleftrightarrow> cs_probeUntil (circuit_get k b) \<le> now"
    and "fst (tryProbe sy opts now k b) \<Longrightarrow>
      circuit_get k (snd (tryProbe sy opts now k b)) = (circuit_get k b)\<lparr>cs_probeUntil := now + bo_probeTimeoutMs opts\<rparr>"
  using assms read_shared_facts(1,2) [of k b]
  by (auto simp: half_open_def tryProbe_def circuit_get_def fresh_circuit_def circuit_put_def notify_def jm_get_set
      split_beta Let_def split: option.splits)

end

interpretation noop: breaker_sync noop_sync "()"
  by unfold_locales (simp_all add: noop_sync_def)

definition redis_quiet :: "string \<Rightarrow> RedisBreakerSync" where
  "redis_quiet prefix' = \<lparr>rb_prefix = prefix', rb_known = [], rb_snapshot = [], rb_writes = []\<rparr>"

interpretation redis: breaker_sync redis_sync "redis_quiet pre" for pre
proof
  show "fst (sy_shared redis_sync k (redis_quiet pre)) = 0" for k
    by (simp add: redis_sync_def redis_sharedOpenUntil_def redis_quiet_def note_key_def)
  show "fst (sy_shared redis_sync k (snd (sy_shared redis_sync k' y))) = fst (sy_shared redis_sync k y)" for k k' y
    by (simp add: redis_sync_def redis_sharedOpenUntil_def note_key_def Let_def)
  show "k \<noteq> k' \<Longrightarrow> fst (sy_shared redis_sync k (sy_publish redis_sync k' u now y)) = fst (sy_shared redis_sync k y)" for k k' u now y
    by (simp add: redis_sync_def redis_sharedOpenUntil_def redis_publishOpen_def note_key_def Let_def jm_get_set)
  show "fst (sy_shared redis_sync k (sy_publish redis_sync k u now y)) \<in> {u, fst (sy_shared redis_sync k y)}" for k u now y
    by (simp add: redis_sync_def redis_sharedOpenUntil_def redis_publishOpen_def note_key_def Let_def jm_get_set)
qed


section \<open>Runs\<close>

text \<open>
  A breaker under its clock: time passes, a target's outcome is recorded, a probe is asked for or
  released, or the sync takes a new state (a refresh, a peer's ejection).
\<close>

datatype 'y breaker_event =
    Tick nat | EvSuccess string | EvFailure string "int option" | EvTrip string "int option"
  | EvRecovered string | EvProbe string | EvRelease string | EvIsOpen string | EvPeer 'y

definition breaker_step ::
  "'y sync_ops \<Rightarrow> BreakerOptions \<Rightarrow> int \<times> 'y breaker \<Rightarrow> 'y breaker_event \<Rightarrow> int \<times> 'y breaker" where
  "breaker_step sy opts tb e =
     (let t = fst tb; b = snd tb in
      case e of
        Tick d \<Rightarrow> (t + int d, b)
      | EvSuccess k \<Rightarrow> (t, recordSuccess opts t k b)
      | EvFailure k r \<Rightarrow> (t, recordFailure sy opts t k r b)
      | EvTrip k r \<Rightarrow> (t, trip sy opts t k r b)
      | EvRecovered k \<Rightarrow> (t, recordRecovered t k b)
      | EvProbe k \<Rightarrow> (t, snd (tryProbe sy opts t k b))
      | EvRelease k \<Rightarrow> (t, releaseProbe k b)
      | EvIsOpen k \<Rightarrow> (t, snd (isOpen sy t k b))
      | EvPeer y \<Rightarrow> (t, b\<lparr>brk_sync := y\<rparr>))"

definition fresh_breaker :: "'y \<Rightarrow> 'y breaker" where
  "fresh_breaker y = \<lparr>brk_state = [], brk_sync = y, brk_hooks = []\<rparr>"

fun target_of :: "'y breaker_event \<Rightarrow> string option" where
  "target_of (EvSuccess k) = Some k"
| "target_of (EvFailure k r) = Some k"
| "target_of (EvTrip k r) = Some k"
| "target_of (EvRecovered k) = Some k"
| "target_of (EvProbe k) = Some k"
| "target_of (EvRelease k) = Some k"
| "target_of _ = None"

text \<open>What one event does to one target's circuit.\<close>

lemma circuit_get_put [simp]: "circuit_get k' (circuit_put k s b) = (if k' = k then s else circuit_get k' b)"
  by (simp add: circuit_get_def circuit_put_def jm_get_set)

lemma circuit_get_notify [simp]: "circuit_get k (notify h b) = circuit_get k b"
  by (simp add: circuit_get_def notify_def)

lemma circuit_get_sync [simp]: "circuit_get k (brk_sync_update f b) = circuit_get k b"
  by (simp add: circuit_get_def)

lemma circuit_get_read_shared [simp]: "circuit_get k (snd (read_shared sy k' b)) = circuit_get k b"
  by (simp add: read_shared_def split_beta Let_def)

lemma circuit_get_isOpen [simp]: "circuit_get k (snd (isOpen sy t k' b)) = circuit_get k b"
  by (simp add: isOpen_def split_beta Let_def)

lemma circuit_get_open [simp]:
  "circuit_get k' (open_circuit sy opts t k r s b) =
     (if k' = k then s\<lparr>cs_ejections := cs_ejections s + 1, cs_openUntil := open_until opts t (cs_ejections s + 1) r\<rparr>
      else circuit_get k' b)"
  by (simp add: open_circuit_def Let_def)

lemma circuit_get_None: "jm_get (brk_state b) k = None \<Longrightarrow> circuit_get k b = fresh_circuit"
  by (simp add: circuit_get_def)

lemma circuit_get_Some: "jm_get (brk_state b) k = Some s \<Longrightarrow> circuit_get k b = s"
  by (simp add: circuit_get_def)

lemma recordSuccess_circuit:
  "circuit_get k' (recordSuccess opts t k b) =
     (let s0 = circuit_get k b;
          s = s0\<lparr>cs_consecutiveFailures := 0, cs_ewmaError := cs_ewmaError s0 * (1 - bo_alpha opts), cs_samples := cs_samples s0 + 1\<rparr>
      in if k' \<noteq> k then circuit_get k' b
         else if cs_tripped s0 \<and> cs_openUntil s0 \<le> t \<and> 0 < cs_ejections s0 then s
         else if cs_openUntil s0 \<le> t \<and> 0 < cs_ejections s0 then close_circuit s
         else s\<lparr>cs_probeUntil := 0\<rparr>)"
  by (simp add: recordSuccess_def Let_def close_circuit_def)

lemma recordFailure_circuit:
  "circuit_get k' (recordFailure sy opts t k r b) =
     (let s0 = count_failure opts (circuit_get k b);
          s = (if cs_tripped s0 \<and> cs_openUntil s0 \<le> t then s0\<lparr>cs_tripped := False\<rparr> else s0)
      in if k' \<noteq> k then circuit_get k' b
         else if bo_threshold opts \<le> cs_consecutiveFailures s
                 \<or> bo_minSamples opts \<le> cs_samples s \<and> bo_errorRateThreshold opts \<le> cs_ewmaError s
         then s\<lparr>cs_ejections := cs_ejections s + 1, cs_openUntil := open_until opts t (cs_ejections s + 1) r\<rparr>
         else s)"
  by (simp add: recordFailure_def Let_def)

lemma trip_circuit:
  "circuit_get k' (trip sy opts t k r b) =
     (if k' \<noteq> k then circuit_get k' b
      else let s = count_failure opts (circuit_get k b) in
           s\<lparr>cs_tripped := True, cs_ejections := cs_ejections s + 1, cs_openUntil := open_until opts t (cs_ejections s + 1) r\<rparr>)"
  by (simp add: trip_def Let_def)

lemma recordRecovered_circuit:
  "circuit_get k' (recordRecovered t k b) =
     (if k' = k \<and> 0 < cs_ejections (circuit_get k b) \<and> cs_openUntil (circuit_get k b) \<le> t
      then close_circuit (circuit_get k b) else circuit_get k' b)"
  by (auto simp: recordRecovered_def circuit_get_Some circuit_get_None fresh_circuit_def split: option.splits)

lemma releaseProbe_circuit:
  "circuit_get k' (releaseProbe k b) = (if k' = k then (circuit_get k b)\<lparr>cs_probeUntil := 0\<rparr> else circuit_get k' b)"
  by (auto simp: releaseProbe_def circuit_get_Some circuit_get_None fresh_circuit_def split: option.splits)

lemma tryProbe_circuit:
  "circuit_get k' (snd (tryProbe sy opts t k b)) =
     (if k' = k \<and> 0 < cs_ejections (circuit_get k b) \<and> cs_openUntil (circuit_get k b) \<le> t
         \<and> fst (read_shared sy k b) \<le> t \<and> cs_probeUntil (circuit_get k b) \<le> t
      then (circuit_get k b)\<lparr>cs_probeUntil := t + bo_probeTimeoutMs opts\<rparr> else circuit_get k' b)"
  by (auto simp: tryProbe_def circuit_get_Some circuit_get_None fresh_circuit_def split_beta Let_def split: option.splits)

lemmas circuit_after =
  recordSuccess_circuit recordFailure_circuit trip_circuit recordRecovered_circuit releaseProbe_circuit tryProbe_circuit

lemma step_other_target:
  "target_of e \<noteq> Some k \<Longrightarrow> circuit_get k (snd (breaker_step sy opts tb e)) = circuit_get k (snd tb)"
  by (cases e) (auto simp: breaker_step_def circuit_after Let_def)

lemma step_clock: "fst tb \<le> fst (breaker_step sy opts tb e)"
  by (cases e) (simp_all add: breaker_step_def Let_def)

section \<open>Invariant\<close>

definition options_ok :: "BreakerOptions \<Rightarrow> bool" where
  "options_ok opts \<longleftrightarrow> 0 \<le> bo_alpha opts \<and> bo_alpha opts \<le> 1 \<and> 0 \<le> bo_cooldownMs opts \<and> 0 \<le> bo_maxCooldownMs opts
     \<and> 0 \<le> bo_probeTimeoutMs opts"

definition circuit_ok :: "BreakerOptions \<Rightarrow> int \<Rightarrow> CircuitState \<Rightarrow> bool" where
  "circuit_ok opts t s \<longleftrightarrow>
     0 \<le> cs_ewmaError s \<and> cs_ewmaError s \<le> 1 \<and> cs_openUntil s \<le> t + bo_maxCooldownMs opts
     \<and> cs_probeUntil s \<le> t + bo_probeTimeoutMs opts \<and> 0 \<le> cs_consecutiveFailures s
     \<and> (cs_ejections s = 0 \<longrightarrow> cs_openUntil s = 0 \<and> cs_probeUntil s = 0 \<and> \<not> cs_tripped s)"

lemma open_until_bounds:
  assumes "options_ok opts" and "0 < n"
  shows "open_until opts t n r \<le> t + bo_maxCooldownMs opts"
    and "t + min (bo_cooldownMs opts) (bo_maxCooldownMs opts) \<le> open_until opts t n r"
proof -
  have "bo_cooldownMs opts * 1 \<le> bo_cooldownMs opts * 2 ^ (n - 1)"
    using assms(1) by (intro mult_left_mono) (simp_all add: options_ok_def)
  then show "t + min (bo_cooldownMs opts) (bo_maxCooldownMs opts) \<le> open_until opts t n r"
    by (simp add: open_until_def Let_def)
qed (simp add: open_until_def Let_def)

lemma open_until_retry_after:
  "t + min (case r of Some x \<Rightarrow> x | None \<Rightarrow> 0) (bo_maxCooldownMs opts) \<le> open_until opts t n r"
  by (simp add: open_until_def Let_def)

lemma ewma_step:
  fixes a x :: real
  assumes "0 \<le> a" "a \<le> 1" "0 \<le> x" "x \<le> 1"
  shows "0 \<le> x * (1 - a)" "x * (1 - a) \<le> 1" "0 \<le> x * (1 - a) + a" "x * (1 - a) + a \<le> 1"
proof -
  have m: "x * (1 - a) \<le> 1 * (1 - a)" using assms by (intro mult_right_mono) simp_all
  show "0 \<le> x * (1 - a)" using assms by simp
  then show "x * (1 - a) \<le> 1" "0 \<le> x * (1 - a) + a" "x * (1 - a) + a \<le> 1" using m assms by simp_all
qed

lemma circuit_ok_later: "circuit_ok opts t s \<Longrightarrow> t \<le> t' \<Longrightarrow> circuit_ok opts t' s"
  by (auto simp: circuit_ok_def)

lemma circuit_ok_count:
  "options_ok opts \<Longrightarrow> circuit_ok opts t s \<Longrightarrow> 0 \<le> t \<Longrightarrow> circuit_ok opts t (count_failure opts s)"
  using ewma_step [of "bo_alpha opts" "cs_ewmaError s"]
  by (auto simp: circuit_ok_def count_failure_def options_ok_def)

lemma circuit_ok_opened:
  "options_ok opts \<Longrightarrow> circuit_ok opts t s \<Longrightarrow> 0 \<le> t \<Longrightarrow>
   circuit_ok opts t (s\<lparr>cs_ejections := Suc (cs_ejections s), cs_openUntil := open_until opts t (Suc (cs_ejections s)) r\<rparr>)"
  using open_until_bounds(1) [of opts "Suc (cs_ejections s)" t r] by (auto simp: circuit_ok_def)

lemma circuit_ok_closed: "options_ok opts \<Longrightarrow> circuit_ok opts t s \<Longrightarrow> 0 \<le> t \<Longrightarrow> circuit_ok opts t (close_circuit s)"
  by (auto simp: circuit_ok_def close_circuit_def options_ok_def)

lemma circuit_ok_unprobe: "options_ok opts \<Longrightarrow> circuit_ok opts t s \<Longrightarrow> 0 \<le> t \<Longrightarrow> circuit_ok opts t (s\<lparr>cs_probeUntil := 0\<rparr>)"
  by (auto simp: circuit_ok_def options_ok_def)

definition breaker_ok :: "BreakerOptions \<Rightarrow> int \<times> 'y breaker \<Rightarrow> bool" where
  "breaker_ok opts tb \<longleftrightarrow> options_ok opts \<and> 0 \<le> fst tb \<and> (\<forall>k. circuit_ok opts (fst tb) (circuit_get k (snd tb)))"

lemma circuit_ok_success:
  assumes "options_ok opts" "circuit_ok opts t (circuit_get k b)" "0 \<le> t"
  shows "circuit_ok opts t (circuit_get k (recordSuccess opts t k b))"
proof -
  have "circuit_ok opts t ((circuit_get k b)\<lparr>cs_consecutiveFailures := 0,
      cs_ewmaError := cs_ewmaError (circuit_get k b) * (1 - bo_alpha opts), cs_samples := cs_samples (circuit_get k b) + 1\<rparr>)"
    using ewma_step [of "bo_alpha opts" "cs_ewmaError (circuit_get k b)"] assms by (simp add: circuit_ok_def options_ok_def)
  then show ?thesis
    using assms by (simp add: recordSuccess_circuit Let_def circuit_ok_closed circuit_ok_unprobe)
qed

lemma circuit_ok_failure:
  assumes "options_ok opts" "circuit_ok opts t (circuit_get k b)" "0 \<le> t"
  shows "circuit_ok opts t (circuit_get k (recordFailure sy opts t k r b))"
proof -
  let ?s0 = "count_failure opts (circuit_get k b)"
  define s where "s = (if cs_tripped ?s0 \<and> cs_openUntil ?s0 \<le> t then ?s0\<lparr>cs_tripped := False\<rparr> else ?s0)"
  have ok: "circuit_ok opts t s"
    using circuit_ok_count [OF assms] by (auto simp: s_def circuit_ok_def)
  show ?thesis
    using ok circuit_ok_opened [OF assms(1) ok assms(3)] by (simp add: recordFailure_circuit Let_def flip: s_def)
qed

lemma circuit_ok_trip:
  assumes "options_ok opts" "circuit_ok opts t (circuit_get k b)" "0 \<le> t"
  shows "circuit_ok opts t (circuit_get k (trip sy opts t k r b))"
  using circuit_ok_opened [OF assms(1) circuit_ok_count [OF assms] assms(3), of r]
  by (simp add: trip_circuit Let_def circuit_ok_def)

lemma circuit_ok_probe:
  assumes "options_ok opts" "circuit_ok opts t (circuit_get k b)" "0 \<le> t"
  shows "circuit_ok opts t (circuit_get k (snd (tryProbe sy opts t k b)))"
  using assms by (auto simp: tryProbe_circuit circuit_ok_def)

interpretation breaker_steps: step_system "breaker_step sy opts" "breaker_ok opts" for sy :: "'y sync_ops" and opts
proof
  fix tb :: "int \<times> 'y breaker" and e
  assume ok: "breaker_ok opts tb"
  have "circuit_ok opts (fst (breaker_step sy opts tb e)) (circuit_get k (snd (breaker_step sy opts tb e)))" for k
  proof (cases "target_of e = Some k")
    case False
    then show ?thesis using ok step_clock [of tb sy opts e]
      by (auto simp: step_other_target breaker_ok_def intro: circuit_ok_later)
  next
    case True
    note o = ok [unfolded breaker_ok_def]
    have k: "options_ok opts" "circuit_ok opts (fst tb) (circuit_get k (snd tb))" "0 \<le> fst tb" using o by auto
    show ?thesis
      using True circuit_ok_success [OF k] circuit_ok_failure [OF k] circuit_ok_trip [OF k] circuit_ok_probe [OF k]
        circuit_ok_closed [OF k] circuit_ok_unprobe [OF k] k(2)
      by (cases e) (simp_all add: breaker_step_def Let_def recordRecovered_circuit releaseProbe_circuit)
  qed
  then show "breaker_ok opts (breaker_step sy opts tb e)"
    using ok step_clock [of tb sy opts e] by (auto simp: breaker_ok_def)
qed


lemma fresh_breaker_ok: "options_ok opts \<Longrightarrow> breaker_ok opts (0, fresh_breaker y)"
  by (simp add: breaker_ok_def circuit_ok_def options_ok_def fresh_breaker_def circuit_get_def fresh_circuit_def)

section \<open>What a run does to one target\<close>

text \<open>A property of the target's circuit that every event keeps survives the run.\<close>

lemma run_keeps:
  assumes "\<And>tb e. Q tb \<Longrightarrow> e \<in> set es \<Longrightarrow> Q (step tb e)" and "Q tb"
  shows "Q (foldl step tb es)"
  using assms by (induction es arbitrary: tb) auto

fun ev_resolves :: "string \<Rightarrow> 'y breaker_event \<Rightarrow> bool" where
  "ev_resolves k (EvSuccess k') = (k' = k)"
| "ev_resolves k (EvFailure k' r) = (k' = k)"
| "ev_resolves k (EvTrip k' r) = (k' = k)"
| "ev_resolves k (EvRecovered k') = (k' = k)"
| "ev_resolves k (EvRelease k') = (k' = k)"
| "ev_resolves k _ = False"

fun is_peer :: "'y breaker_event \<Rightarrow> bool" where
  "is_peer (EvPeer y) = True"
| "is_peer _ = False"

fun ticks :: "'y breaker_event list \<Rightarrow> int" where
  "ticks [] = 0"
| "ticks (Tick d # es) = int d + ticks es"
| "ticks (e # es) = ticks es"

lemma run_clock: "fst (foldl (breaker_step sy opts) tb es) = fst tb + ticks es"
proof (induction es arbitrary: tb)
  case (Cons e es)
  then show ?case by (cases e) (simp_all add: breaker_step_def Let_def)
qed simp

lemma ticks_nonneg: "0 \<le> ticks es"
  by (induction es rule: ticks.induct) simp_all

context breaker_sync
begin

lemma shared_simps:
  "shared k (circuit_put k' s b) = shared k b" "shared k (notify h b) = shared k b"
  by (simp_all add: shared_def circuit_put_def notify_def)

lemma shared_open: "k' \<noteq> k \<Longrightarrow> shared k (open_circuit sy opts t k' r s b) = shared k b"
  by (simp add: open_circuit_def shared_def Let_def circuit_put_def notify_def publish_other)

lemma step_shared:
  assumes "\<not> is_peer e" "\<not> ev_resolves k e"
  shows "shared k (snd (breaker_step sy opts tb e)) = shared k (snd tb)"
  using assms
  by (cases e) (auto simp: breaker_step_def Let_def recordSuccess_def recordFailure_def trip_def recordRecovered_def
      releaseProbe_def tryProbe_def split_beta shared_simps shared_open isOpen_state read_shared_facts split: option.splits)

text \<open>The token of a claimed probe is held through every event that does not resolve it.\<close>

definition probe_held :: "string \<Rightarrow> int \<Rightarrow> int \<Rightarrow> int \<times> 'y breaker \<Rightarrow> bool" where
  "probe_held k since u tb \<longleftrightarrow> since \<le> fst tb \<and> 0 < cs_ejections (circuit_get k (snd tb)) \<and> cs_openUntil (circuit_get k (snd tb)) \<le> since
     \<and> shared k (snd tb) \<le> since \<and> u \<le> cs_probeUntil (circuit_get k (snd tb))"

lemma probe_held_step:
  assumes "probe_held k since u tb" "\<not> is_peer e" "\<not> ev_resolves k e" "u \<le> fst tb + bo_probeTimeoutMs opts"
  shows "probe_held k since u (breaker_step sy opts tb e)"
proof (cases "target_of e = Some k")
  case True
  then have "e = EvProbe k" using assms(3) by (cases e) auto
  then show ?thesis
    using assms step_shared [OF assms(2,3), of opts tb] step_clock [of tb sy opts e]
    by (auto simp: probe_held_def breaker_step_def Let_def tryProbe_circuit)
next
  case False
  then show ?thesis
    using assms step_shared [OF assms(2,3), of opts tb] step_clock [of tb sy opts e]
    by (auto simp: probe_held_def step_other_target)
qed

lemma single_probe:
  assumes half: "half_open t k b" and granted: "fst (tryProbe sy opts t k b)"
    and quiet': "\<forall>e\<in>set es. \<not> is_peer e \<and> \<not> ev_resolves k e" and soon: "ticks es < bo_probeTimeoutMs opts"
  defines "tb \<equiv> foldl (breaker_step sy opts) (t, snd (tryProbe sy opts t k b)) es"
  shows "\<not> fst (tryProbe sy opts (fst tb) k (snd tb))"
proof -
  let ?Q = "\<lambda>tb. probe_held k t (t + bo_probeTimeoutMs opts) tb"
  have "shared k (snd (tryProbe sy opts t k b)) = shared k b"
    by (simp add: tryProbe_def split_beta Let_def shared_simps read_shared_facts split: option.splits)
  then have "?Q (t, snd (tryProbe sy opts t k b))"
    using half tryProbe_half_open [OF half, of opts] granted by (auto simp: probe_held_def half_open_def)
  then have held: "?Q tb"
    unfolding tb_def
    by (rule run_keeps [where Q = ?Q, rotated]) (rule probe_held_step, use quiet' in \<open>auto simp: probe_held_def\<close>)
  have clock: "fst tb = t + ticks es" by (simp add: tb_def run_clock)
  have "half_open (fst tb) k (snd tb)"
    using held by (auto simp: probe_held_def half_open_def)
  from tryProbe_half_open(1) [OF this, of opts] show ?thesis using held soon clock by (auto simp: probe_held_def)
qed

end

text \<open>A tripped target.\<close>

fun ev_untrips :: "string \<Rightarrow> 'y breaker_event \<Rightarrow> bool" where
  "ev_untrips k (EvFailure k' r) = (k' = k)"
| "ev_untrips k (EvRecovered k') = (k' = k)"
| "ev_untrips k _ = False"

definition tripped_target :: "string \<Rightarrow> int \<times> 'y breaker \<Rightarrow> bool" where
  "tripped_target k tb \<longleftrightarrow> cs_tripped (circuit_get k (snd tb)) \<and> 0 < cs_ejections (circuit_get k (snd tb))"

lemma tripped_step:
  assumes "tripped_target k tb" "\<not> ev_untrips k e"
  shows "tripped_target k (breaker_step sy opts tb e)"
proof (cases "target_of e = Some k")
  case True
  then show ?thesis
    using assms by (cases e) (auto simp: tripped_target_def breaker_step_def Let_def recordSuccess_circuit trip_circuit
        releaseProbe_circuit tryProbe_circuit count_failure_def)
next
  case False
  then show ?thesis using assms(1) by (simp add: tripped_target_def step_other_target)
qed

text \<open>Failures counted in a row.\<close>

fun failures_of :: "string \<Rightarrow> 'y breaker_event list \<Rightarrow> int" where
  "failures_of k [] = 0"
| "failures_of k (EvFailure k' r # es) = (if k' = k then 1 else 0) + failures_of k es"
| "failures_of k (EvTrip k' r # es) = (if k' = k then 1 else 0) + failures_of k es"
| "failures_of k (e # es) = failures_of k es"

lemma run_failures:
  assumes "EvSuccess k \<notin> set es"
  shows "cs_consecutiveFailures (circuit_get k (snd (foldl (breaker_step sy opts) tb es))) =
    cs_consecutiveFailures (circuit_get k (snd tb)) + failures_of k es"
  using assms
proof (induction es arbitrary: tb)
  case (Cons e es)
  have "cs_consecutiveFailures (circuit_get k (snd (breaker_step sy opts tb e))) + failures_of k es =
      cs_consecutiveFailures (circuit_get k (snd tb)) + failures_of k (e # es)"
    using Cons.prems
    by (cases e) (auto simp: breaker_step_def Let_def circuit_after count_failure_def close_circuit_def)
  then show ?case using Cons by simp
qed simp

lemma failure_opens:
  assumes "options_ok opts" "bo_threshold opts \<le> cs_consecutiveFailures (circuit_get k b) + 1"
  shows "t + min (max (bo_cooldownMs opts) (case r of Some x \<Rightarrow> x | None \<Rightarrow> 0)) (bo_maxCooldownMs opts)
    \<le> cs_openUntil (circuit_get k (recordFailure sy opts t k r b))"
  using assms(2) open_until_bounds(2) [OF assms(1), of "Suc (cs_ejections (circuit_get k b))" t r]
    open_until_retry_after [of t r opts "Suc (cs_ejections (circuit_get k b))"]
  by (auto simp: recordFailure_circuit count_failure_def Let_def)

lemma noop_shared: "noop.shared k b = 0"
  by (subst noop.shared_def) (simp add: noop_sync_def)

section \<open>Properties\<close>

text \<open>
  C24. A target is never wedged. Whatever events a breaker sees, every target's error rate stays between
  0 and 1, its ejection ends at most the maximal cooldown after the present, so that with
  no further event it is no longer open then, and once a pending probe has timed out as well the next
  caller is admitted.
\<close>

theorem breaker_never_wedged:
  assumes "options_ok opts" and "foldl (breaker_step noop_sync opts) (0, fresh_breaker ()) es = (t, b)"
  shows "0 \<le> errorRate k b \<and> errorRate k b \<le> 1
    \<and> \<not> fst (isOpen noop_sync (t + bo_maxCooldownMs opts) k b)
    \<and> fst (tryProbe noop_sync opts (t + max (bo_maxCooldownMs opts) (bo_probeTimeoutMs opts)) k b)"
proof -
  have "breaker_ok opts (t, b)"
    using breaker_steps.run_inv [OF fresh_breaker_ok [OF assms(1)], of noop_sync "()" es] assms(2) by simp
  then have ok: "circuit_ok opts t (circuit_get k b)" and t: "0 \<le> t" by (auto simp: breaker_ok_def)
  have m: "0 \<le> bo_maxCooldownMs opts" using assms(1) by (simp add: options_ok_def)
  have "errorRate k b = cs_ewmaError (circuit_get k b)"
    by (simp add: errorRate_def circuit_get_def fresh_circuit_def split: option.split)
  moreover have "\<not> fst (isOpen noop_sync (t + bo_maxCooldownMs opts) k b)"
    using ok t m noop.isOpen_iff [of "t + bo_maxCooldownMs opts" k b] by (simp add: circuit_ok_def noop_shared)
  moreover have "fst (tryProbe noop_sync opts (t + max (bo_maxCooldownMs opts) (bo_probeTimeoutMs opts)) k b)"
    using ok by (auto simp: tryProbe_def circuit_get_def circuit_ok_def split_beta Let_def split: option.splits)
  ultimately show ?thesis using ok by (simp add: circuit_ok_def)
qed

theorem breaker_never_wedged_witness:
  "options_ok default_breaker_options
   \<and> (let tb = foldl (breaker_step noop_sync default_breaker_options) (0, fresh_breaker ()) [Tick 7, EvTrip ''p'' None]
      in fst (isOpen noop_sync (fst tb) ''p'' (snd tb)) \<and> \<not> fst (isOpen noop_sync (fst tb + 300000) ''p'' (snd tb)))"
proof -
  have o: "options_ok default_breaker_options" by (simp add: options_ok_def default_breaker_options_def)
  let ?tb = "foldl (breaker_step noop_sync default_breaker_options) (0, fresh_breaker ()) [Tick 7, EvTrip ''p'' None]"
  have "fst (isOpen noop_sync (fst ?tb) ''p'' (snd ?tb))" by code_simp
  moreover have "\<not> fst (isOpen noop_sync (fst ?tb + 300000) ''p'' (snd ?tb))"
    using breaker_never_wedged [OF o prod.collapse [symmetric, of ?tb], of "''p''"]
    by (simp add: default_breaker_options_def)
  ultimately show ?thesis using o by (simp add: Let_def)
qed

text \<open>
  Recovery is single-probed. On a replica with Redis sharing, once a caller has been granted the
  probe of a half-open target, no other caller is granted one before the probe timeout, whatever
  happens to other targets and however often it is asked for, unless the probe is resolved (success,
  failure, trip, recovery), released, or a peer's state arrives.
\<close>

theorem half_open_single_probe:
  assumes "0 < cs_ejections (circuit_get k b)" and "cs_openUntil (circuit_get k b) \<le> t"
    and "fst (redis_sharedOpenUntil k (brk_sync b)) \<le> t" and "fst (tryProbe redis_sync opts t k b)"
    and "\<forall>e\<in>set es. \<not> is_peer e \<and> \<not> ev_resolves k e" and "ticks es < bo_probeTimeoutMs opts"
    and "foldl (breaker_step redis_sync opts) (t, snd (tryProbe redis_sync opts t k b)) es = (t', b')"
  shows "\<not> fst (tryProbe redis_sync opts t' k b')"
proof -
  have "redis.half_open t k b"
    using assms(1-3) by (simp add: redis.half_open_def redis.shared_def) (simp add: redis_sync_def)
  from redis.single_probe [OF this assms(4-6)] show ?thesis using assms(7) by simp
qed

definition sample_half_open :: "RedisBreakerSync breaker" where
  "sample_half_open = trip redis_sync default_breaker_options 0 ''p'' None (fresh_breaker (redis_quiet ''g''))"

theorem half_open_single_probe_witness:
  "fst (tryProbe redis_sync default_breaker_options 40000 ''p'' sample_half_open) \<and>
   (let tb = foldl (breaker_step redis_sync default_breaker_options)
      (40000, snd (tryProbe redis_sync default_breaker_options 40000 ''p'' sample_half_open)) [Tick 9000, EvProbe ''p'', EvFailure ''q'' None]
    in \<not> fst (tryProbe redis_sync default_breaker_options (fst tb) ''p'' (snd tb)))"
proof -
  have c: "circuit_get ''p'' sample_half_open = \<lparr>cs_consecutiveFailures = 1, cs_ewmaError = 0.2, cs_samples = 1, cs_ejections = 1,
      cs_openUntil = 30000, cs_probeUntil = 0, cs_tripped = True\<rparr>"
    by (simp add: sample_half_open_def trip_circuit count_failure_def fresh_breaker_def circuit_get_None fresh_circuit_def
        open_until_def default_breaker_options_def)
  have "brk_sync sample_half_open = redis_publishOpen ''p'' 30000 0 (redis_quiet ''g'')"
    by (simp add: sample_half_open_def trip_def open_circuit_def count_failure_def circuit_get_def fresh_breaker_def
        fresh_circuit_def open_until_def default_breaker_options_def circuit_put_def notify_def Let_def)
      (simp add: redis_sync_def)
  then have h: "0 < cs_ejections (circuit_get ''p'' sample_half_open)" "cs_openUntil (circuit_get ''p'' sample_half_open) \<le> 40000"
    "fst (redis_sharedOpenUntil ''p'' (brk_sync sample_half_open)) \<le> 40000"
    using c by (simp_all add: redis_sharedOpenUntil_def redis_publishOpen_def note_key_def Let_def jm_get_set)
  then have "redis.half_open 40000 ''p'' sample_half_open"
    by (simp add: redis.half_open_def redis.shared_def) (simp add: redis_sync_def)
  from redis.tryProbe_half_open(1) [OF this]
  have g: "fst (tryProbe redis_sync default_breaker_options 40000 ''p'' sample_half_open)" using c by simp
  have "\<forall>e\<in>set [Tick 9000, EvProbe ''p'', EvFailure ''q'' None]. \<not> is_peer e \<and> \<not> ev_resolves ''p'' e"
    "ticks [Tick 9000, EvProbe ''p'', EvFailure ''q'' None] < bo_probeTimeoutMs default_breaker_options"
    by (simp_all add: default_breaker_options_def)
  from half_open_single_probe [OF h g this prod.collapse [symmetric]] show ?thesis using g unfolding Let_def by blast
qed

text \<open>
  A target ejected by a run of stalls does not close on a first-byte success: through any
  run of events in which it neither ends a stream cleanly nor fails an ordinary request, it stays
  ejected and marked, whatever else happens.
\<close>

theorem tripped_needs_recovery:
  assumes "\<forall>e\<in>set es. \<not> ev_untrips k e"
  shows "tripped_target k (foldl (breaker_step sy opts) (t, trip sy opts t k r b) es)"
proof (rule run_keeps [where Q = "tripped_target k"])
  show "tripped_target k tb \<Longrightarrow> e \<in> set es \<Longrightarrow> tripped_target k (breaker_step sy opts tb e)" for tb e
    using assms tripped_step by blast
  show "tripped_target k (t, trip sy opts t k r b)" by (simp add: tripped_target_def trip_circuit Let_def)
qed

theorem tripped_needs_recovery_witness:
  "tripped_target ''p'' (foldl (breaker_step noop_sync default_breaker_options)
     (0, trip noop_sync default_breaker_options 0 ''p'' None (fresh_breaker ()))
     [Tick 40000, EvProbe ''p'', EvSuccess ''p'', Tick 10000, EvSuccess ''p''])"
  by (rule tripped_needs_recovery) simp

text \<open>
  Consecutive failures eject. When a target has failed at least the threshold number of times with no
  success between, in any interleaving with time and other targets, the last failure leaves it open on
  every replica clock before the cooldown (or the upstream's Retry-After, if longer), capped by
  the maximal cooldown, is over.
\<close>

theorem consecutive_failures_open:
  assumes "options_ok opts" and "EvSuccess k \<notin> set es"
    and "bo_threshold opts \<le> failures_of k es + 1"
    and "foldl (breaker_step noop_sync opts) (0, fresh_breaker ()) (es @ [EvFailure k r]) = (t, b)"
    and "t \<le> now" and "now < t + min (max (bo_cooldownMs opts) (case r of Some x \<Rightarrow> x | None \<Rightarrow> 0)) (bo_maxCooldownMs opts)"
  shows "fst (isOpen noop_sync now k b)"
proof -
  define tb where "tb = foldl (breaker_step noop_sync opts) (0, fresh_breaker ()) es"
  have tb: "t = fst tb" "b = recordFailure noop_sync opts (fst tb) k r (snd tb)"
    using assms(4) by (auto simp: tb_def breaker_step_def Let_def)
  have c: "cs_consecutiveFailures (circuit_get k (snd tb)) = failures_of k es"
    using run_failures [OF assms(2), of noop_sync opts "(0, fresh_breaker ())"]
    by (simp add: tb_def fresh_breaker_def circuit_get_def fresh_circuit_def)
  have "0 \<le> now" using assms(5) run_clock [of noop_sync opts "(0, fresh_breaker ())" es] ticks_nonneg [of es] tb(1)
    by (simp add: tb_def)
  moreover have "now < cs_openUntil (circuit_get k b)"
    using failure_opens [OF assms(1), of k "snd tb" "fst tb" r noop_sync] assms(3,6) c tb by simp
  ultimately show ?thesis using noop.isOpen_iff by blast
qed

theorem consecutive_failures_open_witness:
  "let es = [EvFailure ''p'' None, Tick 5, EvFailure ''p'' None, EvSuccess ''q'', EvFailure ''p'' None, EvFailure ''p'' None];
       tb = foldl (breaker_step noop_sync default_breaker_options) (0, fresh_breaker ()) (es @ [EvFailure ''p'' (Some 60000)])
   in fst (isOpen noop_sync (fst tb + 59999) ''p'' (snd tb))"
proof -
  have o: "options_ok default_breaker_options" by (simp add: options_ok_def default_breaker_options_def)
  show ?thesis
    unfolding Let_def
    by (rule consecutive_failures_open [OF o _ _ prod.collapse [symmetric]]) (simp_all add: default_breaker_options_def)
qed

end
