(* ===== verification/Target_Health.thy ===== *)
theory Target_Health
  imports Gulley_Prelude
begin

text \<open>
  The latency side of upstream health: the passive outlier detector of
  \<^verbatim>\<open>src/packages/routing/src/outlier.ts\<close> and the adaptive concurrency limiter of
  \<^verbatim>\<open>adaptive-limit.ts\<close>. Latencies, EWMAs and limits are exact reals, instants whole milliseconds, and an
  infinite baseline is \<open>None\<close>. Both are state machines under the clock they are handed.
\<close>

section \<open>Outlier detector\<close>

record OutlierOptions =
  oo_alpha :: real
  oo_minSamples :: int
  oo_latencyFactor :: real
  oo_minEjectLatencyMs :: real
  oo_baseEjectMs :: int
  oo_maxEjectMs :: int

definition default_outlier_options :: OutlierOptions where
  "default_outlier_options =
     \<lparr>oo_alpha = 0.3, oo_minSamples = 20, oo_latencyFactor = 3, oo_minEjectLatencyMs = 500,
      oo_baseEjectMs = 30000, oo_maxEjectMs = 300000\<rparr>"

record OutlierState =
  os_ewmaLatency :: real
  os_samples :: int
  os_ejections :: nat
  os_ejectedUntil :: int

type_synonym OutlierDetector = "(string, OutlierState) jsmap"

definition fresh_outlier :: OutlierState where
  "fresh_outlier = \<lparr>os_ewmaLatency = 0, os_samples = 0, os_ejections = 0, os_ejectedUntil = 0\<rparr>"

definition outlier_get :: "OutlierDetector \<Rightarrow> string \<Rightarrow> OutlierState" where
  "outlier_get d key = (case jm_get d key of Some s \<Rightarrow> s | None \<Rightarrow> fresh_outlier)"

definition isEjected :: "int \<Rightarrow> OutlierDetector \<Rightarrow> string \<Rightarrow> bool" where
  "isEjected now d key = (case jm_get d key of Some s \<Rightarrow> now < os_ejectedUntil s | None \<Rightarrow> False)"

definition latency :: "OutlierDetector \<Rightarrow> string \<Rightarrow> real" where
  "latency d key = (case jm_get d key of Some s \<Rightarrow> os_ewmaLatency s | None \<Rightarrow> 0)"

definition eligible_peer :: "OutlierOptions \<Rightarrow> int \<Rightarrow> OutlierDetector \<Rightarrow> string \<Rightarrow> string \<Rightarrow> bool" where
  "eligible_peer opts now d key p \<longleftrightarrow>
     p \<noteq> key \<and>
     (case jm_get d p of Some ps \<Rightarrow> oo_minSamples opts \<le> os_samples ps \<and> os_ejectedUntil ps \<le> now | None \<Rightarrow> False)"

fun peer_sum :: "OutlierOptions \<Rightarrow> int \<Rightarrow> OutlierDetector \<Rightarrow> string \<Rightarrow> string list \<Rightarrow> real \<times> nat" where
  "peer_sum opts now d key [] = (0, 0)"
| "peer_sum opts now d key (p # ps) =
     (let (s, n) = peer_sum opts now d key ps in
      if eligible_peer opts now d key p then (latency d p + s, Suc n) else (s, n))"

definition peerBaseline :: "OutlierOptions \<Rightarrow> int \<Rightarrow> OutlierDetector \<Rightarrow> string \<Rightarrow> string list \<Rightarrow> real option" where
  "peerBaseline opts now d key peerKeys =
     (let (s, n) = peer_sum opts now d key peerKeys in if n = 0 then None else Some (s / real n))"

definition sample_latency :: "OutlierOptions \<Rightarrow> int \<Rightarrow> real \<Rightarrow> OutlierState \<Rightarrow> OutlierState" where
  "sample_latency opts now ms s0 =
     (let s = (if 0 < os_ejectedUntil s0 \<and> os_ejectedUntil s0 \<le> now
               then s0\<lparr>os_ewmaLatency := ms, os_ejectedUntil := 0\<rparr>
               else if os_samples s0 = 0 then s0\<lparr>os_ewmaLatency := ms\<rparr>
               else s0\<lparr>os_ewmaLatency := os_ewmaLatency s0 * (1 - oo_alpha opts) + oo_alpha opts * ms\<rparr>)
      in s\<lparr>os_samples := os_samples s + 1\<rparr>)"

definition slow_against :: "OutlierOptions \<Rightarrow> real option \<Rightarrow> OutlierState \<Rightarrow> bool" where
  "slow_against opts baseline s =
     (case baseline of
        None \<Rightarrow> False
      | Some base \<Rightarrow>
          oo_minSamples opts \<le> os_samples s
          \<and> max (base * oo_latencyFactor opts) (oo_minEjectLatencyMs opts) \<le> os_ewmaLatency s)"

definition recordLatency ::
  "OutlierOptions \<Rightarrow> int \<Rightarrow> string \<Rightarrow> real \<Rightarrow> string list \<Rightarrow> OutlierDetector \<Rightarrow> OutlierDetector" where
  "recordLatency opts now key ms peerKeys d =
     (let s = sample_latency opts now ms (outlier_get d key);
          d1 = jm_set key s d;
          slow = slow_against opts (peerBaseline opts now d1 key peerKeys) s
      in if slow \<and> os_ejectedUntil s \<le> now
         then jm_set key (s\<lparr>os_ejections := os_ejections s + 1,
                os_ejectedUntil := now + min (oo_baseEjectMs opts * 2 ^ os_ejections s) (oo_maxEjectMs opts)\<rparr>) d1
         else if \<not> slow then jm_set key (s\<lparr>os_ejections := 0\<rparr>) d1
         else d1)"

section \<open>Adaptive concurrency limiter\<close>

record AdaptiveOptions =
  ao_minLimit :: int
  ao_maxLimit :: int
  ao_initialLimit :: int
  ao_backoffRatio :: real
  ao_smoothing :: real
  ao_baselineWindowMs :: int

text \<open>The constructor clamps what it is given; an absent option has its default.\<close>

record AdaptiveLimiterOptions =
  al_minLimit :: "int option"
  al_maxLimit :: "int option"
  al_initialLimit :: "int option"
  al_backoffRatio :: "real option"
  al_smoothing :: "real option"
  al_baselineWindowMs :: "int option"

definition or_else :: "'a option \<Rightarrow> 'a \<Rightarrow> 'a" where
  "or_else x y = (case x of Some v \<Rightarrow> v | None \<Rightarrow> y)"

definition adaptive_options :: "AdaptiveLimiterOptions \<Rightarrow> AdaptiveOptions" where
  "adaptive_options opts =
     (let minL = max 1 (or_else (al_minLimit opts) 4); maxL = max minL (or_else (al_maxLimit opts) 200) in
      \<lparr>ao_minLimit = minL, ao_maxLimit = maxL,
       ao_initialLimit = min maxL (max minL (or_else (al_initialLimit opts) 20)),
       ao_backoffRatio = min 0.99 (max 0.5 (or_else (al_backoffRatio opts) 0.9)),
       ao_smoothing = min 1 (max 0.01 (or_else (al_smoothing opts) 0.2)),
       ao_baselineWindowMs = max 1000 (or_else (al_baselineWindowMs opts) 60000)\<rparr>)"

record TargetState =
  tg_limit :: real
  tg_inflight :: int
  tg_baseline :: "real option"
  tg_windowMin :: "real option"
  tg_windowStartMs :: int

type_synonym AdaptiveLimiter = "(string, TargetState) jsmap"

definition fresh_target :: "AdaptiveOptions \<Rightarrow> int \<Rightarrow> TargetState" where
  "fresh_target a now =
     \<lparr>tg_limit = of_int (ao_initialLimit a), tg_inflight = 0, tg_baseline = None, tg_windowMin = None, tg_windowStartMs = now\<rparr>"

definition target_get :: "AdaptiveOptions \<Rightarrow> int \<Rightarrow> AdaptiveLimiter \<Rightarrow> string \<Rightarrow> TargetState" where
  "target_get a now l name = (case jm_get l name of Some s \<Rightarrow> s | None \<Rightarrow> fresh_target a now)"

definition slot_ceiling :: "AdaptiveOptions \<Rightarrow> TargetState \<Rightarrow> int" where
  "slot_ceiling a s = max (ao_minLimit a) \<lfloor>tg_limit s\<rfloor>"

definition tryAcquire :: "AdaptiveOptions \<Rightarrow> int \<Rightarrow> string \<Rightarrow> AdaptiveLimiter \<Rightarrow> bool \<times> AdaptiveLimiter" where
  "tryAcquire a now name l =
     (let s = target_get a now l name in
      if slot_ceiling a s \<le> tg_inflight s then (False, jm_set name s l)
      else (True, jm_set name (s\<lparr>tg_inflight := tg_inflight s + 1\<rparr>) l))"

definition free_slot :: "TargetState \<Rightarrow> TargetState" where
  "free_slot s = s\<lparr>tg_inflight := max 0 (tg_inflight s - 1)\<rparr>"

text \<open>The windowed minimum; \<open>min_inf\<close> is the minimum where \<open>None\<close> is infinite.\<close>

definition min_inf :: "real option \<Rightarrow> real \<Rightarrow> real" where
  "min_inf x y = (case x of Some v \<Rightarrow> min v y | None \<Rightarrow> y)"

definition observe_rtt :: "AdaptiveOptions \<Rightarrow> int \<Rightarrow> real \<Rightarrow> TargetState \<Rightarrow> TargetState" where
  "observe_rtt a now rtt s0 =
     (let s = (if ao_baselineWindowMs a \<le> now - tg_windowStartMs s0
               then s0\<lparr>tg_baseline := tg_windowMin s0, tg_windowMin := None, tg_windowStartMs := now\<rparr> else s0)
      in s\<lparr>tg_windowMin := Some (min_inf (tg_windowMin s) rtt)\<rparr>)"

definition rtt_no_load :: "TargetState \<Rightarrow> real \<Rightarrow> real" where
  "rtt_no_load s rtt = min_inf (tg_baseline s) (min_inf (tg_windowMin s) rtt)"

definition gradient_limit :: "AdaptiveOptions \<Rightarrow> real \<Rightarrow> TargetState \<Rightarrow> real" where
  "gradient_limit a rtt s =
     (let gradient = max (1 / 2) (min 1 (rtt_no_load s rtt / rtt));
          newLimit = tg_limit s * gradient + sqrt (tg_limit s)
      in min (of_int (ao_maxLimit a))
           (max (of_int (ao_minLimit a)) (tg_limit s * (1 - ao_smoothing a) + newLimit * ao_smoothing a)))"

definition record_target :: "AdaptiveOptions \<Rightarrow> int \<Rightarrow> real \<Rightarrow> bool \<Rightarrow> TargetState \<Rightarrow> TargetState" where
  "record_target a now rttMs dropped s0 =
     (let s = free_slot s0 in
      if dropped then s\<lparr>tg_limit := max (of_int (ao_minLimit a)) (tg_limit s * ao_backoffRatio a)\<rparr>
      else
        let rtt = max 1 rttMs; s1 = observe_rtt a now rtt s in
        if of_int (tg_inflight s1) + 1 < tg_limit s1 / 2 then s1
        else s1\<lparr>tg_limit := gradient_limit a rtt s1\<rparr>)"

definition record_slot :: "AdaptiveOptions \<Rightarrow> int \<Rightarrow> string \<Rightarrow> real \<Rightarrow> bool \<Rightarrow> AdaptiveLimiter \<Rightarrow> AdaptiveLimiter" where
  "record_slot a now name rttMs dropped l = jm_set name (record_target a now rttMs dropped (target_get a now l name)) l"

definition release_slot :: "AdaptiveOptions \<Rightarrow> int \<Rightarrow> string \<Rightarrow> AdaptiveLimiter \<Rightarrow> AdaptiveLimiter" where
  "release_slot a now name l = jm_set name (free_slot (target_get a now l name)) l"

definition currentLimit :: "AdaptiveOptions \<Rightarrow> int \<Rightarrow> string \<Rightarrow> AdaptiveLimiter \<Rightarrow> int" where
  "currentLimit a now name l = slot_ceiling a (target_get a now l name)"

definition inFlight :: "AdaptiveOptions \<Rightarrow> int \<Rightarrow> string \<Rightarrow> AdaptiveLimiter \<Rightarrow> int" where
  "inFlight a now name l = tg_inflight (target_get a now l name)"

section \<open>Facts about the detector\<close>

lemma outlier_get_set: "outlier_get (jm_set k s d) k' = (if k' = k then s else outlier_get d k')"
  by (simp add: outlier_get_def jm_get_set)

lemma peer_sum_eligible: "snd (peer_sum opts now d key ps) = length (filter (eligible_peer opts now d key) ps)"
  by (induction ps) (simp_all add: split_beta Let_def)

lemma peerBaseline_None: "peerBaseline opts now d key ps = None \<longleftrightarrow> (\<forall>p\<in>set ps. \<not> eligible_peer opts now d key p)"
  using peer_sum_eligible [of opts now d key ps] by (auto simp: peerBaseline_def split_beta Let_def filter_empty_conv)

lemma eligible_peer_set: "eligible_peer opts now (jm_set key s d) key p = eligible_peer opts now d key p"
  by (auto simp: eligible_peer_def jm_get_set)

lemma latency_set: "p \<noteq> key \<Longrightarrow> latency (jm_set key s d) p = latency d p"
  by (simp add: latency_def jm_get_set)

lemma peer_sum_lower:
  assumes "\<And>p. p \<in> set ps \<Longrightarrow> eligible_peer opts now d key p \<Longrightarrow> x \<le> latency d p"
  shows "x * real (snd (peer_sum opts now d key ps)) \<le> fst (peer_sum opts now d key ps)"
  using assms
proof (induction ps)
  case (Cons p ps)
  have "x * real (snd (peer_sum opts now d key ps)) \<le> fst (peer_sum opts now d key ps)" using Cons by auto
  then show ?case using Cons.prems [of p] by (auto simp: split_beta Let_def algebra_simps)
qed simp

lemma peerBaseline_lower:
  assumes "peerBaseline opts now d key ps = Some y"
    and "\<And>p. p \<in> set ps \<Longrightarrow> eligible_peer opts now d key p \<Longrightarrow> x \<le> latency d p"
  shows "x \<le> y"
proof -
  let ?n = "snd (peer_sum opts now d key ps)"
  have y: "y = fst (peer_sum opts now d key ps) / real ?n" "0 < ?n"
    using assms(1) by (auto simp: peerBaseline_def split_beta Let_def split: if_splits)
  then show ?thesis using peer_sum_lower [of ps opts now d key x] assms(2) by (simp add: pos_le_divide_eq)
qed

lemma sample_latency_until:
  "os_ejectedUntil (sample_latency opts now ms s) =
     (if 0 < os_ejectedUntil s \<and> os_ejectedUntil s \<le> now then 0 else os_ejectedUntil s)"
  by (simp add: sample_latency_def Let_def)

text \<open>A latency sample changes the target it is for only, and ejects it only when it is slow against its peers.\<close>

lemma recordLatency_other: "k \<noteq> key \<Longrightarrow> outlier_get (recordLatency opts now key ms ps d) k = outlier_get d k"
  by (simp add: recordLatency_def Let_def outlier_get_set)

lemma isEjected_iff: "0 \<le> now \<Longrightarrow> isEjected now d k \<longleftrightarrow> now < os_ejectedUntil (outlier_get d k)"
  by (auto simp: isEjected_def outlier_get_def fresh_outlier_def split: option.splits)

lemma newly_ejected:
  assumes "0 \<le> now" "isEjected now (recordLatency opts now key ms ps d) key" "\<not> isEjected now d key"
  shows "\<exists>base. peerBaseline opts now (jm_set key (sample_latency opts now ms (outlier_get d key)) d) key ps = Some base
    \<and> max (base * oo_latencyFactor opts) (oo_minEjectLatencyMs opts) \<le> os_ewmaLatency (sample_latency opts now ms (outlier_get d key))
    \<and> oo_minSamples opts \<le> os_samples (sample_latency opts now ms (outlier_get d key))"
  using assms
  by (auto simp: isEjected_iff recordLatency_def Let_def outlier_get_set sample_latency_until slow_against_def
      split: if_splits option.splits)

definition outlier_ok :: "OutlierOptions \<Rightarrow> int \<Rightarrow> OutlierDetector \<Rightarrow> bool" where
  "outlier_ok opts now d \<longleftrightarrow> 0 \<le> now \<and> 0 \<le> oo_maxEjectMs opts \<and> (\<forall>k. os_ejectedUntil (outlier_get d k) \<le> now + oo_maxEjectMs opts)"

datatype outlier_event = OTick nat | OLatency string real "string list"

definition outlier_step :: "OutlierOptions \<Rightarrow> int \<times> OutlierDetector \<Rightarrow> outlier_event \<Rightarrow> int \<times> OutlierDetector" where
  "outlier_step opts td e =
     (case e of OTick n \<Rightarrow> (fst td + int n, snd td)
      | OLatency k ms ps \<Rightarrow> (fst td, recordLatency opts (fst td) k ms ps (snd td)))"

lemma outlier_ok_record:
  assumes "outlier_ok opts now d"
  shows "outlier_ok opts now (recordLatency opts now key ms ps d)"
proof -
  have "os_ejectedUntil (outlier_get (recordLatency opts now key ms ps d) k) \<le> now + oo_maxEjectMs opts" for k
    using assms sample_latency_until [of opts now ms "outlier_get d key"]
    by (cases "k = key") (auto simp: recordLatency_other, auto simp: recordLatency_def outlier_ok_def outlier_get_set Let_def)
  then show ?thesis using assms by (simp add: outlier_ok_def)
qed

interpretation outlier_steps: step_system "outlier_step opts" "\<lambda>td. outlier_ok opts (fst td) (snd td)" for opts
proof
  fix td e assume "outlier_ok opts (fst td) (snd td)"
  then show "outlier_ok opts (fst (outlier_step opts td e)) (snd (outlier_step opts td e))"
    by (cases e) (auto simp: outlier_step_def outlier_ok_record outlier_ok_def [of opts "_ + int _"] outlier_ok_def [of opts "fst td" "snd td"]
        intro: order_trans)
qed


section \<open>Facts about the limiter\<close>

definition adaptive_ok :: "AdaptiveOptions \<Rightarrow> TargetState \<Rightarrow> bool" where
  "adaptive_ok a s \<longleftrightarrow>
     of_int (ao_minLimit a) \<le> tg_limit s \<and> tg_limit s \<le> of_int (ao_maxLimit a)
     \<and> 0 \<le> tg_inflight s \<and> tg_inflight s \<le> ao_maxLimit a"

lemma adaptive_options_facts:
  fixes opts :: AdaptiveLimiterOptions
  defines "a \<equiv> adaptive_options opts"
  shows "1 \<le> ao_minLimit a" "ao_minLimit a \<le> ao_initialLimit a" "ao_initialLimit a \<le> ao_maxLimit a" "ao_minLimit a \<le> ao_maxLimit a"
    "1 / 2 \<le> ao_backoffRatio a" "ao_backoffRatio a < 1" "0 < ao_smoothing a" "ao_smoothing a \<le> 1" "1000 \<le> ao_baselineWindowMs a"
  by (auto simp: a_def adaptive_options_def Let_def)

lemma fresh_target_ok: "adaptive_ok (adaptive_options opts) (fresh_target (adaptive_options opts) now)"
  using adaptive_options_facts [of opts] by (simp add: adaptive_ok_def fresh_target_def)

lemma target_get_set: "target_get a now (jm_set k s l) k' = (if k' = k then s else target_get a now l k')"
  by (simp add: target_get_def jm_get_set)

lemma slot_ceiling_bounds:
  "ao_minLimit a \<le> ao_maxLimit a \<Longrightarrow> adaptive_ok a s \<Longrightarrow> ao_minLimit a \<le> slot_ceiling a s \<and> slot_ceiling a s \<le> ao_maxLimit a"
  by (simp add: slot_ceiling_def adaptive_ok_def) linarith

lemma free_slot_ok: "adaptive_ok a s \<Longrightarrow> adaptive_ok a (free_slot s)"
  by (auto simp: adaptive_ok_def free_slot_def)

lemma observe_rtt_keeps [simp]:
  "tg_limit (observe_rtt a now rtt s) = tg_limit s" "tg_inflight (observe_rtt a now rtt s) = tg_inflight s"
  by (simp_all add: observe_rtt_def Let_def)

lemma observe_rtt_ok: "adaptive_ok a s \<Longrightarrow> adaptive_ok a (observe_rtt a now rtt s)"
  by (simp add: adaptive_ok_def)

lemma gradient_limit_bounds:
  "ao_minLimit a \<le> ao_maxLimit a \<Longrightarrow>
   of_int (ao_minLimit a) \<le> gradient_limit a r s \<and> gradient_limit a r s \<le> of_int (ao_maxLimit a)"
  by (simp add: gradient_limit_def Let_def)

lemma record_target_ok:
  assumes "adaptive_ok (adaptive_options opts) s"
  shows "adaptive_ok (adaptive_options opts) (record_target (adaptive_options opts) now rttMs dropped s)"
proof -
  let ?a = "adaptive_options opts"
  note f = adaptive_options_facts [of opts]
  have ok: "adaptive_ok ?a (free_slot s)" using free_slot_ok assms .
  have nn: "0 \<le> tg_limit (free_slot s)" using ok f(1) by (simp add: adaptive_ok_def)
  have "tg_limit (free_slot s) * ao_backoffRatio ?a \<le> tg_limit (free_slot s) * 1"
    using nn f(6) by (intro mult_left_mono) simp_all
  then have "adaptive_ok ?a ((free_slot s)\<lparr>tg_limit := max (of_int (ao_minLimit ?a)) (tg_limit (free_slot s) * ao_backoffRatio ?a)\<rparr>)"
    using ok f(4) by (auto simp: adaptive_ok_def)
  moreover have "adaptive_ok ?a ((observe_rtt ?a now r (free_slot s))\<lparr>tg_limit := gradient_limit ?a r (observe_rtt ?a now r (free_slot s))\<rparr>)" for r
    using observe_rtt_ok [OF ok] f(4) gradient_limit_bounds [OF f(4)] by (simp add: adaptive_ok_def)
  ultimately show ?thesis
    using observe_rtt_ok [OF ok] by (simp only: record_target_def Let_def split: if_split) simp
qed

datatype adaptive_event = ATick nat | AAcquire string | ARecord string real bool | ARelease string

definition adaptive_step :: "AdaptiveOptions \<Rightarrow> int \<times> AdaptiveLimiter \<Rightarrow> adaptive_event \<Rightarrow> int \<times> AdaptiveLimiter" where
  "adaptive_step a tn e =
     (case e of
        ATick n \<Rightarrow> (fst tn + int n, snd tn)
      | AAcquire k \<Rightarrow> (fst tn, snd (tryAcquire a (fst tn) k (snd tn)))
      | ARecord k rtt dropped \<Rightarrow> (fst tn, record_slot a (fst tn) k rtt dropped (snd tn))
      | ARelease k \<Rightarrow> (fst tn, release_slot a (fst tn) k (snd tn)))"

definition limiter_ok :: "AdaptiveOptions \<Rightarrow> int \<times> AdaptiveLimiter \<Rightarrow> bool" where
  "limiter_ok a tn \<longleftrightarrow> (\<forall>now k. adaptive_ok a (target_get a now (snd tn) k))"

lemma limiter_ok_set: "limiter_ok a (t, l) \<Longrightarrow> adaptive_ok a s \<Longrightarrow> limiter_ok a (t, jm_set k s l)"
  by (simp add: limiter_ok_def target_get_set)

lemma limiter_ok_get: "limiter_ok a (t, l) \<Longrightarrow> adaptive_ok a (target_get a now l k)"
  by (simp add: limiter_ok_def)

lemma limiter_ok_acquire:
  assumes "limiter_ok (adaptive_options opts) (t, l)"
  shows "limiter_ok (adaptive_options opts) (t, snd (tryAcquire (adaptive_options opts) now k l))"
proof -
  let ?a = "adaptive_options opts" and ?s = "target_get (adaptive_options opts) now l k"
  have ok: "adaptive_ok ?a ?s" using limiter_ok_get assms .
  have "slot_ceiling ?a ?s \<le> ao_maxLimit ?a" using slot_ceiling_bounds [OF adaptive_options_facts(4) ok] by simp
  then show ?thesis
    using ok by (auto simp: tryAcquire_def Let_def adaptive_ok_def intro!: limiter_ok_set assms)
qed

interpretation adaptive_steps: step_system "adaptive_step (adaptive_options opts)" "limiter_ok (adaptive_options opts)" for opts
proof
  fix tn e assume ok: "limiter_ok (adaptive_options opts) tn"
  then have "limiter_ok (adaptive_options opts) (fst tn, snd tn)" by simp
  moreover from this have "adaptive_ok (adaptive_options opts) (target_get (adaptive_options opts) now (snd tn) k)" for now k
    by (rule limiter_ok_get)
  ultimately show "limiter_ok (adaptive_options opts) (adaptive_step (adaptive_options opts) tn e)"
    by (cases e) (simp_all add: adaptive_step_def record_slot_def release_slot_def limiter_ok_acquire
        limiter_ok_set record_target_ok free_slot_ok limiter_ok_def [of _ "(_ + int _, _)"])
qed

lemma empty_limiter_ok: "limiter_ok (adaptive_options opts) (t, [])"
  by (simp add: limiter_ok_def target_get_def fresh_target_ok)

text \<open>How far one sample moves the limit.\<close>

lemma rtt_no_load_le: "rtt_no_load (observe_rtt a now rtt s) rtt \<le> rtt"
  by (auto simp: rtt_no_load_def observe_rtt_def min_inf_def Let_def split: option.splits)

lemma gradient_half:
  assumes "0 < rtt" "2 * rtt_no_load s rtt \<le> rtt"
  shows "max (1 / 2) (min 1 (rtt_no_load s rtt / rtt)) = 1 / 2"
proof -
  have "rtt_no_load s rtt / rtt \<le> 1 / 2" using assms by (simp add: divide_le_eq)
  then show ?thesis by linarith
qed

section \<open>Properties\<close>

text \<open>
  Passive ejection never takes the last usable upstream. In any state a run of latency samples
  reaches, a sample ejects its target only when some other target of the pool is sampled enough, is not
  ejected and stays so, and is faster by the configured factor; and no ejection outlasts
  the maximal ejection time.
\<close>

theorem outlier_keeps_a_faster_peer:
  assumes "0 \<le> oo_maxEjectMs opts" and "0 \<le> oo_latencyFactor opts"
    and "foldl (outlier_step opts) (0, []) es = (t, d)"
  shows "\<not> isEjected (t + oo_maxEjectMs opts) d k
    \<and> (isEjected t (recordLatency opts t key ms ps d) key \<and> \<not> isEjected t d key \<longrightarrow>
         (\<exists>p\<in>set ps. p \<noteq> key \<and> \<not> isEjected t (recordLatency opts t key ms ps d) p
            \<and> latency d p * oo_latencyFactor opts \<le> latency (recordLatency opts t key ms ps d) key
            \<and> oo_minEjectLatencyMs opts \<le> latency (recordLatency opts t key ms ps d) key))"
proof (intro conjI impI)
  have "outlier_ok opts t d"
    using outlier_steps.run_inv [of opts "(0, [])" es] assms
    by (simp add: outlier_ok_def outlier_get_def fresh_outlier_def)
  then have t: "0 \<le> t" and u: "os_ejectedUntil (outlier_get d k) \<le> t + oo_maxEjectMs opts" for k
    by (auto simp: outlier_ok_def)
  show "\<not> isEjected (t + oo_maxEjectMs opts) d k"
    using u t assms(1) by (simp add: isEjected_iff not_less)
  assume ej: "isEjected t (recordLatency opts t key ms ps d) key \<and> \<not> isEjected t d key"
  define s where "s = sample_latency opts t ms (outlier_get d key)"
  from newly_ejected [OF t, of opts key ms ps d] ej obtain base where
    base: "peerBaseline opts t (jm_set key s d) key ps = Some base"
    and slow: "base * oo_latencyFactor opts \<le> os_ewmaLatency s" "oo_minEjectLatencyMs opts \<le> os_ewmaLatency s"
    by (auto simp: s_def)
  have lat: "latency (recordLatency opts t key ms ps d) key = os_ewmaLatency s"
    by (simp add: recordLatency_def Let_def latency_def jm_get_set s_def)
  obtain p where p: "p \<in> set ps" "eligible_peer opts t (jm_set key s d) key p" "latency (jm_set key s d) p \<le> base"
  proof (rule ccontr)
    assume none: "\<not> thesis"
    let ?E = "{p \<in> set ps. eligible_peer opts t (jm_set key s d) key p}"
    have ne: "?E \<noteq> {}" using base peerBaseline_None [of opts t "jm_set key s d" key ps] by auto
    define m where "m = Min (latency (jm_set key s d) ` ?E)"
    have "m \<le> base" using base by (rule peerBaseline_lower) (simp add: m_def)
    moreover have "m \<in> latency (jm_set key s d) ` ?E" unfolding m_def by (rule Min_in) (use ne in auto)
    ultimately show False using none that by auto
  qed
  have pk: "p \<noteq> key" "\<not> isEjected t d p" using p(2) by (auto simp: eligible_peer_def jm_get_set isEjected_def split: option.splits)
  have "\<not> isEjected t (recordLatency opts t key ms ps d) p"
    using pk t by (simp add: isEjected_iff recordLatency_other)
  moreover have "latency d p * oo_latencyFactor opts \<le> base * oo_latencyFactor opts"
    using p(3) pk(1) assms(2) by (intro mult_right_mono) (simp_all add: latency_set)
  ultimately show "\<exists>p\<in>set ps. p \<noteq> key \<and> \<not> isEjected t (recordLatency opts t key ms ps d) p
      \<and> latency d p * oo_latencyFactor opts \<le> latency (recordLatency opts t key ms ps d) key
      \<and> oo_minEjectLatencyMs opts \<le> latency (recordLatency opts t key ms ps d) key"
    using p(1) pk(1) slow lat by force
qed

definition sample_outlier_options :: OutlierOptions where
  "sample_outlier_options = default_outlier_options\<lparr>oo_minSamples := 1\<rparr>"

theorem outlier_keeps_a_faster_peer_witness:
  "\<exists>p\<in>set [''slow'', ''fast'']. p \<noteq> ''slow'' \<and>
     \<not> isEjected 5 (recordLatency sample_outlier_options 5 ''slow'' 900 [''slow'', ''fast'']
        (snd (foldl (outlier_step sample_outlier_options) (0, []) [OTick 5, OLatency ''fast'' 100 []]))) p"
proof -
  let ?r = "foldl (outlier_step sample_outlier_options) (0, []) [OTick 5, OLatency ''fast'' 100 []]"
  have 1: "0 \<le> oo_maxEjectMs sample_outlier_options" "0 \<le> oo_latencyFactor sample_outlier_options"
    by (simp_all add: sample_outlier_options_def default_outlier_options_def)
  have f: "?r = (5, snd ?r)" by (simp add: outlier_step_def)
  have s: "snd ?r = [(''fast'', \<lparr>os_ewmaLatency = 100, os_samples = 1, os_ejections = 0, os_ejectedUntil = 0\<rparr>)]"
    by (simp add: outlier_step_def recordLatency_def peerBaseline_def slow_against_def sample_latency_def outlier_get_def
        fresh_outlier_def sample_outlier_options_def default_outlier_options_def Let_def)
  have "isEjected 5 (recordLatency sample_outlier_options 5 ''slow'' 900 [''slow'', ''fast''] (snd ?r)) ''slow''"
    "\<not> isEjected 5 (snd ?r) ''slow''"
    unfolding s
    by (simp_all add: recordLatency_def peerBaseline_def slow_against_def sample_latency_def outlier_get_def isEjected_def
        fresh_outlier_def eligible_peer_def latency_def sample_outlier_options_def default_outlier_options_def Let_def jm_get_set)
  then show ?thesis using outlier_keeps_a_faster_peer [OF 1 f, of _ "''slow''" 900 "[''slow'', ''fast'']"] by blast
qed

text \<open>
  The adaptive limiter stays within its bounds, whatever options it was built from and whatever it
  sees: a target's limit lies between the minimal and the maximal limit, its in-flight count never
  exceeds the maximal limit, and a request is admitted exactly when the in-flight count is below the
  current limit, so that at least one slot is always there.
\<close>

theorem adaptive_limit_bounded:
  assumes "foldl (adaptive_step (adaptive_options opts)) (t0, []) es = (t, l)"
  shows "let a = adaptive_options opts in
    1 \<le> currentLimit a t k l \<and> ao_minLimit a \<le> currentLimit a t k l \<and> currentLimit a t k l \<le> ao_maxLimit a
    \<and> 0 \<le> inFlight a t k l \<and> inFlight a t k l \<le> ao_maxLimit a
    \<and> (fst (tryAcquire a t k l) \<longleftrightarrow> inFlight a t k l < currentLimit a t k l)
    \<and> inFlight a t k (snd (tryAcquire a t k l)) = inFlight a t k l + (if fst (tryAcquire a t k l) then 1 else 0)"
proof -
  let ?a = "adaptive_options opts"
  have "limiter_ok ?a (t, l)" using adaptive_steps.run_inv [OF empty_limiter_ok, of opts t0 es] assms by simp
  then have ok: "adaptive_ok ?a (target_get ?a t l k)" by (rule limiter_ok_get)
  have "ao_minLimit ?a \<le> currentLimit ?a t k l \<and> currentLimit ?a t k l \<le> ao_maxLimit ?a"
    using slot_ceiling_bounds [OF adaptive_options_facts(4) ok] by (simp add: currentLimit_def)
  moreover have "0 \<le> inFlight ?a t k l \<and> inFlight ?a t k l \<le> ao_maxLimit ?a"
    using ok by (simp add: inFlight_def adaptive_ok_def)
  moreover have "(fst (tryAcquire ?a t k l) \<longleftrightarrow> inFlight ?a t k l < currentLimit ?a t k l)
      \<and> inFlight ?a t k (snd (tryAcquire ?a t k l)) = inFlight ?a t k l + (if fst (tryAcquire ?a t k l) then 1 else 0)"
    by (auto simp: tryAcquire_def inFlight_def currentLimit_def Let_def target_get_set)
  ultimately show ?thesis using adaptive_options_facts(1) [of opts] unfolding Let_def by linarith
qed

definition sample_adaptive :: AdaptiveLimiterOptions where
  "sample_adaptive = \<lparr>al_minLimit = Some 1, al_maxLimit = Some 1, al_initialLimit = None, al_backoffRatio = None,
     al_smoothing = None, al_baselineWindowMs = None\<rparr>"

theorem adaptive_limit_bounded_witness:
  "let a = adaptive_options sample_adaptive; l = snd (foldl (adaptive_step a) (0, []) [AAcquire ''p'', ATick 3])
   in inFlight a 3 ''p'' l \<le> ao_maxLimit a \<and> inFlight a 3 ''p'' l = 1"
proof -
  let ?a = "adaptive_options sample_adaptive" and ?r = "foldl (adaptive_step (adaptive_options sample_adaptive)) (0, []) [AAcquire ''p'', ATick 3]"
  have f: "?r = (3, snd ?r)" by (simp add: adaptive_step_def)
  have "inFlight ?a 3 ''p'' (snd ?r) = 1"
    by (simp add: adaptive_step_def tryAcquire_def inFlight_def target_get_set Let_def)
      (simp add: target_get_def fresh_target_def slot_ceiling_def adaptive_options_def sample_adaptive_def or_else_def)
  then show ?thesis using adaptive_limit_bounded [OF f, of "''p''"] by (simp add: Let_def)
qed

text \<open>
  The limit follows the upstream. Near saturation, a sample as fast as the no-load baseline raises a
  limit that is below the maximum, a sample at least twice as slow as the baseline lowers a limit above
  four that is above the minimum, and a dropped request lowers every limit above the minimum.
\<close>

theorem adaptive_limit_direction:
  fixes s :: TargetState and opts :: AdaptiveLimiterOptions and rttMs :: real and now :: int and dropped :: bool
  defines "a \<equiv> adaptive_options opts"
  assumes ok: "adaptive_ok a s" and near: "tg_limit s / 2 \<le> of_int (tg_inflight (free_slot s)) + 1"
  defines "s' \<equiv> record_target a now rttMs dropped s"
    and "fast \<equiv> rtt_no_load (observe_rtt a now (max 1 rttMs) s) (max 1 rttMs)"
  shows "(\<not> dropped \<and> fast = max 1 rttMs \<and> tg_limit s < of_int (ao_maxLimit a) \<longrightarrow> tg_limit s < tg_limit s')
    \<and> (\<not> dropped \<and> 2 * fast \<le> max 1 rttMs \<and> 4 < tg_limit s \<and> of_int (ao_minLimit a) < tg_limit s \<longrightarrow> tg_limit s' < tg_limit s)
    \<and> (dropped \<and> of_int (ao_minLimit a) < tg_limit s \<longrightarrow> tg_limit s' < tg_limit s)"
proof -
  note f = adaptive_options_facts [of opts, folded a_def]
  have lim: "1 \<le> tg_limit s" using ok f(1) by (simp add: adaptive_ok_def)
  have fl: "tg_limit (free_slot s) = tg_limit s" by (simp add: free_slot_def)
  have nl: "rtt_no_load (observe_rtt a now r (free_slot s)) r = rtt_no_load (observe_rtt a now r s) r" for r
    by (simp add: free_slot_def observe_rtt_def rtt_no_load_def Let_def)
  have run: "\<not> dropped \<Longrightarrow> tg_limit s' = gradient_limit a (max 1 rttMs) (observe_rtt a now (max 1 rttMs) (free_slot s))"
    using near fl by (simp add: s'_def record_target_def Let_def)
  have g: "gradient_limit a r (observe_rtt a now r (free_slot s)) =
      min (of_int (ao_maxLimit a)) (max (of_int (ao_minLimit a))
        (tg_limit s + (tg_limit s * (max (1 / 2) (min 1 (rtt_no_load (observe_rtt a now r s) r / r)) - 1) + sqrt (tg_limit s)) * ao_smoothing a))" for r
    by (simp add: gradient_limit_def Let_def fl nl) (simp add: algebra_simps)
  have up: "0 < sqrt (tg_limit s) * ao_smoothing a" using lim f(7) by simp
  have down: "(sqrt (tg_limit s) - tg_limit s / 2) * ao_smoothing a < 0" if "4 < tg_limit s"
  proof -
    have "2 < sqrt (tg_limit s)" using that real_less_rsqrt [of 2] by simp
    then have "sqrt (tg_limit s) * 2 < sqrt (tg_limit s) * sqrt (tg_limit s)" using lim by (intro mult_strict_left_mono) simp_all
    then have "sqrt (tg_limit s) < tg_limit s / 2" using lim by simp
    then show ?thesis using f(7) by (simp add: mult_less_0_iff)
  qed
  define rtt where "rtt = max 1 rttMs"
  define gr where "gr = max (1 / 2) (min 1 (rtt_no_load (observe_rtt a now rtt s) rtt / rtt))"
  have r1: "0 < rtt" by (simp add: rtt_def)
  have move: "tg_limit s' = min (of_int (ao_maxLimit a)) (max (of_int (ao_minLimit a))
      (tg_limit s + (tg_limit s * (gr - 1) + sqrt (tg_limit s)) * ao_smoothing a))" if "\<not> dropped"
    by (simp only: run [OF that, folded rtt_def] g gr_def)
  have "tg_limit s < tg_limit s'" if "\<not> dropped" "fast = rtt" "tg_limit s < of_int (ao_maxLimit a)"
  proof -
    have "gr = 1" using that(2) r1 by (simp add: gr_def fast_def rtt_def)
    then show ?thesis using move [OF that(1)] up that(3) by simp
  qed
  moreover have "tg_limit s' < tg_limit s"
    if "\<not> dropped" "2 * fast \<le> rtt" "4 < tg_limit s" "of_int (ao_minLimit a) < tg_limit s"
  proof -
    have gr: "gr = 1 / 2" using gradient_half [OF r1, of "observe_rtt a now rtt s"] that(2) by (simp add: gr_def fast_def rtt_def)
    have "tg_limit s * (gr - 1) + sqrt (tg_limit s) = sqrt (tg_limit s) - tg_limit s / 2" by (simp only: gr) simp
    then show ?thesis using move [OF that(1)] down [OF that(3)] that(4) by simp
  qed
  moreover have "tg_limit s * ao_backoffRatio a < tg_limit s * 1" using lim f(6) by (intro mult_strict_left_mono) simp_all
  then have "tg_limit s' < tg_limit s" if "dropped" "of_int (ao_minLimit a) < tg_limit s"
    using fl that by (simp add: s'_def record_target_def Let_def)
  ultimately show ?thesis unfolding rtt_def by blast
qed


definition sample_target :: TargetState where
  "sample_target = \<lparr>tg_limit = 9, tg_inflight = 8, tg_baseline = Some 100, tg_windowMin = Some 120, tg_windowStartMs = 0\<rparr>"

definition sample_adaptive_default :: AdaptiveLimiterOptions where
  "sample_adaptive_default = \<lparr>al_minLimit = None, al_maxLimit = None, al_initialLimit = None, al_backoffRatio = None,
     al_smoothing = None, al_baselineWindowMs = None\<rparr>"

theorem adaptive_limit_direction_witness:
  "tg_limit (record_target (adaptive_options sample_adaptive_default) 5 400 False sample_target) < tg_limit sample_target
   \<and> tg_limit sample_target < tg_limit (record_target (adaptive_options sample_adaptive_default) 5 90 False sample_target)"
proof -
  let ?a = "adaptive_options sample_adaptive_default"
  note d = adaptive_options_def sample_adaptive_default_def or_else_def sample_target_def Let_def
  have 1: "adaptive_ok ?a sample_target" "tg_limit sample_target / 2 \<le> of_int (tg_inflight (free_slot sample_target)) + 1"
    by (simp_all add: adaptive_ok_def free_slot_def d)
  have r: "rtt_no_load (observe_rtt ?a 5 (max 1 400) sample_target) (max 1 400) = 100"
    "rtt_no_load (observe_rtt ?a 5 (max 1 90) sample_target) (max 1 90) = 90"
    by (simp_all add: rtt_no_load_def observe_rtt_def min_inf_def d)
  have l: "4 < tg_limit sample_target" "of_int (ao_minLimit ?a) < tg_limit sample_target" "tg_limit sample_target < of_int (ao_maxLimit ?a)"
    by (simp_all add: d)
  show ?thesis
    using adaptive_limit_direction [OF 1, of False 5 400] adaptive_limit_direction [OF 1, of False 5 90] r l by simp
qed

end
