(* ===== verification/Routing.thy ===== *)
theory Routing
  imports Breaker Target_Health "HOL-Library.Word" "HOL-Library.Product_Lexorder" "HOL-Library.Multiset"
    "HOL-Library.List_Lexorder" "HOL-Library.Char_ord"
begin

text \<open>
  Candidate selection of \<^verbatim>\<open>src/packages/routing/src\<close>: the strategies of \<^verbatim>\<open>types.ts\<close>, the selection
  and the orderings of \<^verbatim>\<open>select.ts\<close> and the request-level preferences of \<^verbatim>\<open>preferences.ts\<close>. The random
  source is a sequence of draws with a position, so the order of the draws is the code's. A target is a
  JavaScript object: \<open>rt_ref\<close> is its identity, which \<^verbatim>\<open>===\<close> and \<^verbatim>\<open>includes\<close> compare, and stands for the adapter
  and the credential the object carries along.
\<close>

section \<open>Targets and strategies\<close>

record RouteTarget =
  rt_ref :: nat
  rt_name :: string
  rt_provider :: string
  rt_upstreamPath :: string
  rt_alwaysStream :: "bool option"
  rt_weight :: "real option"
  rt_region :: "string option"
  rt_zdr :: "bool option"
  rt_modelMap :: "(string, string) jsmap option"

datatype LoadBalanceSelect = LeastLoad | Cheapest | Fastest

datatype RoutingStrategy =
    Single RouteTarget
  | Loadbalance "RouteTarget list" "LoadBalanceSelect option"
  | Fallback "RouteTarget list" "int list option"

fun allTargets :: "RoutingStrategy \<Rightarrow> RouteTarget list" where
  "allTargets (Single t) = [t]"
| "allTargets (Loadbalance ts sel) = ts"
| "allTargets (Fallback ts codes) = ts"

section \<open>Failover statuses\<close>

definition DEFAULT_FAILOVER_STATUS :: "int list" where
  "DEFAULT_FAILOVER_STATUS = [408, 409, 429, 500, 502, 503, 504, 529]"

definition isFailoverEligibleStatus :: "int \<Rightarrow> bool" where
  "isFailoverEligibleStatus code \<longleftrightarrow> code = 408 \<or> code = 409 \<or> code = 429 \<or> (500 \<le> code \<and> code \<le> 599)"

definition isFailoverStatus :: "RoutingStrategy \<Rightarrow> int \<Rightarrow> bool" where
  "isFailoverStatus strategy code =
     (let codes = (case strategy of Fallback ts (Some cs) \<Rightarrow> cs | _ \<Rightarrow> DEFAULT_FAILOVER_STATUS) in
      isFailoverEligibleStatus code \<and> code \<in> set codes)"

section \<open>Load scoreboard\<close>

type_synonym LoadScoreboard = "(string, int) jsmap"

definition load :: "LoadScoreboard \<Rightarrow> string \<Rightarrow> int" where
  "load sb name = (case jm_get sb name of Some n \<Rightarrow> n | None \<Rightarrow> 0)"

definition begin_load :: "string \<Rightarrow> LoadScoreboard \<Rightarrow> LoadScoreboard" where
  "begin_load name sb = jm_set name (load sb name + 1) sb"

definition end_load :: "string \<Rightarrow> LoadScoreboard \<Rightarrow> LoadScoreboard" where
  "end_load name sb = jm_set name (max 0 (load sb name - 1)) sb"

section \<open>Residency\<close>

definition residencyCompliant :: "string list option \<Rightarrow> bool \<Rightarrow> RouteTarget \<Rightarrow> bool" where
  "residencyCompliant allowedRegions requireZdr t =
     (if (case allowedRegions of
            Some rs \<Rightarrow> rs \<noteq> [] \<and>
              (case rt_region t of Some r \<Rightarrow> r = [] \<or> r \<notin> set rs | None \<Rightarrow> True)
          | None \<Rightarrow> False) then False
      else if requireZdr \<and> rt_zdr t \<noteq> Some True then False
      else True)"

section \<open>Orderings\<close>

text \<open>A stable ascending sort; an infinite key, here \<open>None\<close>, sorts last.\<close>

definition orderBy :: "(RouteTarget \<Rightarrow> real option) \<Rightarrow> RouteTarget list \<Rightarrow> RouteTarget list" where
  "orderBy key ts = sort_key (\<lambda>t. case key t of Some k \<Rightarrow> (False, k) | None \<Rightarrow> (True, 0)) ts"

text \<open>The 32-bit FNV-1a hash; \<^verbatim>\<open>Math.imul\<close> is the product of two 32-bit words.\<close>

unbundle bit_operations_syntax

fun fnv :: "32 word \<Rightarrow> string \<Rightarrow> 32 word" where
  "fnv h [] = h"
| "fnv h (c # cs) = fnv ((h XOR of_nat (of_char c)) * 0x01000193) cs"

definition hashUnit :: "string \<Rightarrow> real" where
  "hashUnit s = real (unat (fnv 0x811c9dc5 s)) / 4294967296"

definition weight_of :: "RouteTarget \<Rightarrow> real" where
  "weight_of t = (case rt_weight t of Some w \<Rightarrow> w | None \<Rightarrow> 1)"

definition hrw_score :: "string \<Rightarrow> RouteTarget \<Rightarrow> real" where
  "hrw_score sessionKey t =
     (let w = max (1 / 1000000000) (weight_of t);
          h = max (1 / 1000000000) (hashUnit (sessionKey @ '':'' @ rt_name t))
      in h powr (1 / w))"

definition hrwOrder :: "string \<Rightarrow> RouteTarget list \<Rightarrow> RouteTarget list" where
  "hrwOrder sessionKey ts = sort_key (\<lambda>t. - hrw_score sessionKey t) ts"

text \<open>\<^verbatim>\<open>orderByWeight\<close>: \<open>draw_index\<close> is the inner loop, which leaves index 0 when no weight brings the rest to 0.\<close>

fun draw_index :: "real \<Rightarrow> RouteTarget list \<Rightarrow> nat option" where
  "draw_index r [] = None"
| "draw_index r (t # ts) =
     (let r' = r - weight_of t in if r' \<le> 0 then Some 0 else map_option Suc (draw_index r' ts))"

definition drawn :: "real \<Rightarrow> RouteTarget list \<Rightarrow> nat" where
  "drawn u ts =
     (case draw_index (u * sum_list (map weight_of ts)) ts of Some i \<Rightarrow> i | None \<Rightarrow> 0)"

lemma draw_index_bound: "draw_index r ts = Some i \<Longrightarrow> i < length ts"
  by (induction r ts arbitrary: i rule: draw_index.induct) (auto simp: Let_def split: if_splits)

lemma drawn_bound: "ts \<noteq> [] \<Longrightarrow> drawn u ts < length ts"
  by (auto simp: drawn_def split: option.split dest: draw_index_bound)

function orderByWeight :: "(nat \<Rightarrow> real) \<Rightarrow> nat \<Rightarrow> RouteTarget list \<Rightarrow> RouteTarget list \<times> nat" where
  "orderByWeight rand n remaining =
     (if remaining = [] then ([], n)
      else
        let idx = drawn (rand n) remaining;
            (out, n') = orderByWeight rand (Suc n) (take idx remaining @ drop (Suc idx) remaining)
        in (remaining ! idx # out, n'))"
  by pat_completeness auto
termination
proof (relation "measure (\<lambda>(rand, n, ts). length ts)")
  show "wf (measure (\<lambda>(rand, n, ts). length ts))" by simp
  fix rand :: "nat \<Rightarrow> real" and n :: nat and remaining :: "RouteTarget list" and idx :: nat
  assume "remaining \<noteq> []" "idx = drawn (rand n) remaining"
  then show "((rand, Suc n, take idx remaining @ drop (Suc idx) remaining), rand, n, remaining) \<in> measure (\<lambda>(rand, n, ts). length ts)"
    using drawn_bound [of remaining "rand n"] by simp
qed

declare orderByWeight.simps [simp del]

definition pick_target :: "real \<Rightarrow> RouteTarget list \<Rightarrow> RouteTarget" where
  "pick_target u ts = ts ! nat \<lfloor>u * real (length ts)\<rfloor>"

definition p2cOrder ::
  "LoadScoreboard \<Rightarrow> (nat \<Rightarrow> real) \<Rightarrow> nat \<Rightarrow> RouteTarget list \<Rightarrow> RouteTarget list \<times> nat" where
  "p2cOrder scoreboard rand n ts =
     (if length ts \<le> 1 then (ts, n)
      else
        let a = pick_target (rand n) ts; b = pick_target (rand (Suc n)) ts;
            primary = (if load scoreboard (rt_name a) \<le> load scoreboard (rt_name b) then a else b);
            (rest, n') = orderByWeight rand (Suc (Suc n)) (filter (\<lambda>t. rt_ref t \<noteq> rt_ref primary) ts)
        in (primary # rest, n'))"

section \<open>Selection\<close>

record SelectOptions =
  so_sessionKey :: "string option"
  so_scoreboard :: "LoadScoreboard option"
  so_outlier :: "OutlierDetector option"
  so_costOf :: "(RouteTarget \<Rightarrow> real option) option"
  so_allowedRegions :: "string list option"
  so_requireZdr :: bool

text \<open>The health filter asks the breaker target by target, and the detector when the breaker is closed.\<close>

fun healthy_targets ::
  "'y sync_ops \<Rightarrow> int \<Rightarrow> OutlierDetector option \<Rightarrow> RouteTarget list \<Rightarrow> 'y breaker \<Rightarrow> RouteTarget list \<times> 'y breaker" where
  "healthy_targets sy now outlier [] b = ([], b)"
| "healthy_targets sy now outlier (t # ts) b =
     (let (isopen, b1) = isOpen sy now (rt_name t) b;
          ok = (\<not> isopen \<and> \<not> (case outlier of Some d \<Rightarrow> isEjected now d (rt_name t) | None \<Rightarrow> False));
          (rest, b2) = healthy_targets sy now outlier ts b1
      in (if ok then t # rest else rest, b2))"

definition eligible :: "SelectOptions \<Rightarrow> RouteTarget list \<Rightarrow> RouteTarget list" where
  "eligible opts ts = filter (residencyCompliant (so_allowedRegions opts) (so_requireZdr opts)) ts"

definition order_pool ::
  "SelectOptions \<Rightarrow> LoadBalanceSelect option \<Rightarrow> (nat \<Rightarrow> real) \<Rightarrow> nat \<Rightarrow> RouteTarget list \<Rightarrow> RouteTarget list \<times> nat" where
  "order_pool opts sel rand n pool =
     (case (sel, so_costOf opts, so_outlier opts) of
        (Some Cheapest, Some cost, _) \<Rightarrow> (orderBy cost pool, n)
      | (Some Fastest, _, Some outlier) \<Rightarrow> (orderBy (\<lambda>t. Some (latency outlier (rt_name t))) pool, n)
      | _ \<Rightarrow>
          (case so_sessionKey opts of
             Some (c # cs) \<Rightarrow> (hrwOrder (c # cs) pool, n)
           | _ \<Rightarrow>
               (case so_scoreboard opts of
                  Some sb \<Rightarrow> p2cOrder sb rand n pool
                | None \<Rightarrow> orderByWeight rand n pool)))"

definition selectCandidates ::
  "'y sync_ops \<Rightarrow> int \<Rightarrow> RoutingStrategy \<Rightarrow> SelectOptions \<Rightarrow> (nat \<Rightarrow> real) \<Rightarrow> nat \<Rightarrow> 'y breaker
     \<Rightarrow> RouteTarget list \<times> nat \<times> 'y breaker" where
  "selectCandidates sy now strategy opts rand n b =
     (case strategy of
        Single t \<Rightarrow> (eligible opts [t], n, b)
      | _ \<Rightarrow>
          (let base = eligible opts (allTargets strategy);
               (healthy, b') = healthy_targets sy now (so_outlier opts) base b;
               pool = (if healthy \<noteq> [] then healthy else base)
           in case strategy of
                Loadbalance ts sel \<Rightarrow> (let (cs, n') = order_pool opts sel rand n pool in (cs, n', b'))
              | _ \<Rightarrow> (pool, n, b')))"


section \<open>Preferences\<close>

text \<open>
  \<open>SortProto\<close> is what \<^verbatim>\<open>SORTS[...]\<close> yields for a name every object inherits: a truthy value that is none of the sorts.
\<close>

datatype RoutingSort = SortPrice | SortLatency | SortThroughput | SortProto

record RoutingPreferences =
  pf_order :: "string list option"
  pf_only :: "string list option"
  pf_ignore :: "string list option"
  pf_allowFallbacks :: "bool option"
  pf_sort :: "RoutingSort option"
  pf_zdr :: bool
  pf_maxPrompt :: "real option"
  pf_maxCompletion :: "real option"

definition no_prefs :: RoutingPreferences where
  "no_prefs = \<lparr>pf_order = None, pf_only = None, pf_ignore = None, pf_allowFallbacks = None, pf_sort = None, pf_zdr = False,
     pf_maxPrompt = None, pf_maxCompletion = None\<rparr>"

fun json_string :: "json \<Rightarrow> string option" where
  "json_string (JStr s) = Some s"
| "json_string _ = None"

fun all_strings :: "json list \<Rightarrow> string list option" where
  "all_strings [] = Some []"
| "all_strings (j # js) =
     (case (json_string j, all_strings js) of (Some s, Some ss) \<Rightarrow> Some (s # ss) | _ \<Rightarrow> None)"

fun asStringList :: "json option \<Rightarrow> string list option" where
  "asStringList (Some (JArr js)) =
     map_option (\<lambda>ss. filter (\<lambda>s. s \<noteq> []) (map (\<lambda>s. to_lower (js_trim s)) ss)) (all_strings js)"
| "asStringList _ = None"

definition sort_named :: "string \<Rightarrow> RoutingSort option" where
  "sort_named s =
     (if s \<in> {''price'', ''cost''} then Some SortPrice
      else if s \<in> {''latency'', ''ttft''} then Some SortLatency
      else if s \<in> {''throughput'', ''tps''} then Some SortThroughput
      else if s \<in> {''constructor'', ''__proto__''} then Some SortProto
      else None)"

fun asSort :: "json option \<Rightarrow> RoutingSort option" where
  "asSort (Some (JStr s)) = sort_named (to_lower s)"
| "asSort (Some v) = (case j_field v ''by'' of Some (JStr s) \<Rightarrow> sort_named (to_lower s) | _ \<Rightarrow> None)"
| "asSort None = None"

fun asPrice :: "json option \<Rightarrow> real option" where
  "asPrice (Some (JNum (Num v))) = (if 0 \<le> v then Some v else None)"
| "asPrice _ = None"

fun is_object :: "json \<Rightarrow> bool" where
  "is_object (JObj kvs) = True"
| "is_object _ = False"

definition keep_or :: "'a option \<Rightarrow> 'a option \<Rightarrow> 'a option" where
  "keep_or fresh old = (case fresh of Some x \<Rightarrow> Some x | None \<Rightarrow> old)"

text \<open>
  \<^verbatim>\<open>take(src, vercel)\<close> on the merged preferences and the \<^verbatim>\<open>any\<close> flag. The ceilings are one field: a readable
  \<^verbatim>\<open>max_price\<close> replaces both.
\<close>

definition take_prefs :: "json \<Rightarrow> bool \<Rightarrow> RoutingPreferences \<times> bool \<Rightarrow> RoutingPreferences \<times> bool" where
  "take_prefs src vercel ma =
     (let order = asStringList (j_field src ''order'');
          only = asStringList (j_field src ''only'');
          ignore = asStringList (j_field src ''ignore'');
          fallbacks = (case j_field src ''allow_fallbacks'' of Some (JBool x) \<Rightarrow> Some x | _ \<Rightarrow> None);
          sort' = asSort (j_field src ''sort'');
          zdr = (\<not> vercel \<and> j_field src ''zdr'' = Some (JBool True));
          mp = (if vercel then None else j_field src ''max_price'');
          prompt = (case mp of Some j \<Rightarrow> asPrice (j_field j ''prompt'') | None \<Rightarrow> None);
          completion = (case mp of Some j \<Rightarrow> asPrice (j_field j ''completion'') | None \<Rightarrow> None);
          priced = (prompt \<noteq> None \<or> completion \<noteq> None);
          m = fst ma
      in (m\<lparr>pf_order := keep_or order (pf_order m), pf_only := keep_or only (pf_only m),
            pf_ignore := keep_or ignore (pf_ignore m),
            pf_allowFallbacks := keep_or fallbacks (pf_allowFallbacks m),
            pf_sort := keep_or sort' (pf_sort m), pf_zdr := (zdr \<or> pf_zdr m),
            pf_maxPrompt := (if priced then prompt else pf_maxPrompt m),
            pf_maxCompletion := (if priced then completion else pf_maxCompletion m)\<rparr>,
          snd ma \<or> order \<noteq> None \<or> only \<noteq> None \<or> ignore \<noteq> None \<or> fallbacks \<noteq> None \<or> sort' \<noteq> None \<or> zdr \<or> priced))"

definition extractRoutingPreferences ::
  "(string, json) jsmap \<Rightarrow> RoutingPreferences option \<times> bool \<times> (string, json) jsmap" where
  "extractRoutingPreferences body =
     (let (ma1, s1, b1) =
            (case jm_get body ''provider'' of
               Some provider \<Rightarrow>
                 (if is_object provider then take_prefs provider False (no_prefs, False) else (no_prefs, False),
                  True, jm_delete ''provider'' body)
             | None \<Rightarrow> ((no_prefs, False), False, body));
          (ma2, s2, b2) =
            (case jm_get b1 ''providerOptions'' of
               Some po \<Rightarrow>
                 (case j_field po ''gateway'' of
                    Some gw \<Rightarrow> if is_object gw then take_prefs gw True ma1 else ma1
                  | None \<Rightarrow> ma1,
                  True, jm_delete ''providerOptions'' b1)
             | None \<Rightarrow> (ma1, s1, b1))
      in (if snd ma2 then Some (fst ma2) else None, s2, b2))"

record PreferenceContext =
  pc_rateOf :: "(RouteTarget \<Rightarrow> (real \<times> real) option) option"
  pc_latencyOf :: "(RouteTarget \<Rightarrow> real) option"

definition matches :: "string list \<Rightarrow> RouteTarget \<Rightarrow> bool" where
  "matches names t \<longleftrightarrow> to_lower (rt_provider t) \<in> set names \<or> to_lower (rt_name t) \<in> set names"

definition within_price :: "RoutingPreferences \<Rightarrow> (real \<times> real) option \<Rightarrow> bool" where
  "within_price prefs rate =
     (case rate of
        None \<Rightarrow> False
      | Some (inp, out) \<Rightarrow>
          (case pf_maxPrompt prefs of Some p \<Rightarrow> inp \<le> p | None \<Rightarrow> True)
          \<and> (case pf_maxCompletion prefs of Some p \<Rightarrow> out \<le> p | None \<Rightarrow> True))"

definition listed :: "string list option \<Rightarrow> bool" where
  "listed l = (case l of Some (x # xs) \<Rightarrow> True | _ \<Rightarrow> False)"

definition pref_pool :: "RoutingPreferences \<Rightarrow> PreferenceContext \<Rightarrow> RouteTarget list \<Rightarrow> RouteTarget list" where
  "pref_pool prefs ctx candidates =
     (let p1 = (if listed (pf_only prefs) then filter (matches (the (pf_only prefs))) candidates else candidates);
          p2 = (if listed (pf_ignore prefs) then filter (\<lambda>t. \<not> matches (the (pf_ignore prefs)) t) p1 else p1);
          p3 = (if pf_zdr prefs then filter (\<lambda>t. rt_zdr t = Some True) p2 else p2)
      in if pf_maxPrompt prefs \<noteq> None \<or> pf_maxCompletion prefs \<noteq> None
         then (case pc_rateOf ctx of Some rate \<Rightarrow> filter (\<lambda>t. within_price prefs (rate t)) p3 | None \<Rightarrow> p3)
         else p3)"

definition has_ref :: "RouteTarget \<Rightarrow> RouteTarget list \<Rightarrow> bool" where
  "has_ref t ts \<longleftrightarrow> rt_ref t \<in> rt_ref ` set ts"

fun pull_name :: "string \<Rightarrow> RouteTarget list \<Rightarrow> RouteTarget list \<Rightarrow> RouteTarget list" where
  "pull_name name head [] = head"
| "pull_name name head (t # ts) =
     (if \<not> has_ref t head \<and> (to_lower (rt_provider t) = name \<or> to_lower (rt_name t) = name)
      then pull_name name (head @ [t]) ts else pull_name name head ts)"

fun pull_order :: "string list \<Rightarrow> RouteTarget list \<Rightarrow> RouteTarget list \<Rightarrow> RouteTarget list" where
  "pull_order [] rest head = head"
| "pull_order (name # names) rest head = pull_order names rest (pull_name name head rest)"

definition sort_rest :: "RoutingPreferences \<Rightarrow> PreferenceContext \<Rightarrow> RouteTarget list \<Rightarrow> RouteTarget list" where
  "sort_rest prefs ctx rest =
     (case pf_sort prefs of
        None \<Rightarrow> rest
      | Some srt \<Rightarrow>
          (case (if srt = SortPrice then pc_rateOf ctx else None) of
             Some rate \<Rightarrow> orderBy (\<lambda>t. map_option (\<lambda>r. fst r + snd r) (rate t)) rest
           | None \<Rightarrow> (case pc_latencyOf ctx of Some lat \<Rightarrow> orderBy (\<lambda>t. Some (lat t)) rest | None \<Rightarrow> rest)))"

text \<open>The outcome: the candidates, or \<open>Inl\<close> with the reason when none is left.\<close>

definition list_text :: "string \<Rightarrow> string list option \<Rightarrow> string" where
  "list_text label l = label @ ''=['' @ join_with '', '' (case l of Some xs \<Rightarrow> xs | None \<Rightarrow> []) @ '']''"

definition describeUnsatisfied :: "RoutingPreferences \<Rightarrow> RouteTarget list \<Rightarrow> string" where
  "describeUnsatisfied prefs candidates =
     (let names = join_with '', '' (sort (remdups (map rt_provider candidates)));
          available = (if names = [] then ''none'' else names);
          asked = join_with '', ''
            ((if listed (pf_only prefs) then [list_text ''only'' (pf_only prefs)] else [])
             @ (if listed (pf_ignore prefs) then [list_text ''ignore'' (pf_ignore prefs)] else [])
             @ (if pf_order prefs \<noteq> None \<and> pf_allowFallbacks prefs = Some False
                then [list_text ''order'' (pf_order prefs) @ '' without fallbacks''] else [])
             @ (if pf_zdr prefs then [''zdr''] else [])
             @ (if pf_maxPrompt prefs \<noteq> None \<or> pf_maxCompletion prefs \<noteq> None then [''max_price''] else []))
      in ''no provider satisfies the routing preferences ('' @ asked @ ''); available: '' @ available)"

definition applyRoutingPreferences ::
  "RouteTarget list \<Rightarrow> RoutingPreferences \<Rightarrow> PreferenceContext \<Rightarrow> string + RouteTarget list" where
  "applyRoutingPreferences candidates prefs ctx =
     (let pool = pref_pool prefs ctx candidates in
      if pool = [] then Inl (describeUnsatisfied prefs candidates)
      else
        let head = (if listed (pf_order prefs) then pull_order (the (pf_order prefs)) pool [] else []);
            rest = filter (\<lambda>t. \<not> has_ref t head) pool;
            strict = (listed (pf_order prefs) \<and> pf_allowFallbacks prefs = Some False)
        in if strict \<and> head = [] then Inl (describeUnsatisfied prefs candidates)
           else Inr (head @ sort_rest prefs ctx (if strict then [] else rest)))"

section \<open>Orderings are permutations\<close>

lemma mset_remove_nth: "i < length xs \<Longrightarrow> add_mset (xs ! i) (mset (take i xs @ drop (Suc i) xs)) = mset xs"
  by (subst (4) id_take_nth_drop [of i xs]) simp_all

lemma orderByWeight_perm: "mset (fst (orderByWeight rand n ts)) = mset ts"
proof (induction rand n ts rule: orderByWeight.induct)
  case (1 rand n ts)
  show ?case
  proof (cases "ts = []")
    case False
    have "mset (fst (orderByWeight rand (Suc n) (take (drawn (rand n) ts) ts @ drop (Suc (drawn (rand n) ts)) ts)))
        = mset (take (drawn (rand n) ts) ts @ drop (Suc (drawn (rand n) ts)) ts)"
      using "1" False by blast
    then show ?thesis
      using mset_remove_nth [OF drawn_bound [OF False, of "rand n"]] False
      by (simp add: orderByWeight.simps [of rand n ts] split_beta Let_def)
  qed (simp add: orderByWeight.simps)
qed

lemma orderBy_perm: "mset (orderBy key ts) = mset ts"
  by (simp add: orderBy_def)

lemma hrwOrder_perm: "mset (hrwOrder k ts) = mset ts"
  by (simp add: hrwOrder_def)

definition unit_draws :: "(nat \<Rightarrow> real) \<Rightarrow> bool" where
  "unit_draws rand \<longleftrightarrow> (\<forall>n. 0 \<le> rand n \<and> rand n < 1)"

lemma pick_target_in: "0 \<le> u \<Longrightarrow> u < 1 \<Longrightarrow> ts \<noteq> [] \<Longrightarrow> pick_target u ts \<in> set ts"
proof -
  assume u: "0 \<le> u" "u < 1" and ne: "ts \<noteq> []"
  have "u * real (length ts) < 1 * real (length ts)" using u ne by (intro mult_strict_right_mono) simp_all
  then have "nat \<lfloor>u * real (length ts)\<rfloor> < length ts" using u by (simp add: nat_less_iff floor_less_iff)
  then show ?thesis by (simp add: pick_target_def)
qed

lemma filter_ref_mset:
  assumes "distinct (map rt_ref ts)" "x \<in> set ts"
  shows "add_mset x (mset (filter (\<lambda>t. rt_ref t \<noteq> rt_ref x) ts)) = mset ts"
  using assms
proof (induction ts)
  case (Cons t ts)
  show ?case
  proof (cases "x = t")
    case True
    then have "filter (\<lambda>t. rt_ref t \<noteq> rt_ref x) ts = ts" using Cons.prems(1) by (auto simp: filter_id_conv) (metis image_eqI)
    then show ?thesis using True by simp
  next
    case False
    then have "x \<in> set ts" using Cons.prems(2) by simp
    then have "rt_ref t \<noteq> rt_ref x" using Cons.prems(1) by force
    then show ?thesis using Cons \<open>x \<in> set ts\<close> by auto
  qed
qed simp

lemma p2cOrder_perm:
  assumes "unit_draws rand" "distinct (map rt_ref ts)"
  shows "mset (fst (p2cOrder sb rand n ts)) = mset ts"
proof (cases "length ts \<le> 1")
  case False
  then have ne: "ts \<noteq> []" by auto
  define x where "x = (if load sb (rt_name (pick_target (rand n) ts)) \<le> load sb (rt_name (pick_target (rand (Suc n)) ts))
    then pick_target (rand n) ts else pick_target (rand (Suc n)) ts)"
  have "x \<in> set ts" using assms(1) ne pick_target_in by (simp add: x_def unit_draws_def)
  then show ?thesis
    using False filter_ref_mset [OF assms(2)] orderByWeight_perm
    by (simp add: p2cOrder_def split_beta Let_def flip: x_def)
qed (simp add: p2cOrder_def)

lemma order_pool_perm:
  assumes "unit_draws rand" "distinct (map rt_ref ts)"
  shows "mset (fst (order_pool opts sel rand n ts)) = mset ts"
  using assms
  by (simp add: order_pool_def orderBy_perm hrwOrder_perm orderByWeight_perm p2cOrder_perm
      split: option.split LoadBalanceSelect.split list.split)

section \<open>The health filter\<close>

lemma healthy_targets_sub: "set (fst (healthy_targets sy now d ts b)) \<subseteq> set ts"
proof (induction ts arbitrary: b)
  case (Cons t ts)
  then show ?case
    using Cons.IH [of "snd (isOpen sy now (rt_name t) b)"] by (auto simp: split_beta Let_def)
qed simp

lemma healthy_targets_distinct: "distinct (map rt_ref ts) \<Longrightarrow> distinct (map rt_ref (fst (healthy_targets sy now d ts b)))"
proof (induction ts arbitrary: b)
  case (Cons t ts)
  then show ?case
    using healthy_targets_sub [of sy now d ts "snd (isOpen sy now (rt_name t) b)"] by (auto simp: split_beta Let_def)
qed simp

definition serves :: "'y sync_ops \<Rightarrow> int \<Rightarrow> OutlierDetector option \<Rightarrow> 'y breaker \<Rightarrow> RouteTarget \<Rightarrow> bool" where
  "serves sy now d b t \<longleftrightarrow> \<not> fst (isOpen sy now (rt_name t) b)
     \<and> \<not> (case d of Some d' \<Rightarrow> isEjected now d' (rt_name t) | None \<Rightarrow> False)"

context breaker_sync
begin

lemma isOpen_again: "fst (isOpen sy now k (snd (isOpen sy now k' b))) = fst (isOpen sy now k b)"
  using read_shared_facts(1) [of k b] read_shared_facts(1) [of k "snd (isOpen sy now k' b)"] isOpen_state [where now = now and k = k' and b = b]
  by (simp add: isOpen_def [of sy now k] split_beta Let_def split: option.splits)

lemma healthy_targets_filter: "fst (healthy_targets sy now d ts b) = filter (serves sy now d b) ts"
proof (induction ts arbitrary: b)
  case (Cons t ts)
  have "serves sy now d (snd (isOpen sy now (rt_name t) b)) = serves sy now d b"
    by (rule ext) (simp add: serves_def isOpen_again)
  then show ?case by (simp add: split_beta Let_def Cons.IH) (simp add: serves_def)
qed simp

lemma select_pool:
  fixes opts :: SelectOptions and now :: int and b :: "'y breaker" and s :: RoutingStrategy
  assumes "unit_draws rand" "distinct (map rt_ref (allTargets s))"
  defines "base \<equiv> eligible opts (allTargets s)"
  defines "up \<equiv> filter (serves sy now (so_outlier opts) b) base"
  shows "mset (fst (selectCandidates sy now s opts rand n b)) =
    mset (case s of Single t \<Rightarrow> base | _ \<Rightarrow> if up \<noteq> [] then up else base)"
proof -
  have "distinct (map rt_ref base)" unfolding base_def eligible_def using assms(2) by (rule distinct_map_filter)
  moreover from this have "distinct (map rt_ref up)" unfolding up_def by (rule distinct_map_filter)
  ultimately show ?thesis
    using order_pool_perm [OF assms(1)]
    by (cases s) (auto simp: selectCandidates_def split_beta Let_def healthy_targets_filter up_def base_def)
qed

end


section \<open>Preference lemmas\<close>

lemma pref_pool_filter:
  "pref_pool prefs ctx cs = filter (\<lambda>t.
     (listed (pf_only prefs) \<longrightarrow> matches (the (pf_only prefs)) t)
     \<and> (listed (pf_ignore prefs) \<longrightarrow> \<not> matches (the (pf_ignore prefs)) t)
     \<and> (pf_zdr prefs \<longrightarrow> rt_zdr t = Some True)
     \<and> (pf_maxPrompt prefs \<noteq> None \<or> pf_maxCompletion prefs \<noteq> None \<longrightarrow>
          (case pc_rateOf ctx of Some rate \<Rightarrow> within_price prefs (rate t) | None \<Rightarrow> True))) cs"
  by (auto simp: pref_pool_def Let_def split: option.split intro!: filter_cong)

lemma pull_name_props:
  assumes "distinct (map rt_ref head)" "set head \<subseteq> set pool" "set ts \<subseteq> set pool"
  shows "distinct (map rt_ref (pull_name name head ts)) \<and> set (pull_name name head ts) \<subseteq> set pool"
  using assms by (induction ts arbitrary: head) (auto simp: has_ref_def)

lemma pull_order_props:
  assumes "distinct (map rt_ref head)" "set head \<subseteq> set pool"
  shows "distinct (map rt_ref (pull_order names pool head)) \<and> set (pull_order names pool head) \<subseteq> set pool"
  using assms
proof (induction names arbitrary: head)
  case (Cons name names)
  then show ?case using pull_name_props [of head pool pool name] by simp
qed simp

lemma pull_partition:
  assumes "distinct (map rt_ref hs)" "set hs \<subseteq> set pool" "distinct (map rt_ref pool)"
    and "rest = filter (\<lambda>t. \<not> has_ref t hs) pool"
  shows "mset (hs @ rest) = mset pool"
proof -
  have inj: "x = y" if "x \<in> set pool" "y \<in> set pool" "rt_ref x = rt_ref y" for x y
    using assms(3) that by (auto simp: distinct_map dest: inj_onD)
  have "has_ref t hs \<longleftrightarrow> t \<in> set hs" if "t \<in> set pool" for t
    using that inj assms(2) by (auto simp: has_ref_def)
  then have rest: "rest = filter (\<lambda>t. t \<notin> set hs) pool" using assms(4) by (auto intro: filter_cong)
  have "distinct hs" "distinct pool" using assms(1,3) by (auto simp: distinct_map)
  then have "distinct (hs @ rest)" "set (hs @ rest) = set pool" using assms(2) by (auto simp: rest)
  then show ?thesis using \<open>distinct pool\<close> set_eq_iff_mset_eq_distinct by blast
qed

lemma sort_rest_perm: "mset (sort_rest prefs ctx ts) = mset ts"
  by (auto simp: sort_rest_def orderBy_perm split: option.split)

lemma sort_rest_set [simp]: "set (sort_rest prefs ctx ts) = set ts"
  by (metis sort_rest_perm set_mset_mset)

lemma sort_rest_distinct: "distinct (map rt_ref (sort_rest prefs ctx ts)) = distinct (map rt_ref ts)"
proof -
  have "mset (map rt_ref (sort_rest prefs ctx ts)) = mset (map rt_ref ts)" by (simp add: sort_rest_perm)
  then show ?thesis by (rule mset_eq_imp_distinct_iff)
qed

definition pref_head :: "RoutingPreferences \<Rightarrow> RouteTarget list \<Rightarrow> RouteTarget list" where
  "pref_head prefs pool = (if listed (pf_order prefs) then pull_order (the (pf_order prefs)) pool [] else [])"

lemma pref_head_props: "distinct (map rt_ref (pref_head prefs pool)) \<and> set (pref_head prefs pool) \<subseteq> set pool"
  using pull_order_props [of "[]" pool "the (pf_order prefs)"] by (simp add: pref_head_def)

lemma apply_Inr:
  assumes "applyRoutingPreferences cs prefs ctx = Inr out"
  shows "out = pref_head prefs (pref_pool prefs ctx cs)
    @ sort_rest prefs ctx (if listed (pf_order prefs) \<and> pf_allowFallbacks prefs = Some False then []
        else filter (\<lambda>t. \<not> has_ref t (pref_head prefs (pref_pool prefs ctx cs))) (pref_pool prefs ctx cs))"
  using assms by (auto simp: applyRoutingPreferences_def Let_def pref_head_def split: if_splits)

lemma apply_Inl:
  "(\<exists>e. applyRoutingPreferences cs prefs ctx = Inl e) \<longleftrightarrow> pref_pool prefs ctx cs = []
     \<or> listed (pf_order prefs) \<and> pf_allowFallbacks prefs = Some False \<and> pref_head prefs (pref_pool prefs ctx cs) = []"
  by (auto simp: applyRoutingPreferences_def Let_def pref_head_def)

section \<open>Properties\<close>

text \<open>
  C11. Residency and zero-data-retention hold for every candidate. Whatever the strategy, the health of
  the targets, the ordering and the draws, a selected target is one of the strategy's and, when an
  allowlist is active, declares a region on it, and is a ZDR target when the policy requires one: a target of unknown region
  is never selected, not even when every other target is down.
\<close>

theorem selection_keeps_residency:
  assumes "unit_draws rand" and "t \<in> set (fst (selectCandidates sy now s opts rand n b))"
    and "distinct (map rt_ref (allTargets s))"
  shows "t \<in> set (allTargets s)
    \<and> (\<forall>rs. so_allowedRegions opts = Some rs \<and> rs \<noteq> [] \<longrightarrow> (\<exists>r. rt_region t = Some r \<and> r \<in> set rs))
    \<and> (so_requireZdr opts \<longrightarrow> rt_zdr t = Some True)"
proof -
  let ?base = "eligible opts (allTargets s)" and ?up = "fst (healthy_targets sy now (so_outlier opts) (eligible opts (allTargets s)) b)"
  have d: "distinct (map rt_ref ?base)" unfolding eligible_def using assms(3) by (rule distinct_map_filter)
  have du: "distinct (map rt_ref ?up)" using d by (rule healthy_targets_distinct)
  have perm: "set (fst (order_pool opts sel rand n pool)) = set pool" if "distinct (map rt_ref pool)" for sel pool
    using order_pool_perm [OF assms(1) that] by (metis set_mset_mset)
  have "t \<in> set ?base"
    using assms(2) healthy_targets_sub [of sy now "so_outlier opts" ?base b] perm d du
    by (cases s) (auto simp: selectCandidates_def split_beta Let_def split: if_splits)
  then show ?thesis by (auto simp: eligible_def residencyCompliant_def split: if_splits option.splits)
qed


definition sample_targets :: "RouteTarget list" where
  "sample_targets =
     [\<lparr>rt_ref = 1, rt_name = ''us'', rt_provider = ''anthropic'', rt_upstreamPath = ''/v1'', rt_alwaysStream = None,
       rt_weight = Some 3, rt_region = Some ''us-east-1'', rt_zdr = None, rt_modelMap = None\<rparr>,
      \<lparr>rt_ref = 2, rt_name = ''eu'', rt_provider = ''bedrock'', rt_upstreamPath = ''/v1'', rt_alwaysStream = None,
       rt_weight = None, rt_region = Some ''eu-central-1'', rt_zdr = Some True, rt_modelMap = None\<rparr>,
      \<lparr>rt_ref = 3, rt_name = ''any'', rt_provider = ''openai'', rt_upstreamPath = ''/v1'', rt_alwaysStream = None,
       rt_weight = None, rt_region = None, rt_zdr = Some True, rt_modelMap = None\<rparr>]"

definition sample_select :: SelectOptions where
  "sample_select = \<lparr>so_sessionKey = None, so_scoreboard = None, so_outlier = None, so_costOf = None,
     so_allowedRegions = Some [''eu-central-1''], so_requireZdr = True\<rparr>"

theorem selection_keeps_residency_witness:
  "fst (selectCandidates noop_sync 0 (Fallback sample_targets None) sample_select (\<lambda>n. 1 / 2) 0 (fresh_breaker ())) = [sample_targets ! 1]
   \<and> rt_region (sample_targets ! 1) = Some ''eu-central-1''"
proof -
  let ?c = "fst (selectCandidates noop_sync 0 (Fallback sample_targets None) sample_select (\<lambda>n. 1 / 2) 0 (fresh_breaker ()))"
  have c: "?c = [sample_targets ! 1]"
    by (simp add: selectCandidates_def eligible_def residencyCompliant_def sample_targets_def sample_select_def isOpen_def
        fresh_breaker_def read_shared_def noop_sync_def Let_def)
  then show ?thesis
    using selection_keeps_residency [of "\<lambda>n. 1 / 2" "sample_targets ! 1" noop_sync 0 "Fallback sample_targets None" sample_select 0 "fresh_breaker ()"]
    by (simp add: unit_draws_def sample_select_def sample_targets_def)
qed

text \<open>
  Selection is complete. With Redis sharing, the candidates of a load-balanced or fallback strategy
  are, up to order, exactly the compliant targets whose circuit is closed and that are not ejected, or all
  compliant targets when no such target is left; a fallback strategy keeps the declared order. So there is a candidate exactly when
  there is a compliant target, and no target is tried twice.
\<close>

theorem selection_complete:
  assumes "unit_draws rand" and "distinct (map rt_ref (allTargets s))"
    and "fst (selectCandidates redis_sync now s opts rand n b) = cs"
  shows "let good = filter (residencyCompliant (so_allowedRegions opts) (so_requireZdr opts)) (allTargets s);
             up = filter (\<lambda>t. \<not> fst (isOpen redis_sync now (rt_name t) b)
                    \<and> \<not> (case so_outlier opts of Some d \<Rightarrow> isEjected now d (rt_name t) | None \<Rightarrow> False)) good;
             pool = (case s of Single t \<Rightarrow> good | _ \<Rightarrow> if up = [] then good else up)
         in mset cs = mset pool \<and> (case s of Loadbalance ts sel \<Rightarrow> True | _ \<Rightarrow> cs = pool)
            \<and> (cs = [] \<longleftrightarrow> good = []) \<and> distinct (map rt_ref cs)"
proof -
  define good where "good = eligible opts (allTargets s)"
  define up where "up = filter (serves redis_sync now (so_outlier opts) b) good"
  define pool where "pool = (case s of Single t \<Rightarrow> good | _ \<Rightarrow> if up = [] then good else up)"
  have m: "mset cs = mset pool"
    using redis.select_pool [OF assms(1,2), of now opts n b] assms(3)
    by (cases s) (auto simp: pool_def up_def good_def)
  have d: "distinct (map rt_ref good)" unfolding good_def eligible_def using assms(2) by (rule distinct_map_filter)
  then have "distinct (map rt_ref up)" unfolding up_def by (rule distinct_map_filter)
  with d have "distinct (map rt_ref pool)" by (cases s) (simp_all add: pool_def)
  moreover have "mset (map rt_ref cs) = mset (map rt_ref pool)" using m by simp
  ultimately have dc: "distinct (map rt_ref cs)" using mset_eq_imp_distinct_iff by blast
  have keep: "case s of Loadbalance ts sel \<Rightarrow> True | _ \<Rightarrow> cs = pool"
    using assms(3)
    by (cases s) (auto simp: selectCandidates_def split_beta Let_def pool_def up_def good_def redis.healthy_targets_filter)
  have "pool = [] \<longleftrightarrow> good = []" by (cases s) (auto simp: pool_def up_def)
  then have e: "cs = [] \<longleftrightarrow> good = []" using m by (metis mset_zero_iff)
  have u: "up = filter (\<lambda>t. \<not> fst (isOpen redis_sync now (rt_name t) b)
      \<and> \<not> (case so_outlier opts of Some d \<Rightarrow> isEjected now d (rt_name t) | None \<Rightarrow> False)) good"
    unfolding up_def by (rule filter_cong) (simp_all add: serves_def)
  show ?thesis
    unfolding Let_def eligible_def [symmetric] good_def [symmetric] u [symmetric] pool_def [symmetric]
    using m keep e dc by blast
qed

theorem selection_complete_witness:
  "let cs = fst (selectCandidates redis_sync 0 (Loadbalance sample_targets None) (sample_select\<lparr>so_allowedRegions := None\<rparr>)
       (\<lambda>n. 1 / 2) 0 (fresh_breaker (redis_quiet ''g'')))
   in cs \<noteq> [] \<and> distinct (map rt_ref cs)"
proof -
  have "filter (residencyCompliant None True) sample_targets \<noteq> []" by (simp add: sample_targets_def residencyCompliant_def)
  then show ?thesis
    using selection_complete [of "\<lambda>n. 1 / 2" "Loadbalance sample_targets None" 0 "sample_select\<lparr>so_allowedRegions := None\<rparr>" 0
        "fresh_breaker (redis_quiet ''g'')", OF _ _ refl]
    by (simp add: unit_draws_def sample_targets_def sample_select_def Let_def)
qed

text \<open>
  Session affinity is stable. Under rendezvous hashing a session keeps its primary target as long as
  that target serves: when the breaker and the detector go from one state to another in which other targets
  may have failed (none recovered) and the primary still serves, the selection still puts it first, and the
  others keep their relative order.
\<close>

theorem session_affinity_stable:
  assumes "so_sessionKey opts = Some key" "key \<noteq> []" and "sel \<noteq> Some Cheapest" "sel \<noteq> Some Fastest"
    and "fst (selectCandidates redis_sync now (Loadbalance ts sel) opts rand n b) = primary # others"
    and "serves redis_sync now (so_outlier opts) b primary"
    and "serves redis_sync now' (so_outlier opts') b' primary"
    and "\<And>t. t \<in> set ts \<Longrightarrow> serves redis_sync now' (so_outlier opts') b' t \<Longrightarrow> serves redis_sync now (so_outlier opts) b t"
    and "so_sessionKey opts' = Some key" "so_allowedRegions opts' = so_allowedRegions opts" "so_requireZdr opts' = so_requireZdr opts"
  shows "fst (selectCandidates redis_sync now' (Loadbalance ts sel) opts' rand' n' b') =
    primary # filter (serves redis_sync now' (so_outlier opts') b') others"
proof -
  let ?P = "serves redis_sync now (so_outlier opts) b" and ?Q = "serves redis_sync now' (so_outlier opts') b'"
  let ?base = "eligible opts ts"
  have base': "eligible opts' ts = ?base" using assms(10,11) by (simp add: eligible_def)
  have op: "fst (order_pool x sel rr m pool) = hrwOrder key pool" if "so_sessionKey x = Some key" for x rr m pool
    using that assms(2-4) by (cases key) (auto simp: order_pool_def split: option.split LoadBalanceSelect.split)
  have sel: "fst (selectCandidates redis_sync now (Loadbalance ts sel) opts rand n b) =
      hrwOrder key (if filter ?P ?base \<noteq> [] then filter ?P ?base else ?base)"
    by (simp add: selectCandidates_def split_beta Let_def redis.healthy_targets_filter op [OF assms(1)])
  have "primary \<in> set (hrwOrder key (if filter ?P ?base \<noteq> [] then filter ?P ?base else ?base))"
    unfolding sel [symmetric] assms(5) by simp
  then have "primary \<in> set ?base" by (simp add: hrwOrder_def split: if_splits)
  then have ne: "filter ?P ?base \<noteq> []" "filter ?Q ?base \<noteq> []" using assms(6,7) by (auto simp: filter_empty_conv)
  have "filter ?Q (filter ?P ?base) = filter ?Q ?base"
    unfolding filter_filter using assms(8) by (intro filter_cong) (auto simp: eligible_def)
  then have "filter ?Q (hrwOrder key (filter ?P ?base)) = hrwOrder key (filter ?Q ?base)"
    by (simp add: hrwOrder_def filter_sort)
  moreover have "fst (selectCandidates redis_sync now' (Loadbalance ts sel) opts' rand' n' b') = hrwOrder key (filter ?Q ?base)"
    using ne(2) base' by (simp add: selectCandidates_def split_beta Let_def redis.healthy_targets_filter op [OF assms(9)])
  moreover have "hrwOrder key (filter ?P ?base) = primary # others" using sel ne(1) assms(5) by simp
  ultimately show ?thesis using assms(7) by (metis filter.simps(2))
qed


definition sample_session :: SelectOptions where
  "sample_session = sample_select\<lparr>so_sessionKey := Some ''s1'', so_allowedRegions := None, so_requireZdr := False\<rparr>"

definition sample_pair :: "RouteTarget list" where
  "sample_pair = [(sample_targets ! 0)\<lparr>rt_weight := Some 1\<rparr>, sample_targets ! 1]"

theorem session_affinity_stable_witness:
  "let b = fresh_breaker (redis_quiet ''g'');
       cs = fst (selectCandidates redis_sync 0 (Loadbalance sample_pair None) sample_session (\<lambda>n. 0) 0 b)
   in fst (selectCandidates redis_sync 7 (Loadbalance sample_pair None) sample_session (\<lambda>n. 0) 3 b) = cs"
proof -
  let ?b = "fresh_breaker (redis_quiet ''g'')"
  let ?cs = "fst (selectCandidates redis_sync 0 (Loadbalance sample_pair None) sample_session (\<lambda>n. 0) 0 ?b)"
  have s: "serves redis_sync x (so_outlier sample_session) ?b t" if "0 \<le> x" for x t
    using that by (simp add: serves_def isOpen_def fresh_breaker_def read_shared_def redis_sync_def redis_sharedOpenUntil_def note_key_def
        redis_quiet_def sample_session_def sample_select_def Let_def)
  have "fst (selectCandidates redis_sync 0 (Loadbalance sample_pair None) sample_session (\<lambda>n. 0) 0 ?b) = hrwOrder ''s1'' sample_pair"
  proof -
    have e: "eligible sample_session sample_pair = sample_pair"
      by (simp add: eligible_def residencyCompliant_def sample_session_def sample_pair_def)
    have f: "filter (serves redis_sync 0 (so_outlier sample_session) ?b) sample_pair = sample_pair" using s by simp
    have o: "fst (order_pool sample_session None rr m pool) = hrwOrder ''s1'' pool" for rr m pool
      by (simp add: order_pool_def sample_session_def)
    show ?thesis
      by (simp add: selectCandidates_def redis.healthy_targets_filter split_beta Let_def e f o)
  qed
  then have "length ?cs = 2" by (simp add: hrwOrder_def sample_pair_def)
  then obtain p others where cs: "?cs = p # others" by (cases ?cs) auto
  have k: "so_sessionKey sample_session = Some ''s1''" by (simp add: sample_session_def)
  have "fst (selectCandidates redis_sync 7 (Loadbalance sample_pair None) sample_session (\<lambda>n. 0) 3 ?b)
      = p # filter (serves redis_sync 7 (so_outlier sample_session) ?b) others"
    by (rule session_affinity_stable [OF k _ _ _ cs _ _ _ k]) (simp_all add: s)
  then show ?thesis using cs by (simp add: s)
qed

lemma draw_index_share:
  assumes "\<forall>t\<in>set ts. 0 < weight_of t" and "i < length ts"
    and "sum_list (map weight_of (take i ts)) < r" and "r \<le> sum_list (map weight_of (take (Suc i) ts))"
  shows "draw_index r ts = Some i"
  using assms
proof (induction ts arbitrary: i r)
  case (Cons t ts)
  show ?case
  proof (cases i)
    case 0
    then show ?thesis using Cons.prems by (simp add: Let_def)
  next
    case (Suc j)
    have nonneg: "0 \<le> sum_list (map weight_of (take j ts))"
      using Cons.prems(1) by (intro sum_list_nonneg) (auto dest: in_set_takeD intro: less_imp_le)
    have "draw_index (r - weight_of t) ts = Some j"
      by (rule Cons.IH) (use Cons.prems Suc in auto)
    then show ?thesis using Cons.prems(3) Suc nonneg by (simp add: Let_def)
  qed
qed simp

text \<open>
  A target is drawn by its weight. With positive weights, the first target of a weighted shuffle is
  the one in whose share of the total weight the draw falls: the target at position \<open>i\<close> whenever the draw
  times the total lies above the weights before \<open>i\<close> and not above the weights up to \<open>i\<close>.
\<close>

theorem weighted_draw:
  assumes "\<forall>t\<in>set ts. 0 < weight_of t" and "i < length ts"
    and "sum_list (map weight_of (take i ts)) < rand n * sum_list (map weight_of ts)"
    and "rand n * sum_list (map weight_of ts) \<le> sum_list (map weight_of (take (Suc i) ts))"
  shows "hd (fst (orderByWeight rand n ts)) = ts ! i \<and> mset (fst (orderByWeight rand n ts)) = mset ts"
proof -
  have "drawn (rand n) ts = i" using draw_index_share [OF assms] by (simp add: drawn_def)
  moreover have "ts \<noteq> []" using assms(2) by auto
  ultimately show ?thesis
    using orderByWeight_perm [of rand n ts] by (simp add: orderByWeight.simps [of rand n ts] split_beta Let_def)
qed

theorem weighted_draw_witness:
  "hd (fst (orderByWeight (\<lambda>n. 7 / 10) 0 sample_targets)) = sample_targets ! 1"
proof -
  have "\<forall>t\<in>set sample_targets. 0 < weight_of t" by (simp add: sample_targets_def weight_of_def)
  then show ?thesis
    using weighted_draw [of sample_targets 1 "\<lambda>n. 7 / 10" 0] by (simp add: sample_targets_def weight_of_def)
qed

text \<open>What the preferences ask of one target.\<close>

definition pref_allows :: "RoutingPreferences \<Rightarrow> PreferenceContext \<Rightarrow> RouteTarget \<Rightarrow> bool" where
  "pref_allows prefs ctx t \<longleftrightarrow>
     (case pf_only prefs of Some names \<Rightarrow> names = [] \<or> matches names t | None \<Rightarrow> True)
     \<and> (case pf_ignore prefs of Some names \<Rightarrow> \<not> matches names t | None \<Rightarrow> True)
     \<and> (pf_zdr prefs \<longrightarrow> rt_zdr t = Some True)
     \<and> (case pc_rateOf ctx of
          Some rate \<Rightarrow> pf_maxPrompt prefs = None \<and> pf_maxCompletion prefs = None \<or> within_price prefs (rate t)
        | None \<Rightarrow> True)"

lemma pref_pool_allows: "pref_pool prefs ctx cs = filter (pref_allows prefs ctx) cs"
  unfolding pref_pool_filter
  by (rule filter_cong) (auto simp: pref_allows_def listed_def matches_def split: option.splits list.splits)

text \<open>
  Preferences only narrow and reorder. What a request's preferences leave of a candidate list is
  part of it, without repetition; every candidate kept satisfies \<^verbatim>\<open>only\<close>, \<^verbatim>\<open>ignore\<close>, ZDR and the price ceilings (an unpriced target
  does not), and every candidate that satisfies them is kept unless fallbacks beyond \<^verbatim>\<open>order\<close>
  were declined. They come back empty-handed only when nothing satisfies them.
\<close>

theorem preferences_only_narrow:
  assumes "distinct (map rt_ref candidates)"
  shows "case applyRoutingPreferences candidates prefs ctx of
      Inr out \<Rightarrow> out \<noteq> [] \<and> distinct (map rt_ref out) \<and> (\<forall>t\<in>set out. t \<in> set candidates \<and> pref_allows prefs ctx t)
        \<and> (pf_allowFallbacks prefs \<noteq> Some False \<longrightarrow> mset out = mset (filter (pref_allows prefs ctx) candidates))
    | Inl reason \<Rightarrow> pf_allowFallbacks prefs \<noteq> Some False \<longrightarrow> (\<forall>t\<in>set candidates. \<not> pref_allows prefs ctx t)"
proof -
  define pool where "pool = pref_pool prefs ctx candidates"
  define hd' where "hd' = pref_head prefs pool"
  have pool: "pool = filter (pref_allows prefs ctx) candidates"
    by (simp add: pool_def pref_pool_allows)
  have d: "distinct (map rt_ref pool)" unfolding pool using assms(1) by (rule distinct_map_filter)
  have h: "distinct (map rt_ref hd')" "set hd' \<subseteq> set pool" using pref_head_props by (auto simp: hd'_def)
  show ?thesis
  proof (cases "applyRoutingPreferences candidates prefs ctx")
    case (Inl e)
    then show ?thesis using apply_Inl [of candidates prefs ctx] pool by (auto simp: filter_empty_conv simp flip: pool_def)
  next
    case (Inr out)
    define rest where "rest = filter (\<lambda>t. \<not> has_ref t hd') pool"
    define strict where "strict \<longleftrightarrow> listed (pf_order prefs) \<and> pf_allowFallbacks prefs = Some False"
    have out: "out = hd' @ sort_rest prefs ctx (if strict then [] else rest)"
      using apply_Inr [OF Inr] by (simp add: hd'_def pool_def rest_def strict_def)
    have "\<not> (\<exists>e. applyRoutingPreferences candidates prefs ctx = Inl e)" using Inr by simp
    then have ne: "pool \<noteq> []" "strict \<longrightarrow> hd' \<noteq> []" by (auto simp: apply_Inl strict_def hd'_def pool_def)
    have dr: "distinct (map rt_ref rest)" unfolding rest_def using d by (rule distinct_map_filter)
    have "distinct (map rt_ref out)"
      using h(1) dr by (auto simp: out sort_rest_distinct rest_def has_ref_def) (metis image_eqI)
    moreover have perm: "mset (hd' @ rest) = mset pool"
      using h d by (intro pull_partition) (auto simp: rest_def)
    moreover have "mset out = mset pool" if "\<not> strict" using that perm by (simp add: out sort_rest_perm)
    moreover have "out \<noteq> []" using ne arg_cong [OF perm, of size] arg_cong [OF sort_rest_perm, of size prefs ctx rest] by (cases strict) (auto simp: out)
    moreover have "set out \<subseteq> set pool" using h(2) by (auto simp: out rest_def split: if_splits)
    ultimately show ?thesis using Inr pool by (auto simp: strict_def)
  qed
qed


definition sample_prefs :: RoutingPreferences where
  "sample_prefs = no_prefs\<lparr>pf_ignore := Some [''openai''], pf_order := Some [''bedrock'']\<rparr>"

theorem preferences_only_narrow_witness:
  "applyRoutingPreferences sample_targets sample_prefs \<lparr>pc_rateOf = None, pc_latencyOf = None\<rparr>
     = Inr [sample_targets ! 1, sample_targets ! 0]
   \<and> mset [sample_targets ! 1, sample_targets ! 0]
     = mset (filter (pref_allows sample_prefs \<lparr>pc_rateOf = None, pc_latencyOf = None\<rparr>) sample_targets)"
proof -
  let ?ctx = "\<lparr>pc_rateOf = None, pc_latencyOf = None\<rparr>"
  have a: "applyRoutingPreferences sample_targets sample_prefs ?ctx = Inr [sample_targets ! 1, sample_targets ! 0]"
    by code_simp
  have "distinct (map rt_ref sample_targets)" by (simp add: sample_targets_def)
  from preferences_only_narrow [OF this, of sample_prefs ?ctx] a show ?thesis
    by (simp add: sample_prefs_def no_prefs_def)
qed

text \<open>
  The preference fields never reach an upstream: extraction removes \<^verbatim>\<open>provider\<close> and
  \<^verbatim>\<open>providerOptions\<close> from the body, keeps every other field as it was, and reports that it stripped something exactly when one of
  them was there. A request can ask for ZDR and never against it.
\<close>

theorem extract_strips_preferences:
  "case extractRoutingPreferences body of (prefs, stripped, body') \<Rightarrow>
     (\<forall>k. jm_get body' k = (if k \<in> {''provider'', ''providerOptions''} then None else jm_get body k))
     \<and> (\<not> stripped \<longleftrightarrow> jm_get body ''provider'' = None \<and> jm_get body ''providerOptions'' = None)
     \<and> (if stripped then True else prefs = None \<and> body' = body)"
  by (auto simp: extractRoutingPreferences_def split_beta Let_def jm_get_delete split: option.splits)

text \<open>
  An unknown sort is not always ignored: the name \<^verbatim>\<open>constructor\<close>, which every object inherits, reads as a sort,
  so that a request with it has its candidates ranked by latency.
\<close>

theorem inherited_sort_name:
  "asSort (Some (JStr ''constructor'')) = Some SortProto
   \<and> sort_rest (no_prefs\<lparr>pf_sort := Some SortProto\<rparr>) \<lparr>pc_rateOf = rate, pc_latencyOf = Some lat\<rparr> ts
       = sort_rest (no_prefs\<lparr>pf_sort := Some SortLatency\<rparr>) \<lparr>pc_rateOf = rate, pc_latencyOf = Some lat\<rparr> ts
   \<and> asSort (Some (JStr ''bogus'')) = None"
  by (simp add: sort_named_def sort_rest_def to_lower_def lower_char_def)

end
