(* ===== verification/Model_Router.thy ===== *)
theory Model_Router
  imports Routing
begin

text \<open>
  Model-based routing (\<^verbatim>\<open>src/packages/routing/src/model-router.ts\<close>) and request shaping (\<^verbatim>\<open>shaping.ts\<close>). The glob matcher is
  the regular expression \<^verbatim>\<open>globToRegExp\<close> builds, read as a backtracking matcher; the router is compared
  with a linear scan of the declared rules.
\<close>

section \<open>Rules and globs\<close>

record ModelRouteRule =
  mr_pattern :: string
  mr_target :: "string option"
  mr_strategy :: "RoutingStrategy option"
  mr_provider :: "string option"

record ModelResolution =
  ms_requested :: string
  ms_resolved :: string
  ms_strategy :: "RoutingStrategy option"
  ms_matched :: string
  ms_provider :: "string option"

text \<open>
  \<^verbatim>\<open>^...$\<close> with every other special character escaped and \<^verbatim>\<open>*\<close> as \<^verbatim>\<open>.*\<close>, whose dot does not match a line terminator.
\<close>

definition line_end :: "char \<Rightarrow> bool" where
  "line_end c \<longleftrightarrow> of_char c = (10 :: nat) \<or> of_char c = (13 :: nat)"

definition star :: char where
  "star = CHR 0x2A"

fun glob_match :: "string \<Rightarrow> string \<Rightarrow> bool" where
  "glob_match [] s = (s = [])"
| "glob_match (p # ps) [] = (p = star \<and> glob_match ps [])"
| "glob_match (p # ps) (c # cs) =
     (if p = star then glob_match ps (c # cs) \<or> (\<not> line_end c \<and> glob_match (p # ps) cs)
      else c = p \<and> glob_match ps cs)"

definition specificity :: "string \<Rightarrow> nat" where
  "specificity pattern = length (filter (\<lambda>c. c \<noteq> star) pattern)"

record ModelRouter =
  mt_exact :: "(string, ModelRouteRule) jsmap"
  mt_globs :: "ModelRouteRule list"

definition is_glob :: "ModelRouteRule \<Rightarrow> bool" where
  "is_glob rule \<longleftrightarrow> star \<in> set (mr_pattern rule)"

definition add_rule :: "ModelRouter \<Rightarrow> ModelRouteRule \<Rightarrow> ModelRouter" where
  "add_rule m rule =
     (if is_glob rule then m\<lparr>mt_globs := mt_globs m @ [rule]\<rparr>
      else if jm_get (mt_exact m) (mr_pattern rule) = None
      then m\<lparr>mt_exact := jm_set (mr_pattern rule) rule (mt_exact m)\<rparr>
      else m)"

definition new_ModelRouter :: "ModelRouteRule list \<Rightarrow> ModelRouter" where
  "new_ModelRouter rules =
     foldl add_rule \<lparr>mt_exact = [], mt_globs = []\<rparr> (sort_key (\<lambda>r. - int (specificity (mr_pattern r))) rules)"

definition resolution :: "string \<Rightarrow> ModelRouteRule \<Rightarrow> ModelResolution" where
  "resolution model rule =
     \<lparr>ms_requested = model, ms_resolved = (case mr_target rule of Some t \<Rightarrow> t | None \<Rightarrow> model),
      ms_strategy = mr_strategy rule, ms_matched = mr_pattern rule, ms_provider = mr_provider rule\<rparr>"

definition resolve_model :: "ModelRouter \<Rightarrow> string \<Rightarrow> ModelResolution option" where
  "resolve_model m model =
     (case jm_get (mt_exact m) model of
        Some rule \<Rightarrow> Some (resolution model rule)
      | None \<Rightarrow> map_option (resolution model) (find (\<lambda>rule. glob_match (mr_pattern rule) model) (mt_globs m)))"

definition knownModels :: "ModelRouter \<Rightarrow> string list" where
  "knownModels m = sort (map fst (mt_exact m))"

definition router_rules :: "ModelRouter \<Rightarrow> ModelRouteRule list" where
  "router_rules m = map snd (mt_exact m) @ mt_globs m"

section \<open>Shaping\<close>

text \<open>
  A request body is an object; \<^verbatim>\<open>in\<close> also sees the names every object inherits, and an assignment to
  \<^verbatim>\<open>__proto__\<close> sets no field.
\<close>

record RequestShaping =
  sh_defaults :: "(string, json) jsmap option"
  sh_overrides :: "(string, json) jsmap option"
  sh_systemPrepend :: "string option"
  sh_systemAppend :: "string option"

definition inherited_names :: "string list" where
  "inherited_names = [''constructor'', ''__defineGetter__'', ''__defineSetter__'', ''hasOwnProperty'', ''__lookupGetter__'',
     ''__lookupSetter__'', ''isPrototypeOf'', ''propertyIsEnumerable'', ''toString'', ''valueOf'', ''__proto__'', ''toLocaleString'']"

definition js_in :: "string \<Rightarrow> (string, json) jsmap \<Rightarrow> bool" where
  "js_in k body \<longleftrightarrow> jm_get body k \<noteq> None \<or> k \<in> set inherited_names"

definition js_assign :: "string \<Rightarrow> json \<Rightarrow> (string, json) jsmap \<Rightarrow> (string, json) jsmap" where
  "js_assign k v body = (if k = ''__proto__'' then body else jm_set k v body)"

definition given_text :: "string option \<Rightarrow> bool" where
  "given_text s = (case s of Some (c # cs) \<Rightarrow> True | _ \<Rightarrow> False)"

definition hasShaping :: "RequestShaping \<Rightarrow> bool" where
  "hasShaping s \<longleftrightarrow> (case sh_defaults s of Some (kv # kvs) \<Rightarrow> True | _ \<Rightarrow> False)
     \<or> (case sh_overrides s of Some (kv # kvs) \<Rightarrow> True | _ \<Rightarrow> False)
     \<or> given_text (sh_systemPrepend s) \<or> given_text (sh_systemAppend s)"

definition text_block :: "string \<Rightarrow> json" where
  "text_block t = JObj [(''type'', JStr ''text''), (''text'', JStr t)]"

definition opt_list :: "string option \<Rightarrow> string list" where
  "opt_list s = (case s of Some (c # cs) \<Rightarrow> [c # cs] | _ \<Rightarrow> [])"

definition enrichSystem :: "json option \<Rightarrow> string option \<Rightarrow> string option \<Rightarrow> json" where
  "enrichSystem system prepend append' =
     (case system of
        Some (JArr blocks) \<Rightarrow> JArr (map text_block (opt_list prepend) @ blocks @ map text_block (opt_list append'))
      | _ \<Rightarrow>
          (let base = (case system of Some (JStr s) \<Rightarrow> Some s | _ \<Rightarrow> None) in
           JStr (join_with [CHR 0x0A, CHR 0x0A] (opt_list prepend @ opt_list base @ opt_list append'))))"

definition put_default :: "(string, json) jsmap \<Rightarrow> string \<times> json \<Rightarrow> (string, json) jsmap" where
  "put_default out kv = (if js_in (fst kv) out then out else js_assign (fst kv) (snd kv) out)"

definition put_override :: "(string, json) jsmap \<Rightarrow> string \<times> json \<Rightarrow> (string, json) jsmap" where
  "put_override out kv = js_assign (fst kv) (snd kv) out"

definition shapeRequestBody :: "(string, json) jsmap \<Rightarrow> RequestShaping \<Rightarrow> (string, json) jsmap" where
  "shapeRequestBody body shaping =
     (let out1 = foldl put_default body (case sh_defaults shaping of Some d \<Rightarrow> d | None \<Rightarrow> []);
          out2 = foldl put_override out1 (case sh_overrides shaping of Some d \<Rightarrow> d | None \<Rightarrow> [])
      in if given_text (sh_systemPrepend shaping) \<or> given_text (sh_systemAppend shaping)
         then jm_set ''system'' (enrichSystem (jm_get out2 ''system'') (sh_systemPrepend shaping) (sh_systemAppend shaping)) out2
         else out2)"

section \<open>Globs\<close>

text \<open>A pattern filled in: its stars replaced by words.\<close>

fun fill :: "string \<Rightarrow> string list \<Rightarrow> string" where
  "fill [] ws = []"
| "fill (p # ps) ws = (if p = star then hd ws @ fill ps (tl ws) else p # fill ps ws)"

definition stars :: "string \<Rightarrow> nat" where
  "stars pattern = length (filter (\<lambda>c. c = star) pattern)"

definition gap :: "string \<Rightarrow> bool" where
  "gap w \<longleftrightarrow> (\<forall>c\<in>set w. \<not> line_end c)"

lemma gap_simps [simp]: "gap []" "gap (c # w) \<longleftrightarrow> \<not> line_end c \<and> gap w"
  by (simp_all add: gap_def)

lemma glob_match_fill: "list_all gap ws \<Longrightarrow> length ws = stars p \<Longrightarrow> glob_match p (fill p ws)"
proof (induction p ws rule: fill.induct)
  case (2 p ps ws)
  show ?case
  proof (cases "p = star")
    case True
    then obtain w ws' where ws: "ws = w # ws'" using "2.prems"(2) by (cases ws) (auto simp: stars_def)
    have ih: "glob_match ps (fill ps ws')" using 2 True ws by (simp add: stars_def)
    have "gap w \<Longrightarrow> glob_match (star # ps) (w @ fill ps ws')"
    proof (induction w)
      case Nil
      then show ?case using ih by (cases "fill ps ws'") auto
    qed auto
    then show ?thesis using True ws "2.prems"(1) by simp
  qed (use 2 in \<open>simp add: stars_def\<close>)
qed simp

lemma glob_match_sound: "glob_match p s \<Longrightarrow> \<exists>ws. list_all gap ws \<and> length ws = stars p \<and> s = fill p ws"
proof (induction p s rule: glob_match.induct)
  case (1 s)
  then show ?case by (intro exI [of _ "[]"]) (simp add: stars_def)
next
  case (2 p ps)
  then obtain ws where "list_all gap ws" "length ws = stars ps" "[] = fill ps ws" by auto
  then show ?case using 2 by (intro exI [of _ "[] # ws"]) (simp add: stars_def)
next
  case (3 p ps c cs)
  show ?case
  proof (cases "p = star")
    case False
    then obtain ws where "list_all gap ws" "length ws = stars ps" "cs = fill ps ws" "c = p" using 3 by auto
    then show ?thesis using False by (intro exI [of _ ws]) (simp add: stars_def)
  next
    case True
    then consider "glob_match ps (c # cs)" | "\<not> line_end c" "glob_match (p # ps) cs" using 3 by auto
    then show ?thesis
    proof cases
      case 1
      then obtain ws where "list_all gap ws" "length ws = stars ps" "c # cs = fill ps ws" using 3 True by blast
      then show ?thesis using True by (intro exI [of _ "[] # ws"]) (simp add: stars_def)
    next
      case 2
      then obtain ws where ws: "list_all gap ws" "length ws = stars (p # ps)" "cs = fill (p # ps) ws" using 3 True by blast
      then obtain w ws' where "ws = w # ws'" using True by (cases ws) (auto simp: stars_def)
      then show ?thesis using ws True 2 by (intro exI [of _ "(c # w) # ws'"]) (auto simp: stars_def)
    qed
  qed
qed


lemma glob_match_iff: "glob_match p s \<longleftrightarrow> (\<exists>ws. list_all gap ws \<and> length ws = stars p \<and> s = fill p ws)"
  using glob_match_fill glob_match_sound by blast

lemma glob_match_literal: "star \<notin> set p \<Longrightarrow> glob_match p s \<longleftrightarrow> s = p"
  by (induction p s rule: glob_match.induct) auto

section \<open>The first best of a stable sort\<close>

fun first_min :: "('a \<Rightarrow> 'k::linorder) \<Rightarrow> ('a \<Rightarrow> bool) \<Rightarrow> 'a list \<Rightarrow> 'a option" where
  "first_min f P [] = None"
| "first_min f P (x # xs) =
     (case first_min f P xs of
        None \<Rightarrow> if P x then Some x else None
      | Some y \<Rightarrow> if P x \<and> f x \<le> f y then Some x else Some y)"

lemma find_insort:
  "sorted (map f ys) \<Longrightarrow> find P (insort_key f x ys) =
     (case find P ys of None \<Rightarrow> if P x then Some x else None | Some y \<Rightarrow> if P x \<and> f x \<le> f y then Some x else Some y)"
proof (induction ys)
  case (Cons y ys)
  have above: "f y \<le> f z" if "find P ys = Some z" for z
    using that Cons.prems by (auto simp: find_Some_iff)
  show ?case
    using Cons above by (auto split: option.splits)
qed simp

lemma find_sort_key: "find P (sort_key f xs) = first_min f P xs"
  by (induction xs) (simp_all add: find_insort)

lemma first_min_None: "first_min f P xs = None \<longleftrightarrow> (\<forall>x\<in>set xs. \<not> P x)"
  by (induction xs) (auto split: option.splits)

lemma first_min_Some:
  "first_min f P xs = Some y \<Longrightarrow> \<exists>i<length xs. xs ! i = y \<and> P y
     \<and> (\<forall>j<length xs. P (xs ! j) \<longrightarrow> f y < f (xs ! j) \<or> f y = f (xs ! j) \<and> i \<le> j)"
proof (induction xs arbitrary: y)
  case (Cons x xs)
  show ?case
  proof (cases "first_min f P xs")
    case None
    then have "y = x" "P x" using Cons.prems by (auto split: if_splits)
    moreover have "\<not> P z" if "z \<in> set xs" for z using None that by (simp add: first_min_None)
    ultimately show ?thesis by (intro exI [of _ 0]) (auto simp: nth_Cons' dest: nth_mem)
  next
    case (Some z)
    from Cons.IH [OF this] obtain i where i: "i < length xs" "xs ! i = z" "P z"
      "\<And>j. j < length xs \<Longrightarrow> P (xs ! j) \<Longrightarrow> f z < f (xs ! j) \<or> f z = f (xs ! j) \<and> i \<le> j" by blast
    show ?thesis
    proof (cases "P x \<and> f x \<le> f z")
      case True
      then have y: "y = x" using Some Cons.prems by simp
      have "f x \<le> f (xs ! j)" if "j < length xs" "P (xs ! j)" for j using i(4) [OF that] True by auto
      then show ?thesis using True y by (intro exI [of _ 0]) (auto simp: nth_Cons' le_less)
    next
      case False
      then have y: "y = z" using Some Cons.prems by (simp split: if_splits)
      show ?thesis using i y False by (intro exI [of _ "Suc i"]) (auto simp: nth_Cons split: nat.split)
    qed
  qed
qed simp

section \<open>The router built from its rules\<close>

lemma build_globs: "mt_globs (foldl add_rule m xs) = mt_globs m @ filter is_glob xs"
  by (induction xs arbitrary: m) (auto simp: add_rule_def)

lemma build_exact:
  "jm_get (mt_exact (foldl add_rule m xs)) k =
     (case jm_get (mt_exact m) k of Some r \<Rightarrow> Some r | None \<Rightarrow> find (\<lambda>r. \<not> is_glob r \<and> mr_pattern r = k) xs)"
  by (induction xs arbitrary: m) (auto simp: add_rule_def jm_get_set split: option.split)

lemma find_filter: "find P (filter Q xs) = find (\<lambda>x. Q x \<and> P x) xs"
  by (induction xs) auto

lemma resolve_new:
  "resolve_model (new_ModelRouter rules) model =
     map_option (resolution model)
       (case first_min (\<lambda>r. - int (specificity (mr_pattern r))) (\<lambda>r. \<not> is_glob r \<and> mr_pattern r = model) rules of
          Some r \<Rightarrow> Some r
        | None \<Rightarrow> first_min (\<lambda>r. - int (specificity (mr_pattern r))) (\<lambda>r. is_glob r \<and> glob_match (mr_pattern r) model) rules)"
  by (simp add: resolve_model_def new_ModelRouter_def build_globs build_exact find_filter find_sort_key split: option.split)

definition rule_matches :: "ModelRouteRule \<Rightarrow> string \<Rightarrow> bool" where
  "rule_matches r model \<longleftrightarrow> glob_match (mr_pattern r) model"

lemma rule_matches_exact: "\<not> is_glob r \<Longrightarrow> rule_matches r model \<longleftrightarrow> mr_pattern r = model"
  by (auto simp: rule_matches_def is_glob_def glob_match_literal)

section \<open>Shaped fields\<close>

lemma put_defaults_get:
  assumes "jm_ok ds" "k \<noteq> ''__proto__''"
  shows "jm_get (foldl put_default out ds) k =
    (case jm_get out k of Some v \<Rightarrow> Some v | None \<Rightarrow> if k \<in> set inherited_names then None else jm_get ds k)"
  using assms(1)
proof (induction ds arbitrary: out)
  case (Cons d ds)
  have "jm_get ds (fst d) = None" using Cons.prems by (simp add: map_of_eq_None_iff)
  then show ?case using Cons assms(2)
    by (cases d) (auto simp: put_default_def js_in_def js_assign_def jm_get_set split: option.splits)
qed (simp split: option.split)

lemma put_overrides_get:
  assumes "jm_ok ds" "k \<noteq> ''__proto__''"
  shows "jm_get (foldl put_override out ds) k = (case jm_get ds k of Some v \<Rightarrow> Some v | None \<Rightarrow> jm_get out k)"
  using assms(1)
proof (induction ds arbitrary: out)
  case (Cons d ds)
  have "jm_get ds (fst d) = None" using Cons.prems by (simp add: map_of_eq_None_iff)
  then show ?case using Cons assms(2)
    by (cases d) (auto simp: put_override_def js_assign_def jm_get_set split: option.splits)
qed simp

section \<open>Properties\<close>

text \<open>
  The router picks the best rule. A model has no resolution exactly when no rule's pattern can be
  filled in to give it; otherwise the resolution is that of a matching rule that is the first exact one, or, when no exact
  one matches, the first of the most specific matching globs.
\<close>

theorem resolve_best_rule:
  "case resolve_model (new_ModelRouter rules) model of
     None \<Rightarrow> \<forall>r\<in>set rules. \<nexists>ws. list_all gap ws \<and> length ws = stars (mr_pattern r) \<and> model = fill (mr_pattern r) ws
   | Some res \<Rightarrow>
       \<exists>i<length rules. rule_matches (rules ! i) model \<and> res = resolution model (rules ! i)
         \<and> (\<forall>j<length rules. rule_matches (rules ! j) model \<longrightarrow>
              (if is_glob (rules ! i)
               then is_glob (rules ! j)
                    \<and> (specificity (mr_pattern (rules ! j)) < specificity (mr_pattern (rules ! i))
                       \<or> specificity (mr_pattern (rules ! j)) = specificity (mr_pattern (rules ! i)) \<and> i \<le> j)
               else is_glob (rules ! j) \<or> i \<le> j))"
proof -
  let ?f = "\<lambda>r. - int (specificity (mr_pattern r))"
  let ?E = "\<lambda>r. \<not> is_glob r \<and> mr_pattern r = model" and ?G = "\<lambda>r. is_glob r \<and> glob_match (mr_pattern r) model"
  show ?thesis
  proof (cases "first_min ?f ?E rules")
    case (Some r)
    from first_min_Some [OF this] obtain i where i: "i < length rules" "rules ! i = r" "?E r"
      "\<forall>j<length rules. ?E (rules ! j) \<longrightarrow> ?f r < ?f (rules ! j) \<or> ?f r = ?f (rules ! j) \<and> i \<le> j" by blast
    have "is_glob (rules ! j) \<or> i \<le> j" if "j < length rules" "rule_matches (rules ! j) model" for j
      using that i by (auto simp: rule_matches_exact)
    moreover have "resolve_model (new_ModelRouter rules) model = Some (resolution model (rules ! i))"
      using Some i(2) by (simp add: resolve_new)
    moreover have "rule_matches (rules ! i) model" "\<not> is_glob (rules ! i)" using i(2,3) by (auto simp: rule_matches_exact)
    ultimately show ?thesis using i(1) by (simp only: option.case) (intro exI [of _ i] conjI allI impI, simp_all)
  next
    case None
    then have noE: "is_glob r" if "r \<in> set rules" "rule_matches r model" for r
      using that rule_matches_exact [of r model] by (auto simp: first_min_None)
    show ?thesis
    proof (cases "first_min ?f ?G rules")
      case (Some r)
      from first_min_Some [OF this] obtain i where i: "i < length rules" "rules ! i = r" "?G r"
        "\<forall>j<length rules. ?G (rules ! j) \<longrightarrow> ?f r < ?f (rules ! j) \<or> ?f r = ?f (rules ! j) \<and> i \<le> j" by blast
      have "is_glob (rules ! j) \<and> (specificity (mr_pattern (rules ! j)) < specificity (mr_pattern (rules ! i))
          \<or> specificity (mr_pattern (rules ! j)) = specificity (mr_pattern (rules ! i)) \<and> i \<le> j)"
        if "j < length rules" "rule_matches (rules ! j) model" for j
        using that i noE [of "rules ! j"] by (auto simp: rule_matches_def)
      moreover have "resolve_model (new_ModelRouter rules) model = Some (resolution model (rules ! i))"
        using Some None i(2) by (simp add: resolve_new)
      moreover have "rule_matches (rules ! i) model" "is_glob (rules ! i)" using i(2,3) by (auto simp: rule_matches_def)
      ultimately show ?thesis using i(1) by (simp only: option.case) (intro exI [of _ i] conjI allI impI, simp_all)
    next
      case none: None
      then have "\<not> glob_match (mr_pattern r) model" if "r \<in> set rules" for r
        using that noE by (auto simp: first_min_None rule_matches_def)
      then show ?thesis using None none by (auto simp: resolve_new simp flip: glob_match_iff)
    qed
  qed
qed

theorem resolve_best_rule_witness:
  "let rules = [\<lparr>mr_pattern = ''claude-*'', mr_target = Some ''big'', mr_strategy = None, mr_provider = None\<rparr>] in
   resolve_model (new_ModelRouter rules) ''gpt-5'' = None
   \<and> (\<nexists>ws. list_all gap ws \<and> length ws = 1 \<and> ''gpt-5'' = fill ''claude-*'' ws)"
proof -
  let ?rules = "[\<lparr>mr_pattern = ''claude-*'', mr_target = Some ''big'', mr_strategy = None, mr_provider = None\<rparr>]"
  have n: "resolve_model (new_ModelRouter ?rules) ''gpt-5'' = None" by code_simp
  have "stars ''claude-*'' = 1" by code_simp
  then show ?thesis using resolve_best_rule [of ?rules "''gpt-5''"] n by simp
qed

text \<open>
  Shaping respects its policy. In the shaped body a field other than the system prompt has the override's
  value if there is an override, else the client's value if the client sent one, else the default's
  (for a name every object inherits: none); the system prompt is enriched only when a text was configured.
\<close>

theorem shaping_precedence:
  assumes "jm_ok ds" and "jm_ok os" and "sh_defaults shaping = Some ds" and "sh_overrides shaping = Some os"
    and "k \<noteq> ''__proto__''"
    and "k \<noteq> ''system'' \<or> \<not> given_text (sh_systemPrepend shaping) \<and> \<not> given_text (sh_systemAppend shaping)"
  shows "jm_get (shapeRequestBody body shaping) k =
    (case jm_get os k of
       Some v \<Rightarrow> Some v
     | None \<Rightarrow>
         (case jm_get body k of
            Some v \<Rightarrow> Some v
          | None \<Rightarrow> if k \<in> set inherited_names then None else jm_get ds k))"
  using assms by (auto simp: shapeRequestBody_def Let_def jm_get_set put_overrides_get put_defaults_get split: option.split)

theorem shaping_precedence_witness:
  "jm_get (shapeRequestBody [(''model'', JStr ''x''), (''n'', JNull)]
     \<lparr>sh_defaults = Some [(''n'', JBool True), (''m'', JBool True)], sh_overrides = Some [(''model'', JStr ''y'')],
      sh_systemPrepend = None, sh_systemAppend = None\<rparr>) ''model'' = Some (JStr ''y'')"
  by (subst shaping_precedence [where ds = "[(''n'', JBool True), (''m'', JBool True)]" and os = "[(''model'', JStr ''y'')]"])
    (simp_all add: given_text_def)

end
