(* ===== verification/Rbac.thy ===== *)
theory Rbac
  imports Gulley_Prelude "HOL-Library.List_Lexorder" "HOL-Library.Char_ord"
begin

text \<open>
  The permission engine of the control plane, \<^verbatim>\<open>src/packages/rbac/src\<close>: the permission grid and the
  built-in roles (\<^verbatim>\<open>permissions.ts\<close>), role ids, memberships and scopes (\<^verbatim>\<open>principal.ts\<close>), role definitions and resolvers
  (\<^verbatim>\<open>roles.ts\<close>), the engine (\<^verbatim>\<open>engine.ts\<close>) and the access-control port (\<^verbatim>\<open>access-control.ts\<close>). A resolver is a function that may
  throw, which is the left of its sum; the laws a resolver promises are the locale \<open>role_resolver\<close>.
\<close>

section \<open>Permissions\<close>

datatype Resource =
    Org | Workspace | Project | Provider | Route | Policy | Key | Budget | Ratelimit | Guardrail | Prompt
  | Membership | RoleR | Config | Audit

datatype Action = Read | Create | Update | Delete

datatype Permission =
    Perm Resource Action
  | MembershipGrantOwner | ConfigApply | AuditVerify | GuardrailReveal | KeyDisable | KeyRotate

fun resource_text :: "Resource \<Rightarrow> string" where
  "resource_text Org = ''org''"
| "resource_text Workspace = ''workspace''"
| "resource_text Project = ''project''"
| "resource_text Provider = ''provider''"
| "resource_text Route = ''route''"
| "resource_text Policy = ''policy''"
| "resource_text Key = ''key''"
| "resource_text Budget = ''budget''"
| "resource_text Ratelimit = ''ratelimit''"
| "resource_text Guardrail = ''guardrail''"
| "resource_text Prompt = ''prompt''"
| "resource_text Membership = ''membership''"
| "resource_text RoleR = ''role''"
| "resource_text Config = ''config''"
| "resource_text Audit = ''audit''"

fun action_text :: "Action \<Rightarrow> string" where
  "action_text Read = ''read''"
| "action_text Create = ''create''"
| "action_text Update = ''update''"
| "action_text Delete = ''delete''"

fun permission_text :: "Permission \<Rightarrow> string" where
  "permission_text (Perm r a) = resource_text r @ '':'' @ action_text a"
| "permission_text MembershipGrantOwner = ''membership:grant_owner''"
| "permission_text ConfigApply = ''config:apply''"
| "permission_text AuditVerify = ''audit:verify''"
| "permission_text GuardrailReveal = ''guardrail:reveal''"
| "permission_text KeyDisable = ''key:disable''"
| "permission_text KeyRotate = ''key:rotate''"

definition READABLE :: "Resource list" where
  "READABLE = [Org, Workspace, Project, Provider, Route, Policy, Key, Budget, Ratelimit, Guardrail, Prompt,
     Membership, RoleR, Config, Audit]"

definition EDITABLE :: "Resource list" where
  "EDITABLE = [Workspace, Project, Provider, Route, Policy, Key, Ratelimit, Guardrail, Prompt]"

definition perm_reads :: "Permission list" where
  "perm_reads = map (\<lambda>r. Perm r Read) READABLE"

definition perm_edits :: "Permission list" where
  "perm_edits = concat (map (\<lambda>r. [Perm r Create, Perm r Update, Perm r Delete]) EDITABLE)"

definition BUDGET_WRITE :: "Permission list" where
  "BUDGET_WRITE = [Perm Budget Create, Perm Budget Update, Perm Budget Delete]"

definition MEMBERSHIP_WRITE :: "Permission list" where
  "MEMBERSHIP_WRITE = [Perm Membership Create, Perm Membership Delete]"

definition ROLE_WRITE :: "Permission list" where
  "ROLE_WRITE = [Perm RoleR Create, Perm RoleR Update, Perm RoleR Delete]"

definition KEY_LIFECYCLE :: "Permission list" where
  "KEY_LIFECYCLE = [KeyDisable, KeyRotate]"

definition viewer_perms :: "Permission list" where
  "viewer_perms = perm_reads"

definition billing_perms :: "Permission list" where
  "billing_perms = perm_reads @ BUDGET_WRITE"

definition editor_perms :: "Permission list" where
  "editor_perms = perm_reads @ perm_edits @ BUDGET_WRITE @ KEY_LIFECYCLE"

definition admin_perms :: "Permission list" where
  "admin_perms = editor_perms @ MEMBERSHIP_WRITE @ ROLE_WRITE @ [AuditVerify]"

definition owner_perms :: "Permission list" where
  "owner_perms = admin_perms @ [Perm Org Create, Perm Org Delete, MembershipGrantOwner, ConfigApply, GuardrailReveal]"

text \<open>The built-in role ids; \<^verbatim>\<open>PERMISSIONS_BY_ROLE\<close> is a set per role, here a list without order.\<close>

definition ROLES :: "string list" where
  "ROLES = [''viewer'', ''billing'', ''editor'', ''admin'', ''owner'']"

definition isRole :: "string \<Rightarrow> bool" where
  "isRole v \<longleftrightarrow> v \<in> set ROLES"

definition PERMISSIONS_BY_ROLE :: "string \<Rightarrow> Permission list" where
  "PERMISSIONS_BY_ROLE r =
     (if r = ''viewer'' then viewer_perms
      else if r = ''billing'' then billing_perms
      else if r = ''editor'' then editor_perms
      else if r = ''admin'' then admin_perms
      else if r = ''owner'' then owner_perms
      else [])"

definition ALL_PERMISSIONS :: "Permission list" where
  "ALL_PERMISSIONS = sort_key permission_text owner_perms"

text \<open>\<^verbatim>\<open>isPermission\<close> narrows an unknown string to the permission it names.\<close>

definition as_permission :: "string \<Rightarrow> Permission option" where
  "as_permission v = find (\<lambda>p. permission_text p = v) ALL_PERMISSIONS"

definition isPermission :: "json \<Rightarrow> bool" where
  "isPermission v = (case v of JStr s \<Rightarrow> as_permission s \<noteq> None | _ \<Rightarrow> False)"

definition permissionResource :: "string \<Rightarrow> string" where
  "permissionResource p = (case index_of CHR '':'' p of Some i \<Rightarrow> take i p | None \<Rightarrow> take (length p - 1) p)"

section \<open>Roles, memberships and scopes\<close>

definition role_head_char :: "char \<Rightarrow> bool" where
  "role_head_char c \<longleftrightarrow> (CHR ''a'' \<le> c \<and> c \<le> CHR ''z'') \<or> (CHR ''0'' \<le> c \<and> c \<le> CHR ''9'')"

definition role_tail_char :: "char \<Rightarrow> bool" where
  "role_tail_char c \<longleftrightarrow> role_head_char c \<or> c = CHR ''.'' \<or> c = CHR ''_'' \<or> c = CHR ''-''"

definition isRoleId :: "string \<Rightarrow> bool" where
  "isRoleId v = (case v of c # cs \<Rightarrow> role_head_char c \<and> length cs \<le> 63 \<and> list_all role_tail_char cs | [] \<Rightarrow> False)"

record Membership =
  mb_role :: string
  mb_orgId :: string
  mb_workspaceId :: "string option"

datatype admin_source = Bootstrap | Session | EntraSession

record AdminPrincipal =
  ap_subject :: string
  ap_displayName :: string
  ap_source :: admin_source
  ap_memberships :: "Membership list"

record ScopeRef =
  sc_orgId :: "string option"
  sc_workspaceId :: "string option"

record RoleDefinition =
  rd_id :: string
  rd_name :: string
  rd_permissions :: "Permission list"
  rd_builtin :: bool
  rd_description :: "string option"

definition BUILTIN_DESCRIPTIONS :: "string \<Rightarrow> string" where
  "BUILTIN_DESCRIPTIONS r =
     (if r = ''viewer'' then ''Read-only across every resource.''
      else if r = ''billing'' then ''Read everything; manage budgets.''
      else if r = ''editor'' then ''Read everything; manage workspace config, keys (mint, disable, rotate) and budgets.''
      else if r = ''admin'' then ''Editor plus membership grants, custom roles and audit verification.''
      else ''Admin plus org lifecycle, owner grants, config apply and the guardrail de-mask reveal.'')"

definition builtin_definition :: "string \<Rightarrow> RoleDefinition" where
  "builtin_definition r =
     \<lparr>rd_id = r, rd_name = r, rd_permissions = sort_key permission_text (PERMISSIONS_BY_ROLE r), rd_builtin = True,
      rd_description = Some (BUILTIN_DESCRIPTIONS r)\<rparr>"

definition BUILTIN_ROLES :: "RoleDefinition list" where
  "BUILTIN_ROLES = map builtin_definition ROLES"

definition builtinRole :: "string \<Rightarrow> RoleDefinition option" where
  "builtinRole r = (if isRole r then Some (builtin_definition r) else None)"

section \<open>Resolvers\<close>

type_synonym RoleResolver = "string \<Rightarrow> unit + RoleDefinition option"

definition builtinRoleResolver :: RoleResolver where
  "builtinRoleResolver r = Inr (builtinRole r)"

type_synonym StaticRoleResolver = "(string, RoleDefinition) jsmap"

definition static_set :: "RoleDefinition \<Rightarrow> StaticRoleResolver \<Rightarrow> StaticRoleResolver" where
  "static_set r m = (if isRole (rd_id r) then m else jm_set (rd_id r) r m)"

definition new_StaticRoleResolver :: "RoleDefinition list \<Rightarrow> StaticRoleResolver" where
  "new_StaticRoleResolver rs = foldl (\<lambda>m r. static_set r m) [] rs"

definition static_get :: "StaticRoleResolver \<Rightarrow> string \<Rightarrow> RoleDefinition option" where
  "static_get m r = (case builtinRole r of Some d \<Rightarrow> Some d | None \<Rightarrow> jm_get m r)"

definition static_delete :: "string \<Rightarrow> StaticRoleResolver \<Rightarrow> bool \<times> StaticRoleResolver" where
  "static_delete r m = (jm_get m r \<noteq> None, jm_delete r m)"

definition static_list :: "StaticRoleResolver \<Rightarrow> RoleDefinition list" where
  "static_list m = BUILTIN_ROLES @ map snd m"

definition static_resolver :: "StaticRoleResolver \<Rightarrow> RoleResolver" where
  "static_resolver m r = Inr (static_get m r)"

definition permissionsOf :: "RoleResolver option \<Rightarrow> string \<Rightarrow> Permission list" where
  "permissionsOf resolver r =
     (if isRole r then PERMISSIONS_BY_ROLE r
      else case resolver of
        None \<Rightarrow> []
      | Some get \<Rightarrow> (case get r of Inr (Some d) \<Rightarrow> rd_permissions d | _ \<Rightarrow> []))"

section \<open>The engine\<close>

definition covers :: "Membership \<Rightarrow> ScopeRef \<Rightarrow> bool" where
  "covers m here =
     (if mb_orgId m = ''*'' then True
      else case sc_orgId here of
        None \<Rightarrow> False
      | Some [] \<Rightarrow> False
      | Some org \<Rightarrow>
          if mb_orgId m \<noteq> org then False
          else case mb_workspaceId m of
            None \<Rightarrow> True
          | Some w \<Rightarrow> sc_workspaceId here = Some w)"

definition can :: "RoleResolver option \<Rightarrow> AdminPrincipal \<Rightarrow> Permission \<Rightarrow> ScopeRef \<Rightarrow> bool" where
  "can resolver p perm here =
     list_ex (\<lambda>m. covers m here \<and> perm \<in> set (permissionsOf resolver (mb_role m))) (ap_memberships p)"

definition effectivePermissionsAt :: "RoleResolver option \<Rightarrow> AdminPrincipal \<Rightarrow> ScopeRef \<Rightarrow> Permission list" where
  "effectivePermissionsAt resolver p here =
     remdups (concat (map (\<lambda>m. permissionsOf resolver (mb_role m)) (filter (\<lambda>m. covers m here) (ap_memberships p))))"

text \<open>\<^verbatim>\<open>canGrant\<close> calls the resolver outside the guard of \<^verbatim>\<open>permissionsOf\<close>, so a throwing resolver makes it throw.\<close>

definition canGrant :: "RoleResolver option \<Rightarrow> AdminPrincipal \<Rightarrow> string \<Rightarrow> ScopeRef \<Rightarrow> unit + bool" where
  "canGrant resolver p r here =
     (let wanted = permissionsOf resolver r;
          verdict = (\<lambda>def. if wanted = [] \<and> def = None then False
                           else list_all (\<lambda>perm. perm \<in> set (effectivePermissionsAt resolver p here)) wanted)
      in case resolver of
           None \<Rightarrow> Inr (verdict None)
         | Some get \<Rightarrow> (case get r of Inl e \<Rightarrow> Inl e | Inr def \<Rightarrow> Inr (verdict def)))"

definition canAnywhere :: "RoleResolver option \<Rightarrow> AdminPrincipal \<Rightarrow> Permission \<Rightarrow> bool" where
  "canAnywhere resolver p perm = list_ex (\<lambda>m. perm \<in> set (permissionsOf resolver (mb_role m))) (ap_memberships p)"

definition coversWorkspace :: "AdminPrincipal \<Rightarrow> string \<Rightarrow> string \<Rightarrow> bool" where
  "coversWorkspace p org ws = list_ex (\<lambda>m. covers m \<lparr>sc_orgId = Some org, sc_workspaceId = Some ws\<rparr>) (ap_memberships p)"

text \<open>\<^verbatim>\<open>coveredOrgIds\<close>: \<open>None\<close> is the sentinel for every org; a set keeps the order of first insertion.\<close>

fun covered_ids :: "string list \<Rightarrow> Membership list \<Rightarrow> string list option" where
  "covered_ids ids [] = Some ids"
| "covered_ids ids (m # ms) =
     (if mb_orgId m = ''*'' then None
      else covered_ids (if mb_orgId m \<in> set ids then ids else ids @ [mb_orgId m]) ms)"

definition coveredOrgIds :: "AdminPrincipal \<Rightarrow> string list option" where
  "coveredOrgIds p = covered_ids [] (ap_memberships p)"

section \<open>Access control\<close>

definition inmemory_can :: "AdminPrincipal \<Rightarrow> Permission \<Rightarrow> ScopeRef \<Rightarrow> bool" where
  "inmemory_can p perm here = can None p perm here"

text \<open>The role-aware port refreshes its resolver first; \<open>None\<close> is a refresh that threw.\<close>

definition roleaware_can ::
  "('s \<Rightarrow> 's option) \<Rightarrow> ('s \<Rightarrow> RoleResolver) \<Rightarrow> 's \<Rightarrow> AdminPrincipal \<Rightarrow> Permission \<Rightarrow> ScopeRef \<Rightarrow> bool" where
  "roleaware_can ensureFresh get s p perm here =
     (case ensureFresh s of Some s' \<Rightarrow> can (Some (get s')) p perm here | None \<Rightarrow> False)"

section \<open>The permission names\<close>

lemmas perm_lists =
  owner_perms_def admin_perms_def editor_perms_def billing_perms_def viewer_perms_def perm_reads_def perm_edits_def BUDGET_WRITE_def
  KEY_LIFECYCLE_def MEMBERSHIP_WRITE_def ROLE_WRITE_def READABLE_def EDITABLE_def

lemma owner_perms_distinct: "distinct (map permission_text owner_perms)"
  by code_simp

lemma ALL_PERMISSIONS_set [simp]: "set ALL_PERMISSIONS = set owner_perms"
  by (simp add: ALL_PERMISSIONS_def)

lemma as_permission_text: "as_permission v = Some p \<longleftrightarrow> p \<in> set owner_perms \<and> permission_text p = v"
proof -
  have inj: "inj_on permission_text (set owner_perms)" using owner_perms_distinct by (simp add: distinct_map)
  have "p = q" if "p \<in> set owner_perms" "permission_text p = v" "find (\<lambda>p. permission_text p = v) ALL_PERMISSIONS = Some q" for q
    using that inj by (auto simp: find_Some_iff in_set_conv_nth inj_on_def) (metis ALL_PERMISSIONS_set nth_mem)
  moreover have "find (\<lambda>p. permission_text p = v) ALL_PERMISSIONS \<noteq> None" if "p \<in> set owner_perms" "permission_text p = v"
    using that by (auto simp: find_None_iff)
  moreover have "p \<in> set owner_perms \<and> permission_text p = v" if "find (\<lambda>p. permission_text p = v) ALL_PERMISSIONS = Some p"
    using that ALL_PERMISSIONS_set by (auto simp: find_Some_iff) (metis ALL_PERMISSIONS_set nth_mem)
  ultimately show ?thesis unfolding as_permission_def by blast
qed

lemma builtin_chain:
  "set viewer_perms \<subseteq> set billing_perms" "set billing_perms \<subseteq> set editor_perms" "set editor_perms \<subseteq> set admin_perms"
  "set admin_perms \<subseteq> set owner_perms"
  by (auto simp: viewer_perms_def billing_perms_def editor_perms_def admin_perms_def owner_perms_def)

section \<open>Lookups\<close>

lemma can_iff: "can rs p perm here \<longleftrightarrow> (\<exists>m\<in>set (ap_memberships p). covers m here \<and> perm \<in> set (permissionsOf rs (mb_role m)))"
  by (auto simp: can_def list_ex_iff)

lemma effective_iff: "perm \<in> set (effectivePermissionsAt rs p here) \<longleftrightarrow> can rs p perm here"
  by (auto simp: effectivePermissionsAt_def can_iff)

lemma canGrant_held: "canGrant rs p r here = Inr True \<Longrightarrow> perm \<in> set (permissionsOf rs r) \<Longrightarrow> can rs p perm here"
  by (auto simp: canGrant_def Let_def list_all_iff effective_iff split: option.splits sum.splits if_splits)

definition granted :: "string \<Rightarrow> ScopeRef \<Rightarrow> Membership" where
  "granted r here = \<lparr>mb_role = r, mb_orgId = (case sc_orgId here of Some org \<Rightarrow> org | None \<Rightarrow> ''*''), mb_workspaceId = sc_workspaceId here\<rparr>"

lemma granted_role [simp]: "mb_role (granted r here) = r"
  by (simp add: granted_def)

text \<open>What covers a scope covers every scope a membership granted there covers.\<close>

lemma covers_granted:
  assumes "covers m here" "covers (granted r here) there" "sc_orgId here = None \<longrightarrow> sc_workspaceId here = None"
  shows "covers m there"
  using assms by (auto simp: covers_def granted_def split: if_splits option.splits list.splits)

lemma grant_no_amplification:
  assumes "canGrant rs p r here = Inr True" "covers (granted r here) there" "perm \<in> set (permissionsOf rs r)"
    "sc_orgId here = None \<longrightarrow> sc_workspaceId here = None"
  shows "can rs p perm there"
proof -
  obtain m where "m \<in> set (ap_memberships p)" "covers m here" "perm \<in> set (permissionsOf rs (mb_role m))"
    using canGrant_held [OF assms(1,3)] by (auto simp: can_iff)
  then show ?thesis using covers_granted [OF _ assms(2,4)] by (auto simp: can_iff)
qed

section \<open>The contract of a resolver\<close>

text \<open>
  A resolver never throws and resolves a built-in id from the code. From this the engine never
  throws on it, a stored definition cannot change what a built-in grants, and a role is grantable only if it exists.
\<close>

locale role_resolver =
  fixes get :: "'s \<Rightarrow> RoleResolver"
  assumes total_get: "\<exists>d. get s r = Inr d"
    and builtin_get: "isRole r \<Longrightarrow> get s r = Inr (Some (builtin_definition r))"
begin

lemma canGrant_total: "\<exists>v. canGrant (Some (get s)) p r here = Inr v"
  using total_get [of s r] by (auto simp: canGrant_def Let_def)

lemma canGrant_exists: "canGrant (Some (get s)) p r here = Inr True \<Longrightarrow> \<exists>d. get s r = Inr (Some d)"
  using total_get [of s r]
  by (auto simp: canGrant_def Let_def permissionsOf_def builtin_get split: if_splits option.splits)

lemma permissions_get: "get s r = Inr (Some d) \<Longrightarrow> set (permissionsOf (Some (get s)) r) = set (rd_permissions d)"
  by (auto simp: permissionsOf_def builtin_get builtin_definition_def)

lemma canGrant_iff:
  "canGrant (Some (get s)) p r here = Inr True \<longleftrightarrow>
     (\<exists>d. get s r = Inr (Some d) \<and> (\<forall>perm\<in>set (rd_permissions d). can (Some (get s)) p perm here))"
proof -
  obtain x where x: "get s r = Inr x" using total_get by blast
  show ?thesis
  proof (cases x)
    case None
    then have "permissionsOf (Some (get s)) r = []" using x builtin_get [of r s] by (auto simp: permissionsOf_def)
    then show ?thesis using x None by (simp add: canGrant_def Let_def)
  next
    case (Some d)
    then show ?thesis using x permissions_get [of s r d] by (auto simp: canGrant_def Let_def list_all_iff effective_iff)
  qed
qed

end

interpretation builtin: role_resolver "\<lambda>s :: unit. builtinRoleResolver"
  by unfold_locales (auto simp: builtinRoleResolver_def builtinRole_def)

interpretation static: role_resolver static_resolver
  by unfold_locales (auto simp: static_resolver_def static_get_def builtinRole_def)

section \<open>Properties\<close>

text \<open>
  No privilege amplification. When a resolver lets an admin grant a role at a scope, then giving a membership of
  that role at that scope to anyone gives nobody, at any scope, a permission that the
  admin does not hold at that scope too, the owner's among them; and only a role that exists can be granted.
\<close>

theorem grant_never_amplifies:
  assumes "canGrant (Some (static_resolver roles)) admin r here = Inr True"
    and "sc_orgId here = None \<longrightarrow> sc_workspaceId here = None"
    and "can (Some (static_resolver roles)) (user\<lparr>ap_memberships := ap_memberships user @ [granted r here]\<rparr>) perm there"
  shows "(can (Some (static_resolver roles)) user perm there \<or> can (Some (static_resolver roles)) admin perm there)
    \<and> static_get roles r \<noteq> None"
  using assms(3) grant_no_amplification [OF assms(1) _ _ assms(2)] static.canGrant_exists [OF assms(1)]
  by (auto simp: can_iff static_resolver_def)

definition sample_admin :: AdminPrincipal where
  "sample_admin = \<lparr>ap_subject = ''ann'', ap_displayName = ''Ann'', ap_source = Session,
     ap_memberships = [\<lparr>mb_role = ''admin'', mb_orgId = ''org1'', mb_workspaceId = None\<rparr>]\<rparr>"

definition sample_user :: AdminPrincipal where
  "sample_user = \<lparr>ap_subject = ''bob'', ap_displayName = ''Bob'', ap_source = Session, ap_memberships = []\<rparr>"

theorem grant_never_amplifies_witness:
  "canGrant (Some (static_resolver [])) sample_admin ''editor'' \<lparr>sc_orgId = Some ''org1'', sc_workspaceId = Some ''w''\<rparr> = Inr True
   \<and> can (Some (static_resolver [])) sample_admin KeyRotate \<lparr>sc_orgId = Some ''org1'', sc_workspaceId = Some ''w''\<rparr>"
proof -
  let ?at = "\<lparr>sc_orgId = Some ''org1'', sc_workspaceId = Some ''w''\<rparr>"
  have 1: "canGrant (Some (static_resolver [])) sample_admin ''editor'' ?at = Inr True" by code_simp
  have 2: "can (Some (static_resolver [])) (sample_user\<lparr>ap_memberships := ap_memberships sample_user @ [granted ''editor'' ?at]\<rparr>) KeyRotate ?at"
    by code_simp
  have 3: "\<not> can (Some (static_resolver [])) sample_user KeyRotate ?at" by code_simp
  show ?thesis using 1 3 grant_never_amplifies [OF 1 _ 2] by simp
qed

text \<open>
  Built-in roles are what the code says. Whatever roles a resolver stores, and even if it throws, the five
  built-in ids grant exactly their sets, each strictly more than the one before; and a name reads as a permission
  exactly when it is one of the owner's, so that no stored definition can name one beyond them.
\<close>

theorem builtin_roles_fixed:
  "permissionsOf rs ''owner'' = owner_perms \<and> permissionsOf rs ''viewer'' = viewer_perms
   \<and> set (permissionsOf rs ''viewer'') \<subset> set (permissionsOf rs ''billing'')
   \<and> set (permissionsOf rs ''billing'') \<subset> set (permissionsOf rs ''editor'')
   \<and> set (permissionsOf rs ''editor'') \<subset> set (permissionsOf rs ''admin'')
   \<and> set (permissionsOf rs ''admin'') \<subset> set (permissionsOf rs ''owner'')
   \<and> (as_permission v = Some p) = (p \<in> set (permissionsOf rs ''owner'') \<and> permission_text p = v)"
proof -
  have p: "permissionsOf rs ''owner'' = owner_perms" "permissionsOf rs ''admin'' = admin_perms" "permissionsOf rs ''editor'' = editor_perms"
    "permissionsOf rs ''billing'' = billing_perms" "permissionsOf rs ''viewer'' = viewer_perms"
    by (simp_all add: permissionsOf_def isRole_def ROLES_def PERMISSIONS_BY_ROLE_def)
  have "Perm Budget Create \<in> set billing_perms - set viewer_perms" "KeyRotate \<in> set editor_perms - set billing_perms"
    "AuditVerify \<in> set admin_perms - set editor_perms" "ConfigApply \<in> set owner_perms - set admin_perms"
    by (simp_all add: perm_lists)
  then show ?thesis
    using builtin_chain unfolding p as_permission_text by (auto simp: permissionsOf_def isRole_def ROLES_def psubset_eq)
qed

end
