(* ===== verification/Control_Roles.thy ===== *)
theory Control_Roles
  imports Rbac
begin

text \<open>
  The role catalogue and the grants of the control plane: the memoized resolver of
  \<^verbatim>\<open>src/apps/control-api/src/roles.ts\<close>, the in-memory role and membership stores of \<^verbatim>\<open>stores.ts\<close>, the handlers of \<^verbatim>\<open>role-routes.ts\<close>
  and the membership grant and session delegation of \<^verbatim>\<open>routes.ts\<close>, without a database. A handler takes
  the resolved admin, the request body and the state and returns the reply and the state. A load of the resolver is atomic: it
  answers with the rows of the store, or fails.
\<close>

section \<open>Request fields\<close>

definition str_field :: "json option \<Rightarrow> string option" where
  "str_field v = (case v of Some (JStr (c # cs)) \<Rightarrow> Some (c # cs) | _ \<Rightarrow> None)"

definition strMax :: "json option \<Rightarrow> nat \<Rightarrow> string option" where
  "strMax v mx = (case str_field v of Some s \<Rightarrow> if length s \<le> mx then Some s else None | None \<Rightarrow> None)"

definition absent :: "json option \<Rightarrow> bool" where
  "absent v \<longleftrightarrow> v = None \<or> v = Some JNull"

section \<open>Role store\<close>

record RoleRow =
  rw_id :: string
  rw_name :: string
  rw_description :: "string option"
  rw_permissions :: "string list"
  rw_builtin :: bool
  rw_orgId :: "string option"
  rw_createdAt :: string
  rw_updatedAt :: string

type_synonym RoleStore = "(string, RoleRow) jsmap"

datatype role_error = DuplicateRole string | BuiltinRoleError string

definition seed_row :: "string \<Rightarrow> RoleDefinition \<Rightarrow> RoleRow" where
  "seed_row stamp d =
     \<lparr>rw_id = rd_id d, rw_name = rd_name d, rw_description = rd_description d, rw_permissions = map permission_text (rd_permissions d),
      rw_builtin = True, rw_orgId = None, rw_createdAt = stamp, rw_updatedAt = stamp\<rparr>"

definition new_RoleStore :: "string \<Rightarrow> RoleStore" where
  "new_RoleStore stamp = foldl (\<lambda>m d. jm_set (rd_id d) (seed_row stamp d) m) [] BUILTIN_ROLES"

definition roles_list :: "RoleStore \<Rightarrow> RoleRow list" where
  "roles_list store = map snd store"

definition roles_create ::
  "string \<Rightarrow> string \<Rightarrow> string \<Rightarrow> string option \<Rightarrow> Permission list \<Rightarrow> RoleStore \<Rightarrow> role_error + (RoleRow \<times> RoleStore)" where
  "roles_create stamp r name description perms store =
     (if jm_get store r \<noteq> None then Inl (DuplicateRole r)
      else
        let row = \<lparr>rw_id = r, rw_name = name, rw_description = description, rw_permissions = map permission_text perms,
                   rw_builtin = False, rw_orgId = None, rw_createdAt = stamp, rw_updatedAt = stamp\<rparr>
        in Inr (row, jm_set r row store))"

text \<open>A patch names the fields it changes; a description may be changed to none.\<close>

record RolePatch =
  rp_name :: "string option"
  rp_description :: "string option option"
  rp_permissions :: "Permission list option"

definition empty_patch :: RolePatch where
  "empty_patch = \<lparr>rp_name = None, rp_description = None, rp_permissions = None\<rparr>"

definition patched :: "string \<Rightarrow> RolePatch \<Rightarrow> RoleRow \<Rightarrow> RoleRow" where
  "patched stamp patch row =
     row\<lparr>rw_name := (case rp_name patch of Some n \<Rightarrow> n | None \<Rightarrow> rw_name row),
         rw_description := (case rp_description patch of Some d \<Rightarrow> d | None \<Rightarrow> rw_description row),
         rw_permissions := (case rp_permissions patch of Some ps \<Rightarrow> map permission_text ps | None \<Rightarrow> rw_permissions row),
         rw_updatedAt := stamp\<rparr>"

definition roles_update ::
  "string \<Rightarrow> string \<Rightarrow> RolePatch \<Rightarrow> RoleStore \<Rightarrow> role_error + (RoleRow \<times> RoleStore) option" where
  "roles_update stamp r patch store =
     (case jm_get store r of
        None \<Rightarrow> Inr None
      | Some row \<Rightarrow>
          if rw_builtin row then Inl (BuiltinRoleError r)
          else Inr (Some (patched stamp patch row, jm_set r (patched stamp patch row) store)))"

definition roles_delete :: "string \<Rightarrow> RoleStore \<Rightarrow> role_error + (bool \<times> RoleStore)" where
  "roles_delete r store =
     (case jm_get store r of
        None \<Rightarrow> Inr (False, store)
      | Some row \<Rightarrow> if rw_builtin row then Inl (BuiltinRoleError r) else Inr (True, jm_delete r store))"

section \<open>The cached resolver\<close>

definition roleDefinitionOf :: "RoleRow \<Rightarrow> RoleDefinition" where
  "roleDefinitionOf row =
     \<lparr>rd_id = rw_id row, rd_name = rw_name row, rd_permissions = List.map_filter as_permission (rw_permissions row),
      rd_builtin = rw_builtin row,
      rd_description = (case rw_description row of Some (c # cs) \<Rightarrow> Some (c # cs) | _ \<Rightarrow> None)\<rparr>"

record CachedRoleResolver =
  cr_snapshot :: "(string, RoleDefinition) jsmap"
  cr_loadedAt :: int
  cr_ttlMs :: int

definition stale :: "int \<Rightarrow> CachedRoleResolver \<Rightarrow> bool" where
  "stale now c \<longleftrightarrow> cr_ttlMs c \<le> now - cr_loadedAt c"

definition snapshot_of :: "RoleRow list \<Rightarrow> (string, RoleDefinition) jsmap" where
  "snapshot_of rows =
     foldl (\<lambda>m row. if \<not> rw_builtin row \<and> builtinRole (rw_id row) = None
                    then jm_set (rw_id row) (roleDefinitionOf row) m else m) [] rows"

definition refresh_resolver :: "int \<Rightarrow> unit + RoleRow list \<Rightarrow> CachedRoleResolver \<Rightarrow> CachedRoleResolver" where
  "refresh_resolver now answer c =
     (case answer of
        Inl e \<Rightarrow> c\<lparr>cr_loadedAt := now\<rparr>
      | Inr rows \<Rightarrow> c\<lparr>cr_snapshot := snapshot_of rows, cr_loadedAt := now\<rparr>)"

definition ensureFresh :: "int \<Rightarrow> unit + RoleRow list \<Rightarrow> CachedRoleResolver \<Rightarrow> CachedRoleResolver" where
  "ensureFresh now answer c = (if stale now c then refresh_resolver now answer c else c)"

definition invalidate :: "CachedRoleResolver \<Rightarrow> CachedRoleResolver" where
  "invalidate c = c\<lparr>cr_loadedAt := 0\<rparr>"

definition cached_get :: "CachedRoleResolver \<Rightarrow> string \<Rightarrow> RoleDefinition option" where
  "cached_get c r = (case builtinRole r of Some d \<Rightarrow> Some d | None \<Rightarrow> jm_get (cr_snapshot c) r)"

definition cached_resolver :: "CachedRoleResolver \<Rightarrow> RoleResolver" where
  "cached_resolver c r = Inr (cached_get c r)"

interpretation cached: role_resolver cached_resolver
  by unfold_locales (auto simp: cached_resolver_def cached_get_def builtinRole_def)

section \<open>The handlers\<close>

record audit_entry =
  ae_orgId :: "string option"
  ae_actor :: string
  ae_action :: string
  ae_target :: string

record membership_row =
  mw_id :: string
  mw_userId :: string
  mw_grant :: Membership

record control =
  ct_roles :: RoleStore
  ct_resolver :: CachedRoleResolver
  ct_memberships :: "membership_row list"
  ct_audit :: "audit_entry list"

datatype reply =
    Forbidden
  | Invalid string
  | UnknownPermission json
  | Conflict string
  | NotFound string
  | BeyondHeld "Permission list"
  | Thrown
  | RoleReply nat RoleDefinition
  | Deleted
  | MembershipReply membership_row
  | Delegated "Membership list"

definition platform_scope :: ScopeRef where
  "platform_scope = \<lparr>sc_orgId = None, sc_workspaceId = None\<rparr>"

definition with_audit :: "string option \<Rightarrow> AdminPrincipal \<Rightarrow> string \<Rightarrow> string \<Rightarrow> control \<Rightarrow> control" where
  "with_audit org admin action target st =
     st\<lparr>ct_audit := ct_audit st @ [\<lparr>ae_orgId = org, ae_actor = ap_subject admin, ae_action = action, ae_target = target\<rparr>]\<rparr>"

text \<open>The resolver a handler sees: brought up to date from the store first, when the load succeeds.\<close>

definition fresh_control :: "int \<Rightarrow> bool \<Rightarrow> control \<Rightarrow> control" where
  "fresh_control now loads st =
     st\<lparr>ct_resolver := ensureFresh now (if loads then Inr (roles_list (ct_roles st)) else Inl ()) (ct_resolver st)\<rparr>"

definition resolver_of :: "control \<Rightarrow> RoleResolver option" where
  "resolver_of st = Some (cached_resolver (ct_resolver st))"

fun add_permissions :: "Permission list \<Rightarrow> json list \<Rightarrow> reply + Permission list" where
  "add_permissions out [] = Inr (sort_key permission_text out)"
| "add_permissions out (v # vs) =
     (case v of
        JStr s \<Rightarrow>
          (case as_permission s of
             Some p \<Rightarrow> add_permissions (if p \<in> set out then out else out @ [p]) vs
           | None \<Rightarrow> Inl (UnknownPermission v))
      | _ \<Rightarrow> Inl (UnknownPermission v))"

definition permissionsField :: "json \<Rightarrow> reply + Permission list" where
  "permissionsField v =
     (case v of
        JArr js \<Rightarrow>
          if 256 < length js then Inl (Invalid ''at most 256 permissions'') else add_permissions [] js
      | _ \<Rightarrow> Inl (Invalid ''permissions must be an array''))"

definition beyond_held :: "control \<Rightarrow> AdminPrincipal \<Rightarrow> Permission list \<Rightarrow> Permission list" where
  "beyond_held st admin perms =
     filter (\<lambda>p. p \<notin> set (effectivePermissionsAt (resolver_of st) admin platform_scope)) perms"

definition id_field :: "json option \<Rightarrow> string option" where
  "id_field v = (case v of Some (JStr s) \<Rightarrow> if isRoleId s then Some s else None | _ \<Rightarrow> None)"

definition or_empty :: "json option \<Rightarrow> json" where
  "or_empty v = (if absent v then JArr [] else the v)"

text \<open>The checks of a \<^verbatim>\<open>POST\<close>, down to the role it will create.\<close>

definition role_request ::
  "control \<Rightarrow> AdminPrincipal \<Rightarrow> (string, json) jsmap \<Rightarrow> reply + (string \<times> string \<times> string option \<times> Permission list)" where
  "role_request st admin b =
     (case (id_field (jm_get b ''id''), strMax (jm_get b ''name'') 128) of
        (None, _) \<Rightarrow> Inl (Invalid ''id must be 1..64 lowercase letters, digits'')
      | (Some r, None) \<Rightarrow> Inl (Invalid ''name must be 1..128 characters'')
      | (Some r, Some name) \<Rightarrow>
          (let description = (if absent (jm_get b ''description'') then None else strMax (jm_get b ''description'') 1024) in
           if (case jm_get b ''description'' of Some d \<Rightarrow> js_truthy d | None \<Rightarrow> False) \<and> description = None
           then Inl (Invalid ''description must be at most 1024 characters'')
           else case permissionsField (or_empty (jm_get b ''permissions'')) of
             Inl e \<Rightarrow> Inl e
           | Inr perms \<Rightarrow>
               if builtinRole r \<noteq> None then Inl (Conflict ''role is built-in'')
               else if beyond_held st admin perms \<noteq> [] then Inl (BeyondHeld (beyond_held st admin perms))
               else if jm_get (ct_roles st) r \<noteq> None then Inl (Conflict ''role already exists'')
               else Inr (r, name, description, perms)))"

definition create_role ::
  "int \<Rightarrow> bool \<Rightarrow> string \<Rightarrow> (string, json) jsmap \<Rightarrow> AdminPrincipal \<Rightarrow> control \<Rightarrow> reply \<times> control" where
  "create_role now loads stamp b admin st0 =
     (let st = fresh_control now loads st0 in
      if \<not> can (resolver_of st) admin (Perm RoleR Create) platform_scope then (Forbidden, st)
      else case role_request st admin b of
        Inl e \<Rightarrow> (e, st)
      | Inr (r, name, description, perms) \<Rightarrow>
          (case roles_create stamp r name description perms (ct_roles st) of
             Inl e \<Rightarrow> (Conflict ''role already exists'', st)
           | Inr (row, roles) \<Rightarrow>
               (RoleReply 201 (roleDefinitionOf row),
                with_audit None admin ''role.create'' r
                  (st\<lparr>ct_roles := roles, ct_resolver := invalidate (ct_resolver st)\<rparr>))))"

text \<open>The patch of a \<^verbatim>\<open>PUT\<close>, field by field.\<close>

definition patch_name :: "(string, json) jsmap \<Rightarrow> reply + string option" where
  "patch_name b =
     (if jm_get b ''name'' = None then Inr None
      else case strMax (jm_get b ''name'') 128 of
        Some n \<Rightarrow> Inr (Some n) | None \<Rightarrow> Inl (Invalid ''name must be 1..128 characters''))"

definition patch_description :: "(string, json) jsmap \<Rightarrow> reply + string option option" where
  "patch_description b =
     (case jm_get b ''description'' of
        None \<Rightarrow> Inr None
      | Some d \<Rightarrow>
          if d = JNull \<or> d = JStr [] then Inr (Some None)
          else case strMax (Some d) 1024 of
            Some s \<Rightarrow> Inr (Some (Some s))
          | None \<Rightarrow> Inl (Invalid ''description must be at most 1024 characters''))"

definition patch_permissions :: "control \<Rightarrow> AdminPrincipal \<Rightarrow> (string, json) jsmap \<Rightarrow> reply + Permission list option" where
  "patch_permissions st admin b =
     (case jm_get b ''permissions'' of
        None \<Rightarrow> Inr None
      | Some v \<Rightarrow>
          (case permissionsField v of
             Inl e \<Rightarrow> Inl e
           | Inr perms \<Rightarrow>
               if beyond_held st admin perms \<noteq> [] then Inl (BeyondHeld (beyond_held st admin perms)) else Inr (Some perms)))"

definition role_patch :: "control \<Rightarrow> AdminPrincipal \<Rightarrow> (string, json) jsmap \<Rightarrow> reply + RolePatch" where
  "role_patch st admin b =
     (case patch_name b of
        Inl e \<Rightarrow> Inl e
      | Inr name \<Rightarrow>
          (case patch_description b of
             Inl e \<Rightarrow> Inl e
           | Inr description \<Rightarrow>
               (case patch_permissions st admin b of
                  Inl e \<Rightarrow> Inl e
                | Inr perms \<Rightarrow> Inr \<lparr>rp_name = name, rp_description = description, rp_permissions = perms\<rparr>)))"

definition update_role ::
  "int \<Rightarrow> bool \<Rightarrow> string \<Rightarrow> string \<Rightarrow> (string, json) jsmap \<Rightarrow> AdminPrincipal \<Rightarrow> control \<Rightarrow> reply \<times> control" where
  "update_role now loads stamp r b admin st0 =
     (let st = fresh_control now loads st0 in
      if \<not> can (resolver_of st) admin (Perm RoleR Update) platform_scope then (Forbidden, st)
      else if \<not> isRoleId r then (NotFound ''role'', st)
      else if builtinRole r \<noteq> None then (Conflict ''role is built-in and immutable'', st)
      else case role_patch st admin b of
        Inl e \<Rightarrow> (e, st)
      | Inr patch \<Rightarrow>
          if patch = empty_patch then (Invalid ''nothing to update'', st)
          else case roles_update stamp r patch (ct_roles st) of
            Inl e \<Rightarrow> (Conflict ''role is built-in and immutable'', st)
          | Inr None \<Rightarrow> (NotFound ''role'', st)
          | Inr (Some (row, roles)) \<Rightarrow>
              (RoleReply 200 (roleDefinitionOf row),
               with_audit None admin ''role.update'' r
                 (st\<lparr>ct_roles := roles, ct_resolver := invalidate (ct_resolver st)\<rparr>)))"

definition delete_role :: "int \<Rightarrow> bool \<Rightarrow> string \<Rightarrow> AdminPrincipal \<Rightarrow> control \<Rightarrow> reply \<times> control" where
  "delete_role now loads r admin st0 =
     (let st = fresh_control now loads st0 in
      if \<not> can (resolver_of st) admin (Perm RoleR Delete) platform_scope then (Forbidden, st)
      else if \<not> isRoleId r then (NotFound ''role'', st)
      else if builtinRole r \<noteq> None then (Conflict ''role is built-in and immutable'', st)
      else case roles_delete r (ct_roles st) of
        Inl e \<Rightarrow> (Conflict ''role is built-in and immutable'', st)
      | Inr (False, roles) \<Rightarrow> (NotFound ''role'', st)
      | Inr (True, roles) \<Rightarrow>
          (Deleted, with_audit None admin ''role.delete'' r
             (st\<lparr>ct_roles := roles, ct_resolver := invalidate (ct_resolver st)\<rparr>)))"

text \<open>
  The three checks of a grant: the permission to create memberships, the owner's right for the
  owner role, and that the role's permissions are held.
\<close>

definition grant_checks :: "RoleResolver option \<Rightarrow> AdminPrincipal \<Rightarrow> string \<Rightarrow> ScopeRef \<Rightarrow> reply option" where
  "grant_checks rs admin r here =
     (if \<not> can rs admin (Perm Membership Create) here then Some Forbidden
      else if r = ''owner'' \<and> \<not> can rs admin MembershipGrantOwner here then Some Forbidden
      else case canGrant rs admin r here of
        Inr True \<Rightarrow> None
      | Inr False \<Rightarrow> Some Forbidden
      | Inl e \<Rightarrow> Some Thrown)"

definition create_membership ::
  "int \<Rightarrow> bool \<Rightarrow> string \<Rightarrow> (string, json) jsmap \<Rightarrow> AdminPrincipal \<Rightarrow> control \<Rightarrow> reply \<times> control" where
  "create_membership now loads uuid b admin st0 =
     (case (id_field (jm_get b ''role''), str_field (jm_get b ''orgId'')) of
        (Some r, Some org) \<Rightarrow>
          (let ws = str_field (jm_get b ''workspaceId''); st = fresh_control now loads st0; platform = (org = ''*'') in
           if cached_get (ct_resolver st) r = None then (Invalid ''unknown role'', st)
           else if platform \<and> ws \<noteq> None then (Invalid ''a platform grant has no workspace'', st)
           else
             let here = (if platform then platform_scope else \<lparr>sc_orgId = Some org, sc_workspaceId = ws\<rparr>) in
             case grant_checks (resolver_of st) admin r here of
               Some e \<Rightarrow> (e, st)
             | None \<Rightarrow>
                 (case str_field (jm_get b ''userId'') of
                    None \<Rightarrow> (Invalid ''userId required'', st)
                  | Some u \<Rightarrow>
                      (let row = \<lparr>mw_id = uuid, mw_userId = u, mw_grant = \<lparr>mb_role = r, mb_orgId = org, mb_workspaceId = ws\<rparr>\<rparr> in
                       (MembershipReply row,
                        with_audit (if platform then None else Some org) admin ''membership.create'' u
                          (st\<lparr>ct_memberships := ct_memberships st @ [row]\<rparr>)))))
      | _ \<Rightarrow> (Invalid ''role, orgId required'', st0))"

text \<open>The memberships of a delegated session, checked one by one.\<close>

fun delegate_memberships :: "RoleResolver option \<Rightarrow> (string \<Rightarrow> bool) \<Rightarrow> AdminPrincipal \<Rightarrow> json list \<Rightarrow> reply + Membership list" where
  "delegate_memberships rs known admin [] = Inr []"
| "delegate_memberships rs known admin (m # ms) =
     (case (id_field (j_field m ''role''), str_field (j_field m ''orgId'')) of
        (Some r, Some org) \<Rightarrow>
          (let ws = str_field (j_field m ''workspaceId'') in
           if \<not> known r then Inl (Invalid ''unknown role'')
           else case grant_checks rs admin r \<lparr>sc_orgId = Some org, sc_workspaceId = ws\<rparr> of
             Some e \<Rightarrow> Inl e
           | None \<Rightarrow> map_sum (\<lambda>e. e) (\<lambda>rest. \<lparr>mb_role = r, mb_orgId = org, mb_workspaceId = ws\<rparr> # rest)
               (delegate_memberships rs known admin ms))
      | _ \<Rightarrow> Inl (Invalid ''bad membership''))"

text \<open>The checks of the session handler, down to the memberships its token will carry; signing it is not modelled here.\<close>

definition delegate_session :: "int \<Rightarrow> bool \<Rightarrow> (string, json) jsmap \<Rightarrow> AdminPrincipal \<Rightarrow> control \<Rightarrow> reply \<times> control" where
  "delegate_session now loads b admin st0 =
     (let named = (if absent (jm_get b ''name'') then jm_get b ''subject'' else jm_get b ''name'');
          raw = (case jm_get b ''memberships'' of Some (JArr js) \<Rightarrow> js | _ \<Rightarrow> [])
      in if (jm_get b ''name'' \<noteq> None \<or> jm_get b ''subject'' \<noteq> None) \<and> strMax named 128 = None
         then (Invalid ''name must be 1..128 characters'', st0)
         else if raw = [] then (Invalid ''at least one membership is required'', st0)
         else if 50 < length raw then (Invalid ''at most 50 memberships'', st0)
         else
           let st = fresh_control now loads st0 in
           case delegate_memberships (resolver_of st) (\<lambda>r. cached_get (ct_resolver st) r \<noteq> None) admin raw of
             Inl e \<Rightarrow> (e, st)
           | Inr ms \<Rightarrow> (Delegated ms, st))"


section \<open>Events\<close>

datatype control_event =
    CreateRole string "(string, json) jsmap" AdminPrincipal
  | UpdateRole string string "(string, json) jsmap" AdminPrincipal
  | DeleteRole string AdminPrincipal
  | GrantRole string "(string, json) jsmap" AdminPrincipal

fun event_admin :: "control_event \<Rightarrow> AdminPrincipal" where
  "event_admin (CreateRole stamp b admin) = admin"
| "event_admin (UpdateRole stamp r b admin) = admin"
| "event_admin (DeleteRole r admin) = admin"
| "event_admin (GrantRole uuid b admin) = admin"

fun control_step :: "int \<Rightarrow> control_event \<Rightarrow> control \<Rightarrow> reply \<times> control" where
  "control_step now (CreateRole stamp b admin) st = create_role now True stamp b admin st"
| "control_step now (UpdateRole stamp r b admin) st = update_role now True stamp r b admin st"
| "control_step now (DeleteRole r admin) st = delete_role now True r admin st"
| "control_step now (GrantRole uuid b admin) st = create_membership now True uuid b admin st"

fun accepted :: "reply \<Rightarrow> bool" where
  "accepted (RoleReply code d) = True"
| "accepted Deleted = True"
| "accepted (MembershipReply row) = True"
| "accepted (Delegated ms) = True"
| "accepted _ = False"

text \<open>What the stored state grants: the roles of the store and the memberships of the table.\<close>

definition current_resolver :: "control \<Rightarrow> RoleResolver option" where
  "current_resolver st = Some (cached_resolver ((ct_resolver st)\<lparr>cr_snapshot := snapshot_of (roles_list (ct_roles st))\<rparr>))"

definition memberships_of :: "control \<Rightarrow> string \<Rightarrow> Membership list" where
  "memberships_of st u = map mw_grant (filter (\<lambda>row. mw_userId row = u) (ct_memberships st))"

definition user_can :: "control \<Rightarrow> string \<Rightarrow> Permission \<Rightarrow> ScopeRef \<Rightarrow> bool" where
  "user_can st u perm here \<longleftrightarrow>
     (\<exists>m\<in>set (memberships_of st u). covers m here \<and> perm \<in> set (permissionsOf (current_resolver st) (mb_role m)))"

section \<open>Invariant\<close>

definition row_ok :: "string \<times> RoleRow \<Rightarrow> bool" where
  "row_ok kr \<longleftrightarrow> rw_id (snd kr) = fst kr \<and> (rw_builtin (snd kr) \<longleftrightarrow> isRole (fst kr))
     \<and> (\<forall>v\<in>set (rw_permissions (snd kr)). as_permission v \<noteq> None)"

definition roles_ok :: "RoleStore \<Rightarrow> bool" where
  "roles_ok store \<longleftrightarrow> jm_ok store \<and> list_all row_ok store"

definition control_ok :: "int \<Rightarrow> control \<Rightarrow> bool" where
  "control_ok now st \<longleftrightarrow> roles_ok (ct_roles st) \<and> cr_ttlMs (ct_resolver st) \<le> now
     \<and> (stale now (ct_resolver st) \<or> cr_snapshot (ct_resolver st) = snapshot_of (roles_list (ct_roles st)))"

lemma snapshot_get:
  assumes "list_all row_ok store" "jm_ok store"
  shows "jm_get (foldl (\<lambda>m row. if \<not> rw_builtin row \<and> builtinRole (rw_id row) = None
      then jm_set (rw_id row) (roleDefinitionOf row) m else m) m0 (roles_list store)) r =
    (if isRole r then jm_get m0 r
     else case jm_get store r of Some row \<Rightarrow> Some (roleDefinitionOf row) | None \<Rightarrow> jm_get m0 r)"
  using assms
proof (induction store arbitrary: m0)
  case (Cons kr store)
  have "jm_get store (fst kr) = None" using Cons.prems(2) by (simp add: map_of_eq_None_iff)
  then show ?case
    using Cons by (cases kr) (auto simp: roles_list_def row_ok_def builtinRole_def jm_get_set split: option.split)
qed (simp add: roles_list_def)

lemma current_perms:
  assumes "roles_ok (ct_roles st)" "\<not> isRole r"
  shows "permissionsOf (current_resolver st) r =
    (case jm_get (ct_roles st) r of Some row \<Rightarrow> List.map_filter as_permission (rw_permissions row) | None \<Rightarrow> [])"
proof -
  have "jm_get (snapshot_of (roles_list (ct_roles st))) r = map_option roleDefinitionOf (jm_get (ct_roles st) r)"
    using snapshot_get [of "ct_roles st" "[]" r] assms by (simp add: snapshot_of_def roles_ok_def split: option.split)
  then show ?thesis
    using assms(2)
    by (simp add: permissionsOf_def current_resolver_def cached_resolver_def cached_get_def builtinRole_def roleDefinitionOf_def
        split: option.split)
qed

lemma current_builtin: "isRole r \<Longrightarrow> permissionsOf rs r = PERMISSIONS_BY_ROLE r"
  by (simp add: permissionsOf_def)

lemma fresh_control_facts:
  assumes "control_ok now st"
  shows "resolver_of (fresh_control now True st) = current_resolver st"
    "ct_roles (fresh_control now True st) = ct_roles st" "ct_memberships (fresh_control now True st) = ct_memberships st"
    "ct_audit (fresh_control now True st) = ct_audit st"
    "cr_snapshot (ct_resolver (fresh_control now True st)) = snapshot_of (roles_list (ct_roles st))"
    "control_ok now (fresh_control now True st)" "cr_ttlMs (ct_resolver (fresh_control now True st)) = cr_ttlMs (ct_resolver st)"
  using assms
  by (auto simp: fresh_control_def ensureFresh_def refresh_resolver_def control_ok_def resolver_of_def current_resolver_def fun_eq_iff
      cached_resolver_def cached_get_def split: option.split)

lemma platform_everywhere: "can rs admin perm platform_scope \<Longrightarrow> can rs admin perm here"
  by (auto simp: can_iff covers_def platform_scope_def split: if_splits)

lemma add_permissions_sound:
  "add_permissions out js = Inr ps \<Longrightarrow> set out \<subseteq> set owner_perms \<Longrightarrow> set ps \<subseteq> set owner_perms"
proof (induction out js rule: add_permissions.induct)
  case (2 out v vs)
  from "2.prems"(1) obtain s p where v: "v = JStr s" "as_permission s = Some p"
    and rec: "add_permissions (if p \<in> set out then out else out @ [p]) vs = Inr ps"
    by (auto split: json.splits option.splits)
  have "p \<in> set owner_perms" using v(2) by (simp add: as_permission_text)
  then show ?case using "2.IH" [OF v rec] "2.prems"(2) by simp
qed auto

lemma permissionsField_sound: "permissionsField v = Inr ps \<Longrightarrow> set ps \<subseteq> set owner_perms"
  using add_permissions_sound [of "[]"] by (auto simp: permissionsField_def split: json.splits if_splits)

lemma read_back: "set ps \<subseteq> set owner_perms \<Longrightarrow> List.map_filter as_permission (map permission_text ps) = ps"
proof (induction ps)
  case (Cons p ps)
  moreover have "as_permission (permission_text p) = Some p" using Cons.prems by (simp add: as_permission_text)
  ultimately show ?case by (simp add: List.map_filter_simps)
qed (simp add: List.map_filter_simps)

lemma beyond_none: "beyond_held st admin perms = [] \<Longrightarrow> p \<in> set perms \<Longrightarrow> can (resolver_of st) admin p platform_scope"
  by (auto simp: beyond_held_def filter_empty_conv effective_iff)


section \<open>What an accepted request did\<close>

lemma builtinRole_eq: "builtinRole r = None \<longleftrightarrow> \<not> isRole r"
  by (simp add: builtinRole_def)

lemma id_field_Some: "id_field v = Some r \<Longrightarrow> isRoleId r"
  by (auto simp: id_field_def split: option.splits json.splits if_splits)

lemma permissionsField_error: "permissionsField v = Inl x \<Longrightarrow> \<not> accepted x"
proof -
  have "add_permissions out js = Inl x \<Longrightarrow> \<not> accepted x" for out js
    by (induction out js rule: add_permissions.induct) (auto split: json.splits option.splits)
  then show "permissionsField v = Inl x \<Longrightarrow> \<not> accepted x"
    by (auto simp: permissionsField_def split: json.splits if_splits)
qed

lemma role_request_error: "role_request st admin b = Inl x \<Longrightarrow> \<not> accepted x"
  by (auto simp: role_request_def Let_def permissionsField_error split: if_split_asm option.split_asm sum.split_asm prod.split_asm)

lemma role_request_ok:
  assumes "role_request st admin b = Inr (r, name, d, perms)"
  shows "isRoleId r" "\<not> isRole r" "set perms \<subseteq> set owner_perms" "beyond_held st admin perms = []" "jm_get (ct_roles st) r = None"
  using assms
  by (auto simp: role_request_def Let_def builtinRole_eq dest: permissionsField_sound id_field_Some
      split: if_split_asm option.split_asm sum.split_asm)

lemma role_patch_error: "role_patch st admin b = Inl x \<Longrightarrow> \<not> accepted x"
  by (auto simp: role_patch_def patch_name_def patch_description_def patch_permissions_def permissionsField_error
      split: if_split_asm option.split_asm sum.split_asm)

lemma role_patch_perms:
  assumes "role_patch st admin b = Inr patch" "rp_permissions patch = Some perms"
  shows "set perms \<subseteq> set owner_perms" "beyond_held st admin perms = []"
  using assms
  by (auto simp: role_patch_def patch_permissions_def dest!: permissionsField_sound split: if_split_asm option.split_asm sum.split_asm)

text \<open>A rejected request leaves the state as the refresh left it; an accepted one wrote one audit row.\<close>

definition untouched :: "control \<Rightarrow> control \<Rightarrow> bool" where
  "untouched st st' \<longleftrightarrow> ct_roles st' = ct_roles st \<and> ct_memberships st' = ct_memberships st \<and> ct_audit st' = ct_audit st"

lemma fresh_untouched: "untouched st (fresh_control now loads st)"
  by (simp add: untouched_def fresh_control_def)

lemma rejected_untouched:
  assumes "control_step now e st = (rep, st')" "\<not> accepted rep"
  shows "st' = st \<or> st' = fresh_control now True st"
proof (cases e)
  case (CreateRole stamp b admin)
  then show ?thesis
    using assms by (auto simp: create_role_def Let_def split: if_split_asm sum.split_asm prod.split_asm)
next
  case (UpdateRole stamp r b admin)
  then show ?thesis
    using assms by (auto simp: update_role_def Let_def split: if_split_asm sum.split_asm prod.split_asm option.split_asm)
next
  case (DeleteRole r admin)
  then show ?thesis
    using assms by (auto simp: delete_role_def Let_def split: if_split_asm sum.split_asm prod.split_asm bool.split_asm)
next
  case (GrantRole uuid b admin)
  then show ?thesis
    using assms by (auto simp: create_membership_def Let_def split: if_split_asm option.split_asm)
qed

lemma accepted_audited:
  assumes "control_step now e st = (rep, st')" "accepted rep"
  shows "\<exists>row. ct_audit st' = ct_audit st @ [row] \<and> ae_actor row = ap_subject (event_admin e)"
proof (cases e)
  case (CreateRole stamp b admin)
  then show ?thesis
    using assms fresh_untouched [of st now True] role_request_error
    by (auto simp: create_role_def Let_def with_audit_def untouched_def split: if_split_asm sum.split_asm prod.split_asm)
next
  case (UpdateRole stamp r b admin)
  then show ?thesis
    using assms fresh_untouched [of st now True] role_patch_error
    by (auto simp: update_role_def Let_def with_audit_def untouched_def split: if_split_asm sum.split_asm prod.split_asm option.split_asm)
next
  case (DeleteRole r admin)
  then show ?thesis
    using assms fresh_untouched [of st now True]
    by (auto simp: delete_role_def Let_def with_audit_def untouched_def split: if_split_asm sum.split_asm prod.split_asm bool.split_asm)
next
  case (GrantRole uuid b admin)
  have "grant_checks rs admin r here = Some x \<Longrightarrow> \<not> accepted x" for rs r here x
    by (auto simp: grant_checks_def split: if_split_asm sum.split_asm bool.split_asm)
  then show ?thesis
    using assms fresh_untouched [of st now True] GrantRole
    by (auto simp: create_membership_def Let_def with_audit_def untouched_def split: if_split_asm option.split_asm)
qed


section \<open>Role writes\<close>

lemma roles_ok_set: "roles_ok store \<Longrightarrow> row_ok (r, row) \<Longrightarrow> roles_ok (jm_set r row store)"
  by (auto simp: roles_ok_def list_all_iff distinct_update dest: jm_set_mem)

lemma roles_ok_delete: "roles_ok store \<Longrightarrow> roles_ok (jm_delete r store)"
  by (auto simp: roles_ok_def list_all_iff distinct_delete dest: jm_delete_mem)

lemma known_texts: "set perms \<subseteq> set owner_perms \<Longrightarrow> v \<in> permission_text ` set perms \<Longrightarrow> as_permission v \<noteq> None"
  using as_permission_text by fastforce

lemma role_write_safe:
  assumes ok: "roles_ok (ct_roles st)" "roles_ok (ct_roles st')"
    and same: "ct_memberships st' = ct_memberships st" "\<And>x. x \<noteq> r \<Longrightarrow> jm_get (ct_roles st') x = jm_get (ct_roles st) x"
    and gain: "\<And>p. p \<in> set (permissionsOf (current_resolver st') r) \<Longrightarrow>
      p \<in> set (permissionsOf (current_resolver st) r) \<or> can (current_resolver st) admin p platform_scope"
    and can': "user_can st' u perm here"
  shows "user_can st u perm here \<or> can (current_resolver st) admin perm here"
proof -
  obtain m where m: "m \<in> set (memberships_of st u)" "covers m here" "perm \<in> set (permissionsOf (current_resolver st') (mb_role m))"
    using can' same(1) by (auto simp: user_can_def memberships_of_def)
  have "permissionsOf (current_resolver st') x = permissionsOf (current_resolver st) x" if "x \<noteq> r" for x
    using ok same(2) [OF that] by (cases "isRole x") (simp_all add: current_builtin current_perms)
  then show ?thesis
    using m gain [of perm] platform_everywhere [of "current_resolver st" admin perm here]
    by (cases "mb_role m = r") (auto simp: user_can_def)
qed

lemma perms_after_set:
  assumes "roles_ok (jm_set r row store)" "\<not> isRole r" "ct_roles st' = jm_set r row store"
  shows "permissionsOf (current_resolver st') r = List.map_filter as_permission (rw_permissions row)"
  using assms by (simp add: current_perms jm_get_set)

lemma create_role_step:
  assumes ok: "control_ok now st" and run: "create_role now True stamp b admin st = (rep, st')" and acc: "accepted rep"
  shows "roles_ok (ct_roles st')" "cr_loadedAt (ct_resolver st') = 0" "cr_ttlMs (ct_resolver st') = cr_ttlMs (ct_resolver st)"
    "user_can st' u perm here \<Longrightarrow> user_can st u perm here \<or> can (current_resolver st) admin perm here"
proof -
  note f = fresh_control_facts [OF ok]
  obtain r name d perms where q: "role_request (fresh_control now True st) admin b = Inr (r, name, d, perms)"
    using run acc role_request_error by (auto simp: create_role_def Let_def split: if_split_asm sum.split_asm)
  note q' = role_request_ok [OF q, unfolded f(2)]
  define row where "row = \<lparr>rw_id = r, rw_name = name, rw_description = d, rw_permissions = map permission_text perms,
    rw_builtin = False, rw_orgId = None, rw_createdAt = stamp, rw_updatedAt = stamp\<rparr>"
  have st': "ct_roles st' = jm_set r row (ct_roles st)" "ct_memberships st' = ct_memberships st"
      "cr_loadedAt (ct_resolver st') = 0" "cr_ttlMs (ct_resolver st') = cr_ttlMs (ct_resolver st)"
    using run acc q q'(5) f
    by (auto simp: create_role_def Let_def roles_create_def with_audit_def invalidate_def row_def split: if_split_asm)
  have ok1: "roles_ok (ct_roles st)" using ok by (simp add: control_ok_def)
  have "row_ok (r, row)" using q'(2) known_texts [OF q'(3)] by (auto simp: row_ok_def row_def)
  then show ok2: "roles_ok (ct_roles st')" using ok1 st'(1) roles_ok_set by simp
  show "cr_loadedAt (ct_resolver st') = 0" "cr_ttlMs (ct_resolver st') = cr_ttlMs (ct_resolver st)" using st' by auto
  have perms: "permissionsOf (current_resolver st') r = perms"
    using perms_after_set [OF _ q'(2) st'(1)] ok2 st'(1) read_back [OF q'(3)] by (simp add: row_def)
  assume can': "user_can st' u perm here"
  show "user_can st u perm here \<or> can (current_resolver st) admin perm here"
  proof (rule role_write_safe [OF ok1 ok2 st'(2) _ _ can'])
    show "jm_get (ct_roles st') x = jm_get (ct_roles st) x" if "x \<noteq> r" for x using st'(1) that by (simp add: jm_get_set)
    show "p \<in> set (permissionsOf (current_resolver st) r) \<or> can (current_resolver st) admin p platform_scope"
      if "p \<in> set (permissionsOf (current_resolver st') r)" for p
      using that perms beyond_none [OF q'(4), of p] f(1) by simp
  qed
qed

lemma update_role_step:
  assumes ok: "control_ok now st" and run: "update_role now True stamp r b admin st = (rep, st')" and acc: "accepted rep"
  shows "roles_ok (ct_roles st')" "cr_loadedAt (ct_resolver st') = 0" "cr_ttlMs (ct_resolver st') = cr_ttlMs (ct_resolver st)"
    "user_can st' u perm here \<Longrightarrow> user_can st u perm here \<or> can (current_resolver st) admin perm here"
proof -
  note f = fresh_control_facts [OF ok]
  obtain patch where q: "role_patch (fresh_control now True st) admin b = Inr patch" "\<not> isRole r"
    using run acc role_patch_error by (auto simp: update_role_def Let_def builtinRole_eq split: if_split_asm sum.split_asm)
  obtain row0 where row0: "jm_get (ct_roles st) r = Some row0" "\<not> rw_builtin row0"
    and st': "ct_roles st' = jm_set r (patched stamp patch row0) (ct_roles st)" "ct_memberships st' = ct_memberships st"
      "cr_loadedAt (ct_resolver st') = 0" "cr_ttlMs (ct_resolver st') = cr_ttlMs (ct_resolver st)"
    using run acc q f
    by (auto simp: update_role_def Let_def roles_update_def with_audit_def invalidate_def
        split: if_split_asm sum.split_asm option.split_asm prod.split_asm)
  let ?row = "patched stamp patch row0"
  have ok1: "roles_ok (ct_roles st)" using ok by (simp add: control_ok_def)
  then have "row_ok (r, row0)" using row0(1) by (auto simp: roles_ok_def list_all_iff dest: map_of_SomeD)
  then have "row_ok (r, ?row)"
    using q(2) known_texts role_patch_perms(1) [OF q(1)] by (auto simp: row_ok_def patched_def split: option.split)
  then show ok2: "roles_ok (ct_roles st')" using ok1 st'(1) roles_ok_set by simp
  show "cr_loadedAt (ct_resolver st') = 0" "cr_ttlMs (ct_resolver st') = cr_ttlMs (ct_resolver st)" using st' by auto
  have perms: "permissionsOf (current_resolver st') r =
      (case rp_permissions patch of Some ps \<Rightarrow> ps | None \<Rightarrow> permissionsOf (current_resolver st) r)"
    using perms_after_set [OF _ q(2) st'(1)] ok2 st'(1) read_back role_patch_perms(1) [OF q(1)] current_perms [OF ok1 q(2)] row0(1)
    by (simp add: patched_def split: option.split)
  assume can': "user_can st' u perm here"
  show "user_can st u perm here \<or> can (current_resolver st) admin perm here"
  proof (rule role_write_safe [OF ok1 ok2 st'(2) _ _ can'])
    show "jm_get (ct_roles st') x = jm_get (ct_roles st) x" if "x \<noteq> r" for x using st'(1) that by (simp add: jm_get_set)
    show "p \<in> set (permissionsOf (current_resolver st) r) \<or> can (current_resolver st) admin p platform_scope"
      if "p \<in> set (permissionsOf (current_resolver st') r)" for p
      using that perms beyond_none [OF role_patch_perms(2) [OF q(1)], of _ p] f(1) by (auto split: option.splits)
  qed
qed

lemma delete_role_step:
  assumes ok: "control_ok now st" and run: "delete_role now True r admin st = (rep, st')" and acc: "accepted rep"
  shows "roles_ok (ct_roles st')" "cr_loadedAt (ct_resolver st') = 0" "cr_ttlMs (ct_resolver st') = cr_ttlMs (ct_resolver st)"
    "user_can st' u perm here \<Longrightarrow> user_can st u perm here \<or> can (current_resolver st) admin perm here"
proof -
  note f = fresh_control_facts [OF ok]
  have r: "\<not> isRole r" using run acc by (auto simp: delete_role_def Let_def builtinRole_eq split: if_split_asm)
  have st': "ct_roles st' = jm_delete r (ct_roles st)" "ct_memberships st' = ct_memberships st"
      "cr_loadedAt (ct_resolver st') = 0" "cr_ttlMs (ct_resolver st') = cr_ttlMs (ct_resolver st)"
    using run acc f
    by (auto simp: delete_role_def Let_def roles_delete_def with_audit_def invalidate_def
        split: if_split_asm sum.split_asm option.split_asm prod.split_asm bool.split_asm)
  have ok1: "roles_ok (ct_roles st)" using ok by (simp add: control_ok_def)
  show ok2: "roles_ok (ct_roles st')" using ok1 st'(1) roles_ok_delete by simp
  show "cr_loadedAt (ct_resolver st') = 0" "cr_ttlMs (ct_resolver st') = cr_ttlMs (ct_resolver st)" using st' by auto
  assume can': "user_can st' u perm here"
  show "user_can st u perm here \<or> can (current_resolver st) admin perm here"
  proof (rule role_write_safe [OF ok1 ok2 st'(2) _ _ can'])
    show "jm_get (ct_roles st') x = jm_get (ct_roles st) x" if "x \<noteq> r" for x using st'(1) that by (simp add: jm_get_delete)
    show "p \<in> set (permissionsOf (current_resolver st) r) \<or> can (current_resolver st) admin p platform_scope"
      if "p \<in> set (permissionsOf (current_resolver st') r)" for p
      using that current_perms [OF ok2 r] st'(1) by (simp add: jm_get_delete)
  qed
qed


section \<open>Grants\<close>

lemma grant_checks_ok: "grant_checks rs admin r here = None \<Longrightarrow> canGrant rs admin r here = Inr True"
  by (auto simp: grant_checks_def split: if_split_asm sum.split_asm bool.split_asm)

lemma current_resolver_cong: "ct_roles st' = ct_roles st \<Longrightarrow> current_resolver st' = current_resolver st"
  by (simp add: current_resolver_def cached_resolver_def cached_get_def fun_eq_iff split: option.split)

lemma grant_step:
  assumes ok: "control_ok now st" and run: "create_membership now True uuid b admin st = (rep, st')" and acc: "accepted rep"
  shows "ct_roles st' = ct_roles st" "ct_resolver st' = ct_resolver (fresh_control now True st)"
    "user_can st' u perm here \<Longrightarrow> user_can st u perm here \<or> can (current_resolver st) admin perm here"
proof -
  note f = fresh_control_facts [OF ok]
  have err: "grant_checks rs admin r x = Some y \<Longrightarrow> \<not> accepted y" for rs r x y
    by (auto simp: grant_checks_def split: if_split_asm sum.split_asm bool.split_asm)
  obtain r org where ro: "id_field (jm_get b ''role'') = Some r" "str_field (jm_get b ''orgId'') = Some org"
    using run acc by (auto simp: create_membership_def split: option.split_asm)
  let ?ws = "str_field (jm_get b ''workspaceId'')"
  define at' where "at' = (if org = ''*'' then platform_scope else \<lparr>sc_orgId = Some org, sc_workspaceId = ?ws\<rparr>)"
  have plat: "org = ''*'' \<Longrightarrow> ?ws = None"
    using run acc ro by (auto simp: create_membership_def Let_def split: if_split_asm)
  have chk: "grant_checks (current_resolver st) admin r at' = None"
    using run acc ro f(1) err
    by (auto simp: create_membership_def Let_def at'_def split: if_split_asm option.split_asm)
  obtain u' where u': "str_field (jm_get b ''userId'') = Some u'"
    using run acc ro f(1) chk
    by (auto simp: create_membership_def Let_def simp flip: at'_def split: if_split_asm option.split_asm)
  define row where "row = \<lparr>mw_id = uuid, mw_userId = u', mw_grant = \<lparr>mb_role = r, mb_orgId = org, mb_workspaceId = ?ws\<rparr>\<rparr>"
  have st': "ct_roles st' = ct_roles st" "ct_memberships st' = ct_memberships st @ [row]"
      "ct_resolver st' = ct_resolver (fresh_control now True st)"
    using run acc ro f u' chk
    by (auto simp: create_membership_def Let_def with_audit_def row_def simp flip: at'_def split: if_split_asm)
  have g: "mw_grant row = granted r at'" using plat by (auto simp: row_def granted_def at'_def platform_scope_def)
  have shape: "sc_orgId at' = None \<longrightarrow> sc_workspaceId at' = None" by (simp add: at'_def platform_scope_def)
  show "ct_roles st' = ct_roles st" "ct_resolver st' = ct_resolver (fresh_control now True st)" using st' by auto
  assume "user_can st' u perm here"
  then obtain m where m: "m \<in> set (memberships_of st u) \<or> m = mw_grant row" "covers m here"
      "perm \<in> set (permissionsOf (current_resolver st) (mb_role m))"
    using st' current_resolver_cong [OF st'(1)] by (auto simp: user_can_def memberships_of_def split: if_split_asm)
  then show "user_can st u perm here \<or> can (current_resolver st) admin perm here"
    using grant_no_amplification [OF grant_checks_ok [OF chk] _ _ shape, of here perm] g by (auto simp: user_can_def)
qed

section \<open>Runs\<close>

definition timed_step :: "int \<times> control \<Rightarrow> nat \<times> control_event \<Rightarrow> int \<times> control" where
  "timed_step ts de = (fst ts + int (fst de), snd (control_step (fst ts + int (fst de)) (snd de) (snd ts)))"

lemma control_ok_later: "control_ok now st \<Longrightarrow> now \<le> later \<Longrightarrow> control_ok later st"
  by (auto simp: control_ok_def stale_def)

lemma control_ok_written:
  "roles_ok (ct_roles st') \<Longrightarrow> cr_loadedAt (ct_resolver st') = 0 \<Longrightarrow> cr_ttlMs (ct_resolver st') \<le> now \<Longrightarrow> control_ok now st'"
  by (simp add: control_ok_def stale_def)

lemma control_step_ok:
  assumes "control_ok now st"
  shows "control_ok now (snd (control_step now e st))"
proof -
  obtain rep st' where r: "control_step now e st = (rep, st')" by (cases "control_step now e st")
  note f = fresh_control_facts [OF assms]
  have t: "cr_ttlMs (ct_resolver st) \<le> now" using assms by (simp add: control_ok_def)
  show ?thesis
  proof (cases "accepted rep")
    case False
    then show ?thesis using rejected_untouched [OF r] assms f(6) r by auto
  next
    case True
    show ?thesis
    proof (cases e)
      case (CreateRole stamp b admin)
      then show ?thesis using create_role_step(1-3) [OF assms _ True] r t control_ok_written by simp
    next
      case (UpdateRole stamp x b admin)
      then show ?thesis using update_role_step(1-3) [OF assms _ True] r t control_ok_written by simp
    next
      case (DeleteRole x admin)
      then show ?thesis using delete_role_step(1-3) [OF assms _ True] r t control_ok_written by simp
    next
      case (GrantRole uuid b admin)
      then show ?thesis using grant_step(1,2) [OF assms _ True] r f(2,6) by (simp add: control_ok_def)
    qed
  qed
qed

interpretation control_steps: step_system timed_step "\<lambda>ts. control_ok (fst ts) (snd ts)"
proof
  fix ts de assume "control_ok (fst ts) (snd ts)"
  then show "control_ok (fst (timed_step ts de)) (snd (timed_step ts de))"
    using control_ok_later [of "fst ts" "snd ts" "fst ts + int (fst de)"] control_step_ok by (simp add: timed_step_def)
qed

definition new_control :: "string \<Rightarrow> int \<Rightarrow> control" where
  "new_control stamp ttl =
     \<lparr>ct_roles = new_RoleStore stamp, ct_resolver = \<lparr>cr_snapshot = [], cr_loadedAt = 0, cr_ttlMs = ttl\<rparr>,
      ct_memberships = [], ct_audit = []\<rparr>"

lemma builtin_definition_id [simp]: "rd_id (builtin_definition r) = r"
  by (simp add: builtin_definition_def)

lemma builtin_perms_owned: "set (PERMISSIONS_BY_ROLE r) \<subseteq> set owner_perms"
proof -
  have "set viewer_perms \<subseteq> set owner_perms" "set billing_perms \<subseteq> set owner_perms" "set editor_perms \<subseteq> set owner_perms"
    using builtin_chain by blast+
  then show ?thesis using builtin_chain(4) by (auto simp: PERMISSIONS_BY_ROLE_def split: if_splits)
qed

lemma seed_row_ok: "isRole r \<Longrightarrow> row_ok (r, seed_row stamp (builtin_definition r))"
proof -
  assume "isRole r"
  moreover have "as_permission v \<noteq> None" if "v \<in> permission_text ` set (PERMISSIONS_BY_ROLE r)" for v
    using known_texts [OF builtin_perms_owned that] .
  ultimately show "row_ok (r, seed_row stamp (builtin_definition r))"
    by (simp add: row_ok_def seed_row_def) (simp add: builtin_definition_def)
qed

lemma new_control_ok: "ttl \<le> now \<Longrightarrow> control_ok now (new_control stamp ttl)"
proof -
  have "roles_ok (foldl (\<lambda>m d. jm_set (rd_id d) (seed_row stamp d) m) m0 (map builtin_definition rs))"
    if "roles_ok m0" "list_all isRole rs" for m0 rs
    using that by (induction rs arbitrary: m0) (simp_all add: roles_ok_set seed_row_ok)
  moreover have "list_all isRole ROLES" by (simp add: list_all_iff isRole_def)
  ultimately have "roles_ok (new_RoleStore stamp)" by (simp add: new_RoleStore_def BUILTIN_ROLES_def roles_ok_def)
  then show "ttl \<le> now \<Longrightarrow> control_ok now (new_control stamp ttl)"
    by (simp add: control_ok_def new_control_def stale_def)
qed


section \<open>Properties\<close>

text \<open>
  C10. No request to the role catalogue or the membership table amplifies privilege. In any state that any run of requests, by any
  admins and at any times, has reached from a fresh control plane: if after one more request
  a user holds a permission at a scope, then the user held it there before, or the requesting admin does.
\<close>

theorem control_never_amplifies:
  assumes "foldl timed_step (now0, new_control stamp ttl) es = (now, st)" and "ttl \<le> now0"
    and "control_step now e st = (rep, st')" and "user_can st' u perm here"
  shows "user_can st u perm here \<or> can (current_resolver st) (event_admin e) perm here"
proof -
  have ok: "control_ok now st"
    using control_steps.run_inv [of "(now0, new_control stamp ttl)" es] new_control_ok [OF assms(2)] assms(1) by simp
  show ?thesis
  proof (cases "accepted rep")
    case False
    then have "untouched st st'" using rejected_untouched [OF assms(3)] fresh_untouched by (auto simp: untouched_def)
    then have "user_can st u perm here"
      using assms(4) current_resolver_cong [of st' st] by (simp add: user_can_def memberships_of_def untouched_def)
    then show ?thesis by simp
  next
    case True
    then show ?thesis
      using assms(3,4) create_role_step(4) [OF ok _ True] update_role_step(4) [OF ok _ True] delete_role_step(4) [OF ok _ True]
        grant_step(3) [OF ok _ True]
      by (cases e) auto
  qed
qed

definition sample_root :: AdminPrincipal where
  "sample_root = \<lparr>ap_subject = ''root'', ap_displayName = ''Root'', ap_source = Bootstrap,
     ap_memberships = [\<lparr>mb_role = ''owner'', mb_orgId = ''*'', mb_workspaceId = None\<rparr>]\<rparr>"

definition sample_grant :: control_event where
  "sample_grant = GrantRole ''m1'' [(''role'', JStr ''viewer''), (''orgId'', JStr ''org1''), (''userId'', JStr ''bob'')] sample_root"

theorem control_never_amplifies_witness:
  "let st = new_control ''t'' 10; st' = snd (control_step 20 sample_grant st); org1 = \<lparr>sc_orgId = Some ''org1'', sc_workspaceId = None\<rparr>
   in memberships_of st' ''bob'' = [\<lparr>mb_role = ''viewer'', mb_orgId = ''org1'', mb_workspaceId = None\<rparr>]
      \<and> can (current_resolver st) sample_root (Perm Key Read) org1"
proof -
  let ?st = "new_control ''t'' 10" and ?org1 = "\<lparr>sc_orgId = Some ''org1'', sc_workspaceId = None\<rparr>"
  let ?st' = "snd (control_step 20 sample_grant ?st)"
  have run: "foldl timed_step (20, ?st) [] = (20, ?st)" by simp
  have has: "memberships_of ?st' ''bob'' = [\<lparr>mb_role = ''viewer'', mb_orgId = ''org1'', mb_workspaceId = None\<rparr>]"
    by code_simp
  have "Perm Key Read \<in> set (permissionsOf (current_resolver ?st') ''viewer'')"
    by (simp add: permissionsOf_def isRole_def ROLES_def PERMISSIONS_BY_ROLE_def perm_lists)
  then have "user_can ?st' ''bob'' (Perm Key Read) ?org1" by (simp add: user_can_def has covers_def)
  moreover have "\<not> user_can ?st ''bob'' (Perm Key Read) ?org1" by (simp add: user_can_def memberships_of_def new_control_def)
  moreover have "event_admin sample_grant = sample_root" by (simp add: sample_grant_def)
  ultimately show ?thesis
    using has control_never_amplifies [OF run _ prod.collapse [symmetric], of sample_grant "''bob''" "Perm Key Read" ?org1]
    by (auto simp: Let_def)
qed

text \<open>
  Every write is audited and nothing else is. A request that is refused leaves the roles, the memberships and the audit log
  as they were; one that is accepted appends exactly one audit row, in the requesting admin's name.
\<close>

theorem control_writes_audited:
  "case control_step now e st of (rep, st') \<Rightarrow>
     if accepted rep then \<exists>row. ct_audit st' = ct_audit st @ [row] \<and> ae_actor row = ap_subject (event_admin e)
     else ct_roles st' = ct_roles st \<and> ct_memberships st' = ct_memberships st \<and> ct_audit st' = ct_audit st"
  using rejected_untouched [of now e st] accepted_audited [of now e st] fresh_untouched [of st now True]
  by (auto simp: untouched_def split: prod.split)

lemma delegate_error: "delegate_memberships rs known admin raw = Inl x \<Longrightarrow> \<not> accepted x"
proof (induction raw arbitrary: x)
  case (Cons m raw)
  have "grant_checks rs admin r here = Some y \<Longrightarrow> \<not> accepted y" for r here y
    by (auto simp: grant_checks_def split: if_split_asm sum.split_asm bool.split_asm)
  then show ?case
    using Cons by (cases "delegate_memberships rs known admin raw") (auto simp: Let_def split: option.split_asm if_split_asm)
qed simp

lemma delegate_bounded:
  "delegate_memberships rs known admin raw = Inr ms \<Longrightarrow> m \<in> set ms \<Longrightarrow>
     \<exists>org. m = granted (mb_role m) \<lparr>sc_orgId = Some org, sc_workspaceId = mb_workspaceId m\<rparr>
       \<and> canGrant rs admin (mb_role m) \<lparr>sc_orgId = Some org, sc_workspaceId = mb_workspaceId m\<rparr> = Inr True"
proof (induction raw arbitrary: ms)
  case (Cons x raw)
  obtain r org where ro: "id_field (j_field x ''role'') = Some r" "str_field (j_field x ''orgId'') = Some org"
    using Cons.prems(1) by (auto split: option.split_asm)
  let ?here = "\<lparr>sc_orgId = Some org, sc_workspaceId = str_field (j_field x ''workspaceId'')\<rparr>"
  obtain rest where rest: "delegate_memberships rs known admin raw = Inr rest" "grant_checks rs admin r ?here = None"
      "ms = granted r ?here # rest"
    using Cons.prems(1) ro
    by (cases "delegate_memberships rs known admin raw") (auto simp: Let_def granted_def split: option.split_asm if_split_asm)
  then show ?case
    using Cons.IH [OF rest(1)] Cons.prems(2) grant_checks_ok [OF rest(2)] by (auto simp: granted_def)
qed simp

text \<open>
  A delegated session is bounded by its minter: when the session handler accepts a list of memberships,
  a principal with just those memberships holds, at every scope, only permissions the minting admin holds there.
\<close>

theorem delegated_session_bounded:
  assumes "delegate_session now loads b admin st = (Delegated ms, st')"
    and "ap_memberships session = ms" and "can (resolver_of st') session perm here"
  shows "can (resolver_of st') admin perm here \<and> ms \<noteq> []"
proof -
  have err: "delegate_memberships rs known admin raw \<noteq> Inl (Delegated ms)" for rs known raw
    using delegate_error [of rs known admin raw "Delegated ms"] by auto
  have d: "delegate_memberships (resolver_of st') (\<lambda>r. cached_get (ct_resolver st') r \<noteq> None) admin
      (case jm_get b ''memberships'' of Some (JArr js) \<Rightarrow> js | _ \<Rightarrow> []) = Inr ms"
    using assms(1) by (auto simp: delegate_session_def Let_def err split: if_split_asm sum.split_asm)
  obtain m where m: "m \<in> set ms" "covers m here" "perm \<in> set (permissionsOf (resolver_of st') (mb_role m))"
    using assms(2,3) by (auto simp: can_iff)
  from delegate_bounded [OF d m(1)] obtain org where
    g: "m = granted (mb_role m) \<lparr>sc_orgId = Some org, sc_workspaceId = mb_workspaceId m\<rparr>"
      "canGrant (resolver_of st') admin (mb_role m) \<lparr>sc_orgId = Some org, sc_workspaceId = mb_workspaceId m\<rparr> = Inr True"
    by blast
  have "covers (granted (mb_role m) \<lparr>sc_orgId = Some org, sc_workspaceId = mb_workspaceId m\<rparr>) here" using g(1) m(2) by simp
  from grant_no_amplification [OF g(2) this m(3)] show ?thesis using m(1) by auto
qed

definition sample_delegation :: "(string, json) jsmap" where
  "sample_delegation = [(''memberships'', JArr [JObj [(''role'', JStr ''editor''), (''orgId'', JStr ''org1'')]])]"

theorem delegated_session_bounded_witness:
  "let (rep, st) = delegate_session 20 True sample_delegation sample_admin (new_control ''t'' 10) in
   rep = Delegated [\<lparr>mb_role = ''editor'', mb_orgId = ''org1'', mb_workspaceId = None\<rparr>]
   \<and> can (resolver_of st) sample_admin KeyRotate \<lparr>sc_orgId = Some ''org1'', sc_workspaceId = None\<rparr>"
proof -
  let ?r = "delegate_session 20 True sample_delegation sample_admin (new_control ''t'' 10)"
  let ?ms = "[\<lparr>mb_role = ''editor'', mb_orgId = ''org1'', mb_workspaceId = None\<rparr>]"
  let ?org1 = "\<lparr>sc_orgId = Some ''org1'', sc_workspaceId = None\<rparr>"
  have rep: "fst ?r = Delegated ?ms" by code_simp
  then have run: "?r = (Delegated ?ms, snd ?r)" by (metis prod.collapse)
  have c: "can (resolver_of (snd ?r)) (sample_admin\<lparr>ap_memberships := ?ms\<rparr>) KeyRotate ?org1" by code_simp
  have "can (resolver_of (snd ?r)) sample_admin KeyRotate ?org1"
    using delegated_session_bounded [OF run _ c] by simp
  then show ?thesis using rep by (simp add: split_beta Let_def)
qed

end
