(* ===== verification/Js_Json.thy ===== *)
theory Js_Json
  imports Budget_Window "HOL-Library.List_Lexorder" "HOL-Library.Char_ord" "HOL-Library.Multiset"
begin

text \<open>
  JSON text as the audit trail hashes it: \<^verbatim>\<open>JSON.stringify\<close> and \<^verbatim>\<open>Date.prototype.toISOString\<close> of the language, and the
  key-sorting canonical form of \<^verbatim>\<open>pipeline/src/audit.ts\<close>. The canonical text does not depend on the order in which the members of an object were
  written, and it determines the sorted value.
\<close>

section \<open>Printing\<close>

text \<open>The digits a finite number prints as are an argument: \<^verbatim>\<open>Number::toString\<close>.\<close>

type_synonym number_text = "real \<Rightarrow> string"

definition hex_digit :: "nat \<Rightarrow> char" where
  "hex_digit d = (if d < 10 then char_of (48 + d) else char_of (87 + d))"

definition json_escape :: "char \<Rightarrow> string" where
  "json_escape c =
     (let n = (of_char c :: nat) in
      if n = 34 then [CHR 0x5C, CHR 0x22] else if n = 92 then [CHR 0x5C, CHR 0x5C]
      else if n = 8 then [CHR 0x5C, CHR ''b''] else if n = 12 then [CHR 0x5C, CHR ''f'']
      else if n = 10 then [CHR 0x5C, CHR ''n''] else if n = 13 then [CHR 0x5C, CHR ''r'']
      else if n = 9 then [CHR 0x5C, CHR ''t'']
      else if n < 32 then CHR 0x5C # ''u00'' @ [hex_digit (n div 16), hex_digit (n mod 16)]
      else [c])"

definition json_quote :: "string \<Rightarrow> string" where
  "json_quote s = CHR 0x22 # concat (map json_escape s) @ [CHR 0x22]"

fun stringify :: "number_text \<Rightarrow> json \<Rightarrow> string" where
  "stringify num JNull = ''null''"
| "stringify num (JBool b) = (if b then ''true'' else ''false'')"
| "stringify num (JNum (Num r)) = num r"
| "stringify num (JNum _) = ''null''"
| "stringify num (JStr s) = json_quote s"
| "stringify num (JArr xs) = CHR ''['' # join_with '','' (map (stringify num) xs) @ '']''"
| "stringify num (JObj m) =
     CHR ''{'' # join_with '','' (map (\<lambda>(k, v). json_quote k @ '':'' @ stringify num v) m) @ ''}''"

section \<open>Canonical form\<close>

text \<open>
  An object lists its array-index keys first, in numeric order, whatever order they were written in; assigning to \<^verbatim>\<open>__proto__\<close> sets the
  prototype and makes no member.
\<close>

definition array_index :: "string \<Rightarrow> bool" where
  "array_index k \<longleftrightarrow> k \<noteq> [] \<and> list_all is_digit k \<and> show_nat (read_nat k) = k \<and> read_nat k < 4294967295"

definition own_order :: "(string \<times> 'a) list \<Rightarrow> (string \<times> 'a) list" where
  "own_order m =
     sort_key (\<lambda>p. read_nat (fst p)) (filter (\<lambda>p. array_index (fst p)) m) @ filter (\<lambda>p. \<not> array_index (fst p)) m"

fun sortKeys :: "json \<Rightarrow> json" where
  "sortKeys (JArr xs) = JArr (map sortKeys xs)"
| "sortKeys (JObj m) =
     JObj (own_order (map (\<lambda>(k, v). (k, sortKeys v)) (filter (\<lambda>p. fst p \<noteq> ''__proto__'') (sort_key fst m))))"
| "sortKeys v = v"

definition canonicalize :: "number_text \<Rightarrow> json \<Rightarrow> string" where
  "canonicalize num v = stringify num (sortKeys v)"

section \<open>Instants as text\<close>

definition padStart :: "nat \<Rightarrow> string \<Rightarrow> string" where
  "padStart n s = replicate (n - length s) (CHR ''0'') @ s"

definition iso_year :: "int \<Rightarrow> string" where
  "iso_year y =
     (if 0 \<le> y \<and> y \<le> 9999 then padStart 4 (show_int y)
      else (if y < 0 then ''-'' else ''+'') @ padStart 6 (show_int \<bar>y\<bar>))"

definition toISOString :: "int \<Rightarrow> string" where
  "toISOString t =
     (let ms = t mod DAY_MS in
      iso_year (getUTCFullYear t) @ ''-'' @ padStart 2 (show_int (getUTCMonth t + 1)) @ ''-'' @ padStart 2 (show_int (getUTCDate t))
      @ ''T'' @ padStart 2 (show_int (ms div 3600000)) @ '':'' @ padStart 2 (show_int (ms div 60000 mod 60)) @ '':''
      @ padStart 2 (show_int (ms div 1000 mod 60)) @ ''.'' @ padStart 3 (show_int (ms mod 1000)) @ ''Z'')"

section \<open>The canonical form ignores the order of members\<close>

lemma sort_members:
  assumes "mset m = mset m'" and "distinct (map fst m)"
  shows "sort_key fst m = sort_key fst m'"
proof (rule sort_key_inj_key_eq)
  show "mset m = mset (sort_key fst m')" by (simp add: assms)
  show "inj_on fst (set m)" using assms(2) by (simp add: distinct_map)
  show "sorted (map fst (sort_key fst m'))" by simp
qed

lemma canonicalize_member_order:
  "mset m = mset m' \<Longrightarrow> distinct (map fst m) \<Longrightarrow> canonicalize num (JObj m) = canonicalize num (JObj m')"
  by (simp add: canonicalize_def sort_members [of m m'])

section \<open>The text determines the value\<close>

text \<open>Characters a number may print with, and the texts that may follow a value.\<close>

definition number_chars :: "char set" where
  "number_chars = set ''0123456789+-.e''"

definition num_ok :: "number_text \<Rightarrow> real set \<Rightarrow> bool" where
  "num_ok num S \<longleftrightarrow> inj_on num S \<and> (\<forall>r\<in>S. num r \<noteq> [] \<and> set (num r) \<subseteq> number_chars)"

definition delimited :: "string \<Rightarrow> bool" where
  "delimited r \<longleftrightarrow> r = [] \<or> hd r \<in> set '',]}''"

fun numbers_in :: "real set \<Rightarrow> json \<Rightarrow> bool" where
  "numbers_in S (JNum n) = (case n of Num r \<Rightarrow> r \<in> S | _ \<Rightarrow> False)"
| "numbers_in S (JArr xs) = list_all (numbers_in S) xs"
| "numbers_in S (JObj m) = list_all (\<lambda>(k, v). numbers_in S v) m"
| "numbers_in S JNull = True"
| "numbers_in S (JBool b) = True"
| "numbers_in S (JStr s) = True"

lemma join_with_Cons: "join_with '','' (map f (x # xs)) = f x @ concat (map (\<lambda>y. CHR '','' # f y) xs)"
  by (induction xs arbitrary: x) simp_all

lemma json_escape_cases:
  "json_escape c = [c] \<and> c \<noteq> CHR 0x22 \<and> c \<noteq> CHR 0x5C \<or> (\<exists>d e. json_escape c = CHR 0x5C # d # e)"
  by (auto simp: json_escape_def Let_def)

text \<open>Reading one escaped character back.\<close>

definition hex_of :: "char \<Rightarrow> nat" where
  "hex_of c = (let n = of_char c in if n < 58 then n - 48 else n - 87)"

fun unescape :: "string \<Rightarrow> char \<times> string" where
  "unescape (a # r) =
     (if a \<noteq> CHR 0x5C then (a, r)
      else case r of
        b # t \<Rightarrow>
          (if b = CHR ''b'' then (CHR 0x08, t) else if b = CHR ''f'' then (CHR 0x0C, t)
           else if b = CHR ''n'' then (CHR 0x0A, t) else if b = CHR ''r'' then (CHR 0x0D, t)
           else if b = CHR ''t'' then (CHR 0x09, t)
           else if b = CHR ''u'' then (char_of (16 * hex_of (t ! 2) + hex_of (t ! 3)), drop 4 t)
           else (b, t))
      | [] \<Rightarrow> (a, r))"
| "unescape [] = (CHR ''0'', [])"

lemma hex_of_digit: "d < 16 \<Longrightarrow> hex_of (hex_digit d) = d"
  by (simp add: hex_of_def hex_digit_def Let_def)

lemma char_of_eqI: "(of_char c :: nat) = n \<Longrightarrow> char_of n = c"
  by auto

lemma of_char_const_neq:
  "(of_char c :: nat) \<noteq> of_char d \<Longrightarrow> c \<noteq> d"
  by auto

lemma unescape_escape: "unescape (json_escape c @ r) = (c, r)"
proof -
  define n :: nat where "n = of_char c"
  have c: "c = char_of n" by (simp add: n_def)
  have "n < 256" by (simp add: n_def)
  have hex: "16 * (n div 16) + n mod 16 = n" by simp
  consider "n < 32" "n \<notin> {8, 9, 10, 12, 13}" | "n \<in> {8, 9, 10, 12, 13, 34, 92}" | "n \<ge> 32" "n \<noteq> 34" "n \<noteq> 92"
    by fastforce
  then show ?thesis
  proof cases
    case 1
    then have "json_escape c = CHR 0x5C # ''u00'' @ [hex_digit (n div 16), hex_digit (n mod 16)]"
      by (simp add: json_escape_def Let_def flip: n_def)
    then show ?thesis using 1 hex by (simp add: hex_of_digit c)
  next
    case 2
    then have "c \<in> {CHR 0x08, CHR 0x09, CHR 0x0A, CHR 0x0C, CHR 0x0D, CHR 0x22, CHR 0x5C}"
      unfolding n_def by (elim insertE emptyE) (simp_all flip: of_char_eq_iff [where 'a = nat])
    then show ?thesis
      by (elim insertE emptyE) (simp_all add: json_escape_def Let_def)
  next
    case 3
    then have "c \<noteq> CHR 0x5C" by (auto simp: n_def)
    with 3 show ?thesis by (simp add: json_escape_def Let_def flip: n_def)
  qed
qed

lemma json_escape_prefix: "json_escape c @ r = json_escape d @ s \<Longrightarrow> c = d \<and> r = s"
  by (metis prod.inject unescape_escape)

lemma head_differs: "xs \<noteq> [] \<Longrightarrow> hd xs \<noteq> c \<Longrightarrow> c # r \<noteq> xs @ s \<and> xs @ s \<noteq> c # r"
  by (cases xs) auto

lemma json_escape_head: "json_escape c \<noteq> [] \<and> hd (json_escape c) \<noteq> CHR 0x22"
  using json_escape_cases [of c] by auto

lemma json_quote_prefix: "json_quote s @ r = json_quote t @ r' \<Longrightarrow> s = t \<and> r = r'"
proof (induction s arbitrary: t)
  case Nil
  then show ?case using json_escape_head [of "hd t"] by (cases t) (auto simp: json_quote_def head_differs)
next
  case (Cons c s)
  show ?case
  proof (cases t)
    case Nil
    then show ?thesis using Cons.prems json_escape_head [of c]
      by (auto simp: json_quote_def head_differs)
  next
    case (Cons d t')
    with Cons.prems have "json_escape c @ (concat (map json_escape s) @ CHR 0x22 # r)
        = json_escape d @ (concat (map json_escape t') @ CHR 0x22 # r')"
      by (simp add: json_quote_def)
    from json_escape_prefix [OF this] Cons.IH [of t'] Cons show ?thesis by (simp add: json_quote_def)
  qed
qed

text \<open>A printer whose texts can be told from what follows them.\<close>

definition closed_off :: "('a \<Rightarrow> string) \<Rightarrow> ('a \<Rightarrow> bool) \<Rightarrow> 'a \<Rightarrow> bool" where
  "closed_off f good x \<longleftrightarrow>
     (\<forall>w r s. good w \<longrightarrow> delimited r \<longrightarrow> delimited s \<longrightarrow> f x @ r = f w @ s \<longrightarrow> x = w \<and> r = s)"

lemma closed_offD:
  "closed_off f good x \<Longrightarrow> good w \<Longrightarrow> delimited r \<Longrightarrow> delimited s \<Longrightarrow> f x @ r = f w @ s \<Longrightarrow> x = w \<and> r = s"
  unfolding closed_off_def by blast

lemma tail_prefix:
  assumes "\<And>x. x \<in> set xs \<Longrightarrow> closed_off f good x" and "list_all good ys" and "c \<in> {CHR '']'', CHR ''}''}"
    and "concat (map (\<lambda>y. CHR '','' # f y) xs) @ c # r = concat (map (\<lambda>y. CHR '','' # f y) ys) @ c # s"
  shows "xs = ys \<and> r = s"
  using assms
proof (induction xs arbitrary: ys)
  case Nil
  then show ?case by (cases ys) auto
next
  case (Cons x xs)
  have d: "delimited (concat (map (\<lambda>y. CHR '','' # f y) zs) @ c # q)" for zs q
    using Cons.prems(3) by (cases zs) (auto simp: delimited_def)
  obtain y ys' where ys: "ys = y # ys'" using Cons.prems(3,4) by (cases ys) auto
  with Cons.prems(4) have "f x @ (concat (map (\<lambda>y. CHR '','' # f y) xs) @ c # r) = f y @ (concat (map (\<lambda>y. CHR '','' # f y) ys') @ c # s)"
    by simp
  from closed_offD [OF Cons.prems(1) [of x] _ d d this] Cons.prems(1,2,3) Cons.IH [of ys'] ys
  show ?case by simp
qed

lemma join_prefix:
  assumes x: "\<And>x. x \<in> set xs \<Longrightarrow> closed_off f good x" and ys: "list_all good ys" and c: "c \<in> {CHR '']'', CHR ''}''}"
    and head: "\<And>y. good y \<Longrightarrow> f y \<noteq> [] \<and> hd (f y) \<notin> {CHR '']'', CHR ''}''}"
    and xs: "list_all good xs"
    and eq: "join_with '','' (map f xs) @ c # r = join_with '','' (map f ys) @ c # s"
  shows "xs = ys \<and> r = s"
proof (cases xs)
  case Nil
  then show ?thesis using eq ys c head [of "hd ys"]
    by (cases ys) (auto simp: join_with_Cons head_differs simp del: list.map(2))
next
  case (Cons a as)
  then obtain b bs where b: "ys = b # bs" using eq xs c head [of a]
    by (cases ys) (auto simp: join_with_Cons head_differs simp del: list.map(2))
  have d: "delimited (concat (map (\<lambda>y. CHR '','' # f y) zs) @ c # q)" for zs q
    using c by (cases zs) (auto simp: delimited_def)
  have "f a @ (concat (map (\<lambda>y. CHR '','' # f y) as) @ c # r) = f b @ (concat (map (\<lambda>y. CHR '','' # f y) bs) @ c # s)"
    using eq Cons b by (simp add: join_with_Cons del: list.map(2))
  from closed_offD [OF x [of a] _ d d this] tail_prefix [of as f good bs c r s] ys c x Cons b show ?thesis by simp
qed

lemma number_prefix:
  assumes "num_ok num S" and "a \<in> S" and "b \<in> S" and "delimited r" and "delimited s" and "num a @ r = num b @ s"
  shows "a = b \<and> r = s"
proof -
  have "takeWhile (\<lambda>c. c \<in> number_chars) (num x @ t) = num x" if "x \<in> S" "delimited t" for x t
    using assms(1) that
    by (cases t) (auto simp: num_ok_def delimited_def number_chars_def takeWhile_append2 subset_iff)
  from this [OF assms(2,4)] this [OF assms(3,5)] assms show ?thesis
    by (metis append_same_eq inj_onD num_ok_def same_append_eq)
qed

lemma number_head: "num_ok num S \<Longrightarrow> a \<in> S \<Longrightarrow> \<exists>c cs. num a = c # cs \<and> c \<in> number_chars"
  by (cases "num a") (auto simp: num_ok_def)

lemma stringify_head:
  assumes "num_ok num S" and "numbers_in S v"
  shows "stringify num v \<noteq> [] \<and> hd (stringify num v) \<notin> {CHR '']'', CHR ''}''}"
proof (cases v)
  case (JNum n)
  then show ?thesis using assms number_head [OF assms(1)] by (cases n) (fastforce simp: number_chars_def)+
qed (auto simp: json_quote_def)

lemma number_differs:
  "num_ok num S \<Longrightarrow> a \<in> S \<Longrightarrow> c \<notin> number_chars \<Longrightarrow> num a @ r \<noteq> c # s \<and> c # s \<noteq> num a @ r"
  using number_head [of num S a] by auto

lemma no_number_char:
  "CHR ''n'' \<notin> number_chars" "CHR ''t'' \<notin> number_chars" "CHR ''f'' \<notin> number_chars" "CHR 0x22 \<notin> number_chars"
  "CHR ''['' \<notin> number_chars" "CHR ''{'' \<notin> number_chars"
  by (simp_all add: number_chars_def)

lemmas json_differs = no_number_char json_quote_def

lemma closed_offI:
  "(\<And>w r s. good w \<Longrightarrow> delimited r \<Longrightarrow> delimited s \<Longrightarrow> f x @ r = f w @ s \<Longrightarrow> x = w \<and> r = s) \<Longrightarrow> closed_off f good x"
  by (simp add: closed_off_def)

lemma array_closed_off:
  assumes "num_ok num S" and "list_all (numbers_in S) xs"
    and "\<And>x. x \<in> set xs \<Longrightarrow> closed_off (stringify num) (numbers_in S) x"
  shows "closed_off (stringify num) (numbers_in S) (JArr xs)"
proof (rule closed_offI)
  fix w r s
  assume w: "numbers_in S w" "stringify num (JArr xs) @ r = stringify num w @ s"
  then obtain ys where "w = JArr ys"
    by (cases w) (auto simp: number_differs [OF assms(1)] json_differs split: jsnum.splits if_splits)
  with w join_prefix [of xs "stringify num" "numbers_in S" ys "CHR '']''" r s] assms stringify_head [OF assms(1)]
  show "JArr xs = w \<and> r = s" by simp
qed

lemma member_closed_off:
  assumes "closed_off (stringify num) (numbers_in S) v"
  shows "closed_off (\<lambda>(k, v). json_quote k @ '':'' @ stringify num v) (\<lambda>(k, v). numbers_in S v) (k, v)"
proof (rule closed_offI)
  fix w r s
  assume w: "case w of (k, v) \<Rightarrow> numbers_in S v" "delimited r" "delimited s"
    "(case (k, v) of (k, v) \<Rightarrow> json_quote k @ '':'' @ stringify num v) @ r
     = (case w of (k, v) \<Rightarrow> json_quote k @ '':'' @ stringify num v) @ s"
  obtain j u where "w = (j, u)" by (cases w)
  with w json_quote_prefix [of k "'':'' @ stringify num v @ r" j "'':'' @ stringify num u @ s"]
    closed_offD [OF assms, of u r s]
  show "(k, v) = w \<and> r = s" by simp
qed

lemma object_closed_off:
  assumes "num_ok num S" and "list_all (\<lambda>(k, v). numbers_in S v) m"
    and "\<And>k v. (k, v) \<in> set m \<Longrightarrow> closed_off (stringify num) (numbers_in S) v"
  shows "closed_off (stringify num) (numbers_in S) (JObj m)"
proof (rule closed_offI)
  fix w r s
  assume w: "numbers_in S w" "stringify num (JObj m) @ r = stringify num w @ s"
  then obtain n where "w = JObj n"
    by (cases w) (auto simp: number_differs [OF assms(1)] json_differs split: jsnum.splits if_splits)
  with w join_prefix [of m "\<lambda>(k, v). json_quote k @ '':'' @ stringify num v" "\<lambda>(k, v). numbers_in S v" n "CHR ''}''" r s]
    assms member_closed_off [of num S]
  show "JObj m = w \<and> r = s" by (auto simp: json_quote_def)
qed

lemma stringify_closed_off:
  assumes "num_ok num S" and "numbers_in S v"
  shows "closed_off (stringify num) (numbers_in S) v"
  using assms
proof (induction S v rule: numbers_in.induct)
  case (1 S n)
  then obtain a where a: "n = Num a" "a \<in> S" by (auto split: jsnum.splits)
  show ?case
  proof (rule closed_offI)
    fix w r s
    assume w: "numbers_in S w" "delimited r" "delimited s" "stringify num (JNum n) @ r = stringify num w @ s"
    then obtain b where "w = JNum (Num b)" "b \<in> S"
      using a 1(1) by (cases w) (auto simp: number_differs [OF 1(1)] json_differs split: jsnum.splits if_splits)
    with w a number_prefix [OF 1(1), of a b r s] show "JNum n = w \<and> r = s" by simp
  qed
next
  case (2 S xs)
  then show ?case using array_closed_off [of num S xs] by (simp add: list_all_iff)
next
  case (3 S m)
  have "closed_off (stringify num) (numbers_in S) v" if "(k, v) \<in> set m" for k v
    using 3 that by (auto simp: list_all_iff)
  then show ?case using object_closed_off [of num S m] 3 by simp
next
  case (4 S)
  show ?case
  proof (rule closed_offI)
    fix w r s
    assume "numbers_in S w" "stringify num JNull @ r = stringify num w @ s"
    then show "JNull = w \<and> r = s"
      by (cases w) (auto simp: number_differs [OF 4(1)] json_differs split: jsnum.splits if_splits)
  qed
next
  case (5 S b)
  show ?case
  proof (rule closed_offI)
    fix w r s
    assume "numbers_in S w" "stringify num (JBool b) @ r = stringify num w @ s"
    then show "JBool b = w \<and> r = s"
      by (cases w) (auto simp: number_differs [OF 5(1)] json_differs split: jsnum.splits if_splits)
  qed
next
  case (6 S t)
  show ?case
  proof (rule closed_offI)
    fix w r s
    assume w: "numbers_in S w" "stringify num (JStr t) @ r = stringify num w @ s"
    then obtain u where "w = JStr u"
      by (cases w) (auto simp: number_differs [OF 6(1)] json_differs split: jsnum.splits if_splits)
    with w json_quote_prefix [of t r u s] show "JStr t = w \<and> r = s" by simp
  qed
qed

lemma stringify_inj:
  "num_ok num S \<Longrightarrow> numbers_in S v \<Longrightarrow> numbers_in S w \<Longrightarrow> stringify num v = stringify num w \<Longrightarrow> v = w"
  using closed_offD [OF stringify_closed_off, of num S v w "[]" "[]"] by (simp add: delimited_def)

lemma own_order_set [simp]: "set (own_order m) = set m"
  by (auto simp: own_order_def)

lemma numbers_in_sortKeys: "numbers_in S v \<Longrightarrow> numbers_in S (sortKeys v)"
  by (induction v rule: sortKeys.induct) (auto simp: list_all_iff split: prod.splits)

lemma canonicalize_inj:
  "num_ok num S \<Longrightarrow> numbers_in S v \<Longrightarrow> numbers_in S w \<Longrightarrow> canonicalize num v = canonicalize num w \<Longrightarrow>
     sortKeys v = sortKeys w"
  unfolding canonicalize_def by (rule stringify_inj [of num S]) (simp_all add: numbers_in_sortKeys)

section \<open>Instants are determined by their text\<close>

lemma read_padStart: "0 \<le> i \<Longrightarrow> read_nat (padStart n (show_int i)) = nat i"
  by (simp add: padStart_def read_nat_zeros show_int_nonneg)

lemma padStart_inj: "0 \<le> i \<Longrightarrow> 0 \<le> j \<Longrightarrow> padStart n (show_int i) = padStart n (show_int j) \<longleftrightarrow> i = j"
  using read_padStart [of i n] read_padStart [of j n] by auto

lemma not_in_padStart: "0 \<le> i \<Longrightarrow> \<not> is_digit c \<Longrightarrow> c \<notin> set (padStart n (show_int i))"
  using not_digit_in_show_nat [of c] by (auto simp: padStart_def show_int_def is_digit_def)

lemma padStart_no_plus: "0 \<le> i \<Longrightarrow> padStart n (show_int i) \<noteq> CHR ''+'' # r"
  using not_in_padStart [of i "CHR ''+''" n] by (auto simp: is_digit_def)

lemma iso_year_inj: "0 \<le> y \<Longrightarrow> 0 \<le> y' \<Longrightarrow> iso_year y = iso_year y' \<longleftrightarrow> y = y'"
  by (simp add: iso_year_def padStart_inj padStart_no_plus padStart_no_plus [symmetric])

lemma iso_year_no_dash: "0 \<le> y \<Longrightarrow> CHR ''-'' \<notin> set (iso_year y)"
  using not_in_padStart [of y "CHR ''-''"] by (simp add: iso_year_def is_digit_def)

lemma ms_parts:
  fixes a b :: int
  assumes "a div 3600000 = b div 3600000" and "a div 60000 mod 60 = b div 60000 mod 60"
    and "a div 1000 mod 60 = b div 1000 mod 60" and "a mod 1000 = b mod 1000"
  shows "a = b"
proof -
  have m: "x = (x div 3600000) * 3600000 + (x div 60000 mod 60) * 60000 + (x div 1000 mod 60) * 1000 + x mod 1000" for x :: int
  proof -
    have "x div 3600000 = x div 60000 div 60" "x div 60000 = x div 1000 div 60"
      using zdiv_zmult2_eq [of 60 x 60000] zdiv_zmult2_eq [of 60 x 1000] by simp_all
    then show ?thesis
      using div_mult_mod_eq [of "x div 60000" 60] div_mult_mod_eq [of "x div 1000" 60] div_mult_mod_eq [of x 1000] by linarith
  qed
  show ?thesis using m [of a] m [of b] assms by simp
qed

lemma toISOString_inj:
  assumes "0 \<le> t" and "0 \<le> t'" and "toISOString t = toISOString t'"
  shows "t = t'"
proof -
  have y: "0 \<le> getUTCFullYear u" "0 \<le> getUTCMonth u + 1" "0 \<le> getUTCDate u" if "0 \<le> u" for u
    using modern_year [of u] modern_nonneg [of u] that month_of_day_range [of "day_of u"] date_of_day_range [of "day_of u"]
    by (auto simp: getUTCMonth_def getUTCDate_def)
  have "0 \<le> u mod DAY_MS" for u by simp
  note parts = this
  have "getUTCFullYear t = getUTCFullYear t' \<and> getUTCMonth t = getUTCMonth t' \<and> getUTCDate t = getUTCDate t'
    \<and> t mod DAY_MS = t' mod DAY_MS"
    using assms(3) y [OF assms(1)] y [OF assms(2)] parts [of t] parts [of t']
    by (auto simp: toISOString_def Let_def sep_append_inj not_in_padStart is_digit_def iso_year_no_dash padStart_inj iso_year_inj
        pos_imp_zdiv_nonneg_iff intro: ms_parts)
  then have "day_of t = day_of t'" "t mod DAY_MS = t' mod DAY_MS"
    by (auto simp: getUTCFullYear_def getUTCMonth_def getUTCDate_def intro: civil_date_inj)
  then show ?thesis unfolding day_of_def by (metis div_mult_mod_eq)
qed

end
