(* ===== verification/Audit_Chain.thy ===== *)
theory Audit_Chain
  imports Js_Json Auth
begin

text \<open>
  The audit trail of \<^verbatim>\<open>packages/pipeline\<close>: rows chained by hash (\<^verbatim>\<open>audit.ts\<close>), the incremental chain walker and the signed
  attestations (\<^verbatim>\<open>attestation.ts\<close>) and the in-memory sink (\<^verbatim>\<open>memory.ts\<close>). SHA-256, HMAC and the asymmetric signer are
  arguments, as is the text of a number.
\<close>

section \<open>Rows and their hashes\<close>

type_synonym digest = "string \<Rightarrow> string"

record AuditEventInput =
  ae_orgId :: "string option"
  ae_actor :: string
  ae_action :: string
  ae_target :: "string option"
  ae_payload :: "(string, json) jsmap option"

record AuditRow =
  ar_event :: AuditEventInput
  ar_seq :: int
  ar_prevHash :: "string option"
  ar_rowHash :: string
  ar_createdAt :: int

definition j_nullable :: "string option \<Rightarrow> json" where
  "j_nullable x = (case x of None \<Rightarrow> JNull | Some s \<Rightarrow> JStr s)"

definition rowContent :: "int \<Rightarrow> AuditEventInput \<Rightarrow> int \<Rightarrow> json" where
  "rowContent seq e createdAt =
     JObj [(''seq'', JNum (Num (of_int seq))),
           (''orgId'', j_nullable (ae_orgId e)),
           (''actor'', JStr (ae_actor e)),
           (''action'', JStr (ae_action e)),
           (''target'', j_nullable (ae_target e)),
           (''payload'', JObj (case ae_payload e of None \<Rightarrow> [] | Some p \<Rightarrow> p)),
           (''createdAt'', JStr (toISOString createdAt))]"

definition hash_input :: "number_text \<Rightarrow> string option \<Rightarrow> json \<Rightarrow> string" where
  "hash_input num prevHash content = (case prevHash of None \<Rightarrow> [] | Some p \<Rightarrow> p) @ CHR 0x0A # canonicalize num content"

definition computeRowHash :: "digest \<Rightarrow> number_text \<Rightarrow> string option \<Rightarrow> json \<Rightarrow> string" where
  "computeRowHash H num prevHash content = H (hash_input num prevHash content)"

definition row_content :: "AuditRow \<Rightarrow> json" where
  "row_content r = rowContent (ar_seq r) (ar_event r) (ar_createdAt r)"

section \<open>The walker\<close>

record AuditChainReport =
  rp_verified :: bool
  rp_count :: int
  rp_firstSeq :: "int option"
  rp_lastSeq :: "int option"
  rp_firstHash :: "string option"
  rp_lastHash :: "string option"
  rp_firstAt :: "string option"
  rp_lastAt :: "string option"
  rp_brokenAtSeq :: "int option"

record AuditChainWalker =
  wk_prev :: "string option"
  wk_prevSeq :: int
  wk_count :: int
  wk_first :: "AuditRow option"
  wk_last :: "AuditRow option"
  wk_brokenAtSeq :: "int option"

definition new_walker :: AuditChainWalker where
  "new_walker = \<lparr>wk_prev = None, wk_prevSeq = 0, wk_count = 0, wk_first = None, wk_last = None, wk_brokenAtSeq = None\<rparr>"

definition push_row :: "digest \<Rightarrow> number_text \<Rightarrow> AuditRow \<Rightarrow> AuditChainWalker \<Rightarrow> AuditChainWalker" where
  "push_row H num row w0 =
     (let w = w0\<lparr>wk_count := wk_count w0 + 1,
                wk_first := (case wk_first w0 of None \<Rightarrow> Some row | Some r \<Rightarrow> Some r),
                wk_last := Some row\<rparr>
      in if wk_brokenAtSeq w \<noteq> None then w
         else
           let linkBroken = ar_prevHash row \<noteq> wk_prev w
                 \<or> computeRowHash H num (wk_prev w) (row_content row) \<noteq> ar_rowHash row;
               seqBroken = ar_seq row \<le> wk_prevSeq w
           in if linkBroken \<or> seqBroken then w\<lparr>wk_brokenAtSeq := Some (ar_seq row)\<rparr>
              else w\<lparr>wk_prev := Some (ar_rowHash row), wk_prevSeq := ar_seq row\<rparr>)"

definition report :: "AuditChainWalker \<Rightarrow> AuditChainReport" where
  "report w =
     \<lparr>rp_verified = (wk_brokenAtSeq w = None),
      rp_count = wk_count w,
      rp_firstSeq = map_option ar_seq (wk_first w),
      rp_lastSeq = map_option ar_seq (wk_last w),
      rp_firstHash = map_option ar_rowHash (wk_first w),
      rp_lastHash = map_option ar_rowHash (wk_last w),
      rp_firstAt = map_option (\<lambda>r. toISOString (ar_createdAt r)) (wk_first w),
      rp_lastAt = map_option (\<lambda>r. toISOString (ar_createdAt r)) (wk_last w),
      rp_brokenAtSeq = wk_brokenAtSeq w\<rparr>"

definition verifyAuditChain :: "digest \<Rightarrow> number_text \<Rightarrow> AuditRow list \<Rightarrow> AuditChainReport" where
  "verifyAuditChain H num rows = report (foldl (\<lambda>w row. push_row H num row w) new_walker rows)"

section \<open>The in-memory sink\<close>

record AuditSink =
  sk_rows :: "AuditRow list"
  sk_seq :: int
  sk_prevHash :: "string option"

definition new_sink :: AuditSink where
  "new_sink = \<lparr>sk_rows = [], sk_seq = 0, sk_prevHash = None\<rparr>"

definition sink_append :: "digest \<Rightarrow> number_text \<Rightarrow> int \<Rightarrow> AuditEventInput \<Rightarrow> AuditSink \<Rightarrow> AuditRow \<times> AuditSink" where
  "sink_append H num clock event s =
     (let seq = sk_seq s + 1;
          rowHash = computeRowHash H num (sk_prevHash s) (rowContent seq event clock);
          row = \<lparr>ar_event = event, ar_seq = seq, ar_prevHash = sk_prevHash s, ar_rowHash = rowHash, ar_createdAt = clock\<rparr>
      in (row, s\<lparr>sk_seq := seq, sk_prevHash := Some rowHash, sk_rows := sk_rows s @ [row]\<rparr>))"

definition sink_verify :: "digest \<Rightarrow> number_text \<Rightarrow> AuditSink \<Rightarrow> bool" where
  "sink_verify H num s = rp_verified (verifyAuditChain H num (sk_rows s))"

section \<open>Attestations\<close>

record AuditAttestation =
  aa_tool :: string
  aa_toolVersion :: string
  aa_generatedAt :: string
  aa_subject :: "string option"
  aa_chain :: AuditChainReport

record SignedAttestation =
  sa_attestation :: AuditAttestation
  sa_algorithm :: string
  sa_signature :: string

definition j_number :: "int option \<Rightarrow> json" where
  "j_number x = (case x of None \<Rightarrow> JNull | Some i \<Rightarrow> JNum (Num (of_int i)))"

definition report_json :: "AuditChainReport \<Rightarrow> json" where
  "report_json r =
     JObj ([(''verified'', JBool (rp_verified r)),
            (''count'', JNum (Num (of_int (rp_count r)))),
            (''firstSeq'', j_number (rp_firstSeq r)),
            (''lastSeq'', j_number (rp_lastSeq r)),
            (''firstHash'', j_nullable (rp_firstHash r)),
            (''lastHash'', j_nullable (rp_lastHash r)),
            (''firstAt'', j_nullable (rp_firstAt r)),
            (''lastAt'', j_nullable (rp_lastAt r))]
           @ (case rp_brokenAtSeq r of None \<Rightarrow> [] | Some i \<Rightarrow> [(''brokenAtSeq'', JNum (Num (of_int i)))]))"

definition attestation_json :: "AuditAttestation \<Rightarrow> json" where
  "attestation_json a =
     JObj ([(''tool'', JStr (aa_tool a)), (''toolVersion'', JStr (aa_toolVersion a)), (''generatedAt'', JStr (aa_generatedAt a))]
           @ (case aa_subject a of None \<Rightarrow> [] | Some s \<Rightarrow> [(''subject'', JStr s)])
           @ [(''chain'', report_json (aa_chain a))])"

abbreviation HMAC_SHA256 :: string where
  "HMAC_SHA256 \<equiv> ''HMAC-SHA256''"

definition ASYM_HASH :: "string \<Rightarrow> string option" where
  "ASYM_HASH = map_of
     [(''ECDSA_SHA_256'', ''sha256''), (''ECDSA_SHA_384'', ''sha384''), (''ECDSA_SHA_512'', ''sha512''),
      (''RSASSA_PKCS1_V1_5_SHA_256'', ''sha256''), (''RSASSA_PKCS1_V1_5_SHA_384'', ''sha384''),
      (''RSASSA_PKCS1_V1_5_SHA_512'', ''sha512'')]"

definition signAttestation :: "hmac \<Rightarrow> number_text \<Rightarrow> AuditAttestation \<Rightarrow> string \<Rightarrow> SignedAttestation" where
  "signAttestation hm num a key =
     \<lparr>sa_attestation = a, sa_algorithm = HMAC_SHA256, sa_signature = hm key (canonicalize num (attestation_json a))\<rparr>"

definition verifyAttestation :: "hmac \<Rightarrow> number_text \<Rightarrow> SignedAttestation \<Rightarrow> string \<Rightarrow> bool" where
  "verifyAttestation hm num doc key =
     (if sa_algorithm doc \<noteq> HMAC_SHA256 then False
      else
        let expected = hm key (canonicalize num (attestation_json (sa_attestation doc)));
            a = hex_bytes (sa_signature doc); b = hex_bytes expected
        in length a = length b \<and> a = b)"

definition buildAttestationDoc :: "digest \<Rightarrow> number_text \<Rightarrow> AuditRow list \<Rightarrow> string option \<Rightarrow> string \<Rightarrow> string \<Rightarrow> AuditAttestation" where
  "buildAttestationDoc H num rows subject toolVersion generatedAt =
     \<lparr>aa_tool = ''gulley-audit-verify'', aa_toolVersion = toolVersion, aa_generatedAt = generatedAt, aa_subject = subject,
      aa_chain = verifyAuditChain H num rows\<rparr>"

definition attestAuditChain ::
  "digest \<Rightarrow> hmac \<Rightarrow> number_text \<Rightarrow> AuditRow list \<Rightarrow> string \<Rightarrow> string option \<Rightarrow> string \<Rightarrow> string \<Rightarrow> SignedAttestation" where
  "attestAuditChain H hm num rows key subject toolVersion generatedAt =
     (let chain = verifyAuditChain H num rows
      in signAttestation hm num
           \<lparr>aa_tool = ''gulley-audit-verify'', aa_toolVersion = toolVersion, aa_generatedAt = generatedAt, aa_subject = subject,
            aa_chain = chain\<rparr> key)"

text \<open>The signer may reject; the asymmetric verification of the runtime may throw.\<close>

datatype attest_error = NotAsymmetric | SignerFailed

definition attestAuditChainAsync ::
  "digest \<Rightarrow> number_text \<Rightarrow> (string \<Rightarrow> string option) \<Rightarrow> AuditRow list \<Rightarrow> string \<Rightarrow> string option \<Rightarrow> string \<Rightarrow> string
     \<Rightarrow> attest_error + SignedAttestation" where
  "attestAuditChainAsync H num sign rows algorithm subject toolVersion generatedAt =
     (if algorithm = HMAC_SHA256 then Inl NotAsymmetric
      else
        let a = buildAttestationDoc H num rows subject toolVersion generatedAt in
        case sign (canonicalize num (attestation_json a)) of
          None \<Rightarrow> Inl SignerFailed
        | Some signature \<Rightarrow> Inr \<lparr>sa_attestation = a, sa_algorithm = algorithm, sa_signature = signature\<rparr>)"

definition verifyAttestationWithPublicKey ::
  "(string \<Rightarrow> string \<Rightarrow> string \<Rightarrow> string \<Rightarrow> unit + bool) \<Rightarrow> number_text \<Rightarrow> SignedAttestation \<Rightarrow> string \<Rightarrow> bool" where
  "verifyAttestationWithPublicKey nodeVerify num doc publicKeyPem =
     (case ASYM_HASH (sa_algorithm doc) of
        None \<Rightarrow> False
      | Some hash \<Rightarrow>
          (case nodeVerify hash (canonicalize num (attestation_json (sa_attestation doc))) publicKeyPem (sa_signature doc) of
             Inl e \<Rightarrow> False
           | Inr ok \<Rightarrow> ok))"

section \<open>What a valid chain is\<close>

text \<open>
  The reference the walker is measured against: row \<open>i\<close> points to the hash of row \<open>i - 1\<close>, its own hash is the digest of that pointer and its content,
  and its sequence number is above the one before.
\<close>

definition hash_before :: "AuditRow list \<Rightarrow> nat \<Rightarrow> string option" where
  "hash_before rows i = (if i = 0 then None else Some (ar_rowHash (rows ! (i - 1))))"

definition seq_before :: "AuditRow list \<Rightarrow> nat \<Rightarrow> int" where
  "seq_before rows i = (if i = 0 then 0 else ar_seq (rows ! (i - 1)))"

definition row_valid :: "digest \<Rightarrow> number_text \<Rightarrow> AuditRow list \<Rightarrow> nat \<Rightarrow> bool" where
  "row_valid H num rows i \<longleftrightarrow>
     ar_prevHash (rows ! i) = hash_before rows i
     \<and> ar_rowHash (rows ! i) = H (hash_input num (hash_before rows i) (row_content (rows ! i)))
     \<and> seq_before rows i < ar_seq (rows ! i)"

definition first_break :: "digest \<Rightarrow> number_text \<Rightarrow> AuditRow list \<Rightarrow> nat option" where
  "first_break H num rows = find (\<lambda>i. \<not> row_valid H num rows i) [0..<length rows]"

definition chain_valid :: "digest \<Rightarrow> number_text \<Rightarrow> AuditRow list \<Rightarrow> bool" where
  "chain_valid H num rows = list_all (row_valid H num rows) [0..<length rows]"

lemma find_append: "find P (xs @ ys) = (case find P xs of None \<Rightarrow> find P ys | Some x \<Rightarrow> Some x)"
  by (induction xs) simp_all

lemma row_valid_append: "i < length rows \<Longrightarrow> row_valid H num (rows @ later) i = row_valid H num rows i"
  by (cases i) (simp_all add: row_valid_def hash_before_def seq_before_def nth_append)

lemma first_break_snoc:
  "first_break H num (rows @ [r]) =
     (case first_break H num rows of
        Some i \<Rightarrow> Some i
      | None \<Rightarrow> if row_valid H num (rows @ [r]) (length rows) then None else Some (length rows))"
proof -
  have "find (\<lambda>i. \<not> row_valid H num (rows @ [r]) i) [0..<length rows] = first_break H num rows"
    unfolding first_break_def by (rule find_cong) (simp_all add: row_valid_append)
  then show ?thesis by (simp add: first_break_def [of H num "rows @ [r]"] find_append split: option.split)
qed

lemma first_break_bound: "first_break H num rows = Some i \<Longrightarrow> i < length rows"
  by (auto simp: first_break_def find_Some_iff)

lemma first_break_None: "first_break H num rows = None \<longleftrightarrow> chain_valid H num rows"
  by (auto simp: first_break_def chain_valid_def find_None_iff list_all_iff)

lemma chain_valid_snoc:
  "chain_valid H num (rows @ [r]) \<longleftrightarrow> chain_valid H num rows \<and> row_valid H num (rows @ [r]) (length rows)"
  by (auto simp: first_break_snoc simp flip: first_break_None split: option.splits)

section \<open>The walker computes it\<close>

definition walked :: "digest \<Rightarrow> number_text \<Rightarrow> AuditRow list \<Rightarrow> AuditChainWalker" where
  "walked H num rows = foldl (\<lambda>w row. push_row H num row w) new_walker rows"

lemma walked_snoc: "walked H num (rows @ [r]) = push_row H num r (walked H num rows)"
  by (simp add: walked_def)

lemma walked_seen:
  "wk_count (walked H num rows) = int (length rows)
   \<and> wk_first (walked H num rows) = (if rows = [] then None else Some (hd rows))
   \<and> wk_last (walked H num rows) = (if rows = [] then None else Some (last rows))"
proof (induction rows rule: rev_induct)
  case Nil
  then show ?case by (simp add: walked_def new_walker_def)
next
  case (snoc r rows)
  then show ?case by (auto simp: walked_snoc push_row_def Let_def)
qed

lemma walked_broken:
  "wk_brokenAtSeq (walked H num rows) = map_option (\<lambda>i. ar_seq (rows ! i)) (first_break H num rows)
   \<and> (first_break H num rows = None \<longrightarrow>
        wk_prev (walked H num rows) = hash_before rows (length rows) \<and> wk_prevSeq (walked H num rows) = seq_before rows (length rows))"
proof (induction rows rule: rev_induct)
  case Nil
  then show ?case by (simp add: walked_def new_walker_def first_break_def hash_before_def seq_before_def)
next
  case (snoc r rows)
  show ?case
  proof (cases "first_break H num rows")
    case None
    with snoc show ?thesis
      by (auto simp: walked_snoc push_row_def Let_def first_break_snoc row_valid_def hash_before_def seq_before_def nth_append
          computeRowHash_def)
  next
    case (Some i)
    with snoc first_break_bound [OF Some] show ?thesis
      by (simp add: walked_snoc push_row_def Let_def first_break_snoc nth_append)
  qed
qed

lemma verify_walked: "verifyAuditChain H num rows = report (walked H num rows)"
  by (simp add: verifyAuditChain_def walked_def)

lemma verified_iff: "rp_verified (verifyAuditChain H num rows) \<longleftrightarrow> chain_valid H num rows"
  by (simp add: verify_walked report_def walked_broken first_break_None)

lemma reported_last: "rp_lastHash (verifyAuditChain H num rows) = (if rows = [] then None else Some (ar_rowHash (last rows)))"
  by (simp add: verify_walked report_def walked_seen)

text \<open>
  C27. The incremental walker computes what a look at the whole chain would: the chain is verified exactly if every row is valid, and otherwise the report
  names the sequence number of the first row that is not, however many rows follow it.
\<close>

theorem walker_refines_chain:
  "verifyAuditChain H num rows =
     \<lparr>rp_verified = list_all (row_valid H num rows) [0..<length rows],
      rp_count = int (length rows),
      rp_firstSeq = (if rows = [] then None else Some (ar_seq (hd rows))),
      rp_lastSeq = (if rows = [] then None else Some (ar_seq (last rows))),
      rp_firstHash = (if rows = [] then None else Some (ar_rowHash (hd rows))),
      rp_lastHash = (if rows = [] then None else Some (ar_rowHash (last rows))),
      rp_firstAt = (if rows = [] then None else Some (toISOString (ar_createdAt (hd rows)))),
      rp_lastAt = (if rows = [] then None else Some (toISOString (ar_createdAt (last rows)))),
      rp_brokenAtSeq = map_option (\<lambda>i. ar_seq (rows ! i)) (find (\<lambda>i. \<not> row_valid H num rows i) [0..<length rows])\<rparr>"
  using first_break_None [of H num rows]
  by (simp add: verify_walked report_def walked_seen walked_broken first_break_def chain_valid_def)

section \<open>The sink appends valid rows\<close>

definition sink_ok :: "digest \<Rightarrow> number_text \<Rightarrow> AuditSink \<Rightarrow> bool" where
  "sink_ok H num s \<longleftrightarrow>
     chain_valid H num (sk_rows s) \<and> sk_prevHash s = hash_before (sk_rows s) (length (sk_rows s))
     \<and> sk_seq s = int (length (sk_rows s)) \<and> map ar_seq (sk_rows s) = [1..int (length (sk_rows s))]"

definition sink_step :: "digest \<Rightarrow> number_text \<Rightarrow> AuditSink \<Rightarrow> int \<times> AuditEventInput \<Rightarrow> AuditSink" where
  "sink_step H num s te = snd (sink_append H num (fst te) (snd te) s)"

lemma upto_snoc: "[1..1 + int n] = [1..int n] @ [1 + int n]"
  using upto_rec2 [of 1 "1 + int n"] by simp

lemma seq_before_gapless:
  assumes "map ar_seq rows = [1..int (length rows)]"
  shows "seq_before rows (length rows) = int (length rows)"
proof (cases rows rule: rev_cases)
  case (snoc ys y)
  then have "last (map ar_seq rows) = last [1..int (length rows)]" using assms by simp
  with snoc show ?thesis by (simp add: seq_before_def upto_snoc)
qed (simp add: seq_before_def)

lemma sink_step_ok: "sink_ok H num s \<Longrightarrow> sink_ok H num (sink_step H num s te)"
  using seq_before_gapless [of "sk_rows s"]
  by (simp add: sink_ok_def sink_step_def sink_append_def Let_def chain_valid_snoc row_valid_def hash_before_def
      seq_before_def nth_append computeRowHash_def row_content_def upto_snoc split: if_splits)

interpretation audit_sink: step_system "sink_step H num" "sink_ok H num" for H num
  by unfold_locales (rule sink_step_ok)

lemma new_sink_ok: "sink_ok H num new_sink"
  by (simp add: sink_ok_def new_sink_def chain_valid_def hash_before_def)

lemma sink_rows_run:
  "map (\<lambda>r. (ar_createdAt r, ar_event r)) (sk_rows (foldl (sink_step H num) s tes))
   = map (\<lambda>r. (ar_createdAt r, ar_event r)) (sk_rows s) @ tes"
  by (induction tes arbitrary: s) (simp_all add: sink_step_def sink_append_def Let_def)

text \<open>
  C28. Whatever events are appended, the chain of the sink verifies, its sequence numbers are gapless from one, and it records
  exactly the events with their times in order.
\<close>

theorem appended_chain_verifies:
  "sink_verify H num (foldl (sink_step H num) new_sink tes)
   \<and> map ar_seq (sk_rows (foldl (sink_step H num) new_sink tes)) = [1..int (length tes)]
   \<and> map (\<lambda>r. (ar_createdAt r, ar_event r)) (sk_rows (foldl (sink_step H num) new_sink tes)) = tes"
proof -
  have ok: "sink_ok H num (foldl (sink_step H num) new_sink tes)" by (rule audit_sink.run_inv [OF new_sink_ok])
  have run: "map (\<lambda>r. (ar_createdAt r, ar_event r)) (sk_rows (foldl (sink_step H num) new_sink tes)) = tes"
    using sink_rows_run [of H num new_sink tes] by (simp add: new_sink_def)
  then have "length (sk_rows (foldl (sink_step H num) new_sink tes)) = length tes"
    by (metis length_map)
  with ok run show ?thesis by (simp add: sink_ok_def sink_verify_def verified_iff)
qed

section \<open>Tampering shows\<close>

text \<open>The members of a sorted object, looked up.\<close>

lemma own_order_distinct: "distinct (map fst m) \<Longrightarrow> distinct (map fst (own_order m))"
proof -
  have "mset (own_order m) = mset m" by (simp add: own_order_def)
  then have "mset (map fst (own_order m)) = mset (map fst m)" by (metis mset_map)
  then show "distinct (map fst m) \<Longrightarrow> distinct (map fst (own_order m))" using mset_eq_imp_distinct_iff by blast
qed

lemma distinct_sorted_members:
  assumes "distinct (map fst m)"
  shows "distinct (map fst (map (\<lambda>(k, v). (k, f v)) (filter P (sort_key fst m))))"
proof -
  have "mset (map fst (sort_key fst m)) = mset (map fst m)" by simp
  then have "distinct (map fst (sort_key fst m))" using assms mset_eq_imp_distinct_iff by blast
  then have "distinct (map fst (filter P (sort_key fst m)))" by (rule distinct_map_filter)
  then show ?thesis by (simp add: comp_def split_def)
qed

lemma sortKeys_lookup:
  assumes "distinct (map fst m)" and "k \<noteq> ''__proto__''" and "sortKeys (JObj m) = JObj m'"
  shows "map_of m' k = map_option sortKeys (map_of m k)"
proof -
  have d: "distinct (map fst m')"
    using assms(3) own_order_distinct [OF distinct_sorted_members [OF assms(1)]] by auto
  have s: "set m' = (\<lambda>(k, v). (k, sortKeys v)) ` {p \<in> set m. fst p \<noteq> ''__proto__''}"
  proof -
    have "m' = own_order (map (\<lambda>(k, v). (k, sortKeys v)) (filter (\<lambda>p. fst p \<noteq> ''__proto__'') (sort_key fst m)))"
      using assms(3) by simp
    then show ?thesis by (simp only: own_order_set set_map set_filter set_sort)
  qed
  show ?thesis
  proof (cases "map_of m k")
    case None
    then have "k \<notin> fst ` set m'" by (auto simp: s map_of_eq_None_iff image_iff)
    then have "map_of m' k = None" by (simp add: map_of_eq_None_iff)
    with None show ?thesis by simp
  next
    case (Some v)
    then have "(k, sortKeys v) \<in> set m'" using assms(2) map_of_SomeD [OF Some] by (force simp: s)
    with Some d show ?thesis by simp
  qed
qed

lemma sortKeys_lookup_eq:
  assumes "distinct (map fst m)" and "distinct (map fst m')" and "sortKeys (JObj m) = sortKeys (JObj m')"
    and "k \<noteq> ''__proto__''"
  shows "map_option sortKeys (map_of m k) = map_option sortKeys (map_of m' k)"
  using sortKeys_lookup [OF assms(1,4)] sortKeys_lookup [OF assms(2,4)] assms(3) by auto

lemma sort_key_map_values: "sort_key fst (map (\<lambda>(k, v). (k, f v)) m) = map (\<lambda>(k, v). (k, f v)) (sort_key fst m)"
proof -
  have ins: "insort_key fst (k, f v) (map (\<lambda>(k, v). (k, f v)) xs) = map (\<lambda>(k, v). (k, f v)) (insort_key fst (k, v) xs)" for k v xs
    by (induction xs) auto
  show ?thesis by (induction m) (auto simp: ins)
qed

lemma sortKeys_values:
  assumes "map (\<lambda>(k, v). (k, sortKeys v)) m = map (\<lambda>(k, v). (k, sortKeys v)) m'"
  shows "sortKeys (JObj m) = sortKeys (JObj m')"
proof -
  have "filter (\<lambda>p. fst p \<noteq> ''__proto__'') (map (\<lambda>(k, v). (k, sortKeys v)) xs)
    = map (\<lambda>(k, v). (k, sortKeys v)) (filter (\<lambda>p. fst p \<noteq> ''__proto__'') xs)" for xs
    by (induction xs) auto
  then have "sortKeys (JObj xs) = JObj (own_order (filter (\<lambda>p. fst p \<noteq> ''__proto__'') (sort_key fst (map (\<lambda>(k, v). (k, sortKeys v)) xs))))" for xs
    by (simp only: sortKeys.simps sort_key_map_values)
  then show ?thesis using assms by (simp only:)
qed

lemma content_payload:
  assumes "sortKeys (JObj p) = sortKeys (JObj p')"
  shows "sortKeys (rowContent seq (e\<lparr>ae_payload := Some p\<rparr>) t) = sortKeys (rowContent seq (e\<lparr>ae_payload := Some p'\<rparr>) t)"
  unfolding rowContent_def by (intro sortKeys_values) (simp add: assms del: sortKeys.simps(2))

lemma sortKeys_member_order: "mset p = mset p' \<Longrightarrow> distinct (map fst p) \<Longrightarrow> sortKeys (JObj p) = sortKeys (JObj p')"
  by (simp add: sort_members [of p p'])

definition payload_of :: "AuditRow \<Rightarrow> json" where
  "payload_of r = JObj (case ae_payload (ar_event r) of None \<Rightarrow> [] | Some p \<Rightarrow> p)"

text \<open>
  Two JSON values that say the same: atoms are equal, arrays agree item by item, and objects have the same members, in whatever order, with values that say the same.
\<close>

inductive same_json :: "json \<Rightarrow> json \<Rightarrow> bool" where
  same_null: "same_json JNull JNull"
| same_bool: "same_json (JBool b) (JBool b)"
| same_num: "same_json (JNum n) (JNum n)"
| same_str: "same_json (JStr t) (JStr t)"
| same_arr: "list_all2 same_json xs ys \<Longrightarrow> same_json (JArr xs) (JArr ys)"
| same_obj: "(\<And>k. rel_option same_json (jm_get m k) (jm_get m' k)) \<Longrightarrow> same_json (JObj m) (JObj m')"

text \<open>A value as \<^verbatim>\<open>JSON.parse\<close> or an object literal makes it: an object has a key once, and none of its keys is \<^verbatim>\<open>__proto__\<close>.\<close>

fun plain_json :: "json \<Rightarrow> bool" where
  "plain_json (JArr xs) = list_all plain_json xs"
| "plain_json (JObj m) = (jm_ok m \<and> ''__proto__'' \<notin> fst ` set m \<and> list_all (\<lambda>p. plain_json (snd p)) m)"
| "plain_json v = True"

lemma sortKeys_atom:
  "JNull = sortKeys w \<Longrightarrow> w = JNull" "JBool b = sortKeys w \<Longrightarrow> w = JBool b" "JNum n = sortKeys w \<Longrightarrow> w = JNum n" "JStr t = sortKeys w \<Longrightarrow> w = JStr t"
  by (cases w; simp)+

lemma same_sorted: "plain_json v \<Longrightarrow> plain_json w \<Longrightarrow> sortKeys v = sortKeys w \<Longrightarrow> same_json v w"
proof (induction v arbitrary: w rule: plain_json.induct)
  case (1 xs)
  obtain ys where w: "w = JArr ys" "map sortKeys xs = map sortKeys ys" using "1.prems"(3) by (cases w) auto
  have "list_all2 same_json xs ys"
    unfolding list_all2_conv_all_nth
  proof (intro conjI allI impI)
    show len: "length xs = length ys" using w(2) by (metis length_map)
    fix i assume i: "i < length xs"
    then have "sortKeys (xs ! i) = sortKeys (ys ! i)" using w(2) len by (metis nth_map)
    then show "same_json (xs ! i) (ys ! i)" using 1 i len w(1) by (auto simp: list_all_iff)
  qed
  then show ?case unfolding w(1) by (rule same_arr)
next
  case (2 m)
  then obtain m' where w: "w = JObj m'" by (cases w) auto
  have d: "distinct (map fst m)" "distinct (map fst m')" and p: "''__proto__'' \<notin> fst ` set m" "''__proto__'' \<notin> fst ` set m'"
    using "2.prems"(1,2) by (simp_all add: w)
  have "rel_option same_json (map_of m k) (map_of m' k)" for k
  proof (cases "k = ''__proto__''")
    case True
    then show ?thesis using p by (metis map_of_eq_None_iff option.rel_intros(1))
  next
    case False
    have eq: "map_option sortKeys (map_of m k) = map_option sortKeys (map_of m' k)"
      using sortKeys_lookup_eq [OF d _ False] "2.prems"(3) by (simp add: w)
    show ?thesis
    proof (cases "map_of m k")
      case None
      then show ?thesis using eq by simp
    next
      case (Some x)
      then obtain y where y: "map_of m' k = Some y" "sortKeys x = sortKeys y" using eq by (cases "map_of m' k") auto
      have "plain_json x" "plain_json y" "(k, x) \<in> set m"
        using "2.prems"(1,2) map_of_SomeD [OF Some] map_of_SomeD [OF y(1)] by (auto simp: w list_all_iff)
      then show ?thesis using "2.IH" [of "(k, x)" y] Some y by simp
    qed
  qed
  then show ?case unfolding w by (rule same_obj)
qed (simp_all only: sortKeys.simps, (drule sortKeys_atom, simp add: same_json.intros)+)

text \<open>Two rows that say the same: every field agrees, the payload up to the order of its members.\<close>

definition same_row :: "AuditRow \<Rightarrow> AuditRow \<Rightarrow> bool" where
  "same_row r r' \<longleftrightarrow>
     ar_seq r = ar_seq r' \<and> ae_orgId (ar_event r) = ae_orgId (ar_event r') \<and> ae_actor (ar_event r) = ae_actor (ar_event r')
     \<and> ae_action (ar_event r) = ae_action (ar_event r') \<and> ae_target (ar_event r) = ae_target (ar_event r')
     \<and> same_json (payload_of r) (payload_of r') \<and> ar_createdAt r = ar_createdAt r'
     \<and> ar_prevHash r = ar_prevHash r' \<and> ar_rowHash r = ar_rowHash r'"

definition row_printable :: "real set \<Rightarrow> AuditRow \<Rightarrow> bool" where
  "row_printable S r \<longleftrightarrow> of_int (ar_seq r) \<in> S \<and> numbers_in S (payload_of r) \<and> plain_json (payload_of r) \<and> 0 \<le> ar_createdAt r"

lemma j_nullable_inj: "sortKeys (j_nullable x) = sortKeys (j_nullable y) \<Longrightarrow> x = y"
  by (auto simp: j_nullable_def split: option.splits)

lemma numbers_in_content: "row_printable S r \<Longrightarrow> numbers_in S (row_content r)"
  by (simp add: row_printable_def row_content_def rowContent_def payload_of_def j_nullable_def split: option.split)

lemma content_determines:
  assumes "sortKeys (row_content r) = sortKeys (row_content r')" and "row_printable S r" and "row_printable S r'"
    and "ar_prevHash r = ar_prevHash r'" and "ar_rowHash r = ar_rowHash r'"
  shows "same_row r r'"
proof -
  define fields where "fields r = (case row_content r of JObj m \<Rightarrow> m | _ \<Rightarrow> [])" for r
  have c: "row_content r = JObj (fields r)" "distinct (map fst (fields r))" for r
    by (simp_all add: fields_def row_content_def rowContent_def)
  note g = sortKeys_lookup_eq [OF c(2) c(2) assms(1) [unfolded c(1)]]
  note f = fields_def row_content_def rowContent_def
  have "ar_seq r = ar_seq r'" using g [of "''seq''"] by (simp add: f)
  moreover have "ae_orgId (ar_event r) = ae_orgId (ar_event r')"
    using g [of "''orgId''"] by (auto simp: f dest: j_nullable_inj)
  moreover have "ae_actor (ar_event r) = ae_actor (ar_event r')" using g [of "''actor''"] by (simp add: f)
  moreover have "ae_action (ar_event r) = ae_action (ar_event r')" using g [of "''action''"] by (simp add: f)
  moreover have "ae_target (ar_event r) = ae_target (ar_event r')"
    using g [of "''target''"] by (auto simp: f dest: j_nullable_inj)
  moreover have "same_json (payload_of r) (payload_of r')"
    by (rule same_sorted) (use assms(2,3) g [of "''payload''"] in \<open>simp_all add: row_printable_def f payload_of_def del: sortKeys.simps plain_json.simps\<close>)
  moreover have "toISOString (ar_createdAt r) = toISOString (ar_createdAt r')" using g [of "''createdAt''"] by (simp add: f)
  then have "ar_createdAt r = ar_createdAt r'" using assms(2,3) by (simp add: row_printable_def toISOString_inj)
  ultimately show ?thesis using assms(4,5) by (simp add: same_row_def)
qed

text \<open>The digest is printed in hex: never empty, no newline.\<close>

definition hex_text :: "digest \<Rightarrow> bool" where
  "hex_text H \<longleftrightarrow> (\<forall>x. H x \<noteq> [] \<and> CHR 0x0A \<notin> set (H x))"

definition hash_inputs :: "number_text \<Rightarrow> AuditRow list \<Rightarrow> string list" where
  "hash_inputs num rows = map (\<lambda>i. hash_input num (hash_before rows i) (row_content (rows ! i))) [0..<length rows]"

lemma hash_inputs_snoc:
  "hash_inputs num (rows @ [r]) = hash_inputs num rows @ [hash_input num (hash_before rows (length rows)) (row_content r)]"
  by (auto simp: hash_inputs_def hash_before_def nth_append)

lemma hash_before_hex:
  assumes "hex_text H" and "chain_valid H num rows" and "hash_before rows (length rows) = Some p"
  shows "p \<noteq> [] \<and> CHR 0x0A \<notin> set p"
proof -
  let ?i = "length rows - 1"
  have "rows \<noteq> []" and p: "p = ar_rowHash (rows ! ?i)" using assms(3) by (auto simp: hash_before_def split: if_splits)
  then have "row_valid H num rows ?i" using assms(2) by (simp add: chain_valid_def list_all_iff)
  then show ?thesis using assms(1) p by (simp add: row_valid_def hex_text_def)
qed

lemma hash_input_inj:
  assumes "hash_input num p c = hash_input num q d"
    and "\<And>x. p = Some x \<Longrightarrow> x \<noteq> [] \<and> CHR 0x0A \<notin> set x" and "\<And>x. q = Some x \<Longrightarrow> x \<noteq> [] \<and> CHR 0x0A \<notin> set x"
  shows "p = q \<and> canonicalize num c = canonicalize num d"
proof -
  define t where "t = case_option [] (\<lambda>x :: string. x)"
  have "CHR 0x0A \<notin> set (t p)" "CHR 0x0A \<notin> set (t q)" using assms(2,3) by (auto simp: t_def split: option.splits)
  then have "t p = t q \<and> canonicalize num c = canonicalize num d"
    using assms(1) unfolding hash_input_def t_def by (simp add: sep_append_inj)
  then show ?thesis using assms(2,3) by (auto simp: t_def split: option.splits)
qed

lemma tamper_evident:
  assumes "hex_text H" and "num_ok num S"
    and "chain_valid H num rows" and "chain_valid H num rows'" and "list_all (row_printable S) rows" and "list_all (row_printable S) rows'"
    and "hash_before rows (length rows) = hash_before rows' (length rows')"
    and nocol: "\<And>x y. x \<in> set (hash_inputs num rows) \<Longrightarrow> y \<in> set (hash_inputs num rows') \<Longrightarrow> H x = H y \<Longrightarrow> x = y"
  shows "list_all2 same_row rows rows'"
  using assms(3-)
proof (induction rows arbitrary: rows' rule: rev_induct)
  case Nil
  then show ?case by (simp add: hash_before_def split: if_splits)
next
  case (snoc r rows)
  obtain rows'' r' where r': "rows' = rows'' @ [r']"
    using snoc.prems(5) by (cases rows' rule: rev_cases) (auto simp: hash_before_def)
  note s = snoc.prems [unfolded r' chain_valid_snoc hash_inputs_snoc]
  let ?p = "hash_before rows (length rows)" and ?q = "hash_before rows'' (length rows'')"
  let ?x = "hash_input num ?p (row_content r)" and ?y = "hash_input num ?q (row_content r')"
  have v: "ar_prevHash r = ?p" "ar_rowHash r = H ?x" "ar_prevHash r' = ?q" "ar_rowHash r' = H ?y"
    using s(1,2) by (simp_all add: row_valid_def hash_before_def nth_append split: if_splits)
  have "ar_rowHash r = ar_rowHash r'" using s(5) by (simp add: hash_before_def)
  then have "?x = ?y" using s(6) [of ?x ?y] v by simp
  from hash_input_inj [OF this] hash_before_hex [OF assms(1)] s(1,2)
  have eq: "?p = ?q" "canonicalize num (row_content r) = canonicalize num (row_content r')" by blast+
  have "sortKeys (row_content r) = sortKeys (row_content r')"
    by (rule canonicalize_inj [OF assms(2)]) (use s(3,4) eq(2) in \<open>simp_all add: numbers_in_content\<close>)
  then have "same_row r r'"
    by (rule content_determines [where S = S]) (use s(3,4) v eq(1) \<open>ar_rowHash r = ar_rowHash r'\<close> in simp_all)
  moreover have "list_all2 same_row rows rows''"
    by (rule snoc.IH) (use s eq(1) in \<open>auto simp: hash_inputs_snoc\<close>)
  ultimately show ?case by (simp add: r' list_all2_appendI)
qed


definition sample_digest :: digest where
  "sample_digest x = ''h'' @ map (\<lambda>c. if c = CHR 0x0A then CHR ''n'' else c) x"

definition sample_event :: "(string, json) jsmap \<Rightarrow> AuditEventInput" where
  "sample_event p = \<lparr>ae_orgId = None, ae_actor = ''ann'', ae_action = ''key.create'', ae_target = None, ae_payload = Some p\<rparr>"

definition sample_rows :: "(string, json) jsmap \<Rightarrow> AuditRow list" where
  "sample_rows p = sk_rows (sink_step sample_digest (\<lambda>r. ''1'') new_sink (5, sample_event p))"

lemma sample_rows_verified: "rp_verified (verifyAuditChain sample_digest (\<lambda>r. ''1'') (sample_rows p))"
  using sink_step_ok [OF new_sink_ok, of sample_digest "\<lambda>r. ''1''" "(5, sample_event p)"]
  by (simp add: sample_rows_def sink_ok_def verified_iff)

lemma sample_hashes_agree:
  assumes "mset p = mset p'" and "distinct (map fst p)"
  shows "rp_lastHash (verifyAuditChain sample_digest (\<lambda>r. ''1'') (sample_rows p)) =
    rp_lastHash (verifyAuditChain sample_digest (\<lambda>r. ''1'') (sample_rows p'))"
proof -
  have "sortKeys (rowContent 1 (sample_event p) 5) = sortKeys (rowContent 1 (sample_event p') 5)"
    using content_payload [OF sortKeys_member_order [OF assms], of 1 "sample_event []" 5] by (simp add: sample_event_def)
  then show ?thesis
    by (simp add: reported_last sample_rows_def sink_step_def sink_append_def new_sink_def Let_def computeRowHash_def hash_input_def
        canonicalize_def del: sortKeys.simps)
qed


text \<open>
  What the hash does not cover: a payload member named \<^verbatim>\<open>__proto__\<close>, which the key-sorting copy turns into the prototype of the copy.
\<close>

theorem proto_member_unhashed:
  assumes "''__proto__'' \<notin> fst ` set p"
  shows "computeRowHash H num prev (rowContent seq (e\<lparr>ae_payload := Some ((''__proto__'', v) # p)\<rparr>) t)
    = computeRowHash H num prev (rowContent seq (e\<lparr>ae_payload := Some p\<rparr>) t)"
proof -
  have "filter (\<lambda>q. fst q \<noteq> ''__proto__'') (insort_key fst (''__proto__'', v) xs) = filter (\<lambda>q. fst q \<noteq> ''__proto__'') xs" for xs
    by (induction xs) auto
  then have "sortKeys (JObj ((''__proto__'', v) # p)) = sortKeys (JObj p)" by simp
  from content_payload [OF this] show ?thesis by (simp only: computeRowHash_def hash_input_def canonicalize_def)
qed

section \<open>Signed attestations\<close>

lemma j_number_inj: "sortKeys (j_number x) = sortKeys (j_number y) \<Longrightarrow> x = y"
  by (auto simp: j_number_def split: option.splits)

definition members :: "json \<Rightarrow> (string, json) jsmap" where
  "members v = (case v of JObj m \<Rightarrow> m | _ \<Rightarrow> [])"

lemma lookup_members:
  assumes "sortKeys (JObj (members v)) = sortKeys (JObj (members w))" and "distinct (map fst (members v))" and "distinct (map fst (members w))"
    and "k \<noteq> ''__proto__''"
  shows "map_option sortKeys (map_of (members v) k) = map_option sortKeys (map_of (members w) k)"
  using sortKeys_lookup_eq [OF assms(2,3,1,4)] .

lemma report_json_inj:
  assumes "sortKeys (report_json r) = sortKeys (report_json r')"
  shows "r = r'"
proof -
  have c: "report_json r = JObj (members (report_json r))" "distinct (map fst (members (report_json r)))" for r
    by (simp_all add: members_def report_json_def split: option.split)
  have "sortKeys (JObj (members (report_json r))) = sortKeys (JObj (members (report_json r')))"
    using assms by (simp only: c(1) [symmetric])
  note g = lookup_members [OF this c(2) c(2)]
  note f = members_def report_json_def
  have "rp_verified r = rp_verified r'" using g [of "''verified''"] by (simp add: f)
  moreover have "rp_count r = rp_count r'" using g [of "''count''"] by (simp add: f)
  moreover have "rp_firstSeq r = rp_firstSeq r'" using g [of "''firstSeq''"] by (auto simp: f dest: j_number_inj)
  moreover have "rp_lastSeq r = rp_lastSeq r'" using g [of "''lastSeq''"] by (auto simp: f dest: j_number_inj)
  moreover have "rp_firstHash r = rp_firstHash r'" using g [of "''firstHash''"] by (auto simp: f dest: j_nullable_inj)
  moreover have "rp_lastHash r = rp_lastHash r'" using g [of "''lastHash''"] by (auto simp: f dest: j_nullable_inj)
  moreover have "rp_firstAt r = rp_firstAt r'" using g [of "''firstAt''"] by (auto simp: f dest: j_nullable_inj)
  moreover have "rp_lastAt r = rp_lastAt r'" using g [of "''lastAt''"] by (auto simp: f dest: j_nullable_inj)
  moreover have "rp_brokenAtSeq r = rp_brokenAtSeq r'" using g [of "''brokenAtSeq''"] by (auto simp: f split: option.splits)
  ultimately show ?thesis by simp
qed

lemma attestation_json_inj:
  assumes "sortKeys (attestation_json a) = sortKeys (attestation_json a')"
  shows "a = a'"
proof -
  have c: "attestation_json a = JObj (members (attestation_json a))" "distinct (map fst (members (attestation_json a)))" for a
    by (simp_all add: members_def attestation_json_def split: option.split)
  have "sortKeys (JObj (members (attestation_json a))) = sortKeys (JObj (members (attestation_json a')))"
    using assms by (simp only: c(1) [symmetric])
  note g = lookup_members [OF this c(2) c(2)]
  note f = members_def attestation_json_def
  have "aa_tool a = aa_tool a'" using g [of "''tool''"] by (simp add: f)
  moreover have "aa_toolVersion a = aa_toolVersion a'" using g [of "''toolVersion''"] by (simp add: f)
  moreover have "aa_generatedAt a = aa_generatedAt a'" using g [of "''generatedAt''"] by (simp add: f)
  moreover have "aa_subject a = aa_subject a'" using g [of "''subject''"] by (auto simp: f split: option.splits)
  moreover have "aa_chain a = aa_chain a'" using g [of "''chain''"] by (auto simp: f dest: report_json_inj split: option.splits)
  ultimately show ?thesis by simp
qed

lemma numbers_in_attestation:
  assumes "num_ok num S" and "\<And>i. of_int i \<in> S"
  shows "numbers_in S (attestation_json a)"
  using assms(2) by (simp add: attestation_json_def report_json_def j_number_def j_nullable_def split: option.split)

lemma verifyAttestation_iff:
  "verifyAttestation hm num doc key \<longleftrightarrow>
     sa_algorithm doc = HMAC_SHA256
     \<and> hex_bytes (sa_signature doc) = hex_bytes (hm key (canonicalize num (attestation_json (sa_attestation doc))))"
  by (auto simp: verifyAttestation_def Let_def)

lemma attestation_bound:
  assumes "num_ok num \<int>" and "verifyAttestation hm num doc key" and "sa_signature doc = sa_signature (signAttestation hm num a key)"
  shows "sa_attestation doc = a \<or>
    (let x = canonicalize num (attestation_json (sa_attestation doc)); y = canonicalize num (attestation_json a)
     in x \<noteq> y \<and> hex_bytes (hm key x) = hex_bytes (hm key y))"
proof (cases "canonicalize num (attestation_json (sa_attestation doc)) = canonicalize num (attestation_json a)")
  case True
  then have "sa_attestation doc = a"
    by (intro attestation_json_inj canonicalize_inj [OF assms(1)] numbers_in_attestation [OF assms(1)]) simp_all
  then show ?thesis ..
next
  case False
  with assms show ?thesis by (simp add: Let_def verifyAttestation_iff signAttestation_def)
qed

text \<open>
  Attestations. What \<^verbatim>\<open>attestAuditChain\<close> issues carries the report of the chain and verifies under its key; a document that verifies
  under the key with the same signature states the same attestation, unless two attestation texts have the same
  HMAC. The public-key verifier never accepts an HMAC document and the HMAC verifier never one that was signed asymmetrically;
  an asymmetric document verifies when the runtime accepts what its signer signed and its algorithm is a known one.
\<close>

theorem attestation_sound:
  fixes issued :: SignedAttestation
  assumes "num_ok num \<int>"
    and signed: "\<And>hash d s. sign d = Some s \<Longrightarrow> nodeVerify hash d pem s = Inr True"
    and issued: "issued = attestAuditChain H hm num rows key subject version time"
  shows "verifyAttestation hm num issued key
    \<and> aa_chain (sa_attestation issued) = verifyAuditChain H num rows
    \<and> \<not> verifyAttestationWithPublicKey nodeVerify num issued pem
    \<and> (verifyAttestation hm num doc key \<longrightarrow> sa_signature doc = sa_signature issued \<longrightarrow>
         sa_attestation doc = sa_attestation issued \<or>
         (let x = canonicalize num (attestation_json (sa_attestation doc)); y = canonicalize num (attestation_json (sa_attestation issued))
          in x \<noteq> y \<and> hex_bytes (hm key x) = hex_bytes (hm key y)))
    \<and> (attestAuditChainAsync H num sign rows algorithm subject version time = Inr doc \<longrightarrow>
         \<not> verifyAttestation hm num doc key
         \<and> verifyAttestationWithPublicKey nodeVerify num doc pem = (ASYM_HASH algorithm \<noteq> None)
         \<and> aa_chain (sa_attestation doc) = verifyAuditChain H num rows)"
proof -
  define a where "a = buildAttestationDoc H num rows subject version time"
  have i: "issued = signAttestation hm num a key"
    by (simp add: issued a_def attestAuditChain_def buildAttestationDoc_def)
  have "verifyAttestation hm num issued key" by (simp add: i verifyAttestation_iff signAttestation_def)
  moreover have "aa_chain (sa_attestation issued) = verifyAuditChain H num rows"
    by (simp add: i signAttestation_def a_def buildAttestationDoc_def)
  moreover have "\<not> verifyAttestationWithPublicKey nodeVerify num issued pem"
    by (simp add: i signAttestation_def verifyAttestationWithPublicKey_def ASYM_HASH_def)
  moreover have "sa_attestation issued = a" by (simp add: i signAttestation_def)
  moreover have "\<not> verifyAttestation hm num doc key
      \<and> verifyAttestationWithPublicKey nodeVerify num doc pem = (ASYM_HASH algorithm \<noteq> None)
      \<and> aa_chain (sa_attestation doc) = verifyAuditChain H num rows"
    if "attestAuditChainAsync H num sign rows algorithm subject version time = Inr doc"
    using that signed
    by (auto simp: attestAuditChainAsync_def Let_def verifyAttestation_iff verifyAttestationWithPublicKey_def buildAttestationDoc_def
        split: if_splits option.splits)
  ultimately show ?thesis using attestation_bound [OF assms(1), of hm doc key a] i by simp
qed

lemma digit_number_char:
  assumes "is_digit c"
  shows "c \<in> number_chars"
proof -
  define n :: nat where "n = of_char c"
  have "48 \<le> n" "n \<le> 57" using assms by (simp_all add: is_digit_def n_def)
  then have "n \<in> {48, 49, 50, 51, 52, 53, 54, 55, 56, 57}" unfolding insert_iff empty_iff by presburger
  then have "(of_char c :: nat) \<in> {48, 49, 50, 51, 52, 53, 54, 55, 56, 57}" by (simp only: n_def)
  then show ?thesis
    unfolding number_chars_def by (elim insertE emptyE) (simp_all flip: of_char_eq_iff [where 'a = nat])
qed

lemma integer_text: "num_ok (\<lambda>r. show_int \<lfloor>r\<rfloor>) \<int>"
proof -
  have "set (show_nat n) \<subseteq> number_chars" for n
    using show_nat_digits [of n] digit_number_char by (auto simp: list_all_iff)
  moreover have "CHR ''-'' \<in> number_chars" by (simp add: number_chars_def)
  ultimately have "show_int i \<noteq> [] \<and> set (show_int i) \<subseteq> number_chars" for i
    by (simp add: show_int_def)
  moreover have "inj_on (\<lambda>r. show_int \<lfloor>r\<rfloor>) (\<int> :: real set)" by (auto simp: inj_on_def show_int_eq_iff elim!: Ints_cases)
  ultimately show ?thesis by (simp add: num_ok_def)
qed

theorem attestation_sound_witness:
  "verifyAttestation (\<lambda>k d. ''ab'') (\<lambda>r. show_int \<lfloor>r\<rfloor>)
     (attestAuditChain sample_digest (\<lambda>k d. ''ab'') (\<lambda>r. show_int \<lfloor>r\<rfloor>) [] ''k'' None ''1'' ''now'') ''k''"
  using attestation_sound [OF integer_text, where sign = "\<lambda>d. None", OF _ refl] by simp

end
