(* ===== verification/Audit_Mirror.thy ===== *)
theory Audit_Mirror
  imports Audit_Chain
begin

text \<open>
  The write-once mirror of the audit trail, \<^verbatim>\<open>packages/worm/src/batch.ts\<close>: signed batches of rows, their verification across batches, and the
  in-memory twin of the retained store. The digest, the signer and the verifier are arguments; the store is reached
  through the interface \<open>mirror_store\<close>.
\<close>

section \<open>Rows and batches\<close>

record MirroredRow =
  mi_seq :: int
  mi_orgId :: "string option"
  mi_actor :: "string option"
  mi_action :: string
  mi_target :: "string option"
  mi_payload :: "(string, json) jsmap"
  mi_prevHash :: "string option"
  mi_rowHash :: string
  mi_createdAt :: string

record MirrorBatch =
  mb_firstSeq :: int
  mb_lastSeq :: int
  mb_rows :: "MirroredRow list"
  mb_batchHash :: string
  mb_signature :: string

definition mirrored_json :: "MirroredRow \<Rightarrow> json" where
  "mirrored_json r =
     JObj [(''seq'', JNum (Num (of_int (mi_seq r)))), (''orgId'', j_nullable (mi_orgId r)), (''actor'', j_nullable (mi_actor r)),
           (''action'', JStr (mi_action r)), (''target'', j_nullable (mi_target r)), (''payload'', JObj (mi_payload r)),
           (''prevHash'', j_nullable (mi_prevHash r)), (''rowHash'', JStr (mi_rowHash r)), (''createdAt'', JStr (mi_createdAt r))]"

definition batchHash :: "digest \<Rightarrow> number_text \<Rightarrow> MirroredRow list \<Rightarrow> string" where
  "batchHash H num rows = H (canonicalize num (JArr (map mirrored_json rows)))"

datatype mirror_error = EmptyBatch | SignFailed | NoSuchObject string

definition buildBatch :: "digest \<Rightarrow> number_text \<Rightarrow> (string \<Rightarrow> string option) \<Rightarrow> MirroredRow list \<Rightarrow> mirror_error + MirrorBatch" where
  "buildBatch H num sign rows =
     (if rows = [] then Inl EmptyBatch
      else
        let hash = batchHash H num rows in
        case sign hash of
          None \<Rightarrow> Inl SignFailed
        | Some signature \<Rightarrow>
            Inr \<lparr>mb_firstSeq = mi_seq (hd rows), mb_lastSeq = mi_seq (last rows), mb_rows = rows, mb_batchHash = hash,
                 mb_signature = signature\<rparr>)"

section \<open>Verification\<close>

record MirrorVerifyResult =
  mv_ok :: bool
  mv_rows :: int
  mv_lastSeq :: int
  mv_reason :: "string option"

record mirror_walk =
  mw_prevHash :: "string option"
  mw_expectedSeq :: "int option"
  mw_count :: int
  mw_lastSeq :: int

definition mirror_fail :: "mirror_walk \<Rightarrow> string \<Rightarrow> MirrorVerifyResult" where
  "mirror_fail w reason = \<lparr>mv_ok = False, mv_rows = mw_count w, mv_lastSeq = mw_lastSeq w, mv_reason = Some reason\<rparr>"

fun walk_rows :: "MirroredRow list \<Rightarrow> mirror_walk \<Rightarrow> MirrorVerifyResult + mirror_walk" where
  "walk_rows [] w = Inr w"
| "walk_rows (row # rows) w =
     (if (case mw_expectedSeq w of None \<Rightarrow> False | Some e \<Rightarrow> mi_seq row \<noteq> e)
      then Inl (mirror_fail w (''seq gap at '' @ show_int (mi_seq row)))
      else if mi_prevHash row \<noteq> mw_prevHash w
      then Inl (mirror_fail w (''chain break at seq '' @ show_int (mi_seq row)))
      else walk_rows rows
        \<lparr>mw_prevHash = Some (mi_rowHash row), mw_expectedSeq = Some (mi_seq row + 1), mw_count = mw_count w + 1,
         mw_lastSeq = mi_seq row\<rparr>)"

fun walk_batches ::
  "digest \<Rightarrow> number_text \<Rightarrow> (string \<Rightarrow> string \<Rightarrow> bool) \<Rightarrow> MirrorBatch list \<Rightarrow> mirror_walk \<Rightarrow> MirrorVerifyResult" where
  "walk_batches H num verifier [] w = \<lparr>mv_ok = True, mv_rows = mw_count w, mv_lastSeq = mw_lastSeq w, mv_reason = None\<rparr>"
| "walk_batches H num verifier (b # bs) w =
     (if batchHash H num (mb_rows b) \<noteq> mb_batchHash b
      then mirror_fail w (''batch '' @ show_int (mb_firstSeq b) @ '': hash mismatch'')
      else if \<not> verifier (mb_batchHash b) (mb_signature b)
      then mirror_fail w (''batch '' @ show_int (mb_firstSeq b) @ '': bad signature'')
      else case walk_rows (mb_rows b) w of
        Inl r \<Rightarrow> r
      | Inr w' \<Rightarrow> walk_batches H num verifier bs w')"

definition walk_start :: mirror_walk where
  "walk_start = \<lparr>mw_prevHash = None, mw_expectedSeq = None, mw_count = 0, mw_lastSeq = 0\<rparr>"

fun fetch_all :: "(string \<Rightarrow> mirror_error + MirrorBatch) \<Rightarrow> string list \<Rightarrow> mirror_error + MirrorBatch list" where
  "fetch_all get [] = Inr []"
| "fetch_all get (r # rs) =
     (case get r of Inl e \<Rightarrow> Inl e | Inr b \<Rightarrow> map_sum (\<lambda>e. e) (\<lambda>bs. b # bs) (fetch_all get rs))"

definition verifyMirrorChain ::
  "digest \<Rightarrow> number_text \<Rightarrow> (string \<Rightarrow> string \<Rightarrow> bool) \<Rightarrow> string list \<Rightarrow> (string \<Rightarrow> mirror_error + MirrorBatch)
     \<Rightarrow> mirror_error + MirrorVerifyResult" where
  "verifyMirrorChain H num verifier refs get =
     map_sum (\<lambda>e. e) (\<lambda>batches. walk_batches H num verifier (sort_key mb_firstSeq batches) walk_start) (fetch_all get refs)"

section \<open>The in-memory mirror\<close>

type_synonym InMemoryAuditMirror = "(string, MirrorBatch) jsmap"

definition keyFor :: "MirrorBatch \<Rightarrow> string" where
  "keyFor b = ''audit/batch-'' @ padStart 12 (show_int (mb_firstSeq b)) @ ''-'' @ show_int (mb_lastSeq b) @ ''.json''"

definition mirror_put :: "MirrorBatch \<Rightarrow> InMemoryAuditMirror \<Rightarrow> InMemoryAuditMirror" where
  "mirror_put b m = jm_set (keyFor b) b m"

definition mirror_list :: "InMemoryAuditMirror \<Rightarrow> string list" where
  "mirror_list m = map fst m"

definition mirror_get :: "InMemoryAuditMirror \<Rightarrow> string \<Rightarrow> mirror_error + MirrorBatch" where
  "mirror_get m key = (case jm_get m key of None \<Rightarrow> Inl (NoSuchObject key) | Some b \<Rightarrow> Inr b)"

section \<open>What verification means\<close>

text \<open>Rows that link to each other and have consecutive numbers.\<close>

fun linked :: "string option \<Rightarrow> MirroredRow list \<Rightarrow> bool" where
  "linked p [] = True"
| "linked p (r # rs) = (mi_prevHash r = p \<and> linked (Some (mi_rowHash r)) rs)"

fun gapless :: "int option \<Rightarrow> MirroredRow list \<Rightarrow> bool" where
  "gapless e [] = True"
| "gapless e (r # rs) = ((case e of None \<Rightarrow> True | Some s \<Rightarrow> mi_seq r = s) \<and> gapless (Some (mi_seq r + 1)) rs)"

definition authentic :: "digest \<Rightarrow> number_text \<Rightarrow> (string \<Rightarrow> string \<Rightarrow> bool) \<Rightarrow> MirrorBatch \<Rightarrow> bool" where
  "authentic H num verifier b \<longleftrightarrow> mb_batchHash b = batchHash H num (mb_rows b) \<and> verifier (mb_batchHash b) (mb_signature b)"

definition walk_after :: "MirroredRow list \<Rightarrow> mirror_walk \<Rightarrow> mirror_walk" where
  "walk_after rows w =
     (if rows = [] then w
      else \<lparr>mw_prevHash = Some (mi_rowHash (last rows)), mw_expectedSeq = Some (mi_seq (last rows) + 1),
            mw_count = mw_count w + int (length rows), mw_lastSeq = mi_seq (last rows)\<rparr>)"

lemma walk_rows_ok:
  "linked (mw_prevHash w) rows \<and> gapless (mw_expectedSeq w) rows \<Longrightarrow> walk_rows rows w = Inr (walk_after rows w)"
  by (induction rows w rule: walk_rows.induct) (auto simp: walk_after_def split: option.splits)

lemma walk_rows_bad:
  "\<not> (linked (mw_prevHash w) rows \<and> gapless (mw_expectedSeq w) rows) \<Longrightarrow> \<exists>r. walk_rows rows w = Inl r \<and> \<not> mv_ok r"
  by (induction rows w rule: walk_rows.induct) (auto simp: mirror_fail_def split: option.splits)

lemma linked_append:
  "linked p (xs @ ys) \<longleftrightarrow> linked p xs \<and> linked (if xs = [] then p else Some (mi_rowHash (last xs))) ys"
  by (induction xs arbitrary: p) auto

lemma gapless_append:
  "gapless e (xs @ ys) \<longleftrightarrow> gapless e xs \<and> gapless (if xs = [] then e else Some (mi_seq (last xs) + 1)) ys"
  by (induction xs arbitrary: e) auto

lemma walk_after_append: "walk_after (xs @ ys) w = walk_after ys (walk_after xs w)"
  by (simp add: walk_after_def)

lemma walk_batches_iff:
  "mv_ok (walk_batches H num verifier bs w) \<longleftrightarrow>
     list_all (authentic H num verifier) bs
     \<and> linked (mw_prevHash w) (concat (map mb_rows bs)) \<and> gapless (mw_expectedSeq w) (concat (map mb_rows bs))"
proof (induction bs arbitrary: w)
  case (Cons b bs)
  show ?case
  proof (cases "linked (mw_prevHash w) (mb_rows b) \<and> gapless (mw_expectedSeq w) (mb_rows b)")
    case True
    with Cons walk_rows_ok [OF True] show ?thesis
      by (auto simp: authentic_def mirror_fail_def linked_append gapless_append walk_after_def)
  next
    case False
    with walk_rows_bad [OF False] show ?thesis by (auto simp: mirror_fail_def linked_append gapless_append)
  qed
qed simp

lemma walk_batches_ok:
  "mv_ok (walk_batches H num verifier bs w) \<Longrightarrow>
     walk_batches H num verifier bs w =
       \<lparr>mv_ok = True, mv_rows = mw_count (walk_after (concat (map mb_rows bs)) w),
        mv_lastSeq = mw_lastSeq (walk_after (concat (map mb_rows bs)) w), mv_reason = None\<rparr>"
proof (induction bs arbitrary: w)
  case (Cons b bs)
  have "linked (mw_prevHash w) (mb_rows b) \<and> gapless (mw_expectedSeq w) (mb_rows b)" and "authentic H num verifier b"
    using Cons.prems unfolding walk_batches_iff by (auto simp: linked_append gapless_append)
  then have "walk_batches H num verifier (b # bs) w = walk_batches H num verifier bs (walk_after (mb_rows b) w)"
    using walk_rows_ok [of w "mb_rows b"] by (auto simp: authentic_def)
  with Cons show ?case by (simp only: list.map concat.simps walk_after_append)
qed (simp add: walk_after_def)

text \<open>
  The verification of the mirror accepts exactly the batches whose hash recomputes and is signed and whose rows, read in the order of the
  batches' first numbers, link from an empty predecessor through every hash with consecutive numbers; it then reports
  their number and the last of them.
\<close>

theorem mirror_verify_iff:
  fixes bs :: "MirrorBatch list"
  assumes "fetch_all get refs = Inr bs"
  shows "\<exists>r. verifyMirrorChain H num verifier refs get = Inr r \<and>
    (let rows = concat (map mb_rows (sort_key mb_firstSeq bs)) in
     (mv_ok r \<longleftrightarrow> list_all (authentic H num verifier) bs \<and> linked None rows \<and> gapless None rows)
     \<and> (mv_ok r \<longrightarrow> mv_rows r = int (length rows) \<and> mv_lastSeq r = (if rows = [] then 0 else mi_seq (last rows))))"
proof -
  let ?bs = "sort_key mb_firstSeq bs"
  let ?r = "walk_batches H num verifier ?bs walk_start"
  have "list_all (authentic H num verifier) ?bs \<longleftrightarrow> list_all (authentic H num verifier) bs" by (simp add: list_all_iff)
  then have "mv_ok ?r \<longleftrightarrow> list_all (authentic H num verifier) bs
      \<and> linked None (concat (map mb_rows ?bs)) \<and> gapless None (concat (map mb_rows ?bs))"
    by (simp add: walk_batches_iff walk_start_def)
  moreover have "mv_ok ?r \<longrightarrow> mv_rows ?r = int (length (concat (map mb_rows ?bs)))
      \<and> mv_lastSeq ?r = (if concat (map mb_rows ?bs) = [] then 0 else mi_seq (last (concat (map mb_rows ?bs))))"
    using walk_batches_ok [of H num verifier ?bs walk_start] by (auto simp: walk_after_def walk_start_def)
  ultimately show ?thesis using assms by (simp add: verifyMirrorChain_def Let_def)
qed

theorem mirror_verify_iff_witness:
  "\<exists>r. verifyMirrorChain (\<lambda>x. ''d'') (\<lambda>r. ''1'') (\<lambda>d s. False) [] (mirror_get []) = Inr r \<and> mv_ok r \<and> mv_rows r = 0"
  using mirror_verify_iff [of "mirror_get []" "[]" "[]" "\<lambda>x. ''d''" "\<lambda>r. ''1''" "\<lambda>d s. False"] by auto

section \<open>The interface of the retained store\<close>

text \<open>
  What the mirror relies on: what was put can be listed and fetched, and a batch under a new key is added beside what is there.
  Batches whose first numbers differ have different keys.
\<close>

locale mirror_store =
  fixes put :: "MirrorBatch \<Rightarrow> 's \<Rightarrow> 's"
    and refs :: "'s \<Rightarrow> string list"
    and get :: "'s \<Rightarrow> string \<Rightarrow> mirror_error + MirrorBatch"
    and key :: "MirrorBatch \<Rightarrow> string"
    and store_ok :: "'s \<Rightarrow> bool"
  assumes put_ok: "store_ok s \<Longrightarrow> store_ok (put b s)"
    and put_new: "store_ok s \<Longrightarrow> fetch_all (get s) (refs s) = Inr bs \<Longrightarrow> key b \<notin> key ` set bs \<Longrightarrow>
      \<exists>bs'. fetch_all (get (put b s)) (refs (put b s)) = Inr bs' \<and> mset bs' = add_mset b (mset bs)"
    and key_first: "0 \<le> mb_firstSeq a \<Longrightarrow> 0 \<le> mb_firstSeq b \<Longrightarrow> key a = key b \<Longrightarrow> mb_firstSeq a = mb_firstSeq b"
begin

lemma put_all:
  assumes "store_ok s" and "fetch_all (get s) (refs s) = Inr bs" and "distinct (map mb_firstSeq (bs @ ps))"
    and "list_all (\<lambda>b. 0 \<le> mb_firstSeq b) (bs @ ps)"
  shows "\<exists>bs'. fetch_all (get (fold put ps s)) (refs (fold put ps s)) = Inr bs' \<and> mset bs' = mset (bs @ ps)"
  using assms
proof (induction ps arbitrary: s bs)
  case (Cons p ps)
  have "key p \<notin> key ` set bs"
  proof
    assume "key p \<in> key ` set bs"
    then obtain b where "b \<in> set bs" "key p = key b" by auto
    with key_first [of p b] Cons.prems(3,4) show False by (auto simp: list_all_iff)
  qed
  from put_new [OF Cons.prems(1,2) this] obtain bs' where
    bs': "fetch_all (get (put p s)) (refs (put p s)) = Inr bs'" "mset bs' = add_mset p (mset bs)" by blast
  have "set bs' = insert p (set bs)" using bs'(2) by (metis set_mset_add_mset_insert set_mset_mset)
  moreover have "mset (map mb_firstSeq (bs' @ ps)) = mset (map mb_firstSeq (bs @ p # ps))" using bs'(2) by simp
  then have "distinct (map mb_firstSeq (bs' @ ps))" using Cons.prems(3) mset_eq_imp_distinct_iff by blast
  ultimately show ?case
    using Cons.IH [OF put_ok [OF Cons.prems(1)] bs'(1)] Cons.prems(4) bs'(2) by (auto simp: list_all_iff)
qed simp

lemma mirrored_verifies:
  assumes "store_ok s" and "fetch_all (get s) (refs s) = Inr []"
    and "sorted_wrt (<) (map mb_firstSeq bs)" and "list_all (\<lambda>b. 0 \<le> mb_firstSeq b) bs" and "mset ps = mset bs"
    and "list_all (authentic H num verifier) bs"
    and "linked None (concat (map mb_rows bs))" and "gapless None (concat (map mb_rows bs))"
  shows "verifyMirrorChain H num verifier (refs (fold put ps s)) (get (fold put ps s)) =
    Inr \<lparr>mv_ok = True, mv_rows = int (length (concat (map mb_rows bs))),
         mv_lastSeq = (if concat (map mb_rows bs) = [] then 0 else mi_seq (last (concat (map mb_rows bs)))), mv_reason = None\<rparr>"
proof -
  have "distinct (map mb_firstSeq bs)" using assms(3) by (simp add: strict_sorted_iff)
  then have d: "distinct (map mb_firstSeq ps)" using assms(5) by (metis mset_eq_imp_distinct_iff mset_map)
  have n: "list_all (\<lambda>b. 0 \<le> mb_firstSeq b) ps" using assms(4,5) by (metis list_all_iff mset_eq_setD)
  from put_all [OF assms(1,2), of ps] d n obtain bs' where
    bs': "fetch_all (get (fold put ps s)) (refs (fold put ps s)) = Inr bs'" "mset bs' = mset ps" by auto
  have "sort_key mb_firstSeq bs' = bs"
  proof (rule sort_key_inj_key_eq)
    show "mset bs' = mset bs" using bs'(2) assms(5) by simp
    then show "inj_on mb_firstSeq (set bs')" using \<open>distinct (map mb_firstSeq bs)\<close> by (metis distinct_map mset_eq_setD)
    show "sorted (map mb_firstSeq bs)" using assms(3) by (simp add: strict_sorted_imp_sorted)
  qed
  moreover have "mv_ok (walk_batches H num verifier bs walk_start)"
    using assms(6-8) by (simp add: walk_batches_iff walk_start_def)
  ultimately show ?thesis
    using walk_batches_ok [of H num verifier bs walk_start] bs'(1)
    by (simp add: verifyMirrorChain_def walk_after_def walk_start_def)
qed

end

lemma fetch_stored: "jm_ok m \<Longrightarrow> fetch_all (mirror_get m) (mirror_list m) = Inr (map snd m)"
proof -
  have "set ks \<subseteq> set m \<Longrightarrow> jm_ok m \<Longrightarrow> fetch_all (mirror_get m) (map fst ks) = Inr (map snd ks)" for ks
    by (induction ks) (auto simp: mirror_get_def)
  then show "jm_ok m \<Longrightarrow> fetch_all (mirror_get m) (mirror_list m) = Inr (map snd m)" by (simp add: mirror_list_def)
qed

definition memory_mirror_ok :: "InMemoryAuditMirror \<Rightarrow> bool" where
  "memory_mirror_ok m \<longleftrightarrow> jm_ok m \<and> list_all (\<lambda>(k, b). k = keyFor b) m"

lemma keyFor_first:
  assumes "0 \<le> mb_firstSeq a" and "0 \<le> mb_firstSeq b" and "keyFor a = keyFor b"
  shows "mb_firstSeq a = mb_firstSeq b"
  using assms not_in_padStart [of _ "CHR ''-''" 12] padStart_inj
  by (simp add: keyFor_def sep_append_inj is_digit_def)

lemma jm_set_new: "k \<notin> fst ` set m \<Longrightarrow> jm_set k v m = m @ [(k, v)]"
  by (induction m) auto

lemma memory_mirror_put: "memory_mirror_ok m \<Longrightarrow> memory_mirror_ok (mirror_put b m)"
  using jm_set_mem [of m _ "keyFor b" b] by (fastforce simp: memory_mirror_ok_def mirror_put_def list_all_iff jm_ok_set)

interpretation memory_mirror: mirror_store mirror_put mirror_list mirror_get keyFor memory_mirror_ok
proof
  fix m :: InMemoryAuditMirror and b bs
  assume m: "memory_mirror_ok m" "fetch_all (mirror_get m) (mirror_list m) = Inr bs" "keyFor b \<notin> keyFor ` set bs"
  then have "bs = map snd m" using fetch_stored by (simp add: memory_mirror_ok_def)
  with m have "keyFor b \<notin> fst ` set m" by (force simp: memory_mirror_ok_def list_all_iff)
  moreover have "fetch_all (mirror_get (mirror_put b m)) (mirror_list (mirror_put b m)) = Inr (map snd (mirror_put b m))"
    using memory_mirror_put [OF m(1), of b] by (intro fetch_stored) (simp add: memory_mirror_ok_def)
  ultimately show "\<exists>bs'. fetch_all (mirror_get (mirror_put b m)) (mirror_list (mirror_put b m)) = Inr bs' \<and> mset bs' = add_mset b (mset bs)"
    using \<open>bs = map snd m\<close> by (simp add: mirror_put_def jm_set_new)
qed (auto intro: memory_mirror_put keyFor_first)

section \<open>Mirroring a chain\<close>

lemma gapless_lower: "gapless (Some e) rows \<Longrightarrow> r \<in> set rows \<Longrightarrow> e \<le> mi_seq r"
  by (induction rows arbitrary: e) (fastforce simp: add1_zle_eq)+

lemma built_sorted:
  assumes "gapless e (concat (map mb_rows bs))" and "list_all (\<lambda>b. mb_rows b \<noteq> [] \<and> mb_firstSeq b = mi_seq (hd (mb_rows b))) bs"
  shows "sorted_wrt (<) (map mb_firstSeq bs)"
  using assms
proof (induction bs arbitrary: e)
  case (Cons b bs)
  then obtain r rs where b: "mb_rows b = r # rs" "mb_firstSeq b = mi_seq r" by (cases "mb_rows b") auto
  have g: "gapless (Some (mi_seq r + 1)) (rs @ concat (map mb_rows bs))" using Cons.prems(1) b by simp
  have "mb_firstSeq b < mb_firstSeq c" if "c \<in> set bs" for c
  proof -
    have "mb_rows c \<noteq> []" and c: "mb_firstSeq c = mi_seq (hd (mb_rows c))" using Cons.prems(2) that by (auto simp: list_all_iff)
    then have "hd (mb_rows c) \<in> set (rs @ concat (map mb_rows bs))" using that by force
    from gapless_lower [OF g this] b c show ?thesis by simp
  qed
  moreover have "gapless (if rs = [] then Some (mi_seq r + 1) else Some (mi_seq (last rs) + 1)) (concat (map mb_rows bs))"
    using g by (simp add: gapless_append)
  ultimately show ?case using Cons.IH Cons.prems(2) by simp
qed simp

lemma built_batch:
  "buildBatch H num sign rows = Inr b \<Longrightarrow> (\<And>d s. sign d = Some s \<Longrightarrow> verifier d s) \<Longrightarrow>
     mb_rows b = rows \<and> rows \<noteq> [] \<and> mb_firstSeq b = mi_seq (hd rows) \<and> authentic H num verifier b"
  by (auto simp: buildBatch_def Let_def authentic_def split: if_splits option.splits)

lemma built_batches:
  assumes "\<And>d s. sign d = Some s \<Longrightarrow> verifier d s" and "list_all2 (\<lambda>rows b. buildBatch H num sign rows = Inr b) segs bs"
  shows "map mb_rows bs = segs \<and> list_all (\<lambda>b. mb_rows b \<noteq> [] \<and> mb_firstSeq b = mi_seq (hd (mb_rows b))) bs
    \<and> list_all (authentic H num verifier) bs"
  using assms(2) by (induction rule: list_all2_induct) (auto dest: built_batch [OF _ assms(1)])

text \<open>
  Mirroring round trip: cut a linked, gapless run of rows into non-empty segments, build and sign a batch of each and put them into the mirror in any order;
  the mirror then verifies, with every row counted and the last number reported.
\<close>

theorem mirror_roundtrip:
  assumes "\<And>d s. sign d = Some s \<Longrightarrow> verifier d s"
    and "list_all2 (\<lambda>rows b. buildBatch H num sign rows = Inr b) segs bs" and "mset ps = mset bs"
    and "linked None (concat segs)" and "gapless None (concat segs)" and "list_all (\<lambda>r. 0 \<le> mi_seq r) (concat segs)"
  shows "verifyMirrorChain H num verifier (mirror_list (fold mirror_put ps [])) (mirror_get (fold mirror_put ps [])) =
    Inr \<lparr>mv_ok = True, mv_rows = int (length (concat segs)),
         mv_lastSeq = (if concat segs = [] then 0 else mi_seq (last (concat segs))), mv_reason = None\<rparr>"
proof -
  have b: "map mb_rows bs = segs" "list_all (\<lambda>b. mb_rows b \<noteq> [] \<and> mb_firstSeq b = mi_seq (hd (mb_rows b))) bs"
    "list_all (authentic H num verifier) bs"
    using built_batches [of sign verifier, OF assms(1,2)] by simp_all
  have "sorted_wrt (<) (map mb_firstSeq bs)" by (rule built_sorted [of None]) (use b assms(5) in simp_all)
  moreover have "0 \<le> mb_firstSeq c" if "c \<in> set bs" for c
  proof -
    have "mb_rows c \<noteq> []" "mb_firstSeq c = mi_seq (hd (mb_rows c))" "mb_rows c \<in> set segs" using b that by (auto simp: list_all_iff)
    then show ?thesis using assms(6) hd_in_set by (fastforce simp: list_all_iff)
  qed
  ultimately show ?thesis
    using memory_mirror.mirrored_verifies [of "[]" bs ps H num verifier] b assms(3-5)
    by (simp add: memory_mirror_ok_def mirror_list_def list_all_iff)
qed

definition sample_mirrored :: "int \<Rightarrow> string option \<Rightarrow> string \<Rightarrow> MirroredRow" where
  "sample_mirrored n p h =
     \<lparr>mi_seq = n, mi_orgId = None, mi_actor = Some ''ann'', mi_action = ''key.create'', mi_target = None, mi_payload = [],
      mi_prevHash = p, mi_rowHash = h, mi_createdAt = ''t''\<rparr>"

theorem mirror_roundtrip_witness:
  "\<exists>a b. verifyMirrorChain (\<lambda>x. ''d'') (\<lambda>r. ''1'') (\<lambda>d s. s = ''sig'') (mirror_list (fold mirror_put [b, a] []))
       (mirror_get (fold mirror_put [b, a] [])) = Inr \<lparr>mv_ok = True, mv_rows = 2, mv_lastSeq = 2, mv_reason = None\<rparr>"
proof -
  let ?s = "[[sample_mirrored 1 None ''h1''], [sample_mirrored 2 (Some ''h1'') ''h2'']]"
  obtain a b where "list_all2 (\<lambda>rows b. buildBatch (\<lambda>x. ''d'') (\<lambda>r. ''1'') (\<lambda>d. Some ''sig'') rows = Inr b) ?s [a, b]"
    by (simp add: buildBatch_def Let_def)
  from mirror_roundtrip [where verifier = "\<lambda>d s. s = ''sig''", OF _ this, of "[b, a]"] show ?thesis
    by (auto simp: sample_mirrored_def)
qed

text \<open>
  What verification cannot see: a mirror whose newest batches are missing verifies like one that never had them. It reports the last number it saw, which the
  caller has to compare with the trail's.
\<close>

theorem mirror_truncation_verifies:
  assumes "mv_ok (walk_batches H num verifier (bs @ newest) walk_start)"
  shows "mv_ok (walk_batches H num verifier bs walk_start)"
  using assms by (simp add: walk_batches_iff linked_append gapless_append)

end
