(* ===== verification/Request_Log.thy ===== *)
theory Request_Log
  imports Js_Json Cost "HOL-Library.Product_Lexorder"
begin

text \<open>
  The request log and the spend ledger of \<^verbatim>\<open>packages/pipeline\<close>: entries and filters (\<^verbatim>\<open>ports.ts\<close>), the in-memory ledger and log with its paged search
  and usage rollup (\<^verbatim>\<open>memory.ts\<close>), and the batching writer in front of a sink (\<^verbatim>\<open>batching.ts\<close>). A cursor is the pair it
  encodes; instants are milliseconds.
\<close>

section \<open>Entries\<close>

datatype RequestStatus = StatusOk | StatusError | StatusAborted

record SpendRecord =
  sp_requestId :: string
  sp_principalId :: string
  sp_orgId :: string
  sp_workspaceId :: string
  sp_provider :: string
  sp_model :: string
  sp_cost :: CostBreakdown
  sp_costMicroUsd :: int
  sp_status :: RequestStatus
  sp_attributes :: "(string, json) jsmap option"
  sp_createdAt :: int

record RequestLogEntry =
  le_requestId :: string
  le_principalId :: string
  le_workspaceId :: string
  le_provider :: string
  le_model :: string
  le_route :: string
  le_statusCode :: int
  le_status :: RequestStatus
  le_streamed :: bool
  le_inputTokens :: int
  le_outputTokens :: int
  le_costMicroUsd :: int
  le_latencyMs :: int
  le_createdAt :: int
  le_servedRegion :: "string option"
  le_attributes :: "(string, json) jsmap option"

record StoredRequestLog =
  sl_entry :: RequestLogEntry
  sl_id :: string

record RequestLogFilter =
  lf_workspaceIds :: "string list option"
  lf_provider :: "string option"
  lf_model :: "string option"
  lf_status :: "RequestStatus option"
  lf_minStatusCode :: "int option"
  lf_from :: "int option"
  lf_to :: "int option"
  lf_limit :: "int option"
  lf_cursor :: "(int \<times> string) option"

record RequestLogPage =
  pg_entries :: "StoredRequestLog list"
  pg_nextCursor :: "(int \<times> string) option"

section \<open>The ledger\<close>

type_synonym InMemoryLedger = "SpendRecord list"

definition ledger_record :: "SpendRecord \<Rightarrow> InMemoryLedger \<Rightarrow> InMemoryLedger" where
  "ledger_record e l = l @ [e]"

definition totalMicroUsd :: "InMemoryLedger \<Rightarrow> int" where
  "totalMicroUsd l = foldl (\<lambda>sum e. sum + sp_costMicroUsd e) 0 l"

section \<open>The log\<close>

record InMemoryRequestLog =
  rq_entries :: "StoredRequestLog list"
  rq_seq :: int

definition new_log :: InMemoryRequestLog where
  "new_log = \<lparr>rq_entries = [], rq_seq = 0\<rparr>"

definition log_write :: "RequestLogEntry \<Rightarrow> InMemoryRequestLog \<Rightarrow> InMemoryRequestLog" where
  "log_write e l =
     (let n = rq_seq l + 1 in
      l\<lparr>rq_seq := n, rq_entries := rq_entries l @ [\<lparr>sl_entry = e, sl_id = ''log_'' @ padStart 12 (show_int n)\<rparr>]\<rparr>)"

definition log_writeBatch :: "RequestLogEntry list \<Rightarrow> InMemoryRequestLog \<Rightarrow> InMemoryRequestLog" where
  "log_writeBatch es l = foldl (\<lambda>l e. log_write e l) l es"

text \<open>An empty string or an absent option does not filter; \<^verbatim>\<open>from\<close> and \<^verbatim>\<open>to\<close> are dates, which are always truthy.\<close>

definition filters_text :: "string option \<Rightarrow> string \<Rightarrow> bool" where
  "filters_text f v = (case f of None \<Rightarrow> False | Some s \<Rightarrow> s \<noteq> [] \<and> v \<noteq> s)"

definition outside_workspaces :: "string list option \<Rightarrow> string \<Rightarrow> bool" where
  "outside_workspaces f v = (case f of None \<Rightarrow> False | Some ws \<Rightarrow> ws \<noteq> [] \<and> v \<notin> set ws)"

definition logMatches :: "StoredRequestLog \<Rightarrow> RequestLogFilter \<Rightarrow> bool" where
  "logMatches s f =
     (let e = sl_entry s in
      if outside_workspaces (lf_workspaceIds f) (le_workspaceId e) then False
      else if filters_text (lf_provider f) (le_provider e) then False
      else if filters_text (lf_model f) (le_model e) then False
      else if (case lf_status f of None \<Rightarrow> False | Some st \<Rightarrow> le_status e \<noteq> st) then False
      else if (case lf_minStatusCode f of None \<Rightarrow> False | Some m \<Rightarrow> le_statusCode e < m) then False
      else if (case lf_from f of None \<Rightarrow> False | Some t \<Rightarrow> le_createdAt e < t) then False
      else if (case lf_to f of None \<Rightarrow> False | Some t \<Rightarrow> t \<le> le_createdAt e) then False
      else True)"

text \<open>Newest first, then by id descending; a stable descending sort is an ascending one on the reversed list, reversed.\<close>

definition log_key :: "StoredRequestLog \<Rightarrow> int \<times> string" where
  "log_key s = (le_createdAt (sl_entry s), sl_id s)"

definition newest_first :: "StoredRequestLog list \<Rightarrow> StoredRequestLog list" where
  "newest_first rows = rev (sort_key log_key (rev rows))"

definition after_cursor :: "(int \<times> string) option \<Rightarrow> StoredRequestLog list \<Rightarrow> StoredRequestLog list" where
  "after_cursor c rows =
     (case c of
        None \<Rightarrow> rows
      | Some (ct, cid) \<Rightarrow>
          filter (\<lambda>s. le_createdAt (sl_entry s) < ct \<or> (le_createdAt (sl_entry s) = ct \<and> sl_id s < cid)) rows)"

definition search :: "RequestLogFilter \<Rightarrow> InMemoryRequestLog \<Rightarrow> RequestLogPage" where
  "search f l =
     (let limit = min (max (case lf_limit f of None \<Rightarrow> 50 | Some n \<Rightarrow> n) 1) 200;
          rows = after_cursor (lf_cursor f) (newest_first (filter (\<lambda>s. logMatches s f) (rq_entries l)));
          page = take (nat limit) rows
      in \<lparr>pg_entries = page,
          pg_nextCursor = (if limit < int (length rows) \<and> page \<noteq> [] then Some (log_key (last page)) else None)\<rparr>)"

definition log_get :: "string \<Rightarrow> InMemoryRequestLog \<Rightarrow> StoredRequestLog option" where
  "log_get requestId l = find (\<lambda>s. le_requestId (sl_entry s) = requestId) (rev (rq_entries l))"

section \<open>Usage\<close>

datatype UsageBucketWidth = Minute | Hour | Day
datatype UsageGroup = ByProvider | ByModel | ByWorkspace

record UsageQuery =
  uq_workspaceIds :: "string list option"
  uq_from :: int
  uq_to :: int
  uq_bucket :: UsageBucketWidth
  uq_groupBy :: "UsageGroup option"

record UsageBucket =
  ub_bucketStart :: string
  ub_group :: "string option"
  ub_requests :: int
  ub_inputTokens :: int
  ub_outputTokens :: int
  ub_costMicroUsd :: int
  ub_errorRate :: real
  ub_p95LatencyMs :: int

fun truncateBucket :: "int \<Rightarrow> UsageBucketWidth \<Rightarrow> int" where
  "truncateBucket t Minute = t - t mod 60000"
| "truncateBucket t Hour = t - t mod 3600000"
| "truncateBucket t Day = t - t mod DAY_MS"

text \<open>\<^verbatim>\<open>percentile\<close> at the rank \<^verbatim>\<open>Math.ceil(0.95 * n)\<close>.\<close>

definition percentile :: "int list \<Rightarrow> real \<Rightarrow> int" where
  "percentile values p =
     (if values = [] then 0
      else
        let sorted = sort values;
            rank = \<lceil>p * real (length sorted)\<rceil>;
            i = min rank (int (length sorted)) - 1
        in if 0 \<le> i \<and> i < int (length sorted) then sorted ! nat i else 0)"

definition usage_group :: "UsageGroup option \<Rightarrow> RequestLogEntry \<Rightarrow> string option" where
  "usage_group g e =
     (case g of
        Some ByProvider \<Rightarrow> Some (le_provider e)
      | Some ByModel \<Rightarrow> Some (le_model e)
      | Some ByWorkspace \<Rightarrow> Some (le_workspaceId e)
      | None \<Rightarrow> None)"

definition bucket_key :: "string \<Rightarrow> string option \<Rightarrow> string" where
  "bucket_key start g = start @ ''|'' @ (case g of None \<Rightarrow> [] | Some s \<Rightarrow> s)"

record usage_acc =
  ua_buckets :: "(string, UsageBucket) jsmap"
  ua_errors :: "(string, int) jsmap"
  ua_latencies :: "(string, int list) jsmap"

definition fresh_bucket :: "string \<Rightarrow> string option \<Rightarrow> UsageBucket" where
  "fresh_bucket start g =
     \<lparr>ub_bucketStart = start, ub_group = g, ub_requests = 0, ub_inputTokens = 0, ub_outputTokens = 0, ub_costMicroUsd = 0,
      ub_errorRate = 0, ub_p95LatencyMs = 0\<rparr>"

definition in_usage :: "UsageQuery \<Rightarrow> StoredRequestLog \<Rightarrow> bool" where
  "in_usage q s \<longleftrightarrow>
     \<not> (le_createdAt (sl_entry s) < uq_from q \<or> uq_to q \<le> le_createdAt (sl_entry s))
     \<and> \<not> outside_workspaces (uq_workspaceIds q) (le_workspaceId (sl_entry s))"

definition count_usage :: "UsageQuery \<Rightarrow> usage_acc \<Rightarrow> StoredRequestLog \<Rightarrow> usage_acc" where
  "count_usage q acc s =
     (if \<not> in_usage q s then acc
      else
        let e = sl_entry s;
            start = toISOString (truncateBucket (le_createdAt e) (uq_bucket q));
            g = usage_group (uq_groupBy q) e;
            key = bucket_key start g;
            b = (case jm_get (ua_buckets acc) key of None \<Rightarrow> fresh_bucket start g | Some b \<Rightarrow> b);
            b' = b\<lparr>ub_requests := ub_requests b + 1, ub_inputTokens := ub_inputTokens b + le_inputTokens e,
                   ub_outputTokens := ub_outputTokens b + le_outputTokens e, ub_costMicroUsd := ub_costMicroUsd b + le_costMicroUsd e\<rparr>
        in \<lparr>ua_buckets = jm_set key b' (ua_buckets acc),
            ua_errors =
              (if 400 \<le> le_statusCode e
               then jm_set key ((case jm_get (ua_errors acc) key of None \<Rightarrow> 0 | Some n \<Rightarrow> n) + 1) (ua_errors acc)
               else ua_errors acc),
            ua_latencies =
              jm_set key ((case jm_get (ua_latencies acc) key of None \<Rightarrow> [] | Some ls \<Rightarrow> ls) @ [le_latencyMs e]) (ua_latencies acc)\<rparr>)"

definition finish_bucket :: "usage_acc \<Rightarrow> string \<times> UsageBucket \<Rightarrow> UsageBucket" where
  "finish_bucket acc kb =
     (let (key, b) = kb in
      b\<lparr>ub_errorRate :=
          (if ub_requests b \<noteq> 0
           then real_of_int (case jm_get (ua_errors acc) key of None \<Rightarrow> 0 | Some n \<Rightarrow> n) / real_of_int (ub_requests b) else 0),
        ub_p95LatencyMs := percentile (case jm_get (ua_latencies acc) key of None \<Rightarrow> [] | Some ls \<Rightarrow> ls) (95 / 100)\<rparr>)"

definition usage :: "UsageQuery \<Rightarrow> InMemoryRequestLog \<Rightarrow> UsageBucket list" where
  "usage q l =
     (let acc = foldl (count_usage q) \<lparr>ua_buckets = [], ua_errors = [], ua_latencies = []\<rparr> (rq_entries l)
      in sort_key (\<lambda>b. (ub_bucketStart b, case ub_group b of None \<Rightarrow> [] | Some g \<Rightarrow> g)) (map (finish_bucket acc) (ua_buckets acc)))"

section \<open>Following the cursors\<close>

lemma newest_first_mset [simp]: "mset (newest_first rows) = mset rows"
  by (simp add: newest_first_def)

lemma newest_first_set [simp]: "set (newest_first rows) = set rows"
  by (simp add: newest_first_def)

lemma newest_first_sorted: "sorted_wrt (\<lambda>a b. log_key b \<le> log_key a) (newest_first rows)"
proof -
  have "sorted (map log_key (sort_key log_key (rev rows)))" by simp
  then have "sorted_wrt (\<lambda>a b. log_key a \<le> log_key b) (sort_key log_key (rev rows))" by (simp only: sorted_map)
  then show ?thesis by (simp add: newest_first_def sorted_wrt_rev)
qed

lemma after_cursor_key:
  "after_cursor c rows = (case c of None \<Rightarrow> rows | Some k \<Rightarrow> filter (\<lambda>s. log_key s < k) rows)"
  by (auto simp: after_cursor_def log_key_def less_prod_def intro!: filter_cong split: option.split)

definition page_size :: "RequestLogFilter \<Rightarrow> nat" where
  "page_size f = nat (min (max (case lf_limit f of None \<Rightarrow> 50 | Some n \<Rightarrow> n) 1) 200)"

lemma page_size_pos: "0 < page_size f"
  by (auto simp: page_size_def)

definition matching :: "RequestLogFilter \<Rightarrow> InMemoryRequestLog \<Rightarrow> StoredRequestLog list" where
  "matching f l = newest_first (filter (\<lambda>s. logMatches s f) (rq_entries l))"

lemma logMatches_cursor [simp]: "logMatches s (f\<lparr>lf_cursor := c\<rparr>) = logMatches s f"
  by (simp add: logMatches_def)

lemma page_size_cursor [simp]: "page_size (f\<lparr>lf_cursor := c\<rparr>) = page_size f"
  by (simp add: page_size_def)

lemma search_eq:
  "search (f\<lparr>lf_cursor := c\<rparr>) l =
     (let rows = after_cursor c (matching f l); page = take (page_size f) rows in
      \<lparr>pg_entries = page, pg_nextCursor = (if page_size f < length rows then Some (log_key (last page)) else None)\<rparr>)"
proof -
  have "take (page_size f) rows \<noteq> []" if "page_size f < length rows" for rows
    using that page_size_pos [of f] by (cases rows) auto
  moreover have "int (page_size f) = min (max (case lf_limit f of None \<Rightarrow> 50 | Some n \<Rightarrow> n) 1) 200"
    by (simp add: page_size_def max_def)
  ultimately show ?thesis
    by (auto simp: search_def matching_def Let_def page_size_def [symmetric] simp flip: nat_int_comparison)
qed

text \<open>The caller that asks for page after page.\<close>

function follow :: "RequestLogFilter \<Rightarrow> InMemoryRequestLog \<Rightarrow> (int \<times> string) option \<Rightarrow> StoredRequestLog list list" where
  "follow f l c =
     (let p = search (f\<lparr>lf_cursor := c\<rparr>) l in
      pg_entries p # (case pg_nextCursor p of None \<Rightarrow> [] | Some c' \<Rightarrow> follow f l (Some c')))"
  by pat_completeness auto

lemma cursor_progress:
  assumes "pg_nextCursor (search (f\<lparr>lf_cursor := c\<rparr>) l) = Some c'"
  shows "length (after_cursor (Some c') (matching f l)) < length (after_cursor c (matching f l))"
proof -
  define rows where "rows = after_cursor c (matching f l)"
  from assms have n: "page_size f < length rows" and c': "c' = log_key (last (take (page_size f) rows))"
    by (auto simp: search_eq Let_def rows_def split: if_splits)
  let ?x = "last (take (page_size f) rows)"
  have "take (page_size f) rows \<noteq> []" using n page_size_pos [of f] by auto
  then have x: "?x \<in> set rows" by (metis in_set_takeD last_in_set)
  have "after_cursor (Some c') (matching f l) = filter (\<lambda>s. log_key s < c') rows"
  proof (cases c)
    case (Some k)
    then have "c' < k" using x c' by (simp add: rows_def after_cursor_key)
    with Some show ?thesis by (auto simp: rows_def after_cursor_key intro!: filter_cong)
  qed (simp add: rows_def after_cursor_key)
  moreover have "length (filter (\<lambda>s. log_key s < c') rows) < length rows"
    using x c' length_filter_less [of ?x rows "\<lambda>s. log_key s < c'"] by simp
  ultimately show ?thesis by (simp add: rows_def)
qed

termination follow
  by (relation "measure (\<lambda>(f, l, c). length (after_cursor c (matching f l)))") (simp_all add: cursor_progress)

declare follow.simps [simp del]

lemma after_last:
  assumes "sorted_wrt (\<lambda>a b. log_key b < log_key a) rows" and "0 < n" and "n < length rows"
  shows "filter (\<lambda>s. log_key s < log_key (last (take n rows))) rows = drop n rows"
proof -
  have ne: "take n rows \<noteq> []" using assms by auto
  have split: "sorted_wrt (\<lambda>a b. log_key b < log_key a) (take n rows @ drop n rows)" using assms(1) by simp
  have 1: "\<not> log_key s < log_key (last (take n rows))" if "s \<in> set (take n rows)" for s
  proof -
    let ?t = "take n rows"
    have t: "?t = butlast ?t @ [last ?t]" using ne by simp
    have "sorted_wrt (\<lambda>a b. log_key b < log_key a) (butlast ?t @ [last ?t])" using split t sorted_wrt_append by metis
    moreover have "s \<in> set (butlast ?t) \<or> s = last ?t" using that t by (metis Un_iff empty_iff set_ConsD set_append empty_set)
    ultimately show ?thesis by (auto simp: sorted_wrt_append dest: less_asym)
  qed
  have 2: "log_key s < log_key (last (take n rows))" if "s \<in> set (drop n rows)" for s
    using split that last_in_set [OF ne] unfolding sorted_wrt_append by blast
  have "filter (\<lambda>s. log_key s < log_key (last (take n rows))) (take n rows @ drop n rows) = drop n rows"
    unfolding filter_append using 1 2 by (simp add: filter_empty_conv filter_id_conv)
  then show ?thesis by simp
qed

lemma follow_concat:
  assumes "sorted_wrt (\<lambda>a b. log_key b < log_key a) (matching f l)"
  shows "concat (follow f l c) = after_cursor c (matching f l)"
  using assms
proof (induction f l c rule: follow.induct)
  case (1 f l c)
  define rows where "rows = after_cursor c (matching f l)"
  have sorted: "sorted_wrt (\<lambda>a b. log_key b < log_key a) rows"
    using "1.prems" by (auto simp: rows_def after_cursor_key sorted_wrt_filter split: option.split)
  note p = search_eq [where f = f and c = c and l = l, folded rows_def, unfolded Let_def]
  show ?case
  proof (cases "page_size f < length rows")
    case False
    then show ?thesis by (subst follow.simps) (simp add: p rows_def [symmetric])
  next
    case True
    define k where "k = log_key (last (take (page_size f) rows))"
    have next_c: "pg_nextCursor (search (f\<lparr>lf_cursor := c\<rparr>) l) = Some k" using True by (simp add: p k_def)
    have "take (page_size f) rows \<noteq> []" using True page_size_pos [of f] by auto
    then have "last (take (page_size f) rows) \<in> set rows" by (metis in_set_takeD last_in_set)
    then have "after_cursor (Some k) (matching f l) = filter (\<lambda>s. log_key s < k) rows"
      by (cases c) (auto simp: rows_def after_cursor_key k_def intro!: filter_cong)
    also have "\<dots> = drop (page_size f) rows" unfolding k_def by (rule after_last [OF sorted page_size_pos True])
    finally have "concat (follow f l (Some k)) = drop (page_size f) rows"
      using "1.IH" [OF refl next_c "1.prems"] by simp
    then show ?thesis by (subst follow.simps) (simp add: next_c Let_def, simp add: p rows_def [symmetric])
  qed
qed

definition log_ids_ok :: "InMemoryRequestLog \<Rightarrow> bool" where
  "log_ids_ok l \<longleftrightarrow>
     0 \<le> rq_seq l \<and> distinct (map sl_id (rq_entries l))
     \<and> list_all (\<lambda>s. \<exists>n. 1 \<le> n \<and> n \<le> rq_seq l \<and> sl_id s = ''log_'' @ padStart 12 (show_int n)) (rq_entries l)"

lemma log_write_ids: "log_ids_ok l \<Longrightarrow> log_ids_ok (log_write e l)"
proof -
  assume l: "log_ids_ok l"
  have "''log_'' @ padStart 12 (show_int (rq_seq l + 1)) \<notin> set (map sl_id (rq_entries l))"
    using l padStart_inj [of "rq_seq l + 1" _ 12] by (fastforce simp: log_ids_ok_def list_all_iff)
  with l show ?thesis
    by (fastforce simp: log_ids_ok_def log_write_def Let_def list_all_iff)
qed

interpretation request_log: step_system "\<lambda>l e. log_write e l" log_ids_ok
  by unfold_locales (rule log_write_ids)

lemma written_ids: "log_ids_ok (log_writeBatch es new_log)"
  unfolding log_writeBatch_def by (rule request_log.run_inv) (simp add: log_ids_ok_def new_log_def)

lemma matching_strict:
  assumes "log_ids_ok l"
  shows "sorted_wrt (\<lambda>a b. log_key b < log_key a) (matching f l)"
proof -
  have "distinct (map sl_id (filter (\<lambda>s. logMatches s f) (rq_entries l)))"
    using assms by (simp add: log_ids_ok_def distinct_map_filter)
  then have "distinct (map sl_id (matching f l))"
    unfolding matching_def by (metis mset_eq_imp_distinct_iff mset_map newest_first_mset)
  then have "sorted_wrt (\<lambda>a b. sl_id a \<noteq> sl_id b) (matching f l)" by (simp add: distinct_conv_nth sorted_wrt_iff_nth_less)
  moreover have "sorted_wrt (\<lambda>a b. log_key b \<le> log_key a) (matching f l)" unfolding matching_def by (rule newest_first_sorted)
  moreover have "log_key b < log_key a" if "sl_id a \<noteq> sl_id b" "log_key b \<le> log_key a" for a b
    using that by (auto simp: log_key_def order_less_le)
  ultimately show ?thesis by (simp add: sorted_wrt_iff_nth_less)
qed

text \<open>
  Paging through the log ends, and the pages together are exactly the entries the filter matches, each once, newest first; no page is longer than the
  limit, which is at most 200.
\<close>

theorem log_paging_complete:
  "concat (follow f (log_writeBatch es new_log) None) = newest_first (filter (\<lambda>s. logMatches s f) (rq_entries (log_writeBatch es new_log)))
   \<and> distinct (concat (follow f (log_writeBatch es new_log) None))
   \<and> list_all (\<lambda>page. length page \<le> page_size f) (follow f (log_writeBatch es new_log) None) \<and> page_size f \<le> 200"
proof -
  let ?l = "log_writeBatch es new_log"
  have c: "concat (follow f ?l None) = matching f ?l"
    using follow_concat [OF matching_strict [OF written_ids], of f es None] by (simp add: after_cursor_key)
  have "distinct (matching f ?l)"
    using matching_strict [OF written_ids, of f es] by (fastforce simp: distinct_conv_nth sorted_wrt_iff_nth_less neq_iff)
  moreover have "list_all (\<lambda>page. length page \<le> page_size f) (follow f l c)" for f l c
    by (induction f l c rule: follow.induct) (subst follow.simps, simp add: search_eq Let_def)
  ultimately show ?thesis using c by (simp add: matching_def page_size_def)
qed

section \<open>The rollup accounts for every entry\<close>

definition entry_sum :: "UsageQuery \<Rightarrow> (RequestLogEntry \<Rightarrow> int) \<Rightarrow> StoredRequestLog list \<Rightarrow> int" where
  "entry_sum q g rows = sum_list (map (\<lambda>s. g (sl_entry s)) (filter (in_usage q) rows))"

definition requests_at :: "usage_acc \<Rightarrow> string \<Rightarrow> int" where
  "requests_at acc k = (case jm_get (ua_buckets acc) k of None \<Rightarrow> 0 | Some b \<Rightarrow> ub_requests b)"

definition errors_at :: "usage_acc \<Rightarrow> string \<Rightarrow> int" where
  "errors_at acc k = (case jm_get (ua_errors acc) k of None \<Rightarrow> 0 | Some n \<Rightarrow> n)"

definition usage_sums :: "UsageQuery \<Rightarrow> StoredRequestLog list \<Rightarrow> usage_acc \<Rightarrow> bool" where
  "usage_sums q seen acc \<longleftrightarrow>
     jm_ok (ua_buckets acc)
     \<and> jm_sum ub_requests (ua_buckets acc) = entry_sum q (\<lambda>e. 1) seen
     \<and> jm_sum ub_inputTokens (ua_buckets acc) = entry_sum q le_inputTokens seen
     \<and> jm_sum ub_outputTokens (ua_buckets acc) = entry_sum q le_outputTokens seen
     \<and> jm_sum ub_costMicroUsd (ua_buckets acc) = entry_sum q le_costMicroUsd seen"

lemma usage_sums_step: "usage_sums q seen acc \<Longrightarrow> usage_sums q (seen @ [s]) (count_usage q acc s)"
  by (cases "in_usage q s")
     (auto simp: usage_sums_def count_usage_def Let_def entry_sum_def jm_sum_set jm_ok_set fresh_bucket_def split: option.splits)

lemma rates_step:
  assumes "\<forall>k. 0 \<le> errors_at acc k \<and> errors_at acc k \<le> requests_at acc k"
  shows "\<forall>k. 0 \<le> errors_at (count_usage q acc s) k \<and> errors_at (count_usage q acc s) k \<le> requests_at (count_usage q acc s) k"
proof (cases "in_usage q s")
  case True
  define key where "key = bucket_key (toISOString (truncateBucket (le_createdAt (sl_entry s)) (uq_bucket q))) (usage_group (uq_groupBy q) (sl_entry s))"
  have "requests_at (count_usage q acc s) k = requests_at acc k + (if k = key then 1 else 0)" for k
    using True by (simp add: requests_at_def count_usage_def Let_def key_def jm_get_set fresh_bucket_def split: option.split)
  moreover have "errors_at (count_usage q acc s) k = errors_at acc k + (if k = key \<and> 400 \<le> le_statusCode (sl_entry s) then 1 else 0)" for k
    using True by (simp add: errors_at_def count_usage_def Let_def key_def jm_get_set)
  ultimately show ?thesis using assms by (simp add: add_increasing2 trans_le_add1 add_mono)
qed (use assms in \<open>simp add: count_usage_def\<close>)

lemma usage_run:
  defines "acc rows q \<equiv> foldl (count_usage q) \<lparr>ua_buckets = [], ua_errors = [], ua_latencies = []\<rparr> rows"
  shows "usage_sums q rows (acc rows q) \<and> (\<forall>k. 0 \<le> errors_at (acc rows q) k \<and> errors_at (acc rows q) k \<le> requests_at (acc rows q) k)"
proof (induction rows rule: rev_induct)
  case (snoc s rows)
  then show ?case using usage_sums_step rates_step by (simp add: acc_def)
qed (simp add: acc_def usage_sums_def entry_sum_def errors_at_def requests_at_def)

lemma finish_bucket_keeps [simp]:
  "ub_requests (finish_bucket acc (k, b)) = ub_requests b" "ub_inputTokens (finish_bucket acc (k, b)) = ub_inputTokens b"
  "ub_outputTokens (finish_bucket acc (k, b)) = ub_outputTokens b" "ub_costMicroUsd (finish_bucket acc (k, b)) = ub_costMicroUsd b"
  by (simp_all add: finish_bucket_def)

lemma sum_finished:
  assumes "\<And>k b. f (finish_bucket acc (k, b)) = f b"
  shows "sum_list (map f (sort_key g (map (finish_bucket acc) m))) = jm_sum f m"
proof -
  have "sum_list (map f (sort_key g (map (finish_bucket acc) m))) = sum_mset (mset (map f (map (finish_bucket acc) m)))"
    by (metis mset_map mset_sort sum_mset_sum_list)
  also have "\<dots> = sum_list (map f (map (finish_bucket acc) m))" by (rule sum_mset_sum_list)
  finally have "sum_list (map f (sort_key g (map (finish_bucket acc) m))) = sum_list (map f (map (finish_bucket acc) m))" .
  moreover have "f (finish_bucket acc x) = f (snd x)" for x using assms [of "fst x" "snd x"] by simp
  ultimately show ?thesis by (simp add: jm_sum_def comp_def)
qed

text \<open>
  The usage rollup accounts for every entry of the period and the workspaces asked for: over all buckets, the requests, the tokens and the cost
  sum to those of the entries, and every error rate lies between zero and one.
\<close>

theorem usage_conserves:
  "sum_list (map ub_requests (usage q l)) = entry_sum q (\<lambda>e. 1) (rq_entries l)
   \<and> sum_list (map ub_inputTokens (usage q l)) = entry_sum q le_inputTokens (rq_entries l)
   \<and> sum_list (map ub_outputTokens (usage q l)) = entry_sum q le_outputTokens (rq_entries l)
   \<and> sum_list (map ub_costMicroUsd (usage q l)) = entry_sum q le_costMicroUsd (rq_entries l)
   \<and> list_all (\<lambda>b. 0 \<le> ub_errorRate b \<and> ub_errorRate b \<le> 1) (usage q l)"
proof -
  define acc where "acc = foldl (count_usage q) \<lparr>ua_buckets = [], ua_errors = [], ua_latencies = []\<rparr> (rq_entries l)"
  have acc: "usage_sums q (rq_entries l) acc" "\<And>k. 0 \<le> errors_at acc k \<and> errors_at acc k \<le> requests_at acc k"
    using usage_run [of q "rq_entries l"] by (simp_all add: acc_def)
  have rate: "0 \<le> ub_errorRate (finish_bucket acc (k, b)) \<and> ub_errorRate (finish_bucket acc (k, b)) \<le> 1"
    if "(k, b) \<in> set (ua_buckets acc)" for k b
  proof -
    have "jm_get (ua_buckets acc) k = Some b" using that acc(1) by (simp add: usage_sums_def)
    then have "requests_at acc k = ub_requests b" by (simp only: requests_at_def option.case)
    with acc(2) [of k] show ?thesis
      by (simp add: finish_bucket_def errors_at_def [symmetric] divide_le_eq_1)
  qed
  have "usage q l = sort_key (\<lambda>b. (ub_bucketStart b, case ub_group b of None \<Rightarrow> [] | Some g \<Rightarrow> g)) (map (finish_bucket acc) (ua_buckets acc))"
    by (simp add: usage_def acc_def Let_def)
  with acc(1) rate show ?thesis
    by (simp add: sum_finished usage_sums_def list_all_iff split_paired_all)
qed

end
