(* ===== verification/Log_Batching.thy ===== *)
theory Log_Batching
  imports Request_Log
begin

text \<open>
  The batching writer of \<^verbatim>\<open>pipeline/src/batching.ts\<close>. A flush is asynchronous: it takes the buffer when it starts and completes, or
  fails, in a later step, so that writes, timer ticks and further flushes interleave with it. What the sink has received and which
  batches it lost are part of the state.
\<close>

section \<open>The writer\<close>

record log_writer =
  bw_buf :: "RequestLogEntry list"
  bw_timer :: bool
  bw_flushing :: "RequestLogEntry list option"
  bw_delivered :: "RequestLogEntry list list"
  bw_dropped :: "RequestLogEntry list list"

definition new_writer :: log_writer where
  "new_writer = \<lparr>bw_buf = [], bw_timer = False, bw_flushing = None, bw_delivered = [], bw_dropped = []\<rparr>"

definition arm :: "log_writer \<Rightarrow> log_writer" where
  "arm w = (if bw_timer w then w else w\<lparr>bw_timer := True\<rparr>)"

text \<open>\<^verbatim>\<open>flush\<close> up to its first \<^verbatim>\<open>await\<close>: \<open>bw_flushing\<close> is the flag and the batch the call holds.\<close>

definition flush_start :: "log_writer \<Rightarrow> log_writer" where
  "flush_start w0 =
     (let w = w0\<lparr>bw_timer := False\<rparr> in
      if bw_flushing w \<noteq> None \<or> bw_buf w = [] then w
      else w\<lparr>bw_flushing := Some (bw_buf w), bw_buf := []\<rparr>)"

text \<open>Its rest, once the sink has answered: \<open>ok\<close> or an error, which drops the batch and reports its size. A sink without a
  batch path may have taken a part of a batch it then refuses.\<close>

definition flush_end :: "bool \<Rightarrow> log_writer \<Rightarrow> log_writer" where
  "flush_end ok w0 =
     (case bw_flushing w0 of
        None \<Rightarrow> w0
      | Some batch \<Rightarrow>
          let w1 = (if ok then w0\<lparr>bw_delivered := bw_delivered w0 @ [batch]\<rparr> else w0\<lparr>bw_dropped := bw_dropped w0 @ [batch]\<rparr>);
              w2 = w1\<lparr>bw_flushing := None\<rparr>
          in if bw_buf w2 \<noteq> [] then arm w2 else w2)"

definition writer_write :: "int \<Rightarrow> RequestLogEntry \<Rightarrow> log_writer \<Rightarrow> log_writer" where
  "writer_write maxBatch e w0 =
     (let w = w0\<lparr>bw_buf := bw_buf w0 @ [e]\<rparr> in
      if maxBatch \<le> int (length (bw_buf w)) then flush_start w else arm w)"

definition backlog :: "log_writer \<Rightarrow> int" where
  "backlog w = int (length (bw_buf w))"

text \<open>\<^verbatim>\<open>close\<close>: the call of \<^verbatim>\<open>flush\<close>, and what follows it.\<close>

definition close_end :: "log_writer \<Rightarrow> log_writer" where
  "close_end w = w\<lparr>bw_timer := False\<rparr>"

section \<open>Runs\<close>

datatype writer_event = Write RequestLogEntry | TimerFires | FlushCalled | FlushDone bool

fun writer_step :: "int \<Rightarrow> log_writer \<Rightarrow> writer_event \<Rightarrow> log_writer" where
  "writer_step maxBatch w (Write e) = writer_write maxBatch e w"
| "writer_step maxBatch w TimerFires = (if bw_timer w then flush_start w else w)"
| "writer_step maxBatch w FlushCalled = flush_start w"
| "writer_step maxBatch w (FlushDone ok) = flush_end ok w"

fun written :: "writer_event list \<Rightarrow> RequestLogEntry list" where
  "written [] = []"
| "written (Write e # es) = e # written es"
| "written (_ # es) = written es"

text \<open>What a step moves: nothing leaves the writer but through a completed flush.\<close>

definition pending :: "log_writer \<Rightarrow> RequestLogEntry list" where
  "pending w = (case bw_flushing w of None \<Rightarrow> [] | Some b \<Rightarrow> b) @ bw_buf w"

definition writer_ok :: "log_writer \<Rightarrow> bool" where
  "writer_ok w \<longleftrightarrow>
     (bw_buf w \<noteq> [] \<longrightarrow> bw_timer w \<or> bw_flushing w \<noteq> None) \<and> bw_flushing w \<noteq> Some []
     \<and> [] \<notin> set (bw_delivered w) \<and> [] \<notin> set (bw_dropped w)"

lemma writer_step_ok: "writer_ok w \<Longrightarrow> writer_ok (writer_step maxBatch w e)"
  by (cases e) (auto simp: writer_ok_def writer_write_def flush_start_def flush_end_def arm_def Let_def split: option.splits)

interpretation batching: step_system "writer_step maxBatch" writer_ok for maxBatch
  by unfold_locales (rule writer_step_ok)

text \<open>The batches completed so far, in the order they completed, with their outcome.\<close>

fun completed :: "int \<Rightarrow> log_writer \<Rightarrow> writer_event list \<Rightarrow> (RequestLogEntry list \<times> bool) list" where
  "completed maxBatch w [] = []"
| "completed maxBatch w (e # es) =
     (case (e, bw_flushing w) of (FlushDone ok, Some b) \<Rightarrow> [(b, ok)] | _ \<Rightarrow> []) @ completed maxBatch (writer_step maxBatch w e) es"

lemma pending_step:
  "pending w @ written [e] =
     concat (map fst (case (e, bw_flushing w) of (FlushDone ok, Some b) \<Rightarrow> [(b, ok)] | _ \<Rightarrow> [])) @ pending (writer_step maxBatch w e)"
  by (cases e) (auto simp: pending_def writer_write_def flush_start_def flush_end_def arm_def Let_def split: option.splits)

lemma written_Cons: "written (e # es) = written [e] @ written es"
  by (cases e) simp_all

lemma pending_run: "pending w @ written es = concat (map fst (completed maxBatch w es)) @ pending (foldl (writer_step maxBatch) w es)"
proof (induction es arbitrary: w)
  case (Cons e es)
  show ?case
    using pending_step [of w e maxBatch] Cons.IH [of "writer_step maxBatch w e"]
    by (metis (no_types, lifting) append.assoc completed.simps(2) concat_append foldl_Cons map_append written_Cons)
qed simp

lemma outcomes_run:
  "bw_delivered (foldl (writer_step maxBatch) w es) = bw_delivered w @ map fst (filter snd (completed maxBatch w es))
   \<and> bw_dropped (foldl (writer_step maxBatch) w es) = bw_dropped w @ map fst (filter (Not \<circ> snd) (completed maxBatch w es))"
proof (induction es arbitrary: w)
  case (Cons e es)
  show ?case
    using Cons.IH [of "writer_step maxBatch w e"]
    by (cases e) (auto simp: writer_write_def flush_start_def flush_end_def arm_def Let_def split: option.splits)
qed simp

text \<open>
  C29. The batching writer loses and duplicates nothing of its own. In every interleaving of writes, timer ticks, flushes and answers of the sink, the batches
  flushed so far, the batch in flight and the buffer are together exactly what was written, in order; what was delivered is
  the batches the sink accepted and what was dropped those it refused; and a buffered entry always has a timer running or a flush in
  flight whose end starts one.
\<close>

theorem batching_conserves:
  fixes maxBatch :: int
  assumes "w = foldl (writer_step maxBatch) new_writer es" and "batches = completed maxBatch new_writer es"
  shows "written es = concat (map fst batches) @ (case bw_flushing w of None \<Rightarrow> [] | Some b \<Rightarrow> b) @ bw_buf w
    \<and> bw_delivered w = map fst (filter snd batches) \<and> bw_dropped w = map fst (filter (Not \<circ> snd) batches)
    \<and> (bw_buf w \<noteq> [] \<longrightarrow> bw_timer w \<or> bw_flushing w \<noteq> None)"
proof -
  have "writer_ok w" unfolding assms(1) by (rule batching.run_inv) (simp add: writer_ok_def new_writer_def)
  moreover have "written es = concat (map fst batches) @ pending w"
    using pending_run [of new_writer es maxBatch] by (simp add: assms pending_def new_writer_def)
  ultimately show ?thesis
    using outcomes_run [of maxBatch new_writer es] by (simp add: assms pending_def writer_ok_def new_writer_def)
qed

theorem batching_conserves_witness:
  fixes e :: RequestLogEntry
  defines "e \<equiv> \<lparr>le_requestId = ''r'', le_principalId = [], le_workspaceId = [], le_provider = [], le_model = [], le_route = [],
    le_statusCode = 200, le_status = StatusOk, le_streamed = False, le_inputTokens = 1, le_outputTokens = 1, le_costMicroUsd = 1,
    le_latencyMs = 1, le_createdAt = 1, le_servedRegion = None, le_attributes = None\<rparr>"
  shows "bw_delivered (foldl (writer_step 1) new_writer [Write e, Write e, FlushDone True]) = [[e]]"
  using batching_conserves [of _ 1 "[Write e, Write e, FlushDone True]", OF refl refl]
  by (simp add: writer_write_def flush_start_def new_writer_def flush_end_def arm_def Let_def)

text \<open>
  A writer closed while a flush is in flight keeps its buffer: the call returns at once, stops the timer, and what was written since the
  flush began is left behind.
\<close>

theorem close_strands_buffer:
  assumes "bw_flushing w = Some batch"
  shows "bw_buf (close_end (flush_start w)) = bw_buf w \<and> \<not> bw_timer (close_end (flush_start w))"
  using assms by (simp add: close_end_def flush_start_def Let_def)

end
