(* ===== verification/OAuth_Store.thy ===== *)
theory OAuth_Store
  imports Auth
begin

text \<open>
  The tokens, PKCE checks and stores of the OAuth broker, \<^verbatim>\<open>packages/oauth/src/tokens.ts\<close>, \<^verbatim>\<open>pkce.ts\<close> and \<^verbatim>\<open>stores.ts\<close>. The HMAC, the digest, the
  platform's URL parser and \<^verbatim>\<open>Number\<close> on strings are arguments; random handles and secrets are arguments of the operations that
  draw them. The contract a grant store keeps towards the broker is the locale \<open>grant_store\<close>.
\<close>

section \<open>Tokens\<close>

abbreviation AT_PREFIX :: string where
  "AT_PREFIX \<equiv> ''gko_at_''"

abbreviation RT_PREFIX :: string where
  "RT_PREFIX \<equiv> ''gko_rt_''"

record ParsedAccess =
  pa_handle :: string
  pa_secret :: string

record ParsedRefresh =
  pr_handle :: string
  pr_generation :: int
  pr_secret :: string

definition tokenHash :: "hmac \<Rightarrow> string \<Rightarrow> string \<Rightarrow> string" where
  "tokenHash hm pepper secret = hm pepper secret"

definition mintAccessToken :: "hmac \<Rightarrow> string \<Rightarrow> string \<Rightarrow> string \<Rightarrow> string \<times> string" where
  "mintAccessToken hm pepper handle secret = (AT_PREFIX @ handle @ ''.'' @ secret, tokenHash hm pepper secret)"

definition mintRefreshToken :: "hmac \<Rightarrow> string \<Rightarrow> string \<Rightarrow> int \<Rightarrow> string \<Rightarrow> string \<times> string" where
  "mintRefreshToken hm pepper handle generation secret =
     (RT_PREFIX @ handle @ ''.'' @ show_int generation @ ''.'' @ secret, tokenHash hm pepper secret)"

definition parseAccess :: "string \<Rightarrow> ParsedAccess option" where
  "parseAccess token =
     (if \<not> starts_with token AT_PREFIX then None
      else
        let rest = drop (length AT_PREFIX) token in
        case index_of (CHR ''.'') rest of
          None \<Rightarrow> None
        | Some i \<Rightarrow>
            if i = 0 \<or> i = length rest - 1 then None
            else Some \<lparr>pa_handle = take i rest, pa_secret = drop (i + 1) rest\<rparr>)"

type_synonym to_number = "string \<Rightarrow> jsnum"

definition parseRefresh :: "to_number \<Rightarrow> string \<Rightarrow> ParsedRefresh option" where
  "parseRefresh toNumber token =
     (if \<not> starts_with token RT_PREFIX then None
      else
        case split_on (CHR ''.'') (drop (length RT_PREFIX) token) of
          [handle, genStr, secret] \<Rightarrow>
            (case toNumber genStr of
               Num r \<Rightarrow>
                 if handle = [] \<or> secret = [] \<or> genStr = [] \<or> r \<noteq> of_int \<lfloor>r\<rfloor> \<or> r < 0 then None
                 else Some \<lparr>pr_handle = handle, pr_generation = \<lfloor>r\<rfloor>, pr_secret = secret\<rparr>
             | _ \<Rightarrow> None)
        | _ \<Rightarrow> None)"

definition verifyHash :: "hmac \<Rightarrow> string \<Rightarrow> string \<Rightarrow> string option \<Rightarrow> bool" where
  "verifyHash hm pepper secret expected =
     (case expected of
        None \<Rightarrow> False
      | Some h \<Rightarrow>
          if h = [] then False
          else let a = tokenHash hm pepper secret in length a = length h \<and> a = h)"

section \<open>PKCE and redirects\<close>

definition pkceVerifyS256 :: "(string \<Rightarrow> string) \<Rightarrow> string \<Rightarrow> string \<Rightarrow> bool" where
  "pkceVerifyS256 sha256 verifier challenge = (length (sha256 verifier) = length challenge \<and> sha256 verifier = challenge)"

record url_parts =
  u_protocol :: string
  u_hostname :: string
  u_username :: string
  u_password :: string
  u_search :: string
  u_hash :: string
  u_pathname :: string

definition validateLoopbackRedirect :: "(string \<Rightarrow> url_parts option) \<Rightarrow> string \<Rightarrow> string list \<Rightarrow> bool" where
  "validateLoopbackRedirect newURL redirectUri allowlist =
     (case newURL redirectUri of
        None \<Rightarrow> False
      | Some url \<Rightarrow>
          if u_protocol url \<noteq> ''http:'' then False
          else if u_hostname url \<notin> set [''127.0.0.1'', ''::1'', ''[::1]'', ''localhost''] then False
          else if u_username url \<noteq> [] \<or> u_password url \<noteq> [] \<or> u_search url \<noteq> [] \<or> u_hash url \<noteq> [] then False
          else u_pathname url \<in> set allowlist)"

section \<open>Grants\<close>

datatype GrantStatus = GrantActive | GrantRevoked
datatype GrantKind = UserGrant | ServiceGrant

record GrantScope =
  gs_allowedProviders :: allow_list
  gs_allowedModels :: allow_list
  gs_groups :: "string list option"

record Grant =
  g_handle :: string
  g_clientId :: string
  g_principalId :: string
  g_displayName :: string
  g_orgId :: string
  g_workspaceId :: string
  g_status :: GrantStatus
  g_accessTokenHash :: "string option"
  g_accessTokenExpiresAt :: int
  g_refreshTokenHash :: "string option"
  g_prevRefreshTokenHash :: "string option"
  g_refreshGeneration :: int
  g_absoluteExpiresAt :: int
  g_kind :: GrantKind
  g_federation :: "string option"
  g_subject :: "string option"
  g_scope :: "GrantScope option"
  g_onBehalfOf :: bool

record RotateFields =
  rf_accessTokenHash :: string
  rf_accessTokenExpiresAt :: int
  rf_refreshTokenHash :: string
  rf_prevRefreshTokenHash :: string
  rf_refreshGeneration :: int

type_synonym grant_map = "(string, Grant) jsmap"

definition grant_create :: "Grant \<Rightarrow> grant_map \<Rightarrow> grant_map" where
  "grant_create g m = jm_set (g_handle g) g m"

definition grant_get :: "string \<Rightarrow> grant_map \<Rightarrow> Grant option" where
  "grant_get handle m = jm_get m handle"

definition grant_revoke :: "string \<Rightarrow> grant_map \<Rightarrow> bool \<times> grant_map" where
  "grant_revoke handle m =
     (case jm_get m handle of
        None \<Rightarrow> (False, m)
      | Some g \<Rightarrow> (True, jm_set handle (g\<lparr>g_status := GrantRevoked\<rparr>) m))"

definition owned_active :: "string \<Rightarrow> Grant \<Rightarrow> bool" where
  "owned_active principalId g \<longleftrightarrow> g_principalId g = principalId \<and> g_status g = GrantActive"

definition grant_revokeByPrincipal :: "string \<Rightarrow> grant_map \<Rightarrow> int \<times> grant_map" where
  "grant_revokeByPrincipal principalId m =
     (int (length (filter (owned_active principalId \<circ> snd) m)),
      map (\<lambda>(h, g). (h, if owned_active principalId g then g\<lparr>g_status := GrantRevoked\<rparr> else g)) m)"

definition grant_setAccess :: "string \<Rightarrow> string \<Rightarrow> int \<Rightarrow> grant_map \<Rightarrow> grant_map" where
  "grant_setAccess handle hash expiresAt m =
     (case jm_get m handle of
        None \<Rightarrow> m
      | Some g \<Rightarrow> jm_set handle (g\<lparr>g_accessTokenHash := Some hash, g_accessTokenExpiresAt := expiresAt\<rparr>) m)"

definition rotated :: "RotateFields \<Rightarrow> Grant \<Rightarrow> Grant" where
  "rotated f g =
     g\<lparr>g_accessTokenHash := Some (rf_accessTokenHash f), g_accessTokenExpiresAt := rf_accessTokenExpiresAt f,
       g_refreshTokenHash := Some (rf_refreshTokenHash f), g_prevRefreshTokenHash := Some (rf_prevRefreshTokenHash f),
       g_refreshGeneration := rf_refreshGeneration f\<rparr>"

definition grant_rotate :: "string \<Rightarrow> int \<Rightarrow> RotateFields \<Rightarrow> grant_map \<Rightarrow> bool \<times> grant_map" where
  "grant_rotate handle expectedGen nxt m =
     (case jm_get m handle of
        None \<Rightarrow> (False, m)
      | Some g \<Rightarrow>
          if g_status g \<noteq> GrantActive \<or> g_refreshGeneration g \<noteq> expectedGen then (False, m)
          else (True, jm_set handle (rotated nxt g) m))"

section \<open>Device codes, authorization codes, clients\<close>

datatype DeviceStatus = DevPending | DevApproved | DevRedeemed | DevDenied

record DeviceCode =
  d_deviceCode :: string
  d_userCode :: string
  d_clientId :: string
  d_status :: DeviceStatus
  d_principalId :: "string option"
  d_displayName :: "string option"
  d_orgId :: "string option"
  d_workspaceId :: "string option"
  d_expiresAt :: int
  d_lastPolledAt :: int
  d_intervalMs :: int

record device_store =
  ds_byDevice :: "(string, DeviceCode) jsmap"
  ds_byUser :: "(string, string) jsmap"

definition device_create :: "DeviceCode \<Rightarrow> device_store \<Rightarrow> device_store" where
  "device_create d s =
     s\<lparr>ds_byDevice := jm_set (d_deviceCode d) d (ds_byDevice s), ds_byUser := jm_set (d_userCode d) (d_deviceCode d) (ds_byUser s)\<rparr>"

definition getByDeviceCode :: "string \<Rightarrow> device_store \<Rightarrow> DeviceCode option" where
  "getByDeviceCode deviceCode s = jm_get (ds_byDevice s) deviceCode"

definition getByUserCode :: "string \<Rightarrow> device_store \<Rightarrow> DeviceCode option" where
  "getByUserCode userCode s =
     (case jm_get (ds_byUser s) userCode of
        None \<Rightarrow> None
      | Some dc \<Rightarrow> if dc = [] then None else jm_get (ds_byDevice s) dc)"

definition device_update :: "string \<Rightarrow> (DeviceCode \<Rightarrow> DeviceCode) \<Rightarrow> device_store \<Rightarrow> device_store" where
  "device_update deviceCode patch s =
     (case jm_get (ds_byDevice s) deviceCode of
        None \<Rightarrow> s
      | Some d \<Rightarrow> s\<lparr>ds_byDevice := jm_set deviceCode (patch d) (ds_byDevice s)\<rparr>)"

definition device_transition :: "string \<Rightarrow> DeviceStatus \<Rightarrow> DeviceStatus \<Rightarrow> device_store \<Rightarrow> bool \<times> device_store" where
  "device_transition deviceCode st st2 s =
     (case jm_get (ds_byDevice s) deviceCode of
        None \<Rightarrow> (False, s)
      | Some d \<Rightarrow>
          if d_status d \<noteq> st then (False, s)
          else (True, s\<lparr>ds_byDevice := jm_set deviceCode (d\<lparr>d_status := st2\<rparr>) (ds_byDevice s)\<rparr>))"

record AuthCode =
  c_code :: string
  c_clientId :: string
  c_redirectUri :: string
  c_codeChallenge :: string
  c_principalId :: string
  c_displayName :: string
  c_orgId :: string
  c_workspaceId :: string
  c_expiresAt :: int

definition code_create :: "AuthCode \<Rightarrow> (string, AuthCode) jsmap \<Rightarrow> (string, AuthCode) jsmap" where
  "code_create c m = jm_set (c_code c) c m"

definition code_consume :: "string \<Rightarrow> (string, AuthCode) jsmap \<Rightarrow> AuthCode option \<times> (string, AuthCode) jsmap" where
  "code_consume code m = (case jm_get m code of None \<Rightarrow> (None, m) | Some c \<Rightarrow> (Some c, jm_delete code m))"

record OAuthClient =
  oc_clientId :: string
  oc_name :: string
  oc_orgId :: string
  oc_workspaceId :: string
  oc_grantTypes :: "string list"
  oc_redirectAllowlist :: "string list"
  oc_enabled :: bool

section \<open>The contract of a grant store\<close>

text \<open>
  What the broker relies on: a lookup sees what was created, a revoked grant stays revoked until its handle is created anew, and a rotation applies
  to an active grant of exactly the expected generation, and is then the only change.
\<close>

datatype grant_write =
    WCreate Grant
  | WRevoke string
  | WRevokeBy string
  | WRotate string int RotateFields

text \<open>A write the broker makes on a family it did not create: a rotation to the next generation, or a revocation.\<close>

fun spares :: "string \<Rightarrow> grant_write \<Rightarrow> bool" where
  "spares h (WCreate g) = (g_handle g \<noteq> h)"
| "spares h (WRotate k n f) = (rf_refreshGeneration f = n + 1)"
| "spares h _ = True"

locale grant_store =
  fixes create :: "Grant \<Rightarrow> 's \<Rightarrow> 's"
    and get :: "string \<Rightarrow> 's \<Rightarrow> Grant option"
    and revoke :: "string \<Rightarrow> 's \<Rightarrow> bool \<times> 's"
    and revokeBy :: "string \<Rightarrow> 's \<Rightarrow> int \<times> 's"
    and rotate :: "string \<Rightarrow> int \<Rightarrow> RotateFields \<Rightarrow> 's \<Rightarrow> bool \<times> 's"
  assumes get_create: "get h (create g s) = (if h = g_handle g then Some g else get h s)"
    and get_revoke: "get h (snd (revoke k s)) =
      (if h = k then map_option (\<lambda>g. g\<lparr>g_status := GrantRevoked\<rparr>) (get h s) else get h s)"
    and get_revokeBy: "get h (snd (revokeBy p s)) =
      map_option (\<lambda>g. if owned_active p g then g\<lparr>g_status := GrantRevoked\<rparr> else g) (get h s)"
    and rotate_applies: "fst (rotate k n f s) \<longleftrightarrow>
      (case get k s of None \<Rightarrow> False | Some g \<Rightarrow> g_status g = GrantActive \<and> g_refreshGeneration g = n)"
    and get_rotate: "get h (snd (rotate k n f s)) =
      (if h = k \<and> fst (rotate k n f s) then map_option (rotated f) (get h s) else get h s)"
begin

fun do_write :: "'s \<Rightarrow> grant_write \<Rightarrow> 's" where
  "do_write s (WCreate g) = create g s"
| "do_write s (WRevoke h) = snd (revoke h s)"
| "do_write s (WRevokeBy p) = snd (revokeBy p s)"
| "do_write s (WRotate h n f) = snd (rotate h n f s)"

lemmas laws = get_create get_revoke get_revokeBy rotate_applies get_rotate

definition at_least :: "string \<Rightarrow> int \<Rightarrow> 's \<Rightarrow> bool" where
  "at_least h n s \<longleftrightarrow> (case get h s of None \<Rightarrow> True | Some g \<Rightarrow> n \<le> g_refreshGeneration g)"

definition dead :: "string \<Rightarrow> 's \<Rightarrow> bool" where
  "dead h s \<longleftrightarrow> (case get h s of None \<Rightarrow> True | Some g \<Rightarrow> g_status g = GrantRevoked)"

lemma at_least_write: "at_least h n s \<Longrightarrow> spares h w \<Longrightarrow> at_least h n (do_write s w)"
  by (cases w) (auto simp: at_least_def laws rotated_def split: option.splits)

lemma dead_write: "dead h s \<Longrightarrow> spares h w \<Longrightarrow> dead h (do_write s w)"
  by (cases w) (auto simp: dead_def laws rotated_def split: option.splits)

lemma at_least_run: "at_least h n s \<Longrightarrow> list_all (spares h) ws \<Longrightarrow> at_least h n (foldl do_write s ws)"
  by (induction ws arbitrary: s) (simp_all add: at_least_write)

lemma dead_run: "dead h s \<Longrightarrow> list_all (spares h) ws \<Longrightarrow> dead h (foldl do_write s ws)"
  by (induction ws arbitrary: s) (simp_all add: dead_write)

text \<open>Optimistic concurrency: of the rotations that expect one generation, at most one applies, whatever happens in between.\<close>

lemma rotate_once:
  assumes "fst (rotate h n f s)" and "rf_refreshGeneration f = n + 1" and "list_all (spares h) ws"
  shows "\<not> fst (rotate h n f' (foldl do_write (snd (rotate h n f s)) ws))"
proof -
  have "at_least h (n + 1) (snd (rotate h n f s))"
    using assms(1,2) by (auto simp: at_least_def laws rotated_def split: option.splits)
  from at_least_run [OF this assms(3)] show ?thesis by (auto simp: rotate_applies at_least_def split: option.splits)
qed

lemma revoked_family:
  assumes "list_all (spares h) ws"
  shows "dead h (foldl do_write (snd (revoke h s)) ws)"
  using assms by (intro dead_run) (auto simp: dead_def laws split: option.splits)

end

lemma revokeByPrincipal_get:
  "jm_get (snd (grant_revokeByPrincipal p m)) h =
     map_option (\<lambda>g. if owned_active p g then g\<lparr>g_status := GrantRevoked\<rparr> else g) (jm_get m h)"
  by (induction m) (auto simp: grant_revokeByPrincipal_def)

interpretation memory_grants: grant_store grant_create grant_get grant_revoke grant_revokeByPrincipal grant_rotate
  by unfold_locales
     (auto simp: grant_create_def grant_get_def grant_revoke_def grant_rotate_def jm_get_set revokeByPrincipal_get
       split: option.splits)

end
