(* ===== verification/OAuth_Broker.thy ===== *)
theory OAuth_Broker
  imports OAuth_Store
begin

text \<open>
  The OAuth broker, \<^verbatim>\<open>packages/oauth/src/service.ts\<close>: device flow, authorization code with PKCE, refresh with reuse detection, revocation,
  introspection, the workload exchange and the data-plane resolution. Each method is a function of the time, the random values it draws and the
  answers it awaits. The refresh is split at its \<^verbatim>\<open>await\<close> of the identity provider: the plan is made on one state and carried out on a later one.
\<close>

section \<open>State and results\<close>

datatype OAuthErrorCode =
    InvalidRequest | InvalidGrant | InvalidClient | AuthorizationPending | SlowDown | ExpiredToken | AccessDenied
  | UnsupportedGrantType | ServerError

record TokenResponse =
  tr_access_token :: string
  tr_expires_in :: int
  tr_refresh_token :: "string option"

record BrokerConfig =
  bc_pepper :: string
  bc_accessTtlMs :: int
  bc_refreshTtlMs :: int
  bc_absoluteTtlMs :: int
  bc_deviceCodeTtlMs :: int
  bc_deviceIntervalMs :: int

record broker =
  bk_grants :: grant_map
  bk_devices :: device_store
  bk_codes :: "(string, AuthCode) jsmap"
  bk_clients :: "(string, OAuthClient) jsmap"
  bk_reuse :: "string list"

abbreviation JWT_BEARER_GRANT_TYPE :: string where
  "JWT_BEARER_GRANT_TYPE \<equiv> ''urn:ietf:params:oauth:grant-type:jwt-bearer''"

abbreviation WORKLOAD_CLIENT_ID :: string where
  "WORKLOAD_CLIENT_ID \<equiv> ''workload''"

abbreviation USER_CODE_ALPHABET :: string where
  "USER_CODE_ALPHABET \<equiv> ''BCDFGHJKLMNPQRSTVWXZ0123456789''"

definition genUserCode :: "nat list \<Rightarrow> string" where
  "genUserCode bytes =
     (let s = map (\<lambda>i. USER_CODE_ALPHABET ! ((if i < length bytes then bytes ! i else 0) mod length USER_CODE_ALPHABET)) [0..<8]
      in take 4 s @ ''-'' @ drop 4 s)"

definition upper_char :: "char \<Rightarrow> char" where
  "upper_char c = (let n = (of_char c :: nat) in if 97 \<le> n \<and> n \<le> 122 then char_of (n - 32) else c)"

definition code_char :: "char \<Rightarrow> bool" where
  "code_char c = (let n = (of_char c :: nat) in (65 \<le> n \<and> n \<le> 90) \<or> (48 \<le> n \<and> n \<le> 57))"

definition normalizeUserCode :: "string \<Rightarrow> string" where
  "normalizeUserCode input =
     (let raw = filter code_char (map upper_char input)
      in if length raw = 8 then take 4 raw @ ''-'' @ drop 4 raw else map upper_char (js_trim input))"

section \<open>Issuing\<close>

record grant_base =
  gb_clientId :: string
  gb_principalId :: string
  gb_displayName :: string
  gb_orgId :: string
  gb_workspaceId :: string

record fresh =
  fr_handle :: string
  fr_access :: string
  fr_refresh :: string

definition user_grant :: "hmac \<Rightarrow> BrokerConfig \<Rightarrow> int \<Rightarrow> fresh \<Rightarrow> grant_base \<Rightarrow> Grant" where
  "user_grant hm cfg now f base =
     \<lparr>g_handle = fr_handle f, g_clientId = gb_clientId base, g_principalId = gb_principalId base,
      g_displayName = gb_displayName base, g_orgId = gb_orgId base, g_workspaceId = gb_workspaceId base,
      g_status = GrantActive,
      g_accessTokenHash = Some (snd (mintAccessToken hm (bc_pepper cfg) (fr_handle f) (fr_access f))),
      g_accessTokenExpiresAt = now + bc_accessTtlMs cfg,
      g_refreshTokenHash = Some (snd (mintRefreshToken hm (bc_pepper cfg) (fr_handle f) 1 (fr_refresh f))),
      g_prevRefreshTokenHash = None, g_refreshGeneration = 1,
      g_absoluteExpiresAt = now + bc_absoluteTtlMs cfg, g_kind = UserGrant, g_federation = None, g_subject = None,
      g_scope = None, g_onBehalfOf = False\<rparr>"

definition issueGrant :: "hmac \<Rightarrow> BrokerConfig \<Rightarrow> int \<Rightarrow> fresh \<Rightarrow> grant_base \<Rightarrow> broker \<Rightarrow> TokenResponse \<times> broker" where
  "issueGrant hm cfg now f base b =
     (\<lparr>tr_access_token = fst (mintAccessToken hm (bc_pepper cfg) (fr_handle f) (fr_access f)),
       tr_expires_in = bc_accessTtlMs cfg div 1000,
       tr_refresh_token = Some (fst (mintRefreshToken hm (bc_pepper cfg) (fr_handle f) 1 (fr_refresh f)))\<rparr>,
      b\<lparr>bk_grants := grant_create (user_grant hm cfg now f base) (bk_grants b)\<rparr>)"

section \<open>Workload exchange\<close>

record FederatedIdentity =
  fi_federation :: string
  fi_subject :: string
  fi_principalId :: string
  fi_displayName :: string
  fi_orgId :: string
  fi_workspaceId :: string
  fi_scope :: GrantScope
  fi_ttlSeconds :: int
  fi_onBehalfOf :: bool

record jwt_client =
  jc_clientId :: string
  jc_tenancy :: "(string \<times> string) option"

definition resolveJwtBearerClient :: "string option \<Rightarrow> broker \<Rightarrow> jwt_client option" where
  "resolveJwtBearerClient requested b =
     (let cid = (case requested of Some r \<Rightarrow> if r = [] then WORKLOAD_CLIENT_ID else r | None \<Rightarrow> WORKLOAD_CLIENT_ID)
      in case jm_get (bk_clients b) cid of
           Some c \<Rightarrow>
             if \<not> oc_enabled c \<or> JWT_BEARER_GRANT_TYPE \<notin> set (oc_grantTypes c) then None
             else Some \<lparr>jc_clientId = oc_clientId c, jc_tenancy = Some (oc_orgId c, oc_workspaceId c)\<rparr>
         | None \<Rightarrow>
             if cid = WORKLOAD_CLIENT_ID then Some \<lparr>jc_clientId = WORKLOAD_CLIENT_ID, jc_tenancy = None\<rparr> else None)"

definition service_grant :: "hmac \<Rightarrow> BrokerConfig \<Rightarrow> int \<Rightarrow> fresh \<Rightarrow> string \<Rightarrow> FederatedIdentity \<Rightarrow> Grant" where
  "service_grant hm cfg now f clientId i =
     (let expiresAt = now + fi_ttlSeconds i * 1000 in
      \<lparr>g_handle = fr_handle f, g_clientId = clientId, g_principalId = fi_principalId i,
       g_displayName = fi_displayName i, g_orgId = fi_orgId i, g_workspaceId = fi_workspaceId i,
       g_status = GrantActive,
       g_accessTokenHash = Some (snd (mintAccessToken hm (bc_pepper cfg) (fr_handle f) (fr_access f))),
       g_accessTokenExpiresAt = expiresAt, g_refreshTokenHash = None, g_prevRefreshTokenHash = None, g_refreshGeneration = 0,
       g_absoluteExpiresAt = expiresAt, g_kind = ServiceGrant, g_federation = Some (fi_federation i),
       g_subject = Some (fi_subject i), g_scope = Some (fi_scope i), g_onBehalfOf = fi_onBehalfOf i\<rparr>)"

definition issueServiceGrant ::
  "hmac \<Rightarrow> BrokerConfig \<Rightarrow> int \<Rightarrow> fresh \<Rightarrow> string \<Rightarrow> FederatedIdentity \<Rightarrow> broker \<Rightarrow> TokenResponse \<times> broker" where
  "issueServiceGrant hm cfg now f clientId i b =
     (\<lparr>tr_access_token = fst (mintAccessToken hm (bc_pepper cfg) (fr_handle f) (fr_access f)),
       tr_expires_in = fi_ttlSeconds i, tr_refresh_token = None\<rparr>,
      b\<lparr>bk_grants := grant_create (service_grant hm cfg now f clientId i) (bk_grants b)\<rparr>)"

text \<open>The verifier, where one is wired, answers with a reason or the identity its federation admits.\<close>

definition tokenJwtBearer ::
  "hmac \<Rightarrow> BrokerConfig \<Rightarrow> int \<Rightarrow> fresh \<Rightarrow> (string \<Rightarrow> string option \<Rightarrow> string + FederatedIdentity) option
     \<Rightarrow> string \<Rightarrow> string option \<Rightarrow> string option \<Rightarrow> broker \<Rightarrow> (OAuthErrorCode + TokenResponse) \<times> broker" where
  "tokenJwtBearer hm cfg now f verifier assertion clientId audience b =
     (case verifier of
        None \<Rightarrow> (Inl UnsupportedGrantType, b)
      | Some verify \<Rightarrow>
          if assertion = [] then (Inl InvalidRequest, b)
          else case resolveJwtBearerClient clientId b of
            None \<Rightarrow> (Inl InvalidClient, b)
          | Some client \<Rightarrow>
              (case verify assertion audience of
                 Inl reason \<Rightarrow> (Inl InvalidGrant, b)
               | Inr i \<Rightarrow>
                   if (case jc_tenancy client of None \<Rightarrow> False | Some (org, ws) \<Rightarrow> fi_orgId i \<noteq> org \<or> fi_workspaceId i \<noteq> ws)
                   then (Inl InvalidClient, b)
                   else map_prod Inr (\<lambda>b. b) (issueServiceGrant hm cfg now f (jc_clientId client) i b)))"

section \<open>Device flow\<close>

type_synonym consent_guard = "string \<Rightarrow> string \<Rightarrow> string \<Rightarrow> bool"

record device_answer =
  da_device_code :: string
  da_user_code :: string
  da_verification_uri :: string
  da_verification_uri_complete :: string
  da_expires_in :: int
  da_interval :: int

definition deviceAuthorization ::
  "BrokerConfig \<Rightarrow> int \<Rightarrow> (string \<Rightarrow> string) \<Rightarrow> string \<Rightarrow> string \<Rightarrow> string \<Rightarrow> string option \<Rightarrow> broker
     \<Rightarrow> (OAuthErrorCode + device_answer) \<times> broker" where
  "deviceAuthorization cfg now encodeURI deviceCode userCode clientId uri b =
     (case jm_get (bk_clients b) clientId of
        None \<Rightarrow> (Inl InvalidClient, b)
      | Some client \<Rightarrow>
          if \<not> oc_enabled client \<or> ''device_code'' \<notin> set (oc_grantTypes client) then (Inl InvalidClient, b)
          else
            let d = \<lparr>d_deviceCode = deviceCode, d_userCode = userCode, d_clientId = clientId, d_status = DevPending,
                     d_principalId = None, d_displayName = None, d_orgId = None, d_workspaceId = None, d_expiresAt = now + bc_deviceCodeTtlMs cfg,
                     d_lastPolledAt = 0, d_intervalMs = bc_deviceIntervalMs cfg\<rparr>;
                v = (case uri of None \<Rightarrow> ''/oauth/device'' | Some u \<Rightarrow> u);
                sep = (if CHR ''?'' \<in> set v then ''&'' else ''?'')
            in (Inr \<lparr>da_device_code = deviceCode, da_user_code = userCode, da_verification_uri = v,
                     da_verification_uri_complete = v @ sep @ ''user_code='' @ encodeURI userCode,
                     da_expires_in = bc_deviceCodeTtlMs cfg div 1000, da_interval = bc_deviceIntervalMs cfg div 1000\<rparr>,
                b\<lparr>bk_devices := device_create d (bk_devices b)\<rparr>))"

text \<open>The lookup the three consent methods share.\<close>

definition pending_device :: "int \<Rightarrow> string \<Rightarrow> broker \<Rightarrow> OAuthErrorCode + DeviceCode" where
  "pending_device now userCode b =
     (case getByUserCode (normalizeUserCode userCode) (bk_devices b) of
        None \<Rightarrow> Inl InvalidRequest
      | Some d \<Rightarrow>
          if d_expiresAt d \<le> now then Inl ExpiredToken
          else if d_status d \<noteq> DevPending then Inl InvalidRequest
          else Inr d)"

definition consent_check :: "consent_guard option \<Rightarrow> string \<Rightarrow> broker \<Rightarrow> OAuthErrorCode option" where
  "consent_check guard clientId b =
     (case guard of
        None \<Rightarrow> None
      | Some allow \<Rightarrow>
          (case jm_get (bk_clients b) clientId of
             None \<Rightarrow> Some InvalidClient
           | Some c \<Rightarrow> if allow (oc_clientId c) (oc_orgId c) (oc_workspaceId c) then None else Some AccessDenied))"

record DevicePreview =
  dp_clientId :: string
  dp_clientName :: string
  dp_orgId :: string
  dp_workspaceId :: string
  dp_expiresAt :: int

definition devicePreview :: "int \<Rightarrow> string \<Rightarrow> broker \<Rightarrow> OAuthErrorCode + DevicePreview" where
  "devicePreview now userCode b =
     (case pending_device now userCode b of
        Inl e \<Rightarrow> Inl e
      | Inr d \<Rightarrow>
          (case jm_get (bk_clients b) (d_clientId d) of
             None \<Rightarrow> Inl InvalidClient
           | Some c \<Rightarrow>
               Inr \<lparr>dp_clientId = oc_clientId c, dp_clientName = oc_name c, dp_orgId = oc_orgId c,
                    dp_workspaceId = oc_workspaceId c, dp_expiresAt = d_expiresAt d\<rparr>))"

definition deviceDeny :: "int \<Rightarrow> string \<Rightarrow> consent_guard option \<Rightarrow> broker \<Rightarrow> (OAuthErrorCode + unit) \<times> broker" where
  "deviceDeny now userCode guard b =
     (case pending_device now userCode b of
        Inl e \<Rightarrow> (Inl e, b)
      | Inr d \<Rightarrow>
          (case consent_check guard (d_clientId d) b of
             Some e \<Rightarrow> (Inl e, b)
           | None \<Rightarrow>
               let (moved, ds) = device_transition (d_deviceCode d) DevPending DevDenied (bk_devices b)
               in if moved then (Inr (), b\<lparr>bk_devices := ds\<rparr>) else (Inl InvalidRequest, b)))"

definition approve_patch :: "string \<Rightarrow> string \<Rightarrow> DeviceCode \<Rightarrow> DeviceCode" where
  "approve_patch subject displayName d =
     d\<lparr>d_status := DevApproved, d_principalId := Some subject, d_displayName := Some displayName\<rparr>"

definition deviceApprove ::
  "int \<Rightarrow> string \<Rightarrow> string \<Rightarrow> string \<Rightarrow> consent_guard option \<Rightarrow> broker \<Rightarrow> (OAuthErrorCode + unit) \<times> broker" where
  "deviceApprove now userCode subject displayName guard b =
     (case pending_device now userCode b of
        Inl e \<Rightarrow> (Inl e, b)
      | Inr d \<Rightarrow>
          (case consent_check guard (d_clientId d) b of
             Some e \<Rightarrow> (Inl e, b)
           | None \<Rightarrow>
               (Inr (), b\<lparr>bk_devices := device_update (d_deviceCode d) (approve_patch subject displayName) (bk_devices b)\<rparr>)))"

definition polled :: "int \<Rightarrow> string \<Rightarrow> broker \<Rightarrow> broker" where
  "polled now deviceCode b = b\<lparr>bk_devices := device_update deviceCode (\<lambda>d. d\<lparr>d_lastPolledAt := now\<rparr>) (bk_devices b)\<rparr>"

definition tokenDeviceCode ::
  "hmac \<Rightarrow> BrokerConfig \<Rightarrow> int \<Rightarrow> fresh \<Rightarrow> string \<Rightarrow> string \<Rightarrow> broker \<Rightarrow> (OAuthErrorCode + TokenResponse) \<times> broker" where
  "tokenDeviceCode hm cfg now f deviceCode clientId b0 =
     (case getByDeviceCode deviceCode (bk_devices b0) of
        None \<Rightarrow> (Inl InvalidGrant, b0)
      | Some d \<Rightarrow>
          if d_clientId d \<noteq> clientId then (Inl InvalidGrant, b0)
          else if d_expiresAt d \<le> now then (Inl ExpiredToken, b0)
          else
            let b = polled now deviceCode b0 in
            if now - d_lastPolledAt d < d_intervalMs d then (Inl SlowDown, b)
            else (case d_status d of
              DevPending \<Rightarrow> (Inl AuthorizationPending, b)
            | DevDenied \<Rightarrow> (Inl AccessDenied, b)
            | DevRedeemed \<Rightarrow> (Inl InvalidGrant, b)
            | DevApproved \<Rightarrow>
                (let (moved, ds) = device_transition deviceCode DevApproved DevRedeemed (bk_devices b);
                     b1 = b\<lparr>bk_devices := ds\<rparr>
                 in if \<not> moved then (Inl InvalidGrant, b1)
                    else case (jm_get (bk_clients b1) clientId, d_principalId d) of
                      (Some client, Some pid) \<Rightarrow>
                        if pid = [] then (Inl ServerError, b1)
                        else map_prod Inr (\<lambda>b. b)
                          (issueGrant hm cfg now f
                             \<lparr>gb_clientId = clientId, gb_principalId = pid,
                              gb_displayName = (case d_displayName d of None \<Rightarrow> pid | Some n \<Rightarrow> n),
                              gb_orgId = oc_orgId client, gb_workspaceId = oc_workspaceId client\<rparr> b1)
                    | _ \<Rightarrow> (Inl ServerError, b1))))"

section \<open>Authorization code\<close>

record authorize_params =
  az_clientId :: string
  az_redirectUri :: string
  az_state :: string
  az_codeChallenge :: string
  az_codeChallengeMethod :: string
  az_subject :: string
  az_displayName :: string

definition authorize ::
  "(string \<Rightarrow> url_parts option) \<Rightarrow> int \<Rightarrow> string \<Rightarrow> authorize_params \<Rightarrow> consent_guard option \<Rightarrow> broker
     \<Rightarrow> (OAuthErrorCode + string \<times> string) \<times> broker" where
  "authorize newURL now code q guard b =
     (case jm_get (bk_clients b) (az_clientId q) of
        None \<Rightarrow> (Inl InvalidClient, b)
      | Some client \<Rightarrow>
          if \<not> oc_enabled client \<or> ''authorization_code'' \<notin> set (oc_grantTypes client) then (Inl InvalidClient, b)
          else if az_codeChallengeMethod q \<noteq> ''S256'' then (Inl InvalidRequest, b)
          else if \<not> validateLoopbackRedirect newURL (az_redirectUri q) (oc_redirectAllowlist client) then (Inl InvalidRequest, b)
          else if (case guard of None \<Rightarrow> False | Some allow \<Rightarrow> \<not> allow (oc_clientId client) (oc_orgId client) (oc_workspaceId client))
          then (Inl AccessDenied, b)
          else
            (Inr (code, az_state q),
             b\<lparr>bk_codes := code_create
                 \<lparr>c_code = code, c_clientId = az_clientId q, c_redirectUri = az_redirectUri q, c_codeChallenge = az_codeChallenge q,
                  c_principalId = az_subject q, c_displayName = az_displayName q, c_orgId = oc_orgId client,
                  c_workspaceId = oc_workspaceId client, c_expiresAt = now + 300000\<rparr> (bk_codes b)\<rparr>))"

definition tokenAuthCode ::
  "hmac \<Rightarrow> (string \<Rightarrow> string) \<Rightarrow> BrokerConfig \<Rightarrow> int \<Rightarrow> fresh \<Rightarrow> string \<Rightarrow> string \<Rightarrow> string \<Rightarrow> string \<Rightarrow> broker
     \<Rightarrow> (OAuthErrorCode + TokenResponse) \<times> broker" where
  "tokenAuthCode hm sha256 cfg now f code codeVerifier redirectUri clientId b =
     (let (found, codes) = code_consume code (bk_codes b); b1 = b\<lparr>bk_codes := codes\<rparr> in
      case found of
        None \<Rightarrow> (Inl InvalidGrant, b1)
      | Some c \<Rightarrow>
          if c_clientId c \<noteq> clientId then (Inl InvalidGrant, b1)
          else if c_expiresAt c \<le> now then (Inl InvalidGrant, b1)
          else if c_redirectUri c \<noteq> redirectUri then (Inl InvalidGrant, b1)
          else if \<not> pkceVerifyS256 sha256 codeVerifier (c_codeChallenge c) then (Inl InvalidGrant, b1)
          else map_prod Inr (\<lambda>b. b)
            (issueGrant hm cfg now f
               \<lparr>gb_clientId = c_clientId c, gb_principalId = c_principalId c, gb_displayName = c_displayName c,
                gb_orgId = c_orgId c, gb_workspaceId = c_workspaceId c\<rparr> b1))"

section \<open>Refresh\<close>

text \<open>What the first half of \<^verbatim>\<open>refresh\<close> decides, before the identity provider is asked.\<close>

datatype refresh_plan =
    RefuseRefresh
  | ExpireFamily string
  | RotateFamily Grant
  | ReuseFamily Grant

definition refresh_begin :: "hmac \<Rightarrow> to_number \<Rightarrow> BrokerConfig \<Rightarrow> int \<Rightarrow> string \<Rightarrow> string \<Rightarrow> broker \<Rightarrow> refresh_plan" where
  "refresh_begin hm toNumber cfg now token clientId b =
     (case parseRefresh toNumber token of
        None \<Rightarrow> RefuseRefresh
      | Some parsed \<Rightarrow>
          (case grant_get (pr_handle parsed) (bk_grants b) of
             None \<Rightarrow> RefuseRefresh
           | Some grant \<Rightarrow>
               if g_status grant \<noteq> GrantActive \<or> g_clientId grant \<noteq> clientId then RefuseRefresh
               else if g_kind grant = ServiceGrant \<or> g_refreshTokenHash grant = None then RefuseRefresh
               else if g_absoluteExpiresAt grant \<le> now then ExpireFamily (g_handle grant)
               else if pr_generation parsed = g_refreshGeneration grant
                     \<and> verifyHash hm (bc_pepper cfg) (pr_secret parsed) (g_refreshTokenHash grant)
               then RotateFamily grant
               else if pr_generation parsed = g_refreshGeneration grant - 1
                     \<and> g_prevRefreshTokenHash grant \<noteq> None
                     \<and> verifyHash hm (bc_pepper cfg) (pr_secret parsed) (g_prevRefreshTokenHash grant)
               then ReuseFamily grant
               else RefuseRefresh))"

definition revoke_family :: "string \<Rightarrow> broker \<Rightarrow> broker" where
  "revoke_family h b = b\<lparr>bk_grants := snd (grant_revoke h (bk_grants b))\<rparr>"

definition rotate_fields :: "hmac \<Rightarrow> BrokerConfig \<Rightarrow> int \<Rightarrow> fresh \<Rightarrow> Grant \<Rightarrow> RotateFields" where
  "rotate_fields hm cfg now f grant =
     \<lparr>rf_accessTokenHash = snd (mintAccessToken hm (bc_pepper cfg) (g_handle grant) (fr_access f)),
      rf_accessTokenExpiresAt = now + bc_accessTtlMs cfg,
      rf_refreshTokenHash = snd (mintRefreshToken hm (bc_pepper cfg) (g_handle grant) (g_refreshGeneration grant + 1) (fr_refresh f)),
      rf_prevRefreshTokenHash = (case g_refreshTokenHash grant of None \<Rightarrow> [] | Some h \<Rightarrow> h),
      rf_refreshGeneration = g_refreshGeneration grant + 1\<rparr>"

definition refresh_end ::
  "hmac \<Rightarrow> BrokerConfig \<Rightarrow> int \<Rightarrow> fresh \<Rightarrow> bool \<Rightarrow> refresh_plan \<Rightarrow> broker \<Rightarrow> (OAuthErrorCode + TokenResponse) \<times> broker" where
  "refresh_end hm cfg now f isPrincipalActive plan b =
     (case plan of
        RefuseRefresh \<Rightarrow> (Inl InvalidGrant, b)
      | ExpireFamily h \<Rightarrow> (Inl InvalidGrant, revoke_family h b)
      | ReuseFamily grant \<Rightarrow>
          (Inl InvalidGrant, (revoke_family (g_handle grant) b)\<lparr>bk_reuse := bk_reuse b @ [g_handle grant]\<rparr>)
      | RotateFamily grant \<Rightarrow>
          if \<not> isPrincipalActive then (Inl InvalidGrant, revoke_family (g_handle grant) b)
          else
            let (applied, gs) = grant_rotate (g_handle grant) (g_refreshGeneration grant) (rotate_fields hm cfg now f grant) (bk_grants b)
            in if \<not> applied then (Inl InvalidGrant, b)
               else (Inr \<lparr>tr_access_token = fst (mintAccessToken hm (bc_pepper cfg) (g_handle grant) (fr_access f)),
                         tr_expires_in = bc_accessTtlMs cfg div 1000,
                         tr_refresh_token = Some (fst (mintRefreshToken hm (bc_pepper cfg) (g_handle grant)
                           (g_refreshGeneration grant + 1) (fr_refresh f)))\<rparr>,
                     b\<lparr>bk_grants := gs\<rparr>))"

definition refresh ::
  "hmac \<Rightarrow> to_number \<Rightarrow> BrokerConfig \<Rightarrow> int \<Rightarrow> fresh \<Rightarrow> bool \<Rightarrow> string \<Rightarrow> string \<Rightarrow> broker
     \<Rightarrow> (OAuthErrorCode + TokenResponse) \<times> broker" where
  "refresh hm toNumber cfg now f isPrincipalActive token clientId b =
     refresh_end hm cfg now f isPrincipalActive (refresh_begin hm toNumber cfg now token clientId b) b"

section \<open>Revocation, introspection, resolution\<close>

definition revoke_token :: "hmac \<Rightarrow> to_number \<Rightarrow> BrokerConfig \<Rightarrow> string \<Rightarrow> broker \<Rightarrow> broker" where
  "revoke_token hm toNumber cfg token b =
     (case parseRefresh toNumber token of
        Some rt \<Rightarrow>
          (case grant_get (pr_handle rt) (bk_grants b) of
             None \<Rightarrow> b
           | Some g \<Rightarrow>
               if g_status g = GrantActive
                  \<and> (verifyHash hm (bc_pepper cfg) (pr_secret rt) (g_refreshTokenHash g)
                     \<or> (g_prevRefreshTokenHash g \<noteq> None \<and> verifyHash hm (bc_pepper cfg) (pr_secret rt) (g_prevRefreshTokenHash g)))
               then revoke_family (pr_handle rt) b else b)
      | None \<Rightarrow>
          (case parseAccess token of
             None \<Rightarrow> b
           | Some atok \<Rightarrow>
               (case grant_get (pa_handle atok) (bk_grants b) of
                  None \<Rightarrow> b
                | Some g \<Rightarrow>
                    if g_status g = GrantActive \<and> verifyHash hm (bc_pepper cfg) (pa_secret atok) (g_accessTokenHash g)
                    then revoke_family (pa_handle atok) b else b)))"

definition revokePrincipal :: "string \<Rightarrow> broker \<Rightarrow> int \<times> broker" where
  "revokePrincipal p b =
     (let (n, gs) = grant_revokeByPrincipal p (bk_grants b) in (n, b\<lparr>bk_grants := gs\<rparr>))"

definition grantScope :: "Grant \<Rightarrow> GrantScope" where
  "grantScope g =
     (case g_scope g of
        Some s \<Rightarrow> s
      | None \<Rightarrow> \<lparr>gs_allowedProviders = AllowAll, gs_allowedModels = AllowAll, gs_groups = None\<rparr>)"

record introspection =
  in_clientId :: string
  in_principalId :: string
  in_accessTokenExpiresAt :: int
  in_kind :: GrantKind
  in_federation :: "string option"
  in_subject :: "string option"
  in_scope :: GrantScope
  in_onBehalfOf :: bool

definition introspectAccessToken :: "hmac \<Rightarrow> BrokerConfig \<Rightarrow> int \<Rightarrow> string \<Rightarrow> broker \<Rightarrow> introspection option" where
  "introspectAccessToken hm cfg now token b =
     (case parseAccess token of
        None \<Rightarrow> None
      | Some atok \<Rightarrow>
          (case grant_get (pa_handle atok) (bk_grants b) of
             None \<Rightarrow> None
           | Some g \<Rightarrow>
               if g_status g \<noteq> GrantActive then None
               else if g_accessTokenExpiresAt g \<le> now then None
               else if \<not> verifyHash hm (bc_pepper cfg) (pa_secret atok) (g_accessTokenHash g) then None
               else Some \<lparr>in_clientId = g_clientId g, in_principalId = g_principalId g,
                          in_accessTokenExpiresAt = g_accessTokenExpiresAt g, in_kind = g_kind g, in_federation = g_federation g,
                          in_subject = g_subject g, in_scope = grantScope g, in_onBehalfOf = g_onBehalfOf g\<rparr>))"

datatype broker_failure = BfMalformed | BfInactive | BfExpired | BfBadSecret | BfNoTenancy

definition grant_principal :: "Grant \<Rightarrow> Principal" where
  "grant_principal g =
     \<lparr>p_kind = OAuthBroker, p_id = g_principalId g, p_displayName = g_displayName g, p_authMode = OAuthBroker,
      p_scope = \<lparr>s_orgId = g_orgId g, s_workspaceId = g_workspaceId g, s_allowedProviders = gs_allowedProviders (grantScope g),
                 s_allowedModels = gs_allowedModels (grantScope g), s_groups = gs_groups (grantScope g)\<rparr>,
      p_userId = (if g_kind g = ServiceGrant then None else Some (g_principalId g)),
      p_serviceAccount =
        (if g_kind g = ServiceGrant then Some (case g_federation g of None \<Rightarrow> ''unknown'' | Some f \<Rightarrow> f) else None),
      p_onBehalfOf = (g_kind g = ServiceGrant \<and> g_onBehalfOf g)\<rparr>"

definition resolveBrokerAccessToken ::
  "hmac \<Rightarrow> string \<Rightarrow> int \<Rightarrow> (string \<Rightarrow> Grant option) \<Rightarrow> string \<Rightarrow> broker_failure + Principal" where
  "resolveBrokerAccessToken hm pepper now get token =
     (case parseAccess token of
        None \<Rightarrow> Inl BfMalformed
      | Some atok \<Rightarrow>
          (case get (pa_handle atok) of
             None \<Rightarrow> Inl BfInactive
           | Some g \<Rightarrow>
               if g_status g \<noteq> GrantActive then Inl BfInactive
               else if g_accessTokenExpiresAt g \<le> now then Inl BfExpired
               else if \<not> verifyHash hm pepper (pa_secret atok) (g_accessTokenHash g) then Inl BfBadSecret
               else if g_orgId g = [] \<or> g_workspaceId g = [] then Inl BfNoTenancy
               else Inr (grant_principal g)))"

definition resolveBrokerToken :: "hmac \<Rightarrow> BrokerConfig \<Rightarrow> int \<Rightarrow> string \<Rightarrow> broker \<Rightarrow> broker_failure + Principal" where
  "resolveBrokerToken hm cfg now token b =
     resolveBrokerAccessToken hm (bc_pepper cfg) now (\<lambda>h. grant_get h (bk_grants b)) token"

section \<open>Runs\<close>

text \<open>The platform functions the broker is built with.\<close>

record oauth_env =
  oe_hmac :: hmac
  oe_toNumber :: to_number
  oe_sha256 :: "string \<Rightarrow> string"
  oe_newURL :: "string \<Rightarrow> url_parts option"
  oe_encodeURI :: "string \<Rightarrow> string"
  oe_verifier :: "(string \<Rightarrow> string option \<Rightarrow> string + FederatedIdentity) option"

datatype broker_event =
    EvDevice string string string "string option"
  | EvDeny string "consent_guard option"
  | EvApprove string string string "consent_guard option"
  | EvPoll fresh string string
  | EvAuthorize string authorize_params "consent_guard option"
  | EvExchange fresh string string string string
  | EvJwtBearer fresh string "string option" "string option"
  | EvRefreshBegin string string
  | EvRefreshEnd nat fresh bool
  | EvRevoke string
  | EvRevokePrincipal string

text \<open>The broker, the time and the refreshes that wait for the identity provider, each with the time it read.\<close>

record broker_run =
  br_broker :: broker
  br_now :: int
  br_waiting :: "(int \<times> refresh_plan) list"

fun oauth_step :: "oauth_env \<Rightarrow> BrokerConfig \<Rightarrow> broker_run \<Rightarrow> broker_event \<Rightarrow> TokenResponse option \<times> broker_run" where
  "oauth_step env cfg r (EvDevice dc uc cl uri) =
     (None, r\<lparr>br_broker := snd (deviceAuthorization cfg (br_now r) (oe_encodeURI env) dc uc cl uri (br_broker r))\<rparr>)"
| "oauth_step env cfg r (EvDeny uc guard) = (None, r\<lparr>br_broker := snd (deviceDeny (br_now r) uc guard (br_broker r))\<rparr>)"
| "oauth_step env cfg r (EvApprove uc sub nm guard) =
     (None, r\<lparr>br_broker := snd (deviceApprove (br_now r) uc sub nm guard (br_broker r))\<rparr>)"
| "oauth_step env cfg r (EvPoll f dc cl) =
     (let (res, b) = tokenDeviceCode (oe_hmac env) cfg (br_now r) f dc cl (br_broker r)
      in (case res of Inl e \<Rightarrow> None | Inr t \<Rightarrow> Some t, r\<lparr>br_broker := b\<rparr>))"
| "oauth_step env cfg r (EvAuthorize code q guard) =
     (None, r\<lparr>br_broker := snd (authorize (oe_newURL env) (br_now r) code q guard (br_broker r))\<rparr>)"
| "oauth_step env cfg r (EvExchange f code ver uri cl) =
     (let (res, b) = tokenAuthCode (oe_hmac env) (oe_sha256 env) cfg (br_now r) f code ver uri cl (br_broker r)
      in (case res of Inl e \<Rightarrow> None | Inr t \<Rightarrow> Some t, r\<lparr>br_broker := b\<rparr>))"
| "oauth_step env cfg r (EvJwtBearer f a cl aud) =
     (let (res, b) = tokenJwtBearer (oe_hmac env) cfg (br_now r) f (oe_verifier env) a cl aud (br_broker r)
      in (case res of Inl e \<Rightarrow> None | Inr t \<Rightarrow> Some t, r\<lparr>br_broker := b\<rparr>))"
| "oauth_step env cfg r (EvRefreshBegin token cl) =
     (None, r\<lparr>br_waiting := br_waiting r @
        [(br_now r, refresh_begin (oe_hmac env) (oe_toNumber env) cfg (br_now r) token cl (br_broker r))]\<rparr>)"
| "oauth_step env cfg r (EvRefreshEnd i f active) =
     (if i < length (br_waiting r)
      then let (t, plan) = br_waiting r ! i;
               (res, b) = refresh_end (oe_hmac env) cfg t f active plan (br_broker r)
           in (case res of Inl e \<Rightarrow> None | Inr t \<Rightarrow> Some t,
               r\<lparr>br_broker := b, br_waiting := take i (br_waiting r) @ drop (Suc i) (br_waiting r)\<rparr>)
      else (None, r))"
| "oauth_step env cfg r (EvRevoke token) =
     (None, r\<lparr>br_broker := revoke_token (oe_hmac env) (oe_toNumber env) cfg token (br_broker r)\<rparr>)"
| "oauth_step env cfg r (EvRevokePrincipal p) = (None, r\<lparr>br_broker := snd (revokePrincipal p (br_broker r))\<rparr>)"

end
