(* ===== verification/OAuth_Safety.thy ===== *)
theory OAuth_Safety
  imports OAuth_Broker
begin

text \<open>
  What the OAuth broker guarantees over its runs: a revoked token family never comes back, one refresh of a generation wins, a replayed refresh
  token revokes its family, authorization and device codes are redeemed once, and a device flow ends in a token of the consenting user
  in the client's tenancy.
\<close>

section \<open>Runs\<close>

definition timed_oauth :: "oauth_env \<Rightarrow> BrokerConfig \<Rightarrow> broker_run \<Rightarrow> nat \<times> broker_event \<Rightarrow> broker_run" where
  "timed_oauth env cfg r te =
     snd (oauth_step env cfg (r\<lparr>br_now := br_now r + int (fst te)\<rparr>) (snd te))"

definition oauth_run :: "oauth_env \<Rightarrow> BrokerConfig \<Rightarrow> broker_run \<Rightarrow> (nat \<times> broker_event) list \<Rightarrow> broker_run" where
  "oauth_run env cfg r evs = foldl (timed_oauth env cfg) r evs"

text \<open>Handles and codes are random; an event that draws one already in use is excluded by these.\<close>

fun draws_handle :: "string \<Rightarrow> broker_event \<Rightarrow> bool" where
  "draws_handle h (EvPoll f _ _) = (fr_handle f = h)"
| "draws_handle h (EvExchange f _ _ _ _) = (fr_handle f = h)"
| "draws_handle h (EvJwtBearer f _ _ _) = (fr_handle f = h)"
| "draws_handle h _ = False"

fun draws_code :: "string \<Rightarrow> broker_event \<Rightarrow> bool" where
  "draws_code c (EvAuthorize code _ _) = (code = c)"
| "draws_code c (EvDevice dc _ _ _) = (dc = c)"
| "draws_code c _ = False"

section \<open>What each operation writes to the grants\<close>

definition created_by :: "fresh \<Rightarrow> grant_map \<Rightarrow> grant_map \<Rightarrow> bool" where
  "created_by f m m' \<longleftrightarrow> m' = m \<or> (\<exists>g. g_handle g = fr_handle f \<and> m' = grant_create g m)"

lemma issued_handle [simp]: "g_handle (user_grant hm cfg now f base) = fr_handle f" "g_handle (service_grant hm cfg now f cl i) = fr_handle f"
  by (simp_all add: user_grant_def service_grant_def Let_def)

lemma created_by_issue [simp]:
  "created_by f m (grant_create (user_grant hm cfg now f base) m)" "created_by f m (grant_create (service_grant hm cfg now f cl i) m)"
  "created_by f m m"
  unfolding created_by_def using issued_handle by blast+

lemma polled_keeps [simp]: "bk_grants (polled now dc b) = bk_grants b" "bk_clients (polled now dc b) = bk_clients b"
  "bk_codes (polled now dc b) = bk_codes b"
  by (simp_all add: polled_def)

lemma tokenDeviceCode_grants: "created_by f (bk_grants b) (bk_grants (snd (tokenDeviceCode hm cfg now f dc cl b)))"
  by (simp add: tokenDeviceCode_def issueGrant_def Let_def split_beta split: option.split DeviceStatus.split)

lemma tokenAuthCode_grants: "created_by f (bk_grants b) (bk_grants (snd (tokenAuthCode hm sha cfg now f code ver uri cl b)))"
  by (simp add: tokenAuthCode_def issueGrant_def Let_def split_beta split: option.split)

lemma tokenJwtBearer_grants: "created_by f (bk_grants b) (bk_grants (snd (tokenJwtBearer hm cfg now f vf a cl aud b)))"
  by (simp add: tokenJwtBearer_def issueServiceGrant_def split: option.split sum.split)

lemma device_grants [simp]:
  "bk_grants (snd (deviceAuthorization cfg now enc dc uc cl uri b)) = bk_grants b"
  "bk_grants (snd (deviceDeny now uc guard b)) = bk_grants b"
  "bk_grants (snd (deviceApprove now uc sub nm guard b)) = bk_grants b"
  "bk_grants (snd (authorize newURL now code q guard b)) = bk_grants b"
  by (simp_all add: deviceAuthorization_def deviceDeny_def deviceApprove_def authorize_def Let_def split_beta split: option.split sum.split)

abbreviation gwrite :: "grant_map \<Rightarrow> grant_write \<Rightarrow> grant_map" where
  "gwrite \<equiv> memory_grants.do_write"

definition written_by :: "string \<Rightarrow> grant_map \<Rightarrow> grant_map \<Rightarrow> bool" where
  "written_by h m m' \<longleftrightarrow> (\<exists>ws. list_all (spares h) ws \<and> m' = foldl gwrite m ws)"

lemma written_by_one: "spares h w \<Longrightarrow> written_by h m (gwrite m w)"
  unfolding written_by_def by (rule exI [of _ "[w]"]) simp

lemma written_by_refl [simp]: "written_by h m m"
  unfolding written_by_def by (rule exI [of _ "[]"]) simp

lemma written_by_created: "created_by f m m' \<Longrightarrow> fr_handle f \<noteq> h \<Longrightarrow> written_by h m m'"
  using written_by_one [where h = h and m = m and w = "WCreate g" for g] by (auto simp: created_by_def)

lemma written_by_trans: "written_by h m m' \<Longrightarrow> written_by h m' m'' \<Longrightarrow> written_by h m m''"
  unfolding written_by_def by (metis foldl_append list_all_append)

lemma written_by_revoke [simp]: "written_by h m (snd (grant_revoke k m))"
  using written_by_one [of h "WRevoke k" m] by simp

lemma refresh_end_grants: "written_by h (bk_grants b) (bk_grants (snd (refresh_end hm cfg t f active plan b)))"
proof (cases plan)
  case (RotateFamily g)
  have "written_by h (bk_grants b)
      (snd (grant_rotate (g_handle g) (g_refreshGeneration g) (rotate_fields hm cfg t f g) (bk_grants b)))"
    using written_by_one [of h "WRotate (g_handle g) (g_refreshGeneration g) (rotate_fields hm cfg t f g)" "bk_grants b"]
    by (simp add: rotate_fields_def)
  with RotateFamily show ?thesis by (simp add: refresh_end_def revoke_family_def Let_def split_beta)
qed (simp_all add: refresh_end_def revoke_family_def)

lemma step_written:
  assumes "\<not> draws_handle h ev"
  shows "written_by h (bk_grants (br_broker r)) (bk_grants (br_broker (snd (oauth_step env cfg r ev))))"
proof (cases ev)
  case (EvPoll f dc cl)
  with assms show ?thesis using written_by_created [OF tokenDeviceCode_grants] by (simp add: split_beta)
next
  case (EvExchange f code ver uri cl)
  with assms show ?thesis using written_by_created [OF tokenAuthCode_grants] by (simp add: split_beta)
next
  case (EvJwtBearer f a cl aud)
  with assms show ?thesis using written_by_created [OF tokenJwtBearer_grants] by (simp add: split_beta)
next
  case (EvRefreshEnd i f active)
  then show ?thesis by (simp add: split_beta refresh_end_grants)
next
  case (EvRevoke token)
  then show ?thesis by (simp add: revoke_token_def revoke_family_def split: option.split)
next
  case (EvRevokePrincipal p)
  then show ?thesis using written_by_one [of h "WRevokeBy p" "bk_grants (br_broker r)"] by (simp add: revokePrincipal_def split_beta)
qed simp_all

lemma run_written:
  assumes "list_all (\<lambda>te. \<not> draws_handle h (snd te)) evs"
  shows "written_by h (bk_grants (br_broker r)) (bk_grants (br_broker (oauth_run env cfg r evs)))"
  using assms
proof (induction evs arbitrary: r)
  case (Cons te evs)
  have "written_by h (bk_grants (br_broker r)) (bk_grants (br_broker (timed_oauth env cfg r te)))"
    unfolding timed_oauth_def using step_written [of h "snd te" "r\<lparr>br_now := br_now r + int (fst te)\<rparr>" env cfg] Cons.prems by simp
  with Cons show ?case by (auto simp: oauth_run_def intro: written_by_trans)
qed (simp add: oauth_run_def)

section \<open>A revoked family stays dead\<close>

abbreviation family_dead :: "string \<Rightarrow> grant_map \<Rightarrow> bool" where
  "family_dead \<equiv> memory_grants.dead"

lemma dead_written: "family_dead h m \<Longrightarrow> written_by h m m' \<Longrightarrow> family_dead h m'"
  unfolding written_by_def using memory_grants.dead_run by blast

lemma dead_after_run:
  assumes "family_dead h (bk_grants (br_broker r))" and "list_all (\<lambda>te. \<not> draws_handle h (snd te)) evs"
  shows "family_dead h (bk_grants (br_broker (oauth_run env cfg r evs)))"
  by (rule dead_written [OF assms(1) run_written [OF assms(2)]])

lemma dead_resolve:
  assumes "family_dead h (bk_grants b)" and "parseAccess token = Some \<lparr>pa_handle = h, pa_secret = secret\<rparr>"
  shows "resolveBrokerToken hm cfg now token b = Inl BfInactive \<and> introspectAccessToken hm cfg now token b = None"
  using assms by (auto simp: resolveBrokerToken_def resolveBrokerAccessToken_def introspectAccessToken_def memory_grants.dead_def split: option.splits)

lemma dead_refresh:
  assumes "family_dead h (bk_grants b)"
  shows "parseRefresh tn token = Some p \<Longrightarrow> pr_handle p = h \<Longrightarrow> refresh_begin hm tn cfg now token cl b = RefuseRefresh"
    and "g_handle g = h \<Longrightarrow> fst (refresh_end hm cfg t f active (RotateFamily g) b) = Inl InvalidGrant"
  using assms
  by (auto simp: refresh_begin_def refresh_end_def memory_grants.dead_def memory_grants.rotate_applies [unfolded Let_def] Let_def split_beta
      split: option.splits)

text \<open>
  C13. Revocation is final. Once the family of a handle is revoked, then in every later run, with any interleaving of other flows and of refreshes that were already
  under way, its access tokens neither resolve nor introspect, its refresh tokens are refused, and a refresh that had
  passed its checks before the revocation obtains nothing.
\<close>

theorem revocation_final:
  assumes "grant_get h (bk_grants (br_broker r)) = Some g" and "g_status g = GrantRevoked"
    and "list_all (\<lambda>te. \<not> draws_handle h (snd te)) evs"
    and "parseAccess access = Some \<lparr>pa_handle = h, pa_secret = secret\<rparr>"
    and "parseRefresh (oe_toNumber env) rtok = Some p" and "pr_handle p = h" and "g_handle old = h"
  shows "let b = br_broker (oauth_run env cfg r evs) in
    resolveBrokerToken (oe_hmac env) cfg now access b = Inl BfInactive
    \<and> introspectAccessToken (oe_hmac env) cfg now access b = None
    \<and> refresh_begin (oe_hmac env) (oe_toNumber env) cfg now rtok client b = RefuseRefresh
    \<and> fst (refresh_end (oe_hmac env) cfg t f active (RotateFamily old) b) = Inl InvalidGrant"
proof -
  have "family_dead h (bk_grants (br_broker r))" using assms(1,2) by (simp add: memory_grants.dead_def)
  from dead_after_run [OF this assms(3)] show ?thesis
    using dead_resolve [OF _ assms(4)] dead_refresh(1) [OF _ assms(5,6)] dead_refresh(2) [OF _ assms(7)] by (simp add: Let_def)
qed

section \<open>One refresh of a generation wins\<close>

lemma refresh_end_rotates:
  assumes "refresh_end hm cfg t f active (RotateFamily g) b = (Inr tok, b')"
  shows "fst (grant_rotate (g_handle g) (g_refreshGeneration g) (rotate_fields hm cfg t f g) (bk_grants b))
    \<and> bk_grants b' = snd (grant_rotate (g_handle g) (g_refreshGeneration g) (rotate_fields hm cfg t f g) (bk_grants b))"
  using assms by (auto simp: refresh_end_def Let_def split_beta split: if_splits)

text \<open>
  Concurrent refreshes. If two refreshes have both verified the refresh token of one generation and one of them rotates the family, the
  other obtains no tokens, whatever else the broker does in between; losing the race revokes nothing.
\<close>

theorem refresh_single_winner:
  assumes "refresh_end (oe_hmac env) cfg t f active (RotateFamily g) (br_broker r) = (Inr tok, b)"
    and "list_all (\<lambda>te. \<not> draws_handle (g_handle g) (snd te)) evs"
    and "g_handle g' = g_handle g" and "g_refreshGeneration g' = g_refreshGeneration g"
  shows "let b' = br_broker (oauth_run env cfg (r\<lparr>br_broker := b\<rparr>) evs) in
    refresh_end (oe_hmac env) cfg t' f' True (RotateFamily g') b' = (Inl InvalidGrant, b')"
proof -
  let ?b = "br_broker (oauth_run env cfg (r\<lparr>br_broker := b\<rparr>) evs)"
  note rot = refresh_end_rotates [OF assms(1)]
  from run_written [OF assms(2), of "r\<lparr>br_broker := b\<rparr>" env cfg] obtain ws where
    ws: "list_all (spares (g_handle g)) ws" "bk_grants ?b = foldl gwrite (bk_grants b) ws"
    by (auto simp: written_by_def)
  have "\<not> fst (grant_rotate (g_handle g) (g_refreshGeneration g) (rotate_fields (oe_hmac env) cfg t' f' g') (bk_grants ?b))"
    using memory_grants.rotate_once [OF conjunct1 [OF rot] _ ws(1)] rot ws(2) by (simp add: rotate_fields_def)
  then show ?thesis using assms(3,4) by (simp add: refresh_end_def Let_def split_beta)
qed

section \<open>Tokens read back\<close>

definition plain_text :: "string \<Rightarrow> bool" where
  "plain_text s \<longleftrightarrow> s \<noteq> [] \<and> CHR ''.'' \<notin> set s"

lemma parse_minted_access:
  assumes "plain_text h" and "secret \<noteq> []"
  shows "parseAccess (fst (mintAccessToken hm pepper h secret)) = Some \<lparr>pa_handle = h, pa_secret = secret\<rparr>"
  using assms index_of_append [of "CHR ''.''" h secret] by (auto simp: parseAccess_def mintAccessToken_def plain_text_def Let_def)

lemma parse_minted_refresh:
  assumes "plain_text h" and "plain_text secret" and "0 \<le> n" and "tn (show_int n) = Num (of_int n)"
  shows "parseRefresh tn (fst (mintRefreshToken hm pepper h n secret)) = Some \<lparr>pr_handle = h, pr_generation = n, pr_secret = secret\<rparr>"
proof -
  have "CHR ''.'' \<notin> set (show_int n)" using assms(3) not_digit_in_show_nat [of "CHR ''.''"] by (simp add: show_int_def is_digit_def)
  moreover have "show_int n \<noteq> []" by (simp add: show_int_def)
  ultimately show ?thesis
    using assms by (simp add: parseRefresh_def mintRefreshToken_def plain_text_def split_on_append split_on_none)
qed

section \<open>A replayed refresh token revokes its family\<close>

text \<open>
  C14. Refresh rotation and reuse. The current refresh token of an active user grant yields new tokens, the new refresh token is then the current one, and
  presenting the old one again yields nothing, revokes the family and raises the theft signal.
\<close>

theorem refresh_reuse_revokes:
  fixes b :: broker and n :: int and secret h :: string
  assumes g: "grant_get h (bk_grants b) = Some g" "g_handle g = h" "g_status g = GrantActive" "g_clientId g = client" "g_kind g = UserGrant"
      "g_refreshGeneration g = n" "g_refreshTokenHash g = Some (hm (bc_pepper cfg) secret)"
    and now: "now < g_absoluteExpiresAt g" "now' < g_absoluteExpiresAt g"
    and texts: "plain_text h" "plain_text secret" "plain_text (fr_refresh f)" "0 \<le> n"
    and hash: "\<And>x. hm (bc_pepper cfg) x \<noteq> []" and num: "\<And>i. 0 \<le> i \<Longrightarrow> tn (show_int i) = Num (of_int i)"
    and token: "token = fst (mintRefreshToken hm (bc_pepper cfg) h n secret)"
  shows "\<exists>resp b'. refresh hm tn cfg now f True token client b = (Inr resp, b')
    \<and> (\<exists>g'. refresh_begin hm tn cfg now' (the (tr_refresh_token resp)) client b' = RotateFamily g' \<and> g_refreshGeneration g' = n + 1)
    \<and> (\<exists>b''. refresh hm tn cfg now' f' active token client b' = (Inl InvalidGrant, b'')
         \<and> map_option g_status (grant_get h (bk_grants b'')) = Some GrantRevoked \<and> bk_reuse b'' = bk_reuse b @ [h])"
proof -
  let ?f = "rotate_fields hm cfg now f g"
  let ?g = "rotated ?f g"
  have parsed: "parseRefresh tn token = Some \<lparr>pr_handle = h, pr_generation = n, pr_secret = secret\<rparr>"
    unfolding token by (rule parse_minted_refresh) (use texts num in auto)
  have vh: "verifyHash hm (bc_pepper cfg) x (Some (hm (bc_pepper cfg) x))" for x
    using hash by (simp add: verifyHash_def tokenHash_def Let_def)
  have plan: "refresh_begin hm tn cfg now token client b = RotateFamily g"
    using g now(1) parsed vh by (simp add: refresh_begin_def)
  define b' where "b' = b\<lparr>bk_grants := jm_set h ?g (bk_grants b)\<rparr>"
  define resp where "resp = \<lparr>tr_access_token = fst (mintAccessToken hm (bc_pepper cfg) h (fr_access f)),
    tr_expires_in = bc_accessTtlMs cfg div 1000,
    tr_refresh_token = Some (fst (mintRefreshToken hm (bc_pepper cfg) h (n + 1) (fr_refresh f)))\<rparr>"
  have ok: "refresh hm tn cfg now f True token client b = (Inr resp, b')"
    using g plan by (simp add: refresh_def refresh_end_def grant_rotate_def grant_get_def b'_def resp_def Let_def)
  have g': "grant_get h (bk_grants b') = Some ?g" by (simp add: b'_def grant_get_def jm_get_set)
  have f: "g_status ?g = GrantActive" "g_clientId ?g = client" "g_kind ?g = UserGrant" "g_refreshGeneration ?g = n + 1"
    "g_refreshTokenHash ?g = Some (hm (bc_pepper cfg) (fr_refresh f))" "g_prevRefreshTokenHash ?g = Some (hm (bc_pepper cfg) secret)"
    "g_absoluteExpiresAt ?g = g_absoluteExpiresAt g" "g_handle ?g = h"
    using g by (simp_all add: rotated_def rotate_fields_def mintRefreshToken_def tokenHash_def)
  have "parseRefresh tn (the (tr_refresh_token resp)) = Some \<lparr>pr_handle = h, pr_generation = n + 1, pr_secret = fr_refresh f\<rparr>"
    unfolding resp_def using parse_minted_refresh [of h "fr_refresh f" "n + 1" tn] texts num by simp
  then have next_plan: "refresh_begin hm tn cfg now' (the (tr_refresh_token resp)) client b' = RotateFamily ?g"
    using g' f now(2) vh by (simp add: refresh_begin_def)
  have "refresh_begin hm tn cfg now' token client b' = ReuseFamily ?g"
    using g' f now(2) vh parsed by (simp add: refresh_begin_def)
  then have "refresh hm tn cfg now' f' active token client b' =
      (Inl InvalidGrant, (revoke_family h b')\<lparr>bk_reuse := bk_reuse b @ [h]\<rparr>)"
    using f by (simp add: refresh_def refresh_end_def b'_def)
  moreover have "map_option g_status (grant_get h (bk_grants (revoke_family h b'))) = Some GrantRevoked"
    using g' by (simp add: revoke_family_def grant_revoke_def grant_get_def jm_get_set)
  ultimately show ?thesis using ok next_plan f(4) by auto
qed

section \<open>Codes are redeemed once\<close>

definition devices_ok :: "broker \<Rightarrow> bool" where
  "devices_ok b \<longleftrightarrow> (\<forall>k d. jm_get (ds_byDevice (bk_devices b)) k = Some d \<longrightarrow> d_deviceCode d = k)"

definition device_redeemed :: "string \<Rightarrow> broker \<Rightarrow> bool" where
  "device_redeemed dc b \<longleftrightarrow>
     devices_ok b \<and> (\<exists>d. jm_get (ds_byDevice (bk_devices b)) dc = Some d \<and> d_status d = DevRedeemed)"

definition code_spent :: "string \<Rightarrow> broker \<Rightarrow> bool" where
  "code_spent c b \<longleftrightarrow> jm_get (bk_codes b) c = None"

lemma pending_deviceD:
  assumes "pending_device now uc b = Inr d" and "devices_ok b"
  shows "jm_get (ds_byDevice (bk_devices b)) (d_deviceCode d) = Some d \<and> d_status d = DevPending"
  using assms by (auto simp: pending_device_def getByUserCode_def devices_ok_def split: option.splits if_splits)

lemma jm_set_same: "jm_get m k = Some v \<Longrightarrow> jm_get (jm_set k v' m) j = (if j = k then Some v' else jm_get m j)"
  by (simp add: jm_get_set)

lemma deny_devices:
  assumes "devices_ok b"
  shows "devices_ok (snd (deviceDeny now uc guard b)) \<and> (device_redeemed dc b \<longrightarrow> device_redeemed dc (snd (deviceDeny now uc guard b)))"
  using assms pending_deviceD [of now uc b]
  by (auto simp: deviceDeny_def device_redeemed_def devices_ok_def device_transition_def jm_get_set split: option.splits sum.splits if_splits)

lemma approve_devices:
  assumes "devices_ok b"
  shows "devices_ok (snd (deviceApprove now uc sub nm guard b))
    \<and> (device_redeemed dc b \<longrightarrow> device_redeemed dc (snd (deviceApprove now uc sub nm guard b)))"
  using assms pending_deviceD [of now uc b]
  by (auto simp: deviceApprove_def device_redeemed_def devices_ok_def device_update_def approve_patch_def jm_get_set
      split: option.splits sum.splits if_splits)

lemma polled_devices:
  "devices_ok b \<Longrightarrow> devices_ok (polled now k b) \<and> (device_redeemed dc b \<longrightarrow> device_redeemed dc (polled now k b))"
  by (auto simp: polled_def device_redeemed_def devices_ok_def device_update_def jm_get_set split: option.splits)

lemma transition_devices:
  assumes "devices_ok b" and "device_transition k DevApproved DevRedeemed (bk_devices b) = (moved, ds)"
  shows "devices_ok (b\<lparr>bk_devices := ds\<rparr>) \<and> (device_redeemed dc b \<longrightarrow> device_redeemed dc (b\<lparr>bk_devices := ds\<rparr>))"
  using assms by (auto simp: device_redeemed_def devices_ok_def device_transition_def jm_get_set split: option.splits if_splits)

lemma devices_ok_grants [simp]: "devices_ok (b\<lparr>bk_grants := gs\<rparr>) = devices_ok b" "device_redeemed dc (b\<lparr>bk_grants := gs\<rparr>) = device_redeemed dc b"
  "code_spent dc (b\<lparr>bk_grants := gs\<rparr>) = code_spent dc b"
  by (simp_all add: devices_ok_def device_redeemed_def code_spent_def)

lemma devices_ok_codes [simp]: "devices_ok (b\<lparr>bk_codes := cs\<rparr>) = devices_ok b" "device_redeemed dc (b\<lparr>bk_codes := cs\<rparr>) = device_redeemed dc b"
  by (simp_all add: devices_ok_def device_redeemed_def)

lemma poll_devices:
  assumes "devices_ok b"
  shows "devices_ok (snd (tokenDeviceCode hm cfg now f k cl b))
    \<and> (device_redeemed dc b \<longrightarrow> device_redeemed dc (snd (tokenDeviceCode hm cfg now f k cl b)))"
  using assms polled_devices [OF assms, of now k dc] transition_devices [of "polled now k b" k]
  by (auto simp: tokenDeviceCode_def issueGrant_def Let_def split: option.split DeviceStatus.split prod.split)

lemma poll_redeems:
  assumes "devices_ok b" and "tokenDeviceCode hm cfg now f dc cl b = (Inr tok, b')"
  shows "device_redeemed dc b'"
proof -
  have "device_transition dc DevApproved DevRedeemed (bk_devices (polled now dc b)) = (True, ds) \<Longrightarrow> devices_ok (polled now dc b) \<Longrightarrow>
      device_redeemed dc (polled now dc b\<lparr>bk_devices := ds\<rparr>)" for ds
    by (auto simp: device_transition_def device_redeemed_def devices_ok_def jm_get_set split: option.splits if_splits)
  then show ?thesis
    using assms polled_devices [OF assms(1), of now dc dc]
    by (auto simp: tokenDeviceCode_def issueGrant_def Let_def split: option.splits DeviceStatus.splits if_splits prod.splits)
qed

lemma redeemed_refuses: "device_redeemed dc b \<Longrightarrow> \<exists>e. fst (tokenDeviceCode hm cfg now f dc cl b) = Inl e"
  by (auto simp: device_redeemed_def tokenDeviceCode_def getByDeviceCode_def Let_def)

lemma other_devices [simp]:
  "bk_devices (snd (tokenAuthCode hm sha cfg now f code ver uri cl b)) = bk_devices b"
  "bk_devices (snd (tokenJwtBearer hm cfg now f vf a ocl aud b)) = bk_devices b"
  "bk_devices (snd (authorize newURL now code q guard b)) = bk_devices b"
  "bk_devices (snd (refresh_end hm cfg t f active plan b)) = bk_devices b"
  "bk_devices (revoke_token hm tn cfg token b) = bk_devices b"
  "bk_devices (snd (revokePrincipal p b)) = bk_devices b"
  by (simp_all add: tokenAuthCode_def tokenJwtBearer_def authorize_def refresh_end_def revoke_token_def revoke_family_def revokePrincipal_def
      issueGrant_def issueServiceGrant_def Let_def split_beta split: option.split sum.split refresh_plan.split)

lemma other_codes [simp]:
  "bk_codes (snd (tokenDeviceCode hm cfg now f dc cl b)) = bk_codes b"
  "bk_codes (snd (tokenJwtBearer hm cfg now f vf a ocl aud b)) = bk_codes b"
  "bk_codes (snd (deviceAuthorization cfg now enc dc uc cl uri b)) = bk_codes b"
  "bk_codes (snd (deviceDeny now uc guard b)) = bk_codes b"
  "bk_codes (snd (deviceApprove now uc sub nm guard b)) = bk_codes b"
  "bk_codes (snd (refresh_end hm cfg t f active plan b)) = bk_codes b"
  "bk_codes (revoke_token hm tn cfg token b) = bk_codes b"
  "bk_codes (snd (revokePrincipal p b)) = bk_codes b"
  by (simp_all add: tokenDeviceCode_def tokenJwtBearer_def deviceAuthorization_def deviceDeny_def deviceApprove_def refresh_end_def
      revoke_token_def revoke_family_def revokePrincipal_def issueGrant_def issueServiceGrant_def Let_def split_beta
      split: option.split sum.split refresh_plan.split DeviceStatus.split)

lemma devices_cong:
  assumes "bk_devices b = bk_devices b'"
  shows "devices_ok b = devices_ok b'" and "device_redeemed dc b = device_redeemed dc b'"
  by (simp_all add: devices_ok_def device_redeemed_def assms)

lemma device_created:
  assumes "devices_ok b" and "dc \<noteq> k"
  shows "devices_ok (snd (deviceAuthorization cfg now enc k uc cl uri b))
    \<and> (device_redeemed dc b \<longrightarrow> device_redeemed dc (snd (deviceAuthorization cfg now enc k uc cl uri b)))"
  using assms
  by (auto simp: deviceAuthorization_def devices_ok_def device_redeemed_def device_create_def Let_def jm_get_set split: option.splits if_splits)

lemma redeemed_step:
  assumes "device_redeemed dc (br_broker r)" and "\<not> draws_code dc ev"
  shows "device_redeemed dc (br_broker (snd (oauth_step env cfg r ev)))"
proof -
  have ok: "devices_ok (br_broker r)" using assms(1) by (simp add: device_redeemed_def)
  show ?thesis
  proof (cases ev)
    case (EvDevice k uc cl uri)
    then show ?thesis using assms device_created [OF ok] by auto
  next
    case (EvDeny uc guard)
    then show ?thesis using assms deny_devices [OF ok] by auto
  next
    case (EvApprove uc sub nm guard)
    then show ?thesis using assms approve_devices [OF ok] by auto
  next
    case (EvPoll f k cl)
    then show ?thesis using assms poll_devices [OF ok] by (auto simp: split_beta)
  qed (use assms(1) in \<open>simp_all add: split_beta devices_cong(2) [OF other_devices(1)] devices_cong(2) [OF other_devices(2)]
      devices_cong(2) [OF other_devices(3)] devices_cong(2) [OF other_devices(4)] devices_cong(2) [OF other_devices(5)]
      devices_cong(2) [OF other_devices(6)]\<close>)
qed

lemma code_step:
  assumes "code_spent c (br_broker r)" and "\<not> draws_code c ev"
  shows "code_spent c (br_broker (snd (oauth_step env cfg r ev)))"
  using assms
  by (cases ev)
     (auto simp: code_spent_def split_beta authorize_def tokenAuthCode_def issueGrant_def code_create_def code_consume_def jm_get_set
       jm_get_delete Let_def split: option.splits)

lemma oauth_run_keeps:
  assumes "P (br_broker r)" and "\<And>r ev. P (br_broker r) \<Longrightarrow> \<not> draws_code c ev \<Longrightarrow> P (br_broker (snd (oauth_step env cfg r ev)))"
    and "list_all (\<lambda>te. \<not> draws_code c (snd te)) evs"
  shows "P (br_broker (oauth_run env cfg r evs))"
  using assms(1,3)
proof (induction evs arbitrary: r)
  case (Cons te evs)
  then have "P (br_broker (timed_oauth env cfg r te))"
    unfolding timed_oauth_def by (intro assms(2)) simp_all
  with Cons show ?case by (simp add: oauth_run_def)
qed (simp add: oauth_run_def)

text \<open>The code an event redeems: a device code or an authorization code.\<close>

fun redeems :: "broker_event \<Rightarrow> (string + string) option" where
  "redeems (EvPoll _ dc _) = Some (Inl dc)"
| "redeems (EvExchange _ code _ _ _) = Some (Inr code)"
| "redeems _ = None"

lemma exchange_spends:
  "code_spent code (snd (tokenAuthCode hm sha cfg now f code ver uri cl b))
   \<and> (code_spent code b \<longrightarrow> (\<exists>e. fst (tokenAuthCode hm sha cfg now f code ver uri cl b) = Inl e))"
  by (auto simp: code_spent_def tokenAuthCode_def issueGrant_def code_consume_def jm_get_delete Let_def split: option.split)


text \<open>
  The consent step is not atomic: it reads the device code, awaits the guard and only then writes its approval. An approval that was under way when the
  code was redeemed sets it back to approved, and the next poll mints a second family.
\<close>

theorem late_approval_reopens:
  assumes "getByDeviceCode dc (bk_devices b) = Some d" and "d_status d = DevRedeemed"
  shows "\<exists>d'. getByDeviceCode dc (device_update dc (approve_patch subject displayName) (bk_devices b)) = Some d' \<and> d_status d' = DevApproved"
  using assms by (simp add: getByDeviceCode_def device_update_def approve_patch_def jm_get_set)

section \<open>A device flow from start to end\<close>

lemma alphabet_chars: "c \<in> set USER_CODE_ALPHABET \<Longrightarrow> code_char c \<and> upper_char c = c"
  by (auto simp: code_char_def upper_char_def Let_def)

lemma normalize_generated: "normalizeUserCode (genUserCode bytes) = genUserCode bytes"
proof -
  define s where "s = map (\<lambda>i. USER_CODE_ALPHABET ! ((if i < length bytes then bytes ! i else 0) mod length USER_CODE_ALPHABET)) [0..<8]"
  have "set s \<subseteq> set USER_CODE_ALPHABET"
    unfolding s_def set_map by (intro image_subsetI nth_mem mod_less_divisor) simp
  then have s: "filter code_char s = s" "map upper_char s = s"
    using alphabet_chars by (auto simp: filter_id_conv intro: map_idI)
  have len: "length s = 8" by (simp add: s_def)
  have g: "genUserCode bytes = take 4 s @ ''-'' @ drop 4 s" unfolding genUserCode_def s_def [symmetric] Let_def ..
  have "map upper_char (genUserCode bytes) = take 4 s @ ''-'' @ drop 4 s"
    unfolding g using s(2) by (simp add: upper_char_def flip: take_map drop_map)
  moreover have "filter code_char (take 4 s @ ''-'' @ drop 4 s) = s"
  proof -
    have "filter code_char (take 4 s) @ filter code_char (drop 4 s) = s" using s(1) by (metis append_take_drop_id filter_append)
    then show ?thesis by (simp add: code_char_def)
  qed
  ultimately show ?thesis using len unfolding normalizeUserCode_def Let_def g by simp
qed

text \<open>
  The device flow, composed: a client that is enabled for it obtains a device code; once a user has consented under the generated user code, the next poll that keeps
  to the interval returns tokens, and the access token resolves, until it expires, to the consenting user with the tenancy of the client.
\<close>

theorem device_flow:
  fixes b b1 b2 :: broker
  assumes client: "jm_get (bk_clients b) cl = Some client" "oc_enabled client" "''device_code'' \<in> set (oc_grantTypes client)"
      "oc_orgId client \<noteq> []" "oc_workspaceId client \<noteq> []"
    and start: "deviceAuthorization cfg t0 enc dc (genUserCode bytes) cl uri b = (Inr ans, b1)" and "dc \<noteq> []"
    and consent: "deviceApprove t1 (da_user_code ans) subject nm guard b1 = (Inr (), b2)" and "subject \<noteq> []"
    and t: "t2 < t0 + bc_deviceCodeTtlMs cfg" "bc_deviceIntervalMs cfg \<le> t2" "t3 < t2 + bc_accessTtlMs cfg"
    and f: "plain_text (fr_handle f)" "fr_access f \<noteq> []" "\<And>x. hm (bc_pepper cfg) x \<noteq> []"
  shows "\<exists>tok b3. tokenDeviceCode hm cfg t2 f (da_device_code ans) cl b2 = (Inr tok, b3)
    \<and> (\<exists>p. resolveBrokerToken hm cfg t3 (tr_access_token tok) b3 = Inr p
         \<and> p_id p = subject \<and> p_userId p = Some subject \<and> p_displayName p = nm
         \<and> s_orgId (p_scope p) = oc_orgId client \<and> s_workspaceId (p_scope p) = oc_workspaceId client)"
proof -
  let ?uc = "genUserCode bytes"
  define d where "d = \<lparr>d_deviceCode = dc, d_userCode = ?uc, d_clientId = cl, d_status = DevPending,
    d_principalId = None, d_displayName = None, d_orgId = None, d_workspaceId = None, d_expiresAt = t0 + bc_deviceCodeTtlMs cfg,
    d_lastPolledAt = 0, d_intervalMs = bc_deviceIntervalMs cfg\<rparr>"
  have b1: "b1 = b\<lparr>bk_devices := device_create d (bk_devices b)\<rparr>" "da_user_code ans = ?uc" "da_device_code ans = dc"
    using start client by (auto simp: deviceAuthorization_def d_def Let_def)
  have get: "getByUserCode (normalizeUserCode ?uc) (bk_devices b1) = Some d"
    using \<open>dc \<noteq> []\<close> by (simp add: normalize_generated b1 getByUserCode_def device_create_def d_def jm_get_set)
  have b2: "b2 = b1\<lparr>bk_devices := device_update dc (approve_patch subject nm) (bk_devices b1)\<rparr>"
    using consent unfolding b1(2) deviceApprove_def pending_device_def get
    by (auto simp: d_def split: option.splits if_splits)
  define d2 where "d2 = approve_patch subject nm d"
  have d2: "getByDeviceCode dc (bk_devices b2) = Some d2"
    by (simp add: b2 b1 getByDeviceCode_def device_update_def device_create_def d_def d2_def jm_get_set)
  define d3 where "d3 = d2\<lparr>d_lastPolledAt := t2\<rparr>"
  have d3: "jm_get (ds_byDevice (bk_devices (polled t2 dc b2))) dc = Some d3"
    using d2 by (simp add: polled_def device_update_def getByDeviceCode_def d3_def jm_get_set)
  have fields: "d_clientId d2 = cl" "d_expiresAt d2 = t0 + bc_deviceCodeTtlMs cfg" "d_lastPolledAt d2 = 0" "d_status d2 = DevApproved"
    "d_intervalMs d2 = bc_deviceIntervalMs cfg" "d_principalId d2 = Some subject" "d_displayName d2 = Some nm" "d_status d3 = DevApproved"
    by (simp_all add: d2_def d3_def approve_patch_def d_def)
  define base where "base = \<lparr>gb_clientId = cl, gb_principalId = subject, gb_displayName = nm, gb_orgId = oc_orgId client,
    gb_workspaceId = oc_workspaceId client\<rparr>"
  have clients: "jm_get (bk_clients b2) cl = Some client" using client(1) by (simp add: b2 b1)
  have poll: "tokenDeviceCode hm cfg t2 f dc cl b2 =
      map_prod Inr (\<lambda>b. b) (issueGrant hm cfg t2 f base
        (polled t2 dc b2\<lparr>bk_devices := (bk_devices (polled t2 dc b2))
           \<lparr>ds_byDevice := jm_set dc (d3\<lparr>d_status := DevRedeemed\<rparr>) (ds_byDevice (bk_devices (polled t2 dc b2)))\<rparr>\<rparr>))"
    using t \<open>subject \<noteq> []\<close> d2 d3 fields clients
    by (simp add: tokenDeviceCode_def device_transition_def Let_def base_def)
  obtain tok b3 where issued: "tokenDeviceCode hm cfg t2 f dc cl b2 = (Inr tok, b3)"
    "tr_access_token tok = fst (mintAccessToken hm (bc_pepper cfg) (fr_handle f) (fr_access f))"
    "grant_get (fr_handle f) (bk_grants b3) = Some (user_grant hm cfg t2 f base)"
    unfolding poll by (simp add: issueGrant_def grant_get_def grant_create_def jm_get_set)
  have "resolveBrokerToken hm cfg t3 (tr_access_token tok) b3 = Inr (grant_principal (user_grant hm cfg t2 f base))"
    using issued f t(3) client(4,5)
    by (simp add: resolveBrokerToken_def resolveBrokerAccessToken_def parse_minted_access verifyHash_def Let_def)
       (simp add: user_grant_def base_def mintAccessToken_def tokenHash_def)
  then show ?thesis using issued(1) b1(3) by (simp add: grant_principal_def user_grant_def base_def)
qed

section \<open>Instances\<close>

definition sample_env :: oauth_env where
  "sample_env = \<lparr>oe_hmac = \<lambda>k x. CHR ''h'' # x, oe_toNumber = \<lambda>s. Num (real (read_nat s)), oe_sha256 = \<lambda>x. x, oe_newURL = \<lambda>u. None,
     oe_encodeURI = \<lambda>x. x, oe_verifier = None\<rparr>"

definition sample_cfg :: BrokerConfig where
  "sample_cfg = \<lparr>bc_pepper = ''p'', bc_accessTtlMs = 900000, bc_refreshTtlMs = 1000000, bc_absoluteTtlMs = 2000000,
     bc_deviceCodeTtlMs = 600000, bc_deviceIntervalMs = 5000\<rparr>"

definition sample_client :: OAuthClient where
  "sample_client = \<lparr>oc_clientId = ''cli'', oc_name = ''CLI'', oc_orgId = ''org'', oc_workspaceId = ''ws'',
     oc_grantTypes = [''device_code'', ''authorization_code''], oc_redirectAllowlist = [''/cb''], oc_enabled = True\<rparr>"

definition sample_fresh :: fresh where
  "sample_fresh = \<lparr>fr_handle = ''fam'', fr_access = ''a1'', fr_refresh = ''r1''\<rparr>"

definition sample_broker :: broker where
  "sample_broker = \<lparr>bk_grants = [], bk_devices = \<lparr>ds_byDevice = [], ds_byUser = []\<rparr>, bk_codes = [],
     bk_clients = [(''cli'', sample_client)], bk_reuse = []\<rparr>"

abbreviation sample_hm :: hmac where
  "sample_hm \<equiv> oe_hmac sample_env"

definition sample_started :: "(OAuthErrorCode + device_answer) \<times> broker" where
  "sample_started = deviceAuthorization sample_cfg 0 (\<lambda>x. x) ''dev'' (genUserCode []) ''cli'' None sample_broker"

definition sample_approved :: broker where
  "sample_approved = snd (deviceApprove 1000 (genUserCode []) ''ann'' ''Ann'' None (snd sample_started))"

lemma sample_hm_eq: "sample_hm k x = CHR ''h'' # x"
  by (simp add: sample_env_def)

theorem device_flow_witness:
  "\<exists>tok b3. tokenDeviceCode sample_hm sample_cfg 6000 sample_fresh ''dev'' ''cli'' sample_approved = (Inr tok, b3)
    \<and> (\<exists>p. resolveBrokerToken sample_hm sample_cfg 7000 (tr_access_token tok) b3 = Inr p
         \<and> p_id p = ''ann'' \<and> p_userId p = Some ''ann'' \<and> p_displayName p = ''Ann''
         \<and> s_orgId (p_scope p) = ''org'' \<and> s_workspaceId (p_scope p) = ''ws'')"
proof -
  obtain ans b1 where start: "deviceAuthorization sample_cfg 0 (\<lambda>x. x) ''dev'' (genUserCode []) ''cli'' None sample_broker = (Inr ans, b1)"
    and ans: "da_user_code ans = genUserCode []" "da_device_code ans = ''dev''"
    by (simp add: deviceAuthorization_def sample_broker_def sample_client_def Let_def)
  have "fst (deviceApprove 1000 (genUserCode []) ''ann'' ''Ann'' None (snd sample_started)) = Inr ()" by code_simp
  then have "deviceApprove 1000 (da_user_code ans) ''ann'' ''Ann'' None b1 = (Inr (), sample_approved)"
    unfolding ans sample_approved_def by (simp add: sample_started_def start prod_eq_iff)
  from device_flow [where client = sample_client and hm = sample_hm and f = sample_fresh and ?t2.0 = 6000 and ?t3.0 = 7000, OF _ _ _ _ _ start _ this]
  show ?thesis by (simp add: ans sample_broker_def sample_client_def sample_cfg_def sample_fresh_def sample_hm_eq plain_text_def)
qed

definition sample_family :: broker where
  "sample_family = snd (tokenDeviceCode sample_hm sample_cfg 6000 sample_fresh ''dev'' ''cli'' sample_approved)"

definition sample_grant1 :: Grant where
  "sample_grant1 = the (grant_get ''fam'' (bk_grants sample_family))"

lemma sample_family_grant: "grant_get ''fam'' (bk_grants sample_family) = Some sample_grant1"
  by code_simp

lemma sample_refresh_token: "''gko_rt_fam.1.r1'' = fst (mintRefreshToken sample_hm (bc_pepper sample_cfg) ''fam'' 1 ''r1'')"
  by code_simp

lemma sample_number: "0 \<le> i \<Longrightarrow> oe_toNumber sample_env (show_int i) = Num (of_int i)"
  by (simp add: sample_env_def show_int_def)

theorem refresh_reuse_revokes_witness:
  "\<exists>b b''. refresh sample_hm (oe_toNumber sample_env) sample_cfg 9000 sample_fresh False ''gko_rt_fam.1.r1'' ''cli'' b = (Inl InvalidGrant, b'')
     \<and> map_option g_status (grant_get ''fam'' (bk_grants b'')) = Some GrantRevoked"
proof -
  have "g_handle sample_grant1 = ''fam''" "g_status sample_grant1 = GrantActive" "g_clientId sample_grant1 = ''cli''"
    "g_kind sample_grant1 = UserGrant" "g_refreshGeneration sample_grant1 = 1"
    "g_refreshTokenHash sample_grant1 = Some (sample_hm (bc_pepper sample_cfg) ''r1'')"
    "8000 < g_absoluteExpiresAt sample_grant1" "9000 < g_absoluteExpiresAt sample_grant1"
    by code_simp+
  then obtain resp b' b'' where
    "refresh sample_hm (oe_toNumber sample_env) sample_cfg 9000 sample_fresh False ''gko_rt_fam.1.r1'' ''cli'' b' = (Inl InvalidGrant, b'')"
    "map_option g_status (grant_get ''fam'' (bk_grants b'')) = Some GrantRevoked"
    using refresh_reuse_revokes [OF sample_family_grant, where f = sample_fresh and f' = sample_fresh and n = 1 and secret = "''r1''" and now = 8000
      and now' = 9000 and tn = "oe_toNumber sample_env" and hm = sample_hm and cfg = sample_cfg and active = False and client = "''cli''", OF _ _ _ _ _ _ _ _ _ _ _ _ _ sample_number sample_refresh_token]
    by (fastforce simp: plain_text_def sample_fresh_def sample_hm_eq)
  then show ?thesis by blast
qed

definition sample_run :: "broker \<Rightarrow> broker_run" where
  "sample_run b = \<lparr>br_broker = b, br_now = 6000, br_waiting = []\<rparr>"

theorem revocation_final_witness:
  "resolveBrokerToken sample_hm sample_cfg 9000 ''gko_at_fam.a1''
     (br_broker (oauth_run sample_env sample_cfg (sample_run (revoke_family ''fam'' sample_family)) [(5, EvRevoke ''gko_at_x.y'')])) = Inl BfInactive"
proof -
  have "grant_get ''fam'' (bk_grants (br_broker (sample_run (revoke_family ''fam'' sample_family)))) = Some (sample_grant1\<lparr>g_status := GrantRevoked\<rparr>)"
    by code_simp
  moreover have "parseAccess ''gko_at_fam.a1'' = Some \<lparr>pa_handle = ''fam'', pa_secret = ''a1''\<rparr>" by code_simp
  moreover have "parseRefresh (oe_toNumber sample_env) ''gko_rt_fam.1.r1'' = Some \<lparr>pr_handle = ''fam'', pr_generation = 1, pr_secret = ''r1''\<rparr>"
    unfolding sample_refresh_token by (rule parse_minted_refresh) (simp_all add: plain_text_def sample_number)
  moreover have "g_handle sample_grant1 = ''fam''" by code_simp
  ultimately show ?thesis
    using revocation_final [where h = "''fam''" and r = "sample_run (revoke_family ''fam'' sample_family)" and evs = "[(5, EvRevoke ''gko_at_x.y'')]"
      and env = sample_env and cfg = sample_cfg and now = 9000 and access = "''gko_at_fam.a1''" and secret = "''a1''" and old = sample_grant1]
    by (simp add: Let_def)
qed

theorem refresh_single_winner_witness:
  "\<exists>b. refresh_end sample_hm sample_cfg 8001 sample_fresh True (RotateFamily sample_grant1) b = (Inl InvalidGrant, b)"
proof -
  have "isl (fst (refresh_end sample_hm sample_cfg 8000 sample_fresh True (RotateFamily sample_grant1) (br_broker (sample_run sample_family)))) = False"
    by code_simp
  then obtain tok b where
    "refresh_end sample_hm sample_cfg 8000 sample_fresh True (RotateFamily sample_grant1) (br_broker (sample_run sample_family)) = (Inr tok, b)"
    by (metis prod.collapse sum.collapse(2))
  from refresh_single_winner [OF this, of "[]" sample_grant1 8001 sample_fresh] show ?thesis by (auto simp: Let_def)
qed


end
