(* ===== verification/Js_Parse.thy ===== *)
theory Js_Parse
  imports Js_Json
begin

text \<open>
  \<^verbatim>\<open>JSON.parse\<close> of the language: a scanner and a stack machine over its tokens. \<open>None\<close> is the \<^verbatim>\<open>SyntaxError\<close> it throws. A later member of an object
  replaces an earlier one of the same key, and array-index keys come first. Numbers are read exactly. Strings hold code units below 256, so a
  \<^verbatim>\<open>\u\<close> escape above that has no character here and is refused.
\<close>

section \<open>Tokens\<close>

datatype jtoken = TLbrack | TRbrack | TLbrace | TRbrace | TColon | TComma | TVal json

definition json_space :: "char \<Rightarrow> bool" where
  "json_space c \<longleftrightarrow> (of_char c :: nat) \<in> {9, 10, 13, 32}"

definition hex_value :: "char \<Rightarrow> nat option" where
  "hex_value c =
     (let n = (of_char c :: nat) in
      if 48 \<le> n \<and> n \<le> 57 then Some (n - 48) else if 97 \<le> n \<and> n \<le> 102 then Some (n - 87)
      else if 65 \<le> n \<and> n \<le> 70 then Some (n - 55) else None)"

definition simple_escape :: "char \<Rightarrow> char option" where
  "simple_escape c =
     (if c = CHR 0x22 \<or> c = CHR 0x5C \<or> c = CHR ''/'' then Some c else if c = CHR ''b'' then Some (CHR 0x08)
      else if c = CHR ''f'' then Some (CHR 0x0C) else if c = CHR ''n'' then Some (CHR 0x0A)
      else if c = CHR ''r'' then Some (CHR 0x0D) else if c = CHR ''t'' then Some (CHR 0x09) else None)"

definition unicode_escape :: "char \<Rightarrow> char \<Rightarrow> char \<Rightarrow> char \<Rightarrow> char option" where
  "unicode_escape a b c d =
     (case (hex_value a, hex_value b, hex_value c, hex_value d) of
        (Some i, Some j, Some k, Some l) \<Rightarrow> if i = 0 \<and> j = 0 then Some (char_of (16 * k + l)) else None
      | _ \<Rightarrow> None)"

text \<open>The body of a string literal, up to the closing quote.\<close>

fun scan_string :: "string \<Rightarrow> (string \<times> string) option" where
  "scan_string [] = None"
| "scan_string (c # r) =
     (if c = CHR 0x22 then Some ([], r)
      else if c = CHR 0x5C then
        (case r of
           [] \<Rightarrow> None
         | e # t \<Rightarrow>
             if e = CHR ''u'' then
               (case t of
                  h1 # h2 # h3 # h4 # t' \<Rightarrow>
                    (case unicode_escape h1 h2 h3 h4 of
                       None \<Rightarrow> None
                     | Some u \<Rightarrow> map_option (\<lambda>(s, q). (u # s, q)) (scan_string t'))
                | _ \<Rightarrow> None)
             else
               (case simple_escape e of
                  None \<Rightarrow> None
                | Some u \<Rightarrow> map_option (\<lambda>(s, q). (u # s, q)) (scan_string t)))
      else if (of_char c :: nat) < 32 then None
      else map_option (\<lambda>(s, q). (c # s, q)) (scan_string r))"

text \<open>A number: an optional minus, digits with no leading zero, an optional fraction and an optional exponent.\<close>

definition int_part :: "string \<Rightarrow> bool" where
  "int_part ds \<longleftrightarrow> ds = ''0'' \<or> ds \<noteq> [] \<and> hd ds \<noteq> CHR ''0''"

fun read_exponent :: "string \<Rightarrow> real option" where
  "read_exponent [] = Some 1"
| "read_exponent (e # r) =
     (if e = CHR ''e'' \<or> e = CHR ''E'' then
        (let neg = (r \<noteq> [] \<and> hd r = CHR ''-''); ds = (if r \<noteq> [] \<and> (hd r = CHR ''-'' \<or> hd r = CHR ''+'') then tl r else r) in
         if ds \<noteq> [] \<and> list_all is_digit ds then Some (if neg then 1 / 10 ^ read_nat ds else 10 ^ read_nat ds) else None)
      else None)"

fun read_fraction :: "string \<Rightarrow> (real \<times> string) option" where
  "read_fraction (c # r) =
     (if c = CHR ''.'' then
        (let ds = takeWhile is_digit r in
         if ds = [] then None else Some (real (read_nat ds) / 10 ^ length ds, dropWhile is_digit r))
      else Some (0, c # r))"
| "read_fraction [] = Some (0, [])"

definition read_magnitude :: "string \<Rightarrow> real option" where
  "read_magnitude s =
     (let ds = takeWhile is_digit s in
      if \<not> int_part ds then None
      else case read_fraction (dropWhile is_digit s) of
        None \<Rightarrow> None
      | Some (f, r) \<Rightarrow> map_option (\<lambda>e. (real (read_nat ds) + f) * e) (read_exponent r))"

fun read_number :: "string \<Rightarrow> real option" where
  "read_number [] = None"
| "read_number (c # r) =
     (if c = CHR ''-'' then map_option uminus (read_magnitude r) else read_magnitude (c # r))"

definition number_char :: "char \<Rightarrow> bool" where
  "number_char c \<longleftrightarrow> c \<in> set ''0123456789+-.eE''"

definition punctuation :: "char \<Rightarrow> jtoken option" where
  "punctuation c =
     (if c = CHR ''['' then Some TLbrack else if c = CHR '']'' then Some TRbrack
      else if c = CHR ''{'' then Some TLbrace else if c = CHR ''}'' then Some TRbrace
      else if c = CHR '':'' then Some TColon else if c = CHR '','' then Some TComma else None)"

text \<open>One token and the text after it; the first character is not white space.\<close>

definition scan_token :: "string \<Rightarrow> (jtoken \<times> string) option" where
  "scan_token s =
     (if s = [] then None
      else case punctuation (hd s) of
        Some t \<Rightarrow> Some (t, tl s)
      | None \<Rightarrow>
          if hd s = CHR 0x22 then map_option (\<lambda>(v, r). (TVal (JStr v), r)) (scan_string (tl s))
          else if starts_with s ''null'' then Some (TVal JNull, drop 4 s)
          else if starts_with s ''true'' then Some (TVal (JBool True), drop 4 s)
          else if starts_with s ''false'' then Some (TVal (JBool False), drop 5 s)
          else if number_char (hd s) then
            map_option (\<lambda>n. (TVal (JNum (Num n)), dropWhile number_char s)) (read_number (takeWhile number_char s))
          else None)"

lemma scan_string_shorter: "scan_string s = Some (v, r) \<Longrightarrow> length r < length s"
proof (induction s arbitrary: v r rule: scan_string.induct)
  case (2 c s)
  then show ?case by (fastforce split: if_splits list.splits option.splits)
qed simp

lemma length_dropWhile_less: "xs \<noteq> [] \<Longrightarrow> P (hd xs) \<Longrightarrow> length (dropWhile P xs) < length xs"
  by (cases xs) (auto simp: le_imp_less_Suc length_dropWhile_le)

lemma scan_token_shorter: "scan_token s = Some (t, r) \<Longrightarrow> length r < length s"
  unfolding scan_token_def
  by (auto split: if_splits option.splits prod.splits dest!: scan_string_shorter intro: length_dropWhile_less
      simp: less_diff_conv2)

function tokenize :: "string \<Rightarrow> jtoken list option" where
  "tokenize s =
     (if s = [] then Some []
      else if json_space (hd s) then tokenize (tl s)
      else case scan_token s of
        None \<Rightarrow> None
      | Some (t, r) \<Rightarrow> map_option ((#) t) (tokenize r))"
  by pat_completeness auto
termination by (relation "measure length") (auto dest: scan_token_shorter)

declare tokenize.simps [simp del]

section \<open>The machine\<close>

text \<open>
  An open array holds its elements, an open object its members and the key of the one being read. \<open>NeedKey\<close> and \<open>NeedValue\<close> say whether the
  bracket may close here, as it may right after it opened.
\<close>

datatype jframe = FArr "json list" | FObj "(string, json) jsmap" string

datatype jmode = NeedValue bool | NeedKey "(string, json) jsmap" bool | NeedColon "(string, json) jsmap" string | AfterValue json

fun parse_step :: "jmode \<times> jframe list \<Rightarrow> jtoken \<Rightarrow> (jmode \<times> jframe list) option" where
  "parse_step (NeedValue e, st) (TVal v) = Some (AfterValue v, st)"
| "parse_step (NeedValue e, st) TLbrack = Some (NeedValue True, FArr [] # st)"
| "parse_step (NeedValue e, st) TLbrace = Some (NeedKey [] True, st)"
| "parse_step (NeedValue True, FArr xs # st) TRbrack = Some (AfterValue (JArr xs), st)"
| "parse_step (NeedKey m e, st) (TVal (JStr k)) = Some (NeedColon m k, st)"
| "parse_step (NeedKey m True, st) TRbrace = Some (AfterValue (JObj (own_order m)), st)"
| "parse_step (NeedColon m k, st) TColon = Some (NeedValue False, FObj m k # st)"
| "parse_step (AfterValue v, FArr xs # st) TComma = Some (NeedValue False, FArr (xs @ [v]) # st)"
| "parse_step (AfterValue v, FArr xs # st) TRbrack = Some (AfterValue (JArr (xs @ [v])), st)"
| "parse_step (AfterValue v, FObj m k # st) TComma = Some (NeedKey (jm_set k v m) False, st)"
| "parse_step (AfterValue v, FObj m k # st) TRbrace = Some (AfterValue (JObj (own_order (jm_set k v m))), st)"
| "parse_step _ _ = None"

fun parse_tokens :: "jmode \<times> jframe list \<Rightarrow> jtoken list \<Rightarrow> json option" where
  "parse_tokens p (t # ts) = (case parse_step p t of None \<Rightarrow> None | Some p' \<Rightarrow> parse_tokens p' ts)"
| "parse_tokens (AfterValue v, []) [] = Some v"
| "parse_tokens _ [] = None"

definition json_parse :: "string \<Rightarrow> json option" where
  "json_parse s =
     (case tokenize s of None \<Rightarrow> None | Some ts \<Rightarrow> parse_tokens (NeedValue False, []) ts)"

section \<open>Reading back what was printed\<close>

text \<open>The values an object can hold as they are: finite numbers that print readably, and members in the order the language lists them.\<close>

definition num_reads :: "number_text \<Rightarrow> real set \<Rightarrow> bool" where
  "num_reads num S \<longleftrightarrow> (\<forall>r\<in>S. num r \<noteq> [] \<and> list_all number_char (num r) \<and> read_number (num r) = Some r)"

fun json_wf :: "real set \<Rightarrow> json \<Rightarrow> bool" where
  "json_wf S (JNum n) = (case n of Num r \<Rightarrow> r \<in> S | _ \<Rightarrow> False)"
| "json_wf S (JArr xs) = list_all (json_wf S) xs"
| "json_wf S (JObj m) = (jm_ok m \<and> own_order m = m \<and> list_all (\<lambda>(k, v). json_wf S v) m)"
| "json_wf S JNull = True"
| "json_wf S (JBool b) = True"
| "json_wf S (JStr s) = True"

fun sep_tokens :: "jtoken list list \<Rightarrow> jtoken list" where
  "sep_tokens [] = []"
| "sep_tokens [t] = t"
| "sep_tokens (t # u # us) = t @ TComma # sep_tokens (u # us)"

fun to_tokens :: "json \<Rightarrow> jtoken list" where
  "to_tokens (JArr xs) = TLbrack # sep_tokens (map to_tokens xs) @ [TRbrack]"
| "to_tokens (JObj m) =
     TLbrace # sep_tokens (map (\<lambda>(k, v). TVal (JStr k) # TColon # to_tokens v) m) @ [TRbrace]"
| "to_tokens JNull = [TVal JNull]"
| "to_tokens (JBool b) = [TVal (JBool b)]"
| "to_tokens (JNum n) = [TVal (JNum n)]"
| "to_tokens (JStr s) = [TVal (JStr s)]"

definition reads_as :: "string \<Rightarrow> jtoken list \<Rightarrow> bool" where
  "reads_as s ts \<longleftrightarrow> (\<forall>r. delimited r \<longrightarrow> tokenize (s @ r) = map_option ((@) ts) (tokenize r))"

lemma hex_value_digit: "d < 16 \<Longrightarrow> hex_value (hex_digit d) = Some d"
  by (simp add: hex_value_def hex_digit_def Let_def)

lemma scan_escape: "scan_string (json_escape c @ r) = map_option (\<lambda>(s, q). (c # s, q)) (scan_string r)"
proof -
  define n :: nat where "n = of_char c"
  have c: "c = char_of n" by (simp add: n_def)
  have "n < 256" by (simp add: n_def)
  have hex: "16 * (n div 16) + n mod 16 = n" by simp
  consider "n < 32" "n \<notin> {8, 9, 10, 12, 13}" | "n \<in> {8, 9, 10, 12, 13, 34, 92}" | "n \<ge> 32" "n \<noteq> 34" "n \<noteq> 92"
    by fastforce
  then show ?thesis
  proof cases
    case 1
    then have "json_escape c = CHR 0x5C # ''u00'' @ [hex_digit (n div 16), hex_digit (n mod 16)]"
      by (simp add: json_escape_def Let_def flip: n_def)
    moreover have "hex_value (CHR ''0'') = Some 0" by (simp add: hex_value_def)
    ultimately show ?thesis using 1 hex by (simp add: hex_value_digit unicode_escape_def c)
  next
    case 2
    then have "c \<in> {CHR 0x08, CHR 0x09, CHR 0x0A, CHR 0x0C, CHR 0x0D, CHR 0x22, CHR 0x5C}"
      unfolding n_def by (elim insertE emptyE) (simp_all flip: of_char_eq_iff [where 'a = nat])
    then show ?thesis
      by (elim insertE emptyE) (simp_all add: json_escape_def Let_def simple_escape_def)
  next
    case 3
    then have "c \<noteq> CHR 0x5C" "c \<noteq> CHR 0x22" by (auto simp: n_def)
    with 3 show ?thesis by (simp add: json_escape_def Let_def flip: n_def)
  qed
qed

lemma scan_quoted: "scan_string (concat (map json_escape s) @ CHR 0x22 # r) = Some (s, r)"
  by (induction s) (simp_all add: scan_escape)

lemma tokenize_quote: "tokenize (json_quote s @ r) = map_option ((#) (TVal (JStr s))) (tokenize r)"
  by (subst tokenize.simps) (simp add: json_quote_def scan_token_def punctuation_def scan_quoted json_space_def)

lemma tokenize_punctuation: "punctuation c = Some t \<Longrightarrow> tokenize (c # r) = map_option ((#) t) (tokenize r)"
  by (subst tokenize.simps) (auto simp: scan_token_def json_space_def punctuation_def split: if_splits)

lemma tokenize_scan:
  "scan_token s = Some (t, r) \<Longrightarrow> \<not> json_space (hd s) \<Longrightarrow> tokenize s = map_option ((#) t) (tokenize r)"
  by (cases "s = []") (simp_all add: tokenize.simps [of s], simp add: scan_token_def)

lemma tokenize_null: "tokenize (''null'' @ r) = map_option ((#) (TVal JNull)) (tokenize r)"
  by (rule tokenize_scan) (simp_all add: scan_token_def punctuation_def json_space_def)

lemma tokenize_true: "tokenize (''true'' @ r) = map_option ((#) (TVal (JBool True))) (tokenize r)"
  by (rule tokenize_scan) (simp_all add: scan_token_def punctuation_def json_space_def)

lemma tokenize_false: "tokenize (''false'' @ r) = map_option ((#) (TVal (JBool False))) (tokenize r)"
  by (rule tokenize_scan) (simp_all add: scan_token_def punctuation_def json_space_def)

lemma number_char_plain:
  "number_char c \<Longrightarrow> \<not> json_space c \<and> punctuation c = None \<and> c \<noteq> CHR 0x22 \<and> c \<noteq> CHR ''n'' \<and> c \<noteq> CHR ''t'' \<and> c \<noteq> CHR ''f''"
  unfolding number_char_def by (simp, elim disjE) (simp_all add: json_space_def punctuation_def)

lemma delimited_not_number: "delimited r \<Longrightarrow> r = [] \<or> \<not> number_char (hd r)"
  by (cases r) (auto simp: delimited_def number_char_def)

lemma take_number:
  assumes "list_all number_char s" and "delimited r"
  shows "takeWhile number_char (s @ r) = s" and "dropWhile number_char (s @ r) = r"
proof -
  have "takeWhile number_char r = [] \<and> dropWhile number_char r = r"
    using delimited_not_number [OF assms(2)] by (cases r) auto
  with assms(1) show "takeWhile number_char (s @ r) = s" and "dropWhile number_char (s @ r) = r"
    by (simp_all add: list_all_iff takeWhile_append dropWhile_append)
qed

lemma tokenize_number:
  assumes "list_all number_char s" and "s \<noteq> []" and "read_number s = Some n" and "delimited r"
  shows "tokenize (s @ r) = map_option ((#) (TVal (JNum (Num n)))) (tokenize r)"
proof -
  obtain c cs where s: "s = c # cs" using assms(2) by (cases s) auto
  have c: "number_char c" using assms(1) s by simp
  have "scan_token (s @ r) = Some (TVal (JNum (Num n)), r)"
    using number_char_plain [OF c] c assms(3) take_number [OF assms(1,4)] s
    by (auto simp: scan_token_def)
  then show ?thesis by (rule tokenize_scan) (use number_char_plain [OF c] s in simp)
qed

lemma reads_asI: "(\<And>r. delimited r \<Longrightarrow> tokenize (s @ r) = map_option ((@) ts) (tokenize r)) \<Longrightarrow> reads_as s ts"
  by (simp add: reads_as_def)

lemma reads_asD: "reads_as s ts \<Longrightarrow> delimited r \<Longrightarrow> tokenize (s @ r) = map_option ((@) ts) (tokenize r)"
  by (simp add: reads_as_def)

lemma map_option_append: "map_option ((@) a) (map_option ((@) b) x) = map_option ((@) (a @ b)) x"
  by (cases x) simp_all

lemma map_option_Cons_append: "map_option ((#) a) (map_option ((@) b) x) = map_option ((@) (a # b)) x"
  by (cases x) simp_all

lemma map_option_append_Cons: "map_option ((@) a) (map_option ((#) b) x) = map_option ((@) (a @ [b])) x"
  by (cases x) simp_all

lemma map_option_Cons: "map_option ((#) a) x = map_option ((@) [a]) x"
  by (cases x) simp_all

lemmas token_lists = map_option_append map_option_Cons_append map_option_append_Cons

text \<open>A list of texts joined by commas reads as the token lists joined by commas, inside its closing bracket.\<close>

lemma tokenize_joined:
  assumes "list_all2 (\<lambda>x ts. reads_as x ts) xs tss" and "punctuation c = Some t" and "c \<in> set '']}''"
  shows "tokenize (join_with '','' xs @ c # r) = map_option ((@) (sep_tokens tss @ [t])) (tokenize r)"
  using assms(1)
proof (induction xs arbitrary: tss rule: induct_list012)
  case 1
  then show ?case by (simp add: tokenize_punctuation [OF assms(2)])
next
  case (2 x)
  then obtain u where "tss = [u]" and "reads_as x u" by (auto simp: list_all2_Cons1)
  moreover have "delimited (c # r)" using assms(3) by (auto simp: delimited_def)
  ultimately show ?case
    by (cases "tokenize r") (simp_all add: reads_asD tokenize_punctuation [OF assms(2)])
next
  case (3 x y zs)
  then obtain u us where tss: "tss = u # us" and u: "reads_as x u" and us: "list_all2 reads_as (y # zs) us"
    by (auto simp: list_all2_Cons1)
  obtain w ws where "us = w # ws" using us by (cases us) auto
  moreover have "delimited (CHR '','' # q)" for q by (simp add: delimited_def)
  moreover have "tokenize (CHR '','' # q) = map_option ((#) TComma) (tokenize q)" for q
    by (rule tokenize_punctuation) (simp add: punctuation_def)
  ultimately show ?case using tss reads_asD [OF u] "3.IH"(2) [OF us]
    by (cases "tokenize r") simp_all
qed

lemma member_reads: "reads_as t ts \<Longrightarrow> reads_as (json_quote k @ CHR '':'' # t) (TVal (JStr k) # TColon # ts)"
proof (rule reads_asI)
  fix r assume "reads_as t ts" and "delimited r"
  moreover have "tokenize (CHR '':'' # q) = map_option ((#) TColon) (tokenize q)" for q
    by (rule tokenize_punctuation) (simp add: punctuation_def)
  ultimately show "tokenize ((json_quote k @ CHR '':'' # t) @ r) = map_option ((@) (TVal (JStr k) # TColon # ts)) (tokenize r)"
    by (simp add: tokenize_quote reads_asD token_lists)
qed

lemma stringify_reads:
  assumes "num_reads num S"
  shows "json_wf S v \<Longrightarrow> reads_as (stringify num v) (to_tokens v)"
proof (induction v)
  case (JNum n)
  then obtain r where "n = Num r" and "r \<in> S" by (cases n) auto
  with assms show ?case by (auto simp: num_reads_def tokenize_number map_option_Cons intro!: reads_asI)
next
  case (JArr xs)
  have "list_all2 reads_as (map (stringify num) xs) (map to_tokens xs)"
    using JArr by (auto simp: list_all2_conv_all_nth list_all_iff)
  then have "tokenize (join_with '','' (map (stringify num) xs) @ CHR '']'' # r) =
      map_option ((@) (sep_tokens (map to_tokens xs) @ [TRbrack])) (tokenize r)" for r
    by (rule tokenize_joined) (simp_all add: punctuation_def)
  moreover have "tokenize (CHR ''['' # q) = map_option ((#) TLbrack) (tokenize q)" for q
    by (rule tokenize_punctuation) (simp add: punctuation_def)
  ultimately show ?case by (auto simp: token_lists intro!: reads_asI)
next
  case (JObj m)
  have "reads_as (json_quote k @ CHR '':'' # stringify num w) (TVal (JStr k) # TColon # to_tokens w)" if "(k, w) \<in> set m" for k w
    by (rule member_reads) (use JObj that in \<open>auto simp: list_all_iff\<close>)
  then have "list_all2 reads_as (map (\<lambda>(k, w). json_quote k @ '':'' @ stringify num w) m)
      (map (\<lambda>(k, w). TVal (JStr k) # TColon # to_tokens w) m)"
    by (auto simp: list_all2_conv_all_nth split: prod.splits) (metis nth_mem)
  then have "tokenize (join_with '','' (map (\<lambda>(k, w). json_quote k @ '':'' @ stringify num w) m) @ CHR ''}'' # r) =
      map_option ((@) (sep_tokens (map (\<lambda>(k, w). TVal (JStr k) # TColon # to_tokens w) m) @ [TRbrace])) (tokenize r)" for r
    by (rule tokenize_joined) (simp_all add: punctuation_def)
  moreover have "tokenize (CHR ''{'' # q) = map_option ((#) TLbrace) (tokenize q)" for q
    by (rule tokenize_punctuation) (simp add: punctuation_def)
  ultimately show ?case by (auto simp: token_lists intro!: reads_asI)
qed (auto simp: tokenize_null [simplified] tokenize_true [simplified] tokenize_false [simplified] tokenize_quote map_option_Cons intro!: reads_asI)

text \<open>The machine takes the tokens of a value to that value.\<close>

definition delivers :: "json \<Rightarrow> bool" where
  "delivers v \<longleftrightarrow> (\<forall>e st ts. parse_tokens (NeedValue e, st) (to_tokens v @ ts) = parse_tokens (AfterValue v, st) ts)"

lemma deliversD: "delivers v \<Longrightarrow> parse_tokens (NeedValue e, st) (to_tokens v @ ts) = parse_tokens (AfterValue v, st) ts"
  by (simp add: delivers_def)

lemma elements_deliver:
  assumes "list_all delivers (y # ys)"
  shows "parse_tokens (NeedValue e, FArr xs # st) (sep_tokens (map to_tokens (y # ys)) @ TRbrack # ts) =
    parse_tokens (AfterValue (JArr (xs @ y # ys)), st) ts"
  using assms
proof (induction ys arbitrary: e xs y)
  case (Cons z zs)
  then show ?case using Cons.IH [of z False "xs @ [y]"] by (simp add: deliversD)
qed (simp add: deliversD)

abbreviation member_tokens :: "string \<times> json \<Rightarrow> jtoken list" where
  "member_tokens p \<equiv> (case p of (k, v) \<Rightarrow> TVal (JStr k) # TColon # to_tokens v)"

lemma members_deliver:
  assumes "list_all (\<lambda>(k, v). delivers v) (p # ps)" and "jm_ok (m @ p # ps)"
  shows "parse_tokens (NeedKey m e, st) (sep_tokens (map member_tokens (p # ps)) @ TRbrace # ts) =
    parse_tokens (AfterValue (JObj (own_order (m @ p # ps))), st) ts"
  using assms
proof (induction ps arbitrary: e m p)
  case Nil
  obtain k v where "p = (k, v)" by (cases p)
  with Nil show ?case by (simp add: jm_set_absent deliversD)
next
  case (Cons q qs)
  obtain k v where p: "p = (k, v)" by (cases p)
  then show ?case using Cons.IH [of q "m @ [p]" False] Cons.prems by (simp add: jm_set_absent deliversD)
qed

lemma parse_to_tokens: "json_wf S v \<Longrightarrow> delivers v"
proof (induction v)
  case (JArr xs)
  then have all: "list_all delivers xs" by (auto simp: list_all_iff)
  show ?case
  proof (cases xs)
    case (Cons y ys)
    with elements_deliver [of y ys True "[]"] all show ?thesis by (simp add: delivers_def)
  qed (simp add: delivers_def)
next
  case (JObj m)
  then have all: "list_all (\<lambda>(k, v). delivers v) m" by (fastforce simp: list_all_iff)
  show ?case
  proof (cases m)
    case (Cons p ps)
    with members_deliver [of p ps "[]" True] all JObj.prems show ?thesis by (simp add: delivers_def)
  qed (simp add: delivers_def own_order_def)
qed (simp_all add: delivers_def)

lemma parse_stringify:
  assumes "num_reads num S" and "json_wf S v"
  shows "json_parse (stringify num v) = Some v"
  using reads_asD [OF stringify_reads [OF assms], of "[]"] deliversD [OF parse_to_tokens [OF assms(2)], of False "[]" "[]"]
  by (simp add: json_parse_def delimited_def tokenize.simps [of "[]"])

text \<open>Integers print as their digits and read back.\<close>

lemma show_nat_head: "0 < n \<Longrightarrow> hd (show_nat n) \<noteq> CHR ''0''"
proof (induction n rule: show_nat.induct)
  case (1 n)
  show ?case
  proof (cases "n < 10")
    case True
    then have "(of_char (digit_char n) :: nat) \<noteq> of_char (CHR ''0'')" using 1(2) by simp
    then have "digit_char n \<noteq> CHR ''0''" by metis
    with True show ?thesis by (simp add: show_nat.simps [of n])
  next
    case False
    then show ?thesis using 1 by (simp add: show_nat.simps [of n])
  qed
qed

lemma int_part_show: "int_part (show_nat n)"
  by (cases "n = 0") (simp_all add: int_part_def show_nat_head, simp add: show_nat.simps digit_char_def)

lemma read_show_number: "read_number (show_nat n) = Some (real n)"
proof -
  have d: "takeWhile is_digit (show_nat n) = show_nat n" "dropWhile is_digit (show_nat n) = []"
    using show_nat_digits [of n] by (auto simp: list_all_iff takeWhile_eq_all_conv)
  have "hd (show_nat n) \<noteq> CHR ''-''"
    using show_nat_digits [of n] by (cases "show_nat n") (auto simp: is_digit_def)
  then have "read_number (show_nat n) = read_magnitude (show_nat n)" by (cases "show_nat n") auto
  then show ?thesis using int_part_show [of n] d by (simp add: read_magnitude_def Let_def)
qed

end
