(* ===== verification/Cache.thy ===== *)
theory Cache
  imports Js_Parse
begin

text \<open>
  The response cache of \<^verbatim>\<open>packages/cache\<close>: the keys of \<^verbatim>\<open>key.ts\<close>, the bounded exact tier of \<^verbatim>\<open>exact.ts\<close>, the vector index of \<^verbatim>\<open>vector.ts\<close>
  and the two-tier engine of \<^verbatim>\<open>engine.ts\<close>. A body is its decoded text; SHA-256 in hex and the embedding model are arguments, an embedding that
  is refused being \<open>None\<close>. The two locales state what the engine relies on in its tiers; a response it serves was stored for the same partition.
\<close>

section \<open>Requests and responses\<close>

record CacheableRequest =
  cq_scope :: string
  cq_provider :: string
  cq_model :: string
  cq_path :: string
  cq_body :: string
  cq_variant :: "string option"
  cq_stream :: "bool option"
  cq_semantic :: "bool option"

record CachedResponse =
  cr_statusCode :: int
  cr_headers :: "(string, string list) jsmap"
  cr_body :: string
  cr_streamed :: bool
  cr_model :: string
  cr_inputTokens :: int
  cr_outputTokens :: int
  cr_createdAtMs :: int

datatype CacheStatus = HitExact | HitSemantic | Miss | Bypass

record VectorMatch =
  vm_id :: string
  vm_score :: real

section \<open>Keys\<close>

definition VOLATILE_KEYS :: "string set" where
  "VOLATILE_KEYS = {''stream'', ''metadata''}"

definition streamTag :: "CacheableRequest \<Rightarrow> string" where
  "streamTag q = (if cq_stream q = Some True then ''stream'' else ''buffered'')"

text \<open>Assigning the member \<^verbatim>\<open>__proto__\<close> of the copy sets its prototype and makes no member.\<close>

function cache_canonicalize :: "json \<Rightarrow> nat \<Rightarrow> json" where
  "cache_canonicalize (JArr xs) depth = JArr (map (\<lambda>v. cache_canonicalize v (depth + 1)) xs)"
| "cache_canonicalize (JObj m) depth =
     JObj (own_order (map (\<lambda>(k, v). (k, cache_canonicalize v (depth + 1)))
       (filter (\<lambda>(k, v). \<not> (depth = 0 \<and> k \<in> VOLATILE_KEYS) \<and> k \<noteq> ''__proto__'') (sort_key fst m))))"
| "cache_canonicalize JNull depth = JNull"
| "cache_canonicalize (JBool b) depth = JBool b"
| "cache_canonicalize (JNum n) depth = JNum n"
| "cache_canonicalize (JStr s) depth = JStr s"
  by pat_completeness auto
termination
  by (relation "measure (\<lambda>(v, d). size v)") (auto simp: size_list_estimation' intro: le_imp_less_Suc)

definition canonicalBody :: "number_text \<Rightarrow> string \<Rightarrow> string" where
  "canonicalBody num body =
     (case json_parse body of
        Some v \<Rightarrow> stringify num (cache_canonicalize v 0)
      | None \<Rightarrow> body)"

definition key_parts :: "CacheableRequest \<Rightarrow> string list" where
  "key_parts q = [cq_scope q, cq_provider q, cq_model q, cq_path q, (case cq_variant q of None \<Rightarrow> [] | Some v \<Rightarrow> v), streamTag q]"

definition exactKey :: "(string \<Rightarrow> string) \<Rightarrow> number_text \<Rightarrow> CacheableRequest \<Rightarrow> string" where
  "exactKey sha256 num q =
     cq_scope q @ '':'' @ sha256 (concat (map (\<lambda>part. part @ [CHR 0x00]) (key_parts q)) @ canonicalBody num (cq_body q))"

fun textOf :: "json \<Rightarrow> string option" where
  "textOf (JObj m) = (case jm_get m ''text'' of Some (JStr t) \<Rightarrow> Some t | _ \<Rightarrow> None)"
| "textOf _ = None"

fun collectContent :: "json \<Rightarrow> string list \<Rightarrow> string list" where
  "collectContent (JStr s) parts = parts @ [s]"
| "collectContent (JArr bs) parts = parts @ List.map_filter textOf bs"
| "collectContent _ parts = parts"

definition semanticText :: "string \<Rightarrow> string" where
  "semanticText body =
     (case json_parse body of
        Some (JObj obj) \<Rightarrow>
          (let parts = List.map_filter (\<lambda>k. case jm_get obj k of Some (JStr s) \<Rightarrow> Some s | _ \<Rightarrow> None)
                 [''system'', ''instructions'', ''input''];
               parts' = (case jm_get obj ''messages'' of
                  Some (JArr ms) \<Rightarrow>
                    foldl (\<lambda>ps m. case j_field m ''content'' of Some c \<Rightarrow> collectContent c ps | None \<Rightarrow> ps) parts ms
                | _ \<Rightarrow> parts) in
           js_trim (join_with [CHR 0x0A] parts'))
      | _ \<Rightarrow> [])"

definition VECTOR_SCOPE_SEPARATOR :: string where
  "VECTOR_SCOPE_SEPARATOR = [CHR 0x1F]"

definition vectorScope :: "CacheableRequest \<Rightarrow> string" where
  "vectorScope q = join_with VECTOR_SCOPE_SEPARATOR (key_parts q)"

section \<open>The exact tier\<close>

record Slot =
  sl_value :: CachedResponse
  sl_expiresAtMs :: int

record InMemoryExactCache =
  xc_map :: "(string, Slot) jsmap"
  xc_maxEntries :: int
  xc_writes :: int

definition SWEEP_EVERY_N_WRITES :: int where
  "SWEEP_EVERY_N_WRITES = 256"

definition new_exact_cache :: "int option \<Rightarrow> InMemoryExactCache" where
  "new_exact_cache maxEntries =
     \<lparr>xc_map = [], xc_maxEntries = max 1 (case maxEntries of None \<Rightarrow> 10000 | Some n \<Rightarrow> n), xc_writes = 0\<rparr>"

definition exact_get :: "int \<Rightarrow> InMemoryExactCache \<Rightarrow> string \<Rightarrow> CachedResponse option \<times> InMemoryExactCache" where
  "exact_get now c key =
     (case jm_get (xc_map c) key of
        None \<Rightarrow> (None, c)
      | Some slot \<Rightarrow>
          if sl_expiresAtMs slot \<le> now then (None, c\<lparr>xc_map := jm_delete key (xc_map c)\<rparr>)
          else (Some (sl_value slot), c))"

text \<open>Visiting every entry and deleting the expired ones; the number removed.\<close>

definition exact_sweep :: "int \<Rightarrow> InMemoryExactCache \<Rightarrow> int \<times> InMemoryExactCache" where
  "exact_sweep now c =
     (let live = filter (\<lambda>(k, s). \<not> sl_expiresAtMs s \<le> now) (xc_map c) in
      (int (length (xc_map c)) - int (length live), c\<lparr>xc_map := live\<rparr>))"

text \<open>Deleting the oldest entry while the map is over its bound.\<close>

function evict :: "int \<Rightarrow> ('k, 'v) jsmap \<Rightarrow> ('k, 'v) jsmap" where
  "evict n m = (if n < int (length m) \<and> m \<noteq> [] then evict n (jm_delete (fst (hd m)) m) else m)"
  by pat_completeness auto
termination
proof (relation "measure (\<lambda>(n, m). length m)")
  fix n :: int and m :: "('k, 'v) jsmap"
  assume "n < int (length m) \<and> m \<noteq> []"
  moreover have "length (jm_delete k xs) \<le> length xs" for k and xs :: "('k, 'v) jsmap"
    by (simp add: AList.delete_eq)
  ultimately show "((n, jm_delete (fst (hd m)) m), n, m) \<in> measure (\<lambda>(n, m). length m)"
    by (cases m) (auto simp: le_imp_less_Suc)
qed simp

declare evict.simps [simp del]

definition exact_set :: "int \<Rightarrow> InMemoryExactCache \<Rightarrow> string \<Rightarrow> CachedResponse \<Rightarrow> int \<Rightarrow> InMemoryExactCache" where
  "exact_set now c key value ttlSeconds =
     (let c1 = c\<lparr>xc_writes := xc_writes c + 1\<rparr>;
          c2 = (if xc_writes c1 mod SWEEP_EVERY_N_WRITES = 0 then snd (exact_sweep now c1) else c1);
          m = jm_set key \<lparr>sl_value = value, sl_expiresAtMs = now + ttlSeconds * 1000\<rparr> (jm_delete key (xc_map c2)) in
      c2\<lparr>xc_map := evict (xc_maxEntries c2) m\<rparr>)"

section \<open>The vector index\<close>

fun dot_products :: "real list \<Rightarrow> real list \<Rightarrow> real \<times> real \<times> real" where
  "dot_products (x # a) (y # b) = (let (d, na, nb) = dot_products a b in (x * y + d, x * x + na, y * y + nb))"
| "dot_products _ _ = (0, 0, 0)"

definition cosineSimilarity :: "real list \<Rightarrow> real list \<Rightarrow> real" where
  "cosineSimilarity a b =
     (let (d, na, nb) = dot_products a b in if na = 0 \<or> nb = 0 then 0 else d / (sqrt na * sqrt nb))"

text \<open>\<open>None\<close> is the expiry \<^verbatim>\<open>Infinity\<close>.\<close>

record vector_entry =
  ve_embedding :: "real list"
  ve_expiresAtMs :: "int option"

record InMemoryVectorIndex =
  vi_byScope :: "(string, (string, vector_entry) jsmap) jsmap"
  vi_maxPerScope :: int

definition new_vector_index :: "int option \<Rightarrow> InMemoryVectorIndex" where
  "new_vector_index maxPerScope = \<lparr>vi_byScope = [], vi_maxPerScope = max 1 (case maxPerScope of None \<Rightarrow> 5000 | Some n \<Rightarrow> n)\<rparr>"

definition vector_upsert :: "int \<Rightarrow> InMemoryVectorIndex \<Rightarrow> string \<Rightarrow> string \<Rightarrow> real list \<Rightarrow> int option \<Rightarrow> InMemoryVectorIndex" where
  "vector_upsert now ix scope vid embedding ttlSeconds =
     (let m = (case jm_get (vi_byScope ix) scope of Some m \<Rightarrow> m | None \<Rightarrow> []);
          expires = (case ttlSeconds of Some ttl \<Rightarrow> if 0 < ttl then Some (now + ttl * 1000) else None | None \<Rightarrow> None);
          m' = jm_set vid \<lparr>ve_embedding = embedding, ve_expiresAtMs = expires\<rparr> (jm_delete vid m) in
      ix\<lparr>vi_byScope := jm_set scope (evict (vi_maxPerScope ix) m') (vi_byScope ix)\<rparr>)"

definition vector_live :: "int \<Rightarrow> vector_entry \<Rightarrow> bool" where
  "vector_live now e = (case ve_expiresAtMs e of None \<Rightarrow> True | Some t \<Rightarrow> \<not> t \<le> now)"

definition vector_query :: "int \<Rightarrow> InMemoryVectorIndex \<Rightarrow> string \<Rightarrow> real list \<Rightarrow> nat \<Rightarrow> VectorMatch list \<times> InMemoryVectorIndex" where
  "vector_query now ix scope embedding topK =
     (case jm_get (vi_byScope ix) scope of
        None \<Rightarrow> ([], ix)
      | Some m \<Rightarrow>
          (let live = filter (\<lambda>(i, e). vector_live now e) m;
               scored = map (\<lambda>(i, e). \<lparr>vm_id = i, vm_score = cosineSimilarity embedding (ve_embedding e)\<rparr>) live in
           (take topK (sort_key (\<lambda>v. - vm_score v) scored),
            ix\<lparr>vi_byScope := (if live = [] then jm_delete scope (vi_byScope ix) else jm_set scope live (vi_byScope ix))\<rparr>)))"

definition vector_size :: "InMemoryVectorIndex \<Rightarrow> string \<Rightarrow> nat" where
  "vector_size ix scope = (case jm_get (vi_byScope ix) scope of Some m \<Rightarrow> length m | None \<Rightarrow> 0)"

section \<open>The engine\<close>

record SemanticConfig =
  sc_embed :: "string \<Rightarrow> real list option"
  sc_threshold :: real

record CacheLookup =
  cl_status :: CacheStatus
  cl_exactKey :: string
  cl_response :: "CachedResponse option"
  cl_embedding :: "real list option"

type_synonym 's exact_read = "int \<Rightarrow> 's \<Rightarrow> string \<Rightarrow> CachedResponse option \<times> 's"
type_synonym 's exact_write = "int \<Rightarrow> 's \<Rightarrow> string \<Rightarrow> CachedResponse \<Rightarrow> int \<Rightarrow> 's"
type_synonym 'i vector_read = "int \<Rightarrow> 'i \<Rightarrow> string \<Rightarrow> real list \<Rightarrow> nat \<Rightarrow> VectorMatch list \<times> 'i"
type_synonym 'i vector_write = "int \<Rightarrow> 'i \<Rightarrow> string \<Rightarrow> string \<Rightarrow> real list \<Rightarrow> int option \<Rightarrow> 'i"

record key_functions =
  kf_sha256 :: "string \<Rightarrow> string"
  kf_number :: number_text

abbreviation request_key :: "key_functions \<Rightarrow> CacheableRequest \<Rightarrow> string" where
  "request_key kf q \<equiv> exactKey (kf_sha256 kf) (kf_number kf) q"

text \<open>A lookup against its two tiers; \<open>None\<close> when the embedding is refused.\<close>

definition cache_lookup ::
  "'s exact_read \<Rightarrow> 'i vector_read \<Rightarrow> key_functions \<Rightarrow> SemanticConfig option \<Rightarrow> int \<Rightarrow> 's \<times> 'i \<Rightarrow> CacheableRequest
     \<Rightarrow> CacheLookup option \<times> 's \<times> 'i" where
  "cache_lookup get query kf sem now st q =
     (let key = request_key kf q; (hit, ex) = get now (fst st) key; ix = snd st;
          miss = \<lparr>cl_status = Miss, cl_exactKey = key, cl_response = None, cl_embedding = None\<rparr> in
      case hit of
        Some r \<Rightarrow> (Some (miss\<lparr>cl_status := HitExact, cl_response := Some r\<rparr>), ex, ix)
      | None \<Rightarrow>
          (case sem of
             None \<Rightarrow> (Some miss, ex, ix)
           | Some sc \<Rightarrow>
               let txt = semanticText (cq_body q) in
               if cq_semantic q = Some False \<or> txt = [] then (Some miss, ex, ix)
               else
                 (case sc_embed sc txt of
                    None \<Rightarrow> (None, ex, ix)
                  | Some e \<Rightarrow>
                      let (found, ix') = query now ix (vectorScope q) e 1 in
                      case found of
                        best # _ \<Rightarrow>
                          if sc_threshold sc \<le> vm_score best then
                            (case get now ex (vm_id best) of
                               (Some r, ex') \<Rightarrow> (Some (miss\<lparr>cl_status := HitSemantic, cl_response := Some r\<rparr>), ex', ix')
                             | (None, ex') \<Rightarrow> (Some (miss\<lparr>cl_embedding := Some e\<rparr>), ex', ix'))
                          else (Some (miss\<lparr>cl_embedding := Some e\<rparr>), ex, ix')
                      | [] \<Rightarrow> (Some (miss\<lparr>cl_embedding := Some e\<rparr>), ex, ix'))))"

definition cache_store ::
  "'s exact_write \<Rightarrow> 'i vector_write \<Rightarrow> SemanticConfig option \<Rightarrow> int \<Rightarrow> int \<Rightarrow> 's \<times> 'i \<Rightarrow> CacheableRequest \<Rightarrow> CachedResponse
     \<Rightarrow> CacheLookup \<Rightarrow> 's \<times> 'i" where
  "cache_store put upsert sem ttlSeconds now st q r lk =
     (put now (fst st) (cl_exactKey lk) r ttlSeconds,
      (case (sem, cl_embedding lk) of
         (Some sc, Some e) \<Rightarrow> upsert now (snd st) (vectorScope q) (cl_exactKey lk) e (Some ttlSeconds)
       | _ \<Rightarrow> snd st))"

text \<open>The calls of a deployment: a lookup, and a store of what the upstream answered under the key and embedding of a lookup for the same request.\<close>

datatype cache_call = CacheLookupCall int CacheableRequest | CacheStoreCall int CacheableRequest CachedResponse "real list option"

fun cache_call_step ::
  "'s exact_read \<Rightarrow> 's exact_write \<Rightarrow> 'i vector_read \<Rightarrow> 'i vector_write \<Rightarrow> key_functions \<Rightarrow> SemanticConfig option \<Rightarrow> int
     \<Rightarrow> 's \<times> 'i \<Rightarrow> cache_call \<Rightarrow> 's \<times> 'i" where
  "cache_call_step get put query upsert kf sem ttl st (CacheLookupCall now q) = snd (cache_lookup get query kf sem now st q)"
| "cache_call_step get put query upsert kf sem ttl st (CacheStoreCall now q r e) =
     cache_store put upsert sem ttl now st q r \<lparr>cl_status = Miss, cl_exactKey = request_key kf q, cl_response = None, cl_embedding = e\<rparr>"

section \<open>What the engine relies on\<close>

locale exact_tier =
  fixes get :: "'s exact_read" and put :: "'s exact_write" and holds :: "'s \<Rightarrow> string \<Rightarrow> CachedResponse \<Rightarrow> bool"
  assumes get_holds: "fst (get now s k) = Some v \<Longrightarrow> holds s k v"
    and get_keeps: "holds (snd (get now s k)) k' v \<Longrightarrow> holds s k' v"
    and put_holds: "holds (put now s k v ttl) k' v' \<Longrightarrow> k' = k \<and> v' = v \<or> holds s k' v'"

locale vector_tier =
  fixes query :: "'i vector_read" and upsert :: "'i vector_write" and indexed :: "'i \<Rightarrow> string \<Rightarrow> string \<Rightarrow> bool"
  assumes query_indexed: "m \<in> set (fst (query now ix sc e n)) \<Longrightarrow> indexed ix sc (vm_id m)"
    and query_keeps: "indexed (snd (query now ix sc e n)) sc' i \<Longrightarrow> indexed ix sc' i"
    and upsert_indexed: "indexed (upsert now ix sc i e ttl) sc' i' \<Longrightarrow> sc' = sc \<and> i' = i \<or> indexed ix sc' i'"

locale cache_tiers = exact_tier get put holds + vector_tier query upsert indexed
  for get :: "'s exact_read" and put and holds and query :: "'i vector_read" and upsert and indexed +
  fixes kf :: key_functions and sem :: "SemanticConfig option" and ttl :: int
begin

abbreviation call :: "'s \<times> 'i \<Rightarrow> cache_call \<Rightarrow> 's \<times> 'i" where
  "call \<equiv> cache_call_step get put query upsert kf sem ttl"

definition accounted :: "(CacheableRequest \<times> CachedResponse) set \<Rightarrow> 's \<times> 'i \<Rightarrow> bool" where
  "accounted H st \<longleftrightarrow>
     (\<forall>k v. holds (fst st) k v \<longrightarrow> (\<exists>q. (q, v) \<in> H \<and> request_key kf q = k)) \<and>
     (\<forall>sc i. indexed (snd st) sc i \<longrightarrow> (\<exists>q r. (q, r) \<in> H \<and> request_key kf q = i \<and> vectorScope q = sc))"

definition stored_by :: "cache_call \<Rightarrow> (CacheableRequest \<times> CachedResponse) set" where
  "stored_by c = (case c of CacheStoreCall now q r e \<Rightarrow> {(q, r)} | CacheLookupCall now q \<Rightarrow> {})"

lemma lookup_keeps:
  "holds (fst (snd (cache_lookup get query kf sem now st q))) k v \<Longrightarrow> holds (fst st) k v"
  "indexed (snd (snd (cache_lookup get query kf sem now st q))) sc i \<Longrightarrow> indexed (snd st) sc i"
  by (auto simp: cache_lookup_def Let_def split: prod.splits option.splits if_splits list.splits)
    (metis get_keeps query_keeps snd_conv)+

text \<open>What a lookup serves is under the key of the request, or under a neighbour's key in the vector partition of the request.\<close>

lemma lookup_serves:
  assumes "cache_lookup get query kf sem now st q = (Some lk, st')" and "cl_response lk = Some r"
  shows "holds (fst st) (request_key kf q) r \<or> (\<exists>i. indexed (snd st) (vectorScope q) i \<and> holds (fst st) i r)"
proof -
  obtain hit ex where g: "get now (fst st) (request_key kf q) = (hit, ex)" by fastforce
  show ?thesis
  proof (cases hit)
    case (Some v)
    with g get_holds [of now "fst st" "request_key kf q" v] assms show ?thesis by (auto simp: cache_lookup_def Let_def)
  next
    case None
    with g assms obtain sc e best rest ix' where q: "query now (snd st) (vectorScope q) e 1 = (best # rest, ix')"
      and hit: "fst (get now ex (vm_id best)) = Some r"
      by (auto simp: cache_lookup_def Let_def split: option.splits if_splits prod.splits list.splits)
    from query_indexed [of best now "snd st" "vectorScope q" e 1] q have "indexed (snd st) (vectorScope q) (vm_id best)" by simp
    moreover from get_holds [OF hit] get_keeps [of now "fst st" "request_key kf q"] g have "holds (fst st) (vm_id best) r" by simp
    ultimately show ?thesis by blast
  qed
qed

lemma stored_by_iff: "(q, r) \<in> stored_by c \<longleftrightarrow> (\<exists>now e. c = CacheStoreCall now q r e)"
  by (cases c) (auto simp: stored_by_def)

lemma accounted_mono: "accounted H st \<Longrightarrow> H \<subseteq> H' \<Longrightarrow> accounted H' st"
  unfolding accounted_def by blast

lemma call_accounted:
  assumes "accounted H st"
  shows "accounted (H \<union> stored_by c) (call st c)"
proof (cases c)
  case (CacheLookupCall now q)
  then show ?thesis using assms lookup_keeps by (simp add: accounted_def stored_by_def)
next
  case (CacheStoreCall now q r e)
  have "k = request_key kf q \<and> v = r \<or> holds (fst st) k v" if "holds (fst (call st c)) k v" for k v
    using that put_holds by (simp add: CacheStoreCall cache_store_def)
  moreover have "sc = vectorScope q \<and> i = request_key kf q \<or> indexed (snd st) sc i" if "indexed (snd (call st c)) sc i" for sc i
    using that upsert_indexed by (auto simp: CacheStoreCall cache_store_def split: option.splits)
  ultimately show ?thesis using assms
    by (simp add: accounted_def stored_by_def CacheStoreCall) metis
qed

lemma run_accounted:
  "accounted H st \<Longrightarrow> accounted (H \<union> (\<Union>c\<in>set cs. stored_by c)) (foldl call st cs)"
proof (induction cs arbitrary: H st)
  case (Cons c cs)
  from Cons.IH [OF call_accounted [OF Cons.prems, of c]] show ?case by (simp add: Un_assoc)
qed simp

lemma served_was_stored:
  assumes "accounted {} st" and "cache_lookup get query kf sem now (foldl call st cs) q = (Some lk, st')" and "cl_response lk = Some r"
  shows "\<exists>q1 q2 now' e now2 r2 e2. CacheStoreCall now' q1 r e \<in> set cs \<and>
    (request_key kf q1 = request_key kf q \<or>
     CacheStoreCall now2 q2 r2 e2 \<in> set cs \<and> request_key kf q1 = request_key kf q2 \<and> vectorScope q2 = vectorScope q)"
proof -
  let ?H = "\<Union>c\<in>set cs. stored_by c"
  have H: "(p, v) \<in> ?H \<Longrightarrow> \<exists>t e. CacheStoreCall t p v e \<in> set cs" for p v
    by (auto simp: stored_by_iff)
  have acc: "accounted ?H (foldl call st cs)" using run_accounted [OF assms(1), of cs] by simp
  from lookup_serves [OF assms(2,3)] show ?thesis
  proof
    assume "holds (fst (foldl call st cs)) (request_key kf q) r"
    then show ?thesis using acc H unfolding accounted_def by metis
  next
    assume "\<exists>i. indexed (snd (foldl call st cs)) (vectorScope q) i \<and> holds (fst (foldl call st cs)) i r"
    then show ?thesis using acc H unfolding accounted_def by metis
  qed
qed

end

section \<open>The in-memory tiers\<close>

lemma evict_sub: "set (evict n m) \<subseteq> set m"
proof (induction n m rule: evict.induct)
  case (1 n m)
  then show ?case using jm_delete_sub [of "fst (hd m)" m] by (subst evict.simps) auto
qed

definition exact_holds :: "InMemoryExactCache \<Rightarrow> string \<Rightarrow> CachedResponse \<Rightarrow> bool" where
  "exact_holds c k v \<longleftrightarrow> (\<exists>t. (k, \<lparr>sl_value = v, sl_expiresAtMs = t\<rparr>) \<in> set (xc_map c))"

definition vector_holds :: "InMemoryVectorIndex \<Rightarrow> string \<Rightarrow> string \<Rightarrow> bool" where
  "vector_holds ix sc i \<longleftrightarrow> (\<exists>m. (sc, m) \<in> set (vi_byScope ix) \<and> i \<in> fst ` set m)"

interpretation memory_exact: exact_tier exact_get exact_set exact_holds
proof
  fix now s k v k' v' ttl
  show "fst (exact_get now s k) = Some v \<Longrightarrow> exact_holds s k v"
    by (auto simp: exact_get_def exact_holds_def split: option.splits if_splits dest!: map_of_SomeD)
      (metis Slot.surjective old.unit.exhaust)
  show "exact_holds (snd (exact_get now s k)) k' v \<Longrightarrow> exact_holds s k' v"
    using jm_delete_sub by (fastforce simp: exact_get_def exact_holds_def split: option.splits if_splits)
  show "exact_holds (exact_set now s k v ttl) k' v' \<Longrightarrow> k' = k \<and> v' = v \<or> exact_holds s k' v'"
    by (auto simp: exact_set_def exact_sweep_def exact_holds_def Let_def split: if_splits
        dest!: subsetD [OF evict_sub] jm_set_sub subsetD [OF jm_delete_sub])
qed

interpretation memory_vectors: vector_tier vector_query vector_upsert vector_holds
proof
  fix m and now :: int and ix sc e and n :: nat and sc' i i' ttl
  show "m \<in> set (fst (vector_query now ix sc e n)) \<Longrightarrow> vector_holds ix sc (vm_id m)"
    by (cases "jm_get (vi_byScope ix) sc")
      (auto simp: vector_query_def vector_holds_def Let_def dest!: in_set_takeD map_of_SomeD, force)
  show "vector_holds (snd (vector_query now ix sc e n)) sc' i \<Longrightarrow> vector_holds ix sc' i"
    by (fastforce simp: vector_query_def vector_holds_def Let_def split: option.splits if_splits
        dest!: jm_set_sub subsetD [OF jm_delete_sub] map_of_SomeD)
  show "vector_holds (vector_upsert now ix sc i e ttl) sc' i' \<Longrightarrow> sc' = sc \<and> i' = i \<or> vector_holds ix sc' i'"
    by (fastforce simp: vector_upsert_def vector_holds_def Let_def split: option.splits
        dest!: subsetD [OF evict_sub] jm_set_sub subsetD [OF jm_delete_sub] map_of_SomeD)
qed

interpretation memory_cache: cache_tiers exact_get exact_set exact_holds vector_query vector_upsert vector_holds kf sem ttl for kf sem ttl
  by unfold_locales

section \<open>The exact tier over a run\<close>

datatype exact_op = XGet int string | XSet int string CachedResponse int | XSweep int

fun exact_step :: "InMemoryExactCache \<Rightarrow> exact_op \<Rightarrow> InMemoryExactCache" where
  "exact_step c (XGet now k) = snd (exact_get now c k)"
| "exact_step c (XSet now k v ttl) = exact_set now c k v ttl"
| "exact_step c (XSweep now) = snd (exact_sweep now c)"

text \<open>The last response stored for a key, with the instant it expires.\<close>

fun last_stored :: "exact_op list \<Rightarrow> string \<Rightarrow> (CachedResponse \<times> int) option" where
  "last_stored [] k = None"
| "last_stored (x # xs) k =
     (case last_stored xs k of
        Some p \<Rightarrow> Some p
      | None \<Rightarrow> (case x of XSet now k' v ttl \<Rightarrow> if k' = k then Some (v, now + ttl * 1000) else None | _ \<Rightarrow> None))"

definition exact_ok :: "InMemoryExactCache \<Rightarrow> bool" where
  "exact_ok c \<longleftrightarrow> jm_ok (xc_map c) \<and> int (length (xc_map c)) \<le> xc_maxEntries c \<and> 1 \<le> xc_maxEntries c"

lemma evict_ok: "jm_ok m \<Longrightarrow> jm_ok (evict n m)"
proof (induction n m rule: evict.induct)
  case (1 n m)
  then show ?case by (subst evict.simps) (auto intro: jm_ok_delete)
qed

lemma evict_bound: "0 \<le> n \<Longrightarrow> int (length (evict n m)) \<le> n"
proof (induction n m rule: evict.induct)
  case (1 n m)
  then show ?case by (subst evict.simps) auto
qed

lemma evict_newest: "1 \<le> n \<Longrightarrow> jm_ok (m @ [(k, v)]) \<Longrightarrow> jm_get (evict n (m @ [(k, v)])) k = Some v"
proof (induction n "m @ [(k, v)]" arbitrary: m rule: evict.induct)
  case (1 n m)
  show ?case
  proof (cases m)
    case Nil
    with 1(2) show ?thesis by (simp add: evict.simps)
  next
    case (Cons p m')
    then have "jm_delete (fst p) (m @ [(k, v)]) = m' @ [(k, v)]"
      using 1(3) by (cases p) (auto simp: jm_delete_absent map_of_eq_None_iff image_iff)
    moreover have "jm_get m' k = None" using 1(3) Cons by (simp add: map_of_eq_None_iff)
    ultimately show ?thesis using 1 Cons by (subst evict.simps) (auto simp: map_add_def)
  qed
qed

lemma jm_get_mem_sub:
  assumes "jm_ok m" and "set m' \<subseteq> set m" and "jm_get m' k = Some v"
  shows "jm_get m k = Some v"
  using assms map_of_SomeD [OF assms(3)] by auto

lemma exact_sweep_ok: "exact_ok c \<Longrightarrow> exact_ok (snd (exact_sweep now c))"
  unfolding exact_ok_def exact_sweep_def Let_def
  by (auto simp: distinct_map inj_on_def intro: order_trans [OF zle_int [THEN iffD2, OF length_filter_le]])

lemma length_delete_le: "length (jm_delete k m) \<le> length m"
  by (simp add: AList.delete_eq)

lemma exact_set_ok: "exact_ok c \<Longrightarrow> exact_ok (exact_set now c k v ttl)"
proof -
  assume c: "exact_ok c"
  define c1 where "c1 = c\<lparr>xc_writes := xc_writes c + 1\<rparr>"
  define c2 where "c2 = (if xc_writes c1 mod SWEEP_EVERY_N_WRITES = 0 then snd (exact_sweep now c1) else c1)"
  have "exact_ok c1" using c by (simp add: c1_def exact_ok_def)
  then have "exact_ok c2" by (simp add: c2_def exact_sweep_ok)
  then show ?thesis
    unfolding exact_set_def Let_def c1_def [symmetric] c2_def [symmetric]
    by (auto simp: exact_ok_def intro!: evict_ok jm_ok_set jm_ok_delete evict_bound)
qed

lemma exact_step_ok: "exact_ok c \<Longrightarrow> exact_ok (exact_step c x)"
proof (cases x)
  case (XGet now k)
  assume "exact_ok c"
  then show ?thesis using XGet length_delete_le [of k "xc_map c"]
    by (auto simp: exact_ok_def exact_get_def jm_ok_delete split: option.splits)
qed (simp_all add: exact_set_ok exact_sweep_ok)

lemma exact_set_reads:
  assumes "exact_ok c"
  shows "jm_get (xc_map (exact_set now c k v ttl)) k = Some \<lparr>sl_value = v, sl_expiresAtMs = now + ttl * 1000\<rparr>"
    and "k' \<noteq> k \<Longrightarrow> jm_get (xc_map (exact_set now c k v ttl)) k' = Some s \<Longrightarrow> jm_get (xc_map c) k' = Some s"
proof -
  define c1 where "c1 = c\<lparr>xc_writes := xc_writes c + 1\<rparr>"
  define c2 where "c2 = (if xc_writes c1 mod SWEEP_EVERY_N_WRITES = 0 then snd (exact_sweep now c1) else c1)"
  have "exact_ok c1" using assms by (simp add: c1_def exact_ok_def)
  then have c2: "exact_ok c2" by (simp add: c2_def exact_sweep_ok)
  define new where "new = \<lparr>sl_value = v, sl_expiresAtMs = now + ttl * 1000\<rparr>"
  have absent: "k \<notin> fst ` set (jm_delete k (xc_map c2))" by (auto simp: AList.delete_eq)
  then have app: "jm_set k new (jm_delete k (xc_map c2)) = jm_delete k (xc_map c2) @ [(k, new)]" by (rule jm_set_absent)
  have ok: "jm_ok (jm_set k new (jm_delete k (xc_map c2)))"
    using c2 by (auto simp: exact_ok_def intro!: jm_ok_set jm_ok_delete)
  have res: "xc_map (exact_set now c k v ttl) = evict (xc_maxEntries c2) (jm_set k new (jm_delete k (xc_map c2)))"
    unfolding exact_set_def Let_def c1_def [symmetric] c2_def [symmetric] new_def by simp
  show "jm_get (xc_map (exact_set now c k v ttl)) k = Some \<lparr>sl_value = v, sl_expiresAtMs = now + ttl * 1000\<rparr>"
    using evict_newest [of "xc_maxEntries c2" "jm_delete k (xc_map c2)" k new] c2 ok [unfolded app]
    unfolding res app new_def [symmetric] by (simp add: exact_ok_def)
  assume k': "k' \<noteq> k" and get: "jm_get (xc_map (exact_set now c k v ttl)) k' = Some s"
  from jm_get_mem_sub [OF ok evict_sub get [unfolded res]] k' have "jm_get (xc_map c2) k' = Some s"
    by (simp add: jm_get_set jm_get_delete)
  moreover have "set (xc_map c2) \<subseteq> set (xc_map c)" by (auto simp: c2_def c1_def exact_sweep_def Let_def)
  ultimately show "jm_get (xc_map c) k' = Some s"
    using assms jm_get_mem_sub by (fastforce simp: exact_ok_def)
qed

interpretation exact_steps: step_system exact_step exact_ok
  by unfold_locales (rule exact_step_ok)

lemma new_exact_ok: "exact_ok (new_exact_cache n)"
  by (simp add: exact_ok_def new_exact_cache_def)

lemma last_stored_snoc:
  "last_stored (xs @ [x]) k =
     (case x of XSet now k' v ttl \<Rightarrow> if k' = k then Some (v, now + ttl * 1000) else last_stored xs k | _ \<Rightarrow> last_stored xs k)"
  by (induction xs) (auto split: option.splits exact_op.splits)

lemma exact_step_keeps:
  assumes "exact_ok c" and "jm_get (xc_map (exact_step c x)) k = Some s" and "\<And>now v ttl. x \<noteq> XSet now k v ttl"
  shows "jm_get (xc_map c) k = Some s"
proof (cases x)
  case (XGet now k')
  with assms show ?thesis by (auto simp: exact_get_def jm_get_delete split: option.splits if_splits)
next
  case (XSet now k' v ttl)
  with assms(3) have "k \<noteq> k'" by blast
  from exact_set_reads(2) [OF assms(1) this] assms(2) XSet show ?thesis by simp
next
  case (XSweep now)
  then have "set (xc_map (exact_step c x)) \<subseteq> set (xc_map c)" by (auto simp: exact_sweep_def Let_def)
  with assms jm_get_mem_sub show ?thesis by (fastforce simp: exact_ok_def)
qed

lemma run_holds_last:
  "jm_get (xc_map (foldl exact_step (new_exact_cache n) xs)) k = Some s \<Longrightarrow>
     last_stored xs k = Some (sl_value s, sl_expiresAtMs s)"
proof (induction xs arbitrary: s rule: rev_induct)
  case Nil
  then show ?case by (simp add: new_exact_cache_def)
next
  case (snoc x xs)
  let ?c = "foldl exact_step (new_exact_cache n) xs"
  have ok: "exact_ok ?c" by (rule exact_steps.run_inv [OF new_exact_ok])
  show ?case
  proof (cases "\<exists>now v ttl. x = XSet now k v ttl")
    case True
    then obtain now v ttl where x: "x = XSet now k v ttl" by blast
    with snoc.prems exact_set_reads(1) [OF ok] show ?thesis by (auto simp: last_stored_snoc)
  next
    case False
    with exact_step_keeps [OF ok, of x k s] snoc.prems snoc.IH [of s] show ?thesis
      by (auto simp: last_stored_snoc split: exact_op.splits)
  qed
qed

text \<open>
  Over every run of reads, writes and sweeps, the exact tier holds at most its bound, answers a read only with the last response stored under that key and only before
  it expires, and answers a read that follows a write within the lifetime with what was written.\<close>

theorem exact_tier_correct:
  fixes ops :: "exact_op list" and maxEntries :: "int option"
  defines "c \<equiv> foldl exact_step (new_exact_cache maxEntries) ops"
  shows "int (length (xc_map c)) \<le> max 1 (case maxEntries of None \<Rightarrow> 10000 | Some n \<Rightarrow> n)
    \<and> (\<forall>now key r. fst (exact_get now c key) = Some r \<longrightarrow> (\<exists>expires. last_stored ops key = Some (r, expires) \<and> now < expires))
    \<and> (\<forall>now key r ttl later. later < now + ttl * 1000 \<longrightarrow> fst (exact_get later (exact_set now c key r ttl) key) = Some r)"
proof (intro conjI allI impI)
  have ok: "exact_ok c" unfolding c_def by (rule exact_steps.run_inv [OF new_exact_ok])
  have "xc_maxEntries (exact_step d x) = xc_maxEntries d" for d x
    by (cases x) (auto simp: exact_get_def exact_set_def exact_sweep_def Let_def split: option.splits)
  then have "xc_maxEntries (foldl exact_step d xs) = xc_maxEntries d" for d xs
    by (induction xs arbitrary: d) simp_all
  then show "int (length (xc_map c)) \<le> max 1 (case maxEntries of None \<Rightarrow> 10000 | Some n \<Rightarrow> n)"
    using ok by (simp add: exact_ok_def c_def new_exact_cache_def)
  show "\<exists>expires. last_stored ops key = Some (r, expires) \<and> now < expires" if "fst (exact_get now c key) = Some r" for now key r
    using that run_holds_last [of maxEntries ops key] by (auto simp: exact_get_def c_def split: option.splits if_splits)
  show "fst (exact_get later (exact_set now c key r ttl) key) = Some r" if "later < now + ttl * 1000" for now key r ttl later
    using exact_set_reads(1) [OF ok, of now key r ttl] that by (simp add: exact_get_def)
qed

definition sample_response :: CachedResponse where
  "sample_response = \<lparr>cr_statusCode = 200, cr_headers = [], cr_body = ''{}'', cr_streamed = False, cr_model = ''m'',
     cr_inputTokens = 1, cr_outputTokens = 1, cr_createdAtMs = 0\<rparr>"

theorem exact_tier_correct_witness:
  "fst (exact_get 5000 (exact_set 0 (new_exact_cache None) ''k'' sample_response 60) ''k'') = Some sample_response"
  using exact_tier_correct [of None "[]"] by simp

section \<open>Isolation\<close>

abbreviation memory_call :: "key_functions \<Rightarrow> SemanticConfig option \<Rightarrow> int \<Rightarrow> InMemoryExactCache \<times> InMemoryVectorIndex \<Rightarrow> cache_call
    \<Rightarrow> InMemoryExactCache \<times> InMemoryVectorIndex" where
  "memory_call \<equiv> cache_call_step exact_get exact_set vector_query vector_upsert"

lemma empty_accounted: "memory_cache.accounted kf {} (new_exact_cache n, new_vector_index m)"
  by (simp add: memory_cache.accounted_def exact_holds_def vector_holds_def new_exact_cache_def new_vector_index_def)

lemma exactKey_scope:
  assumes "\<And>x y. length (sha x) = length (sha y)" and "exactKey sha num p = exactKey sha num q"
  shows "cq_scope p = cq_scope q"
  using assms by (auto simp: exactKey_def append_eq_append_conv)

lemma vectorScope_scope:
  assumes "CHR 0x1F \<notin> set (cq_scope p)" and "CHR 0x1F \<notin> set (cq_scope q)" and "vectorScope p = vectorScope q"
  shows "cq_scope p = cq_scope q"
  using assms by (simp add: vectorScope_def key_parts_def VECTOR_SCOPE_SEPARATOR_def sep_append_inj)

text \<open>
  C30. A response the cache serves was stored for a request of the same authorisation scope, over every run of lookups and stores, exact and semantic hits alike: the
  digest needs only a fixed length and the scopes only to be free of the separator.\<close>

theorem cache_scope_isolation:
  assumes "\<And>x y. length (kf_sha256 kf x) = length (kf_sha256 kf y)"
    and "list_all (\<lambda>c. case c of CacheStoreCall t p r e \<Rightarrow> CHR 0x1F \<notin> set (cq_scope p) | CacheLookupCall t p \<Rightarrow> True) cs"
    and "CHR 0x1F \<notin> set (cq_scope q)"
    and "cache_lookup exact_get vector_query kf sem now (foldl (memory_call kf sem ttl) (new_exact_cache n, new_vector_index m) cs) q = (Some lk, st)"
    and "cl_response lk = Some r"
  shows "\<exists>t p e. CacheStoreCall t p r e \<in> set cs \<and> cq_scope p = cq_scope q"
proof -
  obtain q1 q2 t1 e1 t2 r2 e2 where s1: "CacheStoreCall t1 q1 r e1 \<in> set cs"
    and key: "request_key kf q1 = request_key kf q \<or>
      CacheStoreCall t2 q2 r2 e2 \<in> set cs \<and> request_key kf q1 = request_key kf q2 \<and> vectorScope q2 = vectorScope q"
    using memory_cache.served_was_stored [OF empty_accounted assms(4,5)] by blast
  have "CHR 0x1F \<notin> set (cq_scope q2)" if "CacheStoreCall t2 q2 r2 e2 \<in> set cs"
    using that assms(2) by (auto simp: list_all_iff)
  then have "cq_scope q2 = cq_scope q" if "CacheStoreCall t2 q2 r2 e2 \<in> set cs" "vectorScope q2 = vectorScope q"
    using vectorScope_scope [OF _ assms(3)] that by blast
  moreover have "cq_scope q1 = cq_scope p" if "request_key kf q1 = request_key kf p" for p
    by (rule exactKey_scope [OF assms(1) that])
  ultimately have "cq_scope q1 = cq_scope q" using key by (elim disjE conjE) simp_all
  with s1 show ?thesis by blast
qed

definition sample_request :: "string \<Rightarrow> CacheableRequest" where
  "sample_request scope = \<lparr>cq_scope = scope, cq_provider = ''p'', cq_model = ''m'', cq_path = ''v1'', cq_body = ''hi'', cq_variant = None,
     cq_stream = None, cq_semantic = None\<rparr>"

definition sample_keys :: key_functions where
  "sample_keys = \<lparr>kf_sha256 = (\<lambda>x. take 64 (x @ replicate 64 (CHR ''0''))), kf_number = (\<lambda>r. [])\<rparr>"

lemma sample_hit:
  "cache_lookup exact_get vector_query sample_keys None 5000
     (foldl (memory_call sample_keys None 60) (new_exact_cache None, new_vector_index None)
       [CacheStoreCall 0 (sample_request ''w'') sample_response None]) (sample_request ''w'') =
   (Some \<lparr>cl_status = HitExact, cl_exactKey = request_key sample_keys (sample_request ''w''), cl_response = Some sample_response,
      cl_embedding = None\<rparr>,
    foldl (memory_call sample_keys None 60) (new_exact_cache None, new_vector_index None)
      [CacheStoreCall 0 (sample_request ''w'') sample_response None])"
  by (simp add: cache_store_def cache_lookup_def exact_set_def exact_get_def SWEEP_EVERY_N_WRITES_def new_exact_cache_def
      evict.simps Let_def)

theorem cache_scope_isolation_witness:
  fixes st0 :: "InMemoryExactCache \<times> InMemoryVectorIndex"
  defines "st0 \<equiv> foldl (memory_call sample_keys None 60) (new_exact_cache None, new_vector_index None)
    [CacheStoreCall 0 (sample_request ''w'') sample_response None]"
  shows "(\<exists>lk. cache_lookup exact_get vector_query sample_keys None 5000 st0 (sample_request ''w'') = (Some lk, st0) \<and>
      cl_response lk = Some sample_response) \<and>
    (\<exists>t p e. CacheStoreCall t p sample_response e \<in> set [CacheStoreCall 0 (sample_request ''w'') sample_response None] \<and> cq_scope p = ''w'')"
proof -
  have run: "cache_lookup exact_get vector_query sample_keys None 5000 st0 (sample_request ''w'') =
      (Some \<lparr>cl_status = HitExact, cl_exactKey = request_key sample_keys (sample_request ''w''), cl_response = Some sample_response,
         cl_embedding = None\<rparr>, st0)"
    unfolding st0_def by (rule sample_hit)
  from cache_scope_isolation [OF _ _ _ run [unfolded st0_def]] run show ?thesis
    by (simp add: sample_keys_def sample_request_def)
qed

definition key_preimage :: "number_text \<Rightarrow> CacheableRequest \<Rightarrow> string" where
  "key_preimage num q = concat (map (\<lambda>part. part @ [CHR 0x00]) (key_parts q)) @ canonicalBody num (cq_body q)"

definition plain_parts :: "CacheableRequest \<Rightarrow> bool" where
  "plain_parts q \<longleftrightarrow> list_all (\<lambda>part. CHR 0x00 \<notin> set part \<and> CHR 0x1F \<notin> set part) (key_parts q)"

lemma key_preimage_parts:
  assumes "plain_parts p" and "plain_parts q" and "key_preimage num p = key_preimage num q"
  shows "key_parts p = key_parts q"
  using assms by (simp add: key_preimage_def key_parts_def plain_parts_def sep_append_inj)

lemma vectorScope_parts:
  assumes "plain_parts p" and "plain_parts q" and "vectorScope p = vectorScope q"
  shows "key_parts p = key_parts q"
  using assms by (simp add: vectorScope_def key_parts_def plain_parts_def VECTOR_SCOPE_SEPARATOR_def sep_append_inj)

lemma exactKey_parts:
  assumes "\<And>x y. length (sha x) = length (sha y)" and "inj_on sha (key_preimage num ` Q)" and "p \<in> Q" and "q \<in> Q"
    and "plain_parts p" and "plain_parts q" and "exactKey sha num p = exactKey sha num q"
  shows "key_parts p = key_parts q"
proof -
  have "cq_scope p = cq_scope q" by (rule exactKey_scope [OF assms(1,7)])
  with assms(7) have "sha (key_preimage num p) = sha (key_preimage num q)" by (simp add: exactKey_def key_preimage_def)
  from inj_onD [OF assms(2) this] assms(3,4) have "key_preimage num p = key_preimage num q" by simp
  with assms(5,6) show ?thesis by (rule key_preimage_parts)
qed

text \<open>
  Where the digest does not collide on the requests made, a cache hit was stored for a request with the same scope, provider, model, path, variant and delivery
  mode; no streamed answer reaches a buffered caller, and no model answers for another.\<close>

theorem cache_partition_isolation:
  assumes "\<And>x y. length (kf_sha256 kf x) = length (kf_sha256 kf y)"
    and "inj_on (kf_sha256 kf) (key_preimage (kf_number kf) ` insert q {p. \<exists>t r e. CacheStoreCall t p r e \<in> set cs})"
    and "list_all (\<lambda>c. case c of CacheStoreCall t p r e \<Rightarrow> plain_parts p | CacheLookupCall t p \<Rightarrow> True) cs" and "plain_parts q"
    and "cache_lookup exact_get vector_query kf sem now (foldl (memory_call kf sem ttl) (new_exact_cache n, new_vector_index m) cs) q = (Some lk, st)"
    and "cl_response lk = Some r"
  shows "\<exists>t p e. CacheStoreCall t p r e \<in> set cs \<and> key_parts p = key_parts q"
proof -
  let ?stored = "{p. \<exists>t r e. CacheStoreCall t p r e \<in> set cs}"
  obtain q1 q2 t1 e1 t2 r2 e2 where s1: "CacheStoreCall t1 q1 r e1 \<in> set cs"
    and key: "request_key kf q1 = request_key kf q \<or>
      CacheStoreCall t2 q2 r2 e2 \<in> set cs \<and> request_key kf q1 = request_key kf q2 \<and> vectorScope q2 = vectorScope q"
    using memory_cache.served_was_stored [OF empty_accounted assms(5,6)] by blast
  have plain: "plain_parts p" if "CacheStoreCall t p v e \<in> set cs" for t p v e
    using that assms(3) by (auto simp: list_all_iff)
  have one: "key_parts q1 = key_parts p" if "request_key kf q1 = request_key kf p" "p \<in> insert q ?stored" "plain_parts p" for p
    by (rule exactKey_parts [OF assms(1,2) _ that(2) plain [OF s1] that(3,1)]) (use s1 in blast)
  have "key_parts q1 = key_parts q"
  proof (cases "request_key kf q1 = request_key kf q")
    case True
    then show ?thesis using one assms(4) by blast
  next
    case False
    with key have two: "CacheStoreCall t2 q2 r2 e2 \<in> set cs" "request_key kf q1 = request_key kf q2" "vectorScope q2 = vectorScope q"
      by blast+
    then have "key_parts q1 = key_parts q2" using one [of q2] plain by blast
    also have "\<dots> = key_parts q" by (rule vectorScope_parts [OF plain [OF two(1)] assms(4) two(3)])
    finally show ?thesis .
  qed
  with s1 show ?thesis by blast
qed

theorem cache_partition_isolation_witness:
  fixes st0 :: "InMemoryExactCache \<times> InMemoryVectorIndex"
  defines "st0 \<equiv> foldl (memory_call sample_keys None 60) (new_exact_cache None, new_vector_index None)
    [CacheStoreCall 0 (sample_request ''w'') sample_response None]"
  shows "(\<exists>lk. cache_lookup exact_get vector_query sample_keys None 5000 st0 (sample_request ''w'') = (Some lk, st0) \<and>
      cl_response lk = Some sample_response) \<and>
    (\<exists>t p e. CacheStoreCall t p sample_response e \<in> set [CacheStoreCall 0 (sample_request ''w'') sample_response None] \<and>
      key_parts p = [''w'', ''p'', ''m'', ''v1'', [], ''buffered''])"
proof -
  have run: "cache_lookup exact_get vector_query sample_keys None 5000 st0 (sample_request ''w'') =
      (Some \<lparr>cl_status = HitExact, cl_exactKey = request_key sample_keys (sample_request ''w''), cl_response = Some sample_response,
         cl_embedding = None\<rparr>, st0)"
    unfolding st0_def by (rule sample_hit)
  from cache_partition_isolation [OF _ _ _ _ run [unfolded st0_def]] run show ?thesis
    by (simp add: sample_keys_def sample_request_def plain_parts_def key_parts_def streamTag_def)
qed

end
