(* ===== verification/Sse.thy ===== *)
theory Sse
  imports Gulley_Prelude
begin

text \<open>
  The incremental parser of \<^verbatim>\<open>providers/src/sse.ts\<close> and the framing of \<^verbatim>\<open>reframe\<close> in \<^verbatim>\<open>sse-rewriter.ts\<close>. The parser is compared with a reading of
  the whole stream, line by line: however the stream is cut into chunks, an enforcing parser that does not overflow emits the events of that reading, and it does not
  overflow while the stream fits the cap. What it holds is bounded by the cap.
\<close>

section \<open>The parser\<close>

record SSEEvent =
  se_event :: "string option"
  se_data :: string

datatype overflow_policy = OverflowThrow | OverflowReset

record SSEParser =
  sp_buffer :: string
  sp_currentEvent :: "string option"
  sp_dataLines :: "string list"
  sp_dataBytes :: int
  sp_dropping :: bool
  sp_maxBufferBytes :: int
  sp_onOverflow :: overflow_policy

definition DEFAULT_SSE_MAX_BUFFER_BYTES :: int where
  "DEFAULT_SSE_MAX_BUFFER_BYTES = 8 * 1024 * 1024"

definition new_sse_parser :: "int option \<Rightarrow> overflow_policy option \<Rightarrow> SSEParser" where
  "new_sse_parser maxBytes policy =
     \<lparr>sp_buffer = [], sp_currentEvent = None, sp_dataLines = [], sp_dataBytes = 0, sp_dropping = False,
      sp_maxBufferBytes = (case maxBytes of None \<Rightarrow> DEFAULT_SSE_MAX_BUFFER_BYTES | Some n \<Rightarrow> n),
      sp_onOverflow = (case policy of None \<Rightarrow> OverflowThrow | Some p \<Rightarrow> p)\<rparr>"

text \<open>\<open>None\<close> is the \<^verbatim>\<open>SSEOverflowError\<close> thrown.\<close>

definition enforceLimit :: "SSEParser \<Rightarrow> SSEParser option" where
  "enforceLimit p =
     (if int (length (sp_buffer p)) + sp_dataBytes p \<le> sp_maxBufferBytes p then Some p
      else if sp_onOverflow p = OverflowThrow then None
      else Some (p\<lparr>sp_currentEvent := None, sp_dataLines := [], sp_dataBytes := 0, sp_dropping := True,
        sp_buffer := (if sp_maxBufferBytes p < int (length (sp_buffer p)) then [] else sp_buffer p)\<rparr>))"

definition strip_cr :: "string \<Rightarrow> string" where
  "strip_cr raw = (if raw \<noteq> [] \<and> last raw = CHR 0x0D then butlast raw else raw)"

definition strip_space :: "string \<Rightarrow> string" where
  "strip_space d = (if starts_with d '' '' then tl d else d)"

text \<open>
  One line, already cut from the buffer: the events it completes, the parser, and whether the limit is checked after it (the branches that end in
  \<^verbatim>\<open>continue\<close> skip the check).
\<close>

definition sse_line :: "SSEParser \<Rightarrow> string \<Rightarrow> SSEEvent list \<times> SSEParser \<times> bool" where
  "sse_line p line =
     (if sp_dropping p then ([], (if line = [] then p\<lparr>sp_dropping := False\<rparr> else p), False)
      else if line = [] then
        ((if sp_dataLines p \<noteq> [] then [\<lparr>se_event = sp_currentEvent p, se_data = join_with [CHR 0x0A] (sp_dataLines p)\<rparr>] else []),
         p\<lparr>sp_currentEvent := None, sp_dataLines := [], sp_dataBytes := 0\<rparr>, False)
      else if starts_with line '':'' then ([], p, False)
      else if starts_with line ''event:'' then ([], p\<lparr>sp_currentEvent := Some (js_trim (drop 6 line))\<rparr>, True)
      else if starts_with line ''data:'' then
        (let d = strip_space (drop 5 line) in
         ([], p\<lparr>sp_dataLines := sp_dataLines p @ [d], sp_dataBytes := sp_dataBytes p + int (length d) + 1\<rparr>, True))
      else ([], p, True))"

lemma enforceLimit_buffer: "enforceLimit p = Some q \<Longrightarrow> length (sp_buffer q) \<le> length (sp_buffer p)"
  by (auto simp: enforceLimit_def split: if_splits)

lemma sse_line_buffer [simp]: "sp_buffer (fst (snd (sse_line p line))) = sp_buffer p"
  by (simp add: sse_line_def Let_def)

text \<open>The loop of \<^verbatim>\<open>push\<close>: the events so far, the parser, and the last limit check; \<open>None\<close> when a check throws.\<close>

function push_loop :: "SSEParser \<Rightarrow> SSEEvent list \<Rightarrow> (SSEEvent list \<times> SSEParser) option" where
  "push_loop p out =
     (case index_of (CHR 0x0A) (sp_buffer p) of
        None \<Rightarrow> map_option (\<lambda>q. (out, q)) (enforceLimit p)
      | Some idx \<Rightarrow>
          (let raw = take idx (sp_buffer p);
               r = sse_line (p\<lparr>sp_buffer := drop (Suc idx) (sp_buffer p)\<rparr>) (strip_cr raw) in
           if snd (snd r) then
             (case enforceLimit (fst (snd r)) of
                None \<Rightarrow> None
              | Some q \<Rightarrow> push_loop q (out @ fst r))
           else push_loop (fst (snd r)) (out @ fst r)))"
  by pat_completeness auto
termination
proof (relation "measure (\<lambda>(p, out). length (sp_buffer p))")
  fix p :: SSEParser and idx raw r q
  assume i: "index_of (CHR 0x0A) (sp_buffer p) = Some idx"
    and r: "r = sse_line (p\<lparr>sp_buffer := drop (Suc idx) (sp_buffer p)\<rparr>) (strip_cr raw)"
  have cut: "length (sp_buffer (fst (snd r))) < length (sp_buffer p)" using index_of_Some [OF i, THEN conjunct1] r by simp
  then show "((fst (snd r), out @ fst r), p, out) \<in> measure (\<lambda>(p, out). length (sp_buffer p))" for out by simp
  assume "enforceLimit (fst (snd r)) = Some q"
  from enforceLimit_buffer [OF this] cut
  show "((q, out @ fst r), p, out) \<in> measure (\<lambda>(p, out). length (sp_buffer p))" for out by simp
qed simp

declare push_loop.simps [simp del]

definition sse_push :: "SSEParser \<Rightarrow> string \<Rightarrow> (SSEEvent list \<times> SSEParser) option" where
  "sse_push p chunk = push_loop (p\<lparr>sp_buffer := sp_buffer p @ chunk\<rparr>) []"

text \<open>A stream: the chunks one after the other, to the first throw.\<close>

fun push_all :: "SSEParser \<Rightarrow> string list \<Rightarrow> (SSEEvent list \<times> SSEParser) option" where
  "push_all p [] = Some ([], p)"
| "push_all p (c # cs) =
     (case sse_push p c of
        None \<Rightarrow> None
      | Some (out, q) \<Rightarrow> map_option (\<lambda>(outs, q'). (out @ outs, q')) (push_all q cs))"

section \<open>A reading of the whole stream\<close>

definition whole_lines :: "string \<Rightarrow> string list" where
  "whole_lines s = butlast (split_on (CHR 0x0A) s)"

definition last_line :: "string \<Rightarrow> string" where
  "last_line s = last (split_on (CHR 0x0A) s)"

type_synonym pending_event = "string option \<times> string list"

fun read_line :: "pending_event \<Rightarrow> string \<Rightarrow> pending_event \<times> SSEEvent list" where
  "read_line (ev, ds) line =
     (if line = [] then ((None, []), if ds = [] then [] else [\<lparr>se_event = ev, se_data = join_with [CHR 0x0A] ds\<rparr>])
      else if starts_with line ''event:'' then ((Some (js_trim (drop 6 line)), ds), [])
      else if starts_with line ''data:'' then ((ev, ds @ [strip_space (drop 5 line)]), [])
      else ((ev, ds), []))"

fun read_lines :: "pending_event \<Rightarrow> string list \<Rightarrow> pending_event \<times> SSEEvent list" where
  "read_lines st [] = (st, [])"
| "read_lines st (l # ls) =
     (let (st', out) = read_line st (strip_cr l); (st'', outs) = read_lines st' ls in (st'', out @ outs))"

definition sse_events :: "string \<Rightarrow> SSEEvent list" where
  "sse_events s = snd (read_lines (None, []) (whole_lines s))"

section \<open>Framing\<close>

definition reframe :: "SSEEvent \<Rightarrow> string" where
  "reframe ev =
     (case se_event ev of
        Some n \<Rightarrow> if n = [] then [] else ''event: '' @ n @ [CHR 0x0A]
      | None \<Rightarrow> []) @ ''data: '' @ se_data ev @ [CHR 0x0A, CHR 0x0A]"

section \<open>Chunks do not matter\<close>

abbreviation pending :: "SSEParser \<Rightarrow> pending_event" where
  "pending p \<equiv> (sp_currentEvent p, sp_dataLines p)"

definition reading :: "SSEParser \<Rightarrow> bool" where
  "reading p \<longleftrightarrow> \<not> sp_dropping p \<and> sp_onOverflow p = OverflowThrow"

lemma sse_line_reads:
  assumes "reading p"
  shows "read_line (pending p) line = (pending (fst (snd (sse_line p line))), fst (sse_line p line))"
    and "reading (fst (snd (sse_line p line)))"
proof -
  have "\<not> starts_with line ''event:'' \<and> \<not> starts_with line ''data:''" if "starts_with line '':''"
    using that by (cases line) auto
  with assms show "read_line (pending p) line = (pending (fst (snd (sse_line p line))), fst (sse_line p line))"
    by (simp add: sse_line_def reading_def Let_def)
  from assms show "reading (fst (snd (sse_line p line)))" by (simp add: sse_line_def reading_def Let_def)
qed

lemma enforceLimit_throw: "reading p \<Longrightarrow> enforceLimit p = Some q \<Longrightarrow> q = p"
  by (simp add: enforceLimit_def reading_def split: if_splits)

lemma whole_lines_none: "CHR 0x0A \<notin> set s \<Longrightarrow> whole_lines s = [] \<and> last_line s = s"
  by (simp add: whole_lines_def last_line_def split_on_none)

lemma whole_lines_cut:
  "CHR 0x0A \<notin> set a \<Longrightarrow> whole_lines (a @ CHR 0x0A # b) = a # whole_lines b \<and> last_line (a @ CHR 0x0A # b) = last_line b"
  by (simp add: whole_lines_def last_line_def split_on_append)

lemma whole_lines_append:
  "whole_lines (a @ b) = whole_lines a @ whole_lines (last_line a @ b) \<and> last_line (a @ b) = last_line (last_line a @ b)"
proof (induction "length a" arbitrary: a rule: less_induct)
  case less
  show ?case
  proof (cases "CHR 0x0A \<in> set a")
    case True
    then obtain x y where a: "a = x @ CHR 0x0A # y" and x: "CHR 0x0A \<notin> set x" by (meson split_list_first)
    with less [of y] show ?thesis by (simp add: whole_lines_cut [OF x])
  qed (simp add: whole_lines_none)
qed

lemma push_loop_reads:
  "push_loop p out = Some (outs, q) \<Longrightarrow> reading p \<Longrightarrow>
   \<exists>es. outs = out @ es \<and> read_lines (pending p) (whole_lines (sp_buffer p)) = (pending q, es)
     \<and> sp_buffer q = last_line (sp_buffer p) \<and> reading q"
proof (induction p out arbitrary: outs q rule: push_loop.induct)
  case (1 p out)
  show ?case
  proof (cases "index_of (CHR 0x0A) (sp_buffer p)")
    case None
    with 1 show ?thesis
      by (auto simp: push_loop.simps [of p] index_of_None whole_lines_none dest: enforceLimit_throw)
  next
    case (Some idx)
    define a where "a = take idx (sp_buffer p)"
    define b where "b = drop (Suc idx) (sp_buffer p)"
    define r where "r = sse_line (p\<lparr>sp_buffer := b\<rparr>) (strip_cr a)"
    have buf: "sp_buffer p = a @ CHR 0x0A # b" and a: "CHR 0x0A \<notin> set a"
      using index_of_Some [OF Some] by (simp_all add: a_def b_def)
    have rd: "reading (p\<lparr>sp_buffer := b\<rparr>)" using "1.prems"(2) by (simp add: reading_def)
    note line = sse_line_reads [OF rd, of "strip_cr a", folded r_def, simplified]
    have "push_loop (fst (snd r)) (out @ fst r) = Some (outs, q)"
      using "1.prems"(1) Some line(2) enforceLimit_throw [of "fst (snd r)"]
      by (simp add: push_loop.simps [of p] Let_def flip: a_def b_def r_def split: if_splits option.splits)
    moreover have "push_loop (fst (snd r)) (out @ fst r) = Some (outs, q) \<Longrightarrow>
      \<exists>es. outs = (out @ fst r) @ es \<and> read_lines (pending (fst (snd r))) (whole_lines (sp_buffer (fst (snd r)))) = (pending q, es)
        \<and> sp_buffer q = last_line (sp_buffer (fst (snd r))) \<and> reading q"
      using "1.IH"(1) [OF Some a_def, of r "fst (snd r)"] "1.IH"(2) [OF Some a_def, of r] line(2) "1.prems"(1) Some
        enforceLimit_throw [of "fst (snd r)"]
      by (cases "snd (snd r)"; cases "enforceLimit (fst (snd r))")
        (auto simp: push_loop.simps [of p] Let_def r_def simp flip: a_def b_def)
    ultimately obtain es where es: "outs = out @ fst r @ es" "read_lines (pending (fst (snd r))) (whole_lines b) = (pending q, es)"
        "sp_buffer q = last_line b" "reading q"
      by (auto simp: r_def)
    then show ?thesis using line(1) by (simp add: buf whole_lines_cut [OF a])
  qed
qed

lemma read_lines_append:
  "read_lines st (ls @ ls') =
     (let (st', out) = read_lines st ls; (st'', outs) = read_lines st' ls' in (st'', out @ outs))"
  by (induction ls arbitrary: st) (auto simp: Let_def split: prod.splits)

lemma last_line_no_newline: "CHR 0x0A \<notin> set (last_line s)"
  unfolding last_line_def by (rule split_on_parts [of _ _ s]) simp

lemma push_all_reads:
  "push_all p cs = Some (outs, q) \<Longrightarrow> reading p \<Longrightarrow> CHR 0x0A \<notin> set (sp_buffer p) \<Longrightarrow>
   read_lines (pending p) (whole_lines (sp_buffer p @ concat cs)) = (pending q, outs)
     \<and> sp_buffer q = last_line (sp_buffer p @ concat cs)"
proof (induction cs arbitrary: p outs)
  case Nil
  then show ?case by (simp add: whole_lines_none)
next
  case (Cons c cs)
  from Cons.prems(1) obtain out p' os where push: "sse_push p c = Some (out, p')"
    and rest: "push_all p' cs = Some (os, q)" and outs: "outs = out @ os"
    by (auto split: option.splits prod.splits)
  have "reading (p\<lparr>sp_buffer := sp_buffer p @ c\<rparr>)" using Cons.prems(2) by (simp add: reading_def)
  from push_loop_reads [OF push [unfolded sse_push_def] this]
  have p': "read_lines (pending p) (whole_lines (sp_buffer p @ c)) = (pending p', out)"
      "sp_buffer p' = last_line (sp_buffer p @ c)" "reading p'"
    by auto
  from Cons.IH [OF rest p'(3)] last_line_no_newline p'
  show ?case using whole_lines_append [of "sp_buffer p @ c" "concat cs"] outs
    by (simp add: read_lines_append)
qed

section \<open>The cap\<close>

definition held :: "SSEParser \<Rightarrow> int" where
  "held p = int (length (sp_buffer p)) + sum_list (map (\<lambda>d. int (length d) + 1) (sp_dataLines p))"

definition sse_ok :: "SSEParser \<Rightarrow> bool" where
  "sse_ok p \<longleftrightarrow> sp_dataBytes p = sum_list (map (\<lambda>d. int (length d) + 1) (sp_dataLines p))"

lemma sse_ok_nonneg: "sse_ok p \<Longrightarrow> 0 \<le> sp_dataBytes p"
  by (auto simp: sse_ok_def intro!: sum_list_nonneg)

lemma sse_ok_line: "sse_ok p \<Longrightarrow> sse_ok (fst (snd (sse_line p line)))"
  by (simp add: sse_ok_def sse_line_def Let_def)

lemma sse_ok_enforce: "sse_ok p \<Longrightarrow> enforceLimit p = Some q \<Longrightarrow> sse_ok q"
  by (auto simp: sse_ok_def enforceLimit_def split: if_splits)

lemma sse_ok_buffer: "sse_ok p \<Longrightarrow> sse_ok (p\<lparr>sp_buffer := b\<rparr>)"
  by (simp add: sse_ok_def)

lemma sse_max_line [simp]:
  "sp_maxBufferBytes (fst (snd (sse_line p line))) = sp_maxBufferBytes p"
  "sp_onOverflow (fst (snd (sse_line p line))) = sp_onOverflow p"
  by (simp_all add: sse_line_def Let_def)

lemma sse_max_enforce:
  "enforceLimit p = Some q \<Longrightarrow> sp_maxBufferBytes q = sp_maxBufferBytes p \<and> sp_onOverflow q = sp_onOverflow p"
  by (auto simp: enforceLimit_def split: if_splits)

lemma enforced_fits:
  "enforceLimit p = Some q \<Longrightarrow> 0 \<le> sp_maxBufferBytes p \<Longrightarrow> int (length (sp_buffer q)) + sp_dataBytes q \<le> sp_maxBufferBytes p"
  by (auto simp: enforceLimit_def split: if_splits)

lemma push_loop_fits:
  "push_loop p out = Some (outs, q) \<Longrightarrow> sse_ok p \<Longrightarrow> 0 \<le> sp_maxBufferBytes p \<Longrightarrow>
   sse_ok q \<and> sp_maxBufferBytes q = sp_maxBufferBytes p \<and> held q \<le> sp_maxBufferBytes p"
proof (induction p out arbitrary: outs q rule: push_loop.induct)
  case (1 p out)
  show ?case
  proof (cases "index_of (CHR 0x0A) (sp_buffer p)")
    case None
    with 1 enforced_fits [of p q] sse_ok_enforce [of p q] sse_max_enforce [of p q] show ?thesis
      by (auto simp: push_loop.simps [of p] held_def sse_ok_def)
  next
    case (Some idx)
    define r where "r = sse_line (p\<lparr>sp_buffer := drop (Suc idx) (sp_buffer p)\<rparr>) (strip_cr (take idx (sp_buffer p)))"
    have r: "sse_ok (fst (snd r))" "sp_maxBufferBytes (fst (snd r)) = sp_maxBufferBytes p"
      using "1.prems"(2) by (simp_all add: r_def sse_ok_line sse_ok_buffer)
    note ih = "1.IH" [OF Some refl, of r, OF r_def]
    show ?thesis
    proof (cases "snd (snd r)")
      case True
      with "1.prems"(1) Some obtain p' where "enforceLimit (fst (snd r)) = Some p'" and "push_loop p' (out @ fst r) = Some (outs, q)"
        by (auto simp: push_loop.simps [of p] Let_def simp flip: r_def split: option.splits)
      with ih(1) [OF True, of p'] r sse_ok_enforce [of "fst (snd r)" p'] sse_max_enforce [of "fst (snd r)" p'] "1.prems"(3)
      show ?thesis by simp
    next
      case False
      with "1.prems"(1) Some have "push_loop (fst (snd r)) (out @ fst r) = Some (outs, q)"
        by (auto simp: push_loop.simps [of p] Let_def simp flip: r_def split: option.splits)
      with ih(2) [OF False] r "1.prems"(3) show ?thesis by simp
    qed
  qed
qed

lemma sse_line_load:
  assumes "sse_ok p"
  shows "sp_dataBytes (fst (snd (sse_line p (strip_cr a)))) \<le> sp_dataBytes p + int (length a) + 1"
proof -
  have "length (strip_cr a) \<le> length a" by (simp add: strip_cr_def)
  moreover have "length (strip_space (drop 5 l)) \<le> length l" for l
    by (auto simp: strip_space_def)
  ultimately have "length (strip_space (drop 5 (strip_cr a))) \<le> length a" by (meson order_trans)
  then show ?thesis using sse_ok_nonneg [OF assms] by (simp add: sse_line_def Let_def)
qed

lemma push_loop_runs:
  "int (length (sp_buffer p)) + sp_dataBytes p \<le> sp_maxBufferBytes p \<Longrightarrow> sse_ok p \<Longrightarrow>
   \<exists>outs q. push_loop p out = Some (outs, q) \<and>
     int (length (sp_buffer q)) + sp_dataBytes q \<le> int (length (sp_buffer p)) + sp_dataBytes p"
proof (induction p out rule: push_loop.induct)
  case (1 p out)
  show ?case
  proof (cases "index_of (CHR 0x0A) (sp_buffer p)")
    case None
    with 1 show ?thesis by (simp add: push_loop.simps [of p] enforceLimit_def)
  next
    case (Some idx)
    define r where "r = sse_line (p\<lparr>sp_buffer := drop (Suc idx) (sp_buffer p)\<rparr>) (strip_cr (take idx (sp_buffer p)))"
    have r: "sse_ok (fst (snd r))" "sp_maxBufferBytes (fst (snd r)) = sp_maxBufferBytes p"
      using "1.prems"(2) by (simp_all add: r_def sse_ok_line sse_ok_buffer)
    have idx: "idx < length (sp_buffer p)" using index_of_Some [OF Some] by simp
    then have load: "int (length (sp_buffer (fst (snd r)))) + sp_dataBytes (fst (snd r)) \<le> int (length (sp_buffer p)) + sp_dataBytes p"
      using sse_line_load [OF sse_ok_buffer [OF "1.prems"(2)], of "drop (Suc idx) (sp_buffer p)" "take idx (sp_buffer p)"]
      by (simp add: r_def)
    then have fits: "enforceLimit (fst (snd r)) = Some (fst (snd r))"
      using "1.prems"(1) r(2) by (simp add: enforceLimit_def)
    have "\<exists>outs q. push_loop (fst (snd r)) (out @ fst r) = Some (outs, q) \<and>
        int (length (sp_buffer q)) + sp_dataBytes q \<le> int (length (sp_buffer (fst (snd r)))) + sp_dataBytes (fst (snd r))"
      using "1.IH" [OF Some refl, of r, OF r_def] fits r load "1.prems"(1) by (cases "snd (snd r)") auto
    with Some fits load show ?thesis
      by (fastforce simp: push_loop.simps [of p] Let_def simp flip: r_def)
  qed
qed

lemma push_all_fits:
  "push_all p cs = Some (outs, q) \<Longrightarrow> sse_ok p \<Longrightarrow> 0 \<le> sp_maxBufferBytes p \<Longrightarrow> held p \<le> sp_maxBufferBytes p \<Longrightarrow>
   held q \<le> sp_maxBufferBytes p"
proof (induction cs arbitrary: p outs)
  case (Cons c cs)
  from Cons.prems(1) obtain out p' os where push: "sse_push p c = Some (out, p')" and rest: "push_all p' cs = Some (os, q)"
    by (auto split: option.splits prod.splits)
  from push_loop_fits [OF push [unfolded sse_push_def]] Cons.prems
  have "sse_ok p' \<and> sp_maxBufferBytes p' = sp_maxBufferBytes p \<and> held p' \<le> sp_maxBufferBytes p"
    by (simp add: sse_ok_buffer)
  with Cons.IH [OF rest] Cons.prems(3) show ?case by simp
qed simp

lemma push_all_runs:
  "int (length (sp_buffer p @ concat cs)) + sp_dataBytes p \<le> sp_maxBufferBytes p \<Longrightarrow> sse_ok p \<Longrightarrow>
   \<exists>outs q. push_all p cs = Some (outs, q)"
proof (induction cs arbitrary: p)
  case (Cons c cs)
  define p' where "p' = p\<lparr>sp_buffer := sp_buffer p @ c\<rparr>"
  have "int (length (sp_buffer p')) + sp_dataBytes p' \<le> sp_maxBufferBytes p'" and ok: "sse_ok p'"
    and m: "sp_maxBufferBytes p' = sp_maxBufferBytes p" and nn: "0 \<le> sp_maxBufferBytes p'"
    using Cons.prems sse_ok_nonneg [OF Cons.prems(2)] by (simp_all add: p'_def sse_ok_buffer)
  then obtain out q where push: "push_loop p' [] = Some (out, q)"
    and load: "int (length (sp_buffer q)) + sp_dataBytes q \<le> int (length (sp_buffer p')) + sp_dataBytes p'"
    using push_loop_runs [of p' "[]"] by blast
  have "sse_ok q" and "sp_maxBufferBytes q = sp_maxBufferBytes p"
    using push_loop_fits [OF push ok nn] m by auto
  moreover have "int (length (sp_buffer q @ concat cs)) + sp_dataBytes q \<le> sp_maxBufferBytes p"
    using load Cons.prems(1) by (simp add: p'_def)
  ultimately obtain os q' where "push_all q cs = Some (os, q')" using Cons.IH [of q] by auto
  with push show ?case by (simp add: sse_push_def flip: p'_def)
qed simp

text \<open>
  C31. However a stream is cut into chunks, an enforcing SSE parser either fails closed or emits exactly the events of the whole stream read line by line; and it never
  fails when the stream is no longer than the cap.\<close>

theorem sse_chunk_independent:
  "(push_all (new_sse_parser (Some n) None) cs = None \<or>
     (\<exists>q. push_all (new_sse_parser (Some n) None) cs = Some (sse_events (concat cs), q) \<and> sp_buffer q = last_line (concat cs))) \<and>
   (int (length (concat cs)) \<le> n \<longrightarrow> push_all (new_sse_parser (Some n) None) cs \<noteq> None)"
proof -
  let ?p = "new_sse_parser (Some n) None"
  have p: "reading ?p" "sse_ok ?p" "sp_buffer ?p = []" "pending ?p = (None, [])" "sp_dataBytes ?p = 0" "sp_maxBufferBytes ?p = n"
    by (simp_all add: new_sse_parser_def reading_def sse_ok_def)
  have "outs = sse_events (concat cs) \<and> sp_buffer q = last_line (concat cs)" if "push_all ?p cs = Some (outs, q)" for outs q
    using push_all_reads [OF that p(1)] p by (simp add: sse_events_def)
  moreover have "push_all ?p cs \<noteq> None" if "int (length (concat cs)) \<le> n"
    using push_all_runs [of ?p cs] p that by auto
  ultimately show ?thesis by (cases "push_all ?p cs") auto
qed

theorem sse_chunk_independent_witness:
  "(\<exists>q. push_all (new_sse_parser (Some 99) None)
      [''event: ping'' @ [CHR 0x0A] @ ''da'', ''ta: 1'' @ [CHR 0x0D], [CHR 0x0A, CHR 0x0A] @ ''data: 2''] =
    Some ([\<lparr>se_event = Some ''ping'', se_data = ''1''\<rparr>], q) \<and> sp_buffer q = ''data: 2'')"
  using sse_chunk_independent [of 99 "[''event: ping'' @ [CHR 0x0A] @ ''da'', ''ta: 1'' @ [CHR 0x0D], [CHR 0x0A, CHR 0x0A] @ ''data: 2'']"]
  by (auto simp del: push_all.simps simp: sse_events_def whole_lines_def last_line_def strip_cr_def strip_space_def js_trim_def js_space_def)

text \<open>
  Under either overflow policy, what an SSE parser holds after any number of chunks, the unfinished line and the data lines of the event in progress, fits its
  cap.\<close>

theorem sse_memory_bounded:
  assumes "0 \<le> n" and "push_all (new_sse_parser (Some n) policy) cs = Some (out, q)"
  shows "int (length (sp_buffer q)) + sum_list (map (\<lambda>d. int (length d) + 1) (sp_dataLines q)) \<le> n"
  using push_all_fits [OF assms(2)] assms(1) by (simp add: new_sse_parser_def sse_ok_def held_def)

theorem sse_memory_bounded_witness:
  "push_all (new_sse_parser (Some 8) (Some OverflowReset)) [''data: 0123456789'', ''x'' @ [CHR 0x0A, CHR 0x0A] @ ''data: 1'']
     = Some ([], (new_sse_parser (Some 8) (Some OverflowReset))\<lparr>sp_buffer := ''data: 1''\<rparr>) \<and>
   int (length ''data: 1'') + sum_list (map (\<lambda>d. int (length d) + 1) []) \<le> 8"
proof -
  have run: "push_all (new_sse_parser (Some 8) (Some OverflowReset)) [''data: 0123456789'', ''x'' @ [CHR 0x0A, CHR 0x0A] @ ''data: 1'']
     = Some ([], (new_sse_parser (Some 8) (Some OverflowReset))\<lparr>sp_buffer := ''data: 1''\<rparr>)"
    by code_simp
  from sse_memory_bounded [OF _ run] run show ?thesis by (simp add: new_sse_parser_def)
qed

section \<open>What is framed is read back\<close>

text \<open>An event that one data line can carry, under a name the parser does not trim.\<close>

definition framable :: "SSEEvent \<Rightarrow> bool" where
  "framable ev \<longleftrightarrow>
     CHR 0x0A \<notin> set (se_data ev) \<and> (se_data ev \<noteq> [] \<longrightarrow> last (se_data ev) \<noteq> CHR 0x0D) \<and>
     (case se_event ev of None \<Rightarrow> True | Some n \<Rightarrow> n \<noteq> [] \<and> list_all (\<lambda>c. \<not> js_space c) n)"

lemma no_space_trim: "list_all (\<lambda>c. \<not> js_space c) n \<Longrightarrow> js_trim (CHR '' '' # n) = n"
proof -
  assume n: "list_all (\<lambda>c. \<not> js_space c) n"
  have "dropWhile js_space m = m" if "list_all (\<lambda>c. \<not> js_space c) m" for m
    using that by (cases m) auto
  from this [OF n] this [of "rev n"] n show ?thesis by (simp add: js_trim_def js_space_def)
qed

lemma strip_cr_plain: "(l \<noteq> [] \<longrightarrow> last l \<noteq> CHR 0x0D) \<Longrightarrow> strip_cr l = l"
  by (auto simp: strip_cr_def)

lemma data_line_read:
  "framable ev \<Longrightarrow> read_lines (e, []) (whole_lines (''data: '' @ se_data ev @ CHR 0x0A # CHR 0x0A # r)) =
     (let (st, out) = read_lines (None, []) (whole_lines r) in (st, \<lparr>se_event = e, se_data = se_data ev\<rparr> # out))"
proof -
  assume ev: "framable ev"
  have "whole_lines (''data: '' @ se_data ev @ CHR 0x0A # CHR 0x0A # r) = (''data: '' @ se_data ev) # [] # whole_lines r"
    using ev whole_lines_cut [of "''data: '' @ se_data ev" "CHR 0x0A # r"] whole_lines_cut [of "[]" r]
    by (simp add: framable_def)
  moreover have "strip_cr (''data: '' @ se_data ev) = ''data: '' @ se_data ev"
    using ev by (intro strip_cr_plain) (simp add: framable_def)
  ultimately show ?thesis by (simp add: strip_space_def strip_cr_def split: prod.splits)
qed

lemma framed_read:
  assumes "framable ev"
  shows "read_lines (None, []) (whole_lines (reframe ev @ r)) =
    (let (st, out) = read_lines (None, []) (whole_lines r) in (st, ev # out))"
proof (cases "se_event ev")
  case None
  then show ?thesis using data_line_read [OF assms, of None r] by (cases ev) (simp add: reframe_def)
next
  case (Some n)
  with assms have n: "n \<noteq> []" "list_all (\<lambda>c. \<not> js_space c) n" by (simp_all add: framable_def)
  have "\<not> js_space c" if "c \<in> set n" for c using n(2) that by (simp add: list_all_iff)
  moreover have "js_space (CHR 0x0A)" and "js_space (CHR 0x0D)" by (simp_all add: js_space_def)
  ultimately have "CHR 0x0A \<notin> set n" and "last n \<noteq> CHR 0x0D" using last_in_set [OF n(1)] by metis+
  then have "whole_lines (reframe ev @ r) = (''event: '' @ n) # whole_lines (''data: '' @ se_data ev @ CHR 0x0A # CHR 0x0A # r)"
    and "strip_cr (''event: '' @ n) = ''event: '' @ n"
    using Some n(1) whole_lines_cut [of "''event: '' @ n"] by (simp_all add: reframe_def strip_cr_def)
  then show ?thesis using data_line_read [OF assms, of "Some n" r] no_space_trim [OF n(2)] Some
    by (cases ev) (simp split: prod.splits)
qed

lemma framed_events: "list_all framable evs \<Longrightarrow> sse_events (concat (map reframe evs)) = evs"
proof (induction evs)
  case (Cons ev evs)
  then show ?case using framed_read [of ev "concat (map reframe evs)"]
    by (simp add: sse_events_def split: prod.splits)
qed (simp add: sse_events_def whole_lines_def)

text \<open>
  Events framed by the gateway and delivered in any chunks are read back as they were, by any enforcing parser whose cap holds the stream.\<close>

theorem sse_frame_roundtrip:
  assumes "list_all framable evs" and "concat cs = concat (map reframe evs)" and "int (length (concat cs)) \<le> n"
  shows "\<exists>q. push_all (new_sse_parser (Some n) None) cs = Some (evs, q)"
proof -
  let ?p = "new_sse_parser (Some n) None"
  have p: "reading ?p" "sse_ok ?p" "sp_buffer ?p = []" "pending ?p = (None, [])" "sp_dataBytes ?p = 0" "sp_maxBufferBytes ?p = n"
    by (simp_all add: new_sse_parser_def reading_def sse_ok_def)
  obtain outs q where run: "push_all ?p cs = Some (outs, q)" using push_all_runs [of ?p cs] p assms(3) by auto
  with push_all_reads [OF run p(1)] p framed_events [OF assms(1)] assms(2) show ?thesis
    by (auto simp: sse_events_def)
qed

theorem sse_frame_roundtrip_witness:
  "\<exists>q. push_all (new_sse_parser (Some 40) None) [''event: ping'' @ [CHR 0x0A] @ ''data'', '': 1'' @ [CHR 0x0A, CHR 0x0A]] =
     Some ([\<lparr>se_event = Some ''ping'', se_data = ''1''\<rparr>], q)"
  by (rule sse_frame_roundtrip) (simp_all add: framable_def reframe_def js_space_def)

end
