(* ===== verification/Eventstream.thy ===== *)
theory Eventstream
  imports Js_Parse Sse "HOL-Library.Word"
begin

text \<open>
  The Bedrock decoder: the error shaping of \<^verbatim>\<open>providers/src/bedrock-errors.ts\<close>, and the frame parser and the bridge to server-sent events of
  \<^verbatim>\<open>bedrock-eventstream.ts\<close>. Bytes are 8-bit words. Decoding bytes to text, base64 and the text of a value that is not a string are
  arguments (the \<^verbatim>\<open>Buffer\<close> API). Pausing the upstream when the client is slow is not modelled.
\<close>

section \<open>Error shaping\<close>

definition PROMPT_TOO_LONG_TOKEN :: string where
  "PROMPT_TOO_LONG_TOKEN = ''capability_rejected: prompt_too_long''"

definition contains_ci :: "string \<Rightarrow> string \<Rightarrow> bool" where
  "contains_ci needle s = sublist needle (to_lower s)"

definition INPUT_TOO_LONG_RE :: "string \<Rightarrow> bool" where
  "INPUT_TOO_LONG_RE s =
     (contains_ci ''input is too long for requested model'' s \<or> contains_ci ''too many input tokens'' s \<or> contains_ci ''prompt is too long'' s)"

definition drop_exception :: "string \<Rightarrow> string" where
  "drop_exception t = (if suffix ''exception'' t then take (length t - 9) t else t)"

definition anthropicErrorType :: "string option \<Rightarrow> int \<Rightarrow> string" where
  "anthropicErrorType bedrockType status =
     (let t = drop_exception (to_lower (hd (split_on (CHR '':'') (case bedrockType of Some b \<Rightarrow> b | None \<Rightarrow> [])))) in
      if t = ''throttling'' then ''rate_limit_error''
      else if t \<in> {''modelnotready'', ''serviceunavailable'', ''servicequotaexceeded''} then ''overloaded_error''
      else if t = ''validation'' then ''invalid_request_error''
      else if t = ''accessdenied'' then ''permission_error''
      else if t = ''resourcenotfound'' then ''not_found_error''
      else if t \<in> {''internalserver'', ''internalerror'', ''modelstreamerror'', ''modeltimeout'', ''modelerror''} then ''api_error''
      else if status = 400 \<or> status = 413 \<or> status = 422 then ''invalid_request_error''
      else if status = 401 then ''authentication_error''
      else if status = 403 then ''permission_error''
      else if status = 404 then ''not_found_error''
      else if status = 429 then ''rate_limit_error''
      else if status = 503 then ''overloaded_error''
      else ''api_error'')"

definition anthropicErrorMessage :: "string \<Rightarrow> int \<Rightarrow> string" where
  "anthropicErrorMessage message status =
     (if status = 413 \<or> INPUT_TOO_LONG_RE message then PROMPT_TOO_LONG_TOKEN else message)"

definition shapeBedrockError :: "int \<Rightarrow> string option \<Rightarrow> string \<Rightarrow> json" where
  "shapeBedrockError status bedrockType message =
     JObj [(''type'', JStr ''error''),
       (''error'', JObj [(''type'', JStr (anthropicErrorType bedrockType status)), (''message'', JStr (anthropicErrorMessage message status))])]"

definition bedrockErrorMessage :: "string \<Rightarrow> string \<Rightarrow> string" where
  "bedrockErrorMessage raw fallback =
     (let named = (\<lambda>k. case json_parse raw of
            Some j \<Rightarrow> (case j_field j k of Some (JStr m) \<Rightarrow> if m = [] then None else Some m | _ \<Rightarrow> None)
          | None \<Rightarrow> None);
          txt = js_trim raw in
      case named ''message'' of
        Some m \<Rightarrow> m
      | None \<Rightarrow>
          (case named ''Message'' of
             Some m \<Rightarrow> m
           | None \<Rightarrow> if 0 < length txt \<and> length txt \<le> 2048 then txt else fallback))"

section \<open>Frames\<close>

type_synonym bytes = "8 word list"

record EventstreamFrame =
  ef_headers :: "(string, string) jsmap"
  ef_payload :: bytes

datatype eventstream_error = FrameLength nat | HeadersLength nat | OutOfRange

definition MAX_FRAME_BYTES :: nat where
  "MAX_FRAME_BYTES = 16 * 1024 * 1024"

definition MIN_FRAME_BYTES :: nat where
  "MIN_FRAME_BYTES = 16"

text \<open>Big-endian reads; \<open>None\<close> is the \<^verbatim>\<open>RangeError\<close> past the end of the buffer.\<close>

definition be_value :: "bytes \<Rightarrow> nat" where
  "be_value bs = foldl (\<lambda>acc b. 256 * acc + unat b) 0 bs"

definition read_be :: "nat \<Rightarrow> bytes \<Rightarrow> nat \<Rightarrow> nat option" where
  "read_be n buf off = (if off + n \<le> length buf then Some (be_value (take n (drop off buf))) else None)"

definition slice :: "bytes \<Rightarrow> nat \<Rightarrow> nat \<Rightarrow> bytes" where
  "slice buf a b = take (b - a) (drop a buf)"

text \<open>The width of a header value, from its type and the two bytes of its length; a string is captured.\<close>

definition header_width :: "nat \<Rightarrow> nat option" where
  "header_width ty =
     (if ty = 0 \<or> ty = 1 then Some 0 else if ty = 2 then Some 1 else if ty = 3 then Some 2 else if ty = 4 then Some 4
      else if ty = 5 \<or> ty = 8 then Some 8 else if ty = 9 then Some 16 else None)"

definition put_header :: "string \<Rightarrow> string \<Rightarrow> (string, string) jsmap \<Rightarrow> (string, string) jsmap" where
  "put_header k v m = (if k = ''__proto__'' then m else jm_set k v m)"

function parse_headers_from :: "(bytes \<Rightarrow> string) \<Rightarrow> bytes \<Rightarrow> nat \<Rightarrow> (string, string) jsmap \<Rightarrow> eventstream_error + (string, string) jsmap" where
  "parse_headers_from utf8 buf off hs =
     (if length buf \<le> off then Inr hs
      else case read_be 1 buf off of
        None \<Rightarrow> Inl OutOfRange
      | Some nameLen \<Rightarrow>
          (let name = utf8 (slice buf (off + 1) (off + 1 + nameLen)); o1 = off + 1 + nameLen in
           case read_be 1 buf o1 of
             None \<Rightarrow> Inl OutOfRange
           | Some ty \<Rightarrow>
               (case header_width ty of
                  Some w \<Rightarrow> parse_headers_from utf8 buf (o1 + 1 + w) hs
                | None \<Rightarrow>
                    if ty = 6 \<or> ty = 7 then
                      (case read_be 2 buf (o1 + 1) of
                         None \<Rightarrow> Inl OutOfRange
                       | Some l \<Rightarrow>
                           parse_headers_from utf8 buf (o1 + 3 + l)
                             (if ty = 7 then put_header name (utf8 (slice buf (o1 + 3) (o1 + 3 + l))) hs else hs))
                    else Inr hs)))"
  by pat_completeness auto
termination by (relation "measure (\<lambda>(utf8, buf, off, hs). length buf - off)") auto

declare parse_headers_from.simps [simp del]

definition parseHeaders :: "(bytes \<Rightarrow> string) \<Rightarrow> bytes \<Rightarrow> eventstream_error + (string, string) jsmap" where
  "parseHeaders utf8 buf = parse_headers_from utf8 buf 0 []"

definition parseFrame :: "(bytes \<Rightarrow> string) \<Rightarrow> bytes \<Rightarrow> eventstream_error + EventstreamFrame" where
  "parseFrame utf8 frame =
     (case read_be 4 frame 4 of
        None \<Rightarrow> Inl OutOfRange
      | Some headersLen \<Rightarrow>
          (let headersEnd = 12 + headersLen in
           if length frame < headersLen \<or> length frame - 4 < headersEnd then Inl (HeadersLength headersLen)
           else case parseHeaders utf8 (slice frame 12 headersEnd) of
             Inl e \<Rightarrow> Inl e
           | Inr hs \<Rightarrow> Inr \<lparr>ef_headers = hs, ef_payload = slice frame headersEnd (length frame - 4)\<rparr>))"

text \<open>The loop of \<^verbatim>\<open>push\<close> on the whole buffer: the frames and what is left, or the error thrown.\<close>

function frame_loop :: "(bytes \<Rightarrow> string) \<Rightarrow> bytes \<Rightarrow> eventstream_error + (EventstreamFrame list \<times> bytes)" where
  "frame_loop utf8 buf =
     (if length buf < 4 then Inr ([], buf)
      else
        (let total = be_value (take 4 buf) in
         if total < MIN_FRAME_BYTES \<or> MAX_FRAME_BYTES < total then Inl (FrameLength total)
         else if length buf < total then Inr ([], buf)
         else case parseFrame utf8 (take total buf) of
           Inl e \<Rightarrow> Inl e
         | Inr f \<Rightarrow> map_sum id (map_prod ((#) f) id) (frame_loop utf8 (drop total buf))))"
  by pat_completeness auto
termination by (relation "measure (\<lambda>(utf8, buf). length buf)") (auto simp: MIN_FRAME_BYTES_def)

declare frame_loop.simps [simp del]

definition frame_push :: "(bytes \<Rightarrow> string) \<Rightarrow> bytes \<Rightarrow> bytes \<Rightarrow> eventstream_error + (EventstreamFrame list \<times> bytes)" where
  "frame_push utf8 buf chunk = frame_loop utf8 (buf @ chunk)"

fun frame_push_all :: "(bytes \<Rightarrow> string) \<Rightarrow> bytes \<Rightarrow> bytes list \<Rightarrow> eventstream_error + (EventstreamFrame list \<times> bytes)" where
  "frame_push_all utf8 buf [] = Inr ([], buf)"
| "frame_push_all utf8 buf (c # cs) =
     (case frame_push utf8 buf c of
        Inl e \<Rightarrow> Inl e
      | Inr (fs, buf') \<Rightarrow> map_sum id (map_prod ((@) fs) id) (frame_push_all utf8 buf' cs))"

section \<open>Chunks do not matter\<close>

definition and_then :: "(eventstream_error + (EventstreamFrame list \<times> bytes)) \<Rightarrow> (bytes \<Rightarrow> eventstream_error + (EventstreamFrame list \<times> bytes))
    \<Rightarrow> eventstream_error + (EventstreamFrame list \<times> bytes)" where
  "and_then r k = (case r of Inl e \<Rightarrow> Inl e | Inr (fs, buf) \<Rightarrow> map_sum id (map_prod ((@) fs) id) (k buf))"

lemma map_prod_append: "map_sum id (map_prod ((@) []) id) r = r"
  by (cases r) auto

lemma and_then_Cons:
  "and_then (map_sum id (map_prod ((#) f) id) r) k = map_sum id (map_prod ((#) f) id) (and_then r k)"
proof (cases r)
  case (Inr p)
  then show ?thesis by (cases p; cases "k (snd p)") (auto simp: and_then_def)
qed (simp add: and_then_def)

lemma map_frames_Inr:
  "map_sum id (map_prod ((#) f) id) r = Inr (fs, rest) \<longleftrightarrow> (\<exists>gs. r = Inr (gs, rest) \<and> fs = f # gs)"
  by (cases r) auto

lemma frame_loop_append: "frame_loop utf8 (a @ b) = and_then (frame_loop utf8 a) (\<lambda>rest. frame_loop utf8 (rest @ b))"
proof (induction utf8 a rule: frame_loop.induct)
  case (1 utf8 a)
  show ?case
  proof (cases "length a < 4")
    case True
    then show ?thesis by (simp add: frame_loop.simps [of utf8 a] and_then_def map_prod_append)
  next
    case False
    define total where "total = be_value (take 4 a)"
    have t: "be_value (take 4 (a @ b)) = total" using False by (simp add: total_def)
    show ?thesis
    proof (cases "total < MIN_FRAME_BYTES \<or> MAX_FRAME_BYTES < total")
      case True
      with False t show ?thesis
        by (simp add: frame_loop.simps [of utf8 a] frame_loop.simps [of utf8 "a @ b"] Let_def and_then_def flip: total_def)
    next
      case size: False
      show ?thesis
      proof (cases "length a < total")
        case True
        with False size show ?thesis
          by (simp add: frame_loop.simps [of utf8 a] Let_def and_then_def map_prod_append flip: total_def)
      next
        case long: False
        with False size t "1.IH" [OF False total_def size long]
        show ?thesis
          by (simp add: frame_loop.simps [of utf8 a] frame_loop.simps [of utf8 "a @ b"] Let_def and_then_Cons flip: total_def
              split: sum.splits) (simp add: and_then_def)
      qed
    qed
  qed
qed

lemma frame_loop_idle: "frame_loop utf8 a = Inr (fs, rest) \<Longrightarrow> frame_loop utf8 rest = Inr ([], rest) \<and> length rest < MAX_FRAME_BYTES"
proof (induction utf8 a arbitrary: fs rule: frame_loop.induct)
  case (1 utf8 a)
  show ?case
  proof (cases "length a < 4 \<or> length a < be_value (take 4 a)")
    case True
    with "1.prems" have "a = rest \<and> fs = [] \<and> length rest < MAX_FRAME_BYTES"
      by (auto simp: frame_loop.simps [of utf8 a] Let_def MAX_FRAME_BYTES_def split: if_splits)
    with "1.prems" show ?thesis by simp
  next
    case False
    with "1.prems" obtain f gs where "frame_loop utf8 (drop (be_value (take 4 a)) a) = Inr (gs, rest)"
      and "parseFrame utf8 (take (be_value (take 4 a)) a) = Inr f"
      and "\<not> (be_value (take 4 a) < MIN_FRAME_BYTES \<or> MAX_FRAME_BYTES < be_value (take 4 a))"
      by (auto simp: frame_loop.simps [of utf8 a] Let_def map_frames_Inr split: if_splits sum.splits)
    then show ?thesis using "1.IH" [of "be_value (take 4 a)" f gs] False by auto
  qed
qed

lemma frame_push_all_loop:
  "frame_loop utf8 buf = Inr ([], buf) \<Longrightarrow> frame_push_all utf8 buf cs = frame_loop utf8 (buf @ concat cs)"
proof (induction cs arbitrary: buf)
  case (Cons c cs)
  show ?case
  proof (cases "frame_loop utf8 (buf @ c)")
    case (Inl e)
    then show ?thesis using frame_loop_append [of utf8 "buf @ c" "concat cs"] by (simp add: frame_push_def and_then_def)
  next
    case (Inr r)
    obtain fs rest where r: "r = (fs, rest)" by (cases r)
    with Inr frame_loop_idle [of utf8 "buf @ c"] have "frame_loop utf8 rest = Inr ([], rest)" by blast
    then show ?thesis using Cons.IH [of rest] Inr r frame_loop_append [of utf8 "buf @ c" "concat cs"]
      by (simp add: frame_push_def and_then_def)
  qed
qed simp

text \<open>
  However the bytes of an event stream are cut into chunks, the frame parser throws the same error or yields the same frames and leaves the same rest as on the whole
  stream at once; and what it leaves buffered is below the frame cap.\<close>

theorem eventstream_chunk_independent:
  "frame_push_all utf8 [] cs = frame_push utf8 [] (concat cs) \<and>
   (case frame_push_all utf8 [] cs of Inr (fs, rest) \<Rightarrow> length rest < 16777216 | Inl e \<Rightarrow> True)"
proof -
  have "frame_loop utf8 [] = Inr ([], [])" by (simp add: frame_loop.simps)
  from frame_push_all_loop [OF this, of cs] frame_loop_idle [of utf8 "concat cs"] show ?thesis
    by (auto simp: frame_push_def MAX_FRAME_BYTES_def split: sum.splits prod.splits)
qed

section \<open>Well-formed frames are decoded\<close>

definition be_bytes4 :: "nat \<Rightarrow> bytes" where
  "be_bytes4 n = map (\<lambda>i. word_of_nat (n div 256 ^ i mod 256)) [3, 2, 1, 0]"

definition be_bytes2 :: "nat \<Rightarrow> bytes" where
  "be_bytes2 n = map (\<lambda>i. word_of_nat (n div 256 ^ i mod 256)) [1, 0]"

definition encode_header :: "bytes \<times> bytes \<Rightarrow> bytes" where
  "encode_header h = word_of_nat (length (fst h)) # fst h @ 7 # be_bytes2 (length (snd h)) @ snd h"

definition encode_frame :: "bytes \<Rightarrow> bytes \<Rightarrow> (bytes \<times> bytes) list \<Rightarrow> bytes \<Rightarrow> bytes" where
  "encode_frame crc1 crc2 hs payload =
     (let headers = concat (map encode_header hs) in
      be_bytes4 (16 + length headers + length payload) @ be_bytes4 (length headers) @ crc1 @ headers @ payload @ crc2)"

lemma unat_byte: "unat (word_of_nat k :: 8 word) = k mod 256"
  by (simp add: unat_of_nat)

lemma be_value4: "n < 2 ^ 32 \<Longrightarrow> be_value (be_bytes4 n) = n"
proof -
  assume n: "n < 2 ^ 32"
  define q1 q2 q3 where "q1 = n div 256" and "q2 = q1 div 256" and "q3 = q2 div 256"
  have "n div 16777216 = q3" and "n div 65536 = q2"
    by (simp_all add: q1_def q2_def q3_def div_mult2_eq [of n 256 65536, simplified] div_mult2_eq [of n 256 256, simplified]
        div_mult2_eq [of "n div 256" 256 256, simplified])
  moreover have "q3 < 256" using n by (simp add: q1_def q2_def q3_def flip: div_mult2_eq)
  moreover have "n = 256 * q1 + n mod 256" "q1 = 256 * q2 + q1 mod 256" "q2 = 256 * q3 + q2 mod 256"
    by (simp_all add: q1_def q2_def q3_def)
  ultimately show ?thesis by (simp add: be_value_def be_bytes4_def unat_byte flip: q1_def) 
qed

lemma be_value2: "n < 65536 \<Longrightarrow> be_value (be_bytes2 n) = n"
proof -
  assume "n < 65536"
  then have "n div 256 < 256" by simp
  then show ?thesis by (simp add: be_value_def be_bytes2_def unat_byte)
qed

lemma be_bytes_length [simp]: "length (be_bytes4 n) = 4" "length (be_bytes2 n) = 2"
  by (simp_all add: be_bytes4_def be_bytes2_def)

definition header_ok :: "bytes \<times> bytes \<Rightarrow> bool" where
  "header_ok h \<longleftrightarrow> length (fst h) < 256 \<and> length (snd h) < 65536"

definition decode_headers :: "(bytes \<Rightarrow> string) \<Rightarrow> (bytes \<times> bytes) list \<Rightarrow> (string, string) jsmap \<Rightarrow> (string, string) jsmap" where
  "decode_headers utf8 hs m = foldl (\<lambda>m h. put_header (utf8 (fst h)) (utf8 (snd h)) m) m hs"

lemma read_be_at: "length pre = off \<Longrightarrow> length bs = n \<Longrightarrow> read_be n (pre @ bs @ post) off = Some (be_value bs)"
  by (simp add: read_be_def)

lemma slice_at: "length pre = a \<Longrightarrow> b = a + length bs \<Longrightarrow> slice (pre @ bs @ post) a b = bs"
  by (simp add: slice_def)

lemma parse_one_header:
  assumes "header_ok h"
  shows "parse_headers_from utf8 (pre @ encode_header h @ post) (length pre) m =
    parse_headers_from utf8 (pre @ encode_header h @ post) (length (pre @ encode_header h)) (put_header (utf8 (fst h)) (utf8 (snd h)) m)"
proof -
  obtain nm v where h: "h = (nm, v)" by (cases h)
  define lenb where "lenb = (word_of_nat (length nm) :: 8 word)"
  define buf where "buf = pre @ encode_header h @ post"
  have nm: "length nm < 256" and v: "length v < 65536" using assms by (simp_all add: header_ok_def h)
  have b: "buf = pre @ [lenb] @ nm @ [7] @ be_bytes2 (length v) @ v @ post"
    by (simp add: buf_def encode_header_def h lenb_def)
  have r1: "read_be 1 buf (length pre) = Some (length nm)"
    using read_be_at [of pre "length pre" "[lenb]" 1 "nm @ [7] @ be_bytes2 (length v) @ v @ post"] nm
    by (simp add: b be_value_def lenb_def unat_byte)
  have s1: "slice buf (Suc (length pre)) (Suc (length pre + length nm)) = nm"
    using slice_at [of "pre @ [lenb]" "Suc (length pre)" _ nm "[7] @ be_bytes2 (length v) @ v @ post"] by (simp add: b)
  have r2: "read_be 1 buf (Suc (length pre + length nm)) = Some 7"
    using read_be_at [of "pre @ [lenb] @ nm" "Suc (length pre + length nm)" "[7]" 1 "be_bytes2 (length v) @ v @ post"]
    by (simp add: b be_value_def)
  have r3: "read_be 2 buf (Suc (Suc (length pre + length nm))) = Some (length v)"
    using read_be_at [of "pre @ [lenb] @ nm @ [7]" "Suc (Suc (length pre + length nm))" "be_bytes2 (length v)" 2 "v @ post"] v
    by (simp add: b be_value2)
  have s2: "slice buf (length pre + length nm + 4) (length pre + length nm + 4 + length v) = v"
    using slice_at [of "pre @ [lenb] @ nm @ [7] @ be_bytes2 (length v)" "length pre + length nm + 4" _ v post] by (simp add: b)
  have "\<not> length buf \<le> length pre" by (simp add: b)
  moreover have "header_width 7 = None" by (simp add: header_width_def)
  moreover have "length (pre @ encode_header h) = length pre + length nm + 4 + length v" by (simp add: encode_header_def h)
  ultimately show ?thesis unfolding buf_def [symmetric]
    using r1 r2 r3 s1 s2 by (subst parse_headers_from.simps) (simp add: h Let_def add.commute add.left_commute)
qed

lemma parse_encoded_headers:
  "list_all header_ok hs \<Longrightarrow>
   parse_headers_from utf8 (pre @ concat (map encode_header hs)) (length pre) m = Inr (decode_headers utf8 hs m)"
proof (induction hs arbitrary: pre m)
  case Nil
  then show ?case by (simp add: parse_headers_from.simps decode_headers_def)
next
  case (Cons h hs)
  with parse_one_header [of h utf8 pre "concat (map encode_header hs)" m] Cons.IH [of "pre @ encode_header h"]
  show ?case by (simp add: decode_headers_def)
qed

definition frame_ok :: "(bytes \<times> bytes) list \<times> bytes \<Rightarrow> bool" where
  "frame_ok f \<longleftrightarrow> list_all header_ok (fst f) \<and> 16 + length (concat (map encode_header (fst f))) + length (snd f) \<le> MAX_FRAME_BYTES"

lemma encode_frame_length:
  "length crc1 = 4 \<Longrightarrow> length crc2 = 4 \<Longrightarrow>
   length (encode_frame crc1 crc2 hs payload) = 16 + length (concat (map encode_header hs)) + length payload"
  by (simp add: encode_frame_def Let_def)

lemma parse_encoded_frame:
  assumes "frame_ok (hs, payload)" and c: "length crc1 = 4" "length crc2 = 4"
  shows "parseFrame utf8 (encode_frame crc1 crc2 hs payload) = Inr \<lparr>ef_headers = decode_headers utf8 hs [], ef_payload = payload\<rparr>"
proof -
  define H where "H = concat (map encode_header hs)"
  define frame where "frame = encode_frame crc1 crc2 hs payload"
  define tot where "tot = be_bytes4 (16 + length H + length payload)"
  have f: "frame = tot @ be_bytes4 (length H) @ crc1 @ H @ payload @ crc2"
    by (simp add: frame_def encode_frame_def H_def tot_def Let_def)
  have len: "length tot = 4" by (simp add: tot_def)
  have "length H < 2 ^ 32" using assms(1) by (simp add: frame_ok_def H_def MAX_FRAME_BYTES_def)
  then have "read_be 4 frame 4 = Some (length H)"
    using read_be_at [of tot 4 "be_bytes4 (length H)" 4 "crc1 @ H @ payload @ crc2"] len by (simp add: f be_value4)
  moreover have "slice frame 12 (12 + length H) = H"
    using slice_at [of "tot @ be_bytes4 (length H) @ crc1" 12 "12 + length H" H "payload @ crc2"] c len by (simp add: f)
  moreover have "slice frame (12 + length H) (length frame - 4) = payload"
    using slice_at [of "tot @ be_bytes4 (length H) @ crc1 @ H" "12 + length H" "length frame - 4" payload crc2] c len by (simp add: f)
  moreover have "length frame = 16 + length H + length payload" using c len by (simp add: f)
  moreover have "parseHeaders utf8 H = Inr (decode_headers utf8 hs [])"
    using parse_encoded_headers [of hs utf8 "[]" "[]"] assms(1) by (simp add: parseHeaders_def H_def frame_ok_def)
  ultimately show ?thesis by (simp add: parseFrame_def Let_def flip: frame_def)
qed

lemma frame_loop_encoded:
  assumes "frame_ok (hs, payload)" and c: "length crc1 = 4" "length crc2 = 4"
  shows "frame_loop utf8 (encode_frame crc1 crc2 hs payload @ rest) =
    map_sum id (map_prod ((#) \<lparr>ef_headers = decode_headers utf8 hs [], ef_payload = payload\<rparr>) id) (frame_loop utf8 rest)"
proof -
  define total where "total = length (encode_frame crc1 crc2 hs payload)"
  have t: "total = 16 + length (concat (map encode_header hs)) + length payload" "total \<le> MAX_FRAME_BYTES"
    using assms by (simp_all add: total_def encode_frame_length frame_ok_def)
  have "be_value (take 4 (encode_frame crc1 crc2 hs payload @ rest)) = total"
    using t by (simp add: encode_frame_def Let_def be_value4 MAX_FRAME_BYTES_def)
  moreover have "take total (encode_frame crc1 crc2 hs payload @ rest) = encode_frame crc1 crc2 hs payload"
    and "drop total (encode_frame crc1 crc2 hs payload @ rest) = rest"
    by (simp_all add: total_def)
  moreover have "\<not> total < MIN_FRAME_BYTES" "\<not> MAX_FRAME_BYTES < total" "4 \<le> total" using t by (simp_all add: MIN_FRAME_BYTES_def)
  ultimately show ?thesis
    using parse_encoded_frame [OF assms] total_def by (subst frame_loop.simps) (simp add: Let_def)
qed

lemma frame_loop_encodings:
  "list_all frame_ok fs \<Longrightarrow> length crc1 = 4 \<Longrightarrow> length crc2 = 4 \<Longrightarrow>
   frame_loop utf8 (concat (map (\<lambda>(hs, p). encode_frame crc1 crc2 hs p) fs)) =
     Inr (map (\<lambda>(hs, p). \<lparr>ef_headers = decode_headers utf8 hs [], ef_payload = p\<rparr>) fs, [])"
proof (induction fs)
  case Nil
  then show ?case by (simp add: frame_loop.simps)
next
  case (Cons f fs)
  then show ?case by (cases f) (simp add: frame_loop_encoded)
qed

text \<open>
  A sequence of well-formed frames with string headers, in any chunks and whatever their checksums, decodes to their headers and payloads with nothing left over.\<close>

theorem eventstream_roundtrip:
  assumes "list_all frame_ok fs" and "length crc1 = 4" and "length crc2 = 4"
    and "concat cs = concat (map (\<lambda>(hs, p). encode_frame crc1 crc2 hs p) fs)"
  shows "frame_push_all utf8 [] cs = Inr (map (\<lambda>(hs, p). \<lparr>ef_headers = decode_headers utf8 hs [], ef_payload = p\<rparr>) fs, [])"
  using frame_push_all_loop [of utf8 "[]" cs] frame_loop_encodings [OF assms(1-3), of utf8] assms(4)
  by (simp add: frame_loop.simps [of utf8 "[]"])

theorem eventstream_roundtrip_witness:
  "frame_push_all (map (char_of \<circ> unat)) []
     [take 9 (encode_frame [0, 0, 0, 0] [0, 0, 0, 0] [([58, 116], [120])] [1, 2]), drop 9 (encode_frame [0, 0, 0, 0] [0, 0, 0, 0] [([58, 116], [120])] [1, 2])]
   = Inr ([\<lparr>ef_headers = [('':t'', ''x'')], ef_payload = [1, 2]\<rparr>], [])"
  using eventstream_roundtrip [of "[([([58, 116], [120])], [1, 2])]" "[0, 0, 0, 0]" "[0, 0, 0, 0]"
      "[take 9 (encode_frame [0, 0, 0, 0] [0, 0, 0, 0] [([58, 116], [120])] [1, 2]), drop 9 (encode_frame [0, 0, 0, 0] [0, 0, 0, 0] [([58, 116], [120])] [1, 2])]"
      "map (char_of \<circ> unat)"]
  by (simp add: frame_ok_def header_ok_def MAX_FRAME_BYTES_def encode_header_def decode_headers_def put_header_def char_of_def bit_0)

section \<open>The bridge to server-sent events\<close>

text \<open>What the bridge asks of the platform: text of bytes, text of a base64 value (\<open>None\<close> when it throws), the text of any value, and number printing.\<close>

record platform =
  pl_utf8 :: "bytes \<Rightarrow> string"
  pl_base64 :: "json \<Rightarrow> string option"
  pl_text :: "json \<Rightarrow> string"
  pl_number :: number_text

datatype out_state = OutOpen | OutEnded | OutDestroyed

record bridge =
  br_buf :: bytes
  br_ended :: bool
  br_out :: "string list"
  br_outState :: out_state
  br_upDestroyed :: bool
  br_pingAt :: "int option"
  br_lastFrameAt :: int

definition new_bridge :: bridge where
  "new_bridge = \<lparr>br_buf = [], br_ended = False, br_out = [], br_outState = OutOpen, br_upDestroyed = False, br_pingAt = None, br_lastFrameAt = 0\<rparr>"

record BedrockSseOptions =
  bo_pingIntervalMs :: "int option"
  bo_pingMaxIdleMs :: "int option"

definition DEFAULT_PING_MAX_IDLE_MS :: int where
  "DEFAULT_PING_MAX_IDLE_MS = 300000"

definition nl :: string where
  "nl = [CHR 0x0A]"

definition PING_FRAME :: string where
  "PING_FRAME = ''event: ping'' @ nl @ ''data: '' @ stringify (\<lambda>r. []) (JObj [(''type'', JStr ''ping'')]) @ nl @ nl"

text \<open>Whether a chunk is nothing but synthesised pings, at most eight of them.\<close>

function all_pings :: "string \<Rightarrow> bool" where
  "all_pings chunk =
     (if chunk = [] then True
      else take (length PING_FRAME) chunk = PING_FRAME \<and> all_pings (drop (length PING_FRAME) chunk))"
  by pat_completeness auto
termination by (relation "measure length") (auto simp: PING_FRAME_def)

declare all_pings.simps [simp del]

definition isSyntheticPingChunk :: "string \<Rightarrow> bool" where
  "isSyntheticPingChunk chunk =
     (let n = length PING_FRAME in
      \<not> (length chunk = 0 \<or> length chunk mod n \<noteq> 0 \<or> n * 8 < length chunk) \<and> all_pings chunk)"

definition out_write :: "string \<Rightarrow> bridge \<Rightarrow> bridge" where
  "out_write s b = (if br_outState b = OutOpen then b\<lparr>br_out := br_out b @ [s]\<rparr> else b)"

definition out_end :: "bridge \<Rightarrow> bridge" where
  "out_end b = (if br_outState b = OutOpen then b\<lparr>br_outState := OutEnded\<rparr> else b)"

definition stopPings :: "bridge \<Rightarrow> bridge" where
  "stopPings b = b\<lparr>br_pingAt := None\<rparr>"

definition pingInterval :: "BedrockSseOptions \<Rightarrow> int" where
  "pingInterval opts = max 0 (case bo_pingIntervalMs opts of None \<Rightarrow> 0 | Some n \<Rightarrow> n)"

definition pingMaxIdle :: "BedrockSseOptions \<Rightarrow> int" where
  "pingMaxIdle opts = (case bo_pingMaxIdleMs opts of None \<Rightarrow> DEFAULT_PING_MAX_IDLE_MS | Some n \<Rightarrow> n)"

definition armPing :: "BedrockSseOptions \<Rightarrow> int \<Rightarrow> bridge \<Rightarrow> bridge" where
  "armPing opts now b =
     (if pingInterval opts = 0 \<or> br_ended b then b else (stopPings b)\<lparr>br_pingAt := Some (now + pingInterval opts)\<rparr>)"

definition ping_fires :: "BedrockSseOptions \<Rightarrow> int \<Rightarrow> bridge \<Rightarrow> bridge" where
  "ping_fires opts now b =
     (case br_pingAt b of
        None \<Rightarrow> b
      | Some t \<Rightarrow>
          if now < t then b
          else
            (let b' = stopPings b in
             if br_ended b' \<or> br_outState b' \<noteq> OutOpen then b'
             else if pingMaxIdle opts \<le> now - br_lastFrameAt b' then b'
             else armPing opts now (out_write PING_FRAME b')))"

definition error_frame :: "platform \<Rightarrow> string \<Rightarrow> string \<Rightarrow> string" where
  "error_frame pl bedrockType message =
     ''event: error'' @ nl @ ''data: '' @ stringify (pl_number pl) (shapeBedrockError 0 (Some bedrockType) message) @ nl @ nl"

definition failWithFrame :: "platform \<Rightarrow> string \<Rightarrow> string \<Rightarrow> bridge \<Rightarrow> bridge" where
  "failWithFrame pl bedrockType message b =
     (out_end (out_write (error_frame pl bedrockType message) (stopPings (b\<lparr>br_ended := True\<rparr>))))\<lparr>br_upDestroyed := True\<rparr>"

definition event_name :: "platform \<Rightarrow> json \<Rightarrow> string" where
  "event_name pl evt =
     (case j_field evt ''type'' of
        None \<Rightarrow> ''message''
      | Some JNull \<Rightarrow> ''message''
      | Some (JStr s) \<Rightarrow> s
      | Some v \<Rightarrow> pl_text pl v)"

text \<open>The decoded event of a chunk frame; \<open>None\<close> is a malformed chunk, which is skipped.\<close>

definition chunk_event :: "platform \<Rightarrow> bytes \<Rightarrow> string option" where
  "chunk_event pl payload =
     (case json_parse (pl_utf8 pl payload) of
        None \<Rightarrow> None
      | Some wrapper \<Rightarrow>
          (case j_field wrapper ''bytes'' of
             None \<Rightarrow> None
           | Some bs \<Rightarrow>
               if \<not> js_truthy bs then None
               else case pl_base64 pl bs of
                 None \<Rightarrow> None
               | Some decoded \<Rightarrow>
                   (case json_parse decoded of
                      None \<Rightarrow> None
                    | Some JNull \<Rightarrow> None
                    | Some evt \<Rightarrow> Some (''event: '' @ event_name pl evt @ nl @ ''data: '' @ decoded @ nl @ nl))))"

definition exception_message :: "platform \<Rightarrow> bytes \<Rightarrow> string" where
  "exception_message pl payload =
     (case json_parse (pl_utf8 pl payload) of
        Some j \<Rightarrow> (case j_field j ''message'' of Some (JStr m) \<Rightarrow> m | _ \<Rightarrow> ''bedrock exception'')
      | None \<Rightarrow> ''bedrock exception'')"

text \<open>What a frame asks for: nothing, an event, or the end of the stream with an error.\<close>

datatype frame_action = SkipFrame | EmitEvent string | FailStream string string

definition frame_action :: "platform \<Rightarrow> EventstreamFrame \<Rightarrow> frame_action" where
  "frame_action pl f =
     (let messageType = jm_get (ef_headers f) '':message-type''; eventType = jm_get (ef_headers f) '':event-type'';
          exception = (case eventType of Some e \<Rightarrow> e \<noteq> [] \<and> suffix ''Exception'' e | None \<Rightarrow> False) in
      if messageType = Some ''event'' \<and> eventType = Some ''chunk'' then
        (case chunk_event pl (ef_payload f) of None \<Rightarrow> SkipFrame | Some txt \<Rightarrow> EmitEvent txt)
      else if messageType = Some ''exception'' \<or> exception then
        FailStream
          (case jm_get (ef_headers f) '':exception-type'' of
             Some t \<Rightarrow> t
           | None \<Rightarrow> (case eventType of Some e \<Rightarrow> e | None \<Rightarrow> ''api_error''))
          (exception_message pl (ef_payload f))
      else if messageType = Some ''error'' then
        FailStream
          (case jm_get (ef_headers f) '':error-code'' of Some c \<Rightarrow> c | None \<Rightarrow> ''unknown'')
          (case jm_get (ef_headers f) '':error-message'' of Some m \<Rightarrow> m | None \<Rightarrow> ''eventstream error'')
      else SkipFrame)"

fun bridge_frames :: "platform \<Rightarrow> BedrockSseOptions \<Rightarrow> int \<Rightarrow> EventstreamFrame list \<Rightarrow> bridge \<Rightarrow> bridge" where
  "bridge_frames pl opts now [] b = b"
| "bridge_frames pl opts now (f # fs) b =
     (case frame_action pl f of
        SkipFrame \<Rightarrow> bridge_frames pl opts now fs b
      | EmitEvent txt \<Rightarrow> bridge_frames pl opts now fs (armPing opts now ((out_write txt b)\<lparr>br_lastFrameAt := now\<rparr>))
      | FailStream t m \<Rightarrow> failWithFrame pl t m b)"

datatype bridge_event = UpData int bytes | PingTimer int | UpEnd | UpError | OutClose

fun bridge_step :: "platform \<Rightarrow> BedrockSseOptions \<Rightarrow> bridge \<Rightarrow> bridge_event \<Rightarrow> bridge" where
  "bridge_step pl opts b (UpData now chunk) =
     (if br_ended b then b
      else case frame_push (pl_utf8 pl) (br_buf b) chunk of
        Inl e \<Rightarrow> b\<lparr>br_outState := OutDestroyed, br_upDestroyed := True\<rparr>
      | Inr (fs, rest) \<Rightarrow> bridge_frames pl opts now fs (b\<lparr>br_buf := rest\<rparr>))"
| "bridge_step pl opts b (PingTimer now) = ping_fires opts now b"
| "bridge_step pl opts b UpEnd = (let b' = stopPings b in if br_ended b' then b' else out_end b')"
| "bridge_step pl opts b UpError = (let b' = stopPings b in if br_ended b' then b' else b'\<lparr>br_outState := OutDestroyed\<rparr>)"
| "bridge_step pl opts b OutClose = (stopPings b)\<lparr>br_outState := (if br_outState b = OutOpen then OutDestroyed else br_outState b)\<rparr>"

section \<open>The bridge ends once\<close>

lemmas bridge_ops = out_write_def out_end_def stopPings_def armPing_def failWithFrame_def ping_fires_def

lemma frames_closed:
  "br_outState b \<noteq> OutOpen \<Longrightarrow>
   br_out (bridge_frames pl opts now fs b) = br_out b \<and> br_outState (bridge_frames pl opts now fs b) \<noteq> OutOpen"
proof (induction fs arbitrary: b)
  case (Cons f fs)
  then show ?case by (simp add: bridge_ops split: frame_action.splits)
qed simp

lemma step_closed:
  "br_outState b \<noteq> OutOpen \<Longrightarrow> br_out (bridge_step pl opts b e) = br_out b \<and> br_outState (bridge_step pl opts b e) \<noteq> OutOpen"
  by (cases e) (auto simp: Let_def bridge_ops frames_closed split: option.splits sum.splits prod.splits)

lemma run_closed:
  "br_outState b \<noteq> OutOpen \<Longrightarrow> br_out (foldl (bridge_step pl opts) b es) = br_out b"
  by (induction es arbitrary: b) (simp_all add: step_closed)

lemma frames_fail:
  "br_outState b = OutOpen \<Longrightarrow> \<not> br_ended b \<Longrightarrow> br_ended (bridge_frames pl opts now fs b) \<Longrightarrow>
   \<exists>pre t m. br_out (bridge_frames pl opts now fs b) = br_out b @ pre @ [error_frame pl t m] \<and>
     br_outState (bridge_frames pl opts now fs b) = OutEnded \<and> br_pingAt (bridge_frames pl opts now fs b) = None"
proof (induction fs arbitrary: b)
  case (Cons f fs)
  show ?case
  proof (cases "frame_action pl f")
    case SkipFrame
    with Cons.IH [OF Cons.prems(1,2)] Cons.prems(3) show ?thesis by simp
  next
    case (EmitEvent ev)
    define b' where "b' = armPing opts now ((out_write ev b)\<lparr>br_lastFrameAt := now\<rparr>)"
    have "br_outState b' = OutOpen" "\<not> br_ended b'" "br_out b' = br_out b @ [ev]"
      using Cons.prems(1,2) by (auto simp: b'_def bridge_ops)
    with Cons.IH [of b'] Cons.prems(3) EmitEvent show ?thesis by (fastforce simp: b'_def)
  next
    case (FailStream t m)
    with Cons.prems(1) show ?thesis by (auto simp: bridge_ops)
  qed
qed simp

text \<open>
  When a chunk makes the bridge fail the stream, the last thing it writes is the shaped Anthropic error frame, no ping stays armed, and whatever the upstream, the
  timers or the client do afterwards, nothing more is written.\<close>

theorem bridge_error_is_last:
  assumes "br_outState b = OutOpen" and "\<not> br_ended b" and "br_ended (bridge_step pl opts b (UpData now chunk))"
  shows "\<exists>pre t m. br_out (bridge_step pl opts b (UpData now chunk)) = br_out b @ pre @ [error_frame pl t m] \<and>
    br_pingAt (bridge_step pl opts b (UpData now chunk)) = None \<and>
    (\<forall>es. br_out (foldl (bridge_step pl opts) (bridge_step pl opts b (UpData now chunk)) es) = br_out b @ pre @ [error_frame pl t m])"
proof -
  obtain fs rest where push: "frame_push (pl_utf8 pl) (br_buf b) chunk = Inr (fs, rest)"
    using assms(2,3) by (auto split: sum.splits)
  with assms(2) have st: "bridge_step pl opts b (UpData now chunk) = bridge_frames pl opts now fs (b\<lparr>br_buf := rest\<rparr>)" by simp
  then obtain pre t m where "br_out (bridge_step pl opts b (UpData now chunk)) = br_out b @ pre @ [error_frame pl t m]"
    "br_outState (bridge_step pl opts b (UpData now chunk)) = OutEnded" "br_pingAt (bridge_step pl opts b (UpData now chunk)) = None"
    using frames_fail [of "b\<lparr>br_buf := rest\<rparr>" pl opts now fs] assms by auto
  with run_closed [of "bridge_step pl opts b (UpData now chunk)" pl opts] show ?thesis by (metis out_state.distinct(1))
qed

definition ascii :: "string \<Rightarrow> bytes" where
  "ascii s = map (\<lambda>c. word_of_nat (of_char c)) s"

definition sample_platform :: platform where
  "sample_platform = \<lparr>pl_utf8 = map (\<lambda>b. char_of (unat b)), pl_base64 = (\<lambda>j. None), pl_text = (\<lambda>j. []), pl_number = (\<lambda>r. [])\<rparr>"

definition sample_exception :: bytes where
  "sample_exception = encode_frame [0, 0, 0, 0] [0, 0, 0, 0] [(ascii '':message-type'', ascii ''exception'')] []"

lemma ascii_text: "map (\<lambda>b. char_of (unat b)) (ascii s) = s"
  by (induction s) (simp_all add: ascii_def unat_byte)

lemma sample_push:
  "frame_push (pl_utf8 sample_platform) [] sample_exception =
     Inr ([\<lparr>ef_headers = [('':message-type'', ''exception'')], ef_payload = []\<rparr>], [])"
proof -
  have "frame_ok ([(ascii '':message-type'', ascii ''exception'')], [])"
    by (simp add: frame_ok_def header_ok_def ascii_def encode_header_def MAX_FRAME_BYTES_def)
  then show ?thesis
    using frame_loop_encodings [of "[([(ascii '':message-type'', ascii ''exception'')], [])]" "[0, 0, 0, 0]" "[0, 0, 0, 0]" "pl_utf8 sample_platform"]
    by (simp add: frame_push_def sample_exception_def decode_headers_def put_header_def sample_platform_def ascii_text)
qed

theorem bridge_error_is_last_witness:
  "\<exists>pre t m. \<forall>es. br_out (foldl (bridge_step sample_platform \<lparr>bo_pingIntervalMs = None, bo_pingMaxIdleMs = None\<rparr>)
     (bridge_step sample_platform \<lparr>bo_pingIntervalMs = None, bo_pingMaxIdleMs = None\<rparr> new_bridge (UpData 0 sample_exception)) es)
       = pre @ [error_frame sample_platform t m]"
proof -
  have "br_ended (bridge_step sample_platform \<lparr>bo_pingIntervalMs = None, bo_pingMaxIdleMs = None\<rparr> new_bridge (UpData 0 sample_exception))"
    using sample_push by (simp add: new_bridge_def frame_action_def bridge_ops)
  from bridge_error_is_last [OF _ _ this] show ?thesis by (simp add: new_bridge_def) blast
qed

lemma synthetic_ping_chunk:
  "isSyntheticPingChunk chunk \<longleftrightarrow> (\<exists>k. 1 \<le> k \<and> k \<le> 8 \<and> chunk = concat (replicate k PING_FRAME))"
proof -
  have n: "0 < length PING_FRAME" by (simp add: PING_FRAME_def)
  have pings: "all_pings c \<longleftrightarrow> (\<exists>k. c = concat (replicate k PING_FRAME))" for c
  proof (induction c rule: all_pings.induct)
    case (1 c)
    show ?case
    proof (cases "c = []")
      case False
      have "(\<exists>k. c = concat (replicate k PING_FRAME)) \<longleftrightarrow>
          take (length PING_FRAME) c = PING_FRAME \<and> (\<exists>k. drop (length PING_FRAME) c = concat (replicate k PING_FRAME))"
      proof
        assume "\<exists>k. c = concat (replicate k PING_FRAME)"
        then obtain k where "c = concat (replicate k PING_FRAME)" ..
        with False show "take (length PING_FRAME) c = PING_FRAME \<and> (\<exists>k. drop (length PING_FRAME) c = concat (replicate k PING_FRAME))"
          by (cases k) auto
      next
        assume "take (length PING_FRAME) c = PING_FRAME \<and> (\<exists>k. drop (length PING_FRAME) c = concat (replicate k PING_FRAME))"
        then obtain k where "c = PING_FRAME @ concat (replicate k PING_FRAME)" by (metis append_take_drop_id)
        then have "c = concat (replicate (Suc k) PING_FRAME)" by simp
        then show "\<exists>k. c = concat (replicate k PING_FRAME)" by blast
      qed
      with 1 False show ?thesis by (subst all_pings.simps) simp
    qed (auto simp: all_pings.simps intro: exI [of _ 0])
  qed
  have len: "length (concat (replicate k PING_FRAME)) = k * length PING_FRAME" for k
    by (induction k) simp_all
  show ?thesis
  proof
    assume "isSyntheticPingChunk chunk"
    then obtain k where "chunk = concat (replicate k PING_FRAME)" "chunk \<noteq> []" "length chunk \<le> length PING_FRAME * 8"
      by (auto simp: isSyntheticPingChunk_def Let_def pings)
    moreover from this n have "1 \<le> k" by (cases k) auto
    moreover from calculation n have "k \<le> 8" by (simp add: len)
    ultimately show "\<exists>k. 1 \<le> k \<and> k \<le> 8 \<and> chunk = concat (replicate k PING_FRAME)" by blast
  next
    assume "\<exists>k. 1 \<le> k \<and> k \<le> 8 \<and> chunk = concat (replicate k PING_FRAME)"
    then show "isSyntheticPingChunk chunk" using n by (auto simp: isSyntheticPingChunk_def Let_def pings len)
  qed
qed

end
