(* ===== verification/Guardrail_Findings.thy ===== *)
theory Guardrail_Findings
  imports Gulley_Prelude "HOL-Library.Product_Lexorder" "HOL-Library.Multiset"
begin

text \<open>
  The findings of \<^verbatim>\<open>packages/guardrails\<close>: the types of \<^verbatim>\<open>types.ts\<close>, the cap and the overlap resolution of \<^verbatim>\<open>detector.ts\<close>, the checksum
  validators of \<^verbatim>\<open>patterns.ts\<close>, and the policy filter and merge of \<^verbatim>\<open>engine.ts\<close>. A detector is an argument: a function from
  text to findings. The resolution by binary search is compared with the quadratic greedy choice it replaced.
\<close>

section \<open>Types\<close>

datatype FindingSource = SourcePattern | SourceSecret | SourceEntropy | SourcePlugin

record Finding =
  fd_category :: string
  fd_start :: int
  fd_end :: int
  fd_source :: FindingSource
  fd_confidence :: real

datatype GuardrailAction = ActAudit | ActBlock | ActMask | ActRedact

datatype GuardrailDirection = DirInput | DirOutput

record GuardrailPolicy =
  gp_action :: GuardrailAction
  gp_categories :: "string list option"
  gp_minConfidence :: "real option"

record GuardrailPolicies =
  gps_input :: GuardrailPolicy
  gps_output :: GuardrailPolicy

definition auditOnlyPolicies :: GuardrailPolicies where
  "auditOnlyPolicies =
     \<lparr>gps_input = \<lparr>gp_action = ActAudit, gp_categories = None, gp_minConfidence = None\<rparr>,
      gps_output = \<lparr>gp_action = ActAudit, gp_categories = None, gp_minConfidence = None\<rparr>\<rparr>"

record Detector =
  dt_name :: string
  dt_detect :: "string \<Rightarrow> Finding list"

section \<open>Cap and overlaps\<close>

definition MAX_RAW_FINDINGS :: nat where
  "MAX_RAW_FINDINGS = 10000"

definition capFindings :: "Finding list \<Rightarrow> int \<Rightarrow> Finding list" where
  "capFindings raw textLength =
     (if length raw \<le> MAX_RAW_FINDINGS then raw
      else take MAX_RAW_FINDINGS raw @
        [\<lparr>fd_category = ''detector_overflow'', fd_start = 0, fd_end = textLength, fd_source = SourcePattern, fd_confidence = 99 / 100\<rparr>])"

text \<open>The first kept interval whose start is not below the given one.\<close>

function lower_bound :: "Finding list \<Rightarrow> int \<Rightarrow> nat \<Rightarrow> nat \<Rightarrow> nat" where
  "lower_bound kept s lo hi =
     (if lo < hi then
        (let mid = (lo + hi) div 2 in
         if fd_start (kept ! mid) < s then lower_bound kept s (mid + 1) hi else lower_bound kept s lo mid)
      else lo)"
  by pat_completeness auto
termination by (relation "measure (\<lambda>(kept, s, lo, hi). hi - lo)") auto

declare lower_bound.simps [simp del]

definition overlaps :: "Finding \<Rightarrow> Finding \<Rightarrow> bool" where
  "overlaps f g \<longleftrightarrow> fd_start f < fd_end g \<and> fd_start g < fd_end f"

definition insert_finding :: "Finding list \<Rightarrow> Finding \<Rightarrow> Finding list" where
  "insert_finding kept f =
     (let lo = lower_bound kept (fd_start f) 0 (length kept) in
      if 0 < lo \<and> overlaps f (kept ! (lo - 1)) then kept
      else if lo < length kept \<and> overlaps f (kept ! lo) then kept
      else take lo kept @ f # drop lo kept)"

definition by_confidence :: "Finding list \<Rightarrow> Finding list" where
  "by_confidence fs = sort_key (\<lambda>f. (- fd_confidence f, - (fd_end f - fd_start f))) fs"

definition resolveOverlaps :: "Finding list \<Rightarrow> Finding list" where
  "resolveOverlaps findings =
     (if length findings \<le> 1 then findings else foldl insert_finding [] (by_confidence findings))"

section \<open>Checksums\<close>

fun luhn_sum :: "bool \<Rightarrow> string \<Rightarrow> nat" where
  "luhn_sum alt [] = 0"
| "luhn_sum alt (c # r) =
     (let d = digit_val c; d' = (if alt then (if 9 < 2 * d then 2 * d - 9 else 2 * d) else d) in d' + luhn_sum (\<not> alt) r)"

definition luhn :: "string \<Rightarrow> nat \<Rightarrow> nat \<Rightarrow> bool" where
  "luhn value minLen maxLen =
     (let digits = filter is_digit value in
      if length digits < minLen \<or> maxLen < length digits then False else luhn_sum False (rev digits) mod 10 = 0)"

definition luhnValid :: "string \<Rightarrow> bool" where
  "luhnValid value = luhn value 13 19"

definition sinValid :: "string \<Rightarrow> bool" where
  "sinValid value = luhn value 9 9"

definition lead_ok :: "char \<Rightarrow> bool" where
  "lead_ok c \<longleftrightarrow> 2 \<le> digit_val c"

definition phonePlausible :: "string \<Rightarrow> bool" where
  "phonePlausible match =
     (let digits = filter is_digit match;
          local = (if length digits = 11 \<and> starts_with digits ''1'' then tl digits else digits) in
      if length local = 10 then lead_ok (local ! 0) \<and> lead_ok (local ! 3)
      else 8 \<le> length digits \<and> length digits \<le> 15 \<and> \<not> starts_with digits ''0'')"

section \<open>Policies\<close>

record FindingSummary =
  fs_total :: nat
  fs_categories :: "(string, nat) jsmap"
  fs_maxConfidence :: real

definition summarize :: "Finding list \<Rightarrow> FindingSummary" where
  "summarize findings =
     \<lparr>fs_total = length findings,
      fs_categories = foldl (\<lambda>m f. jm_set (fd_category f) ((case jm_get m (fd_category f) of Some n \<Rightarrow> n | None \<Rightarrow> 0) + 1) m) [] findings,
      fs_maxConfidence = foldl (\<lambda>acc f. if acc < fd_confidence f then fd_confidence f else acc) 0 findings\<rparr>"

definition filterByPolicy :: "Finding list \<Rightarrow> GuardrailPolicy \<Rightarrow> Finding list" where
  "filterByPolicy findings policy =
     (let least = (case gp_minConfidence policy of Some n \<Rightarrow> n | None \<Rightarrow> 0) in
      filter (\<lambda>f. least \<le> fd_confidence f \<and>
        (case gp_categories policy of None \<Rightarrow> True | Some cs \<Rightarrow> fd_category f \<in> set cs)) findings)"

fun ACTION_RANK :: "GuardrailAction \<Rightarrow> nat" where
  "ACTION_RANK ActAudit = 0"
| "ACTION_RANK ActMask = 1"
| "ACTION_RANK ActRedact = 2"
| "ACTION_RANK ActBlock = 3"

text \<open>\<^verbatim>\<open>[...new Set(xs)]\<close>: first occurrences, in order.\<close>

fun js_unique :: "string list \<Rightarrow> string list \<Rightarrow> string list" where
  "js_unique seen [] = []"
| "js_unique seen (x # xs) = (if x \<in> set seen then js_unique seen xs else x # js_unique (x # seen) xs)"

definition strongerPolicy :: "GuardrailPolicy \<Rightarrow> GuardrailPolicy \<Rightarrow> GuardrailPolicy" where
  "strongerPolicy a b =
     \<lparr>gp_action = (if ACTION_RANK (gp_action b) \<le> ACTION_RANK (gp_action a) then gp_action a else gp_action b),
      gp_categories = (case (gp_categories a, gp_categories b) of (Some x, Some y) \<Rightarrow> Some (js_unique [] (x @ y)) | _ \<Rightarrow> None),
      gp_minConfidence = (case (gp_minConfidence a, gp_minConfidence b) of (Some x, Some y) \<Rightarrow> Some (min x y) | _ \<Rightarrow> None)\<rparr>"

section \<open>Overlap resolution is the greedy choice\<close>

text \<open>The quadratic reference: a finding is kept unless it overlaps one already kept.\<close>

fun greedy :: "Finding list \<Rightarrow> Finding list \<Rightarrow> Finding list" where
  "greedy kept [] = kept"
| "greedy kept (f # fs) = greedy (if \<exists>g\<in>set kept. overlaps f g then kept else kept @ [f]) fs"

definition span_ok :: "Finding \<Rightarrow> bool" where
  "span_ok f \<longleftrightarrow> fd_start f < fd_end f"

text \<open>Disjoint intervals in order.\<close>

definition in_order :: "Finding list \<Rightarrow> bool" where
  "in_order kept \<longleftrightarrow> sorted_wrt (\<lambda>f g. fd_end f \<le> fd_start g) kept \<and> list_all span_ok kept"

lemma lower_bound_correct:
  assumes "sorted (map fd_start kept)" and "lo \<le> hi" and "hi \<le> length kept"
    and "\<forall>i<lo. fd_start (kept ! i) < s" and "\<forall>i. hi \<le> i \<and> i < length kept \<longrightarrow> s \<le> fd_start (kept ! i)"
  shows "lower_bound kept s lo hi \<le> length kept
    \<and> (\<forall>i<lower_bound kept s lo hi. fd_start (kept ! i) < s)
    \<and> (\<forall>i. lower_bound kept s lo hi \<le> i \<and> i < length kept \<longrightarrow> s \<le> fd_start (kept ! i))"
  using assms
proof (induction kept s lo hi rule: lower_bound.induct)
  case (1 kept s lo hi)
  show ?case
  proof (cases "lo < hi")
    case True
    define mid where "mid = (lo + hi) div 2"
    have mid: "lo \<le> mid" "mid < hi" using True by (auto simp: mid_def)
    have mono: "fd_start (kept ! i) \<le> fd_start (kept ! j)" if "i \<le> j" "j < length kept" for i j
      using sorted_nth_mono [OF "1.prems"(1), of i j] that by simp
    show ?thesis
    proof (cases "fd_start (kept ! mid) < s")
      case True
      have "\<forall>i<mid + 1. fd_start (kept ! i) < s" using True mono [of _ mid] mid "1.prems"(3) by (metis Suc_eq_plus1 le_less_trans less_Suc_eq_le less_le_trans)
      with "1.IH"(1) [OF \<open>lo < hi\<close> mid_def True] "1.prems" mid show ?thesis
        by (subst (1 2 3) lower_bound.simps) (simp add: \<open>lo < hi\<close> Let_def True flip: mid_def)
    next
      case False
      have "\<forall>i. mid \<le> i \<and> i < length kept \<longrightarrow> s \<le> fd_start (kept ! i)" using False mono by fastforce
      with "1.IH"(2) [OF \<open>lo < hi\<close> mid_def False] "1.prems" mid show ?thesis
        by (subst (1 2 3) lower_bound.simps) (simp add: \<open>lo < hi\<close> Let_def False flip: mid_def)
    qed
  next
    case False
    with "1.prems" show ?thesis by (simp add: lower_bound.simps)
  qed
qed

lemma in_order_sorted: "in_order kept \<Longrightarrow> sorted (map fd_start kept)"
  unfolding in_order_def by (induction kept) (auto simp: span_ok_def list_all_iff)

text \<open>The cut at the lower bound: everything before starts earlier, everything after does not.\<close>

lemma insert_cut:
  assumes "in_order kept"
  obtains A B where "kept = A @ B" and "lower_bound kept (fd_start f) 0 (length kept) = length A"
    and "\<forall>g\<in>set A. fd_start g < fd_start f" and "\<forall>g\<in>set B. fd_start f \<le> fd_start g"
proof -
  let ?lo = "lower_bound kept (fd_start f) 0 (length kept)"
  from lower_bound_correct [OF in_order_sorted [OF assms], of 0 "length kept" "fd_start f"]
  have lo: "?lo \<le> length kept" "\<forall>i<?lo. fd_start (kept ! i) < fd_start f"
    "\<forall>i. ?lo \<le> i \<and> i < length kept \<longrightarrow> fd_start f \<le> fd_start (kept ! i)"
    by auto
  show ?thesis
  proof (rule that [of "take ?lo kept" "drop ?lo kept"])
    show "\<forall>g\<in>set (take ?lo kept). fd_start g < fd_start f" using lo(1,2) by (auto simp: in_set_conv_nth)
    show "\<forall>g\<in>set (drop ?lo kept). fd_start f \<le> fd_start g" using lo(1,3) by (auto simp: in_set_conv_nth)
  qed (use lo(1) in simp_all)
qed

lemma in_order_append:
  "in_order (A @ B) \<longleftrightarrow> in_order A \<and> in_order B \<and> (\<forall>f\<in>set A. \<forall>g\<in>set B. fd_end f \<le> fd_start g)"
  by (auto simp: in_order_def sorted_wrt_append)

lemma in_order_Cons: "in_order (f # fs) \<longleftrightarrow> span_ok f \<and> (\<forall>g\<in>set fs. fd_end f \<le> fd_start g) \<and> in_order fs"
  by (auto simp: in_order_def)

lemma insert_finding_greedy:
  assumes kept: "in_order kept" and f: "span_ok f"
  shows "in_order (insert_finding kept f) \<and>
    (if \<exists>g\<in>set kept. overlaps f g then insert_finding kept f = kept else mset (insert_finding kept f) = add_mset f (mset kept))"
proof -
  obtain A B where AB: "kept = A @ B" and lo: "lower_bound kept (fd_start f) 0 (length kept) = length A"
    and A: "\<forall>g\<in>set A. fd_start g < fd_start f" and B: "\<forall>g\<in>set B. fd_start f \<le> fd_start g"
    by (rule insert_cut [OF kept])
  have ok: "in_order A" "in_order B" "\<forall>a\<in>set A. \<forall>b\<in>set B. fd_end a \<le> fd_start b"
    using kept by (auto simp: AB in_order_append)
  have prev: "(\<exists>g\<in>set A. overlaps f g) \<longleftrightarrow> A \<noteq> [] \<and> overlaps f (last A)"
  proof (cases A rule: rev_cases)
    case (snoc A' a)
    have "\<not> overlaps f g" if "g \<in> set A'" for g
      using ok(1) that A by (force simp: snoc in_order_append overlaps_def)
    then show ?thesis by (auto simp: snoc)
  qed simp
  have nxt: "(\<exists>g\<in>set B. overlaps f g) \<longleftrightarrow> B \<noteq> [] \<and> overlaps f (hd B)"
  proof (cases B)
    case (Cons b B')
    have "overlaps f b" if "g \<in> set B'" "overlaps f g" for g
      using ok(2) that B f by (force simp: Cons in_order_Cons overlaps_def span_ok_def)
    then show ?thesis by (auto simp: Cons)
  qed simp
  have ins: "insert_finding kept f = (if \<exists>g\<in>set kept. overlaps f g then kept else A @ f # B)"
  proof -
    have "insert_finding kept f = (if A \<noteq> [] \<and> overlaps f (last A) then kept else if B \<noteq> [] \<and> overlaps f (hd B) then kept else A @ f # B)"
      unfolding insert_finding_def Let_def lo
      by (cases A rule: rev_cases; cases B) (simp_all add: AB nth_append)
    then show ?thesis using prev nxt by (auto simp: AB)
  qed
  have "in_order (A @ f # B)" if "\<not> (\<exists>g\<in>set kept. overlaps f g)"
  proof -
    have "fd_end a \<le> fd_start f" if "a \<in> set A" for a
    proof -
      have "\<not> overlaps f a" and "fd_start a < fd_start f" using that \<open>\<not> (\<exists>g\<in>set kept. overlaps f g)\<close> A by (auto simp: AB)
      with f show ?thesis by (simp add: overlaps_def span_ok_def)
    qed
    moreover have "fd_end f \<le> fd_start b" if "b \<in> set B" for b
    proof -
      have "\<not> overlaps f b" and "fd_start f \<le> fd_start b" and "span_ok b"
        using that \<open>\<not> (\<exists>g\<in>set kept. overlaps f g)\<close> B ok(2) by (auto simp: AB in_order_def list_all_iff)
      then show ?thesis by (simp add: overlaps_def span_ok_def)
    qed
    ultimately show ?thesis using ok f by (auto simp: in_order_append in_order_Cons)
  qed
  with kept ins show ?thesis by (auto simp: AB)
qed

lemma resolve_fold:
  "in_order kept \<Longrightarrow> mset kept = mset ref \<Longrightarrow> list_all span_ok fs \<Longrightarrow>
   in_order (foldl insert_finding kept fs) \<and> mset (foldl insert_finding kept fs) = mset (greedy ref fs)"
proof (induction fs arbitrary: kept ref)
  case (Cons f fs)
  have same: "set kept = set ref" using Cons.prems(2) by (metis set_mset_mset)
  from insert_finding_greedy [OF Cons.prems(1), of f] Cons.prems(2,3)
  have "in_order (insert_finding kept f)" and
    "mset (insert_finding kept f) = mset (if \<exists>g\<in>set ref. overlaps f g then ref else ref @ [f])"
    by (auto simp: same split: if_splits)
  from Cons.IH [OF this] Cons.prems(3) show ?case by simp
qed simp

lemma in_order_inj: "in_order kept \<Longrightarrow> inj_on fd_start (set kept)"
proof (induction kept)
  case (Cons f fs)
  then have "fd_start g \<noteq> fd_start f" if "g \<in> set fs" for g
    using that by (force simp: in_order_Cons span_ok_def)
  with Cons show ?case by (auto simp: in_order_Cons inj_on_insert) (metis image_iff)
qed simp

lemma greedy_keeps: "g \<in> set kept \<Longrightarrow> g \<in> set (greedy kept fs)"
  by (induction fs arbitrary: kept) auto

lemma greedy_covers:
  assumes "sorted_wrt (\<lambda>f g. fd_confidence g \<le> fd_confidence f) (kept @ fs)" and "f \<in> set fs"
  shows "f \<in> set (greedy kept fs) \<or> (\<exists>g\<in>set (greedy kept fs). overlaps f g \<and> fd_confidence f \<le> fd_confidence g)"
  using assms
proof (induction fs arbitrary: kept)
  case (Cons h fs)
  define kept' where "kept' = (if \<exists>g\<in>set kept. overlaps h g then kept else kept @ [h])"
  have next_kept: "greedy kept (h # fs) = greedy kept' fs" by (simp add: kept'_def)
  show ?case
  proof (cases "f = h")
    case True
    then show ?thesis
    proof (cases "\<exists>g\<in>set kept. overlaps h g")
      case True
      then obtain g where "g \<in> set kept" "overlaps h g" by blast
      moreover have "fd_confidence h \<le> fd_confidence g" using Cons.prems(1) \<open>g \<in> set kept\<close> by (auto simp: sorted_wrt_append)
      moreover have "greedy kept (h # fs) = greedy kept fs" using True by simp
      ultimately show ?thesis using \<open>f = h\<close> greedy_keeps [of g kept fs] by metis
    next
      case False
      then show ?thesis using \<open>f = h\<close> next_kept greedy_keeps [of h kept' fs] by (simp add: kept'_def)
    qed
  next
    case False
    have "sorted_wrt (\<lambda>f g. fd_confidence g \<le> fd_confidence f) (kept' @ fs)"
      using Cons.prems(1) by (auto simp: kept'_def sorted_wrt_append)
    from Cons.IH [OF this] False Cons.prems(2) next_kept show ?thesis by simp
  qed
qed simp

lemma by_confidence_descends: "sorted_wrt (\<lambda>f g. fd_confidence g \<le> fd_confidence f) (by_confidence fs)"
proof -
  have "sorted (map (\<lambda>f. (- fd_confidence f, - (fd_end f - fd_start f))) (by_confidence fs))" by (simp add: by_confidence_def)
  then show ?thesis by (auto simp: sorted_map less_eq_prod_def elim!: sorted_wrt_mono_rel [rotated])
qed

lemma resolve_order:
  assumes "list_all span_ok fs"
  shows "in_order (resolveOverlaps fs) \<and> mset (resolveOverlaps fs) = mset (greedy [] (by_confidence fs))"
proof (cases "length fs \<le> 1")
  case True
  then consider "fs = []" | f where "fs = [f]" by (cases fs) auto
  then show ?thesis
    by cases (use assms in \<open>auto simp: resolveOverlaps_def in_order_def by_confidence_def\<close>)
next
  case False
  have "list_all span_ok (by_confidence fs)" using assms by (simp add: by_confidence_def list_all_iff)
  with resolve_fold [of "[]" "[]" "by_confidence fs"] False show ?thesis
    by (simp add: resolveOverlaps_def in_order_def)
qed

text \<open>
  Resolving overlaps by binary search yields the findings the greedy pass over descending confidence keeps, ordered by their start and pairwise disjoint, and every
  finding it drops overlaps one it keeps of at least the same confidence.\<close>

theorem resolve_overlaps_greedy:
  assumes "list_all span_ok fs"
  shows "resolveOverlaps fs = sort_key fd_start (greedy [] (by_confidence fs))
    \<and> sorted_wrt (\<lambda>f g. fd_end f \<le> fd_start g) (resolveOverlaps fs)
    \<and> (\<forall>f\<in>set fs. f \<in> set (resolveOverlaps fs) \<or> (\<exists>g\<in>set (resolveOverlaps fs). overlaps f g \<and> fd_confidence f \<le> fd_confidence g))"
proof (intro conjI)
  from resolve_order [OF assms] have ord: "in_order (resolveOverlaps fs)"
    and ms: "mset (resolveOverlaps fs) = mset (greedy [] (by_confidence fs))"
    by auto
  have same: "set (greedy [] (by_confidence fs)) = set (resolveOverlaps fs)" using ms by (metis set_mset_mset)
  show "resolveOverlaps fs = sort_key fd_start (greedy [] (by_confidence fs))"
    by (rule sym, rule sort_key_inj_key_eq) (use ms in_order_sorted [OF ord] in_order_inj [OF ord] same in simp_all)
  show "sorted_wrt (\<lambda>f g. fd_end f \<le> fd_start g) (resolveOverlaps fs)" using ord by (simp add: in_order_def)
  show "\<forall>f\<in>set fs. f \<in> set (resolveOverlaps fs) \<or> (\<exists>g\<in>set (resolveOverlaps fs). overlaps f g \<and> fd_confidence f \<le> fd_confidence g)"
    using greedy_covers [of "[]" "by_confidence fs"] by_confidence_descends [of fs] same by (simp add: by_confidence_def)
qed

definition finding :: "string \<Rightarrow> int \<Rightarrow> int \<Rightarrow> real \<Rightarrow> Finding" where
  "finding c i j p = \<lparr>fd_category = c, fd_start = i, fd_end = j, fd_source = SourcePattern, fd_confidence = p\<rparr>"

theorem resolve_overlaps_greedy_witness:
  "resolveOverlaps [finding ''url'' 0 9 (1 / 3), finding ''email'' 4 8 (1 / 2)] = [finding ''email'' 4 8 (1 / 2)] \<and>
   sorted_wrt (\<lambda>f g. fd_end f \<le> fd_start g) [finding ''email'' 4 8 (1 / 2)]"
  using resolve_overlaps_greedy [of "[finding ''url'' 0 9 (1 / 3), finding ''email'' 4 8 (1 / 2)]"]
  by (simp add: span_ok_def finding_def by_confidence_def overlaps_def less_eq_prod_def)

section \<open>Layered policies\<close>

lemma js_unique_set: "set (js_unique seen xs) = set xs - set seen"
  by (induction xs arbitrary: seen) auto

text \<open>
  Layering a policy over a floor never weakens it: the merged action ranks at least as high as either, and every finding either policy would enforce on is enforced
  on by the merged one.\<close>

theorem stronger_policy_widens:
  assumes "list_all (\<lambda>f. 0 \<le> fd_confidence f) fs"
  shows "ACTION_RANK (gp_action (strongerPolicy a b)) = max (ACTION_RANK (gp_action a)) (ACTION_RANK (gp_action b))
    \<and> set (filterByPolicy fs a) \<union> set (filterByPolicy fs b) \<subseteq> set (filterByPolicy fs (strongerPolicy a b))"
proof
  show "ACTION_RANK (gp_action (strongerPolicy a b)) = max (ACTION_RANK (gp_action a)) (ACTION_RANK (gp_action b))"
    by (simp add: strongerPolicy_def max_def)
  show "set (filterByPolicy fs a) \<union> set (filterByPolicy fs b) \<subseteq> set (filterByPolicy fs (strongerPolicy a b))"
    using assms by (auto simp: filterByPolicy_def strongerPolicy_def js_unique_set list_all_iff Let_def split: option.splits)
qed

theorem stronger_policy_widens_witness:
  "set (filterByPolicy [finding ''ssn'' 0 9 (1 / 2)] \<lparr>gp_action = ActBlock, gp_categories = Some [''ssn''], gp_minConfidence = None\<rparr>) \<subseteq>
   set (filterByPolicy [finding ''ssn'' 0 9 (1 / 2)]
     (strongerPolicy \<lparr>gp_action = ActBlock, gp_categories = Some [''ssn''], gp_minConfidence = None\<rparr>
        \<lparr>gp_action = ActAudit, gp_categories = Some [''jailbreak''], gp_minConfidence = Some (9 / 10)\<rparr>))"
  using stronger_policy_widens [of "[finding ''ssn'' 0 9 (1 / 2)]" "\<lparr>gp_action = ActBlock, gp_categories = Some [''ssn''], gp_minConfidence = None\<rparr>"
      "\<lparr>gp_action = ActAudit, gp_categories = Some [''jailbreak''], gp_minConfidence = Some (9 / 10)\<rparr>"]
  by (simp add: finding_def)

end
