(* ===== verification/Guardrail_Engine.thy ===== *)
theory Guardrail_Engine
  imports Guardrail_Findings
begin

text \<open>
  The transforms and the engine of \<^verbatim>\<open>packages/guardrails\<close>: the token vault and the redaction of \<^verbatim>\<open>vault.ts\<close>, plugin composition of \<^verbatim>\<open>composite.ts\<close>,
  and the inspections and layering of \<^verbatim>\<open>engine.ts\<close>. HMAC-SHA-256 in hex, detectors and plugins are arguments. Masked text is restored by the vault that
  masked it.
\<close>

section \<open>Token names\<close>

definition upper_unit :: "char \<Rightarrow> string" where
  "upper_unit c =
     (let n = (of_char c :: nat) in
      if n = 223 then ''SS'' else if 97 \<le> n \<and> n \<le> 122 \<or> 224 \<le> n \<and> n \<le> 254 \<and> n \<noteq> 247 then [char_of (n - 32)] else [c])"

definition to_upper :: "string \<Rightarrow> string" where
  "to_upper s = concat (map upper_unit s)"

definition category_char :: "char \<Rightarrow> bool" where
  "category_char c \<longleftrightarrow> (let n = (of_char c :: nat) in 65 \<le> n \<and> n \<le> 90 \<or> 48 \<le> n \<and> n \<le> 57)"

text \<open>Every run of other characters becomes one underscore.\<close>

fun underscore_runs :: "bool \<Rightarrow> string \<Rightarrow> string" where
  "underscore_runs inRun [] = []"
| "underscore_runs inRun (c # r) =
     (if category_char c then c # underscore_runs False r
      else if inRun then underscore_runs True r
      else CHR ''_'' # underscore_runs True r)"

definition tokenCategory :: "string \<Rightarrow> string" where
  "tokenCategory category = underscore_runs False (to_upper category)"

definition token_char :: "char \<Rightarrow> bool" where
  "token_char c \<longleftrightarrow> category_char c \<or> c = CHR ''_''"

text \<open>The spans of the tokens already in a text: \<^verbatim>\<open>/<<GULLEY_[A-Z0-9_]+>>/g\<close>.\<close>

definition token_match :: "string \<Rightarrow> nat option" where
  "token_match s =
     (if starts_with s ''<<GULLEY_'' then
        (let run = takeWhile token_char (drop 9 s) in
         if run \<noteq> [] \<and> starts_with (dropWhile token_char (drop 9 s)) ''>>'' then Some (11 + length run) else None)
      else None)"

lemma token_match_pos: "token_match s = Some n \<Longrightarrow> 0 < n \<and> s \<noteq> []"
  by (auto simp: token_match_def Let_def split: if_splits)

function token_spans :: "int \<Rightarrow> string \<Rightarrow> (int \<times> int) list" where
  "token_spans i s =
     (if s = [] then []
      else case token_match s of
        Some n \<Rightarrow> (i, i + int n) # token_spans (i + int n) (drop n s)
      | None \<Rightarrow> token_spans (i + 1) (tl s))"
  by pat_completeness auto
termination by (relation "measure (\<lambda>(i, s). length s)") (auto dest: token_match_pos)

declare token_spans.simps [simp del]

definition existingTokenSpans :: "string \<Rightarrow> (int \<times> int) list" where
  "existingTokenSpans txt = (if sublist ''<<GULLEY_'' txt then token_spans 0 txt else [])"

definition overlapsAny :: "int \<Rightarrow> int \<Rightarrow> (int \<times> int) list \<Rightarrow> bool" where
  "overlapsAny start fin spans = list_ex (\<lambda>(s, e). start < e \<and> s < fin) spans"

section \<open>The vault\<close>

record TokenVault =
  tv_byOriginal :: "(string, string) jsmap"
  tv_byToken :: "(string, string) jsmap"
  tv_counter :: nat
  tv_key :: "string option"
  tv_nonce :: string

definition MIN_KEY_BYTES :: nat where
  "MIN_KEY_BYTES = 16"

definition TOKEN_HEX :: nat where
  "TOKEN_HEX = 24"

text \<open>The nonce is what \<^verbatim>\<open>randomBytes\<close> gave, in upper-case hex; \<open>None\<close> is the throw on a short key.\<close>

definition new_vault :: "string option \<Rightarrow> string \<Rightarrow> TokenVault option" where
  "new_vault key nonce =
     (case key of
        Some k \<Rightarrow>
          if length k < MIN_KEY_BYTES then None
          else Some \<lparr>tv_byOriginal = [], tv_byToken = [], tv_counter = 0, tv_key = Some k, tv_nonce = []\<rparr>
      | None \<Rightarrow> Some \<lparr>tv_byOriginal = [], tv_byToken = [], tv_counter = 0, tv_key = None, tv_nonce = nonce\<rparr>)"

text \<open>The argument \<open>hmac\<close> maps a key and a message to the hex digest.\<close>

type_synonym hmac_hex = "string \<Rightarrow> string \<Rightarrow> string"

definition mint_token :: "hmac_hex \<Rightarrow> TokenVault \<Rightarrow> string \<Rightarrow> string \<Rightarrow> string" where
  "mint_token hmac v category original =
     (let cat = tokenCategory category in
      case tv_key v of
        Some k \<Rightarrow> ''<<GULLEY_'' @ cat @ ''_'' @ to_upper (take TOKEN_HEX (hmac k (cat @ CHR 0x00 # original))) @ ''>>''
      | None \<Rightarrow> ''<<GULLEY_'' @ cat @ ''_'' @ tv_nonce v @ ''_'' @ show_nat (tv_counter v + 1) @ ''>>'')"

definition tokenFor :: "hmac_hex \<Rightarrow> TokenVault \<Rightarrow> string \<Rightarrow> string \<Rightarrow> string \<times> TokenVault" where
  "tokenFor hmac v category original =
     (case jm_get (tv_byOriginal v) original of
        Some t \<Rightarrow> (t, v)
      | None \<Rightarrow>
          (let token = mint_token hmac v category original in
           (token,
            v\<lparr>tv_counter := (if tv_key v = None then tv_counter v + 1 else tv_counter v),
              tv_byOriginal := jm_set original token (tv_byOriginal v), tv_byToken := jm_set token original (tv_byToken v)\<rparr>)))"

text \<open>\<^verbatim>\<open>text.slice(a, b)\<close> on offsets within the text.\<close>

definition text_slice :: "string \<Rightarrow> int \<Rightarrow> int \<Rightarrow> string" where
  "text_slice s a b = take (nat b - nat a) (drop (nat a) s)"

definition splice :: "string \<Rightarrow> Finding \<Rightarrow> string \<Rightarrow> string" where
  "splice out f token = take (nat (fd_start f)) out @ token @ drop (nat (fd_end f)) out"

definition rightmost_first :: "Finding list \<Rightarrow> Finding list" where
  "rightmost_first fs = sort_key (\<lambda>f. - fd_start f) fs"

fun tokenize_loop :: "hmac_hex \<Rightarrow> string \<Rightarrow> Finding list \<Rightarrow> TokenVault \<Rightarrow> string \<Rightarrow> string \<times> TokenVault" where
  "tokenize_loop hmac txt [] v out = (out, v)"
| "tokenize_loop hmac txt (f # fs) v out =
     (let (token, v') = tokenFor hmac v (fd_category f) (text_slice txt (fd_start f) (fd_end f)) in
      tokenize_loop hmac txt fs v' (splice out f token))"

definition tokenize_text :: "hmac_hex \<Rightarrow> TokenVault \<Rightarrow> string \<Rightarrow> Finding list \<Rightarrow> string \<times> TokenVault" where
  "tokenize_text hmac v txt findings =
     (let spans = existingTokenSpans txt;
          sorted = rightmost_first (filter (\<lambda>f. \<not> overlapsAny (fd_start f) (fd_end f) spans) findings) in
      tokenize_loop hmac txt sorted v txt)"

text \<open>\<^verbatim>\<open>s.split(token).join(original)\<close> for a token that is not empty.\<close>

function replace_all :: "string \<Rightarrow> string \<Rightarrow> string \<Rightarrow> string" where
  "replace_all token original s =
     (if s = [] then []
      else if token \<noteq> [] \<and> starts_with s token then original @ replace_all token original (drop (length token) s)
      else hd s # replace_all token original (tl s))"
  by pat_completeness auto
termination by (relation "measure (\<lambda>(t, r, s). length s)") auto

declare replace_all.simps [simp del]

definition detokenize :: "TokenVault \<Rightarrow> string \<Rightarrow> string" where
  "detokenize v txt =
     foldl (\<lambda>out (token, original). if sublist token out then replace_all token original out else out) txt (tv_byToken v)"

definition fromEntries :: "(string \<times> string) list \<Rightarrow> string option \<Rightarrow> string \<Rightarrow> TokenVault option" where
  "fromEntries entries key nonce =
     map_option (\<lambda>v. foldl (\<lambda>v (token, original).
       v\<lparr>tv_byToken := jm_set token original (tv_byToken v), tv_byOriginal := jm_set original token (tv_byOriginal v)\<rparr>) v entries)
       (new_vault key nonce)"

definition deriveVaultKey :: "hmac_hex \<Rightarrow> string \<Rightarrow> string \<Rightarrow> string option" where
  "deriveVaultKey hmac master scope =
     (if length master < MIN_KEY_BYTES then None else Some (hmac master (''gulley-mask-vault-v1'' @ CHR 0x00 # scope)))"

definition redactText :: "string \<Rightarrow> Finding list \<Rightarrow> string" where
  "redactText txt findings =
     foldl (\<lambda>out f. splice out f (''<<REDACTED_'' @ tokenCategory (fd_category f) @ ''>>'')) txt (rightmost_first findings)"

section \<open>Plugins\<close>

datatype plugin_action = PluginNone | PluginBlocked | PluginMasked

record GuardrailPluginResult =
  pr_action :: plugin_action
  pr_findings :: "Finding list"
  pr_maskedText :: "string option"
  pr_degraded :: bool

record GuardrailPlugin =
  pg_name :: string
  pg_inspect :: "string \<Rightarrow> GuardrailDirection \<Rightarrow> GuardrailPluginResult"

fun composite_inspect :: "GuardrailPlugin list \<Rightarrow> GuardrailDirection \<Rightarrow> string \<Rightarrow> bool \<Rightarrow> bool \<Rightarrow> Finding list \<Rightarrow> GuardrailPluginResult" where
  "composite_inspect [] dir current masked degraded findings =
     (if masked then \<lparr>pr_action = PluginMasked, pr_findings = findings, pr_maskedText = Some current, pr_degraded = degraded\<rparr>
      else \<lparr>pr_action = PluginNone, pr_findings = findings, pr_maskedText = None, pr_degraded = degraded\<rparr>)"
| "composite_inspect (p # ps) dir current masked degraded findings =
     (let r = pg_inspect p current dir; findings' = findings @ pr_findings r; degraded' = (degraded \<or> pr_degraded r) in
      if pr_action r = PluginBlocked then
        \<lparr>pr_action = PluginBlocked, pr_findings = findings', pr_maskedText = None, pr_degraded = degraded'\<rparr>
      else case (pr_action r, pr_maskedText r) of
        (PluginMasked, Some t) \<Rightarrow> composite_inspect ps dir t True degraded' findings'
      | _ \<Rightarrow> composite_inspect ps dir current masked degraded' findings')"

definition composePlugins :: "GuardrailPlugin list \<Rightarrow> GuardrailPlugin option" where
  "composePlugins plugins =
     (case plugins of
        [] \<Rightarrow> None
      | [p] \<Rightarrow> Some p
      | _ \<Rightarrow> Some \<lparr>pg_name = ''composite'', pg_inspect = (\<lambda>txt dir. composite_inspect plugins dir txt False False [])\<rparr>)"

section \<open>The engine\<close>

record GuardrailEngine =
  ge_detectors :: "Detector list"
  ge_policies :: GuardrailPolicies
  ge_plugin :: "GuardrailPlugin option"

fun dedup_detectors :: "string list \<Rightarrow> Detector list \<Rightarrow> Detector list" where
  "dedup_detectors seen [] = []"
| "dedup_detectors seen (d # ds) =
     (if dt_name d \<in> set seen then dedup_detectors seen ds else d # dedup_detectors (dt_name d # seen) ds)"

definition layerOver :: "GuardrailEngine \<Rightarrow> GuardrailEngine \<Rightarrow> GuardrailEngine" where
  "layerOver this base =
     \<lparr>ge_detectors = dedup_detectors [] (ge_detectors base @ ge_detectors this),
      ge_policies =
        \<lparr>gps_input = strongerPolicy (gps_input (ge_policies base)) (gps_input (ge_policies this)),
         gps_output = strongerPolicy (gps_output (ge_policies base)) (gps_output (ge_policies this))\<rparr>,
      ge_plugin = composePlugins (List.map_filter id [ge_plugin base, ge_plugin this])\<rparr>"

definition detectAll :: "GuardrailEngine \<Rightarrow> string \<Rightarrow> Finding list" where
  "detectAll e txt = resolveOverlaps (concat (map (\<lambda>d. dt_detect d txt) (ge_detectors e)))"

definition combinedDetector :: "GuardrailEngine \<Rightarrow> Detector" where
  "combinedDetector e = \<lparr>dt_name = ''combined'', dt_detect = detectAll e\<rparr>"

record inspection =
  in_findings :: "Finding list"
  in_summary :: FindingSummary
  in_blocked :: bool
  in_blockedReason :: "string option"
  in_transformedText :: "string option"
  in_vault :: "TokenVault option"

definition plain_inspection :: "Finding list \<Rightarrow> inspection" where
  "plain_inspection fs =
     \<lparr>in_findings = fs, in_summary = summarize fs, in_blocked = False, in_blockedReason = None, in_transformedText = None, in_vault = None\<rparr>"

text \<open>\<open>None\<close> is the throw of a vault whose key is too short.\<close>

definition inspectInput :: "hmac_hex \<Rightarrow> string \<Rightarrow> GuardrailEngine \<Rightarrow> string \<Rightarrow> string option \<Rightarrow> inspection option" where
  "inspectInput hmac nonce e txt vaultKey =
     (let policy = gps_input (ge_policies e);
          result = map_option (\<lambda>p. pg_inspect p txt DirInput) (ge_plugin e);
          masked = (case result of Some r \<Rightarrow> (if pr_action r = PluginMasked then pr_maskedText r else None) | None \<Rightarrow> None);
          base = (case masked of Some t \<Rightarrow> t | None \<Rightarrow> txt);
          native = filterByPolicy (detectAll e base) policy;
          findings = (case result of
             Some r \<Rightarrow> (if pr_findings r \<noteq> [] then resolveOverlaps (native @ pr_findings r) else native)
           | None \<Rightarrow> native);
          plain = plain_inspection findings in
      if (case result of Some r \<Rightarrow> pr_action r = PluginBlocked | None \<Rightarrow> False) then
        Some (plain\<lparr>in_blocked := True,
          in_blockedReason := Some (''blocked by '' @ (case ge_plugin e of Some p \<Rightarrow> pg_name p | None \<Rightarrow> []))\<rparr>)
      else if gp_action policy = ActBlock \<and> findings \<noteq> [] then
        Some (plain\<lparr>in_blocked := True, in_blockedReason := Some ''input contained restricted content''\<rparr>)
      else if gp_action policy = ActMask \<and> native \<noteq> [] then
        map_option (\<lambda>v. let (out, v') = tokenize_text hmac v base native in
          plain\<lparr>in_transformedText := Some out, in_vault := Some v'\<rparr>) (new_vault vaultKey nonce)
      else if gp_action policy = ActRedact \<and> native \<noteq> [] then
        Some (plain\<lparr>in_transformedText := Some (redactText base native)\<rparr>)
      else Some (plain\<lparr>in_transformedText := masked\<rparr>))"

definition inspectOutputText :: "hmac_hex \<Rightarrow> string \<Rightarrow> GuardrailEngine \<Rightarrow> string \<Rightarrow> string option \<Rightarrow> inspection option" where
  "inspectOutputText hmac nonce e txt vaultKey =
     (let policy = gps_output (ge_policies e); findings = filterByPolicy (detectAll e txt) policy; plain = plain_inspection findings in
      if findings = [] then Some plain
      else if gp_action policy = ActBlock then Some (plain\<lparr>in_blocked := True\<rparr>)
      else if gp_action policy = ActMask then
        map_option (\<lambda>v. let (out, v') = tokenize_text hmac v txt findings in
          plain\<lparr>in_transformedText := Some out, in_vault := Some v'\<rparr>) (new_vault vaultKey nonce)
      else if gp_action policy = ActRedact then Some (plain\<lparr>in_transformedText := Some (redactText txt findings)\<rparr>)
      else Some plain)"

definition inspectOutput :: "hmac_hex \<Rightarrow> string \<Rightarrow> GuardrailEngine \<Rightarrow> string \<Rightarrow> string option \<Rightarrow> inspection option" where
  "inspectOutput hmac nonce e txt vaultKey =
     (case inspectOutputText hmac nonce e txt vaultKey of
        None \<Rightarrow> None
      | Some native \<Rightarrow>
          (case ge_plugin e of
             None \<Rightarrow> Some native
           | Some p \<Rightarrow>
               (let r = pg_inspect p txt DirOutput;
                    findings = (if pr_findings r \<noteq> [] then resolveOverlaps (in_findings native @ pr_findings r) else in_findings native);
                    plain = plain_inspection findings in
                if pr_action r = PluginBlocked \<or> in_blocked native then Some (plain\<lparr>in_blocked := True\<rparr>)
                else case (pr_action r, pr_maskedText r) of
                  (PluginMasked, Some t) \<Rightarrow>
                    (case inspectOutputText hmac nonce e t vaultKey of
                       None \<Rightarrow> None
                     | Some chained \<Rightarrow>
                         if in_blocked chained then Some (plain\<lparr>in_blocked := True\<rparr>)
                         else Some (plain\<lparr>in_transformedText := Some (case in_transformedText chained of Some s \<Rightarrow> s | None \<Rightarrow> t),
                           in_vault := in_vault chained\<rparr>))
                | _ \<Rightarrow> Some (plain\<lparr>in_transformedText := in_transformedText native, in_vault := in_vault native\<rparr>))))"

section \<open>Splicing from the right\<close>

definition fits :: "string \<Rightarrow> Finding list \<Rightarrow> bool" where
  "fits txt fs \<longleftrightarrow> in_order fs \<and> list_all (\<lambda>f. 0 \<le> fd_start f \<and> fd_end f \<le> int (length txt)) fs"

text \<open>A text with its findings replaced, read from the left.\<close>

fun replaced :: "(Finding \<Rightarrow> string) \<Rightarrow> string \<Rightarrow> nat \<Rightarrow> Finding list \<Rightarrow> string" where
  "replaced rep txt i [] = drop i txt"
| "replaced rep txt i (f # fs) =
     take (nat (fd_start f) - i) (drop i txt) @ rep f @ replaced rep txt (nat (fd_end f)) fs"

lemma rightmost_first_rev: "in_order fs \<Longrightarrow> rightmost_first fs = rev fs"
proof -
  assume ord: "in_order fs"
  have "sorted (map (\<lambda>f. - fd_start f) (rev fs))"
    using in_order_sorted [OF ord] by (simp add: sorted_map sorted_wrt_rev)
  moreover have "inj_on (\<lambda>f. - fd_start f) (set fs)" using in_order_inj [OF ord] by (auto simp: inj_on_def)
  ultimately show ?thesis unfolding rightmost_first_def by (intro sort_key_inj_key_eq) simp_all
qed

lemma fits_Cons: "fits txt (f # fs) \<Longrightarrow> fits txt fs \<and> span_ok f \<and> 0 \<le> fd_start f \<and> fd_end f \<le> int (length txt)
    \<and> (\<forall>g\<in>set fs. fd_end f \<le> fd_start g)"
  by (auto simp: fits_def in_order_Cons)

lemma fits_filter: "fits txt fs \<Longrightarrow> fits txt (filter P fs)"
  by (auto simp: fits_def in_order_def list_all_iff intro: sorted_wrt_filter)

lemma splice_replaced:
  "fits txt fs \<Longrightarrow> (\<forall>f\<in>set fs. int i \<le> fd_start f) \<Longrightarrow> i \<le> length txt \<Longrightarrow>
   foldl (\<lambda>out f. splice out f (rep f)) txt (rev fs) = take i txt @ replaced rep txt i fs"
proof (induction fs arbitrary: i)
  case (Cons f fs)
  note f = fits_Cons [OF Cons.prems(1)]
  define a b where "a = nat (fd_start f)" and "b = nat (fd_end f)"
  have ab: "i \<le> a" "a \<le> b" "b \<le> length txt" using f Cons.prems(2) by (auto simp: a_def b_def span_ok_def)
  have "foldl (\<lambda>out f. splice out f (rep f)) txt (rev fs) = take b txt @ replaced rep txt b fs"
    by (rule Cons.IH) (use f ab in \<open>auto simp: b_def span_ok_def\<close>)
  moreover have "take a txt = take i txt @ take (a - i) (drop i txt)"
    using ab by (metis take_add le_add_diff_inverse)
  ultimately show ?case using ab
    by (simp add: splice_def flip: a_def b_def)
qed simp

lemma replaced_cong: "(\<And>f. f \<in> set fs \<Longrightarrow> rep f = rep' f) \<Longrightarrow> replaced rep txt i fs = replaced rep' txt i fs"
  by (induction fs arbitrary: i) simp_all

lemma redactText_replaced:
  "fits txt fs \<Longrightarrow> redactText txt fs = replaced (\<lambda>f. ''<<REDACTED_'' @ tokenCategory (fd_category f) @ ''>>'') txt 0 fs"
proof -
  assume f: "fits txt fs"
  then have "\<forall>f\<in>set fs. int 0 \<le> fd_start f" by (auto simp: fits_def list_all_iff)
  from splice_replaced [OF f this] f show ?thesis
    by (simp add: redactText_def fits_def rightmost_first_rev)
qed

lemma replaced_self:
  "fits txt fs \<Longrightarrow> (\<forall>f\<in>set fs. int i \<le> fd_start f) \<Longrightarrow>
   replaced (\<lambda>f. text_slice txt (fd_start f) (fd_end f)) txt i fs = drop i txt"
proof (induction fs arbitrary: i)
  case (Cons f fs)
  note f = fits_Cons [OF Cons.prems(1)]
  define a b where "a = nat (fd_start f)" and "b = nat (fd_end f)"
  have ab: "i \<le> a" "a \<le> b" using f Cons.prems(2) by (auto simp: a_def b_def span_ok_def)
  have "replaced (\<lambda>f. text_slice txt (fd_start f) (fd_end f)) txt b fs = drop b txt"
    by (rule Cons.IH) (use f in \<open>auto simp: b_def span_ok_def\<close>)
  moreover have "take (a - i) (drop i txt) @ take (b - a) (drop a txt) @ drop b txt = drop i txt"
    using ab by (metis add_diff_inverse_nat append_take_drop_id drop_drop le_add_diff_inverse2 not_less)
  ultimately show ?case by (simp add: text_slice_def flip: a_def b_def)
qed simp

section \<open>Replacing tokens\<close>

definition token_shape :: "string \<Rightarrow> bool" where
  "token_shape t \<longleftrightarrow> (\<exists>b. t = ''<<'' @ b @ ''>>'' \<and> list_all token_char b)"

lemma token_char_plain: "token_char c \<Longrightarrow> c \<noteq> CHR ''<'' \<and> c \<noteq> CHR ''>''"
  by (auto simp: token_char_def category_char_def)

lemma replace_all_plain:
  "token_shape t \<Longrightarrow> CHR ''<'' \<notin> set s \<Longrightarrow> replace_all t r (s @ u) = s @ replace_all t r u"
proof (induction s)
  case (Cons c s)
  then have "\<not> starts_with ((c # s) @ u) t" by (auto simp: token_shape_def)
  with Cons show ?case by (subst replace_all.simps) simp
qed simp

lemma token_prefix:
  assumes "token_shape t" and "token_shape u" and "starts_with (u @ z) t"
  shows "t = u"
proof -
  obtain b c where t: "t = ''<<'' @ b @ ''>>''" "list_all token_char b" and u: "u = ''<<'' @ c @ ''>>''" "list_all token_char c"
    using assms(1,2) by (auto simp: token_shape_def)
  from assms(3) obtain y where "u @ z = t @ y" by (auto simp: prefix_def)
  then have "c @ CHR ''>'' # CHR ''>'' # z = b @ CHR ''>'' # CHR ''>'' # y" by (simp add: t u)
  moreover have "CHR ''>'' \<notin> set b" and "CHR ''>'' \<notin> set c"
    using t(2) u(2) token_char_plain by (auto simp: list_all_iff)
  ultimately have "c = b" by (simp add: sep_append_inj)
  with t u show ?thesis by simp
qed

lemma replace_all_token:
  assumes "token_shape t" and "token_shape u"
  shows "replace_all t r (u @ z) = (if u = t then r else u) @ replace_all t r z"
proof (cases "u = t")
  case True
  have "t \<noteq> []" using assms(1) by (auto simp: token_shape_def)
  then show ?thesis using True by (subst replace_all.simps) simp
next
  case False
  obtain b where u: "u = CHR ''<'' # CHR ''<'' # b @ ''>>''" "list_all token_char b" using assms(2) by (auto simp: token_shape_def)
  have b: "CHR ''<'' \<notin> set (b @ ''>>'')" using u(2) token_char_plain by (auto simp: list_all_iff)
  have first: "\<not> starts_with (u @ z) t" using False token_prefix [OF assms] by blast
  have second: "\<not> starts_with (CHR ''<'' # (b @ ''>>'') @ z) t"
    using assms(1) b by (cases b) (auto simp: token_shape_def)
  have "replace_all t r (u @ z) = CHR ''<'' # replace_all t r (CHR ''<'' # (b @ ''>>'') @ z)"
    using first by (subst replace_all.simps) (simp add: u)
  also have "\<dots> = CHR ''<'' # CHR ''<'' # replace_all t r ((b @ ''>>'') @ z)"
    using second by (subst replace_all.simps) simp
  also have "\<dots> = CHR ''<'' # CHR ''<'' # (b @ ''>>'') @ replace_all t r z"
    by (simp add: replace_all_plain [OF assms(1) b, simplified])
  finally show ?thesis using False by (simp add: u)
qed

lemma replace_all_absent: "\<not> sublist t s \<Longrightarrow> replace_all t r s = s"
proof (induction s)
  case Nil
  then show ?case by (simp add: replace_all.simps)
next
  case (Cons c s)
  then have "\<not> starts_with (c # s) t" and "\<not> sublist t s" by (auto simp: sublist_Cons_right)
  with Cons show ?case by (subst replace_all.simps) simp
qed

lemma detokenize_replaces:
  "detokenize v txt = foldl (\<lambda>out (t, r). replace_all t r out) txt (tv_byToken v)"
proof -
  have "(\<lambda>out (t, r). if sublist t out then replace_all t r out else out) = (\<lambda>out (t, r). replace_all t r out)"
    by (auto simp: fun_eq_iff replace_all_absent)
  then show ?thesis by (simp add: detokenize_def)
qed

text \<open>No token begins in a stretch of the text that holds none, even where the stretch runs into a token.\<close>

lemma replace_all_before_token:
  assumes t: "token_shape t" and u: "token_shape u"
  shows "\<not> sublist t s \<Longrightarrow> replace_all t r (s @ u @ z) = s @ replace_all t r (u @ z)"
proof (induction s)
  case (Cons c s)
  obtain b d where t': "t = ''<<'' @ b @ ''>>''" "list_all token_char b" and u': "u = ''<<'' @ d @ ''>>''" "list_all token_char d"
    using t u by (auto simp: token_shape_def)
  have lt: "CHR ''<'' \<notin> set (b @ ''>>'')" using t'(2) token_char_plain by (auto simp: list_all_iff)
  have "\<not> starts_with ((c # s) @ u @ z) t"
  proof
    assume p: "starts_with ((c # s) @ u @ z) t"
    have "\<not> starts_with (c # s) t" using Cons.prems by (auto simp: prefix_imp_sublist)
    with p obtain w where w: "t = (c # s) @ w" "starts_with (u @ z) w" "w \<noteq> []"
      by (metis append_Nil2 prefix_append prefix_order.refl)
    then have head: "hd w = CHR ''<''" using u' by (cases w) (auto simp: prefix_def)
    have s: "s = []"
    proof (rule ccontr)
      assume "s \<noteq> []"
      then obtain e s' where "s = e # s'" by (cases s) auto
      then have "b @ ''>>'' = s' @ w" using w(1) t' by auto
      then show False using lt head w(3) by (metis Un_iff hd_in_set set_append)
    qed
    then have "w = CHR ''<'' # b @ ''>>''" using w(1) t' by auto
    then have "starts_with (CHR ''<'' # d @ ''>>'' @ z) (b @ ''>>'')" using w(2) u' by simp
    then show False using lt by (cases b) auto
  qed
  moreover have "\<not> sublist t s" using Cons.prems by (auto simp: sublist_Cons_right)
  ultimately show ?case using Cons.IH by (subst replace_all.simps) simp
qed simp

lemma replaced_skip:
  assumes "i \<le> b" and "b \<le> length txt" and "\<forall>f\<in>set fs. int b \<le> fd_start f"
  shows "replaced rep txt i fs = take (b - i) (drop i txt) @ replaced rep txt b fs"
proof (cases fs)
  case Nil
  then show ?thesis using assms(1) by (metis append_take_drop_id drop_drop le_add_diff_inverse2 replaced.simps(1))
next
  case (Cons f fs')
  define a where "a = nat (fd_start f)"
  have "b \<le> a" using assms(3) Cons by (auto simp: a_def)
  then have "take (a - i) (drop i txt) = take (b - i) (drop i txt) @ take (a - b) (drop b txt)"
    using assms(1) take_add [of "b - i" "a - b" "drop i txt"] by simp
  then show ?thesis by (simp add: Cons flip: a_def)
qed

text \<open>Restoring one token of a masked text takes its findings off the list.\<close>

lemma restore_token:
  assumes "token_shape t" and "\<not> sublist t txt"
  shows "fits txt fs \<Longrightarrow> (\<forall>f\<in>set fs. int i \<le> fd_start f) \<Longrightarrow> i \<le> length txt \<Longrightarrow> \<forall>f\<in>set fs. token_shape (tok f) \<Longrightarrow>
    \<forall>f\<in>set fs. tok f = t \<longrightarrow> text_slice txt (fd_start f) (fd_end f) = r \<Longrightarrow>
    replace_all t r (replaced tok txt i fs) = replaced tok txt i (filter (\<lambda>f. tok f \<noteq> t) fs)"
proof (induction fs arbitrary: i)
  case Nil
  have "\<not> sublist t (drop i txt)" using assms(2) sublist_order.order_trans sublist_drop by blast
  then show ?case by (simp add: replace_all_absent)
next
  case (Cons f fs)
  note f = fits_Cons [OF Cons.prems(1)]
  define a b where "a = nat (fd_start f)" and "b = nat (fd_end f)"
  have ab: "i \<le> a" "a \<le> b" "b \<le> length txt" using f Cons.prems(2) by (auto simp: a_def b_def span_ok_def)
  let ?s = "take (a - i) (drop i txt)"
  have s: "\<not> sublist t ?s" using assms(2) sublist_order.order_trans sublist_drop sublist_take by blast
  have later: "\<forall>g\<in>set fs. int b \<le> fd_start g" using f by (auto simp: b_def span_ok_def)
  have IH: "replace_all t r (replaced tok txt b fs) = replaced tok txt b (filter (\<lambda>f. tok f \<noteq> t) fs)"
    by (rule Cons.IH) (use f later ab Cons.prems in auto)
  have "replaced tok txt i (f # fs) = ?s @ tok f @ replaced tok txt b fs" by (simp add: a_def b_def)
  then have step: "replace_all t r (replaced tok txt i (f # fs)) = ?s @ (if tok f = t then r else tok f) @ replaced tok txt b (filter (\<lambda>f. tok f \<noteq> t) fs)"
    using replace_all_before_token [OF assms(1) _ s, of "tok f" r] replace_all_token [OF assms(1), of "tok f" r] Cons.prems(4) IH by simp
  show ?case
  proof (cases "tok f = t")
    case True
    then have "r = take (b - a) (drop a txt)" using Cons.prems(5) by (simp add: text_slice_def a_def b_def)
    then have "?s @ r = take (b - i) (drop i txt)" using ab take_add [of "a - i" "b - a" "drop i txt"] by simp
    then show ?thesis
      using step True replaced_skip [of i b "txt" "filter (\<lambda>f. tok f \<noteq> t) fs" tok] ab later by simp
  next
    case False
    then show ?thesis using step by (simp add: a_def b_def)
  qed
qed

text \<open>Restoring every token of a map that knows them all gives the text back.\<close>

lemma restore_text:
  "fits txt fs \<Longrightarrow> list_all (\<lambda>(t, r). token_shape t \<and> \<not> sublist t txt) m \<Longrightarrow>
   \<forall>f\<in>set fs. token_shape (tok f) \<and> jm_get m (tok f) = Some (text_slice txt (fd_start f) (fd_end f)) \<Longrightarrow>
   foldl (\<lambda>out (t, r). replace_all t r out) (replaced tok txt 0 fs) m = txt"
proof (induction m arbitrary: fs)
  case Nil
  then have "fs = []" by (cases fs) auto
  then show ?case by simp
next
  case (Cons e m)
  obtain t r where e: "e = (t, r)" by (cases e)
  let ?fs = "filter (\<lambda>f. tok f \<noteq> t) fs"
  have t: "token_shape t" "\<not> sublist t txt" using Cons.prems(2) e by simp_all
  have start: "\<forall>f\<in>set fs. int 0 \<le> fd_start f" using Cons.prems(1) by (auto simp: fits_def list_all_iff)
  have "replace_all t r (replaced tok txt 0 fs) = replaced tok txt 0 ?fs"
    by (rule restore_token [OF t Cons.prems(1) start]) (use Cons.prems(3) e in auto)
  moreover have "foldl (\<lambda>out (t, r). replace_all t r out) (replaced tok txt 0 ?fs) m = txt"
    by (rule Cons.IH) (use Cons.prems e in \<open>auto simp: fits_filter split: if_splits\<close>)
  ultimately show ?case by (simp add: e)
qed

section \<open>Masking is reversible\<close>

definition keyed_token :: "hmac_hex \<Rightarrow> string \<Rightarrow> string \<Rightarrow> string \<Rightarrow> string" where
  "keyed_token hmac k category original =
     (let cat = tokenCategory category in
      ''<<GULLEY_'' @ cat @ ''_'' @ to_upper (take TOKEN_HEX (hmac k (cat @ CHR 0x00 # original))) @ ''>>'')"

definition nonce_token :: "string \<Rightarrow> string \<Rightarrow> nat \<Rightarrow> string" where
  "nonce_token nonce category n = ''<<GULLEY_'' @ tokenCategory category @ ''_'' @ nonce @ ''_'' @ show_nat n @ ''>>''"

lemma mint_token_cases:
  "mint_token hmac v c r = (case tv_key v of Some k \<Rightarrow> keyed_token hmac k c r | None \<Rightarrow> nonce_token (tv_nonce v) c (tv_counter v + 1))"
  by (simp add: mint_token_def keyed_token_def nonce_token_def Let_def split: option.split)

definition hex_char :: "char \<Rightarrow> bool" where
  "hex_char c \<longleftrightarrow> c \<in> set ''0123456789abcdef''"

text \<open>Distinct values are given distinct tokens: the digests kept of a keyed vault do not collide on the values masked.\<close>

definition collision_free :: "hmac_hex \<Rightarrow> string \<Rightarrow> (string \<times> string) set \<Rightarrow> bool" where
  "collision_free hmac k D \<longleftrightarrow> (\<forall>(c, r)\<in>D. \<forall>(c', r')\<in>D. keyed_token hmac k c r = keyed_token hmac k c' r' \<longrightarrow> r = r')"

definition sound_source :: "hmac_hex \<Rightarrow> (string \<times> string) set \<Rightarrow> TokenVault \<Rightarrow> bool" where
  "sound_source hmac D v \<longleftrightarrow>
     (case tv_key v of
        Some k \<Rightarrow> collision_free hmac k D \<and> (\<forall>m. list_all hex_char (hmac k m))
      | None \<Rightarrow> list_all token_char (tv_nonce v))"

definition minted :: "hmac_hex \<Rightarrow> (string \<times> string) set \<Rightarrow> TokenVault \<Rightarrow> string \<Rightarrow> string \<Rightarrow> bool" where
  "minted hmac D v t r \<longleftrightarrow>
     (case tv_key v of
        Some k \<Rightarrow> (\<exists>c. (c, r) \<in> D \<and> t = keyed_token hmac k c r)
      | None \<Rightarrow> (\<exists>c n. n \<le> tv_counter v \<and> t = nonce_token (tv_nonce v) c n))"

definition vault_inv :: "hmac_hex \<Rightarrow> (string \<times> string) set \<Rightarrow> TokenVault \<Rightarrow> bool" where
  "vault_inv hmac D v \<longleftrightarrow>
     (\<forall>r t. jm_get (tv_byOriginal v) r = Some t \<longrightarrow> jm_get (tv_byToken v) t = Some r) \<and>
     (\<forall>(t, r)\<in>set (tv_byToken v). minted hmac D v t r \<and> r \<in> snd ` D)"

lemma upper_hex_char: "hex_char c \<Longrightarrow> list_all token_char (upper_unit c)"
  unfolding hex_char_def by (simp, elim disjE) (simp_all add: upper_unit_def token_char_def category_char_def)

lemma upper_hex: "list_all hex_char s \<Longrightarrow> list_all token_char (to_upper s)"
  by (induction s) (simp_all add: to_upper_def upper_hex_char)

lemma category_token_chars: "list_all token_char (underscore_runs b s)"
  by (induction b s rule: underscore_runs.induct) (auto simp: token_char_def)

lemma digits_token_chars: "list_all token_char (show_nat n)"
  using show_nat_digits [of n] by (auto simp: list_all_iff token_char_def category_char_def is_digit_def Let_def)

lemma gulley_token_chars: "list_all token_char ''GULLEY_''"
  by (simp add: token_char_def category_char_def)

lemma token_shapeI: "t = ''<<'' @ b @ ''>>'' \<Longrightarrow> list_all token_char b \<Longrightarrow> token_shape t"
  by (auto simp: token_shape_def)

lemma nonce_token_shape: "list_all token_char nonce \<Longrightarrow> token_shape (nonce_token nonce c n)"
  by (rule token_shapeI [of _ "''GULLEY_'' @ tokenCategory c @ ''_'' @ nonce @ ''_'' @ show_nat n"])
    (simp_all add: nonce_token_def digits_token_chars tokenCategory_def category_token_chars gulley_token_chars [simplified] token_char_def [of "CHR ''_''"])

lemma list_all_take: "list_all P xs \<Longrightarrow> list_all P (take n xs)"
  by (auto simp: list_all_iff dest: in_set_takeD)

lemma keyed_token_shape: "(\<And>m. list_all hex_char (hmac k m)) \<Longrightarrow> token_shape (keyed_token hmac k c r)"
  by (rule token_shapeI [of _ "''GULLEY_'' @ tokenCategory c @ ''_'' @ to_upper (take TOKEN_HEX (hmac k (tokenCategory c @ CHR 0x00 # r)))"])
    (simp_all add: keyed_token_def Let_def tokenCategory_def category_token_chars gulley_token_chars [simplified] token_char_def [of "CHR ''_''"]
      upper_hex list_all_take)

lemma nonce_token_inj: "nonce_token x c n = nonce_token x c' n' \<Longrightarrow> n = n'"
proof -
  assume eq: "nonce_token x c n = nonce_token x c' n'"
  let ?p = "\<lambda>c. ''<<GULLEY_'' @ tokenCategory c @ ''_'' @ x"
  have "?p c @ CHR ''_'' # show_nat n = ?p c' @ CHR ''_'' # show_nat n'"
    using arg_cong [OF eq, of "\<lambda>t. butlast (butlast t)"] by (simp add: nonce_token_def butlast_append)
  from arg_cong [OF this, of rev]
  have "rev (show_nat n) @ CHR ''_'' # rev (?p c) = rev (show_nat n') @ CHR ''_'' # rev (?p c')" by simp
  moreover have "CHR ''_'' \<notin> set (rev (show_nat m))" for m using not_digit_in_show_nat [of "CHR ''_''" m] by (simp add: is_digit_def)
  ultimately have "rev (show_nat n) = rev (show_nat n')" by (simp add: sep_append_inj)
  then show "n = n'" using show_nat_inj by simp
qed

lemma minted_shape: "sound_source hmac D v \<Longrightarrow> minted hmac D v t r \<Longrightarrow> token_shape t"
  by (auto simp: sound_source_def minted_def split: option.splits intro: nonce_token_shape keyed_token_shape)

lemma tokenFor_inv:
  assumes "vault_inv hmac D v" and "sound_source hmac D v" and "(c, r) \<in> D" and "tokenFor hmac v c r = (t, v')"
  shows "vault_inv hmac D v' \<and> sound_source hmac D v' \<and> jm_get (tv_byOriginal v') r = Some t
    \<and> (\<forall>r0 t0. jm_get (tv_byOriginal v) r0 = Some t0 \<longrightarrow> jm_get (tv_byOriginal v') r0 = Some t0)"
proof (cases "jm_get (tv_byOriginal v) r")
  case (Some u)
  with assms show ?thesis by (simp add: tokenFor_def)
next
  case None
  define t1 where "t1 = mint_token hmac v c r"
  have v': "t = t1" "v' = v\<lparr>tv_counter := (if tv_key v = None then tv_counter v + 1 else tv_counter v),
      tv_byOriginal := jm_set r t1 (tv_byOriginal v), tv_byToken := jm_set t1 r (tv_byToken v)\<rparr>"
    using assms(4) None by (auto simp: tokenFor_def Let_def t1_def)
  have grow: "minted hmac D v' t2 r2" if "minted hmac D v t2 r2" for t2 r2
    using that by (auto simp: minted_def v' split: option.splits intro: le_SucI)
  have new: "minted hmac D v' t1 r"
    using assms(3) by (auto simp: minted_def v' t1_def mint_token_cases split: option.splits)
  have clash: "r2 = r" if "minted hmac D v t1 r2" "r2 \<in> snd ` D" for r2
  proof (cases "tv_key v")
    case (Some k)
    with that assms(2,3) show ?thesis by (fastforce simp: minted_def sound_source_def collision_free_def t1_def mint_token_cases)
  next
    case None
    with that have False by (auto simp: minted_def t1_def mint_token_cases dest: nonce_token_inj)
    then show ?thesis ..
  qed
  have keep: "jm_get (tv_byToken v') t0 = Some r0" if "jm_get (tv_byOriginal v) r0 = Some t0" for r0 t0
  proof -
    have g: "jm_get (tv_byToken v) t0 = Some r0" using assms(1) that by (simp add: vault_inv_def)
    then have "minted hmac D v t0 r0 \<and> r0 \<in> snd ` D" using assms(1) by (force simp: vault_inv_def dest: map_of_SomeD)
    then have "t0 \<noteq> t1" using clash [of r0] that None by auto
    with g show ?thesis by (simp add: v' jm_get_set)
  qed
  have "vault_inv hmac D v'"
    unfolding vault_inv_def
  proof (intro conjI allI impI)
    show "jm_get (tv_byToken v') t0 = Some r0" if "jm_get (tv_byOriginal v') r0 = Some t0" for r0 t0
    proof (cases "r0 = r")
      case False
      with that keep [of r0 t0] show ?thesis by (simp add: v' jm_get_set)
    qed (use that in \<open>simp add: v' jm_get_set\<close>)
    show "\<forall>(t0, r0)\<in>set (tv_byToken v'). minted hmac D v' t0 r0 \<and> r0 \<in> snd ` D"
    proof (clarify)
      fix t0 r0 assume "(t0, r0) \<in> set (tv_byToken v')"
      then have "(t0, r0) = (t1, r) \<or> (t0, r0) \<in> set (tv_byToken v)"
        by (auto simp: v' dest!: jm_set_sub)
      then show "minted hmac D v' t0 r0 \<and> r0 \<in> snd ` D" using assms(1,3) new grow by (force simp: vault_inv_def)
    qed
  qed
  moreover have "sound_source hmac D v'" using assms(2) by (cases "tv_key v") (simp_all add: sound_source_def v')
  ultimately show ?thesis using None by (auto simp: v' jm_get_set)
qed

abbreviation token_of :: "TokenVault \<Rightarrow> string \<Rightarrow> Finding \<Rightarrow> string" where
  "token_of v txt f \<equiv> the (jm_get (tv_byOriginal v) (text_slice txt (fd_start f) (fd_end f)))"

lemma tokenize_loop_tokens:
  assumes "tokenize_loop hmac txt fs v out = (out', v')" and "vault_inv hmac D v" and "sound_source hmac D v"
    and "\<forall>f\<in>set fs. (fd_category f, text_slice txt (fd_start f) (fd_end f)) \<in> D"
  shows "out' = foldl (\<lambda>out f. splice out f (token_of v' txt f)) out fs \<and> vault_inv hmac D v' \<and> sound_source hmac D v'
    \<and> (\<forall>f\<in>set fs. jm_get (tv_byOriginal v') (text_slice txt (fd_start f) (fd_end f)) \<noteq> None)
    \<and> (\<forall>r t. jm_get (tv_byOriginal v) r = Some t \<longrightarrow> jm_get (tv_byOriginal v') r = Some t)"
  using assms
proof (induction fs arbitrary: v out)
  case (Cons f fs)
  obtain t v1 where tf: "tokenFor hmac v (fd_category f) (text_slice txt (fd_start f) (fd_end f)) = (t, v1)" by fastforce
  from tokenFor_inv [OF Cons.prems(2,3) _ tf] Cons.prems(4)
  have v1: "vault_inv hmac D v1" "sound_source hmac D v1" "jm_get (tv_byOriginal v1) (text_slice txt (fd_start f) (fd_end f)) = Some t"
    "\<forall>r0 t0. jm_get (tv_byOriginal v) r0 = Some t0 \<longrightarrow> jm_get (tv_byOriginal v1) r0 = Some t0"
    by auto
  have "tokenize_loop hmac txt fs v1 (splice out f t) = (out', v')" using Cons.prems(1) tf by simp
  from Cons.IH [OF this v1(1,2)] Cons.prems(4) v1 show ?case by auto
qed simp



end
