(* ===== verification/Guardrail_Stream.thy ===== *)
theory Guardrail_Stream
  imports Guardrail_Engine
begin

text \<open>
  The streaming guardrails of \<^verbatim>\<open>guardrails/src/streaming.ts\<close>: the token replacer, the audit scanner and the redactor that holds a window back. The
  detector is an argument; the two anchors of long matches are modelled by the shape of their regular expressions. For any detector whose findings lie in order
  within the text, what leaves was scanned with a window of text after it; for one that also decides every finding within the window, the redactor emits, in any
  chunks, what redacting the whole text gives.
\<close>

section \<open>Anchors of long matches\<close>

datatype long_anchor = PemAnchor | JwtAnchor

fun anchor_category :: "long_anchor \<Rightarrow> string" where
  "anchor_category PemAnchor = ''private_key''"
| "anchor_category JwtAnchor = ''jwt''"

definition pem_char :: "char \<Rightarrow> bool" where
  "pem_char c \<longleftrightarrow> category_char c \<or> c = CHR '' ''"

definition base64url_char :: "char \<Rightarrow> bool" where
  "base64url_char c \<longleftrightarrow>
     (let n = (of_char c :: nat) in 65 \<le> n \<and> n \<le> 90 \<or> 97 \<le> n \<and> n \<le> 122 \<or> 48 \<le> n \<and> n \<le> 57) \<or> c = CHR ''_'' \<or> c = CHR ''-''"

fun anchor_match :: "long_anchor \<Rightarrow> string \<Rightarrow> nat option" where
  "anchor_match PemAnchor s =
     (if starts_with s ''-----BEGIN '' then
        (let run = takeWhile pem_char (drop 11 s) in
         if suffix ''PRIVATE KEY'' run \<and> starts_with (dropWhile pem_char (drop 11 s)) ''-----'' then Some (16 + length run) else None)
      else None)"
| "anchor_match JwtAnchor s =
     (if starts_with s ''eyJ'' then
        (let run = takeWhile base64url_char (drop 3 s) in
         if 10 \<le> length run \<and> starts_with (dropWhile base64url_char (drop 3 s)) ''.'' then Some (4 + length run) else None)
      else None)"

lemma anchor_match_pos: "anchor_match a s = Some n \<Longrightarrow> 0 < n \<and> s \<noteq> []"
  by (cases a) (auto simp: Let_def split: if_splits)

text \<open>The offsets at which a global match starts.\<close>

function anchor_hits :: "long_anchor \<Rightarrow> int \<Rightarrow> string \<Rightarrow> int list" where
  "anchor_hits a i s =
     (if s = [] then []
      else case anchor_match a s of
        Some n \<Rightarrow> i # anchor_hits a (i + int n) (drop n s)
      | None \<Rightarrow> anchor_hits a (i + 1) (tl s))"
  by pat_completeness auto
termination by (relation "measure (\<lambda>(a, i, s). length s)") (auto dest: anchor_match_pos)

declare anchor_hits.simps [simp del]

definition LONG_MATCH_ANCHORS :: "long_anchor list" where
  "LONG_MATCH_ANCHORS = [PemAnchor, JwtAnchor]"

text \<open>The anchors whose match the detector has not recognised yet.\<close>

definition forming :: "long_anchor list \<Rightarrow> Finding list \<Rightarrow> string \<Rightarrow> (long_anchor \<times> int) list" where
  "forming anchors raw txt =
     concat (map (\<lambda>a. map (\<lambda>i. (a, i)) (filter (\<lambda>i. \<not> list_ex (\<lambda>f. fd_category f = anchor_category a \<and> fd_start f \<le> i \<and> i < fd_end f) raw)
       (anchor_hits a 0 txt))) anchors)"

section \<open>The token replacer\<close>

definition tail_matches :: "string \<Rightarrow> string list \<Rightarrow> nat \<Rightarrow> bool" where
  "tail_matches txt tokens len =
     list_ex (\<lambda>t. len < length t \<and> starts_with t (drop (length txt - len) txt)) tokens"

definition partialTailLength :: "string \<Rightarrow> string list \<Rightarrow> nat \<Rightarrow> nat" where
  "partialTailLength txt tokens maxLen =
     (case find (tail_matches txt tokens) (rev [1..<Suc (min (maxLen - 1) (length txt))]) of Some len \<Rightarrow> len | None \<Rightarrow> 0)"

record StreamingReplacer =
  st_buffer :: string
  st_tokens :: "string list"
  st_map :: "(string, string) jsmap"
  st_maxLen :: nat

definition new_replacer :: "(string \<times> string) list \<Rightarrow> StreamingReplacer" where
  "new_replacer entries =
     \<lparr>st_buffer = [], st_tokens = map fst entries, st_map = foldl (\<lambda>m (t, r). jm_set t r m) [] entries,
      st_maxLen = foldl (\<lambda>m t. max m (length t)) 0 (map fst entries)\<rparr>"

definition replacer_replace :: "StreamingReplacer \<Rightarrow> string \<Rightarrow> string" where
  "replacer_replace r s =
     (if s = [] then [] else foldl (\<lambda>out (token, original). if sublist token out then replace_all token original out else out) s (st_map r))"

definition replacer_push :: "StreamingReplacer \<Rightarrow> string \<Rightarrow> string \<times> StreamingReplacer" where
  "replacer_push r chunk =
     (let buf = st_buffer r @ chunk in
      if st_maxLen r = 0 then (buf, r\<lparr>st_buffer := []\<rparr>)
      else
        (let keep = partialTailLength buf (st_tokens r) (st_maxLen r); cut = length buf - keep in
         (replacer_replace r (take cut buf), r\<lparr>st_buffer := drop cut buf\<rparr>)))"

definition replacer_flush :: "StreamingReplacer \<Rightarrow> string \<times> StreamingReplacer" where
  "replacer_flush r = (replacer_replace r (st_buffer r), r\<lparr>st_buffer := []\<rparr>)"

section \<open>The scanner\<close>

definition finding_key :: "int \<Rightarrow> string \<Rightarrow> string" where
  "finding_key start category = show_int start @ '':'' @ category"

definition record_findings :: "int \<Rightarrow> Finding list \<Rightarrow> (string, Finding) jsmap \<Rightarrow> (string, Finding) jsmap" where
  "record_findings base fs seen =
     foldl (\<lambda>m f. let k = finding_key (base + fd_start f) (fd_category f) in
       if jm_get m k = None then jm_set k (f\<lparr>fd_start := base + fd_start f, fd_end := base + fd_end f\<rparr>) m else m) seen fs"

record StreamingScanner =
  ss_overlap :: string
  ss_base :: int
  ss_window :: int
  ss_maxBuffer :: int
  ss_seen :: "(string, Finding) jsmap"

definition new_scanner :: "int option \<Rightarrow> StreamingScanner" where
  "new_scanner windowChars =
     (let w = (case windowChars of Some n \<Rightarrow> n | None \<Rightarrow> 1024) in
      \<lparr>ss_overlap = [], ss_base = 0, ss_window = w, ss_maxBuffer = max (w * 8) 8192, ss_seen = []\<rparr>)"

text \<open>Keeping from the earliest forming anchor before the window tail, and which category holds it.\<close>

definition hold_from :: "int \<Rightarrow> (long_anchor \<times> int) list \<Rightarrow> int \<times> string option" where
  "hold_from keep hits = foldl (\<lambda>(k, held) (a, i). if i < k then (i, Some (anchor_category a)) else (k, held)) (keep, None) hits"

definition scanner_push :: "(string \<Rightarrow> Finding list) \<Rightarrow> StreamingScanner \<Rightarrow> string \<Rightarrow> StreamingScanner" where
  "scanner_push detect s chunk =
     (let txt = ss_overlap s @ chunk; raw = detect txt; seen = record_findings (ss_base s) raw (ss_seen s);
          len = int (length txt); tail = max 0 (len - ss_window s);
          (keepFrom, held) = hold_from tail (forming LONG_MATCH_ANCHORS raw txt);
          (keep', seen') = (case held of
             Some cat \<Rightarrow>
               if ss_maxBuffer s < len - keepFrom then
                 (tail,
                  let k = finding_key (ss_base s + keepFrom) cat in
                  if jm_get seen k = None then
                    jm_set k \<lparr>fd_category = cat, fd_start = ss_base s + keepFrom, fd_end = ss_base s + len, fd_source = SourceSecret,
                      fd_confidence = 1 / 2\<rparr> seen
                  else seen)
               else (keepFrom, seen)
           | None \<Rightarrow> (keepFrom, seen)) in
      s\<lparr>ss_base := ss_base s + keep', ss_overlap := drop (nat keep') txt, ss_seen := seen'\<rparr>)"

definition sorted_findings :: "(string, Finding) jsmap \<Rightarrow> Finding list" where
  "sorted_findings seen = sort_key fd_start (map snd seen)"

section \<open>The redactor\<close>

record StreamingRedactor =
  sr_buffer :: string
  sr_base :: int
  sr_seen :: "(string, Finding) jsmap"
  sr_blocked :: bool
  sr_failClosed :: bool
  sr_window :: int
  sr_maxBuffer :: int
  sr_policy :: GuardrailPolicy
  sr_vault :: "TokenVault option"
  sr_anchors :: "long_anchor list"

text \<open>\<open>None\<close> when the vault key is too short.\<close>

definition new_redactor :: "GuardrailPolicy \<Rightarrow> int option \<Rightarrow> string option \<Rightarrow> string \<Rightarrow> StreamingRedactor option" where
  "new_redactor policy windowChars vaultKey nonce =
     (let w = max 1 (case windowChars of Some n \<Rightarrow> n | None \<Rightarrow> 512);
          base = \<lparr>sr_buffer = [], sr_base = 0, sr_seen = [], sr_blocked = False, sr_failClosed = False, sr_window = w,
            sr_maxBuffer = max (w * 8) 8192, sr_policy = policy, sr_vault = None,
            sr_anchors = (case gp_categories policy of
               Some cats \<Rightarrow> filter (\<lambda>a. anchor_category a \<in> set cats) LONG_MATCH_ANCHORS
             | None \<Rightarrow> LONG_MATCH_ANCHORS)\<rparr> in
      if gp_action policy = ActMask then map_option (\<lambda>v. base\<lparr>sr_vault := Some v\<rparr>) (new_vault vaultKey nonce) else Some base)"

definition redactor_terminal :: "StreamingRedactor \<Rightarrow> bool" where
  "redactor_terminal r \<longleftrightarrow> sr_blocked r \<or> sr_failClosed r"

text \<open>The boundary up to which text may leave: before the window tail, before a finding that reaches into it, before a forming anchor.\<close>

definition safe_end :: "StreamingRedactor \<Rightarrow> bool \<Rightarrow> Finding list \<Rightarrow> Finding list \<Rightarrow> int" where
  "safe_end r final raw findings =
     (let len = int (length (sr_buffer r)); windowEnd = (if final then len else max 0 (len - sr_window r)) in
      if final then windowEnd
      else
        foldl min (foldl min windowEnd (map fd_start (filter (\<lambda>f. windowEnd < fd_end f) findings)))
          (map snd (forming (sr_anchors r) raw (sr_buffer r))))"

definition redactor_process :: "hmac_hex \<Rightarrow> (string \<Rightarrow> Finding list) \<Rightarrow> bool \<Rightarrow> StreamingRedactor \<Rightarrow> string \<times> StreamingRedactor" where
  "redactor_process hmac detect final r0 =
     (let raw = detect (sr_buffer r0); findings = filterByPolicy raw (sr_policy r0);
          r = r0\<lparr>sr_seen := record_findings (sr_base r0) findings (sr_seen r0)\<rparr>;
          safeEnd = safe_end r final raw findings; block = (gp_action (sr_policy r) = ActBlock);
          first = (if block then find (\<lambda>f. fd_end f \<le> safeEnd) findings else None) in
      case first of
        Some f \<Rightarrow> (text_slice (sr_buffer r) 0 (fd_start f), r\<lparr>sr_blocked := True, sr_buffer := []\<rparr>)
      | None \<Rightarrow>
          (let pre = take (nat safeEnd) (sr_buffer r); enforceable = filter (\<lambda>f. fd_end f \<le> safeEnd) findings;
               (emitted, vault) = (if block then (pre, sr_vault r)
                 else case sr_vault r of
                   Some v \<Rightarrow> (let (out, v') = tokenize_text hmac v pre enforceable in (out, Some v'))
                 | None \<Rightarrow> (redactText pre enforceable, None));
               r' = r\<lparr>sr_buffer := drop (nat safeEnd) (sr_buffer r), sr_base := sr_base r + safeEnd, sr_vault := vault\<rparr> in
           (emitted, r'\<lparr>sr_failClosed := (sr_failClosed r' \<or> \<not> final \<and> sr_maxBuffer r' < int (length (sr_buffer r')))\<rparr>)))"

definition redactor_push :: "hmac_hex \<Rightarrow> (string \<Rightarrow> Finding list) \<Rightarrow> StreamingRedactor \<Rightarrow> string \<Rightarrow> string \<times> StreamingRedactor" where
  "redactor_push hmac detect r chunk =
     (if redactor_terminal r then ([], r) else redactor_process hmac detect False (r\<lparr>sr_buffer := sr_buffer r @ chunk\<rparr>))"

definition redactor_flush :: "hmac_hex \<Rightarrow> (string \<Rightarrow> Finding list) \<Rightarrow> StreamingRedactor \<Rightarrow> string \<times> StreamingRedactor" where
  "redactor_flush hmac detect r = (if redactor_terminal r then ([], r) else redactor_process hmac detect True r)"

fun redactor_run :: "hmac_hex \<Rightarrow> (string \<Rightarrow> Finding list) \<Rightarrow> StreamingRedactor \<Rightarrow> string list \<Rightarrow> string \<times> StreamingRedactor" where
  "redactor_run hmac detect r [] = ([], r)"
| "redactor_run hmac detect r (c # cs) =
     (let (out, r') = redactor_push hmac detect r c; (outs, r'') = redactor_run hmac detect r' cs in (out @ outs, r''))"

section \<open>What a step of the redactor emits\<close>

text \<open>A detector of a redactor: findings in order and within the text, and no unfinished anchor inside one of them.\<close>

definition well_formed_detector :: "(string \<Rightarrow> Finding list) \<Rightarrow> GuardrailPolicy \<Rightarrow> long_anchor list \<Rightarrow> bool" where
  "well_formed_detector detect policy anchors \<longleftrightarrow>
     (\<forall>txt. fits txt (filterByPolicy (detect txt) policy) \<and>
       (\<forall>f\<in>set (filterByPolicy (detect txt) policy). \<forall>(a, i)\<in>set (forming anchors (detect txt) txt). \<not> (fd_start f < i \<and> i < fd_end f)))"

lemma foldl_min:
  fixes m :: int
  shows "foldl min m xs \<le> m \<and> (\<forall>x\<in>set xs. foldl min m xs \<le> x) \<and> foldl min m xs \<in> set (m # xs)"
proof (induction xs arbitrary: m)
  case (Cons y ys)
  from Cons [of "min m y"] show ?case by (auto simp: min_def split: if_splits)
qed simp

lemma anchor_hits_ge: "h \<in> set (anchor_hits a i s) \<Longrightarrow> i \<le> h"
proof (induction a i s rule: anchor_hits.induct)
  case (1 a i s)
  then show ?case by (subst (asm) (3) anchor_hits.simps) (fastforce split: if_splits option.splits)
qed

lemma forming_nonneg: "p \<in> set (forming anchors raw txt) \<Longrightarrow> 0 \<le> snd p"
  by (auto simp: forming_def dest!: anchor_hits_ge)

lemma safe_end_cases:
  "\<exists>m. safe_end r False raw fs = m \<and>
     (m = max 0 (int (length (sr_buffer r)) - sr_window r) \<or> (\<exists>f\<in>set fs. m = fd_start f \<and> max 0 (int (length (sr_buffer r)) - sr_window r) < fd_end f)
       \<or> (\<exists>p\<in>set (forming (sr_anchors r) raw (sr_buffer r)). m = snd p))
     \<and> m \<le> max 0 (int (length (sr_buffer r)) - sr_window r)
     \<and> (\<forall>f\<in>set fs. max 0 (int (length (sr_buffer r)) - sr_window r) < fd_end f \<longrightarrow> m \<le> fd_start f)
     \<and> (\<forall>p\<in>set (forming (sr_anchors r) raw (sr_buffer r)). m \<le> snd p)"
proof -
  define we where "we = max 0 (int (length (sr_buffer r)) - sr_window r)"
  define A where "A = map fd_start (filter (\<lambda>f. we < fd_end f) fs) @ map snd (forming (sr_anchors r) raw (sr_buffer r))"
  have "safe_end r False raw fs = foldl min we A"
    unfolding A_def foldl_append by (simp add: safe_end_def Let_def we_def)
  with foldl_min [of we A] show ?thesis
    unfolding we_def [symmetric] by (intro exI [of _ "safe_end r False raw fs"]) (auto simp: A_def)
qed

lemma in_order_apart:
  "in_order fs \<Longrightarrow> f \<noteq> g \<Longrightarrow> f \<in> set fs \<Longrightarrow> g \<in> set fs \<Longrightarrow> fd_end f \<le> fd_start g \<or> fd_end g \<le> fd_start f"
  by (induction fs) (auto simp: in_order_Cons)

text \<open>No finding straddles the boundary.\<close>

lemma safe_end_clear:
  assumes "fits (sr_buffer r) fs" and "f \<in> set fs"
    and "\<forall>p\<in>set (forming (sr_anchors r) raw (sr_buffer r)). \<not> (fd_start f < snd p \<and> snd p < fd_end f)"
  shows "fd_end f \<le> safe_end r False raw fs \<or> safe_end r False raw fs \<le> fd_start f"
proof -
  define we where "we = max 0 (int (length (sr_buffer r)) - sr_window r)"
  obtain m where m: "safe_end r False raw fs = m"
    and where_m: "m = we \<or> (\<exists>g\<in>set fs. m = fd_start g \<and> we < fd_end g) \<or> (\<exists>p\<in>set (forming (sr_anchors r) raw (sr_buffer r)). m = snd p)"
    and held: "\<forall>g\<in>set fs. we < fd_end g \<longrightarrow> m \<le> fd_start g"
    using safe_end_cases [of r raw fs] unfolding we_def by blast
  show ?thesis
  proof (cases "we < fd_end f")
    case True
    with held assms(2) m show ?thesis by blast
  next
    case False
    have order: "fd_end f \<le> fd_start g" if "g \<in> set fs" "we < fd_end g" for g
    proof -
      have "in_order fs" using assms(1) by (simp add: fits_def)
      moreover have "f \<noteq> g" using that False by auto
      ultimately have "fd_end f \<le> fd_start g \<or> fd_end g \<le> fd_start f" using assms(2) that(1) by (rule in_order_apart)
      moreover have "span_ok f" using assms(1,2) by (auto simp: fits_def in_order_def list_all_iff)
      ultimately show ?thesis using that(2) False by (auto simp: span_ok_def)
    qed
    from where_m show ?thesis
    proof (elim disjE bexE)
      assume "m = we"
      with False m show ?thesis by simp
    next
      fix g assume "g \<in> set fs" "m = fd_start g \<and> we < fd_end g"
      with order m show ?thesis by auto
    next
      fix p assume "p \<in> set (forming (sr_anchors r) raw (sr_buffer r))" "m = snd p"
      with assms(3) m show ?thesis by auto
    qed
  qed
qed


section \<open>The redactor emits what redacting the whole text gives\<close>

text \<open>A finding of the rest of a text, placed in the whole.\<close>

definition shift_finding :: "nat \<Rightarrow> Finding \<Rightarrow> Finding" where
  "shift_finding n f = f\<lparr>fd_start := int n + fd_start f, fd_end := int n + fd_end f\<rparr>"

lemma shift_finding_sel [simp]:
  "fd_start (shift_finding n f) = int n + fd_start f" "fd_end (shift_finding n f) = int n + fd_end f"
  "fd_category (shift_finding n f) = fd_category f"
  by (simp_all add: shift_finding_def)

text \<open>A detector decides within a window: text before a cut that leaves a window behind, splits no finding and passes no unfinished anchor is
  judged as it will be judged with anything after it, and the rest is judged on its own.\<close>

definition window_local :: "(string \<Rightarrow> Finding list) \<Rightarrow> GuardrailPolicy \<Rightarrow> long_anchor list \<Rightarrow> int \<Rightarrow> bool" where
  "window_local detect policy anchors w \<longleftrightarrow>
     (\<forall>x y n. int n \<le> int (length x) - w
        \<longrightarrow> (\<forall>f\<in>set (filterByPolicy (detect x) policy). fd_end f \<le> int n \<or> int n \<le> fd_start f)
        \<longrightarrow> (\<forall>p\<in>set (forming anchors (detect x) x). int n \<le> snd p)
        \<longrightarrow> filterByPolicy (detect (x @ y)) policy =
              filter (\<lambda>f. fd_end f \<le> int n) (filterByPolicy (detect x) policy)
              @ map (shift_finding n) (filterByPolicy (detect (drop n x @ y)) policy))"

lemma replaced_shift:
  assumes "\<And>f. rep (shift_finding (length u) f) = rep f"
  shows "(\<forall>f\<in>set B. 0 \<le> fd_start f \<and> 0 \<le> fd_end f) \<Longrightarrow>
    replaced rep (u @ v) (length u + j) (map (shift_finding (length u)) B) = replaced rep v j B"
proof (induction B arbitrary: j)
  case (Cons f B)
  have "nat (int (length u) + fd_end f) = length u + nat (fd_end f)" "nat (int (length u) + fd_start f) = length u + nat (fd_start f)"
    using Cons.prems by auto
  with Cons assms show ?case by simp
qed simp

lemma replaced_split:
  assumes rep: "\<And>f. rep (shift_finding (length u) f) = rep f" and B: "fits v B"
  shows "fits u A \<Longrightarrow> i \<le> length u \<Longrightarrow> (\<forall>f\<in>set A. int i \<le> fd_start f) \<Longrightarrow>
    replaced rep (u @ v) i (A @ map (shift_finding (length u)) B) = replaced rep u i A @ replaced rep v 0 B"
proof (induction A arbitrary: i)
  case Nil
  have pos: "\<forall>f\<in>set B. 0 \<le> fd_start f \<and> 0 \<le> fd_end f"
    using B by (fastforce simp: fits_def in_order_def list_all_iff span_ok_def)
  show ?case
  proof (cases B)
    case Nil
    with \<open>i \<le> length u\<close> show ?thesis by simp
  next
    case (Cons f fs)
    then have "nat (int (length u) + fd_end f) = length u + nat (fd_end f)" "nat (int (length u) + fd_start f) = length u + nat (fd_start f)"
      using pos by auto
    moreover have "replaced rep (u @ v) (length u + nat (fd_end f)) (map (shift_finding (length u)) fs) = replaced rep v (nat (fd_end f)) fs"
      using pos Cons by (intro replaced_shift rep) simp
    ultimately show ?thesis using Cons rep \<open>i \<le> length u\<close> by simp
  qed
next
  case (Cons f A)
  note f = fits_Cons [OF Cons.prems(1)]
  have "\<forall>g\<in>set A. int (nat (fd_end f)) \<le> fd_start g" "nat (fd_end f) \<le> length u" "nat (fd_start f) \<le> length u"
    using f Cons.prems(1) by (auto simp: span_ok_def fits_def in_order_Cons)
  with Cons.IH f show ?case by simp
qed

lemma redactText_split:
  assumes "fits u A" and "fits v B"
  shows "redactText (u @ v) (A @ map (shift_finding (length u)) B) = redactText u A @ redactText v B"
proof -
  let ?rep = "\<lambda>f. ''<<REDACTED_'' @ tokenCategory (fd_category f) @ ''>>''"
  have pos: "\<forall>f\<in>set A. int 0 \<le> fd_start f" using assms(1) by (auto simp: fits_def list_all_iff)
  have "fits (u @ v) (A @ map (shift_finding (length u)) B)"
    using assms by (fastforce simp: fits_def in_order_def list_all_iff span_ok_def sorted_wrt_append sorted_wrt_map)
  then show ?thesis
    using replaced_split [where rep = ?rep and u = u, OF _ assms(2,1) _ pos]
    by (simp add: redactText_replaced assms)
qed

lemma fits_sub:
  assumes "fits x fs" and "n \<le> length x"
  shows "fits (take n x) (filter (\<lambda>f. fd_end f \<le> int n) fs)"
  using assms by (auto simp: fits_def in_order_def list_all_iff sorted_wrt_filter)

text \<open>A push of a redacting stream: the text that leaves is redacted by the findings before the boundary, the rest stays.\<close>

definition redacting :: "StreamingRedactor \<Rightarrow> bool" where
  "redacting r \<longleftrightarrow> gp_action (sr_policy r) = ActRedact \<and> sr_vault r = None \<and> \<not> sr_blocked r \<and> 0 \<le> sr_window r"

lemma redactor_process_redacts:
  assumes r: "redacting r" and fs: "fs = filterByPolicy (detect (sr_buffer r)) (sr_policy r)"
    and n: "n = (if final then length (sr_buffer r) else nat (safe_end r False (detect (sr_buffer r)) fs))" and le: "n \<le> length (sr_buffer r)"
    and pos: "0 \<le> safe_end r False (detect (sr_buffer r)) fs"
  shows "\<exists>r'. redactor_process hmac detect final r = (redactText (take n (sr_buffer r)) (filter (\<lambda>f. fd_end f \<le> int n) fs), r')
    \<and> redacting r' \<and> sr_buffer r' = drop n (sr_buffer r) \<and> sr_policy r' = sr_policy r \<and> sr_anchors r' = sr_anchors r
    \<and> sr_window r' = sr_window r \<and> sr_maxBuffer r' = sr_maxBuffer r
    \<and> (sr_failClosed r' \<longleftrightarrow> sr_failClosed r \<or> \<not> final \<and> sr_maxBuffer r < int (length (sr_buffer r) - n))"
proof -
  let ?r = "r\<lparr>sr_seen := record_findings (sr_base r) fs (sr_seen r)\<rparr>"
  have se: "safe_end ?r final (detect (sr_buffer r)) fs = int n"
    using n pos by (simp add: safe_end_def Let_def)
  show ?thesis
    using r le unfolding redactor_process_def
    by (simp add: Let_def se redacting_def flip: fs)
qed

text \<open>The state of a redactor over its detector: what the detector's laws are read at.\<close>

definition lawful_detector :: "(string \<Rightarrow> Finding list) \<Rightarrow> StreamingRedactor \<Rightarrow> bool" where
  "lawful_detector detect r \<longleftrightarrow>
     well_formed_detector detect (sr_policy r) (sr_anchors r) \<and> window_local detect (sr_policy r) (sr_anchors r) (sr_window r)"

lemma safe_end_bounds:
  assumes "0 \<le> sr_window r" and "fits (sr_buffer r) fs"
  shows "0 \<le> safe_end r False raw fs \<and> safe_end r False raw fs \<le> max 0 (int (length (sr_buffer r)) - sr_window r)"
proof -
  have "\<forall>f\<in>set fs. 0 \<le> fd_start f" using assms(2) by (auto simp: fits_def list_all_iff)
  then show ?thesis using safe_end_cases [of r raw fs] forming_nonneg [of _ "sr_anchors r" raw "sr_buffer r"] by fastforce
qed

text \<open>The boundary of a push splits the findings of the text so far, whatever follows.\<close>

lemma boundary_splits:
  assumes law: "lawful_detector detect r" and w: "0 \<le> sr_window r" and x: "x = sr_buffer r"
    and F: "F = (\<lambda>t. filterByPolicy (detect t) (sr_policy r))" and n: "n = nat (safe_end r False (detect x) (F x))"
  shows "0 \<le> safe_end r False (detect x) (F x)" and "n \<le> length x"
    and "\<And>rest. F (x @ rest) = filter (\<lambda>f. fd_end f \<le> int n) (F x) @ map (shift_finding n) (F (drop n x @ rest))"
proof -
  have fits: "fits t (F t)" for t
    using law unfolding lawful_detector_def well_formed_detector_def F by blast
  show pos: "0 \<le> safe_end r False (detect x) (F x)" and nx: "n \<le> length x"
    using safe_end_bounds [of r "F x" "detect x"] w fits [of x] unfolding n x by auto
  have le: "int n \<le> max 0 (int (length x) - sr_window r)"
    using safe_end_bounds [of r "F x" "detect x"] w fits [of x] unfolding n x by auto
  have clear: "fd_end f \<le> int n \<or> int n \<le> fd_start f" if "f \<in> set (F x)" for f
    using safe_end_clear [of r "F x" f "detect x"] fits [of x] that law pos
    unfolding lawful_detector_def well_formed_detector_def n x F by fastforce
  have ahead: "int n \<le> snd p" if "p \<in> set (forming (sr_anchors r) (detect x) x)" for p
    using safe_end_cases [of r "detect x" "F x"] that pos unfolding n x by auto
  show "F (x @ rest) = filter (\<lambda>f. fd_end f \<le> int n) (F x) @ map (shift_finding n) (F (drop n x @ rest))" for rest
  proof (cases "n = 0")
    case True
    have "filter (\<lambda>f. fd_end f \<le> 0) (F x) = []"
      using fits [of x] by (fastforce simp: fits_def in_order_def list_all_iff span_ok_def filter_empty_conv)
    moreover have "map (shift_finding 0) fs = fs" for fs by (induction fs) (simp_all add: shift_finding_def)
    ultimately show ?thesis using True by simp
  next
    case False
    then have "int n \<le> int (length x) - sr_window r" using le by simp
    moreover have "window_local detect (sr_policy r) (sr_anchors r) (sr_window r)" using law by (simp add: lawful_detector_def)
    ultimately show ?thesis using clear ahead unfolding window_local_def F by blast
  qed
qed

lemma redactor_push_splits:
  assumes r: "redacting r" and law: "lawful_detector detect r" and live: "\<not> sr_failClosed r"
  shows "\<exists>out r'. redactor_push hmac detect r c = (out, r') \<and> redacting r' \<and> lawful_detector detect r'
    \<and> sr_policy r' = sr_policy r
    \<and> (\<forall>rest. redactText (sr_buffer r @ c @ rest) (filterByPolicy (detect (sr_buffer r @ c @ rest)) (sr_policy r)) =
         out @ redactText (sr_buffer r' @ rest) (filterByPolicy (detect (sr_buffer r' @ rest)) (sr_policy r)))"
proof -
  define x where "x = sr_buffer r @ c"
  let ?r = "r\<lparr>sr_buffer := x\<rparr>"
  let ?F = "\<lambda>t. filterByPolicy (detect t) (sr_policy r)"
  define n where "n = nat (safe_end ?r False (detect x) (?F x))"
  have fits: "fits t (?F t)" for t
    using law unfolding lawful_detector_def well_formed_detector_def by blast
  have bound: "0 \<le> safe_end ?r False (detect x) (?F x)" "n \<le> length x"
    "\<And>rest. ?F (x @ rest) = filter (\<lambda>f. fd_end f \<le> int n) (?F x) @ map (shift_finding n) (?F (drop n x @ rest))"
    using boundary_splits [of detect ?r x ?F n] law r by (simp_all add: lawful_detector_def redacting_def n_def)
  obtain r' where r': "redactor_process hmac detect False ?r = (redactText (take n x) (filter (\<lambda>f. fd_end f \<le> int n) (?F x)), r')"
    "redacting r'" "sr_buffer r' = drop n x" "sr_policy r' = sr_policy r" "sr_anchors r' = sr_anchors r" "sr_window r' = sr_window r"
    using redactor_process_redacts [of ?r "?F x" detect n False hmac] r bound(1,2) live by (auto simp: redacting_def n_def)
  have "redactText (x @ rest) (?F (x @ rest)) =
      redactText (take n x) (filter (\<lambda>f. fd_end f \<le> int n) (?F x)) @ redactText (drop n x @ rest) (?F (drop n x @ rest))" for rest
    using redactText_split [OF fits_sub [OF fits bound(2)] fits, of "drop n x @ rest"] bound(2,3)
    by (simp add: min_absorb2 flip: append_assoc)
  then show ?thesis
    using r' r live law by (auto simp: redactor_push_def redactor_terminal_def redacting_def lawful_detector_def simp flip: x_def append_assoc)
qed

lemma failed_stays:
  "sr_failClosed r \<Longrightarrow> redactor_run hmac detect r cs = ([], r)"
  by (induction cs) (simp_all add: redactor_push_def redactor_terminal_def)

lemma redactor_flush_rest:
  assumes "redacting r" and "lawful_detector detect r" and "\<not> sr_failClosed r"
  shows "fst (redactor_flush hmac detect r) = redactText (sr_buffer r) (filterByPolicy (detect (sr_buffer r)) (sr_policy r))"
proof -
  let ?fs = "filterByPolicy (detect (sr_buffer r)) (sr_policy r)"
  have fits: "fits (sr_buffer r) ?fs"
    using assms(2) unfolding lawful_detector_def well_formed_detector_def by blast
  then have all: "filter (\<lambda>f. fd_end f \<le> int (length (sr_buffer r))) ?fs = ?fs" by (auto simp: fits_def list_all_iff)
  have "0 \<le> safe_end r False (detect (sr_buffer r)) ?fs" using safe_end_bounds [OF _ fits] assms(1) by (auto simp: redacting_def)
  with redactor_process_redacts [OF assms(1) refl, of "length (sr_buffer r)" True detect hmac] assms all
  show ?thesis by (auto simp: redactor_flush_def redactor_terminal_def redacting_def)
qed

lemma redactor_run_redacts:
  assumes "redacting r" and "lawful_detector detect r" and "\<not> sr_failClosed r"
    and "redactor_run hmac detect r cs = (out, r')" and "\<not> sr_failClosed r'"
  shows "out @ fst (redactor_flush hmac detect r') =
    redactText (sr_buffer r @ concat cs) (filterByPolicy (detect (sr_buffer r @ concat cs)) (sr_policy r))"
  using assms
proof (induction cs arbitrary: r out)
  case Nil
  then show ?case by (simp add: redactor_flush_rest)
next
  case (Cons c cs)
  obtain o1 r1 where push: "redactor_push hmac detect r c = (o1, r1)" "redacting r1" "lawful_detector detect r1" "sr_policy r1 = sr_policy r"
    and split: "\<And>rest. redactText (sr_buffer r @ c @ rest) (filterByPolicy (detect (sr_buffer r @ c @ rest)) (sr_policy r)) =
         o1 @ redactText (sr_buffer r1 @ rest) (filterByPolicy (detect (sr_buffer r1 @ rest)) (sr_policy r))"
    using redactor_push_splits [OF Cons.prems(1,2,3), of hmac c] by blast
  obtain o2 where run: "redactor_run hmac detect r1 cs = (o2, r')" "out = o1 @ o2"
    using Cons.prems(4) push(1) by (auto split: prod.splits)
  have "\<not> sr_failClosed r1" using failed_stays [of r1 hmac detect cs] run(1) Cons.prems(5) by auto
  with Cons.IH [OF push(2,3) _ run(1) Cons.prems(5)] split [of "concat cs"] push(4) run(2) show ?case by simp
qed


section \<open>A blocking stream stops at the first finding\<close>

definition blocking :: "StreamingRedactor \<Rightarrow> bool" where
  "blocking r \<longleftrightarrow> gp_action (sr_policy r) = ActBlock \<and> 0 \<le> sr_window r"

text \<open>The text before its first finding, and whether it has one.\<close>

definition clean_part :: "string \<Rightarrow> Finding list \<Rightarrow> string \<times> bool" where
  "clean_part txt fs = (case fs of [] \<Rightarrow> (txt, False) | f # _ \<Rightarrow> (text_slice txt 0 (fd_start f), True))"

lemma find_by_filter: "find P xs = (case filter P xs of [] \<Rightarrow> None | y # _ \<Rightarrow> Some y)"
  by (induction xs) auto

lemma redactor_process_blocks:
  assumes r: "blocking r" and fs: "fs = filterByPolicy (detect (sr_buffer r)) (sr_policy r)"
    and n: "n = (if final then length (sr_buffer r) else nat (safe_end r False (detect (sr_buffer r)) fs))"
    and pos: "0 \<le> safe_end r False (detect (sr_buffer r)) fs"
  shows "\<exists>r'. redactor_process hmac detect final r =
      (fst (clean_part (if filter (\<lambda>f. fd_end f \<le> int n) fs = [] then take n (sr_buffer r) else sr_buffer r) (filter (\<lambda>f. fd_end f \<le> int n) fs)), r')
    \<and> blocking r' \<and> sr_policy r' = sr_policy r \<and> sr_anchors r' = sr_anchors r \<and> sr_window r' = sr_window r
    \<and> (sr_blocked r' \<longleftrightarrow> sr_blocked r \<or> filter (\<lambda>f. fd_end f \<le> int n) fs \<noteq> [])
    \<and> (filter (\<lambda>f. fd_end f \<le> int n) fs = [] \<longrightarrow> sr_buffer r' = drop n (sr_buffer r))"
proof -
  let ?r = "r\<lparr>sr_seen := record_findings (sr_base r) fs (sr_seen r)\<rparr>"
  have se: "safe_end ?r final (detect (sr_buffer r)) fs = int n"
    using n pos by (simp add: safe_end_def Let_def)
  show ?thesis
    using r unfolding redactor_process_def
    by (simp add: Let_def se blocking_def find_by_filter clean_part_def flip: fs split: list.split)
qed

lemma redactor_push_blocks:
  assumes r: "blocking r" and law: "lawful_detector detect r" and live: "\<not> redactor_terminal r"
  shows "\<exists>out r'. redactor_push hmac detect r c = (out, r') \<and> blocking r' \<and> lawful_detector detect r' \<and> sr_policy r' = sr_policy r
    \<and> (\<forall>rest. clean_part (sr_buffer r @ c @ rest) (filterByPolicy (detect (sr_buffer r @ c @ rest)) (sr_policy r)) =
         (if sr_blocked r' then (out, True)
          else apfst (append out) (clean_part (sr_buffer r' @ rest) (filterByPolicy (detect (sr_buffer r' @ rest)) (sr_policy r)))))"
proof -
  define x where "x = sr_buffer r @ c"
  let ?r = "r\<lparr>sr_buffer := x\<rparr>"
  let ?F = "\<lambda>t. filterByPolicy (detect t) (sr_policy r)"
  define n where "n = nat (safe_end ?r False (detect x) (?F x))"
  let ?A = "filter (\<lambda>f. fd_end f \<le> int n) (?F x)"
  have fits: "fits t (?F t)" for t
    using law unfolding lawful_detector_def well_formed_detector_def by blast
  have bound: "0 \<le> safe_end ?r False (detect x) (?F x)" "n \<le> length x"
    "\<And>rest. ?F (x @ rest) = ?A @ map (shift_finding n) (?F (drop n x @ rest))"
    using boundary_splits [of detect ?r x ?F n] law r by (simp_all add: lawful_detector_def blocking_def n_def)
  obtain r' where r': "redactor_process hmac detect False ?r = (fst (clean_part (if ?A = [] then take n x else x) ?A), r')"
    "blocking r'" "sr_policy r' = sr_policy r" "sr_anchors r' = sr_anchors r" "sr_window r' = sr_window r"
    "sr_blocked r' \<longleftrightarrow> ?A \<noteq> []" "?A = [] \<longrightarrow> sr_buffer r' = drop n x"
    using redactor_process_blocks [of ?r "?F x" detect n False hmac] r bound(1) live by (auto simp: blocking_def n_def redactor_terminal_def)
  have "clean_part (x @ rest) (?F (x @ rest)) =
      (if sr_blocked r' then (fst (clean_part (if ?A = [] then take n x else x) ?A), True)
       else apfst (append (fst (clean_part (if ?A = [] then take n x else x) ?A))) (clean_part (drop n x @ rest) (?F (drop n x @ rest))))" for rest
  proof (cases ?A)
    case Nil
    have "0 \<le> fd_start f" if "f \<in> set (?F (drop n x @ rest))" for f
      using fits [of "drop n x @ rest"] that by (auto simp: fits_def list_all_iff)
    with Nil r'(6) bound(2,3) show ?thesis
      by (cases "?F (drop n x @ rest)") (auto simp: clean_part_def text_slice_def nat_add_distrib take_add add.commute)
  next
    case (Cons f A)
    then have "f \<in> set ?A" by simp
    then have "f \<in> set (?F x)" by simp
    then have "0 \<le> fd_start f" "fd_start f \<le> int (length x)"
      using fits [of x] by (fastforce simp: fits_def in_order_def list_all_iff span_ok_def)+
    with Cons r'(6) bound(3) show ?thesis by (simp add: clean_part_def text_slice_def)
  qed
  then show ?thesis
    using r' r live law by (auto simp: redactor_push_def redactor_terminal_def lawful_detector_def simp flip: x_def append_assoc)
qed

lemma terminal_stays: "redactor_terminal r \<Longrightarrow> redactor_run hmac detect r cs = ([], r)"
  by (induction cs) (simp_all add: redactor_push_def)

lemma redactor_flush_blocks:
  assumes "blocking r" and "lawful_detector detect r" and "\<not> redactor_terminal r"
  shows "(fst (redactor_flush hmac detect r), sr_blocked (snd (redactor_flush hmac detect r))) =
    clean_part (sr_buffer r) (filterByPolicy (detect (sr_buffer r)) (sr_policy r))"
proof -
  let ?fs = "filterByPolicy (detect (sr_buffer r)) (sr_policy r)"
  have fits: "fits (sr_buffer r) ?fs"
    using assms(2) unfolding lawful_detector_def well_formed_detector_def by blast
  then have all: "filter (\<lambda>f. fd_end f \<le> int (length (sr_buffer r))) ?fs = ?fs" by (auto simp: fits_def list_all_iff)
  have "0 \<le> safe_end r False (detect (sr_buffer r)) ?fs" using safe_end_bounds [OF _ fits] assms(1) by (auto simp: blocking_def)
  with redactor_process_blocks [OF assms(1) refl, of "length (sr_buffer r)" True detect hmac] assms all
  show ?thesis by (auto simp: redactor_flush_def redactor_terminal_def clean_part_def split: list.splits)
qed

lemma redactor_run_blocks:
  assumes "blocking r" and "lawful_detector detect r" and "\<not> redactor_terminal r"
    and "redactor_run hmac detect r cs = (out, r')" and "\<not> sr_failClosed r' \<or> sr_blocked r'"
  shows "(out @ fst (redactor_flush hmac detect r'), sr_blocked (snd (redactor_flush hmac detect r'))) =
    clean_part (sr_buffer r @ concat cs) (filterByPolicy (detect (sr_buffer r @ concat cs)) (sr_policy r))"
  using assms
proof (induction cs arbitrary: r out)
  case Nil
  then show ?case using redactor_flush_blocks by simp
next
  case (Cons c cs)
  obtain o1 r1 where push: "redactor_push hmac detect r c = (o1, r1)" "blocking r1" "lawful_detector detect r1" "sr_policy r1 = sr_policy r"
    and split: "\<And>rest. clean_part (sr_buffer r @ c @ rest) (filterByPolicy (detect (sr_buffer r @ c @ rest)) (sr_policy r)) =
         (if sr_blocked r1 then (o1, True)
          else apfst (append o1) (clean_part (sr_buffer r1 @ rest) (filterByPolicy (detect (sr_buffer r1 @ rest)) (sr_policy r))))"
    using redactor_push_blocks [OF Cons.prems(1,2,3), of hmac c] by blast
  obtain o2 where run: "redactor_run hmac detect r1 cs = (o2, r')" "out = o1 @ o2"
    using Cons.prems(4) push(1) by (auto split: prod.splits)
  show ?case
  proof (cases "redactor_terminal r1")
    case True
    then have "o2 = []" "r' = r1" using terminal_stays [of r1 hmac detect cs] run(1) by auto
    with True Cons.prems(5) split [of "concat cs"] run(2) show ?thesis by (auto simp: redactor_terminal_def redactor_flush_def)
  next
    case False
    then have "\<not> sr_blocked r1" by (simp add: redactor_terminal_def)
    moreover have "clean_part (sr_buffer r1 @ concat cs) (filterByPolicy (detect (sr_buffer r1 @ concat cs)) (sr_policy r)) =
        (o2 @ fst (redactor_flush hmac detect r'), sr_blocked (snd (redactor_flush hmac detect r')))"
      using Cons.IH [OF push(2,3) False run(1) Cons.prems(5)] push(4) by simp
    ultimately show ?thesis using split [of "concat cs"] run(2) by simp
  qed
qed

text \<open>
  A blocking stream stops exactly at the first finding. Under the same law of the detector, and however the text is cut into chunks, a stream that did not
  fail closed is blocked exactly if the whole text has an enforceable finding, and what left it is the text before the first one, or all of it.\<close>

theorem block_stops_at_first_finding:
  assumes "gp_action policy = ActBlock" and "new_redactor policy windowChars vaultKey nonce = Some r"
    and "lawful_detector detect r"
    and "redactor_run hmac detect r chunks = (out, r')" and "\<not> sr_failClosed r' \<or> sr_blocked r'"
  shows "(out @ fst (redactor_flush hmac detect r'), sr_blocked (snd (redactor_flush hmac detect r'))) =
    clean_part (concat chunks) (filterByPolicy (detect (concat chunks)) policy)"
proof -
  have "blocking r" "\<not> redactor_terminal r" "sr_buffer r = []" "sr_policy r = policy"
    using assms(1,2) by (auto simp: new_redactor_def blocking_def redactor_terminal_def Let_def)
  with redactor_run_blocks [OF _ assms(3) _ assms(4,5)] show ?thesis by simp
qed

section \<open>What any stream releases\<close>

text \<open>Pieces of text with the findings enforced on them, masked by a vault where there is one and redacted otherwise.\<close>

fun enforce_all :: "hmac_hex \<Rightarrow> TokenVault option \<Rightarrow> (string \<times> Finding list) list \<Rightarrow> string \<times> TokenVault option" where
  "enforce_all hmac vault [] = ([], vault)"
| "enforce_all hmac None ((t, fs) # ps) = (let (out, vault) = enforce_all hmac None ps in (redactText t fs @ out, vault))"
| "enforce_all hmac (Some v) ((t, fs) # ps) =
     (let (o1, v') = tokenize_text hmac v t fs; (out, vault) = enforce_all hmac (Some v') ps in (o1 @ out, vault))"

text \<open>
  How a piece \<open>t\<close> of text may leave: it was scanned together with the text \<open>rest\<close> after it, which stays behind and is a window at least; the findings enforced on it are
  all those of the scan that end in it; no unfinished anchor begins in it; and no finding of the scan reaches out of it, unless an unfinished anchor lies strictly inside the finding.
\<close>

definition released_safely :: "(string \<Rightarrow> Finding list) \<Rightarrow> GuardrailPolicy \<Rightarrow> long_anchor list \<Rightarrow> int \<Rightarrow> string \<Rightarrow> Finding list \<Rightarrow> string \<Rightarrow> bool" where
  "released_safely detect policy anchors w t fs rest \<longleftrightarrow>
     (let raw = detect (t @ rest); findings = filterByPolicy raw policy; n = int (length t) in
      fs = filter (\<lambda>f. fd_end f \<le> n) findings \<and> (t = [] \<or> w \<le> int (length rest)) \<and>
      (\<forall>(a, i)\<in>set (forming anchors raw (t @ rest)). n \<le> i) \<and>
      (\<forall>f\<in>set findings. fd_end f \<le> n \<or> n \<le> fd_start f \<or> (\<exists>(a, i)\<in>set (forming anchors raw (t @ rest)). fd_start f < i \<and> i < fd_end f)))"

abbreviation enforcing :: "StreamingRedactor \<Rightarrow> bool" where
  "enforcing r \<equiv> gp_action (sr_policy r) \<noteq> ActBlock \<and> \<not> sr_blocked r \<and> 0 \<le> sr_window r"

lemma redactor_process_enforces:
  assumes r: "enforcing r" and fs: "fs = filterByPolicy (detect (sr_buffer r)) (sr_policy r)"
    and n: "n = (if final then length (sr_buffer r) else nat (safe_end r False (detect (sr_buffer r)) fs))"
    and pos: "0 \<le> safe_end r False (detect (sr_buffer r)) fs"
  shows "\<exists>r'. redactor_process hmac detect final r = (fst (enforce_all hmac (sr_vault r) [(take n (sr_buffer r), filter (\<lambda>f. fd_end f \<le> int n) fs)]), r')
    \<and> enforcing r' \<and> sr_buffer r' = drop n (sr_buffer r) \<and> sr_policy r' = sr_policy r \<and> sr_anchors r' = sr_anchors r \<and> sr_window r' = sr_window r
    \<and> sr_vault r' = snd (enforce_all hmac (sr_vault r) [(take n (sr_buffer r), filter (\<lambda>f. fd_end f \<le> int n) fs)])"
proof -
  let ?r = "r\<lparr>sr_seen := record_findings (sr_base r) fs (sr_seen r)\<rparr>"
  have se: "safe_end ?r final (detect (sr_buffer r)) fs = int n"
    using n pos by (simp add: safe_end_def Let_def)
  show ?thesis
    using r unfolding redactor_process_def
    by (cases "sr_vault r") (simp_all add: Let_def se split_beta flip: fs)
qed

lemma push_releases:
  assumes r: "enforcing r" and live: "\<not> sr_failClosed r"
    and fits: "\<And>t. fits t (filterByPolicy (detect t) (sr_policy r))"
  shows "\<exists>t fs rest r'. redactor_push hmac detect r c = (fst (enforce_all hmac (sr_vault r) [(t, fs)]), r') \<and> sr_buffer r @ c = t @ rest \<and> sr_buffer r' = rest
    \<and> enforcing r' \<and> sr_policy r' = sr_policy r \<and> sr_anchors r' = sr_anchors r \<and> sr_window r' = sr_window r
    \<and> sr_vault r' = snd (enforce_all hmac (sr_vault r) [(t, fs)])
    \<and> released_safely detect (sr_policy r) (sr_anchors r) (sr_window r) t fs rest"
proof -
  define x where "x = sr_buffer r @ c"
  let ?r = "r\<lparr>sr_buffer := x\<rparr>" and ?F = "filterByPolicy (detect x) (sr_policy r)"
  define m where "m = safe_end ?r False (detect x) ?F"
  define n where "n = nat m"
  have b: "0 \<le> m" "m \<le> max 0 (int (length x) - sr_window r)"
    using safe_end_bounds [of ?r ?F "detect x"] r fits [of x] by (auto simp: m_def)
  then have nx: "n \<le> length x" "int n = m" using r by (auto simp: n_def)
  let ?t = "take n x" and ?fs = "filter (\<lambda>f. fd_end f \<le> int n) ?F"
  obtain r' where r': "redactor_process hmac detect False ?r = (fst (enforce_all hmac (sr_vault r) [(?t, ?fs)]), r')" "enforcing r'" "sr_buffer r' = drop n x"
      "sr_policy r' = sr_policy r" "sr_anchors r' = sr_anchors r" "sr_window r' = sr_window r" "sr_vault r' = snd (enforce_all hmac (sr_vault r) [(?t, ?fs)])"
    using redactor_process_enforces [of ?r ?F detect n False hmac] r b(1) by (auto simp: n_def m_def)
  have "redactor_push hmac detect r c = redactor_process hmac detect False ?r"
    using r live by (simp add: redactor_push_def redactor_terminal_def x_def)
  moreover have "released_safely detect (sr_policy r) (sr_anchors r) (sr_window r) ?t ?fs (drop n x)"
  proof -
    have "\<forall>p\<in>set (forming (sr_anchors r) (detect x) x). m \<le> snd p"
      using safe_end_cases [of ?r "detect x" ?F] by (auto simp: m_def)
    moreover have "fd_end f \<le> m \<or> m \<le> fd_start f \<or> (\<exists>p\<in>set (forming (sr_anchors r) (detect x) x). fd_start f < snd p \<and> snd p < fd_end f)"
      if "f \<in> set ?F" for f
      using safe_end_clear [of ?r ?F f "detect x"] fits [of x] that by (auto simp: m_def)
    moreover have "?t = [] \<or> sr_window r \<le> int (length (drop n x))" using b nx by auto
    ultimately show ?thesis using nx by (fastforce simp: released_safely_def Let_def min_absorb2)
  qed
  moreover have "sr_buffer r @ c = ?t @ drop n x" by (simp only: append_take_drop_id x_def)
  ultimately show ?thesis using r' by (intro exI [of _ ?t] exI [of _ ?fs] exI [of _ "drop n x"] exI [of _ r']) (simp del: enforce_all.simps)
qed

lemma enforce_all_Cons:
  "enforce_all hmac vault (p # ps) =
     (fst (enforce_all hmac vault [p]) @ fst (enforce_all hmac (snd (enforce_all hmac vault [p])) ps), snd (enforce_all hmac (snd (enforce_all hmac vault [p])) ps))"
  by (cases vault; cases p) (simp_all add: split_beta)

definition pieces_safe :: "(string \<Rightarrow> Finding list) \<Rightarrow> GuardrailPolicy \<Rightarrow> long_anchor list \<Rightarrow> int \<Rightarrow> string \<Rightarrow> (string \<times> Finding list \<times> string) list \<Rightarrow> bool" where
  "pieces_safe detect policy anchors w txt ps \<longleftrightarrow>
     (\<forall>k<length ps. case ps ! k of (t, fs, rest) \<Rightarrow>
        released_safely detect policy anchors w t fs rest \<and> starts_with txt (concat (map fst (take k ps)) @ t @ rest))"

lemma pieces_safe_Cons:
  assumes "released_safely detect policy anchors w t fs rest" and "starts_with (t @ txt) (t @ rest)" and "pieces_safe detect policy anchors w txt ps"
  shows "pieces_safe detect policy anchors w (t @ txt) ((t, fs, rest) # ps)"
  unfolding pieces_safe_def
proof (intro allI impI)
  fix k assume k: "k < length ((t, fs, rest) # ps)"
  show "case ((t, fs, rest) # ps) ! k of (u, gs, v) \<Rightarrow>
      released_safely detect policy anchors w u gs v \<and> starts_with (t @ txt) (concat (map fst (take k ((t, fs, rest) # ps))) @ u @ v)"
  proof (cases k)
    case 0
    then show ?thesis using assms(1,2) by simp
  next
    case (Suc j)
    then show ?thesis using assms(3) k by (auto simp: pieces_safe_def)
  qed
qed

lemma run_releases:
  assumes "enforcing r" and "\<not> sr_failClosed r" and "\<And>t. fits t (filterByPolicy (detect t) (sr_policy r))"
    and "redactor_run hmac detect r chunks = (out, r')"
  shows "\<exists>ps m. m \<le> length chunks \<and> (\<not> sr_failClosed r' \<longrightarrow> m = length chunks)
    \<and> (out, sr_vault r') = enforce_all hmac (sr_vault r) (map (\<lambda>(t, fs, rest). (t, fs)) ps)
    \<and> concat (map fst ps) @ sr_buffer r' = sr_buffer r @ concat (take m chunks)
    \<and> enforcing r' \<and> sr_policy r' = sr_policy r
    \<and> pieces_safe detect (sr_policy r) (sr_anchors r) (sr_window r) (sr_buffer r @ concat (take m chunks)) ps"
  using assms
proof (induction chunks arbitrary: r out)
  case Nil
  then show ?case by (intro exI [of _ "[]"] exI [of _ 0]) (simp add: pieces_safe_def)
next
  case (Cons c cs)
  obtain t fs rest r1 where push: "redactor_push hmac detect r c = (fst (enforce_all hmac (sr_vault r) [(t, fs)]), r1)" "sr_buffer r @ c = t @ rest" "sr_buffer r1 = rest"
      "enforcing r1" "sr_policy r1 = sr_policy r" "sr_anchors r1 = sr_anchors r" "sr_window r1 = sr_window r"
      "sr_vault r1 = snd (enforce_all hmac (sr_vault r) [(t, fs)])" "released_safely detect (sr_policy r) (sr_anchors r) (sr_window r) t fs rest"
    using push_releases [OF Cons.prems(1,2,3), of hmac c] by blast
  obtain o2 where run: "redactor_run hmac detect r1 cs = (o2, r')" "out = fst (enforce_all hmac (sr_vault r) [(t, fs)]) @ o2"
    using Cons.prems(4) push(1) by (auto simp del: enforce_all.simps split: prod.splits)
  show ?case
  proof (cases "sr_failClosed r1")
    case True
    then have "o2 = []" "r' = r1" using failed_stays [OF True, of hmac detect cs] run(1) by auto
    moreover have "pieces_safe detect (sr_policy r) (sr_anchors r) (sr_window r) (t @ rest) [(t, fs, rest)]"
      using push(9) by (auto simp: pieces_safe_def)
    ultimately show ?thesis
      using True push run(2) by (intro exI [of _ "[(t, fs, rest)]"] exI [of _ 1]) (simp add: prod_eq_iff)
  next
    case False
    obtain ps m where ps: "m \<le> length cs" "\<not> sr_failClosed r' \<longrightarrow> m = length cs" "(o2, sr_vault r') = enforce_all hmac (sr_vault r1) (map (\<lambda>(t, fs, rest). (t, fs)) ps)"
        "concat (map fst ps) @ sr_buffer r' = rest @ concat (take m cs)" "enforcing r'" "sr_policy r' = sr_policy r"
        "pieces_safe detect (sr_policy r) (sr_anchors r) (sr_window r) (rest @ concat (take m cs)) ps"
      using Cons.IH [OF push(4) False _ run(1), unfolded push(3,5,6,7), OF Cons.prems(3)] by blast
    have all: "sr_buffer r @ concat (take (Suc m) (c # cs)) = t @ rest @ concat (take m cs)" using push(2) by (simp flip: append_assoc)
    have "pieces_safe detect (sr_policy r) (sr_anchors r) (sr_window r) (t @ rest @ concat (take m cs)) ((t, fs, rest) # ps)"
      by (rule pieces_safe_Cons [OF push(9) _ ps(7)]) simp
    moreover have "(out, sr_vault r') = enforce_all hmac (sr_vault r) (map (\<lambda>(t, fs, rest). (t, fs)) ((t, fs, rest) # ps))"
      using ps(3) push(8) run(2) enforce_all_Cons [of hmac "sr_vault r" "(t, fs)" "map (\<lambda>(t, fs, rest). (t, fs)) ps"] by (simp add: prod_eq_iff del: enforce_all.simps)
    ultimately show ?thesis
      using ps unfolding all [symmetric] by (intro exI [of _ "(t, fs, rest) # ps"] exI [of _ "Suc m"]) (simp add: push(2) [symmetric] del: enforce_all.simps)
  qed
qed

text \<open>
  C0. Text leaves a redacting or masking stream only once it has been scanned with the window after it, for whatever detector whose findings lie in order within the text.
  What left is the input up to the buffer, cut into pieces; every finding of a piece's scan that ends in the piece was enforced on it; at least a window of input
  stayed behind it; no key or token still forming at an anchor begins in it; and a finding of the scan is cut by its end only where such an anchor lies
  strictly inside the finding. A stream that did not fail closed has taken every chunk, and its flush enforces all findings of what is left; one that did emits nothing more.\<close>

theorem redactor_releases_scanned:
  assumes "gp_action policy \<noteq> ActBlock" and "new_redactor policy windowChars vaultKey nonce = Some r"
    and "\<And>t. fits t (filterByPolicy (detect t) policy)"
    and "redactor_run hmac detect r chunks = (out, r')"
  shows "\<exists>ps m. m \<le> length chunks \<and> (\<not> sr_failClosed r' \<longrightarrow> m = length chunks)
    \<and> concat (map fst ps) @ sr_buffer r' = concat (take m chunks)
    \<and> (out, sr_vault r') = enforce_all hmac (sr_vault r) (map (\<lambda>(t, fs, rest). (t, fs)) ps)
    \<and> pieces_safe detect policy (sr_anchors r) (sr_window r) (concat (take m chunks)) ps
    \<and> fst (redactor_flush hmac detect r') =
        (if sr_failClosed r' then []
         else fst (enforce_all hmac (sr_vault r') [(sr_buffer r', filterByPolicy (detect (sr_buffer r')) policy)]))"
proof -
  have r: "enforcing r" "\<not> sr_failClosed r" "sr_buffer r = []" "sr_policy r = policy"
    using assms(1,2) by (auto simp: new_redactor_def Let_def split: if_splits)
  obtain ps m where ps: "m \<le> length chunks" "\<not> sr_failClosed r' \<longrightarrow> m = length chunks"
      "(out, sr_vault r') = enforce_all hmac (sr_vault r) (map (\<lambda>(t, fs, rest). (t, fs)) ps)"
      "concat (map fst ps) @ sr_buffer r' = concat (take m chunks)" "enforcing r'" "sr_policy r' = policy"
      "pieces_safe detect policy (sr_anchors r) (sr_window r) (concat (take m chunks)) ps"
    using run_releases [OF r(1,2) _ assms(4), unfolded r(3,4) append_Nil, OF assms(3)] by blast
  let ?F = "filterByPolicy (detect (sr_buffer r')) policy"
  have "fst (redactor_flush hmac detect r') = fst (enforce_all hmac (sr_vault r') [(sr_buffer r', ?F)])" if "\<not> sr_failClosed r'"
  proof -
    have "filter (\<lambda>f. fd_end f \<le> int (length (sr_buffer r'))) ?F = ?F"
      using assms(3) [of "sr_buffer r'"] by (auto simp: fits_def list_all_iff)
    moreover have "0 \<le> safe_end r' False (detect (sr_buffer r')) ?F"
      using safe_end_bounds [OF _ assms(3) [of "sr_buffer r'"]] ps(5) by auto
    ultimately show ?thesis
      using redactor_process_enforces [OF ps(5) refl, of "length (sr_buffer r')" True detect hmac] that ps(5,6)
      by (auto simp: redactor_flush_def redactor_terminal_def)
  qed
  then show ?thesis
    using ps by (intro exI [of _ ps] exI [of _ m]) (auto simp: redactor_flush_def redactor_terminal_def simp del: enforce_all.simps)
qed

section \<open>A detector that decides within any window\<close>

text \<open>A detector of one character, which decides within any window.\<close>

fun marks_at :: "int \<Rightarrow> string \<Rightarrow> Finding list" where
  "marks_at i [] = []"
| "marks_at i (c # s) = (if c = CHR ''#'' then finding ''mark'' i (i + 1) 1 # marks_at (i + 1) s else marks_at (i + 1) s)"

definition marks_policy :: "GuardrailAction \<Rightarrow> GuardrailPolicy" where
  "marks_policy action = \<lparr>gp_action = action, gp_categories = Some [''mark''], gp_minConfidence = None\<rparr>"

lemma marks_enforced [simp]: "filterByPolicy (marks_at i s) (marks_policy action) = marks_at i s"
  by (induction s arbitrary: i) (simp_all add: filterByPolicy_def marks_policy_def finding_def)

lemma marks_append: "marks_at i (u @ v) = marks_at i u @ marks_at (i + int (length u)) v"
  by (induction u arbitrary: i) (simp_all add: algebra_simps)

lemma marks_shift: "marks_at (int n + i) s = map (shift_finding n) (marks_at i s)"
  by (induction s arbitrary: i) (simp_all add: finding_def shift_finding_def add.assoc)

lemma marks_range: "f \<in> set (marks_at i s) \<Longrightarrow> i \<le> fd_start f \<and> fd_end f = fd_start f + 1 \<and> fd_end f \<le> i + int (length s)"
  by (induction s arbitrary: i) (fastforce simp: finding_def split: if_splits)+

lemma marks_fit: "fits s (marks_at 0 s)"
proof -
  have "sorted_wrt (\<lambda>f g. fd_end f \<le> fd_start g) (marks_at i s)" for i
    by (induction s arbitrary: i) (auto simp: finding_def dest: marks_range)
  then show ?thesis by (auto simp: fits_def in_order_def list_all_iff span_ok_def dest: marks_range)
qed

lemma marks_before:
  assumes "n \<le> length x"
  shows "filter (\<lambda>f. fd_end f \<le> int n) (marks_at 0 x) = marks_at 0 (take n x)"
proof -
  have "marks_at 0 x = marks_at 0 (take n x) @ marks_at (int n) (drop n x)"
    using assms marks_append [of 0 "take n x" "drop n x"] by simp
  moreover have "\<forall>f\<in>set (marks_at 0 (take n x)). fd_end f \<le> int n"
    using assms marks_range [of _ 0 "take n x"] by fastforce
  moreover have "\<forall>f\<in>set (marks_at (int n) (drop n x)). \<not> fd_end f \<le> int n"
    using marks_range [of _ "int n" "drop n x"] by fastforce
  ultimately show ?thesis by (simp add: filter_id_conv filter_empty_conv)
qed

lemma marks_lawful:
  assumes "sr_policy r = marks_policy action" and "sr_anchors r = []" and "0 \<le> sr_window r"
  shows "lawful_detector (marks_at 0) r"
proof -
  have "marks_at 0 (x @ y) = filter (\<lambda>f. fd_end f \<le> int n) (marks_at 0 x) @ map (shift_finding n) (marks_at 0 (drop n x @ y))"
    if "n \<le> length x" for x y n
    using that marks_append [of 0 "take n x" "drop n x @ y"] marks_shift [of n 0] marks_before [OF that]
    by (simp add: min_absorb2 flip: append_assoc)
  then show ?thesis
    using assms by (simp add: lawful_detector_def well_formed_detector_def window_local_def marks_fit forming_def)
qed


theorem redactor_releases_scanned_witness:
  fixes hmac :: hmac_hex and r :: StreamingRedactor
  defines "hmac \<equiv> (\<lambda>key msg. ''00'')" and "r \<equiv> the (new_redactor (marks_policy ActRedact) (Some 1) None [])"
  shows "(\<exists>ps. concat (map fst ps) @ sr_buffer (snd (redactor_run hmac (marks_at 0) r [''a#'', ''b''])) = ''a#b'' \<and>
      fst (redactor_run hmac (marks_at 0) r [''a#'', ''b'']) = fst (enforce_all hmac None (map (\<lambda>(t, fs, rest). (t, fs)) ps)) \<and>
      pieces_safe (marks_at 0) (marks_policy ActRedact) [] 1 ''a#b'' ps) \<and>
    fst (redactor_run hmac (marks_at 0) r [''a#'', ''b'']) = ''a<<REDACTED_MARK>>''"
proof -
  have new: "new_redactor (marks_policy ActRedact) (Some 1) None [] = Some r"
    by (simp add: r_def new_redactor_def marks_policy_def Let_def)
  have r: "sr_vault r = None" "sr_anchors r = []" "sr_window r = 1"
    by (simp_all add: r_def new_redactor_def marks_policy_def Let_def LONG_MATCH_ANCHORS_def)
  have run: "\<not> sr_failClosed (snd (redactor_run hmac (marks_at 0) r [''a#'', ''b'']))" "fst (redactor_run hmac (marks_at 0) r [''a#'', ''b'']) = ''a<<REDACTED_MARK>>''"
    unfolding r_def hmac_def by code_simp+
  moreover have "gp_action (marks_policy ActRedact) \<noteq> ActBlock" by (simp add: marks_policy_def)
  moreover have "fits t (filterByPolicy (marks_at 0 t) (marks_policy ActRedact))" for t by (simp add: marks_fit)
  ultimately show ?thesis
    using redactor_releases_scanned [OF _ new _ surjective_pairing, where detect = "marks_at 0" and hmac = hmac and chunks = "[''a#'', ''b'']"] r
    by (fastforce simp: prod_eq_iff simp del: redactor_run.simps marks_at.simps enforce_all.simps)
qed

theorem block_stops_at_first_finding_witness:
  fixes hmac :: hmac_hex and r :: StreamingRedactor
  defines "hmac \<equiv> (\<lambda>key msg. ''00'')" and "r \<equiv> the (new_redactor (marks_policy ActBlock) (Some 1) None [])"
  shows "\<not> sr_failClosed (snd (redactor_run hmac (marks_at 0) r [''a#'', ''b''])) \<and>
    (fst (redactor_run hmac (marks_at 0) r [''a#'', ''b'']) @ fst (redactor_flush hmac (marks_at 0) (snd (redactor_run hmac (marks_at 0) r [''a#'', ''b'']))),
     sr_blocked (snd (redactor_flush hmac (marks_at 0) (snd (redactor_run hmac (marks_at 0) r [''a#'', ''b'']))))) = (''a'', True)"
proof -
  have new: "new_redactor (marks_policy ActBlock) (Some 1) None [] = Some r"
    by (simp add: r_def new_redactor_def marks_policy_def Let_def)
  have "sr_policy r = marks_policy ActBlock" "sr_anchors r = []" "0 \<le> sr_window r"
    by (simp_all add: r_def new_redactor_def marks_policy_def Let_def LONG_MATCH_ANCHORS_def)
  then have law: "lawful_detector (marks_at 0) r" by (rule marks_lawful)
  have live: "\<not> sr_failClosed (snd (redactor_run hmac (marks_at 0) r [''a#'', ''b'']))"
    by (simp add: r_def new_redactor_def marks_policy_def Let_def LONG_MATCH_ANCHORS_def redactor_push_def redactor_process_def redactor_terminal_def
        safe_end_def filterByPolicy_def finding_def forming_def split_def)
  have "clean_part ''a#b'' (marks_at 0 ''a#b'') = (''a'', True)"
    by code_simp
  moreover have "gp_action (marks_policy ActBlock) = ActBlock" by (simp add: marks_policy_def)
  ultimately show ?thesis
    using block_stops_at_first_finding [OF _ new law surjective_pairing disjI1 [OF live]] live by (simp del: redactor_run.simps marks_at.simps)
qed

end
