(* ===== verification/Egress.thy ===== *)
theory Egress
  imports Js_Parse "HOL-Library.Word"
begin

text \<open>
  The egress guard of \<^verbatim>\<open>packages/egress\<close>: address literals and the networks that are blocked, the URL check with the allow list and the air-gapped
  posture, path segments, and the lookup that filters what a name resolves to. The URL parser and the resolver are arguments; \<^verbatim>\<open>decodeURIComponent\<close>
  of the language is modelled on code units. Shown: exactly which IPv4 addresses are blocked, in every notation the guard reads; that an allowed URL and its
  connection stay outside them; and that an accepted path segment carries no traversal, encoded or not.
\<close>

unbundle bit_operations_syntax

section \<open>Address literals\<close>

datatype EgressDenyReason = InvalidUrl | DenyScheme | DenyUserinfo | BlockedIp | NotAllowlisted

definition octet_text :: "string \<Rightarrow> bool" where
  "octet_text p \<longleftrightarrow> p \<noteq> [] \<and> length p \<le> 3 \<and> list_all is_digit p"

fun octets_to_int :: "string list \<Rightarrow> 32 word \<Rightarrow> 32 word option" where
  "octets_to_int [] n = Some n"
| "octets_to_int (p # ps) n =
     (if \<not> octet_text p then None
      else if 255 < read_nat p then None
      else octets_to_int ps (push_bit 8 n OR of_nat (read_nat p)))"

definition ipv4ToInt :: "string \<Rightarrow> 32 word option" where
  "ipv4ToInt ip = (let parts = split_on (CHR ''.'') ip in if length parts \<noteq> 4 then None else octets_to_int parts 0)"

definition inCidr :: "32 word \<Rightarrow> string \<Rightarrow> nat \<Rightarrow> bool" where
  "inCidr ip base bits =
     (case ipv4ToInt base of
        None \<Rightarrow> False
      | Some b \<Rightarrow> let m = (if bits = 0 then 0 else push_bit (32 - bits) (- 1)) in ip AND m = b AND m)"

definition isIpLiteral :: "string \<Rightarrow> bool" where
  "isIpLiteral host \<longleftrightarrow> ipv4ToInt host \<noteq> None \<or> CHR '':'' \<in> set host"

text \<open>\<^verbatim>\<open>replace(/^\[|\]$/g, '')\<close>.\<close>

definition strip_brackets :: "string \<Rightarrow> string" where
  "strip_brackets s =
     (let t = (case s of c # r \<Rightarrow> if c = CHR ''['' then r else s | [] \<Rightarrow> []) in
      if t \<noteq> [] \<and> last t = CHR '']'' then butlast t else t)"

definition hex_char :: "char \<Rightarrow> bool" where
  "hex_char c \<longleftrightarrow> is_digit c \<or> 97 \<le> (of_char c :: nat) \<and> (of_char c :: nat) \<le> 102"

definition parse_hex :: "string \<Rightarrow> nat" where
  "parse_hex s = foldl (\<lambda>acc c. 16 * acc + (case hex_value c of Some d \<Rightarrow> d | None \<Rightarrow> 0)) 0 s"

definition hex_group :: "string \<Rightarrow> bool" where
  "hex_group g \<longleftrightarrow> g \<noteq> [] \<and> length g \<le> 4 \<and> list_all hex_char g"

text \<open>\<^verbatim>\<open>\d+\.\d+\.\d+\.\d+\<close>, and two hexadecimal groups, to the end of the text.\<close>

definition dotted_text :: "string \<Rightarrow> bool" where
  "dotted_text s \<longleftrightarrow>
     (let parts = split_on (CHR ''.'') s in length parts = 4 \<and> list_all (\<lambda>p. p \<noteq> [] \<and> list_all is_digit p) parts)"

definition after_prefix :: "string \<Rightarrow> string \<Rightarrow> string option" where
  "after_prefix p s = (if starts_with s p then Some (drop (length p) s) else None)"

definition match_dotted :: "string \<Rightarrow> string \<Rightarrow> string option" where
  "match_dotted p h = (case after_prefix p h of Some r \<Rightarrow> if dotted_text r then Some r else None | None \<Rightarrow> None)"

definition match_hex :: "string \<Rightarrow> string \<Rightarrow> (string \<times> string) option" where
  "match_hex p h =
     (case after_prefix p h of
        Some r \<Rightarrow> (case split_on (CHR '':'') r of [a, b] \<Rightarrow> if hex_group a \<and> hex_group b then Some (a, b) else None | _ \<Rightarrow> None)
      | None \<Rightarrow> None)"

text \<open>\<^verbatim>\<open>/::ffff:(dotted)$/\<close>, not anchored at the start.\<close>

definition match_mapped :: "string \<Rightarrow> string option" where
  "match_mapped h =
     (let d = rev (takeWhile (\<lambda>c. c \<noteq> CHR '':'') (rev h)) in
      if suffix ''::ffff:'' (take (length h - length d) h) \<and> dotted_text d then Some d else None)"

definition embedded_text :: "string \<Rightarrow> string \<Rightarrow> string" where
  "embedded_text a b =
     (let n = push_bit 16 (of_nat (parse_hex a)) OR of_nat (parse_hex b) :: 32 word in
      join_with ''.'' (map (\<lambda>k. show_nat (unat (drop_bit k n AND 255))) [24, 16, 8, 0]))"

text \<open>The embedded forms in the order the guard tries them: the IPv4 text to check, or nothing.\<close>

fun first_some :: "'a option list \<Rightarrow> 'a option" where
  "first_some [] = None"
| "first_some (None # xs) = first_some xs"
| "first_some (Some x # xs) = Some x"

definition embedded_ipv4 :: "string \<Rightarrow> string option" where
  "embedded_ipv4 h = first_some
     [match_dotted ''::'' h,
      (case match_hex ''::'' h of Some (a, b) \<Rightarrow> if a \<noteq> ''ffff'' then Some (embedded_text a b) else None | None \<Rightarrow> None),
      map_option (\<lambda>(a, b). embedded_text a b) (match_hex ''64:ff9b::'' h),
      match_mapped h,
      map_option (\<lambda>(a, b). embedded_text a b) (match_hex ''::ffff:'' h)]"

definition blocked_networks :: "(string \<times> nat) list" where
  "blocked_networks =
     [(''127.0.0.0'', 8), (''10.0.0.0'', 8), (''172.16.0.0'', 12), (''192.168.0.0'', 16), (''169.254.0.0'', 16), (''0.0.0.0'', 8),
      (''100.64.0.0'', 10)]"

definition internal_v6 :: "string \<Rightarrow> bool" where
  "internal_v6 h \<longleftrightarrow> h = ''::1'' \<or> h = ''::'' \<or>
     (case h of f # e # c # _ \<Rightarrow> f = CHR ''f'' \<and> e = CHR ''e'' \<and> c \<in> set ''89ab'' | _ \<Rightarrow> False) \<or>
     starts_with h ''fc'' \<or> starts_with h ''fd''"

lemma dotted_no_colon: "dotted_text s \<Longrightarrow> CHR '':'' \<notin> set s"
proof
  assume d: "dotted_text s" and c: "CHR '':'' \<in> set s"
  have "CHR '':'' \<in> set (join_with [CHR ''.''] (split_on (CHR ''.'') s))" using c by (simp only: join_split_on)
  moreover have "set (join_with sep ps) \<subseteq> \<Union> (set ` set ps) \<union> set sep" for sep ps
    by (induction sep ps rule: join_with.induct) auto
  ultimately obtain p where "p \<in> set (split_on (CHR ''.'') s)" "CHR '':'' \<in> set p" by fastforce
  with d have "is_digit (CHR '':'')" by (auto simp: dotted_text_def Let_def list_all_iff)
  then show False by (simp add: is_digit_def)
qed

lemma embedded_no_colon: "CHR '':'' \<notin> set (embedded_text a b)"
proof -
  have "CHR '':'' \<notin> set (show_nat n)" for n by (rule not_digit_in_show_nat) (simp add: is_digit_def)
  then show ?thesis by (simp add: embedded_text_def Let_def)
qed

lemma first_someD: "first_some xs = Some x \<Longrightarrow> Some x \<in> set xs"
  by (induction xs rule: first_some.induct) auto

lemma matched_no_colon:
  "match_dotted p h = Some d \<Longrightarrow> CHR '':'' \<notin> set d" "match_mapped h = Some d \<Longrightarrow> CHR '':'' \<notin> set d"
  by (auto simp: match_dotted_def match_mapped_def Let_def dest: dotted_no_colon split: option.splits if_splits)

lemma embedded_ipv4_no_colon: "embedded_ipv4 h = Some d \<Longrightarrow> CHR '':'' \<notin> set d"
  unfolding embedded_ipv4_def
  by (drule first_someD) (auto simp: embedded_no_colon dest!: matched_no_colon sym [of "Some d"] split: option.splits if_splits)

lemma strip_brackets_sub: "set (strip_brackets s) \<subseteq> set s"
  unfolding strip_brackets_def Let_def by (auto split: list.splits if_splits dest: in_set_butlastD)

lemma lower_char_eq: "lower_char c = CHR '':'' \<longleftrightarrow> c = CHR '':''"
proof
  let ?up = "65 \<le> (of_char c :: nat) \<and> (of_char c :: nat) \<le> 90 \<or> 192 \<le> (of_char c :: nat) \<and> (of_char c :: nat) \<le> 222"
  assume l: "lower_char c = CHR '':''"
  have "c = lower_char c" if "\<not> ?up" using that by (auto simp: lower_char_def Let_def)
  moreover have "(of_char (lower_char c) :: nat) \<noteq> 58" if "?up"
    using that by (auto simp: lower_char_def Let_def)
  ultimately show "c = CHR '':''" using l by force
qed (simp add: lower_char_def)

function isBlockedIp :: "string \<Rightarrow> bool" where
  "isBlockedIp host =
     (let h = strip_brackets (to_lower host) in
      if CHR '':'' \<in> set h then
        internal_v6 h \<or> (case embedded_ipv4 h of Some d \<Rightarrow> isBlockedIp d | None \<Rightarrow> False)
      else
        (case ipv4ToInt h of
           None \<Rightarrow> False
         | Some ip \<Rightarrow> list_ex (\<lambda>(base, bits). inCidr ip base bits) blocked_networks))"
  by pat_completeness auto
termination
proof (relation "measure (\<lambda>h. if CHR '':'' \<in> set h then 1 else 0)", goal_cases)
  case (2 host h d)
  have "set h \<subseteq> lower_char ` set host" using strip_brackets_sub [of "to_lower host"] 2 by (simp add: to_lower_def)
  then have "CHR '':'' \<in> lower_char ` set host" using 2 by auto
  then have "CHR '':'' \<in> set host" using lower_char_eq by (metis imageE)
  with 2 embedded_ipv4_no_colon [of h d] show ?case by simp
qed simp

declare isBlockedIp.simps [simp del]

definition isBlockedHostname :: "string \<Rightarrow> bool" where
  "isBlockedHostname host \<longleftrightarrow>
     (let l = to_lower host; h = (if suffix ''.'' l then butlast l else l) in
      h = ''localhost'' \<or> suffix ''.localhost'' h \<or> h = ''metadata.google.internal'' \<or> h = ''metadata'' \<or> h = ''instance-data'' \<or>
      h = ''instance-data.ec2.internal'')"

section \<open>The URL check and the lookups\<close>

record URL =
  url_protocol :: string
  url_username :: string
  url_password :: string
  url_hostname :: string

datatype allow_hosts = HostArray "string list" | HostSet "string list"

record EgressOptions =
  eo_allowlist :: "allow_hosts option"
  eo_requireHttps :: "bool option"
  eo_airGapped :: "bool option"

fun toSet :: "allow_hosts option \<Rightarrow> string list option" where
  "toSet None = None"
| "toSet (Some (HostArray hs)) = Some (remdups (map to_lower hs))"
| "toSet (Some (HostSet hs)) = Some (remdups hs)"

definition assertEgressAllowed :: "(string \<Rightarrow> URL option) \<Rightarrow> bool \<Rightarrow> string \<Rightarrow> EgressOptions \<Rightarrow> EgressDenyReason + URL" where
  "assertEgressAllowed parse_url airGappedDefault rawUrl opts =
     (case parse_url rawUrl of
        None \<Rightarrow> Inl InvalidUrl
      | Some url \<Rightarrow>
          if eo_requireHttps opts \<noteq> Some False \<and> url_protocol url \<noteq> ''https:'' then Inl DenyScheme
          else if url_username url \<noteq> [] \<or> url_password url \<noteq> [] then Inl DenyUserinfo
          else
            (let host = to_lower (url_hostname url) in
             if isBlockedIp host \<or> isBlockedHostname host then Inl BlockedIp
             else
               (let allow = toSet (eo_allowlist opts);
                    airGapped = (case eo_airGapped opts of Some b \<Rightarrow> b | None \<Rightarrow> airGappedDefault) in
                if airGapped \<and> (case allow of None \<Rightarrow> True | Some hs \<Rightarrow> hs = []) then Inl NotAllowlisted
                else if (case allow of None \<Rightarrow> False | Some hs \<Rightarrow> hs \<noteq> [] \<and> host \<notin> set hs) then Inl NotAllowlisted
                else Inr url)))"

text \<open>The resolver of the connection: the addresses a name resolves to, or its error.\<close>

datatype lookup_reply = Addresses "string list" | OneAddress string

definition guardedLookup :: "(string \<Rightarrow> 'e + string list) \<Rightarrow> string \<Rightarrow> bool \<Rightarrow> ('e + EgressDenyReason) + lookup_reply" where
  "guardedLookup dnsLookup hostname all =
     (case dnsLookup hostname of
        Inl err \<Rightarrow> Inl (Inl err)
      | Inr addresses \<Rightarrow>
          (let safe = filter (\<lambda>a. \<not> isBlockedIp a) addresses in
           case safe of
             [] \<Rightarrow> Inl (Inr BlockedIp)
           | first # _ \<Rightarrow> Inr (if all then Addresses safe else OneAddress first)))"

definition assertHostResolvesPublic :: "(string \<Rightarrow> 'e + string list) \<Rightarrow> string \<Rightarrow> ('e + EgressDenyReason) option" where
  "assertHostResolvesPublic dnsLookup host =
     (if isIpLiteral host then (if isBlockedIp host then Some (Inr BlockedIp) else None)
      else case dnsLookup host of
        Inl err \<Rightarrow> Some (Inl err)
      | Inr results \<Rightarrow> if list_ex isBlockedIp results then Some (Inr BlockedIp) else None)"

section \<open>Path segments\<close>

text \<open>\<^verbatim>\<open>decodeURIComponent\<close>: the code units of the result, or \<open>None\<close> when it throws.\<close>

fun percent_byte :: "string \<Rightarrow> (nat \<times> string) option" where
  "percent_byte (p # x # y # s) =
     (if p = CHR ''%'' then
        (case (hex_value x, hex_value y) of (Some i, Some j) \<Rightarrow> Some (16 * i + j, s) | _ \<Rightarrow> None)
      else None)"
| "percent_byte _ = None"

definition utf8_length :: "nat \<Rightarrow> nat option" where
  "utf8_length b = (if 192 \<le> b \<and> b < 224 then Some 2 else if 224 \<le> b \<and> b < 240 then Some 3 else if 240 \<le> b \<and> b < 248 then Some 4 else None)"

fun continuation_bytes :: "nat \<Rightarrow> string \<Rightarrow> (nat list \<times> string) option" where
  "continuation_bytes 0 s = Some ([], s)"
| "continuation_bytes (Suc n) s =
     (case percent_byte s of
        Some (b, r) \<Rightarrow>
          if 128 \<le> b \<and> b < 192 then map_option (\<lambda>(bs, t). (b # bs, t)) (continuation_bytes n r) else None
      | None \<Rightarrow> None)"

definition utf8_value :: "nat \<Rightarrow> nat \<Rightarrow> nat list \<Rightarrow> nat" where
  "utf8_value n b bs = foldl (\<lambda>v c. 64 * v + c mod 64) (b mod 2 ^ (7 - n)) bs"

definition utf8_valid :: "nat \<Rightarrow> nat \<Rightarrow> bool" where
  "utf8_valid n v \<longleftrightarrow> (if n = 2 then 128 else if n = 3 then 2048 else 65536) \<le> v \<and> v < 1114112 \<and> \<not> (55296 \<le> v \<and> v < 57344)"

definition code_units :: "nat \<Rightarrow> nat list" where
  "code_units v = (if v < 65536 then [v] else [(v - 65536) div 1024 + 55296, (v - 65536) mod 1024 + 56320])"

lemma percent_byte_shorter: "percent_byte s = Some (b, r) \<Longrightarrow> length r < length s"
  by (induction s rule: percent_byte.induct) (auto split: if_splits option.splits)

lemma continuation_shorter: "continuation_bytes n s = Some (bs, r) \<Longrightarrow> length r \<le> length s"
  by (induction n s arbitrary: bs rule: continuation_bytes.induct)
    (fastforce split: option.splits prod.splits if_splits dest: percent_byte_shorter)+

function decodeURIComponent :: "string \<Rightarrow> nat list option" where
  "decodeURIComponent [] = Some []"
| "decodeURIComponent (c # s) =
     (if c \<noteq> CHR ''%'' then map_option (Cons (of_char c)) (decodeURIComponent s)
      else case percent_byte (c # s) of
        None \<Rightarrow> None
      | Some (b, r) \<Rightarrow>
          if b < 128 then map_option (Cons b) (decodeURIComponent r)
          else case utf8_length b of
            None \<Rightarrow> None
          | Some n \<Rightarrow>
              (case continuation_bytes (n - 1) r of
                 None \<Rightarrow> None
               | Some (bs, t) \<Rightarrow>
                   let v = utf8_value n b bs in
                   if utf8_valid n v then map_option (append (code_units v)) (decodeURIComponent t) else None))"
  by pat_completeness auto
termination
  by (relation "measure length") (fastforce dest: percent_byte_shorter continuation_shorter)+

declare decodeURIComponent.simps(2) [simp del]

definition hasControlOrSpace :: "nat list \<Rightarrow> bool" where
  "hasControlOrSpace s \<longleftrightarrow> list_ex (\<lambda>c. c \<le> 32 \<or> c = 127) s"

text \<open>A separator, a traversal or a control character, on code units.\<close>

definition unsafe_units :: "nat list \<Rightarrow> bool" where
  "unsafe_units s \<longleftrightarrow> hasControlOrSpace s \<or> 47 \<in> set s \<or> 92 \<in> set s \<or> sublist [46, 46] s"

definition assertSafePathSegment :: "string \<Rightarrow> EgressDenyReason + string" where
  "assertSafePathSegment value =
     (if value = [] \<or> 256 < length value then Inl InvalidUrl
      else if unsafe_units (map of_char value) then Inl InvalidUrl
      else if CHR ''%'' \<in> set value then
        (case decodeURIComponent value of
           None \<Rightarrow> Inl InvalidUrl
         | Some decoded \<Rightarrow> if unsafe_units decoded then Inl InvalidUrl else Inr value)
      else Inr value)"

section \<open>Which addresses are blocked\<close>

text \<open>The internal networks by the first two octets of an address.\<close>

definition internal_v4 :: "nat \<Rightarrow> nat \<Rightarrow> bool" where
  "internal_v4 a b \<longleftrightarrow> a = 127 \<or> a = 10 \<or> a = 172 \<and> 16 \<le> b \<and> b \<le> 31 \<or> a = 192 \<and> b = 168 \<or> a = 169 \<and> b = 254 \<or> a = 0
     \<or> a = 100 \<and> 64 \<le> b \<and> b \<le> 127"

definition octet :: "string \<Rightarrow> bool" where
  "octet p \<longleftrightarrow> octet_text p \<and> read_nat p \<le> 255"

lemma or_low:
  fixes w :: "32 word"
  assumes "m < 2 ^ k" and "k \<le> 32"
  shows "push_bit k w OR of_nat m = 2 ^ k * w + of_nat m"
proof -
  have "\<not> bit m n" if "k \<le> n" for n
    using assms(1) that by (metis bit_take_bit_iff not_less take_bit_nat_eq_self)
  then have "push_bit k w AND of_nat m = 0"
    by (auto simp: bit_eq_iff bit_simps)
  then show ?thesis by (simp add: disjunctive_add_eq_or [symmetric] push_bit_eq_mult mult.commute)
qed

lemma octets_value:
  assumes "list_all octet [p, q, r, s]"
  shows "\<exists>w. octets_to_int [p, q, r, s] 0 = Some w \<and> unat w = ((read_nat p * 256 + read_nat q) * 256 + read_nat r) * 256 + read_nat s"
proof -
  have le: "read_nat p \<le> 255" "read_nat q \<le> 255" "read_nat r \<le> 255" "read_nat s \<le> 255" using assms by (simp_all add: octet_def)
  let ?v = "((read_nat p * 256 + read_nat q) * 256 + read_nat r) * 256 + read_nat s"
  have "octets_to_int [p, q, r, s] 0 = Some (of_nat ?v)"
    using assms or_low [of _ 8] le by (simp add: octet_def algebra_simps)
  have "?v < 2 ^ 32" using le by simp
  then have "unat (of_nat ?v :: 32 word) = ?v" by (simp only: unat_of_nat) simp
  with \<open>octets_to_int [p, q, r, s] 0 = Some (of_nat ?v)\<close> show ?thesis by blast
qed

lemma mask_eq:
  fixes x y :: "32 word"
  shows "x AND push_bit k (- 1) = y AND push_bit k (- 1) \<longleftrightarrow> drop_bit k x = drop_bit k y"
proof
  assume l: "x AND push_bit k (- 1) = y AND push_bit k (- 1)"
  show "drop_bit k x = drop_bit k y"
  proof (rule bit_eqI)
    fix n
    have "bit (x AND push_bit k (- 1)) (k + n) \<longleftrightarrow> bit (y AND push_bit k (- 1)) (k + n)" using l by simp
    then show "bit (drop_bit k x) n \<longleftrightarrow> bit (drop_bit k y) n"
      by (auto simp: bit_simps dest: bit_imp_le_length)
  qed
next
  assume r: "drop_bit k x = drop_bit k y"
  show "x AND push_bit k (- 1) = y AND push_bit k (- 1)"
  proof (rule bit_eqI)
    fix n
    have "bit (drop_bit k x) (n - k) \<longleftrightarrow> bit (drop_bit k y) (n - k)" using r by simp
    then show "bit (x AND push_bit k (- 1)) n \<longleftrightarrow> bit (y AND push_bit k (- 1)) n"
      by (auto simp: bit_simps)
  qed
qed

lemma inCidr_div:
  assumes "ipv4ToInt base = Some b" and "0 < bits" and "bits \<le> 32"
  shows "inCidr ip base bits \<longleftrightarrow> unat ip div 2 ^ (32 - bits) = unat b div 2 ^ (32 - bits)"
proof -
  have "inCidr ip base bits \<longleftrightarrow> drop_bit (32 - bits) ip = drop_bit (32 - bits) b"
    unfolding inCidr_def Let_def mask_eq [symmetric] using assms by (simp only: option.case if_False) simp
  also have "\<dots> \<longleftrightarrow> unat (drop_bit (32 - bits) ip) = unat (drop_bit (32 - bits) b)" by (metis unsigned_word_eqI)
  finally show ?thesis by (simp only: unat_drop_bit_eq) (simp add: drop_bit_eq_div)
qed

lemma list_ex_Cons: "list_ex P (x # xs) \<longleftrightarrow> P x \<or> list_ex P xs"
  by simp

lemma octet_show: "n \<le> 255 \<Longrightarrow> octet (show_nat n)"
proof -
  assume n: "n \<le> 255"
  then have "n div 10 div 10 < 10" by simp
  then have "length (show_nat n) \<le> 3"
    using show_nat.simps [of n] show_nat.simps [of "n div 10"] show_nat.simps [of "n div 10 div 10"] by simp
  with n show ?thesis by (simp add: octet_def octet_text_def show_nat_digits)
qed

lemma octet_chars:
  assumes "octet p"
  shows "p \<noteq> []" "list_all is_digit p" "c \<in> set p \<Longrightarrow> is_digit c"
  using assms by (auto simp: octet_def octet_text_def list_all_iff)

definition dotted :: "string \<Rightarrow> string \<Rightarrow> string \<Rightarrow> string \<Rightarrow> string" where
  "dotted p q r s = p @ CHR ''.'' # q @ CHR ''.'' # r @ CHR ''.'' # s"

lemma split_dotted:
  assumes "list_all octet [p, q, r, s]"
  shows "split_on (CHR ''.'') (dotted p q r s) = [p, q, r, s]"
proof -
  have "CHR ''.'' \<notin> set x" if "octet x" for x
    using octet_chars(3) [OF that, of "CHR ''.''"] by (auto simp: is_digit_def)
  with assms show ?thesis by (simp add: dotted_def split_on_append split_on_none)
qed

lemma dotted_value:
  assumes "list_all octet [p, q, r, s]"
  shows "\<exists>w. ipv4ToInt (dotted p q r s) = Some w \<and> unat w = ((read_nat p * 256 + read_nat q) * 256 + read_nat r) * 256 + read_nat s"
  using octets_value [OF assms] split_dotted [OF assms] by (simp add: ipv4ToInt_def)

lemma network_value:
  assumes "a \<le> 255" and "b \<le> 255"
  shows "\<exists>w. ipv4ToInt (dotted (show_nat a) (show_nat b) (show_nat 0) (show_nat 0)) = Some w \<and> unat w = a * 16777216 + b * 65536"
  using dotted_value [of "show_nat a" "show_nat b" "show_nat 0" "show_nat 0"] assms by (simp add: octet_show algebra_simps)

lemma blocked_network_bases:
  "blocked_networks = map (\<lambda>(a, b, bits). (dotted (show_nat a) (show_nat b) (show_nat 0) (show_nat 0), bits))
     [(127, 0, 8), (10, 0, 8), (172, 16, 12), (192, 168, 16), (169, 254, 16), (0, 0, 8), (100, 64, 10)]"
  by code_simp

lemma in_network:
  assumes "a \<le> 255" and "b \<le> 255" and "0 < bits" and "bits \<le> 16"
  shows "inCidr ip (dotted (show_nat a) (show_nat b) (show_nat 0) (show_nat 0)) bits \<longleftrightarrow>
    unat ip div 2 ^ (32 - bits) = (a * 16777216 + b * 65536) div 2 ^ (32 - bits)"
  using network_value [OF assms(1,2)] inCidr_div [where ip = ip and bits = bits] assms(3,4) by auto

lemma place_value:
  fixes a c k x y :: nat
  assumes "x < k" and "y < k"
  shows "a * k + x = c * k + y \<longleftrightarrow> a = c \<and> x = y"
proof
  assume eq: "a * k + x = c * k + y"
  have "(a * k + x) div k = a" "(c * k + y) div k = c" using assms by simp_all
  with eq show "a = c \<and> x = y" by simp
qed simp

lemma blocked_words:
  assumes "unat ip = ((a * 256 + b) * 256 + c) * 256 + d" and "b \<le> 255" and "c \<le> 255" and "d \<le> 255"
  shows "list_ex (\<lambda>(base, bits). inCidr ip base bits) blocked_networks \<longleftrightarrow> internal_v4 a b"
proof -
  have "unat ip div 16777216 = a" using assms by (intro div_nat_eqI) (simp_all add: algebra_simps)
  moreover have "unat ip div 65536 = a * 256 + b" using assms by (intro div_nat_eqI) (simp_all add: algebra_simps)
  moreover have "unat ip div 1048576 = a * 16 + b div 16" using assms by (intro div_nat_eqI) (simp_all add: algebra_simps)
  moreover have "unat ip div 4194304 = a * 4 + b div 64" using assms by (intro div_nat_eqI) (simp_all add: algebra_simps)
  moreover have "b div 16 = 1 \<longleftrightarrow> 16 \<le> b \<and> b \<le> 31" "b div 64 = 1 \<longleftrightarrow> 64 \<le> b \<and> b \<le> 127" by linarith+
  moreover have "a * 16 + b div 16 = 2753 \<longleftrightarrow> a = 172 \<and> b div 16 = 1" "a * 4 + b div 64 = 401 \<longleftrightarrow> a = 100 \<and> b div 64 = 1"
    "a * 256 + b = 49320 \<longleftrightarrow> a = 192 \<and> b = 168" "a * 256 + b = 43518 \<longleftrightarrow> a = 169 \<and> b = 254"
    using assms(2) place_value [of "b div 16" 16 1 a 172] place_value [of "b div 64" 4 1 a 100] place_value [of b 256 168 a 192]
      place_value [of b 256 254 a 169] by simp_all
  ultimately show ?thesis
    unfolding blocked_network_bases by (simp add: in_network internal_v4_def)
qed

lemma dotted_chars:
  assumes "list_all octet [p, q, r, s]" and "c \<in> set (dotted p q r s)"
  shows "is_digit c \<or> c = CHR ''.''"
  using assms octet_chars(3) by (auto simp: dotted_def)

lemma plain_text:
  assumes "\<And>c. c \<in> set d \<Longrightarrow> is_digit c \<or> c = CHR ''.''"
  shows "strip_brackets (to_lower d) = d"
proof -
  have "lower_char c = c" if "c \<in> set d" for c
    using assms [OF that] by (auto simp: lower_char_def is_digit_def Let_def)
  then have "to_lower d = d" by (simp add: to_lower_def map_idI)
  moreover have "CHR ''['' \<notin> set d" "CHR '']'' \<notin> set d" using assms by (fastforce simp: is_digit_def)+
  moreover from this have "d \<noteq> [] \<Longrightarrow> last d \<noteq> CHR '']''" by (metis last_in_set)
  ultimately show ?thesis by (cases d) (auto simp: strip_brackets_def Let_def)
qed

lemma blocked_plain:
  assumes "list_all octet [p, q, r, s]" and "strip_brackets (to_lower host) = dotted p q r s"
  shows "isBlockedIp host \<longleftrightarrow> internal_v4 (read_nat p) (read_nat q)"
proof -
  obtain w where w: "ipv4ToInt (dotted p q r s) = Some w"
    "unat w = ((read_nat p * 256 + read_nat q) * 256 + read_nat r) * 256 + read_nat s"
    using dotted_value [OF assms(1)] by blast
  have le: "read_nat q \<le> 255" "read_nat r \<le> 255" "read_nat s \<le> 255" using assms(1) by (simp_all add: octet_def)
  have "CHR '':'' \<notin> set (dotted p q r s)" using dotted_chars [OF assms(1), of "CHR '':''"] by (auto simp: is_digit_def)
  then show ?thesis
    using w(1) blocked_words [OF w(2) le] by (subst isBlockedIp.simps) (simp add: assms(2) Let_def)
qed

lemma blocked_embedded:
  assumes "strip_brackets (to_lower host) = h" and "CHR '':'' \<in> set h" and "\<not> internal_v6 h"
    and "embedded_ipv4 h = Some (dotted p q r s)" and "list_all octet [p, q, r, s]"
  shows "isBlockedIp host \<longleftrightarrow> internal_v4 (read_nat p) (read_nat q)"
  using assms blocked_plain [OF assms(5) plain_text [OF dotted_chars [OF assms(5)]]]
  by (subst isBlockedIp.simps) (simp add: Let_def)

lemma dotted_text_dotted:
  assumes "list_all octet [p, q, r, s]"
  shows "dotted_text (dotted p q r s)"
  using assms split_dotted [OF assms] by (simp add: dotted_text_def octet_def octet_text_def)

lemma dotted_has_dot: "CHR ''.'' \<in> set (dotted p q r s)"
  by (simp add: dotted_def)

lemma hex_group_chars: "hex_group g \<Longrightarrow> c \<in> set g \<Longrightarrow> hex_char c"
  by (auto simp: hex_group_def list_all_iff)

lemma hex_group_plain:
  assumes "hex_group g"
  shows "CHR '':'' \<notin> set g" "CHR ''.'' \<notin> set g" "\<not> dotted_text g"
proof -
  show "CHR '':'' \<notin> set g" "CHR ''.'' \<notin> set g"
    using hex_group_chars [OF assms, of "CHR '':''"] hex_group_chars [OF assms, of "CHR ''.''"] by (auto simp: hex_char_def is_digit_def)
  then show "\<not> dotted_text g" by (simp add: dotted_text_def split_on_none)
qed

lemma parse_hex_less: "list_all hex_char g \<Longrightarrow> parse_hex g < 16 ^ length g"
proof (induction g rule: rev_induct)
  case (snoc c g)
  have "(case hex_value c of Some d \<Rightarrow> d | None \<Rightarrow> 0) < 16"
    by (auto simp: hex_value_def Let_def)
  with snoc show ?case by (simp add: parse_hex_def)
qed (simp add: parse_hex_def)

lemma hex_group_less:
  assumes "hex_group g"
  shows "parse_hex g < 65536"
proof -
  have "parse_hex g < 16 ^ length g" using assms by (intro parse_hex_less) (simp add: hex_group_def)
  also have "\<dots> \<le> 16 ^ 4" using assms by (intro power_increasing) (simp_all add: hex_group_def)
  finally show ?thesis by simp
qed

lemma low_octets:
  fixes A B :: nat
  assumes "B < 65536"
  shows "(65536 * A + B) div 256 mod 256 = B div 256" "(65536 * A + B) mod 256 = B mod 256"
proof -
  have shape: "65536 * A + B = 256 * (256 * A) + B" by simp
  have "(256 * (256 * A) + B) div 256 = 256 * A + B div 256" by (rule div_mult_self4) simp
  moreover have "(256 * A + B div 256) mod 256 = B div 256 mod 256" by (rule mod_mult_self4)
  ultimately show "(65536 * A + B) div 256 mod 256 = B div 256" unfolding shape using assms by simp
  show "(65536 * A + B) mod 256 = B mod 256" unfolding shape by (rule mod_mult_self4)
qed

text \<open>The octets a pair of hexadecimal groups stands for.\<close>

lemma embedded_dotted:
  assumes "hex_group a" and "hex_group b"
  shows "embedded_text a b =
    dotted (show_nat (parse_hex a div 256)) (show_nat (parse_hex a mod 256)) (show_nat (parse_hex b div 256)) (show_nat (parse_hex b mod 256))"
proof -
  define n :: "32 word" where "n = push_bit 16 (of_nat (parse_hex a)) OR of_nat (parse_hex b)"
  have less: "parse_hex a < 65536" "parse_hex b < 65536" using assms by (simp_all add: hex_group_less)
  then have "n = of_nat (65536 * parse_hex a + parse_hex b)" unfolding n_def by (subst or_low) simp_all
  then have n: "unat n = 65536 * parse_hex a + parse_hex b" using less by (simp only: unat_of_nat) simp
  have oct: "unat (drop_bit k n AND 255) = unat n div 2 ^ k mod 256" for k
  proof -
    have "drop_bit k n AND 255 = take_bit 8 (drop_bit k n)" by (simp add: take_bit_eq_mask mask_eq_exp_minus_1)
    then show ?thesis by (simp only: unsigned_take_bit_eq unat_drop_bit_eq) (simp add: take_bit_eq_mod drop_bit_eq_div)
  qed
  have "unat n div 2 ^ 24 mod 256 = parse_hex a div 256" "unat n div 2 ^ 16 mod 256 = parse_hex a mod 256"
    "unat n div 2 ^ 8 mod 256 = parse_hex b div 256" "unat n div 2 ^ 0 mod 256 = parse_hex b mod 256"
    unfolding n using less low_octets [of "parse_hex b" "parse_hex a"] by simp_all
  then show ?thesis unfolding embedded_text_def n_def [symmetric] Let_def dotted_def by (simp only: oct list.map) simp
qed

lemma last_part: "CHR '':'' \<notin> set b \<Longrightarrow> takeWhile (\<lambda>c. c \<noteq> CHR '':'') (rev (x @ CHR '':'' # b)) = rev b"
  by (induction b rule: rev_induct) auto

lemma embedded_mapped:
  assumes "list_all octet [p, q, r, s]"
  shows "embedded_ipv4 (''::'' @ dotted p q r s) = Some (dotted p q r s)"
    and "embedded_ipv4 (''::ffff:'' @ dotted p q r s) = Some (dotted p q r s)"
proof -
  let ?d = "dotted p q r s"
  have colon: "CHR '':'' \<notin> set ?d" using dotted_chars [OF assms, of "CHR '':''"] by (auto simp: is_digit_def)
  have "\<not> hex_group ?d" using hex_group_plain(2) dotted_has_dot by blast
  moreover have "\<not> dotted_text (''ffff:'' @ ?d)" using dotted_no_colon [of "''ffff:'' @ ?d"] by auto
  moreover have "takeWhile (\<lambda>c. c \<noteq> CHR '':'') (rev (''::ffff:'' @ ?d)) = rev ?d"
    using last_part [OF colon, of "''::ffff''"] by simp
  ultimately show "embedded_ipv4 (''::'' @ ?d) = Some ?d" "embedded_ipv4 (''::ffff:'' @ ?d) = Some ?d"
    using dotted_text_dotted [OF assms] colon
    by (simp_all add: embedded_ipv4_def match_dotted_def match_hex_def match_mapped_def after_prefix_def split_on_none Let_def)
qed

lemma embedded_hex:
  assumes "hex_group a" and "hex_group b"
  shows "embedded_ipv4 (''64:ff9b::'' @ a @ CHR '':'' # b) = Some (embedded_text a b)"
    and "embedded_ipv4 (''::ffff:'' @ a @ CHR '':'' # b) = Some (embedded_text a b)"
    and "a \<noteq> ''ffff'' \<Longrightarrow> embedded_ipv4 (''::'' @ a @ CHR '':'' # b) = Some (embedded_text a b)"
proof -
  have split: "split_on (CHR '':'') (a @ CHR '':'' # b) = [a, b]"
    using hex_group_plain(1) [OF assms(1)] hex_group_plain(1) [OF assms(2)] by (simp add: split_on_append split_on_none)
  have undotted: "\<not> dotted_text (x @ CHR '':'' # b)" for x using dotted_no_colon [of "x @ CHR '':'' # b"] by auto
  have "takeWhile (\<lambda>c. c \<noteq> CHR '':'') (rev (x @ CHR '':'' # b)) = rev b" for x
    using hex_group_plain(1) [OF assms(2)] by (rule last_part)
  then have unmapped: "match_mapped (x @ CHR '':'' # b) = None" for x
    using hex_group_plain(3) [OF assms(2)] by (simp add: match_mapped_def Let_def)
  show "embedded_ipv4 (''64:ff9b::'' @ a @ CHR '':'' # b) = Some (embedded_text a b)"
    using assms split by (simp add: embedded_ipv4_def match_dotted_def match_hex_def after_prefix_def)
  show "a \<noteq> ''ffff'' \<Longrightarrow> embedded_ipv4 (''::'' @ a @ CHR '':'' # b) = Some (embedded_text a b)"
    using assms split undotted [of a] by (simp add: embedded_ipv4_def match_dotted_def match_hex_def after_prefix_def)
  show "embedded_ipv4 (''::ffff:'' @ a @ CHR '':'' # b) = Some (embedded_text a b)"
    using assms split undotted [of "''ffff:'' @ a"] unmapped [of "''::ffff:'' @ a"]
    by (simp add: embedded_ipv4_def match_dotted_def match_hex_def after_prefix_def)
qed

text \<open>The notations of an IPv4 address the guard reads, with the first two octets each stands for.\<close>

inductive denotes_v4 :: "string \<Rightarrow> nat \<Rightarrow> nat \<Rightarrow> bool" where
  plain: "list_all octet [p, q, r, s] \<Longrightarrow> denotes_v4 (dotted p q r s) (read_nat p) (read_nat q)"
| compatible: "list_all octet [p, q, r, s] \<Longrightarrow> denotes_v4 (''::'' @ dotted p q r s) (read_nat p) (read_nat q)"
| mapped: "list_all octet [p, q, r, s] \<Longrightarrow> denotes_v4 (''::ffff:'' @ dotted p q r s) (read_nat p) (read_nat q)"
| compatible_hex: "hex_group a \<Longrightarrow> hex_group b \<Longrightarrow> a \<noteq> ''ffff'' \<Longrightarrow>
    denotes_v4 (''::'' @ a @ CHR '':'' # b) (parse_hex a div 256) (parse_hex a mod 256)"
| mapped_hex: "hex_group a \<Longrightarrow> hex_group b \<Longrightarrow> denotes_v4 (''::ffff:'' @ a @ CHR '':'' # b) (parse_hex a div 256) (parse_hex a mod 256)"
| nat64: "hex_group a \<Longrightarrow> hex_group b \<Longrightarrow> denotes_v4 (''64:ff9b::'' @ a @ CHR '':'' # b) (parse_hex a div 256) (parse_hex a mod 256)"

lemma colons_not_internal:
  assumes "CHR ''.'' \<in> set t \<or> CHR '':'' \<in> set t"
  shows "\<not> internal_v6 (CHR '':'' # CHR '':'' # t)"
  using assms by (auto simp: internal_v6_def split: list.splits)

lemma blocked_hex:
  assumes "strip_brackets (to_lower host) = h" and "CHR '':'' \<in> set h" and "\<not> internal_v6 h" and "embedded_ipv4 h = Some (embedded_text a b)"
    and "hex_group a" and "hex_group b"
  shows "isBlockedIp host \<longleftrightarrow> internal_v4 (parse_hex a div 256) (parse_hex a mod 256)"
proof -
  have "list_all octet (map show_nat [parse_hex a div 256, parse_hex a mod 256, parse_hex b div 256, parse_hex b mod 256])"
    using hex_group_less [OF assms(5)] hex_group_less [OF assms(6)] by (simp add: octet_show less_mult_imp_div_less)
  then show ?thesis
    using blocked_embedded [OF assms(1-3), of "show_nat (parse_hex a div 256)" "show_nat (parse_hex a mod 256)"] assms(4-6)
    by (simp add: embedded_dotted)
qed

lemma blocked_denotes:
  assumes "strip_brackets (to_lower host) = h" and "denotes_v4 h a b"
  shows "isBlockedIp host \<longleftrightarrow> internal_v4 a b"
  using assms(2,1)
proof cases
  case (plain p q r s)
  with assms(1) show ?thesis by (simp add: blocked_plain)
next
  case (compatible p q r s)
  then show ?thesis
    using blocked_embedded [OF assms(1)] colons_not_internal [OF disjI1 [OF dotted_has_dot]] embedded_mapped(1) by simp
next
  case (mapped p q r s)
  then show ?thesis
    using blocked_embedded [OF assms(1)] colons_not_internal [of "''ffff:'' @ dotted p q r s"] embedded_mapped(2) by simp
next
  case (compatible_hex g k)
  then show ?thesis
    using blocked_hex [OF assms(1) _ _ _ compatible_hex(4,5)] colons_not_internal [of "g @ CHR '':'' # k"] embedded_hex(3) by simp
next
  case (mapped_hex g k)
  then show ?thesis
    using blocked_hex [OF assms(1) _ _ _ mapped_hex(4,5)] colons_not_internal [of "''ffff:'' @ g @ CHR '':'' # k"] embedded_hex(2) by simp
next
  case (nat64 g k)
  then show ?thesis
    using blocked_hex [OF assms(1) _ _ _ nat64(4,5)] embedded_hex(1) by (simp add: internal_v6_def)
qed

text \<open>
  The egress guard blocks exactly the internal IPv4 networks, in every notation. A host that is, up to case and brackets, the dotted form of an IPv4 address,
  its compatible or mapped IPv6 form in dotted or hexadecimal groups, or its NAT64 form, is blocked exactly if the address is in a loopback, private,
  link-local, carrier or zero network.\<close>

theorem blocked_ip_exact:
  assumes "strip_brackets (to_lower host) = h" and "denotes_v4 h a b"
  shows "isBlockedIp host \<longleftrightarrow> internal_v4 a b"
  using assms by (rule blocked_denotes)

theorem blocked_ip_exact_witness:
  "denotes_v4 (''::ffff:'' @ ''a9fe'' @ CHR '':'' # ''a9fe'') 169 254 \<and> isBlockedIp ''[::FFFF:A9FE:a9fe]''"
proof -
  have "hex_group ''a9fe''" by code_simp
  moreover have "parse_hex ''a9fe'' = 43518" by (simp add: parse_hex_def hex_value_def)
  ultimately have d: "denotes_v4 (''::ffff:'' @ ''a9fe'' @ CHR '':'' # ''a9fe'') 169 254"
    using denotes_v4.mapped_hex [of "''a9fe''" "''a9fe''"] by simp
  have "strip_brackets (to_lower ''[::FFFF:A9FE:a9fe]'') = ''::ffff:'' @ ''a9fe'' @ CHR '':'' # ''a9fe''"
    by (simp add: to_lower_def lower_char_def strip_brackets_def Let_def char_of_def bit_0)
  from blocked_ip_exact [OF this d] d show ?thesis by (simp add: internal_v4_def)
qed

section \<open>No traversal in an accepted segment\<close>

text \<open>The bytes a reader of the path sees when it undoes the percent encoding once, malformed escapes kept as they are.\<close>

function percent_bytes :: "string \<Rightarrow> nat list" where
  "percent_bytes [] = []"
| "percent_bytes (c # s) = (case percent_byte (c # s) of Some (b, r) \<Rightarrow> b # percent_bytes r | None \<Rightarrow> of_char c # percent_bytes s)"
  by pat_completeness auto
termination by (relation "measure length") (fastforce dest: percent_byte_shorter)+

declare percent_bytes.simps(2) [simp del]

text \<open>Two readings with the same ASCII text, other characters being written in groups of their own.\<close>

inductive same_ascii :: "nat list \<Rightarrow> nat list \<Rightarrow> bool" where
  Nil: "same_ascii [] []"
| Ascii: "same_ascii bs ds \<Longrightarrow> same_ascii (n # bs) (n # ds)"
| High: "same_ascii bs ds \<Longrightarrow> \<forall>h\<in>set (hs @ us). 128 \<le> h \<Longrightarrow> hs \<noteq> [] \<Longrightarrow> us \<noteq> [] \<Longrightarrow> same_ascii (hs @ bs) (us @ ds)"

lemma sublist_skip:
  assumes "\<forall>h\<in>set hs. h \<noteq> x"
  shows "sublist (x # xs) (hs @ bs) \<longleftrightarrow> sublist (x # xs) bs"
  using assms by (induction hs) (auto simp: sublist_Cons_right)

lemma same_ascii_mem: "same_ascii bs ds \<Longrightarrow> x < 128 \<Longrightarrow> x \<in> set bs \<longleftrightarrow> x \<in> set ds"
  by (induction rule: same_ascii.induct) (auto dest: leD)

lemma same_ascii_hd: "same_ascii bs ds \<Longrightarrow> x < 128 \<Longrightarrow> prefix [x] bs \<longleftrightarrow> prefix [x] ds"
  by (induction rule: same_ascii.induct) (auto simp: neq_Nil_conv)

lemma same_ascii_pair: "same_ascii bs ds \<Longrightarrow> sublist [46, 46] bs \<longleftrightarrow> sublist [46, 46] ds"
proof (induction rule: same_ascii.induct)
  case (Ascii bs ds n)
  then show ?case using same_ascii_hd [OF Ascii.hyps, of 46] by (auto simp: sublist_Cons_right)
next
  case (High bs ds hs us)
  have "h \<noteq> 46" if "h \<in> set (hs @ us)" for h using bspec [OF High.hyps(2) that] by simp
  with High.IH show ?case by (simp add: sublist_skip)
qed simp

lemma same_ascii_unsafe:
  assumes "same_ascii bs ds"
  shows "unsafe_units bs \<longleftrightarrow> unsafe_units ds"
proof -
  have "hasControlOrSpace xs \<longleftrightarrow> (\<exists>c\<in>{..32} \<union> {127}. c \<in> set xs)" for xs
    by (auto simp: hasControlOrSpace_def list_ex_iff)
  then show ?thesis
    unfolding unsafe_units_def using same_ascii_mem [OF assms] same_ascii_pair [OF assms] by auto
qed

lemma continuation_read:
  "continuation_bytes n s = Some (bs, t) \<Longrightarrow> percent_bytes s = bs @ percent_bytes t \<and> (\<forall>b\<in>set bs. 128 \<le> b)"
proof (induction n s arbitrary: bs rule: continuation_bytes.induct)
  case (2 n s)
  from 2(2) obtain b r bs' where step: "percent_byte s = Some (b, r)" "128 \<le> b" "b < 192" "continuation_bytes n r = Some (bs', t)" "bs = b # bs'"
    by (auto split: option.splits if_splits)
  then have "percent_bytes s = b # percent_bytes r" by (cases s) (simp_all add: percent_bytes.simps(2))
  with 2(1) [OF step(1) refl _ step(4)] step show ?case by simp
qed simp

lemma code_units_high: "utf8_valid n v \<Longrightarrow> (\<forall>u\<in>set (code_units v). 128 \<le> u) \<and> code_units v \<noteq> []"
  by (auto simp: utf8_valid_def code_units_def split: if_splits)

lemma decoded_same_ascii: "decodeURIComponent v = Some ds \<Longrightarrow> same_ascii (percent_bytes v) ds"
proof (induction v arbitrary: ds rule: decodeURIComponent.induct)
  case 1
  then show ?case by (simp add: same_ascii.Nil)
next
  case (2 c s)
  show ?case
  proof (cases "c = CHR ''%''")
    case False
    then have "percent_byte (c # s) = None" by (cases "(c # s)" rule: percent_byte.cases) auto
    then show ?thesis
      using 2(1) [OF False] 2(4) False by (auto simp: decodeURIComponent.simps(2) percent_bytes.simps(2) intro: same_ascii.Ascii)
  next
    case True
    then obtain b r where br: "percent_byte (c # s) = Some (b, r)"
      using 2(4) by (auto simp: decodeURIComponent.simps(2) split: option.splits)
    then have bytes: "percent_bytes (c # s) = b # percent_bytes r" by (simp add: percent_bytes.simps(2))
    show ?thesis
    proof (cases "b < 128")
      case True
      with \<open>c = CHR ''%''\<close> br 2(4) obtain ds' where "decodeURIComponent r = Some ds'" "ds = b # ds'"
        by (auto simp: decodeURIComponent.simps(2))
      with 2(2) [of "(b, r)" b r ds'] \<open>c = CHR ''%''\<close> br True bytes show ?thesis by (auto intro: same_ascii.Ascii)
    next
      case False
      with \<open>c = CHR ''%''\<close> br 2(4) obtain n bs t ds' where step: "utf8_length b = Some n" "continuation_bytes (n - 1) r = Some (bs, t)"
        "utf8_valid n (utf8_value n b bs)" "decodeURIComponent t = Some ds'" "ds = code_units (utf8_value n b bs) @ ds'"
        by (auto simp: decodeURIComponent.simps(2) Let_def split: option.splits if_splits)
      have "same_ascii (percent_bytes t) ds'"
        using 2(3) [of "(b, r)" b r n "(bs, t)" bs t "utf8_value n b bs" ds'] \<open>c = CHR ''%''\<close> br False step by auto
      moreover have "\<forall>h\<in>set ((b # bs) @ code_units (utf8_value n b bs)). 128 \<le> h"
        using continuation_read [OF step(2)] code_units_high [OF step(3)] False by auto
      ultimately have "same_ascii ((b # bs) @ percent_bytes t) (code_units (utf8_value n b bs) @ ds')"
        using code_units_high [OF step(3)] by (intro same_ascii.High) auto
      with continuation_read [OF step(2)] bytes step(5) show ?thesis by simp
    qed
  qed
qed

text \<open>
  An accepted path segment carries no traversal. A value the guard passes as one segment of an upstream path is not empty and at most 256 units long, and neither
  it nor what a reader obtains by undoing the percent encoding has a slash, a backslash, two dots in a row, a space or a control character.\<close>

theorem safe_segment_no_traversal:
  assumes "assertSafePathSegment v = Inr w"
  shows "w = v \<and> 0 < length v \<and> length v \<le> 256 \<and> \<not> unsafe_units (map of_char v) \<and> \<not> unsafe_units (percent_bytes v)"
proof -
  have "percent_bytes u = map of_char u" if "CHR ''%'' \<notin> set u" for u
    using that
  proof (induction u)
    case (Cons c u)
    then have "percent_byte (c # u) = None" by (cases "(c # u)" rule: percent_byte.cases) auto
    with Cons show ?case by (simp add: percent_bytes.simps(2))
  qed simp
  then show ?thesis
    using assms decoded_same_ascii [of v] same_ascii_unsafe
    by (fastforce simp: assertSafePathSegment_def not_less split: if_splits option.splits)
qed

theorem safe_segment_no_traversal_witness:
  "assertSafePathSegment ''a.b%41'' = Inr ''a.b%41'' \<and> \<not> unsafe_units (percent_bytes ''a.b%41'')"
proof -
  have "assertSafePathSegment ''a.b%41'' = Inr ''a.b%41''" by code_simp
  from safe_segment_no_traversal [OF this] this show ?thesis by simp
qed

section \<open>The whole guard\<close>

fun dialled :: "lookup_reply \<Rightarrow> string list" where
  "dialled (Addresses as) = as"
| "dialled (OneAddress a) = [a]"

text \<open>
  An IPv6 address as its eight groups of sixteen bits, and the text an address is written as by the URL parser and by the resolver (RFC 5952): lower-case
  groups without leading zeros, the leftmost longest run of two or more zero groups left out.
\<close>

definition hex16 :: "nat \<Rightarrow> string" where
  "hex16 n =
     (if n < 16 then [hex_digit n]
      else if n < 256 then [hex_digit (n div 16), hex_digit (n mod 16)]
      else if n < 4096 then [hex_digit (n div 256), hex_digit (n div 16 mod 16), hex_digit (n mod 16)]
      else [hex_digit (n div 4096), hex_digit (n div 256 mod 16), hex_digit (n div 16 mod 16), hex_digit (n mod 16)])"

definition zero_run :: "nat list \<Rightarrow> nat \<Rightarrow> nat" where
  "zero_run gs i = length (takeWhile (\<lambda>g. g = 0) (drop i gs))"

definition v6_text :: "nat list \<Rightarrow> string" where
  "v6_text gs =
     (case find (\<lambda>i. 2 \<le> zero_run gs i \<and> list_all (\<lambda>j. zero_run gs j \<le> zero_run gs i) [0..<length gs]) [0..<length gs] of
        None \<Rightarrow> join_with '':'' (map hex16 gs)
      | Some i \<Rightarrow> join_with '':'' (map hex16 (take i gs)) @ ''::'' @ join_with '':'' (map hex16 (drop (i + zero_run gs i) gs)))"

definition v6_groups :: "nat list \<Rightarrow> bool" where
  "v6_groups gs \<longleftrightarrow> length gs = 8 \<and> list_all (\<lambda>g. g < 65536) gs"

text \<open>
  The internal IPv6 addresses: unspecified, loopback, link-local (\<^verbatim>\<open>fe80::/10\<close>), unique local (\<^verbatim>\<open>fc00::/7\<close>), and the mapped, compatible and translated forms of
  an internal IPv4 address, the last two where they are written with two groups.
\<close>

definition internal_groups :: "nat list \<Rightarrow> bool" where
  "internal_groups gs \<longleftrightarrow>
     gs = [0, 0, 0, 0, 0, 0, 0, 0] \<or> gs = [0, 0, 0, 0, 0, 0, 0, 1] \<or> hd gs div 64 = 0xFE80 div 64 \<or> hd gs div 512 = 0xFC00 div 512 \<or>
     internal_v4 (gs ! 6 div 256) (gs ! 6 mod 256) \<and>
       (take 6 gs = [0, 0, 0, 0, 0, 0xFFFF] \<or> gs ! 6 \<noteq> 0 \<and> take 6 gs \<in> {[0, 0, 0, 0, 0, 0], [0x64, 0xFF9B, 0, 0, 0, 0]})"

lemma hex_digits:
  "hex_digit 0 = CHR ''0''" "hex_digit (Suc 0) = CHR ''1''" "hex_digit 2 = CHR ''2''" "hex_digit 4 = CHR ''4''" "hex_digit 6 = CHR ''6''" "hex_digit 7 = CHR ''7''"
  "hex_digit 8 = CHR ''8''" "hex_digit 9 = CHR ''9''" "hex_digit 10 = CHR ''a''" "hex_digit 11 = CHR ''b''" "hex_digit 12 = CHR ''c''" "hex_digit 13 = CHR ''d''"
  "hex_digit 14 = CHR ''e''" "hex_digit 15 = CHR ''f''"
  by (simp_all add: hex_digit_def char_of_def bit_0)

lemma upto8: "[0..<8] = [0, 1, 2, 3, 4, 5, 6, 7 :: nat]"
  by (simp add: upt_rec)

lemmas v6_evaluate = v6_text_def zero_run_def upto8 hex16_def hex_digits

lemma v6_text_samples:
  "v6_text [0, 0, 0, 0, 0, 0, 0, 0] = ''::''" "v6_text [0, 0, 0, 0, 0, 0, 0, 1] = ''::1''"
  "v6_text [0x2001, 0xDB8, 0, 0, 8, 0x800, 0x200C, 0x417A] = ''2001:db8::8:800:200c:417a''"
  by (simp_all add: v6_evaluate)

lemma v6_text_embedded:
  "v6_text [0, 0, 0, 0, 0, 0xFFFF, a, b] = ''::ffff:'' @ hex16 a @ CHR '':'' # hex16 b"
  "a \<noteq> 0 \<Longrightarrow> v6_text [0, 0, 0, 0, 0, 0, a, b] = ''::'' @ hex16 a @ CHR '':'' # hex16 b"
  "a \<noteq> 0 \<Longrightarrow> v6_text [0x64, 0xFF9B, 0, 0, 0, 0, a, b] = ''64:ff9b::'' @ hex16 a @ CHR '':'' # hex16 b"
proof -
  have h: "hex16 0xFFFF = ''ffff''" "hex16 0x64 = ''64''" "hex16 0xFF9B = ''ff9b''" by (simp_all add: hex16_def hex_digits)
  note ev = v6_text_def zero_run_def upto8 h
  show "v6_text [0, 0, 0, 0, 0, 0xFFFF, a, b] = ''::ffff:'' @ hex16 a @ CHR '':'' # hex16 b"
    by (cases "a = 0"; cases "b = 0") (simp_all add: ev)
  assume "a \<noteq> 0"
  then show "v6_text [0, 0, 0, 0, 0, 0, a, b] = ''::'' @ hex16 a @ CHR '':'' # hex16 b"
    by (cases "b = 0") (simp_all add: ev)
  show "v6_text [0x64, 0xFF9B, 0, 0, 0, 0, a, b] = ''64:ff9b::'' @ hex16 a @ CHR '':'' # hex16 b"
    using \<open>a \<noteq> 0\<close> by (cases "b = 0") (simp_all add: ev)
qed

lemma hex16_parse:
  assumes "n < 65536"
  shows "hex_group (hex16 n)" and "parse_hex (hex16 n) = n"
proof -
  have digit: "hex_char (hex_digit d)" if "d < 16" for d using that by (auto simp: hex_char_def hex_digit_def is_digit_def)
  have small: "n div 4096 < 16" "n < 4096 \<Longrightarrow> n div 256 < 16" "n < 256 \<Longrightarrow> n div 16 < 16" using assms by (auto simp: less_mult_imp_div_less)
  show "hex_group (hex16 n)" using small by (auto simp: hex_group_def hex16_def digit)
  have s1: "16 * (n div 16) + n mod 16 = n" by simp
  have s2: "16 * (n div 256) + n div 16 mod 16 = n div 16" using mult_div_mod_eq [of 16 "n div 16"] div_mult2_eq [of n 16 16] by simp
  have s3: "16 * (n div 4096) + n div 256 mod 16 = n div 256" using mult_div_mod_eq [of 16 "n div 256"] div_mult2_eq [of n 256 16] by simp
  show "parse_hex (hex16 n) = n"
    using small by (auto simp: hex16_def parse_hex_def hex_value_digit) (use s1 s2 s3 in linarith)+
qed

lemma join_with_head: "\<exists>t. join_with sep (x # xs) = x @ t"
  by (cases xs) auto

lemma v6_text_head:
  assumes "v6_groups gs" and "hd gs \<noteq> 0"
  shows "\<exists>t. v6_text gs = hex16 (hd gs) @ t" and "CHR '':'' \<in> set (v6_text gs)"
proof -
  obtain g h rest where gs: "gs = g # h # rest" using assms(1) by (cases gs; cases "tl gs") (auto simp: v6_groups_def)
  have run0: "zero_run gs 0 = 0" using assms(2) gs by (simp add: zero_run_def)
  let ?find = "find (\<lambda>i. 2 \<le> zero_run gs i \<and> list_all (\<lambda>j. zero_run gs j \<le> zero_run gs i) [0..<length gs]) [0..<length gs]"
  have "(\<exists>t. v6_text gs = hex16 (hd gs) @ t) \<and> CHR '':'' \<in> set (v6_text gs)"
  proof (cases ?find)
    case None
    then show ?thesis unfolding v6_text_def None by (simp add: gs)
  next
    case (Some i)
    then have "2 \<le> zero_run gs i" by (auto simp: find_Some_iff)
    then have "i \<noteq> 0" using run0 by (cases "i = 0") auto
    then obtain k where "take i gs = g # k" using gs by (cases i) auto
    then show ?thesis unfolding v6_text_def Some using join_with_head [of "'':''" "hex16 g" "map hex16 k"] gs by auto
  qed
  then show "\<exists>t. v6_text gs = hex16 (hd gs) @ t" "CHR '':'' \<in> set (v6_text gs)" by blast+
qed

lemma link_local_text:
  assumes "g div 64 = 0xFE80 div 64"
  shows "\<exists>c t. hex16 g = CHR ''f'' # CHR ''e'' # c # t \<and> c \<in> set ''89ab''"
proof -
  have d: "g div 4096 = 15" "g div 256 = 254" "g div 16 div 4 = 1018"
    using assms div_mult2_eq [of g 64 64] div_mult2_eq [of g 64 4] div_mult2_eq [of g 16 4] by simp_all
  then have "g div 16 \<in> {4072, 4073, 4074, 4075}" by auto
  then have "g div 16 mod 16 \<in> {8, 9, 10, 11}" by auto
  moreover have "4096 \<le> g" using assms by auto
  ultimately show ?thesis using d(1,2) by (auto simp: hex16_def hex_digits)
qed

lemma unique_local_text:
  assumes "g div 512 = 0xFC00 div 512"
  shows "\<exists>c t. hex16 g = CHR ''f'' # c # t \<and> c \<in> set ''cd''"
proof -
  have d: "g div 4096 = 15" "g div 256 div 2 = 126" using assms div_mult2_eq [of g 512 8] div_mult2_eq [of g 256 2] by simp_all
  then have "g div 256 \<in> {252, 253}" by auto
  then have "g div 256 mod 16 \<in> {12, 13}" by auto
  moreover have "4096 \<le> g" using assms by auto
  ultimately show ?thesis using d(1) by (auto simp: hex16_def hex_digits)
qed

lemma groups_by_text:
  assumes "v6_groups gs" and "internal_groups gs"
  shows "CHR '':'' \<in> set (v6_text gs) \<and> internal_v6 (v6_text gs) \<or> (\<exists>a b. denotes_v4 (v6_text gs) a b \<and> internal_v4 a b)"
proof -
  consider "gs = [0, 0, 0, 0, 0, 0, 0, 0] \<or> gs = [0, 0, 0, 0, 0, 0, 0, 1]" | "hd gs div 64 = 0xFE80 div 64" | "hd gs div 512 = 0xFC00 div 512"
    | "internal_v4 (gs ! 6 div 256) (gs ! 6 mod 256)" "take 6 gs = [0, 0, 0, 0, 0, 0xFFFF] \<or> gs ! 6 \<noteq> 0 \<and> take 6 gs \<in> {[0, 0, 0, 0, 0, 0], [0x64, 0xFF9B, 0, 0, 0, 0]}"
    using assms(2) unfolding internal_groups_def by blast
  then show ?thesis
  proof cases
    case 1
    then show ?thesis using v6_text_samples(1,2) by (auto simp: internal_v6_def)
  next
    case 2
    then have "hd gs \<noteq> 0" by auto
    note v6_text_head [OF assms(1) this]
    with link_local_text [OF 2] show ?thesis by (auto simp: internal_v6_def)
  next
    case 3
    then have "hd gs \<noteq> 0" by auto
    note v6_text_head [OF assms(1) this]
    with unique_local_text [OF 3] show ?thesis by (auto simp: internal_v6_def)
  next
    case 4
    define a where "a = gs ! 6"
    define b where "b = gs ! 7"
    have gs: "gs = take 6 gs @ [a, b]" and less: "a < 65536" "b < 65536"
    proof -
      have "length gs = 8" using assms(1) by (simp add: v6_groups_def)
      then obtain g0 g1 g2 g3 g4 g5 g6 g7 where "gs = [g0, g1, g2, g3, g4, g5, g6, g7]" by (auto simp: length_Suc_conv numeral_eq_Suc)
      then show "gs = take 6 gs @ [a, b]" "a < 65536" "b < 65536" using assms(1) by (simp_all add: v6_groups_def a_def b_def)
    qed
    have h: "hex_group (hex16 a)" "hex_group (hex16 b)" "parse_hex (hex16 a) = a" using hex16_parse less by auto
    have notffff: "hex16 a \<noteq> ''ffff''"
    proof
      assume "hex16 a = ''ffff''"
      then have "a = 0xFFFF" using h(3) by (simp add: parse_hex_def hex_value_def)
      then show False using 4(1) a_def by (simp add: internal_v4_def)
    qed
    have v4: "internal_v4 (parse_hex (hex16 a) div 256) (parse_hex (hex16 a) mod 256)" using 4(1) h(3) a_def by simp
    consider "take 6 gs = [0, 0, 0, 0, 0, 0xFFFF]" | "a \<noteq> 0" "take 6 gs = [0, 0, 0, 0, 0, 0]" | "a \<noteq> 0" "take 6 gs = [0x64, 0xFF9B, 0, 0, 0, 0]"
      using 4(2) a_def by blast
    then show ?thesis
    proof cases
      case 1
      then have "v6_text gs = ''::ffff:'' @ hex16 a @ CHR '':'' # hex16 b" using v6_text_embedded(1) [of a b] gs by simp
      then show ?thesis using denotes_v4.mapped_hex [OF h(1,2)] v4 by metis
    next
      case 2
      then have "v6_text gs = ''::'' @ hex16 a @ CHR '':'' # hex16 b" using v6_text_embedded(2) [of a b] gs by simp
      then show ?thesis using denotes_v4.compatible_hex [OF h(1,2) notffff] v4 by metis
    next
      case 3
      then have "v6_text gs = ''64:ff9b::'' @ hex16 a @ CHR '':'' # hex16 b" using v6_text_embedded(3) [of a b] gs by simp
      then show ?thesis using denotes_v4.nat64 [OF h(1,2)] v4 by metis
    qed
  qed
qed

definition internal_host :: "string \<Rightarrow> bool" where
  "internal_host host \<longleftrightarrow>
     (\<exists>a b. denotes_v4 (strip_brackets (to_lower host)) a b \<and> internal_v4 a b) \<or>
     (\<exists>gs. v6_groups gs \<and> strip_brackets (to_lower host) = v6_text gs \<and> internal_groups gs)"

lemma internal_blocked: "internal_host host \<Longrightarrow> isBlockedIp host"
proof -
  assume "internal_host host"
  then have "(\<exists>a b. denotes_v4 (strip_brackets (to_lower host)) a b \<and> internal_v4 a b) \<or>
      CHR '':'' \<in> set (strip_brackets (to_lower host)) \<and> internal_v6 (strip_brackets (to_lower host))"
    unfolding internal_host_def using groups_by_text by metis
  then show ?thesis
  proof
    assume "CHR '':'' \<in> set (strip_brackets (to_lower host)) \<and> internal_v6 (strip_brackets (to_lower host))"
    then show ?thesis by (subst isBlockedIp.simps) (simp add: Let_def)
  qed (use blocked_denotes [OF refl] in auto)
qed

text \<open>The compatible form of an address in the zero network is written with one group and is not read as an IPv4 address.\<close>

lemma compat_zero_network_unread: "\<not> isBlockedIp ''::5''"
  by code_simp

lemma guardedLookup_filters:
  assumes "guardedLookup dns host all = Inr reply"
  shows "dialled reply \<noteq> [] \<and> (\<exists>found. dns host = Inr found \<and> (\<forall>a\<in>set (dialled reply). a \<in> set found \<and> \<not> isBlockedIp a))"
proof -
  obtain found where found: "dns host = Inr found" using assms by (auto simp: guardedLookup_def split: sum.splits)
  obtain first rest where safe: "filter (\<lambda>a. \<not> isBlockedIp a) found = first # rest"
    using assms found by (auto simp: guardedLookup_def Let_def split: list.splits)
  have "dialled reply = (if all then first # rest else [first])"
    using assms found safe by (auto simp: guardedLookup_def Let_def)
  moreover have "set (first # rest) = {a \<in> set found. \<not> isBlockedIp a}" unfolding safe [symmetric] by auto
  ultimately show ?thesis using found by (cases all) auto
qed

text \<open>
  C34. The egress guard keeps requests outside. A URL it lets through has no credentials, is https unless that was waived, names no internal address and no local or
  metadata name, and is on the allow list where there is one, which an air-gapped gateway requires; and whatever the name resolves to when the connection
  is made, the addresses dialled are among the resolved ones, there is one, and none is internal. Internal are the loopback, private, link-local, carrier and zero IPv4
  networks, dotted or in the dotted or hexadecimal mapped, compatible and translated IPv6 forms, and, in the notation of RFC 5952, the unspecified, loopback, link-local and
  unique local IPv6 addresses.\<close>

theorem egress_stays_outside:
  assumes "assertEgressAllowed parse_url airGapped raw opts = Inr url"
    and "guardedLookup dns (url_hostname url) all = Inr reply"
  shows "parse_url raw = Some url \<and> url_username url = [] \<and> url_password url = [] \<and> (eo_requireHttps opts = Some False \<or> url_protocol url = ''https:'')
    \<and> \<not> internal_host (to_lower (url_hostname url)) \<and> \<not> isBlockedHostname (to_lower (url_hostname url))
    \<and> (\<forall>hs. toSet (eo_allowlist opts) = Some hs \<longrightarrow> hs = [] \<or> to_lower (url_hostname url) \<in> set hs)
    \<and> ((case eo_airGapped opts of Some b \<Rightarrow> b | None \<Rightarrow> airGapped) \<longrightarrow>
        (\<exists>hs. toSet (eo_allowlist opts) = Some hs \<and> to_lower (url_hostname url) \<in> set hs))
    \<and> dialled reply \<noteq> [] \<and> (\<exists>found. dns (url_hostname url) = Inr found \<and> set (dialled reply) \<subseteq> set found) \<and> (\<forall>a\<in>set (dialled reply). \<not> internal_host a)"
proof -
  have "(\<forall>hs. toSet (eo_allowlist opts) = Some hs \<longrightarrow> hs = [] \<or> to_lower (url_hostname url) \<in> set hs)
    \<and> ((case eo_airGapped opts of Some b \<Rightarrow> b | None \<Rightarrow> airGapped) \<longrightarrow>
        (\<exists>hs. toSet (eo_allowlist opts) = Some hs \<and> to_lower (url_hostname url) \<in> set hs))"
    using assms(1) by (auto simp: assertEgressAllowed_def Let_def split: option.splits if_splits)
  moreover have "parse_url raw = Some url \<and> url_username url = [] \<and> url_password url = [] \<and> (eo_requireHttps opts = Some False \<or> url_protocol url = ''https:'')
    \<and> \<not> isBlockedIp (to_lower (url_hostname url)) \<and> \<not> isBlockedHostname (to_lower (url_hostname url))"
    using assms(1) by (auto simp: assertEgressAllowed_def Let_def split: option.splits if_splits)
  ultimately show ?thesis using guardedLookup_filters [OF assms(2)] internal_blocked by blast
qed

definition sample_url :: "string \<Rightarrow> URL option" where
  "sample_url raw = (if raw = ''https://api/'' then Some \<lparr>url_protocol = ''https:'', url_username = [], url_password = [], url_hostname = ''api''\<rparr> else None)"

definition sample_dns :: "string \<Rightarrow> unit + string list" where
  "sample_dns host = Inr [''10.0.0.1'', ''::1'', ''8.8.4.4'']"

definition sample_options :: EgressOptions where
  "sample_options = \<lparr>eo_allowlist = Some (HostArray [''API'']), eo_requireHttps = None, eo_airGapped = None\<rparr>"

theorem egress_stays_outside_witness:
  "\<not> internal_host ''8.8.4.4'' \<and> internal_host ''10.0.0.1'' \<and> internal_host ''::1''"
proof -
  have oct: "list_all octet [''8'', ''8'', ''4'', ''4'']" "list_all octet [''10'', ''0'', ''0'', ''1'']" by code_simp+
  have texts: "''8.8.4.4'' = dotted ''8'' ''8'' ''4'' ''4''" "''10.0.0.1'' = dotted ''10'' ''0'' ''0'' ''1''" by (simp_all add: dotted_def)
  have plain: "strip_brackets (to_lower ''8.8.4.4'') = dotted ''8'' ''8'' ''4'' ''4''" "strip_brackets (to_lower ''10.0.0.1'') = dotted ''10'' ''0'' ''0'' ''1''"
    using plain_text [OF dotted_chars [OF oct(1)]] plain_text [OF dotted_chars [OF oct(2)]] by (simp_all only: texts)
  have blocked: "\<not> isBlockedIp ''8.8.4.4''" "isBlockedIp ''10.0.0.1''"
    using blocked_plain [OF oct(1) plain(1)] blocked_plain [OF oct(2) plain(2)] by (simp_all add: internal_v4_def read_nat_def digit_val_def)
  have "denotes_v4 (dotted ''10'' ''0'' ''0'' ''1'') 10 0"
    using denotes_v4.plain [OF oct(2)] by (simp add: read_nat_def digit_val_def)
  then have "internal_host ''10.0.0.1''" unfolding internal_host_def plain(2) by (auto simp: internal_v4_def)
  moreover have loop: "internal_host ''::1''"
  proof -
    have "strip_brackets (to_lower ''::1'') = v6_text [0, 0, 0, 0, 0, 0, 0, 1]" unfolding v6_text_samples by code_simp
    moreover have "internal_groups [0, 0, 0, 0, 0, 0, 0, 1]" "v6_groups [0, 0, 0, 0, 0, 0, 0, 1]" by (simp_all add: internal_groups_def v6_groups_def)
    ultimately show ?thesis unfolding internal_host_def by blast
  qed
  moreover have "to_lower ''api'' = ''api''" "to_lower ''API'' = ''api''" by (simp_all add: to_lower_def lower_char_def char_of_def bit_0)
  moreover have "\<not> isBlockedIp ''api''" by code_simp
  moreover have "\<not> isBlockedHostname ''api''" by code_simp
  ultimately have "assertEgressAllowed sample_url True ''https://api/'' sample_options = Inr (the (sample_url ''https://api/''))"
    by (simp add: assertEgressAllowed_def sample_url_def sample_options_def)
  moreover have "guardedLookup sample_dns (url_hostname (the (sample_url ''https://api/''))) False = Inr (OneAddress ''8.8.4.4'')"
    using blocked internal_blocked [OF loop] by (simp add: guardedLookup_def sample_dns_def)
  ultimately have "\<forall>a\<in>set (dialled (OneAddress ''8.8.4.4'')). \<not> internal_host a" by (blast dest: egress_stays_outside)
  with \<open>internal_host ''10.0.0.1''\<close> loop show ?thesis by simp
qed

end
