(* ===== verification/Cel_Syntax.thy ===== *)
theory Cel_Syntax
  imports Js_Parse
begin

text \<open>
  The expression language of \<^verbatim>\<open>packages/cel\<close>: its syntax tree (\<^verbatim>\<open>ast.ts\<close>), lexer and recursive-descent parser (\<^verbatim>\<open>parse.ts\<close>). A parser method takes the tokens left and
  returns the tree and the rest, or the error thrown; the nesting depth it may still use is an argument. A loop that would go on without having read a token stops
  with \<open>NoProgress\<close>, which is shown never to happen. Numbers are exact; an escape of a code unit above 255 has no character here and is the error \<open>NotRepresentable\<close>.
  Shown: a tree printed with as few parentheses as precedence and associativity allow is read back.
\<close>

section \<open>Syntax\<close>

datatype LiteralValue = LNum jsnum | LStr string | LBool bool | LNull | LBytes "nat list"

datatype BinaryOp = OpAdd | OpSub | OpMul | OpDiv | OpMod | OpEq | OpNe | OpLt | OpLe | OpGt | OpGe | OpAnd | OpOr | OpIn

datatype UnaryOp = OpNot | OpNeg

datatype MacroName = MacroAll | MacroExists | MacroExistsOne | MacroFilter | MacroMap

datatype Expr =
    Lit LiteralValue
  | Ident string
  | EList "Expr list"
  | EMap "(Expr \<times> Expr) list"
  | Unary UnaryOp Expr
  | Binary BinaryOp Expr Expr
  | Ternary Expr Expr Expr
  | Member Expr string
  | Index Expr Expr
  | Call string "Expr list"
  | Method Expr string "Expr list"
  | Macro Expr MacroName string Expr

definition MACROS :: "(string \<times> MacroName) list" where
  "MACROS = [(''all'', MacroAll), (''exists'', MacroExists), (''exists_one'', MacroExistsOne), (''filter'', MacroFilter), (''map'', MacroMap)]"

definition isMacroName :: "string \<Rightarrow> bool" where
  "isMacroName s \<longleftrightarrow> jm_get MACROS s \<noteq> None"

section \<open>Lexer\<close>

datatype CelParseError =
    UnterminatedString | UnexpectedChar char | UnexpectedEnd | ExpectedOp string | TrailingTokens | TooDeep | ExpectedField
  | ExpectedBinding string | UnexpectedKeyword string | UnexpectedToken | UnknownMacro string | UnknownVariable string | NotBool | NotRepresentable | NoProgress

datatype Tok = TNum jsnum | TStr string | TBytes "nat list" | TIdent string | TKw string | TOp string

definition OPS3 :: "string list" where
  "OPS3 = [''==='']"

definition OPS2 :: "string list" where
  "OPS2 = [''=='', ''!='', ''<='', ''>='', ''&&'', ''||'']"

definition OPS1 :: "string list" where
  "OPS1 = map (\<lambda>c. [c]) ''?:<>+-*/%!.,()[]{}''"

definition isIdentStart :: "char \<Rightarrow> bool" where
  "isIdentStart c \<longleftrightarrow> (let n = (of_char c :: nat) in 65 \<le> n \<and> n \<le> 90 \<or> 97 \<le> n \<and> n \<le> 122) \<or> c = CHR ''_''"

definition isIdentPart :: "char \<Rightarrow> bool" where
  "isIdentPart c \<longleftrightarrow> isIdentStart c \<or> is_digit c"

definition cel_space :: "char \<Rightarrow> bool" where
  "cel_space c \<longleftrightarrow> (of_char c :: nat) \<in> {9, 10, 13, 32}"

definition is_quote :: "char \<Rightarrow> bool" where
  "is_quote c \<longleftrightarrow> c = CHR 0x22 \<or> c = CHR 0x27"

text \<open>\<^verbatim>\<open>parseInt(s, 16)\<close>: the longest hexadecimal prefix after white space, a sign and \<^verbatim>\<open>0x\<close>; \<open>None\<close> is \<^verbatim>\<open>NaN\<close>.\<close>

definition is_hex :: "char \<Rightarrow> bool" where
  "is_hex c \<longleftrightarrow> hex_value c \<noteq> None"

definition hex_number :: "string \<Rightarrow> nat" where
  "hex_number s = foldl (\<lambda>acc c. 16 * acc + the (hex_value c)) 0 s"

definition parse_int16 :: "string \<Rightarrow> int option" where
  "parse_int16 s =
     (let t = dropWhile js_space s;
          neg = (starts_with t ''-'');
          u = (if starts_with t ''-'' \<or> starts_with t ''+'' then tl t else t);
          v = (if starts_with u ''0x'' \<or> starts_with u ''0X'' then drop 2 u else u);
          ds = takeWhile is_hex v in
      if ds = [] then None else Some (if neg then - int (hex_number ds) else int (hex_number ds)))"

text \<open>\<^verbatim>\<open>String.fromCharCode\<close>: modulo the width of a code unit, \<^verbatim>\<open>NaN\<close> being 0.\<close>

definition fromCharCode :: "int option \<Rightarrow> char option" where
  "fromCharCode n = (let u = (case n of Some i \<Rightarrow> nat (i mod 65536) | None \<Rightarrow> 0) in if u < 256 then Some (char_of u) else None)"

definition escaped_char :: "char \<Rightarrow> char" where
  "escaped_char e =
     (if e = CHR ''n'' then CHR 0x0A else if e = CHR ''t'' then CHR 0x09 else if e = CHR ''r'' then CHR 0x0D
      else if e = CHR ''0'' then CHR 0x00 else e)"

text \<open>The body of a string up to its closing quote.\<close>

function scan_body :: "char \<Rightarrow> bool \<Rightarrow> string \<Rightarrow> CelParseError + (string \<times> string)" where
  "scan_body quote raw [] = Inl UnterminatedString"
| "scan_body quote raw (c # r) =
     (if c = quote then Inr ([], r)
      else if c = CHR 0x5C \<and> \<not> raw then
        (case r of
           [] \<Rightarrow> Inl UnterminatedString
         | e # t \<Rightarrow>
             if e = CHR ''u'' \<or> e = CHR ''x'' then
               (let k = (if e = CHR ''u'' then 4 else 2) in
                case fromCharCode (parse_int16 (take k t)) of
                  None \<Rightarrow> Inl NotRepresentable
                | Some u \<Rightarrow> map_sum id (\<lambda>(s, q). (u # s, q)) (scan_body quote raw (drop k t)))
             else map_sum id (\<lambda>(s, q). (escaped_char e # s, q)) (scan_body quote raw t))
      else map_sum id (\<lambda>(s, q). (c # s, q)) (scan_body quote raw r))"
  by pat_completeness auto
termination by (relation "measure (\<lambda>(q, raw, s). length s)") auto

lemma scan_body_shorter: "scan_body quote raw s = Inr (b, r) \<Longrightarrow> length r < length s"
proof (induction quote raw s arbitrary: b rule: scan_body.induct)
  case (2 quote raw c s)
  have map: "\<exists>b'. x = Inr (b', r)" if "map_sum id (\<lambda>(s, q). (u # s, q)) x = Inr (b, r)" for x :: "CelParseError + (string \<times> string)" and u
    using that by (cases x) auto
  show ?case
    using 2(4) 2(1-3) by (fastforce split: if_splits list.splits option.splits dest!: map simp: Let_def)
qed simp

text \<open>\<^verbatim>\<open>TextEncoder\<close> on code units below 256.\<close>

definition utf8_encode :: "string \<Rightarrow> nat list" where
  "utf8_encode s = concat (map (\<lambda>c. let n = of_char c in if n < 128 then [n] else [192 + n div 64, 128 + n mod 64]) s)"

text \<open>A number: hexadecimal, or digits with an optional fraction and exponent; the text read and the rest.\<close>

definition take_digits :: "string \<Rightarrow> string \<times> string" where
  "take_digits s = (takeWhile is_digit s, dropWhile is_digit s)"

definition decimal_value :: "string \<Rightarrow> string \<Rightarrow> real" where
  "decimal_value ip fp = real (read_nat (ip @ fp)) / 10 ^ length fp"

text \<open>\<^verbatim>\<open>Number\<close> of such a text: \<^verbatim>\<open>NaN\<close> when the exponent has no digits.\<close>

definition scan_number :: "string \<Rightarrow> jsnum \<times> string" where
  "scan_number s =
     (let (ip, r1) = take_digits s;
          (fp, r2) = (if starts_with r1 ''.'' then take_digits (tl r1) else ([], r1)) in
      if starts_with r2 ''e'' \<or> starts_with r2 ''E'' then
        (let r3 = tl r2; neg = starts_with r3 ''-''; r4 = (if neg \<or> starts_with r3 ''+'' then tl r3 else r3); (ep, r5) = take_digits r4 in
         (if ep = [] then NaN
          else Num (if neg then decimal_value ip fp / 10 ^ read_nat ep else decimal_value ip fp * 10 ^ read_nat ep), r5))
      else (Num (decimal_value ip fp), r2))"

definition scan_hex :: "string \<Rightarrow> jsnum \<times> string" where
  "scan_hex s =
     (let ds = takeWhile is_hex (drop 2 s) in
      (if ds = [] then NaN else Num (real (hex_number ds)), dropWhile is_hex (drop 2 s)))"

definition drop_suffix :: "string \<Rightarrow> string" where
  "drop_suffix r = (if starts_with r ''u'' \<or> starts_with r ''U'' then tl r else r)"

text \<open>The token at the start of a text that is neither white space nor a comment.\<close>

definition keyword_or_ident :: "string \<Rightarrow> Tok" where
  "keyword_or_ident word = (if word \<in> {''true'', ''false'', ''null'', ''in''} then TKw word else TIdent word)"

definition scan_operator :: "string \<Rightarrow> CelParseError + (Tok \<times> string)" where
  "scan_operator s =
     (if take 3 s \<in> set OPS3 then Inr (TOp (take 3 s), drop 3 s)
      else if take 2 s \<in> set OPS2 then Inr (TOp (take 2 s), drop 2 s)
      else if take 1 s \<in> set OPS1 then Inr (TOp (take 1 s), drop 1 s)
      else Inl (UnexpectedChar (hd s)))"

definition second_is :: "(char \<Rightarrow> bool) \<Rightarrow> string \<Rightarrow> bool" where
  "second_is P s = (case s of _ # c # _ \<Rightarrow> P c | _ \<Rightarrow> False)"

definition lex_token :: "string \<Rightarrow> CelParseError + (Tok \<times> string)" where
  "lex_token s =
     (let c = hd s in
      if is_quote c then map_sum id (\<lambda>(b, r). (TStr b, r)) (scan_body c False (tl s))
      else if c = CHR ''r'' \<and> second_is is_quote s then map_sum id (\<lambda>(b, r). (TStr b, r)) (scan_body (s ! 1) True (drop 2 s))
      else if c = CHR ''b'' \<and> second_is is_quote s then map_sum id (\<lambda>(b, r). (TBytes (utf8_encode b), r)) (scan_body (s ! 1) False (drop 2 s))
      else if is_digit c \<or> c = CHR ''.'' \<and> second_is is_digit s then
        (if c = CHR ''0'' \<and> second_is (\<lambda>x. x = CHR ''x'' \<or> x = CHR ''X'') s then (let (v, r) = scan_hex s in Inr (TNum v, r))
         else (let (v, r) = scan_number s in Inr (TNum v, drop_suffix r)))
      else if isIdentStart c then Inr (keyword_or_ident (takeWhile isIdentPart s), dropWhile isIdentPart s)
      else scan_operator s)"

lemma scan_number_shorter:
  assumes "scan_number s = (v, r)" and "s \<noteq> []" and "is_digit (hd s) \<or> hd s = CHR ''.'' \<and> second_is is_digit s"
  shows "length r < length s"
proof -
  obtain ip r1 where d1: "take_digits s = (ip, r1)" by (cases "take_digits s")
  define q where "q = (if starts_with r1 ''.'' then take_digits (tl r1) else ([], r1))"
  obtain fp r2 where q: "q = (fp, r2)" by (cases q)
  have le: "length (snd (take_digits t)) \<le> length t" for t by (simp add: take_digits_def length_dropWhile_le)
  have tl: "length (tl t) \<le> length t" for t :: string by simp
  have "length r2 < length s"
  proof (cases "is_digit (hd s)")
    case True
    then have "length r1 < length s"
      using d1 assms(2) length_dropWhile_le [of is_digit "tl s"] by (cases s) (auto simp: take_digits_def)
    moreover have "length r2 \<le> length r1"
      using q le [of "tl r1"] by (auto simp: q_def split: if_splits)
    ultimately show ?thesis by simp
  next
    case False
    then obtain t where s: "s = CHR ''.'' # t" using assms(2,3) by (cases s) auto
    then have "r1 = s" using d1 by (simp add: take_digits_def is_digit_def)
    then show ?thesis using q s le [of t] by (auto simp: q_def)
  qed
  moreover have "length r \<le> length r2"
    using assms(1) d1 q le [of "tl (tl r2)"] le [of "tl r2"]
    by (auto simp: scan_number_def q_def Let_def split_def split: if_splits)
  ultimately show ?thesis by simp
qed

lemma scan_operator_shorter: "scan_operator s = Inr (t, r) \<Longrightarrow> s \<noteq> [] \<Longrightarrow> length r < length s"
  by (auto simp: scan_operator_def split: if_splits)

lemma lex_token_shorter:
  assumes "lex_token s = Inr (t, r)" and "s \<noteq> []"
  shows "length r < length s"
proof -
  have body: "length r < length u" if "map_sum id (\<lambda>(b, q). (f b, q)) (scan_body c raw u) = Inr (t, r)" for f :: "string \<Rightarrow> Tok" and c raw u
    using that by (cases "scan_body c raw u") (auto dest: scan_body_shorter)
  have drop: "length (dropWhile P (drop n u)) \<le> length u - n" for P n and u :: string
    using length_dropWhile_le [of P "drop n u"] by simp
  consider (quoted) "is_quote (hd s)" | (raw) "\<not> is_quote (hd s)" "(hd s = CHR ''r'' \<or> hd s = CHR ''b'') \<and> second_is is_quote s"
    | (num) "is_digit (hd s) \<or> hd s = CHR ''.'' \<and> second_is is_digit s" "\<not> is_quote (hd s)" "\<not> ((hd s = CHR ''r'' \<or> hd s = CHR ''b'') \<and> second_is is_quote s)"
    | (word) "isIdentStart (hd s)" "\<not> is_quote (hd s)" "\<not> ((hd s = CHR ''r'' \<or> hd s = CHR ''b'') \<and> second_is is_quote s)"
        "\<not> (is_digit (hd s) \<or> hd s = CHR ''.'' \<and> second_is is_digit s)"
    | (op) "\<not> isIdentStart (hd s)" "\<not> is_quote (hd s)" "\<not> ((hd s = CHR ''r'' \<or> hd s = CHR ''b'') \<and> second_is is_quote s)"
        "\<not> (is_digit (hd s) \<or> hd s = CHR ''.'' \<and> second_is is_digit s)" by blast
  then show ?thesis
  proof cases
    case quoted
    then show ?thesis using assms body by (cases s) (auto simp: lex_token_def less_Suc_eq)
  next
    case raw
    then obtain a b u where s: "s = a # b # u" using assms(2) by (auto simp: second_is_def split: list.splits)
    show ?thesis using raw assms(1) body unfolding s by (fastforce simp: lex_token_def less_SucI split: if_splits)
  next
    case num
    show ?thesis
    proof (cases "hd s = CHR ''0'' \<and> second_is (\<lambda>x. x = CHR ''x'' \<or> x = CHR ''X'') s")
      case True
      then have "r = dropWhile is_hex (drop 2 s)" using assms(1) num by (auto simp: lex_token_def scan_hex_def Let_def)
      with drop [of is_hex 2 s] assms(2) show ?thesis by (cases s) auto
    next
      case False
      then have "r = drop_suffix (snd (scan_number s))" using assms(1) num by (auto simp: lex_token_def split_def Let_def)
      with scan_number_shorter [of s _ "snd (scan_number s)"] assms(2) num(1) show ?thesis
        by (auto simp: drop_suffix_def prod_eq_iff split: if_splits intro: less_trans [OF _ scan_number_shorter])
    qed
  next
    case word
    then have "r = dropWhile isIdentPart s" using assms(1) by (auto simp: lex_token_def Let_def)
    then show ?thesis using word(1) assms(2) length_dropWhile_le [of isIdentPart "tl s"] by (cases s) (auto simp: isIdentPart_def)
  next
    case op
    then show ?thesis using assms scan_operator_shorter by (auto simp: lex_token_def Let_def)
  qed
qed

function lex :: "string \<Rightarrow> CelParseError + Tok list" where
  "lex s =
     (if s = [] then Inr []
      else if cel_space (hd s) then lex (tl s)
      else if starts_with s ''//'' then lex (dropWhile (\<lambda>c. c \<noteq> CHR 0x0A) s)
      else case lex_token s of
        Inl e \<Rightarrow> Inl e
      | Inr (t, r) \<Rightarrow> map_sum id (Cons t) (lex r))"
  by pat_completeness auto
termination
proof (relation "measure length", goal_cases)
  case (3 s)
  then show ?case using length_dropWhile_le [of "\<lambda>c. c \<noteq> CHR 0x0A" "tl s"] by (cases s) (auto simp: less_Suc_eq_le)
next
  case (4 s)
  then show ?case using lex_token_shorter by auto
qed (auto simp: neq_Nil_conv)

declare lex.simps [simp del]

section \<open>Parser\<close>

definition MAX_PARSE_DEPTH :: nat where
  "MAX_PARSE_DEPTH = 200"

text \<open>Sequencing: the tree read and the tokens left, or the error.\<close>

definition then_p :: "CelParseError + ('a \<times> Tok list) \<Rightarrow> ('a \<Rightarrow> Tok list \<Rightarrow> CelParseError + ('b \<times> Tok list)) \<Rightarrow> CelParseError + ('b \<times> Tok list)" where
  "then_p x f = (case x of Inl e \<Rightarrow> Inl e | Inr (a, r) \<Rightarrow> f a r)"

fun isOp :: "string \<Rightarrow> Tok list \<Rightarrow> bool" where
  "isOp v (TOp w # ts) = (w = v)"
| "isOp v _ = False"

definition expectOp :: "string \<Rightarrow> Tok list \<Rightarrow> CelParseError + (unit \<times> Tok list)" where
  "expectOp v ts = (if isOp v ts then Inr ((), tl ts) else Inl (ExpectedOp v))"

definition or_op :: "Tok \<Rightarrow> BinaryOp option" where
  "or_op t = (if t = TOp ''||'' then Some OpOr else None)"

definition and_op :: "Tok \<Rightarrow> BinaryOp option" where
  "and_op t = (if t = TOp ''&&'' then Some OpAnd else None)"

definition rel_op :: "Tok \<Rightarrow> BinaryOp option" where
  "rel_op t =
     jm_get [(TOp ''=='', OpEq), (TOp ''!='', OpNe), (TOp ''<'', OpLt), (TOp ''<='', OpLe), (TOp ''>'', OpGt), (TOp ''>='', OpGe), (TKw ''in'', OpIn)] t"

definition add_op :: "Tok \<Rightarrow> BinaryOp option" where
  "add_op t = jm_get [(TOp ''+'', OpAdd), (TOp ''-'', OpSub)] t"

definition mul_op :: "Tok \<Rightarrow> BinaryOp option" where
  "mul_op t = jm_get [(TOp ''*'', OpMul), (TOp ''/'', OpDiv), (TOp ''%'', OpMod)] t"

text \<open>The loop of a left-associative level: while an operator of the level follows, read a right operand.\<close>

function bin_loop :: "(Tok \<Rightarrow> BinaryOp option) \<Rightarrow> (Tok list \<Rightarrow> CelParseError + (Expr \<times> Tok list)) \<Rightarrow> Expr \<Rightarrow> Tok list \<Rightarrow> CelParseError + (Expr \<times> Tok list)" where
  "bin_loop opof p left ts =
     (case ts of
        [] \<Rightarrow> Inr (left, ts)
      | t # r \<Rightarrow>
          (case opof t of
             None \<Rightarrow> Inr (left, ts)
           | Some op \<Rightarrow>
               (case p r of
                  Inl e \<Rightarrow> Inl e
                | Inr (right, r') \<Rightarrow>
                    if length r' < length ts then bin_loop opof p (Binary op left right) r' else Inl NoProgress)))"
  by pat_completeness auto
termination by (relation "measure (\<lambda>(opof, p, left, ts). length ts)") auto

declare bin_loop.simps [simp del]

definition parse_mul :: "(Tok list \<Rightarrow> CelParseError + (Expr \<times> Tok list)) \<Rightarrow> Tok list \<Rightarrow> CelParseError + (Expr \<times> Tok list)" where
  "parse_mul unary ts = then_p (unary ts) (bin_loop mul_op unary)"

definition parse_add :: "(Tok list \<Rightarrow> CelParseError + (Expr \<times> Tok list)) \<Rightarrow> Tok list \<Rightarrow> CelParseError + (Expr \<times> Tok list)" where
  "parse_add unary ts = then_p (parse_mul unary ts) (bin_loop add_op (parse_mul unary))"

definition parse_rel :: "(Tok list \<Rightarrow> CelParseError + (Expr \<times> Tok list)) \<Rightarrow> Tok list \<Rightarrow> CelParseError + (Expr \<times> Tok list)" where
  "parse_rel unary ts = then_p (parse_add unary ts) (bin_loop rel_op (parse_add unary))"

definition parse_and :: "(Tok list \<Rightarrow> CelParseError + (Expr \<times> Tok list)) \<Rightarrow> Tok list \<Rightarrow> CelParseError + (Expr \<times> Tok list)" where
  "parse_and unary ts = then_p (parse_rel unary ts) (bin_loop and_op (parse_rel unary))"

definition parse_or :: "(Tok list \<Rightarrow> CelParseError + (Expr \<times> Tok list)) \<Rightarrow> Tok list \<Rightarrow> CelParseError + (Expr \<times> Tok list)" where
  "parse_or unary ts = then_p (parse_and unary ts) (bin_loop or_op (parse_and unary))"

text \<open>Expressions separated by commas, up to a token that is none; \<open>stop\<close> is the closing operator before which a trailing comma is allowed.\<close>

function more_items :: "(Tok list \<Rightarrow> CelParseError + ('a \<times> Tok list)) \<Rightarrow> string option \<Rightarrow> 'a list \<Rightarrow> Tok list \<Rightarrow> CelParseError + ('a list \<times> Tok list)" where
  "more_items item stop acc ts =
     (if \<not> isOp '','' ts then Inr (acc, ts)
      else if (case stop of Some v \<Rightarrow> isOp v (tl ts) | None \<Rightarrow> False) then Inr (acc, tl ts)
      else case item (tl ts) of
        Inl e \<Rightarrow> Inl e
      | Inr (x, r) \<Rightarrow> if length r < length ts then more_items item stop (acc @ [x]) r else Inl NoProgress)"
  by pat_completeness auto
termination by (relation "measure (\<lambda>(item, stop, acc, ts). length ts)") auto

declare more_items.simps [simp del]

definition item_list :: "(Tok list \<Rightarrow> CelParseError + ('a \<times> Tok list)) \<Rightarrow> string option \<Rightarrow> string \<Rightarrow> Tok list \<Rightarrow> CelParseError + ('a list \<times> Tok list)" where
  "item_list item stop close ts =
     then_p (if isOp close ts then Inr ([], ts) else then_p (item ts) (\<lambda>x r. more_items item stop [x] r))
       (\<lambda>xs r. then_p (expectOp close r) (\<lambda>u r'. Inr (xs, r')))"

definition parse_args :: "(Tok list \<Rightarrow> CelParseError + (Expr \<times> Tok list)) \<Rightarrow> Tok list \<Rightarrow> CelParseError + (Expr list \<times> Tok list)" where
  "parse_args ternary ts = then_p (expectOp ''('' ts) (\<lambda>u r. item_list ternary None '')'' r)"

definition parse_entry :: "(Tok list \<Rightarrow> CelParseError + (Expr \<times> Tok list)) \<Rightarrow> Tok list \<Rightarrow> CelParseError + ((Expr \<times> Expr) \<times> Tok list)" where
  "parse_entry ternary ts =
     then_p (ternary ts) (\<lambda>k r. then_p (expectOp '':'' r) (\<lambda>u r'. then_p (ternary r') (\<lambda>v r''. Inr ((k, v), r''))))"

definition macroCall :: "(Tok list \<Rightarrow> CelParseError + (Expr \<times> Tok list)) \<Rightarrow> Expr \<Rightarrow> string \<Rightarrow> Tok list \<Rightarrow> CelParseError + (Expr \<times> Tok list)" where
  "macroCall ternary target macro ts =
     then_p (expectOp ''('' ts) (\<lambda>u r.
       case r of
         [] \<Rightarrow> Inl UnexpectedEnd
       | TIdent v # r1 \<Rightarrow>
           then_p (expectOp '','' r1) (\<lambda>u r2. then_p (ternary r2) (\<lambda>body r3. then_p (expectOp '')'' r3) (\<lambda>u r4.
             case jm_get MACROS macro of Some m \<Rightarrow> Inr (Macro target m v body, r4) | None \<Rightarrow> Inl (UnknownMacro macro))))
       | _ \<Rightarrow> Inl (ExpectedBinding macro))"

definition parse_primary :: "(Tok list \<Rightarrow> CelParseError + (Expr \<times> Tok list)) \<Rightarrow> Tok list \<Rightarrow> CelParseError + (Expr \<times> Tok list)" where
  "parse_primary ternary ts =
     (case ts of
        [] \<Rightarrow> Inl UnexpectedEnd
      | TNum v # r \<Rightarrow> Inr (Lit (LNum v), r)
      | TStr v # r \<Rightarrow> Inr (Lit (LStr v), r)
      | TBytes v # r \<Rightarrow> Inr (Lit (LBytes v), r)
      | TKw v # r \<Rightarrow>
          if v = ''true'' then Inr (Lit (LBool True), r)
          else if v = ''false'' then Inr (Lit (LBool False), r)
          else if v = ''null'' then Inr (Lit LNull, r)
          else Inl (UnexpectedKeyword v)
      | TIdent v # r \<Rightarrow> if isOp ''('' r then then_p (parse_args ternary r) (\<lambda>as r'. Inr (Call v as, r')) else Inr (Ident v, r)
      | TOp v # r \<Rightarrow>
          if v = ''('' then then_p (ternary r) (\<lambda>e r1. then_p (expectOp '')'' r1) (\<lambda>u r2. Inr (e, r2)))
          else if v = ''['' then then_p (item_list ternary (Some '']'') '']'' r) (\<lambda>es r1. Inr (EList es, r1))
          else if v = ''{'' then then_p (item_list (parse_entry ternary) (Some ''}'') ''}'' r) (\<lambda>es r1. Inr (EMap es, r1))
          else Inl UnexpectedToken)"

text \<open>One step of the postfix loop, \<open>None\<close> where it ends.\<close>

definition postfix_step :: "(Tok list \<Rightarrow> CelParseError + (Expr \<times> Tok list)) \<Rightarrow> Expr \<Rightarrow> Tok list \<Rightarrow> (CelParseError + (Expr \<times> Tok list)) option" where
  "postfix_step ternary e ts =
     (if isOp ''.'' ts then
        Some (case tl ts of
          [] \<Rightarrow> Inl UnexpectedEnd
        | TIdent name # r \<Rightarrow>
            if isOp ''('' r then
              (if isMacroName name then macroCall ternary e name r else then_p (parse_args ternary r) (\<lambda>as r'. Inr (Method e name as, r')))
            else Inr (Member e name, r)
        | _ \<Rightarrow> Inl ExpectedField)
      else if isOp ''['' ts then
        Some (then_p (ternary (tl ts)) (\<lambda>i r. then_p (expectOp '']'' r) (\<lambda>u r'. Inr (Index e i, r'))))
      else None)"

function postfix_loop :: "(Tok list \<Rightarrow> CelParseError + (Expr \<times> Tok list)) \<Rightarrow> Expr \<Rightarrow> Tok list \<Rightarrow> CelParseError + (Expr \<times> Tok list)" where
  "postfix_loop ternary e ts =
     (case postfix_step ternary e ts of
        None \<Rightarrow> Inr (e, ts)
      | Some (Inl err) \<Rightarrow> Inl err
      | Some (Inr (e', r)) \<Rightarrow> if length r < length ts then postfix_loop ternary e' r else Inl NoProgress)"
  by pat_completeness auto
termination by (relation "measure (\<lambda>(ternary, e, ts). length ts)") auto

declare postfix_loop.simps [simp del]

definition parse_postfix :: "(Tok list \<Rightarrow> CelParseError + (Expr \<times> Tok list)) \<Rightarrow> Tok list \<Rightarrow> CelParseError + (Expr \<times> Tok list)" where
  "parse_postfix ternary ts = then_p (parse_primary ternary ts) (postfix_loop ternary)"

text \<open>The two methods that count the depth, by what is left of it.\<close>

fun parse_ternary :: "nat \<Rightarrow> Tok list \<Rightarrow> CelParseError + (Expr \<times> Tok list)"
  and parse_unary :: "nat \<Rightarrow> Tok list \<Rightarrow> CelParseError + (Expr \<times> Tok list)" where
  "parse_ternary 0 ts = Inl TooDeep"
| "parse_ternary (Suc n) ts =
     then_p (parse_or (parse_unary n) ts) (\<lambda>cond r.
       if isOp ''?'' r then
         then_p (parse_ternary n (tl r)) (\<lambda>th r1. then_p (expectOp '':'' r1) (\<lambda>u r2.
           then_p (parse_ternary n r2) (\<lambda>el r3. Inr (Ternary cond th el, r3))))
       else Inr (cond, r))"
| "parse_unary 0 ts = Inl TooDeep"
| "parse_unary (Suc n) ts =
     (if isOp ''!'' ts then then_p (parse_unary n (tl ts)) (\<lambda>e r. Inr (Unary OpNot e, r))
      else if isOp ''-'' ts then then_p (parse_unary n (tl ts)) (\<lambda>e r. Inr (Unary OpNeg e, r))
      else parse_postfix (parse_ternary n) ts)"

definition parse_tokens :: "Tok list \<Rightarrow> CelParseError + Expr" where
  "parse_tokens ts =
     (case parse_ternary MAX_PARSE_DEPTH ts of
        Inl e \<Rightarrow> Inl e
      | Inr (e, r) \<Rightarrow> if r \<noteq> [] then Inl TrailingTokens else Inr e)"

definition cel_parse :: "string \<Rightarrow> CelParseError + Expr" where
  "cel_parse source = (case lex source of Inl e \<Rightarrow> Inl e | Inr ts \<Rightarrow> parse_tokens ts)"

section \<open>Every loop of the parser advances\<close>

text \<open>A result that is no stuck loop and leaves fewer than \<open>n\<close> tokens.\<close>

fun advances :: "nat \<Rightarrow> CelParseError + ('a \<times> Tok list) \<Rightarrow> bool" where
  "advances n (Inl e) = (e \<noteq> NoProgress)"
| "advances n (Inr (a, r)) = (length r < n)"

definition progressive :: "(Tok list \<Rightarrow> CelParseError + ('a \<times> Tok list)) \<Rightarrow> bool" where
  "progressive p \<longleftrightarrow> (\<forall>ts. advances (length ts) (p ts))"

lemma advances_mono: "advances m x \<Longrightarrow> m \<le> n \<Longrightarrow> advances n x"
  by (induction m x rule: advances.induct) auto

lemma advances_then:
  assumes "advances n x" and "\<And>a r. length r < n \<Longrightarrow> advances m (f a r)"
  shows "advances m (then_p x f)"
  using assms by (induction n x rule: advances.induct) (auto simp: then_p_def)

lemma progressiveD: "progressive p \<Longrightarrow> length ts \<le> n \<Longrightarrow> advances n (p ts)"
  by (auto simp: progressive_def intro: advances_mono)

lemma expectOp_advances: "length ts \<le> n \<Longrightarrow> advances n (expectOp v ts)"
  by (cases ts) (auto simp: expectOp_def)

lemma isOp_Cons: "isOp v ts \<Longrightarrow> \<exists>r. ts = TOp v # r"
  by (induction v ts rule: isOp.induct) auto

lemma bin_loop_advances: "progressive p \<Longrightarrow> advances (Suc (length ts)) (bin_loop opof p left ts)"
proof (induction opof p left ts rule: bin_loop.induct)
  case (1 opof p left ts)
  show ?case
  proof (cases ts)
    case Nil
    then show ?thesis by (simp add: bin_loop.simps)
  next
    case (Cons t r)
    show ?thesis
    proof (cases "opof t")
      case None
      with Cons show ?thesis by (simp add: bin_loop.simps)
    next
      case (Some op)
      have adv: "advances (length r) (p r)" using 1(2) by (simp add: progressive_def)
      show ?thesis
      proof (cases "p r")
        case (Inl e)
        with adv Cons Some show ?thesis by (simp add: bin_loop.simps)
      next
        case (Inr x)
        then obtain right r' where x: "p r = Inr (right, r')" by (cases x) auto
        then have less: "length r' < length ts" using adv Cons by simp
        have "advances (Suc (length r')) (bin_loop opof p (Binary op left right) r')"
          using 1(1) [OF Cons Some x refl less 1(2)] .
        then have "advances (Suc (length ts)) (bin_loop opof p (Binary op left right) r')" using less by (rule_tac advances_mono) auto
        with Cons Some x less show ?thesis by (subst bin_loop.simps) simp
      qed
    qed
  qed
qed

lemma level_progressive: "progressive p \<Longrightarrow> progressive (\<lambda>ts. then_p (p ts) (bin_loop opof p))"
  unfolding progressive_def
  by (intro allI advances_then) (auto simp: progressive_def intro: advances_mono [OF bin_loop_advances])

lemma or_progressive: "progressive p \<Longrightarrow> progressive (parse_or p)"
proof -
  assume p: "progressive p"
  have "parse_mul p = (\<lambda>ts. then_p (p ts) (bin_loop mul_op p))" by (simp add: parse_mul_def fun_eq_iff)
  then have "progressive (parse_mul p)" using p by (simp add: level_progressive)
  moreover have "parse_add p = (\<lambda>ts. then_p (parse_mul p ts) (bin_loop add_op (parse_mul p)))" by (simp add: parse_add_def fun_eq_iff)
  ultimately have "progressive (parse_add p)" by (simp add: level_progressive)
  moreover have "parse_rel p = (\<lambda>ts. then_p (parse_add p ts) (bin_loop rel_op (parse_add p)))" by (simp add: parse_rel_def fun_eq_iff)
  ultimately have "progressive (parse_rel p)" by (simp add: level_progressive)
  moreover have "parse_and p = (\<lambda>ts. then_p (parse_rel p ts) (bin_loop and_op (parse_rel p)))" by (simp add: parse_and_def fun_eq_iff)
  ultimately have "progressive (parse_and p)" by (simp add: level_progressive)
  moreover have "parse_or p = (\<lambda>ts. then_p (parse_and p ts) (bin_loop or_op (parse_and p)))" by (simp add: parse_or_def fun_eq_iff)
  ultimately show ?thesis by (simp add: level_progressive)
qed

lemma more_items_advances: "progressive item \<Longrightarrow> advances (Suc (length ts)) (more_items item stop acc ts)"
proof (induction item stop acc ts rule: more_items.induct)
  case (1 item stop acc ts)
  show ?case
  proof (cases "isOp '','' ts \<and> \<not> (case stop of Some v \<Rightarrow> isOp v (tl ts) | None \<Rightarrow> False)")
    case False
    then show ?thesis by (subst more_items.simps) auto
  next
    case True
    then obtain r0 where ts: "ts = TOp '','' # r0" using isOp_Cons by blast
    have adv: "advances (length r0) (item r0)" using 1(2) by (simp add: progressive_def)
    show ?thesis
    proof (cases "item r0")
      case (Inl e)
      with adv True ts show ?thesis by (subst more_items.simps) auto
    next
      case (Inr x)
      then obtain a r where x: "item (tl ts) = Inr (a, r)" using ts by (cases x) auto
      then have less: "length r < length ts" using adv ts by simp
      have "advances (Suc (length r)) (more_items item stop (acc @ [a]) r)"
        using 1(1) [OF _ _ x refl less 1(2)] True by auto
      then have "advances (Suc (length ts)) (more_items item stop (acc @ [a]) r)" using less by (rule_tac advances_mono) auto
      with True x less show ?thesis by (subst more_items.simps) auto
    qed
  qed
qed

lemma item_list_advances:
  assumes "progressive item" and "length ts \<le> n"
  shows "advances n (item_list item stop close ts)"
  unfolding item_list_def
proof (rule advances_then)
  show "advances (Suc (length ts)) (if isOp close ts then Inr ([], ts) else then_p (item ts) (\<lambda>x r. more_items item stop [x] r))"
    using assms(1) by (auto simp: progressive_def intro!: advances_then [of "length ts"] advances_mono [OF more_items_advances])
  fix xs :: "'a list" and r :: "Tok list"
  assume "length r < Suc (length ts)"
  then show "advances n (then_p (expectOp close r) (\<lambda>u r'. Inr (xs, r')))"
    using assms(2) by (intro advances_then [OF expectOp_advances [of r n]]) auto
qed

lemma parse_args_advances: "progressive t \<Longrightarrow> length ts \<le> n \<Longrightarrow> advances n (parse_args t ts)"
  unfolding parse_args_def by (rule advances_then [OF expectOp_advances]) (auto intro: item_list_advances)

lemma parse_entry_progressive: "progressive t \<Longrightarrow> progressive (parse_entry t)"
  unfolding progressive_def parse_entry_def
  by (intro allI advances_then [OF progressiveD] advances_then [OF expectOp_advances])
    (auto simp: progressive_def)

lemma macroCall_advances:
  assumes "progressive t" and "length ts \<le> n"
  shows "advances n (macroCall t e m ts)"
  unfolding macroCall_def
proof (rule advances_then [OF expectOp_advances [OF assms(2)]])
  fix u and r :: "Tok list"
  assume r: "length r < n"
  show "advances n (case r of [] \<Rightarrow> Inl UnexpectedEnd
       | TIdent v # r1 \<Rightarrow>
           then_p (expectOp '','' r1) (\<lambda>u r2. then_p (t r2) (\<lambda>body r3. then_p (expectOp '')'' r3) (\<lambda>u r4.
             case jm_get MACROS m of Some m \<Rightarrow> Inr (Macro e m v body, r4) | None \<Rightarrow> Inl (UnknownMacro m))))
       | _ \<Rightarrow> Inl (ExpectedBinding m))"
    using r assms(1)
    by (auto split: list.split Tok.split option.split
        intro!: advances_then [OF expectOp_advances [of _ n]] advances_then [OF progressiveD [of t _ n]])
qed

lemma primary_progressive: "progressive t \<Longrightarrow> progressive (parse_primary t)"
proof -
  assume t: "progressive t"
  have "advances (length ts) (parse_primary t ts)" for ts
    unfolding parse_primary_def using t
    by (auto split: list.split Tok.split intro!: advances_then [OF parse_args_advances] advances_then [OF item_list_advances]
        advances_then [OF progressiveD [of t]] advances_then [OF expectOp_advances] parse_entry_progressive)
  then show ?thesis by (simp add: progressive_def)
qed

lemma postfix_step_advances:
  assumes "progressive t" and "postfix_step t e ts = Some x"
  shows "advances (length ts) x"
proof (cases "isOp ''.'' ts")
  case True
  then obtain r where ts: "ts = TOp ''.'' # r" using isOp_Cons by blast
  with assms show ?thesis
    by (auto simp: postfix_step_def split: list.splits Tok.splits if_splits
        intro!: macroCall_advances advances_then [OF parse_args_advances])
next
  case False
  with assms(2) have "isOp ''['' ts" by (auto simp: postfix_step_def split: if_splits)
  then obtain r where ts: "ts = TOp ''['' # r" using isOp_Cons by blast
  with assms show ?thesis
    by (auto simp: postfix_step_def intro!: advances_then [OF progressiveD [of t _ "length r"]] advances_then [OF expectOp_advances [of _ "length r"]])
qed

lemma postfix_loop_advances: "progressive t \<Longrightarrow> advances (Suc (length ts)) (postfix_loop t e ts)"
proof (induction t e ts rule: postfix_loop.induct)
  case (1 t e ts)
  show ?case
  proof (cases "postfix_step t e ts")
    case None
    then show ?thesis by (simp add: postfix_loop.simps)
  next
    case (Some x)
    have adv: "advances (length ts) x" using postfix_step_advances [OF 1(2) Some] .
    show ?thesis
    proof (cases x)
      case (Inl err)
      with adv Some show ?thesis by (simp add: postfix_loop.simps)
    next
      case (Inr y)
      then obtain e' r where y: "x = Inr (e', r)" by (cases y) auto
      then have less: "length r < length ts" using adv by simp
      have "advances (Suc (length r)) (postfix_loop t e' r)" using 1(1) [OF Some y refl less 1(2)] .
      then have "advances (Suc (length ts)) (postfix_loop t e' r)" using less by (rule_tac advances_mono) auto
      with Some y less show ?thesis by (subst postfix_loop.simps) simp
    qed
  qed
qed

lemma postfix_progressive: "progressive t \<Longrightarrow> progressive (parse_postfix t)"
  unfolding progressive_def parse_postfix_def
  by (intro allI advances_then [OF progressiveD [OF primary_progressive order_refl]])
    (auto simp: progressive_def intro: advances_mono [OF postfix_loop_advances])

lemma parser_progressive: "progressive (parse_ternary n) \<and> progressive (parse_unary n)"
proof (induction n)
  case (Suc n)
  then have t: "progressive (parse_ternary n)" and u: "progressive (parse_unary n)" by auto
  have "advances (length ts) (parse_ternary (Suc n) ts)" for ts
    unfolding parse_ternary.simps
  proof (rule advances_then [OF progressiveD [OF or_progressive [OF u] order_refl]])
    fix cond and r :: "Tok list"
    assume r: "length r < length ts"
    have tr: "advances (length ts) (parse_ternary n x)" if "length x < length ts" for x using progressiveD [OF t] that by simp
    show "advances (length ts) (if isOp ''?'' r then
         then_p (parse_ternary n (tl r)) (\<lambda>th r1. then_p (expectOp '':'' r1) (\<lambda>u r2.
           then_p (parse_ternary n r2) (\<lambda>el r3. Inr (Ternary cond th el, r3))))
       else Inr (cond, r))"
      using r by (auto intro!: advances_then [OF tr] advances_then [OF expectOp_advances [of _ "length ts"]])
  qed
  moreover have "advances (length ts) (parse_unary (Suc n) ts)" for ts
    using progressiveD [OF u, of "tl ts" "length (tl ts)"] postfix_progressive [OF t]
    by (auto simp: progressive_def dest!: isOp_Cons intro!: advances_then [of "length (tl ts)"])
  ultimately show ?case by (simp add: progressive_def)
qed (simp add: progressive_def)

lemma map_sum_Inl: "map_sum id f x = Inl e \<longleftrightarrow> x = Inl e"
  by (cases x) auto

lemma scan_body_progress: "scan_body quote raw s \<noteq> Inl NoProgress"
proof (induction "length s" arbitrary: s rule: less_induct)
  case less
  then have "scan_body quote raw u \<noteq> Inl NoProgress" if "length u < length s" for u using that by blast
  then show ?case by (cases s) (auto simp: map_sum_Inl Let_def split: list.split option.split)
qed

lemma lex_token_progress: "lex_token s \<noteq> Inl NoProgress"
  by (auto simp: lex_token_def scan_operator_def map_sum_Inl scan_body_progress Let_def split_def)

lemma lex_progress: "lex s \<noteq> Inl NoProgress"
proof (induction s rule: lex.induct)
  case (1 s)
  with lex_token_progress [of s] show ?case by (subst lex.simps) (auto simp: map_sum_Inl split: sum.split)
qed

text \<open>
  C39. Parsing ends. Every loop of the lexer and of the recursive-descent parser reads at least one token or character per round, at every nesting depth, so that
  parsing any source ends with a tree or with one of the parser's errors, never stuck in a loop.\<close>

theorem cel_parse_advances: "cel_parse source \<noteq> Inl NoProgress"
proof -
  have "advances (length ts) (parse_ternary MAX_PARSE_DEPTH ts)" for ts
    using parser_progressive by (simp add: progressive_def)
  then have "parse_ternary MAX_PARSE_DEPTH ts \<noteq> Inl NoProgress" for ts
    by (metis advances.simps(1))
  with lex_progress [of source] show ?thesis by (auto simp: cel_parse_def parse_tokens_def split: sum.splits)
qed

section \<open>Printing with the fewest parentheses, and reading back\<close>

fun op_token :: "BinaryOp \<Rightarrow> Tok" where
  "op_token OpAdd = TOp ''+''" | "op_token OpSub = TOp ''-''" | "op_token OpMul = TOp ''*''" | "op_token OpDiv = TOp ''/''"
| "op_token OpMod = TOp ''%''" | "op_token OpEq = TOp ''==''" | "op_token OpNe = TOp ''!=''" | "op_token OpLt = TOp ''<''"
| "op_token OpLe = TOp ''<=''" | "op_token OpGt = TOp ''>''" | "op_token OpGe = TOp ''>=''" | "op_token OpAnd = TOp ''&&''"
| "op_token OpOr = TOp ''||''" | "op_token OpIn = TKw ''in''"

text \<open>How loosely an operator binds: 1 for products to 5 for disjunctions, 6 for the conditional.\<close>

fun op_level :: "BinaryOp \<Rightarrow> nat" where
  "op_level OpMul = 1" | "op_level OpDiv = 1" | "op_level OpMod = 1" | "op_level OpAdd = 2" | "op_level OpSub = 2"
| "op_level OpAnd = 4" | "op_level OpOr = 5" | "op_level _ = 3"

fun binding :: "Expr \<Rightarrow> nat" where
  "binding (Binary op l r) = op_level op"
| "binding (Ternary c t e) = 6"
| "binding _ = 0"

fun is_postfix :: "Expr \<Rightarrow> bool" where
  "is_postfix (Unary op e) = False"
| "is_postfix (Binary op l r) = False"
| "is_postfix (Ternary c t e) = False"
| "is_postfix _ = True"

fun macro_name :: "MacroName \<Rightarrow> string" where
  "macro_name MacroAll = ''all''"
| "macro_name MacroExists = ''exists''"
| "macro_name MacroExistsOne = ''exists_one''"
| "macro_name MacroFilter = ''filter''"
| "macro_name MacroMap = ''map''"

definition wrap :: "bool \<Rightarrow> Tok list \<Rightarrow> Tok list" where
  "wrap b ts = (if b then TOp ''('' # ts @ [TOp '')''] else ts)"

fun commas :: "Tok list list \<Rightarrow> Tok list" where
  "commas [] = []"
| "commas (x # xs) = x @ concat (map (\<lambda>y. TOp '','' # y) xs)"

fun lit_token :: "LiteralValue \<Rightarrow> Tok" where
  "lit_token (LNum v) = TNum v"
| "lit_token (LStr v) = TStr v"
| "lit_token (LBytes v) = TBytes v"
| "lit_token (LBool b) = TKw (if b then ''true'' else ''false'')"
| "lit_token LNull = TKw ''null''"

fun show_expr :: "Expr \<Rightarrow> Tok list" where
  "show_expr (Lit v) = [lit_token v]"
| "show_expr (Ident x) = [TIdent x]"
| "show_expr (EList es) = TOp ''['' # commas (map show_expr es) @ [TOp '']'']"
| "show_expr (EMap kvs) = TOp ''{'' # commas (map (\<lambda>(k, v). show_expr k @ TOp '':'' # show_expr v) kvs) @ [TOp ''}'']"
| "show_expr (Unary op e) = TOp (case op of OpNot \<Rightarrow> ''!'' | OpNeg \<Rightarrow> ''-'') # wrap (0 < binding e) (show_expr e)"
| "show_expr (Binary op l r) =
     wrap (op_level op < binding l) (show_expr l) @ op_token op # wrap (op_level op \<le> binding r) (show_expr r)"
| "show_expr (Ternary c t e) = wrap (5 < binding c) (show_expr c) @ TOp ''?'' # show_expr t @ TOp '':'' # show_expr e"
| "show_expr (Member t f) = wrap (\<not> is_postfix t) (show_expr t) @ [TOp ''.'', TIdent f]"
| "show_expr (Index t i) = wrap (\<not> is_postfix t) (show_expr t) @ TOp ''['' # show_expr i @ [TOp '']'']"
| "show_expr (Call f as) = TIdent f # TOp ''('' # commas (map show_expr as) @ [TOp '')'']"
| "show_expr (Method t f as) =
     wrap (\<not> is_postfix t) (show_expr t) @ TOp ''.'' # TIdent f # TOp ''('' # commas (map show_expr as) @ [TOp '')'']"
| "show_expr (Macro t m v b) =
     wrap (\<not> is_postfix t) (show_expr t) @ TOp ''.'' # TIdent (macro_name m) # TOp ''('' # TIdent v # TOp '','' # show_expr b @ [TOp '')'']"

fun height :: "Expr \<Rightarrow> nat" where
  "height (EList es) = Suc (fold max (map height es) 0)"
| "height (EMap kvs) = Suc (fold max (map (\<lambda>(k, v). max (height k) (height v)) kvs) 0)"
| "height (Unary op e) = Suc (height e)"
| "height (Binary op l r) = Suc (max (height l) (height r))"
| "height (Ternary c t e) = Suc (max (height c) (max (height t) (height e)))"
| "height (Member t f) = Suc (height t)"
| "height (Index t i) = Suc (max (height t) (height i))"
| "height (Call f as) = Suc (fold max (map height as) 0)"
| "height (Method t f as) = Suc (max (height t) (fold max (map height as) 0))"
| "height (Macro t m v b) = Suc (max (height t) (height b))"
| "height _ = 1"

text \<open>No method has the name of a macro.\<close>

fun methods_plain :: "Expr \<Rightarrow> bool" where
  "methods_plain (EList es) = list_all methods_plain es"
| "methods_plain (EMap kvs) = list_all (\<lambda>(k, v). methods_plain k \<and> methods_plain v) kvs"
| "methods_plain (Unary op e) = methods_plain e"
| "methods_plain (Binary op l r) = (methods_plain l \<and> methods_plain r)"
| "methods_plain (Ternary c t e) = (methods_plain c \<and> methods_plain t \<and> methods_plain e)"
| "methods_plain (Member t f) = methods_plain t"
| "methods_plain (Index t i) = (methods_plain t \<and> methods_plain i)"
| "methods_plain (Call f as) = list_all methods_plain as"
| "methods_plain (Method t f as) = (\<not> isMacroName f \<and> methods_plain t \<and> list_all methods_plain as)"
| "methods_plain (Macro t m v b) = (methods_plain t \<and> methods_plain b)"
| "methods_plain _ = True"

text \<open>The levels of the parser as one function.\<close>

fun level_ops :: "nat \<Rightarrow> Tok \<Rightarrow> BinaryOp option" where
  "level_ops n t = (if n = 1 then mul_op t else if n = 2 then add_op t else if n = 3 then rel_op t else if n = 4 then and_op t else or_op t)"

declare level_ops.simps [simp del]

primrec parse_lv :: "(Tok list \<Rightarrow> CelParseError + (Expr \<times> Tok list)) \<Rightarrow> nat \<Rightarrow> Tok list \<Rightarrow> CelParseError + (Expr \<times> Tok list)" where
  "parse_lv u 0 = u"
| "parse_lv u (Suc j) = (\<lambda>ts. then_p (parse_lv u j ts) (bin_loop (level_ops (Suc j)) (parse_lv u j)))"

lemma parse_or_lv: "parse_or u = parse_lv u 5"
proof -
  have level_ops: "level_ops (Suc 0) = mul_op" "level_ops (Suc (Suc 0)) = add_op" "level_ops (Suc (Suc (Suc 0))) = rel_op" "level_ops (Suc (Suc (Suc (Suc 0)))) = and_op"
    "level_ops (Suc (Suc (Suc (Suc (Suc 0))))) = or_op"
    by (simp_all add: level_ops.simps fun_eq_iff)
  have "parse_lv u (Suc 0) = parse_mul u" by (rule ext) (simp only: parse_lv.simps level_ops parse_mul_def)
  then have "parse_lv u (Suc (Suc 0)) = parse_add u" by (intro ext) (simp only: parse_lv.simps(2) [of u "Suc 0"] level_ops parse_add_def)
  then have "parse_lv u (Suc (Suc (Suc 0))) = parse_rel u" by (intro ext) (simp only: parse_lv.simps(2) [of u "Suc (Suc 0)"] level_ops parse_rel_def)
  then have "parse_lv u (Suc (Suc (Suc (Suc 0)))) = parse_and u"
    by (intro ext) (simp only: parse_lv.simps(2) [of u "Suc (Suc (Suc 0))"] level_ops parse_and_def)
  then have "parse_lv u (Suc (Suc (Suc (Suc (Suc 0))))) = parse_or u"
    by (intro ext) (simp only: parse_lv.simps(2) [of u "Suc (Suc (Suc (Suc 0)))"] level_ops parse_or_def)
  moreover have "(5 :: nat) = Suc (Suc (Suc (Suc (Suc 0))))" by simp
  ultimately show ?thesis by (simp only:)
qed

text \<open>A text that continues neither a postfix expression nor an operator level up to \<open>j\<close>.\<close>

fun ends :: "nat \<Rightarrow> Tok list \<Rightarrow> bool" where
  "ends j [] = True"
| "ends j (t # ts) = (t \<notin> {TOp ''.'', TOp ''['', TOp ''(''} \<and> (\<forall>i\<in>{1..j}. level_ops i t = None))"

lemma ends_mono: "ends j ts \<Longrightarrow> i \<le> j \<Longrightarrow> ends i ts"
  by (cases ts) auto

lemma op_level_range: "0 < op_level op" "op_level op \<le> 5"
  by (cases op; simp)+

lemma ops_token: "level_ops (op_level op) (op_token op) = Some op"
  by (cases op) (simp_all add: level_ops.simps mul_op_def add_op_def rel_op_def and_op_def or_op_def)

lemma ops_other: "i < op_level op \<Longrightarrow> 0 < i \<Longrightarrow> level_ops i (op_token op) = None"
  by (cases op) (auto simp: level_ops.simps mul_op_def add_op_def rel_op_def and_op_def or_op_def)

lemma ends_op: "j < op_level op \<Longrightarrow> ends j (op_token op # ts)"
proof -
  assume "j < op_level op"
  then have "\<forall>i\<in>{1..j}. level_ops i (op_token op) = None" using ops_other [of _ op] by simp
  moreover have "op_token op \<notin> {TOp ''.'', TOp ''['', TOp ''(''}" by (cases op) auto
  ultimately show ?thesis by simp
qed

lemma ends_close: "c \<in> {'')'', '']'', ''}'', '','', '':'', ''?''} \<Longrightarrow> ends j (TOp c # ts)"
  by (elim insertE emptyE) (simp_all add: level_ops.simps mul_op_def add_op_def rel_op_def and_op_def or_op_def)

lemma bin_loop_ends: "0 < j \<Longrightarrow> ends j ts \<Longrightarrow> bin_loop (level_ops j) p e ts = Inr (e, ts)"
  by (cases ts) (simp_all add: bin_loop.simps)

lemma postfix_loop_ends: "ends 0 ts \<Longrightarrow> postfix_loop t e ts = Inr (e, ts)"
proof -
  assume e: "ends 0 ts"
  then have "\<not> isOp ''.'' ts" "\<not> isOp ''['' ts" by (auto dest!: isOp_Cons)
  then show ?thesis by (simp add: postfix_loop.simps postfix_step_def)
qed

lemma ends_no_paren: "ends j ts \<Longrightarrow> \<not> isOp ''('' ts"
  by (auto dest!: isOp_Cons)

text \<open>What printing an expression gives starts with a token that opens one.\<close>

definition opener :: "Tok \<Rightarrow> bool" where
  "opener t \<longleftrightarrow> t \<notin> TOp ` {'')'', '']'', ''}'', '','', '':'', ''?'', ''.'', ''!'', ''-''}"

lemma lit_opener: "opener (lit_token v)"
  by (cases v) (auto simp: opener_def)

lemma postfix_head: "is_postfix e \<Longrightarrow> \<exists>t ts. show_expr e = t # ts \<and> opener t"
proof (induction e)
  case (Lit v)
  then show ?case by (simp add: lit_opener)
next
  case (Member e f)
  then show ?case by (cases "is_postfix e") (auto simp: wrap_def opener_def)
next
  case (Index e i)
  then show ?case by (cases "is_postfix e") (auto simp: wrap_def opener_def)
next
  case (Method e f as)
  then show ?case by (cases "is_postfix e") (auto simp: wrap_def opener_def)
next
  case (Macro e m v b)
  then show ?case by (cases "is_postfix e") (auto simp: wrap_def opener_def)
qed (auto simp: opener_def)

lemma postfix_opener: "is_postfix e \<Longrightarrow> \<exists>t ts. show_expr e = t # ts \<and> (opener t \<or> t = TOp ''!'' \<or> t = TOp ''-'')"
  using postfix_head by blast

text \<open>The first token of any expression closes nothing.\<close>

lemma show_head: "\<exists>t ts. show_expr e = t # ts \<and> (opener t \<or> t = TOp ''!'' \<or> t = TOp ''-'')"
proof (induction e)
  case (Unary op e)
  then show ?case by (cases op) auto
next
  case (Binary op l r)
  then show ?case by (auto simp: wrap_def opener_def)
next
  case (Ternary c t e)
  then show ?case by (auto simp: wrap_def opener_def)
qed (rule postfix_opener, simp)+

lemma show_no_close:
  assumes "c \<in> {'')'', '']'', ''}'', '','', '':'', ''?'', ''.''}"
  shows "\<not> isOp c (show_expr e @ rest)"
proof -
  obtain t ts where t: "show_expr e = t # ts" "opener t \<or> t = TOp ''!'' \<or> t = TOp ''-''" using show_head by blast
  have "t \<noteq> TOp c" using t(2) assms by (elim disjE) (auto simp: opener_def)
  then show ?thesis using t(1) by (cases t) auto
qed

lemma postfix_no_sign:
  assumes "is_postfix e"
  shows "\<not> isOp ''!'' (show_expr e @ rest)" "\<not> isOp ''-'' (show_expr e @ rest)"
proof -
  obtain t ts where t: "show_expr e = t # ts" "opener t" using postfix_head [OF assms] by blast
  then have "t \<noteq> TOp ''!''" "t \<noteq> TOp ''-''" by (auto simp: opener_def)
  then show "\<not> isOp ''!'' (show_expr e @ rest)" "\<not> isOp ''-'' (show_expr e @ rest)" using t(1) by (cases t; auto)+
qed

text \<open>Reading back a printed expression: as a whole, as an operand at its own level, and as the start of a postfix expression.\<close>

definition reads_whole :: "(Tok list \<Rightarrow> CelParseError + (Expr \<times> Tok list)) \<Rightarrow> Expr \<Rightarrow> bool" where
  "reads_whole p e \<longleftrightarrow> (\<forall>rest. ends 5 rest \<longrightarrow> \<not> isOp ''?'' rest \<longrightarrow> p (show_expr e @ rest) = Inr (e, rest))"

definition reads_operand :: "nat \<Rightarrow> Expr \<Rightarrow> bool" where
  "reads_operand m e \<longleftrightarrow> (\<forall>rest. binding e \<le> 5 \<longrightarrow> ends (binding e - 1) rest \<longrightarrow>
     parse_lv (parse_unary m) (binding e) (show_expr e @ rest) =
       (if binding e = 0 then Inr (e, rest) else bin_loop (level_ops (binding e)) (parse_lv (parse_unary m) (binding e - 1)) e rest))"

definition reads_base :: "nat \<Rightarrow> Expr \<Rightarrow> bool" where
  "reads_base k e \<longleftrightarrow> (\<forall>rest. is_postfix e \<longrightarrow> \<not> isOp ''('' rest \<longrightarrow>
     parse_postfix (parse_ternary k) (show_expr e @ rest) = postfix_loop (parse_ternary k) e rest)"

definition reads_back :: "Expr \<Rightarrow> bool" where
  "reads_back e \<longleftrightarrow> (\<forall>m. 3 * height e \<le> m \<longrightarrow> reads_whole (parse_ternary (Suc m)) e \<and> reads_operand m e \<and> reads_base (m - 1) e)"

lemma then_p_Inr [simp]: "then_p (Inr (a, r)) f = f a r"
  by (simp add: then_p_def)

lemma expectOp_there [simp]: "expectOp v (TOp v # r) = Inr ((), r)"
  by (simp add: expectOp_def)

lemma lift_level:
  assumes "parse_lv u i ts = Inr (e, rest)" and "i \<le> j" and "ends j rest"
  shows "parse_lv u j ts = Inr (e, rest)"
  using assms(2,3)
proof (induction j)
  case (Suc j)
  show ?case
  proof (cases "i = Suc j")
    case False
    then have "parse_lv u j ts = Inr (e, rest)" using Suc ends_mono [of "Suc j" rest j] by auto
    then show ?thesis using Suc.prems(2) by (simp add: bin_loop_ends)
  qed (use assms(1) in simp)
qed (use assms(1) in simp)

lemma operand_closed:
  assumes "reads_operand m e" and "binding e \<le> j" and "j \<le> 5" and "ends j rest"
  shows "parse_lv (parse_unary m) j (show_expr e @ rest) = Inr (e, rest)"
proof (rule lift_level [OF _ assms(2,4)])
  have "ends (binding e) rest" using ends_mono assms(2,4) by blast
  moreover from this have "ends (binding e - 1) rest" by (rule ends_mono) simp
  ultimately show "parse_lv (parse_unary m) (binding e) (show_expr e @ rest) = Inr (e, rest)"
    using assms(1-3) by (auto simp: reads_operand_def bin_loop_ends)
qed

lemma wrapped_primary:
  assumes "reads_whole (parse_ternary k) e"
  shows "parse_primary (parse_ternary k) (wrap True (show_expr e) @ rest) = Inr (e, rest)"
proof -
  have "parse_ternary k (show_expr e @ TOp '')'' # rest) = Inr (e, TOp '')'' # rest)"
    using assms ends_close [of "'')''" 5 rest] by (auto simp: reads_whole_def)
  then show ?thesis by (simp add: parse_primary_def wrap_def)
qed

lemma wrapped_unary:
  assumes "reads_whole (parse_ternary k) e" and "ends 0 rest"
  shows "parse_unary (Suc k) (wrap True (show_expr e) @ rest) = Inr (e, rest)"
proof -
  have "\<not> isOp ''!'' (wrap True (show_expr e) @ rest)" "\<not> isOp ''-'' (wrap True (show_expr e) @ rest)" by (simp_all add: wrap_def)
  then show ?thesis using wrapped_primary [OF assms(1)] assms(2) by (simp add: parse_postfix_def postfix_loop_ends)
qed

text \<open>An operand printed where level \<open>j\<close> is expected, in parentheses when it binds more loosely.\<close>

lemma wrapped_operand:
  assumes "reads_back e" and "3 * height e + 2 \<le> m" and "j \<le> 5" and "ends j rest"
  shows "parse_lv (parse_unary m) j (wrap (j < binding e) (show_expr e) @ rest) = Inr (e, rest)"
proof (cases "j < binding e")
  case True
  define k where "k = m - 2"
  then have m: "m = Suc (Suc k)" using assms(2) by simp
  have "reads_whole (parse_ternary (Suc k)) e" using assms(1,2) m by (simp add: reads_back_def)
  from wrapped_unary [OF this ends_mono [OF assms(4)]] True m show ?thesis
    using lift_level [of "parse_unary m" 0, OF _ _ assms(4)] by simp
next
  case False
  have "reads_operand m e" using assms(1,2) by (simp add: reads_back_def)
  with False assms(3,4) operand_closed show ?thesis by (simp add: wrap_def)
qed

text \<open>A left operand, after which the loop of its level goes on.\<close>

lemma left_operand:
  assumes "reads_back l" and "3 * height l + 2 \<le> m" and "Suc j \<le> 5" and "ends j rest"
  shows "parse_lv (parse_unary m) (Suc j) (wrap (Suc j < binding l) (show_expr l) @ rest) =
    bin_loop (level_ops (Suc j)) (parse_lv (parse_unary m) j) l rest"
proof (cases "binding l = Suc j")
  case True
  have "reads_operand m l" using assms(1,2) by (simp add: reads_back_def)
  then show ?thesis using True assms(3,4) by (auto simp: reads_operand_def wrap_def)
next
  case False
  then have "Suc j < binding l \<longleftrightarrow> j < binding l" by auto
  then show ?thesis using wrapped_operand [OF assms(1,2) _ assms(4)] assms(3) by simp
qed

lemma base_wrapped:
  assumes "reads_back e" and "3 * height e + 1 \<le> k" and "\<not> isOp ''('' rest"
  shows "parse_postfix (parse_ternary k) (wrap (\<not> is_postfix e) (show_expr e) @ rest) = postfix_loop (parse_ternary k) e rest"
proof (cases "is_postfix e")
  case True
  have "reads_base (Suc k - 1) e" using assms(1,2) unfolding reads_back_def by (metis le_Suc_eq add_leD1)
  with True assms(3) show ?thesis by (simp add: reads_base_def wrap_def)
next
  case False
  define n where "n = k - 1"
  then have "k = Suc n" using assms(2) by simp
  then have "reads_whole (parse_ternary k) e" using assms(1,2) by (simp add: reads_back_def)
  from wrapped_primary [OF this] False show ?thesis by (simp add: parse_postfix_def)
qed

lemma loop_takes:
  assumes "postfix_step t e ts = Some (Inr (e', r))" and "length r < length ts"
  shows "postfix_loop t e ts = postfix_loop t e' r"
  using assms by (subst postfix_loop.simps) simp

text \<open>Printed items between commas.\<close>

definition item_reads :: "(Tok list \<Rightarrow> CelParseError + ('a \<times> Tok list)) \<Rightarrow> ('a \<Rightarrow> Tok list) \<Rightarrow> 'a \<Rightarrow> bool" where
  "item_reads item shown x \<longleftrightarrow>
     (\<forall>rest c. c \<in> {'')'', '']'', ''}'', '',''} \<longrightarrow> item (shown x @ TOp c # rest) = Inr (x, TOp c # rest)) \<and>
     (\<forall>rest c. c \<in> {'')'', '']'', ''}''} \<longrightarrow> \<not> isOp c (shown x @ rest))"

lemma more_items_shown:
  assumes "\<forall>x\<in>set xs. item_reads item shown x" and "close \<in> {'')'', '']'', ''}''}" and "stop \<in> {None, Some close}"
  shows "more_items item stop acc (concat (map (\<lambda>y. TOp '','' # y) (map shown xs)) @ TOp close # rest) = Inr (acc @ xs, TOp close # rest)"
  using assms(1)
proof (induction xs arbitrary: acc)
  case Nil
  then show ?case using assms(2) by (subst more_items.simps) auto
next
  case (Cons x xs)
  let ?tail = "concat (map (\<lambda>y. TOp '','' # y) (map shown xs)) @ TOp close # rest"
  have "item (shown x @ ?tail) = Inr (x, ?tail)"
  proof (cases xs)
    case Nil
    then show ?thesis using Cons.prems assms(2) by (auto simp: item_reads_def)
  next
    case (Cons y ys)
    then show ?thesis using \<open>\<forall>x\<in>set (x # xs). item_reads item shown x\<close> by (simp add: item_reads_def)
  qed
  moreover have "\<not> (case stop of Some v \<Rightarrow> isOp v (shown x @ ?tail) | None \<Rightarrow> False)"
    using Cons.prems assms(2,3) by (auto simp: item_reads_def)
  ultimately show ?case
    using Cons.IH [of "acc @ [x]"] Cons.prems by (cases stop; subst more_items.simps) simp_all
qed

lemma item_list_shown:
  assumes "\<forall>x\<in>set xs. item_reads item shown x" and "close \<in> {'')'', '']'', ''}''}" and "stop \<in> {None, Some close}"
  shows "item_list item stop close (commas (map shown xs) @ TOp close # rest) = Inr (xs, rest)"
proof (cases xs)
  case Nil
  then show ?thesis by (simp add: item_list_def)
next
  case (Cons x ys)
  let ?tail = "concat (map (\<lambda>y. TOp '','' # y) (map shown ys)) @ TOp close # rest"
  have x: "item_reads item shown x" using assms(1) Cons by simp
  have "\<not> isOp close (shown x @ ?tail)" using x assms(2) unfolding item_reads_def by blast
  moreover have "item (shown x @ ?tail) = Inr (x, ?tail)"
    using x assms(2) by (cases ys) (auto simp: item_reads_def)
  moreover have "more_items item stop [x] ?tail = Inr (x # ys, TOp close # rest)"
    using more_items_shown [OF _ assms(2,3), of ys item shown "[x]" rest] assms(1) Cons by simp
  ultimately show ?thesis using Cons by (simp add: item_list_def comp_def)
qed

lemma whole_item:
  assumes "reads_whole t e"
  shows "item_reads t show_expr e"
  unfolding item_reads_def
proof (intro conjI allI impI)
  fix rest c
  assume c: "c \<in> {'')'', '']'', ''}'', '',''}"
  then have "ends 5 (TOp c # rest)" by (intro ends_close) auto
  moreover have "\<not> isOp ''?'' (TOp c # rest)" using c by auto
  ultimately show "t (show_expr e @ TOp c # rest) = Inr (e, TOp c # rest)" using assms by (simp add: reads_whole_def)
next
  fix rest c
  assume "c \<in> {'')'', '']'', ''}''}"
  then show "\<not> isOp c (show_expr e @ rest)" by (intro show_no_close) auto
qed

lemma entry_item:
  assumes "reads_whole t k" and "reads_whole t v"
  shows "item_reads (parse_entry t) (\<lambda>(k, v). show_expr k @ TOp '':'' # show_expr v) (k, v)"
proof -
  have "t (show_expr k @ TOp '':'' # rest) = Inr (k, TOp '':'' # rest)" for rest
    using assms(1) ends_close [of "'':''" 5 rest] by (auto simp: reads_whole_def)
  then show ?thesis
    using whole_item [OF assms(2)] show_no_close [of _ k] by (auto simp: item_reads_def parse_entry_def)
qed

lemma fold_max_le: "fold max xs (a :: nat) \<le> n \<longleftrightarrow> a \<le> n \<and> (\<forall>x\<in>set xs. x \<le> n)"
  by (induction xs arbitrary: a) auto

lemma from_base:
  assumes "is_postfix e" and "\<And>k. 3 * height e \<le> Suc k \<Longrightarrow> reads_base k e" and "0 < height e"
  shows "reads_back e"
  unfolding reads_back_def
proof (intro allI impI conjI)
  fix m assume m: "3 * height e \<le> m"
  define k where "k = m - 1"
  then have mk: "m = Suc k" using m assms(3) by simp
  have un: "parse_unary m (show_expr e @ rest) = Inr (e, rest)" if "ends 0 rest" for rest
    using assms(2) [of k] m mk assms(1) that ends_no_paren [OF that] postfix_no_sign [OF assms(1), of rest]
    by (simp add: reads_base_def postfix_loop_ends)
  have b: "binding e = 0" using assms(1) by (cases e) auto
  show "reads_operand m e" using un b by (simp add: reads_operand_def)
  show "reads_base (m - 1) e" using assms(2) [of k] m mk by simp
  show "reads_whole (parse_ternary (Suc m)) e"
    unfolding reads_whole_def
  proof (intro allI impI)
    fix rest assume rest: "ends 5 rest" "\<not> isOp ''?'' rest"
    have "parse_lv (parse_unary m) 5 (show_expr e @ rest) = Inr (e, rest)"
      using lift_level [of "parse_unary m" 0 "show_expr e @ rest" e rest 5] un rest(1) ends_mono [OF rest(1), of 0] by simp
    then show "parse_ternary (Suc m) (show_expr e @ rest) = Inr (e, rest)" using rest(2) by (simp add: parse_or_lv)
  qed
qed

lemma from_operand:
  assumes "\<And>m. 3 * height e \<le> m \<Longrightarrow> reads_operand m e" and "binding e \<le> 5" and "\<not> is_postfix e"
  shows "reads_back e"
  unfolding reads_back_def
proof (intro allI impI conjI)
  fix m assume m: "3 * height e \<le> m"
  show op: "reads_operand m e" using assms(1) m by simp
  show "reads_base (m - 1) e" using assms(3) by (simp add: reads_base_def)
  show "reads_whole (parse_ternary (Suc m)) e"
    unfolding reads_whole_def using operand_closed [OF op assms(2)] by (simp add: parse_or_lv)
qed

lemma reads_back_postfix:
  assumes "reads_back t" and "\<And>k rest. 3 * height e \<le> Suc k \<Longrightarrow> \<not> isOp ''('' rest \<Longrightarrow>
      postfix_step (parse_ternary k) t (suf @ rest) = Some (Inr (e, rest))"
    and "show_expr e = wrap (\<not> is_postfix t) (show_expr t) @ suf" and "suf \<noteq> []" and "\<not> isOp ''('' suf" and "height t < height e" and "is_postfix e"
  shows "reads_back e"
proof (rule from_base [OF assms(7)])
  show "0 < height e" using assms(6) by simp
  fix k assume k: "3 * height e \<le> Suc k"
  show "reads_base k e"
    unfolding reads_base_def
  proof (intro allI impI)
    fix rest assume rest: "\<not> isOp ''('' rest"
    have "\<not> isOp ''('' (suf @ rest)" using assms(4,5) by (auto dest!: isOp_Cons simp: append_eq_Cons_conv)
    moreover have "3 * height t + 1 \<le> k" using assms(6) k by simp
    ultimately have "parse_postfix (parse_ternary k) (show_expr e @ rest) = postfix_loop (parse_ternary k) t (suf @ rest)"
      using base_wrapped [OF assms(1)] assms(3) by simp
    also have "\<dots> = postfix_loop (parse_ternary k) e rest"
      using loop_takes [OF assms(2) [OF k rest]] assms(4) by simp
    finally show "parse_postfix (parse_ternary k) (show_expr e @ rest) = postfix_loop (parse_ternary k) e rest" .
  qed
qed

lemma child_whole:
  assumes "reads_back e" and "3 * Suc (height e) \<le> Suc k"
  shows "reads_whole (parse_ternary k) e"
proof -
  define n where "n = k - 1"
  then have "k = Suc n" using assms(2) by simp
  with assms show ?thesis by (simp add: reads_back_def)
qed

lemma whole_at_close:
  assumes "reads_whole t e" and "c \<in> {'')'', '']'', ''}'', '','', '':''}"
  shows "t (show_expr e @ TOp c # rest) = Inr (e, TOp c # rest)"
  using assms ends_close [of c 5 rest] unfolding reads_whole_def by fastforce

lemma list_children:
  assumes "\<forall>e\<in>set es. reads_back e" and "\<forall>e\<in>set es. 3 * Suc (height e) \<le> Suc k"
  shows "\<forall>e\<in>set es. item_reads (parse_ternary k) show_expr e"
  using assms child_whole whole_item by blast

lemma args_shown:
  assumes "\<forall>e\<in>set es. item_reads (parse_ternary k) show_expr e"
  shows "parse_args (parse_ternary k) (TOp ''('' # commas (map show_expr es) @ TOp '')'' # rest) = Inr (es, rest)"
  using item_list_shown [OF assms, of "'')''" None rest] by (simp add: parse_args_def)

lemma reads_back_list:
  assumes "\<forall>e\<in>set es. reads_back e"
  shows "reads_back (EList es)"
proof (rule from_base)
  fix k assume "3 * height (EList es) \<le> Suc k"
  then have "3 * (fold max (map height es) 0) + 2 \<le> k" by simp
  then have "\<forall>e\<in>set es. 3 * Suc (height e) \<le> Suc k" using fold_max_le [of "map height es" 0 "fold max (map height es) 0"] by fastforce
  then have "\<forall>e\<in>set es. item_reads (parse_ternary k) show_expr e" using list_children assms by blast
  then have "item_list (parse_ternary k) (Some '']'') '']'' (commas (map show_expr es) @ TOp '']'' # rest) = Inr (es, rest)" for rest
    by (rule item_list_shown) auto
  then show "reads_base k (EList es)" by (simp add: reads_base_def parse_postfix_def parse_primary_def)
qed simp_all

lemma reads_back_map:
  assumes "\<forall>(k, v)\<in>set kvs. reads_back k \<and> reads_back v"
  shows "reads_back (EMap kvs)"
proof (rule from_base)
  let ?hs = "map (\<lambda>(k, v). max (height k) (height v)) kvs"
  fix n assume "3 * height (EMap kvs) \<le> Suc n"
  then have "3 * (fold max ?hs 0) + 2 \<le> n" by simp
  moreover have "\<forall>(k, v)\<in>set kvs. height k \<le> fold max ?hs 0 \<and> height v \<le> fold max ?hs 0"
    using fold_max_le [of ?hs 0 "fold max ?hs 0"] by fastforce
  ultimately have "\<forall>(k, v)\<in>set kvs. 3 * Suc (height k) \<le> Suc n \<and> 3 * Suc (height v) \<le> Suc n" by fastforce
  then have "\<forall>(k, v)\<in>set kvs. reads_whole (parse_ternary n) k \<and> reads_whole (parse_ternary n) v" using assms child_whole by fastforce
  then have "\<forall>kv\<in>set kvs. item_reads (parse_entry (parse_ternary n)) (\<lambda>(k, v). show_expr k @ TOp '':'' # show_expr v) kv"
    using entry_item by fastforce
  then have "item_list (parse_entry (parse_ternary n)) (Some ''}'') ''}'' (commas (map (\<lambda>(k, v). show_expr k @ TOp '':'' # show_expr v) kvs) @ TOp ''}'' # rest) =
      Inr (kvs, rest)" for rest
    by (rule item_list_shown) auto
  then show "reads_base n (EMap kvs)" by (simp add: reads_base_def parse_postfix_def parse_primary_def)
qed simp_all

lemma reads_back_call:
  assumes "\<forall>e\<in>set as. reads_back e"
  shows "reads_back (Call f as)"
proof (rule from_base)
  fix k assume "3 * height (Call f as) \<le> Suc k"
  then have "3 * (fold max (map height as) 0) + 2 \<le> k" by simp
  then have "\<forall>e\<in>set as. 3 * Suc (height e) \<le> Suc k" using fold_max_le [of "map height as" 0 "fold max (map height as) 0"] by fastforce
  then have "\<forall>e\<in>set as. item_reads (parse_ternary k) show_expr e" using list_children assms by blast
  from args_shown [OF this] show "reads_base k (Call f as)" by (simp add: reads_base_def parse_postfix_def parse_primary_def)
qed simp_all

lemma reads_back_member:
  assumes "reads_back t"
  shows "reads_back (Member t f)"
  by (rule reads_back_postfix [OF assms, where suf = "[TOp ''.'', TIdent f]"]) (auto simp: postfix_step_def)

lemma reads_back_index:
  assumes "reads_back t" and "reads_back i"
  shows "reads_back (Index t i)"
proof (rule reads_back_postfix [OF assms(1), where suf = "TOp ''['' # show_expr i @ [TOp '']'']"])
  fix k rest assume k: "3 * height (Index t i) \<le> Suc k"
  then have "3 * Suc (height i) \<le> Suc k" by simp
  from whole_at_close [OF child_whole [OF assms(2) this]]
  show "postfix_step (parse_ternary k) t ((TOp ''['' # show_expr i @ [TOp '']'']) @ rest) = Some (Inr (Index t i, rest))"
    by (simp add: postfix_step_def)
qed auto

lemma reads_back_method:
  assumes "reads_back t" and "\<forall>e\<in>set as. reads_back e" and "\<not> isMacroName f"
  shows "reads_back (Method t f as)"
proof (rule reads_back_postfix [OF assms(1), where suf = "TOp ''.'' # TIdent f # TOp ''('' # commas (map show_expr as) @ [TOp '')'']"])
  fix k rest assume "3 * height (Method t f as) \<le> Suc k"
  then have "3 * (fold max (map height as) 0) + 2 \<le> k" by simp
  then have "\<forall>e\<in>set as. 3 * Suc (height e) \<le> Suc k" using fold_max_le [of "map height as" 0 "fold max (map height as) 0"] by fastforce
  then have "\<forall>e\<in>set as. item_reads (parse_ternary k) show_expr e" using list_children assms(2) by blast
  from args_shown [OF this] assms(3)
  show "postfix_step (parse_ternary k) t ((TOp ''.'' # TIdent f # TOp ''('' # commas (map show_expr as) @ [TOp '')'']) @ rest) = Some (Inr (Method t f as, rest))"
    by (simp add: postfix_step_def)
qed auto

lemma macro_name_lookup: "jm_get MACROS (macro_name m) = Some m"
  by (cases m) (simp_all add: MACROS_def)

lemma reads_back_macro:
  assumes "reads_back t" and "reads_back b"
  shows "reads_back (Macro t m v b)"
proof (rule reads_back_postfix [OF assms(1), where suf = "TOp ''.'' # TIdent (macro_name m) # TOp ''('' # TIdent v # TOp '','' # show_expr b @ [TOp '')'']"])
  fix k rest assume k: "3 * height (Macro t m v b) \<le> Suc k"
  then have "3 * Suc (height b) \<le> Suc k" by simp
  from whole_at_close [OF child_whole [OF assms(2) this]] macro_name_lookup [of m]
  show "postfix_step (parse_ternary k) t ((TOp ''.'' # TIdent (macro_name m) # TOp ''('' # TIdent v # TOp '','' # show_expr b @ [TOp '')'']) @ rest) =
      Some (Inr (Macro t m v b, rest))"
    by (simp add: postfix_step_def macroCall_def isMacroName_def)
qed auto

lemma reads_back_unary:
  assumes "reads_back e"
  shows "reads_back (Unary op e)"
proof (rule from_operand)
  fix m assume m: "3 * height (Unary op e) \<le> m"
  define k where "k = m - 1"
  then have mk: "m = Suc k" using m by simp
  have "parse_unary k (wrap (0 < binding e) (show_expr e) @ rest) = Inr (e, rest)" if "ends 0 rest" for rest
    using wrapped_operand [OF assms, of k 0 rest] that m mk by simp
  then show "reads_operand m (Unary op e)" unfolding reads_operand_def mk by (cases op) simp_all
qed simp_all

lemma reads_back_binary:
  assumes l: "reads_back l" and r: "reads_back r"
  shows "reads_back (Binary op l r)"
proof (rule from_operand)
  fix m assume "3 * height (Binary op l r) \<le> m"
  then have ml: "3 * height l + 2 \<le> m" and mr: "3 * height r + 2 \<le> m" by simp_all
  define j where "j = op_level op - 1"
  have j: "op_level op = Suc j" "Suc j \<le> 5" "j \<le> 5" using op_level_range [of op] by (auto simp: j_def)
  show "reads_operand m (Binary op l r)"
    unfolding reads_operand_def
  proof (intro allI impI)
    fix rest assume "ends (binding (Binary op l r) - 1) rest"
    then have rest: "ends j rest" by (simp add: j)
    let ?tail = "op_token op # wrap (j < binding r) (show_expr r) @ rest"
    have "parse_lv (parse_unary m) (Suc j) (show_expr (Binary op l r) @ rest) = bin_loop (level_ops (Suc j)) (parse_lv (parse_unary m) j) l ?tail"
      using left_operand [OF l ml j(2), of ?tail] ends_op [of j op] by (simp add: j Suc_le_eq)
    also have "\<dots> = bin_loop (level_ops (Suc j)) (parse_lv (parse_unary m) j) (Binary op l r) rest"
      using wrapped_operand [OF r mr j(3) rest] ops_token [of op] by (subst bin_loop.simps) (simp add: j)
    finally show "parse_lv (parse_unary m) (binding (Binary op l r)) (show_expr (Binary op l r) @ rest) =
      (if binding (Binary op l r) = 0 then Inr (Binary op l r, rest)
       else bin_loop (level_ops (binding (Binary op l r))) (parse_lv (parse_unary m) (binding (Binary op l r) - 1)) (Binary op l r) rest)"
      by (simp add: j)
  qed
qed (use op_level_range in simp_all)

lemma reads_back_ternary:
  assumes "reads_back c" and "reads_back t" and "reads_back e"
  shows "reads_back (Ternary c t e)"
  unfolding reads_back_def
proof (intro allI impI conjI)
  fix m assume m: "3 * height (Ternary c t e) \<le> m"
  have mc: "3 * height c + 2 \<le> m" using m by simp
  have "3 * Suc (height t) \<le> Suc m" "3 * Suc (height e) \<le> Suc m" using m by simp_all
  then have w: "reads_whole (parse_ternary m) t" "reads_whole (parse_ternary m) e" using assms child_whole by blast+
  show "reads_whole (parse_ternary (Suc m)) (Ternary c t e)"
    unfolding reads_whole_def
  proof (intro allI impI)
    fix rest assume rest: "ends 5 rest" "\<not> isOp ''?'' rest"
    let ?tail = "TOp ''?'' # show_expr t @ TOp '':'' # show_expr e @ rest"
    have "parse_lv (parse_unary m) 5 (wrap (5 < binding c) (show_expr c) @ ?tail) = Inr (c, ?tail)"
      by (rule wrapped_operand [OF assms(1) mc _ ends_close]) simp_all
    moreover have "parse_ternary m (show_expr t @ TOp '':'' # show_expr e @ rest) = Inr (t, TOp '':'' # show_expr e @ rest)"
      using whole_at_close [OF w(1)] by simp
    moreover have "parse_ternary m (show_expr e @ rest) = Inr (e, rest)" using w(2) rest by (simp add: reads_whole_def)
    ultimately show "parse_ternary (Suc m) (show_expr (Ternary c t e) @ rest) = Inr (Ternary c t e, rest)" by (simp add: parse_or_lv)
  qed
qed (simp_all add: reads_operand_def reads_base_def)

lemma reads_back_leaf: "reads_back (Lit v)" "reads_back (Ident x)"
proof -
  show "reads_back (Lit v)"
    by (rule from_base) (cases v; auto simp: reads_base_def parse_postfix_def parse_primary_def)+
  show "reads_back (Ident x)"
    by (rule from_base) (auto simp: reads_base_def parse_postfix_def parse_primary_def)
qed

lemma all_read_back: "methods_plain e \<Longrightarrow> reads_back e"
proof (induction e)
  case (EMap kvs)
  then have "\<forall>(k, v)\<in>set kvs. reads_back k \<and> reads_back v" by (fastforce simp: list_all_iff)
  then show ?case by (rule reads_back_map)
qed (auto simp: list_all_iff intro: reads_back_leaf reads_back_list reads_back_call reads_back_member reads_back_index reads_back_method
    reads_back_macro reads_back_unary reads_back_binary reads_back_ternary)

text \<open>
  C38. Printing and parsing agree. An expression printed as tokens with parentheses only where precedence and left associativity require them is read back by the parser as
  the same expression, if it is at most 66 operators high (the depth the parser allows) and calls no macro name as a method.\<close>

theorem cel_print_parse:
  assumes "methods_plain e" and "height e \<le> 66"
  shows "parse_tokens (show_expr e) = Inr e"
proof -
  have reads: "reads_whole (parse_ternary (Suc m)) e" if "3 * height e \<le> m" for m
    using all_read_back [OF assms(1)] that by (simp add: reads_back_def)
  have "3 * height e \<le> 199" using assms(2) by simp
  then have "reads_whole (parse_ternary (Suc 199)) e" by (rule reads)
  then have "parse_ternary (Suc 199) (show_expr e @ []) = Inr (e, [])"
    unfolding reads_whole_def by (elim allE [of _ "[]"]) simp
  then show ?thesis by (simp add: parse_tokens_def MAX_PARSE_DEPTH_def)
qed

theorem cel_print_parse_witness:
  "parse_tokens (show_expr (Binary OpSub (Ident ''a'') (Binary OpSub (Ident ''b'') (Unary OpNot (Binary OpAnd (Ident ''c'') (Ident ''d'')))))) =
     Inr (Binary OpSub (Ident ''a'') (Binary OpSub (Ident ''b'') (Unary OpNot (Binary OpAnd (Ident ''c'') (Ident ''d'')))))"
  by (rule cel_print_parse) simp_all

end
