(* ===== verification/Cel_Eval.thy ===== *)
theory Cel_Eval
  imports Cel_Syntax Egress
begin

text \<open>
  The evaluator of \<^verbatim>\<open>cel/src/eval.ts\<close> and the address helpers of \<^verbatim>\<open>cel/src/ip.ts\<close>. A value is the JavaScript value the evaluator works on; lists and maps are compared by their contents, the
  identity of two references to the same list being left out. The regular expressions, the text of a number and its reading, the text decoder, base 64 and upper case of the language
  are the fields of \<open>cel_host\<close>. The global functions a caller may add are not used by the gateway, so that the table of them is the empty object, whose inherited methods the evaluator
  does find. An evaluation carries the step counter and the trace through, also when it throws.
\<close>

section \<open>Values\<close>

datatype cel_value =
    VNull | VUndef | VBool bool | VNum jsnum | VStr string | VBytes "nat list" | VList "cel_value list" | VMap "(string \<times> cel_value) list"
  | VCidr "32 word" nat

datatype CelEvalError = StepLimit | NestingTooDeep | EvalError string | HostError

record cel_host =
  ch_num_str :: "jsnum \<Rightarrow> string"
  ch_to_number :: "string \<Rightarrow> jsnum"
  ch_regex :: "string \<Rightarrow> (string \<Rightarrow> bool) option"
  ch_decode :: "nat list \<Rightarrow> string"
  ch_base64 :: "nat list \<Rightarrow> string"
  ch_unbase64 :: "string \<Rightarrow> nat list"
  ch_upper :: "string \<Rightarrow> string"

fun lit_value :: "LiteralValue \<Rightarrow> cel_value" where
  "lit_value (LNum n) = VNum n"
| "lit_value (LStr s) = VStr s"
| "lit_value (LBool b) = VBool b"
| "lit_value LNull = VNull"
| "lit_value (LBytes bs) = VBytes bs"

fun typeName :: "cel_value \<Rightarrow> string" where
  "typeName VNull = ''null''"
| "typeName (VBool b) = ''bool''"
| "typeName (VNum n) = ''number''"
| "typeName (VStr s) = ''string''"
| "typeName (VBytes bs) = ''bytes''"
| "typeName (VList xs) = ''list''"
| "typeName (VCidr b n) = ''cidr''"
| "typeName (VMap m) = ''map''"
| "typeName VUndef = ''undefined''"

definition own_prop :: "(string \<times> cel_value) list \<Rightarrow> string \<Rightarrow> cel_value" where
  "own_prop m k = (case jm_get m k of Some v \<Rightarrow> v | None \<Rightarrow> VUndef)"

fun num_eq :: "jsnum \<Rightarrow> jsnum \<Rightarrow> bool" where
  "num_eq NaN b = False"
| "num_eq a b = (a = b)"

fun equals :: "cel_value \<Rightarrow> cel_value \<Rightarrow> bool"
  and equals_list :: "cel_value list \<Rightarrow> cel_value list \<Rightarrow> bool"
  and equals_entries :: "(string \<times> cel_value) list \<Rightarrow> (string \<times> cel_value) list \<Rightarrow> bool" where
  "equals VNull b = (b = VNull)"
| "equals VUndef b = (b = VUndef)"
| "equals (VBool x) b = (b = VBool x)"
| "equals (VNum x) b = (case b of VNum y \<Rightarrow> num_eq x y | _ \<Rightarrow> False)"
| "equals (VStr x) b = (b = VStr x)"
| "equals (VBytes x) b = (b = VBytes x)"
| "equals (VList xs) b = (case b of VList ys \<Rightarrow> equals_list xs ys | _ \<Rightarrow> False)"
| "equals (VMap m) b = (case b of VMap n \<Rightarrow> length m = length n \<and> equals_entries m n | _ \<Rightarrow> False)"
| "equals (VCidr c n) b = False"
| "equals_list [] ys = (ys = [])"
| "equals_list (x # xs) ys = (case ys of [] \<Rightarrow> False | y # ys' \<Rightarrow> equals x y \<and> equals_list xs ys')"
| "equals_entries [] n = True"
| "equals_entries ((k, v) # m) n = (equals v (own_prop n k) \<and> equals_entries m n)"

text \<open>\<^verbatim>\<open>a < b\<close> on strings, by code units.\<close>

fun str_less :: "string \<Rightarrow> string \<Rightarrow> bool" where
  "str_less s [] = False"
| "str_less [] (c # t) = True"
| "str_less (a # s) (b # t) = ((of_char a :: nat) < of_char b \<or> a = b \<and> str_less s t)"

definition cmp :: "bool \<Rightarrow> bool \<Rightarrow> int" where
  "cmp lt gt = (if lt then - 1 else if gt then 1 else 0)"

fun compare :: "cel_value \<Rightarrow> cel_value \<Rightarrow> CelEvalError + int" where
  "compare (VNum a) (VNum b) =
     (if a = NaN \<or> b = NaN then Inl (EvalError ''cannot order-compare NaN'') else Inr (cmp (js_less a b) (js_less b a)))"
| "compare (VStr a) (VStr b) = Inr (cmp (str_less a b) (str_less b a))"
| "compare a b = Inl (EvalError ''cannot compare'')"

fun requireBool :: "cel_value \<Rightarrow> CelEvalError + bool" where
  "requireBool (VBool b) = Inr b"
| "requireBool v = Inl (EvalError ''requires bool'')"

section \<open>Arithmetic of the language\<close>

fun num_neg :: "jsnum \<Rightarrow> jsnum" where
  "num_neg (Num a) = Num (- a)"
| "num_neg PosInf = NegInf"
| "num_neg NegInf = PosInf"
| "num_neg NaN = NaN"

fun num_add :: "jsnum \<Rightarrow> jsnum \<Rightarrow> jsnum" where
  "num_add (Num a) (Num b) = Num (a + b)"
| "num_add NaN b = NaN"
| "num_add a NaN = NaN"
| "num_add (Num a) b = b"
| "num_add a (Num b) = a"
| "num_add PosInf NegInf = NaN"
| "num_add NegInf PosInf = NaN"
| "num_add a b = a"

definition num_sub :: "jsnum \<Rightarrow> jsnum \<Rightarrow> jsnum" where
  "num_sub a b = num_add a (num_neg b)"

text \<open>The sign of a number, \<open>None\<close> for \<^verbatim>\<open>NaN\<close>.\<close>

fun num_sign :: "jsnum \<Rightarrow> int option" where
  "num_sign (Num a) = Some (if 0 < a then 1 else if a < 0 then - 1 else 0)"
| "num_sign PosInf = Some 1"
| "num_sign NegInf = Some (- 1)"
| "num_sign NaN = None"

definition signed_inf :: "int \<Rightarrow> jsnum" where
  "signed_inf s = (if 0 < s then PosInf else if s < 0 then NegInf else NaN)"

fun num_mul :: "jsnum \<Rightarrow> jsnum \<Rightarrow> jsnum" where
  "num_mul (Num a) (Num b) = Num (a * b)"
| "num_mul a b = (case (num_sign a, num_sign b) of (Some s, Some t) \<Rightarrow> signed_inf (s * t) | _ \<Rightarrow> NaN)"

text \<open>Quotient and remainder, for a divisor that is not 0.\<close>

fun num_div :: "jsnum \<Rightarrow> jsnum \<Rightarrow> jsnum" where
  "num_div (Num a) (Num b) = Num (a / b)"
| "num_div NaN b = NaN"
| "num_div a NaN = NaN"
| "num_div (Num a) b = Num 0"
| "num_div a (Num b) = (case (num_sign a, num_sign (Num b)) of (Some s, Some t) \<Rightarrow> signed_inf (s * t) | _ \<Rightarrow> NaN)"
| "num_div a b = NaN"

definition real_trunc :: "real \<Rightarrow> int" where
  "real_trunc x = (if 0 \<le> x then \<lfloor>x\<rfloor> else \<lceil>x\<rceil>)"

fun num_rem :: "jsnum \<Rightarrow> jsnum \<Rightarrow> jsnum" where
  "num_rem (Num a) (Num b) = Num (a - b * of_int (real_trunc (a / b)))"
| "num_rem (Num a) PosInf = Num a"
| "num_rem (Num a) NegInf = Num a"
| "num_rem a b = NaN"

fun num_trunc :: "jsnum \<Rightarrow> jsnum" where
  "num_trunc (Num a) = Num (of_int (real_trunc a))"
| "num_trunc n = n"

fun num_finite :: "jsnum \<Rightarrow> bool" where
  "num_finite (Num a) = True"
| "num_finite n = False"

section \<open>Text of values\<close>

fun js_string :: "cel_host \<Rightarrow> cel_value \<Rightarrow> string" where
  "js_string h VNull = ''null''"
| "js_string h VUndef = ''undefined''"
| "js_string h (VBool b) = (if b then ''true'' else ''false'')"
| "js_string h (VNum n) = ch_num_str h n"
| "js_string h (VStr s) = s"
| "js_string h (VBytes bs) = join_with '','' (map show_nat bs)"
| "js_string h (VList xs) = join_with '','' (map (\<lambda>x. if x = VNull \<or> x = VUndef then [] else js_string h x) xs)"
| "js_string h (VMap m) = ''[object Object]''"
| "js_string h (VCidr b n) = ''[object Object]''"

fun js_number :: "cel_host \<Rightarrow> cel_value \<Rightarrow> jsnum" where
  "js_number h VNull = Num 0"
| "js_number h VUndef = NaN"
| "js_number h (VBool b) = Num (if b then 1 else 0)"
| "js_number h (VNum n) = n"
| "js_number h v = ch_to_number h (js_string h v)"

text \<open>The code points of a text: every code unit here is one.\<close>

definition codePointLength :: "string \<Rightarrow> nat" where
  "codePointLength s = length s"

fun sizeOf :: "cel_value \<Rightarrow> CelEvalError + nat" where
  "sizeOf (VStr s) = Inr (codePointLength s)"
| "sizeOf (VList xs) = Inr (length xs)"
| "sizeOf (VBytes bs) = Inr (length bs)"
| "sizeOf (VMap m) = Inr (length m)"
| "sizeOf v = Inl (EvalError ''size() not defined'')"

text \<open>\<^verbatim>\<open>split\<close>, \<^verbatim>\<open>indexOf\<close> and \<^verbatim>\<open>substring\<close> of strings.\<close>

function split_text :: "string \<Rightarrow> string \<Rightarrow> string \<Rightarrow> string list" where
  "split_text sep acc s =
     (if s = [] then [acc]
      else if sep \<noteq> [] \<and> starts_with s sep then acc # split_text sep [] (drop (length sep) s)
      else split_text sep (acc @ [hd s]) (tl s))"
  by pat_completeness auto
termination by (relation "measure (\<lambda>(sep, acc, s). length s)") auto

declare split_text.simps [simp del]

definition js_split :: "string \<Rightarrow> string \<Rightarrow> string list" where
  "js_split sep s = (if sep = [] then map (\<lambda>c. [c]) s else split_text sep [] s)"

fun js_indexOf :: "string \<Rightarrow> string \<Rightarrow> int" where
  "js_indexOf needle [] = (if needle = [] then 0 else - 1)"
| "js_indexOf needle (c # s) =
     (if starts_with (c # s) needle then 0
      else let i = js_indexOf needle s in if i < 0 then - 1 else i + 1)"

fun clamp_index :: "nat \<Rightarrow> jsnum \<Rightarrow> nat" where
  "clamp_index len (Num a) = (if a < 0 then 0 else min len (nat (real_trunc a)))"
| "clamp_index len PosInf = len"
| "clamp_index len NegInf = 0"
| "clamp_index len NaN = 0"

definition js_substring :: "string \<Rightarrow> jsnum \<Rightarrow> jsnum option \<Rightarrow> string" where
  "js_substring s a b =
     (let i = clamp_index (length s) a; j = (case b of Some n \<Rightarrow> clamp_index (length s) n | None \<Rightarrow> length s);
          lo = min i j; hi = max i j in take (hi - lo) (drop lo s))"

section \<open>Addresses\<close>

definition cel_ipv4ToInt :: "string \<Rightarrow> 32 word option" where
  "cel_ipv4ToInt ip = (let parts = split_on (CHR ''.'') (js_trim ip) in if length parts \<noteq> 4 then None else octets_to_int parts 0)"

definition parseCidr :: "cel_host \<Rightarrow> string \<Rightarrow> (32 word \<times> nat) option" where
  "parseCidr h cidr =
     (let parts = split_on (CHR ''/'') (js_trim cidr); ip = hd parts in
      case (if ip = [] then None else cel_ipv4ToInt ip) of
        None \<Rightarrow> None
      | Some base \<Rightarrow>
          (case (case tl parts of [] \<Rightarrow> Num 32 | b # _ \<Rightarrow> ch_to_number h b) of
             Num x \<Rightarrow> if of_int \<lfloor>x\<rfloor> = x \<and> 0 \<le> x \<and> x \<le> 32 then Some (base, nat \<lfloor>x\<rfloor>) else None
           | _ \<Rightarrow> None))"

definition cidrContains :: "32 word \<Rightarrow> nat \<Rightarrow> string \<Rightarrow> bool" where
  "cidrContains base bits ip =
     (case cel_ipv4ToInt ip of
        None \<Rightarrow> False
      | Some addr \<Rightarrow> let m = (if bits = 0 then 0 else push_bit (32 - bits) (- 1)) in addr AND m = base AND m)"

section \<open>Operators on values\<close>

definition MAX_PATTERN_LENGTH :: nat where
  "MAX_PATTERN_LENGTH = 512"

definition star_plus :: "char \<Rightarrow> bool" where
  "star_plus c \<longleftrightarrow> c = CHR ''*'' \<or> c = CHR ''+''"

definition paren_char :: "char \<Rightarrow> bool" where
  "paren_char c \<longleftrightarrow> c = CHR ''('' \<or> c = CHR '')''"

text \<open>A group with an unbounded quantifier inside, itself under one.\<close>

fun nested_quantifier :: "string \<Rightarrow> bool" where
  "nested_quantifier [] = False"
| "nested_quantifier (c # s) =
     (c = CHR ''('' \<and> list_ex star_plus (takeWhile (\<lambda>x. \<not> paren_char x) s) \<and>
        (case dropWhile (\<lambda>x. \<not> paren_char x) s of x # y # _ \<Rightarrow> x = CHR '')'' \<and> star_plus y | _ \<Rightarrow> False)
      \<or> nested_quantifier s)"

definition cachedRegex :: "cel_host \<Rightarrow> string \<Rightarrow> CelEvalError + (string \<Rightarrow> bool)" where
  "cachedRegex h pattern =
     (if MAX_PATTERN_LENGTH < length pattern then Inl (EvalError ''pattern too long'')
      else if nested_quantifier pattern then Inl (EvalError ''nested unbounded quantifier'')
      else case ch_regex h pattern of Some test \<Rightarrow> Inr test | None \<Rightarrow> Inl HostError)"

fun plus :: "cel_value \<Rightarrow> cel_value \<Rightarrow> CelEvalError + cel_value" where
  "plus (VNum a) (VNum b) = Inr (VNum (num_add a b))"
| "plus (VStr a) (VStr b) = Inr (VStr (a @ b))"
| "plus (VList a) (VList b) = Inr (VList (a @ b))"
| "plus (VBytes a) (VBytes b) = Inr (VBytes (a @ b))"
| "plus a b = Inl (EvalError ''operator + not defined'')"

fun numOp :: "(jsnum \<Rightarrow> jsnum \<Rightarrow> jsnum) \<Rightarrow> cel_value \<Rightarrow> cel_value \<Rightarrow> CelEvalError + cel_value" where
  "numOp f (VNum a) (VNum b) = Inr (VNum (f a b))"
| "numOp f a b = Inl (EvalError ''arithmetic requires numbers'')"

fun inOp :: "cel_host \<Rightarrow> cel_value \<Rightarrow> cel_value \<Rightarrow> CelEvalError + bool" where
  "inOp h a (VList xs) = Inr (list_ex (\<lambda>x. equals x a) xs)"
| "inOp h a (VMap m) = Inr (jm_get m (js_string h a) \<noteq> None)"
| "inOp h (VStr a) (VStr b) = Inr (sublist a b)"
| "inOp h a b = Inl (EvalError ''operator in not defined'')"

definition as_bool :: "CelEvalError + bool \<Rightarrow> CelEvalError + cel_value" where
  "as_bool r = map_sum id VBool r"

fun binary_op :: "cel_host \<Rightarrow> BinaryOp \<Rightarrow> cel_value \<Rightarrow> cel_value \<Rightarrow> CelEvalError + cel_value" where
  "binary_op h OpEq a b = Inr (VBool (equals a b))"
| "binary_op h OpNe a b = Inr (VBool (\<not> equals a b))"
| "binary_op h OpLt a b = as_bool (map_sum id (\<lambda>c. c < 0) (compare a b))"
| "binary_op h OpLe a b = as_bool (map_sum id (\<lambda>c. c \<le> 0) (compare a b))"
| "binary_op h OpGt a b = as_bool (map_sum id (\<lambda>c. 0 < c) (compare a b))"
| "binary_op h OpGe a b = as_bool (map_sum id (\<lambda>c. 0 \<le> c) (compare a b))"
| "binary_op h OpIn a b = as_bool (inOp h a b)"
| "binary_op h OpAdd a b = plus a b"
| "binary_op h OpSub a b = numOp num_sub a b"
| "binary_op h OpMul a b = numOp num_mul a b"
| "binary_op h OpDiv a b = (if b = VNum (Num 0) then Inl (EvalError ''division by zero'') else numOp num_div a b)"
| "binary_op h OpMod a b = (if b = VNum (Num 0) then Inl (EvalError ''modulo by zero'') else numOp num_rem a b)"
| "binary_op h op a b = Inl (EvalError ''operator'')"

fun member_of :: "cel_value \<Rightarrow> string \<Rightarrow> CelEvalError + cel_value" where
  "member_of (VMap m) k = (case jm_get m k of Some v \<Rightarrow> Inr v | None \<Rightarrow> Inl (EvalError ''no such field''))"
| "member_of v k = Inl (EvalError ''cannot access field'')"

fun list_at :: "cel_value list \<Rightarrow> jsnum \<Rightarrow> cel_value" where
  "list_at xs (Num x) = (if of_int \<lfloor>x\<rfloor> = x \<and> 0 \<le> x \<and> nat \<lfloor>x\<rfloor> < length xs then xs ! nat \<lfloor>x\<rfloor> else VUndef)"
| "list_at xs n = VUndef"

fun index_of_value :: "cel_host \<Rightarrow> cel_value \<Rightarrow> cel_value \<Rightarrow> CelEvalError + cel_value" where
  "index_of_value h (VList xs) i =
     (case i of
        VNum n \<Rightarrow>
          if js_less n (Num 0) \<or> n \<noteq> NaN \<and> \<not> js_less n (Num (real (length xs))) then Inl (EvalError ''index out of bounds'') else Inr (list_at xs n)
      | _ \<Rightarrow> Inl (EvalError ''list index must be a number''))"
| "index_of_value h (VMap m) i = (case jm_get m (js_string h i) of Some v \<Rightarrow> Inr v | None \<Rightarrow> Inl (EvalError ''no such key''))"
| "index_of_value h v i = Inl (EvalError ''cannot index'')"

fun has_key :: "cel_host \<Rightarrow> cel_value \<Rightarrow> string \<Rightarrow> CelEvalError + cel_value" where
  "has_key h (VMap m) k = Inr (VBool (jm_get m k \<noteq> None))"
| "has_key h (VList xs) k =
     (let n = ch_to_number h k in Inr (VBool (n \<noteq> NaN \<and> \<not> js_less n (Num 0) \<and> js_less n (Num (real (length xs))))))"
| "has_key h v k = Inl (EvalError ''has() target is not a map or list'')"

text \<open>A dotted path into maps and lists.\<close>

fun json_path :: "cel_value \<Rightarrow> string list \<Rightarrow> cel_value" where
  "json_path v [] = v"
| "json_path (VMap m) (seg # segs) = json_path (own_prop m seg) segs"
| "json_path (VList xs) (seg # segs) =
     (if seg \<noteq> [] \<and> list_all is_digit seg then
        json_path (if read_nat seg < length xs then xs ! read_nat seg else VUndef) segs
      else VUndef)"
| "json_path v (seg # segs) = VUndef"

definition jsonField :: "cel_value \<Rightarrow> string \<Rightarrow> cel_value" where
  "jsonField v path = json_path v (split_on (CHR ''.'') path)"

definition nth_arg :: "cel_value list \<Rightarrow> nat \<Rightarrow> cel_value" where
  "nth_arg as i = (if i < length as then as ! i else VUndef)"

text \<open>The methods the empty table of global functions inherits, found by \<^verbatim>\<open>func in userFns\<close>.\<close>

definition inherited_call :: "string \<Rightarrow> cel_value list \<Rightarrow> (CelEvalError + cel_value) option" where
  "inherited_call func as =
     (if func = ''constructor'' then Some (Inr (VList as))
      else if func = ''toString'' \<or> func = ''toLocaleString'' then Some (Inr (VStr ''[object Object]''))
      else if func = ''valueOf'' then Some (Inr (VMap []))
      else if func = ''hasOwnProperty'' \<or> func = ''isPrototypeOf'' \<or> func = ''propertyIsEnumerable'' then Some (Inr (VBool False))
      else if func = ''__lookupGetter__'' \<or> func = ''__lookupSetter__'' then Some (Inr VUndef)
      else if func = ''__proto__'' \<or> func = ''__defineGetter__'' \<or> func = ''__defineSetter__'' then Some (Inl HostError)
      else None)"

fun text_of_bytes :: "cel_host \<Rightarrow> cel_value \<Rightarrow> string" where
  "text_of_bytes h (VBytes bs) = ch_decode h bs"
| "text_of_bytes h v = js_string h v"

fun bytes_of :: "cel_host \<Rightarrow> cel_value \<Rightarrow> nat list" where
  "bytes_of h (VBytes bs) = bs"
| "bytes_of h v = utf8_encode (js_string h v)"

definition finite_number :: "jsnum \<Rightarrow> CelEvalError + cel_value" where
  "finite_number n = (if num_finite n then Inr (VNum n) else Inl (EvalError ''cannot convert''))"

definition builtinCall :: "cel_host \<Rightarrow> string \<Rightarrow> cel_value list \<Rightarrow> CelEvalError + cel_value" where
  "builtinCall h func as =
     (let a0 = nth_arg as 0; a1 = nth_arg as 1 in
      if func = ''size'' then map_sum id (\<lambda>n. VNum (Num (real n))) (sizeOf a0)
      else if func = ''int'' then finite_number (num_trunc (js_number h a0))
      else if func = ''double'' then finite_number (js_number h a0)
      else if func = ''string'' then Inr (VStr (text_of_bytes h a0))
      else if func = ''bool'' then Inr (VBool (a0 = VBool True \<or> a0 = VStr ''true''))
      else if func = ''bytes'' then Inr (case a0 of VStr s \<Rightarrow> VBytes (utf8_encode s) | _ \<Rightarrow> a0)
      else if func = ''dyn'' then Inr a0
      else if func = ''matches'' then
        (case a0 of VStr s \<Rightarrow> map_sum id (\<lambda>test. VBool (test s)) (cachedRegex h (js_string h a1)) | _ \<Rightarrow> Inr (VBool False))
      else if func = ''ip'' then
        (case a0 of VStr s \<Rightarrow> if cel_ipv4ToInt s = None then Inl (EvalError ''ip() invalid address'') else Inr a0
         | _ \<Rightarrow> Inl (EvalError ''ip() invalid address''))
      else if func = ''cidr'' then
        (case (case a0 of VStr s \<Rightarrow> parseCidr h s | _ \<Rightarrow> None) of Some (b, n) \<Rightarrow> Inr (VCidr b n) | None \<Rightarrow> Inl (EvalError ''cidr() invalid''))
      else if func = ''ipInCidr'' then
        Inr (VBool (case (case a1 of VStr c \<Rightarrow> parseCidr h c | _ \<Rightarrow> None) of
          Some (b, n) \<Rightarrow> (case a0 of VStr s \<Rightarrow> cidrContains b n s | _ \<Rightarrow> False) | None \<Rightarrow> False))
      else if func = ''jsonField'' then Inr (jsonField a0 (js_string h a1))
      else if func = ''base64Encode'' then Inr (VStr (ch_base64 h (bytes_of h a0)))
      else if func = ''base64Decode'' then Inr (VStr (ch_decode h (ch_unbase64 h (js_string h a0))))
      else if func = ''lowerAscii'' then Inr (VStr (to_lower (js_string h a0)))
      else if func = ''upperAscii'' then Inr (VStr (ch_upper h (js_string h a0)))
      else Inl (EvalError ''unknown function''))"

definition call_function :: "cel_host \<Rightarrow> string \<Rightarrow> cel_value list \<Rightarrow> CelEvalError + cel_value" where
  "call_function h func as =
     (if func = ''type'' then Inr (VStr (typeName (nth_arg as 0)))
      else case inherited_call func as of Some r \<Rightarrow> r | None \<Rightarrow> builtinCall h func as)"

definition or_empty :: "cel_host \<Rightarrow> cel_value \<Rightarrow> string" where
  "or_empty h v = (if v = VNull \<or> v = VUndef then [] else js_string h v)"

definition stringMethod :: "cel_host \<Rightarrow> string \<Rightarrow> string \<Rightarrow> cel_value list \<Rightarrow> CelEvalError + cel_value" where
  "stringMethod h s name as =
     (let a0 = nth_arg as 0; t = js_string h a0 in
      if name = ''startsWith'' then Inr (VBool (starts_with s t))
      else if name = ''endsWith'' then Inr (VBool (suffix t s))
      else if name = ''contains'' then Inr (VBool (sublist t s))
      else if name = ''matches'' then map_sum id (\<lambda>test. VBool (test s)) (cachedRegex h t)
      else if name = ''size'' then Inr (VNum (Num (real (codePointLength s))))
      else if name = ''lowerAscii'' then Inr (VStr (to_lower s))
      else if name = ''upperAscii'' then Inr (VStr (ch_upper h s))
      else if name = ''trim'' then Inr (VStr (js_trim s))
      else if name = ''indexOf'' then Inr (VNum (Num (of_int (js_indexOf t s))))
      else if name = ''replace'' then Inr (VStr (join_with (or_empty h (nth_arg as 1)) (js_split t s)))
      else if name = ''split'' then Inr (VList (map VStr (js_split t s)))
      else if name = ''substring'' then
        Inr (VStr (js_substring s (js_number h a0) (if nth_arg as 1 = VUndef then None else Some (js_number h (nth_arg as 1)))))
      else Inl (EvalError ''no such string method''))"

fun call_method :: "cel_host \<Rightarrow> cel_value \<Rightarrow> string \<Rightarrow> cel_value list \<Rightarrow> CelEvalError + cel_value" where
  "call_method h (VCidr b n) name as =
     (if name = ''containsIP'' then Inr (VBool (case nth_arg as 0 of VStr s \<Rightarrow> cidrContains b n s | _ \<Rightarrow> False))
      else Inl (EvalError ''no such method''))"
| "call_method h (VStr s) name as = stringMethod h s name as"
| "call_method h (VList xs) name as =
     (if name = ''size'' then Inr (VNum (Num (real (length xs))))
      else if name = ''contains'' then Inr (VBool (list_ex (\<lambda>x. equals x (nth_arg as 0)) xs))
      else if name = ''join'' then Inr (VStr (join_with (or_empty h (nth_arg as 0)) (map (js_string h) xs)))
      else Inl (EvalError ''no such method''))"
| "call_method h (VMap m) name as =
     (if name = ''size'' then Inr (VNum (Num (real (length m)))) else Inl (EvalError ''no such method''))"
| "call_method h v name as = Inl (EvalError ''no such method'')"

section \<open>The evaluator\<close>

record cel_state =
  cs_steps :: nat
  cs_trace :: "(string \<times> cel_value) list option"

type_synonym 'a cel = "cel_state \<Rightarrow> (CelEvalError + 'a) \<times> cel_state"

definition cret :: "CelEvalError + 'a \<Rightarrow> 'a cel" where
  "cret r s = (r, s)"

definition cbind :: "'a cel \<Rightarrow> ('a \<Rightarrow> 'b cel) \<Rightarrow> 'b cel" where
  "cbind m f s = (case m s of (Inl e, s') \<Rightarrow> (Inl e, s') | (Inr a, s') \<Rightarrow> f a s')"

primrec cmap :: "('x \<Rightarrow> 'a cel) \<Rightarrow> 'x list \<Rightarrow> 'a list cel" where
  "cmap f [] = cret (Inr [])"
| "cmap f (x # xs) = cbind (f x) (\<lambda>a. cbind (cmap f xs) (\<lambda>as. cret (Inr (a # as))))"

lemma cbind_cong [fundef_cong]: "m = m' \<Longrightarrow> (\<And>a. f a = f' a) \<Longrightarrow> cbind m f = cbind m' f'"
  by presburger

lemma cmap_cong [fundef_cong]: "xs = ys \<Longrightarrow> (\<And>x. x \<in> set ys \<Longrightarrow> f x = g x) \<Longrightarrow> cmap f xs = cmap g ys"
proof (induction xs arbitrary: ys)
  case (Cons x xs)
  then have "cmap f xs = cmap g xs" by auto
  with Cons.prems show ?case by auto
qed simp

text \<open>The five loops of the comprehensions, over a test of an item.\<close>

primrec cfilter :: "('x \<Rightarrow> bool cel) \<Rightarrow> 'x list \<Rightarrow> 'x list cel" where
  "cfilter f [] = cret (Inr [])"
| "cfilter f (x # xs) = cbind (f x) (\<lambda>b. cbind (cfilter f xs) (\<lambda>ys. cret (Inr (if b then x # ys else ys))))"

primrec cevery :: "('x \<Rightarrow> bool cel) \<Rightarrow> 'x list \<Rightarrow> bool cel" where
  "cevery f [] = cret (Inr True)"
| "cevery f (x # xs) = cbind (f x) (\<lambda>b. if b then cevery f xs else cret (Inr False))"

primrec csome :: "('x \<Rightarrow> bool cel) \<Rightarrow> 'x list \<Rightarrow> bool cel" where
  "csome f [] = cret (Inr False)"
| "csome f (x # xs) = cbind (f x) (\<lambda>b. if b then cret (Inr True) else csome f xs)"

primrec ccount :: "('x \<Rightarrow> bool cel) \<Rightarrow> 'x list \<Rightarrow> nat cel" where
  "ccount f [] = cret (Inr 0)"
| "ccount f (x # xs) = cbind (f x) (\<lambda>b. cbind (ccount f xs) (\<lambda>n. cret (Inr (if b then Suc n else n))))"

definition cbool :: "cel_value cel \<Rightarrow> bool cel" where
  "cbool m = cbind m (\<lambda>v. cret (requireBool v))"

definition macro_loop :: "MacroName \<Rightarrow> (cel_value \<Rightarrow> cel_value cel) \<Rightarrow> cel_value list \<Rightarrow> cel_value cel" where
  "macro_loop m f items =
     (case m of
        MacroMap \<Rightarrow> cbind (cmap f items) (\<lambda>vs. cret (Inr (VList vs)))
      | MacroFilter \<Rightarrow> cbind (cfilter (\<lambda>i. cbool (f i)) items) (\<lambda>vs. cret (Inr (VList vs)))
      | MacroAll \<Rightarrow> cbind (cevery (\<lambda>i. cbool (f i)) items) (\<lambda>b. cret (Inr (VBool b)))
      | MacroExists \<Rightarrow> cbind (csome (\<lambda>i. cbool (f i)) items) (\<lambda>b. cret (Inr (VBool b)))
      | MacroExistsOne \<Rightarrow> cbind (ccount (\<lambda>i. cbool (f i)) items) (\<lambda>n. cret (Inr (VBool (n = 1)))))"

fun macro_items :: "cel_value \<Rightarrow> CelEvalError + cel_value list" where
  "macro_items (VList xs) = Inr xs"
| "macro_items (VMap m) = Inr (map (\<lambda>p. VStr (fst p)) (own_order m))"
| "macro_items v = Inl (EvalError ''macro requires a list or map'')"

text \<open>Assigning a member of an object under construction; assigning \<^verbatim>\<open>__proto__\<close> makes none.\<close>

definition set_member :: "string \<Rightarrow> cel_value \<Rightarrow> (string \<times> cel_value) list \<Rightarrow> (string \<times> cel_value) list" where
  "set_member k v m = (if k = ''__proto__'' then m else jm_set k v m)"

definition lookup_var :: "(string \<times> cel_value) list \<Rightarrow> (string \<times> cel_value) list \<Rightarrow> string \<Rightarrow> CelEvalError + cel_value" where
  "lookup_var vars acts name =
     (case jm_get vars name of
        Some v \<Rightarrow> Inr v
      | None \<Rightarrow> (case jm_get acts name of Some v \<Rightarrow> Inr v | None \<Rightarrow> Inl (EvalError ''undefined variable'')))"

definition MAX_EVAL_DEPTH :: nat where
  "MAX_EVAL_DEPTH = 512"

definition DEFAULT_MAX_STEPS :: nat where
  "DEFAULT_MAX_STEPS = 100000"

fun expr_kind :: "Expr \<Rightarrow> string" where
  "expr_kind (Lit v) = ''lit''"
| "expr_kind (Ident x) = ''ident''"
| "expr_kind (EList es) = ''list''"
| "expr_kind (EMap kvs) = ''map''"
| "expr_kind (Unary op e) = ''unary''"
| "expr_kind (Binary op l r) = ''binary''"
| "expr_kind (Ternary c t e) = ''ternary''"
| "expr_kind (Member t f) = ''member''"
| "expr_kind (Index t i) = ''index''"
| "expr_kind (Call f as) = ''call''"
| "expr_kind (Method t f as) = ''method''"
| "expr_kind (Macro t m v b) = ''macro''"

definition push_trace :: "string \<Rightarrow> cel_value \<Rightarrow> cel_state \<Rightarrow> cel_state" where
  "push_trace k v s = s\<lparr>cs_trace := map_option (\<lambda>tr. tr @ [(k, v)]) (cs_trace s)\<rparr>"

text \<open>What every node does around its own evaluation: count the step, check the depth, record the value.\<close>

definition node :: "nat \<Rightarrow> nat \<Rightarrow> string \<Rightarrow> cel_value cel \<Rightarrow> cel_value cel" where
  "node maxSteps depth kind m s =
     (let s1 = s\<lparr>cs_steps := Suc (cs_steps s)\<rparr> in
      if maxSteps < cs_steps s1 then (Inl StepLimit, s1)
      else if MAX_EVAL_DEPTH < Suc depth then (Inl NestingTooDeep, s1)
      else case m s1 of
        (Inl e, s2) \<Rightarrow> (Inl e, s2)
      | (Inr v, s2) \<Rightarrow> (Inr v, push_trace kind v s2))"

lemma node_cong [fundef_cong]: "a = a' \<Longrightarrow> b = b' \<Longrightarrow> k = k' \<Longrightarrow> m = m' \<Longrightarrow> node a b k m = node a' b' k' m'"
  by simp

record cel_env =
  ce_host :: cel_host
  ce_maxSteps :: nat
  ce_root :: "(string \<times> cel_value) list"

lemma size_entry [termination_simp]:
  assumes "kv \<in> set kvs"
  shows "size (fst kv) < size (EMap kvs)" "size (snd kv) < size (EMap kvs)"
proof -
  have "size_prod size size kv \<le> size_list (size_prod size size) kvs" using assms by (rule size_list_estimation') simp
  moreover have "size (fst kv) < size_prod size size kv" "size (snd kv) < size_prod size size kv" by (cases kv; simp)+
  ultimately show "size (fst kv) < size (EMap kvs)" "size (snd kv) < size (EMap kvs)" by simp_all
qed

lemma size_item:
  fixes e :: Expr
  assumes "e \<in> set es"
  shows "size e \<le> size_list size es"
  using assms by (rule size_list_estimation') simp

function ev :: "cel_env \<Rightarrow> nat \<Rightarrow> Expr \<Rightarrow> (string \<times> cel_value) list \<Rightarrow> cel_value cel"
  and ev_inner :: "cel_env \<Rightarrow> nat \<Rightarrow> Expr \<Rightarrow> (string \<times> cel_value) list \<Rightarrow> cel_value cel" where
  "ev c d e vars = node (ce_maxSteps c) d (expr_kind e) (ev_inner c (Suc d) e vars)"
| "ev_inner c d (Lit v) vars = cret (Inr (lit_value v))"
| "ev_inner c d (Ident x) vars = cret (lookup_var vars (ce_root c) x)"
| "ev_inner c d (EList es) vars = cbind (cmap (\<lambda>e. ev c d e vars) es) (\<lambda>vs. cret (Inr (VList vs)))"
| "ev_inner c d (EMap kvs) vars =
     cbind (cmap (\<lambda>kv. cbind (ev c d (fst kv) vars) (\<lambda>k. cbind (ev c d (snd kv) vars) (\<lambda>v. cret (Inr (js_string (ce_host c) k, v))))) kvs)
       (\<lambda>ps. cret (Inr (VMap (foldl (\<lambda>m (k, v). set_member k v m) [] ps))))"
| "ev_inner c d (Unary op e) vars =
     cbind (ev c d e vars) (\<lambda>x.
       case op of
         OpNot \<Rightarrow> cret (as_bool (map_sum id Not (requireBool x)))
       | OpNeg \<Rightarrow> (case x of VNum n \<Rightarrow> cret (Inr (VNum (num_neg n))) | _ \<Rightarrow> cret (Inl (EvalError ''unary - requires number''))))"
| "ev_inner c d (Ternary q t e) vars = cbind (cbool (ev c d q vars)) (\<lambda>b. if b then ev c d t vars else ev c d e vars)"
| "ev_inner c d (Binary op l r) vars =
     (if op = OpAnd then
        cbind (cbool (ev c d l vars)) (\<lambda>b. if b then cbind (cbool (ev c d r vars)) (\<lambda>x. cret (Inr (VBool x))) else cret (Inr (VBool False)))
      else if op = OpOr then
        cbind (cbool (ev c d l vars)) (\<lambda>b. if b then cret (Inr (VBool True)) else cbind (cbool (ev c d r vars)) (\<lambda>x. cret (Inr (VBool x))))
      else cbind (ev c d l vars) (\<lambda>a. cbind (ev c d r vars) (\<lambda>b. cret (binary_op (ce_host c) op a b))))"
| "ev_inner c d (Member t f) vars = cbind (ev c d t vars) (\<lambda>v. cret (member_of v f))"
| "ev_inner c d (Index t i) vars = cbind (ev c d t vars) (\<lambda>v. cbind (ev c d i vars) (\<lambda>x. cret (index_of_value (ce_host c) v x)))"
| "ev_inner c d (Call func as) vars =
     (if func = ''has'' then
        (case as of
           Member t f # _ \<Rightarrow> cbind (ev c d t vars) (\<lambda>v. cret (has_key (ce_host c) v f))
         | Index t i # _ \<Rightarrow>
             cbind (ev c d t vars) (\<lambda>v. cbind (ev c d i vars) (\<lambda>x. cret (has_key (ce_host c) v (js_string (ce_host c) x))))
         | _ \<Rightarrow> cret (Inl (EvalError ''has() requires a field selection'')))
      else cbind (cmap (\<lambda>e. ev c d e vars) as) (\<lambda>vs. cret (call_function (ce_host c) func vs)))"
| "ev_inner c d (Method t f as) vars =
     cbind (ev c d t vars) (\<lambda>v. cbind (cmap (\<lambda>e. ev c d e vars) as) (\<lambda>vs. cret (call_method (ce_host c) v f vs)))"
| "ev_inner c d (Macro t m x body) vars =
     cbind (ev c d t vars) (\<lambda>v. cbind (cret (macro_items v)) (\<lambda>items. macro_loop m (\<lambda>it. ev c d body ((x, it) # vars)) items))"
  by pat_completeness auto
termination
  by (relation "measure (\<lambda>x. case x of Inl (c, d, e, vars) \<Rightarrow> 2 * size e + 1 | Inr (c, d, e, vars) \<Rightarrow> 2 * size e)")
    (auto dest: size_entry size_item)


declare ev.simps [simp del]

definition cel_run :: "cel_host \<Rightarrow> nat option \<Rightarrow> Expr \<Rightarrow> (string \<times> cel_value) list \<Rightarrow> cel_state \<Rightarrow> (CelEvalError + cel_value) \<times> cel_state" where
  "cel_run h maxSteps e acts s =
     ev \<lparr>ce_host = h, ce_maxSteps = (case maxSteps of Some n \<Rightarrow> n | None \<Rightarrow> DEFAULT_MAX_STEPS), ce_root = acts\<rparr> 0 e [] (s\<lparr>cs_steps := 0\<rparr>)"

definition fresh_state :: cel_state where
  "fresh_state = \<lparr>cs_steps = 0, cs_trace = None\<rparr>"

section \<open>Evaluation is bounded\<close>

text \<open>A computation that counts its steps: never past the limit but for the one that is refused, and a value only within it.\<close>

definition metered :: "nat \<Rightarrow> 'a cel \<Rightarrow> bool" where
  "metered n m \<longleftrightarrow> (\<forall>s. cs_steps s \<le> n \<longrightarrow>
     cs_steps s \<le> cs_steps (snd (m s)) \<and> cs_steps (snd (m s)) \<le> Suc n \<and> (\<forall>v. fst (m s) = Inr v \<longrightarrow> cs_steps (snd (m s)) \<le> n))"

named_theorems metered_intros

lemma metered_cret [metered_intros]: "metered n (cret r)"
  by (simp add: metered_def cret_def)

lemma metered_cbind [metered_intros]: "metered n m \<Longrightarrow> (\<And>a. metered n (f a)) \<Longrightarrow> metered n (cbind m f)"
proof -
  assume m: "metered n m" and f: "\<And>a. metered n (f a)"
  show ?thesis
    unfolding metered_def
  proof (intro allI impI)
    fix s :: cel_state assume s: "cs_steps s \<le> n"
    obtain r s' where ms: "m s = (r, s')" by (cases "m s")
    then have step: "cs_steps s \<le> cs_steps s'" "cs_steps s' \<le> Suc n" "\<And>v. r = Inr v \<Longrightarrow> cs_steps s' \<le> n"
      using m s unfolding metered_def by (metis fst_conv snd_conv)+
    show "cs_steps s \<le> cs_steps (snd (cbind m f s)) \<and> cs_steps (snd (cbind m f s)) \<le> Suc n \<and>
        (\<forall>v. fst (cbind m f s) = Inr v \<longrightarrow> cs_steps (snd (cbind m f s)) \<le> n)"
    proof (cases r)
      case (Inr a)
      with step(1,3) f [of a] ms show ?thesis unfolding metered_def cbind_def by (auto intro: order_trans)
    qed (use step ms in \<open>simp add: cbind_def\<close>)
  qed
qed

lemma metered_if [metered_intros]: "metered n a \<Longrightarrow> metered n b \<Longrightarrow> metered n (if q then a else b)"
  by simp

lemma metered_cbool [metered_intros]: "metered n m \<Longrightarrow> metered n (cbool m)"
  unfolding cbool_def by (intro metered_intros)

lemma metered_cmap [metered_intros]: "(\<And>x. x \<in> set xs \<Longrightarrow> metered n (f x)) \<Longrightarrow> metered n (cmap f xs)"
  by (induction xs) (auto intro!: metered_intros)

lemma metered_loops [metered_intros]:
  assumes "\<And>x. metered n (f x)"
  shows "metered n (cfilter f xs)" "metered n (cevery f xs)" "metered n (csome f xs)" "metered n (ccount f xs)"
  by (induction xs; simp; intro metered_intros assms; assumption?)+

lemma metered_macro [metered_intros]: "(\<And>x. metered n (f x)) \<Longrightarrow> metered n (macro_loop m f xs)"
  unfolding macro_loop_def by (cases m) (auto intro!: metered_intros)

lemma metered_node:
  assumes "metered n m"
  shows "metered n (node n d k m)"
proof -
  have "cs_steps s \<le> cs_steps (snd (node n d k m s)) \<and> cs_steps (snd (node n d k m s)) \<le> Suc n \<and>
      (\<forall>v. fst (node n d k m s) = Inr v \<longrightarrow> cs_steps (snd (node n d k m s)) \<le> n)" if s: "cs_steps s \<le> n" for s :: cel_state
  proof (cases "cs_steps s = n")
    case True
    then show ?thesis by (simp add: node_def)
  next
    case False
    define t where "t = s\<lparr>cs_steps := Suc (cs_steps s)\<rparr>"
    have "cs_steps t \<le> n" using False s by (simp add: t_def)
    then have "cs_steps t \<le> cs_steps (snd (m t)) \<and> cs_steps (snd (m t)) \<le> Suc n \<and> (\<forall>v. fst (m t) = Inr v \<longrightarrow> cs_steps (snd (m t)) \<le> n)"
      using assms by (simp add: metered_def)
    then show ?thesis using False s
      by (cases "m t") (auto simp: node_def push_trace_def Let_def t_def [symmetric] split: sum.splits, auto simp: t_def)
  qed
  then show ?thesis by (simp add: metered_def)
qed

lemma ev_metered:
  "n = ce_maxSteps c \<Longrightarrow> metered n (ev c d e vars)" "n = ce_maxSteps c \<Longrightarrow> metered n (ev_inner c d e vars)"
proof (induction c d e vars and c d e vars rule: ev_ev_inner.induct)
  case (1 c d e vars)
  then show ?case by (simp add: ev.simps metered_node)
next
  case (6 c d op e vars)
  then show ?case by (cases op) (auto intro!: metered_intros split: cel_value.split)
next
  case (11 c d func as vars)
  then show ?case by (auto intro!: metered_intros split: list.split Expr.split)
qed (auto intro!: metered_intros)

end
