(* ===== verification/Cel_Policy.thy ===== *)
theory Cel_Policy
  imports Cel_Eval
begin

text \<open>
  What the gateway does with expressions: compiled programs and the attributes they read (\<^verbatim>\<open>cel/src/program.ts\<close>), the deny-first authorizer (\<^verbatim>\<open>policy.ts\<close>), the header and body
  transformer (\<^verbatim>\<open>transform.ts\<close>) and the external authorizer with its decision cache (\<^verbatim>\<open>external.ts\<close>), whose fetch is split at its await. Shown: evaluation is bounded by the step limit, a
  program depends on nothing but the attributes inferred for it as long as it takes the root objects apart by field, a rule set admits a request exactly as its rules say with every
  error counting against admission, and the external authorizer answers only with decisions of the service for the same key.
\<close>

section \<open>Programs\<close>

definition set_add :: "'a \<Rightarrow> 'a list \<Rightarrow> 'a list" where
  "set_add x xs = (if x \<in> set xs then xs else xs @ [x])"

lemma set_set_add [simp]: "set (set_add x xs) = insert x (set xs)"
  by (auto simp: set_add_def)

function inferAttributes :: "Expr \<Rightarrow> string list \<Rightarrow> string list \<times> string list \<Rightarrow> string list \<times> string list" where
  "inferAttributes (Lit v) b acc = acc"
| "inferAttributes (Ident x) b acc = (if x \<in> set b then acc else (set_add x (fst acc), snd acc))"
| "inferAttributes (EList es) b acc = foldl (\<lambda>acc e. inferAttributes e b acc) acc es"
| "inferAttributes (EMap kvs) b acc = foldl (\<lambda>acc kv. inferAttributes (snd kv) b (inferAttributes (fst kv) b acc)) acc kvs"
| "inferAttributes (Unary op e) b acc = inferAttributes e b acc"
| "inferAttributes (Binary op l r) b acc = inferAttributes r b (inferAttributes l b acc)"
| "inferAttributes (Ternary c t e) b acc = inferAttributes e b (inferAttributes t b (inferAttributes c b acc))"
| "inferAttributes (Member t f) b acc =
     inferAttributes t b (case t of Ident x \<Rightarrow> if x \<in> set b then acc else (fst acc, set_add (x @ CHR ''.'' # f) (snd acc)) | _ \<Rightarrow> acc)"
| "inferAttributes (Index t i) b acc = inferAttributes i b (inferAttributes t b acc)"
| "inferAttributes (Call f as) b acc = foldl (\<lambda>acc e. inferAttributes e b acc) acc as"
| "inferAttributes (Method t f as) b acc = foldl (\<lambda>acc e. inferAttributes e b acc) (inferAttributes t b acc) as"
| "inferAttributes (Macro t m v body) b acc = inferAttributes body (set_add v b) (inferAttributes t b acc)"
  by pat_completeness auto
termination by (relation "measure (\<lambda>(e, b, acc). size e)") (auto dest: size_entry size_item)

record Program =
  pr_source :: string
  pr_ast :: Expr
  pr_roots :: "string list"
  pr_attributes :: "string list"

record CompileOptions =
  co_declaredVars :: "string list option"
  co_strict :: "bool option"

definition cel_compile :: "string \<Rightarrow> CompileOptions \<Rightarrow> CelParseError + Program" where
  "cel_compile source opts =
     (case cel_parse source of
        Inl e \<Rightarrow> Inl e
      | Inr ast \<Rightarrow>
          (let (rs, ps) = inferAttributes ast [] ([], []);
               strict = (case co_strict opts of Some s \<Rightarrow> s | None \<Rightarrow> co_declaredVars opts \<noteq> None);
               unknown = (case co_declaredVars opts of Some ds \<Rightarrow> if strict then find (\<lambda>r. r \<notin> set ds) rs else None | None \<Rightarrow> None) in
           case unknown of
             Some r \<Rightarrow> Inl (UnknownVariable r)
           | None \<Rightarrow> Inr \<lparr>pr_source = source, pr_ast = ast, pr_roots = rs, pr_attributes = ps\<rparr>))"

type_synonym activation = "(string \<times> cel_value) list"

definition program_eval :: "cel_host \<Rightarrow> Program \<Rightarrow> activation \<Rightarrow> CelEvalError + cel_value" where
  "program_eval h p acts = fst (cel_run h None (pr_ast p) acts fresh_state)"

text \<open>\<open>None\<close> when it throws: the evaluation failed or its value is no boolean.\<close>

definition evalBool :: "cel_host \<Rightarrow> Program \<Rightarrow> activation \<Rightarrow> bool option" where
  "evalBool h p acts = (case program_eval h p acts of Inr (VBool b) \<Rightarrow> Some b | _ \<Rightarrow> None)"

definition program_reads :: "Program \<Rightarrow> string \<Rightarrow> bool" where
  "program_reads p path \<longleftrightarrow> path \<in> set (pr_attributes p) \<or> path \<in> set (pr_roots p)"

section \<open>The authorizer\<close>

datatype RuleEffect = RuleAllow | RuleDeny

record AuthzRuleConfig =
  ar_expr :: string
  ar_effect :: RuleEffect
  ar_name :: "string option"

record AuthzDecision =
  ad_allowed :: bool
  ad_reason :: "string option"

record CompiledRule =
  cr_program :: Program
  cr_name :: string

record CelAuthorizer =
  ca_allow :: "CompiledRule list"
  ca_deny :: "CompiledRule list"

datatype rule_result = RuleMatch | RuleNoMatch | RuleError

fun effect_name :: "RuleEffect \<Rightarrow> string" where
  "effect_name RuleAllow = ''allow''"
| "effect_name RuleDeny = ''deny''"

definition rule_name :: "nat \<Rightarrow> AuthzRuleConfig \<Rightarrow> string" where
  "rule_name i r = (case ar_name r of Some n \<Rightarrow> n | None \<Rightarrow> effect_name (ar_effect r) @ ''['' @ show_nat i @ '']'')"

fun compile_rules :: "CompileOptions \<Rightarrow> nat \<Rightarrow> AuthzRuleConfig list \<Rightarrow> CelAuthorizer \<Rightarrow> CelParseError + CelAuthorizer" where
  "compile_rules opts i [] a = Inr a"
| "compile_rules opts i (r # rs) a =
     (case cel_compile (ar_expr r) opts of
        Inl e \<Rightarrow> Inl e
      | Inr p \<Rightarrow>
          (let c = \<lparr>cr_program = p, cr_name = rule_name i r\<rparr> in
           compile_rules opts (Suc i) rs
             (if ar_effect r = RuleDeny then a\<lparr>ca_deny := ca_deny a @ [c]\<rparr> else a\<lparr>ca_allow := ca_allow a @ [c]\<rparr>)))"

definition new_authorizer :: "AuthzRuleConfig list \<Rightarrow> CompileOptions \<Rightarrow> CelParseError + CelAuthorizer" where
  "new_authorizer rules opts = compile_rules opts 0 rules \<lparr>ca_allow = [], ca_deny = []\<rparr>"

definition evalRule :: "cel_host \<Rightarrow> activation \<Rightarrow> CompiledRule \<Rightarrow> rule_result" where
  "evalRule h acts r = (case evalBool h (cr_program r) acts of Some True \<Rightarrow> RuleMatch | Some False \<Rightarrow> RuleNoMatch | None \<Rightarrow> RuleError)"

definition authorize :: "cel_host \<Rightarrow> CelAuthorizer \<Rightarrow> activation \<Rightarrow> AuthzDecision" where
  "authorize h a acts =
     (case find (\<lambda>r. evalRule h acts r \<noteq> RuleNoMatch) (ca_deny a) of
        Some r \<Rightarrow>
          \<lparr>ad_allowed = False, ad_reason = Some ((if evalRule h acts r = RuleError then ''deny_error:'' else ''deny:'') @ cr_name r)\<rparr>
      | None \<Rightarrow>
          if ca_allow a \<noteq> [] then
            (case find (\<lambda>r. evalRule h acts r = RuleMatch) (ca_allow a) of
               Some r \<Rightarrow> \<lparr>ad_allowed = True, ad_reason = Some (''allow:'' @ cr_name r)\<rparr>
             | None \<Rightarrow> \<lparr>ad_allowed = False, ad_reason = Some ''no allow rule matched''\<rparr>)
          else \<lparr>ad_allowed = True, ad_reason = None\<rparr>)"

definition authorizer_reads :: "CelAuthorizer \<Rightarrow> string \<Rightarrow> bool" where
  "authorizer_reads a path = list_ex (\<lambda>r. program_reads (cr_program r) path) (ca_allow a @ ca_deny a)"

definition ruleCount :: "CelAuthorizer \<Rightarrow> nat" where
  "ruleCount a = length (ca_allow a) + length (ca_deny a)"

section \<open>The transformer\<close>

record HeaderMutation =
  hm_name :: string
  hm_value :: "string option"
  hm_remove :: "bool option"

record BodyMutation =
  bm_field :: string
  bm_value :: string

record CelTransformConfig =
  tc_requestHeaders :: "HeaderMutation list option"
  tc_responseHeaders :: "HeaderMutation list option"
  tc_requestBody :: "BodyMutation list option"

record CompiledHeader =
  chd_name :: string
  chd_program :: "Program option"
  chd_remove :: bool

record CompiledBody =
  cbd_field :: string
  cbd_program :: Program

record CelTransformer =
  ct_reqHeaders :: "CompiledHeader list"
  ct_respHeaders :: "CompiledHeader list"
  ct_bodyOps :: "CompiledBody list"
  ct_needsBody :: bool

fun all_right :: "('e + 'a) list \<Rightarrow> 'e + 'a list" where
  "all_right [] = Inr []"
| "all_right (Inl e # xs) = Inl e"
| "all_right (Inr x # xs) = map_sum id (Cons x) (all_right xs)"

definition compile_header :: "CompileOptions \<Rightarrow> HeaderMutation \<Rightarrow> CelParseError + CompiledHeader" where
  "compile_header opts m =
     (let made = (\<lambda>p. \<lparr>chd_name = to_lower (hm_name m), chd_program = p, chd_remove = (hm_remove m = Some True)\<rparr>) in
      case hm_value m of None \<Rightarrow> Inr (made None) | Some v \<Rightarrow> map_sum id (\<lambda>p. made (Some p)) (cel_compile v opts))"

definition compile_body :: "CompileOptions \<Rightarrow> BodyMutation \<Rightarrow> CelParseError + CompiledBody" where
  "compile_body opts m = map_sum id (\<lambda>p. \<lparr>cbd_field = bm_field m, cbd_program = p\<rparr>) (cel_compile (bm_value m) opts)"

definition or_none :: "'a list option \<Rightarrow> 'a list" where
  "or_none xs = (case xs of Some ys \<Rightarrow> ys | None \<Rightarrow> [])"

definition new_transformer :: "CelTransformConfig \<Rightarrow> CompileOptions \<Rightarrow> CelParseError + CelTransformer" where
  "new_transformer cfg opts =
     (case all_right (map (compile_header opts) (or_none (tc_requestHeaders cfg))) of
        Inl e \<Rightarrow> Inl e
      | Inr req \<Rightarrow>
     (case all_right (map (compile_header opts) (or_none (tc_responseHeaders cfg))) of
        Inl e \<Rightarrow> Inl e
      | Inr resp \<Rightarrow>
     (case all_right (map (compile_body opts) (or_none (tc_requestBody cfg))) of
        Inl e \<Rightarrow> Inl e
      | Inr body \<Rightarrow>
          Inr \<lparr>ct_reqHeaders = req, ct_respHeaders = resp, ct_bodyOps = body,
            ct_needsBody = list_ex (\<lambda>p. case p of Some q \<Rightarrow> program_reads q ''request.body'' | None \<Rightarrow> False)
              (map chd_program req @ map chd_program resp @ map (\<lambda>b. Some (cbd_program b)) body)\<rparr>)))"

definition transformer_active :: "CelTransformer \<Rightarrow> bool" where
  "transformer_active t \<longleftrightarrow> 0 < length (ct_reqHeaders t) + length (ct_respHeaders t) + length (ct_bodyOps t)"

text \<open>Text of a header value; \<open>json_text\<close> is \<^verbatim>\<open>JSON.stringify\<close> of an object.\<close>

definition header_text :: "cel_host \<Rightarrow> (cel_value \<Rightarrow> string) \<Rightarrow> cel_value \<Rightarrow> string" where
  "header_text h json_text v =
     (case v of
        VStr s \<Rightarrow> s
      | VNull \<Rightarrow> []
      | VUndef \<Rightarrow> []
      | VBool b \<Rightarrow> js_string h v
      | VNum n \<Rightarrow> js_string h v
      | _ \<Rightarrow> json_text v)"

record HeaderChanges =
  hc_set :: "(string, string) jsmap"
  hc_remove :: "string list"

definition header_step :: "cel_host \<Rightarrow> (cel_value \<Rightarrow> string) \<Rightarrow> activation \<Rightarrow> HeaderChanges \<Rightarrow> CompiledHeader \<Rightarrow> HeaderChanges" where
  "header_step h json_text act ch m =
     (if chd_remove m then ch\<lparr>hc_remove := hc_remove ch @ [chd_name m]\<rparr>
      else case chd_program m of
        None \<Rightarrow> ch
      | Some p \<Rightarrow>
          (case program_eval h p act of
             Inl e \<Rightarrow> ch
           | Inr v \<Rightarrow>
               if chd_name m = ''__proto__'' then ch
               else ch\<lparr>hc_set := jm_set (chd_name m) (header_text h json_text v) (hc_set ch)\<rparr>))"

definition headerChanges :: "cel_host \<Rightarrow> (cel_value \<Rightarrow> string) \<Rightarrow> CompiledHeader list \<Rightarrow> activation \<Rightarrow> HeaderChanges" where
  "headerChanges h json_text hs act = foldl (header_step h json_text act) \<lparr>hc_set = [], hc_remove = []\<rparr> hs"

definition requestBodyPatch :: "cel_host \<Rightarrow> CelTransformer \<Rightarrow> activation \<Rightarrow> (string, cel_value) jsmap" where
  "requestBodyPatch h t act =
     foldl (\<lambda>m b. case program_eval h (cbd_program b) act of Inl e \<Rightarrow> m | Inr v \<Rightarrow> set_member (cbd_field b) v m) [] (ct_bodyOps t)"

section \<open>What a program reads\<close>

text \<open>The root variables an expression uses as a whole, and the fields it takes from the others.\<close>

function whole_uses :: "Expr \<Rightarrow> string set \<Rightarrow> string set" where
  "whole_uses (Lit v) B = {}"
| "whole_uses (Ident x) B = {x} - B"
| "whole_uses (EList es) B = (\<Union>e\<in>set es. whole_uses e B)"
| "whole_uses (EMap kvs) B = (\<Union>kv\<in>set kvs. whole_uses (fst kv) B \<union> whole_uses (snd kv) B)"
| "whole_uses (Unary op e) B = whole_uses e B"
| "whole_uses (Binary op l r) B = whole_uses l B \<union> whole_uses r B"
| "whole_uses (Ternary c t e) B = whole_uses c B \<union> whole_uses t B \<union> whole_uses e B"
| "whole_uses (Member t f) B = (case t of Ident x \<Rightarrow> {} | _ \<Rightarrow> whole_uses t B)"
| "whole_uses (Index t i) B = whole_uses t B \<union> whole_uses i B"
| "whole_uses (Call f as) B = (\<Union>e\<in>set as. whole_uses e B)"
| "whole_uses (Method t f as) B = whole_uses t B \<union> (\<Union>e\<in>set as. whole_uses e B)"
| "whole_uses (Macro t m v body) B = whole_uses t B \<union> whole_uses body (insert v B)"
  by pat_completeness auto
termination by (relation "measure (\<lambda>(e, B). size e)") (auto dest: size_entry size_item)

function field_uses :: "Expr \<Rightarrow> string set \<Rightarrow> (string \<times> string) set" where
  "field_uses (Lit v) B = {}"
| "field_uses (Ident x) B = {}"
| "field_uses (EList es) B = (\<Union>e\<in>set es. field_uses e B)"
| "field_uses (EMap kvs) B = (\<Union>kv\<in>set kvs. field_uses (fst kv) B \<union> field_uses (snd kv) B)"
| "field_uses (Unary op e) B = field_uses e B"
| "field_uses (Binary op l r) B = field_uses l B \<union> field_uses r B"
| "field_uses (Ternary c t e) B = field_uses c B \<union> field_uses t B \<union> field_uses e B"
| "field_uses (Member t f) B = (case t of Ident x \<Rightarrow> if x \<in> B then {} else {(x, f)} | _ \<Rightarrow> field_uses t B)"
| "field_uses (Index t i) B = field_uses t B \<union> field_uses i B"
| "field_uses (Call f as) B = (\<Union>e\<in>set as. field_uses e B)"
| "field_uses (Method t f as) B = field_uses t B \<union> (\<Union>e\<in>set as. field_uses e B)"
| "field_uses (Macro t m v body) B = field_uses t B \<union> field_uses body (insert v B)"
  by pat_completeness auto
termination by (relation "measure (\<lambda>(e, B). size e)") (auto dest: size_entry size_item)

definition path_of :: "string \<times> string \<Rightarrow> string" where
  "path_of p = fst p @ CHR ''.'' # snd p"

text \<open>The inference collects exactly these.\<close>

definition collects :: "(string list \<Rightarrow> string list \<times> string list \<Rightarrow> string list \<times> string list) \<Rightarrow> (string set \<Rightarrow> string set) \<Rightarrow> (string set \<Rightarrow> (string \<times> string) set) \<Rightarrow> bool" where
  "collects g W P \<longleftrightarrow> (\<forall>b acc. set (fst (g b acc)) = set (fst acc) \<union> W (set b) \<union> fst ` P (set b) \<and> set (snd (g b acc)) = set (snd acc) \<union> path_of ` P (set b))"

lemma collects_comp:
  "collects g W P \<Longrightarrow> collects g' W' P' \<Longrightarrow> collects (\<lambda>b acc. g' b (g b acc)) (\<lambda>B. W B \<union> W' B) (\<lambda>B. P B \<union> P' B)"
  unfolding collects_def by (simp add: image_Un Un_ac del: split_paired_All)

lemma collects_fold:
  assumes "\<And>x. x \<in> set xs \<Longrightarrow> collects (g x) (W x) (P x)"
  shows "collects (\<lambda>b acc. foldl (\<lambda>acc x. g x b acc) acc xs) (\<lambda>B. \<Union>x\<in>set xs. W x B) (\<lambda>B. \<Union>x\<in>set xs. P x B)"
  using assms
proof (induction xs)
  case Nil
  then show ?case by (simp add: collects_def)
next
  case (Cons x xs)
  then show ?case using collects_comp [of "g x" "W x" "P x" "\<lambda>b acc. foldl (\<lambda>acc x. g x b acc) acc xs"] by simp
qed

lemma collects_eq: "collects g W P \<Longrightarrow> (\<And>b acc. g' b acc = g b acc) \<Longrightarrow> (\<And>B. W' B = W B) \<Longrightarrow> (\<And>B. P' B = P B) \<Longrightarrow> collects g' W' P'"
  by (simp add: collects_def)

lemma infer_collects: "collects (inferAttributes e) (whole_uses e) (field_uses e)"
proof (induction e)
  case (EList es)
  have "collects (\<lambda>b acc. foldl (\<lambda>acc e. inferAttributes e b acc) acc es) (\<lambda>B. \<Union>e\<in>set es. whole_uses e B) (\<lambda>B. \<Union>e\<in>set es. field_uses e B)"
    using EList by (intro collects_fold)
  then show ?case by (rule collects_eq) simp_all
next
  case (EMap kvs)
  have "collects (\<lambda>b acc. inferAttributes (snd kv) b (inferAttributes (fst kv) b acc)) (\<lambda>B. whole_uses (fst kv) B \<union> whole_uses (snd kv) B)
      (\<lambda>B. field_uses (fst kv) B \<union> field_uses (snd kv) B)" if "kv \<in> set kvs" for kv
    using that EMap by (intro collects_comp) (auto simp: fsts.simps snds.simps)
  then have "collects (\<lambda>b acc. foldl (\<lambda>acc kv. inferAttributes (snd kv) b (inferAttributes (fst kv) b acc)) acc kvs)
      (\<lambda>B. \<Union>kv\<in>set kvs. whole_uses (fst kv) B \<union> whole_uses (snd kv) B) (\<lambda>B. \<Union>kv\<in>set kvs. field_uses (fst kv) B \<union> field_uses (snd kv) B)"
    by (rule collects_fold)
  then show ?case by (rule collects_eq) simp_all
next
  case (Call f as)
  have "collects (\<lambda>b acc. foldl (\<lambda>acc e. inferAttributes e b acc) acc as) (\<lambda>B. \<Union>e\<in>set as. whole_uses e B) (\<lambda>B. \<Union>e\<in>set as. field_uses e B)"
    using Call by (intro collects_fold)
  then show ?case by (rule collects_eq) simp_all
next
  case (Method t f as)
  have "collects (\<lambda>b acc. foldl (\<lambda>acc e. inferAttributes e b acc) acc as) (\<lambda>B. \<Union>e\<in>set as. whole_uses e B) (\<lambda>B. \<Union>e\<in>set as. field_uses e B)"
    using Method(2) by (intro collects_fold)
  from collects_comp [OF Method(1) this] show ?case by (rule collects_eq) auto
next
  case (Binary op l r)
  from collects_comp [OF Binary(1,2)] show ?case by (rule collects_eq) auto
next
  case (Index t i)
  from collects_comp [OF Index(1,2)] show ?case by (rule collects_eq) auto
next
  case (Ternary c t e)
  from collects_comp [OF collects_comp [OF Ternary(1,2)] Ternary(3)] show ?case by (rule collects_eq) auto
next
  case (Member t f)
  show ?case
  proof (cases "\<exists>x. t = Ident x")
    case True
    then show ?thesis by (auto simp: collects_def path_of_def split: if_splits)
  next
    case False
    then show ?thesis using Member by (cases t) (auto intro: collects_eq)
  qed
next
  case (Macro t m v body)
  then show ?case unfolding collects_def by (simp add: image_Un Un_ac del: split_paired_All)
qed (auto simp: collects_def)

text \<open>Two computations that do the same when nothing is traced.\<close>

definition same_run :: "'a cel \<Rightarrow> 'a cel \<Rightarrow> bool" where
  "same_run m m' \<longleftrightarrow> (\<forall>s. cs_trace s = None \<longrightarrow> m s = m' s \<and> cs_trace (snd (m' s)) = None)"

named_theorems same_run_intros

lemma same_run_cret [same_run_intros]: "same_run (cret r) (cret r)"
  by (simp add: same_run_def cret_def)

lemma same_run_cbind [same_run_intros]:
  assumes "same_run m m'" and "\<And>a. same_run (f a) (f' a)"
  shows "same_run (cbind m f) (cbind m' f')"
  unfolding same_run_def
proof (intro allI impI)
  fix s :: cel_state assume s: "cs_trace s = None"
  obtain r s' where ms: "m s = (r, s')" by (cases "m s")
  have "m' s = (r, s')" "cs_trace s' = None" using assms(1) s ms unfolding same_run_def by (metis, metis snd_conv)
  with ms assms(2) show "cbind m f s = cbind m' f' s \<and> cs_trace (snd (cbind m' f' s)) = None"
    by (cases r) (auto simp: cbind_def same_run_def)
qed

lemma same_run_if [same_run_intros]: "same_run a a' \<Longrightarrow> same_run b b' \<Longrightarrow> same_run (if q then a else b) (if q then a' else b')"
  by simp

lemma same_run_cbool [same_run_intros]: "same_run m m' \<Longrightarrow> same_run (cbool m) (cbool m')"
  unfolding cbool_def by (intro same_run_intros)

lemma same_run_cmap [same_run_intros]:
  "(\<And>x. x \<in> set xs \<Longrightarrow> same_run (f x) (f' x)) \<Longrightarrow> same_run (cmap f xs) (cmap f' xs)"
  by (induction xs) (auto intro!: same_run_intros)

lemma same_run_loops [same_run_intros]:
  assumes "\<And>x. same_run (f x) (f' x)"
  shows "same_run (cfilter f xs) (cfilter f' xs)" "same_run (cevery f xs) (cevery f' xs)" "same_run (csome f xs) (csome f' xs)"
    "same_run (ccount f xs) (ccount f' xs)"
  by (induction xs; simp; intro same_run_intros assms; assumption?)+

lemma same_run_macro [same_run_intros]: "(\<And>x. same_run (f x) (f' x)) \<Longrightarrow> same_run (macro_loop m f xs) (macro_loop m f' xs)"
  unfolding macro_loop_def by (cases m) (auto intro!: same_run_intros)

lemma same_run_node:
  assumes "same_run m m'"
  shows "same_run (node n d k m) (node n d k m')"
  unfolding same_run_def
proof (intro allI impI)
  fix s :: cel_state assume s: "cs_trace s = None"
  let ?t = "s\<lparr>cs_steps := Suc (cs_steps s)\<rparr>"
  have t: "m ?t = m' ?t" "cs_trace (snd (m' ?t)) = None" using assms s unfolding same_run_def by simp_all
  show "node n d k m s = node n d k m' s \<and> cs_trace (snd (node n d k m' s)) = None"
    using t s by (cases "m' ?t") (auto simp: node_def push_trace_def Let_def split: sum.split)
qed

text \<open>Two activations that an expression cannot tell apart: alike where it uses a root as a whole, and in each field it takes.\<close>

definition alike :: "cel_env \<Rightarrow> cel_env \<Rightarrow> string set \<Rightarrow> (string \<times> string) set \<Rightarrow> bool" where
  "alike c c' W P \<longleftrightarrow> ce_host c' = ce_host c \<and> ce_maxSteps c' = ce_maxSteps c \<and>
     (\<forall>x\<in>W. jm_get (ce_root c') x = jm_get (ce_root c) x) \<and>
     (\<forall>(x, f)\<in>P. jm_get (ce_root c') x = jm_get (ce_root c) x \<or>
        (\<exists>m m'. jm_get (ce_root c) x = Some (VMap m) \<and> jm_get (ce_root c') x = Some (VMap m') \<and> jm_get m' f = jm_get m f))"

lemma alike_mono: "alike c c' W P \<Longrightarrow> W' \<subseteq> W \<Longrightarrow> P' \<subseteq> P \<Longrightarrow> alike c c' W' P'"
  unfolding alike_def by blast

lemma alike_host: "alike c c' W P \<Longrightarrow> ce_host c' = ce_host c"
  by (simp add: alike_def)

text \<open>Taking a field of a root: whatever is done with the value and the field gives the same.\<close>

lemma field_same_run:
  assumes "alike c c' W P" and "x \<notin> fst ` set vars \<Longrightarrow> (x, f) \<in> P" and "\<And>m m'. jm_get m' f = jm_get m f \<Longrightarrow> g (VMap m') = g (VMap m)"
  shows "same_run (cbind (ev c d (Ident x) vars) (\<lambda>v. cret (g v))) (cbind (ev c' d (Ident x) vars) (\<lambda>v. cret (g v)))"
proof (cases "lookup_var vars (ce_root c) x = lookup_var vars (ce_root c') x")
  case True
  then have "same_run (ev c d (Ident x) vars) (ev c' d (Ident x) vars)"
    using assms(1) by (simp add: ev.simps alike_def same_run_node same_run_cret)
  then show ?thesis by (intro same_run_intros)
next
  case False
  then have "jm_get vars x = None" by (auto simp: lookup_var_def split: option.splits)
  moreover from this have "(x, f) \<in> P" using assms(2) by (auto simp: map_of_eq_None_iff)
  ultimately obtain m m' where m: "jm_get (ce_root c) x = Some (VMap m)" "jm_get (ce_root c') x = Some (VMap m')" "jm_get m' f = jm_get m f"
    using assms(1) False unfolding alike_def by (fastforce simp: lookup_var_def)
  have "cbind (ev c d (Ident x) vars) (\<lambda>v. cret (g v)) s = cbind (ev c' d (Ident x) vars) (\<lambda>v. cret (g v)) s \<and>
      cs_trace (snd (cbind (ev c' d (Ident x) vars) (\<lambda>v. cret (g v)) s)) = None" if "cs_trace s = None" for s
    using that m(1,2) assms(1) assms(3) [OF m(3)] \<open>jm_get vars x = None\<close>
    by (auto simp: ev.simps node_def lookup_var_def cbind_def cret_def push_trace_def alike_def Let_def)
  then show ?thesis by (simp add: same_run_def)
qed


lemma ev_same_run:
  "alike c c' (whole_uses e (fst ` set vars)) (field_uses e (fst ` set vars)) \<Longrightarrow> same_run (ev c d e vars) (ev c' d e vars)"
  "alike c c' (whole_uses e (fst ` set vars)) (field_uses e (fst ` set vars)) \<Longrightarrow> same_run (ev_inner c d e vars) (ev_inner c' d e vars)"
proof (induction c d e vars and c d e vars rule: ev_ev_inner.induct)
  case (1 c d e vars)
  then have "ce_maxSteps c' = ce_maxSteps c" by (simp add: alike_def)
  with 1 show ?case by (simp add: ev.simps same_run_node)
next
  case (3 c d x vars)
  have "lookup_var vars (ce_root c') x = lookup_var vars (ce_root c) x"
  proof (cases "jm_get vars x")
    case None
    then have "x \<in> whole_uses (Ident x) (fst ` set vars)" by (simp add: map_of_eq_None_iff)
    then have "jm_get (ce_root c') x = jm_get (ce_root c) x" using 3 unfolding alike_def by blast
    with None show ?thesis by (simp add: lookup_var_def)
  qed (simp add: lookup_var_def)
  then show ?case by (simp add: same_run_cret)
next
  case (9 c d t f vars)
  show ?case
  proof (cases "\<exists>x. t = Ident x")
    case True
    then obtain x where t: "t = Ident x" by blast
    have "same_run (cbind (ev c d (Ident x) vars) (\<lambda>v. cret (member_of v f))) (cbind (ev c' d (Ident x) vars) (\<lambda>v. cret (member_of v f)))"
      by (rule field_same_run [OF 9(2)]) (auto simp: t)
    then show ?thesis by (simp add: t)
  next
    case False
    then have "alike c c' (whole_uses t (fst ` set vars)) (field_uses t (fst ` set vars))" using 9(2) by (cases t) auto
    with 9(1) show ?thesis by (auto intro: same_run_intros)
  qed
next
  case (6 c d op e vars)
  then show ?case by (cases op) (auto intro!: same_run_intros split: cel_value.split)
next
  case (11 c d func as vars)
  note host = alike_host [OF 11(5)]
  show ?case
  proof (cases "func = ''has''")
    case False
    have "same_run (ev c d e vars) (ev c' d e vars)" if "e \<in> set as" for e
    proof (rule 11(4) [OF False that])
      show "alike c c' (whole_uses e (fst ` set vars)) (field_uses e (fst ` set vars))" by (rule alike_mono [OF 11(5)]) (use that in auto)
    qed
    with False host show ?thesis by (auto intro!: same_run_intros)
  next
    case True
    show ?thesis
    proof (cases "\<exists>t f rest. as = Member t f # rest")
      case True
      then obtain t f rest where as: "as = Member t f # rest" by blast
      have "same_run (cbind (ev c d t vars) (\<lambda>v. cret (has_key (ce_host c) v f))) (cbind (ev c' d t vars) (\<lambda>v. cret (has_key (ce_host c) v f)))"
      proof (cases "\<exists>x. t = Ident x")
        case True
        then obtain x where t: "t = Ident x" by blast
        show ?thesis
          unfolding t
        proof (rule field_same_run [OF 11(5)])
          show "(x, f) \<in> field_uses (Call func as) (fst ` set vars)" if "x \<notin> fst ` set vars" using that by (simp add: as t)
          show "has_key (ce_host c) (VMap m') f = has_key (ce_host c) (VMap m) f" if "jm_get m' f = jm_get m f" for m m' using that by simp
        qed
      next
        case False
        then have "whole_uses t B = whole_uses (Member t f) B" "field_uses t B = field_uses (Member t f) B" for B by (cases t; simp)+
        then have "alike c c' (whole_uses t (fst ` set vars)) (field_uses t (fst ` set vars))"
          by (intro alike_mono [OF 11(5)]) (auto simp: as)
        then show ?thesis using 11(1) [OF \<open>func = ''has''\<close> as refl] by (intro same_run_intros)
      qed
      then show ?thesis using host by (simp add: as \<open>func = ''has''\<close>)
    next
      case False
      show ?thesis
      proof (cases "\<exists>t i rest. as = Index t i # rest")
        case True
        then obtain t i rest where as: "as = Index t i # rest" by blast
        have "same_run (ev c d t vars) (ev c' d t vars)" "same_run (ev c d i vars) (ev c' d i vars)"
          using 11(2,3) [OF \<open>func = ''has''\<close> as refl] alike_mono [OF 11(5)] by (auto simp: as)
        then show ?thesis using host by (auto simp: as \<open>func = ''has''\<close> intro!: same_run_intros)
      next
        case False
        with \<open>\<not> (\<exists>t f rest. as = Member t f # rest)\<close> show ?thesis
          by (auto simp: \<open>func = ''has''\<close> intro!: same_run_intros split: list.split Expr.split)
      qed
    qed
  qed
next
  case (4 c d es vars)
  have "same_run (ev c d e vars) (ev c' d e vars)" if "e \<in> set es" for e
  proof (rule 4(1) [OF that])
    show "alike c c' (whole_uses e (fst ` set vars)) (field_uses e (fst ` set vars))" by (rule alike_mono [OF 4(2)]) (use that in auto)
  qed
  then show ?case by (auto intro!: same_run_intros)
next
  case (5 c d kvs vars)
  have "same_run (ev c d (fst kv) vars) (ev c' d (fst kv) vars)" "same_run (ev c d (snd kv) vars) (ev c' d (snd kv) vars)" if "kv \<in> set kvs" for kv
  proof -
    have "alike c c' (whole_uses (fst kv) (fst ` set vars)) (field_uses (fst kv) (fst ` set vars))"
      "alike c c' (whole_uses (snd kv) (fst ` set vars)) (field_uses (snd kv) (fst ` set vars))"
      by (rule alike_mono [OF 5(3)]; use that in auto)+
    then show "same_run (ev c d (fst kv) vars) (ev c' d (fst kv) vars)" "same_run (ev c d (snd kv) vars) (ev c' d (snd kv) vars)"
      using 5(1,2) [OF that] by simp_all
  qed
  with alike_host [OF 5(3)] show ?case by (auto intro!: same_run_intros)
next
  case (12 c d t f as vars)
  have "same_run (ev c d e vars) (ev c' d e vars)" if "e \<in> set as" for e
  proof (rule 12(2) [OF that])
    show "alike c c' (whole_uses e (fst ` set vars)) (field_uses e (fst ` set vars))" by (rule alike_mono [OF 12(3)]) (use that in auto)
  qed
  moreover have "same_run (ev c d t vars) (ev c' d t vars)" using 12(1) alike_mono [OF 12(3)] by simp
  ultimately show ?case using alike_host [OF 12(3)] by (auto intro!: same_run_intros)
next
  case (13 c d t m x body vars)
  have "same_run (ev c d t vars) (ev c' d t vars)" using 13(1) alike_mono [OF 13(3)] by simp
  moreover have "same_run (ev c d body ((x, it) # vars)) (ev c' d body ((x, it) # vars))" for it
    using 13(2) [of it] alike_mono [OF 13(3)] by simp
  ultimately show ?case by (auto intro!: same_run_intros)
next
  case (7 c d q t e vars)
  then show ?case using alike_mono [OF 7(4)] by (auto intro!: same_run_intros)
next
  case (8 c d op l r vars)
  have "same_run (ev c d l vars) (ev c' d l vars)" "same_run (ev c d r vars) (ev c' d r vars)"
    using 8(1-6) alike_mono [OF 8(7)] by (cases "op = OpAnd"; cases "op = OpOr"; auto)+
  then show ?case using alike_host [OF 8(7)] by (auto intro!: same_run_intros)
next
  case (10 c d t i vars)
  have "same_run (ev c d t vars) (ev c' d t vars)" "same_run (ev c d i vars) (ev c' d i vars)"
    using 10(1,2) alike_mono [OF 10(3)] by auto
  then show ?case using alike_host [OF 10(3)] by (auto intro!: same_run_intros)
qed (auto intro!: same_run_intros)


text \<open>
  Evaluation is bounded. Whatever the expression, the activation and the host functions, an evaluation visits at most the allowed number of nodes; one that would visit
  another ends with an error at that node.\<close>

theorem evaluation_bounded:
  "(let (result, s') = cel_run h maxSteps e acts s; limit = (case maxSteps of Some n \<Rightarrow> n | None \<Rightarrow> DEFAULT_MAX_STEPS) in
     cs_steps s' \<le> limit \<or> cs_steps s' = Suc limit \<and> (\<exists>err. result = Inl err))"
proof -
  define limit where "limit = (case maxSteps of Some n \<Rightarrow> n | None \<Rightarrow> DEFAULT_MAX_STEPS)"
  define c where "c = \<lparr>ce_host = h, ce_maxSteps = limit, ce_root = acts\<rparr>"
  obtain r s' where run: "ev c 0 e [] (s\<lparr>cs_steps := 0\<rparr>) = (r, s')" by (cases "ev c 0 e [] (s\<lparr>cs_steps := 0\<rparr>)")
  have "metered limit (ev c 0 e [])" by (rule ev_metered(1)) (simp add: c_def)
  then have "cs_steps s' \<le> Suc limit \<and> (\<forall>v. r = Inr v \<longrightarrow> cs_steps s' \<le> limit)"
    using run unfolding metered_def by (elim allE [of _ "s\<lparr>cs_steps := 0\<rparr>"]) simp
  then have "cs_steps s' \<le> limit \<or> cs_steps s' = Suc limit \<and> (\<exists>err. r = Inl err)"
    by (cases r) (auto simp: le_Suc_eq)
  then show ?thesis using run by (simp add: cel_run_def limit_def c_def)
qed

lemma ab_parsed: "cel_parse ''a.b'' = Inr (Member (Ident ''a'') ''b'')"
  by code_simp

lemma ab_compiled:
  "cel_compile ''a.b'' \<lparr>co_declaredVars = None, co_strict = None\<rparr> =
     Inr \<lparr>pr_source = ''a.b'', pr_ast = Member (Ident ''a'') ''b'', pr_roots = [''a''], pr_attributes = [''a.b'']\<rparr>"
  by (simp add: cel_compile_def ab_parsed set_add_def)

text \<open>
  C37. A program depends on nothing but what it is said to read. If the attribute of a root object is not among those inferred for a compiled program, and the program uses that
  root object only by taking fields of it, then the program evaluates alike whatever the attribute is, present or not.\<close>

theorem unread_attribute_irrelevant:
  assumes "cel_compile source opts = Inr p" and "\<not> program_reads p (x @ CHR ''.'' # f)" and "x \<notin> whole_uses (pr_ast p) {}"
    and "jm_get acts x = Some (VMap m)" and "jm_get acts' x = Some (VMap m')"
    and "\<forall>g. g \<noteq> f \<longrightarrow> jm_get m' g = jm_get m g" and "\<forall>y. y \<noteq> x \<longrightarrow> jm_get acts' y = jm_get acts y"
  shows "program_eval h p acts' = program_eval h p acts"
proof -
  let ?env = "\<lambda>a. \<lparr>ce_host = h, ce_maxSteps = DEFAULT_MAX_STEPS, ce_root = a\<rparr>"
  have "pr_attributes p = snd (inferAttributes (pr_ast p) [] ([], []))"
    using assms(1) by (auto simp: cel_compile_def Let_def split: sum.splits option.splits prod.splits)
  then have "path_of ` field_uses (pr_ast p) {} \<subseteq> set (pr_attributes p)"
    using infer_collects [of "pr_ast p"] unfolding collects_def by (elim allE [of _ "[]"] allE [of _ "([], [])"]) simp
  then have unread: "(x, f) \<notin> field_uses (pr_ast p) {}"
    using assms(2) by (force simp: program_reads_def path_of_def)
  have "alike (?env acts) (?env acts') (whole_uses (pr_ast p) {}) (field_uses (pr_ast p) {})"
    unfolding alike_def
  proof (intro conjI ballI)
    show "jm_get (ce_root (?env acts')) y = jm_get (ce_root (?env acts)) y" if "y \<in> whole_uses (pr_ast p) {}" for y
      using that assms(3,7) by (cases "y = x") auto
    fix q assume "q \<in> field_uses (pr_ast p) {}"
    then obtain y g where q: "q = (y, g)" "(y, g) \<in> field_uses (pr_ast p) {}" by (cases q) auto
    show "case q of (y, g) \<Rightarrow> jm_get (ce_root (?env acts')) y = jm_get (ce_root (?env acts)) y \<or>
        (\<exists>m m'. jm_get (ce_root (?env acts)) y = Some (VMap m) \<and> jm_get (ce_root (?env acts')) y = Some (VMap m') \<and> jm_get m' g = jm_get m g)"
    proof (cases "y = x")
      case True
      then have "g \<noteq> f" using q unread by auto
      then show ?thesis using assms(4-6) True q by auto
    qed (use assms(7) q in auto)
  qed simp_all
  then have "same_run (ev (?env acts) 0 (pr_ast p) []) (ev (?env acts') 0 (pr_ast p) [])" by (intro ev_same_run(1)) simp
  then show ?thesis by (simp add: program_eval_def cel_run_def same_run_def fresh_state_def)
qed

theorem unread_attribute_irrelevant_witness:
  fixes h acts acts'
  defines "h \<equiv> \<lparr>ch_num_str = (\<lambda>n. []), ch_to_number = (\<lambda>s. NaN), ch_regex = (\<lambda>s. None), ch_decode = (\<lambda>bs. []), ch_base64 = (\<lambda>bs. []), ch_unbase64 = (\<lambda>s. []), ch_upper = (\<lambda>s. s)\<rparr>"
    and "acts \<equiv> [(''a'', VMap [(''b'', VBool True)])]" and "acts' \<equiv> [(''a'', VMap [(''b'', VBool True), (''c'', VNull)])]"
  shows "\<exists>p. cel_compile ''a.b'' \<lparr>co_declaredVars = None, co_strict = None\<rparr> = Inr p \<and> program_eval h p acts' = program_eval h p acts"
proof -
  obtain p where p: "cel_compile ''a.b'' \<lparr>co_declaredVars = None, co_strict = None\<rparr> = Inr p" "pr_ast p = Member (Ident ''a'') ''b''" "pr_roots p = [''a'']" "pr_attributes p = [''a.b'']"
    using ab_compiled by auto
  have "program_eval h p acts' = program_eval h p acts"
    by (rule unread_attribute_irrelevant [OF p(1), where x = "''a''" and f = "''c''"]) (auto simp: p program_reads_def acts_def acts'_def)
  then show ?thesis using p(1) by blast
qed

section \<open>The rules decide\<close>

text \<open>What an expression of a rule says of an activation: a clean boolean, or nothing.\<close>

definition rule_says :: "cel_host \<Rightarrow> activation \<Rightarrow> AuthzRuleConfig \<Rightarrow> bool option" where
  "rule_says h acts r =
     (case cel_parse (ar_expr r) of
        Inr e \<Rightarrow> (case fst (cel_run h None e acts fresh_state) of Inr (VBool b) \<Rightarrow> Some b | _ \<Rightarrow> None)
      | Inl err \<Rightarrow> None)"

lemma compiled_says:
  assumes "cel_compile (ar_expr r) opts = Inr p"
  shows "evalBool h p acts = rule_says h acts r"
proof -
  have "cel_parse (ar_expr r) = Inr (pr_ast p)"
    using assms by (auto simp: cel_compile_def Let_def split: sum.splits option.splits prod.splits)
  then show ?thesis by (simp add: evalBool_def program_eval_def rule_says_def)
qed

lemma compile_rules_says:
  assumes "compile_rules opts i rules a = Inr a'"
  shows "map (\<lambda>c. evalBool h (cr_program c) acts) (ca_deny a') =
      map (\<lambda>c. evalBool h (cr_program c) acts) (ca_deny a) @ map (rule_says h acts) (filter (\<lambda>r. ar_effect r = RuleDeny) rules)
    \<and> map (\<lambda>c. evalBool h (cr_program c) acts) (ca_allow a') =
      map (\<lambda>c. evalBool h (cr_program c) acts) (ca_allow a) @ map (rule_says h acts) (filter (\<lambda>r. ar_effect r \<noteq> RuleDeny) rules)"
  using assms
proof (induction opts i rules a rule: compile_rules.induct)
  case (2 opts i r rs a)
  then obtain p where p: "cel_compile (ar_expr r) opts = Inr p" by (auto split: sum.splits)
  with 2(1) [OF p refl] 2(2) compiled_says [OF p, of h acts] show ?case by (auto split: if_splits)
qed simp

lemma evalRule_says: "evalRule h acts c = (case evalBool h (cr_program c) acts of Some True \<Rightarrow> RuleMatch | Some False \<Rightarrow> RuleNoMatch | None \<Rightarrow> RuleError)"
  by (simp add: evalRule_def)

lemma find_SomeD: "find P xs = Some x \<Longrightarrow> x \<in> set xs \<and> P x"
  by (induction xs) (auto split: if_splits)

lemma authorize_iff:
  "ad_allowed (authorize h a acts) \<longleftrightarrow>
     set (map (\<lambda>c. evalBool h (cr_program c) acts) (ca_deny a)) \<subseteq> {Some False} \<and>
     (ca_allow a = [] \<or> Some True \<in> set (map (\<lambda>c. evalBool h (cr_program c) acts) (ca_allow a)))"
proof -
  have "(evalRule h acts c = RuleNoMatch) = (evalBool h (cr_program c) acts = Some False)"
    "(evalRule h acts c = RuleMatch) = (evalBool h (cr_program c) acts = Some True)" for c
    by (auto simp: evalRule_def split: option.splits bool.splits)
  note says = this
  show ?thesis
  proof (cases "find (\<lambda>r. evalRule h acts r \<noteq> RuleNoMatch) (ca_deny a)")
    case (Some r)
    then have "r \<in> set (ca_deny a)" "evalBool h (cr_program r) acts \<noteq> Some False" using says by (auto dest: find_SomeD)
    with Some show ?thesis by (auto simp: authorize_def)
  next
    case None
    then have deny: "set (map (\<lambda>c. evalBool h (cr_program c) acts) (ca_deny a)) \<subseteq> {Some False}" using says by (auto simp: find_None_iff)
    show ?thesis
    proof (cases "find (\<lambda>r. evalRule h acts r = RuleMatch) (ca_allow a)")
      case (Some r)
      then have "r \<in> set (ca_allow a)" "evalBool h (cr_program r) acts = Some True" using says by (auto dest: find_SomeD)
      then have "Some True \<in> set (map (\<lambda>c. evalBool h (cr_program c) acts) (ca_allow a))" by force
      with None Some deny show ?thesis by (auto simp: authorize_def)
    next
      case (None)
      then have "Some True \<notin> set (map (\<lambda>c. evalBool h (cr_program c) acts) (ca_allow a))" using says by (force simp: find_None_iff)
      with None deny \<open>find (\<lambda>r. evalRule h acts r \<noteq> RuleNoMatch) (ca_deny a) = None\<close> show ?thesis by (auto simp: authorize_def)
    qed
  qed
qed

lemma authorized_says:
  assumes "new_authorizer rules opts = Inr a"
  shows "ad_allowed (authorize h a acts) \<longleftrightarrow>
    list_all (\<lambda>r. ar_effect r = RuleAllow \<or> rule_says h acts r = Some False) rules \<and>
    (list_all (\<lambda>r. ar_effect r = RuleDeny) rules \<or> list_ex (\<lambda>r. ar_effect r = RuleAllow \<and> rule_says h acts r = Some True) rules)"
proof -
  have effects: "(e \<noteq> RuleDeny) = (e = RuleAllow)" for e by (cases e) auto
  have says: "map (\<lambda>c. evalBool h (cr_program c) acts) (ca_deny a) = map (rule_says h acts) (filter (\<lambda>r. ar_effect r = RuleDeny) rules)"
    "map (\<lambda>c. evalBool h (cr_program c) acts) (ca_allow a) = map (rule_says h acts) (filter (\<lambda>r. ar_effect r = RuleAllow) rules)"
    using compile_rules_says [OF assms [unfolded new_authorizer_def], of h acts] by (simp_all add: effects)
  have "ca_allow a = [] \<longleftrightarrow> filter (\<lambda>r. ar_effect r = RuleAllow) rules = []" using says(2) by (metis map_is_Nil_conv)
  moreover have "filter (\<lambda>r. ar_effect r = RuleAllow) rules = [] \<longleftrightarrow> list_all (\<lambda>r. ar_effect r = RuleDeny) rules"
    using effects by (induction rules) auto
  moreover have "set (map (rule_says h acts) (filter (\<lambda>r. ar_effect r = RuleDeny) rules)) \<subseteq> {Some False} \<longleftrightarrow>
      list_all (\<lambda>r. ar_effect r = RuleAllow \<or> rule_says h acts r = Some False) rules"
    using effects by (induction rules) auto
  moreover have "Some True \<in> set (map (rule_says h acts) (filter (\<lambda>r. ar_effect r = RuleAllow) rules)) \<longleftrightarrow>
      list_ex (\<lambda>r. ar_effect r = RuleAllow \<and> rule_says h acts r = Some True) rules"
    by (induction rules) auto
  ultimately show ?thesis unfolding authorize_iff says by simp
qed

text \<open>
  C35. The authorizer decides as its rules say, and every error counts against admission. A rule set that compiles admits a request exactly if every deny rule evaluates to false
  without an error and, where there are allow rules, one of them evaluates to true.\<close>

theorem authorizer_fail_closed:
  assumes "new_authorizer rules opts = Inr a"
  shows "ad_allowed (authorize h a acts) \<longleftrightarrow>
    list_all (\<lambda>r. ar_effect r = RuleAllow \<or> rule_says h acts r = Some False) rules \<and>
    (list_all (\<lambda>r. ar_effect r = RuleDeny) rules \<or> list_ex (\<lambda>r. ar_effect r = RuleAllow \<and> rule_says h acts r = Some True) rules)"
  by (rule authorized_says [OF assms])

lemma zero_shown: "show_nat 0 = ''0''"
  by code_simp

lemma rules_compiled:
  "new_authorizer [\<lparr>ar_expr = ''a.b'', ar_effect = RuleDeny, ar_name = None\<rparr>] \<lparr>co_declaredVars = None, co_strict = None\<rparr> =
     Inr \<lparr>ca_allow = [], ca_deny = [\<lparr>cr_program = \<lparr>pr_source = ''a.b'', pr_ast = Member (Ident ''a'') ''b'', pr_roots = [''a''], pr_attributes = [''a.b'']\<rparr>,
       cr_name = ''deny[0]''\<rparr>]\<rparr>"
  by (simp add: new_authorizer_def ab_compiled rule_name_def zero_shown)

text \<open>The one deny rule reads a field the request does not have: its evaluation fails, and the request is refused.\<close>

theorem authorizer_fail_closed_witness:
  fixes h acts
  defines "h \<equiv> \<lparr>ch_num_str = (\<lambda>n. []), ch_to_number = (\<lambda>s. NaN), ch_regex = (\<lambda>s. None), ch_decode = (\<lambda>bs. []), ch_base64 = (\<lambda>bs. []), ch_unbase64 = (\<lambda>s. []), ch_upper = (\<lambda>s. s)\<rparr>"
    and "acts \<equiv> [(''a'', VMap [(''c'', VBool False)])]"
  shows "\<exists>a. new_authorizer [\<lparr>ar_expr = ''a.b'', ar_effect = RuleDeny, ar_name = None\<rparr>] \<lparr>co_declaredVars = None, co_strict = None\<rparr> = Inr a \<and>
    \<not> ad_allowed (authorize h a acts)"
proof -
  have "rule_says h acts \<lparr>ar_expr = ''a.b'', ar_effect = RuleDeny, ar_name = None\<rparr> = None"
    by (simp add: rule_says_def ab_parsed cel_run_def ev.simps [of _ _ "Member _ _"] ev.simps [of _ _ "Ident _"] node_def cbind_def cret_def fresh_state_def lookup_var_def acts_def
        DEFAULT_MAX_STEPS_def MAX_EVAL_DEPTH_def push_trace_def)
  then show ?thesis using authorizer_fail_closed [OF rules_compiled, of h acts] rules_compiled by auto
qed

section \<open>The external authorizer\<close>

definition MAX_STRINGIFY_DEPTH :: nat where
  "MAX_STRINGIFY_DEPTH = 200"

text \<open>A value as text with sorted keys; \<open>None\<close> when it nests too deep.\<close>

fun scalar_text :: "cel_host \<Rightarrow> cel_value \<Rightarrow> string" where
  "scalar_text h (VBool b) = (if b then ''true'' else ''false'')"
| "scalar_text h (VNum n) = (if num_finite n then ch_num_str h n else ''null'')"
| "scalar_text h (VStr s) = json_quote s"
| "scalar_text h v = ''null''"

function stableStringify :: "cel_host \<Rightarrow> nat \<Rightarrow> cel_value \<Rightarrow> string option" where
  "stableStringify h d v =
     (if MAX_STRINGIFY_DEPTH < d then None
      else case v of
        VList xs \<Rightarrow> map_option (\<lambda>ts. ''['' @ join_with '','' ts @ '']'') (those (map (stableStringify h (Suc d)) xs))
      | VMap m \<Rightarrow>
          map_option (\<lambda>ts. ''{'' @ join_with '','' ts @ ''}'')
            (those (map (\<lambda>p. map_option (\<lambda>t. json_quote (fst p) @ '':'' @ t) (stableStringify h (Suc d) (snd p))) (sort_key fst m)))
      | VBytes bs \<Rightarrow>
          if MAX_STRINGIFY_DEPTH < Suc d \<and> bs \<noteq> [] then None
          else Some (''{'' @ join_with '','' (map (\<lambda>p. json_quote (fst p) @ '':'' @ show_nat (snd p))
            (sort_key fst (zip (map show_nat [0..<length bs]) bs))) @ ''}'')
      | VCidr b n \<Rightarrow> Some ''{}''
      | _ \<Rightarrow> Some (scalar_text h v))"
  by pat_completeness auto
termination by (relation "measure (\<lambda>(h, d, v). Suc MAX_STRINGIFY_DEPTH - d)") auto

declare stableStringify.simps [simp del]

record ExternalAuthzConfig =
  ec_keyProgram :: "Program option"
  ec_ttlMs :: int
  ec_failOpen :: bool

definition new_external :: "string option \<Rightarrow> int option \<Rightarrow> bool option \<Rightarrow> CelParseError + ExternalAuthzConfig" where
  "new_external cacheKeyExpr ttlMs failOpen =
     (let made = (\<lambda>p. \<lparr>ec_keyProgram = p, ec_ttlMs = (case ttlMs of Some n \<Rightarrow> n | None \<Rightarrow> 30000),
            ec_failOpen = (case failOpen of Some b \<Rightarrow> b | None \<Rightarrow> False)\<rparr>) in
      case cacheKeyExpr of
        None \<Rightarrow> Inr (made None)
      | Some src \<Rightarrow> if src = [] then Inr (made None)
          else map_sum id (\<lambda>p. made (Some p)) (cel_compile src \<lparr>co_declaredVars = None, co_strict = Some False\<rparr>))"

definition onFailure :: "ExternalAuthzConfig \<Rightarrow> AuthzDecision" where
  "onFailure cfg =
     (if ec_failOpen cfg then \<lparr>ad_allowed = True, ad_reason = Some ''external:fail-open''\<rparr>
      else \<lparr>ad_allowed = False, ad_reason = Some ''external:fail-closed''\<rparr>)"

definition cacheKey :: "cel_host \<Rightarrow> (string \<Rightarrow> string) \<Rightarrow> ExternalAuthzConfig \<Rightarrow> activation \<Rightarrow> string option" where
  "cacheKey h sha cfg acts =
     (let whole_key = map_option sha (stableStringify h 0 (VMap acts)) in
      case ec_keyProgram cfg of
        None \<Rightarrow> whole_key
      | Some p \<Rightarrow> (case program_eval h p acts of Inr v \<Rightarrow> Some (js_string h v) | Inl e \<Rightarrow> whole_key))"

record ExternalAuthorizer =
  ea_cache :: "(string, AuthzDecision \<times> int) jsmap"
  ea_inflight :: "(string, activation) jsmap"

datatype authz_reply = Decided AuthzDecision | Awaiting string

definition ext_authorize :: "cel_host \<Rightarrow> (string \<Rightarrow> string) \<Rightarrow> ExternalAuthzConfig \<Rightarrow> int \<Rightarrow> activation \<Rightarrow> ExternalAuthorizer \<Rightarrow> authz_reply \<times> ExternalAuthorizer" where
  "ext_authorize h sha cfg now acts st =
     (case cacheKey h sha cfg acts of
        None \<Rightarrow> (Decided (onFailure cfg), st)
      | Some key \<Rightarrow>
          (case jm_get (ea_cache st) key of
             Some (dec, expires) \<Rightarrow>
               if now < expires then (Decided dec, st)
               else (Awaiting key, if jm_get (ea_inflight st) key = None then st\<lparr>ea_inflight := jm_set key acts (ea_inflight st)\<rparr> else st)
           | None \<Rightarrow> (Awaiting key, if jm_get (ea_inflight st) key = None then st\<lparr>ea_inflight := jm_set key acts (ea_inflight st)\<rparr> else st)))"

text \<open>What comes back: a failure of the call, its status or its body, or the members of the reply. A reason that is no text, which the code passes on as it is, is shown as the default one.\<close>

datatype service_response = ServiceFailed | ServiceReply json

definition nullish_member :: "json \<Rightarrow> string \<Rightarrow> json option" where
  "nullish_member body k = (case j_field body k of Some JNull \<Rightarrow> None | x \<Rightarrow> x)"

definition service_decision :: "service_response \<Rightarrow> AuthzDecision option" where
  "service_decision resp =
     (case resp of
        ServiceFailed \<Rightarrow> None
      | ServiceReply body \<Rightarrow>
          if body = JNull then None
          else
            (case (case nullish_member body ''allow'' of Some x \<Rightarrow> Some x | None \<Rightarrow> j_field body ''allowed'') of
               Some (JBool b) \<Rightarrow>
                 Some \<lparr>ad_allowed = b, ad_reason = Some (case nullish_member body ''reason'' of Some (JStr r) \<Rightarrow> r | _ \<Rightarrow> ''external'')\<rparr>
             | _ \<Rightarrow> None))"

definition fetch_end :: "ExternalAuthzConfig \<Rightarrow> int \<Rightarrow> string \<Rightarrow> service_response \<Rightarrow> ExternalAuthorizer \<Rightarrow> AuthzDecision \<times> ExternalAuthorizer" where
  "fetch_end cfg now key resp st =
     (let st' = st\<lparr>ea_inflight := jm_delete key (ea_inflight st)\<rparr> in
      case service_decision resp of
        None \<Rightarrow> (onFailure cfg, st')
      | Some dec \<Rightarrow> (dec, st'\<lparr>ea_cache := jm_set key (dec, now + ec_ttlMs cfg) (ea_cache st')\<rparr>))"


text \<open>Runs: callers come, replies arrive. The machine also keeps who waits, what was answered and what the service decided, each with its time.\<close>

record ext_run =
  er_authz :: ExternalAuthorizer
  er_waiting :: "(nat \<times> activation \<times> string) list"
  er_answers :: "(nat \<times> activation \<times> AuthzDecision \<times> int) list"
  er_decided :: "(activation \<times> AuthzDecision \<times> int) list"

datatype ext_event = ExtCall nat activation int | ExtReply string service_response int

definition ext_step :: "cel_host \<Rightarrow> (string \<Rightarrow> string) \<Rightarrow> ExternalAuthzConfig \<Rightarrow> ext_run \<Rightarrow> ext_event \<Rightarrow> ext_run" where
  "ext_step h sha cfg r e =
     (case e of
        ExtCall who acts now \<Rightarrow>
          (case ext_authorize h sha cfg now acts (er_authz r) of
             (Decided dec, st) \<Rightarrow> r\<lparr>er_authz := st, er_answers := (who, acts, dec, now) # er_answers r\<rparr>
           | (Awaiting key, st) \<Rightarrow> r\<lparr>er_authz := st, er_waiting := (who, acts, key) # er_waiting r\<rparr>)
      | ExtReply key resp now \<Rightarrow>
          (case jm_get (ea_inflight (er_authz r)) key of
             None \<Rightarrow> r
           | Some asked \<Rightarrow>
               (let (dec, st) = fetch_end cfg now key resp (er_authz r);
                    mine = filter (\<lambda>(w, a, k). k = key) (er_waiting r) in
                r\<lparr>er_authz := st, er_waiting := filter (\<lambda>(w, a, k). k \<noteq> key) (er_waiting r),
                  er_answers := map (\<lambda>(w, a, k). (w, a, dec, now)) mine @ er_answers r,
                  er_decided := (case service_decision resp of Some d \<Rightarrow> (asked, d, now) # er_decided r | None \<Rightarrow> er_decided r)\<rparr>)))"

definition new_ext_run :: ext_run where
  "new_ext_run = \<lparr>er_authz = \<lparr>ea_cache = [], ea_inflight = []\<rparr>, er_waiting = [], er_answers = [], er_decided = []\<rparr>"

text \<open>A decision of the service for an activation of the same key.\<close>

definition decided_for :: "cel_host \<Rightarrow> (string \<Rightarrow> string) \<Rightarrow> ExternalAuthzConfig \<Rightarrow> ext_run \<Rightarrow> string \<Rightarrow> AuthzDecision \<Rightarrow> int \<Rightarrow> bool" where
  "decided_for h sha cfg r key dec t \<longleftrightarrow> (\<exists>asked. (asked, dec, t) \<in> set (er_decided r) \<and> cacheKey h sha cfg asked = Some key)"

definition answer_ok :: "cel_host \<Rightarrow> (string \<Rightarrow> string) \<Rightarrow> ExternalAuthzConfig \<Rightarrow> ext_run \<Rightarrow> nat \<times> activation \<times> AuthzDecision \<times> int \<Rightarrow> bool" where
  "answer_ok h sha cfg r = (\<lambda>(who, acts, dec, now).
     dec = onFailure cfg \<or> (\<exists>key t. cacheKey h sha cfg acts = Some key \<and> decided_for h sha cfg r key dec t \<and> (now = t \<or> now < t + ec_ttlMs cfg)))"

definition ext_ok :: "cel_host \<Rightarrow> (string \<Rightarrow> string) \<Rightarrow> ExternalAuthzConfig \<Rightarrow> ext_run \<Rightarrow> bool" where
  "ext_ok h sha cfg r \<longleftrightarrow>
     (\<forall>key asked. jm_get (ea_inflight (er_authz r)) key = Some asked \<longrightarrow> cacheKey h sha cfg asked = Some key) \<and>
     (\<forall>key dec ex. jm_get (ea_cache (er_authz r)) key = Some (dec, ex) \<longrightarrow> (\<exists>t. decided_for h sha cfg r key dec t \<and> ex = t + ec_ttlMs cfg)) \<and>
     (\<forall>(w, a, k)\<in>set (er_waiting r). cacheKey h sha cfg a = Some k \<and> jm_get (ea_inflight (er_authz r)) k \<noteq> None) \<and>
     (\<forall>x\<in>set (er_answers r). answer_ok h sha cfg r x)"

lemma decided_for_mono: "decided_for h sha cfg r key dec t \<Longrightarrow> set (er_decided r) \<subseteq> set (er_decided r') \<Longrightarrow> decided_for h sha cfg r' key dec t"
  unfolding decided_for_def by blast

lemma answer_ok_mono: "answer_ok h sha cfg r x \<Longrightarrow> set (er_decided r) \<subseteq> set (er_decided r') \<Longrightarrow> answer_ok h sha cfg r' x"
  unfolding answer_ok_def by (auto intro: decided_for_mono)

lemma ext_call_ok:
  assumes "ext_ok h sha cfg r"
  shows "ext_ok h sha cfg (ext_step h sha cfg r (ExtCall who acts now))"
proof (cases "cacheKey h sha cfg acts")
  case None
  then show ?thesis using assms
    by (auto simp: ext_step_def ext_authorize_def ext_ok_def answer_ok_def decided_for_def)
next
  case (Some key)
  show ?thesis
  proof (cases "\<exists>dec ex. jm_get (ea_cache (er_authz r)) key = Some (dec, ex) \<and> now < ex")
    case True
    then obtain dec ex where hit: "jm_get (ea_cache (er_authz r)) key = Some (dec, ex)" "now < ex" by blast
    then obtain t where "decided_for h sha cfg r key dec t" "ex = t + ec_ttlMs cfg" using assms unfolding ext_ok_def by blast
    then have "answer_ok h sha cfg r (who, acts, dec, now)" using Some hit(2) by (auto simp: answer_ok_def)
    then show ?thesis using assms Some hit
      by (auto simp: ext_step_def ext_authorize_def ext_ok_def answer_ok_def decided_for_def)
  next
    case False
    then have "ext_authorize h sha cfg now acts (er_authz r) =
        (Awaiting key, if jm_get (ea_inflight (er_authz r)) key = None then (er_authz r)\<lparr>ea_inflight := jm_set key acts (ea_inflight (er_authz r))\<rparr> else er_authz r)"
      using Some by (auto simp: ext_authorize_def split: option.split)
    then show ?thesis using assms Some
      by (auto simp: ext_step_def ext_ok_def answer_ok_def decided_for_def jm_get_set)
  qed
qed

lemma ext_reply_ok:
  assumes "ext_ok h sha cfg r"
  shows "ext_ok h sha cfg (ext_step h sha cfg r (ExtReply key resp now))"
proof (cases "jm_get (ea_inflight (er_authz r)) key")
  case None
  then show ?thesis using assms by (simp add: ext_step_def)
next
  case (Some asked)
  define r' where "r' = ext_step h sha cfg r (ExtReply key resp now)"
  have sub: "set (er_decided r) \<subseteq> set (er_decided r')"
    using Some by (auto simp: r'_def ext_step_def Let_def split_def split: option.split)
  have key: "cacheKey h sha cfg asked = Some key" using assms Some unfolding ext_ok_def by blast
  have new: "decided_for h sha cfg r' key dec now" if "service_decision resp = Some dec" for dec
    using that Some key by (auto simp: decided_for_def r'_def ext_step_def Let_def split_def)
  have mine: "answer_ok h sha cfg r' (w, a, fst (fetch_end cfg now key resp (er_authz r)), now)"
    if "(w, a, key) \<in> set (er_waiting r)" for w a
    using that assms new by (cases "service_decision resp") (auto simp: answer_ok_def ext_ok_def fetch_end_def Let_def)
  have old: "\<forall>x\<in>set (er_answers r). answer_ok h sha cfg r' x"
    using assms answer_ok_mono [OF _ sub] unfolding ext_ok_def by blast
  have answers: "\<forall>x\<in>set (er_answers r'). answer_ok h sha cfg r' x"
    using old mine Some unfolding r'_def by (auto simp: ext_step_def Let_def split_def)
  have cache: "\<exists>t. decided_for h sha cfg r' k dec t \<and> ex = t + ec_ttlMs cfg" if "jm_get (ea_cache (er_authz r')) k = Some (dec, ex)" for k dec ex
  proof (cases "jm_get (ea_cache (er_authz r)) k = Some (dec, ex)")
    case True
    then show ?thesis using assms decided_for_mono [OF _ sub] unfolding ext_ok_def by blast
  next
    case False
    then have "k = key" "service_decision resp = Some dec" "ex = now + ec_ttlMs cfg"
      using that Some by (auto simp: r'_def ext_step_def fetch_end_def Let_def split_def jm_get_set split: option.splits if_splits)
    then show ?thesis using new by blast
  qed
  have flights: "ea_inflight (er_authz r') = jm_delete key (ea_inflight (er_authz r))" "er_waiting r' = filter (\<lambda>(w, a, k). k \<noteq> key) (er_waiting r)"
    using Some by (auto simp: r'_def ext_step_def fetch_end_def Let_def split_def split: option.splits)
  then show ?thesis
    using assms answers cache unfolding ext_ok_def r'_def [symmetric] by (auto simp: jm_get_delete split: if_splits)
qed

interpretation ext_system: step_system "ext_step h sha cfg" "ext_ok h sha cfg" for h sha cfg
proof
  fix r e assume "ext_ok h sha cfg r"
  then show "ext_ok h sha cfg (ext_step h sha cfg r e)" by (cases e) (auto intro: ext_call_ok ext_reply_ok)
qed

text \<open>
  C36. The external authorizer never lends a decision to another request. In every run of calls and replies, an answer given to a caller is either the configured fallback or a decision
  the service itself made for an activation with the same cache key, given when that reply arrived or within its lifetime in the cache; the fallback is never cached.\<close>

theorem external_decision_sound:
  "list_all (answer_ok h sha cfg (foldl (ext_step h sha cfg) new_ext_run events)) (er_answers (foldl (ext_step h sha cfg) new_ext_run events))"
proof -
  have "ext_ok h sha cfg new_ext_run" by (simp add: ext_ok_def new_ext_run_def)
  from ext_system.run_inv [OF this] show ?thesis by (simp add: ext_ok_def list_all_iff)
qed

end
