(* ===== verification/Redis_Api.thy ===== *)
theory Redis_Api
  imports Gulley_Prelude
begin

text \<open>
  Redis as the shared stores use it. The server is not part of the sources: it is an argument of the definitions that call it, the record \<open>redis_api\<close> of its commands, and its documented
  behaviour is the predicate \<open>redis_laws\<close>, a hypothesis of the properties. \<open>rx_later\<close> relates the keyspace before and after time has passed, in which keys may expire. A counter is read as the
  number its text stands for.
\<close>

section \<open>Redis\<close>

record 's redis_api =
  rx_GET :: "'s \<Rightarrow> string \<Rightarrow> int option"
  rx_SET :: "'s \<Rightarrow> string \<Rightarrow> int \<Rightarrow> 's"
  rx_SETNX :: "'s \<Rightarrow> string \<Rightarrow> int \<Rightarrow> bool \<times> 's"
  rx_INCRBY :: "'s \<Rightarrow> string \<Rightarrow> int \<Rightarrow> 's"
  rx_EXISTS :: "'s \<Rightarrow> string \<Rightarrow> bool"
  rx_EXPIRE :: "'s \<Rightarrow> string \<Rightarrow> int \<Rightarrow> 's"
  rx_PEXPIRE :: "'s \<Rightarrow> string \<Rightarrow> int \<Rightarrow> 's"
  rx_PERSIST :: "'s \<Rightarrow> string \<Rightarrow> 's"
  rx_TTL :: "'s \<Rightarrow> string \<Rightarrow> int"
  rx_HGETALL :: "'s \<Rightarrow> string \<Rightarrow> (string, string) jsmap"
  rx_HSET :: "'s \<Rightarrow> string \<Rightarrow> string \<Rightarrow> string \<Rightarrow> 's"
  rx_HDEL :: "'s \<Rightarrow> string \<Rightarrow> string \<Rightarrow> 's"
  rx_HINCRBY :: "'s \<Rightarrow> string \<Rightarrow> string \<Rightarrow> int \<Rightarrow> 's"
  rx_later :: "'s \<Rightarrow> 's \<Rightarrow> bool"

abbreviation rx_HGET :: "'s redis_api \<Rightarrow> 's \<Rightarrow> string \<Rightarrow> string \<Rightarrow> string option" where
  "rx_HGET R s k f \<equiv> jm_get (rx_HGETALL R s k) f"

section \<open>What Redis promises\<close>

text \<open>
  The documented behaviour the scripts rely on. A counter command works on a key that holds no hash and a hash command on one that holds no counter; reading a hash as a counter, or the
  other way round, gives nothing. \<^verbatim>\<open>EXPIRE\<close> with a span that is not positive removes the key.
\<close>

definition counter_laws :: "'s redis_api \<Rightarrow> bool" where
  "counter_laws R \<longleftrightarrow>
     (\<forall>s k k' v. rx_HGETALL R s k = [] \<longrightarrow> rx_GET R (rx_SET R s k v) k' = (if k' = k then Some v else rx_GET R s k')) \<and>
     (\<forall>s k k' v. rx_HGETALL R s k = [] \<longrightarrow>
        rx_GET R (rx_INCRBY R s k v) k' = (if k' = k then Some ((case rx_GET R s k of Some c \<Rightarrow> c | None \<Rightarrow> 0) + v) else rx_GET R s k')) \<and>
     (\<forall>s k k' t. 0 < t \<longrightarrow> fst (rx_SETNX R s k t) = (\<not> rx_EXISTS R s k) \<and>
        rx_GET R (snd (rx_SETNX R s k t)) k' = (if k' = k \<and> \<not> rx_EXISTS R s k then Some 1 else rx_GET R s k')) \<and>
     (\<forall>s k k' v. rx_HGETALL R (rx_SET R s k v) k' = (if k' = k then [] else rx_HGETALL R s k')) \<and>
     (\<forall>s k k' v. rx_HGETALL R (rx_INCRBY R s k v) k' = rx_HGETALL R s k') \<and>
     (\<forall>s k k' t. rx_HGETALL R (snd (rx_SETNX R s k t)) k' = rx_HGETALL R s k')"

definition hash_laws :: "'s redis_api \<Rightarrow> bool" where
  "hash_laws R \<longleftrightarrow>
     (\<forall>s k. jm_ok (rx_HGETALL R s k)) \<and>
     (\<forall>s k f g v. rx_GET R s k = None \<longrightarrow> rx_HGET R (rx_HSET R s k f v) k g = (if g = f then Some v else rx_HGET R s k g)) \<and>
     (\<forall>s k f g. rx_GET R s k = None \<longrightarrow> rx_HGET R (rx_HDEL R s k f) k g = (if g = f then None else rx_HGET R s k g)) \<and>
     (\<forall>s k f g n. rx_GET R s k = None \<longrightarrow> g \<noteq> f \<longrightarrow> rx_HGET R (rx_HINCRBY R s k f n) k g = rx_HGET R s k g) \<and>
     (\<forall>s k k' f v. k' \<noteq> k \<longrightarrow> rx_HGETALL R (rx_HSET R s k f v) k' = rx_HGETALL R s k') \<and>
     (\<forall>s k k' f. k' \<noteq> k \<longrightarrow> rx_HGETALL R (rx_HDEL R s k f) k' = rx_HGETALL R s k') \<and>
     (\<forall>s k k' f n. k' \<noteq> k \<longrightarrow> rx_HGETALL R (rx_HINCRBY R s k f n) k' = rx_HGETALL R s k') \<and>
     (\<forall>s k k' f v. rx_GET R (rx_HSET R s k f v) k' = rx_GET R s k') \<and>
     (\<forall>s k k' f. rx_GET R (rx_HDEL R s k f) k' = rx_GET R s k') \<and>
     (\<forall>s k k' f n. rx_GET R (rx_HINCRBY R s k f n) k' = rx_GET R s k')"

definition expiry_laws :: "'s redis_api \<Rightarrow> bool" where
  "expiry_laws R \<longleftrightarrow>
     (\<forall>s k. rx_EXISTS R s k \<longleftrightarrow> rx_GET R s k \<noteq> None \<or> rx_HGETALL R s k \<noteq> []) \<and>
     (\<forall>s k k' t. rx_GET R (rx_EXPIRE R s k t) k' = (if k' = k \<and> t \<le> 0 then None else rx_GET R s k')) \<and>
     (\<forall>s k k' t. rx_HGETALL R (rx_EXPIRE R s k t) k' = (if k' = k \<and> t \<le> 0 then [] else rx_HGETALL R s k')) \<and>
     (\<forall>s k k' t. rx_GET R (rx_PEXPIRE R s k t) k' = (if k' = k \<and> t \<le> 0 then None else rx_GET R s k')) \<and>
     (\<forall>s k k' t. rx_HGETALL R (rx_PEXPIRE R s k t) k' = (if k' = k \<and> t \<le> 0 then [] else rx_HGETALL R s k')) \<and>
     (\<forall>s k k'. rx_GET R (rx_PERSIST R s k) k' = rx_GET R s k') \<and>
     (\<forall>s k k'. rx_HGETALL R (rx_PERSIST R s k) k' = rx_HGETALL R s k') \<and>
     (\<forall>s s' k. rx_later R s s' \<longrightarrow> rx_GET R s' k = rx_GET R s k \<or> rx_GET R s' k = None) \<and>
     (\<forall>s s' k. rx_later R s s' \<longrightarrow> rx_HGETALL R s' k = rx_HGETALL R s k \<or> rx_HGETALL R s' k = [])"

definition redis_laws :: "'s redis_api \<Rightarrow> bool" where
  "redis_laws R \<longleftrightarrow> counter_laws R \<and> hash_laws R \<and> expiry_laws R"

lemma redis_counter_rules:
  assumes "redis_laws R"
  shows "rx_HGETALL R s k = [] \<Longrightarrow> rx_GET R (rx_SET R s k v) k' = (if k' = k then Some v else rx_GET R s k')"
    "rx_HGETALL R s k = [] \<Longrightarrow> rx_GET R (rx_INCRBY R s k v) k' = (if k' = k then Some ((case rx_GET R s k of Some c \<Rightarrow> c | None \<Rightarrow> 0) + v) else rx_GET R s k')"
    "0 < t \<Longrightarrow> fst (rx_SETNX R s k t) = (\<not> rx_EXISTS R s k)"
    "0 < t \<Longrightarrow> rx_GET R (snd (rx_SETNX R s k t)) k' = (if k' = k \<and> \<not> rx_EXISTS R s k then Some 1 else rx_GET R s k')"
    "rx_HGETALL R (rx_SET R s k v) k' = (if k' = k then [] else rx_HGETALL R s k')"
    "rx_HGETALL R (rx_INCRBY R s k v) k' = rx_HGETALL R s k'"
    "rx_HGETALL R (snd (rx_SETNX R s k t)) k' = rx_HGETALL R s k'"
  using assms unfolding redis_laws_def counter_laws_def by simp_all

lemma redis_hash_rules:
  assumes "redis_laws R"
  shows "jm_ok (rx_HGETALL R s k)"
    "rx_GET R s k = None \<Longrightarrow> rx_HGET R (rx_HSET R s k f v) k g = (if g = f then Some v else rx_HGET R s k g)"
    "rx_GET R s k = None \<Longrightarrow> rx_HGET R (rx_HDEL R s k f) k g = (if g = f then None else rx_HGET R s k g)"
    "rx_GET R s k = None \<Longrightarrow> g \<noteq> f \<Longrightarrow> rx_HGET R (rx_HINCRBY R s k f n) k g = rx_HGET R s k g"
    "k' \<noteq> k \<Longrightarrow> rx_HGETALL R (rx_HSET R s k f v) k' = rx_HGETALL R s k'"
    "k' \<noteq> k \<Longrightarrow> rx_HGETALL R (rx_HDEL R s k f) k' = rx_HGETALL R s k'"
    "k' \<noteq> k \<Longrightarrow> rx_HGETALL R (rx_HINCRBY R s k f n) k' = rx_HGETALL R s k'"
    "rx_GET R (rx_HSET R s k f v) k' = rx_GET R s k'"
    "rx_GET R (rx_HDEL R s k f) k' = rx_GET R s k'"
    "rx_GET R (rx_HINCRBY R s k f n) k' = rx_GET R s k'"
  using assms unfolding redis_laws_def hash_laws_def by simp_all

lemma redis_expiry_rules:
  assumes "redis_laws R"
  shows "rx_EXISTS R s k \<longleftrightarrow> rx_GET R s k \<noteq> None \<or> rx_HGETALL R s k \<noteq> []"
    "rx_GET R (rx_EXPIRE R s k t) k' = (if k' = k \<and> t \<le> 0 then None else rx_GET R s k')"
    "rx_HGETALL R (rx_EXPIRE R s k t) k' = (if k' = k \<and> t \<le> 0 then [] else rx_HGETALL R s k')"
    "rx_GET R (rx_PERSIST R s k) k' = rx_GET R s k'"
    "rx_HGETALL R (rx_PERSIST R s k) k' = rx_HGETALL R s k'"
    "rx_later R s s' \<Longrightarrow> rx_GET R s' k = rx_GET R s k \<or> rx_GET R s' k = None"
    "rx_later R s s' \<Longrightarrow> rx_HGETALL R s' k = rx_HGETALL R s k \<or> rx_HGETALL R s' k = []"
    "rx_GET R (rx_PEXPIRE R s k t) k' = (if k' = k \<and> t \<le> 0 then None else rx_GET R s k')"
    "rx_HGETALL R (rx_PEXPIRE R s k t) k' = (if k' = k \<and> t \<le> 0 then [] else rx_HGETALL R s k')"
  using assms unfolding redis_laws_def expiry_laws_def by (simp_all del: not_None_eq)

text \<open>The value of a counter, zero when it is absent.\<close>

definition count :: "'s redis_api \<Rightarrow> 's \<Rightarrow> string \<Rightarrow> int" where
  "count R s k = (case rx_GET R s k of Some c \<Rightarrow> c | None \<Rightarrow> 0)"

section \<open>A model of the laws\<close>

text \<open>A Redis in which nothing expires by itself.\<close>

definition sample_redis :: "((string \<Rightarrow> int option) \<times> (string \<Rightarrow> (string, string) jsmap)) redis_api" where
  "sample_redis =
     \<lparr>rx_GET = fst,
      rx_SET = (\<lambda>s k v. ((fst s)(k \<mapsto> v), (snd s)(k := []))),
      rx_SETNX = (\<lambda>s k t. if fst s k \<noteq> None \<or> snd s k \<noteq> [] then (False, s) else (True, (fst s)(k \<mapsto> 1), snd s)),
      rx_INCRBY = (\<lambda>s k v. ((fst s)(k \<mapsto> (case fst s k of Some c \<Rightarrow> c | None \<Rightarrow> 0) + v), snd s)),
      rx_EXISTS = (\<lambda>s k. fst s k \<noteq> None \<or> snd s k \<noteq> []),
      rx_EXPIRE = (\<lambda>s k t. if t \<le> 0 then ((fst s)(k := None), (snd s)(k := [])) else s),
      rx_PEXPIRE = (\<lambda>s k t. if t \<le> 0 then ((fst s)(k := None), (snd s)(k := [])) else s),
      rx_PERSIST = (\<lambda>s k. s), rx_TTL = (\<lambda>s k. - 1),
      rx_HGETALL = (\<lambda>s k. AList.clearjunk (snd s k)),
      rx_HSET = (\<lambda>s k f v. (fst s, (snd s)(k := jm_set f v (snd s k)))),
      rx_HDEL = (\<lambda>s k f. (fst s, (snd s)(k := jm_delete f (snd s k)))),
      rx_HINCRBY = (\<lambda>s k f n. (fst s, (snd s)(k := jm_set f (show_int n) (snd s k)))),
      rx_later = (\<lambda>s s'. s' = s)\<rparr>"

lemma clearjunk_Nil_iff [simp]: "AList.clearjunk xs = [] \<longleftrightarrow> xs = []"
  by (cases xs) auto

lemma sample_redis_laws: "redis_laws sample_redis"
  unfolding redis_laws_def counter_laws_def hash_laws_def expiry_laws_def
  by (auto simp: sample_redis_def map_of_clearjunk jm_get_set jm_get_delete distinct_clearjunk split: option.split)

end
