(* ===== verification/Redis_Budget.thy ===== *)
theory Redis_Budget
  imports Budget_Safety Redis_Api
begin

text \<open>
  The shared budget store of \<^verbatim>\<open>src/packages/budget/src/redis.ts\<close>: the four Lua scripts, which Redis runs one at a time, and the class that calls them and remembers, per replica, the counters
  each reservation was admitted against. Amounts and instants are integers below \<open>10 ^ 14\<close>, which Lua
  writes out in full. Shown: replicas with clocks of their own never let the booked spend of a window exceed its cap, a commit that is sent again books nothing, and the scripts
  decide as the in-memory store does.
\<close>

text \<open>Numbers as the scripts read and write them.\<close>

definition lua_tonumber :: "string \<Rightarrow> int option" where
  "lua_tonumber v =
     (case v of
        [] \<Rightarrow> None
      | c # ds \<Rightarrow>
          if c = CHR ''-'' then (if ds \<noteq> [] \<and> list_all is_digit ds then Some (- int (read_nat ds)) else None)
          else if list_all is_digit v then Some (int (read_nat v)) else None)"

abbreviation colon :: char where
  "colon \<equiv> CHR '':''"

definition before_colon :: "string \<Rightarrow> string" where
  "before_colon v = (case index_of colon v of Some i \<Rightarrow> take i v | None \<Rightarrow> v)"

section \<open>The scripts\<close>

abbreviation total_field :: string where
  "total_field \<equiv> ''__total''"

text \<open>The sweep of \<^verbatim>\<open>RESERVE_LUA\<close> over the fields of the hash; the sum of what stays.\<close>

fun sweep_fields :: "'s redis_api \<Rightarrow> string \<Rightarrow> int \<Rightarrow> (string, string) jsmap \<Rightarrow> int \<Rightarrow> 's \<Rightarrow> int \<times> 's" where
  "sweep_fields R key now [] reserved s = (reserved, s)"
| "sweep_fields R key now ((k, v) # fs) reserved s =
     (if k = total_field then sweep_fields R key now fs reserved s
      else case index_of colon v of
        None \<Rightarrow> sweep_fields R key now fs reserved (rx_HDEL R s key k)
      | Some i \<Rightarrow>
          (case lua_tonumber (before_colon (drop (Suc i) v)) of
             Some e \<Rightarrow>
               if e \<le> now then sweep_fields R key now fs reserved (rx_HDEL R s key k)
               else sweep_fields R key now fs (reserved + (case lua_tonumber (take i v) of Some a \<Rightarrow> a | None \<Rightarrow> 0)) s
           | None \<Rightarrow> sweep_fields R key now fs (reserved + (case lua_tonumber (take i v) of Some a \<Rightarrow> a | None \<Rightarrow> 0)) s))"

record lua_best =
  lb_idx :: nat
  lb_used :: int
  lb_cap :: int
  lb_ratio :: jsnum

text \<open>Its loop over the windows \<^verbatim>\<open>(committedKey, cap)\<close> from the \<open>i\<close>-th on: \<open>Inl\<close> the window that rejects.\<close>

fun reserve_windows :: "'s redis_api \<Rightarrow> int \<Rightarrow> int \<Rightarrow> 's \<Rightarrow> nat \<Rightarrow> (string \<times> int) list \<Rightarrow> lua_best \<Rightarrow> nat \<times> int \<times> int + lua_best" where
  "reserve_windows R reserved worst s i [] best = Inr best"
| "reserve_windows R reserved worst s i ((key, cap) # ws) best =
     (let used = reserved + (case rx_GET R s key of Some c \<Rightarrow> c | None \<Rightarrow> 0);
          ratio = js_div (of_int (used + worst)) (of_int cap) in
      if cap < used + worst then Inl (i, used, cap)
      else reserve_windows R reserved worst s (Suc i) ws
        (if js_less (lb_ratio best) ratio then \<lparr>lb_idx = i, lb_used = used + worst, lb_cap = cap, lb_ratio = ratio\<rparr> else best))"

definition reservation_text :: "int \<Rightarrow> int \<Rightarrow> int \<Rightarrow> string" where
  "reservation_text amount expiry ttl = show_int amount @ colon # show_int expiry @ colon # show_int ttl"

definition reserve_lua ::
  "'s redis_api \<Rightarrow> string \<Rightarrow> string \<Rightarrow> int \<Rightarrow> int \<Rightarrow> int \<Rightarrow> (string \<times> int \<times> int) list \<Rightarrow> 's \<Rightarrow> (bool \<times> nat \<times> int \<times> int) \<times> 's" where
  "reserve_lua R reservedKey field worst now maxLifetime ws s =
     (let (reserved, s1) = sweep_fields R reservedKey now (rx_HGETALL R s reservedKey) 0 s;
          maxTtl = foldl max 0 (map (snd \<circ> snd) ws) in
      case reserve_windows R reserved worst s1 1 (map (\<lambda>(k, cap, ttl). (k, cap)) ws) \<lparr>lb_idx = 1, lb_used = 0, lb_cap = 1, lb_ratio = Num (- 1)\<rparr> of
        Inl (i, used, cap) \<Rightarrow> ((False, i, used, cap), rx_HSET R s1 reservedKey total_field (show_int reserved))
      | Inr best \<Rightarrow>
          (let s2 = rx_HSET R s1 reservedKey field (reservation_text worst (now + maxLifetime) maxTtl);
               s3 = rx_HSET R s2 reservedKey total_field (show_int (reserved + worst));
               s4 = (if 0 < maxTtl then rx_EXPIRE R s3 reservedKey maxTtl else s3)
           in ((True, lb_idx best, lb_used best, lb_cap best), s4)))"

datatype commit_mode = ModeCalendar | ModeFixed | ModeNone | ModeKeep

record layout_window =
  lw_key :: string
  lw_mode :: commit_mode
  lw_ttl :: int

definition stamp :: "'s redis_api \<Rightarrow> layout_window \<Rightarrow> 's \<Rightarrow> 's" where
  "stamp R w s =
     (if rx_EXISTS R s (lw_key w) then
        (case lw_mode w of
           ModeCalendar \<Rightarrow> rx_EXPIRE R s (lw_key w) (lw_ttl w)
         | ModeFixed \<Rightarrow> if rx_TTL R s (lw_key w) = - 1 then rx_EXPIRE R s (lw_key w) (lw_ttl w) else s
         | ModeNone \<Rightarrow> if 0 < rx_TTL R s (lw_key w) then rx_PERSIST R s (lw_key w) else s
         | ModeKeep \<Rightarrow> s)
      else s)"

definition commit_window :: "'s redis_api \<Rightarrow> bool \<Rightarrow> int \<Rightarrow> 's \<Rightarrow> layout_window \<Rightarrow> 's" where
  "commit_window R fresh actual s w =
     stamp R w (if fresh \<and> (0 < actual \<or> rx_EXISTS R s (lw_key w)) then rx_INCRBY R s (lw_key w) actual else s)"

definition commit_lua :: "'s redis_api \<Rightarrow> string \<Rightarrow> string \<Rightarrow> string \<Rightarrow> int \<Rightarrow> int \<Rightarrow> layout_window list \<Rightarrow> 's \<Rightarrow> 's" where
  "commit_lua R reservedKey commitIdKey field actual dedupTtl ws s =
     (let (fresh, s1) = rx_SETNX R s commitIdKey (max 1 dedupTtl);
          raw = rx_HGET R s1 reservedKey field;
          worst = (case raw of None \<Rightarrow> 0 | Some v \<Rightarrow> (case lua_tonumber (before_colon v) of Some a \<Rightarrow> a | None \<Rightarrow> 0));
          maxTtl = foldl max 0 (map lw_ttl ws);
          s2 = foldl (commit_window R fresh actual) s1 ws;
          s3 = (case raw of
                  None \<Rightarrow> s2
                | Some v \<Rightarrow>
                    (let s' = rx_HDEL R s2 reservedKey field in
                     if 0 < worst then rx_HINCRBY R s' reservedKey total_field (- worst) else s'))
      in if 0 < maxTtl \<and> rx_EXISTS R s3 reservedKey then rx_EXPIRE R s3 reservedKey maxTtl else s3)"

definition refresh_lua :: "'s redis_api \<Rightarrow> string \<Rightarrow> string \<Rightarrow> int \<Rightarrow> 's \<Rightarrow> 's" where
  "refresh_lua R reservedKey field newExp s =
     (case rx_HGET R s reservedKey field of
        None \<Rightarrow> s
      | Some raw \<Rightarrow>
          (let ttlPart = (case index_of colon raw of
                 None \<Rightarrow> []
               | Some i \<Rightarrow>
                   (case index_of colon (drop (Suc i) raw) of
                      Some j \<Rightarrow> colon # drop (Suc j) (drop (Suc i) raw)
                    | None \<Rightarrow> []))
           in rx_HSET R s reservedKey field (before_colon raw @ colon # show_int newExp @ ttlPart)))"

definition heal_lua :: "'s redis_api \<Rightarrow> string \<Rightarrow> int \<Rightarrow> int \<Rightarrow> 's \<Rightarrow> (bool \<times> int) \<times> 's" where
  "heal_lua R committedKey ledgerSum ttl s =
     (if rx_EXISTS R s committedKey then ((False, case rx_GET R s committedKey of Some c \<Rightarrow> c | None \<Rightarrow> 0), s)
      else if 0 < ledgerSum then
        (let s1 = rx_SET R s committedKey ledgerSum in
         ((True, ledgerSum), if 0 < ttl then rx_EXPIRE R s1 committedKey ttl else s1))
      else ((False, 0), s))"

section \<open>The store\<close>

definition CALENDAR_GRACE_SECONDS :: int where
  "CALENDAR_GRACE_SECONDS = 7 * 86400"

definition MAX_LAYOUTS :: nat where
  "MAX_LAYOUTS = 100000"

definition reservedKey :: "string \<Rightarrow> string" where
  "reservedKey scope = ''budget:{'' @ scope @ ''}:reserved''"

definition committedKey :: "string \<Rightarrow> BudgetPeriod \<Rightarrow> int \<Rightarrow> string" where
  "committedKey scope period nowMs =
     (if isCalendar period then ''budget:{'' @ scope @ ''}:committed:'' @ windowId period nowMs
      else ''budget:{'' @ scope @ ''}:committed'')"

definition commitIdKey :: "string \<Rightarrow> string \<Rightarrow> string" where
  "commitIdKey scope requestId = ''budget:{'' @ scope @ ''}:cid:'' @ requestId"

fun commitTtl :: "BudgetPeriod \<Rightarrow> int \<Rightarrow> commit_mode \<times> int" where
  "commitTtl (PCalendar k) nowMs = (ModeCalendar, secondsUntilReset k nowMs + CALENDAR_GRACE_SECONDS)"
| "commitTtl (PFixed seconds) nowMs = (ModeFixed, seconds)"
| "commitTtl PNone nowMs = (ModeNone, 0)"

abbreviation reservedTtl :: "BudgetPeriod \<Rightarrow> int \<Rightarrow> int" where
  "reservedTtl period nowMs \<equiv> snd (commitTtl period nowMs)"

record ReserveLayout =
  rl_windows :: "layout_window list"
  rl_at :: int

type_synonym layouts = "(string \<times> string, ReserveLayout) jsmap"

definition layout_of :: "string \<Rightarrow> int \<Rightarrow> BudgetWindow \<Rightarrow> layout_window" where
  "layout_of scope nowMs w =
     \<lparr>lw_key = committedKey scope (bw_period w) nowMs, lw_mode = fst (commitTtl (bw_period w) nowMs), lw_ttl = snd (commitTtl (bw_period w) nowMs)\<rparr>"

fun prune_layouts :: "int \<Rightarrow> layouts \<Rightarrow> layouts" where
  "prune_layouts horizon [] = []"
| "prune_layouts horizon ((k, v) # m) =
     (if horizon < rl_at v \<and> length ((k, v) # m) < MAX_LAYOUTS then (k, v) # m else prune_layouts horizon m)"

definition remember :: "int \<Rightarrow> string \<Rightarrow> string \<Rightarrow> ReserveLayout \<Rightarrow> layouts \<Rightarrow> layouts" where
  "remember life scope requestId l m =
     jm_set (scope, requestId) l (if MAX_LAYOUTS \<le> length m then prune_layouts (rl_at l - life) m else m)"

text \<open>The cap resolver's answer to the call is an argument: \<open>Inl\<close> when it raises.\<close>

definition redis_reserve ::
  "'s redis_api \<Rightarrow> unit + BudgetLike option \<Rightarrow> int \<Rightarrow> int \<Rightarrow> string \<Rightarrow> string \<Rightarrow> int \<Rightarrow> layouts \<times> 's \<Rightarrow> (budget_error option + BudgetDecision option) \<times> layouts \<times> 's" where
  "redis_reserve R cap life nowMs scope requestId worst st =
     (case cap of
        Inl _ \<Rightarrow> (Inl None, st)
      | Inr None \<Rightarrow> (Inr None, st)
      | Inr (Some budget) \<Rightarrow>
          (let ws = bs_windows (normalizeBudget budget);
               ((allowed, idx, used, capB), s') =
                 reserve_lua R (reservedKey scope) requestId worst nowMs life
                   (map (\<lambda>w. (committedKey scope (bw_period w) nowMs, bw_capMicroUsd w, reservedTtl (bw_period w) nowMs)) ws) (snd st);
               m' = (if allowed then remember life scope requestId \<lparr>rl_windows = map (layout_of scope nowMs) ws, rl_at = nowMs\<rparr> (fst st) else fst st)
           in if idx - 1 < length ws
              then (Inr (Some \<lparr>bd_allowed = allowed, bd_capMicroUsd = capB, bd_usedMicroUsd = used,
                              bd_window = windowInfo (bw_period (ws ! (idx - 1))) nowMs\<rparr>), m', s')
              else (Inl (Some TypeError), m', s')))"

definition redis_refresh :: "'s redis_api \<Rightarrow> int \<Rightarrow> int \<Rightarrow> string \<Rightarrow> string \<Rightarrow> 's \<Rightarrow> 's" where
  "redis_refresh R life nowMs scope requestId s = refresh_lua R (reservedKey scope) requestId (nowMs + life) s"

definition commitLayout :: "unit + BudgetLike option \<Rightarrow> int \<Rightarrow> string \<Rightarrow> string \<Rightarrow> layouts \<Rightarrow> layout_window list \<times> layouts" where
  "commitLayout cap nowMs scope requestId m =
     (case jm_get m (scope, requestId) of
        Some l \<Rightarrow> (rl_windows l, jm_delete (scope, requestId) m)
      | None \<Rightarrow>
          (case cap of
             Inr (Some budget) \<Rightarrow> (map (layout_of scope nowMs) (bs_windows (normalizeBudget budget)), m)
           | _ \<Rightarrow> ([\<lparr>lw_key = committedKey scope PNone nowMs, lw_mode = ModeKeep, lw_ttl = 0\<rparr>], m)))"

definition redis_commit :: "'s redis_api \<Rightarrow> unit + BudgetLike option \<Rightarrow> int \<Rightarrow> int \<Rightarrow> string \<Rightarrow> string \<Rightarrow> int \<Rightarrow> layouts \<times> 's \<Rightarrow> layouts \<times> 's" where
  "redis_commit R cap life nowMs scope requestId actual st =
     (let (ws, m') = commitLayout cap nowMs scope requestId (fst st) in
      (m', commit_lua R (reservedKey scope) (commitIdKey scope requestId) requestId (max 0 actual) (max 1 (ceil_div life 1000)) ws (snd st)))"

definition healCommitted :: "'s redis_api \<Rightarrow> int \<Rightarrow> string \<Rightarrow> int \<Rightarrow> int + BudgetPeriod \<Rightarrow> 's \<Rightarrow> (bool \<times> int) \<times> 's" where
  "healCommitted R nowMs scope ledger period s =
     (let p = (case period of
                 Inl n \<Rightarrow> (case parsePeriod (Some (JNum (Num (of_int n)))) of Some q \<Rightarrow> q | None \<Rightarrow> PNone)
               | Inr q \<Rightarrow> q)
      in heal_lua R (committedKey scope p nowMs) (max 0 ledger) (snd (commitTtl p nowMs)) s)"

section \<open>The keys of a scope\<close>

lemma keys_differ [simp]:
  "committedKey scope p d \<noteq> reservedKey scope" "reservedKey scope \<noteq> committedKey scope p d"
  "commitIdKey scope rid \<noteq> reservedKey scope" "reservedKey scope \<noteq> commitIdKey scope rid"
  "commitIdKey scope rid \<noteq> committedKey scope p d" "committedKey scope p d \<noteq> commitIdKey scope rid"
  by (auto simp: committedKey_def reservedKey_def commitIdKey_def)

lemma windowId_head:
  "hd (windowId (PCalendar k) d) = (case k of Daily \<Rightarrow> CHR ''d'' | Weekly \<Rightarrow> CHR ''w'' | Monthly \<Rightarrow> CHR ''m'')"
  by (cases k) (auto simp: windowId.simps(1-3) Let_def split: prod.split)

text \<open>Windows of distinct kinds, at most one of which is not aligned to the calendar.\<close>

definition wf_windows :: "BudgetWindow list \<Rightarrow> bool" where
  "wf_windows ws \<longleftrightarrow>
     ws \<noteq> [] \<and> distinct (map (\<lambda>w. case bw_period w of PCalendar k \<Rightarrow> Some k | _ \<Rightarrow> None) ws) \<and> list_all (\<lambda>w. 0 \<le> bw_capMicroUsd w) ws"

lemma committedKey_eq:
  assumes "committedKey scope p d = committedKey scope q d'"
  shows "(case p of PCalendar k \<Rightarrow> Some k | _ \<Rightarrow> None) = (case q of PCalendar k \<Rightarrow> Some k | _ \<Rightarrow> None)"
proof -
  have "k = k'" if "windowId (PCalendar k) d = windowId (PCalendar k') d'" for k k'
    using windowId_head [of k d] windowId_head [of k' d'] that by (cases k; cases k') auto
  then show ?thesis using assms by (cases p; cases q) (auto simp: committedKey_def)
qed

lemma wf_windows_key:
  assumes "wf_windows ws" and "w \<in> set ws" and "w' \<in> set ws" and "committedKey scope (bw_period w) d = committedKey scope (bw_period w') d'"
  shows "w = w'"
  using assms(1-3) committedKey_eq [OF assms(4)] unfolding wf_windows_def distinct_map by (auto dest: inj_onD)

section \<open>Runs of several replicas\<close>

text \<open>
  Any number of gateway replicas, each with its own layouts and its own clock, call the store for one scope whose budget does not change. \<open>A\<close> records the admitted reservations
  that are not settled: the replica, the amount and the counters it was admitted against. A reserve may repeat a request id, and a commit may come at any time, for any amount,
  from any replica, for a reservation that was swept or has expired, from a replica that has forgotten its layout, a second time, or for a request that never reserved. \<open>X\<close> adds up,
  for each counter, the spend that no reservation covered: what a commit books over what it gives back of the same counter, and what is restored from the ledger.
\<close>

type_synonym admissions = "string \<rightharpoonup> nat \<times> int \<times> string list"

definition scope_fresh :: "'s redis_api \<Rightarrow> string \<Rightarrow> 's \<Rightarrow> bool" where
  "scope_fresh R scope s \<longleftrightarrow>
     (\<forall>p d. rx_GET R s (committedKey scope p d) = None \<and> rx_HGETALL R s (committedKey scope p d) = []) \<and>
     (\<forall>rid. rx_HGETALL R s (commitIdKey scope rid) = []) \<and>
     rx_GET R s (reservedKey scope) = None \<and> rx_HGETALL R s (reservedKey scope) = []"

definition admitted :: "budget_error option + BudgetDecision option \<Rightarrow> bool" where
  "admitted r = (case r of Inr (Some d) \<Rightarrow> bd_allowed d | _ \<Rightarrow> False)"

text \<open>What a commit under way gives back of a counter, and what it books there without cover: a commit whose id Redis knows books nothing.\<close>

definition held :: "admissions \<Rightarrow> string \<Rightarrow> string \<Rightarrow> int" where
  "held A K rid = (case A rid of Some (i, amount, keys) \<Rightarrow> if K \<in> set keys then amount else 0 | None \<Rightarrow> 0)"

definition covered :: "'s redis_api \<Rightarrow> string \<Rightarrow> 's \<Rightarrow> admissions \<Rightarrow> string \<Rightarrow> string \<Rightarrow> int" where
  "covered R scope s A rid K = (if rx_HGET R s (reservedKey scope) rid = None then 0 else held A K rid)"

definition uncovered :: "'s redis_api \<Rightarrow> string \<Rightarrow> 's \<Rightarrow> admissions \<Rightarrow> string \<Rightarrow> int \<Rightarrow> layout_window list \<Rightarrow> string \<Rightarrow> int" where
  "uncovered R scope s A rid actual ws K =
     (if K \<in> lw_key ` set ws \<and> \<not> rx_EXISTS R s (commitIdKey scope rid) then max 0 (max 0 actual - covered R scope s A rid K) else 0)"

inductive redis_run ::
  "'s redis_api \<Rightarrow> string \<Rightarrow> BudgetSpec \<Rightarrow> int \<Rightarrow> (nat \<Rightarrow> layouts) \<Rightarrow> 's \<Rightarrow> admissions \<Rightarrow> (string \<Rightarrow> int) \<Rightarrow> bool" for R scope spec life where
  run_start: "scope_fresh R scope s \<Longrightarrow> redis_run R scope spec life (\<lambda>i. []) s Map.empty (\<lambda>K. 0)"
| run_time: "redis_run R scope spec life M s A X \<Longrightarrow> rx_later R s s' \<Longrightarrow> redis_run R scope spec life M s' A X"
| run_reserve: "redis_run R scope spec life M s A X \<Longrightarrow> rid \<noteq> total_field \<Longrightarrow> 0 \<le> worst \<Longrightarrow>
    redis_reserve R (Inr (Some (Spec spec))) life now scope rid worst (M i, s) = (res, m', s') \<Longrightarrow>
    redis_run R scope spec life (M(i := m')) s'
      (if admitted res then A(rid \<mapsto> (i, worst, map (\<lambda>w. committedKey scope (bw_period w) now) (bs_windows spec))) else A) X"
| run_commit: "redis_run R scope spec life M s A X \<Longrightarrow> rid \<noteq> total_field \<Longrightarrow> cap \<in> {Inl (), Inr None, Inr (Some (Spec spec))} \<Longrightarrow>
    redis_commit R cap life now scope rid actual (M i, s) = (m', s') \<Longrightarrow>
    redis_run R scope spec life (M(i := m')) s' (A(rid := None))
      (\<lambda>K. X K + uncovered R scope s A rid actual (fst (commitLayout cap now scope rid (M i))) K)"
| run_refresh: "redis_run R scope spec life M s A X \<Longrightarrow> rid \<noteq> total_field \<Longrightarrow>
    redis_run R scope spec life M (redis_refresh R life now scope rid s) A X"
| run_heal: "redis_run R scope spec life M s A X \<Longrightarrow> healCommitted R now scope ledger (Inr p) s = ((healed, v), s') \<Longrightarrow>
    redis_run R scope spec life M s' A (if healed then X(committedKey scope p now := X (committedKey scope p now) + max 0 ledger) else X)"

section \<open>The invariant\<close>

abbreviation field_names :: "'s redis_api \<Rightarrow> string \<Rightarrow> 's \<Rightarrow> string set" where
  "field_names R scope s \<equiv> dom (map_of (rx_HGETALL R s (reservedKey scope)))"

definition amount_text :: "int \<Rightarrow> string \<Rightarrow> bool" where
  "amount_text a v \<longleftrightarrow> colon \<in> set v \<and> lua_tonumber (before_colon v) = Some a"

definition fields_ok :: "admissions \<Rightarrow> (string \<rightharpoonup> string) \<Rightarrow> bool" where
  "fields_ok A F \<longleftrightarrow> A total_field = None \<and> (\<forall>rid v. F rid = Some v \<longrightarrow> rid \<noteq> total_field \<longrightarrow> (\<exists>i a keys. A rid = Some (i, a, keys) \<and> amount_text a v))"

definition kinds_ok :: "'s redis_api \<Rightarrow> string \<Rightarrow> 's \<Rightarrow> bool" where
  "kinds_ok R scope s \<longleftrightarrow>
     (\<forall>p d. rx_HGETALL R s (committedKey scope p d) = []) \<and> (\<forall>rid. rx_HGETALL R s (commitIdKey scope rid) = []) \<and> rx_GET R s (reservedKey scope) = None"

definition keys_ok :: "string \<Rightarrow> string list \<Rightarrow> bool" where
  "keys_ok scope keys \<longleftrightarrow> distinct keys \<and> (\<forall>K\<in>set keys. \<exists>p d. K = committedKey scope p d)"

definition layouts_ok :: "string \<Rightarrow> (nat \<Rightarrow> layouts) \<Rightarrow> bool" where
  "layouts_ok scope M \<longleftrightarrow>
     (\<forall>i. jm_ok (M i)) \<and> (\<forall>rid i l. jm_get (M i) (scope, rid) = Some l \<longrightarrow> keys_ok scope (map lw_key (rl_windows l)))"

definition caps_ok :: "'s redis_api \<Rightarrow> string \<Rightarrow> BudgetWindow list \<Rightarrow> 's \<Rightarrow> admissions \<Rightarrow> (string \<Rightarrow> int) \<Rightarrow> bool" where
  "caps_ok R scope ws s A X \<longleftrightarrow>
     (\<forall>K. 0 \<le> X K) \<and>
     (\<forall>w d. w \<in> set ws \<longrightarrow>
        count R s (committedKey scope (bw_period w) d) + (\<Sum>rid\<in>field_names R scope s. held A (committedKey scope (bw_period w) d) rid)
          \<le> bw_capMicroUsd w + X (committedKey scope (bw_period w) d))"

definition counts_ok :: "'s redis_api \<Rightarrow> string \<Rightarrow> 's \<Rightarrow> admissions \<Rightarrow> bool" where
  "counts_ok R scope s A \<longleftrightarrow>
     (\<forall>p d. 0 \<le> count R s (committedKey scope p d)) \<and>
     (\<forall>rid i a keys. A rid = Some (i, a, keys) \<longrightarrow> 0 \<le> a)"

definition run_ok :: "'s redis_api \<Rightarrow> string \<Rightarrow> BudgetWindow list \<Rightarrow> (nat \<Rightarrow> layouts) \<Rightarrow> 's \<Rightarrow> admissions \<Rightarrow> (string \<Rightarrow> int) \<Rightarrow> bool" where
  "run_ok R scope ws M s A X \<longleftrightarrow>
     kinds_ok R scope s \<and> fields_ok A (map_of (rx_HGETALL R s (reservedKey scope))) \<and> layouts_ok scope M \<and> counts_ok R scope s A \<and> caps_ok R scope ws s A X"

lemma counts_amount: "counts_ok R scope s A \<Longrightarrow> A rid = Some (i, a, keys) \<Longrightarrow> 0 \<le> a"
  unfolding counts_ok_def by blast

lemma held_nonneg: "counts_ok R scope s A \<Longrightarrow> 0 \<le> held A K rid"
  by (auto simp: held_def dest: counts_amount split: option.split)

text \<open>The texts of the fields.\<close>

lemma not_colon_show_int: "colon \<notin> set (show_int n)"
proof -
  have "\<not> is_digit colon" by (simp add: is_digit_def)
  then show ?thesis using not_digit_in_show_nat by (auto simp: show_int_def)
qed

lemma lua_tonumber_show [simp]: "lua_tonumber (show_int n) = Some n"
proof (cases "n < 0")
  case True
  then show ?thesis by (simp add: show_int_def lua_tonumber_def show_nat_digits)
next
  case False
  obtain c ds where c: "show_nat (nat n) = c # ds" by (cases "show_nat (nat n)") auto
  have "is_digit c" using show_nat_digits [of "nat n"] c by simp
  then have "c \<noteq> CHR ''-''" by (auto simp: is_digit_def)
  then show ?thesis using False c show_nat_digits [of "nat n"] read_show_nat [of "nat n"] by (simp add: show_int_def lua_tonumber_def)
qed

lemma before_colon_append [simp]: "colon \<notin> set xs \<Longrightarrow> before_colon (xs @ colon # ys) = xs"
  by (simp add: before_colon_def index_of_append)

lemma amount_text_reservation: "amount_text a (reservation_text a e t)"
  by (simp add: amount_text_def reservation_text_def not_colon_show_int)

lemma index_of_before_colon: "index_of colon v = Some i \<Longrightarrow> take i v = before_colon v"
  by (simp add: before_colon_def)

lemma before_colon_clean: "colon \<notin> set (before_colon v)"
proof (cases "index_of colon v")
  case None
  then have "colon \<notin> set v" by (simp add: index_of_None)
  then show ?thesis using None by (simp add: before_colon_def)
next
  case (Some i)
  then show ?thesis using index_of_Some [OF Some] by (simp add: before_colon_def)
qed

lemma amount_text_refresh: "amount_text a v \<Longrightarrow> amount_text a (before_colon v @ colon # xs)"
  by (simp add: amount_text_def before_colon_clean)

text \<open>Removing the fields \<open>D\<close> and nothing else.\<close>

definition swept_to :: "'s redis_api \<Rightarrow> string \<Rightarrow> string set \<Rightarrow> 's \<Rightarrow> 's \<Rightarrow> bool" where
  "swept_to R key D s s' \<longleftrightarrow>
     map_of (rx_HGETALL R s' key) = map_of (rx_HGETALL R s key) |` (- D) \<and> (\<forall>k. rx_GET R s' k = rx_GET R s k) \<and>
     (\<forall>k. k \<noteq> key \<longrightarrow> rx_HGETALL R s' k = rx_HGETALL R s k)"

lemma swept_to_refl: "swept_to R key {} s s"
  by (simp add: swept_to_def restrict_map_def)

lemma swept_to_HDEL:
  assumes "redis_laws R" and "rx_GET R s key = None" and "swept_to R key D (rx_HDEL R s key f) s'"
  shows "swept_to R key (insert f D) s s'"
  using assms redis_hash_rules [OF assms(1)] unfolding swept_to_def by (auto simp: restrict_map_def fun_eq_iff)

definition amount_of :: "admissions \<Rightarrow> string \<Rightarrow> int" where
  "amount_of A rid = (case A rid of Some (i, a, keys) \<Rightarrow> a | None \<Rightarrow> 0)"

lemma fields_ok_Cons:
  assumes "fields_ok A (map_of ((k, v) # fs))" and "k \<notin> fst ` set fs"
  shows "fields_ok A (map_of fs)" and "k \<noteq> total_field \<Longrightarrow> amount_text (amount_of A k) v"
proof -
  have none: "map_of fs k = None" using assms(2) by (simp add: map_of_eq_None_iff)
  show "fields_ok A (map_of fs)"
    unfolding fields_ok_def
  proof (intro conjI allI impI)
    show "A total_field = None" using assms(1) by (simp add: fields_ok_def)
    fix rid v' assume rid: "map_of fs rid = Some v'" "rid \<noteq> total_field"
    then have "map_of ((k, v) # fs) rid = Some v'" using none by auto
    then show "\<exists>i a keys. A rid = Some (i, a, keys) \<and> amount_text a v'" using assms(1) rid(2) unfolding fields_ok_def by blast
  qed
  assume "k \<noteq> total_field"
  moreover have "map_of ((k, v) # fs) k = Some v" by simp
  ultimately obtain i a keys where "A k = Some (i, a, keys)" "amount_text a v" using assms(1) unfolding fields_ok_def by blast
  then show "amount_text (amount_of A k) v" by (simp add: amount_of_def)
qed

lemma sweep_result:
  assumes R: "redis_laws R" and "rx_GET R s key = None" and "jm_ok fs" and "fields_ok A (map_of fs)"
  shows "\<exists>D. D \<subseteq> fst ` set fs - {total_field} \<and> swept_to R key D s (snd (sweep_fields R key now fs r s)) \<and>
    fst (sweep_fields R key now fs r s) = r + (\<Sum>rid\<in>fst ` set fs - {total_field} - D. amount_of A rid)"
  using assms(2-)
proof (induction fs arbitrary: r s)
  case Nil
  show ?case by (rule exI [of _ "{}"]) (simp add: swept_to_refl)
next
  case (Cons f fs)
  obtain k v where f: "f = (k, v)" by (cases f)
  have k: "k \<notin> fst ` set fs" and ok: "jm_ok fs" using Cons.prems(2) by (auto simp: f)
  note fs = ok fields_ok_Cons(1) [OF Cons.prems(3) [unfolded f] k]
  have gone: "\<exists>D. D \<subseteq> fst ` set (f # fs) - {total_field} \<and> swept_to R key D s (snd (sweep_fields R key now fs r (rx_HDEL R s key k))) \<and>
      fst (sweep_fields R key now fs r (rx_HDEL R s key k)) = r + (\<Sum>rid\<in>fst ` set (f # fs) - {total_field} - D. amount_of A rid)" if nt: "k \<noteq> total_field"
  proof -
    have "rx_GET R (rx_HDEL R s key k) key = None" using redis_hash_rules(9) [OF R] Cons.prems(1) by simp
    from Cons.IH [OF this fs, of r] obtain D where D: "D \<subseteq> fst ` set fs - {total_field}"
      "swept_to R key D (rx_HDEL R s key k) (snd (sweep_fields R key now fs r (rx_HDEL R s key k)))"
      "fst (sweep_fields R key now fs r (rx_HDEL R s key k)) = r + (\<Sum>rid\<in>fst ` set fs - {total_field} - D. amount_of A rid)" by blast
    have "fst ` set (f # fs) - {total_field} - insert k D = fst ` set fs - {total_field} - D" using k by (auto simp: f)
    with D swept_to_HDEL [OF R Cons.prems(1) D(2)] nt show ?thesis by (intro exI [of _ "insert k D"]) (auto simp: f)
  qed
  have kept: "\<exists>D. D \<subseteq> fst ` set (f # fs) - {total_field} \<and> swept_to R key D s (snd (sweep_fields R key now fs (r + a) s)) \<and>
      fst (sweep_fields R key now fs (r + a) s) = r + (\<Sum>rid\<in>fst ` set (f # fs) - {total_field} - D. amount_of A rid)"
    if a: "a = (if k = total_field then 0 else amount_of A k)" for a
  proof -
    from Cons.IH [OF Cons.prems(1) fs, of "r + a"] obtain D where D: "D \<subseteq> fst ` set fs - {total_field}"
      "swept_to R key D s (snd (sweep_fields R key now fs (r + a) s))"
      "fst (sweep_fields R key now fs (r + a) s) = r + a + (\<Sum>rid\<in>fst ` set fs - {total_field} - D. amount_of A rid)" by blast
    let ?S = "fst ` set fs - {total_field} - D"
    have eq: "fst ` set (f # fs) - {total_field} - D = (if k = total_field then ?S else insert k ?S)" using k D(1) by (auto simp: f)
    have "sum (amount_of A) (insert k ?S) = amount_of A k + sum (amount_of A) ?S" using k by (intro sum.insert) auto
    then have "sum (amount_of A) (fst ` set (f # fs) - {total_field} - D) = a + sum (amount_of A) ?S" unfolding eq using a by simp
    with D show ?thesis by (intro exI [of _ D]) (auto simp: f)
  qed
  show ?case
  proof (cases "k = total_field")
    case True
    then show ?thesis using kept [of 0] by (simp add: f)
  next
    case False
    then have v: "amount_text (amount_of A k) v" using fields_ok_Cons(2) Cons.prems(3) k f by blast
    then obtain i where i: "index_of colon v = Some i" by (auto simp: amount_text_def dest: index_of_None [THEN iffD1] split: option.split) (metis index_of_None option.exhaust)
    have "lua_tonumber (take i v) = Some (amount_of A k)" using v index_of_before_colon [OF i] by (simp add: amount_text_def)
    then show ?thesis using False i gone kept [of "amount_of A k"] by (auto simp: f split: option.split)
  qed
qed

section \<open>Every step keeps the invariant\<close>

lemma reserve_windows_caps:
  "reserve_windows R reserved worst s i ws best = Inr b \<Longrightarrow> (k, cap) \<in> set ws \<Longrightarrow> reserved + count R s k + worst \<le> cap"
  by (induction R reserved worst s i ws best rule: reserve_windows.induct) (auto simp: Let_def count_def split: if_splits)

lemma reserve_windows_index:
  "reserve_windows R reserved worst s i ws best = Inr b \<Longrightarrow> lb_idx b = lb_idx best \<or> i \<le> lb_idx b \<and> lb_idx b < i + length ws"
  "reserve_windows R reserved worst s i ws best = Inl (j, used, cap) \<Longrightarrow> i \<le> j \<and> j < i + length ws"
  by (induction R reserved worst s i ws best rule: reserve_windows.induct) (force simp: Let_def split: if_splits)+

lemma finite_field_names [simp]: "finite (field_names R scope s)"
  by (rule finite_dom_map_of)

lemma held_le_amount: "counts_ok R scope s A \<Longrightarrow> held A K rid \<le> amount_of A rid"
  by (auto simp: held_def amount_of_def dest: counts_amount split: option.split)

lemma sum_held_mono:
  assumes "counts_ok R scope s A" and "A total_field = None" and "finite F" and "S \<subseteq> insert total_field F"
  shows "(\<Sum>rid\<in>S. held A K rid) \<le> (\<Sum>rid\<in>F. held A K rid)"
proof -
  have "(\<Sum>rid\<in>S. held A K rid) \<le> (\<Sum>rid\<in>insert total_field F. held A K rid)"
    using assms held_nonneg [OF assms(1)] by (intro sum_mono2) auto
  also have "\<dots> = (\<Sum>rid\<in>F. held A K rid)" using assms(2,3) by (cases "total_field \<in> F") (simp_all add: insert_absorb held_def)
  finally show ?thesis .
qed

lemma kinds_ok_later: "redis_laws R \<Longrightarrow> rx_later R s s' \<Longrightarrow> kinds_ok R scope s \<Longrightarrow> kinds_ok R scope s'"
  unfolding kinds_ok_def using redis_expiry_rules(6,7) by metis

lemma run_ok_later:
  assumes R: "redis_laws R" and later: "rx_later R s s'" and ok: "run_ok R scope ws M s A X"
  shows "run_ok R scope ws M s' A X"
proof -
  have counts: "counts_ok R scope s A" and kinds: "kinds_ok R scope s" and A: "A total_field = None" using ok by (auto simp: run_ok_def fields_ok_def)
  have less: "count R s' k = count R s k \<or> count R s' k = 0" for k using redis_expiry_rules(6) [OF R later, of k] by (auto simp: count_def)
  have fields: "map_of (rx_HGETALL R s' (reservedKey scope)) = map_of (rx_HGETALL R s (reservedKey scope)) \<or> map_of (rx_HGETALL R s' (reservedKey scope)) = Map.empty"
    using redis_expiry_rules(7) [OF R later, of "reservedKey scope"] by auto
  have counts': "counts_ok R scope s' A" using counts less unfolding counts_ok_def by (metis order_refl)
  have "caps_ok R scope ws s' A X"
    unfolding caps_ok_def
  proof (intro conjI allI impI)
    show "0 \<le> X K" for K using ok by (simp add: run_ok_def caps_ok_def)
    fix w d assume "w \<in> set ws"
    let ?K = "committedKey scope (bw_period w) d"
    have "count R s' ?K \<le> count R s ?K" using less [of ?K] counts by (auto simp: counts_ok_def)
    moreover have "(\<Sum>rid\<in>field_names R scope s'. held A ?K rid) \<le> (\<Sum>rid\<in>field_names R scope s. held A ?K rid)"
      using fields by (intro sum_held_mono [OF counts A]) auto
    moreover have "count R s ?K + (\<Sum>rid\<in>field_names R scope s. held A ?K rid) \<le> bw_capMicroUsd w + X ?K"
      using ok \<open>w \<in> set ws\<close> by (auto simp: run_ok_def caps_ok_def)
    ultimately show "count R s' ?K + (\<Sum>rid\<in>field_names R scope s'. held A ?K rid) \<le> bw_capMicroUsd w + X ?K" by linarith
  qed
  moreover have "fields_ok A (map_of (rx_HGETALL R s' (reservedKey scope)))" using fields ok by (auto simp: run_ok_def fields_ok_def)
  ultimately show ?thesis using ok counts' kinds_ok_later [OF R later kinds] by (simp add: run_ok_def)
qed

text \<open>A script that leaves every counter and everything outside the reservations alone.\<close>

definition only_fields :: "'s redis_api \<Rightarrow> string \<Rightarrow> 's \<Rightarrow> 's \<Rightarrow> (string \<rightharpoonup> string) \<Rightarrow> bool" where
  "only_fields R scope s s' F \<longleftrightarrow>
     (\<forall>k. rx_GET R s' k = rx_GET R s k) \<and> (\<forall>k. k \<noteq> reservedKey scope \<longrightarrow> rx_HGETALL R s' k = rx_HGETALL R s k) \<and> map_of (rx_HGETALL R s' (reservedKey scope)) = F"

lemma only_fields_kinds: "only_fields R scope s s' F \<Longrightarrow> kinds_ok R scope s \<Longrightarrow> kinds_ok R scope s'"
  by (simp add: only_fields_def kinds_ok_def)

lemma only_fields_count: "only_fields R scope s s' F \<Longrightarrow> count R s' k = count R s k"
  by (simp add: only_fields_def count_def)

lemma only_fields_counts: "only_fields R scope s s' F \<Longrightarrow> counts_ok R scope s A \<Longrightarrow> counts_ok R scope s' A"
  by (simp add: counts_ok_def only_fields_count)

lemma only_fields_HSET:
  assumes "redis_laws R" and "kinds_ok R scope s" and "only_fields R scope s0 s F"
  shows "only_fields R scope s0 (rx_HSET R s (reservedKey scope) f v) (F(f \<mapsto> v))"
  using assms redis_hash_rules(2,5,8) [OF assms(1)] unfolding only_fields_def kinds_ok_def by (auto simp: fun_eq_iff)

lemma only_fields_EXPIRE:
  assumes "redis_laws R" and "0 < t" and "only_fields R scope s0 s F"
  shows "only_fields R scope s0 (rx_EXPIRE R s (reservedKey scope) t) F"
  using assms redis_expiry_rules(2,3) [OF assms(1)] unfolding only_fields_def by auto

lemma redis_reserve_lua:
  assumes "reserve_lua R (reservedKey scope) rid worst now life
      (map (\<lambda>w. (committedKey scope (bw_period w) now, bw_capMicroUsd w, reservedTtl (bw_period w) now)) (bs_windows spec)) s = ((allowed, idx, used, cap), s1)"
    and "idx - 1 < length (bs_windows spec)"
  shows "redis_reserve R (Inr (Some (Spec spec))) life now scope rid worst (m, s) =
    (Inr (Some \<lparr>bd_allowed = allowed, bd_capMicroUsd = cap, bd_usedMicroUsd = used, bd_window = windowInfo (bw_period (bs_windows spec ! (idx - 1))) now\<rparr>),
     if allowed then remember life scope rid \<lparr>rl_windows = map (layout_of scope now) (bs_windows spec), rl_at = now\<rparr> m else m, s1)"
  using assms by (simp add: redis_reserve_def Let_def)

text \<open>What a reserve does: the fields it sweeps, the decision, and the field it adds.\<close>

lemma reserve_effect:
  assumes R: "redis_laws R" and ok: "run_ok R scope (bs_windows spec) M s A X" and ne: "bs_windows spec \<noteq> []"
    and run: "redis_reserve R (Inr (Some (Spec spec))) life now scope rid worst (M i, s) = (res, m', s')"
  obtains D where "total_field \<notin> D" and "\<not> admitted res" and "m' = M i"
      and "\<exists>t. only_fields R scope s s' ((map_of (rx_HGETALL R s (reservedKey scope)) |` (- D))(total_field \<mapsto> t))"
    | D where "total_field \<notin> D" and "admitted res" and "m' = remember life scope rid \<lparr>rl_windows = map (layout_of scope now) (bs_windows spec), rl_at = now\<rparr> (M i)"
      and "\<exists>t e u. only_fields R scope s s' ((map_of (rx_HGETALL R s (reservedKey scope)) |` (- D))(rid \<mapsto> reservation_text worst e u, total_field \<mapsto> t))"
      and "\<forall>w\<in>set (bs_windows spec). (\<Sum>r\<in>field_names R scope s - {total_field} - D. amount_of A r) + count R s (committedKey scope (bw_period w) now) + worst \<le> bw_capMicroUsd w"
proof -
  let ?key = "reservedKey scope"
  have kinds: "kinds_ok R scope s" and F: "fields_ok A (map_of (rx_HGETALL R s ?key))" using ok by (auto simp: run_ok_def)
  have get: "rx_GET R s ?key = None" using kinds by (simp add: kinds_ok_def)
  obtain reserved s1 where sw: "sweep_fields R ?key now (rx_HGETALL R s ?key) 0 s = (reserved, s1)" by (cases "sweep_fields R ?key now (rx_HGETALL R s ?key) 0 s")
  obtain D where D: "D \<subseteq> fst ` set (rx_HGETALL R s ?key) - {total_field}" "swept_to R ?key D s s1"
    "reserved = (\<Sum>r\<in>field_names R scope s - {total_field} - D. amount_of A r)"
    using sweep_result [OF R get redis_hash_rules(1) [OF R] F, of now 0] sw by (auto simp: dom_map_of_conv_image_fst)
  have o1: "only_fields R scope s s1 (map_of (rx_HGETALL R s ?key) |` (- D))" using D(2) by (auto simp: swept_to_def only_fields_def)
  let ?ws = "map (\<lambda>w. (committedKey scope (bw_period w) now, bw_capMicroUsd w, reservedTtl (bw_period w) now)) (bs_windows spec)"
  let ?W = "map (\<lambda>w. (committedKey scope (bw_period w) now, bw_capMicroUsd w)) (bs_windows spec)"
  let ?best = "\<lparr>lb_idx = 1, lb_used = 0, lb_cap = 1, lb_ratio = Num (- 1)\<rparr>"
  have W: "map (\<lambda>(k, cap, ttl). (k, cap)) ?ws = ?W" by (simp add: comp_def)
  have nt: "total_field \<notin> D" using D(1) by auto
  show ?thesis
  proof (cases "reserve_windows R reserved worst s1 1 ?W ?best")
    case (Inl a)
    obtain j used cap where a: "a = (j, used, cap)" by (cases a) auto
    have j: "j - 1 < length (bs_windows spec)" using reserve_windows_index(2) [of R reserved worst s1 1 ?W ?best j used cap] Inl a by auto
    have lua: "reserve_lua R ?key rid worst now life ?ws s = ((False, j, used, cap), rx_HSET R s1 ?key total_field (show_int reserved))"
      unfolding reserve_lua_def sw W Let_def prod.case Inl a sum.case by simp
    have "\<not> admitted res" "m' = M i" "s' = rx_HSET R s1 ?key total_field (show_int reserved)"
      using run unfolding redis_reserve_lua [OF lua j] by (auto simp: admitted_def)
    then show ?thesis using that(1) [OF nt] only_fields_HSET [OF R only_fields_kinds [OF o1 kinds] o1] by blast
  next
    case (Inr b)
    define t where "t = foldl max 0 (map (snd \<circ> snd) ?ws)"
    let ?s2 = "rx_HSET R s1 ?key rid (reservation_text worst (now + life) t)"
    let ?s3 = "rx_HSET R ?s2 ?key total_field (show_int (reserved + worst))"
    have j: "lb_idx b - 1 < length (bs_windows spec)" using reserve_windows_index(1) [of R reserved worst s1 1 ?W ?best b] Inr ne by auto
    have lua: "reserve_lua R ?key rid worst now life ?ws s = ((True, lb_idx b, lb_used b, lb_cap b), if 0 < t then rx_EXPIRE R ?s3 ?key t else ?s3)"
      unfolding reserve_lua_def sw W Let_def prod.case Inr sum.case t_def by simp
    have res: "admitted res" "m' = remember life scope rid \<lparr>rl_windows = map (layout_of scope now) (bs_windows spec), rl_at = now\<rparr> (M i)"
      "s' = (if 0 < t then rx_EXPIRE R ?s3 ?key t else ?s3)"
      using run unfolding redis_reserve_lua [OF lua j] by (auto simp: admitted_def)
    have o2: "only_fields R scope s ?s2 ((map_of (rx_HGETALL R s ?key) |` (- D))(rid \<mapsto> reservation_text worst (now + life) t))"
      by (rule only_fields_HSET [OF R only_fields_kinds [OF o1 kinds] o1])
    have o3: "only_fields R scope s ?s3 ((map_of (rx_HGETALL R s ?key) |` (- D))(rid \<mapsto> reservation_text worst (now + life) t, total_field \<mapsto> show_int (reserved + worst)))"
      by (rule only_fields_HSET [OF R only_fields_kinds [OF o2 kinds] o2])
    have o4: "only_fields R scope s s' ((map_of (rx_HGETALL R s ?key) |` (- D))(rid \<mapsto> reservation_text worst (now + life) t, total_field \<mapsto> show_int (reserved + worst)))"
      using o3 only_fields_EXPIRE [OF R _ o3] res(3) by auto
    have "reserved + count R s (committedKey scope (bw_period w) now) + worst \<le> bw_capMicroUsd w" if "w \<in> set (bs_windows spec)" for w
      using reserve_windows_caps [OF Inr, of "committedKey scope (bw_period w) now" "bw_capMicroUsd w"] that only_fields_count [OF o1] by auto
    then show ?thesis using that(2) [OF nt res(1,2)] o4 D(3) by blast
  qed
qed

lemma remember_ok:
  assumes "jm_ok m"
  shows "jm_ok (remember life scope rid l m)" and "jm_get (remember life scope rid l m) (scope, rid) = Some l"
    and "jm_get (remember life scope rid l m) k = Some l' \<Longrightarrow> k \<noteq> (scope, rid) \<Longrightarrow> jm_get m k = Some l'"
proof -
  have pruned: "jm_ok m \<Longrightarrow> jm_ok (prune_layouts h m) \<and> set (prune_layouts h m) \<subseteq> set m" for h m
    by (induction h m rule: prune_layouts.induct) auto
  let ?m = "if MAX_LAYOUTS \<le> length m then prune_layouts (rl_at l - life) m else m"
  have m: "jm_ok ?m" "set ?m \<subseteq> set m" using pruned [OF assms] assms by auto
  show "jm_ok (remember life scope rid l m)" "jm_get (remember life scope rid l m) (scope, rid) = Some l"
    using m(1) unfolding remember_def by (auto simp: jm_get_set intro: jm_ok_set)
  assume "jm_get (remember life scope rid l m) k = Some l'" "k \<noteq> (scope, rid)"
  then have "(k, l') \<in> set ?m" unfolding remember_def by (auto simp: jm_get_set dest: map_of_SomeD split: if_splits)
  then show "jm_get m k = Some l'" using m(2) assms by (auto simp: map_of_eq_Some_iff)
qed

lemma run_ok_rejected:
  assumes ok: "run_ok R scope ws M s A X" and D: "total_field \<notin> D"
    and o: "only_fields R scope s s' ((map_of (rx_HGETALL R s (reservedKey scope)) |` (- D))(total_field \<mapsto> t))"
  shows "run_ok R scope ws M s' A X"
proof -
  have counts: "counts_ok R scope s A" and kinds: "kinds_ok R scope s" and F: "fields_ok A (map_of (rx_HGETALL R s (reservedKey scope)))"
    using ok by (auto simp: run_ok_def)
  have A: "A total_field = None" using F by (simp add: fields_ok_def)
  have names: "field_names R scope s' \<subseteq> insert total_field (field_names R scope s)" using o by (auto simp: only_fields_def restrict_map_def split: if_splits)
  have "caps_ok R scope ws s' A X"
    using ok sum_held_mono [OF counts A finite_field_names names] only_fields_count [OF o] unfolding run_ok_def caps_ok_def by (smt (verit))
  moreover have "fields_ok A (map_of (rx_HGETALL R s' (reservedKey scope)))"
    using F o unfolding fields_ok_def only_fields_def by (auto simp: restrict_map_def split: if_splits)
  ultimately show ?thesis using ok only_fields_kinds [OF o kinds] only_fields_counts [OF o counts] by (simp add: run_ok_def)
qed

lemma sum_held_admit:
  assumes counts: "counts_ok R scope s A" and A: "A total_field = None" and F: "finite F" "S \<subseteq> insert total_field (insert rid F)" "rid \<noteq> total_field"
    and w: "0 \<le> worst"
  shows "(\<Sum>r\<in>S. held (A(rid \<mapsto> (i, worst, keys))) K r) \<le> (if K \<in> set keys then worst else 0) + (\<Sum>r\<in>F - {total_field}. held A K r)"
proof -
  let ?A = "A(rid \<mapsto> (i, worst, keys))" and ?G = "F - {total_field} - {rid}"
  have new: "held ?A K rid = (if K \<in> set keys then worst else 0)" by (simp add: held_def)
  have old: "held ?A K r = held A K r" if "r \<noteq> rid" for r using that by (simp add: held_def)
  have nonneg: "0 \<le> held ?A K r" for r using new old held_nonneg [OF counts, of K r] w by (cases "r = rid") auto
  have "(\<Sum>r\<in>S. held ?A K r) \<le> (\<Sum>r\<in>insert total_field (insert rid ?G). held ?A K r)"
    using F(1,2) nonneg by (intro sum_mono2) auto
  also have "\<dots> = held ?A K total_field + (held ?A K rid + (\<Sum>r\<in>?G. held ?A K r))"
  proof -
    have "rid \<notin> ?G" and G: "finite ?G" and "total_field \<notin> insert rid ?G" and G': "finite (insert rid ?G)" using F(1,3) by auto
    then show ?thesis using sum.insert [OF G, of rid "held ?A K"] sum.insert [OF G', of total_field "held ?A K"] by (simp only: simp_thms if_False)
  qed
  also have "(\<Sum>r\<in>?G. held ?A K r) = (\<Sum>r\<in>?G. held A K r)" by (rule sum.cong [OF refl], rule old) auto
  also have "held ?A K total_field = 0" using A F(3) by (simp add: held_def)
  finally have "(\<Sum>r\<in>S. held ?A K r) \<le> (if K \<in> set keys then worst else 0) + (\<Sum>r\<in>?G. held A K r)" using new by (simp del: fun_upd_apply)
  moreover have "(\<Sum>r\<in>?G. held A K r) \<le> (\<Sum>r\<in>F - {total_field}. held A K r)"
    using F(1) held_nonneg [OF counts] by (intro sum_mono2) auto
  ultimately show ?thesis by linarith
qed

lemma layouts_ok_remember:
  assumes "layouts_ok scope M" and "keys_ok scope (map lw_key (rl_windows l))"
  shows "layouts_ok scope (M(i := remember life scope rid l (M i)))"
  unfolding layouts_ok_def
proof (intro conjI allI impI)
  have M: "jm_ok (M j)" for j using assms(1) by (simp add: layouts_ok_def)
  note rem = remember_ok [OF M, of life scope rid l i]
  show "jm_ok ((M(i := remember life scope rid l (M i))) j)" for j using M rem(1) by simp
  fix r j l' assume l': "jm_get ((M(i := remember life scope rid l (M i))) j) (scope, r) = Some l'"
  show "keys_ok scope (map lw_key (rl_windows l'))"
  proof (cases "j = i \<and> r = rid")
    case True
    then show ?thesis using l' rem(2) assms(2) by simp
  next
    case False
    then have "jm_get (M j) (scope, r) = Some l'" using l' rem(3) [of "(scope, r)" l'] by (cases "j = i") auto
    then show ?thesis using assms(1) unfolding layouts_ok_def by blast
  qed
qed

lemma keys_ok_windows: "wf_windows ws \<Longrightarrow> keys_ok scope (map (\<lambda>w. committedKey scope (bw_period w) d) ws)"
  using wf_windows_key [of ws _ _ scope d d] by (auto simp: keys_ok_def distinct_map inj_on_def wf_windows_def)

lemma run_ok_admitted:
  assumes ok: "run_ok R scope ws M s A X" and wf: "wf_windows ws" and D: "total_field \<notin> D" and rid: "rid \<noteq> total_field" "0 \<le> worst"
    and o: "only_fields R scope s s' ((map_of (rx_HGETALL R s (reservedKey scope)) |` (- D))(rid \<mapsto> reservation_text worst e u, total_field \<mapsto> t))"
    and fits: "\<forall>w\<in>set ws. (\<Sum>r\<in>field_names R scope s - {total_field} - D. amount_of A r) + count R s (committedKey scope (bw_period w) now) + worst \<le> bw_capMicroUsd w"
  shows "run_ok R scope ws (M(i := remember life scope rid \<lparr>rl_windows = map (layout_of scope now) ws, rl_at = now\<rparr> (M i))) s'
    (A(rid \<mapsto> (i, worst, map (\<lambda>w. committedKey scope (bw_period w) now) ws))) X"
proof -
  let ?keys = "map (\<lambda>w. committedKey scope (bw_period w) now) ws"
  let ?A = "A(rid \<mapsto> (i, worst, ?keys))"
  let ?F = "field_names R scope s - D"
  have counts: "counts_ok R scope s A" and kinds: "kinds_ok R scope s" and F: "fields_ok A (map_of (rx_HGETALL R s (reservedKey scope)))" and lay: "layouts_ok scope M"
    and X: "\<And>K. 0 \<le> X K"
    using ok by (auto simp: run_ok_def caps_ok_def)
  have At: "A total_field = None" using F by (simp add: fields_ok_def)
  have counts': "counts_ok R scope s' ?A"
    using only_fields_counts [OF o counts] rid(2) unfolding counts_ok_def by auto
  have names: "field_names R scope s' \<subseteq> insert total_field (insert rid ?F)" using o by (auto simp: only_fields_def restrict_map_def split: if_splits)
  have "caps_ok R scope ws s' ?A X"
    unfolding caps_ok_def
  proof (intro conjI allI impI)
    show "0 \<le> X K" for K by (rule X)
    fix w d assume w: "w \<in> set ws"
    let ?K = "committedKey scope (bw_period w) d"
    have le: "(\<Sum>r\<in>field_names R scope s'. held ?A ?K r) \<le> (if ?K \<in> set ?keys then worst else 0) + (\<Sum>r\<in>?F - {total_field}. held A ?K r)"
      using rid by (intro sum_held_admit [OF counts At _ names]) auto
    have old: "(\<Sum>r\<in>?F - {total_field}. held A ?K r) \<le> (\<Sum>r\<in>field_names R scope s. held A ?K r)"
      by (rule sum_held_mono [OF counts At finite_field_names]) auto
    show "count R s' ?K + (\<Sum>r\<in>field_names R scope s'. held ?A ?K r) \<le> bw_capMicroUsd w + X ?K"
    proof (cases "?K \<in> set ?keys")
      case True
      then obtain w' where w': "w' \<in> set ws" "?K = committedKey scope (bw_period w') now" by auto
      have "w = w'" by (rule wf_windows_key [OF wf w w'(1)]) (use w'(2) in simp)
      then have "(\<Sum>r\<in>field_names R scope s - {total_field} - D. amount_of A r) + count R s ?K + worst \<le> bw_capMicroUsd w" using fits w w'(2) by auto
      moreover have "(\<Sum>r\<in>?F - {total_field}. held A ?K r) \<le> (\<Sum>r\<in>?F - {total_field}. amount_of A r)"
        using held_le_amount [OF counts] by (intro sum_mono)
      moreover have "?F - {total_field} = field_names R scope s - {total_field} - D" by auto
      ultimately show ?thesis using le True only_fields_count [OF o, of ?K] X [of ?K] by simp
    next
      case False
      moreover have "count R s ?K + (\<Sum>r\<in>field_names R scope s. held A ?K r) \<le> bw_capMicroUsd w + X ?K" using ok w by (auto simp: run_ok_def caps_ok_def)
      ultimately show ?thesis using le old only_fields_count [OF o, of ?K] by simp
    qed
  qed
  moreover have "fields_ok ?A (map_of (rx_HGETALL R s' (reservedKey scope)))"
    using F o rid(1) amount_text_reservation [of worst e u] unfolding fields_ok_def only_fields_def by (auto simp: restrict_map_def split: if_splits)
  moreover have "layouts_ok scope (M(i := remember life scope rid \<lparr>rl_windows = map (layout_of scope now) ws, rl_at = now\<rparr> (M i)))"
    by (rule layouts_ok_remember [OF lay]) (use keys_ok_windows [OF wf, of scope now] in \<open>simp add: layout_of_def comp_def\<close>)
  ultimately show ?thesis using only_fields_kinds [OF o kinds] counts' by (simp add: run_ok_def)
qed

text \<open>Booking the spend in the counters of a layout.\<close>

lemma commit_window_effect:
  assumes R: "redis_laws R" and h: "rx_HGETALL R s (lw_key w) = []" and a: "0 \<le> actual"
  shows "rx_HGETALL R (commit_window R fresh actual s w) k = rx_HGETALL R s k"
    and "k \<noteq> lw_key w \<Longrightarrow> rx_GET R (commit_window R fresh actual s w) k = rx_GET R s k"
    and "0 \<le> count R s (lw_key w) \<Longrightarrow> 0 \<le> count R (commit_window R fresh actual s w) (lw_key w) \<and>
      count R (commit_window R fresh actual s w) (lw_key w) \<le> count R s (lw_key w) + (if fresh then actual else 0)"
proof -
  define s1 where "s1 = (if fresh \<and> (0 < actual \<or> rx_EXISTS R s (lw_key w)) then rx_INCRBY R s (lw_key w) actual else s)"
  have s1: "rx_HGETALL R s1 k' = rx_HGETALL R s k'" "k' \<noteq> lw_key w \<Longrightarrow> rx_GET R s1 k' = rx_GET R s k'" for k'
    using redis_counter_rules(2,6) [OF R] h by (auto simp: s1_def)
  have c1: "count R s1 (lw_key w) = count R s (lw_key w) \<or> fresh \<and> count R s1 (lw_key w) = count R s (lw_key w) + actual"
    using redis_counter_rules(2) [OF R h] by (auto simp: s1_def count_def)
  have st: "rx_HGETALL R (stamp R w s1) k' = (if k' = lw_key w then [] else rx_HGETALL R s1 k')" "k' \<noteq> lw_key w \<Longrightarrow> rx_GET R (stamp R w s1) k' = rx_GET R s1 k'"
    "count R (stamp R w s1) (lw_key w) = count R s1 (lw_key w) \<or> count R (stamp R w s1) (lw_key w) = 0" for k'
    using redis_expiry_rules [OF R] s1(1) [of "lw_key w"] h by (auto simp: stamp_def count_def split: commit_mode.split)
  have eq: "commit_window R fresh actual s w = stamp R w s1" by (simp add: commit_window_def s1_def)
  show "rx_HGETALL R (commit_window R fresh actual s w) k = rx_HGETALL R s k" unfolding eq st(1) using s1(1) h by simp
  show "k \<noteq> lw_key w \<Longrightarrow> rx_GET R (commit_window R fresh actual s w) k = rx_GET R s k" unfolding eq using s1(2) st(2) by simp
  show "0 \<le> count R s (lw_key w) \<Longrightarrow> 0 \<le> count R (commit_window R fresh actual s w) (lw_key w) \<and>
      count R (commit_window R fresh actual s w) (lw_key w) \<le> count R s (lw_key w) + (if fresh then actual else 0)"
    unfolding eq using c1 st(3) a by auto
qed

lemma commit_windows_effect:
  assumes R: "redis_laws R" and a: "0 \<le> actual"
  shows "distinct (map lw_key ws) \<Longrightarrow> \<forall>w\<in>set ws. rx_HGETALL R s (lw_key w) = [] \<and> 0 \<le> count R s (lw_key w) \<Longrightarrow>
    (\<forall>k. rx_HGETALL R (foldl (commit_window R fresh actual) s ws) k = rx_HGETALL R s k) \<and>
    (\<forall>k. k \<notin> lw_key ` set ws \<longrightarrow> rx_GET R (foldl (commit_window R fresh actual) s ws) k = rx_GET R s k) \<and>
    (\<forall>k\<in>lw_key ` set ws. 0 \<le> count R (foldl (commit_window R fresh actual) s ws) k \<and>
      count R (foldl (commit_window R fresh actual) s ws) k \<le> count R s k + (if fresh then actual else 0))"
proof (induction ws arbitrary: s)
  case (Cons w ws)
  let ?s = "commit_window R fresh actual s w"
  have w: "rx_HGETALL R s (lw_key w) = []" "0 \<le> count R s (lw_key w)" using Cons.prems(2) by auto
  note eff = commit_window_effect [OF R w(1) a, where fresh = fresh]
  have other: "count R ?s k = count R s k" if "k \<noteq> lw_key w" for k using eff(2) [OF that] by (simp add: count_def)
  have "distinct (map lw_key ws)" "\<forall>v\<in>set ws. rx_HGETALL R ?s (lw_key v) = [] \<and> 0 \<le> count R ?s (lw_key v)"
    using Cons.prems eff(1) other by (auto simp: image_iff)
  note IH = Cons.IH [OF this]
  have "lw_key w \<notin> lw_key ` set ws" using Cons.prems(1) by simp
  then have "count R (foldl (commit_window R fresh actual) ?s ws) (lw_key w) = count R ?s (lw_key w)" using IH by (simp add: count_def)
  moreover have "\<forall>v\<in>set ws. count R ?s (lw_key v) = count R s (lw_key v)" using Cons.prems(1) other by (auto simp: image_iff)
  ultimately show ?case using IH eff w(2) by (auto simp: image_iff)
qed (simp add: a)

lemma commit_effect:
  assumes R: "redis_laws R" and kinds: "kinds_ok R scope s" and a: "0 \<le> actual" and t: "0 < dedupTtl" and d: "distinct (map lw_key ws)"
    and keys: "\<forall>K\<in>lw_key ` set ws. (\<exists>p d. K = committedKey scope p d) \<and> 0 \<le> count R s K"
    and s': "s' = commit_lua R (reservedKey scope) (commitIdKey scope rid) rid actual dedupTtl ws s"
  shows "g \<noteq> total_field \<Longrightarrow> rx_HGET R s' (reservedKey scope) g = (if g = rid then None else rx_HGET R s (reservedKey scope) g)"
    and "kinds_ok R scope s'"
    and "K \<in> lw_key ` set ws \<Longrightarrow> 0 \<le> count R s' K \<and> count R s' K \<le> count R s K + (if rx_EXISTS R s (commitIdKey scope rid) then 0 else actual)"
    and "K = committedKey scope p e \<Longrightarrow> K \<notin> lw_key ` set ws \<Longrightarrow> count R s' K = count R s K"
proof -
  let ?key = "reservedKey scope" and ?cid = "commitIdKey scope rid"
  define s1 where "s1 = snd (rx_SETNX R s ?cid (max 1 dedupTtl))"
  define fresh where "fresh = fst (rx_SETNX R s ?cid (max 1 dedupTtl))"
  have pair: "rx_SETNX R s ?cid (max 1 dedupTtl) = (fresh, s1)" by (simp add: s1_def fresh_def)
  define s2 where "s2 = foldl (commit_window R fresh actual) s1 ws"
  define s3 where "s3 = (case rx_HGET R s1 ?key rid of
      None \<Rightarrow> s2
    | Some v \<Rightarrow> (let u = rx_HDEL R s2 ?key rid; worst = (case lua_tonumber (before_colon v) of Some x \<Rightarrow> x | None \<Rightarrow> 0) in
        if 0 < worst then rx_HINCRBY R u ?key total_field (- worst) else u))"
  have s'': "s' = (if 0 < foldl max 0 (map lw_ttl ws) \<and> rx_EXISTS R s3 ?key then rx_EXPIRE R s3 ?key (foldl max 0 (map lw_ttl ws)) else s3)"
    unfolding s' commit_lua_def pair s3_def s2_def Let_def prod.case by (cases "rx_HGET R s1 ?key rid") simp_all
  have h1: "rx_HGETALL R s1 k = rx_HGETALL R s k" for k by (simp add: s1_def redis_counter_rules(7) [OF R])
  have g1: "rx_GET R s1 k = rx_GET R s k" if "k \<noteq> ?cid" for k using that redis_counter_rules(4) [OF R, of "max 1 dedupTtl" s ?cid k] by (simp add: s1_def)
  have c1: "count R s1 K = count R s K" if "K = committedKey scope p e" for K p e using g1 that by (simp add: count_def)
  have "\<forall>w\<in>set ws. rx_HGETALL R s1 (lw_key w) = [] \<and> 0 \<le> count R s1 (lw_key w)"
  proof
    fix w assume "w \<in> set ws"
    then obtain p e where "lw_key w = committedKey scope p e" "0 \<le> count R s (lw_key w)" using keys by blast
    then show "rx_HGETALL R s1 (lw_key w) = [] \<and> 0 \<le> count R s1 (lw_key w)" using h1 c1 kinds by (simp add: kinds_ok_def)
  qed
  note eff = commit_windows_effect [OF R a d this, of fresh, folded s2_def]
  have nk: "?key \<notin> lw_key ` set ws" using keys by force
  have g2: "rx_GET R s2 ?key = None" using eff nk g1 kinds by (simp add: kinds_ok_def)
  have f2: "rx_HGETALL R s2 k = rx_HGETALL R s k" for k using eff h1 by simp
  have g3: "rx_GET R s3 k = rx_GET R s2 k" for k using redis_hash_rules(9,10) [OF R] by (simp add: s3_def Let_def split: option.split)
  have h3: "k \<noteq> ?key \<Longrightarrow> rx_HGETALL R s3 k = rx_HGETALL R s k" for k
    using redis_hash_rules(6,7) [OF R] f2 by (simp add: s3_def Let_def split: option.split)
  have f3: "g \<noteq> total_field \<Longrightarrow> rx_HGET R s3 ?key g = (if g = rid then None else rx_HGET R s ?key g)" for g
    using redis_hash_rules(3,4,9) [OF R] g2 f2 h1 by (auto simp: s3_def Let_def split: option.split)
  have last: "rx_GET R s' k = rx_GET R s3 k" "rx_HGETALL R s' k = rx_HGETALL R s3 k" for k
    using redis_expiry_rules(2,3) [OF R] by (simp_all add: s'')
  have cnt: "count R s' k = count R s2 k" for k by (simp add: count_def last g3)
  show "g \<noteq> total_field \<Longrightarrow> rx_HGET R s' ?key g = (if g = rid then None else rx_HGET R s ?key g)" using f3 last by simp
  show "kinds_ok R scope s'" using kinds g2 g3 h3 last by (simp add: kinds_ok_def)
  show "0 \<le> count R s' K \<and> count R s' K \<le> count R s K + (if rx_EXISTS R s ?cid then 0 else actual)" if K: "K \<in> lw_key ` set ws"
  proof -
    obtain p e where "K = committedKey scope p e" using keys K by blast
    then have "count R s1 K = count R s K" using c1 by simp
    moreover have "0 \<le> count R s2 K \<and> count R s2 K \<le> count R s1 K + (if fresh then actual else 0)" using eff K by blast
    moreover have "fresh \<longleftrightarrow> \<not> rx_EXISTS R s ?cid" using redis_counter_rules(3) [OF R, of "max 1 dedupTtl"] by (simp add: fresh_def)
    ultimately show ?thesis using cnt by (simp split: if_splits)
  qed
  show "count R s' K = count R s K" if "K = committedKey scope p e" "K \<notin> lw_key ` set ws"
    using eff that cnt c1 by (simp add: count_def)
qed

lemma commit_layout_ok:
  assumes "layouts_ok scope M" and "wf_windows (bs_windows spec)" and "cap \<in> {Inl (), Inr None, Inr (Some (Spec spec))}"
    and "commitLayout cap now scope rid (M i) = (lws, m')"
  shows "keys_ok scope (map lw_key lws)" and "layouts_ok scope (M(i := m'))"
proof -
  have fresh: "keys_ok scope (map lw_key (map (layout_of scope now) (bs_windows spec)))"
    using keys_ok_windows [OF assms(2), of scope now] by (simp add: layout_of_def comp_def)
  have kept: "keys_ok scope (map lw_key (rl_windows l))" if "jm_get (M i) (scope, rid) = Some l" for l
    using assms(1) that by (auto simp: layouts_ok_def)
  show "keys_ok scope (map lw_key lws)"
  proof (cases "jm_get (M i) (scope, rid)")
    case None
    then show ?thesis using assms(3,4) fresh unfolding keys_ok_def by (fastforce simp: commitLayout_def)
  next
    case (Some l)
    then show ?thesis using assms(4) kept by (auto simp: commitLayout_def)
  qed
  show "layouts_ok scope (M(i := m'))"
    using assms(1,4) unfolding layouts_ok_def commitLayout_def
    by (auto simp: jm_get_delete split: option.splits sum.splits if_splits)
qed

lemma run_ok_commit:
  assumes R: "redis_laws R" and ok: "run_ok R scope ws M s A X" and rid: "rid \<noteq> total_field"
    and lws: "commitLayout cap now scope rid (M i) = (lws, m')" "keys_ok scope (map lw_key lws)" "layouts_ok scope (M(i := m'))"
    and run: "redis_commit R cap life now scope rid actual (M i, s) = (m', s')"
  shows "run_ok R scope ws (M(i := m')) s' (A(rid := None)) (\<lambda>K. X K + uncovered R scope s A rid actual lws K)"
proof -
  let ?A = "A(rid := None)" and ?a = "max 0 actual" and ?known = "rx_EXISTS R s (commitIdKey scope rid)"
  have counts: "counts_ok R scope s A" and kinds: "kinds_ok R scope s" and F: "fields_ok A (map_of (rx_HGETALL R s (reservedKey scope)))"
    and X: "\<And>K. 0 \<le> X K"
    using ok by (auto simp: run_ok_def caps_ok_def)
  have At: "A total_field = None" using F by (simp add: fields_ok_def)
  have s': "s' = commit_lua R (reservedKey scope) (commitIdKey scope rid) rid ?a (max 1 (ceil_div life 1000)) lws s"
    using run lws(1) by (simp add: redis_commit_def)
  have d: "distinct (map lw_key lws)" using lws(2) by (simp add: keys_ok_def)
  have good: "\<forall>K\<in>lw_key ` set lws. (\<exists>p d. K = committedKey scope p d) \<and> 0 \<le> count R s K"
    using lws(2) counts unfolding keys_ok_def counts_ok_def by fastforce
  have ttl: "0 \<le> ?a" "0 < max 1 (ceil_div life 1000)" by simp_all
  note eff = commit_effect [OF R kinds ttl d good s']
  have f: "rx_HGET R s' (reservedKey scope) g = (if g = rid then None else rx_HGET R s (reservedKey scope) g)" if "g \<noteq> total_field" for g
    using eff(1) that by simp
  have k': "kinds_ok R scope s'" using eff(2) by simp
  have ck: "0 \<le> count R s' K \<and> count R s' K \<le> count R s K + (if K \<in> lw_key ` set lws \<and> \<not> ?known then ?a else 0)" if "K = committedKey scope p e" for K p e
  proof (cases "K \<in> lw_key ` set lws")
    case True
    then show ?thesis using eff(3) [OF True] by (simp split: if_splits)
  next
    case False
    then show ?thesis using eff(4) [OF that False] counts that by (simp add: counts_ok_def)
  qed
  have names: "field_names R scope s' \<subseteq> insert total_field (field_names R scope s - {rid})" using f by (auto split: if_splits)
  have counts'': "counts_ok R scope s ?A" using counts by (auto simp: counts_ok_def)
  have counts': "counts_ok R scope s' ?A" using counts ck by (auto simp: counts_ok_def split: if_splits)
  have "caps_ok R scope ws s' ?A (\<lambda>K. X K + uncovered R scope s A rid actual lws K)"
    unfolding caps_ok_def
  proof (intro conjI allI impI)
    show "0 \<le> X K + uncovered R scope s A rid actual lws K" for K using X [of K] by (simp add: uncovered_def)
    fix w e assume w: "w \<in> set ws"
    let ?K = "committedKey scope (bw_period w) e"
    have "(\<Sum>r\<in>field_names R scope s'. held ?A ?K r) \<le> (\<Sum>r\<in>field_names R scope s - {rid}. held ?A ?K r)"
      using At by (intro sum_held_mono [OF counts'' _ _ names]) auto
    also have "\<dots> = (\<Sum>r\<in>field_names R scope s - {rid}. held A ?K r)" by (rule sum.cong) (auto simp: held_def)
    also have "\<dots> = (\<Sum>r\<in>field_names R scope s. held A ?K r) - covered R scope s A rid ?K"
      by (subst sum_diff1) (auto simp: covered_def)
    finally have sums: "(\<Sum>r\<in>field_names R scope s'. held ?A ?K r) \<le> (\<Sum>r\<in>field_names R scope s. held A ?K r) - covered R scope s A rid ?K" .
    moreover have "count R s ?K + (\<Sum>r\<in>field_names R scope s. held A ?K r) \<le> bw_capMicroUsd w + X ?K" using ok w by (auto simp: run_ok_def caps_ok_def)
    moreover have "(if ?K \<in> lw_key ` set lws \<and> \<not> ?known then ?a else 0) \<le> covered R scope s A rid ?K + uncovered R scope s A rid actual lws ?K"
      using held_nonneg [OF counts, of ?K rid] by (auto simp: uncovered_def covered_def)
    ultimately show "count R s' ?K + (\<Sum>r\<in>field_names R scope s'. held ?A ?K r) \<le> bw_capMicroUsd w + (X ?K + uncovered R scope s A rid actual lws ?K)"
      using ck [OF refl, of "bw_period w" e] by linarith
  qed
  moreover have "fields_ok ?A (map_of (rx_HGETALL R s' (reservedKey scope)))" using F f unfolding fields_ok_def by (auto split: if_splits)
  ultimately show ?thesis using k' counts' lws(3) by (simp add: run_ok_def)
qed

lemma run_ok_heal:
  assumes R: "redis_laws R" and ok: "run_ok R scope ws M s A X" and run: "healCommitted R now scope ledger (Inr p) s = ((healed, v), s')"
  shows "run_ok R scope ws M s' A (if healed then X(committedKey scope p now := X (committedKey scope p now) + max 0 ledger) else X)"
proof (cases "\<not> rx_EXISTS R s (committedKey scope p now) \<and> 0 < max 0 ledger")
  case False
  then have "s' = s \<and> \<not> healed" using run by (auto simp: healCommitted_def heal_lua_def Let_def split: if_splits)
  then show ?thesis using ok by simp
next
  case True
  let ?K = "committedKey scope p now"
  let ?s1 = "rx_SET R s ?K (max 0 ledger)"
  have e: "healed" "s' = (if 0 < snd (commitTtl p now) then rx_EXPIRE R ?s1 ?K (snd (commitTtl p now)) else ?s1)"
    using run True by (auto simp: healCommitted_def heal_lua_def Let_def)
  have kinds: "kinds_ok R scope s" and counts: "counts_ok R scope s A" using ok by (auto simp: run_ok_def)
  have h: "rx_HGETALL R s ?K = []" using kinds by (simp add: kinds_ok_def)
  have g: "rx_GET R s' k = (if k = ?K then Some (max 0 ledger) else rx_GET R s k)" for k
    using redis_counter_rules(1) [OF R h] redis_expiry_rules(2) [OF R] by (simp add: e(2))
  have hs: "rx_HGETALL R s' k = rx_HGETALL R s k" for k
    using redis_counter_rules(5) [OF R] redis_expiry_rules(3) [OF R] h by (simp add: e(2))
  have "rx_GET R s ?K = None" using True redis_expiry_rules(1) [OF R, of s ?K] by simp
  then have cnt: "count R s' k = (if k = ?K then count R s k + max 0 ledger else count R s k)" for k by (simp add: count_def g)
  have "kinds_ok R scope s'" using kinds hs g by (auto simp: kinds_ok_def)
  moreover have "counts_ok R scope s' A" using counts cnt by (auto simp: counts_ok_def)
  moreover have "caps_ok R scope ws s' A (X(?K := X ?K + max 0 ledger))"
    unfolding caps_ok_def
  proof (intro conjI allI impI)
    show "0 \<le> (X(?K := X ?K + max 0 ledger)) K" for K using ok by (auto simp: run_ok_def caps_ok_def intro: add_nonneg_nonneg)
    fix w d assume "w \<in> set ws"
    then have "count R s (committedKey scope (bw_period w) d) + (\<Sum>rid\<in>field_names R scope s. held A (committedKey scope (bw_period w) d) rid)
        \<le> bw_capMicroUsd w + X (committedKey scope (bw_period w) d)"
      using ok by (auto simp: run_ok_def caps_ok_def)
    then show "count R s' (committedKey scope (bw_period w) d) + (\<Sum>rid\<in>field_names R scope s'. held A (committedKey scope (bw_period w) d) rid)
        \<le> bw_capMicroUsd w + (X(?K := X ?K + max 0 ledger)) (committedKey scope (bw_period w) d)"
      unfolding hs cnt by (cases "committedKey scope (bw_period w) d = ?K") simp_all
  qed
  ultimately show ?thesis using ok e(1) hs by (simp add: run_ok_def)
qed

lemma run_ok_refresh:
  assumes R: "redis_laws R" and ok: "run_ok R scope ws M s A X" and rid: "rid \<noteq> total_field"
  shows "run_ok R scope ws M (redis_refresh R life now scope rid s) A X"
proof (cases "rx_HGET R s (reservedKey scope) rid")
  case None
  then show ?thesis using ok by (simp add: redis_refresh_def refresh_lua_def)
next
  case (Some raw)
  let ?s = "redis_refresh R life now scope rid s"
  let ?F = "map_of (rx_HGETALL R s (reservedKey scope))"
  have kinds: "kinds_ok R scope s" and counts: "counts_ok R scope s A" and F: "fields_ok A ?F" using ok by (auto simp: run_ok_def)
  have "only_fields R scope s s ?F" by (simp add: only_fields_def)
  then have set_field: "only_fields R scope s (rx_HSET R s (reservedKey scope) rid v) (?F(rid \<mapsto> v))" for v by (rule only_fields_HSET [OF R kinds])
  obtain xs where "?s = rx_HSET R s (reservedKey scope) rid (before_colon raw @ colon # xs)"
    using Some unfolding redis_refresh_def refresh_lua_def by (simp add: Let_def)
  then have o: "only_fields R scope s ?s (?F(rid \<mapsto> before_colon raw @ colon # xs))" using set_field by simp
  have raw: "\<exists>i a keys. A rid = Some (i, a, keys) \<and> amount_text a raw" using F Some rid unfolding fields_ok_def by blast
  have "fields_ok A (?F(rid \<mapsto> before_colon raw @ colon # xs))"
    unfolding fields_ok_def
  proof (intro conjI allI impI)
    show "A total_field = None" using F by (simp add: fields_ok_def)
    fix r v assume v: "(?F(rid \<mapsto> before_colon raw @ colon # xs)) r = Some v" and r: "r \<noteq> total_field"
    show "\<exists>i a keys. A r = Some (i, a, keys) \<and> amount_text a v"
    proof (cases "r = rid")
      case True
      then show ?thesis using raw v amount_text_refresh by fastforce
    next
      case False
      then have "?F r = Some v" using v by simp
      then show ?thesis using F r unfolding fields_ok_def by blast
    qed
  qed
  then have "fields_ok A (map_of (rx_HGETALL R ?s (reservedKey scope)))" using o by (simp add: only_fields_def)
  moreover have "field_names R scope ?s = field_names R scope s" using o Some by (auto simp: only_fields_def)
  then have "caps_ok R scope ws ?s A X" using ok only_fields_count [OF o] by (simp add: run_ok_def caps_ok_def)
  ultimately show ?thesis using ok only_fields_kinds [OF o kinds] only_fields_counts [OF o counts] by (simp add: run_ok_def)
qed

lemma run_ok_start:
  assumes "scope_fresh R scope s" and "list_all (\<lambda>w. 0 \<le> bw_capMicroUsd w) ws"
  shows "run_ok R scope ws (\<lambda>i. []) s Map.empty (\<lambda>K. 0)"
  using assms by (auto simp: scope_fresh_def run_ok_def kinds_ok_def fields_ok_def layouts_ok_def counts_ok_def caps_ok_def count_def list_all_iff)

lemma redis_run_ok:
  assumes "redis_run R scope spec life M s A X" and R: "redis_laws R" and wf: "wf_windows (bs_windows spec)"
  shows "run_ok R scope (bs_windows spec) M s A X"
  using assms(1)
proof induction
  case (run_start s)
  then show ?case using wf by (intro run_ok_start) (auto simp: wf_windows_def)
next
  case (run_time M s A X s')
  then show ?case using run_ok_later [OF R] by blast
next
  case (run_reserve M s A X rid worst now i res m' s')
  have ne: "bs_windows spec \<noteq> []" using wf by (simp add: wf_windows_def)
  show ?case
  proof (rule reserve_effect [OF R run_reserve.IH ne run_reserve.hyps(4)])
    fix D assume D: "total_field \<notin> D" "\<not> admitted res" "m' = M i"
      "\<exists>t. only_fields R scope s s' ((map_of (rx_HGETALL R s (reservedKey scope)) |` (- D))(total_field \<mapsto> t))"
    then show ?thesis using run_ok_rejected [OF run_reserve.IH D(1)] by fastforce
  next
    fix D assume D: "total_field \<notin> D" "admitted res"
      "m' = remember life scope rid \<lparr>rl_windows = map (layout_of scope now) (bs_windows spec), rl_at = now\<rparr> (M i)"
      "\<exists>t e u. only_fields R scope s s' ((map_of (rx_HGETALL R s (reservedKey scope)) |` (- D))(rid \<mapsto> reservation_text worst e u, total_field \<mapsto> t))"
      "\<forall>w\<in>set (bs_windows spec). (\<Sum>r\<in>field_names R scope s - {total_field} - D. amount_of A r) + count R s (committedKey scope (bw_period w) now) + worst \<le> bw_capMicroUsd w"
    then obtain t e u where "only_fields R scope s s' ((map_of (rx_HGETALL R s (reservedKey scope)) |` (- D))(rid \<mapsto> reservation_text worst e u, total_field \<mapsto> t))" by blast
    from run_ok_admitted [OF run_reserve.IH wf D(1) run_reserve.hyps(2,3) this D(5)] show ?thesis using D(2,3) by (simp del: fun_upd_apply)
  qed
next
  case (run_commit M s A X rid cap now actual i m' s')
  obtain lws m1 where l: "commitLayout cap now scope rid (M i) = (lws, m1)" by force
  then have l': "commitLayout cap now scope rid (M i) = (lws, m')" using run_commit.hyps(4) by (simp add: redis_commit_def)
  have "layouts_ok scope M" using run_commit.IH by (simp add: run_ok_def)
  note ok = commit_layout_ok [OF this wf run_commit.hyps(3) l']
  show ?case using run_ok_commit [OF R run_commit.IH run_commit.hyps(2) l' ok run_commit.hyps(4)] unfolding l fst_conv .
next
  case (run_refresh M s A X rid now)
  then show ?case using run_ok_refresh [OF R] by blast
next
  case (run_heal M s A X now ledger p healed v s')
  then show ?case using run_ok_heal [OF R] by blast
qed

section \<open>Properties\<close>



text \<open>Booking nothing: a commit of a known request id.\<close>

definition lasting :: "layout_window \<Rightarrow> bool" where
  "lasting w \<longleftrightarrow> 0 < lw_ttl w \<or> lw_mode w = ModeNone \<or> lw_mode w = ModeKeep"

lemma stamp_lasting: "redis_laws R \<Longrightarrow> lasting w \<Longrightarrow> rx_GET R (stamp R w s) k = rx_GET R s k"
  using redis_expiry_rules(2,4) [of R] by (auto simp: stamp_def lasting_def split: commit_mode.split)

lemma stale_commit_windows:
  "redis_laws R \<Longrightarrow> list_all lasting ws \<Longrightarrow> rx_GET R (foldl (commit_window R False actual) s ws) k = rx_GET R s k"
  by (induction ws arbitrary: s) (simp_all add: commit_window_def stamp_lasting)

lemma commit_windows_frame:
  assumes R: "redis_laws R"
  shows "0 \<le> actual \<Longrightarrow> \<forall>w\<in>set ws. rx_HGETALL R s (lw_key w) = [] \<Longrightarrow> k \<notin> lw_key ` set ws \<Longrightarrow> rx_GET R (foldl (commit_window R fresh actual) s ws) k = rx_GET R s k"
proof (induction ws arbitrary: s)
  case (Cons w ws)
  note eff = commit_window_effect [OF R, of s w actual, where fresh = fresh]
  show ?case using Cons.IH [of "commit_window R fresh actual s w"] Cons.prems eff(1,2) by simp
qed simp

text \<open>
  C5. A settlement that is sent again books nothing. After a commit its request id is known; as long as Redis still knows it, whatever that request commits, now or with other
  counters and amounts, changes no counter.\<close>

theorem redis_commit_once:
  assumes "redis_laws R" and "kinds_ok R scope s" and "0 \<le> actual" and "\<forall>w\<in>set ws. \<exists>p d. lw_key w = committedKey scope p d" and "list_all lasting ws'"
  shows "rx_EXISTS R (commit_lua R (reservedKey scope) (commitIdKey scope rid) rid actual ttl ws s) (commitIdKey scope rid) \<and>
    (rx_EXISTS R s' (commitIdKey scope rid) \<longrightarrow> rx_GET R (commit_lua R (reservedKey scope) (commitIdKey scope rid) rid actual' ttl' ws' s') k = rx_GET R s' k)"
proof (intro conjI impI)
  let ?key = "reservedKey scope" and ?cid = "commitIdKey scope rid"
  note R = assms(1)
  define s1 where "s1 = snd (rx_SETNX R s ?cid (max 1 ttl))"
  have known: "rx_GET R s1 ?cid \<noteq> None"
    using redis_counter_rules(4) [OF R, of "max 1 ttl" s ?cid ?cid] redis_expiry_rules(1) [OF R, of s ?cid] assms(2)
    by (auto simp: s1_def kinds_ok_def)
  have "rx_HGETALL R s1 (lw_key w) = []" if "w \<in> set ws" for w
    using assms(2,4) that redis_counter_rules(7) [OF R] by (auto simp: s1_def kinds_ok_def)
  moreover have "?cid \<notin> lw_key ` set ws" using assms(4) keys_differ by (metis imageE)
  ultimately have "rx_GET R (foldl (commit_window R f actual) s1 ws) ?cid = rx_GET R s1 ?cid" for f
    using commit_windows_frame [OF R assms(3)] by blast
  then have "rx_GET R (commit_lua R ?key ?cid rid actual ttl ws s) ?cid = rx_GET R s1 ?cid"
    using redis_hash_rules(9,10) [OF R] redis_expiry_rules(2) [OF R] unfolding commit_lua_def
    by (auto simp: Let_def s1_def split: prod.split option.split)
  then show "rx_EXISTS R (commit_lua R ?key ?cid rid actual ttl ws s) ?cid" using known redis_expiry_rules(1) [OF R] by simp
  assume "rx_EXISTS R s' ?cid"
  then have stale: "fst (rx_SETNX R s' ?cid (max 1 ttl')) = False" "\<And>k. rx_GET R (snd (rx_SETNX R s' ?cid (max 1 ttl'))) k = rx_GET R s' k"
    using redis_counter_rules(3,4) [OF R, of "max 1 ttl'" s' ?cid] by auto
  then show "rx_GET R (commit_lua R ?key ?cid rid actual' ttl' ws' s') k = rx_GET R s' k"
    using redis_hash_rules(9,10) [OF R] redis_expiry_rules(2) [OF R] stale_commit_windows [OF R assms(5)] unfolding commit_lua_def
    by (auto simp: Let_def split: prod.split option.split)
qed

theorem redis_commit_once_witness:
  fixes s
  defines "s \<equiv> (Map.empty, \<lambda>k. []) :: (string \<Rightarrow> int option) \<times> (string \<Rightarrow> (string, string) jsmap)"
  shows "\<exists>s1. rx_GET sample_redis s1 (committedKey ''t'' PNone 0) = Some 7 \<and>
    rx_GET sample_redis (commit_lua sample_redis (reservedKey ''t'') (commitIdKey ''t'' ''a'') ''a'' 9 60 [\<lparr>lw_key = committedKey ''t'' PNone 0, lw_mode = ModeNone, lw_ttl = 0\<rparr>] s1)
      (committedKey ''t'' PNone 0) = Some 7"
proof -
  let ?w = "\<lparr>lw_key = committedKey ''t'' PNone 0, lw_mode = ModeNone, lw_ttl = 0\<rparr>"
  let ?s1 = "commit_lua sample_redis (reservedKey ''t'') (commitIdKey ''t'' ''a'') ''a'' 7 60 [?w] s"
  have kinds: "kinds_ok sample_redis ''t'' s" by (simp add: kinds_ok_def sample_redis_def s_def)
  have booked: "rx_GET sample_redis ?s1 (committedKey ''t'' PNone 0) = Some 7"
    by (simp add: commit_lua_def commit_window_def stamp_def sample_redis_def s_def)
  have "list_all lasting [?w]" by (simp add: lasting_def)
  moreover have "\<forall>w\<in>set [?w]. \<exists>p d. lw_key w = committedKey ''t'' p d" by auto
  ultimately have once: "rx_EXISTS sample_redis ?s1 (commitIdKey ''t'' ''a'') \<and> (rx_EXISTS sample_redis ?s1 (commitIdKey ''t'' ''a'') \<longrightarrow>
      rx_GET sample_redis (commit_lua sample_redis (reservedKey ''t'') (commitIdKey ''t'' ''a'') ''a'' 9 60 [?w] ?s1) (committedKey ''t'' PNone 0) =
      rx_GET sample_redis ?s1 (committedKey ''t'' PNone 0))"
    by (intro redis_commit_once [OF sample_redis_laws kinds]) simp_all
  show ?thesis
    by (rule exI [of _ ?s1]) (use once booked in simp)
qed

text \<open>The two admission loops keep the same binding window.\<close>

definition same_binding :: "BudgetWindow list \<Rightarrow> binding \<Rightarrow> lua_best \<Rightarrow> bool" where
  "same_binding ws b best \<longleftrightarrow>
     (case b of
        None \<Rightarrow> best = \<lparr>lb_idx = 1, lb_used = 0, lb_cap = 1, lb_ratio = Num (- 1)\<rparr>
      | Some (w, used) \<Rightarrow> lb_idx best - 1 < length ws \<and> ws ! (lb_idx best - 1) = w \<and> lb_used best = used \<and> lb_cap best = bw_capMicroUsd w \<and>
          lb_ratio best = js_div (of_int used) (of_int (bw_capMicroUsd w)))"

lemma same_admission:
  assumes "\<forall>w\<in>set ws. 0 < bw_capMicroUsd w \<and> 0 \<le> c_reservedTotal c + spent c (bw_period w) t + worst \<and> count R s (key w) = spent c (bw_period w) t"
    and "same_binding (pre @ ws) b best"
  shows "case fst (admit_windows t worst ws b c) of
      Inl d \<Rightarrow> \<exists>j used cap. reserve_windows R (c_reservedTotal c) worst s (Suc (length pre)) (map (\<lambda>w. (key w, bw_capMicroUsd w)) ws) best = Inl (j, used, cap) \<and>
        j - 1 < length (pre @ ws) \<and>
        d = \<lparr>bd_allowed = False, bd_capMicroUsd = cap, bd_usedMicroUsd = used, bd_window = windowInfo (bw_period ((pre @ ws) ! (j - 1))) t\<rparr>
    | Inr b' \<Rightarrow> \<exists>best'. reserve_windows R (c_reservedTotal c) worst s (Suc (length pre)) (map (\<lambda>w. (key w, bw_capMicroUsd w)) ws) best = Inr best' \<and>
        same_binding (pre @ ws) b' best'"
  using assms
proof (induction ws arbitrary: pre b best c)
  case (Cons w ws)
  let ?used = "c_reservedTotal c + spent c (bw_period w) t"
  let ?c = "snd (windowCounter c w t)"
  have get: "(case rx_GET R s (key w) of Some x \<Rightarrow> x | None \<Rightarrow> 0) = spent c (bw_period w) t" and cap: "0 < bw_capMicroUsd w" and pos: "0 \<le> ?used + worst"
    using Cons.prems(1) by (auto simp: count_def)
  show ?case
  proof (cases "bw_capMicroUsd w < ?used + worst")
    case True
    then show ?thesis by (simp add: split_beta Let_def windowCounter_spent get)
  next
    case False
    define u where "u = ?used + worst"
    let ?ratio = "js_div (of_int u) (of_int (bw_capMicroUsd w))"
    let ?best = "if js_less (lb_ratio best) ?ratio then \<lparr>lb_idx = Suc (length pre), lb_used = u, lb_cap = bw_capMicroUsd w, lb_ratio = ?ratio\<rparr> else best"
    have "0 \<le> real_of_int u / real_of_int (bw_capMicroUsd w)" using cap pos by (simp add: u_def)
    then have "js_less (Num (- 1)) ?ratio" using cap by (simp add: js_div_def)
    then have "same_binding ((pre @ [w]) @ ws) (rebind b w u) ?best"
      using Cons.prems(2) by (cases b) (auto simp: same_binding_def rebind_def binds_more_def nth_append)
    moreover have "\<forall>v\<in>set ws. 0 < bw_capMicroUsd v \<and> 0 \<le> c_reservedTotal ?c + spent ?c (bw_period v) t + worst \<and> count R s (key v) = spent ?c (bw_period v) t"
      using Cons.prems(1) by (simp add: spent_windowCounter)
    moreover have "reserve_windows R (c_reservedTotal c) worst s (Suc (length pre)) (map (\<lambda>w. (key w, bw_capMicroUsd w)) (w # ws)) best =
        reserve_windows R (c_reservedTotal ?c) worst s (Suc (length (pre @ [w]))) (map (\<lambda>w. (key w, bw_capMicroUsd w)) ws) ?best"
      using False unfolding u_def by (simp add: Let_def get del: of_int_add)
    moreover have "fst (admit_windows t worst (w # ws) b c) = fst (admit_windows t worst ws (rebind b w u) ?c)"
      using False by (simp add: split_beta Let_def windowCounter_spent u_def)
    ultimately show ?thesis using Cons.IH [of ?c "pre @ [w]" "rebind b w u" ?best] by (simp only: append_assoc append_Cons append_Nil)
  qed
qed simp

lemma sweep_fields_GET: "redis_laws R \<Longrightarrow> rx_GET R (snd (sweep_fields R key now fs r s)) k = rx_GET R s k"
  by (induction R key now fs r s rule: sweep_fields.induct) (auto simp: redis_hash_rules(9) split: option.split)

text \<open>
  C6. The shared store decides as the in-memory store does. When the live reservations of the two add up to the same amount and their counters agree on the present windows, \<^verbatim>\<open>reserve\<close> returns the
  same from both: the same verdict, the same binding window with its cap and its use, the same error for a budget without windows.\<close>

theorem redis_decides_as_memory:
  fixes R :: "'s redis_api" and scope :: string and t :: int and capFor :: cap_for
  assumes "redis_laws R" and "capFor scope = Some b" and "list_all (\<lambda>w. 0 < bw_capMicroUsd w) (bs_windows (normalizeBudget b))"
    and "fst (sweep_fields R (reservedKey scope) t (rx_HGETALL R s (reservedKey scope)) 0 s) = c_reservedTotal (swept capFor t scope (normalizeBudget b) mem)"
    and "list_all (\<lambda>w. count R s (committedKey scope (bw_period w) t) = spent (swept capFor t scope (normalizeBudget b) mem) (bw_period w) t) (bs_windows (normalizeBudget b))"
    and "store_ok mem" and "0 \<le> worst"
  shows "fst (redis_reserve R (Inr (capFor scope)) life t scope rid worst (m, s)) = map_sum Some id (fst (reserve capFor life t scope rid worst mem))"
proof -
  let ?spec = "normalizeBudget b" and ?key = "reservedKey scope"
  let ?ws = "bs_windows ?spec"
  define c where "c = swept capFor t scope ?spec mem"
  obtain s1 where sw: "sweep_fields R ?key t (rx_HGETALL R s ?key) 0 s = (c_reservedTotal c, s1)"
    using assms(4) by (cases "sweep_fields R ?key t (rx_HGETALL R s ?key) 0 s") (simp add: c_def)
  have get: "count R s1 k = count R s k" for k using sweep_fields_GET [OF assms(1), of ?key t "rx_HGETALL R s ?key" 0 s k] sw by (simp add: count_def)
  have c: "counters_ok c" using assms(6) by (simp add: c_def swept_ok)
  have "0 \<le> jm_sum rv_amount (c_reserved c)" using c by (intro jm_sum_nonneg) (auto simp: counters_ok_def list_all_iff)
  then have "0 \<le> c_reservedTotal c" using c by (simp add: counters_ok_def)
  then have ws: "\<forall>w\<in>set ?ws. 0 < bw_capMicroUsd w \<and> 0 \<le> c_reservedTotal c + spent c (bw_period w) t + worst \<and>
      count R s1 (committedKey scope (bw_period w) t) = spent c (bw_period w) t"
    using assms(3,5,7) spent_nonneg [OF c] get by (auto simp: list_all_iff c_def)
  let ?best = "\<lparr>lb_idx = 1, lb_used = 0, lb_cap = 1, lb_ratio = Num (- 1)\<rparr>"
  let ?lua = "map (\<lambda>w. (committedKey scope (bw_period w) t, bw_capMicroUsd w, reservedTtl (bw_period w) t)) ?ws"
  let ?W = "map (\<lambda>w. (committedKey scope (bw_period w) t, bw_capMicroUsd w)) ?ws"
  have W: "map (\<lambda>(k, cap, ttl). (k, cap)) ?lua = ?W" by (simp add: comp_def)
  have rel: "same_binding ([] @ ?ws) None ?best" by (simp add: same_binding_def)
  note same = same_admission [where pre = "[]" and key = "\<lambda>w. committedKey scope (bw_period w) t", OF ws rel]
  note memory = reserve_unfold [of capFor, OF assms(2), of life t rid worst mem, folded c_def]
  have redis: "redis_reserve R (Inr (capFor scope)) life t scope rid worst (m, s) = redis_reserve R (Inr (Some (Spec ?spec))) life t scope rid worst (m, s)"
    by (cases b) (simp_all add: redis_reserve_def assms(2))
  show ?thesis
  proof (cases "fst (admit_windows t worst ?ws None c)")
    case (Inl d)
    then obtain j used cap where j: "reserve_windows R (c_reservedTotal c) worst s1 1 ?W ?best = Inl (j, used, cap)" "j - 1 < length ?ws"
      "d = \<lparr>bd_allowed = False, bd_capMicroUsd = cap, bd_usedMicroUsd = used, bd_window = windowInfo (bw_period (?ws ! (j - 1))) t\<rparr>"
      using same by auto
    have lua: "reserve_lua R ?key rid worst t life ?lua s = ((False, j, used, cap), rx_HSET R s1 ?key total_field (show_int (c_reservedTotal c)))"
      unfolding reserve_lua_def sw W Let_def prod.case j(1) sum.case by simp
    show ?thesis unfolding redis redis_reserve_lua [OF lua j(2)] memory using Inl j(3) by simp
  next
    case (Inr bd)
    then obtain best where best: "reserve_windows R (c_reservedTotal c) worst s1 1 ?W ?best = Inr best" "same_binding ?ws bd best" using same by auto
    then obtain s2 where lua: "reserve_lua R ?key rid worst t life ?lua s = ((True, lb_idx best, lb_used best, lb_cap best), s2)"
      unfolding reserve_lua_def sw W Let_def prod.case best(1) sum.case by blast
    show ?thesis
    proof (cases bd)
      case None
      then have "?ws = []" using Inr admit_binding [of ?ws None t worst c] by auto
      then show ?thesis unfolding redis memory using Inr None lua best(2) by (simp add: redis_reserve_def same_binding_def)
    next
      case (Some wu)
      obtain w used where wu: "wu = (w, used)" by (cases wu)
      have j: "lb_idx best - 1 < length ?ws" using best(2) Some wu by (simp add: same_binding_def)
      show ?thesis unfolding redis redis_reserve_lua [OF lua j] memory using Inr Some wu best(2) by (simp add: same_binding_def)
    qed
  qed
qed

theorem redis_decides_as_memory_witness:
  fixes s
  defines "s \<equiv> (Map.empty, \<lambda>k. []) :: (string \<Rightarrow> int option) \<times> (string \<Rightarrow> (string, string) jsmap)"
  shows "fst (redis_reserve sample_redis (Inr (sample_caps ''ws1'')) 600000 5 ''ws1'' ''r1'' 101 ([], s)) =
    map_sum Some id (fst (reserve sample_caps 600000 5 ''ws1'' ''r1'' 101 empty_store))"
proof (rule redis_decides_as_memory [where capFor = sample_caps and scope = "''ws1''", OF sample_redis_laws sample_caps_ws1])
  have "swept sample_caps 5 ''ws1'' sample_spec empty_store = empty_counters\<lparr>c_lastTouchedMs := 5\<rparr>"
    by (simp add: swept_def prune_def scope_counters_def empty_store_def empty_counters_def dropStaleWindows_def sweep_expired_def Let_def)
  note sw = this
  show "list_all (\<lambda>w. 0 < bw_capMicroUsd w) (bs_windows (normalizeBudget (Spec sample_spec)))" by (simp add: sample_spec_def)
  show "fst (sweep_fields sample_redis (reservedKey ''ws1'') 5 (rx_HGETALL sample_redis s (reservedKey ''ws1'')) 0 s) =
      c_reservedTotal (swept sample_caps 5 ''ws1'' (normalizeBudget (Spec sample_spec)) empty_store)"
    unfolding normalizeBudget.simps sw by (simp add: sample_redis_def s_def empty_counters_def)
  show "list_all (\<lambda>w. count sample_redis s (committedKey ''ws1'' (bw_period w) 5) = spent (swept sample_caps 5 ''ws1'' (normalizeBudget (Spec sample_spec)) empty_store) (bw_period w) 5)
      (bs_windows (normalizeBudget (Spec sample_spec)))"
    unfolding normalizeBudget.simps sw by (simp add: sample_spec_def spent_def empty_counters_def count_def sample_redis_def s_def)
qed (simp_all add: store_ok_def empty_store_def)

end
