(* ===== verification/Redis_Rate.thy ===== *)
theory Redis_Rate
  imports Rate_Limit Redis_Api
begin

text \<open>
  The shared rate limiter of \<^verbatim>\<open>src/packages/ratelimit/src/redis.ts\<close>: its two Lua scripts and the class that calls them. The windows are those of the Redis clock \<open>t\<close>, the seconds reported to
  the client those of the gateway's clock. The store keeps the contract \<open>rate_store\<close> of the in-memory one, so what the limiter proper guarantees holds over it as well.
\<close>

section \<open>Definitions\<close>

definition rate_key :: "string \<Rightarrow> RateLimit \<Rightarrow> int \<Rightarrow> string" where
  "rate_key scope rule wstart = ''ratelimit:{'' @ scope @ ''}:'' @ rl_id rule @ '':'' @ show_int wstart"

record lua_rule =
  lr_key :: string
  lr_cur :: int
  lr_limit :: int
  lr_unit :: RateLimitUnit
  lr_reset :: int
  lr_ok :: bool

definition look_up :: "'s redis_api \<Rightarrow> int \<Rightarrow> string \<Rightarrow> 's \<Rightarrow> RateLimit \<Rightarrow> lua_rule" where
  "look_up R t scope s rule =
     (let w = rl_windowSeconds rule * 1000; wstart = t div w * w; key = rate_key scope rule wstart; cur = count R s key in
      \<lparr>lr_key = key, lr_cur = cur, lr_limit = rl_limit rule, lr_unit = rl_unit rule, lr_reset = wstart + w,
       lr_ok = (if rl_unit rule = Requests then cur + 1 \<le> rl_limit rule else cur < rl_limit rule)\<rparr>)"

fun consume :: "'s redis_api \<Rightarrow> int \<Rightarrow> bool \<Rightarrow> lua_rule list \<Rightarrow> 's \<Rightarrow> (int \<times> int \<times> int) list \<times> 's" where
  "consume R t allowed [] s = ([], s)"
| "consume R t allowed (c # cs) s =
     (if allowed \<and> lr_unit c = Requests then
        (let s1 = rx_INCRBY R s (lr_key c) 1; (out, s2) = consume R t allowed cs (rx_PEXPIRE R s1 (lr_key c) (lr_reset c - t + 1000))
         in ((count R s1 (lr_key c), lr_limit c, lr_reset c) # out, s2))
      else (let (out, s1) = consume R t allowed cs s in ((lr_cur c, lr_limit c, lr_reset c) # out, s1)))"

definition rate_reserve_lua :: "'s redis_api \<Rightarrow> int \<Rightarrow> string \<Rightarrow> RateLimit list \<Rightarrow> 's \<Rightarrow> (bool \<times> (int \<times> int \<times> int) list) \<times> 's" where
  "rate_reserve_lua R t scope rules s =
     (let cs = map (look_up R t scope s) rules; allowed = list_all lr_ok cs; (out, s') = consume R t allowed cs s in ((allowed, out), s'))"

fun rate_commit_lua :: "'s redis_api \<Rightarrow> int \<Rightarrow> string \<Rightarrow> int \<Rightarrow> RateLimit list \<Rightarrow> 's \<Rightarrow> 's" where
  "rate_commit_lua R t scope actual [] s = s"
| "rate_commit_lua R t scope actual (r # rs) s =
     (let w = rl_windowSeconds r * 1000; wstart = t div w * w; key = rate_key scope r wstart in
      rate_commit_lua R t scope actual rs (rx_PEXPIRE R (rx_INCRBY R s key actual) key (wstart + w - t + 1000)))"

definition rule_decision :: "int \<Rightarrow> bool \<Rightarrow> RateLimit \<times> int \<times> int \<times> int \<Rightarrow> RuleDecision" where
  "rule_decision nowMs allowed ru =
     (let (rule, used, limit, resetMs) = ru in
      \<lparr>rd_rule = rule,
       rd_allowed = (if rl_unit rule = Requests then (if allowed then used \<le> limit else used + 1 \<le> limit) else used < limit),
       rd_used = used, rd_remaining = max 0 (limit - used), rd_resetSeconds = resetSecondsUntil nowMs resetMs\<rparr>)"

definition redis_rate_reserve :: "'s redis_api \<Rightarrow> int \<Rightarrow> int \<Rightarrow> string \<Rightarrow> RateLimit list \<Rightarrow> 's \<Rightarrow> RateLimitOutcome \<times> 's" where
  "redis_rate_reserve R nowMs t scope rules s =
     (if rules = [] then (finalizeOutcome [], s)
      else (let ((allowed, out), s') = rate_reserve_lua R t scope rules s in (finalizeOutcome (map (rule_decision nowMs allowed) (zip rules out)), s')))"

definition redis_rate_commit :: "'s redis_api \<Rightarrow> int \<Rightarrow> string \<Rightarrow> RateLimit list \<Rightarrow> int \<Rightarrow> 's \<Rightarrow> 's" where
  "redis_rate_commit R t scope rules actualTokens s =
     (let tokenRules = filter (\<lambda>r. rl_unit r = Tokens) rules in
      if tokenRules = [] \<or> actualTokens \<le> 0 then s else rate_commit_lua R t scope actualTokens tokenRules s)"

section \<open>The counters\<close>

lemma rate_key_eq:
  assumes "CHR ''}'' \<notin> set (rl_id r)" and "CHR ''}'' \<notin> set (rl_id r')" and "rate_key scope r w = rate_key scope' r' w'"
  shows "scope = scope' \<and> rl_id r = rl_id r' \<and> w = w'"
proof -
  have brace: "CHR ''}'' \<notin> set (show_int i)" and colon: "CHR '':'' \<notin> set (show_int i)" for i
    using not_digit_in_show_nat [of "CHR ''}''"] not_digit_in_show_nat [of "CHR '':''"] by (auto simp: show_int_def is_digit_def)
  have "scope @ CHR ''}'' # ('':'' @ rl_id r @ '':'' @ show_int w) = scope' @ CHR ''}'' # ('':'' @ rl_id r' @ '':'' @ show_int w')"
    using assms(3) by (simp add: rate_key_def)
  then have s: "scope = scope'" "'':'' @ rl_id r @ '':'' @ show_int w = '':'' @ rl_id r' @ '':'' @ show_int w'"
    using rev_sep_inj [of "CHR ''}''" "'':'' @ rl_id r @ '':'' @ show_int w" "'':'' @ rl_id r' @ '':'' @ show_int w'" scope scope'] assms(1,2) brace by auto
  then have "rl_id r @ CHR '':'' # show_int w = rl_id r' @ CHR '':'' # show_int w'" by simp
  then show ?thesis using s(1) rev_sep_inj [OF colon colon] show_int_eq_iff by blast
qed

lemma look_up_key: "lr_key (look_up R t scope s r) = rate_key scope r (win_start r t)" "lr_reset (look_up R t scope s r) = win_start r t + win r"
  by (simp_all add: look_up_def Let_def win_start_def windowFor_def)

lemma look_up_simps [simp]:
  "lr_cur (look_up R t scope s r) = count R s (lr_key (look_up R t scope s r))" "lr_limit (look_up R t scope s r) = rl_limit r" "lr_unit (look_up R t scope s r) = rl_unit r"
  "lr_ok (look_up R t scope s r) \<longleftrightarrow> (case rl_unit r of Requests \<Rightarrow> lr_cur (look_up R t scope s r) + 1 \<le> rl_limit r | Tokens \<Rightarrow> lr_cur (look_up R t scope s r) < rl_limit r)"
  by (auto simp: look_up_def Let_def split: RateLimitUnit.split)

text \<open>One admission adds one to the counter of each request rule it names, and to no other.\<close>

lemma consume_facts:
  assumes R: "redis_laws R" and "distinct (map lr_key cs)" and "\<forall>c\<in>set cs. rx_HGETALL R s (lr_key c) = [] \<and> t < lr_reset c + 1000 \<and> lr_cur c = count R s (lr_key c)"
  shows "(\<forall>k. rx_HGETALL R (snd (consume R t allowed cs s)) k = rx_HGETALL R s k) \<and>
    (\<forall>k. count R (snd (consume R t allowed cs s)) k = count R s k + (if allowed \<and> (\<exists>c\<in>set cs. lr_key c = k \<and> lr_unit c = Requests) then 1 else 0)) \<and>
    fst (consume R t allowed cs s) = map (\<lambda>c. (lr_cur c + (if allowed \<and> lr_unit c = Requests then 1 else 0), lr_limit c, lr_reset c)) cs"
  using assms(2,3)
proof (induction cs arbitrary: s)
  case (Cons c cs)
  let ?s1 = "rx_INCRBY R s (lr_key c) 1"
  let ?s2 = "rx_PEXPIRE R ?s1 (lr_key c) (lr_reset c - t + 1000)"
  have c: "rx_HGETALL R s (lr_key c) = []" "\<not> lr_reset c - t + 1000 \<le> 0" "lr_cur c = count R s (lr_key c)" using Cons.prems(2) by auto
  have h2: "rx_HGETALL R ?s2 k = rx_HGETALL R s k" for k using redis_expiry_rules(9) [OF R] redis_counter_rules(6) [OF R] c(2) by simp
  have c1: "count R ?s1 k = count R s k + (if k = lr_key c then 1 else 0)" for k using redis_counter_rules(2) [OF R c(1)] by (simp add: count_def)
  have c2: "count R ?s2 k = count R ?s1 k" for k using redis_expiry_rules(8) [OF R] c(2) by (simp add: count_def)
  have fresh: "lr_key c' \<noteq> lr_key c" if "c' \<in> set cs" for c'
    using Cons.prems(1) imageI [OF that, of lr_key] by (metis distinct.simps(2) list.map(2) set_map)
  have "\<forall>c\<in>set cs. rx_HGETALL R ?s2 (lr_key c) = [] \<and> t < lr_reset c + 1000 \<and> lr_cur c = count R ?s2 (lr_key c)"
    using Cons.prems(2) fresh by (simp add: h2 c1 c2)
  note adm = Cons.IH [OF _ this]
  note rej = Cons.IH [of s]
  have d: "distinct (map lr_key cs)" using Cons.prems(1) by simp
  show ?case
  proof (cases "allowed \<and> lr_unit c = Requests")
    case True
    then show ?thesis using adm [OF d] fresh c(3) by (auto simp: split_beta Let_def h2 c1 c2)
  next
    case False
    then show ?thesis using rej [OF d] Cons.prems(2) by (auto simp: split_beta)
  qed
qed simp

lemma redis_rate_reserve_facts:
  assumes R: "redis_laws R" and wf: "wf_rules rules" and brace: "\<forall>r\<in>set rules. CHR ''}'' \<notin> set (rl_id r)"
    and kinds: "\<forall>r w. rx_HGETALL R s (rate_key scope r w) = []"
  shows "ro_allowed (fst (redis_rate_reserve R nowMs t scope rules s)) \<longleftrightarrow>
      (\<forall>r\<in>set rules. case rl_unit r of Requests \<Rightarrow> count R s (rate_key scope r (win_start r t)) + 1 \<le> rl_limit r
        | Tokens \<Rightarrow> count R s (rate_key scope r (win_start r t)) < rl_limit r)"
    and "count R (snd (redis_rate_reserve R nowMs t scope rules s)) k = count R s k +
      (if ro_allowed (fst (redis_rate_reserve R nowMs t scope rules s)) \<and> (\<exists>r\<in>set rules. rl_unit r = Requests \<and> k = rate_key scope r (win_start r t)) then 1 else 0)"
    and "rx_HGETALL R (snd (redis_rate_reserve R nowMs t scope rules s)) k = rx_HGETALL R s k"
proof -
  let ?cs = "map (look_up R t scope s) rules"
  define al where "al = list_all lr_ok ?cs"
  have "distinct (map lr_key ?cs)"
  proof -
    have "inj_on (\<lambda>r. rate_key scope r (win_start r t)) (set rules)"
    proof (rule inj_onI)
      fix r r' assume "r \<in> set rules" "r' \<in> set rules" "rate_key scope r (win_start r t) = rate_key scope r' (win_start r' t)"
      moreover from this have "rl_id r = rl_id r'" using brace rate_key_eq by blast
      ultimately show "r = r'" using wf by (auto simp: wf_rules_def distinct_map inj_on_def)
    qed
    then show ?thesis using wf by (simp add: distinct_map look_up_key comp_def wf_rules_def)
  qed
  moreover have "\<forall>c\<in>set ?cs. rx_HGETALL R s (lr_key c) = [] \<and> t < lr_reset c + 1000 \<and> lr_cur c = count R s (lr_key c)"
  proof
    fix c assume "c \<in> set ?cs"
    then obtain r where r: "r \<in> set rules" "c = look_up R t scope s r" by auto
    then have "0 < rl_windowSeconds r" using wf by (auto simp: wf_rules_def list_all_iff)
    from win_start_bounds(2) [OF this, of t] show "rx_HGETALL R s (lr_key c) = [] \<and> t < lr_reset c + 1000 \<and> lr_cur c = count R s (lr_key c)"
      using r kinds by (simp add: look_up_key)
  qed
  ultimately have F: "(\<forall>k. rx_HGETALL R (snd (consume R t al ?cs s)) k = rx_HGETALL R s k) \<and>
      (\<forall>k. count R (snd (consume R t al ?cs s)) k = count R s k + (if al \<and> (\<exists>c\<in>set ?cs. lr_key c = k \<and> lr_unit c = Requests) then 1 else 0)) \<and>
      fst (consume R t al ?cs s) = map (\<lambda>c. (lr_cur c + (if al \<and> lr_unit c = Requests then 1 else 0), lr_limit c, lr_reset c)) ?cs"
    by (rule consume_facts [OF R])
  let ?ok = "\<lambda>r. case rl_unit r of Requests \<Rightarrow> count R s (rate_key scope r (win_start r t)) + 1 \<le> rl_limit r | Tokens \<Rightarrow> count R s (rate_key scope r (win_start r t)) < rl_limit r"
  have al: "al \<longleftrightarrow> (\<forall>r\<in>set rules. ?ok r)" by (auto simp: al_def list_all_iff look_up_key split: RateLimitUnit.splits)
  define f where "f = (\<lambda>r. (lr_cur (look_up R t scope s r) + (if al \<and> rl_unit r = Requests then 1 else 0), rl_limit r, lr_reset (look_up R t scope s r)))"
  have out: "fst (consume R t al ?cs s) = map f rules" using F by (simp add: f_def comp_def)
  have dec: "rd_allowed (rule_decision nowMs al (r, f r)) \<longleftrightarrow> ?ok r" for r
    by (cases "rl_unit r") (auto simp: rule_decision_def f_def look_up_key)
  have redis: "redis_rate_reserve R nowMs t scope rules s = (finalizeOutcome (map (\<lambda>r. rule_decision nowMs al (r, f r)) rules), snd (consume R t al ?cs s))"
    using out by (cases rules) (simp_all add: al_def redis_rate_reserve_def rate_reserve_lua_def split_beta Let_def zip_map_self finalizeOutcome_def comp_def)
  show room: "ro_allowed (fst (redis_rate_reserve R nowMs t scope rules s)) \<longleftrightarrow> (\<forall>r\<in>set rules. ?ok r)"
    unfolding redis by (simp add: finalize_allowed list_all_iff dec)
  show "rx_HGETALL R (snd (redis_rate_reserve R nowMs t scope rules s)) k = rx_HGETALL R s k" unfolding redis using F by simp
  have "(\<exists>c\<in>set ?cs. lr_key c = k \<and> lr_unit c = Requests) \<longleftrightarrow> (\<exists>r\<in>set rules. rl_unit r = Requests \<and> k = rate_key scope r (win_start r t))"
    by (auto simp: look_up_key)
  then show "count R (snd (redis_rate_reserve R nowMs t scope rules s)) k = count R s k +
      (if ro_allowed (fst (redis_rate_reserve R nowMs t scope rules s)) \<and> (\<exists>r\<in>set rules. rl_unit r = Requests \<and> k = rate_key scope r (win_start r t)) then 1 else 0)"
    using F unfolding room al [symmetric] unfolding redis by simp
qed

section \<open>The contract of the limiter's store\<close>

text \<open>The keyspace with the Redis clock of the call.\<close>

type_synonym 's redis_rate_state = "'s \<times> int"

definition redis_store_reserve :: "'s redis_api \<Rightarrow> int \<Rightarrow> rule_table \<Rightarrow> string \<Rightarrow> 's redis_rate_state \<Rightarrow> (unit + RateLimitOutcome) \<times> 's redis_rate_state" where
  "redis_store_reserve R nowMs rules_for scope st =
     (let (out, s') = redis_rate_reserve R nowMs (snd st) scope (rules_for scope) (fst st) in (Inr out, (s', snd st)))"

definition redis_used :: "'s redis_api \<Rightarrow> 's redis_rate_state \<Rightarrow> string \<Rightarrow> RateLimit \<Rightarrow> int" where
  "redis_used R st scope r = count R (fst st) (rate_key scope r (win_start r (snd st)))"

definition redis_rate_inv :: "'s redis_api \<Rightarrow> rule_table \<Rightarrow> 's redis_rate_state \<Rightarrow> bool" where
  "redis_rate_inv R rules_for st \<longleftrightarrow>
     redis_laws R \<and> (\<forall>sc. wf_rules (rules_for sc) \<and> (\<forall>r\<in>set (rules_for sc). CHR ''}'' \<notin> set (rl_id r))) \<and>
     (\<forall>sc r w. rx_HGETALL R (fst st) (rate_key sc r w) = [])"

interpretation redis_rate: rate_store rules_for "redis_store_reserve R nowMs rules_for" "redis_used R" "redis_rate_inv R rules_for" for rules_for R nowMs
proof
  fix st st' :: "'a redis_rate_state" and scope sc out r
  assume i: "redis_rate_inv R rules_for st"
  have wf: "wf_rules (rules_for sc)" and brace: "\<forall>r\<in>set (rules_for sc). CHR ''}'' \<notin> set (rl_id r)" for sc using i by (auto simp: redis_rate_inv_def)
  have kinds: "\<forall>r w. rx_HGETALL R (fst st) (rate_key sc r w) = []" and R: "redis_laws R" for sc using i by (auto simp: redis_rate_inv_def)
  note F = redis_rate_reserve_facts [OF R wf [of scope] brace [of scope] kinds [of scope], of nowMs "snd st"]
  show "redis_rate_inv R rules_for (snd (redis_store_reserve R nowMs rules_for scope st))"
    using i F(3) by (simp add: redis_rate_inv_def redis_store_reserve_def split_beta)
  assume q: "redis_store_reserve R nowMs rules_for scope st = (Inr out, st')"
  then have o': "out = fst (redis_rate_reserve R nowMs (snd st) scope (rules_for scope) (fst st))" "fst st' = snd (redis_rate_reserve R nowMs (snd st) scope (rules_for scope) (fst st))"
    "snd st' = snd st"
    by (auto simp: redis_store_reserve_def split_beta)
  show "ro_allowed out \<longleftrightarrow> (\<forall>r \<in> set (rules_for scope). case rl_unit r of
          Requests \<Rightarrow> redis_used R st scope r + 1 \<le> rl_limit r | Tokens \<Rightarrow> redis_used R st scope r < rl_limit r)"
    unfolding o'(1) F(1) redis_used_def ..
  assume r: "r \<in> set (rules_for sc)"
  have "(\<exists>r'\<in>set (rules_for scope). rl_unit r' = Requests \<and> rate_key sc r (win_start r (snd st)) = rate_key scope r' (win_start r' (snd st))) \<longleftrightarrow>
      sc = scope \<and> rl_unit r = Requests"
  proof
    assume "\<exists>r'\<in>set (rules_for scope). rl_unit r' = Requests \<and> rate_key sc r (win_start r (snd st)) = rate_key scope r' (win_start r' (snd st))"
    then obtain r' where r': "r' \<in> set (rules_for scope)" "rl_unit r' = Requests" "sc = scope" "rl_id r = rl_id r'"
      using rate_key_eq brace r by blast
    then have "r = r'" using wf [of scope] r by (auto simp: wf_rules_def distinct_map inj_on_def)
    then show "sc = scope \<and> rl_unit r = Requests" using r' by simp
  qed (use r in auto)
  then show "redis_used R st' sc r = redis_used R st sc r + (if ro_allowed out \<and> sc = scope \<and> rl_unit r = Requests then 1 else 0)"
    using o' F(2) [of "rate_key sc r (win_start r (snd st))"] by (simp add: redis_used_def)
qed

section \<open>Property\<close>

text \<open>
  The limiter over the shared store is a hard control in its fail-closed mode: a request admitted under a request rule was counted by Redis within the limit, with no degraded stage,
  and a request that is rejected or whose rules could not be read takes nothing.\<close>

theorem redis_limiter_fail_closed:
  fixes scope :: string
  assumes "redis_rate_inv R rules_for st"
    and "limiter_check False resolved (\<lambda>rules. redis_store_reserve R nowMs rules_for scope) st = ((out, rules), st', stages)"
    and "resolved = Inl () \<or> resolved = Inr (rules_for scope)" and "r \<in> set (rules_for scope)" and "rl_unit r = Requests"
  shows "(ro_allowed out \<longrightarrow> redis_used R st' scope r \<le> rl_limit r \<and> redis_used R st' scope r = redis_used R st scope r + 1 \<and> stages = []) \<and>
    (\<not> ro_allowed out \<longrightarrow> redis_used R st' scope r = redis_used R st scope r)"
proof -
  have "redis_used R st' scope r = redis_used R st scope r" if "\<not> ro_allowed out"
  proof (cases resolved)
    case (Inl e)
    then show ?thesis using assms(2) by (simp add: limiter_check_def)
  next
    case (Inr rs)
    then have rs: "resolved = Inr (rules_for scope)" using assms(3) by auto
    then have "stages = []" using assms(2) by (auto simp: limiter_check_def redis_store_reserve_def split_beta split: if_splits)
    then show ?thesis using redis_rate.check_reject_takes_nothing [OF assms(1), of False scope nowMs out rules st' r scope] assms(2,4) rs that by simp
  qed
  then show ?thesis using redis_rate.check_fail_closed [OF assms(1) assms(2) assms(3) _ assms(4,5)] by blast
qed

theorem redis_limiter_fail_closed_witness:
  fixes st
  defines "st \<equiv> ((Map.empty, \<lambda>k. []), 5) :: ((string \<Rightarrow> int option) \<times> (string \<Rightarrow> (string, string) jsmap)) redis_rate_state"
  shows "redis_used sample_redis st ''ws1'' sample_rule = 0 \<and>
    (case limiter_check False (Inr [sample_rule]) (\<lambda>rules. redis_store_reserve sample_redis 5 (\<lambda>sc. [sample_rule]) ''ws1'') st of
       ((out, rules), st', stages) \<Rightarrow> redis_used sample_redis st' ''ws1'' sample_rule = (if ro_allowed out then 1 else 0))"
proof -
  have inv: "redis_rate_inv sample_redis (\<lambda>sc. [sample_rule]) st"
    by (simp add: redis_rate_inv_def sample_redis_laws wf_rules_def sample_rule_def st_def) (simp add: sample_redis_def)
  have zero: "redis_used sample_redis st ''ws1'' sample_rule = 0" by (simp add: redis_used_def st_def count_def sample_redis_def)
  obtain out rules st' stages where run: "limiter_check False (Inr [sample_rule]) (\<lambda>rules. redis_store_reserve sample_redis 5 (\<lambda>sc. [sample_rule]) ''ws1'') st = ((out, rules), st', stages)"
    by (cases "limiter_check False (Inr [sample_rule]) (\<lambda>rules. redis_store_reserve sample_redis 5 (\<lambda>sc. [sample_rule]) ''ws1'') st") auto
  from redis_limiter_fail_closed [OF inv run] zero run show ?thesis by (simp add: sample_rule_def)
qed

end
