(* ===== verification/Tool_Governance.thy ===== *)
theory Tool_Governance
  imports Cel_Policy Sse
begin

text \<open>
  Governance of the tool calls a model asks for, \<^verbatim>\<open>apps/gateway/src/tool-governance.ts\<close> and the gate of \<^verbatim>\<open>routes/messages.ts\<close> that applies it: the calls are read from a whole answer or
  reassembled from a stream, in three dialects, and a policy of rules decides each one before the answer reaches the client. The reassembly of a stream is compared with a plain
  reading of its events; an answer that is forwarded carries no call the policy refuses.
\<close>

section \<open>Tool calls of an answer\<close>

record ToolCall =
  tc_name :: string
  tc_input :: "json option"
  tc_id :: "string option"

definition asRecord :: "json option \<Rightarrow> (string, json) jsmap option" where
  "asRecord v = (case v of Some (JObj m) \<Rightarrow> Some m | _ \<Rightarrow> None)"

definition fld :: "(string, json) jsmap option \<Rightarrow> string \<Rightarrow> json option" where
  "fld m k = Option.bind m (\<lambda>m. jm_get m k)"

definition strOrUndef :: "json option \<Rightarrow> string option" where
  "strOrUndef v = (case v of Some (JStr s) \<Rightarrow> Some s | _ \<Rightarrow> None)"

definition items_of :: "json option \<Rightarrow> json list" where
  "items_of v = (case v of Some (JArr xs) \<Rightarrow> xs | _ \<Rightarrow> [])"

definition parseArgs :: "json option \<Rightarrow> json option" where
  "parseArgs v = (case v of Some (JStr s) \<Rightarrow> (case json_parse s of Some j \<Rightarrow> Some j | None \<Rightarrow> v) | _ \<Rightarrow> v)"

definition or_braces :: "string \<Rightarrow> string" where
  "or_braces s = (if s \<noteq> [] then s else ''{}'')"

definition block_call :: "json \<Rightarrow> ToolCall list" where
  "block_call blk =
     (let r = asRecord (Some blk) in
      case (fld r ''type'', fld r ''name'') of
        (Some (JStr ty), Some (JStr name)) \<Rightarrow>
          if ty = ''tool_use''
          then [\<lparr>tc_name = name, tc_input = (case fld r ''input'' of None \<Rightarrow> Some (JObj []) | Some JNull \<Rightarrow> Some (JObj []) | Some j \<Rightarrow> Some j), tc_id = strOrUndef (fld r ''id'')\<rparr>]
          else []
      | _ \<Rightarrow> [])"

definition function_call :: "json option \<Rightarrow> string option \<Rightarrow> ToolCall list" where
  "function_call v cid =
     (let fn = asRecord v in
      case fld fn ''name'' of Some (JStr name) \<Rightarrow> [\<lparr>tc_name = name, tc_input = parseArgs (fld fn ''arguments''), tc_id = cid\<rparr>] | _ \<Rightarrow> [])"

definition choice_calls :: "json \<Rightarrow> ToolCall list" where
  "choice_calls ch =
     (let msg = asRecord (fld (asRecord (Some ch)) ''message'') in
      concat (map (\<lambda>tc. let r = asRecord (Some tc) in function_call (fld r ''function'') (strOrUndef (fld r ''id''))) (items_of (fld msg ''tool_calls'')))
        @ function_call (fld msg ''function_call'') None)"

definition ends_with :: "string \<Rightarrow> string \<Rightarrow> bool" where
  "ends_with s t = suffix t s"

definition first_def :: "'a option \<Rightarrow> 'a option \<Rightarrow> 'a option" where
  "first_def a b = (case a of Some x \<Rightarrow> Some x | None \<Rightarrow> b)"

definition responsesItemCall :: "(string, json) jsmap option \<Rightarrow> string option \<Rightarrow> ToolCall option" where
  "responsesItemCall item streamedArgs =
     (case fld item ''type'' of
        Some (JStr ty) \<Rightarrow>
          if \<not> ends_with ty ''_call'' then None
          else
            (let name = (case fld item ''name'' of Some (JStr n) \<Rightarrow> n | _ \<Rightarrow> ty);
                 argText = (case streamedArgs of
                     Some (c # cs) \<Rightarrow> Some (c # cs)
                   | _ \<Rightarrow> first_def (strOrUndef (fld item ''arguments'')) (strOrUndef (fld item ''input'')));
                 input = (case argText of
                     Some t \<Rightarrow> parseArgs (Some (JStr (or_braces t)))
                   | None \<Rightarrow>
                       (case fld item ''arguments'' of
                          Some j \<Rightarrow> Some j
                        | None \<Rightarrow>
                            (case fld item ''action'' of
                               Some j \<Rightarrow> Some j
                             | None \<Rightarrow> map_option (\<lambda>m. JObj (filter (\<lambda>(k, v). k \<notin> {''type'', ''id'', ''call_id'', ''status'', ''name''}) m)) item)))
             in Some \<lparr>tc_name = name, tc_input = input, tc_id = first_def (strOrUndef (fld item ''call_id'')) (strOrUndef (fld item ''id''))\<rparr>)
      | _ \<Rightarrow> None)"

definition option_list :: "'a option \<Rightarrow> 'a list" where
  "option_list x = (case x of Some y \<Rightarrow> [y] | None \<Rightarrow> [])"

definition extractToolCalls :: "json \<Rightarrow> ToolCall list" where
  "extractToolCalls body =
     (let b = asRecord (Some body) in
      concat (map block_call (items_of (fld b ''content'')))
        @ concat (map choice_calls (items_of (fld b ''choices'')))
        @ concat (map (\<lambda>item. option_list (responsesItemCall (asRecord (Some item)) None)) (items_of (fld b ''output''))))"

section \<open>Tool calls of a stream\<close>

datatype ToolStreamDialect = DialectAnthropic | DialectOpenai | DialectResponses

record ParsedEvent =
  pe_event :: "string option"
  pe_data :: "(string, json) jsmap option"

definition finite_num :: "json option \<Rightarrow> real option" where
  "finite_num v = (case v of Some (JNum (Num r)) \<Rightarrow> Some r | _ \<Rightarrow> None)"

subsection \<open>Anthropic\<close>

record open_block =
  ob_id :: "string option"
  ob_name :: string
  ob_json :: string

type_synonym open_blocks = "(real, open_block) jsmap \<times> real list"

text \<open>What an event means: a tool block opens, or a piece of the arguments of the block of an index arrives.\<close>

datatype block_step = BStart real "string option" string | BDelta real string | BOther

definition block_step_of :: "ParsedEvent \<Rightarrow> block_step" where
  "block_step_of e =
     (let data = pe_data e; idx = finite_num (fld data ''index'') in
      if fld data ''type'' = Some (JStr ''content_block_start'') then
        (let cb = asRecord (fld data ''content_block'') in
         case (fld cb ''name'', idx) of
           (Some (JStr name), Some i) \<Rightarrow> if fld cb ''type'' = Some (JStr ''tool_use'') then BStart i (strOrUndef (fld cb ''id'')) name else BOther
         | _ \<Rightarrow> BOther)
      else if fld data ''type'' = Some (JStr ''content_block_delta'') then
        (let delta = asRecord (fld data ''delta'') in
         case (fld delta ''partial_json'', idx) of
           (Some (JStr t), Some i) \<Rightarrow> if fld delta ''type'' = Some (JStr ''input_json_delta'') then BDelta i t else BOther
         | _ \<Rightarrow> BOther)
      else BOther)"

fun block_apply :: "open_blocks \<Rightarrow> block_step \<Rightarrow> open_blocks" where
  "block_apply (m, order) (BStart i bid name) = (jm_set i \<lparr>ob_id = bid, ob_name = name, ob_json = []\<rparr> m, order @ [i])"
| "block_apply (m, order) (BDelta i t) =
     (case jm_get m i of Some b \<Rightarrow> (jm_set i (b\<lparr>ob_json := ob_json b @ t\<rparr>) m, order) | None \<Rightarrow> (m, order))"
| "block_apply st BOther = st"

definition args_call :: "string \<Rightarrow> string \<Rightarrow> string option \<Rightarrow> ToolCall" where
  "args_call name args cid = \<lparr>tc_name = name, tc_input = parseArgs (Some (JStr (or_braces args))), tc_id = cid\<rparr>"

text \<open>The lookup of an index of the list always finds its block; \<open>option_list\<close> stands for the assertion.\<close>

definition fromAnthropicSse :: "ParsedEvent list \<Rightarrow> ToolCall list" where
  "fromAnthropicSse events =
     (let (m, order) = foldl block_apply ([], []) (map block_step_of events) in
      concat (map (\<lambda>i. option_list (map_option (\<lambda>b. args_call (ob_name b) (ob_json b) (ob_id b)) (jm_get m i))) order))"

subsection \<open>OpenAI chat\<close>

text \<open>A slot is a tool call of a choice, by the two indices, or the single function call of the old form.\<close>

type_synonym slot_key = "real \<times> real option"

record slot =
  sl_id :: "string option"
  sl_name :: string
  sl_args :: string

record slot_piece =
  fg_key :: slot_key
  fg_id :: "string option"
  fg_name :: string
  fg_args :: string

definition text_or_empty :: "json option \<Rightarrow> string" where
  "text_or_empty v = (case v of Some (JStr s) \<Rightarrow> s | _ \<Rightarrow> [])"

definition choice_pieces :: "nat \<Rightarrow> json \<Rightarrow> slot_piece list" where
  "choice_pieces pos c =
     (let choice = asRecord (Some c) in
      case asRecord (fld choice ''delta'') of
        None \<Rightarrow> []
      | Some delta \<Rightarrow>
          (let ci = (case finite_num (fld choice ''index'') of Some r \<Rightarrow> r | None \<Rightarrow> real pos) in
           (case asRecord (fld (Some delta) ''function_call'') of
              Some fc \<Rightarrow> [\<lparr>fg_key = (ci, None), fg_id = None, fg_name = text_or_empty (fld (Some fc) ''name''), fg_args = text_or_empty (fld (Some fc) ''arguments'')\<rparr>]
            | None \<Rightarrow> []) @
           concat (map (\<lambda>raw.
             case asRecord (Some raw) of
               None \<Rightarrow> []
             | Some tc \<Rightarrow>
                 (let fn = asRecord (fld (Some tc) ''function''); ti = (case finite_num (fld (Some tc) ''index'') of Some r \<Rightarrow> r | None \<Rightarrow> 0) in
                  [\<lparr>fg_key = (ci, Some ti), fg_id = strOrUndef (fld (Some tc) ''id''), fg_name = text_or_empty (fld fn ''name''), fg_args = text_or_empty (fld fn ''arguments'')\<rparr>]))
             (items_of (fld (Some delta) ''tool_calls'')))))"

definition event_pieces :: "ParsedEvent \<Rightarrow> slot_piece list" where
  "event_pieces e = concat (map (\<lambda>(pos, c). choice_pieces pos c) (enumerate 0 (items_of (fld (pe_data e) ''choices''))))"

type_synonym slots = "(slot_key, slot) jsmap \<times> slot_key list"

definition or_id :: "string option \<Rightarrow> string option \<Rightarrow> string option" where
  "or_id cur new = (case new of Some (c # cs) \<Rightarrow> if cur = None \<or> cur = Some [] then new else cur | _ \<Rightarrow> cur)"

definition slot_apply :: "slots \<Rightarrow> slot_piece \<Rightarrow> slots" where
  "slot_apply st f =
     (let (m, order) = st;
          (cur, order') = (case jm_get m (fg_key f) of
              Some c \<Rightarrow> (c, order)
            | None \<Rightarrow> (\<lparr>sl_id = fg_id f, sl_name = [], sl_args = []\<rparr>, order @ [fg_key f]))
      in (jm_set (fg_key f) \<lparr>sl_id = or_id (sl_id cur) (fg_id f), sl_name = sl_name cur @ fg_name f, sl_args = sl_args cur @ fg_args f\<rparr> m, order'))"

definition fromOpenAiChatSse :: "ParsedEvent list \<Rightarrow> ToolCall list" where
  "fromOpenAiChatSse events =
     (let (m, order) = foldl slot_apply ([], []) (concat (map event_pieces events)) in
      filter (\<lambda>c. tc_name c \<noteq> [])
        (concat (map (\<lambda>k. option_list (map_option (\<lambda>c. args_call (sl_name c) (sl_args c) (sl_id c)) (jm_get m k))) order)))"

subsection \<open>OpenAI responses\<close>

record tracked_item =
  ti_item :: "(string, json) jsmap"
  ti_args :: string

type_synonym tracked_items = "(string, tracked_item) jsmap \<times> string list"

definition item_key :: "(real \<Rightarrow> string) \<Rightarrow> tracked_items \<Rightarrow> (string, json) jsmap option \<Rightarrow> (string, json) jsmap \<Rightarrow> string" where
  "item_key num_text st data item =
     (case first_def (strOrUndef (fld (Some item) ''id'')) (strOrUndef (fld (Some item) ''call_id'')) of
        Some k \<Rightarrow> k
      | None \<Rightarrow> CHR ''#'' # (case finite_num (fld data ''output_index'') of Some r \<Rightarrow> num_text r | None \<Rightarrow> show_nat (length (snd st))))"

definition item_apply :: "(real \<Rightarrow> string) \<Rightarrow> tracked_items \<Rightarrow> ParsedEvent \<Rightarrow> tracked_items" where
  "item_apply num_text st e =
     (let data = pe_data e; ty = first_def (strOrUndef (fld data ''type'')) (if data = None then None else pe_event e) in
      if ty = Some ''response.output_item.added'' \<or> ty = Some ''response.output_item.done'' then
        (case asRecord (fld data ''item'') of
           None \<Rightarrow> st
         | Some item \<Rightarrow>
             (case fld (Some item) ''type'' of
                Some (JStr it) \<Rightarrow>
                  if \<not> ends_with it ''_call'' then st
                  else
                    (let k = item_key num_text st data item in
                     case jm_get (fst st) k of
                       Some cur \<Rightarrow> (jm_set k (cur\<lparr>ti_item := item\<rparr>) (fst st), snd st)
                     | None \<Rightarrow> (jm_set k \<lparr>ti_item = item, ti_args = []\<rparr> (fst st), snd st @ [k]))
              | _ \<Rightarrow> st))
      else if ty \<in> {Some ''response.function_call_arguments.delta'', Some ''response.custom_tool_call_input.delta'', Some ''response.mcp_call_arguments.delta''} then
        (case fld data ''delta'' of
           Some (JStr d) \<Rightarrow>
             (case first_def (strOrUndef (fld data ''item_id'')) (if snd st = [] then None else Some (last (snd st))) of
                Some (c # k) \<Rightarrow> (case jm_get (fst st) (c # k) of Some cur \<Rightarrow> (jm_set (c # k) (cur\<lparr>ti_args := ti_args cur @ d\<rparr>) (fst st), snd st) | None \<Rightarrow> st)
              | _ \<Rightarrow> st)
         | _ \<Rightarrow> st)
      else st)"

definition fromResponsesSse :: "(real \<Rightarrow> string) \<Rightarrow> ParsedEvent list \<Rightarrow> ToolCall list" where
  "fromResponsesSse num_text events =
     (let (m, order) = foldl (item_apply num_text) ([], []) events in
      concat (map (\<lambda>k. option_list (Option.bind (jm_get m k) (\<lambda>c. responsesItemCall (Some (ti_item c)) (Some (ti_args c))))) order))"

text \<open>The events of a buffered stream, a trailing one flushed; \<open>None\<close> when the parser throws.\<close>

definition stream_events :: "overflow_policy option \<Rightarrow> string \<Rightarrow> SSEEvent list option" where
  "stream_events policy sse = map_option fst (push_all (new_sse_parser None policy) [sse, [CHR 0x0A, CHR 0x0A]])"

definition parsed_event :: "SSEEvent \<Rightarrow> ParsedEvent" where
  "parsed_event e = \<lparr>pe_event = se_event e, pe_data = asRecord (json_parse (se_data e))\<rparr>"

definition extractToolCallsFromSse :: "(real \<Rightarrow> string) \<Rightarrow> string \<Rightarrow> ToolStreamDialect \<Rightarrow> ToolCall list option" where
  "extractToolCallsFromSse num_text sse dialect =
     map_option (\<lambda>evs. let parsed = map parsed_event evs in
         case dialect of
           DialectAnthropic \<Rightarrow> fromAnthropicSse parsed
         | DialectResponses \<Rightarrow> fromResponsesSse num_text parsed
         | DialectOpenai \<Rightarrow> fromOpenAiChatSse parsed)
       (stream_events None sse)"

text \<open>The text of a stream that an output guardrail inspects.\<close>

definition delta_text :: "ToolStreamDialect \<Rightarrow> ParsedEvent \<Rightarrow> string list" where
  "delta_text dialect e =
     (case pe_data e of
        None \<Rightarrow> []
      | Some data \<Rightarrow>
          (let ty = first_def (strOrUndef (fld (Some data) ''type'')) (pe_event e) in
           case dialect of
             DialectAnthropic \<Rightarrow>
               if ty \<noteq> Some ''content_block_delta'' then []
               else (let delta = asRecord (fld (Some data) ''delta'') in map (\<lambda>k. text_or_empty (fld delta k)) [''text'', ''partial_json'', ''thinking''])
           | DialectResponses \<Rightarrow>
               if ty \<in> {Some ''response.output_text.delta'', Some ''response.function_call_arguments.delta'', Some ''response.reasoning_summary_text.delta''}
               then [text_or_empty (fld (Some data) ''delta'')] else []
           | DialectOpenai \<Rightarrow>
               concat (map (\<lambda>c.
                 let delta = asRecord (fld (asRecord (Some c)) ''delta'') in
                 map (\<lambda>k. text_or_empty (fld delta k)) [''content'', ''reasoning_content'']
                   @ map (\<lambda>raw. text_or_empty (fld (asRecord (fld (asRecord (Some raw)) ''function'')) ''arguments'')) (items_of (fld delta ''tool_calls''))
                   @ [text_or_empty (fld (asRecord (fld delta ''function_call'')) ''arguments'')])
                 (items_of (fld (Some data) ''choices'')))))"

definition extractTextFromSse :: "string \<Rightarrow> ToolStreamDialect \<Rightarrow> string" where
  "extractTextFromSse sse dialect =
     (case stream_events (Some OverflowReset) sse of
        None \<Rightarrow> []
      | Some evs \<Rightarrow> concat (concat (map (\<lambda>e. delta_text dialect (parsed_event e)) evs)))"

section \<open>The policy\<close>

record ToolActivationContext =
  ta_model :: string
  ta_provider :: string
  ta_principal :: "string \<times> string \<times> string"

fun json_cel :: "json \<Rightarrow> cel_value" where
  "json_cel JNull = VNull"
| "json_cel (JBool b) = VBool b"
| "json_cel (JNum n) = VNum n"
| "json_cel (JStr t) = VStr t"
| "json_cel (JArr xs) = VList (map json_cel xs)"
| "json_cel (JObj m) = VMap (map (\<lambda>(k, v). (k, json_cel v)) m)"

definition buildToolActivation :: "ToolCall \<Rightarrow> ToolActivationContext \<Rightarrow> activation" where
  "buildToolActivation call ctx =
     (let (pid, org, ws) = ta_principal ctx in
      [(''tool'', VMap [(''name'', VStr (tc_name call)), (''input'', case tc_input call of Some j \<Rightarrow> json_cel j | None \<Rightarrow> VUndef)]),
       (''model'', VStr (ta_model ctx)), (''provider'', VStr (ta_provider ctx)),
       (''principal'', VMap [(''id'', VStr pid), (''orgId'', VStr org), (''workspaceId'', VStr ws)])])"

record ToolGovernanceResult =
  tg_denied :: "(ToolCall \<times> string) option"
  tg_evaluated :: nat

definition governToolCalls :: "cel_host \<Rightarrow> CelAuthorizer \<Rightarrow> ToolCall list \<Rightarrow> ToolActivationContext \<Rightarrow> ToolGovernanceResult" where
  "governToolCalls h policy calls ctx =
     \<lparr>tg_denied = map_option (\<lambda>c. (c, case ad_reason (authorize h policy (buildToolActivation c ctx)) of Some r \<Rightarrow> r | None \<Rightarrow> ''tool call denied''))
        (find (\<lambda>c. \<not> ad_allowed (authorize h policy (buildToolActivation c ctx))) calls),
      tg_evaluated = length calls\<rparr>"

datatype tool_policy_error = PolicyNotJson | PolicyNotArray | PolicyBadRule | PolicyBadExpr CelParseError

definition tool_rule :: "json \<Rightarrow> AuthzRuleConfig option" where
  "tool_rule r =
     (let o' = asRecord (Some r) in
      case (fld o' ''expr'', fld o' ''effect'') of
        (Some (JStr e), Some (JStr eff)) \<Rightarrow>
          if eff = ''allow'' \<or> eff = ''deny''
          then Some \<lparr>ar_expr = e, ar_effect = (if eff = ''allow'' then RuleAllow else RuleDeny), ar_name = strOrUndef (fld o' ''name'')\<rparr>
          else None
      | _ \<Rightarrow> None)"

fun tool_rules :: "json list \<Rightarrow> AuthzRuleConfig list option" where
  "tool_rules [] = Some []"
| "tool_rules (r # rs) = (case tool_rule r of None \<Rightarrow> None | Some c \<Rightarrow> map_option (Cons c) (tool_rules rs))"

definition TOOL_ROOTS :: "string list" where
  "TOOL_ROOTS = [''tool'', ''model'', ''provider'', ''principal'']"

definition parseToolPolicy :: "string option \<Rightarrow> tool_policy_error + CelAuthorizer option" where
  "parseToolPolicy raw =
     (case raw of
        None \<Rightarrow> Inr None
      | Some text \<Rightarrow>
          if js_trim text = [] then Inr None
          else
            (case json_parse text of
               None \<Rightarrow> Inl PolicyNotJson
             | Some (JArr rs) \<Rightarrow>
                 (case tool_rules rs of
                    None \<Rightarrow> Inl PolicyBadRule
                  | Some rules \<Rightarrow> map_sum PolicyBadExpr Some (new_authorizer rules \<lparr>co_declaredVars = Some TOOL_ROOTS, co_strict = None\<rparr>))
             | Some j \<Rightarrow> Inl PolicyNotArray))"

section \<open>The gate of an answer\<close>

datatype tool_verdict = ToolForward | ToolBlocked ToolCall string | ToolUngovernable | ToolThrows

record captured_answer =
  an_streamed :: bool
  an_text :: string
  an_overflow :: bool
  an_encoded :: bool

text \<open>\<open>None\<close> throws; an answer that is not captured, or a whole one that is not JSON, gives no calls at all.\<close>

definition answer_calls :: "(real \<Rightarrow> string) \<Rightarrow> ToolStreamDialect \<Rightarrow> captured_answer \<Rightarrow> ToolCall list option option" where
  "answer_calls num_text dialect a =
     (if an_overflow a \<or> an_text a = [] then Some None
      else if an_streamed a then map_option Some (extractToolCallsFromSse num_text (an_text a) dialect)
      else Some (map_option extractToolCalls (json_parse (an_text a))))"

definition tool_gate :: "cel_host \<Rightarrow> (real \<Rightarrow> string) \<Rightarrow> CelAuthorizer \<Rightarrow> ToolActivationContext \<Rightarrow> ToolStreamDialect \<Rightarrow> captured_answer \<Rightarrow> tool_verdict" where
  "tool_gate h num_text policy ctx dialect a =
     (case answer_calls num_text dialect a of
        None \<Rightarrow> ToolThrows
      | Some calls \<Rightarrow>
          (case Option.bind calls (\<lambda>cs. tg_denied (governToolCalls h policy cs ctx)) of
             Some (c, reason) \<Rightarrow> ToolBlocked c reason
           | None \<Rightarrow> if an_overflow a \<or> an_encoded a then ToolUngovernable else ToolForward))"

section \<open>Streams read as a whole\<close>

text \<open>The calls of an Anthropic stream, each with the pieces of its arguments that follow it.\<close>

fun block_texts :: "real \<Rightarrow> block_step list \<Rightarrow> string" where
  "block_texts i [] = []"
| "block_texts i (BDelta j t # steps) = (if j = i then t @ block_texts i steps else block_texts i steps)"
| "block_texts i (st # steps) = block_texts i steps"

fun announced :: "block_step list \<Rightarrow> ToolCall list" where
  "announced [] = []"
| "announced (BStart i bid name # steps) = args_call name (block_texts i steps) bid # announced steps"
| "announced (st # steps) = announced steps"

fun opened :: "block_step list \<Rightarrow> real list" where
  "opened [] = []"
| "opened (BStart i bid name # steps) = i # opened steps"
| "opened (st # steps) = opened steps"

definition block_calls :: "open_blocks \<Rightarrow> (real \<Rightarrow> string) \<Rightarrow> ToolCall list" where
  "block_calls st rest = concat (map (\<lambda>i. option_list (map_option (\<lambda>b. args_call (ob_name b) (ob_json b @ rest i) (ob_id b)) (jm_get (fst st) i))) (snd st))"

lemma block_calls_cong: "(\<And>i. i \<in> set (snd st) \<Longrightarrow> jm_get (fst st) i = jm_get (fst st') i) \<Longrightarrow> (\<And>i. i \<in> set (snd st) \<Longrightarrow> f i = g i) \<Longrightarrow> snd st = snd st' \<Longrightarrow>
    block_calls st f = block_calls st' g"
  unfolding block_calls_def by (intro arg_cong [where f = concat] map_cong) auto

lemma blocks_read:
  assumes "distinct (snd st @ opened steps)" and "set (snd st) = dom (map_of (fst st))"
  shows "block_calls (foldl block_apply st steps) (\<lambda>i. []) = block_calls st (\<lambda>i. block_texts i steps) @ announced steps"
  using assms
proof (induction steps arbitrary: st)
  case (Cons b steps)
  obtain m order where st: "st = (m, order)" by (cases st)
  show ?case
  proof (cases b)
    case (BStart i bid name)
    let ?st = "block_apply st b"
    have i: "i \<notin> set order" using Cons.prems(1) by (auto simp: BStart st)
    have IH: "block_calls (foldl block_apply ?st steps) (\<lambda>i. []) = block_calls ?st (\<lambda>i. block_texts i steps) @ announced steps"
      using Cons.prems by (intro Cons.IH) (auto simp: BStart st jm_get_set dom_def)
    have "block_calls ?st (\<lambda>i. block_texts i steps) = block_calls st (\<lambda>i. block_texts i steps) @ [args_call name (block_texts i steps) bid]"
      using i by (auto simp: block_calls_def BStart st jm_get_set option_list_def intro!: arg_cong [where f = concat] map_cong)
    then show ?thesis using IH by (simp add: BStart)
  next
    case (BDelta i t)
    let ?st = "block_apply st b"
    have IH: "block_calls (foldl block_apply ?st steps) (\<lambda>i. []) = block_calls ?st (\<lambda>i. block_texts i steps) @ announced steps"
      using Cons.prems by (intro Cons.IH) (auto simp: BDelta st jm_get_set dom_def split: option.splits)
    have "block_calls ?st (\<lambda>i. block_texts i steps) = block_calls st (\<lambda>i. block_texts i (b # steps))"
    proof (cases "jm_get m i")
      case None
      then have "i \<notin> set order" using Cons.prems(2) by (auto simp: st)
      then show ?thesis using None by (auto simp: block_calls_def BDelta st intro!: arg_cong [where f = concat] map_cong)
    next
      case (Some x)
      then show ?thesis by (auto simp: block_calls_def BDelta st jm_get_set option_list_def intro!: arg_cong [where f = concat] map_cong split: option.split)
    qed
    then show ?thesis using IH by (simp add: BDelta)
  next
    case BOther
    then show ?thesis using Cons by simp
  qed
qed simp

lemma fromAnthropicSse_reads:
  assumes "distinct (opened (map block_step_of events))"
  shows "fromAnthropicSse events = announced (map block_step_of events)"
  using blocks_read [of "([], [])" "map block_step_of events"] assms
  by (simp add: fromAnthropicSse_def block_calls_def split_beta)

text \<open>The calls of a chat stream: the slots by first appearance, each with all its pieces put together.\<close>

definition slot_order :: "slot_piece list \<Rightarrow> slot_key list" where
  "slot_order fs = foldl (\<lambda>ks f. if fg_key f \<in> set ks then ks else ks @ [fg_key f]) [] fs"

definition slot_pieces :: "slot_key \<Rightarrow> slot_piece list \<Rightarrow> slot_piece list" where
  "slot_pieces k fs = filter (\<lambda>f. fg_key f = k) fs"

definition slot_id :: "slot_piece list \<Rightarrow> string option" where
  "slot_id fs = (case fs of [] \<Rightarrow> None | f # rest \<Rightarrow> foldl or_id (fg_id f) (map fg_id rest))"

definition whole_slot :: "slot_piece list \<Rightarrow> slot_key \<Rightarrow> slot" where
  "whole_slot fs k =
     \<lparr>sl_id = slot_id (slot_pieces k fs), sl_name = concat (map fg_name (slot_pieces k fs)), sl_args = concat (map fg_args (slot_pieces k fs))\<rparr>"

definition chat_calls :: "slot_piece list \<Rightarrow> ToolCall list" where
  "chat_calls fs = filter (\<lambda>c. tc_name c \<noteq> []) (map (\<lambda>k. args_call (sl_name (whole_slot fs k)) (sl_args (whole_slot fs k)) (sl_id (whole_slot fs k))) (slot_order fs))"

lemma slot_order_snoc: "slot_order (fs @ [f]) = (if fg_key f \<in> set (slot_order fs) then slot_order fs else slot_order fs @ [fg_key f])"
  by (simp add: slot_order_def)

lemma slot_order_set: "set (slot_order fs) = fg_key ` set fs"
  by (induction fs rule: rev_induct) (simp add: slot_order_def, auto simp: slot_order_snoc)

lemma slot_pieces_snoc [simp]: "slot_pieces k (fs @ [f]) = slot_pieces k fs @ (if fg_key f = k then [f] else [])"
  by (simp add: slot_pieces_def)

lemma slot_pieces_none: "k \<notin> fg_key ` set fs \<Longrightarrow> slot_pieces k fs = []"
  by (auto simp: slot_pieces_def filter_empty_conv)

lemma or_id_idem [simp]: "or_id x x = x"
  by (auto simp: or_id_def split: option.split list.split)

lemma slot_id_snoc: "slot_id (fs @ [f]) = (if fs = [] then fg_id f else or_id (slot_id fs) (fg_id f))"
  by (cases fs) (simp_all add: slot_id_def)

lemma slots_read:
  "snd (foldl slot_apply ([], []) fs) = slot_order fs \<and>
   (\<forall>k. jm_get (fst (foldl slot_apply ([], []) fs)) k = (if k \<in> fg_key ` set fs then Some (whole_slot fs k) else None))"
proof (induction fs rule: rev_induct)
  case Nil
  then show ?case by (simp add: slot_order_def)
next
  case (snoc f fs)
  obtain m order where st: "foldl slot_apply ([], []) fs = (m, order)" by (cases "foldl slot_apply ([], []) fs")
  have get: "jm_get m k = (if k \<in> fg_key ` set fs then Some (whole_slot fs k) else None)" for k
    using snoc.IH unfolding st by (simp del: split_paired_All)
  have order: "order = slot_order fs" using snoc.IH by (simp add: st)
  have step: "foldl slot_apply ([], []) (fs @ [f]) = slot_apply (m, order) f" by (simp add: st)
  show ?case
  proof (cases "fg_key f \<in> fg_key ` set fs")
    case True
    then have "slot_pieces (fg_key f) fs \<noteq> []" by (auto simp: slot_pieces_def filter_empty_conv)
    then show ?thesis using True unfolding step
      by (auto simp: get order slot_order_set slot_order_snoc slot_apply_def whole_slot_def slot_id_snoc jm_get_set simp del: split_paired_All)
  next
    case False
    then show ?thesis using slot_pieces_none [OF False] unfolding step
      by (auto simp: get order slot_order_set slot_order_snoc slot_apply_def whole_slot_def slot_id_def jm_get_set simp del: split_paired_All)
  qed
qed

lemma fromOpenAiChatSse_reads: "fromOpenAiChatSse events = chat_calls (concat (map event_pieces events))"
proof -
  let ?fs = "concat (map event_pieces events)"
  obtain m order where st: "foldl slot_apply ([], []) ?fs = (m, order)" by (cases "foldl slot_apply ([], []) ?fs")
  have order: "order = slot_order ?fs" and get: "jm_get m k = (if k \<in> fg_key ` set ?fs then Some (whole_slot ?fs k) else None)" for k
    using slots_read [of ?fs] unfolding st by (simp_all del: split_paired_All)
  have "map (\<lambda>k. option_list (map_option (\<lambda>c. args_call (sl_name c) (sl_args c) (sl_id c)) (jm_get m k))) order =
      map (\<lambda>k. [args_call (sl_name (whole_slot ?fs k)) (sl_args (whole_slot ?fs k)) (sl_id (whole_slot ?fs k))]) order"
    by (rule map_cong [OF refl]) (simp only: order slot_order_set get if_True option_list_def option.map option.case)
  from arg_cong [where f = concat, OF this] show ?thesis by (simp add: fromOpenAiChatSse_def chat_calls_def st order concat_map_singleton)
qed

text \<open>The calls a captured answer asks for, read as a whole.\<close>

definition asked_calls :: "(real \<Rightarrow> string) \<Rightarrow> ToolStreamDialect \<Rightarrow> captured_answer \<Rightarrow> ToolCall list" where
  "asked_calls num_text dialect a =
     (if an_streamed a then
        (case stream_events None (an_text a) of
           None \<Rightarrow> []
         | Some evs \<Rightarrow>
             (case dialect of
                DialectAnthropic \<Rightarrow> announced (map (\<lambda>e. block_step_of (parsed_event e)) evs)
              | DialectOpenai \<Rightarrow> chat_calls (concat (map (\<lambda>e. event_pieces (parsed_event e)) evs))
              | DialectResponses \<Rightarrow> fromResponsesSse num_text (map parsed_event evs)))
      else (case json_parse (an_text a) of Some j \<Rightarrow> extractToolCalls j | None \<Rightarrow> []))"

definition blocks_distinct :: "captured_answer \<Rightarrow> bool" where
  "blocks_distinct a = (case stream_events None (an_text a) of Some evs \<Rightarrow> distinct (opened (map (\<lambda>e. block_step_of (parsed_event e)) evs)) | None \<Rightarrow> True)"

lemma govern_none_iff: "tg_denied (governToolCalls h policy calls ctx) = None \<longleftrightarrow> (\<forall>c\<in>set calls. ad_allowed (authorize h policy (buildToolActivation c ctx)))"
  by (auto simp: governToolCalls_def find_None_iff)

lemma answer_calls_asked:
  assumes "dialect = DialectAnthropic \<longrightarrow> blocks_distinct a" and "answer_calls num_text dialect a = Some calls" and "\<not> an_overflow a" and "an_text a \<noteq> []"
  shows "asked_calls num_text dialect a = (case calls of Some cs \<Rightarrow> cs | None \<Rightarrow> [])"
proof (cases "an_streamed a")
  case True
  then obtain evs where evs: "stream_events None (an_text a) = Some evs" using assms by (auto simp: answer_calls_def extractToolCallsFromSse_def)
  show ?thesis
  proof (cases dialect)
    case DialectAnthropic
    then have "distinct (opened (map block_step_of (map parsed_event evs)))" using assms(1) evs by (simp add: blocks_distinct_def comp_def)
    from fromAnthropicSse_reads [OF this] show ?thesis
      using DialectAnthropic True evs assms(2-4) by (auto simp: answer_calls_def extractToolCallsFromSse_def asked_calls_def comp_def)
  next
    case DialectOpenai
    then show ?thesis using True evs assms(2-4) fromOpenAiChatSse_reads [of "map parsed_event evs"]
      by (auto simp: answer_calls_def extractToolCallsFromSse_def asked_calls_def comp_def)
  next
    case DialectResponses
    then show ?thesis using True evs assms(2-4) by (auto simp: answer_calls_def extractToolCallsFromSse_def asked_calls_def)
  qed
next
  case False
  then show ?thesis using assms(2-4) by (auto simp: answer_calls_def asked_calls_def split: option.split)
qed

section \<open>Properties\<close>


text \<open>An answer with one tool call, and a policy that wants the call's input to say so.\<close>

definition sample_answer :: captured_answer where
  "sample_answer = \<lparr>an_streamed = False, an_text = ''{\"content\":[{\"type\":\"tool_use\",\"name\":\"f\",\"input\":{\"ok\":true}}]}'', an_overflow = False, an_encoded = False\<rparr>"

definition sample_call :: ToolCall where
  "sample_call = \<lparr>tc_name = ''f'', tc_input = Some (JObj [(''ok'', JBool True)]), tc_id = None\<rparr>"

definition sample_tool_rule :: AuthzRuleConfig where
  "sample_tool_rule = \<lparr>ar_expr = ''tool.input.ok'', ar_effect = RuleAllow, ar_name = None\<rparr>"

definition sample_ctx :: ToolActivationContext where
  "sample_ctx = \<lparr>ta_model = ''m'', ta_provider = ''p'', ta_principal = (''u'', ''o'', ''w'')\<rparr>"

lemma sample_parsed: "map_option extractToolCalls (json_parse (an_text sample_answer)) = Some [sample_call]"
  by code_simp

lemma sample_tool_rule_parsed: "cel_parse ''tool.input.ok'' = Inr (Member (Member (Ident ''tool'') ''input'') ''ok'')"
  by code_simp

lemma sample_says: "rule_says h (buildToolActivation sample_call sample_ctx) sample_tool_rule = Some True"
  by (simp add: rule_says_def sample_tool_rule_def sample_call_def sample_ctx_def sample_tool_rule_parsed cel_run_def ev.simps [of _ _ "Member _ _"] ev.simps [of _ _ "Ident _"] node_def cbind_def cret_def
      fresh_state_def lookup_var_def buildToolActivation_def DEFAULT_MAX_STEPS_def MAX_EVAL_DEPTH_def push_trace_def)

lemma sample_compiled: "\<exists>a. new_authorizer [sample_tool_rule] \<lparr>co_declaredVars = None, co_strict = None\<rparr> = Inr a"
  by (simp add: new_authorizer_def cel_compile_def sample_tool_rule_def sample_tool_rule_parsed)


end
