(* ===== verification/Dispatch.thy ===== *)
theory Dispatch
  imports Routing
begin

text \<open>
  The dispatch of a request to its upstreams before the first byte, \<^verbatim>\<open>apps/gateway/src/routes/messages.ts\<close>: bounded retries of one target, failover along the candidates, and the status when nothing
  is served. The breaker, the limiter, the outlier detector and the scoreboard are shared with the other requests of the process: at every \<^verbatim>\<open>await\<close> an arbitrary step of the rest of the world may change
  them, move the clock and abort the request. The calls the handler makes are recorded in order. Shown: every slot of the limiter and every half-open probe the handler takes is given back
  or handed to the served request, and a request that may have been generated is never sent again.
\<close>

section \<open>The state of a dispatch\<close>

record upstream_resp =
  up_status :: int
  up_retryAfterMs :: "int option"

datatype forward_outcome = Responds upstream_resp | Refused string | HeadersTimeout | ConnError

datatype AbortReason = AbClient | AbWatchdog | AbDeadline | AbTransform | AbSocket | AbGuardrail

datatype attempt_outcome = AtServed | AtShed | AtError | AtRetry | AtFailover

record RoutingAttempt =
  at_target :: string
  at_outcome :: attempt_outcome
  at_status :: "int option"
  at_ms :: "int option"

datatype dispatch_call =
    Acquire string
  | Release string
  | Record string bool
  | Probe string
  | HandBack string
  | Fault string "int option"
  | Good string
  | Forward string forward_outcome
  | Sleep int

record 'y shared =
  sh_breaker :: "'y breaker"
  sh_limiter :: AdaptiveLimiter
  sh_outlier :: OutlierDetector
  sh_scoreboard :: LoadScoreboard
  sh_now :: int

record 'y dispatch =
  dp_shared :: "'y shared"
  dp_calls :: "dispatch_call list"
  dp_awaits :: nat
  dp_abort :: "AbortReason option"
  dp_served :: "(RouteTarget \<times> upstream_resp) option"
  dp_dispatchMs :: "int option"
  dp_firstByteMs :: "int option"
  dp_scoreboardHeld :: bool
  dp_limiterHeld :: bool
  dp_anySaturation :: bool
  dp_anyRealAttempt :: bool
  dp_credentialUnavailable :: bool
  dp_headersTimedOut :: bool
  dp_deadlineExceeded :: bool
  dp_requestError :: "string option"
  dp_attempts :: "RoutingAttempt list"

text \<open>Which optional parts the process has, and the settings of the request.\<close>

record 'y dispatch_config =
  dc_sync :: "'y sync_ops"
  dc_breaker :: BreakerOptions
  dc_adaptive :: "AdaptiveOptions option"
  dc_outlier :: "OutlierOptions option"
  dc_scoreboard :: bool
  dc_strategy :: RoutingStrategy
  dc_maxAttempts :: nat
  dc_retryBackoffMs :: int

text \<open>The rest of the world at the \<open>k\<close>-th await: what the others do meanwhile, an abort that arrives, and the result awaited.\<close>

record 'y world =
  w_step :: "nat \<Rightarrow> 'y shared \<Rightarrow> 'y shared"
  w_abort :: "nat \<Rightarrow> AbortReason option"
  w_credential :: "nat \<Rightarrow> bool"
  w_forward :: "nat \<Rightarrow> forward_outcome"

definition RETRY_SLEEP_CAP_MS :: int where
  "RETRY_SLEEP_CAP_MS = 30000"

definition MAX_ROUTING_ATTEMPTS :: nat where
  "MAX_ROUTING_ATTEMPTS = 32"

definition aborted :: "'y dispatch \<Rightarrow> bool" where
  "aborted s \<longleftrightarrow> dp_abort s \<noteq> None"

definition abortWith :: "AbortReason \<Rightarrow> 'y dispatch \<Rightarrow> 'y dispatch" where
  "abortWith r s = s\<lparr>dp_abort := (case dp_abort s of None \<Rightarrow> Some r | Some r' \<Rightarrow> Some r')\<rparr>"

definition now_of :: "'y dispatch \<Rightarrow> int" where
  "now_of s = sh_now (dp_shared s)"

definition logged :: "dispatch_call \<Rightarrow> 'y dispatch \<Rightarrow> 'y dispatch" where
  "logged c s = s\<lparr>dp_calls := dp_calls s @ [c]\<rparr>"

definition noteAttempt :: "string \<Rightarrow> attempt_outcome \<Rightarrow> int option \<Rightarrow> int option \<Rightarrow> 'y dispatch \<Rightarrow> 'y dispatch" where
  "noteAttempt target outcome status ms s =
     (if length (dp_attempts s) < MAX_ROUTING_ATTEMPTS
      then s\<lparr>dp_attempts := dp_attempts s @ [\<lparr>at_target = target, at_outcome = outcome, at_status = status, at_ms = ms\<rparr>]\<rparr> else s)"

text \<open>The deadline timer aborts only before the first byte; any other abort is the client's.\<close>

definition await :: "'y world \<Rightarrow> 'y dispatch \<Rightarrow> 'y dispatch" where
  "await w s =
     (let s1 = s\<lparr>dp_shared := w_step w (dp_awaits s) (dp_shared s), dp_awaits := dp_awaits s + 1\<rparr> in
      case w_abort w (dp_awaits s) of
        None \<Rightarrow> s1
      | Some AbDeadline \<Rightarrow>
          if dp_firstByteMs s1 = None \<and> \<not> aborted s1 then abortWith AbDeadline (s1\<lparr>dp_deadlineExceeded := True\<rparr>) else s1
      | Some r \<Rightarrow> abortWith r s1)"

section \<open>Calls to the shared parts\<close>

definition slot_acquire :: "'y dispatch_config \<Rightarrow> string \<Rightarrow> 'y dispatch \<Rightarrow> (bool \<times> bool) \<times> 'y dispatch" where
  "slot_acquire cfg name s =
     (case dc_adaptive cfg of
        None \<Rightarrow> ((True, False), s)
      | Some a \<Rightarrow>
          (let (ok, l) = tryAcquire a (now_of s) name (sh_limiter (dp_shared s));
               s1 = s\<lparr>dp_shared := (dp_shared s)\<lparr>sh_limiter := l\<rparr>\<rparr>
           in ((ok, ok), if ok then logged (Acquire name) s1 else s1)))"

definition slot_release :: "'y dispatch_config \<Rightarrow> string \<Rightarrow> bool \<Rightarrow> 'y dispatch \<Rightarrow> 'y dispatch" where
  "slot_release cfg name acquired s =
     (case dc_adaptive cfg of
        Some a \<Rightarrow> if acquired then logged (Release name) (s\<lparr>dp_shared := (dp_shared s)\<lparr>sh_limiter := release_slot a (now_of s) name (sh_limiter (dp_shared s))\<rparr>\<rparr>) else s
      | None \<Rightarrow> s)"

definition slot_record :: "'y dispatch_config \<Rightarrow> string \<Rightarrow> int \<Rightarrow> bool \<Rightarrow> bool \<Rightarrow> 'y dispatch \<Rightarrow> 'y dispatch" where
  "slot_record cfg name rtt dropped acquired s =
     (case dc_adaptive cfg of
        Some a \<Rightarrow>
          if acquired
          then logged (Record name dropped) (s\<lparr>dp_shared := (dp_shared s)\<lparr>sh_limiter := record_slot a (now_of s) name (of_int rtt) dropped (sh_limiter (dp_shared s))\<rparr>\<rparr>) else s
      | None \<Rightarrow> s)"

definition try_probe :: "'y dispatch_config \<Rightarrow> string \<Rightarrow> 'y dispatch \<Rightarrow> bool \<times> 'y dispatch" where
  "try_probe cfg name s =
     (let (ok, b) = tryProbe (dc_sync cfg) (dc_breaker cfg) (now_of s) name (sh_breaker (dp_shared s));
          s1 = s\<lparr>dp_shared := (dp_shared s)\<lparr>sh_breaker := b\<rparr>\<rparr>
      in (ok, if ok then logged (Probe name) s1 else s1))"

definition hand_back :: "string \<Rightarrow> 'y dispatch \<Rightarrow> 'y dispatch" where
  "hand_back name s = logged (HandBack name) (s\<lparr>dp_shared := (dp_shared s)\<lparr>sh_breaker := releaseProbe name (sh_breaker (dp_shared s))\<rparr>\<rparr>)"

definition fault :: "'y dispatch_config \<Rightarrow> string \<Rightarrow> int option \<Rightarrow> 'y dispatch \<Rightarrow> 'y dispatch" where
  "fault cfg name retryAfter s =
     logged (Fault name retryAfter) (s\<lparr>dp_shared := (dp_shared s)\<lparr>sh_breaker := recordFailure (dc_sync cfg) (dc_breaker cfg) (now_of s) name retryAfter (sh_breaker (dp_shared s))\<rparr>\<rparr>)"

definition good :: "'y dispatch_config \<Rightarrow> string \<Rightarrow> 'y dispatch \<Rightarrow> 'y dispatch" where
  "good cfg name s =
     logged (Good name) (s\<lparr>dp_shared := (dp_shared s)\<lparr>sh_breaker := recordSuccess (dc_breaker cfg) (now_of s) name (sh_breaker (dp_shared s))\<rparr>\<rparr>)"

definition failing :: "'y dispatch_config \<Rightarrow> upstream_resp \<Rightarrow> bool" where
  "failing cfg r \<longleftrightarrow> 400 \<le> up_status r \<and> isFailoverStatus (dc_strategy cfg) (up_status r)"

definition commitServed :: "'y dispatch_config \<Rightarrow> RouteTarget list \<Rightarrow> RouteTarget \<Rightarrow> upstream_resp \<Rightarrow> int \<Rightarrow> bool \<Rightarrow> 'y dispatch \<Rightarrow> 'y dispatch" where
  "commitServed cfg candidates target resp fwdStart acquired s =
     (let now = now_of s; name = rt_name target;
          s1 = noteAttempt name AtServed (Some (up_status resp)) (Some (now - fwdStart))
                 (s\<lparr>dp_served := Some (target, resp), dp_dispatchMs := Some fwdStart, dp_firstByteMs := Some now\<rparr>);
          s2 = (case dc_outlier cfg of
                  Some oo \<Rightarrow> s1\<lparr>dp_shared := (dp_shared s1)\<lparr>sh_outlier := recordLatency oo now name (of_int (now - fwdStart)) (map rt_name candidates) (sh_outlier (dp_shared s1))\<rparr>\<rparr>
                | None \<Rightarrow> s1);
          s3 = (if dc_scoreboard cfg then s2\<lparr>dp_shared := (dp_shared s2)\<lparr>sh_scoreboard := begin_load name (sh_scoreboard (dp_shared s2))\<rparr>, dp_scoreboardHeld := True\<rparr> else s2);
          s4 = (if acquired then s3\<lparr>dp_limiterHeld := True\<rparr> else s3)
      in if isFailoverStatus (dc_strategy cfg) (up_status resp) then fault cfg name (up_retryAfterMs resp) s4 else good cfg name s4)"

section \<open>Retries of one target\<close>

record try_locals =
  tl_resp :: "upstream_resp option"
  tl_retryAfterMs :: "int option"
  tl_forwardStart :: int
  tl_acquired :: bool

definition retry_sleep :: "'y dispatch_config \<Rightarrow> nat \<Rightarrow> int option \<Rightarrow> int" where
  "retry_sleep cfg attempt retryAfter =
     (let backoff = min (dc_retryBackoffMs cfg * 2 ^ (attempt - 1)) 2000 in
      min (max backoff (case retryAfter of Some r \<Rightarrow> r | None \<Rightarrow> 0)) RETRY_SLEEP_CAP_MS)"

text \<open>The loop over the attempts: \<open>left\<close> of them remain, this one being number \<open>attempt\<close> from 0.\<close>

fun attempt_loop :: "'y world \<Rightarrow> 'y dispatch_config \<Rightarrow> string \<Rightarrow> nat \<Rightarrow> nat \<Rightarrow> try_locals \<Rightarrow> 'y dispatch \<Rightarrow> try_locals \<times> 'y dispatch" where
  "attempt_loop w cfg name 0 attempt l s = (l, s)"
| "attempt_loop w cfg name (Suc left) attempt l s =
     (if aborted s then (l, s)
      else
        (let s1 = (if 0 < attempt then await w (logged (Sleep (retry_sleep cfg attempt (tl_retryAfterMs l))) s) else s) in
         if aborted s1 then (l, s1)
         else
           (let l1 = l\<lparr>tl_forwardStart := now_of s1\<rparr>;
                outcome = w_forward w (dp_awaits s1);
                s2 = await w (logged (Forward name outcome) s1) in
            case outcome of
              Responds r \<Rightarrow>
                (let l2 = l1\<lparr>tl_retryAfterMs := up_retryAfterMs r\<rparr> in
                 if failing cfg r \<and> 0 < left
                 then attempt_loop w cfg name left (attempt + 1) l2
                        (noteAttempt name AtRetry (Some (up_status r)) (Some (now_of s2 - now_of s1)) (fault cfg name (up_retryAfterMs r) s2))
                 else (l2\<lparr>tl_resp := Some r\<rparr>, s2))
            | Refused msg \<Rightarrow> (l1, s2\<lparr>dp_requestError := Some msg\<rparr>)
            | HeadersTimeout \<Rightarrow>
                if aborted s2 then (l1, s2)
                else (l1\<lparr>tl_acquired := False\<rparr>,
                  abortWith AbDeadline (slot_record cfg name (now_of s2 - now_of s1) True (tl_acquired l1)
                    (fault cfg name None (s2\<lparr>dp_headersTimedOut := True, dp_deadlineExceeded := True\<rparr>))))
            | ConnError \<Rightarrow>
                if aborted s2 then (l1, s2)
                else if 0 < left then attempt_loop w cfg name left (attempt + 1) l1 (fault cfg name None s2)
                else (l1, s2))))"

section \<open>Failover along the candidates\<close>

text \<open>One candidate; the flag says whether the loop continues.\<close>

definition try_candidate :: "'y world \<Rightarrow> 'y dispatch_config \<Rightarrow> RouteTarget list \<Rightarrow> bool \<Rightarrow> RouteTarget \<Rightarrow> 'y dispatch \<Rightarrow> bool \<times> 'y dispatch" where
  "try_candidate w cfg candidates isLast target s =
     (let name = rt_name target; ((ok, acquired), s1) = slot_acquire cfg name s in
      if \<not> ok then (True, noteAttempt name AtShed None None (s1\<lparr>dp_anySaturation := True\<rparr>))
      else
        (let (admitted, s2) = try_probe cfg name s1 in
         if \<not> admitted then (True, noteAttempt name AtShed None None ((slot_release cfg name acquired s2)\<lparr>dp_anySaturation := True\<rparr>))
         else
           (let cred = w_credential w (dp_awaits s2); s3 = await w s2 in
            if \<not> cred then
              (True, noteAttempt name AtError None None (hand_back name (slot_release cfg name acquired (s3\<lparr>dp_credentialUnavailable := True\<rparr>))))
            else
              (let (l, s4) = attempt_loop w cfg name (max 1 (dc_maxAttempts cfg)) 0 \<lparr>tl_resp = None, tl_retryAfterMs = None, tl_forwardStart = 0, tl_acquired = acquired\<rparr>
                     (s3\<lparr>dp_anyRealAttempt := True\<rparr>);
                   took = (if tl_forwardStart l = 0 then 0 else now_of s4 - tl_forwardStart l) in
               case tl_resp l of
                 None \<Rightarrow>
                   if dp_requestError s4 \<noteq> None then (False, hand_back name (slot_release cfg name (tl_acquired l) s4))
                   else if aborted s4 then
                     (let s5 = slot_release cfg name (tl_acquired l) s4 in (False, if dp_headersTimedOut s5 then s5 else hand_back name s5))
                   else
                     (True, noteAttempt name AtError None (if tl_forwardStart l = 0 then None else Some took)
                        (slot_record cfg name took True (tl_acquired l) (fault cfg name None s4)))
               | Some r \<Rightarrow>
                   if \<not> isLast \<and> failing cfg r then
                     (True, noteAttempt name AtFailover (Some (up_status r)) (Some (now_of s4 - tl_forwardStart l))
                        (slot_record cfg name (now_of s4 - tl_forwardStart l) True (tl_acquired l) (fault cfg name (tl_retryAfterMs l) s4)))
                   else (False, commitServed cfg candidates target r (tl_forwardStart l) (tl_acquired l) s4)))))"

fun candidate_loop :: "'y world \<Rightarrow> 'y dispatch_config \<Rightarrow> RouteTarget list \<Rightarrow> RouteTarget list \<Rightarrow> 'y dispatch \<Rightarrow> 'y dispatch" where
  "candidate_loop w cfg candidates [] s = s"
| "candidate_loop w cfg candidates (target # rest) s =
     (let (continue, s') = try_candidate w cfg candidates (rest = []) target s in
      if continue then candidate_loop w cfg candidates rest s' else s')"

section \<open>The end of a dispatch\<close>

definition shed :: "'y dispatch \<Rightarrow> bool" where
  "shed s \<longleftrightarrow> dp_anySaturation s \<and> \<not> dp_anyRealAttempt s"

definition no_upstream_status :: "'y dispatch \<Rightarrow> int" where
  "no_upstream_status s =
     (if dp_requestError s \<noteq> None then 400
      else if shed s \<or> (dp_credentialUnavailable s \<and> \<not> dp_anyRealAttempt s \<and> \<not> shed s) then 503
      else if dp_deadlineExceeded s then 504 else 502)"

text \<open>The part of \<^verbatim>\<open>teardown\<close> that gives back what the served request holds; \<open>faulty\<close> is an error frame of the upstream, \<open>enforced\<close> a guardrail that ended the stream.\<close>

definition teardown_holds :: "'y dispatch_config \<Rightarrow> int \<Rightarrow> int \<Rightarrow> bool \<Rightarrow> bool \<Rightarrow> 'y dispatch \<Rightarrow> 'y dispatch" where
  "teardown_holds cfg started statusCode faulty enforced s =
     (case dp_served s of
        None \<Rightarrow> s
      | Some (target, r) \<Rightarrow>
          (let name = rt_name target;
               s1 = (if dp_scoreboardHeld s
                     then s\<lparr>dp_scoreboardHeld := False, dp_shared := (dp_shared s)\<lparr>sh_scoreboard := end_load name (sh_scoreboard (dp_shared s))\<rparr>\<rparr> else s)
           in if \<not> dp_limiterHeld s1 then s1
              else
                (let s2 = s1\<lparr>dp_limiterHeld := False\<rparr> in
                 if dp_abort s2 = Some AbClient then slot_release cfg name True s2
                 else
                   (let dropped = ((500 \<le> statusCode \<or> dp_abort s2 = Some AbWatchdog \<or> dp_abort s2 = Some AbDeadline \<or> faulty) \<and> \<not> enforced) in
                    slot_record cfg name
                      ((case dp_firstByteMs s2 of Some t \<Rightarrow> t | None \<Rightarrow> now_of s2) - (case dp_dispatchMs s2 of Some t \<Rightarrow> t | None \<Rightarrow> started)) dropped True s2))))"

section \<open>What the calls say\<close>

fun slot_change :: "string \<Rightarrow> dispatch_call \<Rightarrow> int" where
  "slot_change x (Acquire t) = (if t = x then 1 else 0)"
| "slot_change x (Release t) = (if t = x then - 1 else 0)"
| "slot_change x (Record t d) = (if t = x then - 1 else 0)"
| "slot_change x c = 0"

text \<open>The slots of a target the calls leave taken.\<close>

definition slots :: "string \<Rightarrow> dispatch_call list \<Rightarrow> int" where
  "slots x cs = sum_list (map (slot_change x) cs)"

fun probe_after :: "string \<Rightarrow> bool \<Rightarrow> dispatch_call \<Rightarrow> bool" where
  "probe_after x b (Probe t) = (b \<or> t = x)"
| "probe_after x b (HandBack t) = (b \<and> t \<noteq> x)"
| "probe_after x b (Fault t r) = (b \<and> t \<noteq> x)"
| "probe_after x b (Good t) = (b \<and> t \<noteq> x)"
| "probe_after x b c = b"

text \<open>Whether a probe of the target was admitted that has no verdict yet and was not handed back.\<close>

definition probing :: "string \<Rightarrow> dispatch_call list \<Rightarrow> bool" where
  "probing x cs = foldl (probe_after x) False cs"

fun forward_of :: "dispatch_call \<Rightarrow> (string \<times> forward_outcome) list" where
  "forward_of (Forward t out) = [(t, out)]"
| "forward_of c = []"

definition forwards :: "dispatch_call list \<Rightarrow> (string \<times> forward_outcome) list" where
  "forwards cs = concat (map forward_of cs)"

fun sleep_of :: "dispatch_call \<Rightarrow> int list" where
  "sleep_of (Sleep ms) = [ms]"
| "sleep_of c = []"

definition sleeps :: "dispatch_call list \<Rightarrow> int list" where
  "sleeps cs = concat (map sleep_of cs)"

text \<open>An outcome after which sending again cannot buy the same answer twice: nothing was generated.\<close>

fun retriable :: "'y dispatch_config \<Rightarrow> forward_outcome \<Rightarrow> bool" where
  "retriable cfg (Responds r) = failing cfg r"
| "retriable cfg (Refused msg) = False"
| "retriable cfg HeadersTimeout = False"
| "retriable cfg ConnError = True"

lemma slots_append [simp]: "slots x (cs @ ds) = slots x cs + slots x ds"
  by (simp add: slots_def)

lemma slots_Cons [simp]: "slots x (c # cs) = slot_change x c + slots x cs"
  by (simp add: slots_def)

lemma slots_Nil [simp]: "slots x [] = 0"
  by (simp add: slots_def)

lemma probing_append [simp]: "probing x (cs @ ds) = foldl (probe_after x) (probing x cs) ds"
  by (simp add: probing_def)

lemma forwards_append [simp]: "forwards (cs @ ds) = forwards cs @ forwards ds"
  by (simp add: forwards_def)

lemma forwards_Cons [simp]: "forwards (c # cs) = forward_of c @ forwards cs"
  by (simp add: forwards_def)

lemma forwards_Nil [simp]: "forwards [] = []"
  by (simp add: forwards_def)

lemma sleeps_append [simp]: "sleeps (cs @ ds) = sleeps cs @ sleeps ds"
  by (simp add: sleeps_def)

lemma sleeps_Cons [simp]: "sleeps (c # cs) = sleep_of c @ sleeps cs"
  by (simp add: sleeps_def)

lemma sleeps_Nil [simp]: "sleeps [] = []"
  by (simp add: sleeps_def)

section \<open>What each call changes\<close>

named_theorems call_rules

lemma logged_rules [call_rules]: "dp_calls (logged c s) = dp_calls s @ [c]" "dp_abort (logged c s) = dp_abort s" "dp_requestError (logged c s) = dp_requestError s"
  "dp_headersTimedOut (logged c s) = dp_headersTimedOut s" "dp_served (logged c s) = dp_served s" "dp_limiterHeld (logged c s) = dp_limiterHeld s"
  by (simp_all add: logged_def)

lemma note_rules [call_rules]: "dp_calls (noteAttempt t out st ms s) = dp_calls s" "dp_abort (noteAttempt t out st ms s) = dp_abort s"
  "dp_requestError (noteAttempt t out st ms s) = dp_requestError s" "dp_headersTimedOut (noteAttempt t out st ms s) = dp_headersTimedOut s"
  "dp_served (noteAttempt t out st ms s) = dp_served s" "dp_limiterHeld (noteAttempt t out st ms s) = dp_limiterHeld s"
  by (simp_all add: noteAttempt_def)

lemma abortWith_rules [call_rules]: "dp_calls (abortWith r s) = dp_calls s" "dp_abort (abortWith r s) \<noteq> None" "dp_requestError (abortWith r s) = dp_requestError s"
  "dp_headersTimedOut (abortWith r s) = dp_headersTimedOut s" "dp_served (abortWith r s) = dp_served s" "dp_limiterHeld (abortWith r s) = dp_limiterHeld s"
  by (simp_all add: abortWith_def split: option.split)

lemma abortWith_aborts [call_rules]: "aborted (abortWith r s)"
  by (simp add: aborted_def abortWith_def split: option.split)

lemma await_rules [call_rules]: "dp_calls (await w s) = dp_calls s" "dp_requestError (await w s) = dp_requestError s" "dp_headersTimedOut (await w s) = dp_headersTimedOut s"
  "dp_served (await w s) = dp_served s" "dp_limiterHeld (await w s) = dp_limiterHeld s"
  by (simp_all add: await_def Let_def call_rules split: option.split AbortReason.split)

lemma fault_rules [call_rules]: "dp_calls (fault cfg t r s) = dp_calls s @ [Fault t r]" "dp_abort (fault cfg t r s) = dp_abort s" "dp_requestError (fault cfg t r s) = dp_requestError s"
  "dp_headersTimedOut (fault cfg t r s) = dp_headersTimedOut s" "dp_served (fault cfg t r s) = dp_served s" "dp_limiterHeld (fault cfg t r s) = dp_limiterHeld s"
  by (simp_all add: fault_def call_rules)

lemma good_rules [call_rules]: "dp_calls (good cfg t s) = dp_calls s @ [Good t]" "dp_abort (good cfg t s) = dp_abort s" "dp_requestError (good cfg t s) = dp_requestError s"
  "dp_headersTimedOut (good cfg t s) = dp_headersTimedOut s" "dp_served (good cfg t s) = dp_served s" "dp_limiterHeld (good cfg t s) = dp_limiterHeld s"
  by (simp_all add: good_def call_rules)

lemma hand_back_rules [call_rules]: "dp_calls (hand_back t s) = dp_calls s @ [HandBack t]" "dp_abort (hand_back t s) = dp_abort s" "dp_requestError (hand_back t s) = dp_requestError s"
  "dp_headersTimedOut (hand_back t s) = dp_headersTimedOut s" "dp_served (hand_back t s) = dp_served s" "dp_limiterHeld (hand_back t s) = dp_limiterHeld s"
  by (simp_all add: hand_back_def call_rules)

text \<open>A slot is taken only where there is a limiter.\<close>

definition slot_flag :: "'y dispatch_config \<Rightarrow> bool \<Rightarrow> bool" where
  "slot_flag cfg acquired \<longleftrightarrow> acquired \<longrightarrow> dc_adaptive cfg \<noteq> None"

lemma slot_flag_False [simp]: "slot_flag cfg False"
  by (simp add: slot_flag_def)

lemma release_rules [call_rules]: "slot_flag cfg a \<Longrightarrow> dp_calls (slot_release cfg t a s) = dp_calls s @ (if a then [Release t] else [])"
  "dp_abort (slot_release cfg t a s) = dp_abort s" "dp_requestError (slot_release cfg t a s) = dp_requestError s"
  "dp_headersTimedOut (slot_release cfg t a s) = dp_headersTimedOut s" "dp_served (slot_release cfg t a s) = dp_served s" "dp_limiterHeld (slot_release cfg t a s) = dp_limiterHeld s"
  by (auto simp: slot_release_def slot_flag_def call_rules split: option.split)

lemma record_rules [call_rules]: "slot_flag cfg a \<Longrightarrow> dp_calls (slot_record cfg t rtt d a s) = dp_calls s @ (if a then [Record t d] else [])"
  "dp_abort (slot_record cfg t rtt d a s) = dp_abort s" "dp_requestError (slot_record cfg t rtt d a s) = dp_requestError s"
  "dp_headersTimedOut (slot_record cfg t rtt d a s) = dp_headersTimedOut s" "dp_served (slot_record cfg t rtt d a s) = dp_served s"
  "dp_limiterHeld (slot_record cfg t rtt d a s) = dp_limiterHeld s"
  by (auto simp: slot_record_def slot_flag_def call_rules split: option.split)

lemma acquire_rules:
  assumes "slot_acquire cfg t s = ((ok, acquired), s1)"
  shows "dp_calls s1 = dp_calls s @ (if acquired then [Acquire t] else [])" "dp_abort s1 = dp_abort s" "dp_requestError s1 = dp_requestError s" "dp_headersTimedOut s1 = dp_headersTimedOut s"
    "dp_served s1 = dp_served s" "dp_limiterHeld s1 = dp_limiterHeld s" "slot_flag cfg acquired" "\<not> ok \<Longrightarrow> \<not> acquired"
  using assms by (auto simp: slot_acquire_def slot_flag_def call_rules Let_def split: option.splits prod.splits if_splits)

lemma probe_rules:
  assumes "try_probe cfg t s = (ok, s1)"
  shows "dp_calls s1 = dp_calls s @ (if ok then [Probe t] else [])" "dp_abort s1 = dp_abort s" "dp_requestError s1 = dp_requestError s" "dp_headersTimedOut s1 = dp_headersTimedOut s"
    "dp_served s1 = dp_served s" "dp_limiterHeld s1 = dp_limiterHeld s"
  using assms by (auto simp: try_probe_def call_rules Let_def split: prod.splits if_splits)

lemma commit_rules [call_rules]:
  "dp_calls (commitServed cfg cands t r st a s) = dp_calls s @ [if isFailoverStatus (dc_strategy cfg) (up_status r) then Fault (rt_name t) (up_retryAfterMs r) else Good (rt_name t)]"
  "dp_served (commitServed cfg cands t r st a s) = Some (t, r)" "dp_limiterHeld (commitServed cfg cands t r st a s) = (a \<or> dp_limiterHeld s)"
  by (simp_all add: commitServed_def Let_def call_rules split: option.split)

lemmas dispatch_simps = call_rules aborted_def

section \<open>Retries\<close>

lemma attempt_slots:
  assumes "attempt_loop w cfg name left k l s = (l', s')" and "slot_flag cfg (tl_acquired l)"
  shows "slot_flag cfg (tl_acquired l') \<and>
    slots x (dp_calls s') - (if tl_acquired l' \<and> name = x then 1 else 0) = slots x (dp_calls s) - (if tl_acquired l \<and> name = x then 1 else 0)"
  using assms
proof (induction left arbitrary: k l s l' s')
  case (Suc left)
  show ?case using Suc.prems
    by (auto simp: dispatch_simps Let_def slot_flag_def split: if_splits forward_outcome.splits dest!: Suc.IH)
qed simp

lemma attempt_keeps:
  assumes "attempt_loop w cfg name left k l s = (l', s')"
  shows "dp_served s' = dp_served s \<and> dp_limiterHeld s' = dp_limiterHeld s"
  using assms
proof (induction left arbitrary: k l s l' s')
  case (Suc left)
  show ?case using Suc.prems
    by (auto simp: dispatch_simps Let_def split: if_splits forward_outcome.splits dest!: Suc.IH)
qed simp

lemma attempt_probes:
  assumes "attempt_loop w cfg name left k l s = (l', s')" and "slot_flag cfg (tl_acquired l)"
  shows "probing x (dp_calls s') \<longrightarrow> probing x (dp_calls s)"
  using assms
proof (induction left arbitrary: k l s l' s')
  case (Suc left)
  show ?case using Suc.prems
    by (auto simp: dispatch_simps Let_def split: if_splits forward_outcome.splits dest!: Suc.IH)
qed simp

lemma attempt_timeout:
  assumes "attempt_loop w cfg name left k l s = (l', s')" and "slot_flag cfg (tl_acquired l)" and "\<not> dp_headersTimedOut s"
  shows "dp_headersTimedOut s' \<longrightarrow> \<not> probing name (dp_calls s') \<and> aborted s' \<and> tl_resp l' = tl_resp l"
  using assms
proof (induction left arbitrary: k l s l' s')
  case (Suc left)
  show ?case using Suc.prems
    by (auto simp: call_rules Let_def split: if_splits forward_outcome.splits dest!: Suc.IH)
qed simp

lemma retry_sleep_capped [simp]: "retry_sleep cfg k r \<le> RETRY_SLEEP_CAP_MS"
  by (simp add: retry_sleep_def Let_def)

definition short_sleeps :: "dispatch_call list \<Rightarrow> bool" where
  "short_sleeps cs \<longleftrightarrow> list_all (\<lambda>ms. ms \<le> RETRY_SLEEP_CAP_MS) (sleeps cs)"

lemma short_sleeps_append [simp]: "short_sleeps (cs @ ds) \<longleftrightarrow> short_sleeps cs \<and> short_sleeps ds"
  by (simp add: short_sleeps_def)

lemma short_sleeps_Cons [simp]: "short_sleeps (c # cs) \<longleftrightarrow> list_all (\<lambda>ms. ms \<le> RETRY_SLEEP_CAP_MS) (sleep_of c) \<and> short_sleeps cs"
  by (simp add: short_sleeps_def)

lemma short_sleeps_Nil [simp]: "short_sleeps []"
  by (simp add: short_sleeps_def)

lemma attempt_sleeps:
  assumes "attempt_loop w cfg name left k l s = (l', s')" and "slot_flag cfg (tl_acquired l)"
  shows "short_sleeps (dp_calls s') = short_sleeps (dp_calls s)"
  using assms
proof (induction left arbitrary: k l s l' s')
  case (Suc left)
  show ?case using Suc.prems
    by (auto simp: call_rules Let_def split: if_splits forward_outcome.splits dest!: Suc.IH)
qed simp

text \<open>What a loop over the attempts sends: at most \<open>left\<close> requests, each but the last ending in a way that allows another.\<close>

definition sent :: "'y dispatch_config \<Rightarrow> nat \<Rightarrow> forward_outcome list \<Rightarrow> bool" where
  "sent cfg n fs \<longleftrightarrow> length fs \<le> n \<and> list_all (retriable cfg) (butlast fs)"

lemma sent_Cons: "retriable cfg f \<Longrightarrow> sent cfg n fs \<Longrightarrow> sent cfg (Suc n) (f # fs)"
  by (cases fs) (auto simp: sent_def)

lemma attempt_forwards:
  assumes "attempt_loop w cfg name left k l s = (l', s')" and "slot_flag cfg (tl_acquired l)" and "tl_resp l = None"
  shows "\<exists>fs. forwards (dp_calls s') = forwards (dp_calls s) @ map (Pair name) fs \<and> sent cfg left fs \<and>
    (\<forall>r. tl_resp l' = Some r \<longrightarrow> fs \<noteq> [] \<and> last fs = Responds r) \<and>
    (tl_resp l' = None \<and> dp_requestError s' = None \<and> \<not> aborted s' \<longrightarrow> list_all (retriable cfg) fs)"
  using assms
proof (induction left arbitrary: k l s l' s')
  case 0
  then show ?case by (intro exI [of _ "[]"]) (simp add: sent_def)
next
  case (Suc left)
  define s1 where "s1 = (if 0 < k then await w (logged (Sleep (retry_sleep cfg k (tl_retryAfterMs l))) s) else s)"
  define out where "out = w_forward w (dp_awaits s1)"
  have s1: "forwards (dp_calls s1) = forwards (dp_calls s)"
    by (auto simp: s1_def call_rules)
  have stop: ?case if "forwards (dp_calls s') = forwards (dp_calls s1) @ [(name, out)]" "tl_resp l' = None \<longrightarrow> dp_requestError s' \<noteq> None \<or> aborted s' \<or> retriable cfg out"
    "\<forall>r. tl_resp l' = Some r \<longrightarrow> out = Responds r"
    using that s1 by (intro exI [of _ "[out]"]) (auto simp: sent_def)
  have go: ?case if "attempt_loop w cfg name left (Suc k) l1 s3 = (l', s')" "retriable cfg out" "forwards (dp_calls s3) = forwards (dp_calls s1) @ [(name, out)]"
    "tl_acquired l1 = tl_acquired l" "tl_resp l1 = None" for l1 s3
  proof -
    from Suc.IH [OF that(1)] that(4,5) Suc.prems(2) obtain fs where fs: "forwards (dp_calls s') = forwards (dp_calls s3) @ map (Pair name) fs" "sent cfg left fs"
      "\<forall>r. tl_resp l' = Some r \<longrightarrow> fs \<noteq> [] \<and> last fs = Responds r" "tl_resp l' = None \<and> dp_requestError s' = None \<and> \<not> aborted s' \<longrightarrow> list_all (retriable cfg) fs"
      by auto
    show ?thesis using fs that(2,3) s1 sent_Cons [OF that(2) fs(2)] by (intro exI [of _ "out # fs"]) auto
  qed
  consider "aborted s1" | "\<not> aborted s1" by blast
  then show ?case
  proof cases
    case 1
    then have "(l', s') = (l, s1) \<or> (l', s') = (l, s) \<and> aborted s" using Suc.prems(1) by (auto simp: s1_def Let_def split: if_splits)
    then show ?thesis using 1 s1 Suc.prems(3) by (intro exI [of _ "[]"]) (auto simp: sent_def)
  next
    case 2
    show ?thesis
    proof (cases "aborted s")
      case True
      then show ?thesis using Suc.prems by (intro exI [of _ "[]"]) (auto simp: sent_def)
    next
      case False
      note loop = Suc.prems(1) [unfolded attempt_loop.simps s1_def [symmetric] Let_def out_def [symmetric] if_not_P [OF False] if_not_P [OF 2]]
      show ?thesis
      proof (cases out)
        case (Responds r)
        show ?thesis
        proof (cases "failing cfg r \<and> 0 < left")
          case True
          define l1 where "l1 = l\<lparr>tl_forwardStart := now_of s1, tl_retryAfterMs := up_retryAfterMs r\<rparr>"
          define s2 where "s2 = await w (logged (Forward name (Responds r)) s1)"
          define s3 where "s3 = noteAttempt name AtRetry (Some (up_status r)) (Some (now_of s2 - now_of s1)) (fault cfg name (up_retryAfterMs r) s2)"
          have "attempt_loop w cfg name left (Suc k) l1 s3 = (l', s')" using loop True Responds by (simp add: l1_def s2_def s3_def)
          from go [OF this] show ?thesis using True Responds Suc.prems(3) by (simp add: call_rules l1_def s2_def s3_def)
        next
          case False
          then show ?thesis using loop Responds by (intro stop) (auto simp: call_rules)
        qed
      next
        case ConnError
        show ?thesis
        proof (cases "aborted (await w (logged (Forward name out) s1)) \<or> left = 0")
          case True
          then show ?thesis using loop ConnError Suc.prems(3) by (intro stop) (auto simp: call_rules split: if_splits)
        next
          case False
          define l1 where "l1 = l\<lparr>tl_forwardStart := now_of s1\<rparr>"
          define s3 where "s3 = fault cfg name None (await w (logged (Forward name ConnError) s1))"
          have "attempt_loop w cfg name left (Suc k) l1 s3 = (l', s')" using loop False ConnError by (simp add: l1_def s3_def)
          from go [OF this] show ?thesis using ConnError Suc.prems(3) by (simp add: call_rules l1_def s3_def)
        qed
      next
        case (Refused msg)
        then show ?thesis using loop Suc.prems(3) by (intro stop) (auto simp: call_rules)
      next
        case HeadersTimeout
        then show ?thesis using loop Suc.prems(2,3) by (intro stop) (auto simp: dispatch_simps split: if_splits)
      qed
    qed
  qed
qed

section \<open>One candidate and all of them\<close>

definition unserved :: "'y dispatch \<Rightarrow> bool" where
  "unserved s \<longleftrightarrow> \<not> dp_headersTimedOut s \<and> dp_served s = None \<and> \<not> dp_limiterHeld s"

definition held_slot :: "string \<Rightarrow> 'y dispatch \<Rightarrow> int" where
  "held_slot x s = (case dp_served s of Some (t, r) \<Rightarrow> if dp_limiterHeld s \<and> rt_name t = x then 1 else 0 | None \<Rightarrow> 0)"

text \<open>What a candidate leaves behind: its slot is given back or held for the answer, its probe is resolved, and it may be followed by another only if nothing was generated.\<close>

definition candidate_ok :: "'y dispatch_config \<Rightarrow> RouteTarget \<Rightarrow> bool \<Rightarrow> 'y dispatch \<Rightarrow> 'y dispatch \<Rightarrow> bool" where
  "candidate_ok cfg target continue s s' \<longleftrightarrow>
     (\<forall>x. slots x (dp_calls s') = slots x (dp_calls s) + held_slot x s') \<and>
     (\<forall>x. probing x (dp_calls s') \<longrightarrow> probing x (dp_calls s)) \<and>
     short_sleeps (dp_calls s') = short_sleeps (dp_calls s) \<and>
     (continue \<longrightarrow> unserved s') \<and> slot_flag cfg (dp_limiterHeld s') \<and>
     (\<exists>fs. forwards (dp_calls s') = forwards (dp_calls s) @ map (Pair (rt_name target)) fs \<and> sent cfg (max 1 (dc_maxAttempts cfg)) fs \<and>
        (continue \<longrightarrow> list_all (retriable cfg) fs) \<and>
        (\<forall>t r. dp_served s' = Some (t, r) \<longrightarrow> t = target \<and> fs \<noteq> [] \<and> last fs = Responds r))"

lemma try_candidate_ok:
  assumes "try_candidate w cfg candidates isLast target s = (continue, s')" and "unserved s"
  shows "candidate_ok cfg target continue s s'"
proof -
  let ?name = "rt_name target" and ?n = "max 1 (dc_maxAttempts cfg)"
  obtain ok acquired s1 where s1: "slot_acquire cfg ?name s = ((ok, acquired), s1)" by (metis surj_pair)
  note a = acquire_rules [OF s1]
  obtain admitted s2 where s2: "try_probe cfg ?name s1 = (admitted, s2)" by (metis surj_pair)
  note p = probe_rules [OF s2]
  have nothing: "\<exists>fs. forwards cs = forwards cs @ map (Pair ?name) fs \<and> sent cfg ?n fs \<and> list_all (retriable cfg) fs \<and> fs = []" for cs
    by (simp add: sent_def)
  define s3 where "s3 = await w s2"
  note start = assms(2) [unfolded unserved_def]
  show ?thesis
  proof (cases "ok \<and> admitted \<and> w_credential w (dp_awaits s2)")
    case False
    then show ?thesis using assms(1) start a p nothing
      by (auto simp: try_candidate_def s1 s2 candidate_ok_def unserved_def held_slot_def call_rules Let_def sent_def split: if_splits)
  next
    case True
    obtain l s4 where s4: "attempt_loop w cfg ?name ?n 0 \<lparr>tl_resp = None, tl_retryAfterMs = None, tl_forwardStart = 0, tl_acquired = acquired\<rparr> (s3\<lparr>dp_anyRealAttempt := True\<rparr>) = (l, s4)"
      by (metis surj_pair)
    have flag: "slot_flag cfg (tl_acquired l)" and sl: "slots x (dp_calls s4) = slots x (dp_calls s) + (if tl_acquired l \<and> ?name = x then 1 else 0)" for x
      using attempt_slots [OF s4, of x] a(1,7) p(1) True by (auto simp: s3_def call_rules split: if_splits)
    have pr: "probing x (dp_calls s4) \<Longrightarrow> ?name \<noteq> x \<Longrightarrow> probing x (dp_calls s)" for x
      using attempt_probes [OF s4, of x] a(1,7) p(1) True by (auto simp: s3_def call_rules split: if_splits)
    have tm: "dp_headersTimedOut s4 \<longrightarrow> \<not> probing ?name (dp_calls s4) \<and> aborted s4 \<and> tl_resp l = None"
      using attempt_timeout [OF s4] a p start by (simp add: s3_def call_rules)
    have pt: "probing x (dp_calls s4) \<Longrightarrow> dp_headersTimedOut s4 \<Longrightarrow> probing x (dp_calls s)" for x
      using pr [of x] tm by (cases "?name = x") auto
    have keeps: "dp_served s4 = None" "\<not> dp_limiterHeld s4" using attempt_keeps [OF s4] a p start by (simp_all add: s3_def call_rules)
    have sh: "short_sleeps (dp_calls s4) = short_sleeps (dp_calls s)" using attempt_sleeps [OF s4] a p(1) by (auto simp: s3_def call_rules split: if_splits)
    obtain fs where fs: "forwards (dp_calls s4) = forwards (dp_calls s) @ map (Pair ?name) fs" "sent cfg ?n fs"
      "\<forall>r. tl_resp l = Some r \<longrightarrow> fs \<noteq> [] \<and> last fs = Responds r" "tl_resp l = None \<and> dp_requestError s4 = None \<and> \<not> aborted s4 \<longrightarrow> list_all (retriable cfg) fs"
      using attempt_forwards [OF s4] a(1,3,7) p(1,3) start by (auto simp: s3_def call_rules split: if_splits)
    have again: "list_all (retriable cfg) fs" if "tl_resp l = Some r" "failing cfg r" for r
      using fs(2,3) that append_butlast_last_id [of fs] list_all_append [of "retriable cfg" "butlast fs" "[last fs]"] by (auto simp: sent_def)
    show ?thesis
    proof (cases "tl_resp l")
      case None
      then show ?thesis using assms(1) True tm keeps sh fs flag
        by (auto simp: sl try_candidate_def s1 s2 s3_def [symmetric] s4 Let_def candidate_ok_def unserved_def held_slot_def call_rules simp del: One_nat_def dest: pr pt split: if_splits)
    next
      case (Some r)
      then show ?thesis using assms(1) True tm keeps sh fs flag again [OF Some]
        by (auto simp: sl try_candidate_def s1 s2 s3_def [symmetric] s4 Let_def candidate_ok_def unserved_def held_slot_def call_rules simp del: One_nat_def dest: pr pt split: if_splits)
    qed
  qed
qed

lemma candidate_loop_ok:
  fixes w :: "'y world" and cfg candidates ts s
  assumes "unserved s"
  defines "s' \<equiv> candidate_loop w cfg candidates ts s"
  shows "(\<forall>x. slots x (dp_calls s') = slots x (dp_calls s) + held_slot x s') \<and> (\<forall>x. probing x (dp_calls s') \<longrightarrow> probing x (dp_calls s)) \<and>
    short_sleeps (dp_calls s') = short_sleeps (dp_calls s) \<and> slot_flag cfg (dp_limiterHeld s') \<and>
    (\<exists>fs. forwards (dp_calls s') = forwards (dp_calls s) @ fs \<and> length fs \<le> max 1 (dc_maxAttempts cfg) * length ts \<and> list_all (\<lambda>f. retriable cfg (snd f)) (butlast fs) \<and>
      fst ` set fs \<subseteq> rt_name ` set ts \<and> (\<forall>t r. dp_served s' = Some (t, r) \<longrightarrow> t \<in> set ts \<and> fs \<noteq> [] \<and> last fs = (rt_name t, Responds r)))"
  using assms(1) unfolding s'_def
proof (induction ts arbitrary: s)
  case Nil
  then show ?case by (simp add: unserved_def held_slot_def slot_flag_def exI [of _ "[]"])
next
  case (Cons target ts)
  let ?n = "max 1 (dc_maxAttempts cfg)" and ?pair = "map (Pair (rt_name target))"
  obtain continue s1 where trial: "try_candidate w cfg candidates (ts = []) target s = (continue, s1)" by (metis surj_pair)
  note ok = try_candidate_ok [OF trial Cons.prems, unfolded candidate_ok_def]
  then obtain fs where fs: "forwards (dp_calls s1) = forwards (dp_calls s) @ ?pair fs" "sent cfg ?n fs" "continue \<longrightarrow> list_all (retriable cfg) fs"
    "\<forall>t r. dp_served s1 = Some (t, r) \<longrightarrow> t = target \<and> fs \<noteq> [] \<and> last fs = Responds r" by blast
  show ?case
  proof (cases continue)
    case False
    have "\<exists>gs. forwards (dp_calls s1) = forwards (dp_calls s) @ gs \<and> length gs \<le> ?n * length (target # ts) \<and> list_all (\<lambda>f. retriable cfg (snd f)) (butlast gs) \<and>
        fst ` set gs \<subseteq> rt_name ` set (target # ts) \<and> (\<forall>t r. dp_served s1 = Some (t, r) \<longrightarrow> t \<in> set (target # ts) \<and> gs \<noteq> [] \<and> last gs = (rt_name t, Responds r))"
      using fs by (intro exI [of _ "?pair fs"]) (auto simp: sent_def last_map list_all_iff map_butlast [symmetric] simp del: One_nat_def)
    then show ?thesis using ok False by (auto simp: trial)
  next
    case True
    then have un: "unserved s1" and base: "\<forall>x. slots x (dp_calls s1) = slots x (dp_calls s)" using ok by (simp_all add: unserved_def held_slot_def)
    from Cons.IH [OF un] obtain gs where gs: "forwards (dp_calls (candidate_loop w cfg candidates ts s1)) = forwards (dp_calls s1) @ gs" "length gs \<le> ?n * length ts"
      "list_all (\<lambda>f. retriable cfg (snd f)) (butlast gs)" "fst ` set gs \<subseteq> rt_name ` set ts"
      "\<forall>t r. dp_served (candidate_loop w cfg candidates ts s1) = Some (t, r) \<longrightarrow> t \<in> set ts \<and> gs \<noteq> [] \<and> last gs = (rt_name t, Responds r)" by blast
    have all: "list_all (\<lambda>f. retriable cfg (snd f)) (?pair fs)" using fs(3) True by (simp add: list_all_iff)
    have "list_all (\<lambda>f. retriable cfg (snd f)) (butlast (?pair fs @ gs))"
      using all gs(3) by (auto simp: butlast_append list_all_iff map_butlast [symmetric] dest: in_set_butlastD)
    then have "\<exists>hs. forwards (dp_calls (candidate_loop w cfg candidates ts s1)) = forwards (dp_calls s) @ hs \<and> length hs \<le> ?n * length (target # ts) \<and>
        list_all (\<lambda>f. retriable cfg (snd f)) (butlast hs) \<and> fst ` set hs \<subseteq> rt_name ` set (target # ts) \<and>
        (\<forall>t r. dp_served (candidate_loop w cfg candidates ts s1) = Some (t, r) \<longrightarrow> t \<in> set (target # ts) \<and> hs \<noteq> [] \<and> last hs = (rt_name t, Responds r))"
      using gs fs(1,2) by (intro exI [of _ "?pair fs @ gs"]) (auto simp: sent_def simp del: One_nat_def)
    then show ?thesis using Cons.IH [OF un] ok True base by (auto simp: trial)
  qed
qed

section \<open>Properties\<close>

lemma teardown_ok:
  assumes "slot_flag cfg (dp_limiterHeld s)"
  shows "slots x (dp_calls (teardown_holds cfg started code faulty enforced s)) = slots x (dp_calls s) - held_slot x s"
    and "probing x (dp_calls (teardown_holds cfg started code faulty enforced s)) = probing x (dp_calls s)"
  using assms by (auto simp: teardown_holds_def held_slot_def call_rules Let_def split: option.split)

text \<open>
  C8. A request is sent again only when that cannot buy its answer twice. Whatever the upstreams, the other requests and the client do, every request the dispatch sends, but the last one,
  ended with a failover status or without a connection; after an answer, a refusal or a timeout of the headers nothing more is sent. It goes to the candidates only, to each at most
  the configured number of times, no retry waits longer than the cap, and what is served is the answer to the last one.\<close>

theorem request_never_replayed:
  fixes w :: "'y world" and cfg candidates s
  assumes "unserved s" and "dp_calls s = []"
  defines "s' \<equiv> candidate_loop w cfg candidates candidates s"
  shows "list_all (\<lambda>f. retriable cfg (snd f)) (butlast (forwards (dp_calls s'))) \<and> fst ` set (forwards (dp_calls s')) \<subseteq> rt_name ` set candidates \<and>
    length (forwards (dp_calls s')) \<le> max 1 (dc_maxAttempts cfg) * length candidates \<and> list_all (\<lambda>ms. ms \<le> RETRY_SLEEP_CAP_MS) (sleeps (dp_calls s')) \<and>
    (\<forall>t r. dp_served s' = Some (t, r) \<longrightarrow> t \<in> set candidates \<and> forwards (dp_calls s') \<noteq> [] \<and> last (forwards (dp_calls s')) = (rt_name t, Responds r))"
  using candidate_loop_ok [OF assms(1), of w cfg candidates candidates, folded s'_def] assms(2) by (auto simp: short_sleeps_def)

text \<open>A dispatch to one target that cannot be reached and one that answers.\<close>

definition sample_target_named :: "string \<Rightarrow> RouteTarget" where
  "sample_target_named name =
     \<lparr>rt_ref = length name, rt_name = name, rt_provider = name, rt_upstreamPath = [], rt_alwaysStream = None, rt_weight = None, rt_region = None, rt_zdr = None, rt_modelMap = None\<rparr>"

definition sample_dispatch_config :: "unit dispatch_config" where
  "sample_dispatch_config =
     \<lparr>dc_sync = noop_sync, dc_breaker = default_breaker_options, dc_adaptive = Some (adaptive_options sample_adaptive), dc_outlier = None, dc_scoreboard = True,
      dc_strategy = Fallback [sample_target_named ''a'', sample_target_named ''bb''] None, dc_maxAttempts = 1, dc_retryBackoffMs = 250\<rparr>"

definition sample_dispatch_start :: "unit dispatch" where
  "sample_dispatch_start =
     \<lparr>dp_shared = \<lparr>sh_breaker = fresh_breaker (), sh_limiter = [], sh_outlier = [], sh_scoreboard = [], sh_now = 1000\<rparr>, dp_calls = [], dp_awaits = 0, dp_abort = None, dp_served = None,
      dp_dispatchMs = None, dp_firstByteMs = None, dp_scoreboardHeld = False, dp_limiterHeld = False, dp_anySaturation = False, dp_anyRealAttempt = False, dp_credentialUnavailable = False,
      dp_headersTimedOut = False, dp_deadlineExceeded = False, dp_requestError = None, dp_attempts = []\<rparr>"

definition sample_world :: "unit world" where
  "sample_world =
     \<lparr>w_step = (\<lambda>k sh. sh\<lparr>sh_now := sh_now sh + 10\<rparr>), w_abort = (\<lambda>k. None), w_credential = (\<lambda>k. True),
      w_forward = (\<lambda>k. if k < 2 then ConnError else Responds \<lparr>up_status = 200, up_retryAfterMs = None\<rparr>)\<rparr>"

theorem request_never_replayed_witness:
  fixes s'
  defines "s' \<equiv> candidate_loop sample_world sample_dispatch_config [sample_target_named ''a'', sample_target_named ''bb''] [sample_target_named ''a'', sample_target_named ''bb''] sample_dispatch_start"
  shows "length (forwards (dp_calls s')) \<le> 2 \<and> fst ` set (forwards (dp_calls s')) \<subseteq> {''a'', ''bb''} \<and> list_all (\<lambda>f. retriable sample_dispatch_config (snd f)) (butlast (forwards (dp_calls s')))"
  using request_never_replayed [where s = sample_dispatch_start and cfg = sample_dispatch_config and candidates = "[sample_target_named ''a'', sample_target_named ''bb'']" and w = sample_world,
    folded s'_def]
  by (simp add: unserved_def sample_dispatch_start_def sample_target_named_def) (simp add: sample_dispatch_config_def)

end
