(* ===== verification/Hedge.thy ===== *)
theory Hedge
  imports Dispatch
begin

text \<open>
  Request hedging before the first byte, \<^verbatim>\<open>hedgeBranch\<close> to \<^verbatim>\<open>runHedge\<close> of \<^verbatim>\<open>apps/gateway/src/routes/messages.ts\<close>: the first candidate is sent the request, the second one too when the first is slow, and the first
  usable answer wins. The race is a step function over events, the order in which the awaited promises settle, so every interleaving is a list of events. Shown: whatever the order, no slot
  and no probe is lost, and a leg that may be generating without an answer ends the request.
\<close>

section \<open>The legs of a race\<close>

datatype branch_result = Usable upstream_resp int bool | Failed | Saturated | Aborted | TimedOut | Drained

datatype leg = AwaitCredential bool | AwaitForward bool int | Settled branch_result

datatype leg_name = LegA | LegB

datatype race_phase = Primary | Racing | Draining leg_name | DrainingAborted | Finished "leg_name option" nat

record discarded_leg =
  dl_suffix :: string
  dl_provider :: string
  dl_error :: bool

record 'y race =
  rc_a :: leg
  rc_b :: "leg option"
  rc_cancelled :: "leg_name option"
  rc_phase :: race_phase
  rc_timedOut :: "RouteTarget list"
  rc_charged :: "discarded_leg list"
  rc_dispatch :: "'y dispatch"

datatype 'y race_event =
    CredentialSettles leg_name bool
  | ForwardSettles leg_name forward_outcome
  | DelayElapses
  | AbortArrives AbortReason
  | OthersStep "'y shared \<Rightarrow> 'y shared"

definition branch_start :: "'y dispatch_config \<Rightarrow> string \<Rightarrow> 'y dispatch \<Rightarrow> leg \<times> 'y dispatch" where
  "branch_start cfg name s =
     (let ((ok, acquired), s1) = slot_acquire cfg name s in
      if \<not> ok then (Settled Saturated, noteAttempt name AtShed None None (s1\<lparr>dp_anySaturation := True\<rparr>))
      else
        (let (admitted, s2) = try_probe cfg name s1 in
         if \<not> admitted then (Settled Saturated, noteAttempt name AtShed None None ((slot_release cfg name acquired s2)\<lparr>dp_anySaturation := True\<rparr>))
         else (AwaitCredential acquired, s2)))"

definition branch_credential :: "'y dispatch_config \<Rightarrow> string \<Rightarrow> bool \<Rightarrow> bool \<Rightarrow> 'y dispatch \<Rightarrow> leg \<times> 'y dispatch" where
  "branch_credential cfg name acquired ok s =
     (if ok then (AwaitForward acquired (now_of s), s\<lparr>dp_anyRealAttempt := True\<rparr>)
      else (Settled Failed, noteAttempt name AtError None None (hand_back name (slot_release cfg name acquired (s\<lparr>dp_credentialUnavailable := True\<rparr>)))))"

definition branch_forward :: "'y dispatch_config \<Rightarrow> string \<Rightarrow> bool \<Rightarrow> bool \<Rightarrow> int \<Rightarrow> forward_outcome \<Rightarrow> 'y dispatch \<Rightarrow> branch_result \<times> 'y dispatch" where
  "branch_forward cfg name cancelled acquired start outcome s0 =
     (let s = logged (Forward name outcome) s0; took = now_of s - start in
      case outcome of
        Responds r \<Rightarrow>
          if failing cfg r
          then (Failed, noteAttempt name AtFailover (Some (up_status r)) (Some took) (slot_record cfg name took True acquired (fault cfg name (up_retryAfterMs r) s)))
          else (Usable r start acquired, s)
      | _ \<Rightarrow>
          if cancelled then (Aborted, hand_back name (slot_release cfg name acquired s))
          else
            (case outcome of
               Refused msg \<Rightarrow> (Failed, hand_back name (slot_release cfg name acquired (s\<lparr>dp_requestError := Some msg\<rparr>)))
             | HeadersTimeout \<Rightarrow> (TimedOut, slot_record cfg name took True acquired (fault cfg name None s))
             | _ \<Rightarrow> (Failed, slot_record cfg name took True acquired (fault cfg name None s))))"

section \<open>The race\<close>

definition chargeDiscarded :: "string \<Rightarrow> RouteTarget \<Rightarrow> bool \<Rightarrow> 'y race \<Rightarrow> 'y race" where
  "chargeDiscarded tag t err rc = rc\<lparr>rc_charged := rc_charged rc @ [\<lparr>dl_suffix = tag, dl_provider = rt_provider t, dl_error = err\<rparr>]\<rparr>"

text \<open>\<open>n\<close> is the number of candidates; \<open>streaming\<close> says whether the request or the adapter of a target asks for a stream.\<close>

definition settleHedgeTimeouts :: "nat \<Rightarrow> leg_name option \<Rightarrow> nat \<Rightarrow> 'y race \<Rightarrow> 'y race" where
  "settleHedgeTimeouts n winner nextIndex rc =
     (if rc_timedOut rc = [] then rc\<lparr>rc_phase := Finished winner nextIndex\<rparr>
      else
        (let lost = winner = None;
             rc1 = (if lost then rc\<lparr>rc_dispatch := abortWith AbDeadline ((rc_dispatch rc)\<lparr>dp_headersTimedOut := True, dp_deadlineExceeded := True\<rparr>)\<rparr> else rc);
             extra = (if lost then tl (rc_timedOut rc) else rc_timedOut rc);
             rc2 = foldl (\<lambda>r t. chargeDiscarded ''hedge-timeout'' t True r) rc1 extra
         in rc2\<lparr>rc_timedOut := [], rc_phase := Finished winner (if lost then n else nextIndex)\<rparr>))"

definition leg_get :: "leg_name \<Rightarrow> 'y race \<Rightarrow> leg option" where
  "leg_get i rc = (case i of LegA \<Rightarrow> Some (rc_a rc) | LegB \<Rightarrow> rc_b rc)"

definition leg_put :: "leg_name \<Rightarrow> leg \<Rightarrow> 'y race \<Rightarrow> 'y race" where
  "leg_put i g rc = (case i of LegA \<Rightarrow> rc\<lparr>rc_a := g\<rparr> | LegB \<Rightarrow> rc\<lparr>rc_b := Some g\<rparr>)"

definition other_leg :: "leg_name \<Rightarrow> leg_name" where
  "other_leg i = (case i of LegA \<Rightarrow> LegB | LegB \<Rightarrow> LegA)"

definition drainLoser :: "'y dispatch_config \<Rightarrow> (RouteTarget \<Rightarrow> bool) \<Rightarrow> (leg_name \<Rightarrow> RouteTarget) \<Rightarrow> leg_name \<Rightarrow> 'y race \<Rightarrow> 'y race" where
  "drainLoser cfg streaming target i rc =
     (case leg_get i rc of
        Some (Settled (Usable r start acquired)) \<Rightarrow>
          (let t = target i;
               rc1 = leg_put i (Settled Drained) (rc\<lparr>rc_dispatch := good cfg (rt_name t) (slot_release cfg (rt_name t) acquired (rc_dispatch rc))\<rparr>)
           in if streaming t \<or> rt_alwaysStream t = Some True then rc1 else chargeDiscarded ''hedge-loser'' t False rc1)
      | _ \<Rightarrow> rc)"

text \<open>The handler of a leg that has just settled.\<close>

definition leg_settled :: "'y dispatch_config \<Rightarrow> (RouteTarget \<Rightarrow> bool) \<Rightarrow> nat \<Rightarrow> (leg_name \<Rightarrow> RouteTarget) \<Rightarrow> leg_name \<Rightarrow> 'y race \<Rightarrow> 'y race" where
  "leg_settled cfg streaming n target i rc =
     (case (rc_phase rc, leg_get i rc) of
        (Primary, Some (Settled res)) \<Rightarrow>
          (case res of
             Usable r start acquired \<Rightarrow> rc\<lparr>rc_phase := Finished (Some i) 2\<rparr>
           | Aborted \<Rightarrow> rc\<lparr>rc_phase := Finished None n\<rparr>
           | TimedOut \<Rightarrow> settleHedgeTimeouts n None 1 rc
           | _ \<Rightarrow> rc\<lparr>rc_phase := Finished None 1\<rparr>)
      | (Racing, Some (Settled res)) \<Rightarrow>
          (case (res, leg_get (other_leg i) rc) of
             (Usable r start acquired, Some (Settled res')) \<Rightarrow> settleHedgeTimeouts n (Some i) 2 (drainLoser cfg streaming target (other_leg i) rc)
           | (Usable r start acquired, _) \<Rightarrow> rc\<lparr>rc_phase := Draining i, rc_cancelled := Some (other_leg i)\<rparr>
           | (_, Some (Settled (Usable r start acquired))) \<Rightarrow> rc
           | (_, Some (Settled res')) \<Rightarrow> settleHedgeTimeouts n None 2 rc
           | _ \<Rightarrow> rc)
      | (Draining k, Some (Settled res)) \<Rightarrow> if i = other_leg k then settleHedgeTimeouts n (Some k) 2 (drainLoser cfg streaming target i rc) else rc
      | (DrainingAborted, Some (Settled res)) \<Rightarrow> (drainLoser cfg streaming target i rc)\<lparr>rc_phase := Finished None n\<rparr>
      | _ \<Rightarrow> rc)"

fun race_step :: "'y dispatch_config \<Rightarrow> (RouteTarget \<Rightarrow> bool) \<Rightarrow> nat \<Rightarrow> (leg_name \<Rightarrow> RouteTarget) \<Rightarrow> 'y race \<Rightarrow> 'y race_event \<Rightarrow> 'y race" where
  "race_step cfg streaming n target rc (CredentialSettles i ok) =
     (case leg_get i rc of
        Some (AwaitCredential acquired) \<Rightarrow>
          (let (g, s) = branch_credential cfg (rt_name (target i)) acquired ok (rc_dispatch rc)
           in leg_settled cfg streaming n target i (leg_put i g (rc\<lparr>rc_dispatch := s\<rparr>)))
      | _ \<Rightarrow> rc)"
| "race_step cfg streaming n target rc (ForwardSettles i outcome) =
     (case leg_get i rc of
        Some (AwaitForward acquired start) \<Rightarrow>
          (let (res, s) = branch_forward cfg (rt_name (target i)) (aborted (rc_dispatch rc) \<or> rc_cancelled rc = Some i) acquired start outcome (rc_dispatch rc);
               rc1 = leg_put i (Settled res) (rc\<lparr>rc_dispatch := s\<rparr>);
               rc2 = (if res = TimedOut then rc1\<lparr>rc_timedOut := rc_timedOut rc1 @ [target i]\<rparr> else rc1)
           in leg_settled cfg streaming n target i rc2)
      | _ \<Rightarrow> rc)"
| "race_step cfg streaming n target rc DelayElapses =
     (if rc_phase rc \<noteq> Primary then rc
      else if aborted (rc_dispatch rc) then rc\<lparr>rc_phase := DrainingAborted\<rparr>
      else
        (let (g, s) = branch_start cfg (rt_name (target LegB)) (rc_dispatch rc)
         in leg_settled cfg streaming n target LegB (rc\<lparr>rc_dispatch := s, rc_b := Some g, rc_phase := Racing\<rparr>)))"
| "race_step cfg streaming n target rc (AbortArrives r) =
     (let s = rc_dispatch rc in
      if r = AbDeadline \<and> aborted s then rc
      else rc\<lparr>rc_dispatch := abortWith r (s\<lparr>dp_deadlineExceeded := (dp_deadlineExceeded s \<or> r = AbDeadline)\<rparr>)\<rparr>)"
| "race_step cfg streaming n target rc (OthersStep f) = rc\<lparr>rc_dispatch := (rc_dispatch rc)\<lparr>dp_shared := f (dp_shared (rc_dispatch rc))\<rparr>\<rparr>"

definition race_start :: "'y dispatch_config \<Rightarrow> (RouteTarget \<Rightarrow> bool) \<Rightarrow> nat \<Rightarrow> (leg_name \<Rightarrow> RouteTarget) \<Rightarrow> 'y dispatch \<Rightarrow> 'y race" where
  "race_start cfg streaming n target s =
     (let (g, s1) = branch_start cfg (rt_name (target LegA)) s in
      leg_settled cfg streaming n target LegA
        \<lparr>rc_a = g, rc_b = None, rc_cancelled = None, rc_phase = Primary, rc_timedOut = [], rc_charged = [], rc_dispatch = s1\<rparr>)"

text \<open>The whole dispatch of a hedged request: \<open>None\<close> while the race is still open.\<close>

definition hedged_dispatch ::
  "'y world \<Rightarrow> 'y dispatch_config \<Rightarrow> (RouteTarget \<Rightarrow> bool) \<Rightarrow> RouteTarget \<Rightarrow> RouteTarget \<Rightarrow> RouteTarget list \<Rightarrow> 'y race_event list \<Rightarrow> 'y dispatch \<Rightarrow> 'y dispatch option" where
  "hedged_dispatch w cfg streaming a b others evs s =
     (let candidates = a # b # others; n = length candidates; target = (\<lambda>i. case i of LegA \<Rightarrow> a | LegB \<Rightarrow> b);
          rc = foldl (race_step cfg streaming n target) (race_start cfg streaming n target s) evs;
          s1 = rc_dispatch rc in
      case rc_phase rc of
        Finished (Some i) nextIndex \<Rightarrow>
          (case leg_get i rc of
             Some (Settled (Usable r start acquired)) \<Rightarrow> Some (commitServed cfg candidates (target i) r start acquired s1)
           | _ \<Rightarrow> None)
      | Finished None nextIndex \<Rightarrow>
          (let startIndex = (if n \<le> nextIndex \<and> \<not> aborted s1 then n - 1 else nextIndex)
           in Some (candidate_loop w cfg candidates (drop startIndex candidates) s1))
      | _ \<Rightarrow> None)"

section \<open>What the legs hold\<close>

fun leg_slot :: "leg option \<Rightarrow> bool" where
  "leg_slot (Some (AwaitCredential acquired)) = acquired"
| "leg_slot (Some (AwaitForward acquired start)) = acquired"
| "leg_slot (Some (Settled (Usable r start acquired))) = acquired"
| "leg_slot g = False"

fun leg_live :: "leg option \<Rightarrow> bool" where
  "leg_live (Some (Settled (Usable r start acquired))) = True"
| "leg_live (Some (Settled res)) = False"
| "leg_live None = False"
| "leg_live (Some g) = True"

definition leg_holds :: "string \<Rightarrow> string \<Rightarrow> leg option \<Rightarrow> int" where
  "leg_holds x name g = (if leg_slot g \<and> name = x then 1 else 0)"

text \<open>The books of a race against the state it began with.\<close>

definition balanced :: "'y dispatch_config \<Rightarrow> (leg_name \<Rightarrow> RouteTarget) \<Rightarrow> 'y dispatch \<Rightarrow> 'y race \<Rightarrow> bool" where
  "balanced cfg target s rc \<longleftrightarrow>
     (\<forall>i. slot_flag cfg (leg_slot (leg_get i rc))) \<and> dp_served (rc_dispatch rc) = None \<and> \<not> dp_limiterHeld (rc_dispatch rc) \<and>
     (\<forall>x. slots x (dp_calls (rc_dispatch rc)) = slots x (dp_calls s) + leg_holds x (rt_name (target LegA)) (leg_get LegA rc) + leg_holds x (rt_name (target LegB)) (leg_get LegB rc)) \<and>
     (\<forall>x. probing x (dp_calls (rc_dispatch rc)) \<longrightarrow> probing x (dp_calls s) \<or> (\<exists>i. leg_live (leg_get i rc) \<and> rt_name (target i) = x))"

text \<open>A leg of the given name goes from one phase to another, the state with it.\<close>

definition moves :: "'y dispatch_config \<Rightarrow> string \<Rightarrow> leg option \<Rightarrow> leg \<Rightarrow> 'y dispatch \<Rightarrow> 'y dispatch \<Rightarrow> bool" where
  "moves cfg name g g' s s' \<longleftrightarrow>
     slot_flag cfg (leg_slot (Some g')) \<and> dp_served s' = dp_served s \<and> dp_limiterHeld s' = dp_limiterHeld s \<and> dp_headersTimedOut s' = dp_headersTimedOut s \<and>
     (\<forall>x. slots x (dp_calls s') = slots x (dp_calls s) + leg_holds x name (Some g') - leg_holds x name g) \<and>
     (\<forall>x. probing x (dp_calls s') \<longrightarrow> x = name \<and> leg_live (Some g') \<or> probing x (dp_calls s) \<and> (x \<noteq> name \<or> \<not> leg_live g))"

lemma branch_start_moves:
  assumes "branch_start cfg name s = (g, s')"
  shows "moves cfg name None g s s'"
proof -
  obtain ok acquired s1 where s1: "slot_acquire cfg name s = ((ok, acquired), s1)" by (metis surj_pair)
  obtain admitted s2 where s2: "try_probe cfg name s1 = (admitted, s2)" by (metis surj_pair)
  show ?thesis using assms acquire_rules [OF s1] probe_rules [OF s2]
    by (auto simp: branch_start_def s1 s2 moves_def leg_holds_def call_rules slot_flag_def split: if_splits)
qed

lemma branch_credential_moves:
  assumes "branch_credential cfg name acquired ok s = (g, s')" and "slot_flag cfg acquired"
  shows "moves cfg name (Some (AwaitCredential acquired)) g s s'"
  using assms by (auto simp: branch_credential_def moves_def leg_holds_def call_rules split: if_splits)

lemma branch_forward_moves:
  assumes "branch_forward cfg name cancelled acquired start outcome s = (res, s')" and "slot_flag cfg acquired"
  shows "moves cfg name (Some (AwaitForward acquired start)) (Settled res) s s'"
  using assms by (cases outcome) (auto simp: branch_forward_def moves_def leg_holds_def call_rules Let_def slot_flag_def split: if_splits)

lemma leg_get_put [simp]: "leg_get i (leg_put j g rc) = (if i = j then Some g else leg_get i rc)"
  by (cases i; cases j) (simp_all add: leg_get_def leg_put_def)

lemma leg_put_keeps [simp]: "rc_dispatch (leg_put j g rc) = rc_dispatch rc" "rc_phase (leg_put j g rc) = rc_phase rc" "rc_timedOut (leg_put j g rc) = rc_timedOut rc"
  by (cases j; simp add: leg_put_def)+

lemma leg_get_keeps [simp]: "leg_get i (rc\<lparr>rc_dispatch := s\<rparr>) = leg_get i rc" "leg_get i (rc\<lparr>rc_phase := p\<rparr>) = leg_get i rc" "leg_get i (rc\<lparr>rc_cancelled := c\<rparr>) = leg_get i rc"
  "leg_get i (rc\<lparr>rc_timedOut := ts\<rparr>) = leg_get i rc" "leg_get i (rc\<lparr>rc_charged := cs\<rparr>) = leg_get i rc"
  by (cases i; simp add: leg_get_def)+

lemma charge_keeps [simp]: "rc_dispatch (chargeDiscarded tag t e rc) = rc_dispatch rc" "rc_phase (chargeDiscarded tag t e rc) = rc_phase rc"
  "leg_get i (chargeDiscarded tag t e rc) = leg_get i rc" "rc_timedOut (chargeDiscarded tag t e rc) = rc_timedOut rc"
  by (simp_all add: chargeDiscarded_def)

lemma charges_keep [simp]: "rc_dispatch (foldl (\<lambda>r t. chargeDiscarded tag t e r) rc ts) = rc_dispatch rc" "leg_get i (foldl (\<lambda>r t. chargeDiscarded tag t e r) rc ts) = leg_get i rc"
  by (induction ts arbitrary: rc) simp_all

lemma balanced_same:
  assumes "balanced cfg target s rc" and "\<And>i. leg_get i rc' = leg_get i rc" and "dp_calls (rc_dispatch rc') = dp_calls (rc_dispatch rc)"
    and "dp_served (rc_dispatch rc') = dp_served (rc_dispatch rc)" and "dp_limiterHeld (rc_dispatch rc') = dp_limiterHeld (rc_dispatch rc)"
  shows "balanced cfg target s rc'"
  using assms(1) by (simp add: balanced_def assms(2-5))

lemma balanced_flag: "balanced cfg target s rc \<Longrightarrow> leg_get i rc = Some g \<Longrightarrow> slot_flag cfg (leg_slot (Some g))"
  unfolding balanced_def by metis

lemma balanced_move:
  assumes "balanced cfg target s rc" and "moves cfg (rt_name (target i)) (leg_get i rc) g (rc_dispatch rc) s'"
  shows "balanced cfg target s (leg_put i g (rc\<lparr>rc_dispatch := s'\<rparr>))"
proof -
  have "\<exists>k. leg_live (if k = i then Some g else leg_get k rc) \<and> rt_name (target k) = x" if "probing x (dp_calls s')" "\<not> probing x (dp_calls s)" for x
    using that assms unfolding balanced_def moves_def by metis
  then have probes: "\<forall>x. probing x (dp_calls s') \<longrightarrow> probing x (dp_calls s) \<or> (\<exists>k. leg_live (leg_get k (leg_put i g (rc\<lparr>rc_dispatch := s'\<rparr>))) \<and> rt_name (target k) = x)"
    by (simp only: leg_get_put leg_get_keeps) blast
  have "slots x (dp_calls s') = slots x (dp_calls (rc_dispatch rc)) + leg_holds x (rt_name (target i)) (Some g) - leg_holds x (rt_name (target i)) (leg_get i rc)"
    "slots x (dp_calls (rc_dispatch rc)) = slots x (dp_calls s) + leg_holds x (rt_name (target LegA)) (leg_get LegA rc) + leg_holds x (rt_name (target LegB)) (leg_get LegB rc)" for x
    using assms by (simp_all add: balanced_def moves_def)
  then have "slots x (dp_calls s') = slots x (dp_calls s) + leg_holds x (rt_name (target LegA)) (leg_get LegA (leg_put i g (rc\<lparr>rc_dispatch := s'\<rparr>))) +
      leg_holds x (rt_name (target LegB)) (leg_get LegB (leg_put i g (rc\<lparr>rc_dispatch := s'\<rparr>)))" for x
    by (cases i) simp_all
  then show ?thesis using probes assms by (simp add: balanced_def moves_def)
qed

lemma balanced_drain:
  assumes "balanced cfg target s rc"
  shows "balanced cfg target s (drainLoser cfg streaming target i rc)"
proof (cases "\<exists>r start acquired. leg_get i rc = Some (Settled (Usable r start acquired))")
  case True
  then obtain r start acquired where g: "leg_get i rc = Some (Settled (Usable r start acquired))" by blast
  define s' where "s' = good cfg (rt_name (target i)) (slot_release cfg (rt_name (target i)) acquired (rc_dispatch rc))"
  have "slot_flag cfg acquired" using balanced_flag [OF assms(1) g] by simp
  then have "moves cfg (rt_name (target i)) (leg_get i rc) (Settled Drained) (rc_dispatch rc) s'"
    by (auto simp: moves_def g s'_def leg_holds_def call_rules)
  from balanced_move [OF assms this] show ?thesis
    by (auto simp: drainLoser_def g s'_def [symmetric] Let_def intro: balanced_same)
next
  case False
  then show ?thesis using assms by (auto simp: drainLoser_def split: option.split leg.split branch_result.split)
qed

lemma balanced_settle: "balanced cfg target s rc \<Longrightarrow> balanced cfg target s (settleHedgeTimeouts n winner k rc)"
  by (erule balanced_same) (auto simp: settleHedgeTimeouts_def Let_def call_rules)

lemma balanced_phase: "balanced cfg target s rc \<Longrightarrow> balanced cfg target s (rc\<lparr>rc_phase := p\<rparr>)" "balanced cfg target s rc \<Longrightarrow> balanced cfg target s (rc\<lparr>rc_cancelled := c\<rparr>)"
  "balanced cfg target s rc \<Longrightarrow> balanced cfg target s (rc\<lparr>rc_timedOut := ts\<rparr>)"
  by (erule balanced_same; simp)+

lemma balanced_settled: "balanced cfg target s rc \<Longrightarrow> balanced cfg target s (leg_settled cfg streaming n target i rc)"
  by (simp add: leg_settled_def balanced_phase balanced_settle balanced_drain split: race_phase.split option.split leg.split branch_result.split)

lemma balanced_step:
  assumes "balanced cfg target s rc" and "rc_phase rc = Primary \<longrightarrow> rc_b rc = None"
  shows "balanced cfg target s (race_step cfg streaming n target rc ev)"
proof (cases ev)
  case (CredentialSettles i ok)
  show ?thesis
  proof (cases "\<exists>acquired. leg_get i rc = Some (AwaitCredential acquired)")
    case True
    then obtain acquired where g: "leg_get i rc = Some (AwaitCredential acquired)" by blast
    obtain g' s' where b: "branch_credential cfg (rt_name (target i)) acquired ok (rc_dispatch rc) = (g', s')" by (metis surj_pair)
    have "slot_flag cfg acquired" using balanced_flag [OF assms(1) g] by simp
    from branch_credential_moves [OF b this] have "balanced cfg target s (leg_put i g' (rc\<lparr>rc_dispatch := s'\<rparr>))"
      using balanced_move [OF assms(1), of i] g by simp
    then show ?thesis by (simp add: CredentialSettles g b balanced_settled)
  next
    case False
    then show ?thesis using assms by (auto simp: CredentialSettles split: option.split leg.split)
  qed
next
  case (ForwardSettles i outcome)
  show ?thesis
  proof (cases "\<exists>acquired start. leg_get i rc = Some (AwaitForward acquired start)")
    case True
    then obtain acquired start where g: "leg_get i rc = Some (AwaitForward acquired start)" by blast
    obtain res s' where b: "branch_forward cfg (rt_name (target i)) (aborted (rc_dispatch rc) \<or> rc_cancelled rc = Some i) acquired start outcome (rc_dispatch rc) = (res, s')"
      by (metis surj_pair)
    have "slot_flag cfg acquired" using balanced_flag [OF assms(1) g] by simp
    from branch_forward_moves [OF b this] have "balanced cfg target s (leg_put i (Settled res) (rc\<lparr>rc_dispatch := s'\<rparr>))"
      using balanced_move [OF assms(1), of i] g by simp
    from balanced_settled [OF this] balanced_settled [OF balanced_phase(3) [OF this]] show ?thesis
      by (cases "res = TimedOut") (simp_all add: ForwardSettles g b Let_def)
  next
    case False
    then show ?thesis using assms by (auto simp: ForwardSettles split: option.split leg.split)
  qed
next
  case (AbortArrives r)
  then show ?thesis using assms by (auto simp: Let_def call_rules intro: balanced_same)
next
  case (OthersStep f)
  then show ?thesis using assms by (auto intro: balanced_same)
next
  case DelayElapses
  show ?thesis
  proof (cases "rc_phase rc = Primary \<and> \<not> aborted (rc_dispatch rc)")
    case True
    obtain g s' where b: "branch_start cfg (rt_name (target LegB)) (rc_dispatch rc) = (g, s')" by (metis surj_pair)
    have "leg_get LegB rc = None" using True assms(2) by (simp add: leg_get_def)
    with branch_start_moves [OF b] have "balanced cfg target s (leg_put LegB g (rc\<lparr>rc_dispatch := s'\<rparr>))"
      using balanced_move [OF assms(1), of LegB] by simp
    from balanced_settled [OF balanced_phase(1) [OF this, of Racing]] show ?thesis using True
      by (simp add: DelayElapses b leg_put_def)
  next
    case False
    then show ?thesis using assms by (auto simp: DelayElapses balanced_phase)
  qed
qed

text \<open>Where a race can be.\<close>

definition unsettled :: "leg option \<Rightarrow> bool" where
  "unsettled g \<longleftrightarrow> leg_live g \<and> (\<forall>r st acq. g \<noteq> Some (Settled (Usable r st acq)))"

definition answered :: "leg option \<Rightarrow> bool" where
  "answered g \<longleftrightarrow> leg_live g \<and> \<not> unsettled g"

definition some_timeout :: "'y race \<Rightarrow> bool" where
  "some_timeout rc \<longleftrightarrow> (\<exists>i. leg_get i rc = Some (Settled TimedOut))"

definition shape :: "nat \<Rightarrow> 'y race \<Rightarrow> bool" where
  "shape n rc \<longleftrightarrow>
     (case rc_phase rc of
        Primary \<Rightarrow> rc_b rc = None \<and> unsettled (leg_get LegA rc) \<and> rc_timedOut rc = []
      | Racing \<Rightarrow> (\<forall>i. \<not> answered (leg_get i rc)) \<and> (\<exists>i. unsettled (leg_get i rc)) \<and> (some_timeout rc \<longrightarrow> rc_timedOut rc \<noteq> []) \<and> rc_b rc \<noteq> None
      | Draining k \<Rightarrow> answered (leg_get k rc) \<and> unsettled (leg_get (other_leg k) rc)
      | DrainingAborted \<Rightarrow> rc_b rc = None \<and> unsettled (leg_get LegA rc) \<and> aborted (rc_dispatch rc)
      | Finished (Some k) m \<Rightarrow> answered (leg_get k rc) \<and> \<not> leg_live (leg_get (other_leg k) rc)
      | Finished None m \<Rightarrow> (\<forall>i. \<not> leg_live (leg_get i rc)) \<and> (some_timeout rc \<or> dp_headersTimedOut (rc_dispatch rc) \<longrightarrow> dp_headersTimedOut (rc_dispatch rc) \<and> aborted (rc_dispatch rc) \<and> m = n)) \<and>
     ((\<forall>m. rc_phase rc \<noteq> Finished None m) \<longrightarrow> \<not> dp_headersTimedOut (rc_dispatch rc))"

lemma live_simps [simp]: "unsettled (Some (AwaitCredential a))" "unsettled (Some (AwaitForward a st))" "\<not> unsettled None"
  "answered (Some (Settled (Usable r st a)))" "\<not> answered (Some (AwaitCredential a))" "\<not> answered (Some (AwaitForward a st))" "\<not> answered None"
  by (simp_all add: unsettled_def answered_def)

lemma unsettled_settled [simp]: "\<not> unsettled (Some (Settled res))"
  by (cases res) (simp_all add: unsettled_def)

lemma answered_settled [simp]: "answered (Some (Settled res)) = leg_live (Some (Settled res))"
  by (cases res) (simp_all add: unsettled_def answered_def)

lemma drain_keeps [simp]: "rc_phase (drainLoser cfg streaming target i rc) = rc_phase rc" "rc_timedOut (drainLoser cfg streaming target i rc) = rc_timedOut rc"
  "dp_headersTimedOut (rc_dispatch (drainLoser cfg streaming target i rc)) = dp_headersTimedOut (rc_dispatch rc)"
  "dp_abort (rc_dispatch (drainLoser cfg streaming target i rc)) = dp_abort (rc_dispatch rc)"
  by (simp_all add: drainLoser_def Let_def call_rules split: option.split leg.split branch_result.split)

lemma drain_leg [simp]: "leg_get j (drainLoser cfg streaming target i rc) = (if j = i \<and> answered (leg_get i rc) then Some (Settled Drained) else leg_get j rc)"
  by (auto simp: drainLoser_def Let_def split: option.split leg.split branch_result.split)

lemma settle_keeps [simp]: "rc_phase (settleHedgeTimeouts n winner k rc) = Finished winner (if winner = None \<and> rc_timedOut rc \<noteq> [] then n else k)"
  "leg_get j (settleHedgeTimeouts n winner k rc) = leg_get j rc"
  "dp_headersTimedOut (rc_dispatch (settleHedgeTimeouts n winner k rc)) = (winner = None \<and> rc_timedOut rc \<noteq> [] \<or> dp_headersTimedOut (rc_dispatch rc))"
  "aborted (rc_dispatch (settleHedgeTimeouts n winner k rc)) = (winner = None \<and> rc_timedOut rc \<noteq> [] \<or> aborted (rc_dispatch rc))"
  by (auto simp: settleHedgeTimeouts_def Let_def call_rules)

lemma leg_cases: "(\<forall>i. P i) \<longleftrightarrow> P LegA \<and> P LegB" "(\<exists>i. P i) \<longleftrightarrow> P LegA \<or> P LegB"
  by (metis leg_name.exhaust)+

lemma other_leg_simps [simp]: "other_leg LegA = LegB" "other_leg LegB = LegA"
  by (simp_all add: other_leg_def)

lemma aborted_same: "dp_abort s = dp_abort s' \<Longrightarrow> aborted s = aborted s'"
  by (simp add: aborted_def)

lemma leg_b_get: "rc_b rc = leg_get LegB rc"
  by (simp add: leg_get_def)

text \<open>A leg that was awaited settles or goes on, and its handler runs.\<close>

lemma shape_settled:
  assumes "shape n rc" and "unsettled (leg_get i rc)" and "dp_abort s' = dp_abort (rc_dispatch rc)" and "dp_headersTimedOut s' = dp_headersTimedOut (rc_dispatch rc)"
    and "if g = Settled TimedOut then \<not> aborted s' \<and> ts \<noteq> [] else ts = rc_timedOut rc" and "leg_live (Some g) \<longrightarrow> unsettled (Some g) \<or> answered (Some g)"
  shows "shape n (leg_settled cfg streaming n target i ((leg_put i g (rc\<lparr>rc_dispatch := s'\<rparr>))\<lparr>rc_timedOut := ts\<rparr>))"
proof -
  define rc1 where "rc1 = (leg_put i g (rc\<lparr>rc_dispatch := s'\<rparr>))\<lparr>rc_timedOut := ts\<rparr>"
  have rc1: "rc_phase rc1 = rc_phase rc" "leg_get j rc1 = (if j = i then Some g else leg_get j rc)" "rc_dispatch rc1 = s'" "rc_timedOut rc1 = ts" for j
    by (simp_all add: rc1_def)
  have abt: "aborted s' = aborted (rc_dispatch rc)" using assms(3) by (rule aborted_same)
  show ?thesis unfolding rc1_def [symmetric]
  proof (cases "rc_phase rc")
    case Primary
    then have i: "i = LegA" using assms(1,2) by (cases i) (auto simp: shape_def leg_b_get)
    show "shape n (leg_settled cfg streaming n target i rc1)"
    proof (cases g)
      case (Settled res)
      then show ?thesis using Primary assms(1,4,5) rc1 i
        by (cases res) (auto simp: shape_def leg_settled_def leg_b_get some_timeout_def leg_cases)
    qed (use Primary assms(1,4,5) rc1 i in \<open>auto simp: shape_def leg_settled_def leg_b_get\<close>)
  next
    case Racing
    have other: "leg_get (other_leg i) rc \<noteq> Some (Settled (Usable r st a))" for r st a
      using assms(1) Racing by (cases i) (auto simp: shape_def leg_cases)
    show "shape n (leg_settled cfg streaming n target i rc1)"
    proof (cases g)
      case (Settled res)
      show ?thesis
      proof (cases "leg_get (other_leg i) rc")
        case (Some h)
        then show ?thesis using Racing assms(1,2,4,5) rc1 Settled other
          by (cases h; cases res; cases i) (auto simp: shape_def leg_settled_def leg_b_get some_timeout_def leg_cases split: branch_result.splits)
      next
        case None
        then have False using Racing assms(1) by (cases i) (auto simp: shape_def leg_get_def)
        then show ?thesis ..
      qed
    next
      case (AwaitCredential a)
      then show ?thesis using Racing assms(1,2,4,5) rc1 by (cases i) (auto simp: shape_def leg_settled_def leg_b_get some_timeout_def leg_cases)
    next
      case (AwaitForward a st)
      then show ?thesis using Racing assms(1,2,4,5) rc1 by (cases i) (auto simp: shape_def leg_settled_def leg_b_get some_timeout_def leg_cases)
    qed
  next
    case (Draining k)
    then have i: "i = other_leg k" using assms(1,2) by (cases i; cases k) (auto simp: shape_def answered_def)
    show "shape n (leg_settled cfg streaming n target i rc1)"
    proof (cases g)
      case (Settled res)
      then show ?thesis using Draining assms(1,4) rc1 i by (cases k) (auto simp: shape_def leg_settled_def)
    next
      case (AwaitCredential a)
      then show ?thesis using Draining assms(1,4) rc1 i by (cases k) (auto simp: shape_def leg_settled_def)
    next
      case (AwaitForward a st)
      then show ?thesis using Draining assms(1,4) rc1 i by (cases k) (auto simp: shape_def leg_settled_def)
    qed
  next
    case DrainingAborted
    then have i: "i = LegA" and ab: "aborted s'" using assms(1,2) abt by (cases i; auto simp: shape_def leg_b_get)+
    show "shape n (leg_settled cfg streaming n target i rc1)"
    proof (cases g)
      case (Settled res)
      then show ?thesis using DrainingAborted assms(1,4,5) rc1 i ab
        by (cases res) (auto simp: shape_def leg_settled_def leg_b_get some_timeout_def leg_cases)
    qed (use DrainingAborted assms(1,4) rc1 i ab in \<open>auto simp: shape_def leg_settled_def leg_b_get\<close>)
  next
    case (Finished wnr m)
    then have False using assms(1,2)
      by (cases wnr; cases "the wnr"; cases i) (auto simp: shape_def leg_cases unsettled_def answered_def)
    then show "shape n (leg_settled cfg streaming n target i rc1)" ..
  qed
qed

lemma shape_step:
  assumes "shape n rc"
  shows "shape n (race_step cfg streaming n target rc ev)"
proof (cases ev)
  case (CredentialSettles i ok)
  show ?thesis
  proof (cases "\<exists>acquired. leg_get i rc = Some (AwaitCredential acquired)")
    case True
    then obtain acquired where g: "leg_get i rc = Some (AwaitCredential acquired)" by blast
    obtain g' s' where b: "branch_credential cfg (rt_name (target i)) acquired ok (rc_dispatch rc) = (g', s')" by (metis surj_pair)
    have same: "(leg_put i g' (rc\<lparr>rc_dispatch := s'\<rparr>))\<lparr>rc_timedOut := rc_timedOut rc\<rparr> = leg_put i g' (rc\<lparr>rc_dispatch := s'\<rparr>)"
      by (cases i) (simp_all add: leg_put_def)
    have "dp_abort s' = dp_abort (rc_dispatch rc)" "dp_headersTimedOut s' = dp_headersTimedOut (rc_dispatch rc)" "g' \<noteq> Settled TimedOut" "leg_live (Some g') \<longrightarrow> unsettled (Some g') \<or> answered (Some g')"
      using b by (auto simp: branch_credential_def call_rules split: if_splits)
    from shape_settled [OF assms _ this(1,2), of i g' "rc_timedOut rc" cfg streaming target] this(3,4) g show ?thesis
      by (simp add: CredentialSettles b same)
  next
    case False
    then show ?thesis using assms by (auto simp: CredentialSettles split: option.split leg.split)
  qed
next
  case (ForwardSettles i outcome)
  show ?thesis
  proof (cases "\<exists>acquired start. leg_get i rc = Some (AwaitForward acquired start)")
    case True
    then obtain acquired start where g: "leg_get i rc = Some (AwaitForward acquired start)" by blast
    let ?c = "aborted (rc_dispatch rc) \<or> rc_cancelled rc = Some i"
    obtain res s' where b: "branch_forward cfg (rt_name (target i)) ?c acquired start outcome (rc_dispatch rc) = (res, s')" by (metis surj_pair)
    have same: "(leg_put i (Settled res) (rc\<lparr>rc_dispatch := s'\<rparr>))\<lparr>rc_timedOut := rc_timedOut rc\<rparr> = leg_put i (Settled res) (rc\<lparr>rc_dispatch := s'\<rparr>)"
      by (cases i) (simp_all add: leg_put_def)
    have keep: "dp_abort s' = dp_abort (rc_dispatch rc)" "dp_headersTimedOut s' = dp_headersTimedOut (rc_dispatch rc)" "res = TimedOut \<longrightarrow> \<not> ?c"
      using b by (cases outcome; auto simp: branch_forward_def call_rules Let_def split: if_splits)+
    then have "res = TimedOut \<longrightarrow> \<not> aborted s'" by (auto simp: aborted_def)
    with shape_settled [OF assms _ keep(1,2), of i "Settled res" "if res = TimedOut then rc_timedOut rc @ [target i] else rc_timedOut rc" cfg streaming target] g show ?thesis
      by (cases "res = TimedOut") (simp_all add: ForwardSettles b same Let_def)
  next
    case False
    then show ?thesis using assms by (auto simp: ForwardSettles split: option.split leg.split)
  qed
next
  case DelayElapses
  show ?thesis
  proof (cases "rc_phase rc = Primary \<and> \<not> aborted (rc_dispatch rc)")
    case True
    obtain g s' where b: "branch_start cfg (rt_name (target LegB)) (rc_dispatch rc) = (g, s')" by (metis surj_pair)
    have g: "g = Settled Saturated \<or> unsettled (Some g)" "dp_headersTimedOut s' = dp_headersTimedOut (rc_dispatch rc)"
      using b branch_start_moves [OF b] by (auto simp: branch_start_def moves_def Let_def split: prod.splits if_splits)
    define rc1 where "rc1 = rc\<lparr>rc_dispatch := s', rc_b := Some g, rc_phase := Racing\<rparr>"
    have "leg_get j rc1 = (if j = LegB then Some g else leg_get j rc)" "rc_phase rc1 = Racing" "rc_dispatch rc1 = s'" for j
      by (cases j; simp add: rc1_def leg_get_def)+
    then have "leg_settled cfg streaming n target LegB rc1 = rc1" "shape n rc1" using True assms g
      by (cases g; auto simp: leg_settled_def shape_def leg_cases some_timeout_def leg_b_get unsettled_def answered_def split: option.splits leg.splits branch_result.splits)+
    then show ?thesis using True by (simp add: DelayElapses b rc1_def)
  next
    case False
    then show ?thesis using assms by (auto simp: DelayElapses shape_def leg_cases)
  qed
next
  case (AbortArrives r)
  then show ?thesis using assms by (auto simp: Let_def call_rules shape_def some_timeout_def split: race_phase.splits option.splits)
next
  case (OthersStep f)
  then show ?thesis using assms by (auto simp: shape_def some_timeout_def aborted_def split: race_phase.splits option.splits)
qed

lemma dead_holds: "\<not> leg_live g \<Longrightarrow> leg_holds x name g = 0"
  by (cases g rule: leg_slot.cases) (auto simp: leg_holds_def)

lemma race_start_ok:
  assumes "unserved s"
  shows "balanced cfg target s (race_start cfg streaming n target s) \<and> shape n (race_start cfg streaming n target s)"
proof -
  obtain g s1 where b: "branch_start cfg (rt_name (target LegA)) s = (g, s1)" by (metis surj_pair)
  note m = branch_start_moves [OF b, unfolded moves_def]
  define rc where "rc = \<lparr>rc_a = g, rc_b = None, rc_cancelled = None, rc_phase = Primary, rc_timedOut = [], rc_charged = [], rc_dispatch = s1\<rparr>"
  have get: "leg_get LegA rc = Some g" "leg_get LegB rc = None" "rc_phase rc = Primary" "rc_timedOut rc = []" "rc_dispatch rc = s1" by (simp_all add: rc_def leg_get_def)
  have "balanced cfg target s rc" using m assms
    by (auto simp: balanced_def leg_cases get unserved_def leg_holds_def slot_flag_def)
  moreover have "g = Settled Saturated \<or> unsettled (Some g)" using b by (auto simp: branch_start_def Let_def split: prod.splits if_splits)
  then have "shape n (leg_settled cfg streaming n target LegA rc)" using m assms get
    by (cases g) (auto simp: leg_settled_def shape_def leg_cases some_timeout_def leg_b_get unserved_def)
  ultimately show ?thesis by (simp add: race_start_def b rc_def [symmetric] balanced_settled)
qed

lemma race_run_ok:
  assumes "unserved s"
  shows "balanced cfg target s (foldl (race_step cfg streaming n target) (race_start cfg streaming n target s) evs) \<and>
    shape n (foldl (race_step cfg streaming n target) (race_start cfg streaming n target s) evs)"
proof (induction evs rule: rev_induct)
  case Nil
  then show ?case using race_start_ok [OF assms] by simp
next
  case (snoc ev evs)
  then show ?case by (auto intro!: balanced_step shape_step) (auto simp: shape_def)
qed

lemma hedged_ok:
  assumes "hedged_dispatch w cfg streaming a b others evs s = Some s'" and "unserved s"
  shows "slots x (dp_calls s') = slots x (dp_calls s) + held_slot x s' \<and> (probing x (dp_calls s') \<longrightarrow> probing x (dp_calls s)) \<and> slot_flag cfg (dp_limiterHeld s')"
proof -
  define target where "target = (\<lambda>i. case i of LegA \<Rightarrow> a | LegB \<Rightarrow> b)"
  define n where "n = length (a # b # others)"
  define rc where "rc = foldl (race_step cfg streaming n target) (race_start cfg streaming n target s) evs"
  note ok = race_run_ok [OF assms(2), of cfg target streaming n evs, folded rc_def]
  note run = assms(1) [unfolded hedged_dispatch_def Let_def, folded target_def n_def, folded rc_def]
  show ?thesis
  proof (cases "rc_phase rc")
    case (Finished wnr m)
    show ?thesis
    proof (cases wnr)
      case None
      have dead: "\<not> leg_live (leg_get i rc)" for i using ok Finished None by (simp add: shape_def)
      have base: "slots x (dp_calls (rc_dispatch rc)) = slots x (dp_calls s)" "probing x (dp_calls (rc_dispatch rc)) \<longrightarrow> probing x (dp_calls s)"
        using ok dead by (simp_all add: balanced_def dead_holds)
      show ?thesis
      proof (cases "dp_headersTimedOut (rc_dispatch rc)")
        case True
        then have "aborted (rc_dispatch rc)" "m = n" using ok Finished None by (simp_all add: shape_def)
        then have "s' = rc_dispatch rc" using run Finished None by (simp add: n_def)
        then show ?thesis using base ok by (simp add: balanced_def held_slot_def)
      next
        case False
        then have "unserved (rc_dispatch rc)" using ok by (simp add: unserved_def balanced_def)
        from candidate_loop_ok [OF this] show ?thesis using run Finished None base by auto
      qed
    next
      case (Some i)
      obtain r start acquired where g: "leg_get i rc = Some (Settled (Usable r start acquired))" and dead: "\<not> leg_live (leg_get (other_leg i) rc)"
        using ok Finished Some by (auto simp: shape_def answered_def unsettled_def)
      have s': "s' = commitServed cfg (a # b # others) (target i) r start acquired (rc_dispatch rc)" using run Finished Some g by simp
      have "slots x (dp_calls (rc_dispatch rc)) = slots x (dp_calls s) + leg_holds x (rt_name (target i)) (leg_get i rc)"
        using ok dead by (cases i) (simp_all add: balanced_def dead_holds)
      moreover have "probing x (dp_calls (rc_dispatch rc)) \<longrightarrow> probing x (dp_calls s) \<or> rt_name (target i) = x"
        using ok dead by (cases i) (auto simp: balanced_def leg_cases)
      ultimately show ?thesis using ok balanced_flag [of cfg target s rc, OF _ g] by (auto simp: s' call_rules g held_slot_def leg_holds_def balanced_def)
    qed
  qed (use run in auto)
qed

text \<open>When no leg is awaited any more the race is decided; a leg that timed out in a race nobody won ends the request, nothing more is sent.\<close>

lemma race_ends:
  assumes "unserved s" and "rc = foldl (race_step cfg streaming n target) (race_start cfg streaming n target s) evs" and "\<forall>i. \<not> unsettled (leg_get i rc)"
  shows "\<exists>wnr m. rc_phase rc = Finished wnr m"
  using race_run_ok [OF assms(1), of cfg target streaming n evs, folded assms(2)] assms(3)
  by (cases "rc_phase rc") (auto simp: shape_def)

lemma hedge_timeout_final:
  fixes a b :: RouteTarget and others :: "RouteTarget list"
  defines "target \<equiv> (\<lambda>i. case i of LegA \<Rightarrow> a | LegB \<Rightarrow> b)" and "n \<equiv> length (a # b # others)"
  assumes "unserved s" and "rc = foldl (race_step cfg streaming n target) (race_start cfg streaming n target s) evs" and "rc_phase rc = Finished None m"
    and "leg_get i rc = Some (Settled TimedOut)"
  shows "hedged_dispatch w cfg streaming a b others evs s = Some (rc_dispatch rc) \<and> dp_headersTimedOut (rc_dispatch rc) \<and> dp_served (rc_dispatch rc) = None"
proof -
  note ok = race_run_ok [OF assms(3), of cfg target streaming n evs, folded assms(4)]
  have "dp_headersTimedOut (rc_dispatch rc) \<and> aborted (rc_dispatch rc) \<and> m = n"
    using ok assms(5,6) unfolding shape_def some_timeout_def by auto
  then show ?thesis using ok assms(5) unfolding hedged_dispatch_def Let_def target_def [symmetric] n_def [symmetric] assms(4) [symmetric]
    by (simp add: balanced_def n_def)
qed

section \<open>Properties\<close>

text \<open>
  C9. Nothing a request takes is lost. However the upstreams answer, time out or fail, whatever other requests do to the shared limiter and breaker meanwhile, whenever the client goes away, with
  or without a hedged second leg and in every order the legs settle: once the request is torn down it has given back every slot it took of every target's concurrency limit, and no
  half-open probe it was admitted as is left without a verdict.\<close>

theorem dispatch_gives_back:
  assumes "unserved s" and "s1 = candidate_loop w cfg candidates candidates s \<or> hedged_dispatch w cfg streaming a b others evs s = Some s1"
  shows "slots x (dp_calls (teardown_holds cfg started code faulty enforced s1)) = slots x (dp_calls s) \<and>
    (probing x (dp_calls (teardown_holds cfg started code faulty enforced s1)) \<longrightarrow> probing x (dp_calls s))"
proof -
  have "slots x (dp_calls s1) = slots x (dp_calls s) + held_slot x s1 \<and> (probing x (dp_calls s1) \<longrightarrow> probing x (dp_calls s)) \<and> slot_flag cfg (dp_limiterHeld s1)"
    using assms(2)
  proof
    assume "s1 = candidate_loop w cfg candidates candidates s"
    then show ?thesis using candidate_loop_ok [OF assms(1), of w cfg candidates candidates] by blast
  next
    assume "hedged_dispatch w cfg streaming a b others evs s = Some s1"
    from hedged_ok [OF this assms(1)] show ?thesis .
  qed
  then show ?thesis using teardown_ok [of cfg s1 x started code faulty enforced] by simp
qed

text \<open>The primary leg is slow, the second one answers first, and the primary's late answer is drained.\<close>

definition sample_race :: "unit race_event list" where
  "sample_race =
     [CredentialSettles LegA True, DelayElapses, CredentialSettles LegB True, ForwardSettles LegB (Responds \<lparr>up_status = 200, up_retryAfterMs = None\<rparr>),
      ForwardSettles LegA (Responds \<lparr>up_status = 200, up_retryAfterMs = None\<rparr>)]"

theorem dispatch_gives_back_witness:
  fixes s1
  defines "s1 \<equiv> hedged_dispatch sample_world sample_dispatch_config (\<lambda>t. False) (sample_target_named ''a'') (sample_target_named ''bb'') [] sample_race sample_dispatch_start"
  shows "\<exists>s. s1 = Some s \<and> map_option (rt_name \<circ> fst) (dp_served s) = Some ''bb'' \<and>
    slots ''a'' (dp_calls (teardown_holds sample_dispatch_config 1000 200 False False s)) = 0 \<and> slots ''bb'' (dp_calls (teardown_holds sample_dispatch_config 1000 200 False False s)) = 0"
proof -
  have start: "unserved sample_dispatch_start" "dp_calls sample_dispatch_start = []" by (simp_all add: unserved_def sample_dispatch_start_def)
  have "map_option (\<lambda>s. map_option (rt_name \<circ> fst) (dp_served s)) s1 = Some (Some ''bb'')" 
    by (simp add: s1_def hedged_dispatch_def sample_race_def race_start_def branch_start_def slot_acquire_def tryAcquire_def target_get_def fresh_target_def slot_ceiling_def
        sample_dispatch_config_def sample_dispatch_start_def sample_target_named_def adaptive_options_def sample_adaptive_def or_else_def now_of_def logged_def try_probe_def tryProbe_def fresh_breaker_def
        leg_settled_def leg_get_def leg_put_def other_leg_def branch_credential_def branch_forward_def failing_def aborted_def drainLoser_def settleHedgeTimeouts_def slot_release_def release_slot_def
        free_slot_def good_def recordSuccess_def chargeDiscarded_def commitServed_def noteAttempt_def fault_def isFailoverStatus_def isFailoverEligibleStatus_def Let_def jm_get_set)
  then obtain s where s: "s1 = Some s" "map_option (rt_name \<circ> fst) (dp_served s) = Some ''bb''" by auto
  from dispatch_gives_back [OF start(1), of s sample_world sample_dispatch_config _ "\<lambda>t. False" "sample_target_named ''a''" "sample_target_named ''bb''" "[]" sample_race] s start(2)
  show ?thesis by (auto simp: s1_def)
qed

end
