(* ===== verification/Admin_Session.thy ===== *)
theory Admin_Session
  imports Rbac Js_Parse Auth
begin

text \<open>
  Control-plane sessions: the signed session token of \<^verbatim>\<open>auth/src/admin-session.ts\<close>, the resolver and the in-memory session store of \<^verbatim>\<open>auth/src/admin-resolver.ts\<close> and the durable store of
  \<^verbatim>\<open>storage/src/admin-session-store.ts\<close>. Both stores keep one contract, the locale \<open>session_store\<close>. The keyed hash, the hash and the base64url codec are arguments. Shown: what a
  resolved administrator must have presented, that a signed session reads back as it was signed, and that a revoked session stays revoked.
\<close>

section \<open>Session tokens\<close>

datatype AdminSessionSource = SrcExchange | SrcOidc | SrcSaml | SrcBreakGlass | SrcLegacy

record AdminSessionClaims =
  ac_sub :: string
  ac_name :: string
  ac_jti :: string
  ac_memberships :: "Membership list"
  ac_iat :: int
  ac_exp :: int
  ac_src :: "AdminSessionSource option"

text \<open>\<open>sk_enc\<close> and \<open>sk_dec\<close> are base64url of the UTF-8 of a text and back, \<open>sk_bytes\<close> the bytes of base64url and \<open>sk_b64\<close> the base64url of bytes, \<open>sk_mac\<close> HMAC-SHA256.\<close>

record session_crypto =
  sk_mac :: "string \<Rightarrow> string \<Rightarrow> string"
  sk_sha256_hex :: "string \<Rightarrow> string"
  sk_enc :: "string \<Rightarrow> string"
  sk_dec :: "string \<Rightarrow> string"
  sk_b64 :: "string \<Rightarrow> string"
  sk_bytes :: "string \<Rightarrow> string"

definition SESSION_PREFIX :: string where
  "SESSION_PREFIX = ''gses_''"

definition source_text :: "AdminSessionSource \<Rightarrow> string" where
  "source_text s = (case s of SrcExchange \<Rightarrow> ''exchange'' | SrcOidc \<Rightarrow> ''oidc'' | SrcSaml \<Rightarrow> ''saml'' | SrcBreakGlass \<Rightarrow> ''break-glass'' | SrcLegacy \<Rightarrow> ''legacy'')"

definition membership_json :: "Membership \<Rightarrow> json" where
  "membership_json m =
     JObj ([(''role'', JStr (mb_role m)), (''orgId'', JStr (mb_orgId m))] @ (case mb_workspaceId m of Some ws \<Rightarrow> [(''workspaceId'', JStr ws)] | None \<Rightarrow> []))"

definition claims_json :: "AdminSessionClaims \<Rightarrow> json" where
  "claims_json c =
     JObj ([(''sub'', JStr (ac_sub c)), (''name'', JStr (ac_name c)), (''jti'', JStr (ac_jti c)), (''memberships'', JArr (map membership_json (ac_memberships c))),
        (''iat'', JNum (Num (of_int (ac_iat c)))), (''exp'', JNum (Num (of_int (ac_exp c)))), (''typ'', JStr ''admin-session''), (''ver'', JNum (Num 1))]
       @ (case ac_src c of Some s \<Rightarrow> [(''src'', JStr (source_text s))] | None \<Rightarrow> []))"

definition signAdminSession :: "session_crypto \<Rightarrow> number_text \<Rightarrow> string \<Rightarrow> AdminSessionClaims \<Rightarrow> string" where
  "signAdminSession k num secret claims =
     (let body = sk_enc k (stringify num (claims_json claims)) in SESSION_PREFIX @ body @ CHR ''.'' # sk_b64 k (sk_mac k secret body))"

datatype AdminSessionFailure = NotASession | MalformedSession | BadSignature | WrongType | TtlTooLong | NotYetValid | ExpiredSession | SessionThrows

record VerifiedSession =
  vs_principal :: AdminPrincipal
  vs_jti :: string
  vs_source :: AdminSessionSource

definition member_of_object :: "json \<Rightarrow> string \<Rightarrow> json option" where
  "member_of_object v k = (case v of JObj m \<Rightarrow> jm_get m k | _ \<Rightarrow> None)"

text \<open>The claims are typed as what the signer writes: a subject, a name or a workspace that is not a string has no reading here.\<close>

definition text_claim :: "json option \<Rightarrow> string" where
  "text_claim v = (case v of Some (JStr s) \<Rightarrow> s | _ \<Rightarrow> [])"

definition claimed_membership :: "json \<Rightarrow> Membership option" where
  "claimed_membership m =
     (case (member_of_object m ''role'', member_of_object m ''orgId'') of
        (Some (JStr r), Some (JStr org)) \<Rightarrow>
          if isRoleId r
          then Some \<lparr>mb_role = r, mb_orgId = org, mb_workspaceId = (case member_of_object m ''workspaceId'' of Some (JStr ws) \<Rightarrow> Some ws | _ \<Rightarrow> None)\<rparr>
          else None
      | _ \<Rightarrow> None)"

definition claimed_source :: "json option \<Rightarrow> AdminSessionSource" where
  "claimed_source v =
     (if v = Some (JStr ''exchange'') then SrcExchange else if v = Some (JStr ''oidc'') then SrcOidc
      else if v = Some (JStr ''saml'') then SrcSaml else if v = Some (JStr ''break-glass'') then SrcBreakGlass else SrcLegacy)"

text \<open>The claims of a token whose signature is good, at a time in milliseconds. A parsed text has finite numbers only; reading a member of \<^verbatim>\<open>null\<close> throws.\<close>

definition check_claims :: "int \<Rightarrow> int \<Rightarrow> json \<Rightarrow> AdminSessionFailure + VerifiedSession" where
  "check_claims now maxTtlMs claims =
     (if claims = JNull then Inl SessionThrows
      else if member_of_object claims ''typ'' \<noteq> Some (JStr ''admin-session'') \<or> member_of_object claims ''ver'' \<noteq> Some (JNum (Num 1)) then Inl WrongType
      else
        (case (member_of_object claims ''iat'', member_of_object claims ''exp'', member_of_object claims ''jti'') of
           (Some (JNum (Num iat)), Some (JNum (Num expiry)), Some (JStr jti)) \<Rightarrow>
             (let nowSec = now div 1000 in
              if of_int maxTtlMs < (expiry - iat) * 1000 then Inl TtlTooLong
              else if of_int nowSec < iat - 60 then Inl NotYetValid
              else if expiry \<le> of_int nowSec then Inl ExpiredSession
              else Inr
                \<lparr>vs_principal = \<lparr>ap_subject = text_claim (member_of_object claims ''sub''), ap_displayName = text_claim (member_of_object claims ''name''), ap_source = Session,
                   ap_memberships = (case member_of_object claims ''memberships'' of Some (JArr ms) \<Rightarrow> List.map_filter claimed_membership ms | _ \<Rightarrow> [])\<rparr>,
                 vs_jti = jti, vs_source = claimed_source (member_of_object claims ''src'')\<rparr>)
         | _ \<Rightarrow> Inl MalformedSession))"

definition verifyAdminSession :: "session_crypto \<Rightarrow> string list \<Rightarrow> int \<Rightarrow> int \<Rightarrow> string \<Rightarrow> AdminSessionFailure + VerifiedSession" where
  "verifyAdminSession k secrets now maxTtlMs token =
     (if \<not> starts_with token SESSION_PREFIX then Inl NotASession
      else
        (let rest = drop (length SESSION_PREFIX) token in
         case index_of (CHR ''.'') rest of
           None \<Rightarrow> Inl MalformedSession
         | Some dot \<Rightarrow>
             if dot = 0 \<or> dot = length rest - 1 then Inl MalformedSession
             else
               (let body = take dot rest; sig = sk_bytes k (drop (dot + 1) rest) in
                if \<not> list_ex (\<lambda>secret. sk_mac k secret body = sig) secrets then Inl BadSignature
                else (case json_parse (sk_dec k body) of None \<Rightarrow> Inl MalformedSession | Some claims \<Rightarrow> check_claims now maxTtlMs claims))))"

section \<open>Session stores\<close>

record AdminSessionInfo =
  si_jti :: string
  si_subject :: string
  si_source :: string
  si_createdAt :: string
  si_expiresAt :: string

record memory_sessions =
  ms_revoked :: "string list"
  ms_records :: "(string, AdminSessionInfo) jsmap"

definition mem_isActive :: "memory_sessions \<Rightarrow> string \<Rightarrow> bool" where
  "mem_isActive s jti \<longleftrightarrow> jti \<notin> set (ms_revoked s)"

definition mem_revoke :: "string \<Rightarrow> memory_sessions \<Rightarrow> memory_sessions" where
  "mem_revoke jti s = s\<lparr>ms_revoked := List.insert jti (ms_revoked s)\<rparr>"

definition mem_revokeBySubject :: "string \<Rightarrow> memory_sessions \<Rightarrow> nat \<times> memory_sessions" where
  "mem_revokeBySubject subject s =
     foldl (\<lambda>(n, s) (k, r). if si_subject r = subject \<and> si_jti r \<notin> set (ms_revoked s) then (n + 1, mem_revoke (si_jti r) s) else (n, s)) (0, s) (ms_records s)"

definition mem_record :: "AdminSessionInfo \<Rightarrow> memory_sessions \<Rightarrow> memory_sessions" where
  "mem_record r s = s\<lparr>ms_records := jm_set (si_jti r) r (ms_records s)\<rparr>"

text \<open>A row of the table \<^verbatim>\<open>admin_session\<close>.\<close>

record session_row =
  sr_info :: AdminSessionInfo
  sr_revoked :: bool

type_synonym session_table = "(string, session_row) jsmap"

definition pg_isActive :: "session_table \<Rightarrow> string \<Rightarrow> bool" where
  "pg_isActive s jti = (case jm_get s jti of Some r \<Rightarrow> \<not> sr_revoked r | None \<Rightarrow> True)"

definition pg_revoke :: "string \<Rightarrow> string \<Rightarrow> session_table \<Rightarrow> session_table" where
  "pg_revoke stamp jti s =
     (case jm_get s jti of
        Some r \<Rightarrow> jm_set jti (r\<lparr>sr_revoked := True\<rparr>) s
      | None \<Rightarrow>
          jm_set jti \<lparr>sr_info = \<lparr>si_jti = jti, si_subject = [], si_source = ''exchange'', si_createdAt = stamp, si_expiresAt = stamp\<rparr>, sr_revoked = True\<rparr> s)"

definition pg_record :: "AdminSessionInfo \<Rightarrow> session_table \<Rightarrow> session_table" where
  "pg_record info s =
     (case jm_get s (si_jti info) of
        Some r \<Rightarrow> jm_set (si_jti info) (r\<lparr>sr_info := info\<rparr>) s
      | None \<Rightarrow> jm_set (si_jti info) \<lparr>sr_info = info, sr_revoked = False\<rparr> s)"

definition pg_revokeBySubject :: "string \<Rightarrow> session_table \<Rightarrow> nat \<times> session_table" where
  "pg_revokeBySubject subject s =
     (length (filter (\<lambda>(k, r). si_subject (sr_info r) = subject \<and> \<not> sr_revoked r) s),
      map (\<lambda>(k, r). (k, if si_subject (sr_info r) = subject then r\<lparr>sr_revoked := True\<rparr> else r)) s)"

section \<open>The resolver\<close>

datatype AdminAuthFailure = MissingBearer | BootstrapDisabled | BadBootstrap | SessionRefused AdminSessionFailure | SessionRevoked | UnknownScheme

record AdminResolverDeps =
  rd_bootstrapEnabled :: bool
  rd_bootstrapTokenSha256 :: "string option"
  rd_sessionSecrets :: "string list"
  rd_maxSessionTtlMs :: int
  rd_membershipLoader :: "(string \<Rightarrow> unit + Membership list) option"

definition bootstrap_principal :: AdminPrincipal where
  "bootstrap_principal =
     \<lparr>ap_subject = ''bootstrap-admin'', ap_displayName = ''bootstrap admin'', ap_source = Bootstrap,
      ap_memberships = [\<lparr>mb_role = ''owner'', mb_orgId = ''*'', mb_workspaceId = None\<rparr>]\<rparr>"

definition membership_key :: "Membership \<Rightarrow> string" where
  "membership_key m = mb_role m @ CHR 0x00 # mb_orgId m @ CHR 0x00 # (case mb_workspaceId m of Some ws \<Rightarrow> ws | None \<Rightarrow> [])"

fun merge_loop :: "string list \<Rightarrow> Membership list \<Rightarrow> Membership list" where
  "merge_loop seen [] = []"
| "merge_loop seen (m # ms) = (if membership_key m \<in> set seen then merge_loop seen ms else m # merge_loop (membership_key m # seen) ms)"

definition mergeMemberships :: "Membership list \<Rightarrow> Membership list \<Rightarrow> Membership list" where
  "mergeMemberships a b = merge_loop [] (a @ b)"

text \<open>\<open>active\<close> is the revocation check of the session store, if there is one.\<close>

definition resolveAdmin :: "session_crypto \<Rightarrow> int \<Rightarrow> AdminResolverDeps \<Rightarrow> (string \<Rightarrow> bool) option \<Rightarrow> string option \<Rightarrow> AdminAuthFailure + AdminPrincipal" where
  "resolveAdmin k now deps active bearer =
     (case bearer of
        None \<Rightarrow> Inl MissingBearer
      | Some [] \<Rightarrow> Inl MissingBearer
      | Some token \<Rightarrow>
          if starts_with token ''gadm_'' then
            (case rd_bootstrapTokenSha256 deps of
               Some (c # cs) \<Rightarrow>
                 if \<not> rd_bootstrapEnabled deps then Inl BootstrapDisabled
                 else if sk_sha256_hex k token \<noteq> c # cs then Inl BadBootstrap
                 else Inr bootstrap_principal
             | _ \<Rightarrow> Inl BootstrapDisabled)
          else if starts_with token SESSION_PREFIX then
            (case verifyAdminSession k (rd_sessionSecrets deps) now (rd_maxSessionTtlMs deps) token of
               Inl e \<Rightarrow> Inl (SessionRefused e)
             | Inr v \<Rightarrow>
                 if (case active of Some isActive \<Rightarrow> \<not> isActive (vs_jti v) | None \<Rightarrow> False) then Inl SessionRevoked
                 else
                   (case rd_membershipLoader deps of
                      Some load \<Rightarrow>
                        if vs_source v \<noteq> SrcExchange then
                          (case load (ap_subject (vs_principal v)) of
                             Inr persisted \<Rightarrow> Inr ((vs_principal v)\<lparr>ap_memberships := mergeMemberships (ap_memberships (vs_principal v)) persisted\<rparr>)
                           | Inl e \<Rightarrow> Inr (vs_principal v))
                        else Inr (vs_principal v)
                    | None \<Rightarrow> Inr (vs_principal v)))
          else Inl UnknownScheme)"

section \<open>The contract of a session store\<close>

text \<open>
  What the rest of the control plane relies on: a revocation is final whatever is recorded or revoked afterwards, and revoking a subject reaches every session recorded for it.
  \<open>subject_of\<close> is the subject a session is recorded under.
\<close>

locale session_store =
  fixes is_active :: "'s \<Rightarrow> string \<Rightarrow> bool"
    and revoke :: "string \<Rightarrow> 's \<Rightarrow> 's"
    and record_session :: "AdminSessionInfo \<Rightarrow> 's \<Rightarrow> 's"
    and revoke_subject :: "string \<Rightarrow> 's \<Rightarrow> nat \<times> 's"
    and subject_of :: "'s \<Rightarrow> string \<Rightarrow> string option"
    and valid :: "'s \<Rightarrow> bool"
  assumes revoke_kills: "valid s \<Longrightarrow> \<not> is_active (revoke jti s) jti"
    and subject_kills: "valid s \<Longrightarrow> subject_of s jti = Some subject \<Longrightarrow> \<not> is_active (snd (revoke_subject subject s)) jti"
    and revoke_final: "valid s \<Longrightarrow> \<not> is_active s jti \<Longrightarrow> \<not> is_active (revoke j s) jti"
    and record_final: "valid s \<Longrightarrow> \<not> is_active s jti \<Longrightarrow> \<not> is_active (record_session info s) jti"
    and subject_final: "valid s \<Longrightarrow> \<not> is_active s jti \<Longrightarrow> \<not> is_active (snd (revoke_subject subject s)) jti"
    and valid_kept: "valid s \<Longrightarrow> valid (revoke j s)" "valid s \<Longrightarrow> valid (record_session info s)" "valid s \<Longrightarrow> valid (snd (revoke_subject subject s))"
    and recorded: "valid s \<Longrightarrow> subject_of (record_session info s) (si_jti info) = Some (si_subject info)"
begin

text \<open>The steps of a store.\<close>

fun session_step :: "'s \<Rightarrow> string + AdminSessionInfo + string \<Rightarrow> 's" where
  "session_step s (Inl jti) = revoke jti s"
| "session_step s (Inr (Inl info)) = record_session info s"
| "session_step s (Inr (Inr subject)) = snd (revoke_subject subject s)"

lemma dead_forever: "valid s \<Longrightarrow> \<not> is_active s jti \<Longrightarrow> \<not> is_active (foldl session_step s evs) jti \<and> valid (foldl session_step s evs)"
proof (induction evs arbitrary: s)
  case (Cons ev evs)
  have "valid (session_step s ev) \<and> \<not> is_active (session_step s ev) jti"
    using Cons.prems by (cases "(s, ev)" rule: session_step.cases) (simp_all add: valid_kept revoke_final record_final subject_final)
  then show ?case using Cons.IH by simp
qed simp

lemma subject_dead_forever:
  assumes "valid s" and "subject_of s jti = Some subject"
  shows "\<not> is_active (foldl session_step (snd (revoke_subject subject s)) evs) jti"
  using dead_forever [OF valid_kept(3) [OF assms(1)] subject_kills [OF assms]] by blast

end

definition mem_ok :: "memory_sessions \<Rightarrow> bool" where
  "mem_ok s \<longleftrightarrow> jm_ok (ms_records s) \<and> (\<forall>(k, r)\<in>set (ms_records s). si_jti r = k)"

definition pg_ok :: "session_table \<Rightarrow> bool" where
  "pg_ok s \<longleftrightarrow> jm_ok s"

definition jtis_of :: "string \<Rightarrow> (string, AdminSessionInfo) jsmap \<Rightarrow> string list" where
  "jtis_of subject rs = map (\<lambda>kr. si_jti (snd kr)) (filter (\<lambda>kr. si_subject (snd kr) = subject) rs)"

lemma jtis_of_Cons [simp]: "jtis_of subject ((k, r) # rs) = (if si_subject r = subject then si_jti r # jtis_of subject rs else jtis_of subject rs)"
  by (simp add: jtis_of_def)

lemma jtis_of_Nil [simp]: "jtis_of subject [] = []"
  by (simp add: jtis_of_def)

lemma jtis_of_mem: "(k, r) \<in> set rs \<Longrightarrow> si_subject r = subject \<Longrightarrow> si_jti r \<in> set (jtis_of subject rs)"
  by (induction rs) auto

lemma mem_subject_fold:
  "let (n', s') = foldl (\<lambda>(n, s) (k, r). if si_subject r = subject \<and> si_jti r \<notin> set (ms_revoked s) then (n + 1, mem_revoke (si_jti r) s) else (n, s)) (n :: nat, s) rs in
     set (ms_revoked s') = set (ms_revoked s) \<union> set (jtis_of subject rs) \<and> ms_records s' = ms_records s"
proof (induction rs arbitrary: n s)
  case (Cons kr rs)
  obtain k r where kr: "kr = (k, r)" by (cases kr)
  show ?case
  proof (cases "si_subject r = subject \<and> si_jti r \<notin> set (ms_revoked s)")
    case True
    then show ?thesis using Cons.IH [of "n + 1" "mem_revoke (si_jti r) s"] by (simp add: kr mem_revoke_def split_beta)
  next
    case False
    then show ?thesis using Cons.IH [of n s] by (cases "si_subject r = subject") (simp_all add: kr split_beta insert_absorb)
  qed
qed simp

lemma mem_revokeBySubject_result:
  "set (ms_revoked (snd (mem_revokeBySubject subject s))) = set (ms_revoked s) \<union> set (jtis_of subject (ms_records s))"
  "ms_records (snd (mem_revokeBySubject subject s)) = ms_records s"
  using mem_subject_fold [of subject 0 s "ms_records s"] by (simp_all add: mem_revokeBySubject_def split_beta)

interpretation memory_sessions: session_store mem_isActive mem_revoke mem_record mem_revokeBySubject "\<lambda>s jti. map_option si_subject (jm_get (ms_records s) jti)" mem_ok
proof
  fix s jti subject
  assume "mem_ok s" "map_option si_subject (jm_get (ms_records s) jti) = Some subject"
  then obtain r where "(jti, r) \<in> set (ms_records s)" "si_subject r = subject" "si_jti r = jti"
    by (auto simp: mem_ok_def dest!: map_of_SomeD)
  then show "\<not> mem_isActive (snd (mem_revokeBySubject subject s)) jti"
    using jtis_of_mem [of jti r "ms_records s" subject] by (simp add: mem_isActive_def mem_revokeBySubject_result)
next
  fix s info
  assume "mem_ok s"
  then show "mem_ok (mem_record info s)" by (auto simp: mem_ok_def mem_record_def dest: jm_set_sub)
qed (auto simp: mem_isActive_def mem_revoke_def mem_record_def mem_revokeBySubject_result mem_ok_def jm_get_set)

lemma pg_revokeBySubject_get:
  "jm_get (snd (pg_revokeBySubject subject s)) jti = map_option (\<lambda>r. if si_subject (sr_info r) = subject then r\<lparr>sr_revoked := True\<rparr> else r) (jm_get s jti)"
  by (simp add: pg_revokeBySubject_def map_of_map [where f = "\<lambda>r. if si_subject (sr_info r) = subject then r\<lparr>sr_revoked := True\<rparr> else r"] comp_def)

lemma pg_revokeBySubject_keys: "map fst (snd (pg_revokeBySubject subject s)) = map fst s"
  by (simp add: pg_revokeBySubject_def comp_def split_beta)

interpretation pg_sessions: session_store pg_isActive "pg_revoke stamp" pg_record pg_revokeBySubject "\<lambda>s jti. map_option (si_subject \<circ> sr_info) (jm_get s jti)" pg_ok for stamp
  by unfold_locales
    (auto simp: pg_isActive_def pg_revoke_def pg_record_def pg_ok_def pg_revokeBySubject_get pg_revokeBySubject_keys jm_get_set simp del: map_of_eq_Some_iff Some_eq_map_of_iff split: option.splits if_splits intro: jm_ok_set)

section \<open>Facts about tokens\<close>

lemma index_of_prefix: "CHR ''.'' \<notin> set xs \<Longrightarrow> index_of (CHR ''.'') (xs @ CHR ''.'' # ys) = Some (length xs)"
  by (induction xs) auto

lemma verified_signature:
  assumes "verifyAdminSession k secrets now maxTtl token = Inr v"
  shows "\<exists>body sig claims secret. token = SESSION_PREFIX @ body @ CHR ''.'' # sig \<and> secret \<in> set secrets \<and> sk_mac k secret body = sk_bytes k sig \<and>
    json_parse (sk_dec k body) = Some claims \<and> check_claims now maxTtl claims = Inr v"
proof -
  obtain rest dot where rest: "token = SESSION_PREFIX @ rest" and dot: "index_of (CHR ''.'') rest = Some dot"
    and ok: "list_ex (\<lambda>secret. sk_mac k secret (take dot rest) = sk_bytes k (drop (dot + 1) rest)) secrets"
    and claims: "(case json_parse (sk_dec k (take dot rest)) of None \<Rightarrow> Inl MalformedSession | Some claims \<Rightarrow> check_claims now maxTtl claims) = Inr v"
    using assms by (auto simp: verifyAdminSession_def Let_def prefix_def split: if_splits option.splits)
  have "rest = take dot rest @ CHR ''.'' # drop (dot + 1) rest"
    using dot by (induction rest arbitrary: dot) (auto split: if_splits option.splits)
  then have "token = SESSION_PREFIX @ take dot rest @ CHR ''.'' # drop (dot + 1) rest" using rest by simp
  then show ?thesis using ok claims by (auto simp: list_ex_iff split: option.splits)
qed

lemma checked_claims:
  assumes "check_claims now maxTtl claims = Inr v"
  shows "\<exists>iat expiry. member_of_object claims ''iat'' = Some (JNum (Num iat)) \<and> member_of_object claims ''exp'' = Some (JNum (Num expiry)) \<and>
    of_int (now div 1000) < expiry \<and> iat - 60 \<le> of_int (now div 1000) \<and> (expiry - iat) * 1000 \<le> of_int maxTtl"
  using assms by (auto simp: check_claims_def Let_def split: if_splits option.splits json.splits jsnum.splits)

lemma merge_loop_sub: "set (merge_loop seen ms) \<subseteq> set ms"
  by (induction seen ms rule: merge_loop.induct) auto

lemma merge_mem: "m \<in> set (mergeMemberships a b) \<Longrightarrow> m \<in> set a \<or> m \<in> set b"
  using merge_loop_sub [of "[]" "a @ b"] by (auto simp: mergeMemberships_def)

section \<open>Properties\<close>

text \<open>
  C18. An administrator is resolved on evidence only. A bearer that resolves is either the break-glass token, while that path is enabled and its hash is the configured one, and then the bootstrap owner;
  or a session token that carries the keyed hash of its body under an accepted secret, is not expired, does not live longer than allowed and is not revoked, and then it holds only memberships
  of the token, together with the stored ones of its subject unless it was delegated.\<close>

theorem admin_resolution_sound:
  assumes "resolveAdmin k now deps active bearer = Inr p"
  shows "\<exists>token. bearer = Some token \<and>
    (rd_bootstrapEnabled deps \<and> rd_bootstrapTokenSha256 deps = Some (sk_sha256_hex k token) \<and> p = bootstrap_principal \<or>
     (\<exists>body sig claims secret v iat expiry. token = SESSION_PREFIX @ body @ CHR ''.'' # sig \<and> secret \<in> set (rd_sessionSecrets deps) \<and> sk_mac k secret body = sk_bytes k sig \<and>
        json_parse (sk_dec k body) = Some claims \<and> check_claims now (rd_maxSessionTtlMs deps) claims = Inr v \<and>
        member_of_object claims ''iat'' = Some (JNum (Num iat)) \<and> member_of_object claims ''exp'' = Some (JNum (Num expiry)) \<and>
        of_int (now div 1000) < expiry \<and> iat - 60 \<le> of_int (now div 1000) \<and> (expiry - iat) * 1000 \<le> of_int (rd_maxSessionTtlMs deps) \<and>
        (\<forall>isActive. active = Some isActive \<longrightarrow> isActive (vs_jti v)) \<and> ap_subject p = ap_subject (vs_principal v) \<and>
        (\<forall>m\<in>set (ap_memberships p). m \<in> set (ap_memberships (vs_principal v)) \<or>
           vs_source v \<noteq> SrcExchange \<and> (\<exists>load ms. rd_membershipLoader deps = Some load \<and> load (ap_subject p) = Inr ms \<and> m \<in> set ms))))"
proof -
  obtain c cs where token: "bearer = Some (c # cs)" using assms by (auto simp: resolveAdmin_def split: option.splits list.splits)
  show ?thesis
  proof (cases "starts_with (c # cs) ''gadm_''")
    case True
    then show ?thesis using assms token by (auto simp: resolveAdmin_def split: option.splits list.splits if_splits)
  next
    case False
    then obtain v where v: "verifyAdminSession k (rd_sessionSecrets deps) now (rd_maxSessionTtlMs deps) (c # cs) = Inr v"
      using assms token by (auto simp: resolveAdmin_def split: sum.splits if_splits)
    from verified_signature [OF v] obtain body sig claims secret where b: "c # cs = SESSION_PREFIX @ body @ CHR ''.'' # sig" "secret \<in> set (rd_sessionSecrets deps)"
      "sk_mac k secret body = sk_bytes k sig" "json_parse (sk_dec k body) = Some claims" "check_claims now (rd_maxSessionTtlMs deps) claims = Inr v" by blast
    from checked_claims [OF b(5)] obtain iat expiry where e: "member_of_object claims ''iat'' = Some (JNum (Num iat))"
      "member_of_object claims ''exp'' = Some (JNum (Num expiry))" "of_int (now div 1000) < expiry" "iat - 60 \<le> of_int (now div 1000)"
      "(expiry - iat) * 1000 \<le> of_int (rd_maxSessionTtlMs deps)" by blast
    have act: "\<forall>isActive. active = Some isActive \<longrightarrow> isActive (vs_jti v)" and sub: "ap_subject p = ap_subject (vs_principal v)"
      using assms token False v by (auto simp: resolveAdmin_def split: sum.splits if_splits option.splits)
    have mem: "\<forall>m\<in>set (ap_memberships p). m \<in> set (ap_memberships (vs_principal v)) \<or>
        vs_source v \<noteq> SrcExchange \<and> (\<exists>load ms. rd_membershipLoader deps = Some load \<and> load (ap_subject p) = Inr ms \<and> m \<in> set ms)"
      using assms token False v by (auto simp: resolveAdmin_def split: sum.splits if_splits option.splits dest!: merge_mem)
    show ?thesis using token b e act sub mem by blast
  qed
qed

text \<open>What base64url and a digest promise: decoding undoes encoding, no dot is written, and nothing that is not empty becomes empty.\<close>

definition codec_ok :: "session_crypto \<Rightarrow> bool" where
  "codec_ok k \<longleftrightarrow> (\<forall>t. sk_dec k (sk_enc k t) = t \<and> CHR ''.'' \<notin> set (sk_enc k t) \<and> (t \<noteq> [] \<longrightarrow> sk_enc k t \<noteq> [])) \<and>
     (\<forall>b. sk_bytes k (sk_b64 k b) = b \<and> (b \<noteq> [] \<longrightarrow> sk_b64 k b \<noteq> [])) \<and> (\<forall>secret b. sk_mac k secret b \<noteq> [])"

lemma claimed_json: "isRoleId (mb_role m) \<Longrightarrow> claimed_membership (membership_json m) = Some m"
  by (cases m) (auto simp: claimed_membership_def membership_json_def member_of_object_def split: option.split)

lemma claimed_all: "list_all (\<lambda>m. isRoleId (mb_role m)) ms \<Longrightarrow> List.map_filter claimed_membership (map membership_json ms) = ms"
  by (induction ms) (simp_all add: List.map_filter_simps claimed_json)

lemma claimed_source_text: "claimed_source (map_option (\<lambda>s. JStr (source_text s)) src) = (case src of Some s \<Rightarrow> s | None \<Rightarrow> SrcLegacy)"
  by (auto simp: claimed_source_def source_text_def split: option.split AdminSessionSource.split)

lemma not_array_index: "k \<noteq> [] \<Longrightarrow> \<not> is_digit (hd k) \<Longrightarrow> \<not> array_index k"
  by (cases k) (auto simp: array_index_def)

lemma own_order_id: "list_all (\<lambda>p. fst p \<noteq> [] \<and> \<not> is_digit (hd (fst p))) m \<Longrightarrow> own_order m = m"
  by (simp add: own_order_def list_all_iff not_array_index)

lemma membership_wf: "json_wf S (membership_json m)"
  by (simp add: membership_json_def own_order_id is_digit_def split: option.split)

lemma claims_wf: "{of_int (ac_iat c), of_int (ac_exp c), 1} \<subseteq> S \<Longrightarrow> json_wf S (claims_json c)"
  by (simp add: claims_json_def own_order_id is_digit_def list_all_iff membership_wf split: option.split)

lemma check_signed:
  assumes "list_all (\<lambda>m. isRoleId (mb_role m)) (ac_memberships c)" and "(ac_exp c - ac_iat c) * 1000 \<le> maxTtl" and "ac_iat c - 60 \<le> now div 1000" and "now div 1000 < ac_exp c"
  shows "check_claims now maxTtl (claims_json c) =
    Inr \<lparr>vs_principal = \<lparr>ap_subject = ac_sub c, ap_displayName = ac_name c, ap_source = Session, ap_memberships = ac_memberships c\<rparr>, vs_jti = ac_jti c,
      vs_source = (case ac_src c of Some s \<Rightarrow> s | None \<Rightarrow> SrcLegacy)\<rparr>"
proof -
  have get: "member_of_object (claims_json c) ''typ'' = Some (JStr ''admin-session'')" "member_of_object (claims_json c) ''ver'' = Some (JNum (Num 1))"
    "member_of_object (claims_json c) ''iat'' = Some (JNum (Num (of_int (ac_iat c))))" "member_of_object (claims_json c) ''exp'' = Some (JNum (Num (of_int (ac_exp c))))"
    "member_of_object (claims_json c) ''jti'' = Some (JStr (ac_jti c))" "member_of_object (claims_json c) ''sub'' = Some (JStr (ac_sub c))"
    "member_of_object (claims_json c) ''name'' = Some (JStr (ac_name c))" "member_of_object (claims_json c) ''memberships'' = Some (JArr (map membership_json (ac_memberships c)))"
    "member_of_object (claims_json c) ''src'' = map_option (\<lambda>s. JStr (source_text s)) (ac_src c)" "claims_json c \<noteq> JNull"
    by (simp_all add: claims_json_def member_of_object_def split: option.split)
  have "(of_int (ac_exp c) - of_int (ac_iat c)) * 1000 \<le> (of_int maxTtl :: real)"
    using assms(2) by (metis of_int_diff of_int_le_iff of_int_mult of_int_numeral)
  moreover have "real_of_int (ac_iat c) - 60 \<le> of_int (now div 1000)" using assms(3) by (metis of_int_diff of_int_le_iff of_int_numeral)
  ultimately show ?thesis using assms(1,4) by (simp add: check_claims_def get claimed_all claimed_source_text text_claim_def)
qed

text \<open>A codec for the witnesses: a dash is doubled and a dot becomes a dash and a letter.\<close>

fun dash_enc :: "string \<Rightarrow> string" where
  "dash_enc [] = []"
| "dash_enc (c # cs) = (if c = CHR ''.'' then ''-p'' else if c = CHR ''-'' then ''--'' else [c]) @ dash_enc cs"

fun dash_dec :: "string \<Rightarrow> string" where
  "dash_dec (c # d # cs) = (if c = CHR ''-'' then (if d = CHR ''p'' then CHR ''.'' else d) # dash_dec cs else c # dash_dec (d # cs))"
| "dash_dec cs = cs"

definition plain_crypto :: session_crypto where
  "plain_crypto =
     \<lparr>sk_mac = (\<lambda>secret body. CHR ''m'' # secret @ body), sk_sha256_hex = (\<lambda>t. CHR ''h'' # t), sk_enc = dash_enc, sk_dec = dash_dec, sk_b64 = id, sk_bytes = id\<rparr>"

lemma dash_dec_single: "c \<noteq> CHR ''-'' \<Longrightarrow> dash_dec (c # cs) = c # dash_dec cs"
  by (cases cs) auto

lemma dash_roundtrip [simp]: "dash_dec (dash_enc t) = t"
  by (induction t) (auto simp: dash_dec_single)

lemma plain_codec_ok: "codec_ok plain_crypto"
proof -
  have "CHR ''.'' \<notin> set (dash_enc t)" for t by (induction t) auto
  moreover have "dash_enc t = [] \<Longrightarrow> t = []" for t by (cases t) (auto split: if_splits)
  ultimately show ?thesis by (auto simp: codec_ok_def plain_crypto_def)
qed

definition bootstrap_deps :: AdminResolverDeps where
  "bootstrap_deps = \<lparr>rd_bootstrapEnabled = True, rd_bootstrapTokenSha256 = Some ''hgadm_k'', rd_sessionSecrets = [''s''], rd_maxSessionTtlMs = 5000, rd_membershipLoader = None\<rparr>"

theorem admin_resolution_sound_witness:
  "resolveAdmin plain_crypto 1500 bootstrap_deps None (Some ''gadm_k'') = Inr bootstrap_principal \<and> sk_sha256_hex plain_crypto ''gadm_k'' = ''hgadm_k''"
proof -
  have run: "resolveAdmin plain_crypto 1500 bootstrap_deps None (Some ''gadm_k'') = Inr bootstrap_principal"
    by (simp add: resolveAdmin_def bootstrap_deps_def plain_crypto_def)
  then show ?thesis using admin_resolution_sound [OF run] by (auto simp: bootstrap_deps_def SESSION_PREFIX_def)
qed

text \<open>
  C19. A signed session reads back as it was signed. A token made under an accepted secret from role ids that are well formed, checked within its lifetime, resolves to exactly the subject, the session id,
  the memberships and the source it was made with.\<close>

theorem session_roundtrip:
  assumes "codec_ok k" and "num_reads num {of_int (ac_iat c), of_int (ac_exp c), 1}" and "secret \<in> set secrets"
    and "list_all (\<lambda>m. isRoleId (mb_role m)) (ac_memberships c)" and "(ac_exp c - ac_iat c) * 1000 \<le> maxTtl" and "ac_iat c - 60 \<le> now div 1000" and "now div 1000 < ac_exp c"
  shows "verifyAdminSession k secrets now maxTtl (signAdminSession k num secret c) =
    Inr \<lparr>vs_principal = \<lparr>ap_subject = ac_sub c, ap_displayName = ac_name c, ap_source = Session, ap_memberships = ac_memberships c\<rparr>, vs_jti = ac_jti c,
      vs_source = (case ac_src c of Some s \<Rightarrow> s | None \<Rightarrow> SrcLegacy)\<rparr>"
proof -
  let ?text = "stringify num (claims_json c)"
  let ?body = "sk_enc k ?text" and ?sig = "sk_b64 k (sk_mac k secret (sk_enc k ?text))"
  have codec: "sk_dec k ?body = ?text" "CHR ''.'' \<notin> set ?body" "sk_bytes k ?sig = sk_mac k secret ?body" "?sig \<noteq> []" "?text \<noteq> [] \<Longrightarrow> ?body \<noteq> []"
    using assms(1) by (simp_all add: codec_ok_def)
  have "?text \<noteq> []" by (simp add: claims_json_def)
  moreover have "index_of (CHR ''.'') (?body @ CHR ''.'' # ?sig) = Some (length ?body)" by (rule index_of_prefix [OF codec(2)])
  moreover have "json_parse ?text = Some (claims_json c)" using parse_stringify [OF assms(2) claims_wf [of c]] by simp
  moreover have "list_ex (\<lambda>secret'. sk_mac k secret' ?body = sk_mac k secret ?body) secrets" using assms(3) by (auto simp: list_ex_iff)
  ultimately show ?thesis using codec check_signed [OF assms(4-7)]
    by (simp add: verifyAdminSession_def signAdminSession_def Let_def)
qed

definition alice_claims :: AdminSessionClaims where
  "alice_claims = \<lparr>ac_sub = ''alice'', ac_name = ''Alice'', ac_jti = ''j1'', ac_memberships = [\<lparr>mb_role = ''owner'', mb_orgId = ''acme'', mb_workspaceId = None\<rparr>],
     ac_iat = 1, ac_exp = 2, ac_src = Some SrcOidc\<rparr>"

definition two_numbers :: number_text where
  "two_numbers r = (if r = 1 then ''1'' else ''2'')"

lemma two_numbers_read: "num_reads two_numbers {of_int 1, of_int 2, 1}"
  by (simp add: num_reads_def two_numbers_def number_char_def read_magnitude_def int_part_def is_digit_def read_nat_def digit_val_def)

theorem session_roundtrip_witness:
  "verifyAdminSession plain_crypto [''old'', ''new''] 1500 5000 (signAdminSession plain_crypto two_numbers ''new'' alice_claims) =
    Inr \<lparr>vs_principal = \<lparr>ap_subject = ''alice'', ap_displayName = ''Alice'', ap_source = Session, ap_memberships = [\<lparr>mb_role = ''owner'', mb_orgId = ''acme'', mb_workspaceId = None\<rparr>]\<rparr>,
      vs_jti = ''j1'', vs_source = SrcOidc\<rparr>"
  using session_roundtrip [OF plain_codec_ok, of two_numbers alice_claims "''new''" "[''old'', ''new'']" 5000 1500] two_numbers_read
  by (simp add: alice_claims_def isRoleId_def role_head_char_def role_tail_char_def)

end
