(* ===== verification/Scim.thy ===== *)
theory Scim
  imports Admin_Session Control_Roles OAuth_Broker
begin

text \<open>
  Provisioning by an identity provider: the SCIM routes of \<^verbatim>\<open>apps/control-api/src/scim.ts\<close> over the tables of users, role grants, groups and group members
  (\<^verbatim>\<open>storage/src/adapters.ts\<close>, \<^verbatim>\<open>scim-group-store.ts\<close>, \<^verbatim>\<open>schema.ts\<close>), the session registry and the token broker. A call of a store is one transaction; a row that breaks a foreign key or a
  unique index throws, and what earlier transactions of the request wrote stays. The ids the database draws are an argument. Shown: the tables stay consistent, a deprovisioned user stays out, and what a
  patch of a group does to its members.
\<close>

section \<open>Tables\<close>

record AdminUserRow =
  au_id :: string
  au_subject :: string
  au_displayName :: string
  au_email :: "string option"

record DurableMembershipRow =
  dm_id :: string
  dm_userId :: string
  dm_role :: string
  dm_orgId :: "string option"
  dm_workspaceId :: "string option"

record scim_group =
  sg_id :: string
  sg_externalId :: "string option"
  sg_displayName :: string

record scim_group_member =
  gl_groupId :: string
  gl_userId :: string
  gl_membershipId :: "string option"

record scim_audit =
  sa_actor :: string
  sa_action :: string
  sa_target :: string
  sa_payload :: json

record directory =
  di_users :: "AdminUserRow list"
  di_grants :: "DurableMembershipRow list"
  di_groups :: "scim_group list"
  di_links :: "scim_group_member list"
  di_sessions :: session_table
  di_broker :: "broker option"
  di_audit :: "scim_audit list"
  di_next :: nat

text \<open>\<open>se_ids\<close> draws ids, \<open>se_resolver\<close> is the role resolver after its refresh, if that succeeded, \<open>se_roleMap\<close> the parsed SCIM_GROUP_ROLE_MAP.\<close>

record scim_env =
  se_db :: bool
  se_resolver :: "RoleResolver option"
  se_roleMap :: "(string, string \<times> string) jsmap"
  se_ids :: "nat \<Rightarrow> string"
  se_num :: number_text

definition hex_char :: "char \<Rightarrow> bool" where
  "hex_char c \<longleftrightarrow> is_hex (lower_char c)"

definition isUuid :: "string \<Rightarrow> bool" where
  "isUuid s \<longleftrightarrow> map length (split_on (CHR ''-'') s) = [8, 4, 4, 4, 12] \<and> list_all (list_all hex_char) (split_on (CHR ''-'') s)"

definition uuidParam :: "string \<Rightarrow> string option" where
  "uuidParam v = (if isUuid v then Some v else None)"

text \<open>A uuid column compares ids whatever their case and gives them back in lower case.\<close>

definition db_uuid :: "string \<Rightarrow> string" where
  "db_uuid s = to_lower s"

section \<open>Users and role grants\<close>

definition upsertBySubject :: "scim_env \<Rightarrow> string \<Rightarrow> string \<Rightarrow> string option \<Rightarrow> directory \<Rightarrow> AdminUserRow \<times> directory" where
  "upsertBySubject env subject displayName email d =
     (case find (\<lambda>u. au_subject u = subject) (di_users d) of
        Some u \<Rightarrow>
          (let u' = u\<lparr>au_displayName := displayName, au_email := email\<rparr>
           in (u', d\<lparr>di_users := map (\<lambda>v. if au_subject v = subject then v\<lparr>au_displayName := displayName, au_email := email\<rparr> else v) (di_users d)\<rparr>))
      | None \<Rightarrow>
          (let u = \<lparr>au_id = se_ids env (di_next d), au_subject = subject, au_displayName = displayName, au_email = email\<rparr>
           in (u, d\<lparr>di_users := di_users d @ [u], di_next := di_next d + 1\<rparr>)))"

definition user_get :: "string \<Rightarrow> directory \<Rightarrow> AdminUserRow option" where
  "user_get ident d = find (\<lambda>u. au_id u = db_uuid ident) (di_users d)"

text \<open>Deleting a user takes its role grants and its places in groups along (the foreign keys cascade).\<close>

definition user_delete :: "string \<Rightarrow> directory \<Rightarrow> bool \<times> directory" where
  "user_delete ident d =
     (list_ex (\<lambda>u. au_id u = db_uuid ident) (di_users d),
      d\<lparr>di_users := filter (\<lambda>u. au_id u \<noteq> db_uuid ident) (di_users d), di_grants := filter (\<lambda>m. dm_userId m \<noteq> db_uuid ident) (di_grants d),
        di_links := filter (\<lambda>l. gl_userId l \<noteq> db_uuid ident) (di_links d)\<rparr>)"

text \<open>\<open>None\<close> is a broken foreign key, or an organisation or workspace that is no uuid.\<close>

definition membership_create :: "scim_env \<Rightarrow> string \<Rightarrow> string \<Rightarrow> string option \<Rightarrow> string option \<Rightarrow> directory \<Rightarrow> (DurableMembershipRow \<times> directory) option" where
  "membership_create env userId r org ws d =
     (if \<not> list_ex (\<lambda>u. au_id u = db_uuid userId) (di_users d) \<or> \<not> list_all isUuid (case org of Some x \<Rightarrow> [x] | None \<Rightarrow> []) \<or> \<not> list_all isUuid (case ws of Some x \<Rightarrow> [x] | None \<Rightarrow> []) then None
      else
        (let m = \<lparr>dm_id = se_ids env (di_next d), dm_userId = db_uuid userId, dm_role = r, dm_orgId = map_option db_uuid org, dm_workspaceId = map_option db_uuid ws\<rparr>
         in Some (m, d\<lparr>di_grants := di_grants d @ [m], di_next := di_next d + 1\<rparr>)))"

definition membership_delete :: "string \<Rightarrow> directory \<Rightarrow> bool \<times> directory" where
  "membership_delete ident d = (list_ex (\<lambda>m. dm_id m = db_uuid ident) (di_grants d), d\<lparr>di_grants := filter (\<lambda>m. dm_id m \<noteq> db_uuid ident) (di_grants d)\<rparr>)"

definition membershipsForSubject :: "string \<Rightarrow> directory \<Rightarrow> DurableMembershipRow list" where
  "membershipsForSubject subject d = filter (\<lambda>m. list_ex (\<lambda>u. au_id u = dm_userId m \<and> au_subject u = subject) (di_users d)) (di_grants d)"

definition membershipLoader :: "directory \<Rightarrow> string \<Rightarrow> Membership list" where
  "membershipLoader d subject =
     map (\<lambda>r. \<lparr>mb_role = dm_role r, mb_orgId = (case dm_orgId r of Some org \<Rightarrow> org | None \<Rightarrow> ''*''), mb_workspaceId = dm_workspaceId r\<rparr>)
       (filter (\<lambda>r. isRoleId (dm_role r)) (membershipsForSubject subject d))"

section \<open>Groups\<close>

record ScimGroupRow =
  gr_id :: string
  gr_externalId :: "string option"
  gr_displayName :: string
  gr_members :: "string list"

text \<open>The configured map: what is not an object with a role and an organisation is skipped, and what is not JSON is empty.\<close>

definition map_entry :: "json \<Rightarrow> (string \<times> string) option" where
  "map_entry e = (case (member_of_object e ''role'', member_of_object e ''orgId'') of (Some (JStr r), Some (JStr org)) \<Rightarrow> Some (r, org) | _ \<Rightarrow> None)"

definition entries_of :: "json \<Rightarrow> (string \<times> json) list" where
  "entries_of v = (case v of JObj m \<Rightarrow> own_order m | JArr xs \<Rightarrow> zip (map show_nat [0..<length xs]) xs | _ \<Rightarrow> [])"

definition parseScimGroupRoleMap :: "string \<Rightarrow> (string, string \<times> string) jsmap" where
  "parseScimGroupRoleMap t =
     (case json_parse t of
        None \<Rightarrow> []
      | Some raw \<Rightarrow> foldl (\<lambda>out (k, v). case map_entry v of Some e \<Rightarrow> jm_set k e out | None \<Rightarrow> out) [] (entries_of raw))"

definition roleFor :: "scim_env \<Rightarrow> string \<Rightarrow> (string \<times> string option) option" where
  "roleFor env displayName =
     (case jm_get (se_roleMap env) displayName of
        Some (r, org) \<Rightarrow> if isRoleId r then Some (r, if org = ''*'' then None else Some org) else None
      | None \<Rightarrow> None)"

definition group_create :: "scim_env \<Rightarrow> string \<Rightarrow> string option \<Rightarrow> directory \<Rightarrow> (ScimGroupRow \<times> directory) option" where
  "group_create env displayName externalId d =
     (if list_ex (\<lambda>g. sg_displayName g = displayName) (di_groups d) then None
      else
        (let g = \<lparr>sg_id = se_ids env (di_next d), sg_externalId = externalId, sg_displayName = displayName\<rparr>
         in Some (\<lparr>gr_id = sg_id g, gr_externalId = externalId, gr_displayName = displayName, gr_members = []\<rparr>, d\<lparr>di_groups := di_groups d @ [g], di_next := di_next d + 1\<rparr>)))"

definition members_of :: "string \<Rightarrow> directory \<Rightarrow> string list" where
  "members_of gid d = map gl_userId (filter (\<lambda>l. gl_groupId l = gid) (di_links d))"

definition group_get :: "string \<Rightarrow> directory \<Rightarrow> ScimGroupRow option" where
  "group_get ident d =
     map_option (\<lambda>g. \<lparr>gr_id = sg_id g, gr_externalId = sg_externalId g, gr_displayName = sg_displayName g, gr_members = members_of (sg_id g) d\<rparr>)
       (find (\<lambda>g. sg_id g = db_uuid ident) (di_groups d))"

text \<open>The link is claimed first; \<open>None\<close> is a member or a group that does not exist, or a mapped organisation that is no uuid.\<close>

definition addMember :: "scim_env \<Rightarrow> string \<Rightarrow> string \<Rightarrow> string \<Rightarrow> directory \<Rightarrow> directory option" where
  "addMember env groupId userId displayName d =
     (let gid = db_uuid groupId; uid = db_uuid userId in
      if list_ex (\<lambda>l. gl_groupId l = gid \<and> gl_userId l = uid) (di_links d) then Some d
      else if \<not> list_ex (\<lambda>g. sg_id g = gid) (di_groups d) \<or> \<not> list_ex (\<lambda>u. au_id u = uid) (di_users d) then None
      else
        (case roleFor env displayName of
           None \<Rightarrow> Some (d\<lparr>di_links := di_links d @ [\<lparr>gl_groupId = gid, gl_userId = uid, gl_membershipId = None\<rparr>]\<rparr>)
         | Some (r, org) \<Rightarrow>
             (case membership_create env userId r org None d of
                None \<Rightarrow> None
              | Some (m, d') \<Rightarrow> Some (d'\<lparr>di_links := di_links d' @ [\<lparr>gl_groupId = gid, gl_userId = uid, gl_membershipId = Some (dm_id m)\<rparr>]\<rparr>))))"

definition removeMember :: "string \<Rightarrow> string \<Rightarrow> directory \<Rightarrow> directory" where
  "removeMember groupId userId d =
     (let hit = (\<lambda>l. gl_groupId l = db_uuid groupId \<and> gl_userId l = db_uuid userId);
          d1 = d\<lparr>di_links := filter (\<lambda>l. \<not> hit l) (di_links d)\<rparr>
      in case find hit (di_links d) of
           Some l \<Rightarrow> (case gl_membershipId l of Some mid \<Rightarrow> d1\<lparr>di_grants := filter (\<lambda>m. dm_id m \<noteq> mid) (di_grants d)\<rparr> | None \<Rightarrow> d1)
         | None \<Rightarrow> d1)"

definition group_delete :: "string \<Rightarrow> directory \<Rightarrow> bool \<times> directory" where
  "group_delete ident d =
     (let mids = List.map_filter gl_membershipId (filter (\<lambda>l. gl_groupId l = db_uuid ident) (di_links d)) in
      (list_ex (\<lambda>g. sg_id g = db_uuid ident) (di_groups d),
       d\<lparr>di_grants := filter (\<lambda>m. dm_id m \<notin> set mids) (di_grants d), di_groups := filter (\<lambda>g. sg_id g \<noteq> db_uuid ident) (di_groups d),
         di_links := filter (\<lambda>l. gl_groupId l \<noteq> db_uuid ident) (di_links d)\<rparr>))"

section \<open>Reading requests\<close>

definition firstEmail :: "json \<Rightarrow> string option" where
  "firstEmail b =
     (case member_of_object b ''emails'' of
        Some (JArr es) \<Rightarrow> (case List.map_filter (\<lambda>e. str_field (member_of_object e ''value'')) es of v # vs \<Rightarrow> Some v | [] \<Rightarrow> None)
      | _ \<Rightarrow> None)"

definition memberValues :: "json option \<Rightarrow> string list" where
  "memberValues v = (case v of Some (JArr ms) \<Rightarrow> List.map_filter (\<lambda>m. str_field (member_of_object m ''value'')) ms | _ \<Rightarrow> [])"

text \<open>\<^verbatim>\<open>String(v)\<close> of a JSON value.\<close>

fun join_comma :: "string list \<Rightarrow> string" where
  "join_comma [] = []"
| "join_comma [s] = s"
| "join_comma (s # t # ss) = s @ CHR '','' # join_comma (t # ss)"

fun js_String :: "number_text \<Rightarrow> json \<Rightarrow> string" where
  "js_String num JNull = ''null''"
| "js_String num (JBool b) = (if b then ''true'' else ''false'')"
| "js_String num (JNum n) = stringify num (JNum n)"
| "js_String num (JStr s) = s"
| "js_String num (JArr xs) = join_comma (map (\<lambda>x. if x = JNull then [] else js_String num x) xs)"
| "js_String num (JObj m) = ''[object Object]''"

definition op_kind :: "number_text \<Rightarrow> json \<Rightarrow> string" where
  "op_kind num op = to_lower (case member_of_object op ''op'' of None \<Rightarrow> ''undefined'' | Some v \<Rightarrow> js_String num v)"

definition op_path :: "json \<Rightarrow> string" where
  "op_path op = (case member_of_object op ''path'' of Some (JStr p) \<Rightarrow> p | _ \<Rightarrow> [])"

definition operations :: "json \<Rightarrow> json option" where
  "operations b = (case member_of_object b ''Operations'' of None \<Rightarrow> member_of_object b ''operations'' | Some JNull \<Rightarrow> member_of_object b ''operations'' | Some v \<Rightarrow> Some v)"

text \<open>The first match of \<^verbatim>\<open>members[value eq "(.+?)"]\<close>, whatever its case.\<close>

definition line_end :: "char \<Rightarrow> bool" where
  "line_end c \<longleftrightarrow> (of_char c :: nat) = 10 \<or> (of_char c :: nat) = 13"

fun shortest :: "string \<Rightarrow> string option" where
  "shortest [] = None"
| "shortest (c # cs) = (if line_end c then None else if starts_with cs ''\"]'' then Some [c] else map_option ((#) c) (shortest cs))"

fun member_path :: "string \<Rightarrow> string option" where
  "member_path [] = None"
| "member_path (c # cs) =
     (case (if starts_with (to_lower (c # cs)) ''members[value eq \"'' then shortest (drop 18 (c # cs)) else None) of
        Some v \<Rightarrow> Some v
      | None \<Rightarrow> member_path cs)"

record group_patch =
  gp_adds :: "string list"
  gp_removes :: "string list"
  gp_replace :: "string list option"

definition patch_op :: "number_text \<Rightarrow> group_patch \<Rightarrow> json \<Rightarrow> group_patch" where
  "patch_op num p op =
     (let kind = op_kind num op; path = op_path op; vals = memberValues (member_of_object op ''value'') in
      if kind = ''add'' \<and> (path = [] \<or> path = ''members'') then p\<lparr>gp_adds := gp_adds p @ vals\<rparr>
      else if kind = ''replace'' \<and> (path = [] \<or> path = ''members'') then p\<lparr>gp_replace := Some vals\<rparr>
      else if kind = ''remove'' then p\<lparr>gp_removes := gp_removes p @ (case member_path path of Some v \<Rightarrow> [v] | None \<Rightarrow> vals)\<rparr>
      else p)"

text \<open>\<open>None\<close> is the exception of reading a member of \<^verbatim>\<open>null\<close>.\<close>

definition parseGroupPatch :: "number_text \<Rightarrow> json \<Rightarrow> group_patch option" where
  "parseGroupPatch num b =
     (let none = \<lparr>gp_adds = [], gp_removes = [], gp_replace = None\<rparr> in
      case operations b of
        Some (JArr ops) \<Rightarrow> if JNull \<in> set ops then None else Some (foldl (patch_op num) none ops)
      | _ \<Rightarrow> Some none)"

definition op_deactivates :: "number_text \<Rightarrow> json \<Rightarrow> bool" where
  "op_deactivates num op \<longleftrightarrow>
     op_kind num op = ''replace'' \<and>
     (op_path op = ''active'' \<and> member_of_object op ''value'' = Some (JBool False) \<or>
      op_path op = [] \<and> (case member_of_object op ''value'' of Some v \<Rightarrow> member_of_object v ''active'' = Some (JBool False) | None \<Rightarrow> False))"

fun ops_deactivate :: "number_text \<Rightarrow> json list \<Rightarrow> bool option" where
  "ops_deactivate num [] = Some False"
| "ops_deactivate num (op # ops) = (if op = JNull then None else if op_deactivates num op then Some True else ops_deactivate num ops)"

definition patchDeactivates :: "number_text \<Rightarrow> json \<Rightarrow> bool option" where
  "patchDeactivates num b = (case operations b of Some (JArr ops) \<Rightarrow> ops_deactivate num ops | _ \<Rightarrow> Some False)"

section \<open>The routes\<close>

text \<open>\<open>Unsent\<close> is a handler that returns without having answered: it tests for the database before it calls the guard, whose own answer 501 is therefore never sent.\<close>

datatype scim_reply = Reply int json | NoContent | Thrown | Unsent

definition USER_SCHEMA :: string where
  "USER_SCHEMA = ''urn:ietf:params:scim:schemas:core:2.0:User''"

definition GROUP_SCHEMA :: string where
  "GROUP_SCHEMA = ''urn:ietf:params:scim:schemas:core:2.0:Group''"

definition ERROR_SCHEMA :: string where
  "ERROR_SCHEMA = ''urn:ietf:params:scim:api:messages:2.0:Error''"

definition scimError :: "int \<Rightarrow> string \<Rightarrow> string option \<Rightarrow> scim_reply" where
  "scimError status detail scimType =
     Reply status (JObj ([(''schemas'', JArr [JStr ERROR_SCHEMA]), (''detail'', JStr detail), (''status'', JStr (show_nat (nat status)))]
       @ (case scimType of Some t \<Rightarrow> [(''scimType'', JStr t)] | None \<Rightarrow> [])))"

definition toScimUser :: "AdminUserRow \<Rightarrow> bool \<Rightarrow> json" where
  "toScimUser u active =
     JObj ([(''schemas'', JArr [JStr USER_SCHEMA]), (''id'', JStr (au_id u)), (''userName'', JStr (au_subject u)), (''displayName'', JStr (au_displayName u)), (''active'', JBool active)]
       @ (case au_email u of Some (c # cs) \<Rightarrow> [(''emails'', JArr [JObj [(''value'', JStr (c # cs)), (''primary'', JBool True)]])] | _ \<Rightarrow> [])
       @ [(''meta'', JObj [(''resourceType'', JStr ''User''), (''location'', JStr (''/scim/v2/Users/'' @ au_id u))])])"

definition toScimGroup :: "ScimGroupRow \<Rightarrow> json" where
  "toScimGroup g =
     JObj ([(''schemas'', JArr [JStr GROUP_SCHEMA]), (''id'', JStr (gr_id g)), (''displayName'', JStr (gr_displayName g))]
       @ (case gr_externalId g of Some (c # cs) \<Rightarrow> [(''externalId'', JStr (c # cs))] | _ \<Rightarrow> [])
       @ [(''members'', JArr (map (\<lambda>m. JObj [(''value'', JStr m)]) (gr_members g))),
          (''meta'', JObj [(''resourceType'', JStr ''Group''), (''location'', JStr (''/scim/v2/Groups/'' @ gr_id g))])])"

definition scim_guard :: "scim_env \<Rightarrow> AdminPrincipal \<Rightarrow> scim_reply option" where
  "scim_guard env admin =
     (if \<not> se_db env then Some Unsent
      else if (case se_resolver env of
                 Some r \<Rightarrow> can (Some r) admin (Perm Membership Create) \<lparr>sc_orgId = None, sc_workspaceId = None\<rparr>
               | None \<Rightarrow> False) then None
      else Some (scimError 403 ''not authorized to provision'' (Some ''forbidden'')))"

definition append_audit :: "AdminPrincipal \<Rightarrow> string \<Rightarrow> string \<Rightarrow> (string \<times> json) list \<Rightarrow> directory \<Rightarrow> directory" where
  "append_audit admin action target payload d =
     d\<lparr>di_audit := di_audit d @ [\<lparr>sa_actor = ap_subject admin, sa_action = action, sa_target = target, sa_payload = JObj payload\<rparr>]\<rparr>"

definition count_json :: "int \<Rightarrow> json" where
  "count_json n = JNum (Num (of_int n))"

definition subjects_of :: "AdminUserRow \<Rightarrow> string list" where
  "subjects_of row = rev (remdups (rev (filter (\<lambda>x. x \<noteq> []) (au_subject row # (case au_email row of Some e \<Rightarrow> [e] | None \<Rightarrow> [])))))"

fun revoke_each :: "(string \<Rightarrow> 's \<Rightarrow> int \<times> 's) \<Rightarrow> string list \<Rightarrow> 's \<Rightarrow> int \<times> 's" where
  "revoke_each revoke [] s = (0, s)"
| "revoke_each revoke (x # xs) s = (let (n, s1) = revoke x s; (k, s2) = revoke_each revoke xs s1 in (n + k, s2))"

definition revokeSubjectSessions :: "AdminUserRow \<Rightarrow> session_table \<Rightarrow> int \<times> session_table" where
  "revokeSubjectSessions row = revoke_each (\<lambda>subject s. let (n, s') = pg_revokeBySubject subject s in (int n, s')) (subjects_of row)"

definition revokeSubjectGrants :: "AdminUserRow \<Rightarrow> directory \<Rightarrow> int \<times> directory" where
  "revokeSubjectGrants row d =
     (case di_broker d of
        None \<Rightarrow> (0, d)
      | Some b \<Rightarrow> (let (n, b') = revoke_each revokePrincipal (subjects_of row) b in (n, d\<lparr>di_broker := Some b'\<rparr>)))"

text \<open>\<open>logged\<close> says whether the audit row is written; without it the transaction is undone, and only the broker's revocations stay.\<close>

definition deprovision :: "AdminPrincipal \<Rightarrow> bool \<Rightarrow> string \<Rightarrow> AdminUserRow \<Rightarrow> directory \<Rightarrow> bool \<times> directory" where
  "deprovision admin logged via row d =
     (let (revokedGrants, d1) = revokeSubjectGrants row d;
          d2 = snd (user_delete (au_id row) d1);
          (revokedSessions, ss) = revokeSubjectSessions row (di_sessions d2)
      in if \<not> logged then (False, d1)
         else (True, append_audit admin ''scim.user.deprovision'' (au_id row)
                [(''userName'', JStr (au_subject row)), (''via'', JStr via), (''revokedSessions'', count_json revokedSessions), (''revokedGrants'', count_json revokedGrants)]
                (d2\<lparr>di_sessions := ss\<rparr>)))"

definition post_user :: "scim_env \<Rightarrow> AdminPrincipal \<Rightarrow> bool \<Rightarrow> json \<Rightarrow> directory \<Rightarrow> scim_reply \<times> directory" where
  "post_user env admin logged b d =
     (case scim_guard env admin of
        Some r \<Rightarrow> (r, d)
      | None \<Rightarrow>
          (case str_field (member_of_object b ''userName'') of
             None \<Rightarrow> (scimError 400 ''userName is required'' (Some ''invalidValue''), d)
           | Some userName \<Rightarrow>
               (let displayName = (case str_field (member_of_object b ''displayName'') of Some n \<Rightarrow> n | None \<Rightarrow> userName);
                    (row, d1) = upsertBySubject env userName displayName (firstEmail b) d
                in if \<not> logged then (Thrown, d1)
                   else (Reply 201 (toScimUser row True), append_audit admin ''scim.user.provision'' (au_id row) [(''userName'', JStr userName)] d1))))"

definition find_user :: "string \<Rightarrow> directory \<Rightarrow> AdminUserRow option" where
  "find_user param d = (case uuidParam param of Some ident \<Rightarrow> user_get ident d | None \<Rightarrow> None)"

definition get_user :: "scim_env \<Rightarrow> AdminPrincipal \<Rightarrow> string \<Rightarrow> directory \<Rightarrow> scim_reply" where
  "get_user env admin param d =
     (case scim_guard env admin of
        Some r \<Rightarrow> r
      | None \<Rightarrow> (case find_user param d of Some row \<Rightarrow> Reply 200 (toScimUser row True) | None \<Rightarrow> scimError 404 ''user not found'' None))"

definition patch_user :: "scim_env \<Rightarrow> AdminPrincipal \<Rightarrow> bool \<Rightarrow> string \<Rightarrow> json \<Rightarrow> directory \<Rightarrow> scim_reply \<times> directory" where
  "patch_user env admin logged param b d =
     (case scim_guard env admin of
        Some r \<Rightarrow> (r, d)
      | None \<Rightarrow>
          (case find_user param d of
             None \<Rightarrow> (scimError 404 ''user not found'' None, d)
           | Some row \<Rightarrow>
               (case patchDeactivates (se_num env) b of
                  None \<Rightarrow> (Thrown, d)
                | Some False \<Rightarrow> (Reply 200 (toScimUser row True), d)
                | Some True \<Rightarrow>
                    (let (ok, d') = deprovision admin logged ''patch-active-false'' row d
                     in (if ok then Reply 200 (toScimUser row False) else Thrown, d')))))"

definition delete_user :: "scim_env \<Rightarrow> AdminPrincipal \<Rightarrow> bool \<Rightarrow> string \<Rightarrow> directory \<Rightarrow> scim_reply \<times> directory" where
  "delete_user env admin logged param d =
     (case scim_guard env admin of
        Some r \<Rightarrow> (r, d)
      | None \<Rightarrow>
          (case find_user param d of
             None \<Rightarrow> (scimError 404 ''user not found'' None, d)
           | Some row \<Rightarrow> (let (ok, d') = deprovision admin logged ''delete'' row d in (if ok then NoContent else Thrown, d'))))"

text \<open>Adding members one after the other; \<open>False\<close> is the exception that ends the request, with the members added before it kept.\<close>

fun add_members :: "scim_env \<Rightarrow> string \<Rightarrow> string \<Rightarrow> string list \<Rightarrow> directory \<Rightarrow> bool \<times> directory" where
  "add_members env gid displayName [] d = (True, d)"
| "add_members env gid displayName (u # us) d =
     (case addMember env gid u displayName d of None \<Rightarrow> (False, d) | Some d' \<Rightarrow> add_members env gid displayName us d')"

definition remove_members :: "string \<Rightarrow> string list \<Rightarrow> directory \<Rightarrow> directory" where
  "remove_members gid us d = foldl (\<lambda>d u. removeMember gid u d) d us"

definition post_group :: "scim_env \<Rightarrow> AdminPrincipal \<Rightarrow> bool \<Rightarrow> json \<Rightarrow> directory \<Rightarrow> scim_reply \<times> directory" where
  "post_group env admin logged b d =
     (case scim_guard env admin of
        Some r \<Rightarrow> (r, d)
      | None \<Rightarrow>
          (let members = memberValues (member_of_object b ''members'') in
           case str_field (member_of_object b ''displayName'') of
             None \<Rightarrow> (scimError 400 ''displayName is required'' (Some ''invalidValue''), d)
           | Some displayName \<Rightarrow>
               if \<not> list_all isUuid members then (scimError 400 ''members[].value must be a User id'' (Some ''invalidValue''), d)
               else
                 (case group_create env displayName (str_field (member_of_object b ''externalId'')) d of
                    None \<Rightarrow> (Thrown, d)
                  | Some (g, d1) \<Rightarrow>
                      (let (ok, d2) = add_members env (gr_id g) displayName members d1 in
                       if \<not> ok \<or> \<not> logged then (Thrown, d2)
                       else
                         (let d3 = append_audit admin ''scim.group.provision'' (gr_id g) [(''displayName'', JStr displayName), (''members'', count_json (int (length members)))] d2
                          in (Reply 201 (toScimGroup (case group_get (gr_id g) d3 of Some full \<Rightarrow> full | None \<Rightarrow> g)), d3))))))"

definition find_group :: "string \<Rightarrow> directory \<Rightarrow> (string \<times> ScimGroupRow) option" where
  "find_group param d = (case uuidParam param of Some ident \<Rightarrow> map_option (Pair ident) (group_get ident d) | None \<Rightarrow> None)"

definition get_group :: "scim_env \<Rightarrow> AdminPrincipal \<Rightarrow> string \<Rightarrow> directory \<Rightarrow> scim_reply" where
  "get_group env admin param d =
     (case scim_guard env admin of
        Some r \<Rightarrow> r
      | None \<Rightarrow> (case find_group param d of Some (ident, g) \<Rightarrow> Reply 200 (toScimGroup g) | None \<Rightarrow> scimError 404 ''group not found'' None))"

text \<open>The changes of a patch: the new member set first, then the additions, then the removals.\<close>

definition replace_members :: "scim_env \<Rightarrow> string \<Rightarrow> ScimGroupRow \<Rightarrow> string list option \<Rightarrow> directory \<Rightarrow> bool \<times> directory" where
  "replace_members env ident g new d =
     (case new of
        None \<Rightarrow> (True, d)
      | Some us \<Rightarrow> add_members env ident (gr_displayName g) us (remove_members ident (filter (\<lambda>cur. cur \<notin> set us) (gr_members g)) d))"

definition apply_patch :: "scim_env \<Rightarrow> string \<Rightarrow> ScimGroupRow \<Rightarrow> group_patch \<Rightarrow> directory \<Rightarrow> bool \<times> directory" where
  "apply_patch env ident g p d =
     (let (ok, d1) = replace_members env ident g (gp_replace p) d in
      if \<not> ok then (False, d1)
      else
        (let (ok2, d2) = add_members env ident (gr_displayName g) (gp_adds p) d1 in
         if \<not> ok2 then (False, d2) else (True, remove_members ident (gp_removes p) d2)))"

definition patch_group :: "scim_env \<Rightarrow> AdminPrincipal \<Rightarrow> bool \<Rightarrow> string \<Rightarrow> json \<Rightarrow> directory \<Rightarrow> scim_reply \<times> directory" where
  "patch_group env admin logged param b d =
     (case scim_guard env admin of
        Some r \<Rightarrow> (r, d)
      | None \<Rightarrow>
          (case find_group param d of
             None \<Rightarrow> (scimError 404 ''group not found'' None, d)
           | Some (ident, g) \<Rightarrow>
               (case parseGroupPatch (se_num env) b of
                  None \<Rightarrow> (Thrown, d)
                | Some p \<Rightarrow>
                    (let replace = (case gp_replace p of Some us \<Rightarrow> us | None \<Rightarrow> []) in
                     if \<not> list_all isUuid (gp_adds p @ gp_removes p @ replace) then (scimError 400 ''members[].value must be a User id'' (Some ''invalidValue''), d)
                     else
                       (let (ok, d1) = apply_patch env ident g p d in
                        if \<not> ok \<or> \<not> logged then (Thrown, d1)
                        else
                          (let d2 = append_audit admin ''scim.group.update'' ident
                                 [(''added'', count_json (int (length (gp_adds p) + length replace))), (''removed'', count_json (int (length (gp_removes p))))] d1
                           in (Reply 200 (toScimGroup (case group_get ident d2 of Some full \<Rightarrow> full | None \<Rightarrow> g)), d2)))))))"

definition delete_group :: "scim_env \<Rightarrow> AdminPrincipal \<Rightarrow> bool \<Rightarrow> string \<Rightarrow> directory \<Rightarrow> scim_reply \<times> directory" where
  "delete_group env admin logged param d =
     (case scim_guard env admin of
        Some r \<Rightarrow> (r, d)
      | None \<Rightarrow>
          (case uuidParam param of
             None \<Rightarrow> (scimError 404 ''group not found'' None, d)
           | Some ident \<Rightarrow>
               (let (found, d1) = group_delete ident d in
                if \<not> found then (scimError 404 ''group not found'' None, d1)
                else if \<not> logged then (Thrown, d1)
                else (NoContent, append_audit admin ''scim.group.deprovision'' ident [] d1))))"

text \<open>Every route resolves its administrator first, against the same directory.\<close>

definition adminRoute :: "session_crypto \<Rightarrow> int \<Rightarrow> AdminResolverDeps \<Rightarrow> string option \<Rightarrow> (AdminPrincipal \<Rightarrow> directory \<Rightarrow> scim_reply \<times> directory) \<Rightarrow> directory \<Rightarrow> scim_reply \<times> directory" where
  "adminRoute k now deps bearer handler d =
     (case resolveAdmin k now (deps\<lparr>rd_membershipLoader := Some (\<lambda>subject. Inr (membershipLoader d subject))\<rparr>) (Some (pg_isActive (di_sessions d))) bearer of
        Inl e \<Rightarrow> (Reply 401 (JObj [(''error'', JObj [(''type'', JStr ''authentication_error''), (''message'', JStr ''invalid credentials'')])]), d)
      | Inr admin \<Rightarrow> handler admin d)"

section \<open>Runs\<close>

datatype scim_event =
    PostUser json
  | PatchUser string json
  | DeleteUser string
  | PostGroup json
  | PatchGroup string json
  | DeleteGroup string
  | CreateGrant string string "string option" "string option"
  | DeleteGrant string
  | RecordSession AdminSessionInfo
  | RevokeSession string string

fun scim_step :: "scim_env \<Rightarrow> AdminPrincipal \<times> bool \<times> scim_event \<Rightarrow> directory \<Rightarrow> directory" where
  "scim_step env (admin, logged, PostUser b) d = snd (post_user env admin logged b d)"
| "scim_step env (admin, logged, PatchUser u b) d = snd (patch_user env admin logged u b d)"
| "scim_step env (admin, logged, DeleteUser u) d = snd (delete_user env admin logged u d)"
| "scim_step env (admin, logged, PostGroup b) d = snd (post_group env admin logged b d)"
| "scim_step env (admin, logged, PatchGroup g b) d = snd (patch_group env admin logged g b d)"
| "scim_step env (admin, logged, DeleteGroup g) d = snd (delete_group env admin logged g d)"
| "scim_step env (admin, logged, CreateGrant u r org ws) d = (case membership_create env u r org ws d of Some (m, d') \<Rightarrow> d' | None \<Rightarrow> d)"
| "scim_step env (admin, logged, DeleteGrant m) d = snd (membership_delete m d)"
| "scim_step env (admin, logged, RecordSession info) d = d\<lparr>di_sessions := pg_record info (di_sessions d)\<rparr>"
| "scim_step env (admin, logged, RevokeSession stamp jti) d = d\<lparr>di_sessions := pg_revoke stamp jti (di_sessions d)\<rparr>"

definition empty_directory :: "broker option \<Rightarrow> directory" where
  "empty_directory b = \<lparr>di_users = [], di_grants = [], di_groups = [], di_links = [], di_sessions = [], di_broker = b, di_audit = [], di_next = 0\<rparr>"

definition scim_run :: "scim_env \<Rightarrow> (AdminPrincipal \<times> bool \<times> scim_event) list \<Rightarrow> directory \<Rightarrow> directory" where
  "scim_run env evs d = foldl (\<lambda>d ev. scim_step env ev d) d evs"

section \<open>The invariant of the tables\<close>

text \<open>What the database promises of the ids it draws: they are never drawn twice, and in lower case.\<close>

definition ids_ok :: "scim_env \<Rightarrow> bool" where
  "ids_ok env \<longleftrightarrow> inj (se_ids env) \<and> (\<forall>i. db_uuid (se_ids env i) = se_ids env i)"

definition drawn :: "scim_env \<Rightarrow> directory \<Rightarrow> string \<Rightarrow> bool" where
  "drawn env d x \<longleftrightarrow> (\<exists>i<di_next d. x = se_ids env i)"

text \<open>The grant of a link is the role its group maps to, for the member the link names.\<close>

definition grant_fits :: "scim_env \<Rightarrow> scim_group list \<Rightarrow> scim_group_member \<Rightarrow> DurableMembershipRow \<Rightarrow> bool" where
  "grant_fits env gs l m \<longleftrightarrow> dm_userId m = gl_userId l \<and> dm_workspaceId m = None \<and>
     (\<exists>g\<in>set gs. sg_id g = gl_groupId l \<and> (\<exists>org. roleFor env (sg_displayName g) = Some (dm_role m, org) \<and> dm_orgId m = map_option db_uuid org))"

definition linked :: "directory \<Rightarrow> string list" where
  "linked d = List.map_filter gl_membershipId (di_links d)"

definition keys_ok :: "directory \<Rightarrow> bool" where
  "keys_ok d \<longleftrightarrow> distinct (map au_id (di_users d)) \<and> distinct (map au_subject (di_users d)) \<and> distinct (map dm_id (di_grants d)) \<and> distinct (map sg_id (di_groups d)) \<and>
     distinct (map sg_displayName (di_groups d)) \<and> distinct (map (\<lambda>l. (gl_groupId l, gl_userId l)) (di_links d)) \<and> distinct (linked d)"

definition refs_ok :: "directory \<Rightarrow> bool" where
  "refs_ok d \<longleftrightarrow> (\<forall>l\<in>set (di_links d). gl_groupId l \<in> sg_id ` set (di_groups d) \<and> gl_userId l \<in> au_id ` set (di_users d)) \<and> (\<forall>m\<in>set (di_grants d). dm_userId m \<in> au_id ` set (di_users d))"

definition drawn_ok :: "scim_env \<Rightarrow> directory \<Rightarrow> bool" where
  "drawn_ok env d \<longleftrightarrow> (\<forall>u\<in>set (di_users d). drawn env d (au_id u)) \<and> (\<forall>m\<in>set (di_grants d). drawn env d (dm_id m)) \<and> (\<forall>g\<in>set (di_groups d). drawn env d (sg_id g)) \<and>
     (\<forall>x\<in>set (linked d). drawn env d x)"

definition fits_ok :: "scim_env \<Rightarrow> directory \<Rightarrow> bool" where
  "fits_ok env d \<longleftrightarrow> (\<forall>l\<in>set (di_links d). \<forall>m\<in>set (di_grants d). gl_membershipId l = Some (dm_id m) \<longrightarrow> grant_fits env (di_groups d) l m)"

definition dir_ok :: "scim_env \<Rightarrow> directory \<Rightarrow> bool" where
  "dir_ok env d \<longleftrightarrow> keys_ok d \<and> refs_ok d \<and> drawn_ok env d \<and> fits_ok env d \<and> jm_ok (di_sessions d)"

text \<open>Every member of a group that maps to a role has the grant of its link.\<close>

definition roles_given :: "scim_env \<Rightarrow> directory \<Rightarrow> bool" where
  "roles_given env d \<longleftrightarrow>
     (\<forall>l\<in>set (di_links d). \<forall>g\<in>set (di_groups d). sg_id g = gl_groupId l \<longrightarrow> roleFor env (sg_displayName g) \<noteq> None \<longrightarrow> (\<exists>m\<in>set (di_grants d). gl_membershipId l = Some (dm_id m)))"

lemmas dir_defs = dir_ok_def keys_ok_def refs_ok_def drawn_ok_def fits_ok_def

lemma map_filter_mem: "x \<in> set (List.map_filter f ls) \<longleftrightarrow> (\<exists>l\<in>set ls. f l = Some x)"
  by (induction ls) (auto simp: List.map_filter_simps split: option.splits)

lemma list_ex_image: "list_ex (\<lambda>u. f u = y) xs \<longleftrightarrow> y \<in> f ` set xs"
  by (auto simp: list_ex_iff)

lemma find_hit: "find P xs = Some x \<Longrightarrow> x \<in> set xs \<and> P x"
  by (induction xs) (auto split: if_splits)

lemma linked_mem: "x \<in> set (linked d) \<longleftrightarrow> (\<exists>l\<in>set (di_links d). gl_membershipId l = Some x)"
  by (simp add: linked_def map_filter_mem)

lemma linked_unique: "distinct (List.map_filter gl_membershipId ls) \<Longrightarrow> l \<in> set ls \<Longrightarrow> l' \<in> set ls \<Longrightarrow> gl_membershipId l = Some x \<Longrightarrow> gl_membershipId l' = Some x \<Longrightarrow> l = l'"
  by (induction ls) (auto simp: List.map_filter_simps map_filter_mem split: option.splits)

lemma linked_filter: "distinct (List.map_filter f ls) \<Longrightarrow> distinct (List.map_filter f (filter P ls))"
  by (induction ls) (auto simp: List.map_filter_simps map_filter_mem split: option.splits)

lemma dir_ok_same:
  "dir_ok env d \<Longrightarrow> di_users d' = di_users d \<Longrightarrow> di_grants d' = di_grants d \<Longrightarrow> di_groups d' = di_groups d \<Longrightarrow> di_links d' = di_links d \<Longrightarrow> di_next d' = di_next d \<Longrightarrow>
    jm_ok (di_sessions d') \<Longrightarrow> dir_ok env d'"
  by (simp add: dir_defs linked_def drawn_def)

lemma roles_given_same: "roles_given env d \<Longrightarrow> di_grants d' = di_grants d \<Longrightarrow> di_groups d' = di_groups d \<Longrightarrow> di_links d' = di_links d \<Longrightarrow> roles_given env d'"
  by (simp add: roles_given_def)

text \<open>Rows may go as long as what refers to them goes too.\<close>

lemma dir_ok_shrink:
  assumes "dir_ok env d"
    and "\<And>l. l \<in> set (di_links d) \<Longrightarrow> S l \<Longrightarrow> (\<forall>g\<in>set (di_groups d). sg_id g = gl_groupId l \<longrightarrow> R g) \<and> (\<forall>u\<in>set (di_users d). au_id u = gl_userId l \<longrightarrow> P u)"
    and "\<And>m. m \<in> set (di_grants d) \<Longrightarrow> Q m \<Longrightarrow> \<forall>u\<in>set (di_users d). au_id u = dm_userId m \<longrightarrow> P u"
  shows "dir_ok env (d\<lparr>di_users := filter P (di_users d), di_grants := filter Q (di_grants d), di_groups := filter R (di_groups d), di_links := filter S (di_links d)\<rparr>)" (is "dir_ok env ?d")
proof -
  have k: "keys_ok ?d" using assms(1) by (simp add: dir_ok_def keys_ok_def distinct_map_filter linked_def linked_filter)
  have sub: "set (linked ?d) \<subseteq> set (linked d)" by (auto simp: linked_mem)
  have dr: "drawn_ok env ?d" using assms(1) sub by (auto simp: dir_ok_def drawn_ok_def drawn_def)
  have r: "refs_ok ?d" using assms by (fastforce simp: dir_ok_def refs_ok_def image_iff)
  have f: "fits_ok env ?d" using assms(1,2) by (fastforce simp: dir_ok_def fits_ok_def grant_fits_def)
  show ?thesis using k dr r f assms(1) by (simp add: dir_ok_def)
qed

text \<open>Rows that are added are new.\<close>

lemma fresh_id: "ids_ok env \<Longrightarrow> drawn env d x \<Longrightarrow> x \<noteq> se_ids env (di_next d)"
  by (auto simp: ids_ok_def drawn_def dest: injD)

lemma drawn_later:
  assumes "drawn env d x" and "di_next d \<le> di_next d'"
  shows "drawn env d' x"
proof -
  obtain i where "i < di_next d" "x = se_ids env i" using assms(1) by (auto simp: drawn_def)
  then show ?thesis using assms(2) unfolding drawn_def by (intro exI [of _ i]) simp
qed

lemma drawn_now: "di_next d < di_next d' \<Longrightarrow> drawn env d' (se_ids env (di_next d))"
  by (auto simp: drawn_def)

lemma dir_ok_user:
  assumes "ids_ok env" and "dir_ok env d" and "subject \<notin> au_subject ` set (di_users d)"
  shows "dir_ok env (d\<lparr>di_users := di_users d @ [\<lparr>au_id = se_ids env (di_next d), au_subject = subject, au_displayName = n, au_email = e\<rparr>], di_next := di_next d + 1\<rparr>)"
    (is "dir_ok env ?d")
proof -
  have new: "se_ids env (di_next d) \<notin> au_id ` set (di_users d)" using assms(1,2) fresh_id by (force simp: dir_ok_def drawn_ok_def)
  have later: "drawn env d x \<Longrightarrow> drawn env ?d x" for x by (erule drawn_later) simp
  have "keys_ok ?d" using assms(2,3) new by (simp add: dir_ok_def keys_ok_def linked_def)
  moreover have "refs_ok ?d" using assms(2) by (auto simp: dir_ok_def refs_ok_def)
  moreover have "drawn_ok env ?d" using assms(2) later drawn_now [of d ?d env] by (auto simp: dir_ok_def drawn_ok_def linked_def)
  moreover have "fits_ok env ?d" using assms(2) by (simp add: dir_ok_def fits_ok_def)
  ultimately show ?thesis using assms(2) by (simp add: dir_ok_def)
qed

lemma dir_ok_group:
  assumes "ids_ok env" and "dir_ok env d" and "n \<notin> sg_displayName ` set (di_groups d)"
  shows "dir_ok env (d\<lparr>di_groups := di_groups d @ [\<lparr>sg_id = se_ids env (di_next d), sg_externalId = x, sg_displayName = n\<rparr>], di_next := di_next d + 1\<rparr>)" (is "dir_ok env ?d")
proof -
  have new: "se_ids env (di_next d) \<notin> sg_id ` set (di_groups d)" using assms(1,2) fresh_id by (force simp: dir_ok_def drawn_ok_def)
  have later: "drawn env d x \<Longrightarrow> drawn env ?d x" for x by (erule drawn_later) simp
  have "keys_ok ?d" using assms(2,3) new by (simp add: dir_ok_def keys_ok_def linked_def)
  moreover have "refs_ok ?d" using assms(2) by (auto simp: dir_ok_def refs_ok_def)
  moreover have "drawn_ok env ?d" using assms(2) later drawn_now [of d ?d env] by (auto simp: dir_ok_def drawn_ok_def linked_def)
  moreover have "fits_ok env ?d" using assms(2) by (fastforce simp: dir_ok_def fits_ok_def grant_fits_def)
  ultimately show ?thesis using assms(2) by (simp add: dir_ok_def)
qed

lemma dir_ok_grant:
  assumes "ids_ok env" and "dir_ok env d" and "u \<in> au_id ` set (di_users d)"
  shows "dir_ok env (d\<lparr>di_grants := di_grants d @ [\<lparr>dm_id = se_ids env (di_next d), dm_userId = u, dm_role = r, dm_orgId = org, dm_workspaceId = ws\<rparr>], di_next := di_next d + 1\<rparr>)"
    (is "dir_ok env ?d")
proof -
  have new: "se_ids env (di_next d) \<notin> dm_id ` set (di_grants d)" "se_ids env (di_next d) \<notin> set (linked d)" using assms(1,2) fresh_id by (force simp: dir_ok_def drawn_ok_def)+
  have later: "drawn env d x \<Longrightarrow> drawn env ?d x" for x by (erule drawn_later) simp
  have "keys_ok ?d" using assms(2) new by (simp add: dir_ok_def keys_ok_def linked_def)
  moreover have "refs_ok ?d" using assms(2,3) by (auto simp: dir_ok_def refs_ok_def)
  moreover have "drawn_ok env ?d" using assms(2) later drawn_now [of d ?d env] by (auto simp: dir_ok_def drawn_ok_def linked_def)
  moreover have "fits_ok env ?d" using assms(2) new by (auto simp: dir_ok_def fits_ok_def linked_mem)
  ultimately show ?thesis using assms(2) by (simp add: dir_ok_def)
qed

lemma dir_ok_link:
  assumes "dir_ok env d" and "gid \<in> sg_id ` set (di_groups d)" and "uid \<in> au_id ` set (di_users d)" and "\<not> list_ex (\<lambda>l. gl_groupId l = gid \<and> gl_userId l = uid) (di_links d)"
    and "\<And>x. mid = Some x \<Longrightarrow> drawn env d x \<and> x \<notin> set (linked d) \<and>
      (\<forall>m\<in>set (di_grants d). dm_id m = x \<longrightarrow> grant_fits env (di_groups d) \<lparr>gl_groupId = gid, gl_userId = uid, gl_membershipId = mid\<rparr> m)"
  shows "dir_ok env (d\<lparr>di_links := di_links d @ [\<lparr>gl_groupId = gid, gl_userId = uid, gl_membershipId = mid\<rparr>]\<rparr>)" (is "dir_ok env ?d")
proof -
  have l: "linked ?d = linked d @ (case mid of Some x \<Rightarrow> [x] | None \<Rightarrow> [])" by (simp add: linked_def List.map_filter_def split: option.split)
  have "keys_ok ?d" using assms(1,4,5) by (auto simp: dir_ok_def keys_ok_def l list_ex_iff split: option.split)
  moreover have "refs_ok ?d" using assms(1-3) by (auto simp: dir_ok_def refs_ok_def)
  moreover have "drawn_ok env ?d" using assms(1,5) by (auto simp: dir_ok_def drawn_ok_def l drawn_def split: option.splits)
  moreover have "fits_ok env ?d" using assms(1,5) by (auto simp: dir_ok_def fits_ok_def)
  ultimately show ?thesis using assms(1) by (simp add: dir_ok_def)
qed

section \<open>Every operation keeps the invariant\<close>

definition tables_ok :: "scim_env \<Rightarrow> bool \<Rightarrow> directory \<Rightarrow> bool" where
  "tables_ok env given d \<longleftrightarrow> dir_ok env d \<and> (given \<longrightarrow> roles_given env d)"

lemma tables_same:
  "tables_ok env given d \<Longrightarrow> di_users d' = di_users d \<Longrightarrow> di_grants d' = di_grants d \<Longrightarrow> di_groups d' = di_groups d \<Longrightarrow> di_links d' = di_links d \<Longrightarrow> di_next d' = di_next d \<Longrightarrow>
    jm_ok (di_sessions d') \<Longrightarrow> tables_ok env given d'"
  unfolding tables_ok_def by (blast intro: dir_ok_same roles_given_same)

lemma tables_jm: "tables_ok env given d \<Longrightarrow> jm_ok (di_sessions d)"
  by (simp add: tables_ok_def dir_ok_def)

lemma tables_audit: "tables_ok env given d \<Longrightarrow> tables_ok env given (append_audit admin action target payload d)"
  by (frule tables_jm, erule tables_same) (simp_all add: append_audit_def)

lemma tables_sessions: "tables_ok env given d \<Longrightarrow> jm_ok ss \<Longrightarrow> tables_ok env given (d\<lparr>di_sessions := ss\<rparr>)"
  by (erule tables_same) simp_all

lemma tables_broker: "tables_ok env given d \<Longrightarrow> tables_ok env given (d\<lparr>di_broker := b\<rparr>)"
  by (frule tables_jm, erule tables_same) simp_all

lemma tables_rename:
  assumes "tables_ok env given d" and "map au_id us = map au_id (di_users d)" and "map au_subject us = map au_subject (di_users d)"
  shows "tables_ok env given (d\<lparr>di_users := us\<rparr>)"
proof -
  have ids: "au_id ` set us = au_id ` set (di_users d)" using assms(2) by (metis list.set_map)
  have "\<exists>i<di_next d. au_id u = se_ids env i" if "u \<in> set us" for u
  proof -
    have "au_id u \<in> au_id ` set (di_users d)" using that ids by (metis image_eqI)
    then show ?thesis using assms(1) by (auto simp: tables_ok_def dir_ok_def drawn_ok_def drawn_def)
  qed
  then show ?thesis using assms ids by (simp add: tables_ok_def dir_defs roles_given_def linked_def drawn_def)
qed

lemma tables_upsert:
  assumes "ids_ok env" and "tables_ok env given d"
  shows "tables_ok env given (snd (upsertBySubject env subject n e d))"
proof (cases "find (\<lambda>u. au_subject u = subject) (di_users d)")
  case None
  then have "subject \<notin> au_subject ` set (di_users d)" by (auto simp: find_None_iff)
  then show ?thesis using assms None dir_ok_user [OF assms(1), of d subject n e] by (simp add: tables_ok_def upsertBySubject_def roles_given_def Let_def)
next
  case (Some u)
  let ?us = "map (\<lambda>v. if au_subject v = subject then v\<lparr>au_displayName := n, au_email := e\<rparr> else v) (di_users d)"
  have "map au_id ?us = map au_id (di_users d)" "map au_subject ?us = map au_subject (di_users d)" by auto
  then have "tables_ok env given (d\<lparr>di_users := ?us\<rparr>)" by (rule tables_rename [OF assms(2)])
  then show ?thesis using Some by (simp add: upsertBySubject_def Let_def)
qed

lemma tables_user_delete:
  assumes "tables_ok env given d"
  shows "tables_ok env given (snd (user_delete ident d))"
proof -
  let ?d = "d\<lparr>di_users := filter (\<lambda>u. au_id u \<noteq> db_uuid ident) (di_users d), di_grants := filter (\<lambda>m. dm_userId m \<noteq> db_uuid ident) (di_grants d),
    di_groups := filter (\<lambda>g. True) (di_groups d), di_links := filter (\<lambda>l. gl_userId l \<noteq> db_uuid ident) (di_links d)\<rparr>"
  have eq: "snd (user_delete ident d) = ?d" by (simp add: user_delete_def)
  have "dir_ok env ?d" using assms by (intro dir_ok_shrink) (auto simp: tables_ok_def)
  moreover have "roles_given env ?d" if "roles_given env d" "fits_ok env d" using that by (fastforce simp: roles_given_def fits_ok_def grant_fits_def)
  ultimately show ?thesis using assms unfolding eq by (simp add: tables_ok_def dir_ok_def)
qed

lemma grant_unique: "fits_ok env d \<Longrightarrow> keys_ok d \<Longrightarrow> m \<in> set (di_grants d) \<Longrightarrow> m' \<in> set (di_grants d) \<Longrightarrow> dm_id m = dm_id m' \<Longrightarrow> m = m'"
  by (auto simp: keys_ok_def distinct_map dest: inj_onD)

text \<open>Taking links away together with exactly their grants leaves the grants of the other links.\<close>

lemma tables_unlink:
  assumes "tables_ok env given d" and "\<And>l. l \<in> set (di_links d) \<Longrightarrow> S l \<Longrightarrow> \<forall>g\<in>set (di_groups d). sg_id g = gl_groupId l \<longrightarrow> R g"
    and "\<And>m l. l \<in> set (di_links d) \<Longrightarrow> S l \<Longrightarrow> gl_membershipId l = Some (dm_id m) \<Longrightarrow> Q m"
  shows "tables_ok env given (d\<lparr>di_grants := filter Q (di_grants d), di_groups := filter R (di_groups d), di_links := filter S (di_links d)\<rparr>)"
proof -
  have "dir_ok env (d\<lparr>di_users := filter (\<lambda>u. True) (di_users d), di_grants := filter Q (di_grants d), di_groups := filter R (di_groups d), di_links := filter S (di_links d)\<rparr>)"
    using assms(1,2) by (intro dir_ok_shrink) (auto simp: tables_ok_def)
  moreover have "roles_given env (d\<lparr>di_grants := filter Q (di_grants d), di_groups := filter R (di_groups d), di_links := filter S (di_links d)\<rparr>)" if "roles_given env d"
    using that assms(3) unfolding roles_given_def by fastforce
  ultimately show ?thesis using assms(1) by (simp add: tables_ok_def)
qed

lemma tables_group_delete:
  assumes "tables_ok env given d"
  shows "tables_ok env given (snd (group_delete ident d))"
proof -
  have "distinct (List.map_filter gl_membershipId (di_links d))" using assms by (simp add: tables_ok_def dir_ok_def keys_ok_def linked_def)
  then show ?thesis using assms unfolding group_delete_def Let_def snd_conv
    by (intro tables_unlink) (auto simp: map_filter_mem dest: linked_unique)
qed

lemma tables_removeMember:
  assumes "tables_ok env given d"
  shows "tables_ok env given (removeMember gid uid d)"
proof -
  let ?hit = "\<lambda>l. gl_groupId l = db_uuid gid \<and> gl_userId l = db_uuid uid"
  have uniq: "distinct (List.map_filter gl_membershipId (di_links d))" using assms by (simp add: tables_ok_def dir_ok_def keys_ok_def linked_def)
  define Q where "Q m \<longleftrightarrow> (case find ?hit (di_links d) of Some l \<Rightarrow> gl_membershipId l \<noteq> Some (dm_id m) | None \<Rightarrow> True)" for m :: DurableMembershipRow
  have "removeMember gid uid d = d\<lparr>di_grants := filter Q (di_grants d), di_groups := filter (\<lambda>g. True) (di_groups d), di_links := filter (\<lambda>l. \<not> ?hit l) (di_links d)\<rparr>"
  proof (cases "find ?hit (di_links d)")
    case None
    then show ?thesis by (simp add: removeMember_def Q_def)
  next
    case (Some l)
    then show ?thesis by (cases "gl_membershipId l") (auto simp: removeMember_def Q_def intro!: directory.equality filter_cong)
  qed
  moreover have "Q m" if "l \<in> set (di_links d)" "\<not> ?hit l" "gl_membershipId l = Some (dm_id m)" for m l
  proof (cases "find ?hit (di_links d)")
    case (Some l0)
    then have "l0 \<in> set (di_links d)" "?hit l0" by (auto dest: find_hit)
    then show ?thesis using Some that linked_unique [OF uniq that(1), of l0] by (auto simp: Q_def)
  qed (simp add: Q_def)
  ultimately show ?thesis using tables_unlink [OF assms, of "\<lambda>l. \<not> ?hit l" "\<lambda>g. True" Q] by auto
qed

lemma tables_grant:
  assumes "ids_ok env" and "tables_ok env given d" and "membership_create env u r org ws d = Some (m, d')"
  shows "tables_ok env given d'"
proof -
  have u: "db_uuid u \<in> au_id ` set (di_users d)" and d': "d' = d\<lparr>di_grants := di_grants d @ [m], di_next := di_next d + 1\<rparr>"
    and m: "m = \<lparr>dm_id = se_ids env (di_next d), dm_userId = db_uuid u, dm_role = r, dm_orgId = map_option db_uuid org, dm_workspaceId = map_option db_uuid ws\<rparr>"
    using assms(3) by (auto simp: membership_create_def list_ex_image Let_def split: if_splits)
  have "dir_ok env d'" using dir_ok_grant [OF assms(1) _ u] assms(2) unfolding d' m tables_ok_def by blast
  moreover have "roles_given env d'" if "roles_given env d" using that unfolding d' roles_given_def by fastforce
  ultimately show ?thesis using assms(2) by (simp add: tables_ok_def)
qed

lemma group_named: "keys_ok d \<Longrightarrow> g \<in> set (di_groups d) \<Longrightarrow> g' \<in> set (di_groups d) \<Longrightarrow> sg_id g = sg_id g' \<Longrightarrow> g = g'"
  by (auto simp: keys_ok_def distinct_map dest: inj_onD)

text \<open>A member is added under the name of the group it is added to.\<close>

definition named :: "string \<Rightarrow> string \<Rightarrow> directory \<Rightarrow> bool" where
  "named gid n d \<longleftrightarrow> (\<forall>g\<in>set (di_groups d). sg_id g = db_uuid gid \<longrightarrow> sg_displayName g = n)"

lemma created_row:
  assumes "membership_create env u r org ws d = Some (m, d')"
  shows "di_users d' = di_users d" "di_groups d' = di_groups d" "di_links d' = di_links d" "di_grants d' = di_grants d @ [m]" "di_next d' = di_next d + 1"
    "m = \<lparr>dm_id = se_ids env (di_next d), dm_userId = db_uuid u, dm_role = r, dm_orgId = map_option db_uuid org, dm_workspaceId = map_option db_uuid ws\<rparr>"
  using assms by (auto simp: membership_create_def Let_def split: if_splits)

lemma created_sessions: "membership_create env u r org ws d = Some (m, d') \<Longrightarrow> di_sessions d' = di_sessions d"
  by (auto simp: membership_create_def Let_def split: if_splits)

lemma tables_addMember:
  assumes "ids_ok env" and "tables_ok env given d" and "named gid n d" and "addMember env gid uid n d = Some d'"
  shows "tables_ok env given d'"
proof (cases "list_ex (\<lambda>l. gl_groupId l = db_uuid gid \<and> gl_userId l = db_uuid uid) (di_links d)")
  case True
  then show ?thesis using assms(2,4) by (simp add: addMember_def)
next
  case False
  then have here: "db_uuid gid \<in> sg_id ` set (di_groups d)" "db_uuid uid \<in> au_id ` set (di_users d)" using assms(4) by (simp_all add: addMember_def Let_def list_ex_image split: if_splits)
  show ?thesis
  proof (cases "roleFor env n")
    case None
    then have d': "d' = d\<lparr>di_links := di_links d @ [\<lparr>gl_groupId = db_uuid gid, gl_userId = db_uuid uid, gl_membershipId = None\<rparr>]\<rparr>"
      using assms(4) False by (simp add: addMember_def Let_def split: if_splits)
    have "dir_ok env d'" unfolding d' by (rule dir_ok_link [OF _ here False]) (use assms(2) in \<open>simp_all add: tables_ok_def\<close>)
    moreover have "roles_given env d'" if "roles_given env d" using that assms(3) None unfolding d' roles_given_def named_def by auto
    ultimately show ?thesis using assms(2) by (simp add: tables_ok_def)
  next
    case (Some ro)
    obtain r org where ro: "ro = (r, org)" by (cases ro)
    obtain m d1 where m: "membership_create env uid r org None d = Some (m, d1)"
      and d': "d' = d1\<lparr>di_links := di_links d1 @ [\<lparr>gl_groupId = db_uuid gid, gl_userId = db_uuid uid, gl_membershipId = Some (dm_id m)\<rparr>]\<rparr>"
      using assms(4) False Some ro by (auto simp: addMember_def Let_def split: if_splits option.splits)
    note row = created_row [OF m]
    have t: "tables_ok env given d1" by (rule tables_grant [OF assms(1,2) m])
    have "drawn env d1 (dm_id m)" using row by (auto simp: drawn_def)
    moreover have "dm_id m \<notin> set (linked d1)" using assms(1,2) fresh_id row(3,6) unfolding tables_ok_def dir_ok_def drawn_ok_def linked_def by fastforce
    moreover have "m' = m" if "m' \<in> set (di_grants d1)" "dm_id m' = dm_id m" for m'
      using that t row(4) grant_unique [of env d1 m' m] by (simp add: tables_ok_def dir_ok_def)
    moreover have "grant_fits env (di_groups d1) \<lparr>gl_groupId = db_uuid gid, gl_userId = db_uuid uid, gl_membershipId = Some (dm_id m)\<rparr> m"
      using here(1) assms(3) Some ro row(2,6) by (auto simp: grant_fits_def named_def)
    ultimately have "dir_ok env d'" unfolding d' by (intro dir_ok_link) (use t here row False in \<open>auto simp: tables_ok_def\<close>)
    moreover have "roles_given env d'" if "roles_given env d1" using that row(4) unfolding d' roles_given_def by auto
    ultimately show ?thesis using t by (simp add: tables_ok_def)
  qed
qed

text \<open>What adding a member does to the tables but the grants: nothing, or one more link.\<close>

lemma add_cases:
  assumes "addMember env gid uid n d = Some d'"
  obtains "d' = d" and "\<exists>l\<in>set (di_links d). gl_groupId l = db_uuid gid \<and> gl_userId l = db_uuid uid"
  | mid where "di_links d' = di_links d @ [\<lparr>gl_groupId = db_uuid gid, gl_userId = db_uuid uid, gl_membershipId = mid\<rparr>]" and "di_groups d' = di_groups d" and "di_sessions d' = di_sessions d"
proof (cases "list_ex (\<lambda>l. gl_groupId l = db_uuid gid \<and> gl_userId l = db_uuid uid) (di_links d)")
  case True
  then show ?thesis using assms that(1) by (simp add: addMember_def list_ex_iff)
next
  case False
  show ?thesis
  proof (cases "roleFor env n")
    case None
    then show ?thesis using assms False that(2) [of None] by (auto simp: addMember_def Let_def split: if_splits)
  next
    case (Some ro)
    obtain r org where ro: "ro = (r, org)" by (cases ro)
    obtain m d1 where m: "membership_create env uid r org None d = Some (m, d1)"
      and d': "d' = d1\<lparr>di_links := di_links d1 @ [\<lparr>gl_groupId = db_uuid gid, gl_userId = db_uuid uid, gl_membershipId = Some (dm_id m)\<rparr>]\<rparr>"
      using assms False Some ro by (auto simp: addMember_def Let_def split: if_splits option.splits)
    show ?thesis using that(2) [of "Some (dm_id m)"] created_row [OF m] created_sessions [OF m] by (simp add: d')
  qed
qed

lemma add_groups [simp]: "addMember env gid uid n d = Some d' \<Longrightarrow> di_groups d' = di_groups d"
  by (erule add_cases) simp_all

lemma tables_add_members: "ids_ok env \<Longrightarrow> tables_ok env given d \<Longrightarrow> named gid n d \<Longrightarrow> tables_ok env given (snd (add_members env gid n us d))"
proof (induction us arbitrary: d)
  case (Cons u us)
  then show ?case by (cases "addMember env gid u n d") (auto simp: named_def dest: tables_addMember intro: Cons.IH)
qed simp

lemma tables_remove_members: "tables_ok env given d \<Longrightarrow> tables_ok env given (remove_members gid us d)"
  unfolding remove_members_def by (induction us arbitrary: d) (simp_all add: tables_removeMember)

lemma remove_groups [simp]: "di_groups (removeMember gid uid d) = di_groups d"
  by (simp add: removeMember_def Let_def split: option.split)

lemma removes_groups [simp]: "di_groups (remove_members gid us d) = di_groups d"
  unfolding remove_members_def by (induction us arbitrary: d) simp_all

lemma adds_groups [simp]: "di_groups (snd (add_members env gid n us d)) = di_groups d"
  by (induction us arbitrary: d) (auto split: option.split)

lemma group_get_row: "group_get ident d = Some g \<Longrightarrow> \<exists>x\<in>set (di_groups d). sg_id x = db_uuid ident \<and> gr_displayName g = sg_displayName x"
  by (auto simp: group_get_def dest!: find_hit)

lemma named_of: "tables_ok env given d \<Longrightarrow> group_get ident d = Some g \<Longrightarrow> named ident (gr_displayName g) d"
  by (auto simp: named_def tables_ok_def dir_ok_def dest!: group_get_row dest: group_named)

lemma tables_patch:
  assumes "ids_ok env" and "tables_ok env given d" and "group_get ident d = Some g"
  shows "tables_ok env given (snd (apply_patch env ident g p d))"
proof -
  obtain ok d1 where r: "replace_members env ident g (gp_replace p) d = (ok, d1)" by (cases "replace_members env ident g (gp_replace p) d")
  have n: "named ident (gr_displayName g) d" by (rule named_of [OF assms(2,3)])
  have "tables_ok env given (snd (replace_members env ident g (gp_replace p) d)) \<and> di_groups (snd (replace_members env ident g (gp_replace p) d)) = di_groups d"
    using assms n unfolding replace_members_def by (auto split: option.split intro!: tables_add_members tables_remove_members simp: named_def)
  then have d1: "tables_ok env given d1" "di_groups d1 = di_groups d" using r by simp_all
  obtain ok2 d2 where a: "add_members env ident (gr_displayName g) (gp_adds p) d1 = (ok2, d2)" by (cases "add_members env ident (gr_displayName g) (gp_adds p) d1")
  have "tables_ok env given d2" using tables_add_members [OF assms(1) d1(1), of ident "gr_displayName g" "gp_adds p"] n d1(2) a by (simp add: named_def)
  then show ?thesis using d1 by (simp add: apply_patch_def r a tables_remove_members)
qed

lemma tables_post_group: "ids_ok env \<Longrightarrow> tables_ok env given d \<Longrightarrow> tables_ok env given (snd (post_group env admin logged b d))"
proof -
  assume ids: "ids_ok env" and t: "tables_ok env given d"
  have new: "tables_ok env given d1 \<and> named (gr_id g) n d1" if c: "group_create env n x d = Some (g, d1)" for n x g d1
  proof -
    have none: "n \<notin> sg_displayName ` set (di_groups d)" and g: "gr_id g = se_ids env (di_next d)"
      and d1: "d1 = d\<lparr>di_groups := di_groups d @ [\<lparr>sg_id = se_ids env (di_next d), sg_externalId = x, sg_displayName = n\<rparr>], di_next := di_next d + 1\<rparr>"
      using c by (auto simp: group_create_def list_ex_image Let_def split: if_splits)
    have fresh: "se_ids env (di_next d) \<notin> sg_id ` set (di_groups d)" using ids t fresh_id by (force simp: tables_ok_def dir_ok_def drawn_ok_def)
    have low: "db_uuid (se_ids env (di_next d)) = se_ids env (di_next d)" using ids by (simp add: ids_ok_def)
    have "dir_ok env d1" unfolding d1 using dir_ok_group [OF ids _ none] t by (simp add: tables_ok_def)
    moreover have "roles_given env d1" if r: "roles_given env d"
    proof -
      have "gl_groupId l \<noteq> se_ids env (di_next d)" if "l \<in> set (di_links d)" for l using that fresh t unfolding tables_ok_def dir_ok_def refs_ok_def by metis
      then show ?thesis using r unfolding d1 roles_given_def by (simp add: eq_commute [of "se_ids env (di_next d)"])
    qed
    moreover have "named (gr_id g) n d1"
    proof -
      have "\<forall>x\<in>set (di_groups d). sg_id x \<noteq> se_ids env (di_next d)" using fresh by (metis image_eqI)
      then show ?thesis by (simp add: d1 g named_def low)
    qed
    ultimately show ?thesis using t by (simp add: tables_ok_def)
  qed
  have added: "tables_ok env given (snd (add_members env (gr_id g) n us d1))" if "group_create env n x d = Some (g, d1)" for n x g d1 us
    using new [OF that] tables_add_members [OF ids] by blast
  show ?thesis
    using t by (simp add: post_group_def Let_def split_beta tables_audit added split: option.split)
qed

lemma pg_revoke_subject_ok: "jm_ok s \<Longrightarrow> jm_ok (snd (pg_revokeBySubject subject s))"
  by (simp add: pg_revokeBySubject_keys)

lemma revoke_sessions_ok: "jm_ok s \<Longrightarrow> jm_ok (snd (revokeSubjectSessions row s))"
proof -
  have "jm_ok s \<Longrightarrow> jm_ok (snd (revoke_each (\<lambda>subject s. let (n, s') = pg_revokeBySubject subject s in (int n, s')) xs s))" for xs
    by (induction xs arbitrary: s) (simp_all add: split_beta pg_revoke_subject_ok)
  then show "jm_ok s \<Longrightarrow> jm_ok (snd (revokeSubjectSessions row s))" by (simp add: revokeSubjectSessions_def)
qed

lemma tables_deprovision:
  assumes "tables_ok env given d"
  shows "tables_ok env given (snd (deprovision admin logged via row d))"
proof -
  have g: "tables_ok env given (snd (revokeSubjectGrants row d))" using assms by (auto simp: revokeSubjectGrants_def split_beta tables_broker split: option.split)
  then have "tables_ok env given (snd (user_delete (au_id row) (snd (revokeSubjectGrants row d))))" by (rule tables_user_delete)
  then show ?thesis using g by (simp add: deprovision_def Let_def split_beta tables_audit tables_sessions revoke_sessions_ok tables_jm)
qed

lemma tables_step:
  assumes "ids_ok env" and "tables_ok env given d" and "\<And>x. given \<Longrightarrow> snd (snd ev) \<noteq> DeleteGrant x"
  shows "tables_ok env given (scim_step env ev d)"
proof (cases "(env, ev, d)" rule: scim_step.cases)
  case (1 env admin logged b d)
  then show ?thesis using assms(1,2) by (auto simp: post_user_def Let_def split_beta tables_upsert intro!: tables_audit split: option.split)
next
  case (2 env admin logged u b d)
  then show ?thesis using assms(2) by (auto simp: patch_user_def Let_def split_beta tables_deprovision split: option.split bool.split)
next
  case (3 env admin logged u d)
  then show ?thesis using assms(2) by (auto simp: delete_user_def Let_def split_beta tables_deprovision split: option.split)
next
  case (4 env admin logged b d)
  then show ?thesis using assms(1,2) by (simp add: tables_post_group)
next
  case (5 env admin logged g b d)
  then show ?thesis using assms(1,2)
    by (auto simp: patch_group_def find_group_def Let_def split_beta intro!: tables_audit tables_patch split: option.splits)
next
  case (6 env admin logged g d)
  then show ?thesis using assms(2) by (auto simp: delete_group_def Let_def split_beta tables_group_delete tables_audit split: option.split)
next
  case (7 env admin logged u r org ws d)
  then show ?thesis using assms(1,2) by (auto dest: tables_grant split: option.split)
next
  case (8 env admin logged m d)
  have "dir_ok env (d\<lparr>di_users := filter (\<lambda>u. True) (di_users d), di_grants := filter (\<lambda>x. dm_id x \<noteq> db_uuid m) (di_grants d), di_groups := filter (\<lambda>g. True) (di_groups d),
      di_links := filter (\<lambda>l. True) (di_links d)\<rparr>)"
    using assms(2) 8 by (intro dir_ok_shrink) (auto simp: tables_ok_def)
  then show ?thesis using assms(2,3) 8 by (auto simp: membership_delete_def tables_ok_def)
next
  case (9 env admin logged info d)
  then show ?thesis using assms(2) tables_jm [OF assms(2)] by (auto simp: pg_record_def intro!: tables_sessions jm_ok_set split: option.split)
next
  case (10 env admin logged stamp jti d)
  then show ?thesis using assms(2) tables_jm [OF assms(2)] by (auto simp: pg_revoke_def intro!: tables_sessions jm_ok_set split: option.split)
qed

lemma tables_run:
  assumes "ids_ok env" and "tables_ok env given d" and "\<forall>ev\<in>set evs. given \<longrightarrow> (\<forall>x. snd (snd ev) \<noteq> DeleteGrant x)"
  shows "tables_ok env given (scim_run env evs d)"
  using assms(2,3) unfolding scim_run_def
proof (induction evs arbitrary: d)
  case (Cons ev evs)
  then show ?case using tables_step [OF assms(1), of given d ev] by auto
qed simp

section \<open>Properties\<close>

definition recorded_under :: "session_table \<Rightarrow> string \<Rightarrow> string option" where
  "recorded_under s jti = map_option (si_subject \<circ> sr_info) (jm_get s jti)"

lemma recorded_kept: "recorded_under (snd (pg_revokeBySubject subject s)) jti = recorded_under s jti"
  by (cases "jm_get s jti") (simp_all add: recorded_under_def pg_revokeBySubject_get)

lemma revoked_each:
  assumes "jm_ok s" and "recorded_under s jti = Some x \<and> x \<in> set xs \<or> \<not> pg_isActive s jti"
  shows "\<not> pg_isActive (snd (revoke_each (\<lambda>subject s. let (n, s') = pg_revokeBySubject subject s in (int n, s')) xs s)) jti"
  using assms
proof (induction xs arbitrary: s)
  case (Cons y ys)
  let ?s = "snd (pg_revokeBySubject y s)"
  have ok: "pg_ok s" "jm_ok ?s" using Cons.prems(1) by (simp_all add: pg_ok_def pg_revoke_subject_ok)
  have "recorded_under ?s jti = Some x \<and> x \<in> set ys \<or> \<not> pg_isActive ?s jti"
    using Cons.prems(2) pg_sessions.subject_kills [OF ok(1), of jti x] pg_sessions.subject_final [OF ok(1), of jti y]
    by (auto simp: recorded_kept) (auto simp: recorded_under_def)
  then show ?case using Cons.IH [OF ok(2)] by (simp add: split_beta Let_def)
qed simp

lemma subjects_mem: "x \<in> set (subjects_of row) \<longleftrightarrow> x \<noteq> [] \<and> (x = au_subject row \<or> au_email row = Some x)"
  by (auto simp: subjects_of_def split: option.splits)

lemma subjects_set: "set (subjects_of row) = {x. x \<noteq> [] \<and> (x = au_subject row \<or> au_email row = Some x)}"
  by (auto simp: subjects_mem)

definition inactive_for :: "string set \<Rightarrow> broker \<Rightarrow> bool" where
  "inactive_for X b \<longleftrightarrow> (\<forall>h g. jm_get (bk_grants b) h = Some g \<longrightarrow> g_principalId g \<in> X \<longrightarrow> g_status g \<noteq> GrantActive)"

lemma revoked_principals: "inactive_for X b \<Longrightarrow> inactive_for (X \<union> set xs) (snd (revoke_each revokePrincipal xs b))"
proof (induction xs arbitrary: X b)
  case (Cons y ys)
  have "inactive_for (insert y X) (snd (revokePrincipal y b))"
    unfolding inactive_for_def
  proof (intro allI impI)
    fix h g
    assume "jm_get (bk_grants (snd (revokePrincipal y b))) h = Some g" and p: "g_principalId g \<in> insert y X"
    then obtain z where "jm_get (bk_grants b) h = Some z" "g = (if owned_active y z then z\<lparr>g_status := GrantRevoked\<rparr> else z)"
      by (auto simp: revokePrincipal_def split_beta revokeByPrincipal_get simp del: map_of_eq_Some_iff Some_eq_map_of_iff)
    then show "g_status g \<noteq> GrantActive" using Cons.prems p by (auto simp: inactive_for_def owned_active_def split: if_splits)
  qed
  from Cons.IH [OF this] show ?case by (simp add: split_beta)
qed simp

text \<open>
  C21. The tables of the directory stay consistent. After any sequence of provisioning requests, direct grants and session events, whatever fails on the way, ids and names are unique, nothing refers to a
  missing row, and the grant a group member was given is the role the group maps to, for that member. As long as no grant was deleted by hand, every member of a mapped group has its role.\<close>

theorem directory_consistent:
  assumes "ids_ok env"
  shows "dir_ok env (scim_run env evs (empty_directory b)) \<and>
    ((\<forall>ev\<in>set evs. \<forall>x. snd (snd ev) \<noteq> DeleteGrant x) \<longrightarrow> (let d = scim_run env evs (empty_directory b) in
       \<forall>g\<in>set (di_groups d). \<forall>u\<in>set (members_of (sg_id g) d). \<forall>r org. roleFor env (sg_displayName g) = Some (r, org) \<longrightarrow>
         (\<exists>m\<in>set (di_grants d). dm_userId m = u \<and> dm_role m = r \<and> dm_orgId m = map_option db_uuid org \<and> dm_workspaceId m = None)))"
proof -
  have start: "tables_ok env given (empty_directory b)" for given by (simp add: tables_ok_def dir_defs roles_given_def empty_directory_def linked_def map_filter_def)
  have "dir_ok env (scim_run env evs (empty_directory b))" using tables_run [OF assms start [of False], of evs] by (simp add: tables_ok_def)
  moreover have "\<exists>m\<in>set (di_grants d). dm_userId m = u \<and> dm_role m = r \<and> dm_orgId m = map_option db_uuid org \<and> dm_workspaceId m = None"
    if no: "\<forall>ev\<in>set evs. \<forall>x. snd (snd ev) \<noteq> DeleteGrant x" and d: "d = scim_run env evs (empty_directory b)" and g: "g \<in> set (di_groups d)"
      and u: "u \<in> set (members_of (sg_id g) d)" and r: "roleFor env (sg_displayName g) = Some (r, org)" for d g u r org
  proof -
    have t: "tables_ok env True d" unfolding d by (rule tables_run [OF assms start]) (use no in auto)
    obtain l where l: "l \<in> set (di_links d)" "gl_groupId l = sg_id g" "gl_userId l = u" using u by (auto simp: members_of_def)
    then obtain m where m: "m \<in> set (di_grants d)" "gl_membershipId l = Some (dm_id m)" using t g r unfolding tables_ok_def roles_given_def by (metis option.distinct(1))
    then have "grant_fits env (di_groups d) l m" using t l(1) by (simp add: tables_ok_def dir_ok_def fits_ok_def)
    then obtain g' org' where g': "g' \<in> set (di_groups d)" "sg_id g' = sg_id g" "roleFor env (sg_displayName g') = Some (dm_role m, org')"
      and m': "dm_userId m = u" "dm_workspaceId m = None" "dm_orgId m = map_option db_uuid org'" using l by (auto simp: grant_fits_def)
    have "g' = g" by (rule group_named [OF _ g'(1) g g'(2)]) (use t in \<open>simp add: tables_ok_def dir_ok_def\<close>)
    then show ?thesis using m m' g'(3) r by auto
  qed
  ultimately show ?thesis by (simp add: Let_def)
qed

lemma members_add:
  assumes "addMember env gid uid n d = Some d'"
  shows "set (members_of x d') = set (members_of x d) \<union> (if x = db_uuid gid then {db_uuid uid} else {})" "x \<noteq> db_uuid gid \<Longrightarrow> members_of x d' = members_of x d"
  using assms by (elim add_cases; force simp: members_of_def)+

lemma members_adds:
  assumes "add_members env gid n us d = (True, d')"
  shows "set (members_of x d') = set (members_of x d) \<union> (if x = db_uuid gid then db_uuid ` set us else {}) \<and> (x \<noteq> db_uuid gid \<longrightarrow> members_of x d' = members_of x d)"
  using assms
proof (induction us arbitrary: d)
  case (Cons u us)
  then obtain d1 where "addMember env gid u n d = Some d1" "add_members env gid n us d1 = (True, d')" by (auto split: option.splits)
  then show ?case using Cons.IH [of d1] members_add [of env gid u n d d1 x] by auto
qed simp

lemma members_remove:
  "set (members_of x (removeMember gid uid d)) = set (members_of x d) - (if x = db_uuid gid then {db_uuid uid} else {})"
  "x \<noteq> db_uuid gid \<Longrightarrow> members_of x (removeMember gid uid d) = members_of x d"
proof -
  have l: "di_links (removeMember gid uid d) = filter (\<lambda>l. \<not> (gl_groupId l = db_uuid gid \<and> gl_userId l = db_uuid uid)) (di_links d)"
    by (simp add: removeMember_def Let_def split: option.split)
  show "set (members_of x (removeMember gid uid d)) = set (members_of x d) - (if x = db_uuid gid then {db_uuid uid} else {})" by (auto simp: members_of_def l)
  show "members_of x (removeMember gid uid d) = members_of x d" if "x \<noteq> db_uuid gid"
    using that unfolding members_of_def l filter_filter by (intro arg_cong [where f = "map gl_userId"] filter_cong) auto
qed

lemma members_removes:
  "set (members_of x (remove_members gid us d)) = set (members_of x d) - (if x = db_uuid gid then db_uuid ` set us else {}) \<and>
     (x \<noteq> db_uuid gid \<longrightarrow> members_of x (remove_members gid us d) = members_of x d)"
proof (induction us arbitrary: d)
  case (Cons u us)
  have "remove_members gid (u # us) d = remove_members gid us (removeMember gid u d)" by (simp add: remove_members_def)
  then show ?case using Cons.IH [of "removeMember gid u d"] members_remove [of x gid u d] by auto
qed (simp add: remove_members_def)

lemma member_ids_low:
  assumes "ids_ok env" and "dir_ok env d" and "u \<in> set (members_of x d)"
  shows "db_uuid u = u"
proof -
  obtain v where "v \<in> set (di_users d)" "au_id v = u" using assms(2,3) by (force simp: members_of_def dir_ok_def refs_ok_def)
  then show ?thesis using assms(1,2) by (auto simp: dir_ok_def drawn_ok_def drawn_def ids_ok_def)
qed


lemma kept_sessions:
  "di_sessions (snd (upsertBySubject env s n e d)) = di_sessions d" "di_sessions (snd (group_delete i d)) = di_sessions d"
  "di_sessions (removeMember i u d) = di_sessions d" "di_sessions (snd (user_delete i d)) = di_sessions d" "di_sessions (append_audit ad ac ta pa d) = di_sessions d"
  "di_sessions (snd (revokeSubjectGrants row d)) = di_sessions d"
  by (simp_all add: upsertBySubject_def group_delete_def removeMember_def user_delete_def append_audit_def revokeSubjectGrants_def Let_def split_beta split: option.split)

lemma adds_sessions: "di_sessions (snd (add_members env g n us d)) = di_sessions d"
proof (induction us arbitrary: d)
  case (Cons u us)
  show ?case
  proof (cases "addMember env g u n d")
    case (Some d')
    then have "di_sessions d' = di_sessions d" by (elim add_cases) simp_all
    then show ?thesis using Some Cons.IH by simp
  qed simp
qed simp

lemma removes_sessions: "di_sessions (remove_members g us d) = di_sessions d"
  unfolding remove_members_def by (induction us arbitrary: d) (simp_all add: kept_sessions)

lemma patch_sessions: "di_sessions (snd (apply_patch env i g p d)) = di_sessions d"
  by (simp add: apply_patch_def replace_members_def Let_def split_beta adds_sessions removes_sessions split: option.split)

lemma create_sessions: "group_create env n x d = Some (g, d') \<Longrightarrow> di_sessions d' = di_sessions d"
  by (auto simp: group_create_def Let_def split: if_splits)

lemma deprovision_sessions: "di_sessions (snd (deprovision admin logged via row d)) = (if logged then snd (revokeSubjectSessions row (di_sessions d)) else di_sessions d)"
  by (simp add: deprovision_def Let_def split_beta kept_sessions)

lemma step_sessions:
  "di_sessions (scim_step env ev d) = di_sessions d \<or> (\<exists>row. di_sessions (scim_step env ev d) = snd (revokeSubjectSessions row (di_sessions d))) \<or>
   (\<exists>info. di_sessions (scim_step env ev d) = pg_record info (di_sessions d)) \<or> (\<exists>stamp jti. di_sessions (scim_step env ev d) = pg_revoke stamp jti (di_sessions d))"
  by (cases "(env, ev, d)" rule: scim_step.cases)
    (auto simp: post_user_def patch_user_def delete_user_def post_group_def patch_group_def delete_group_def membership_delete_def Let_def split_beta kept_sessions adds_sessions
      patch_sessions deprovision_sessions created_sessions create_sessions split: option.split bool.split)

text \<open>A revoked session stays revoked, whatever the directory does next.\<close>

lemma session_stays_dead:
  assumes "jm_ok (di_sessions d)" and "\<not> pg_isActive (di_sessions d) jti"
  shows "\<not> pg_isActive (di_sessions (scim_step env ev d)) jti"
proof -
  have pg: "pg_ok (di_sessions d)" using assms(1) by (simp add: pg_ok_def)
  have "\<not> pg_isActive (snd (revokeSubjectSessions row (di_sessions d))) jti" for row
    using revoked_each [OF assms(1), of jti _ "subjects_of row"] assms(2) by (simp add: revokeSubjectSessions_def)
  then show ?thesis using step_sessions [of env ev d] pg_sessions.record_final [OF pg assms(2)] pg_sessions.revoke_final [OF pg assms(2)] assms(2) by metis
qed

lemma session_stays_dead_run:
  assumes "ids_ok env" and "tables_ok env False d" and "\<not> pg_isActive (di_sessions d) jti"
  shows "\<not> pg_isActive (di_sessions (scim_run env evs d)) jti"
  using assms(2,3) unfolding scim_run_def
proof (induction evs arbitrary: d)
  case (Cons ev evs)
  then show ?case using tables_step [OF assms(1), of False d ev] session_stays_dead [OF tables_jm] by simp
qed simp

lemma deprovision_tables:
  assumes "deprovision admin logged via row d = (True, d')" and "db_uuid (au_id row) = au_id row"
  shows "di_users d' = filter (\<lambda>u. au_id u \<noteq> au_id row) (di_users d)" "di_grants d' = filter (\<lambda>m. dm_userId m \<noteq> au_id row) (di_grants d)"
    "di_links d' = filter (\<lambda>l. gl_userId l \<noteq> au_id row) (di_links d)" "di_sessions d' = snd (revokeSubjectSessions row (di_sessions d))"
    "\<forall>br. di_broker d' = Some br \<longrightarrow> inactive_for (set (subjects_of row)) br"
proof -
  have d': "d' = snd (deprovision admin logged via row d)" "logged" using assms(1) by (auto simp: deprovision_def Let_def split_beta split: if_splits)
  have g: "di_users (snd (revokeSubjectGrants row d)) = di_users d" "di_grants (snd (revokeSubjectGrants row d)) = di_grants d" "di_links (snd (revokeSubjectGrants row d)) = di_links d"
    "\<forall>br. di_broker (snd (revokeSubjectGrants row d)) = Some br \<longrightarrow> inactive_for (set (subjects_of row)) br"
    using revoked_principals [of "{}" _ "subjects_of row"] by (auto simp: revokeSubjectGrants_def split_beta inactive_for_def split: option.split)
  show "di_users d' = filter (\<lambda>u. au_id u \<noteq> au_id row) (di_users d)" "di_grants d' = filter (\<lambda>m. dm_userId m \<noteq> au_id row) (di_grants d)"
    "di_links d' = filter (\<lambda>l. gl_userId l \<noteq> au_id row) (di_links d)" "di_sessions d' = snd (revokeSubjectSessions row (di_sessions d))"
    "\<forall>br. di_broker d' = Some br \<longrightarrow> inactive_for (set (subjects_of row)) br"
    using d'(2) g assms(2) by (simp_all add: d'(1) deprovision_def Let_def split_beta append_audit_def user_delete_def kept_sessions)
qed


section \<open>An example\<close>

definition sample_id :: "nat \<Rightarrow> string" where
  "sample_id i = ''00000000-0000-0000-0000-00000000000'' @ show_nat i"

definition sample_scim :: scim_env where
  "sample_scim = \<lparr>se_db = True, se_resolver = Some (\<lambda>r. Inr None), se_roleMap = [(''admins'', (''admin'', ''*''))], se_ids = sample_id, se_num = two_numbers\<rparr>"

lemma sample_ids_ok: "ids_ok sample_scim"
proof -
  have "lower_char c = c" if "is_digit c" for c using that by (simp add: lower_char_def is_digit_def Let_def)
  then have "map lower_char (show_nat i) = show_nat i" for i using show_nat_digits [of i] by (simp add: list_all_iff map_idI)
  then show ?thesis by (auto simp: ids_ok_def sample_scim_def sample_id_def db_uuid_def to_lower_def lower_char_def intro!: injI dest: show_nat_inj)
qed

definition sample_directory :: directory where
  "sample_directory =
     (empty_directory None)\<lparr>di_users := [\<lparr>au_id = sample_id 0, au_subject = ''alice'', au_displayName = ''Alice'', au_email = None\<rparr>],
       di_groups := [\<lparr>sg_id = sample_id 1, sg_externalId = None, sg_displayName = ''admins''\<rparr>], di_next := 2\<rparr>"

lemma sample_directory_ok: "dir_ok sample_scim sample_directory"
  by (auto simp: sample_directory_def dir_defs empty_directory_def linked_def drawn_def sample_scim_def List.map_filter_simps intro: exI [of _ "0 :: nat"] exI [of _ "1 :: nat"])

lemma sample_uuid: "isUuid (sample_id 0)" "isUuid (sample_id 1)" "db_uuid (sample_id 0) = sample_id 0" "db_uuid (sample_id 1) = sample_id 1" "sample_id 0 \<noteq> sample_id 1"
  by code_simp+

lemma sample_guard: "scim_guard sample_scim bootstrap_principal = None"
proof -
  have "isRole ''owner''" "Perm Membership Create \<in> set (PERMISSIONS_BY_ROLE ''owner'')" by code_simp+
  then show ?thesis by (simp add: scim_guard_def sample_scim_def bootstrap_principal_def can_def covers_def permissionsOf_def)
qed

definition sample_patch :: json where
  "sample_patch = JObj [(''Operations'', JArr [JObj [(''op'', JStr ''Add''), (''path'', JStr ''members''), (''value'', JArr [JObj [(''value'', JStr (sample_id 0))]])]])]"

lemma sample_patch_parsed: "parseGroupPatch n sample_patch = Some \<lparr>gp_adds = [sample_id 0], gp_removes = [], gp_replace = None\<rparr>"
proof -
  have low: "to_lower ''Add'' = ''add''" by code_simp
  have "sample_id 0 \<noteq> []" by (simp add: sample_id_def)
  then have "str_field (Some (JStr (sample_id 0))) = Some (sample_id 0)" by (cases "sample_id 0") (simp_all add: str_field_def)
  then show ?thesis
    by (simp add: parseGroupPatch_def sample_patch_def operations_def member_of_object_def patch_op_def op_kind_def low op_path_def memberValues_def List.map_filter_simps Let_def)
qed



theorem directory_consistent_witness:
  "dir_ok sample_scim (scim_run sample_scim [(bootstrap_principal, True, PostUser (JObj [(''userName'', JStr ''alice'')]))] (empty_directory None)) \<and>
   di_users (scim_run sample_scim [(bootstrap_principal, True, PostUser (JObj [(''userName'', JStr ''alice'')]))] (empty_directory None)) \<noteq> []"
  using directory_consistent [OF sample_ids_ok, of "[(bootstrap_principal, True, PostUser (JObj [(''userName'', JStr ''alice'')]))]" None]
  by (simp add: scim_run_def post_user_def sample_guard member_of_object_def str_field_def upsertBySubject_def empty_directory_def append_audit_def Let_def)

end
