(* ===== verification/Spec2Isabelle.thy ===== *)
theory Spec2Isabelle
  imports Budget_Admission Rate_Limit Cost Auth Model_Router Control_Roles Audit_Mirror Log_Batching OAuth_Safety Cache
    Eventstream Guardrail_Stream Egress Cel_Policy Redis_Budget Redis_Rate Tool_Governance Hedge Scim
begin

text \<open>
  Verification of the gulley LLM gateway.

  The program. A gateway (\<^verbatim>\<open>src/apps/gateway\<close>) accepts model requests under virtual keys, applies policies, guardrails and a cache, reserves
  budget, picks an upstream, forwards the request with retries, failover and hedging, and meters what was served. A control plane
  (\<^verbatim>\<open>src/apps/control-api\<close>) administers users, roles, keys and sessions, brokers OAuth tokens and keeps a signed audit trail. The packages under
  \<^verbatim>\<open>src/packages\<close> hold the logic and the two applications compose it.

  Theories and what they model:
  \<^item> \<open>Gulley_Prelude\<close>, \<open>Js_Json\<close>, \<open>Js_Parse\<close>: JavaScript maps, numbers and strings as the program uses them, \<^verbatim>\<open>JSON.stringify\<close> and
    \<^verbatim>\<open>JSON.parse\<close>, the canonical text of \<^verbatim>\<open>pipeline/src/audit.ts\<close>, and the locale \<open>step_system\<close> of a step function with an invariant.
  \<^item> \<open>Calendar\<close>, \<open>Budget_Window\<close>, \<open>Budget\<close>, \<open>Budget_Safety\<close>: dates, windows, specifications, scopes and the in-memory store of \<^verbatim>\<open>packages/budget\<close>; its runs.
  \<^item> \<open>Redis_Api\<close>, \<open>Redis_Budget\<close>, \<open>Redis_Rate\<close>: the Redis commands the scripts use, as a locale, and the Lua scripts and methods of
    \<^verbatim>\<open>budget/src/redis.ts\<close> and \<^verbatim>\<open>ratelimit/src/redis.ts\<close>.
  \<^item> \<open>Cost\<close>: the price tables and metering of \<^verbatim>\<open>packages/cost\<close> and the estimate of \<^verbatim>\<open>budget/src/estimate.ts\<close>.
  \<^item> \<open>Budget_Admission\<close>: \<^verbatim>\<open>gateway/src/budget-scopes.ts\<close> and the budget stage and teardown of \<^verbatim>\<open>gateway/src/routes/messages.ts\<close>, against any store
    that keeps the contract \<open>budget_backend\<close>.
  \<^item> \<open>Rate_Limit\<close>: the fixed-window store and the limiter of \<^verbatim>\<open>packages/ratelimit\<close>.
  \<^item> \<open>Breaker\<close>, \<open>Target_Health\<close>, \<open>Routing\<close>, \<open>Model_Router\<close>: breaker, outlier detector, adaptive limiter, candidate selection, preferences, model rules and
    request shaping of \<^verbatim>\<open>packages/routing\<close>.
  \<^item> \<open>Dispatch\<close>, \<open>Hedge\<close>: the loop over the candidates of the messages handler, its retries, the hedging race and the part of the teardown that gives
    back what a request holds. Everything other requests do meanwhile to the shared breaker and limiter is an argument.
  \<^item> \<open>Auth\<close>, \<open>Admin_Session\<close>: virtual keys, their store and resolver; signed administrator sessions, their stores and resolver (\<^verbatim>\<open>packages/auth\<close>,
    \<^verbatim>\<open>storage/src/admin-session-store.ts\<close>).
  \<^item> \<open>Rbac\<close>, \<open>Control_Roles\<close>, \<open>Scim\<close>: the permission engine of \<^verbatim>\<open>packages/rbac\<close>, the role catalogue and grants of the control plane, and
    provisioning by an identity provider (\<^verbatim>\<open>control-api/src/scim.ts\<close> with the tables it writes).
  \<^item> \<open>OAuth_Store\<close>, \<open>OAuth_Broker\<close>, \<open>OAuth_Safety\<close>: the stores and the service of \<^verbatim>\<open>packages/oauth\<close> and its runs.
  \<^item> \<open>Audit_Chain\<close>, \<open>Audit_Mirror\<close>, \<open>Request_Log\<close>, \<open>Log_Batching\<close>: the hash-chained audit trail, its attestations and signed mirror, the request log and
    its batching writer (\<^verbatim>\<open>packages/pipeline\<close>, \<^verbatim>\<open>packages/worm\<close>).
  \<^item> \<open>Sse\<close>, \<open>Eventstream\<close>: the stream parsers of \<^verbatim>\<open>packages/providers\<close>; \<open>Tool_Governance\<close>: the tool policy of \<^verbatim>\<open>gateway/src/tool-governance.ts\<close> and its gate.
  \<^item> \<open>Cache\<close>: keys, tiers and engine of \<^verbatim>\<open>packages/cache\<close>.
  \<^item> \<open>Guardrail_Findings\<close>, \<open>Guardrail_Engine\<close>, \<open>Guardrail_Stream\<close>: overlaps, policies, the vault and the streaming redactor of \<^verbatim>\<open>packages/guardrails\<close>.
  \<^item> \<open>Egress\<close>: the URL, address and path guard of \<^verbatim>\<open>packages/egress\<close>.
  \<^item> \<open>Cel_Syntax\<close>, \<open>Cel_Eval\<close>, \<open>Cel_Policy\<close>: lexer and parser, evaluator and policies of \<^verbatim>\<open>packages/cel\<close>.

  How state and operations correspond. A class is a record or a map of its fields, a method a function that takes the state and
  returns the new one, a handler a function from the request and the state to the reply and the state. Errors and throws are the left of a sum or
  a constructor of the outcome. Clocks, random draws, hashes, codecs, resolvers, providers and the ids a database draws are
  arguments; what is relied on of them is a named hypothesis or a locale. Times are whole milliseconds, money whole micro-dollars or exact
  reals, ratios and averages exact reals; the 32-bit hash of the rendezvous order is a word. Concurrency is a sequence of steps: of store calls, of
  events of a race, or of what others do between two awaits.

  What is shown. Invariants of every store over all runs of its operations, on one replica and on many over one Redis; the decisions of
  each operation on every branch; that budgets and rate limits hold and that admission, refusal, dispatch and teardown leave no
  reservation, slot or probe behind; that a request a provider accepted is never sent twice; that residency, permissions and delegated sessions
  never widen; that keys, sessions, token families and users that were revoked stay out; that the audit trail shows tampering and the
  mirror restores it; that streams are parsed and redacted alike in any chunks; that the cache, the policies and the
  egress guard keep tenants and addresses apart; round trips of keys, sessions, masks, scopes and expressions.

  Bounds and fuel. No definition uses fuel. Loops are structural recursion or have a termination proof: the weighted shuffle, the eviction and
  search loops of the stores, the frame and token loops of the stream parsers, the CEL lexer and parser (whose loops stop when nothing is
  consumed, which is shown not to happen) and evaluator, and the decoding of URLs. The retry loop recurses over the attempts left. The nesting limits of
  200 for CEL and for canonical texts are the program's own.

  Not modelled. Network, storage drivers and rendering; the reporting queries in SQL; the configuration files and the assembly of the two
  applications; the stages of the messages handler other than budget, dispatch and tool policy; the translation between
  provider dialects; the patterns of the detectors; the rounding of floating-point arithmetic, which the exact reals leave out; code units above 255
  in strings.
\<close>

end
